(* ===== verification/Stream_Machine.thy ===== *)
theory Stream_Machine
  imports Lector_Prelude
begin

text \<open>
  The interface that Lector's byte consumers share. A consumer has a step for one byte and
  a run over a chunk; what its clients rely on is that a run is the fold of the steps, so
  that the way the transport cuts the stream into chunks cannot be observed.
  \<open>fallible_stream\<close> is a consumer that may refuse a byte and then loses its state
  (the tmux control parser), \<open>total_stream\<close> one that accepts every byte (the terminal
  probe brokers and the line editor).
\<close>

locale total_stream =
  fixes step :: "'s \<Rightarrow> 'b \<Rightarrow> 's \<times> 'e list"
    and run :: "'s \<Rightarrow> 'b list \<Rightarrow> 's \<times> 'e list"
  assumes run_Nil: "run s [] = (s, [])"
    and run_Cons: "run s (b # bs) =
      (case step s b of (s', e) \<Rightarrow> case run s' bs of (s'', e') \<Rightarrow> (s'', e @ e'))"
begin

lemma run_append:
  "run s (xs @ ys) =
     (case run s xs of (s', e) \<Rightarrow> case run s' ys of (s'', e') \<Rightarrow> (s'', e @ e'))"
  by (induction xs arbitrary: s) (auto simp: run_Nil run_Cons split: prod.splits)

lemma run_invariant:
  assumes "\<And>s b. I s \<Longrightarrow> I (fst (step s b))"
  shows "I s \<Longrightarrow> I (fst (run s bs))"
proof (induction bs arbitrary: s)
  case Nil
  then show ?case by (simp add: run_Nil)
next
  case (Cons b bs)
  from Cons.IH [OF assms [OF Cons.prems, of b]] show ?case
    by (simp add: run_Cons case_prod_beta)
qed

end

locale fallible_stream =
  fixes step :: "'s \<Rightarrow> 'b \<Rightarrow> ('s \<times> 'e list, 'x) result"
    and poison :: "'s \<Rightarrow> 's"
    and run :: "'s \<Rightarrow> 'b list \<Rightarrow> ('e list, 'x) result \<times> 's"
  assumes run_Nil: "run s [] = (Ok [], s)"
    and run_Cons: "run s (b # bs) =
      (case step s b of
         Err x \<Rightarrow> (Err x, poison s)
       | Ok (s', e) \<Rightarrow> (case run s' bs of (Err x, s'') \<Rightarrow> (Err x, s'')
                                    | (Ok e', s'') \<Rightarrow> (Ok (e @ e'), s'')))"
begin

lemma run_append:
  "run s (xs @ ys) =
     (case run s xs of
        (Err x, s') \<Rightarrow> (Err x, s')
      | (Ok e, s') \<Rightarrow> (case run s' ys of (Err x, s'') \<Rightarrow> (Err x, s'')
                                    | (Ok e', s'') \<Rightarrow> (Ok (e @ e'), s'')))"
  by (induction xs arbitrary: s) (auto simp: run_Nil run_Cons split: prod.splits result.splits)

lemma run_append_Ok:
  "run s xs = (Ok e, s') \<Longrightarrow> run s' ys = (Ok e', s'') \<Longrightarrow> run s (xs @ ys) = (Ok (e @ e'), s'')"
  by (simp add: run_append)

lemma run_invariant:
  assumes "\<And>s b s' e. I s \<Longrightarrow> step s b = Ok (s', e) \<Longrightarrow> I s'"
    and "\<And>s. I s \<Longrightarrow> I (poison s)"
  shows "I s \<Longrightarrow> I (snd (run s bs))"
proof (induction bs arbitrary: s)
  case Nil
  then show ?case by (simp add: run_Nil)
next
  case (Cons b bs)
  show ?case
  proof (cases "step s b")
    case (Err x)
    with Cons.prems assms(2) show ?thesis by (simp add: run_Cons)
  next
    case (Ok y)
    then obtain s' e where y: "step s b = Ok (s', e)" by (cases y) auto
    from Cons.IH [OF assms(1) [OF Cons.prems y]] y show ?thesis
      by (cases "run s' bs") (auto simp: run_Cons split: result.splits)
  qed
qed

text \<open>An invariant that only has to hold while the consumer accepts its input.\<close>

lemma run_Ok_invariant:
  assumes "\<And>s b s' e. I s \<Longrightarrow> step s b = Ok (s', e) \<Longrightarrow> I s'"
  shows "I s \<Longrightarrow> run s bs = (Ok es, s') \<Longrightarrow> I s'"
proof (induction bs arbitrary: s es)
  case Nil
  then show ?case by (simp add: run_Nil)
next
  case (Cons b bs)
  then obtain s1 e es' where "step s b = Ok (s1, e)" "run s1 bs = (Ok es', s')"
    by (auto simp: run_Cons split: prod.splits result.splits)
  with Cons.IH assms Cons.prems(1) show ?case by blast
qed

end

end
