(* ===== verification/Tmux_Control.thy ===== *)
theory Tmux_Control
  imports Stream_Machine
begin

text \<open>
  The streaming parser of the tmux control-mode wire protocol
  (\<^verbatim>\<open>src/src/tmux_control.rs\<close>), with the octal encoder of the control peer in
  \<^verbatim>\<open>src/src/bin/tmux-control-adversary.rs\<close> that it is the inverse of.

  The parser is a record; \<open>push\<close> feeds it a chunk of bytes and returns the events or the
  error together with the new parser. \<open>push_byte\<close> and \<open>process_line\<close> return the events
  they append to the caller's vector. On an error \<open>push\<close> overwrites every mutable field, so
  the error branches of the two helpers carry no parser.
\<close>

section \<open>Data\<close>

definition CONTROL_START :: bytes where
  "CONTROL_START = CHR 0x1B # ''P1000p''"

record parser_limits =
  max_line_bytes :: nat
  max_command_output_bytes :: nat
  max_command_output_lines :: nat
  max_notification_bytes :: nat

definition default_limits :: parser_limits where
  "default_limits =
     \<lparr> max_line_bytes = 64 * 1024,
       max_command_output_bytes = 4 * 1024 * 1024,
       max_command_output_lines = 65536,
       max_notification_bytes = 64 * 1024 \<rparr>"

datatype command_status = Success | Error

datatype control_event =
    Started
  | Command u64 u64 u64 command_status "bytes list"
  | Output u64 bytes
  | ExtendedOutput u64 u64 "bytes list" bytes
  | Pause u64
  | Continue u64
  | Exit "bytes option"
  | Notification bytes bytes
  | Ended

datatype unterminated_state =
  StartMarker | Record | CommandBlock | ControlStream | StringTerminator

datatype control_parse_error =
    InvalidStartMarker nat
  | InvalidStringTerminator
  | TrailingData
  | ParserPoisoned
  | MalformedRecord
  | InvalidNumber string
  | UnexpectedCommandTerminator
  | InvalidPaneId
  | InvalidOctalEscape
  | LineTooLong nat
  | CommandOutputTooLong nat
  | TooManyCommandOutputLines nat
  | NotificationTooLong nat
  | Unterminated unterminated_state

fun is_malformed :: "control_parse_error \<Rightarrow> bool" where
  "is_malformed (LineTooLong _) = False"
| "is_malformed (CommandOutputTooLong _) = False"
| "is_malformed (TooManyCommandOutputLines _) = False"
| "is_malformed (NotificationTooLong _) = False"
| "is_malformed (Unterminated _) = False"
| "is_malformed ParserPoisoned = False"
| "is_malformed _ = True"

fun is_unterminated :: "control_parse_error \<Rightarrow> bool" where
  "is_unterminated (Unterminated _) = True"
| "is_unterminated _ = False"

record command_tag =
  timestamp :: u64
  number :: u64
  flags :: u64

record pending_command =
  pc_tag :: command_tag
  pc_output :: "bytes list"
  pc_output_bytes :: nat

datatype parse_state = Start nat | Records | PossibleStringTerminator | StateEnded | Failed

record control_parser =
  cp_limits :: parser_limits
  cp_state :: parse_state
  cp_line :: bytes
  cp_pending_command :: "pending_command option"

section \<open>Field parsers\<close>

definition parse_u64 :: "bytes option \<Rightarrow> string \<Rightarrow> (u64, control_parse_error) result" where
  "parse_u64 bs field =
     (case bs of
        None \<Rightarrow> Err MalformedRecord
      | Some b \<Rightarrow>
          if b = [] \<or> \<not> list_all is_ascii_digit b then Err (InvalidNumber field)
          else (case parse_uint 64 b of
                  None \<Rightarrow> Err (InvalidNumber field)
                | Some n \<Rightarrow> Ok (of_nat n)))"

text \<open>\<^verbatim>\<open>fields.next()\<close>: the field at that index of the splitting iterator, if there is one.\<close>

definition field_at :: "'a list \<Rightarrow> nat \<Rightarrow> 'a option" where
  "field_at fs i = (if i < length fs then Some (fs ! i) else None)"

definition parse_command_tag :: "bytes \<Rightarrow> (command_tag, control_parse_error) result" where
  "parse_command_tag b =
     (let fields = split_on CHR '' '' b in
      bind_result (parse_u64 (field_at fields 0) ''command timestamp'') (\<lambda>t.
      bind_result (parse_u64 (field_at fields 1) ''command number'') (\<lambda>n.
      bind_result (parse_u64 (field_at fields 2) ''command flags'') (\<lambda>f.
        if field_at fields 3 \<noteq> None then Err MalformedRecord
        else Ok \<lparr> timestamp = t, number = n, flags = f \<rparr>))))"

definition parse_pane_id :: "bytes \<Rightarrow> (u64, control_parse_error) result" where
  "parse_pane_id b =
     (case strip_prefix b ''%'' of
        None \<Rightarrow> Err InvalidPaneId
      | Some digits \<Rightarrow>
          if digits = [] \<or> \<not> list_all is_ascii_digit digits then Err InvalidPaneId
          else (case parse_uint 64 digits of None \<Rightarrow> Err InvalidPaneId | Some n \<Rightarrow> Ok (of_nat n)))"

definition parse_single_pane :: "bytes \<Rightarrow> (u64, control_parse_error) result" where
  "parse_single_pane b = (if CHR '' '' \<in> set b then Err MalformedRecord else parse_pane_id b)"

definition split_once_space :: "bytes \<Rightarrow> (bytes \<times> bytes, control_parse_error) result" where
  "split_once_space b =
     (case position (\<lambda>c. c = CHR '' '') b of
        None \<Rightarrow> Err MalformedRecord
      | Some i \<Rightarrow> Ok (take i b, drop (i + 1) b))"

definition is_octal_digit :: "byte \<Rightarrow> bool" where
  "is_octal_digit c \<longleftrightarrow> 48 \<le> byte_val c \<and> byte_val c \<le> 55"

fun decode_octal :: "bytes \<Rightarrow> (bytes, control_parse_error) result" where
  "decode_octal [] = Ok []"
| "decode_octal (b # bs) =
     (if b \<noteq> CHR 0x5C then bind_result (decode_octal bs) (\<lambda>r. Ok (b # r))
      else (case bs of
              d0 # d1 # d2 # rest \<Rightarrow>
                if is_octal_digit d0 \<and> is_octal_digit d1 \<and> is_octal_digit d2 then
                  (let v = digit_val d0 * 64 + digit_val d1 * 8 + digit_val d2 in
                   if v < 256 then bind_result (decode_octal rest) (\<lambda>r. Ok (char_of v # r))
                   else Err InvalidOctalEscape)
                else Err InvalidOctalEscape
            | _ \<Rightarrow> Err InvalidOctalEscape))"

text \<open>The peer's encoder: printable bytes but the backslash as they are, others as \<open>\ooo\<close>.\<close>

definition encode_octal_byte :: "byte \<Rightarrow> bytes" where
  "encode_octal_byte b =
     (if 32 \<le> byte_val b \<and> byte_val b \<le> 126 \<and> b \<noteq> CHR 0x5C then [b]
      else [CHR 0x5C, digit_char (byte_val b div 64), digit_char (byte_val b div 8 mod 8),
            digit_char (byte_val b mod 8)])"

definition encode_octal :: "bytes \<Rightarrow> bytes" where
  "encode_octal bs = concat (map encode_octal_byte bs)"

definition parse_extended_output :: "bytes \<Rightarrow> (control_event, control_parse_error) result" where
  "parse_extended_output b =
     (case find_sub '' : '' b of
        None \<Rightarrow> Err MalformedRecord
      | Some separator \<Rightarrow>
          let fields = split_on CHR '' '' (take separator b);
              val = drop (separator + 3) b in
          bind_result (ok_or (field_at fields 0) MalformedRecord) (\<lambda>pane.
          let age = field_at fields 1; future_fields = drop 2 fields in
          if [] \<in> set future_fields then Err MalformedRecord
          else bind_result (parse_pane_id pane) (\<lambda>pane_id.
               bind_result (parse_u64 age ''extended-output age'') (\<lambda>age_ms.
               bind_result (decode_octal val) (\<lambda>decoded.
                 Ok (ExtendedOutput pane_id age_ms future_fields decoded))))))"

section \<open>Lines\<close>

definition finish_command ::
  "control_parser \<Rightarrow> pending_command \<Rightarrow> command_status \<Rightarrow> control_parser \<times> control_event list" where
  "finish_command p pending status =
     (p\<lparr>cp_pending_command := None\<rparr>,
      [Command (timestamp (pc_tag pending)) (number (pc_tag pending)) (flags (pc_tag pending))
         status (pc_output pending)])"

text \<open>Whether the line is the given terminator and carries the tag of the open block.\<close>

definition closes_block :: "bytes \<Rightarrow> bytes \<Rightarrow> command_tag \<Rightarrow> bool" where
  "closes_block line keyword tag =
     (case strip_prefix line keyword of
        None \<Rightarrow> False
      | Some rest \<Rightarrow> parse_command_tag rest = Ok tag)"

definition process_pending_line ::
  "control_parser \<Rightarrow> pending_command \<Rightarrow> bytes
     \<Rightarrow> (control_parser \<times> control_event list, control_parse_error) result" where
  "process_pending_line p pending line =
     (if closes_block line ''%end '' (pc_tag pending) then Ok (finish_command p pending Success)
      else if closes_block line ''%error '' (pc_tag pending) then Ok (finish_command p pending Error)
      else if length (pc_output pending) = max_command_output_lines (cp_limits p) then
        Err (TooManyCommandOutputLines (max_command_output_lines (cp_limits p)))
      else (case checked_add_usize (pc_output_bytes pending) (length line) of
              None \<Rightarrow> Err (CommandOutputTooLong (max_command_output_bytes (cp_limits p)))
            | Some output_bytes \<Rightarrow>
                if output_bytes > max_command_output_bytes (cp_limits p) then
                  Err (CommandOutputTooLong (max_command_output_bytes (cp_limits p)))
                else Ok (p\<lparr>cp_pending_command := Some (pending\<lparr>pc_output := pc_output pending @ [line],
                                                             pc_output_bytes := output_bytes\<rparr>)\<rparr>, [])))"

text \<open>The generic notification at the end of \<open>process_line\<close>: \<open>%name arguments\<close>.\<close>

definition parse_notification :: "bytes \<Rightarrow> (control_event, control_parse_error) result" where
  "parse_notification line =
     (let body = drop 1 line;
          (name, arguments) = (case position (\<lambda>c. c = CHR '' '') body of
                                 Some i \<Rightarrow> (take i body, drop (i + 1) body)
                               | None \<Rightarrow> (body, [])) in
      if name = [] \<or>
         \<not> list_all (\<lambda>c. is_ascii_lowercase c \<or> is_ascii_digit c \<or> c = CHR ''-'') name
      then Err MalformedRecord
      else Ok (Notification name arguments))"

definition bare_keywords :: "bytes list" where
  "bare_keywords =
     [''%begin'', ''%end'', ''%error'', ''%output'', ''%extended-output'', ''%pause'', ''%continue'']"

text \<open>A record outside a command block that is neither \<open>%begin\<close> nor an error.\<close>

definition parse_record :: "bytes \<Rightarrow> (control_event, control_parse_error) result" where
  "parse_record line =
     (case strip_prefix line ''%output '' of
        Some rest \<Rightarrow>
          bind_result (split_once_space rest) (\<lambda>(pane, val).
          bind_result (parse_pane_id pane) (\<lambda>pane_id.
          bind_result (decode_octal val) (\<lambda>decoded. Ok (Output pane_id decoded))))
      | None \<Rightarrow>
     (case strip_prefix line ''%extended-output '' of
        Some rest \<Rightarrow> parse_extended_output rest
      | None \<Rightarrow>
     (case strip_prefix line ''%pause '' of
        Some rest \<Rightarrow> bind_result (parse_single_pane rest) (\<lambda>pane_id. Ok (Pause pane_id))
      | None \<Rightarrow>
     (case strip_prefix line ''%continue '' of
        Some rest \<Rightarrow> bind_result (parse_single_pane rest) (\<lambda>pane_id. Ok (Continue pane_id))
      | None \<Rightarrow>
     (if line = ''%exit'' then Ok (Exit None)
      else (case strip_prefix line ''%exit '' of
              Some reason \<Rightarrow> Ok (Exit (if reason = [] then None else Some reason))
            | None \<Rightarrow> parse_notification line))))))"

definition process_line ::
  "control_parser \<Rightarrow> bytes \<Rightarrow> (control_parser \<times> control_event list, control_parse_error) result" where
  "process_line p line =
     (case cp_pending_command p of
        Some pending \<Rightarrow> process_pending_line p pending line
      | None \<Rightarrow>
     (case strip_prefix line ''%begin '' of
        Some rest \<Rightarrow>
          bind_result (parse_command_tag rest) (\<lambda>tag.
            Ok (p\<lparr>cp_pending_command :=
                    Some \<lparr> pc_tag = tag, pc_output = [], pc_output_bytes = 0 \<rparr>\<rparr>, []))
      | None \<Rightarrow>
      if starts_with line ''%end '' \<or> starts_with line ''%error '' then
        Err UnexpectedCommandTerminator
      else if line \<in> set bare_keywords then Err MalformedRecord
      else if \<not> starts_with line ''%'' then Err MalformedRecord
      else if length line > max_notification_bytes (cp_limits p) then
        Err (NotificationTooLong (max_notification_bytes (cp_limits p)))
      else bind_result (parse_record line) (\<lambda>e. Ok (p, [e]))))"

section \<open>The byte machine\<close>

definition control_with_limits :: "parser_limits \<Rightarrow> control_parser" where
  "control_with_limits l =
     \<lparr> cp_limits = l, cp_state = Start 0, cp_line = [], cp_pending_command = None \<rparr>"

definition control_new :: control_parser where
  "control_new = control_with_limits default_limits"

definition control_reset :: "control_parser \<Rightarrow> control_parser" where
  "control_reset p = p\<lparr>cp_state := Start 0, cp_line := [], cp_pending_command := None\<rparr>"

text \<open>\<^verbatim>\<open>while self.line.last() == Some(&b'\r') { self.line.pop(); }\<close>\<close>

definition pop_carriage_returns :: "bytes \<Rightarrow> bytes" where
  "pop_carriage_returns line = rev (dropWhile (\<lambda>c. c = CHR 0x0D) (rev line))"

definition control_push_byte ::
  "control_parser \<Rightarrow> byte \<Rightarrow> (control_parser \<times> control_event list, control_parse_error) result" where
  "control_push_byte p b =
     (case cp_state p of
        Start matched \<Rightarrow>
          if b \<noteq> CONTROL_START ! matched then Err (InvalidStartMarker matched)
          else if matched + 1 = length CONTROL_START then Ok (p\<lparr>cp_state := Records\<rparr>, [Started])
          else Ok (p\<lparr>cp_state := Start (matched + 1)\<rparr>, [])
      | Records \<Rightarrow>
          if cp_line p = [] \<and> b = CHR 0x1B \<and> cp_pending_command p = None then
            Ok (p\<lparr>cp_state := PossibleStringTerminator\<rparr>, [])
          else if b = CHR 0x0A then
            process_line (p\<lparr>cp_line := []\<rparr>) (pop_carriage_returns (cp_line p))
          else if length (cp_line p) = max_line_bytes (cp_limits p) then
            Err (LineTooLong (max_line_bytes (cp_limits p)))
          else Ok (p\<lparr>cp_line := cp_line p @ [b]\<rparr>, [])
      | PossibleStringTerminator \<Rightarrow>
          if b \<noteq> CHR 0x5C then Err InvalidStringTerminator
          else Ok (p\<lparr>cp_state := StateEnded\<rparr>, [Ended])
      | StateEnded \<Rightarrow> Err TrailingData
      | Failed \<Rightarrow> Err ParserPoisoned)"

definition control_poison :: "control_parser \<Rightarrow> control_parser" where
  "control_poison p = p\<lparr>cp_state := Failed, cp_line := [], cp_pending_command := None\<rparr>"

fun control_push_loop ::
  "control_parser \<Rightarrow> bytes \<Rightarrow> (control_event list, control_parse_error) result \<times> control_parser" where
  "control_push_loop p [] = (Ok [], p)"
| "control_push_loop p (b # bs) =
     (case control_push_byte p b of
        Err e \<Rightarrow> (Err e, control_poison p)
      | Ok (p', evs) \<Rightarrow>
          (case control_push_loop p' bs of
             (Err e, p'') \<Rightarrow> (Err e, p'')
           | (Ok evs', p'') \<Rightarrow> (Ok (evs @ evs'), p'')))"

definition control_push ::
  "control_parser \<Rightarrow> bytes \<Rightarrow> (control_event list, control_parse_error) result \<times> control_parser" where
  "control_push p bs =
     (if cp_state p = Failed then (Err ParserPoisoned, p) else control_push_loop p bs)"

definition control_finish ::
  "control_parser \<Rightarrow> (control_event list, control_parse_error) result \<times> control_parser" where
  "control_finish p =
     (case cp_state p of
        StateEnded \<Rightarrow> (Ok [], p)
      | Failed \<Rightarrow> (Err ParserPoisoned, control_poison p)
      | Start _ \<Rightarrow> (Err (Unterminated StartMarker), control_poison p)
      | PossibleStringTerminator \<Rightarrow> (Err (Unterminated StringTerminator), control_poison p)
      | Records \<Rightarrow>
          (Err (Unterminated
                  (if cp_line p \<noteq> [] then Record
                   else if cp_pending_command p \<noteq> None then CommandBlock
                   else ControlStream)), control_poison p))"

section \<open>Framing: the parser as a fallible stream\<close>

interpretation control: fallible_stream control_push_byte control_poison control_push_loop
  by unfold_locales auto

lemma control_poison_simps [simp]:
  "cp_state (control_poison p) = Failed" "cp_line (control_poison p) = []"
  "cp_pending_command (control_poison p) = None" "cp_limits (control_poison p) = cp_limits p"
  "control_poison (p\<lparr>cp_line := l\<rparr>) = control_poison p"
  by (simp_all add: control_poison_def)

lemma parse_record_plain:
  "parse_record line = Ok e \<Longrightarrow> e \<noteq> Started \<and> e \<noteq> Ended"
  by (auto simp: parse_record_def parse_extended_output_def parse_notification_def Let_def
      result_simps split: option.splits if_splits prod.splits)

lemma process_line_frame:
  assumes "process_line p line = Ok (p', evs)"
  shows "cp_state p' = cp_state p" and "cp_line p' = cp_line p" and "cp_limits p' = cp_limits p"
    and "Started \<notin> set evs" and "Ended \<notin> set evs"
  using assms
  by (auto simp: process_line_def process_pending_line_def finish_command_def result_simps
      dest: parse_record_plain split: option.splits if_splits)

lemma push_byte_not_failed:
  "control_push_byte p b = Ok (p', evs) \<Longrightarrow> cp_state p' \<noteq> Failed"
  by (auto simp: control_push_byte_def dest: process_line_frame(1)
      split: parse_state.splits if_splits)

lemma push_byte_limits:
  "control_push_byte p b = Ok (p', evs) \<Longrightarrow> cp_limits p' = cp_limits p"
  by (auto simp: control_push_byte_def dest: process_line_frame(3)
      split: parse_state.splits if_splits)

lemma push_loop_not_failed:
  "cp_state p \<noteq> Failed \<Longrightarrow> control_push_loop p bs = (Ok evs, p') \<Longrightarrow> cp_state p' \<noteq> Failed"
  using control.run_Ok_invariant [where I = "\<lambda>p. cp_state p \<noteq> Failed"] push_byte_not_failed
  by blast

lemma push_loop_Err_failed:
  "control_push_loop p bs = (Err e, p') \<Longrightarrow> cp_state p' = Failed"
proof (induction bs arbitrary: p)
  case (Cons b bs)
  then show ?case by (auto split: result.splits prod.splits)
qed simp

section \<open>Properties of the stream\<close>

text \<open>
  chunk boundaries cannot be observed. Pushing a stream in two pieces gives the same
  parser, the same error or the same events in the same order as pushing it at once.
\<close>

theorem control_push_append:
  "control_push p (xs @ ys) =
     (case control_push p xs of
        (Err e, p') \<Rightarrow> (Err e, p')
      | (Ok evs, p') \<Rightarrow> (case control_push p' ys of
                            (Err e, p'') \<Rightarrow> (Err e, p'')
                          | (Ok evs', p'') \<Rightarrow> (Ok (evs @ evs'), p'')))"
  using push_loop_not_failed [of p xs]
  by (auto simp: control_push_def control.run_append split: prod.splits result.splits)

text \<open>
  An error poisons the parser. After any failed push every later push, whatever its
  bytes, fails with \<open>ParserPoisoned\<close> and changes nothing, until \<open>reset\<close>, which gives a parser that
  cannot be told from a fresh one with the same limits.
\<close>

theorem control_push_poisoned:
  assumes "control_push p bs = (Err e, p')"
  shows "control_push p' later = (Err ParserPoisoned, p') \<and>
         control_reset p' = control_with_limits (cp_limits p')"
proof -
  have "cp_state p' = Failed"
    using assms push_loop_Err_failed by (auto simp: control_push_def split: if_splits)
  then show ?thesis
    by (simp add: control_push_def control_reset_def control_with_limits_def)
qed

theorem control_push_poisoned_witness:
  "control_push (snd (control_push control_new ''x'')) ''%exit'' =
     (Err ParserPoisoned, snd (control_push control_new ''x''))"
proof -
  have "control_push control_new ''x'' =
          (Err (InvalidStartMarker 0), snd (control_push control_new ''x''))"
    by (simp add: control_push_def control_new_def control_with_limits_def control_push_byte_def
        CONTROL_START_def)
  from control_push_poisoned [OF this, of "''%exit''"] show ?thesis by blast
qed

section \<open>Resource bounds\<close>

definition pending_ok :: "parser_limits \<Rightarrow> pending_command \<Rightarrow> bool" where
  "pending_ok l c \<longleftrightarrow>
     length (pc_output c) \<le> max_command_output_lines l \<and>
     pc_output_bytes c = sum_list (map length (pc_output c)) \<and>
     pc_output_bytes c \<le> max_command_output_bytes l"

definition control_inv :: "control_parser \<Rightarrow> bool" where
  "control_inv p \<longleftrightarrow>
     length (cp_line p) \<le> max_line_bytes (cp_limits p) \<and>
     (case cp_pending_command p of None \<Rightarrow> True | Some c \<Rightarrow> pending_ok (cp_limits p) c) \<and>
     (case cp_state p of
        Records \<Rightarrow> True
      | Start m \<Rightarrow> m < length CONTROL_START \<and> cp_line p = [] \<and> cp_pending_command p = None
      | _ \<Rightarrow> cp_line p = [] \<and> cp_pending_command p = None)"

lemma process_line_inv:
  assumes "control_inv p" "cp_state p = Records" "cp_line p = []" "process_line p line = Ok (p', evs)"
  shows "control_inv p'"
  using assms
  by (auto simp: control_inv_def process_line_def process_pending_line_def finish_command_def
      pending_ok_def checked_add_usize_def result_simps split: option.splits if_splits)

lemma push_byte_inv:
  assumes "control_inv p" "control_push_byte p b = Ok (p', evs)"
  shows "control_inv p'"
proof (cases "cp_state p")
  case Records
  show ?thesis
  proof (cases "b = CHR 0x0A \<and> \<not> (cp_line p = [] \<and> b = CHR 0x1B \<and> cp_pending_command p = None)")
    case True
    moreover have "control_inv (p\<lparr>cp_line := []\<rparr>)"
      using assms(1) Records by (auto simp: control_inv_def split: option.splits)
    ultimately show ?thesis
      using assms Records process_line_inv by (fastforce simp: control_push_byte_def)
  next
    case False
    with assms Records show ?thesis
      by (auto simp: control_push_byte_def control_inv_def split: if_splits option.splits)
  qed
qed (use assms in \<open>auto simp: control_push_byte_def control_inv_def split: if_splits\<close>)

lemma poison_inv: "control_inv p \<Longrightarrow> control_inv (control_poison p)"
  by (simp add: control_inv_def)

lemma push_loop_inv: "control_inv p \<Longrightarrow> control_inv (snd (control_push_loop p bs))"
  by (rule control.run_invariant [where I = control_inv]) (auto intro: push_byte_inv poison_inv)

text \<open>The public operations of the parser, as one step on its state.\<close>

datatype control_op = OpPush bytes | OpFinish | OpReset

fun control_apply :: "control_parser \<Rightarrow> control_op \<Rightarrow> control_parser" where
  "control_apply p (OpPush bs) = snd (control_push p bs)"
| "control_apply p OpFinish = snd (control_finish p)"
| "control_apply p OpReset = control_reset p"

lemma control_apply_inv: "control_inv p \<Longrightarrow> control_inv (control_apply p op)"
proof (induction op)
  case (OpPush bs)
  then show ?case using push_loop_inv [OF OpPush] by (simp add: control_push_def)
next
  case OpFinish
  then show ?case
    using poison_inv [OF OpFinish] by (auto simp: control_finish_def split: parse_state.splits)
next
  case OpReset
  then show ?case by (simp add: control_inv_def control_reset_def CONTROL_START_def)
qed

text \<open>
  C3: the parser's memory is bounded. Whatever sequence of \<open>push\<close>, \<open>finish\<close> and \<open>reset\<close> calls
  a fresh parser receives, hostile bytes and failures included, its partial line, its number of
  retained output lines and their total size stay within the limits it was created with, its
  byte counter is the exact total, and a marker match in progress is a proper prefix (so the
  indexing of the marker cannot go out of range).
\<close>

theorem control_bounded: "control_inv (foldl control_apply (control_with_limits l) ops)"
proof -
  have "control_inv p \<Longrightarrow> control_inv (foldl control_apply p ops)" for p
    by (induction ops arbitrary: p) (simp_all add: control_apply_inv)
  moreover have "control_inv (control_with_limits l)"
    by (simp add: control_inv_def control_with_limits_def CONTROL_START_def)
  ultimately show ?thesis by blast
qed

section \<open>Stream framing\<close>

text \<open>What has been emitted once the marker is through: never a second \<open>Started\<close>, and
  \<open>Ended\<close> only as the last event, exactly when the string terminator has been read.\<close>

definition tail_ok :: "control_parser \<Rightarrow> control_event list \<Rightarrow> bool" where
  "tail_ok p evs \<longleftrightarrow> Started \<notin> set evs \<and> Ended \<notin> set (butlast evs) \<and>
     (Ended \<in> set evs \<longrightarrow> last evs = Ended \<and> cp_state p = StateEnded)"

definition past_marker :: "control_parser \<Rightarrow> bool" where
  "past_marker p \<longleftrightarrow> cp_state p \<in> {Records, PossibleStringTerminator, StateEnded}"

lemma push_byte_tail:
  assumes "past_marker p" "control_push_byte p b = Ok (p', evs)"
  shows "past_marker p' \<and> cp_state p \<noteq> StateEnded \<and> Started \<notin> set evs \<and>
     (cp_state p' \<noteq> StateEnded \<longrightarrow> Ended \<notin> set evs) \<and> (cp_state p' = StateEnded \<longrightarrow> evs = [Ended])"
  using assms
  by (auto simp: past_marker_def control_push_byte_def dest: process_line_frame
      split: parse_state.splits if_splits)

lemma push_loop_ended: "cp_state p = StateEnded \<Longrightarrow> control_push_loop p bs = (Ok evs, p') \<Longrightarrow> bs = [] \<and> evs = [] \<and> p' = p"
  by (cases bs) (auto simp: control_push_byte_def)

lemma push_loop_tail:
  assumes "past_marker p" "control_push_loop p bs = (Ok evs, p')"
  shows "past_marker p' \<and> tail_ok p' evs \<and>
    (cp_state p \<noteq> StateEnded \<longrightarrow> cp_state p' = StateEnded \<longrightarrow> Ended \<in> set evs)"
  using assms
proof (induction bs arbitrary: p evs)
  case Nil
  then show ?case by (auto simp: tail_ok_def)
next
  case (Cons b bs)
  then obtain p1 e1 e2 where 1: "control_push_byte p b = Ok (p1, e1)"
    "control_push_loop p1 bs = (Ok e2, p')" "evs = e1 @ e2"
    by (auto split: result.splits prod.splits)
  note t = push_byte_tail [OF Cons.prems(1) 1(1)]
  show ?case
  proof (cases "cp_state p1 = StateEnded")
    case True
    with 1 t push_loop_ended [OF True 1(2)] show ?thesis by (auto simp: tail_ok_def)
  next
    case False
    with Cons.IH [OF _ 1(2)] t 1(3) show ?thesis by (auto simp: tail_ok_def butlast_append dest: in_set_butlastD)
  qed
qed

lemma push_loop_marker:
  assumes "cp_state p = Start m" "m < length CONTROL_START" "control_push_loop p bs = (Ok evs, p')"
  shows "(length bs < length CONTROL_START - m \<and> bs = take (length bs) (drop m CONTROL_START) \<and>
           evs = [] \<and> cp_state p' = Start (m + length bs)) \<or>
         (\<exists>rest evs'. bs = drop m CONTROL_START @ rest \<and> evs = Started # evs' \<and>
            control_push_loop (p\<lparr>cp_state := Records\<rparr>) rest = (Ok evs', p'))"
  using assms
proof (induction bs arbitrary: p m evs)
  case Nil
  then show ?case by auto
next
  case (Cons b bs)
  note d = Cons_nth_drop_Suc [OF Cons.prems(2), symmetric]
  from Cons.prems obtain p1 e1 e2 where 1: "control_push_byte p b = Ok (p1, e1)"
    "control_push_loop p1 bs = (Ok e2, p')" "evs = e1 @ e2"
    by (auto split: result.splits prod.splits)
  from 1(1) Cons.prems(1) have b: "b = CONTROL_START ! m"
    by (auto simp: control_push_byte_def split: if_splits)
  show ?case
  proof (cases "Suc m = length CONTROL_START")
    case True
    with 1 b Cons.prems(1) d show ?thesis by (auto simp: control_push_byte_def)
  next
    case False
    with 1(1) b Cons.prems(1) have p1: "p1 = p\<lparr>cp_state := Start (Suc m)\<rparr>" "e1 = []"
      by (auto simp: control_push_byte_def)
    with Cons.IH [of p1 "Suc m" e2] 1 False Cons.prems(2) b d show ?thesis by auto
  qed
qed

text \<open>
  C4: framing of an accepted stream. What a fresh parser accepts is either a proper prefix of
  the start marker, with no event, or the marker followed by the rest; then the events are
  \<open>Started\<close>, once and first, and \<open>Ended\<close> occurs at most once, as the last event, exactly when the
  parser has reached its ended state.
\<close>

theorem control_framing:
  assumes "control_push (control_with_limits l) bs = (Ok evs, p)"
  shows "(strict_prefix bs CONTROL_START \<and> evs = []) \<or>
         (\<exists>rest mid. bs = CONTROL_START @ rest \<and> evs = Started # mid \<and> Started \<notin> set mid \<and>
            Ended \<notin> set (butlast mid) \<and> (Ended \<in> set mid \<longleftrightarrow> cp_state p = StateEnded))"
proof -
  let ?p0 = "control_with_limits l"
  have "cp_state ?p0 = Start 0" by (simp add: control_with_limits_def)
  moreover have "0 < length CONTROL_START" by (simp add: CONTROL_START_def)
  moreover have "control_push_loop ?p0 bs = (Ok evs, p)"
    using assms by (simp add: control_push_def control_with_limits_def)
  ultimately consider
      "length bs < length CONTROL_START" "bs = take (length bs) CONTROL_START" "evs = []"
    | rest mid where "bs = CONTROL_START @ rest" "evs = Started # mid"
        "control_push_loop (?p0\<lparr>cp_state := Records\<rparr>) rest = (Ok mid, p)"
    using push_loop_marker [of ?p0 0 bs evs p] by auto
  then show ?thesis
  proof cases
    case 1
    then have "strict_prefix bs CONTROL_START"
      by (metis nat_less_le order_refl strict_prefix_def take_is_prefix)
    with 1 show ?thesis by simp
  next
    case 2
    have "past_marker (?p0\<lparr>cp_state := Records\<rparr>)" by (simp add: past_marker_def)
    from push_loop_tail [OF this 2(3)] 2 show ?thesis by (auto simp: tail_ok_def)
  qed
qed

theorem control_framing_witness:
  "\<exists>evs p. control_push control_new (CONTROL_START @ ''%exit'' @ [CHR 0x0A, CHR 0x1B, CHR 0x5C]) = (Ok evs, p) \<and>
     cp_state p = StateEnded \<and> (\<exists>mid. evs = Started # mid \<and> Ended \<in> set mid \<and> Started \<notin> set mid)"
proof -
  let ?bs = "CONTROL_START @ ''%exit'' @ [CHR 0x0A, CHR 0x1B, CHR 0x5C]"
  obtain p where p: "control_push (control_with_limits default_limits) ?bs = (Ok [Started, Exit None, Ended], p)"
      "cp_state p = StateEnded"
    by (simp add: control_push_def control_with_limits_def control_push_byte_def CONTROL_START_def
        default_limits_def process_line_def pop_carriage_returns_def strip_prefix_def starts_with_def
        bare_keywords_def parse_record_def)
  from control_framing [OF p(1)] p show ?thesis unfolding control_new_def by auto
qed

section \<open>Records end to end\<close>

definition show_u64 :: "u64 \<Rightarrow> bytes" where
  "show_u64 n = show_nat (unat n)"

lemma unat_less_2p64 [simp]: "unat (n :: u64) < 18446744073709551616"
  using unsigned_less [of n, where ?'a = nat] by simp

lemma show_u64_digits [simp]: "list_all is_ascii_digit (show_u64 n)" "show_u64 n \<noteq> []"
  by (simp_all add: show_u64_def show_nat_digits)

lemma show_u64_not_in: "\<not> is_ascii_digit c \<Longrightarrow> c \<notin> set (show_u64 n)"
  by (auto simp: show_u64_def dest: show_nat_set)

lemma parse_uint_show_u64 [simp]: "parse_uint 64 (show_u64 n) = Some (unat n)"
  unfolding show_u64_def by (rule parse_uint_show_nat) simp

lemma parse_u64_show [simp]: "parse_u64 (Some (show_u64 n)) field = Ok n"
  by (simp add: parse_u64_def)

lemma parse_pane_id_show [simp]: "parse_pane_id (CHR ''%'' # show_u64 n) = Ok n"
  by (simp add: parse_pane_id_def strip_prefix_def starts_with_def)

lemma not_digit_simps [simp]:
  "\<not> is_ascii_digit CHR '' ''" "\<not> is_ascii_digit CHR 0x0A" "\<not> is_ascii_digit CHR 0x0D"
  by (simp_all add: byte_simps)

text \<open>The text of a tag, as tmux writes it after \<open>%begin\<close>, \<open>%end\<close> and \<open>%error\<close>.\<close>

definition show_tag :: "command_tag \<Rightarrow> bytes" where
  "show_tag t = show_u64 (timestamp t) @ CHR '' '' # show_u64 (number t) @ CHR '' '' # show_u64 (flags t)"

lemma parse_command_tag_show [simp]: "parse_command_tag (show_tag t) = Ok t"
  by (simp add: parse_command_tag_def show_tag_def split_on_append_sep split_on_no_sep
      show_u64_not_in field_at_def nth_Cons')

lemma push_loop_accumulate:
  assumes "cp_state p = Records" "CHR 0x0A \<notin> set l"
    "cp_line p \<noteq> [] \<or> cp_pending_command p \<noteq> None \<or> \<not> starts_with l [CHR 0x1B]"
    "length (cp_line p) + length l \<le> max_line_bytes (cp_limits p)"
  shows "control_push_loop p l = (Ok [], p\<lparr>cp_line := cp_line p @ l\<rparr>)"
  using assms
proof (induction l arbitrary: p)
  case Nil
  then show ?case by simp
next
  case (Cons b l)
  let ?p = "p\<lparr>cp_line := cp_line p @ [b]\<rparr>"
  have "control_push_byte p b = Ok (?p, [])"
    using Cons.prems by (auto simp: control_push_byte_def starts_with_def)
  moreover have "control_push_loop ?p l = (Ok [], ?p\<lparr>cp_line := cp_line ?p @ l\<rparr>)"
    using Cons.prems by (intro Cons.IH) auto
  ultimately show ?case by simp
qed

lemma push_loop_line:
  assumes "cp_state p = Records" "cp_line p = []" "CHR 0x0A \<notin> set l"
    "cp_pending_command p \<noteq> None \<or> \<not> starts_with l [CHR 0x1B]"
    "length l \<le> max_line_bytes (cp_limits p)" "process_line p (pop_carriage_returns l) = Ok (p', evs)"
  shows "control_push_loop p (l @ [CHR 0x0A]) = (Ok evs, p')"
proof -
  have "control_push_loop p l = (Ok [], p\<lparr>cp_line := l\<rparr>)"
    using push_loop_accumulate [of p l] assms(1-5) by simp
  moreover have "p\<lparr>cp_line := []\<rparr> = p" using assms(2) by simp
  ultimately show ?thesis
    using assms(1,6) by (simp add: control.run_append control_push_byte_def)
qed

lemma pop_carriage_returns_id: "l = [] \<or> last l \<noteq> CHR 0x0D \<Longrightarrow> pop_carriage_returns l = l"
  by (cases l rule: rev_cases) (auto simp: pop_carriage_returns_def)

lemma octal_digits: "v div 64 * 64 + v div 8 mod 8 * 8 + v mod 8 = (v :: nat)"
proof -
  have "v div 64 = v div 8 div 8" using div_mult2_eq [of v 8 8] by simp
  moreover have "(a * 8 + b) * 8 + c = v \<Longrightarrow> a * 64 + b * 8 + c = v" for a b c
    by simp
  moreover have "(v div 8 div 8 * 8 + v div 8 mod 8) * 8 + v mod 8 = v"
    by (simp only: div_mult_mod_eq)
  ultimately show ?thesis by (simp only:)
qed

lemma octal_digits_less:
  "byte_val b div 64 < 8" "byte_val b div 8 mod 8 < 8" "byte_val b mod 8 < 8"
proof -
  show "byte_val b div 64 < 8" 
    by (rule less_mult_imp_div_less, rule less_trans [OF byte_val_less]) simp
qed simp_all

lemma encode_octal_byte_decode:
  "decode_octal (encode_octal_byte b @ bs) = bind_result (decode_octal bs) (\<lambda>r. Ok (b # r))"
proof (cases "32 \<le> byte_val b \<and> byte_val b \<le> 126 \<and> b \<noteq> CHR 0x5C")
  case True
  then show ?thesis by (simp add: encode_octal_byte_def)
next
  case False
  let ?v = "byte_val b"
  note lt = octal_digits_less [of b]
  have "is_octal_digit (digit_char (?v div 64))"
    "is_octal_digit (digit_char (?v div 8 mod 8))" "is_octal_digit (digit_char (?v mod 8))"
    using lt by (simp_all add: is_octal_digit_def)
  then show ?thesis
    using lt octal_digits [of ?v] unfolding encode_octal_byte_def if_not_P [OF False]
    by (simp add: Let_def)
qed

lemma decode_encode_octal: "decode_octal (encode_octal bs) = Ok bs"
  by (induction bs) (simp_all add: encode_octal_def encode_octal_byte_decode)

lemma encode_octal_clean:
  "c \<in> set (encode_octal bs) \<Longrightarrow> 32 \<le> byte_val c \<and> byte_val c \<le> 126"
proof -
  have "c \<in> set (encode_octal_byte b) \<Longrightarrow> 32 \<le> byte_val c \<and> byte_val c \<le> 126" for b
  proof -
    assume c: "c \<in> set (encode_octal_byte b)"
    have "byte_val (CHR 0x5C) = 92" by (simp add: byte_simps)
    then show ?thesis using c octal_digits_less [of b] by (auto simp: encode_octal_byte_def split: if_splits)
  qed
  moreover assume "c \<in> set (encode_octal bs)"
  ultimately show ?thesis by (auto simp: encode_octal_def)
qed

text \<open>The record with which the peer sends a pane's bytes, without and with its newline.\<close>

definition output_record :: "u64 \<Rightarrow> bytes \<Rightarrow> bytes" where
  "output_record n bs = ''%output %'' @ show_u64 n @ '' '' @ encode_octal bs"

definition control_output :: "u64 \<Rightarrow> bytes \<Rightarrow> bytes" where
  "control_output n bs = output_record n bs @ [CHR 0x0A]"

lemma split_once_space_append:
  assumes "CHR '' '' \<notin> set xs"
  shows "split_once_space (xs @ CHR '' '' # ys) = Ok (xs, ys)"
proof -
  have "\<forall>x \<in> set xs. \<not> x = CHR '' ''" using assms by auto
  from position_append [OF this] show ?thesis by (simp add: split_once_space_def)
qed

lemma process_output_record:
  assumes "cp_pending_command p = None" "length (output_record n bs) \<le> max_notification_bytes (cp_limits p)"
  shows "process_line p (output_record n bs) = Ok (p, [Output n bs])"
proof -
  have "split_once_space (CHR ''%'' # show_u64 n @ CHR '' '' # encode_octal bs) =
          Ok (CHR ''%'' # show_u64 n, encode_octal bs)"
    using split_once_space_append [of "CHR ''%'' # show_u64 n"] show_u64_not_in by simp
  then have "parse_record (output_record n bs) = Ok (Output n bs)"
    by (simp add: parse_record_def output_record_def strip_prefix_def starts_with_def
        decode_encode_octal)
  with assms show ?thesis
    by (auto simp: process_line_def output_record_def strip_prefix_def starts_with_def
        bare_keywords_def)
qed

lemma output_record_clean: "c \<in> set (output_record n bs) \<Longrightarrow> 32 \<le> byte_val c"
  by (auto simp: output_record_def byte_simps dest!: encode_octal_clean
      dest: show_nat_set simp: show_u64_def)

text \<open>
  C2: pane output survives the wire. For any pane and any bytes, control characters,
  backslashes, escape sequences and invalid UTF-8 included, the record the control peer encodes
  is parsed back, between command blocks and within the line limits, to exactly one
  \<open>Output\<close> event with that pane and those bytes, and the parser is back where it was.
\<close>

theorem control_output_roundtrip:
  assumes "cp_state p = Records" "cp_line p = []" "cp_pending_command p = None"
    and "length (output_record n bs) \<le> max_line_bytes (cp_limits p)"
    and "length (output_record n bs) \<le> max_notification_bytes (cp_limits p)"
  shows "control_push p (control_output n bs) = (Ok [Output n bs], p)"
proof -
  let ?r = "output_record n bs"
  have "CHR 0x0A \<notin> set ?r" and cr: "CHR 0x0D \<notin> set ?r"
    using output_record_clean [of "CHR 0x0A" n bs] output_record_clean [of "CHR 0x0D" n bs]
    by (auto simp: byte_simps)
  moreover have "pop_carriage_returns ?r = ?r"
    using cr by (intro pop_carriage_returns_id) (metis last_in_set)
  moreover have "\<not> starts_with ?r [CHR 0x1B]"
    by (simp add: output_record_def starts_with_def)
  ultimately show ?thesis
    using assms process_output_record [of p n bs] push_loop_line [of p ?r p]
    by (simp add: control_push_def control_output_def)
qed

theorem control_output_roundtrip_witness:
  "control_push (control_new\<lparr>cp_state := Records\<rparr>)
     (control_output 7 [CHR 0x1B, CHR ''['', CHR 0xFF, CHR 0x5C, CHR 0x0A]) =
   (Ok [Output 7 [CHR 0x1B, CHR ''['', CHR 0xFF, CHR 0x5C, CHR 0x0A]], control_new\<lparr>cp_state := Records\<rparr>)"
  by (rule control_output_roundtrip)
     (simp_all add: control_new_def control_with_limits_def default_limits_def output_record_def
       encode_octal_def encode_octal_byte_def show_u64_def show_nat.simps byte_simps)

section \<open>Command blocks\<close>

fun status_keyword :: "command_status \<Rightarrow> bytes" where
  "status_keyword Success = ''%end ''"
| "status_keyword Error = ''%error ''"

text \<open>What may stand in a block: a line that fits, ends in no carriage return and does not carry
  this block's own tag in a terminator.\<close>

definition payload_line :: "parser_limits \<Rightarrow> command_tag \<Rightarrow> bytes \<Rightarrow> bool" where
  "payload_line lim t l \<longleftrightarrow>
     CHR 0x0A \<notin> set l \<and> (l = [] \<or> last l \<noteq> CHR 0x0D) \<and> length l \<le> max_line_bytes lim \<and>
     \<not> closes_block l ''%end '' t \<and> \<not> closes_block l ''%error '' t"

definition block_text :: "command_tag \<Rightarrow> command_status \<Rightarrow> bytes list \<Rightarrow> bytes" where
  "block_text t st ls =
     ''%begin '' @ show_tag t @ [CHR 0x0A] @ concat (map (\<lambda>l. l @ [CHR 0x0A]) ls) @
     status_keyword st @ show_tag t @ [CHR 0x0A]"

abbreviation in_block :: "control_parser \<Rightarrow> command_tag \<Rightarrow> bytes list \<Rightarrow> control_parser" where
  "in_block p t ls \<equiv> p\<lparr>cp_pending_command := Some \<lparr> pc_tag = t, pc_output = ls,
     pc_output_bytes = sum_list (map length ls) \<rparr>\<rparr>"

lemma show_tag_clean: "c \<in> set (show_tag t) \<Longrightarrow> is_ascii_digit c \<or> c = CHR '' ''"
  by (auto simp: show_tag_def show_u64_def dest: show_nat_set)

lemma show_tag_last: "last (show_tag t) \<noteq> CHR 0x0D" "show_tag t \<noteq> []"
proof -
  have "last (show_u64 (flags t)) \<in> set (show_u64 (flags t))" by simp
  then show "last (show_tag t) \<noteq> CHR 0x0D"
    using show_u64_not_in [of "CHR 0x0D"] by (metis last_append last_ConsR list.distinct(1)
        append_is_Nil_conv not_digit_simps(3) show_tag_def show_u64_digits(2))
qed (simp add: show_tag_def)

lemma tag_line_clean:
  assumes "CHR 0x0A \<notin> set k"
  shows "CHR 0x0A \<notin> set (k @ show_tag t)" "pop_carriage_returns (k @ show_tag t) = k @ show_tag t"
  using assms show_tag_clean [of "CHR 0x0A" t] show_tag_last [of t]
  by (auto intro: pop_carriage_returns_id)

lemma push_loop_payload:
  assumes "cp_state p = Records" "cp_line p = []"
    and "\<forall>l \<in> set ls. payload_line (cp_limits p) t l"
    and "length (pre @ ls) \<le> max_command_output_lines (cp_limits p)"
    and "sum_list (map length (pre @ ls)) \<le> max_command_output_bytes (cp_limits p)"
    and "max_command_output_bytes (cp_limits p) \<le> usize_max"
  shows "control_push_loop (in_block p t pre) (concat (map (\<lambda>l. l @ [CHR 0x0A]) ls)) =
           (Ok [], in_block p t (pre @ ls))"
  using assms(3-5)
proof (induction ls arbitrary: pre)
  case Nil
  then show ?case by simp
next
  case (Cons l ls)
  have l: "payload_line (cp_limits p) t l" using Cons.prems(1) by simp
  then have "pop_carriage_returns l = l"
    by (auto simp: payload_line_def intro: pop_carriage_returns_id)
  moreover have "process_line (in_block p t pre) l = Ok (in_block p t (pre @ [l]), [])"
    using l Cons.prems(2,3) assms(6)
    by (simp add: process_line_def process_pending_line_def payload_line_def checked_add_usize_def)
  ultimately have "control_push_loop (in_block p t pre) (l @ [CHR 0x0A]) = (Ok [], in_block p t (pre @ [l]))"
    using assms(1,2) l by (intro push_loop_line) (auto simp: payload_line_def)
  moreover have "control_push_loop (in_block p t (pre @ [l])) (concat (map (\<lambda>l. l @ [CHR 0x0A]) ls)) =
      (Ok [], in_block p t ((pre @ [l]) @ ls))"
    using Cons.prems by (intro Cons.IH) auto
  ultimately show ?case
    using control.run_append [of "in_block p t pre" "l @ [CHR 0x0A]"] by simp
qed

lemma process_begin:
  "cp_pending_command p = None \<Longrightarrow>
     process_line p (''%begin '' @ show_tag t) = Ok (in_block p t [], [])"
  by (simp add: process_line_def strip_prefix_def starts_with_def)

lemma process_terminator:
  "process_line (in_block p t ls) (status_keyword st @ show_tag t) =
     Ok (p\<lparr>cp_pending_command := None\<rparr>, [Command (timestamp t) (number t) (flags t) st ls])"
  by (cases st) (simp_all add: process_line_def process_pending_line_def closes_block_def
      strip_prefix_def starts_with_def finish_command_def)

text \<open>
  C1: a command block is transparent to its payload. Whatever lines stand between
  \<open>%begin\<close> and the terminator with the same tag (nested \<open>%begin\<close>, \<open>%end\<close> and \<open>%output\<close> records of an
  inner control client, escape characters, anything but this block's own terminator), within the
  limits the parser delivers exactly one \<open>Command\<close> event, with the block's tag and status and
  precisely those lines in that order, and returns to where it was.
\<close>

theorem control_command_block:
  assumes "cp_state p = Records" "cp_line p = []" "cp_pending_command p = None"
    and "\<forall>l \<in> set ls. payload_line (cp_limits p) t l"
    and "length ls \<le> max_command_output_lines (cp_limits p)"
    and "sum_list (map length ls) \<le> max_command_output_bytes (cp_limits p)"
    and "max_command_output_bytes (cp_limits p) \<le> usize_max"
    and "length (show_tag t) + 7 \<le> max_line_bytes (cp_limits p)"
  shows "control_push p (block_text t st ls) =
           (Ok [Command (timestamp t) (number t) (flags t) st ls], p)"
proof -
  have b: "control_push_loop p ((''%begin '' @ show_tag t) @ [CHR 0x0A]) = (Ok [], in_block p t [])"
    using assms(1-3,8) process_begin [OF assms(3)] tag_line_clean [of "''%begin ''" t]
    by (intro push_loop_line) (simp_all add: starts_with_def)
  have m: "control_push_loop (in_block p t []) (concat (map (\<lambda>l. l @ [CHR 0x0A]) ls)) =
      (Ok [], in_block p t ls)"
    using push_loop_payload [of p ls t "[]"] assms by simp
  have p: "p\<lparr>cp_pending_command := None\<rparr> = p" using assms(3) by simp
  have "CHR 0x0A \<notin> set (status_keyword st)" "length (status_keyword st) \<le> 7"
    by (cases st; simp)+
  then have e: "control_push_loop (in_block p t ls) ((status_keyword st @ show_tag t) @ [CHR 0x0A]) =
      (Ok [Command (timestamp t) (number t) (flags t) st ls], p)"
    using assms(1,2,8) process_terminator [where p = p and t = t and ls = ls and st = st] tag_line_clean [of "status_keyword st" t] p
    by (intro push_loop_line) simp_all
  have "control_push_loop p (((''%begin '' @ show_tag t) @ [CHR 0x0A]) @
          concat (map (\<lambda>l. l @ [CHR 0x0A]) ls) @ (status_keyword st @ show_tag t) @ [CHR 0x0A]) =
      (Ok [Command (timestamp t) (number t) (flags t) st ls], p)"
    using control.run_append_Ok [OF b control.run_append_Ok [OF m e]] by simp
  then show ?thesis
    using assms(1) by (simp add: control_push_def block_text_def)
qed

theorem control_command_block_witness:
  "control_push (control_new\<lparr>cp_state := Records\<rparr>)
     (block_text \<lparr>timestamp = 5, number = 6, flags = 0\<rparr> Error [''%begin 1 2 0'', ''%end 1 2 0'', []]) =
   (Ok [Command 5 6 0 Error [''%begin 1 2 0'', ''%end 1 2 0'', []]], control_new\<lparr>cp_state := Records\<rparr>)"
  using control_command_block [of "control_new\<lparr>cp_state := Records\<rparr>"
      "[''%begin 1 2 0'', ''%end 1 2 0'', []]" "\<lparr>timestamp = 5, number = 6, flags = 0\<rparr>" Error]
  by (simp add: control_new_def control_with_limits_def default_limits_def payload_line_def
      closes_block_def strip_prefix_def starts_with_def parse_command_tag_def field_at_def
      parse_u64_def parse_uint_def dec_val_def digit_val_def byte_simps show_tag_def show_u64_def
      show_nat.simps usize_max_def)

text \<open>
  The end of the transport is an error unless the stream was terminated. \<open>finish\<close> succeeds,
  silently, exactly when the string terminator has been read; otherwise it reports what was cut
  short (the marker, a record, a command block, the stream or the terminator), never as a malformed
  stream, and leaves the parser poisoned.
\<close>

theorem control_finish_cases:
  "(case control_finish p of
      (Ok evs, p') \<Rightarrow> cp_state p = StateEnded \<and> evs = [] \<and> p' = p
    | (Err e, p') \<Rightarrow> cp_state p \<noteq> StateEnded \<and> \<not> is_malformed e \<and>
        (is_unterminated e \<longleftrightarrow> cp_state p \<noteq> Failed) \<and> p' = control_poison p)"
  by (simp add: control_finish_def split: parse_state.split)

end
