(* ===== verification/Tmux_Gateway.thy ===== *)
theory Tmux_Gateway
  imports Tmux_Control
begin

text \<open>
  The router that carries one PTY stream across an embedded \<^verbatim>\<open>tmux -CC\<close> session
  (\<^verbatim>\<open>src/src/tmux_gateway.rs\<close>). It scans direct output for the control start marker,
  hands the bytes of an open connection to the control parser of \<open>Tmux_Control\<close> and goes back to
  direct output when the connection ends.

  The \<^verbatim>\<open>while\<close> loop of \<open>push\<close> is \<open>gateway_loop\<close>; one iteration is \<open>gateway_iter\<close>, which may
  leave the byte to be considered again. Its accumulators are the local \<open>direct\<close> and the events
  pushed by the iteration.
\<close>

section \<open>Data\<close>

definition TMUX_CONTROL_START_MARKER :: bytes where
  "TMUX_CONTROL_START_MARKER = CHR 0x1B # ''P1000p''"

datatype gateway_failure =
  TransportEof | MissingExit | MissingTerminator | TerminatorTimeout | Protocol string

datatype gateway_event =
    DirectOutput bytes
  | ConnectionStarted u64
  | Control u64 control_event
  | ConnectionEnded u64
  | ConnectionFailed u64 gateway_failure

datatype gateway_lifecycle_state = Direct | InControl | AwaitingTerminator | Recovering

datatype gateway_error =
    ConnectionIdExhausted
  | ControlFailed u64 control_parse_error
  | UnterminatedControl u64 control_parse_error

record active_control =
  ac_connection_id :: u64
  ac_parser :: control_parser
  ac_current_record :: bytes
  ac_saw_exit :: bool
  ac_terminator_escape_seen :: bool
  ac_recovering :: bool

record gateway_router =
  gr_marker_prefix :: bytes
  gr_active :: "active_control option"
  gr_next_connection_id :: u64

text \<open>The \<^verbatim>\<open>Display\<close> text of a parse error, which a failed connection carries.\<close>

fun unterminated_state_name :: "unterminated_state \<Rightarrow> string" where
  "unterminated_state_name StartMarker = ''StartMarker''"
| "unterminated_state_name Record = ''Record''"
| "unterminated_state_name CommandBlock = ''Command''"
| "unterminated_state_name ControlStream = ''ControlStream''"
| "unterminated_state_name StringTerminator = ''StringTerminator''"

fun control_error_text :: "control_parse_error \<Rightarrow> string" where
  "control_error_text (InvalidStartMarker offset) =
     ''invalid tmux control-mode start marker at byte '' @ show_nat offset"
| "control_error_text InvalidStringTerminator = ''invalid tmux control-mode string terminator''"
| "control_error_text TrailingData = ''bytes followed the tmux control-mode string terminator''"
| "control_error_text ParserPoisoned = ''the parser must be reset after an error''"
| "control_error_text MalformedRecord = ''malformed tmux control record''"
| "control_error_text (InvalidNumber field) =
     ''invalid numeric '' @ field @ '' in tmux control record''"
| "control_error_text UnexpectedCommandTerminator =
     ''tmux command terminator appeared without a command block''"
| "control_error_text InvalidPaneId = ''invalid tmux pane id''"
| "control_error_text InvalidOctalEscape = ''invalid tmux octal escape''"
| "control_error_text (LineTooLong limit) =
     ''tmux control line exceeded '' @ show_nat limit @ '' bytes''"
| "control_error_text (CommandOutputTooLong limit) =
     ''tmux command output exceeded '' @ show_nat limit @ '' bytes''"
| "control_error_text (TooManyCommandOutputLines limit) =
     ''tmux command output exceeded '' @ show_nat limit @ '' lines''"
| "control_error_text (NotificationTooLong limit) =
     ''tmux notification exceeded '' @ show_nat limit @ '' bytes''"
| "control_error_text (Unterminated st) =
     ''unterminated tmux control-mode '' @ unterminated_state_name st"

section \<open>Operations\<close>

definition gateway_with_first_connection_id :: "u64 \<Rightarrow> gateway_router" where
  "gateway_with_first_connection_id n =
     \<lparr> gr_marker_prefix = [], gr_active = None, gr_next_connection_id = n \<rparr>"

definition gateway_new :: gateway_router where
  "gateway_new = gateway_with_first_connection_id 1"

definition gateway_active_connection :: "gateway_router \<Rightarrow> u64 option" where
  "gateway_active_connection r = map_option ac_connection_id (gr_active r)"

definition gateway_lifecycle_state :: "gateway_router \<Rightarrow> gateway_lifecycle_state" where
  "gateway_lifecycle_state r =
     (case gr_active r of
        None \<Rightarrow> Direct
      | Some a \<Rightarrow> if ac_recovering a then Recovering
                  else if ac_saw_exit a then AwaitingTerminator
                  else InControl)"

definition emit_direct :: "bytes \<Rightarrow> gateway_event list" where
  "emit_direct direct = (if direct = [] then [] else [DirectOutput direct])"

text \<open>The connection leaves: its identifier becomes available again.\<close>

abbreviation gateway_release :: "gateway_router \<Rightarrow> u64 \<Rightarrow> gateway_router" where
  "gateway_release r n \<equiv> r\<lparr>gr_active := None, gr_next_connection_id := n\<rparr>"

definition start_connection ::
  "gateway_router \<Rightarrow> (gateway_router \<times> gateway_event list, gateway_error \<times> gateway_router) result" where
  "start_connection r =
     (let connection_id = gr_next_connection_id r in
      case checked_add_u64 connection_id 1 of
        None \<Rightarrow> Err (ConnectionIdExhausted, r)
      | Some n \<Rightarrow>
          let r1 = r\<lparr>gr_next_connection_id := n\<rparr> in
          (case control_push control_new TMUX_CONTROL_START_MARKER of
             (Err source, _) \<Rightarrow> Err (ControlFailed connection_id source, r1)
           | (Ok parsed, parser) \<Rightarrow>
               Ok (r1\<lparr>gr_active := Some \<lparr> ac_connection_id = connection_id, ac_parser = parser,
                      ac_current_record = [], ac_saw_exit = False,
                      ac_terminator_escape_seen = False, ac_recovering = False \<rparr>\<rparr>,
                   ConnectionStarted connection_id # map (Control connection_id) parsed)))"

text \<open>A byte of a connection that drains to its string terminator after a protocol failure.\<close>

definition recovering_byte ::
  "gateway_router \<Rightarrow> active_control \<Rightarrow> byte \<Rightarrow> gateway_router \<times> gateway_event list" where
  "recovering_byte r a b =
     (if ac_terminator_escape_seen a \<and> b = CHR 0x5C then
        (gateway_release r (ac_connection_id a), [ConnectionEnded (ac_connection_id a)])
      else (r\<lparr>gr_active := Some (a\<lparr>ac_terminator_escape_seen := (b = CHR 0x1B)\<rparr>)\<rparr>, []))"

definition is_exit :: "control_event \<Rightarrow> bool" where
  "is_exit e = (case e of Exit _ \<Rightarrow> True | _ \<Rightarrow> False)"

text \<open>A byte of an open connection: the new router, the events and the bytes given back to the
  direct stream.\<close>

definition connection_byte ::
  "gateway_router \<Rightarrow> active_control \<Rightarrow> byte \<Rightarrow> gateway_router \<times> gateway_event list \<times> bytes" where
  "connection_byte r a b =
     (let connection_id = ac_connection_id a;
          a1 = a\<lparr>ac_terminator_escape_seen :=
                   (ac_terminator_escape_seen a \<or> (ac_saw_exit a \<and> b = CHR 0x1B)),
                 ac_current_record := ac_current_record a @ [b]\<rparr> in
      case control_push (ac_parser a1) [b] of
        (Err source, parser) \<Rightarrow>
          let failed = a1\<lparr>ac_parser := parser\<rparr>;
              evs = [ConnectionFailed connection_id
                       (if ac_saw_exit failed then MissingTerminator
                        else Protocol (control_error_text source))];
              returned_to_direct_transport =
                ac_saw_exit failed \<or>
                (case ac_current_record failed of
                   [] \<Rightarrow> False
                 | c # _ \<Rightarrow> c \<noteq> CHR ''%'' \<and> c \<noteq> CHR 0x1B) in
          if returned_to_direct_transport then
            (gateway_release r connection_id, evs, ac_current_record failed)
          else (r\<lparr>gr_active := Some (failed\<lparr>ac_current_record := [], ac_recovering := True,
                    ac_saw_exit := False, ac_terminator_escape_seen := False\<rparr>)\<rparr>, evs, [])
      | (Ok parsed, parser) \<Rightarrow>
          let a2 = a1\<lparr>ac_parser := parser,
                      ac_saw_exit := (ac_saw_exit a1 \<or> (\<exists>e \<in> set parsed. is_exit e)),
                      ac_current_record := (if b = CHR 0x0A then [] else ac_current_record a1)\<rparr>;
              evs = map (Control connection_id) parsed in
          if Ended \<in> set parsed then
            (gateway_release r connection_id,
             evs @ [if ac_saw_exit a2 then ConnectionEnded connection_id
                    else ConnectionFailed connection_id MissingExit], [])
          else (r\<lparr>gr_active := Some a2\<rparr>, evs, []))"

text \<open>One iteration of the loop on its next byte: whether the byte was consumed, the router, the
  pending direct bytes and the events pushed.\<close>

definition gateway_iter ::
  "gateway_router \<Rightarrow> bytes \<Rightarrow> byte
     \<Rightarrow> (bool \<times> gateway_router \<times> bytes \<times> gateway_event list, gateway_error \<times> gateway_router) result" where
  "gateway_iter r direct b =
     (case gr_active r of
        Some a \<Rightarrow>
          if ac_recovering a then
            (case recovering_byte r a b of (r', evs) \<Rightarrow> Ok (True, r', direct, evs))
          else if ac_saw_exit a \<and> \<not> ac_terminator_escape_seen a \<and> b \<noteq> CHR 0x1B then
            Ok (False, gateway_release r (ac_connection_id a), direct,
                [ConnectionFailed (ac_connection_id a) MissingTerminator])
          else (case connection_byte r a b of
                  (r', evs, ret) \<Rightarrow> Ok (True, r', direct @ ret, evs))
      | None \<Rightarrow>
          if b = TMUX_CONTROL_START_MARKER ! length (gr_marker_prefix r) then
            (let prefix = gr_marker_prefix r @ [b] in
             if length prefix = length TMUX_CONTROL_START_MARKER then
               (case start_connection (r\<lparr>gr_marker_prefix := []\<rparr>) of
                  Err e \<Rightarrow> Err e
                | Ok (r', evs) \<Rightarrow> Ok (True, r', [], emit_direct direct @ evs))
             else Ok (True, r\<lparr>gr_marker_prefix := prefix\<rparr>, direct, []))
          else if gr_marker_prefix r = [] then Ok (True, r, direct @ [b], [])
          else Ok (False, r\<lparr>gr_marker_prefix := []\<rparr>, direct @ gr_marker_prefix r, []))"

fun prepend_events ::
  "'e list \<Rightarrow> ('e list, 'x) result \<times> 's \<Rightarrow> ('e list, 'x) result \<times> 's" where
  "prepend_events evs (Ok es, r) = (Ok (evs @ es), r)"
| "prepend_events evs (Err e, r) = (Err e, r)"

text \<open>A byte that is left for the next iteration has moved the router closer to plain output.\<close>

definition gateway_rank :: "gateway_router \<Rightarrow> nat" where
  "gateway_rank r = (if gr_active r \<noteq> None then 2 else 0) + (if gr_marker_prefix r \<noteq> [] then 1 else 0)"

lemma gateway_iter_rank:
  "gateway_iter r direct b = Ok (False, r', direct', evs) \<Longrightarrow> gateway_rank r' < gateway_rank r"
  by (auto simp: gateway_iter_def gateway_rank_def Let_def
      split: option.splits if_splits prod.splits result.splits)

function gateway_loop ::
  "gateway_router \<Rightarrow> bytes \<Rightarrow> bytes \<Rightarrow> (gateway_event list, gateway_error) result \<times> gateway_router" where
  "gateway_loop r direct [] = (Ok (emit_direct direct), r)"
| "gateway_loop r direct (b # bs) =
     (case gateway_iter r direct b of
        Err (e, r') \<Rightarrow> (Err e, r')
      | Ok (consumed, r', direct', evs) \<Rightarrow>
          prepend_events evs (gateway_loop r' direct' (if consumed then bs else b # bs)))"
  by pat_completeness auto
termination
  by (relation "measures [\<lambda>(r, direct, bs). length bs, \<lambda>(r, direct, bs). gateway_rank r]")
     (auto dest: gateway_iter_rank)

definition gateway_push ::
  "gateway_router \<Rightarrow> bytes \<Rightarrow> (gateway_event list, gateway_error) result \<times> gateway_router" where
  "gateway_push r bs = gateway_loop r [] bs"

definition gateway_finish_direct :: "gateway_router \<Rightarrow> (bytes, gateway_error) result \<times> gateway_router" where
  "gateway_finish_direct r =
     (case gr_active r of
        Some a \<Rightarrow>
          if ac_recovering a then (Err (UnterminatedControl (ac_connection_id a) ParserPoisoned), r)
          else (case control_finish (ac_parser a) of
                  (Ok _, parser) \<Rightarrow> (Ok [], r\<lparr>gr_active := Some (a\<lparr>ac_parser := parser\<rparr>)\<rparr>)
                | (Err source, parser) \<Rightarrow>
                    (Err (UnterminatedControl (ac_connection_id a) source),
                     r\<lparr>gr_active := Some (a\<lparr>ac_parser := parser\<rparr>)\<rparr>))
      | None \<Rightarrow> (Ok (gr_marker_prefix r), r\<lparr>gr_marker_prefix := []\<rparr>))"

definition gateway_finish_transport :: "gateway_router \<Rightarrow> gateway_event list \<times> gateway_router" where
  "gateway_finish_transport r =
     (case gr_active r of
        Some a \<Rightarrow>
          ([if ac_recovering a then ConnectionEnded (ac_connection_id a)
            else ConnectionFailed (ac_connection_id a)
                   (if ac_saw_exit a then MissingTerminator else TransportEof)],
           (gateway_release r (ac_connection_id a))\<lparr>gr_marker_prefix := []\<rparr>)
      | None \<Rightarrow>
          (if gr_marker_prefix r \<noteq> [] then [DirectOutput (gr_marker_prefix r)] else [],
           r\<lparr>gr_marker_prefix := []\<rparr>))"

definition gateway_expire_termination :: "gateway_router \<Rightarrow> gateway_event list \<times> gateway_router" where
  "gateway_expire_termination r =
     (case gr_active r of
        None \<Rightarrow> ([], r)
      | Some a \<Rightarrow>
          if \<not> ac_saw_exit a then ([], r)
          else ([ConnectionFailed (ac_connection_id a) TerminatorTimeout],
                gateway_release r (ac_connection_id a)))"

section \<open>Chunking\<close>

text \<open>The stream a client sees, with the cuts between direct outputs removed.\<close>

datatype gateway_item = Byte byte | Event gateway_event

fun event_items :: "gateway_event \<Rightarrow> gateway_item list" where
  "event_items (DirectOutput bs) = map Byte bs"
| "event_items e = [Event e]"

definition items :: "gateway_event list \<Rightarrow> gateway_item list" where
  "items es = concat (map event_items es)"

lemma items_simps [simp]:
  "items [] = []" "items (e # es) = event_items e @ items es" "items (xs @ ys) = items xs @ items ys"
  by (simp_all add: items_def)

lemma items_emit_direct [simp]: "items (emit_direct d) = map Byte d"
  by (simp add: emit_direct_def)

text \<open>Equal but for the cuts.\<close>

fun same_stream ::
  "(gateway_event list, gateway_error) result \<times> gateway_router
     \<Rightarrow> gateway_item list \<Rightarrow> (gateway_event list, gateway_error) result \<times> gateway_router \<Rightarrow> bool" where
  "same_stream (Ok xs, r) d (Ok ys, r') \<longleftrightarrow> r = r' \<and> items xs = d @ items ys"
| "same_stream (Err e, r) d (Err e', r') \<longleftrightarrow> r = r' \<and> e = e'"
| "same_stream _ _ _ \<longleftrightarrow> False"

lemma gateway_iter_direct:
  assumes "d = [] \<or> gr_active r = None" "gateway_iter r direct b = Ok (c, r', direct', evs)"
  shows "\<exists>evs2 direct2. gateway_iter r (d @ direct) b = Ok (c, r', direct2, evs2) \<and>
     (direct2 = d @ direct' \<and> evs2 = evs \<and> (d = [] \<or> gr_active r' = None \<and> evs = []) \<or>
      direct2 = direct' \<and> items evs2 = map Byte d @ items evs)"
  using assms
  by (auto simp: gateway_iter_def Let_def split: option.splits if_splits prod.splits result.splits)

lemma gateway_iter_Err:
  "gateway_iter r direct b = Err e \<Longrightarrow> gateway_iter r (d @ direct) b = Err e"
  by (auto simp: gateway_iter_def Let_def split: option.splits if_splits prod.splits result.splits)

lemma same_stream_prepend:
  "same_stream X d Y \<Longrightarrow> evs = [] \<or> d = [] \<Longrightarrow> same_stream (prepend_events evs X) d (prepend_events evs Y)"
  by (induction X d Y rule: same_stream.induct) auto

lemma same_stream_prepend_refl:
  "items evs2 = d @ items evs \<Longrightarrow> same_stream (prepend_events evs2 X) d (prepend_events evs X)"
  by (cases "(evs, X)" rule: prepend_events.cases) auto

lemma gateway_loop_direct:
  "d = [] \<or> gr_active r = None \<Longrightarrow>
     same_stream (gateway_loop r (d @ direct) bs) (map Byte d) (gateway_loop r direct bs)"
proof (induction r direct bs rule: gateway_loop.induct)
  case (1 r direct)
  then show ?case by simp
next
  case (2 r direct b bs)
  show ?case
  proof (cases "gateway_iter r direct b")
    case (Err e)
    then show ?thesis using gateway_iter_Err [OF Err] by (cases e) simp
  next
    case (Ok res)
    then obtain c r' direct' evs where i: "gateway_iter r direct b = Ok (c, r', direct', evs)"
      by (cases res) auto
    from gateway_iter_direct [OF "2.prems" i] obtain evs2 direct2 where
      i2: "gateway_iter r (d @ direct) b = Ok (c, r', direct2, evs2)" and
      alt: "direct2 = d @ direct' \<and> evs2 = evs \<and> (d = [] \<or> gr_active r' = None \<and> evs = []) \<or>
        direct2 = direct' \<and> items evs2 = map Byte d @ items evs" by blast
    note IH = "2.IH" [OF i refl refl refl]
    from alt show ?thesis
    proof
      assume a: "direct2 = d @ direct' \<and> evs2 = evs \<and> (d = [] \<or> gr_active r' = None \<and> evs = [])"
      with IH have "same_stream (gateway_loop r' direct2 (if c then bs else b # bs)) (map Byte d)
          (gateway_loop r' direct' (if c then bs else b # bs))" by auto
      with a i i2 show ?thesis by (auto intro!: same_stream_prepend)
    next
      assume "direct2 = direct' \<and> items evs2 = map Byte d @ items evs"
      with i i2 show ?thesis by (simp add: same_stream_prepend_refl)
    qed
  qed
qed

text \<open>Two pushes in sequence, as one.\<close>

definition push_then ::
  "gateway_router \<Rightarrow> bytes \<Rightarrow> bytes \<Rightarrow> (gateway_event list, gateway_error) result \<times> gateway_router" where
  "push_then r xs ys =
     (case gateway_push r xs of
        (Err e, r') \<Rightarrow> (Err e, r')
      | (Ok es, r') \<Rightarrow> prepend_events es (gateway_push r' ys))"

lemma prepend_Nil [simp]: "prepend_events [] X = X"
  by (cases "([] :: 'a list, X)" rule: prepend_events.cases) auto

lemma prepend_append [simp]: "prepend_events (xs @ ys) X = prepend_events xs (prepend_events ys X)"
  by (cases "(ys, X)" rule: prepend_events.cases) auto

lemma same_stream_continue:
  "same_stream X [] (case L of (Err e, r) \<Rightarrow> (Err e, r) | (Ok es, r) \<Rightarrow> prepend_events es (F r)) \<Longrightarrow>
   same_stream (prepend_events evs X) []
     (case prepend_events evs L of (Err e, r) \<Rightarrow> (Err e, r) | (Ok es, r) \<Rightarrow> prepend_events es (F r))"
proof (induction evs L rule: prepend_events.induct)
  case (1 evs es r)
  then show ?case using same_stream_prepend [of X "[]" "prepend_events es (F r)" evs] by simp
next
  case (2 evs e r)
  then show ?case by (cases "(evs, X)" rule: prepend_events.cases) auto
qed

lemma gateway_loop_append:
  "direct = [] \<or> gr_active r = None \<Longrightarrow>
   same_stream (gateway_loop r direct (xs @ ys)) []
     (case gateway_loop r direct xs of
        (Err e, r') \<Rightarrow> (Err e, r')
      | (Ok es, r') \<Rightarrow> prepend_events es (gateway_loop r' [] ys))"
proof (induction r direct xs rule: gateway_loop.induct)
  case (1 r direct)
  then show ?case using gateway_loop_direct [of direct r "[]" ys]
    by (cases "gateway_loop r direct ys"; cases "gateway_loop r [] ys";
        cases "fst (gateway_loop r direct ys)"; cases "fst (gateway_loop r [] ys)") auto
next
  case (2 r direct b bs)
  show ?case
  proof (cases "gateway_iter r direct b")
    case (Err e)
    then show ?thesis by (cases e) simp
  next
    case (Ok res)
    then obtain c r' direct' evs where i: "gateway_iter r direct b = Ok (c, r', direct', evs)"
      by (cases res) auto
    have "direct' = [] \<or> gr_active r' = None"
      using "2.prems" i
      by (auto simp: gateway_iter_def connection_byte_def recovering_byte_def Let_def
          split: option.splits if_splits prod.splits result.splits)
    from "2.IH" [OF i refl refl refl this]
    have "same_stream (gateway_loop r' direct' ((if c then bs else b # bs) @ ys)) []
        (case gateway_loop r' direct' (if c then bs else b # bs) of
           (Err e, r') \<Rightarrow> (Err e, r')
         | (Ok es, r') \<Rightarrow> prepend_events es (gateway_loop r' [] ys))" .
    from same_stream_continue [OF this, of evs] show ?thesis using i by (cases c) simp_all
  qed
qed

text \<open>
  chunk boundaries cannot be observed, but for where direct output is cut. Pushing a stream
  in two pieces leaves the same router and fails with the same error as pushing it at once, and when it succeeds
  the events are the same up to joining adjacent direct outputs: the same direct bytes and the same
  connection events in the same order.
\<close>

theorem gateway_push_append:
  "(case push_then r xs ys of
      (Err e, r') \<Rightarrow> gateway_push r (xs @ ys) = (Err e, r')
    | (Ok es, r') \<Rightarrow> \<exists>es'. gateway_push r (xs @ ys) = (Ok es', r') \<and> items es' = items es)"
proof -
  have "same_stream (gateway_push r (xs @ ys)) [] (push_then r xs ys)"
    unfolding gateway_push_def push_then_def by (rule gateway_loop_append) simp
  then show ?thesis
    by (cases "(gateway_push r (xs @ ys), [] :: gateway_item list, push_then r xs ys)"
        rule: same_stream.cases) auto
qed

section \<open>The marker scanner\<close>

abbreviation marker :: bytes where
  "marker \<equiv> TMUX_CONTROL_START_MARKER"

lemma marker_length [simp]: "length TMUX_CONTROL_START_MARKER = 7"
  by (simp add: TMUX_CONTROL_START_MARKER_def)

lemma marker_nonempty [simp]: "TMUX_CONTROL_START_MARKER \<noteq> []"
  by (simp add: TMUX_CONTROL_START_MARKER_def)

lemma marker_nth_escape: "k < 7 \<Longrightarrow> marker ! k = CHR 0x1B \<longleftrightarrow> k = 0"
proof -
  assume "k < 7"
  then have "k \<in> {0, 1, 2, 3, 4, 5, 6}" by auto
  then show ?thesis by (auto simp: TMUX_CONTROL_START_MARKER_def)
qed

lemma marker_take_Suc: "k < 7 \<Longrightarrow> take k marker @ [marker ! k] = take (Suc k) marker"
  by (simp add: take_Suc_conv_app_nth)

lemma marker_start: "take (Suc 0) marker = [CHR 0x1B]" "marker ! 0 = CHR 0x1B"
  by (simp_all add: TMUX_CONTROL_START_MARKER_def)

text \<open>A router that is scanning direct output and has matched \<open>k\<close> bytes of the marker.\<close>

definition scanning :: "gateway_router \<Rightarrow> nat \<Rightarrow> bool" where
  "scanning r k \<longleftrightarrow> gr_active r = None \<and> k < 7 \<and> gr_marker_prefix r = take k marker"

lemma scanning_byte:
  assumes "scanning r k" "\<not> (k = 6 \<and> b = marker ! 6)"
  shows "\<exists>k' direct'. (\<forall>bs. gateway_loop r direct (b # bs) =
            gateway_loop (r\<lparr>gr_marker_prefix := take k' marker\<rparr>) direct' bs) \<and> k' < 7 \<and>
          direct' @ take k' marker = direct @ take k marker @ [b] \<and>
          suffix (take k' marker) (take k marker @ [b])"
proof -
  have len: "length (take k marker) = k" using assms by (simp add: scanning_def)
  note s = assms(1) [unfolded scanning_def]
  show ?thesis
  proof (cases "b = marker ! k")
    case True
    with assms(2) s have "k < 6" by auto
    with True s len show ?thesis
      by (intro exI [of _ "Suc k"] exI [of _ direct])
         (simp add: gateway_iter_def Let_def marker_take_Suc)
  next
    case False
    have r: "r\<lparr>gr_marker_prefix := []\<rparr> = r" if "k = 0" using s that by simp
    show ?thesis
    proof (cases "k = 0")
      case True
      with False s len show ?thesis
        by (intro exI [of _ 0] exI [of _ "direct @ [b]"]) (simp add: gateway_iter_def r)
    next
      case k: False
      show ?thesis
      proof (cases "b = CHR 0x1B")
        case True
        with False s len k show ?thesis
          by (intro exI [of _ "Suc 0"] exI [of _ "direct @ take k marker"])
             (simp add: gateway_iter_def Let_def marker_start)
      next
        case e: False
        with False s len k show ?thesis
          by (intro exI [of _ 0] exI [of _ "direct @ take k marker @ [b]"])
             (simp add: gateway_iter_def Let_def marker_start)
      qed
    qed
  qed
qed

lemma scanning_run:
  assumes "scanning r k" "\<not> sublist marker (take k marker @ pre)"
  shows "\<exists>k' direct'. (\<forall>bs. gateway_loop r direct (pre @ bs) =
            gateway_loop (r\<lparr>gr_marker_prefix := take k' marker\<rparr>) direct' bs) \<and> k' < 7 \<and>
          direct' @ take k' marker = direct @ take k marker @ pre"
  using assms
proof (induction pre arbitrary: r k direct)
  case Nil
  have "r\<lparr>gr_marker_prefix := take k marker\<rparr> = r" using Nil(1) by (simp add: scanning_def)
  then show ?case
    using Nil(1) by (intro exI [of _ k] exI [of _ direct]) (simp only: scanning_def append.simps, simp)
next
  case (Cons b pre)
  have "\<not> (k = 6 \<and> b = marker ! 6)"
  proof
    assume "k = 6 \<and> b = marker ! 6"
    then have "take k marker @ b # pre = marker @ pre"
      using marker_take_Suc [of 6] by simp
    with Cons.prems(2) show False by (metis append_Nil sublist_appendI)
  qed
  from scanning_byte [OF Cons.prems(1) this, of direct] obtain k' direct' where
    1: "\<And>bs. gateway_loop r direct (b # bs) =
          gateway_loop (r\<lparr>gr_marker_prefix := take k' marker\<rparr>) direct' bs" "k' < 7"
       "direct' @ take k' marker = direct @ take k marker @ [b]"
       "suffix (take k' marker) (take k marker @ [b])" by blast
  let ?r = "r\<lparr>gr_marker_prefix := take k' marker\<rparr>"
  from 1(4) obtain q where q: "take k marker @ [b] = q @ take k' marker" by (auto simp: suffix_def)
  have "scanning ?r k'" using Cons.prems(1) 1(2) by (simp add: scanning_def)
  moreover have "\<not> sublist marker (take k' marker @ pre)"
  proof
    assume "sublist marker (take k' marker @ pre)"
    then have "sublist marker (q @ take k' marker @ pre)" 
      by (meson sublist_append_leftI sublist_order.order_trans)
    also have "q @ take k' marker @ pre = take k marker @ b # pre"
      using q by (metis append.assoc append_Cons append_Nil)
    finally show False using Cons.prems(2) by simp
  qed
  ultimately obtain k2 d2 where
    2: "\<And>bs. gateway_loop ?r direct' (pre @ bs) =
          gateway_loop (?r\<lparr>gr_marker_prefix := take k2 marker\<rparr>) d2 bs" "k2 < 7"
       "d2 @ take k2 marker = direct' @ take k' marker @ pre"
    using Cons.IH [of ?r k' direct'] by blast
  moreover have "direct' @ take k' marker @ pre = direct @ take k marker @ b # pre"
    using arg_cong [OF 1(3), of "\<lambda>x. x @ pre"] by simp
  ultimately show ?case
    by (intro exI [of _ k2] exI [of _ d2]) (simp add: 1(1) del: gateway_loop.simps)
qed

lemma control_push_marker:
  "control_push control_new marker = (Ok [Started], control_new\<lparr>cp_state := Records\<rparr>)"
  by (simp add: control_push_def control_new_def control_with_limits_def control_push_byte_def
      CONTROL_START_def TMUX_CONTROL_START_MARKER_def)

text \<open>The router right after a connection has been opened.\<close>

definition opened :: "gateway_router \<Rightarrow> gateway_router" where
  "opened r = r\<lparr>gr_marker_prefix := [], gr_next_connection_id := gr_next_connection_id r + 1,
     gr_active := Some \<lparr> ac_connection_id = gr_next_connection_id r,
       ac_parser = control_new\<lparr>cp_state := Records\<rparr>, ac_current_record = [],
       ac_saw_exit = False, ac_terminator_escape_seen = False, ac_recovering = False \<rparr>\<rparr>"

lemma start_connection_ok:
  "gr_next_connection_id r \<noteq> - 1 \<Longrightarrow>
     start_connection r = Ok ((opened r)\<lparr>gr_marker_prefix := gr_marker_prefix r\<rparr>,
       [ConnectionStarted (gr_next_connection_id r), Control (gr_next_connection_id r) Started])"
proof -
  assume n: "gr_next_connection_id r \<noteq> - 1"
  have "unat (gr_next_connection_id r) \<noteq> unat (- 1 :: u64)" 
    using n by (simp only: word_unat_eq_iff not_False_eq_True)
  moreover have "unat (- 1 :: u64) = 18446744073709551615"
    by (simp add: unsigned_minus_1_eq_mask mask_eq_exp_minus_1)
  ultimately have "unat (gr_next_connection_id r) + 1 < 18446744073709551616"
    using unat_less_2p64 [of "gr_next_connection_id r"] by linarith
  then show ?thesis
    by (simp add: start_connection_def checked_add_u64_def control_push_marker opened_def
        Let_def)
qed

lemma scanning_match_all:
  assumes "scanning r k" "gr_next_connection_id r \<noteq> - 1"
  shows "gateway_loop r direct (drop k marker @ bs) =
    prepend_events (emit_direct direct @ [ConnectionStarted (gr_next_connection_id r),
       Control (gr_next_connection_id r) Started]) (gateway_loop (opened r) [] bs)"
  using assms
proof (induction "6 - k" arbitrary: r k)
  case 0
  then have k: "k = 6" by (auto simp: scanning_def)
  then have "drop k marker = [marker ! 6]" by (simp add: TMUX_CONTROL_START_MARKER_def)
  moreover have "(opened (r\<lparr>gr_marker_prefix := []\<rparr>))\<lparr>gr_marker_prefix := []\<rparr> = opened r"
    by (simp add: opened_def)
  ultimately show ?case
    using 0 k by (simp add: gateway_iter_def scanning_def Let_def start_connection_ok)
next
  case (Suc n)
  then have k: "k < 6" by (auto simp: scanning_def)
  then have d: "drop k marker = marker ! k # drop (Suc k) marker"
    by (simp add: Cons_nth_drop_Suc)
  let ?r = "r\<lparr>gr_marker_prefix := take (Suc k) marker\<rparr>"
  have "gateway_loop r direct (drop k marker @ bs) = gateway_loop ?r direct (drop (Suc k) marker @ bs)"
    using Suc k d by (simp add: gateway_iter_def scanning_def Let_def marker_take_Suc)
  moreover have "scanning ?r (Suc k)" using Suc k by (simp add: scanning_def)
  moreover have "opened ?r = opened r" by (simp add: opened_def)
  ultimately show ?case using Suc(1) [of "Suc k" ?r] Suc(2-) by simp
qed

lemma gateway_loop_marker:
  assumes "scanning r k" "gr_next_connection_id r \<noteq> - 1"
  shows "\<exists>direct'. direct' = direct @ take k marker \<and> gateway_loop r direct (marker @ bs) =
    prepend_events (emit_direct direct' @ [ConnectionStarted (gr_next_connection_id r),
       Control (gr_next_connection_id r) Started]) (gateway_loop (opened r) [] bs)"
proof (cases "k = 0")
  case True
  with scanning_match_all [OF assms, of direct bs] show ?thesis by simp
next
  case False
  let ?r = "r\<lparr>gr_marker_prefix := []\<rparr>"
  note s = assms(1) [unfolded scanning_def]
  have m: "marker = CHR 0x1B # tl marker" by (simp add: TMUX_CONTROL_START_MARKER_def)
  have "CHR 0x1B \<noteq> marker ! k" using marker_nth_escape [of k] s False by auto
  then have "gateway_iter r direct (CHR 0x1B) = Ok (False, ?r, direct @ take k marker, [])"
    using s False by (simp add: gateway_iter_def)
  then have "gateway_loop r direct (marker @ bs) = gateway_loop ?r (direct @ take k marker) (marker @ bs)"
    by (subst (1 2) m) simp
  moreover have "scanning ?r 0" using s by (simp add: scanning_def)
  moreover have "opened ?r = opened r" by (simp add: opened_def)
  ultimately show ?thesis using scanning_match_all [of ?r 0 "direct @ take k marker" bs] assms(2) by simp
qed

fun is_direct :: "gateway_event \<Rightarrow> bool" where
  "is_direct (DirectOutput _) = True"
| "is_direct _ = False"

text \<open>
  C8: ordinary output passes through unchanged. When the bytes of a direct stream do not contain
  the control start marker, however much of it they resemble, the router emits only direct output,
  stays direct, and together with what \<open>finish_transport\<close> releases at the end the output is exactly
  the input.
\<close>

theorem gateway_passthrough:
  assumes "gr_active r = None" "gr_marker_prefix r = []" "\<not> sublist TMUX_CONTROL_START_MARKER bs"
  shows "\<exists>es r'. gateway_push r bs = (Ok es, r') \<and> gr_active r' = None \<and>
     (\<forall>e \<in> set (es @ fst (gateway_finish_transport r')). is_direct e) \<and>
     items (es @ fst (gateway_finish_transport r')) = map Byte bs"
proof -
  have "scanning r 0" using assms by (simp add: scanning_def)
  from scanning_run [OF this, of bs "[]"] assms(3) obtain k direct' where
    "gateway_loop r [] bs = gateway_loop (r\<lparr>gr_marker_prefix := take k marker\<rparr>) direct' []"
    "direct' @ take k marker = bs" by (metis append_Nil append_Nil2 take_0)
  then show ?thesis
    using assms(1) by (auto simp: gateway_push_def gateway_finish_transport_def emit_direct_def)
qed

theorem gateway_passthrough_witness:
  "\<exists>es r'. gateway_push gateway_new (CHR 0x1B # ''P100x'' @ [CHR 0x1B, CHR ''P'']) = (Ok es, r') \<and>
     items (es @ fst (gateway_finish_transport r')) =
       map Byte (CHR 0x1B # ''P100x'' @ [CHR 0x1B, CHR ''P''])"
proof -
  let ?bs = "CHR 0x1B # ''P100x'' @ [CHR 0x1B, CHR ''P'']"
  have "\<not> sublist TMUX_CONTROL_START_MARKER ?bs"
    by (simp add: TMUX_CONTROL_START_MARKER_def sublist_Cons_right)
  from gateway_passthrough [OF _ _ this, of gateway_new] show ?thesis
    by (auto simp: gateway_new_def gateway_with_first_connection_id_def)
qed

text \<open>
  the marker is never missed and nothing before it is lost. If the marker follows bytes that
  do not contain it, in one chunk, then whatever partial matches those bytes end in, the router
  first emits exactly those bytes, then opens one connection under its next identifier, and the bytes after
  the marker are handled by the open connection.
\<close>

theorem gateway_detects_marker:
  assumes "gr_active r = None" "gr_marker_prefix r = []" "\<not> sublist TMUX_CONTROL_START_MARKER pre"
    and "gr_next_connection_id r \<noteq> - 1"
  shows "gateway_push r (pre @ TMUX_CONTROL_START_MARKER @ post) =
    prepend_events (emit_direct pre @ [ConnectionStarted (gr_next_connection_id r),
       Control (gr_next_connection_id r) Started]) (gateway_push (opened r) post)"
proof -
  have "scanning r 0" using assms by (simp add: scanning_def)
  from scanning_run [OF this, of pre "[]"] assms(3) obtain k direct' where
    1: "\<And>bs. gateway_loop r [] (pre @ bs) = gateway_loop (r\<lparr>gr_marker_prefix := take k marker\<rparr>) direct' bs"
    "k < 7" "direct' @ take k marker = pre" by (metis append_Nil take_0)
  let ?r = "r\<lparr>gr_marker_prefix := take k marker\<rparr>"
  have "scanning ?r k" "opened ?r = opened r"
    using assms(1) 1(2) by (simp_all add: scanning_def opened_def)
  with gateway_loop_marker [of ?r k direct' post] 1 assms(4) show ?thesis
    by (simp add: gateway_push_def del: prepend_append)
qed

theorem gateway_detects_marker_witness:
  "gateway_push gateway_new ((CHR 0x1B # ''P10'') @ TMUX_CONTROL_START_MARKER @ []) =
     (Ok [DirectOutput (CHR 0x1B # ''P10''), ConnectionStarted 1, Control 1 Started], opened gateway_new)"
proof -
  have "\<not> sublist TMUX_CONTROL_START_MARKER (CHR 0x1B # ''P10'')"
    by (simp add: TMUX_CONTROL_START_MARKER_def sublist_Cons_right)
  from gateway_detects_marker [OF _ _ this, of gateway_new "[]"] show ?thesis
    by (simp add: gateway_new_def gateway_with_first_connection_id_def gateway_push_def emit_direct_def)
qed

section \<open>Connection lifecycle\<close>

text \<open>What the application promises its views about a transport: it is idle, or one connection
  is open, or one connection has failed and drains.\<close>

datatype link = Idle | Open u64 | Draining u64

inductive link_step :: "link \<Rightarrow> gateway_event \<Rightarrow> link \<Rightarrow> bool" where
  direct: "link_step Idle (DirectOutput bs) Idle"
| started: "link_step Idle (ConnectionStarted n) (Open n)"
| control: "link_step (Open n) (Control n e) (Open n)"
| ended: "link_step (Open n) (ConnectionEnded n) Idle"
| failed: "link_step (Open n) (ConnectionFailed n why) Idle"
| protocol: "link_step (Open n) (ConnectionFailed n (Protocol t)) (Draining n)"
| drained: "link_step (Draining n) (ConnectionEnded n) Idle"

inductive_simps link_step_Idle: "link_step Idle e l"
inductive_simps link_step_Open: "link_step (Open n) e l"
inductive_simps link_step_Draining: "link_step (Draining n) e l"

fun link_trace :: "link \<Rightarrow> gateway_event list \<Rightarrow> link \<Rightarrow> bool" where
  "link_trace l [] l' \<longleftrightarrow> l = l'"
| "link_trace l (e # es) l' \<longleftrightarrow> (\<exists>m. link_step l e m \<and> link_trace m es l')"

definition link_of :: "gateway_router \<Rightarrow> link" where
  "link_of r = (case gr_active r of
      None \<Rightarrow> Idle
    | Some a \<Rightarrow> if ac_recovering a then Draining (ac_connection_id a) else Open (ac_connection_id a))"

lemma link_trace_append:
  "link_trace l (xs @ ys) l' \<longleftrightarrow> (\<exists>m. link_trace l xs m \<and> link_trace m ys l')"
  by (induction xs arbitrary: l) auto

lemma link_trace_control [simp]: "link_trace (Open n) (map (Control n) es) l \<longleftrightarrow> l = Open n"
  by (induction es) (auto simp: link_step_Open)

lemma link_trace_emit [simp]: "link_trace Idle (emit_direct d) l \<longleftrightarrow> l = Idle"
  by (auto simp: emit_direct_def link_step_Idle)

lemma connection_byte_link:
  assumes "connection_byte r a b = (r', evs, ret)" "\<not> ac_recovering a"
  shows "link_trace (Open (ac_connection_id a)) evs (link_of r')"
    and "ret = [] \<or> gr_active r' = None"
  using assms
  by (auto simp: connection_byte_def Let_def link_of_def link_trace_append link_step_Open
      split: prod.splits result.splits if_splits)

lemma start_connection_link:
  "start_connection r = Ok (r', evs) \<Longrightarrow> link_trace Idle evs (link_of r')"
  by (auto simp: start_connection_def Let_def link_of_def link_step_Idle link_step_Open
      split: option.splits prod.splits result.splits)

lemma gateway_iter_link:
  assumes "gateway_iter r direct b = Ok (c, r', direct', evs)" "direct = [] \<or> gr_active r = None"
  shows "link_trace (link_of r) evs (link_of r') \<and> (direct' = [] \<or> gr_active r' = None)"
proof (cases "gr_active r")
  case None
  with assms show ?thesis
    by (auto simp: gateway_iter_def Let_def link_of_def link_trace_append
        dest!: start_connection_link split: if_splits result.splits prod.splits)
next
  case (Some a)
  with assms connection_byte_link [of r a b] show ?thesis
    by (auto simp: gateway_iter_def recovering_byte_def link_of_def link_step_Open link_step_Draining
        split: if_splits prod.splits)
qed

lemma gateway_loop_link:
  "gateway_loop r direct bs = (Ok es, r') \<Longrightarrow> direct = [] \<or> gr_active r = None \<Longrightarrow>
     link_trace (link_of r) es (link_of r')"
proof (induction r direct bs arbitrary: es rule: gateway_loop.induct)
  case (1 r direct)
  then show ?case by (cases "direct = []") (auto simp: emit_direct_def link_of_def link_step_Idle)
next
  case (2 r direct b bs)
  then obtain c r1 direct1 evs where i: "gateway_iter r direct b = Ok (c, r1, direct1, evs)"
    by (auto split: result.splits)
  let ?bs = "if c then bs else b # bs"
  from 2(2) i obtain es1 where l: "gateway_loop r1 direct1 ?bs = (Ok es1, r')" "es = evs @ es1"
    by (cases "(evs, gateway_loop r1 direct1 ?bs)" rule: prepend_events.cases) auto
  from gateway_iter_link [OF i 2(3)] "2.IH" [OF i refl refl refl l(1)] l(2) show ?case
    by (auto simp: link_trace_append)
qed

text \<open>The routers that calls of the public operations lead to, with the events they returned.\<close>

inductive gateway_reachable :: "u64 \<Rightarrow> gateway_event list \<Rightarrow> gateway_router \<Rightarrow> bool" for n where
  init: "gateway_reachable n [] (gateway_with_first_connection_id n)"
| push: "gateway_reachable n es r \<Longrightarrow> gateway_push r bs = (Ok es', r') \<Longrightarrow>
    gateway_reachable n (es @ es') r'"
| push_error: "gateway_reachable n es r \<Longrightarrow> gateway_push r bs = (Err e, r') \<Longrightarrow> gateway_reachable n es r'"
| finish_direct: "gateway_reachable n es r \<Longrightarrow> gateway_finish_direct r = (Ok bs, r') \<Longrightarrow>
    gateway_reachable n (es @ emit_direct bs) r'"
| finish_direct_error: "gateway_reachable n es r \<Longrightarrow> gateway_finish_direct r = (Err e, r') \<Longrightarrow>
    gateway_reachable n es r'"
| finish_transport: "gateway_reachable n es r \<Longrightarrow> gateway_finish_transport r = (es', r') \<Longrightarrow>
    gateway_reachable n (es @ es') r'"
| expire_termination: "gateway_reachable n es r \<Longrightarrow> gateway_expire_termination r = (es', r') \<Longrightarrow>
    gateway_reachable n (es @ es') r'"

text \<open>One identifier per router: the open connection has it, an idle router offers it next.\<close>

definition gateway_ok :: "u64 \<Rightarrow> gateway_router \<Rightarrow> bool" where
  "gateway_ok n r \<longleftrightarrow>
     (case gr_active r of
        None \<Rightarrow> gr_next_connection_id r = n
      | Some a \<Rightarrow> ac_connection_id a = n \<and> (ac_recovering a \<longrightarrow> \<not> ac_saw_exit a))"

fun event_connection :: "gateway_event \<Rightarrow> u64 option" where
  "event_connection (DirectOutput _) = None"
| "event_connection (ConnectionStarted n) = Some n"
| "event_connection (Control n _) = Some n"
| "event_connection (ConnectionEnded n) = Some n"
| "event_connection (ConnectionFailed n _) = Some n"

abbreviation ids_ok :: "u64 \<Rightarrow> gateway_event list \<Rightarrow> bool" where
  "ids_ok n es \<equiv> \<forall>e \<in> set es. event_connection e \<in> {None, Some n}"

lemma ids_ok_emit [simp]: "e \<in> set (emit_direct d) \<Longrightarrow> event_connection e = None"
  by (auto simp: emit_direct_def split: if_splits)

lemma connection_byte_ok:
  assumes "connection_byte r a b = (r', evs, ret)" "\<not> ac_recovering a"
  shows "gateway_ok (ac_connection_id a) r'" and "ids_ok (ac_connection_id a) evs"
proof -
  obtain res parser where p: "control_push (ac_parser a) [b] = (res, parser)" by force
  show "gateway_ok (ac_connection_id a) r'"
    using assms p by (cases res) (auto simp: connection_byte_def gateway_ok_def Let_def split: if_splits)
  show "ids_ok (ac_connection_id a) evs"
    using assms p by (cases res) (auto simp: connection_byte_def Let_def split: if_splits)
qed

lemma recovering_byte_ok:
  assumes "recovering_byte r a b = (r', evs)" "gateway_ok n r" "gr_active r = Some a"
  shows "gateway_ok n r'" and "ids_ok n evs"
  using assms by (auto simp: recovering_byte_def gateway_ok_def split: if_splits)

lemma gateway_iter_ok:
  assumes "gateway_ok n r" "n \<noteq> - 1"
  shows "\<exists>c r' direct' evs. gateway_iter r direct b = Ok (c, r', direct', evs) \<and>
     gateway_ok n r' \<and> ids_ok n evs"
proof (cases "gr_active r")
  case None
  with assms(1) have n: "gr_next_connection_id r = n" by (simp add: gateway_ok_def)
  with n None assms(2) show ?thesis
    by (auto simp: gateway_iter_def gateway_ok_def Let_def start_connection_ok opened_def)
next
  case (Some a)
  with assms(1) have a: "ac_connection_id a = n" by (simp add: gateway_ok_def)
  consider "ac_recovering a" | "\<not> ac_recovering a" "ac_saw_exit a \<and> \<not> ac_terminator_escape_seen a \<and> b \<noteq> CHR 0x1B"
    | "\<not> ac_recovering a" "\<not> (ac_saw_exit a \<and> \<not> ac_terminator_escape_seen a \<and> b \<noteq> CHR 0x1B)" by blast
  then show ?thesis
  proof cases
    case 1
    obtain r' evs where "recovering_byte r a b = (r', evs)" by force
    with 1 Some recovering_byte_ok [OF this assms(1) Some] show ?thesis
      by (auto simp: gateway_iter_def)
  next
    case 2
    with Some a show ?thesis by (auto simp: gateway_iter_def gateway_ok_def)
  next
    case 3
    obtain r' evs ret where c: "connection_byte r a b = (r', evs, ret)" by (metis prod_cases3)
    with 3 Some a connection_byte_ok [OF c] show ?thesis by (auto simp: gateway_iter_def)
  qed
qed

lemma gateway_loop_ok:
  "gateway_ok n r \<Longrightarrow> n \<noteq> - 1 \<Longrightarrow> 
     \<exists>es r'. gateway_loop r direct bs = (Ok es, r') \<and> gateway_ok n r' \<and> ids_ok n es"
proof (induction r direct bs rule: gateway_loop.induct)
  case (1 r direct)
  then show ?case by simp
next
  case (2 r direct b bs)
  from gateway_iter_ok [OF 2(2,3)] obtain c r1 direct1 evs where
    i: "gateway_iter r direct b = Ok (c, r1, direct1, evs)" "gateway_ok n r1" "ids_ok n evs" by blast
  from "2.IH" [OF i(1) refl refl refl i(2) 2(3)] obtain es r' where
    "gateway_loop r1 direct1 (if c then bs else b # bs) = (Ok es, r')" "gateway_ok n r'" "ids_ok n es"
    by blast
  with i show ?case by auto
qed

lemma gateway_push_ok:
  assumes "gateway_ok n r" "n \<noteq> - 1"
  obtains es r' where "gateway_push r bs = (Ok es, r')" "gateway_ok n r'" "ids_ok n es"
    "link_trace (link_of r) es (link_of r')"
  using gateway_loop_ok [OF assms, of "[]" bs] gateway_loop_link [of r "[]" bs]
  by (auto simp: gateway_push_def)

lemma gateway_reachable_ok:
  "gateway_reachable n es r \<Longrightarrow> n \<noteq> - 1 \<Longrightarrow> 
     gateway_ok n r \<and> link_trace Idle es (link_of r) \<and> ids_ok n es"
proof (induction rule: gateway_reachable.induct)
  case init
  then show ?case by (simp add: gateway_ok_def gateway_with_first_connection_id_def link_of_def)
next
  case (push es r bs es' r')
  then show ?case using gateway_push_ok [of n r bs] by (auto simp: link_trace_append)
next
  case (push_error es r bs e r')
  then show ?case using gateway_push_ok [of n r bs] by auto
next
  case (finish_direct es r bs r')
  then show ?case
    by (auto simp: gateway_finish_direct_def gateway_ok_def link_of_def link_trace_append emit_direct_def
        link_step_Idle split: option.splits if_splits prod.splits result.splits)
next
  case (finish_direct_error es r e r')
  then show ?case
    by (auto simp: gateway_finish_direct_def gateway_ok_def link_of_def
        split: option.splits if_splits prod.splits result.splits)
next
  case (finish_transport es r es' r')
  then show ?case
    by (auto simp: gateway_finish_transport_def gateway_ok_def link_of_def link_trace_append
        link_step_Idle link_step_Open link_step_Draining split: option.splits if_splits)
next
  case (expire_termination es r es' r')
  then show ?case
    by (auto simp: gateway_expire_termination_def gateway_ok_def link_of_def link_trace_append
        link_step_Open split: option.splits if_splits)
qed

text \<open>
  C5: a router refines the connection lifecycle, whatever bytes it is fed and in whatever order
  its operations are called. All the events it has returned form one run of the lifecycle from idle
  to the router's current state: a connection starts only when none is open, control events occur only
  while it is open, it ends or fails once, after a protocol failure it drains silently to its end, and no byte
  of an open or draining connection is emitted as direct output. All events carry the router's own
  identifier, and with an identifier below the maximum no push can fail.
\<close>

theorem gateway_lifecycle:
  assumes "gateway_reachable n es r" and "n \<noteq> - 1"
  shows "link_trace Idle es (link_of r) \<and>
    (\<forall>e \<in> set es. event_connection e = None \<or> event_connection e = Some n) \<and>
    (\<exists>es' r'. gateway_push r bs = (Ok es', r'))"
  using gateway_reachable_ok [OF assms] gateway_push_ok [of n r bs] assms(2) by (metis insertE singletonD)

theorem gateway_lifecycle_witness:
  "link_trace Idle [ConnectionStarted 1, Control 1 Started, ConnectionFailed 1 TransportEof] Idle \<and>
   gateway_reachable 1 [ConnectionStarted 1, Control 1 Started, ConnectionFailed 1 TransportEof]
     (gateway_with_first_connection_id 1)"
proof -
  let ?r0 = "gateway_with_first_connection_id 1"
  have "gateway_push ?r0 TMUX_CONTROL_START_MARKER = (Ok [ConnectionStarted 1, Control 1 Started], opened ?r0)"
    using scanning_match_all [of ?r0 0 "[]" "[]"]
    by (simp add: gateway_push_def scanning_def gateway_with_first_connection_id_def emit_direct_def)
  from gateway_reachable.push [OF gateway_reachable.init this]
  have "gateway_reachable 1 [ConnectionStarted 1, Control 1 Started] (opened ?r0)" by simp
  moreover have "gateway_finish_transport (opened ?r0) = ([ConnectionFailed 1 TransportEof], ?r0)"
    by (simp add: gateway_finish_transport_def opened_def gateway_with_first_connection_id_def)
  ultimately have r: "gateway_reachable 1
      ([ConnectionStarted 1, Control 1 Started] @ [ConnectionFailed 1 TransportEof]) ?r0"
    by (rule gateway_reachable.finish_transport)
  from gateway_lifecycle [OF r] r show ?thesis
    by (simp add: link_of_def gateway_with_first_connection_id_def)
qed

end
