(* ===== verification/Btree_Map.thy ===== *)
theory Btree_Map
  imports Lector_Prelude
begin

text \<open>
  Rust's \<^verbatim>\<open>BTreeMap\<close> as the association list that its iterators enumerate, in
  ascending order of the keys. The locale \<open>ordered_map\<close> is the contract the sources rely on:
  what a lookup gives after each update, and that iteration is sorted and complete. The clients
  (the connection hierarchy, the tmux topology, the reply broker) use its laws through the
  interpretation \<open>btree\<close>.
\<close>

locale ordered_map =
  fixes empty :: "'m"
    and get :: "'m \<Rightarrow> 'k::linorder \<Rightarrow> 'v option"
    and insert :: "'k \<Rightarrow> 'v \<Rightarrow> 'm \<Rightarrow> 'm"
    and remove :: "'k \<Rightarrow> 'm \<Rightarrow> 'm"
    and retain :: "('k \<Rightarrow> 'v \<Rightarrow> bool) \<Rightarrow> 'm \<Rightarrow> 'm"
    and entries :: "'m \<Rightarrow> ('k \<times> 'v) list"
    and invar :: "'m \<Rightarrow> bool"
  assumes get_empty: "get empty k = None"
    and get_insert: "invar m \<Longrightarrow> get (insert k v m) k' = (if k' = k then Some v else get m k')"
    and get_remove: "invar m \<Longrightarrow> get (remove k m) k' = (if k' = k then None else get m k')"
    and get_retain: "invar m \<Longrightarrow> get (retain P m) k =
       (case get m k of None \<Rightarrow> None | Some v \<Rightarrow> if P k v then Some v else None)"
    and entries_sorted: "invar m \<Longrightarrow> sorted_wrt (<) (map fst (entries m))"
    and entries_get: "invar m \<Longrightarrow> (k, v) \<in> set (entries m) \<longleftrightarrow> get m k = Some v"
    and invar_empty: "invar empty"
    and invar_insert: "invar m \<Longrightarrow> invar (insert k v m)"
    and invar_remove: "invar m \<Longrightarrow> invar (remove k m)"
    and invar_retain: "invar m \<Longrightarrow> invar (retain P m)"
begin

lemmas map_laws = get_empty get_insert get_remove get_retain
lemmas invar_laws = invar_empty invar_insert invar_remove invar_retain

lemma entries_distinct: "invar m \<Longrightarrow> distinct (map fst (entries m))"
  using entries_sorted strict_sorted_iff by blast

lemma keys_dom: "invar m \<Longrightarrow> set (map fst (entries m)) = dom (get m)"
proof (rule set_eqI)
  fix k
  assume "invar m"
  then show "k \<in> set (map fst (entries m)) \<longleftrightarrow> k \<in> dom (get m)"
    using entries_get [of m k] by (force simp: dom_def)
qed

lemma length_entries_card: "invar m \<Longrightarrow> length (entries m) = card (dom (get m))"
  using entries_distinct [of m] keys_dom [of m] by (metis distinct_card length_map)

text \<open>Folding removals over a list of keys leaves the other entries.\<close>

lemma fold_remove:
  "invar m \<Longrightarrow> invar (fold remove ks m) \<and>
     get (fold remove ks m) k = (if k \<in> set ks then None else get m k)"
  by (induction ks arbitrary: m) (auto simp: get_remove invar_remove)

end

type_synonym ('k, 'v) btree_map = "('k \<times> 'v) list"

definition btree_get :: "('k, 'v) btree_map \<Rightarrow> 'k \<Rightarrow> 'v option" where
  "btree_get m k = map_of m k"

fun btree_insert :: "'k::linorder \<Rightarrow> 'v \<Rightarrow> ('k, 'v) btree_map \<Rightarrow> ('k, 'v) btree_map" where
  "btree_insert k v [] = [(k, v)]"
| "btree_insert k v ((k', v') # m) =
     (if k < k' then (k, v) # (k', v') # m
      else if k = k' then (k, v) # m
      else (k', v') # btree_insert k v m)"

definition btree_remove :: "'k \<Rightarrow> ('k, 'v) btree_map \<Rightarrow> ('k, 'v) btree_map" where
  "btree_remove k m = filter (\<lambda>e. fst e \<noteq> k) m"

definition btree_retain :: "('k \<Rightarrow> 'v \<Rightarrow> bool) \<Rightarrow> ('k, 'v) btree_map \<Rightarrow> ('k, 'v) btree_map" where
  "btree_retain P m = filter (\<lambda>e. P (fst e) (snd e)) m"

definition btree_inv :: "('k::linorder, 'v) btree_map \<Rightarrow> bool" where
  "btree_inv m \<longleftrightarrow> sorted_wrt (<) (map fst m)"

lemma btree_insert_keys: "set (map fst (btree_insert k v m)) = Set.insert k (set (map fst m))"
  by (induction k v m rule: btree_insert.induct) auto

lemma btree_insert_inv: "btree_inv m \<Longrightarrow> btree_inv (btree_insert k v m)"
proof (induction k v m rule: btree_insert.induct)
  case (2 k v k' v' m)
  then show ?case
    using btree_insert_keys [of k v m] by (auto simp: btree_inv_def)
qed (simp add: btree_inv_def)

lemma btree_insert_get:
  "btree_inv m \<Longrightarrow> btree_get (btree_insert k v m) k' = (if k' = k then Some v else btree_get m k')"
  by (induction k v m rule: btree_insert.induct) (auto simp: btree_inv_def btree_get_def)

lemma btree_distinct: "btree_inv m \<Longrightarrow> distinct (map fst m)"
  using strict_sorted_iff by (auto simp: btree_inv_def)

lemma btree_inv_filter: "btree_inv m \<Longrightarrow> btree_inv (filter P m)"
  by (induction m) (auto simp: btree_inv_def)

lemma btree_get_filter:
  assumes "btree_inv m"
  shows "btree_get (filter (\<lambda>e. P (fst e) (snd e)) m) k =
    (case btree_get m k of None \<Rightarrow> None | Some v \<Rightarrow> if P k v then Some v else None)"
  using btree_distinct [OF assms]
proof (induction m)
  case (Cons e m)
  then show ?case
    by (cases e) (auto simp: btree_get_def map_of_eq_None_iff split: option.splits dest: map_of_SomeD)
qed (simp add: btree_get_def)

interpretation btree: ordered_map "[]" btree_get btree_insert btree_remove btree_retain "\<lambda>m. m" btree_inv
proof (unfold_locales, goal_cases)
  case (2 m k v k')
  then show ?case by (rule btree_insert_get)
next
  case (3 m k k')
  then show ?case
    using btree_get_filter [of m "\<lambda>x _. x \<noteq> k" k']
    by (auto simp: btree_remove_def split: option.splits)
next
  case (4 m P k)
  then show ?case using btree_get_filter [of m P k] by (simp add: btree_retain_def)
next
  case (6 m k v)
  then show ?case using btree_distinct [of m] by (simp add: btree_get_def)
next
  case (8 m k v)
  then show ?case by (rule btree_insert_inv)
next
  case (9 m k)
  then show ?case by (simp add: btree_remove_def btree_inv_filter)
next
  case (10 m P)
  then show ?case by (simp add: btree_retain_def btree_inv_filter)
qed (simp_all add: btree_get_def btree_inv_def)

section \<open>Entries and values in place\<close>

text \<open>\<^verbatim>\<open>entry(k).or_insert_with(d)\<close> followed by an update of the entry, and \<^verbatim>\<open>values_mut\<close>\<close>

definition btree_entry :: "'k::linorder \<Rightarrow> 'v \<Rightarrow> ('v \<Rightarrow> 'v) \<Rightarrow> ('k, 'v) btree_map \<Rightarrow> ('k, 'v) btree_map" where
  "btree_entry k d f m = btree_insert k (f (case btree_get m k of Some v \<Rightarrow> v | None \<Rightarrow> d)) m"

definition btree_map_values :: "('v \<Rightarrow> 'v) \<Rightarrow> ('k, 'v) btree_map \<Rightarrow> ('k, 'v) btree_map" where
  "btree_map_values f m = map (\<lambda>(k, v). (k, f v)) m"

lemma btree_map_values_get: "btree_get (btree_map_values f m) k = map_option f (btree_get m k)"
  by (induction m) (auto simp: btree_map_values_def btree_get_def)

lemma btree_map_values_inv: "btree_inv (btree_map_values f m) \<longleftrightarrow> btree_inv m"
  by (simp add: btree_inv_def btree_map_values_def comp_def case_prod_beta)

text \<open>The same laws with lookups as functions, for proofs that work on the functions alone\<close>

lemma btree_upd:
  assumes "btree_inv m"
  shows "btree_get (btree_insert k v m) = (btree_get m)(k \<mapsto> v)"
    and "btree_get (btree_remove k m) = (btree_get m)(k := None)"
    and "btree_get (btree_entry k d f m) = (btree_get m)(k \<mapsto> f (case btree_get m k of Some v \<Rightarrow> v | None \<Rightarrow> d))"
    and "btree_inv (btree_entry k d f m)"
  using assms by (auto simp: fun_eq_iff btree_entry_def btree.map_laws btree.invar_laws)

lemma btree_get_Nil: "btree_get [] = (\<lambda>_. None)"
  by (simp add: fun_eq_iff btree_get_def)

end
