(* ===== verification/Tmux_Lifecycle.thy ===== *)
theory Tmux_Lifecycle
  imports Btree_Map
begin

text \<open>
  The hierarchy of tmux control connections (\<^verbatim>\<open>tmux_lifecycle.rs\<close>): which gateway each
  connection was discovered through, and which connections go when one of them, a pane or a
  window goes. The recursive traversal carries an explicit bound on the recursion depth; its
  result \<^const>\<open>None\<close> stands for a recursion that the bound cuts off, and the theorems show that
  it never occurs for a hierarchy built by the operations.
\<close>

section \<open>Model\<close>

datatype gateway_origin =
    OriginDirect
  | OriginPane (origin_parent: u64) (origin_session: u64) (origin_window: u64) (origin_pane: u64)

datatype gateway_control_action = GracefulDetach | ForceAbandon

definition requires_confirmation :: "gateway_control_action \<Rightarrow> bool" where
  "requires_confirmation a \<longleftrightarrow> a = ForceAbandon"

primrec transport_bytes :: "gateway_control_action \<Rightarrow> bytes option" where
  "transport_bytes GracefulDetach = None"
| "transport_bytes ForceAbandon = Some [CHR 0x1C]"

datatype lifecycle_error = DuplicateConnection | MissingParent | TooManyConnections | TooDeep

definition MAX_CONNECTIONS :: nat where "MAX_CONNECTIONS = 4096"
definition MAX_CONNECTION_DEPTH :: nat where "MAX_CONNECTION_DEPTH = 64"

record connection_hierarchy =
  ch_origins :: "(u64, gateway_origin) btree_map"

definition hierarchy_new :: connection_hierarchy where
  "hierarchy_new = \<lparr>ch_origins = []\<rparr>"

definition hierarchy_origin :: "connection_hierarchy \<Rightarrow> u64 \<Rightarrow> gateway_origin option" where
  "hierarchy_origin h cid = btree_get (ch_origins h) cid"

definition hierarchy_contains :: "connection_hierarchy \<Rightarrow> u64 \<Rightarrow> bool" where
  "hierarchy_contains h cid \<longleftrightarrow> btree_get (ch_origins h) cid \<noteq> None"

definition hierarchy_len :: "connection_hierarchy \<Rightarrow> nat" where
  "hierarchy_len h = length (ch_origins h)"

definition hierarchy_is_empty :: "connection_hierarchy \<Rightarrow> bool" where
  "hierarchy_is_empty h \<longleftrightarrow> ch_origins h = []"

text \<open>The loop of \<^verbatim>\<open>insert\<close> that walks to the root of the new connection's parent.\<close>

function depth_loop :: "connection_hierarchy \<Rightarrow> nat \<Rightarrow> u64 \<Rightarrow> (unit, lifecycle_error) result" where
  "depth_loop h depth ancestor =
     (if MAX_CONNECTION_DEPTH \<le> depth then Err TooDeep
      else (case btree_get (ch_origins h) ancestor of
              Some OriginDirect \<Rightarrow> Ok ()
            | Some (OriginPane p s w n) \<Rightarrow> depth_loop h (saturating_add_usize depth 1) p
            | None \<Rightarrow> Err MissingParent))"
  by pat_completeness auto
termination
  by (relation "measure (\<lambda>(h, depth, a). MAX_CONNECTION_DEPTH - depth)")
    (auto simp: MAX_CONNECTION_DEPTH_def saturating_add_usize_def usize_max_def)

declare depth_loop.simps [simp del]

definition hierarchy_insert ::
  "u64 \<Rightarrow> gateway_origin \<Rightarrow> connection_hierarchy \<Rightarrow>
     (unit, lifecycle_error) result \<times> connection_hierarchy" where
  "hierarchy_insert cid origin h =
     (if hierarchy_contains h cid then (Err DuplicateConnection, h)
      else if hierarchy_len h = MAX_CONNECTIONS then (Err TooManyConnections, h)
      else (case
          (case origin of
             OriginPane p s w n \<Rightarrow>
               if p = cid \<or> \<not> hierarchy_contains h p then Err MissingParent
               else depth_loop h 1 p
           | OriginDirect \<Rightarrow> Ok ()) of
         Err e \<Rightarrow> (Err e, h)
       | Ok u \<Rightarrow> (Ok u, h\<lparr>ch_origins := btree_insert cid origin (ch_origins h)\<rparr>)))"

definition children_by :: "(gateway_origin \<Rightarrow> bool) \<Rightarrow> connection_hierarchy \<Rightarrow> u64 list" where
  "children_by P h = map fst (filter (\<lambda>e. P (snd e)) (ch_origins h))"

fun in_connection :: "u64 \<Rightarrow> gateway_origin \<Rightarrow> bool" where
  "in_connection parent (OriginPane p s w n) \<longleftrightarrow> p = parent"
| "in_connection parent OriginDirect \<longleftrightarrow> False"

fun in_gateway_pane :: "u64 \<Rightarrow> u64 \<Rightarrow> gateway_origin \<Rightarrow> bool" where
  "in_gateway_pane parent pane (OriginPane p s w n) \<longleftrightarrow> p = parent \<and> n = pane"
| "in_gateway_pane parent pane OriginDirect \<longleftrightarrow> False"

fun in_gateway_window :: "u64 \<Rightarrow> u64 \<Rightarrow> gateway_origin \<Rightarrow> bool" where
  "in_gateway_window parent window (OriginPane p s w n) \<longleftrightarrow> p = parent \<and> w = window"
| "in_gateway_window parent window OriginDirect \<longleftrightarrow> False"

text \<open>
  \<open>collect_descendants fuel h parent output\<close>: the loop over the children is the fold, each
  recursive call appends to the shared output vector, then the child itself is pushed.
\<close>

fun collect_descendants :: "nat \<Rightarrow> connection_hierarchy \<Rightarrow> u64 \<Rightarrow> u64 list \<Rightarrow> u64 list option" where
  "collect_descendants 0 h parent output = None"
| "collect_descendants (Suc fuel) h parent output =
     foldl (\<lambda>acc child. case acc of
              None \<Rightarrow> None
            | Some out \<Rightarrow> map_option (\<lambda>out'. out' @ [child]) (collect_descendants fuel h child out))
       (Some output) (children_by (in_connection parent) h)"

definition teardown_order :: "connection_hierarchy \<Rightarrow> u64 \<Rightarrow> u64 list option" where
  "teardown_order h cid =
     (if \<not> hierarchy_contains h cid then Some []
      else map_option (\<lambda>ordered. ordered @ [cid]) (collect_descendants MAX_CONNECTION_DEPTH h cid []))"

definition remove_ids :: "u64 list \<Rightarrow> connection_hierarchy \<Rightarrow> connection_hierarchy" where
  "remove_ids ids h = h\<lparr>ch_origins := fold btree_remove ids (ch_origins h)\<rparr>"

definition remove_connection ::
  "u64 \<Rightarrow> connection_hierarchy \<Rightarrow> (u64 list \<times> connection_hierarchy) option" where
  "remove_connection cid h =
     (if \<not> hierarchy_contains h cid then Some ([], h)
      else (case collect_descendants MAX_CONNECTION_DEPTH h cid [] of
              None \<Rightarrow> None
            | Some ds \<Rightarrow> (let removed = ds @ [cid] in Some (removed, remove_ids removed h))))"

text \<open>\<^verbatim>\<open>removed.retain(|id| unique.insert(*id))\<close>: keep the first occurrence of every cid.\<close>

fun retain_first :: "u64 list \<Rightarrow> u64 list \<Rightarrow> u64 list" where
  "retain_first seen [] = []"
| "retain_first seen (x # xs) =
     (if x \<in> set seen then retain_first seen xs else x # retain_first (x # seen) xs)"

definition collect_roots :: "connection_hierarchy \<Rightarrow> u64 list \<Rightarrow> u64 list option" where
  "collect_roots h roots =
     foldl (\<lambda>acc root. case acc of
              None \<Rightarrow> None
            | Some out \<Rightarrow>
                if \<not> hierarchy_contains h root then Some out
                else map_option (\<lambda>out'. out' @ [root]) (collect_descendants MAX_CONNECTION_DEPTH h root out))
       (Some []) roots"

definition remove_roots ::
  "u64 list \<Rightarrow> connection_hierarchy \<Rightarrow> (u64 list \<times> connection_hierarchy) option" where
  "remove_roots roots h =
     (case collect_roots h roots of
        None \<Rightarrow> None
      | Some ids \<Rightarrow> (let removed = retain_first [] ids in Some (removed, remove_ids removed h)))"

definition remove_gateway_pane ::
  "u64 \<Rightarrow> u64 \<Rightarrow> connection_hierarchy \<Rightarrow> (u64 list \<times> connection_hierarchy) option" where
  "remove_gateway_pane parent pane h = remove_roots (children_by (in_gateway_pane parent pane) h) h"

definition remove_gateway_window ::
  "u64 \<Rightarrow> u64 \<Rightarrow> connection_hierarchy \<Rightarrow> (u64 list \<times> connection_hierarchy) option" where
  "remove_gateway_window parent window h =
     remove_roots (children_by (in_gateway_window parent window) h) h"

section \<open>Sequences of operations\<close>

datatype hierarchy_op =
    HInsert u64 gateway_origin
  | HRemoveConnection u64
  | HRemoveGatewayPane u64 u64
  | HRemoveGatewayWindow u64 u64

primrec hierarchy_step :: "hierarchy_op \<Rightarrow> connection_hierarchy \<Rightarrow> connection_hierarchy option" where
  "hierarchy_step (HInsert cid origin) h = Some (snd (hierarchy_insert cid origin h))"
| "hierarchy_step (HRemoveConnection cid) h = map_option snd (remove_connection cid h)"
| "hierarchy_step (HRemoveGatewayPane parent pane) h = map_option snd (remove_gateway_pane parent pane h)"
| "hierarchy_step (HRemoveGatewayWindow parent w) h = map_option snd (remove_gateway_window parent w h)"

fun hierarchy_run :: "hierarchy_op list \<Rightarrow> connection_hierarchy \<Rightarrow> connection_hierarchy option" where
  "hierarchy_run [] h = Some h"
| "hierarchy_run (a # as) h = Option.bind (hierarchy_step a h) (hierarchy_run as)"

section \<open>Specification\<close>

text \<open>
  \<open>level h cid d\<close>: the transport of connection \<open>cid\<close> passes through exactly \<open>d\<close> outer
  connections before it reaches the root terminal.
\<close>

inductive level :: "connection_hierarchy \<Rightarrow> u64 \<Rightarrow> nat \<Rightarrow> bool" for h where
  level_direct: "hierarchy_origin h cid = Some OriginDirect \<Longrightarrow> level h cid 0"
| level_pane: "hierarchy_origin h cid = Some (OriginPane p s w n) \<Longrightarrow> level h p d \<Longrightarrow> level h cid (Suc d)"

inductive_cases level_cases: "level h cid d"

definition child_of :: "connection_hierarchy \<Rightarrow> (u64 \<times> u64) set" where
  "child_of h = {(c, p). \<exists>s w n. hierarchy_origin h c = Some (OriginPane p s w n)}"

definition hierarchy_inv :: "connection_hierarchy \<Rightarrow> bool" where
  "hierarchy_inv h \<longleftrightarrow> btree_inv (ch_origins h) \<and> hierarchy_len h \<le> MAX_CONNECTIONS \<and>
     (\<forall>cid. hierarchy_contains h cid \<longrightarrow> (\<exists>d < MAX_CONNECTION_DEPTH. level h cid d))"

text \<open>No later element of the list is a descendant of an earlier one.\<close>

definition deepest_first :: "connection_hierarchy \<Rightarrow> u64 list \<Rightarrow> bool" where
  "deepest_first h ids \<longleftrightarrow> sorted_wrt (\<lambda>x y. (y, x) \<notin> (child_of h)\<^sup>+) ids"

section \<open>Levels\<close>

lemmas hierarchy_defs = hierarchy_origin_def hierarchy_contains_def

lemma level_unique: "level h cid d \<Longrightarrow> level h cid d' \<Longrightarrow> d' = d"
proof (induction arbitrary: d' rule: level.induct)
  case (level_direct cid)
  show ?case by (rule level_cases [OF level_direct(2)]) (use level_direct(1) in auto)
next
  case (level_pane cid p s w n d)
  show ?case by (rule level_cases [OF level_pane.prems]) (use level_pane.hyps(1) level_pane.IH in \<open>metis gateway_origin.inject gateway_origin.distinct(1) option.inject\<close>)+
qed

lemma level_contains: "level h cid d \<Longrightarrow> hierarchy_contains h cid"
  by (erule level_cases) (simp_all add: hierarchy_defs)

lemma single_valued_child_of: "single_valued (child_of h)"
  by (auto simp: single_valued_def child_of_def)

lemma child_level: "level h p d \<Longrightarrow> (c, p) \<in> child_of h \<Longrightarrow> level h c (Suc d)"
  by (auto simp: child_of_def intro: level.intros)

lemma descendant_level: "(c, p) \<in> (child_of h)\<^sup>+ \<Longrightarrow> level h p d \<Longrightarrow> \<exists>d' > d. level h c d'"
proof (induction arbitrary: d rule: trancl_induct)
  case (base p)
  then show ?case using child_level by blast
next
  case (step b p)
  then have "level h b (Suc d)" using child_level by blast
  with step.IH show ?case using Suc_lessD by blast
qed

lemma child_level_parent: "(c, p) \<in> child_of h \<Longrightarrow> level h c d \<Longrightarrow> \<exists>d'. level h p d'"
  by (auto simp: child_of_def elim!: level_cases [of h c d])

lemma no_cycle: "level h cid d \<Longrightarrow> (cid, cid) \<notin> (child_of h)\<^sup>+"
  using descendant_level level_unique by (metis less_irrefl)

text \<open>Subtrees of different connections at one level are disjoint.\<close>

lemma same_level_disjoint:
  assumes "level h a d" and "level h b d" and "(x, a) \<in> (child_of h)\<^sup>*" and "(x, b) \<in> (child_of h)\<^sup>*"
  shows "a = b"
proof -
  have "(a, b) \<in> (child_of h)\<^sup>* \<or> (b, a) \<in> (child_of h)\<^sup>*"
    using single_valued_confluent [OF single_valued_child_of assms(3,4)] .
  then show ?thesis
    using assms(1,2) descendant_level level_unique by (metis less_irrefl rtranclD)
qed

section \<open>Traversal\<close>

lemma children_by_set:
  "btree_inv (ch_origins h) \<Longrightarrow>
     c \<in> set (children_by P h) \<longleftrightarrow> (\<exists>org. hierarchy_origin h c = Some org \<and> P org)"
  using btree.entries_get [of "ch_origins h" c]
  by (force simp: children_by_def hierarchy_defs)

lemma children_by_distinct: "btree_inv (ch_origins h) \<Longrightarrow> distinct (children_by P h)"
  by (simp add: children_by_def btree_distinct distinct_map_filter)

lemma in_connection_iff: "in_connection p org \<longleftrightarrow> (\<exists>s w n. org = OriginPane p s w n)"
  by (cases "org") auto

lemma children_of: "btree_inv (ch_origins h) \<Longrightarrow> c \<in> set (children_by (in_connection p) h) \<longleftrightarrow> (c, p) \<in> child_of h"
  by (auto simp: children_by_set in_connection_iff child_of_def)

text \<open>
  What one traversal from \<open>cid\<close> produces: all strict descendants, once each, deepest first.
  \<open>lists_subtrees h ids out\<close> is the same for the subtrees, roots included, of several
  connections.
\<close>

definition lists_subtrees :: "connection_hierarchy \<Rightarrow> u64 list \<Rightarrow> u64 list \<Rightarrow> bool" where
  "lists_subtrees h ids out \<longleftrightarrow>
     set out = {c. \<exists>r \<in> set ids. (c, r) \<in> (child_of h)\<^sup>*} \<and> distinct out \<and> deepest_first h out"

definition lists_descendants :: "connection_hierarchy \<Rightarrow> u64 \<Rightarrow> u64 list \<Rightarrow> bool" where
  "lists_descendants h cid out \<longleftrightarrow>
     set out = {c. (c, cid) \<in> (child_of h)\<^sup>+} \<and> distinct out \<and> deepest_first h out"

lemma lists_subtrees_snoc:
  assumes outs: "lists_subtrees h ids out" and ds: "lists_descendants h c ds"
    and lev: "\<forall>i \<in> set (c # ids). level h i d" and new: "c \<notin> set ids"
  shows "lists_subtrees h (ids @ [c]) (out @ ds @ [c])"
proof -
  have lc: "level h c d" and li: "\<And>a. a \<in> set ids \<Longrightarrow> level h a d" using lev by simp_all
  have set_out: "x \<in> set out \<longleftrightarrow> (\<exists>r \<in> set ids. (x, r) \<in> (child_of h)\<^sup>*)" for x
    using outs by (simp add: lists_subtrees_def)
  have set_ds: "x \<in> set ds \<longleftrightarrow> (x, c) \<in> (child_of h)\<^sup>+" for x
    using ds by (simp add: lists_descendants_def)
  have below: "x \<in> set (ds @ [c]) \<longleftrightarrow> (x, c) \<in> (child_of h)\<^sup>*" for x
    by (simp add: set_ds rtrancl_eq_or_trancl) blast
  have apart: False if "a \<in> set ids" "(x, a) \<in> (child_of h)\<^sup>*" "(x, c) \<in> (child_of h)\<^sup>*" for a x
    using same_level_disjoint [OF li lc] that new by blast
  have noc: "(c, c) \<notin> (child_of h)\<^sup>+" by (rule no_cycle [OF lc])
  have later: "(y, x) \<notin> (child_of h)\<^sup>+" if "x \<in> set out" "y \<in> set (ds @ [c])" for x y
    using that(1) that(2) [unfolded below] set_out apart trancl_into_rtrancl rtrancl_trans by metis
  have up: "(c, x) \<notin> (child_of h)\<^sup>+" if "x \<in> set ds" for x
    using that noc trancl_trans unfolding set_ds by metis
  have disj: "x \<notin> set (ds @ [c])" if "x \<in> set out" for x
    using that apart below set_out by blast
  have "x \<in> set (out @ ds @ [c]) \<longleftrightarrow> (\<exists>r \<in> set (ids @ [c]). (x, r) \<in> (child_of h)\<^sup>*)" for x
    using set_out below [of x] by auto
  moreover have "distinct (out @ ds @ [c])"
    using outs ds disj noc set_ds by (auto simp: lists_subtrees_def lists_descendants_def)
  moreover have "deepest_first h (out @ ds @ [c])"
    using outs ds later up
    by (simp add: lists_subtrees_def lists_descendants_def deepest_first_def sorted_wrt_append)
  ultimately show ?thesis unfolding lists_subtrees_def by blast
qed

text \<open>The fold over connections of one level, given what the traversal of each of them appends.\<close>

lemma fold_subtrees:
  assumes step: "\<And>c out. c \<in> set cs \<Longrightarrow> \<exists>ds. f c out = Some (out @ ds) \<and> lists_descendants h c ds"
    and lev: "\<forall>c \<in> set cs. level h c d" and dist: "distinct cs"
  shows "\<exists>out. foldl (\<lambda>acc c. case acc of None \<Rightarrow> None | Some out \<Rightarrow> map_option (\<lambda>out'. out' @ [c]) (f c out))
            (Some out0) cs = Some (out0 @ out) \<and> lists_subtrees h cs out"
  using assms
proof (induction cs rule: rev_induct)
  case Nil
  then show ?case by (simp add: lists_subtrees_def deepest_first_def)
next
  case (snoc c cs)
  then obtain out where out: "foldl (\<lambda>acc c. case acc of None \<Rightarrow> None
      | Some out \<Rightarrow> map_option (\<lambda>out'. out' @ [c]) (f c out)) (Some out0) cs = Some (out0 @ out)"
      "lists_subtrees h cs out"
    by auto
  obtain ds where "f c (out0 @ out) = Some ((out0 @ out) @ ds)" "lists_descendants h c ds"
    using snoc.prems(1) [of c "out0 @ out"] by auto
  with out snoc.prems lists_subtrees_snoc [of h cs out c ds d] show ?case by auto
qed

lemma children_subtrees:
  assumes "lists_subtrees h cs out" and "\<And>c. c \<in> set cs \<longleftrightarrow> (c, p) \<in> child_of h"
  shows "lists_descendants h p out"
proof -
  have "{c. \<exists>r \<in> set cs. (c, r) \<in> (child_of h)\<^sup>*} = {c. (c, p) \<in> (child_of h)\<^sup>+}"
    using assms(2) by (auto dest: rtrancl_into_trancl1) (meson tranclD2)
  with assms(1) show ?thesis by (simp add: lists_subtrees_def lists_descendants_def)
qed

lemma collect_descendants_spec:
  assumes inv: "hierarchy_inv h" and "level h cid d" and "MAX_CONNECTION_DEPTH \<le> fuel + d"
    and "d < MAX_CONNECTION_DEPTH"
  shows "\<exists>ds. collect_descendants fuel h cid out = Some (out @ ds) \<and> lists_descendants h cid ds"
  using assms(2-)
proof (induction fuel arbitrary: cid d out)
  case (Suc fuel)
  let ?cs = "children_by (in_connection cid) h"
  have bi: "btree_inv (ch_origins h)" using inv by (simp add: hierarchy_inv_def)
  have lev: "\<forall>c \<in> set ?cs. level h c (Suc d)"
    using children_of [OF bi] child_level Suc.prems(1) by blast
  have deep: "Suc d < MAX_CONNECTION_DEPTH" if "c \<in> set ?cs" for c
    using inv lev that level_unique level_contains by (metis hierarchy_inv_def)
  have "\<exists>ds. collect_descendants fuel h c out = Some (out @ ds) \<and> lists_descendants h c ds"
    if "c \<in> set ?cs" for c out
    using Suc.IH [of c "Suc d" out] lev that deep Suc.prems by auto
  from fold_subtrees [of ?cs "collect_descendants fuel h", OF this lev children_by_distinct [OF bi]]
  obtain ds where "collect_descendants (Suc fuel) h cid out = Some (out @ ds)" "lists_subtrees h ?cs ds"
    by auto
  then show ?case using children_subtrees children_of [OF bi] by blast
qed simp

lemma collect_descendants_enough:
  assumes "hierarchy_inv h" and "hierarchy_contains h cid"
  shows "\<exists>ds. collect_descendants MAX_CONNECTION_DEPTH h cid out = Some (out @ ds) \<and> lists_descendants h cid ds"
  using assms collect_descendants_spec [of h cid _ MAX_CONNECTION_DEPTH out] by (auto simp: hierarchy_inv_def)

section \<open>Removal\<close>

lemma remove_ids_origin:
  "btree_inv (ch_origins h) \<Longrightarrow>
     hierarchy_origin (remove_ids ids h) k = (if k \<in> set ids then None else hierarchy_origin h k)"
  using btree.fold_remove [of "ch_origins h" ids k] by (simp add: remove_ids_def hierarchy_origin_def)

lemma contains_iff_origin: "hierarchy_contains h k \<longleftrightarrow> hierarchy_origin h k \<noteq> None"
  by (simp add: hierarchy_defs)

lemma hierarchy_len_card: "btree_inv (ch_origins h) \<Longrightarrow> hierarchy_len h = card {k. hierarchy_contains h k}"
  using btree.length_entries_card [of "ch_origins h"]
  by (simp add: hierarchy_len_def hierarchy_contains_def dom_def)

lemma finite_contains:
  assumes "btree_inv (ch_origins h)"
  shows "finite {k. hierarchy_contains h k}"
proof -
  have "{k. hierarchy_contains h k} = set (map fst (ch_origins h))"
    using btree.keys_dom [OF assms] by (simp add: dom_def hierarchy_contains_def)
  then show ?thesis by simp
qed

lemma remove_ids_level:
  assumes bi: "btree_inv (ch_origins h)"
    and closed: "\<And>c p. (c, p) \<in> child_of h \<Longrightarrow> p \<in> set ids \<Longrightarrow> c \<in> set ids"
  shows "level h k d \<Longrightarrow> k \<notin> set ids \<Longrightarrow> level (remove_ids ids h) k d"
proof (induction rule: level.induct)
  case (level_direct k)
  then show ?case by (intro level.level_direct) (simp add: remove_ids_origin [OF bi])
next
  case (level_pane k p s w n d)
  then have "p \<notin> set ids" using closed [of k p] by (auto simp: child_of_def)
  then show ?case
    by (intro level.level_pane [of _ _ p s w n]) (simp_all add: remove_ids_origin [OF bi] level_pane)
qed

lemma remove_ids_inv:
  assumes inv: "hierarchy_inv h"
    and closed: "\<And>c p. (c, p) \<in> child_of h \<Longrightarrow> p \<in> set ids \<Longrightarrow> c \<in> set ids"
  shows "hierarchy_inv (remove_ids ids h)"
proof -
  have bi: "btree_inv (ch_origins h)" using inv by (simp add: hierarchy_inv_def)
  have bi': "btree_inv (ch_origins (remove_ids ids h))"
    using btree.fold_remove [OF bi] by (simp add: remove_ids_def)
  have sub: "hierarchy_contains h k \<and> k \<notin> set ids" if "hierarchy_contains (remove_ids ids h) k" for k
    using that by (simp add: contains_iff_origin remove_ids_origin [OF bi] split: if_splits)
  then have "hierarchy_len (remove_ids ids h) \<le> hierarchy_len h"
    unfolding hierarchy_len_card [OF bi] hierarchy_len_card [OF bi']
    by (intro card_mono finite_contains [OF bi]) auto
  moreover have "\<exists>d < MAX_CONNECTION_DEPTH. level (remove_ids ids h) k d"
    if "hierarchy_contains (remove_ids ids h) k" for k
  proof -
    from sub [OF that] inv obtain d where "d < MAX_CONNECTION_DEPTH" "level h k d"
      by (auto simp: hierarchy_inv_def)
    with sub [OF that] closed have "level (remove_ids ids h) k d"
      by (intro remove_ids_level [OF bi]) blast+
    with \<open>d < MAX_CONNECTION_DEPTH\<close> show ?thesis by blast
  qed
  ultimately show ?thesis using inv bi' by (simp add: hierarchy_inv_def)
qed

lemma lists_subtrees_closed:
  "lists_subtrees h ids out \<Longrightarrow> (c, p) \<in> child_of h \<Longrightarrow> p \<in> set out \<Longrightarrow> c \<in> set out"
  by (auto simp: lists_subtrees_def intro: converse_rtrancl_into_rtrancl)

lemma lists_descendants_root:
  assumes "lists_descendants h cid ds" and "level h cid d"
  shows "lists_subtrees h [cid] (ds @ [cid])"
  using lists_subtrees_snoc [of h "[]" "[]" cid ds d] assms
  by (simp add: lists_subtrees_def deepest_first_def)

lemma retain_first_distinct:
  "distinct xs \<Longrightarrow> set seen \<inter> set xs = {} \<Longrightarrow> retain_first seen xs = xs"
  by (induction xs arbitrary: seen) auto

lemma remove_connection_spec:
  assumes inv: "hierarchy_inv h" and has: "hierarchy_contains h cid"
  shows "\<exists>ds. remove_connection cid h = Some (ds @ [cid], remove_ids (ds @ [cid]) h) \<and>
    teardown_order h cid = Some (ds @ [cid]) \<and> lists_subtrees h [cid] (ds @ [cid])"
proof -
  obtain d where "level h cid d" using inv has by (auto simp: hierarchy_inv_def)
  moreover obtain ds where "collect_descendants MAX_CONNECTION_DEPTH h cid [] = Some ds"
      "lists_descendants h cid ds"
    using collect_descendants_enough [OF inv has, of "[]"] by auto
  ultimately show ?thesis
    using has lists_descendants_root by (auto simp: remove_connection_def teardown_order_def Let_def)
qed

text \<open>The roots of a pane or window are all children of one connection, so they share a level.\<close>

lemma remove_roots_spec:
  assumes inv: "hierarchy_inv h"
    and roots: "\<And>c. c \<in> set roots \<Longrightarrow> (c, p) \<in> child_of h" and dist: "distinct roots"
  shows "\<exists>ids. remove_roots roots h = Some (ids, remove_ids ids h) \<and> lists_subtrees h roots ids"
proof -
  have has: "hierarchy_contains h c" if "c \<in> set roots" for c
    using roots that by (fastforce simp: child_of_def contains_iff_origin)
  have "\<exists>d. level h p d" if "c \<in> set roots"  for c
    using inv has [OF that] roots [OF that] child_level_parent by (metis hierarchy_inv_def)
  then obtain d where lev: "\<forall>c \<in> set roots. level h c d"
    using roots child_level level_unique by metis
  let ?f = "\<lambda>root out. collect_descendants MAX_CONNECTION_DEPTH h root out"
  have "collect_roots h roots = foldl (\<lambda>acc root. case acc of None \<Rightarrow> None
          | Some out \<Rightarrow> map_option (\<lambda>out'. out' @ [root]) (?f root out)) (Some []) roots"
    unfolding collect_roots_def by (rule foldl_cong) (auto simp: has split: option.splits)
  moreover obtain ids where "foldl (\<lambda>acc root. case acc of None \<Rightarrow> None
          | Some out \<Rightarrow> map_option (\<lambda>out'. out' @ [root]) (?f root out)) (Some []) roots = Some ids"
      "lists_subtrees h roots ids"
    using fold_subtrees [of roots ?f h d "[]"] collect_descendants_enough [OF inv has] lev dist by auto
  moreover have "retain_first [] ids = ids"
    using \<open>lists_subtrees h roots ids\<close> by (simp add: lists_subtrees_def retain_first_distinct)
  ultimately show ?thesis by (simp add: remove_roots_def)
qed

lemma gateway_pane_roots:
  assumes "btree_inv (ch_origins h)" and "P = in_gateway_pane p n \<or> P = in_gateway_window p w"
    and "c \<in> set (children_by P h)"
  shows "(c, p) \<in> child_of h"
proof -
  obtain org where "hierarchy_origin h c = Some org" "P org" using assms by (auto simp: children_by_set)
  then show ?thesis using assms(2) by (cases org) (auto simp: child_of_def)
qed

section \<open>Insertion\<close>

lemma depth_loop_level:
  "level h a d \<Longrightarrow> depth_loop h k a = (if k + d < MAX_CONNECTION_DEPTH then Ok () else Err TooDeep)"
proof (induction arbitrary: k rule: level.induct)
  case (level_direct a)
  then show ?case by (simp add: depth_loop.simps hierarchy_origin_def)
next
  case (level_pane a p s w n d)
  show ?case
    by (subst depth_loop.simps)
      (use level_pane in \<open>auto simp: hierarchy_origin_def saturating_add_usize_def usize_max_def
         MAX_CONNECTION_DEPTH_def\<close>)
qed

lemma insert_origin:
  "btree_inv (ch_origins h) \<Longrightarrow>
     hierarchy_origin (h\<lparr>ch_origins := btree_insert cid org (ch_origins h)\<rparr>) k =
       (if k = cid then Some org else hierarchy_origin h k)"
  using btree.get_insert [of "ch_origins h" cid org k] by (simp add: hierarchy_origin_def)

lemma insert_level:
  assumes "btree_inv (ch_origins h)" and "\<not> hierarchy_contains h cid"
  shows "level h k d \<Longrightarrow> level (h\<lparr>ch_origins := btree_insert cid org (ch_origins h)\<rparr>) k d"
proof (induction rule: level.induct)
  case (level_direct k)
  with assms show ?case
    by (intro level.level_direct) (auto simp: insert_origin contains_iff_origin)
next
  case (level_pane k p s w n d)
  with assms show ?case
    by (intro level.level_pane [of _ _ p s w n]) (auto simp: insert_origin contains_iff_origin)
qed

lemma insert_inv:
  assumes inv: "hierarchy_inv h" and new: "\<not> hierarchy_contains h cid"
    and room: "hierarchy_len h \<noteq> MAX_CONNECTIONS"
    and org: "org = OriginDirect \<or> (\<exists>p s w n d. org = OriginPane p s w n \<and> level h p d \<and> Suc d < MAX_CONNECTION_DEPTH)"
  shows "hierarchy_inv (h\<lparr>ch_origins := btree_insert cid org (ch_origins h)\<rparr>)" (is "hierarchy_inv ?h'")
proof -
  have bi: "btree_inv (ch_origins h)" using inv by (simp add: hierarchy_inv_def)
  then have bi': "btree_inv (ch_origins ?h')" by (simp add: btree_insert_inv)
  have keys: "{k. hierarchy_contains ?h' k} = insert cid {k. hierarchy_contains h k}"
    by (auto simp: contains_iff_origin insert_origin [OF bi])
  have "hierarchy_len ?h' \<le> MAX_CONNECTIONS"
    using inv room finite_contains [OF bi] new
    unfolding hierarchy_inv_def hierarchy_len_card [OF bi'] hierarchy_len_card [OF bi] keys by simp
  moreover have "\<exists>d < MAX_CONNECTION_DEPTH. level ?h' cid d"
  proof (cases "org = OriginDirect")
    case True
    then have "level ?h' cid 0" by (intro level.level_direct) (simp add: insert_origin [OF bi])
    moreover have "0 < MAX_CONNECTION_DEPTH" by (simp add: MAX_CONNECTION_DEPTH_def)
    ultimately show ?thesis by blast
  next
    case False
    then obtain p s w n d where o: "org = OriginPane p s w n" "level h p d" "Suc d < MAX_CONNECTION_DEPTH"
      using org by blast
    then have "level ?h' cid (Suc d)"
      using insert_level [OF bi new, of p d org]
      by (intro level.level_pane [of _ _ p s w n]) (simp_all add: insert_origin [OF bi])
    with o show ?thesis by blast
  qed
  moreover have "\<exists>d < MAX_CONNECTION_DEPTH. level ?h' k d" if "hierarchy_contains h k" for k
    using inv that insert_level [OF bi new] unfolding hierarchy_inv_def by meson
  moreover have "k = cid \<or> hierarchy_contains h k" if "hierarchy_contains ?h' k" for k
    using that keys by blast
  ultimately show ?thesis using bi' unfolding hierarchy_inv_def by blast
qed

lemma hierarchy_insert_cases:
  assumes inv: "hierarchy_inv h"
  shows "hierarchy_insert cid org h =
    (if hierarchy_contains h cid then (Err DuplicateConnection, h)
     else if hierarchy_len h = MAX_CONNECTIONS then (Err TooManyConnections, h)
     else case org of
       OriginDirect \<Rightarrow> (Ok (), h\<lparr>ch_origins := btree_insert cid org (ch_origins h)\<rparr>)
     | OriginPane p s w n \<Rightarrow>
         if \<not> hierarchy_contains h p then (Err MissingParent, h)
         else if level h p (MAX_CONNECTION_DEPTH - 1) then (Err TooDeep, h)
         else (Ok (), h\<lparr>ch_origins := btree_insert cid org (ch_origins h)\<rparr>))"
proof (cases "hierarchy_contains h cid \<or> hierarchy_len h = MAX_CONNECTIONS")
  case False
  show ?thesis
  proof (cases org)
    case (OriginPane p s w n)
    show ?thesis
    proof (cases "hierarchy_contains h p")
      case True
      then obtain d where d: "d < MAX_CONNECTION_DEPTH" "level h p d"
        using inv by (auto simp: hierarchy_inv_def)
      then have "level h p (MAX_CONNECTION_DEPTH - 1) \<longleftrightarrow> d = MAX_CONNECTION_DEPTH - 1"
        using level_unique by blast
      with d False True OriginPane depth_loop_level [OF d(2), of 1] show ?thesis
        by (auto simp: hierarchy_insert_def MAX_CONNECTION_DEPTH_def)
    qed (use False OriginPane in \<open>simp add: hierarchy_insert_def\<close>)
  qed (use False in \<open>simp add: hierarchy_insert_def\<close>)
qed (auto simp: hierarchy_insert_def)

lemma hierarchy_insert_inv:
  assumes inv: "hierarchy_inv h"
  shows "hierarchy_inv (snd (hierarchy_insert cid org h))"
proof (cases "fst (hierarchy_insert cid org h)")
  case (Err e)
  then have "snd (hierarchy_insert cid org h) = h"
    by (auto simp: hierarchy_insert_cases [OF inv] split: if_splits gateway_origin.splits)
  with inv show ?thesis by simp
next
  case (Ok u)
  then have r: "\<not> hierarchy_contains h cid" "hierarchy_len h \<noteq> MAX_CONNECTIONS"
      "snd (hierarchy_insert cid org h) = h\<lparr>ch_origins := btree_insert cid org (ch_origins h)\<rparr>"
    by (auto simp: hierarchy_insert_cases [OF inv] split: if_splits gateway_origin.splits)
  have "org = OriginDirect \<or> (\<exists>p s w n d. org = OriginPane p s w n \<and> level h p d \<and> Suc d < MAX_CONNECTION_DEPTH)"
  proof (cases org)
    case (OriginPane p s w n)
    with Ok r have p: "hierarchy_contains h p" "\<not> level h p (MAX_CONNECTION_DEPTH - 1)"
      by (auto simp: hierarchy_insert_cases [OF inv] split: if_splits)
    then obtain d where "d < MAX_CONNECTION_DEPTH" "level h p d"
      using inv by (auto simp: hierarchy_inv_def)
    with p OriginPane show ?thesis
      by (metis Suc_lessI diff_Suc_1)
  qed simp
  with insert_inv [OF inv r(1,2)] r(3) show ?thesis by simp
qed

lemma hierarchy_new_inv: "hierarchy_inv hierarchy_new"
  by (simp add: hierarchy_inv_def hierarchy_new_def hierarchy_len_def btree_inv_def hierarchy_defs btree_get_def)

lemma hierarchy_step_inv:
  assumes inv: "hierarchy_inv h"
  shows "\<exists>h'. hierarchy_step a h = Some h' \<and> hierarchy_inv h'"
proof -
  have bi: "btree_inv (ch_origins h)" using inv by (simp add: hierarchy_inv_def)
  have roots: "\<exists>h'. map_option snd (remove_roots (children_by P h) h) = Some h' \<and> hierarchy_inv h'"
    if "P = in_gateway_pane p n \<or> P = in_gateway_window p w" for P p n w
    using remove_roots_spec [OF inv gateway_pane_roots [OF bi that] children_by_distinct [OF bi]]
      remove_ids_inv [OF inv] lists_subtrees_closed by fastforce
  show ?thesis
  proof (cases a)
    case (HRemoveConnection cid)
    show ?thesis
    proof (cases "hierarchy_contains h cid")
      case True
      then show ?thesis
        using remove_connection_spec [OF inv] remove_ids_inv [OF inv] lists_subtrees_closed HRemoveConnection
        by fastforce
    qed (use inv HRemoveConnection in \<open>simp add: remove_connection_def\<close>)
  next
    case (HRemoveGatewayPane p n)
    then show ?thesis using roots [of "in_gateway_pane p n" p n] by (simp add: remove_gateway_pane_def)
  next
    case (HRemoveGatewayWindow p w)
    then show ?thesis using roots [of "in_gateway_window p w" p _ w] by (simp add: remove_gateway_window_def)
  qed (use hierarchy_insert_inv [OF inv] in simp)
qed

lemma hierarchy_run_inv:
  "hierarchy_inv h \<Longrightarrow> \<exists>h'. hierarchy_run ops h = Some h' \<and> hierarchy_inv h'"
proof (induction ops arbitrary: h)
  case (Cons a ops)
  then show ?case using hierarchy_step_inv [OF Cons.prems, of a] by auto
qed simp

section \<open>Properties\<close>

text \<open>
  C6: Every sequence of insertions and removals, failed insertions included, terminates within
  the recursion bound, and in the hierarchy it leaves no connection is orphaned or part of a
  cycle: each one reaches the root terminal through at most 63 outer connections, every parent
  named is itself tracked, and at most 4096 connections are tracked.
\<close>

theorem hierarchy_never_orphans:
  "\<exists>h. hierarchy_run ops hierarchy_new = Some h \<and> hierarchy_len h \<le> 4096 \<and>
     (\<forall>cid. hierarchy_contains h cid \<longleftrightarrow> (\<exists>d \<le> 63. level h cid d)) \<and> acyclic (child_of h)"
proof -
  obtain h where h: "hierarchy_run ops hierarchy_new = Some h" "hierarchy_inv h"
    using hierarchy_run_inv [OF hierarchy_new_inv] by blast
  have "False" if "(x, x) \<in> (child_of h)\<^sup>+" for x
  proof -
    from tranclD [OF that] obtain y where "(x, y) \<in> child_of h" by blast
    then have "hierarchy_contains h x" by (auto simp: child_of_def contains_iff_origin)
    then obtain d where "level h x d" using h(2) by (auto simp: hierarchy_inv_def)
    then show False using no_cycle that by blast
  qed
  then have "acyclic (child_of h)" by (auto simp: acyclic_def)
  moreover have "hierarchy_contains h cid \<longleftrightarrow> (\<exists>d \<le> 63. level h cid d)" for cid
  proof
    assume "hierarchy_contains h cid"
    then obtain d where "d < 64" "level h cid d"
      using h(2) by (auto simp: hierarchy_inv_def MAX_CONNECTION_DEPTH_def)
    then show "\<exists>d \<le> 63. level h cid d" by (intro exI [of _ d]) simp
  qed (use level_contains in blast)
  ultimately show ?thesis using h by (auto simp: hierarchy_inv_def MAX_CONNECTIONS_def)
qed

text \<open>
  C9: Removing a connection of a hierarchy that the operations built reports exactly that
  connection and its transitive descendants, each once and deepest first with the connection
  last, which is also the order \<^verbatim>\<open>teardown_order\<close> announces beforehand; the hierarchy keeps
  exactly the other connections with their origins.
\<close>

theorem remove_connection_subtree:
  assumes "hierarchy_run ops hierarchy_new = Some h" and "hierarchy_contains h cid"
  shows "\<exists>ds h'. remove_connection cid h = Some (ds @ [cid], h') \<and>
    teardown_order h cid = Some (ds @ [cid]) \<and>
    set ds = {c. (c, cid) \<in> (child_of h)\<^sup>+} \<and> distinct (ds @ [cid]) \<and> deepest_first h (ds @ [cid]) \<and>
    (\<forall>k. hierarchy_origin h' k = (if k \<in> set (ds @ [cid]) then None else hierarchy_origin h k))"
proof -
  have inv: "hierarchy_inv h" using hierarchy_run_inv [OF hierarchy_new_inv, of ops] assms(1) by auto
  then have bi: "btree_inv (ch_origins h)" by (simp add: hierarchy_inv_def)
  obtain d where d: "level h cid d" using inv assms(2) by (auto simp: hierarchy_inv_def)
  obtain ds where ds: "remove_connection cid h = Some (ds @ [cid], remove_ids (ds @ [cid]) h)"
      "teardown_order h cid = Some (ds @ [cid])" "lists_subtrees h [cid] (ds @ [cid])"
    using remove_connection_spec [OF inv assms(2)] by blast
  have mem: "x \<in> set (ds @ [cid]) \<longleftrightarrow> (x, cid) \<in> (child_of h)\<^sup>*" for x
    using ds(3) unfolding lists_subtrees_def by auto
  have "x \<in> set ds \<longleftrightarrow> (x, cid) \<in> (child_of h)\<^sup>+" for x
    using mem [of x] no_cycle [OF d] ds(3)
    by (cases "x = cid") (auto simp: lists_subtrees_def rtrancl_eq_or_trancl)
  then have "set ds = {c. (c, cid) \<in> (child_of h)\<^sup>+}" by blast
  with ds remove_ids_origin [OF bi] show ?thesis by (auto simp: lists_subtrees_def)
qed

text \<open>
  Destroying a pane (or a window) of a connection resolves exactly the connections whose
  transport runs through that pane (or window), directly or through further nesting, deepest
  first and without duplicates, and leaves the rest of the hierarchy as it was.
\<close>

theorem remove_gateway_resolves:
  assumes "hierarchy_run ops hierarchy_new = Some h"
    and "(P, r) = (in_gateway_pane p n, remove_gateway_pane p n h) \<or>
      (P, r) = (in_gateway_window p w, remove_gateway_window p w h)"
  shows "\<exists>ids h'. r = Some (ids, h') \<and> distinct ids \<and> deepest_first h ids \<and>
    (\<forall>c. c \<in> set ids \<longleftrightarrow>
       (\<exists>root org. hierarchy_origin h root = Some org \<and> P org \<and> (c, root) \<in> (child_of h)\<^sup>*)) \<and>
    (\<forall>k. hierarchy_origin h' k = (if k \<in> set ids then None else hierarchy_origin h k))"
proof -
  have inv: "hierarchy_inv h" using hierarchy_run_inv [OF hierarchy_new_inv, of ops] assms(1) by auto
  then have bi: "btree_inv (ch_origins h)" by (simp add: hierarchy_inv_def)
  have P: "P = in_gateway_pane p n \<or> P = in_gateway_window p w"
    and r: "r = remove_roots (children_by P h) h"
    using assms(2) by (auto simp: remove_gateway_pane_def remove_gateway_window_def)
  obtain ids where "r = Some (ids, remove_ids ids h)" "lists_subtrees h (children_by P h) ids"
    using remove_roots_spec [OF inv gateway_pane_roots [OF bi P] children_by_distinct [OF bi]] r by blast
  moreover from this have "c \<in> set ids \<longleftrightarrow>
       (\<exists>root org. hierarchy_origin h root = Some org \<and> P org \<and> (c, root) \<in> (child_of h)\<^sup>*)" for c
    unfolding lists_subtrees_def Bex_def children_by_set [OF bi] by blast
  ultimately show ?thesis by (auto simp: lists_subtrees_def remove_ids_origin [OF bi])
qed

text \<open>
  On a hierarchy the operations built, an insertion is refused exactly for a duplicate id,
  for a full table, for a parent that is not tracked, and for a parent that is already at the
  deepest admissible level, in that order of precedence; a refused insertion changes nothing and
  an accepted one records the origin and changes no other entry.
\<close>

theorem hierarchy_insert_exact:
  assumes "hierarchy_run ops hierarchy_new = Some h"
  shows "\<exists>h'. hierarchy_insert cid org h =
    (if hierarchy_contains h cid then (Err DuplicateConnection, h)
     else if hierarchy_len h = 4096 then (Err TooManyConnections, h)
     else if org \<noteq> OriginDirect \<and> \<not> hierarchy_contains h (origin_parent org) then (Err MissingParent, h)
     else if org \<noteq> OriginDirect \<and> level h (origin_parent org) 63 then (Err TooDeep, h)
     else (Ok (), h')) \<and>
    (\<forall>k. hierarchy_origin h' k = (if k = cid then Some org else hierarchy_origin h k))"
proof -
  have inv: "hierarchy_inv h" using hierarchy_run_inv [OF hierarchy_new_inv, of ops] assms(1) by auto
  then have bi: "btree_inv (ch_origins h)" by (simp add: hierarchy_inv_def)
  show ?thesis
    by (rule exI [of _ "h\<lparr>ch_origins := btree_insert cid org (ch_origins h)\<rparr>"], cases org)
      (auto simp: hierarchy_insert_cases [OF inv] insert_origin [OF bi]
         MAX_CONNECTIONS_def MAX_CONNECTION_DEPTH_def)
qed

definition nested_example :: "hierarchy_op list" where
  "nested_example =
     [HInsert 1 OriginDirect, HInsert 5 (OriginPane 1 0 2 7), HInsert 3 (OriginPane 5 0 4 9),
      HInsert 4 (OriginPane 1 0 2 8), HInsert 4 OriginDirect, HInsert 9 (OriginPane 77 0 0 0)]"

definition nested_hierarchy :: connection_hierarchy where
  "nested_hierarchy = \<lparr>ch_origins = [(1, OriginDirect), (3, OriginPane 5 0 4 9),
     (4, OriginPane 1 0 2 8), (5, OriginPane 1 0 2 7)]\<rparr>"

lemma nested_example_run: "hierarchy_run nested_example hierarchy_new = Some nested_hierarchy"
  by (simp add: nested_example_def nested_hierarchy_def hierarchy_new_def hierarchy_insert_def hierarchy_defs
      btree_get_def hierarchy_len_def MAX_CONNECTIONS_def depth_loop.simps [where h = "\<lparr>ch_origins = _\<rparr>"]
      MAX_CONNECTION_DEPTH_def saturating_add_usize_def usize_max_def)

theorem remove_connection_subtree_witness:
  "\<exists>ds h'. remove_connection 1 nested_hierarchy = Some (ds @ [1], h') \<and>
     teardown_order nested_hierarchy 1 = Some (ds @ [1]) \<and>
     set ds = {c. (c, 1) \<in> (child_of nested_hierarchy)\<^sup>+}"
proof -
  have "hierarchy_contains nested_hierarchy 1" by (simp add: nested_hierarchy_def hierarchy_defs btree_get_def)
  from remove_connection_subtree [OF nested_example_run this] show ?thesis by (elim exE conjE) (intro exI conjI, assumption+)
qed

theorem remove_gateway_resolves_witness:
  "\<exists>ids h'. remove_gateway_window 1 2 nested_hierarchy = Some (ids, h') \<and> distinct ids \<and>
     hierarchy_origin h' 1 = Some OriginDirect"
proof -
  have org: "hierarchy_origin nested_hierarchy 1 = Some OriginDirect"
    by (simp add: nested_hierarchy_def hierarchy_defs btree_get_def)
  obtain ids h' where r: "remove_gateway_window 1 2 nested_hierarchy = Some (ids, h')" "distinct ids"
    "\<forall>c. c \<in> set ids \<longleftrightarrow> (\<exists>root org. hierarchy_origin nested_hierarchy root = Some org \<and>
       in_gateway_window 1 2 org \<and> (c, root) \<in> (child_of nested_hierarchy)\<^sup>*)"
    "\<forall>k. hierarchy_origin h' k = (if k \<in> set ids then None else hierarchy_origin nested_hierarchy k)"
    using remove_gateway_resolves [OF nested_example_run disjI2 [OF refl], of 1 2] by (elim exE conjE)
  have "1 \<notin> set ids"
  proof
    assume "1 \<in> set ids"
    then obtain root org' where root: "hierarchy_origin nested_hierarchy root = Some org'"
      "in_gateway_window 1 2 org'" "(1, root) \<in> (child_of nested_hierarchy)\<^sup>*" using r(3) by blast
    from root(3) show False
      by (rule converse_rtranclE) (use org root(1,2) in \<open>auto simp: child_of_def\<close>)
  qed
  with r org show ?thesis by auto
qed

theorem hierarchy_insert_exact_witness:
  "fst (hierarchy_insert 8 (OriginPane 6 0 0 0) nested_hierarchy) = Err MissingParent"
proof -
  have "\<not> hierarchy_contains nested_hierarchy 8" "hierarchy_len nested_hierarchy \<noteq> 4096"
    "\<not> hierarchy_contains nested_hierarchy 6" 
    by (simp_all add: nested_hierarchy_def hierarchy_defs btree_get_def hierarchy_len_def)
  with hierarchy_insert_exact [OF nested_example_run, of 8 "OriginPane 6 0 0 0"] show ?thesis by auto
qed

end
