(* ===== verification/Terminal_Types.thy ===== *)
theory Terminal_Types
  imports Lector_Prelude
begin

text \<open>
  The data that components exchange about terminals: geometry, mouse modes and terminal events
  of \<^verbatim>\<open>terminal.rs\<close>, grid coordinates of \<^verbatim>\<open>presentation.rs\<close> and pane rectangles of
  \<^verbatim>\<open>tmux_panes.rs\<close>.
\<close>

record terminal_geometry =
  geom_rows :: u16
  geom_cols :: u16
  geom_cell_width_px :: u32
  geom_cell_height_px :: u32

definition geometry_new :: "u16 \<Rightarrow> u16 \<Rightarrow> u32 \<Rightarrow> u32 \<Rightarrow> terminal_geometry" where
  "geometry_new rows cols w h =
     \<lparr>geom_rows = (if rows = 0 then 1 else rows), geom_cols = (if cols = 0 then 1 else cols),
      geom_cell_width_px = w, geom_cell_height_px = h\<rparr>"

definition geometry_from_cells :: "u16 \<Rightarrow> u16 \<Rightarrow> terminal_geometry" where
  "geometry_from_cells rows cols = geometry_new rows cols 0 0"

definition geometry_from_grid_pixels :: "u16 \<Rightarrow> u16 \<Rightarrow> u32 \<Rightarrow> u32 \<Rightarrow> terminal_geometry" where
  "geometry_from_grid_pixels rows cols width_px height_px =
     (let rows = max rows 1; cols = max cols 1 in
      geometry_new rows cols (width_px div ucast cols) (height_px div ucast rows))"

definition saturating_mul_u32 :: "u32 \<Rightarrow> u32 \<Rightarrow> u32" where
  "saturating_mul_u32 a b = (if unat a * unat b < 2 ^ 32 then a * b else - 1)"

definition geometry_width_px :: "terminal_geometry \<Rightarrow> u32" where
  "geometry_width_px g = saturating_mul_u32 (geom_cell_width_px g) (ucast (geom_cols g))"

definition geometry_height_px :: "terminal_geometry \<Rightarrow> u32" where
  "geometry_height_px g = saturating_mul_u32 (geom_cell_height_px g) (ucast (geom_rows g))"

datatype mouse_protocol = ProtocolNone | Press | PressRelease | ButtonMotion | AnyMotion
datatype mouse_encoding = EncodingDefault | EncodingUtf8 | EncodingSgr

datatype clipboard_location = ClipStandard | ClipSelection | ClipPrimary

record clipboard_content =
  cc_mime :: bytes
  cc_data :: bytes

datatype progress_state = ProgressRemove | ProgressSet | ProgressError | ProgressIndeterminate | ProgressPause

datatype terminal_query =
  QueryEnquiry | QueryXtVersion | QuerySize | QueryColorScheme | QueryDeviceAttributes | QueryClipboard

datatype terminal_event =
    EventBell
  | TitleChanged bytes
  | WorkingDirectoryChanged bytes
  | ClipboardWrite clipboard_location "clipboard_content list"
  | DesktopNotification bytes bytes
  | ProgressReport progress_state "byte option"
  | EventQuery terminal_query
  | PtyReply bytes
  | UnknownSequence bytes bool

text \<open>The coordinates of a \<^verbatim>\<open>GridPoint\<close> are \<^verbatim>\<open>i32\<close>: integers with the range written out.\<close>

record grid_point =
  gp_row :: int
  gp_col :: int

record layout_pane =
  lp_pane_id :: u64
  lp_origin :: grid_point
  lp_rows :: u16
  lp_cols :: u16

definition in_i32 :: "int \<Rightarrow> bool" where
  "in_i32 i \<longleftrightarrow> - (2 ^ 31) \<le> i \<and> i < 2 ^ 31"

definition checked_sub_i32 :: "int \<Rightarrow> int \<Rightarrow> int option" where
  "checked_sub_i32 a b = (if in_i32 (a - b) then Some (a - b) else None)"

end
