(* ===== verification/Tmux_Input.thy ===== *)
theory Tmux_Input
  imports Tmux_Control Utf8 Terminal_Types
begin

text \<open>
  Input towards tmux panes (\<^verbatim>\<open>tmux_input.rs\<close>): the \<^verbatim>\<open>send-keys -H\<close> encoding, the
  \<^verbatim>\<open>refresh-client\<close> commands, the forwarding of OSC 10 and 11 replies and the translation of
  mouse events. The decoder of \<^verbatim>\<open>send-keys\<close> is the one of the adversarial test peer
  (\<^verbatim>\<open>bin/tmux-control-adversary.rs\<close>), so the round trip is between two programs of the repository.
\<close>

section \<open>Sending bytes to a pane\<close>

definition MAX_SEND_KEYS_COMMAND_BYTES :: nat where
  "MAX_SEND_KEYS_COMMAND_BYTES = 4096"

datatype tmux_input_error = CommandPrefixTooLong

fun hex_digit :: "nat \<Rightarrow> byte" where
  "hex_digit v = (if v \<le> 9 then char_of (48 + v) else char_of (97 + v - 10))"

declare hex_digit.simps [simp del]

text \<open>\<^verbatim>\<open>slice::chunks\<close>, for a chunk size that is not zero\<close>

function chunks :: "nat \<Rightarrow> 'a list \<Rightarrow> 'a list list" where
  "chunks n xs = (if xs = [] \<or> n = 0 then [] else take n xs # chunks n (drop n xs))"
  by pat_completeness auto
termination
  by (relation "measure (\<lambda>(n, xs). length xs)") auto

declare chunks.simps [simp del]

fun push_hex :: "bool \<Rightarrow> bytes \<Rightarrow> bytes" where
  "push_hex first [] = []"
| "push_hex first (b # bs) =
     (if first then [] else '' '') @ [hex_digit (byte_val b div 16), hex_digit (byte_val b mod 16)]
       @ push_hex False bs"

definition send_keys_prefix :: "u64 \<Rightarrow> bytes" where
  "send_keys_prefix pane = ''send-keys -H -t %'' @ show_u64 pane @ '' ''"

definition send_keys_command :: "bytes \<Rightarrow> bytes \<Rightarrow> bytes" where
  "send_keys_command pre chunk = pre @ push_hex True chunk @ [CHR 0x0A]"

definition checked_sub_usize :: "nat \<Rightarrow> nat \<Rightarrow> nat option" where
  "checked_sub_usize a b = (if b \<le> a then Some (a - b) else None)"

definition encode_send_keys :: "u64 \<Rightarrow> bytes \<Rightarrow> (bytes list, tmux_input_error) result" where
  "encode_send_keys pane input =
     (if input = [] then Ok []
      else (let pre = send_keys_prefix pane in
        bind_result (ok_or (checked_sub_usize MAX_SEND_KEYS_COMMAND_BYTES (length pre + 1)) CommandPrefixTooLong)
          (\<lambda>available.
             let chunk_bytes = available div 3 in
             if chunk_bytes = 0 then Err CommandPrefixTooLong
             else Ok (map (send_keys_command pre) (chunks chunk_bytes input)))))"

section \<open>The decoder of the test peer\<close>

datatype decode_error = NotUtf8 | MalformedCommand | MalformedByte | ParseByte

fun split_ascii_whitespace_acc :: "bytes \<Rightarrow> bytes \<Rightarrow> bytes list" where
  "split_ascii_whitespace_acc acc [] = (if acc = [] then [] else [rev acc])"
| "split_ascii_whitespace_acc acc (c # cs) =
     (if is_ascii_whitespace c
      then (if acc = [] then [] else [rev acc]) @ split_ascii_whitespace_acc [] cs
      else split_ascii_whitespace_acc (c # acc) cs)"

definition split_ascii_whitespace :: "bytes \<Rightarrow> bytes list" where
  "split_ascii_whitespace s = split_ascii_whitespace_acc [] s"

definition u8_from_hex :: "bytes \<Rightarrow> byte option" where
  "u8_from_hex s = map_option char_of (parse_hex 8 s)"

text \<open>\<^verbatim>\<open>map(..).collect::<Result<Vec<_>>>()\<close>: the first error wins.\<close>

fun collect_results :: "('a \<Rightarrow> ('b, 'e) result) \<Rightarrow> 'a list \<Rightarrow> ('b list, 'e) result" where
  "collect_results f [] = Ok []"
| "collect_results f (x # xs) = bind_result (f x) (\<lambda>y. bind_result (collect_results f xs) (\<lambda>ys. Ok (y # ys)))"

definition decode_send_keys_field :: "bytes \<Rightarrow> (byte, decode_error) result" where
  "decode_send_keys_field field =
     (if length field \<noteq> 2 then Err MalformedByte else ok_or (u8_from_hex field) ParseByte)"

definition decode_send_keys :: "bytes \<Rightarrow> (bytes, decode_error) result" where
  "decode_send_keys command =
     (if \<not> utf8_valid command then Err NotUtf8
      else (case split_ascii_whitespace command of
              a # b # c # target # args \<Rightarrow>
                if a \<noteq> ''send-keys'' \<or> b \<noteq> ''-H'' \<or> c \<noteq> ''-t'' then Err MalformedCommand
                else collect_results decode_send_keys_field args
            | _ \<Rightarrow> Err MalformedCommand))"

section \<open>Client commands\<close>

definition refresh_client_command :: "terminal_geometry \<Rightarrow> bytes" where
  "refresh_client_command g =
     ''refresh-client -C '' @ show_nat (max (unat (geom_cols g)) 1) @ ''x'' @
       show_nat (max (unat (geom_rows g)) 1) @ [CHR 0x0A]"

definition continue_pane_command :: "u64 \<Rightarrow> bytes" where
  "continue_pane_command pane =
     ''refresh-client -A '' @ [CHR 0x27, CHR ''%''] @ show_u64 pane @ '':continue'' @ [CHR 0x27, CHR 0x0A]"

definition pause_pane_command :: "u64 \<Rightarrow> bytes" where
  "pause_pane_command pane =
     ''refresh-client -A '' @ [CHR 0x27, CHR ''%''] @ show_u64 pane @ '':pause'' @ [CHR 0x27, CHR 0x0A]"

text \<open>The inner loop: from the cursor to just after the terminator of the OSC string.\<close>

fun osc_end :: "bytes \<Rightarrow> nat \<Rightarrow> nat option" where
  "osc_end [] cursor = None"
| "osc_end (b # bs) cursor =
     (if b = CHR 0x07 then Some (cursor + 1)
      else if b = CHR 0x1B \<and> bs \<noteq> [] \<and> hd bs = CHR 0x5C then Some (cursor + 2)
      else osc_end bs (cursor + 1))"

definition report_eligible :: "bytes \<Rightarrow> bool" where
  "report_eligible report \<longleftrightarrow>
     (starts_with report (CHR 0x1B # '']10;'') \<or> starts_with report (CHR 0x1B # '']11;'')) \<and>
     length report \<le> 256 \<and>
     \<not> list_ex (\<lambda>b. b = CHR 0x27 \<or> b = CHR 0x0A \<or> b = CHR 0x0D) report"

definition report_command :: "u64 \<Rightarrow> bytes \<Rightarrow> bytes" where
  "report_command pane report =
     ''refresh-client -r '' @ [CHR 0x27, CHR ''%''] @ show_u64 pane @ '':'' @ report @ [CHR 0x27, CHR 0x0A]"

lemma osc_end_bounds: "osc_end bs cursor = Some e \<Longrightarrow> cursor < e \<and> e \<le> cursor + length bs"
proof (induction bs cursor rule: osc_end.induct)
  case (2 b bs cursor)
  then show ?case by (cases bs) (auto split: if_splits)
qed simp

function report_loop :: "u64 \<Rightarrow> bytes \<Rightarrow> nat \<Rightarrow> bytes list \<Rightarrow> bytes list" where
  "report_loop pane replies offset commands =
     (if offset < length replies then
        (case find_sub [CHR 0x1B, CHR 0x5D] (drop offset replies) of
           None \<Rightarrow> commands
         | Some relative_start \<Rightarrow>
             (let start = offset + relative_start in
              case osc_end (drop (start + 2) replies) (start + 2) of
                None \<Rightarrow> commands
              | Some e \<Rightarrow>
                  (let report = take (e - start) (drop start replies) in
                   report_loop pane replies e
                     (if report_eligible report then commands @ [report_command pane report] else commands))))
      else commands)"
  by pat_completeness auto
termination
  by (relation "measure (\<lambda>(pane, replies, offset, commands). length replies - offset)")
    (auto dest!: osc_end_bounds)

declare report_loop.simps [simp del]

definition refresh_client_report_commands :: "u64 \<Rightarrow> bytes \<Rightarrow> bytes list" where
  "refresh_client_report_commands pane replies = report_loop pane replies 0 []"

section \<open>Mouse events\<close>

datatype mouse_button = LeftButton | MiddleButton | RightButton | UnknownButton
datatype scroll_direction = ScrollUp | ScrollDown | ScrollLeft | ScrollRight
datatype mouse_event_kind =
    MouseDown mouse_button | MouseUp mouse_button | MouseDrag mouse_button | MouseMoved
  | MouseScroll scroll_direction

record mouse_event =
  me_kind :: mouse_event_kind
  me_shift :: bool
  me_alt :: bool
  me_ctrl :: bool
  me_column :: u16
  me_row :: u16

definition protocol_reports :: "mouse_protocol \<Rightarrow> mouse_event_kind \<Rightarrow> bool" where
  "protocol_reports p k =
     (case k of
        MouseDown _ \<Rightarrow> p \<noteq> ProtocolNone
      | MouseScroll _ \<Rightarrow> p \<noteq> ProtocolNone
      | MouseUp _ \<Rightarrow> p \<noteq> ProtocolNone \<and> p \<noteq> Press
      | MouseDrag _ \<Rightarrow> p = ButtonMotion \<or> p = AnyMotion
      | MouseMoved \<Rightarrow> p = AnyMotion)"

fun button_code :: "mouse_button \<Rightarrow> nat" where
  "button_code LeftButton = 0"
| "button_code UnknownButton = 0"
| "button_code MiddleButton = 1"
| "button_code RightButton = 2"

fun mouse_code :: "mouse_event_kind \<Rightarrow> nat" where
  "mouse_code (MouseDown b) = button_code b"
| "mouse_code (MouseUp b) = button_code b"
| "mouse_code (MouseDrag b) = 32 + button_code b"
| "mouse_code MouseMoved = 35"
| "mouse_code (MouseScroll ScrollUp) = 64"
| "mouse_code (MouseScroll ScrollDown) = 65"
| "mouse_code (MouseScroll ScrollLeft) = 66"
| "mouse_code (MouseScroll ScrollRight) = 67"

definition modifier_code :: "mouse_event \<Rightarrow> nat" where
  "modifier_code e = (if me_shift e then 4 else 0) + (if me_alt e then 8 else 0) + (if me_ctrl e then 16 else 0)"

fun is_mouse_up :: "mouse_event_kind \<Rightarrow> bool" where
  "is_mouse_up (MouseUp b) = True"
| "is_mouse_up _ = False"

definition checked_add_u32 :: "nat \<Rightarrow> nat \<Rightarrow> nat option" where
  "checked_add_u32 a b = (if a + b < 2 ^ 32 then Some (a + b) else None)"

definition u8_try_from :: "nat \<Rightarrow> byte option" where
  "u8_try_from n = (if n < 256 then Some (char_of n) else None)"

definition push_utf8_scalar :: "bytes \<Rightarrow> nat \<Rightarrow> bytes option" where
  "push_utf8_scalar bs v = (if is_scalar_value v then Some (bs @ encode_utf8 v) else None)"

definition encode_mouse :: "mouse_event \<Rightarrow> nat \<Rightarrow> nat \<Rightarrow> mouse_encoding \<Rightarrow> bytes option" where
  "encode_mouse e row col enc =
     (let code = mouse_code (me_kind e) + modifier_code e in
      if enc = EncodingSgr then
        Some ([CHR 0x1B] @ ''[<'' @ show_nat code @ '';'' @ show_nat (col + 1) @ '';'' @ show_nat (row + 1) @
              (if is_mouse_up (me_kind e) then ''m'' else ''M''))
      else
        (let code = (if is_mouse_up (me_kind e) then 3 + modifier_code e else code) in
         Option.bind (checked_add_u32 code 32) (\<lambda>code.
         Option.bind (checked_add_u32 col 33) (\<lambda>col.
         Option.bind (checked_add_u32 row 33) (\<lambda>row.
           if enc = EncodingDefault then
             Option.bind (u8_try_from code) (\<lambda>a.
             Option.bind (u8_try_from col) (\<lambda>b.
             Option.bind (u8_try_from row) (\<lambda>c. Some ([CHR 0x1B] @ ''[M'' @ [a, b, c]))))
           else
             Option.bind (push_utf8_scalar ([CHR 0x1B] @ ''[M'') code) (\<lambda>bs.
             Option.bind (push_utf8_scalar bs col) (\<lambda>bs. push_utf8_scalar bs row)))))))"

definition translate_mouse ::
  "mouse_event \<Rightarrow> layout_pane \<Rightarrow> mouse_protocol \<Rightarrow> mouse_encoding \<Rightarrow> bytes option" where
  "translate_mouse e pane protocol enc =
     (if \<not> protocol_reports protocol (me_kind e) then None
      else
        Option.bind (checked_sub_i32 (uint (me_column e)) (gp_col (lp_origin pane))) (\<lambda>col.
        Option.bind (checked_sub_i32 (uint (me_row e)) (gp_row (lp_origin pane))) (\<lambda>row.
          if col < 0 \<or> row < 0 \<or> col \<ge> uint (lp_cols pane) \<or> row \<ge> uint (lp_rows pane) then None
          else encode_mouse e (nat row) (nat col) enc)))"

section \<open>Round trip of send-keys\<close>

lemma chunks_concat: "0 < n \<Longrightarrow> concat (chunks n xs) = xs"
proof (induction n xs rule: chunks.induct)
  case (1 n xs)
  then show ?case by (subst chunks.simps) auto
qed

lemma chunks_length: "c \<in> set (chunks n xs) \<Longrightarrow> c \<noteq> [] \<and> length c \<le> n"
proof (induction n xs rule: chunks.induct)
  case (1 n xs)
  from "1.prems" have "\<not> (xs = [] \<or> n = 0)" by (subst (asm) chunks.simps) (auto split: if_splits)
  with 1 show ?case by (subst (asm) (2) chunks.simps) auto
qed

lemma push_hex_length: "length (push_hex first bs) = 3 * length bs - (if first \<and> bs \<noteq> [] then 1 else 0)"
  by (induction first bs rule: push_hex.induct) auto

lemma hex_digit_val: "v < 16 \<Longrightarrow> byte_val (hex_digit v) = (if v \<le> 9 then 48 + v else 87 + v)"
  by (simp add: hex_digit.simps)

lemma hex_digit_class:
  assumes "v < 16"
  shows "\<not> is_ascii_whitespace (hex_digit v) \<and> is_ascii (hex_digit v) \<and>
    hex_digit v \<noteq> CHR ''+'' \<and> hex_val (hex_digit v) = Some v"
proof -
  have "byte_val (CHR ''+'') = 43" by (simp add: byte_val_def)
  then have "hex_digit v \<noteq> CHR ''+''" using hex_digit_val [OF assms] by (auto split: if_splits)
  then show ?thesis
    using assms by (auto simp: is_ascii_whitespace_def is_ascii_def hex_val_def hex_digit_val Let_def)
qed

lemma byte_nibbles: "byte_val b div 16 < 16" "byte_val b mod 16 < 16"
  using byte_val_less [of b] by (simp_all add: less_mult_imp_div_less del: byte_val_less)

lemma u8_from_hex_pair:
  "u8_from_hex [hex_digit (byte_val b div 16), hex_digit (byte_val b mod 16)] = Some b"
proof -
  have "byte_val b div 16 * 16 + byte_val b mod 16 = byte_val b" by (rule div_mult_mod_eq)
  then show ?thesis
    using hex_digit_class [OF byte_nibbles(1), of b] hex_digit_class [OF byte_nibbles(2), of b]
    by (simp add: u8_from_hex_def parse_hex_def)
qed

lemma push_hex_class:
  "c \<in> set (push_hex first bs) \<Longrightarrow> c = CHR '' '' \<or> is_ascii c \<and> \<not> is_ascii_whitespace c"
  using hex_digit_class byte_nibbles by (induction first bs rule: push_hex.induct) (auto split: if_splits)

text \<open>Splitting at whitespace.\<close>

lemma split_whitespace_word:
  "list_all (\<lambda>c. \<not> is_ascii_whitespace c) w \<Longrightarrow>
     split_ascii_whitespace_acc acc (w @ s) = split_ascii_whitespace_acc (rev w @ acc) s"
  by (induction w arbitrary: acc) auto

lemma split_whitespace_token:
  assumes "list_all (\<lambda>c. \<not> is_ascii_whitespace c) w" and "w \<noteq> []" and "is_ascii_whitespace c"
  shows "split_ascii_whitespace (w @ c # s) = w # split_ascii_whitespace s"
  using assms by (simp add: split_ascii_whitespace_def split_whitespace_word)

lemma space_whitespace: "is_ascii_whitespace (CHR '' '')" "is_ascii_whitespace (CHR 0x0A)" "\<not> is_ascii_whitespace (CHR ''%'')"
  by (simp_all add: byte_simps)

lemma split_hex:
  "bs \<noteq> [] \<Longrightarrow> split_ascii_whitespace (push_hex True bs @ [CHR 0x0A]) =
     map (\<lambda>b. [hex_digit (byte_val b div 16), hex_digit (byte_val b mod 16)]) bs"
proof (induction bs)
  case (Cons b bs)
  let ?w = "[hex_digit (byte_val b div 16), hex_digit (byte_val b mod 16)]"
  have w: "list_all (\<lambda>c. \<not> is_ascii_whitespace c) ?w"
    using hex_digit_class byte_nibbles by simp
  show ?case
  proof (cases bs)
    case Nil
    then show ?thesis
      using split_whitespace_token [OF w, of "CHR 0x0A" "[]"] space_whitespace
      by (simp add: split_ascii_whitespace_def)
  next
    case (Cons b' bs')
    have "push_hex True (b # bs) = ?w @ CHR '' '' # push_hex True bs" by (simp add: Cons)
    then show ?thesis
      using split_whitespace_token [OF w, of "CHR '' ''" "push_hex True bs @ [CHR 0x0A]"]
        space_whitespace Cons.IH Cons by simp
  qed
qed simp

lemma collect_hex:
  "collect_results decode_send_keys_field
     (map (\<lambda>b. [hex_digit (byte_val b div 16), hex_digit (byte_val b mod 16)]) bs) = Ok bs"
  by (induction bs) (simp_all add: decode_send_keys_field_def u8_from_hex_pair)

lemma show_u64_class: "c \<in> set (show_u64 n) \<Longrightarrow> is_ascii_digit c"
  by (simp add: show_u64_def show_nat_set)

lemma digit_not_whitespace: "is_ascii_digit c \<Longrightarrow> \<not> is_ascii_whitespace c \<and> is_ascii c"
  by (auto simp: is_ascii_digit_def is_ascii_whitespace_def is_ascii_def)

lemma prefix_fields:
  "split_ascii_whitespace (send_keys_prefix pane @ s) =
     ''send-keys'' # ''-H'' # ''-t'' # (CHR ''%'' # show_u64 pane) # split_ascii_whitespace s"
proof -
  have t: "list_all (\<lambda>c. \<not> is_ascii_whitespace c) (CHR ''%'' # show_u64 pane)"
    using show_u64_class [of _ pane] digit_not_whitespace space_whitespace(3)
    by (auto simp: list_all_iff)
  have k: "list_all (\<lambda>c. \<not> is_ascii_whitespace c) ''send-keys''"
    "list_all (\<lambda>c. \<not> is_ascii_whitespace c) ''-H''" "list_all (\<lambda>c. \<not> is_ascii_whitespace c) ''-t''"
    by (simp_all add: byte_simps)
  have e: "send_keys_prefix pane @ s =
      ''send-keys'' @ CHR '' '' # ''-H'' @ CHR '' '' # ''-t'' @ CHR '' '' #
        (CHR ''%'' # show_u64 pane) @ CHR '' '' # s"
    by (simp add: send_keys_prefix_def)
  show ?thesis
    unfolding e using split_whitespace_token [OF k(1)] split_whitespace_token [OF k(2)]
      split_whitespace_token [OF k(3)] split_whitespace_token [OF t] space_whitespace
    by (simp del: append_Cons)
qed

lemma prefix_ascii: "list_all is_ascii (send_keys_prefix pane)"
  using show_u64_class digit_not_whitespace
  by (auto simp: send_keys_prefix_def list_all_iff) (auto simp: byte_simps)

lemma send_keys_command_ascii: "list_all is_ascii (send_keys_command (send_keys_prefix pane) chunk)"
proof -
  have "is_ascii (CHR '' '')" "is_ascii (CHR 0x0A)" by (simp_all add: byte_simps)
  then show ?thesis
    using prefix_ascii push_hex_class by (fastforce simp: send_keys_command_def list_all_iff)
qed

lemma decode_send_keys_command:
  "chunk \<noteq> [] \<Longrightarrow> decode_send_keys (send_keys_command (send_keys_prefix pane) chunk) = Ok chunk"
  using utf8_valid_ascii [OF send_keys_command_ascii, of pane chunk]
  by (simp add: decode_send_keys_def send_keys_command_def prefix_fields split_hex collect_hex)

lemma send_keys_prefix_length: "length (send_keys_prefix pane) \<le> 38"
proof -
  have "unat pane < 10 ^ 20" using unat_less_2p64 [of pane] by (rule order_less_le_trans) simp
  then have "length (show_nat (unat pane)) \<le> 20" using show_nat_length [of "unat pane" 20] by simp
  then show ?thesis by (simp add: send_keys_prefix_def show_u64_def)
qed

text \<open>The bytes a \<^verbatim>\<open>send-keys\<close> command consists of: no quote, separator or control byte.\<close>

definition send_keys_safe :: "byte \<Rightarrow> bool" where
  "send_keys_safe c \<longleftrightarrow> is_ascii_digit c \<or> is_ascii_lowercase c \<or> c \<in> set '' %-H''"

lemma hex_digit_safe: "v < 16 \<Longrightarrow> send_keys_safe (hex_digit v)"
  by (auto simp: send_keys_safe_def is_ascii_digit_def is_ascii_lowercase_def hex_digit_val)

lemma push_hex_safe: "list_all send_keys_safe (push_hex first bs)"
  using hex_digit_safe byte_nibbles
  by (induction first bs rule: push_hex.induct) (auto simp: send_keys_safe_def)

lemma send_keys_prefix_safe: "list_all send_keys_safe (send_keys_prefix pane)"
proof -
  have "list_all send_keys_safe (show_u64 pane)"
    using show_u64_class by (auto simp: list_all_iff send_keys_safe_def)
  moreover have "list_all send_keys_safe ''send-keys -H -t %''" by code_simp
  ultimately show ?thesis by (simp add: send_keys_prefix_def send_keys_safe_def)
qed

text \<open>
  C7: Encoding pane input never fails. Every command is one line of at most 4096 bytes made only
  of digits, lower case letters and the punctuation of the fixed prefix, whatever the input
  bytes are, and decoding the commands in order gives back exactly the input.
\<close>

theorem send_keys_roundtrip:
  "\<exists>cmds chunks. encode_send_keys pane input = Ok cmds \<and>
     collect_results decode_send_keys cmds = Ok chunks \<and> concat chunks = input \<and>
     list_all (\<lambda>cmd. length cmd \<le> 4096 \<and> (\<exists>line. cmd = line @ [CHR 0x0A] \<and> list_all send_keys_safe line)) cmds"
proof (cases "input = []")
  case True
  then show ?thesis by (simp add: encode_send_keys_def)
next
  case False
  define p where "p = send_keys_prefix pane"
  define n where "n = (4096 - (length p + 1)) div 3"
  have lp: "length p \<le> 38" using send_keys_prefix_length by (simp add: p_def)
  then have n: "0 < n" "length p + 3 * n \<le> 4095" by (simp_all add: n_def)
  let ?cs = "chunks n input"
  let ?cmds = "map (send_keys_command p) ?cs"
  have enc: "encode_send_keys pane input = Ok ?cmds"
    using False lp n(1)
    unfolding encode_send_keys_def checked_sub_usize_def MAX_SEND_KEYS_COMMAND_BYTES_def Let_def
      p_def [symmetric] by (simp add: n_def)
  have "collect_results decode_send_keys (map (send_keys_command p) cs) = Ok cs"
    if "\<forall>c \<in> set cs. c \<noteq> []" for cs
    using that by (induction cs) (simp_all add: p_def decode_send_keys_command)
  then have dec: "collect_results decode_send_keys ?cmds = Ok ?cs" using chunks_length by blast
  have "length (send_keys_command p c) \<le> 4096 \<and>
      (\<exists>line. send_keys_command p c = line @ [CHR 0x0A] \<and> list_all send_keys_safe line)"
    if "c \<in> set ?cs" for c
  proof (intro conjI exI)
    show "send_keys_command p c = (p @ push_hex True c) @ [CHR 0x0A]" by (simp add: send_keys_command_def)
    show "list_all send_keys_safe (p @ push_hex True c)"
      using push_hex_safe send_keys_prefix_safe by (simp add: p_def)
    show "length (send_keys_command p c) \<le> 4096"
      using chunks_length [OF that] n(2) push_hex_length [of True c] by (simp add: send_keys_command_def)
  qed
  then have "list_all (\<lambda>cmd. length cmd \<le> 4096 \<and>
      (\<exists>line. cmd = line @ [CHR 0x0A] \<and> list_all send_keys_safe line)) ?cmds"
    by (simp add: list_all_iff)
  with enc dec chunks_concat [OF n(1)] show ?thesis by blast
qed

section \<open>Forwarded reports\<close>

definition forwards_slice :: "u64 \<Rightarrow> bytes \<Rightarrow> bytes \<Rightarrow> bool" where
  "forwards_slice pane replies c \<longleftrightarrow>
     (\<exists>pre report post. replies = pre @ report @ post \<and> report_eligible report \<and> c = report_command pane report)"

lemma forwards_sliceI:
  "report_eligible (take n (drop m replies)) \<Longrightarrow> forwards_slice pane replies (report_command pane (take n (drop m replies)))"
  unfolding forwards_slice_def by (metis append_take_drop_id)

lemma report_loop_safe:
  "list_all (forwards_slice pane replies) commands \<Longrightarrow>
     list_all (forwards_slice pane replies) (report_loop pane replies offset commands)"
proof (induction pane replies offset commands rule: report_loop.induct)
  case (1 pane replies offset commands)
  then show ?case
    by (subst report_loop.simps)
      (auto simp: Let_def forwards_sliceI simp del: drop_drop split: option.splits)
qed

lemma osc_end_frame:
  assumes "CHR 0x07 \<notin> set body" and "CHR 0x1B \<notin> set body"
    and "t = [CHR 0x07] \<or> t = [CHR 0x1B, CHR 0x5C]"
  shows "osc_end (body @ t @ rest) k = Some (k + length body + length t)"
  using assms(1,2)
proof (induction body arbitrary: k)
  case Nil
  then show ?case using assms(3) by auto
qed auto

definition osc_frame :: "bytes \<times> bytes \<Rightarrow> bytes" where
  "osc_frame f = [CHR 0x1B, CHR 0x5D] @ fst f @ snd f"

definition osc_frame_ok :: "bytes \<times> bytes \<Rightarrow> bool" where
  "osc_frame_ok f \<longleftrightarrow> CHR 0x07 \<notin> set (fst f) \<and> CHR 0x1B \<notin> set (fst f) \<and>
     (snd f = [CHR 0x07] \<or> snd f = [CHR 0x1B, CHR 0x5C])"

lemma report_loop_frames:
  "list_all osc_frame_ok frames \<Longrightarrow>
   report_loop pane (pre @ concat (map osc_frame frames)) (length pre) commands =
     commands @ map (report_command pane) (filter report_eligible (map osc_frame frames))"
proof (induction frames arbitrary: pre commands)
  case Nil
  then show ?case by (simp add: report_loop.simps)
next
  case (Cons f frames)
  define fr where "fr = osc_frame f"
  define rest where "rest = concat (map osc_frame frames)"
  have fr: "fr = [CHR 0x1B, CHR 0x5D] @ fst f @ snd f" by (simp add: fr_def osc_frame_def)
  have find: "find_sub [CHR 0x1B, CHR 0x5D] (fr @ rest) = Some 0"
    by (simp add: fr starts_with_def)
  have e: "osc_end (drop (length pre + 2) (pre @ fr @ rest)) (length pre + 2) =
      Some (length pre + length fr)"
    using Cons.prems osc_end_frame [of "fst f" "snd f" rest "length pre + 2"]
    by (simp add: fr osc_frame_ok_def)
  have "report_loop pane (pre @ fr @ rest) (length pre) commands =
      report_loop pane (pre @ fr @ rest) (length pre + length fr)
        (if report_eligible fr then commands @ [report_command pane fr] else commands)"
    using find e by (subst report_loop.simps) (simp add: fr Let_def)
  also have "\<dots> = (if report_eligible fr then commands @ [report_command pane fr] else commands) @
      map (report_command pane) (filter report_eligible (map osc_frame frames))"
    using Cons.IH [of "pre @ fr"] Cons.prems by (simp add: rest_def)
  finally show ?case by (simp add: fr_def rest_def)
qed

text \<open>
  Whatever bytes the shadow terminal produces, every command that forwards a reply quotes one
  contiguous piece of them that is an OSC 10 or OSC 11 report of at most 256 bytes without quote
  or line break, so a hostile reply can neither end the quoted argument nor start a second
  command.
\<close>

theorem report_commands_safe:
  "list_all (forwards_slice pane replies) (refresh_client_report_commands pane replies)"
  by (simp add: refresh_client_report_commands_def report_loop_safe)

text \<open>
  For a reply stream that is a sequence of complete OSC strings, the eligible ones are all
  forwarded, unchanged and in order, and nothing else is.
\<close>

theorem report_commands_complete:
  assumes "list_all osc_frame_ok frames"
  shows "refresh_client_report_commands pane (concat (map osc_frame frames)) =
    map (report_command pane) (filter report_eligible (map osc_frame frames))"
  using report_loop_frames [OF assms, of pane "[]" "[]"]
  by (simp add: refresh_client_report_commands_def)

theorem report_commands_complete_witness:
  "refresh_client_report_commands 3
     (concat (map osc_frame [(''10;rgb:ff'', [CHR 0x07]), (''4;1;x'', [CHR 0x07]), (''11;a'', [CHR 0x1B, CHR 0x5C])])) =
   [report_command 3 (osc_frame (''10;rgb:ff'', [CHR 0x07])),
    report_command 3 (osc_frame (''11;a'', [CHR 0x1B, CHR 0x5C]))]"
  by (subst report_commands_complete)
    (simp_all add: osc_frame_ok_def osc_frame_def report_eligible_def starts_with_def)

section \<open>Mouse translation\<close>

definition inside_pane :: "mouse_event \<Rightarrow> layout_pane \<Rightarrow> bool" where
  "inside_pane e p \<longleftrightarrow>
     gp_col (lp_origin p) \<le> uint (me_column e) \<and> uint (me_column e) < gp_col (lp_origin p) + uint (lp_cols p) \<and>
     gp_row (lp_origin p) \<le> uint (me_row e) \<and> uint (me_row e) < gp_row (lp_origin p) + uint (lp_rows p)"

lemma uint_u16_less: "uint (x :: u16) < 65536"
  using uint_lt2p [of x] by simp

lemma translate_mouse_inside:
  assumes "in_i32 (gp_col (lp_origin p))" and "in_i32 (gp_row (lp_origin p))"
  shows "translate_mouse e p protocol enc =
    (if protocol_reports protocol (me_kind e) \<and> inside_pane e p
     then encode_mouse e (nat (uint (me_row e) - gp_row (lp_origin p)))
            (nat (uint (me_column e) - gp_col (lp_origin p))) enc
     else None)"
  using assms uint_u16_less [of "me_column e"] uint_u16_less [of "me_row e"]
    uint_u16_less [of "lp_cols p"] uint_u16_less [of "lp_rows p"]
    uint_ge_0 [of "me_column e"] uint_ge_0 [of "me_row e"]
  unfolding translate_mouse_def inside_pane_def checked_sub_i32_def in_i32_def
  by (auto simp del: uint_ge_0)

lemma modifier_code_bound: "modifier_code e \<le> 28"
  by (simp add: modifier_code_def)

lemma mouse_code_bound: "mouse_code k \<le> 67"
proof (cases k)
  case (MouseScroll d)
  then show ?thesis by (cases d) auto
next
  case (MouseDown b)
  then show ?thesis by (cases b) auto
next
  case (MouseUp b)
  then show ?thesis by (cases b) auto
next
  case (MouseDrag b)
  then show ?thesis by (cases b) auto
qed simp

text \<open>
  A mouse event is translated exactly when the pane's protocol selects its kind and it lies
  inside the pane's rectangle, over mathematical integers and so without overflow at any origin;
  under the SGR encoding it is then reported at the one-based pane-local cell, and under the
  legacy encoding it is dropped exactly when a local coordinate does not fit a byte.
\<close>

theorem translate_mouse_exact:
  assumes "in_i32 (gp_col (lp_origin p))" and "in_i32 (gp_row (lp_origin p))"
    and "col = nat (uint (me_column e) - gp_col (lp_origin p))"
    and "row = nat (uint (me_row e) - gp_row (lp_origin p))"
    and "selected = (protocol_reports protocol (me_kind e) \<and> inside_pane e p)"
  shows "translate_mouse e p protocol EncodingSgr =
      (if selected
       then Some (CHR 0x1B # ''[<'' @ show_nat (mouse_code (me_kind e) + modifier_code e) @ '';'' @
         show_nat (col + 1) @ '';'' @ show_nat (row + 1) @ (if is_mouse_up (me_kind e) then ''m'' else ''M''))
       else None) \<and>
    translate_mouse e p protocol EncodingDefault =
      (if selected \<and> col \<le> 222 \<and> row \<le> 222
       then Some (CHR 0x1B # ''[M'' @
         [char_of (32 + (if is_mouse_up (me_kind e) then 3 else mouse_code (me_kind e)) + modifier_code e),
          char_of (33 + col), char_of (33 + row)])
       else None)"
proof -
  have code: "mouse_code (me_kind e) + modifier_code e + 32 < 256" "3 + modifier_code e + 32 < 256"
    using mouse_code_bound [of "me_kind e"] modifier_code_bound [of e] by simp_all
  have small: "col < 65536 \<and> row < 65536" if selected
    using that assms(3-5) uint_u16_less [of "lp_cols p"] uint_u16_less [of "lp_rows p"]
    by (auto simp: inside_pane_def)
  show ?thesis
    using translate_mouse_inside [OF assms(1,2)] assms(3-5) code small
    by (auto simp: encode_mouse_def Let_def checked_add_u32_def u8_try_from_def add.commute add.left_commute)
qed

theorem translate_mouse_exact_witness:
  "translate_mouse \<lparr>me_kind = MouseDown LeftButton, me_shift = False, me_alt = False, me_ctrl = False,
       me_column = 12, me_row = 5\<rparr>
     \<lparr>lp_pane_id = 1, lp_origin = \<lparr>gp_row = 2, gp_col = 10\<rparr>, lp_rows = 20, lp_cols = 30\<rparr> AnyMotion EncodingSgr =
   Some (CHR 0x1B # ''[<0;3;4M'')"
proof -
  have chars: "char_of (48 :: nat) = CHR ''0''" "char_of (51 :: nat) = CHR ''3''" "char_of (52 :: nat) = CHR ''4''"
    by code_simp+
  show ?thesis
    using translate_mouse_exact [of "\<lparr>lp_pane_id = 1, lp_origin = \<lparr>gp_row = 2, gp_col = 10\<rparr>, lp_rows = 20, lp_cols = 30\<rparr>"
      2 "\<lparr>me_kind = MouseDown LeftButton, me_shift = False, me_alt = False, me_ctrl = False,
         me_column = 12, me_row = 5\<rparr>" 3 True AnyMotion]
    by (simp add: in_i32_def protocol_reports_def inside_pane_def modifier_code_def show_nat.simps
        digit_char_def chars)
qed

end
