(* ===== verification/Output_Scheduler.thy ===== *)
theory Output_Scheduler
  imports Terminal_Types Utf8
begin

text \<open>
  The scheduler of physical terminal output (\<^verbatim>\<open>output_scheduler.rs\<close>): queues of control bytes,
  terminal effects, bells and the newest render, the transaction that is being written, and the
  drain that writes and flushes under a byte budget.

  The writer is the environment. It answers each \<^verbatim>\<open>write\<close> and \<^verbatim>\<open>flush\<close> from a script of
  responses (how many bytes it accepts, or which error it raises); after the script it accepts
  everything. Its log records what reached the terminal, so that statements about the order of
  bytes and flushes are statements about the log. The content of scenes and of accessibility
  frames is opaque to the scheduler and a type parameter here.
\<close>

section \<open>Data\<close>

definition SYNCHRONIZED_OUTPUT_START :: bytes where
  "SYNCHRONIZED_OUTPUT_START = CHR 0x1B # ''[?2026h''"

definition SYNCHRONIZED_OUTPUT_END :: bytes where
  "SYNCHRONIZED_OUTPUT_END = CHR 0x1B # ''[?2026l''"

definition CONTROL_BACKLOG_LIMIT_BYTES :: nat where
  "CONTROL_BACKLOG_LIMIT_BYTES = 64 * 1024"

text \<open>\<^verbatim>\<open>u128::saturating_add\<close>, for times in milliseconds\<close>

definition saturating_add_u128 :: "nat \<Rightarrow> nat \<Rightarrow> nat" where
  "saturating_add_u128 a b = min (a + b) (2 ^ 128 - 1)"

record output_scheduler_config =
  latency_budget_ms :: nat
  synchronization_timeout_ms :: nat
  synchronization_hard_timeout_ms :: nat
  write_budget_bytes :: nat
  maximum_pending_bytes :: nat

definition default_scheduler_config :: output_scheduler_config where
  "default_scheduler_config =
     \<lparr>latency_budget_ms = 0, synchronization_timeout_ms = 100, synchronization_hard_timeout_ms = 2000,
      write_budget_bytes = 64 * 1024, maximum_pending_bytes = 2 * 1024 * 1024\<rparr>"

datatype scheduled_output_class = ClassControl
datatype enqueue_outcome = Queued | ReplacedObsoleteRender | DroppedForCapacity

record 's presented_scene =
  scene_geometry :: terminal_geometry
  scene_content :: 's

record output_transaction =
  ot_resize :: "terminal_geometry option"
  ot_bytes :: bytes

record 's render_batch =
  rb_transactions :: "output_transaction list"
  rb_predicted :: "'s presented_scene"

record 'f view_frame =
  vf_view_id :: u64
  vf_content :: 'f

record 'f accessibility_bundle =
  ab_active_view :: "u64 option"
  ab_active_label :: "bytes option"
  ab_active_label_tracks_terminal_title :: bool
  ab_frames :: "'f view_frame list"

definition default_bundle :: "'f accessibility_bundle" where
  "default_bundle = \<lparr>ab_active_view = None, ab_active_label = None,
     ab_active_label_tracks_terminal_title = False, ab_frames = []\<rparr>"

record ('s, 'f) completed_render =
  cr_predicted :: "'s presented_scene"
  cr_geometry :: terminal_geometry
  cr_accessibility :: "'f accessibility_bundle"

record terminal_effect =
  te_owner :: u64
  te_event :: terminal_event

record ('s, 'f) drain_report =
  dr_bytes_written :: nat
  dr_completed_renders :: "('s, 'f) completed_render list"
  dr_completed_effects :: "terminal_effect list"
  dr_blocked :: bool
  dr_write_budget_exhausted :: bool
  dr_synchronization_timed_out :: bool
  dr_bypass_completed :: "u64 option"

definition empty_report :: "('s, 'f) drain_report" where
  "empty_report = \<lparr>dr_bytes_written = 0, dr_completed_renders = [], dr_completed_effects = [],
     dr_blocked = False, dr_write_budget_exhausted = False, dr_synchronization_timed_out = False,
     dr_bypass_completed = None\<rparr>"

record pending_bytes_entry =
  pb_class :: scheduled_output_class
  pb_bytes :: bytes

record ('s, 'f) pending_render =
  pr_batch :: "'s render_batch"
  pr_byte_len :: nat
  pr_generation :: u64
  pr_accessibility :: "'f accessibility_bundle"

record ('s, 'f) tracked_render =
  tr_predicted :: "'s presented_scene"
  tr_generation :: u64
  tr_accessibility :: "'f accessibility_bundle"

datatype active_transaction_kind = KindControl | KindRender | KindEffect | KindBell

record ('s, 'f) active_transaction =
  at_kind :: active_transaction_kind
  at_bytes :: bytes
  at_offset :: nat
  at_completed_render :: "('s, 'f) tracked_render option"
  at_completed_effects :: "terminal_effect list"

definition at_remaining :: "('s, 'f) active_transaction \<Rightarrow> bytes" where
  "at_remaining t = drop (at_offset t) (at_bytes t)"

datatype application_synchronization =
    SyncActive (started_ms: nat) (last_activity_ms: nat)
  | IgnoringUntilClose

record ('s, 'f) output_scheduler =
  os_config :: output_scheduler_config
  os_synchronized_output_supported :: bool
  os_pending_bytes :: "pending_bytes_entry list"
  os_pending_render :: "('s, 'f) pending_render option"
  os_pending_effects :: "terminal_effect list"
  os_pending_bells :: nat
  os_pending_since_ms :: "nat option"
  os_active :: "('s, 'f) active_transaction list"
  os_awaiting_flush_renders :: "('s, 'f) tracked_render list"
  os_awaiting_flush_effects :: "terminal_effect list"
  os_flush_required :: bool
  os_waiting_for_writable :: bool
  os_application_synchronization :: "application_synchronization option"
  os_bypass_next_render :: bool
  os_bypass_generation :: "u64 option"
  os_next_render_generation :: u64
  os_release_generation :: "u64 option"
  os_needs_reconciliation :: bool

definition scheduler_new :: "output_scheduler_config \<Rightarrow> bool \<Rightarrow> ('s, 'f) output_scheduler" where
  "scheduler_new config supported =
     \<lparr>os_config = config, os_synchronized_output_supported = supported, os_pending_bytes = [],
      os_pending_render = None, os_pending_effects = [], os_pending_bells = 0, os_pending_since_ms = None,
      os_active = [], os_awaiting_flush_renders = [], os_awaiting_flush_effects = [],
      os_flush_required = False, os_waiting_for_writable = False, os_application_synchronization = None,
      os_bypass_next_render = False, os_bypass_generation = None, os_next_render_generation = 1,
      os_release_generation = None, os_needs_reconciliation = False\<rparr>"

section \<open>Byte lengths and terminal effects\<close>

datatype terminal_event_kind =
    KBell | KTitle | KWorkingDirectory | KClipboard | KNotification | KProgress | KQuery | KReply | KUnknown

fun event_kind :: "terminal_event \<Rightarrow> terminal_event_kind" where
  "event_kind EventBell = KBell"
| "event_kind (TitleChanged v) = KTitle"
| "event_kind (WorkingDirectoryChanged v) = KWorkingDirectory"
| "event_kind (ClipboardWrite l c) = KClipboard"
| "event_kind (DesktopNotification t b) = KNotification"
| "event_kind (ProgressReport s p) = KProgress"
| "event_kind (EventQuery q) = KQuery"
| "event_kind (PtyReply bs) = KReply"
| "event_kind (UnknownSequence c t) = KUnknown"

fun event_payload :: "terminal_event \<Rightarrow> nat" where
  "event_payload (TitleChanged v) = length v"
| "event_payload (WorkingDirectoryChanged v) = length v"
| "event_payload (ClipboardWrite l cs) =
     sum_list (map (\<lambda>c. saturating_add_usize (length (cc_mime c)) (length (cc_data c))) cs)"
| "event_payload (DesktopNotification t b) = saturating_add_usize (length t) (length b)"
| "event_payload (PtyReply bs) = length bs"
| "event_payload (UnknownSequence bs t) = length bs"
| "event_payload EventBell = 0"
| "event_payload (ProgressReport s p) = 0"
| "event_payload (EventQuery q) = 0"

definition event_retained_bytes :: "terminal_event \<Rightarrow> nat" where
  "event_retained_bytes e = saturating_add_usize (event_payload e) 16"

text \<open>\<^verbatim>\<open>str::is_char_boundary\<close>\<close>

definition is_char_boundary :: "bytes \<Rightarrow> nat \<Rightarrow> bool" where
  "is_char_boundary v i \<longleftrightarrow>
     i = 0 \<or> i = length v \<or>
     i < length v \<and> (byte_val (v ! i) < 0x80 \<or> 0xC0 \<le> byte_val (v ! i))"

fun last_boundary :: "bytes \<Rightarrow> nat \<Rightarrow> nat" where
  "last_boundary v 0 = 0"
| "last_boundary v (Suc i) = (if is_char_boundary v (Suc i) then Suc i else last_boundary v i)"

definition truncate_string :: "bytes \<Rightarrow> nat \<Rightarrow> bytes" where
  "truncate_string v maximum = (if length v \<le> maximum then v else take (last_boundary v maximum) v)"

fun bound_contents :: "nat \<Rightarrow> clipboard_content list \<Rightarrow> clipboard_content list" where
  "bound_contents remaining [] = []"
| "bound_contents remaining (c # cs) =
     (let mime = truncate_string (cc_mime c) remaining;
          remaining = remaining - length mime;
          data = take remaining (cc_data c);
          remaining = remaining - length data
      in c\<lparr>cc_mime := mime, cc_data := data\<rparr> # bound_contents remaining cs)"

definition bound_terminal_effect :: "terminal_event \<Rightarrow> nat \<Rightarrow> terminal_event" where
  "bound_terminal_effect e maximum =
     (let payload_limit = maximum - 16 in
      case e of
        TitleChanged v \<Rightarrow> TitleChanged (truncate_string v payload_limit)
      | WorkingDirectoryChanged v \<Rightarrow> WorkingDirectoryChanged (truncate_string v payload_limit)
      | ClipboardWrite l cs \<Rightarrow>
          ClipboardWrite l (filter (\<lambda>c. cc_mime c \<noteq> [] \<or> cc_data c \<noteq> []) (bound_contents payload_limit cs))
      | DesktopNotification title body \<Rightarrow>
          (let title = truncate_string title payload_limit in
           DesktopNotification title (truncate_string body (payload_limit - length title)))
      | PtyReply bs \<Rightarrow> PtyReply (take payload_limit bs)
      | UnknownSequence bs t \<Rightarrow> UnknownSequence (take payload_limit bs) t
      | e \<Rightarrow> e)"

definition write_osc :: "nat \<Rightarrow> bytes \<Rightarrow> bytes" where
  "write_osc code v =
     CHR 0x1B # '']'' @ show_nat code @ '';'' @
     filter (\<lambda>b. 32 \<le> byte_val b \<and> byte_val b \<noteq> 0x7F) v @ [CHR 0x1B, CHR 0x5C]"

fun progress_code :: "progress_state \<Rightarrow> nat" where
  "progress_code ProgressRemove = 0"
| "progress_code ProgressSet = 1"
| "progress_code ProgressError = 2"
| "progress_code ProgressIndeterminate = 3"
| "progress_code ProgressPause = 4"

definition encode_terminal_effect :: "terminal_event \<Rightarrow> bytes" where
  "encode_terminal_effect e =
     (case e of
        TitleChanged title \<Rightarrow> write_osc 2 title
      | WorkingDirectoryChanged directory \<Rightarrow> write_osc 7 directory
      | ProgressReport state progress \<Rightarrow>
          CHR 0x1B # '']9;4;'' @ show_nat (progress_code state) @
          (case progress of None \<Rightarrow> [] | Some p \<Rightarrow> '';'' @ show_nat (min (byte_val p) 100)) @
          [CHR 0x1B, CHR 0x5C]
      | EventBell \<Rightarrow> [CHR 0x07]
      | _ \<Rightarrow> [])"

definition checked_add_fold :: "nat list \<Rightarrow> nat option" where
  "checked_add_fold ns = foldl (\<lambda>acc n. Option.bind acc (\<lambda>total. checked_add_usize total n)) (Some 0) ns"

definition render_batch_byte_len :: "'s render_batch \<Rightarrow> bool \<Rightarrow> nat option" where
  "render_batch_byte_len batch supported =
     Option.bind (checked_add_fold (map (\<lambda>t. length (ot_bytes t)) (rb_transactions batch)))
       (\<lambda>total. checked_add_usize total
          (if supported then length SYNCHRONIZED_OUTPUT_START + length SYNCHRONIZED_OUTPUT_END else 0))"

section \<open>Synchronization markers\<close>

definition contains_synchronization_marker :: "bytes \<Rightarrow> bool" where
  "contains_synchronization_marker source \<longleftrightarrow>
     find_sub SYNCHRONIZED_OUTPUT_START source \<noteq> None \<or> find_sub SYNCHRONIZED_OUTPUT_END source \<noteq> None"

text \<open>
  The loop copies up to the next escape byte, then skips a marker or copies the escape byte; as a
  function of the rest of the source, one byte at a time.
\<close>

function without_synchronization_markers :: "bytes \<Rightarrow> bytes" where
  "without_synchronization_markers source =
     (case source of
        [] \<Rightarrow> []
      | b # rest \<Rightarrow>
          if b = CHR 0x1B \<and> starts_with source SYNCHRONIZED_OUTPUT_START
          then without_synchronization_markers (drop (length SYNCHRONIZED_OUTPUT_START) source)
          else if b = CHR 0x1B \<and> starts_with source SYNCHRONIZED_OUTPUT_END
          then without_synchronization_markers (drop (length SYNCHRONIZED_OUTPUT_END) source)
          else b # without_synchronization_markers rest)"
  by pat_completeness auto
termination
  by (relation "measure length") (auto simp: SYNCHRONIZED_OUTPUT_START_def SYNCHRONIZED_OUTPUT_END_def)

declare without_synchronization_markers.simps [simp del]

text \<open>The bytes of a render when it is activated.\<close>

definition render_bytes :: "bool \<Rightarrow> 's render_batch \<Rightarrow> bytes" where
  "render_bytes supported batch =
     (case (supported, rb_transactions batch) of
        (False, [t]) \<Rightarrow>
          if contains_synchronization_marker (ot_bytes t)
          then without_synchronization_markers (ot_bytes t) else ot_bytes t
      | (_, ts) \<Rightarrow>
          (if supported then SYNCHRONIZED_OUTPUT_START else []) @
          concat (map (\<lambda>t. without_synchronization_markers (ot_bytes t)) ts) @
          (if supported then SYNCHRONIZED_OUTPUT_END else []))"

section \<open>Accounting\<close>

definition sched_pending_bytes :: "('s, 'f) output_scheduler \<Rightarrow> nat" where
  "sched_pending_bytes s =
     (let active = sum_list (map (\<lambda>t. length (at_bytes t) - at_offset t) (os_active s));
          queued = sum_list (map (\<lambda>p. length (pb_bytes p)) (os_pending_bytes s));
          render = (case os_pending_render s of None \<Rightarrow> 0 | Some r \<Rightarrow> pr_byte_len r);
          effects = sum_list (map (\<lambda>e. event_retained_bytes (te_event e)) (os_pending_effects s))
      in saturating_add_usize
           (saturating_add_usize (saturating_add_usize (saturating_add_usize active queued) render) effects)
           (os_pending_bells s))"

definition control_bytes :: "('s, 'f) output_scheduler \<Rightarrow> nat" where
  "control_bytes s =
     saturating_add_usize
       (sum_list (map (\<lambda>p. length (pb_bytes p)) (os_pending_bytes s)))
       (sum_list (map (\<lambda>t. length (at_bytes t) - at_offset t)
          (filter (\<lambda>t. at_kind t = KindControl) (os_active s))))"

definition retained_effect_bytes :: "('s, 'f) output_scheduler \<Rightarrow> nat" where
  "retained_effect_bytes s =
     sum_list (map (\<lambda>e. event_retained_bytes (te_event e))
       (os_pending_effects s @ os_awaiting_flush_effects s @ concat (map at_completed_effects (os_active s))))"

definition pending_effect_count :: "('s, 'f) output_scheduler \<Rightarrow> nat" where
  "pending_effect_count s =
     length (os_pending_effects s) + length (os_awaiting_flush_effects s) +
     sum_list (map (\<lambda>t. length (at_completed_effects t)) (os_active s))"

definition bundle_view_ids :: "'f accessibility_bundle \<Rightarrow> u64 list" where
  "bundle_view_ids b =
     (case ab_active_view b of None \<Rightarrow> [] | Some v \<Rightarrow> [v]) @ map vf_view_id (ab_frames b)"

definition retained_accessibility_view_ids :: "('s, 'f) output_scheduler \<Rightarrow> u64 list" where
  "retained_accessibility_view_ids s =
     remdups (sort
       ((case os_pending_render s of None \<Rightarrow> [] | Some r \<Rightarrow> bundle_view_ids (pr_accessibility r)) @
        concat (map (\<lambda>r. bundle_view_ids (tr_accessibility r))
          (List.map_filter at_completed_render (os_active s) @ os_awaiting_flush_renders s))))"

definition has_render_work :: "('s, 'f) output_scheduler \<Rightarrow> bool" where
  "has_render_work s \<longleftrightarrow>
     os_pending_render s \<noteq> None \<or> os_awaiting_flush_renders s \<noteq> [] \<or>
     list_ex (\<lambda>t. at_kind t = KindRender) (os_active s)"

definition has_started_render_work :: "('s, 'f) output_scheduler \<Rightarrow> bool" where
  "has_started_render_work s \<longleftrightarrow>
     os_awaiting_flush_renders s \<noteq> [] \<or>
     list_ex (\<lambda>t. at_kind t = KindRender \<and> 0 < at_offset t) (os_active s)"

section \<open>Enqueueing\<close>

definition note_pending :: "nat \<Rightarrow> ('s, 'f) output_scheduler \<Rightarrow> ('s, 'f) output_scheduler" where
  "note_pending now_ms s =
     (case os_pending_since_ms s of None \<Rightarrow> s\<lparr>os_pending_since_ms := Some now_ms\<rparr> | Some _ \<Rightarrow> s)"

definition is_boundary_generation :: "('s, 'f) output_scheduler \<Rightarrow> u64 \<Rightarrow> bool" where
  "is_boundary_generation s g \<longleftrightarrow> Some g = os_release_generation s \<or> Some g = os_bypass_generation s"

definition evict_unstarted :: "('s, 'f) output_scheduler \<Rightarrow> ('s, 'f) output_scheduler" where
  "evict_unstarted s =
     s\<lparr>os_pending_render :=
          (case os_pending_render s of
             Some r \<Rightarrow> if is_boundary_generation s (pr_generation r) then Some r else None
           | None \<Rightarrow> None),
       os_pending_effects := [],
       os_pending_bells := 0,
       os_active :=
          filter (\<lambda>t. 0 < at_offset t \<or> at_kind t = KindControl \<or>
                    (case at_completed_render t of
                       Some r \<Rightarrow> is_boundary_generation s (tr_generation r) | None \<Rightarrow> False))
            (os_active s)\<rparr>"

definition push_pending_bytes ::
  "scheduled_output_class \<Rightarrow> bytes \<Rightarrow> ('s, 'f) output_scheduler \<Rightarrow> ('s, 'f) output_scheduler" where
  "push_pending_bytes cls bs s =
     (let q = os_pending_bytes s in
      if q \<noteq> [] \<and> pb_class (last q) = cls \<and>
         saturating_add_usize (length (pb_bytes (last q))) (length bs) \<le> maximum_pending_bytes (os_config s)
      then s\<lparr>os_pending_bytes := butlast q @ [(last q)\<lparr>pb_bytes := pb_bytes (last q) @ bs\<rparr>]\<rparr>
      else s\<lparr>os_pending_bytes := q @ [\<lparr>pb_class = cls, pb_bytes = bs\<rparr>]\<rparr>)"

definition enqueue_bytes ::
  "scheduled_output_class \<Rightarrow> bytes \<Rightarrow> nat \<Rightarrow> ('s, 'f) output_scheduler \<Rightarrow> ('s, 'f) output_scheduler" where
  "enqueue_bytes cls bs now_ms s =
     (if bs = [] then s
      else if CONTROL_BACKLOG_LIMIT_BYTES < length bs \<or>
              CONTROL_BACKLOG_LIMIT_BYTES < saturating_add_usize (control_bytes s) (length bs) then s
      else if maximum_pending_bytes (os_config s) < saturating_add_usize (sched_pending_bytes s) (length bs) then
        (let s = evict_unstarted s in
         if maximum_pending_bytes (os_config s) < saturating_add_usize (sched_pending_bytes s) (length bs) then s
         else push_pending_bytes cls bs (note_pending now_ms s))
      else push_pending_bytes cls bs (note_pending now_ms s))"

definition prepare_for_lifecycle_cleanup :: "('s, 'f) output_scheduler \<Rightarrow> ('s, 'f) output_scheduler" where
  "prepare_for_lifecycle_cleanup s =
     (let s = s\<lparr>os_pending_bytes := [], os_pending_render := None, os_pending_effects := [],
                os_pending_bells := 0, os_active := filter (\<lambda>t. 0 < at_offset t) (os_active s),
                os_awaiting_flush_renders := [], os_application_synchronization := None,
                os_bypass_next_render := False, os_bypass_generation := None,
                os_release_generation := None\<rparr>
      in if os_active s = [] \<and> os_awaiting_flush_renders s = [] \<and> os_awaiting_flush_effects s = []
         then s\<lparr>os_pending_since_ms := None\<rparr> else s)"

fun reclaim_bells ::
  "('s, 'f) active_transaction list \<Rightarrow> nat \<Rightarrow> ('s, 'f) active_transaction list \<times> nat" where
  "reclaim_bells [] bells = ([], bells)"
| "reclaim_bells (t # ts) bells =
     (if at_kind t = KindBell \<and> at_offset t = 0
      then reclaim_bells ts (saturating_add_usize bells (length (at_bytes t)))
      else (case reclaim_bells ts bells of (ts', b) \<Rightarrow> (t # ts', b)))"

definition unstarted_render_index :: "('s, 'f) output_scheduler \<Rightarrow> nat option" where
  "unstarted_render_index s = position (\<lambda>t. at_kind t = KindRender \<and> at_offset t = 0) (os_active s)"

definition tracks_generation :: "('s, 'f) active_transaction \<Rightarrow> u64 option \<Rightarrow> bool" where
  "tracks_generation t g = (case at_completed_render t of Some r \<Rightarrow> Some (tr_generation r) = g | None \<Rightarrow> False)"

text \<open>Taking the pending render out, and then the unstarted active one.\<close>

definition replace_pending ::
  "('s, 'f) output_scheduler \<Rightarrow> ('s, 'f) output_scheduler \<times> enqueue_outcome \<times> bool \<times> bool" where
  "replace_pending s =
     (case os_pending_render s of
        Some r \<Rightarrow> (s\<lparr>os_pending_render := None\<rparr>, ReplacedObsoleteRender,
                   Some (pr_generation r) = os_release_generation s,
                   Some (pr_generation r) = os_bypass_generation s)
      | None \<Rightarrow> (s, Queued, False, False))"

definition replace_active ::
  "nat \<Rightarrow> ('s, 'f) output_scheduler \<Rightarrow> nat option \<Rightarrow> enqueue_outcome \<times> bool \<times> bool \<Rightarrow>
     ('s, 'f) output_scheduler \<times> enqueue_outcome \<times> bool \<times> bool" where
  "replace_active now_ms s index acc =
     (case index of
        None \<Rightarrow> (s, acc)
      | Some i \<Rightarrow>
          (let t = os_active s ! i;
               (active, bells) =
                 reclaim_bells (take i (os_active s) @ drop (Suc i) (os_active s)) (os_pending_bells s)
           in (s\<lparr>os_active := active, os_pending_bells := bells,
                 os_pending_since_ms := Some (now_ms - latency_budget_ms (os_config s))\<rparr>,
               ReplacedObsoleteRender,
               fst (snd acc) \<or> tracks_generation t (os_release_generation s),
               snd (snd acc) \<or> tracks_generation t (os_bypass_generation s))))"

definition accept_render ::
  "'s render_batch \<Rightarrow> 'f accessibility_bundle \<Rightarrow> nat \<Rightarrow> nat \<Rightarrow> bool \<Rightarrow> ('s, 'f) output_scheduler \<Rightarrow>
     enqueue_outcome \<times> ('s, 'f) output_scheduler" where
  "accept_render batch accessibility now_ms len bypass_requested s =
     (let index = unstarted_render_index s;
          (s, acc) = replace_pending s;
          (s, outcome, replaces_release, replaces_bypass) = replace_active now_ms s index acc;
          generation = os_next_render_generation s
      in (outcome,
          (note_pending now_ms s)
            \<lparr>os_next_render_generation := max (generation + 1) 1,
             os_release_generation := (if replaces_release then Some generation else os_release_generation s),
             os_bypass_generation :=
               (if bypass_requested \<or> replaces_bypass then Some generation else os_bypass_generation s),
             os_pending_render := Some
               \<lparr>pr_batch = batch, pr_byte_len = len, pr_generation = generation,
                pr_accessibility = accessibility\<rparr>\<rparr>))"

definition enqueue_render_with_accessibility ::
  "'s render_batch \<Rightarrow> 'f accessibility_bundle \<Rightarrow> nat \<Rightarrow> ('s, 'f) output_scheduler \<Rightarrow>
     enqueue_outcome \<times> ('s, 'f) output_scheduler" where
  "enqueue_render_with_accessibility batch accessibility now_ms s0 =
     (let bypass_requested = os_bypass_next_render s0;
          s = s0\<lparr>os_bypass_next_render := False\<rparr>
      in case render_batch_byte_len batch (os_synchronized_output_supported s) of
           None \<Rightarrow> (DroppedForCapacity, s)
         | Some len \<Rightarrow>
             (let replaceable_pending = (case os_pending_render s of None \<Rightarrow> 0 | Some r \<Rightarrow> pr_byte_len r);
                  replaceable_active =
                    (case unstarted_render_index s of
                       None \<Rightarrow> 0 | Some i \<Rightarrow> length (at_bytes (os_active s ! i)));
                  retained = sched_pending_bytes s - replaceable_pending - replaceable_active;
                  maximum = maximum_pending_bytes (os_config s)
              in if maximum < len \<or> maximum < saturating_add_usize retained len
                 then (DroppedForCapacity, s)
                 else accept_render batch accessibility now_ms len bypass_requested s))"

definition enqueue_render ::
  "'s render_batch \<Rightarrow> nat \<Rightarrow> ('s, 'f) output_scheduler \<Rightarrow> enqueue_outcome \<times> ('s, 'f) output_scheduler" where
  "enqueue_render batch now_ms s = enqueue_render_with_accessibility batch default_bundle now_ms s"

definition same_state_effect :: "u64 \<Rightarrow> terminal_event_kind \<Rightarrow> terminal_effect \<Rightarrow> bool" where
  "same_state_effect owner k e \<longleftrightarrow> te_owner e = owner \<and> event_kind (te_event e) = k"

definition remove_first :: "('a \<Rightarrow> bool) \<Rightarrow> 'a list \<Rightarrow> 'a list" where
  "remove_first P xs = (case position P xs of None \<Rightarrow> xs | Some i \<Rightarrow> take i xs @ drop (Suc i) xs)"

definition enqueue_terminal_effect ::
  "u64 \<Rightarrow> terminal_event \<Rightarrow> nat \<Rightarrow> ('s, 'f) output_scheduler \<Rightarrow> ('s, 'f) output_scheduler" where
  "enqueue_terminal_effect owner event now_ms s =
     (let maximum = maximum_pending_bytes (os_config s);
          event = bound_terminal_effect event maximum;
          k = event_kind event;
          s = (if k = KTitle \<or> k = KWorkingDirectory
               then s\<lparr>os_pending_effects := filter (\<lambda>e. \<not> same_state_effect owner k e) (os_pending_effects s),
                      os_active := filter (\<lambda>t. at_offset t \<noteq> 0 \<or> at_kind t \<noteq> KindEffect \<or>
                          \<not> list_ex (same_state_effect owner k) (at_completed_effects t)) (os_active s)\<rparr>
               else s);
          retained = event_retained_bytes event;
          s = (if maximum < saturating_add_usize (retained_effect_bytes s) retained
               then s\<lparr>os_pending_effects := remove_first (same_state_effect owner k) (os_pending_effects s)\<rparr>
               else s)
      in if maximum < saturating_add_usize (sched_pending_bytes s) retained then s
         else (let s = note_pending now_ms s in
               s\<lparr>os_pending_effects := os_pending_effects s @ [\<lparr>te_owner = owner, te_event = event\<rparr>]\<rparr>))"

definition set_synchronized_output_supported ::
  "bool \<Rightarrow> ('s, 'f) output_scheduler \<Rightarrow> ('s, 'f) output_scheduler" where
  "set_synchronized_output_supported supported s =
     (let wrapper = saturating_add_usize (length SYNCHRONIZED_OUTPUT_START) (length SYNCHRONIZED_OUTPUT_END) in
      s\<lparr>os_pending_render :=
          (case os_pending_render s of
             Some r \<Rightarrow>
               if supported \<noteq> os_synchronized_output_supported s
               then Some (r\<lparr>pr_byte_len := (if supported then saturating_add_usize (pr_byte_len r) wrapper
                                            else pr_byte_len r - wrapper)\<rparr>)
               else Some r
           | None \<Rightarrow> None),
        os_synchronized_output_supported := supported\<rparr>)"

definition enqueue_bell :: "nat \<Rightarrow> nat \<Rightarrow> ('s, 'f) output_scheduler \<Rightarrow> ('s, 'f) output_scheduler" where
  "enqueue_bell count now_ms s =
     (if count = 0 then s
      else (let retained = min count (maximum_pending_bytes (os_config s) - sched_pending_bytes s) in
            if retained \<noteq> 0
            then (let s = note_pending now_ms s in
                  s\<lparr>os_pending_bells := saturating_add_usize (os_pending_bells s) retained\<rparr>)
            else s))"

definition observe_application_synchronization ::
  "bool \<Rightarrow> bool \<Rightarrow> bool \<Rightarrow> nat \<Rightarrow> ('s, 'f) output_scheduler \<Rightarrow> ('s, 'f) output_scheduler" where
  "observe_application_synchronization synchronized opened activity now_ms s =
     (if synchronized then
        (case os_application_synchronization s of
           Some IgnoringUntilClose \<Rightarrow>
             if opened
             then s\<lparr>os_application_synchronization := Some (SyncActive now_ms now_ms),
                    os_release_generation := None\<rparr>
             else s
         | Some (SyncActive started last_act) \<Rightarrow>
             if activity then s\<lparr>os_application_synchronization := Some (SyncActive started now_ms)\<rparr> else s
         | None \<Rightarrow> s\<lparr>os_application_synchronization := Some (SyncActive now_ms now_ms)\<rparr>)
      else s\<lparr>os_application_synchronization := None, os_bypass_next_render := False,
             os_release_generation := None\<rparr>)"

definition set_application_synchronization ::
  "bool \<Rightarrow> bool \<Rightarrow> nat \<Rightarrow> ('s, 'f) output_scheduler \<Rightarrow> ('s, 'f) output_scheduler" where
  "set_application_synchronization synchronized opened now_ms s =
     observe_application_synchronization synchronized opened True now_ms s"

definition set_application_synchronized ::
  "bool \<Rightarrow> nat \<Rightarrow> ('s, 'f) output_scheduler \<Rightarrow> ('s, 'f) output_scheduler" where
  "set_application_synchronized synchronized now_ms s =
     set_application_synchronization synchronized False now_ms s"

definition set_application_synchronization_bypassed ::
  "bool \<Rightarrow> ('s, 'f) output_scheduler \<Rightarrow> ('s, 'f) output_scheduler" where
  "set_application_synchronization_bypassed bypassed s =
     s\<lparr>os_bypass_next_render := (bypassed \<and> os_application_synchronization s \<noteq> None)\<rparr>"

definition recover :: "('s, 'f) output_scheduler \<Rightarrow> ('s, 'f) output_scheduler" where
  "recover s = s\<lparr>os_needs_reconciliation := False, os_waiting_for_writable := False\<rparr>"

definition notify_writable :: "('s, 'f) output_scheduler \<Rightarrow> ('s, 'f) output_scheduler" where
  "notify_writable s = s\<lparr>os_waiting_for_writable := False\<rparr>"

definition application_synchronization_holds_output :: "('s, 'f) output_scheduler \<Rightarrow> bool" where
  "application_synchronization_holds_output s \<longleftrightarrow>
     (case os_application_synchronization s of Some (SyncActive _ _) \<Rightarrow> True | _ \<Rightarrow> False)"

definition application_synchronization_is_ignored :: "('s, 'f) output_scheduler \<Rightarrow> bool" where
  "application_synchronization_is_ignored s \<longleftrightarrow> os_application_synchronization s = Some IgnoringUntilClose"

definition synchronization_deadline :: "('s, 'f) output_scheduler \<Rightarrow> nat option" where
  "synchronization_deadline s =
     (case os_application_synchronization s of
        Some (SyncActive started last_act) \<Rightarrow>
          Some (min (saturating_add_u128 last_act (synchronization_timeout_ms (os_config s)))
                    (saturating_add_u128 started (synchronization_hard_timeout_ms (os_config s))))
      | _ \<Rightarrow> None)"

definition next_deadline_ms :: "('s, 'f) output_scheduler \<Rightarrow> nat option" where
  "next_deadline_ms s =
     (if os_waiting_for_writable s then None
      else if os_active s = [] \<and> os_pending_bytes s = [] \<and> os_pending_render s = None \<and>
              os_pending_effects s = [] \<and> os_pending_bells s = 0 \<and> \<not> os_flush_required s
      then synchronization_deadline s
      else
        (let hold_blocks = application_synchronization_holds_output s \<and> os_bypass_generation s = None \<and>
               os_active s \<noteq> [] \<and> at_offset (hd (os_active s)) = 0
         in if (os_active s \<noteq> [] \<or> os_flush_required s) \<and> \<not> hold_blocks then Some 0
            else if os_bypass_generation s = None \<and> synchronization_deadline s \<noteq> None
            then synchronization_deadline s
            else (case (map_option (\<lambda>started. saturating_add_u128 started (latency_budget_ms (os_config s)))
                          (os_pending_since_ms s), synchronization_deadline s) of
                    (Some a, Some b) \<Rightarrow> Some (min a b)
                  | (Some a, None) \<Rightarrow> Some a
                  | (None, d) \<Rightarrow> d)))"

section \<open>Draining\<close>

datatype io_error = Interrupted | WouldBlock | WriteZero | OtherError nat

datatype io_response = Accept nat | Fail io_error

datatype wire_event = Wrote bytes | Flushed

record writer =
  wr_script :: "io_response list"
  wr_log :: "wire_event list"

text \<open>One \<^verbatim>\<open>write\<close> call: a successful call accepts at most the bytes it was given.\<close>

definition writer_write :: "bytes \<Rightarrow> writer \<Rightarrow> (nat, io_error) result \<times> writer" where
  "writer_write bs w =
     (case wr_script w of
        [] \<Rightarrow> (Ok (length bs), w\<lparr>wr_log := wr_log w @ [Wrote bs]\<rparr>)
      | Fail e # script \<Rightarrow> (Err e, w\<lparr>wr_script := script\<rparr>)
      | Accept n # script \<Rightarrow>
          (let k = min n (length bs) in
           (Ok k, w\<lparr>wr_script := script, wr_log := wr_log w @ [Wrote (take k bs)]\<rparr>)))"

fun script_flush :: "io_response list \<Rightarrow> (unit, io_error) result \<times> io_response list" where
  "script_flush [] = (Ok (), [])"
| "script_flush (Accept n # script) = (Ok (), script)"
| "script_flush (Fail e # script) = (if e = Interrupted then script_flush script else (Err e, script))"

definition fail :: "('s, 'f) output_scheduler \<Rightarrow> ('s, 'f) output_scheduler" where
  "fail s = s\<lparr>os_active := [], os_awaiting_flush_renders := [], os_awaiting_flush_effects := [],
     os_flush_required := False, os_waiting_for_writable := False, os_pending_bytes := [],
     os_pending_render := None, os_pending_effects := [], os_pending_bells := 0,
     os_pending_since_ms := None, os_application_synchronization := None, os_bypass_next_render := False,
     os_bypass_generation := None, os_release_generation := None, os_needs_reconciliation := True\<rparr>"

fun complete_renders ::
  "('s, 'f) tracked_render list \<Rightarrow> ('s, 'f) output_scheduler \<Rightarrow> ('s, 'f) drain_report \<Rightarrow>
     ('s, 'f) output_scheduler \<times> ('s, 'f) drain_report" where
  "complete_renders [] s report = (s, report)"
| "complete_renders (r # rs) s report =
     (let releases = Some (tr_generation r) = os_release_generation s;
          completes_bypass = Some (tr_generation r) = os_bypass_generation s;
          report = report\<lparr>dr_completed_renders := dr_completed_renders report @
            [\<lparr>cr_predicted = tr_predicted r, cr_geometry = scene_geometry (tr_predicted r),
              cr_accessibility = tr_accessibility r\<rparr>]\<rparr>;
          (s, report) = (if releases
             then (s\<lparr>os_release_generation := None\<rparr>, report\<lparr>dr_synchronization_timed_out := True\<rparr>)
             else (s, report));
          (s, report) = (if completes_bypass
             then (s\<lparr>os_bypass_generation := None\<rparr>, report\<lparr>dr_bypass_completed := Some (tr_generation r)\<rparr>)
             else (s, report))
      in complete_renders rs s report)"

definition complete_awaiting_renders ::
  "('s, 'f) output_scheduler \<Rightarrow> ('s, 'f) drain_report \<Rightarrow> ('s, 'f) output_scheduler \<times> ('s, 'f) drain_report" where
  "complete_awaiting_renders s report =
     (case complete_renders (os_awaiting_flush_renders s) s report of
        (s, report) \<Rightarrow>
          (s\<lparr>os_awaiting_flush_renders := [], os_awaiting_flush_effects := []\<rparr>,
           report\<lparr>dr_completed_effects := dr_completed_effects report @ os_awaiting_flush_effects s\<rparr>))"

text \<open>What a flush or a write loop tells its caller to do.\<close>

datatype progress = Proceed | Blocked | Failed io_error

type_synonym ('s, 'f) drain_state = "('s, 'f) output_scheduler \<times> ('s, 'f) drain_report \<times> writer"

definition flush_writer :: "('s, 'f) drain_state \<Rightarrow> progress \<times> ('s, 'f) drain_state" where
  "flush_writer st =
     (case st of (s, report, w) \<Rightarrow>
      case script_flush (wr_script w) of
        (Ok _, script) \<Rightarrow>
          (case complete_awaiting_renders (s\<lparr>os_flush_required := False\<rparr>) report of
             (s, report) \<Rightarrow> (Proceed, s, report, w\<lparr>wr_script := script, wr_log := wr_log w @ [Flushed]\<rparr>))
      | (Err e, script) \<Rightarrow>
          if e = WouldBlock
          then (Blocked, s\<lparr>os_waiting_for_writable := True\<rparr>, report\<lparr>dr_blocked := True\<rparr>, w\<lparr>wr_script := script\<rparr>)
          else (Failed e, fail s, report, w\<lparr>wr_script := script\<rparr>))"

definition activate_pending :: "('s, 'f) output_scheduler \<Rightarrow> ('s, 'f) output_scheduler" where
  "activate_pending s =
     (if os_active s \<noteq> [] then s
      else s\<lparr>os_active :=
          map (\<lambda>p. \<lparr>at_kind = KindControl, at_bytes = pb_bytes p, at_offset = 0,
                     at_completed_render = None, at_completed_effects = []\<rparr>) (os_pending_bytes s) @
          map (\<lambda>e. \<lparr>at_kind = KindEffect, at_bytes = encode_terminal_effect (te_event e), at_offset = 0,
                     at_completed_render = None, at_completed_effects = [e]\<rparr>) (os_pending_effects s) @
          (case os_pending_render s of
             None \<Rightarrow> []
           | Some r \<Rightarrow>
               [\<lparr>at_kind = KindRender,
                 at_bytes = render_bytes (os_synchronized_output_supported s) (pr_batch r), at_offset = 0,
                 at_completed_render = Some \<lparr>tr_predicted = rb_predicted (pr_batch r),
                   tr_generation = pr_generation r, tr_accessibility = pr_accessibility r\<rparr>,
                 at_completed_effects = []\<rparr>]) @
          (if 0 < os_pending_bells s
           then [\<lparr>at_kind = KindBell, at_bytes = replicate (os_pending_bells s) (CHR 0x07), at_offset = 0,
                  at_completed_render = None, at_completed_effects = []\<rparr>]
           else []),
        os_pending_bytes := [], os_pending_effects := [], os_pending_render := None,
        os_pending_bells := 0, os_pending_since_ms := None\<rparr>)"

text \<open>Popping the transaction at the front, which has no bytes left.\<close>

definition pop_completed :: "('s, 'f) output_scheduler \<Rightarrow> bool \<times> ('s, 'f) output_scheduler" where
  "pop_completed s =
     (let t = hd (os_active s) in
      (tracks_generation t (os_bypass_generation s),
       s\<lparr>os_active := tl (os_active s),
         os_awaiting_flush_renders := os_awaiting_flush_renders s @
           (case at_completed_render t of None \<Rightarrow> [] | Some r \<Rightarrow> [r]),
         os_awaiting_flush_effects := os_awaiting_flush_effects s @ at_completed_effects t\<rparr>))"

definition remaining_total :: "('s, 'f) output_scheduler \<Rightarrow> nat" where
  "remaining_total s = sum_list (map (\<lambda>t. length (at_remaining t)) (os_active s))"

text \<open>
  One iteration of the write loop on a non-empty front transaction: the answer to one
  \<^verbatim>\<open>write\<close> call. \<open>Inl\<close> leaves the loop, \<open>Inr\<close> continues it. The source advances the
  offset and the byte count with \<^verbatim>\<open>saturating_add\<close>; both sums are at most the length of a
  vector in memory, so they are written as plain sums.
\<close>

definition write_once ::
  "nat \<Rightarrow> ('s, 'f) drain_state \<Rightarrow> (progress \<times> ('s, 'f) drain_state) + ('s, 'f) drain_state" where
  "write_once budget st =
     (case st of (s, report, w) \<Rightarrow>
      let t = hd (os_active s);
          bs = take (budget - dr_bytes_written report) (at_remaining t)
      in case writer_write bs w of
           (Ok n, w) \<Rightarrow>
             if n = 0 then Inl (Failed WriteZero, fail s, report, w)
             else Inr (s\<lparr>os_active := t\<lparr>at_offset := at_offset t + n\<rparr> # tl (os_active s),
                         os_flush_required := True\<rparr>,
                       report\<lparr>dr_bytes_written := dr_bytes_written report + n\<rparr>, w)
         | (Err e, w) \<Rightarrow>
             if e = Interrupted then Inr (s, report, w)
             else if e = WouldBlock
             then Inl (Blocked, s\<lparr>os_waiting_for_writable := True\<rparr>, report\<lparr>dr_blocked := True\<rparr>, w)
             else Inl (Failed e, fail s, report, w))"

lemma pop_completed_active: "os_active (snd (pop_completed s)) = tl (os_active s)"
  by (simp add: pop_completed_def Let_def)

lemma write_once_measure:
  assumes "write_once budget (s, report, w) = Inr (s', report', w')"
    and "os_active s \<noteq> []" and "at_remaining (hd (os_active s)) \<noteq> []" and "dr_bytes_written report < budget"
  shows "length (wr_script w') < length (wr_script w) \<or>
    length (wr_script w') = length (wr_script w) \<and>
    remaining_total s' + length (os_active s') < remaining_total s + length (os_active s)"
proof (cases "wr_script w")
  case (Cons x script)
  then show ?thesis
    using assms(1) by (cases x) (auto simp: write_once_def writer_write_def Let_def split: if_splits)
next
  case Nil
  obtain t ts where a: "os_active s = t # ts" using assms(2) by (cases "os_active s") auto
  let ?n = "min (budget - dr_bytes_written report) (length (at_remaining t))"
  have n: "0 < ?n" using assms(3,4) a by simp
  then have s': "os_active s' = t\<lparr>at_offset := at_offset t + ?n\<rparr> # ts" "wr_script w' = []"
    using assms(1) Nil a by (auto simp: write_once_def writer_write_def Let_def min.commute split: if_splits)
  have "length (at_remaining (t\<lparr>at_offset := at_offset t + ?n\<rparr>)) < length (at_remaining t)"
    using n unfolding at_remaining_def by auto
  then show ?thesis using a s' Nil by (simp add: remaining_total_def)
qed

function write_loop ::
  "nat \<Rightarrow> bool \<Rightarrow> ('s, 'f) drain_state \<Rightarrow> progress \<times> bool \<times> ('s, 'f) drain_state" where
  "write_loop budget only (s, report, w) =
     (if \<not> dr_bytes_written report < budget \<or> os_active s = [] \<or> (only \<and> at_offset (hd (os_active s)) = 0)
      then (Proceed, False, s, report, w)
      else if at_remaining (hd (os_active s)) = [] then
        (let (reached, s') = pop_completed s in
         if reached then (Proceed, True, s', report, w) else write_loop budget only (s', report, w))
      else (case write_once budget (s, report, w) of
              Inl (p, st) \<Rightarrow> (p, False, st)
            | Inr st \<Rightarrow> write_loop budget only st))"
  by pat_completeness auto
termination
proof (relation "measures [\<lambda>(budget, only, s, report, w). length (wr_script w),
    \<lambda>(budget, only, s, report, w). remaining_total s + length (os_active s)]", goal_cases)
  case (2 budget only s report w x reached s')
  then have "s' = snd (pop_completed s)" by (metis snd_conv)
  then have "os_active s' = tl (os_active s)" by (simp add: pop_completed_active)
  moreover obtain t ts where "os_active s = t # ts" using 2 by (cases "os_active s") auto
  ultimately show ?case using 2 by (simp add: remaining_total_def)
next
  case (3 budget only s report w st)
  obtain s' report' w' where "st = (s', report', w')" by (cases st) auto
  with 3 write_once_measure [of budget s report w s' report' w'] show ?case by auto
qed simp

declare write_loop.simps [simp del]

text \<open>The second loop records transactions whose last byte landed exactly on the budget.\<close>

function record_completed :: "bool \<Rightarrow> ('s, 'f) output_scheduler \<Rightarrow> ('s, 'f) output_scheduler" where
  "record_completed reached s =
     (if \<not> reached \<and> os_active s \<noteq> [] \<and> at_remaining (hd (os_active s)) = []
      then (case pop_completed s of (reached, s') \<Rightarrow> record_completed reached s')
      else s)"
  by pat_completeness auto
termination
proof (relation "measure (\<lambda>(reached, s). length (os_active s))", goal_cases)
  case (2 reached s reached' s')
  then have "s' = snd (pop_completed s)" by (metis snd_conv)
  then have "length (os_active s') = length (os_active s) - 1" by (simp add: pop_completed_active)
  with 2(1) show ?case by (cases "os_active s") auto
qed simp

declare record_completed.simps [simp del]

text \<open>The application's hold: whether to return at once, and whether to finish a started transaction only.\<close>

definition release_target :: "('s, 'f) output_scheduler \<Rightarrow> u64 option" where
  "release_target s =
     (case os_pending_render s of
        Some r \<Rightarrow> Some (pr_generation r)
      | None \<Rightarrow>
          (case List.map_filter at_completed_render (rev (os_active s)) of
             r # _ \<Rightarrow> Some (tr_generation r)
           | [] \<Rightarrow> (case os_awaiting_flush_renders s of
                      [] \<Rightarrow> None
                    | rs \<Rightarrow> Some (tr_generation (last rs)))))"

datatype hold = HoldReturn | HoldFinishStarted | HoldPass

definition apply_hold ::
  "nat \<Rightarrow> bool \<Rightarrow> ('s, 'f) output_scheduler \<Rightarrow> ('s, 'f) drain_report \<Rightarrow>
     hold \<times> ('s, 'f) output_scheduler \<times> ('s, 'f) drain_report" where
  "apply_hold now_ms force s report =
     (case os_application_synchronization s of
        Some (SyncActive started last_act) \<Rightarrow>
          (let timed_out =
                 saturating_add_u128 last_act (synchronization_timeout_ms (os_config s)) \<le> now_ms \<or>
                 saturating_add_u128 started (synchronization_hard_timeout_ms (os_config s)) \<le> now_ms
           in if \<not> force \<and> \<not> timed_out \<and> os_bypass_generation s = None
              then (if os_active s \<noteq> [] \<and> 0 < at_offset (hd (os_active s))
                    then (HoldFinishStarted, s, report) else (HoldReturn, s, report))
              else if timed_out
              then (HoldPass,
                    s\<lparr>os_application_synchronization := Some IgnoringUntilClose,
                      os_release_generation := release_target s\<rparr>,
                    if release_target s = None then report\<lparr>dr_synchronization_timed_out := True\<rparr> else report)
              else (HoldPass, s, report))
      | _ \<Rightarrow> (HoldPass, s, report))"

type_synonym ('s, 'f) drain_result =
  "(('s, 'f) drain_report, io_error) result \<times> ('s, 'f) output_scheduler \<times> writer"

definition finish_drain :: "('s, 'f) drain_state \<Rightarrow> ('s, 'f) drain_result" where
  "finish_drain st =
     (case st of (s, report, w) \<Rightarrow>
      let (s, report) = (if \<not> os_flush_required s then complete_awaiting_renders s report else (s, report));
          report = report\<lparr>dr_write_budget_exhausted :=
            (os_active s \<noteq> [] \<or> os_pending_bytes s \<noteq> [] \<or> os_pending_render s \<noteq> None \<or>
             os_pending_effects s \<noteq> [] \<or> os_pending_bells s \<noteq> 0)\<rparr>
      in (Ok report, s, w))"

text \<open>A flush whose failure or blocking ends the drain, and what follows it otherwise.\<close>

definition after_flush ::
  "('s, 'f) drain_state \<Rightarrow> (('s, 'f) drain_state \<Rightarrow> ('s, 'f) drain_result) \<Rightarrow> ('s, 'f) drain_result" where
  "after_flush st k =
     (if os_flush_required (fst st) then
        (case flush_writer st of
           (Failed e, s, report, w) \<Rightarrow> (Err e, s, w)
         | (Blocked, s, report, w) \<Rightarrow> (Ok report, s, w)
         | (Proceed, st) \<Rightarrow> k st)
      else k st)"

definition write_phase :: "bool \<Rightarrow> ('s, 'f) drain_state \<Rightarrow> ('s, 'f) drain_result" where
  "write_phase only st =
     (case st of (s, report, w) \<Rightarrow>
      let budget = max (write_budget_bytes (os_config s)) 1 in
      case write_loop budget only (activate_pending s, report, w) of
        (Failed e, _, s, report, w) \<Rightarrow> (Err e, s, w)
      | (Blocked, _, s, report, w) \<Rightarrow> (Ok report, s, w)
      | (Proceed, reached, s, report, w) \<Rightarrow>
          after_flush (record_completed reached s, report, w) finish_drain)"

definition hold_phase :: "nat \<Rightarrow> bool \<Rightarrow> ('s, 'f) drain_state \<Rightarrow> ('s, 'f) drain_result" where
  "hold_phase now_ms force st =
     (case st of (s, report, w) \<Rightarrow>
      case apply_hold now_ms force s report of
        (HoldReturn, s, report) \<Rightarrow> (Ok report, s, w)
      | (h, s, report) \<Rightarrow>
          if \<not> force \<and> os_active s = [] \<and>
             (case os_pending_since_ms s of
                Some started \<Rightarrow> now_ms < saturating_add_u128 started (latency_budget_ms (os_config s))
              | None \<Rightarrow> False)
          then (Ok report, s, w)
          else write_phase (h = HoldFinishStarted) (s, report, w))"

definition drain_ready ::
  "nat \<Rightarrow> bool \<Rightarrow> ('s, 'f) output_scheduler \<Rightarrow> writer \<Rightarrow> ('s, 'f) drain_result" where
  "drain_ready now_ms force s w =
     (if os_needs_reconciliation s \<or> (os_waiting_for_writable s \<and> \<not> force) then (Ok empty_report, s, w)
      else
        (let s = (if force then s\<lparr>os_waiting_for_writable := False\<rparr> else s)
         in after_flush (s, empty_report, w) (hold_phase now_ms force)))"

end
