(* ===== verification/Scheduler_Wire.thy ===== *)
theory Scheduler_Wire
  imports Output_Scheduler
begin

text \<open>
  What a drain of the output scheduler puts on the wire. The locale \<open>drain_invariant\<close> reduces
  a statement about a whole drain to its primitive steps; its interpretation \<open>wire\<close> ties every
  receipt the scheduler hands out to bytes that were written contiguously and flushed.
\<close>

section \<open>Invariants of a drain\<close>

text \<open>
  A drain is composed of few primitive steps: activating the queues, popping a finished
  transaction, accepting written bytes, a successful flush, and changes of flags. Whatever each
  of them keeps, every drain keeps, however the writer behaves. The step for written bytes
  appends them to the log of the writer, the flush appends its mark.
\<close>

locale drain_invariant =
  fixes I :: "('s, 'f) output_scheduler \<Rightarrow> ('s, 'f) drain_report \<Rightarrow> wire_event list \<Rightarrow> bool"
  assumes waiting: "I s r log \<Longrightarrow> I (s\<lparr>os_waiting_for_writable := b\<rparr>) r log"
    and release: "I s r log \<Longrightarrow> I (s\<lparr>os_application_synchronization := Some IgnoringUntilClose,
      os_release_generation := release_target s\<rparr>) r log"
    and report_flags: "I s r log \<Longrightarrow> I s (r\<lparr>dr_blocked := b\<rparr>) log"
      "I s r log \<Longrightarrow> I s (r\<lparr>dr_synchronization_timed_out := b\<rparr>) log"
      "I s r log \<Longrightarrow> I s (r\<lparr>dr_write_budget_exhausted := b\<rparr>) log"
    and activate: "I s r log \<Longrightarrow> I (activate_pending s) r log"
    and pop: "I s r log \<Longrightarrow> os_active s \<noteq> [] \<Longrightarrow> at_remaining (hd (os_active s)) = [] \<Longrightarrow>
      I (snd (pop_completed s)) r log"
    and written: "I s r log \<Longrightarrow> os_active s = t # rest \<Longrightarrow> 0 < n \<Longrightarrow> n \<le> length (at_remaining t) \<Longrightarrow>
      I (s\<lparr>os_active := t\<lparr>at_offset := at_offset t + n\<rparr> # rest, os_flush_required := True\<rparr>)
        (r\<lparr>dr_bytes_written := dr_bytes_written r + n\<rparr>) (log @ [Wrote (take n (at_remaining t))])"
    and flushed: "I s r log \<Longrightarrow> complete_awaiting_renders (s\<lparr>os_flush_required := False\<rparr>) r = (s', r') \<Longrightarrow>
      I s' r' (log @ [Flushed])"
    and completed: "I s r log \<Longrightarrow> \<not> os_flush_required s \<Longrightarrow> complete_awaiting_renders s r = (s', r') \<Longrightarrow>
      I s' r' log"
begin

text \<open>A failure keeps the log, up to the empty write that the writer answers with zero.\<close>

definition failed :: "('s, 'f) output_scheduler \<Rightarrow> wire_event list \<Rightarrow> bool" where
  "failed s log \<longleftrightarrow> (\<exists>s0 r log0. I s0 r log0 \<and> s = fail s0 \<and> (log = log0 \<or> log = log0 @ [Wrote []]))"

lemma failedI: "I s r log \<Longrightarrow> failed (fail s) log" "I s r log \<Longrightarrow> failed (fail s) (log @ [Wrote []])"
  by (auto simp: failed_def)

definition ends_ok :: "('s, 'f) drain_result \<Rightarrow> bool" where
  "ends_ok res = (case res of (Ok r, s, w) \<Rightarrow> I s r (wr_log w) | (Err e, s, w) \<Rightarrow> failed s (wr_log w))"

lemma flush_writer_keeps:
  assumes "I s r (wr_log w)" and "flush_writer (s, r, w) = (p, s', r', w')"
  shows "(\<exists>e. p = Failed e \<and> failed s' (wr_log w')) \<or> (\<forall>e. p \<noteq> Failed e) \<and> I s' r' (wr_log w')"
  using assms flushed [of s r "wr_log w"] waiting [of s r "wr_log w"] report_flags(1) failedI
  by (auto simp: flush_writer_def split: prod.splits result.splits if_splits)

lemma after_flush_keeps:
  assumes "I s r (wr_log w)" and k: "\<And>s r w. I s r (wr_log w) \<Longrightarrow> ends_ok (k (s, r, w))"
  shows "ends_ok (after_flush (s, r, w) k)"
proof (cases "os_flush_required s")
  case True
  obtain p s' r' w' where f: "flush_writer (s, r, w) = (p, s', r', w')" by (metis prod_cases4)
  from flush_writer_keeps [OF assms(1) f] show ?thesis
    using True f k by (cases p) (auto simp: after_flush_def ends_ok_def)
qed (use assms in \<open>simp add: after_flush_def\<close>)

lemma write_once_keeps:
  assumes inv: "I s r (wr_log w)" and ne: "os_active s \<noteq> []"
  shows "case write_once budget (s, r, w) of
      Inl (p, s', r', w') \<Rightarrow> (\<exists>e. p = Failed e \<and> failed s' (wr_log w')) \<or> p = Blocked \<and> I s' r' (wr_log w')
    | Inr (s', r', w') \<Rightarrow> I s' r' (wr_log w')"
proof -
  obtain t rest where a: "os_active s = t # rest" using ne by (cases "os_active s") auto
  define bs where "bs = take (budget - dr_bytes_written r) (at_remaining t)"
  obtain x w' where wr: "writer_write bs w = (x, w')" by fastforce
  show ?thesis
  proof (cases x)
    case (Err e)
    then have "wr_log w' = wr_log w"
      using wr by (auto simp: writer_write_def Let_def split: list.splits io_response.splits)
    then show ?thesis
      using Err wr inv waiting report_flags(1) failedI by (auto simp: write_once_def a bs_def [symmetric] Let_def)
  next
    case (Ok n)
    then have n: "n \<le> length bs" "wr_log w' = wr_log w @ [Wrote (take n bs)]"
      using wr by (auto simp: writer_write_def Let_def min_def split: list.splits io_response.splits if_splits)
    then have "n \<le> length (at_remaining t)" "take n bs = take n (at_remaining t)" by (simp_all add: bs_def)
    with n Ok wr written [OF inv a, of n] failedI [OF inv] show ?thesis
      by (auto simp: write_once_def a bs_def [symmetric] Let_def)
  qed
qed

lemma write_loop_keeps:
  "I s r (wr_log w) \<Longrightarrow> write_loop budget only (s, r, w) = (p, reached, s', r', w') \<Longrightarrow>
   (\<exists>e. p = Failed e \<and> failed s' (wr_log w')) \<or> (\<forall>e. p \<noteq> Failed e) \<and> I s' r' (wr_log w')"
proof (induction budget only "(s, r, w)" arbitrary: s r w rule: write_loop.induct)
  case (1 budget only s r w)
  let ?stop = "\<not> dr_bytes_written r < budget \<or> os_active s = [] \<or> (only \<and> at_offset (hd (os_active s)) = 0)"
  note eq = write_loop.simps [of budget only s r w]
  consider ?stop | "\<not> ?stop" "at_remaining (hd (os_active s)) = []" | "\<not> ?stop" "at_remaining (hd (os_active s)) \<noteq> []"
    by blast
  then show ?case
  proof cases
    case 1
    with "1.prems" show ?thesis by (auto simp: eq)
  next
    case 2
    obtain b s1 where b: "pop_completed s = (b, s1)" by fastforce
    have inv1: "I s1 r (wr_log w)" using pop [OF "1.prems"(1)] 2 b by (metis snd_conv)
    show ?thesis
    proof (cases b)
      case True
      with 2 b inv1 "1.prems" show ?thesis by (auto simp: eq)
    next
      case False
      then have "write_loop budget only (s1, r, w) = (p, reached, s', r', w')"
        using 2 b "1.prems"(2) by (auto simp: eq)
      with "1.hyps"(1) [OF 2 b [symmetric] refl False inv1] show ?thesis by blast
    qed
  next
    case 3
    have once: "case write_once budget (s, r, w) of
      Inl (p, s', r', w') \<Rightarrow> (\<exists>e. p = Failed e \<and> failed s' (wr_log w')) \<or> p = Blocked \<and> I s' r' (wr_log w')
      | Inr (s', r', w') \<Rightarrow> I s' r' (wr_log w')"
      using write_once_keeps [OF "1.prems"(1)] 3 by blast
    show ?thesis
    proof (cases "write_once budget (s, r, w)")
      case (Inl q)
      with 3 once "1.prems"(2) show ?thesis by (auto simp: eq)
    next
      case (Inr st)
      obtain s1 r1 w1 where st: "st = (s1, r1, w1)" by (cases st) auto
      have "write_loop budget only (s1, r1, w1) = (p, reached, s', r', w')"
        using Inr st 3 "1.prems"(2) by (auto simp: eq)
      with "1.hyps"(2) [OF 3 Inr [unfolded st]] once Inr st show ?thesis by auto
    qed
  qed
qed

lemma record_completed_keeps: "I s r log \<Longrightarrow> I (record_completed reached s) r log"
proof (induction reached s rule: record_completed.induct)
  case (1 reached s)
  show ?case
  proof (cases "\<not> reached \<and> os_active s \<noteq> [] \<and> at_remaining (hd (os_active s)) = []")
    case True
    obtain b s1 where b: "pop_completed s = (b, s1)" by fastforce
    have "I s1 r log" using pop [OF "1.prems"] True b by (metis snd_conv)
    with 1(1) [OF True b [symmetric]] have "I (record_completed b s1) r log" by blast
    moreover have "record_completed reached s = record_completed b s1"
      using True b by (subst record_completed.simps) simp
    ultimately show ?thesis by simp
  next
    case False
    then have "record_completed reached s = s" by (subst record_completed.simps) auto
    then show ?thesis using "1.prems" by simp
  qed
qed

lemma finish_drain_keeps: "I s r (wr_log w) \<Longrightarrow> ends_ok (finish_drain (s, r, w))"
  using completed [of s r "wr_log w"] report_flags(3)
  by (auto simp: finish_drain_def ends_ok_def Let_def split: prod.splits)

lemma write_phase_keeps:
  assumes "I s r (wr_log w)"
  shows "ends_ok (write_phase only (s, r, w))"
proof -
  let ?b = "max (write_budget_bytes (os_config s)) 1"
  obtain p reached s' r' w' where l:
    "write_loop ?b only (activate_pending s, r, w) = (p, reached, s', r', w')"
    by (metis prod_cases5)
  note post = write_loop_keeps [OF activate [OF assms] l]
  show ?thesis
  proof (cases p)
    case Proceed
    with post have "I (record_completed reached s') r' (wr_log w')"
      using record_completed_keeps by auto
    then have "ends_ok (after_flush (record_completed reached s', r', w') finish_drain)"
      by (rule after_flush_keeps) (rule finish_drain_keeps)
    then show ?thesis using Proceed l by (simp add: write_phase_def Let_def)
  qed (use l post in \<open>auto simp: write_phase_def Let_def ends_ok_def\<close>)
qed

lemma hold_phase_keeps:
  assumes "I s r (wr_log w)"
  shows "ends_ok (hold_phase now force (s, r, w))"
proof -
  obtain h s' r' where a: "apply_hold now force s r = (h, s', r')" by (metis prod_cases3)
  then have inv: "I s' r' (wr_log w)"
    using assms release [of s r] report_flags(2)
    by (auto simp: apply_hold_def Let_def split: option.splits application_synchronization.splits if_splits)
  then have "ends_ok (Ok r', s', w)" by (simp add: ends_ok_def)
  with inv show ?thesis using a write_phase_keeps by (cases h) (simp_all add: hold_phase_def)
qed

theorem drain_keeps:
  assumes "I s empty_report (wr_log w)"
  shows "ends_ok (drain_ready now force s w)"
proof -
  have "I (if force then s\<lparr>os_waiting_for_writable := False\<rparr> else s) empty_report (wr_log w)"
    using assms waiting by simp
  then have "ends_ok (after_flush (if force then s\<lparr>os_waiting_for_writable := False\<rparr> else s, empty_report, w)
      (hold_phase now force))"
    by (rule after_flush_keeps) (rule hold_phase_keeps)
  then show ?thesis using assms by (simp add: drain_ready_def Let_def ends_ok_def)
qed

lemma drain_Ok:
  "I s empty_report (wr_log w) \<Longrightarrow> drain_ready now force s w = (Ok r, s', w') \<Longrightarrow> I s' r (wr_log w')"
  using drain_keeps [of s w now force] by (simp add: ends_ok_def)

lemma drain_Err:
  "I s empty_report (wr_log w) \<Longrightarrow> drain_ready now force s w = (Err e, s', w') \<Longrightarrow>
     \<exists>s0 r log. I s0 r log \<and> s' = fail s0 \<and> (wr_log w' = log \<or> wr_log w' = log @ [Wrote []])"
  using drain_keeps [of s w now force] by (simp add: ends_ok_def failed_def)

end

section \<open>What reaches the wire\<close>

definition wire_step :: "bytes \<times> bytes \<Rightarrow> wire_event \<Rightarrow> bytes \<times> bytes" where
  "wire_step fw e = (case e of Wrote bs \<Rightarrow> (fst fw, snd fw @ bs) | Flushed \<Rightarrow> (snd fw, snd fw))"

definition wire_state :: "wire_event list \<Rightarrow> bytes \<times> bytes" where
  "wire_state log = foldl wire_step ([], []) log"

definition wire_bytes :: "wire_event list \<Rightarrow> bytes" where
  "wire_bytes log = snd (wire_state log)"

text \<open>The bytes written before the last flush.\<close>

definition flushed_bytes :: "wire_event list \<Rightarrow> bytes" where
  "flushed_bytes log = fst (wire_state log)"

lemma wire_simps [simp]:
  "wire_bytes [] = []" "flushed_bytes [] = []"
  "wire_bytes (log @ [Wrote bs]) = wire_bytes log @ bs" "flushed_bytes (log @ [Wrote bs]) = flushed_bytes log"
  "wire_bytes (log @ [Flushed]) = wire_bytes log" "flushed_bytes (log @ [Flushed]) = wire_bytes log"
  by (simp_all add: wire_bytes_def flushed_bytes_def wire_state_def wire_step_def)

text \<open>
  \<open>Q\<close> holds the renders that were enqueued, with their accessibility bundles. A tracked render
  comes from one of them, and its bytes are that batch's.
\<close>

type_synonym ('s, 'f) render_request = "'s render_batch \<times> 'f accessibility_bundle"

definition render_source ::
  "('s, 'f) render_request set \<Rightarrow> 's presented_scene \<Rightarrow> 'f accessibility_bundle \<Rightarrow> bytes \<Rightarrow> bool" where
  "render_source Q predicted acc bs \<longleftrightarrow>
     (\<exists>batch supported. (batch, acc) \<in> Q \<and> predicted = rb_predicted batch \<and> bs = render_bytes supported batch)"

definition transaction_ok :: "('s, 'f) render_request set \<Rightarrow> ('s, 'f) active_transaction \<Rightarrow> bool" where
  "transaction_ok Q t \<longleftrightarrow>
     at_offset t \<le> length (at_bytes t) \<and>
     (\<forall>r. at_completed_render t = Some r \<longrightarrow> render_source Q (tr_predicted r) (tr_accessibility r) (at_bytes t)) \<and>
     (\<forall>e \<in> set (at_completed_effects t). at_bytes t = encode_terminal_effect (te_event e))"

definition render_on_wire :: "('s, 'f) render_request set \<Rightarrow> bytes \<Rightarrow> 's presented_scene \<Rightarrow> 'f accessibility_bundle \<Rightarrow> bool" where
  "render_on_wire Q wire predicted acc \<longleftrightarrow> (\<exists>bs. render_source Q predicted acc bs \<and> sublist bs wire)"

definition effect_on_wire :: "bytes \<Rightarrow> terminal_effect \<Rightarrow> bool" where
  "effect_on_wire wire e \<longleftrightarrow> sublist (encode_terminal_effect (te_event e)) wire"

definition active_ok :: "('s, 'f) render_request set \<Rightarrow> bytes \<Rightarrow> ('s, 'f) active_transaction list \<Rightarrow> bool" where
  "active_ok Q wire ts \<longleftrightarrow>
     list_all (transaction_ok Q) ts \<and>
     (case ts of [] \<Rightarrow> True
      | t # rest \<Rightarrow> suffix (take (at_offset t) (at_bytes t)) wire \<and> list_all (\<lambda>u. at_offset u = 0) rest)"

definition wire_inv ::
  "('s, 'f) render_request set \<Rightarrow> ('s, 'f) output_scheduler \<Rightarrow> wire_event list \<Rightarrow> bool" where
  "wire_inv Q s log \<longleftrightarrow>
     active_ok Q (wire_bytes log) (os_active s) \<and>
     (\<forall>r. os_pending_render s = Some r \<longrightarrow> (pr_batch r, pr_accessibility r) \<in> Q) \<and>
     (\<forall>r \<in> set (os_awaiting_flush_renders s).
        render_on_wire Q (wire_bytes log) (tr_predicted r) (tr_accessibility r)) \<and>
     (\<forall>e \<in> set (os_awaiting_flush_effects s). effect_on_wire (wire_bytes log) e) \<and>
     (\<not> os_flush_required s \<longrightarrow> flushed_bytes log = wire_bytes log) \<and>
     prefix (flushed_bytes log) (wire_bytes log)"

definition report_ok ::
  "('s, 'f) render_request set \<Rightarrow> ('s, 'f) drain_report \<Rightarrow> wire_event list \<Rightarrow> bool" where
  "report_ok Q report log \<longleftrightarrow>
     (\<forall>c \<in> set (dr_completed_renders report).
        render_on_wire Q (flushed_bytes log) (cr_predicted c) (cr_accessibility c) \<and>
        cr_geometry c = scene_geometry (cr_predicted c)) \<and>
     (\<forall>e \<in> set (dr_completed_effects report). effect_on_wire (flushed_bytes log) e)"

subsection \<open>Growing the wire\<close>

lemma sublist_append_right: "sublist xs ys \<Longrightarrow> sublist xs (ys @ zs)"
  by (rule sublist_appendI [THEN [2] sublist_order.order_trans, of _ _ "[]", simplified]) 

lemma render_on_wire_mono: "render_on_wire Q a p c \<Longrightarrow> prefix a b \<Longrightarrow> render_on_wire Q b p c"
  unfolding render_on_wire_def by (meson prefix_imp_sublist sublist_order.order_trans)

lemma effect_on_wire_mono: "effect_on_wire a e \<Longrightarrow> prefix a b \<Longrightarrow> effect_on_wire b e"
  unfolding effect_on_wire_def by (meson prefix_imp_sublist sublist_order.order_trans)

lemma report_ok_mono:
  "report_ok Q report log \<Longrightarrow> prefix (flushed_bytes log) (flushed_bytes log') \<Longrightarrow> report_ok Q report log'"
  unfolding report_ok_def using render_on_wire_mono effect_on_wire_mono by blast

lemma render_source_mono: "render_source Q p c bs \<Longrightarrow> Q \<subseteq> Q' \<Longrightarrow> render_source Q' p c bs"
  by (auto simp: render_source_def)

lemma transaction_ok_mono: "transaction_ok Q t \<Longrightarrow> Q \<subseteq> Q' \<Longrightarrow> transaction_ok Q' t"
  by (auto simp: transaction_ok_def render_source_mono)

lemma wire_inv_mono: "wire_inv Q s log \<Longrightarrow> Q \<subseteq> Q' \<Longrightarrow> wire_inv Q' s log"
  unfolding wire_inv_def active_ok_def render_on_wire_def
  by (auto simp: list_all_iff transaction_ok_mono split: list.splits dest: render_source_mono) (meson render_source_mono)+

text \<open>Dropping unstarted transactions keeps the queue in order.\<close>

lemma active_ok_unstarted:
  "list_all (transaction_ok Q) ts \<Longrightarrow> list_all (\<lambda>t. at_offset t = 0) ts \<Longrightarrow> active_ok Q wire ts"
  by (cases ts) (simp_all add: active_ok_def)

lemma active_ok_subseq:
  assumes ok: "active_ok Q wire ts" and sub: "subseq ts' ts"
    and keeps: "ts \<noteq> [] \<Longrightarrow> 0 < at_offset (hd ts) \<Longrightarrow> ts' \<noteq> [] \<and> hd ts' = hd ts \<and> subseq (tl ts') (tl ts)"
  shows "active_ok Q wire ts'"
proof (cases "ts \<noteq> [] \<and> 0 < at_offset (hd ts)")
  case True
  then obtain t rest rest' where "ts = t # rest" "ts' = t # rest'" "subseq rest' rest"
    using keeps by (cases ts; cases ts') auto
  then show ?thesis
    using ok by (auto simp: active_ok_def list_all_iff dest: list_emb_set)
next
  case False
  with ok have "list_all (\<lambda>t. at_offset t = 0) ts" by (cases ts) (auto simp: active_ok_def)
  moreover have "set ts' \<subseteq> set ts" using sub by (auto dest: list_emb_set)
  ultimately show ?thesis
    using ok by (intro active_ok_unstarted) (auto simp: list_all_iff active_ok_def)
qed

lemma active_ok_filter:
  assumes "active_ok Q wire ts" and "\<And>t. 0 < at_offset t \<Longrightarrow> P t"
  shows "active_ok Q wire (filter P ts)"
proof (rule active_ok_subseq [OF assms(1)])
  show "subseq (filter P ts) ts" by simp
  show "ts \<noteq> [] \<Longrightarrow> 0 < at_offset (hd ts) \<Longrightarrow>
      filter P ts \<noteq> [] \<and> hd (filter P ts) = hd ts \<and> subseq (tl (filter P ts)) (tl ts)"
    using assms(2) by (cases ts) auto
qed

lemma reclaim_bells_filter:
  "fst (reclaim_bells ts b) = filter (\<lambda>t. \<not> (at_kind t = KindBell \<and> at_offset t = 0)) ts"
  by (induction ts b rule: reclaim_bells.induct) (auto split: prod.splits)

lemma active_ok_remove:
  assumes "active_ok Q wire ts" and "i < length ts" and "at_offset (ts ! i) = 0"
  shows "active_ok Q wire (take i ts @ drop (Suc i) ts)"
proof (rule active_ok_subseq [OF assms(1)])
  have e: "ts = take i ts @ ts ! i # drop (Suc i) ts" using assms(2) by (simp add: id_take_nth_drop)
  show "subseq (take i ts @ drop (Suc i) ts) ts"
    by (subst (3) e, rule list_emb_append_mono) (simp_all add: subseq_order.order_refl list_emb_Cons)
  show "ts \<noteq> [] \<Longrightarrow> 0 < at_offset (hd ts) \<Longrightarrow> take i ts @ drop (Suc i) ts \<noteq> [] \<and>
      hd (take i ts @ drop (Suc i) ts) = hd ts \<and> subseq (tl (take i ts @ drop (Suc i) ts)) (tl ts)"
  proof -
    assume "ts \<noteq> []" "0 < at_offset (hd ts)"
    then obtain t rest j where t: "ts = t # rest" "i = Suc j"
      using assms(3) by (cases ts; cases i) auto
    then have "rest = take j rest @ rest ! j # drop (Suc j) rest" using assms(2) by (simp add: id_take_nth_drop)
    then have "subseq (take j rest @ drop (Suc j) rest) rest"
      by (metis list_emb_append_mono subseq_Cons' subseq_order.order_refl)
    with t show ?thesis by simp
  qed
qed

subsection \<open>Enqueueing keeps the wire invariant\<close>

lemmas wire_inv_defs = wire_inv_def note_pending_def

lemma enqueue_bytes_wire:
  assumes "wire_inv Q s log"
  shows "wire_inv Q (enqueue_bytes cls bs now s) log"
proof -
  have push: "wire_inv Q (push_pending_bytes cls bs (note_pending now s)) log" if "wire_inv Q s log" for s
    using that by (auto simp: wire_inv_defs push_pending_bytes_def Let_def split: option.splits)
  have evict: "wire_inv Q (evict_unstarted s) log"
    using assms by (auto simp: wire_inv_def evict_unstarted_def active_ok_filter split: option.splits if_splits)
  show ?thesis
    unfolding enqueue_bytes_def Let_def using assms push evict by simp
qed

lemma cleanup_wire: "wire_inv Q s log \<Longrightarrow> wire_inv Q (prepare_for_lifecycle_cleanup s) log"
  using active_ok_filter [of Q "wire_bytes log" "os_active s" "\<lambda>t. 0 < at_offset t"]
  by (auto simp: wire_inv_def prepare_for_lifecycle_cleanup_def Let_def active_ok_def)

lemma enqueue_bell_wire: "wire_inv Q s log \<Longrightarrow> wire_inv Q (enqueue_bell n now s) log"
  by (auto simp: wire_inv_defs enqueue_bell_def Let_def split: option.splits)

lemma enqueue_effect_wire: "wire_inv Q s log \<Longrightarrow> wire_inv Q (enqueue_terminal_effect o' e now s) log"
proof -
  assume inv: "wire_inv Q s log"
  define k where "k = event_kind (bound_terminal_effect e (maximum_pending_bytes (os_config s)))"
  define s1 where "s1 = (if k = KTitle \<or> k = KWorkingDirectory
               then s\<lparr>os_pending_effects := filter (\<lambda>e. \<not> same_state_effect o' k e) (os_pending_effects s),
                      os_active := filter (\<lambda>t. at_offset t \<noteq> 0 \<or> at_kind t \<noteq> KindEffect \<or>
                          \<not> list_ex (same_state_effect o' k) (at_completed_effects t)) (os_active s)\<rparr>
               else s)"
  have "wire_inv Q s1 log" using inv by (simp add: wire_inv_def s1_def active_ok_filter)
  then show ?thesis
    unfolding enqueue_terminal_effect_def Let_def k_def [symmetric] s1_def [symmetric]
    by (auto simp: wire_inv_defs split: option.splits)
qed

lemma set_supported_wire: "wire_inv Q s log \<Longrightarrow> wire_inv Q (set_synchronized_output_supported b s) log"
  by (auto simp: wire_inv_def set_synchronized_output_supported_def Let_def split: option.splits)

lemma observe_wire: "wire_inv Q s log \<Longrightarrow> wire_inv Q (observe_application_synchronization a b c now s) log"
  by (auto simp: wire_inv_def observe_application_synchronization_def
      split: option.splits application_synchronization.splits)

lemma position_offset:
  "unstarted_render_index s = Some i \<Longrightarrow> i < length (os_active s) \<and> at_offset (os_active s ! i) = 0"
  by (auto simp: unstarted_render_index_def position_Some)

lemma replace_active_ok:
  assumes ok: "active_ok Q wire (os_active s)" and i: "i = unstarted_render_index s"
  shows "active_ok Q wire (os_active (fst (replace_active now s i acc)))"
proof (cases i)
  case None
  with ok show ?thesis by (simp add: replace_active_def)
next
  case (Some j)
  then have "j < length (os_active s)" "at_offset (os_active s ! j) = 0" using i position_offset by metis+
  from active_ok_filter [OF active_ok_remove [OF ok this], of "\<lambda>t. \<not> (at_kind t = KindBell \<and> at_offset t = 0)"]
  show ?thesis
    using Some by (simp add: replace_active_def Let_def case_prod_beta reclaim_bells_filter)
qed

lemma replace_active_fields:
  "os_pending_render (fst (replace_active now s i acc)) = os_pending_render s"
  "os_awaiting_flush_renders (fst (replace_active now s i acc)) = os_awaiting_flush_renders s"
  "os_awaiting_flush_effects (fst (replace_active now s i acc)) = os_awaiting_flush_effects s"
  "os_flush_required (fst (replace_active now s i acc)) = os_flush_required s"
  by (auto simp: replace_active_def Let_def case_prod_beta split: option.splits)

lemma accept_render_wire:
  assumes inv: "wire_inv Q s log" and new: "(batch, acc) \<in> Q"
  shows "wire_inv Q (snd (accept_render batch acc now len req s)) log"
proof -
  define s1 where "s1 = fst (replace_pending s)"
  have s1: "wire_inv Q s1 log" "unstarted_render_index s1 = unstarted_render_index s"
    using inv by (auto simp: s1_def replace_pending_def wire_inv_def unstarted_render_index_def split: option.splits)
  define s2 where "s2 = fst (replace_active now s1 (unstarted_render_index s) (snd (replace_pending s)))"
  have "wire_inv Q s2 log"
    using s1 replace_active_ok [of Q "wire_bytes log" s1 "unstarted_render_index s"]
    by (simp add: wire_inv_def s2_def replace_active_fields)
  then have "wire_inv Q (note_pending now s2) log" by (auto simp: wire_inv_defs split: option.splits)
  then show ?thesis
    using new by (simp add: accept_render_def Let_def case_prod_beta s1_def [symmetric] s2_def [symmetric] wire_inv_def)
qed

lemma enqueue_render_wire:
  assumes inv: "wire_inv Q s log"
  shows "wire_inv (insert (batch, acc) Q) (snd (enqueue_render_with_accessibility batch acc now s)) log"
proof -
  have "wire_inv (insert (batch, acc) Q) (s\<lparr>os_bypass_next_render := False\<rparr>) log"
    using wire_inv_mono [OF inv, of "insert (batch, acc) Q"] by (auto simp: wire_inv_def)
  then show ?thesis
    using accept_render_wire [of "insert (batch, acc) Q" "s\<lparr>os_bypass_next_render := False\<rparr>" log batch acc]
    by (auto simp: enqueue_render_with_accessibility_def Let_def split: option.splits)
qed

subsection \<open>Draining keeps the wire invariant\<close>

lemma complete_renders_spec:
  "complete_renders rs s report = (s', report') \<Longrightarrow>
     s' = s\<lparr>os_release_generation := os_release_generation s', os_bypass_generation := os_bypass_generation s'\<rparr> \<and>
     dr_completed_renders report' = dr_completed_renders report @
       map (\<lambda>r. \<lparr>cr_predicted = tr_predicted r, cr_geometry = scene_geometry (tr_predicted r),
              cr_accessibility = tr_accessibility r\<rparr>) rs \<and>
     dr_completed_effects report' = dr_completed_effects report \<and>
     dr_bytes_written report' = dr_bytes_written report \<and> dr_blocked report' = dr_blocked report"
proof (induction rs arbitrary: s report)
  case Nil
  then show ?case by simp
next
  case (Cons r rs)
  then obtain s1 report1 where c: "complete_renders rs s1 report1 = (s', report')"
      "\<And>x y. s1\<lparr>os_release_generation := x, os_bypass_generation := y\<rparr> =
         s\<lparr>os_release_generation := x, os_bypass_generation := y\<rparr>"
      "dr_completed_renders report1 = dr_completed_renders report @
         [\<lparr>cr_predicted = tr_predicted r, cr_geometry = scene_geometry (tr_predicted r),
           cr_accessibility = tr_accessibility r\<rparr>]"
      "dr_completed_effects report1 = dr_completed_effects report"
      "dr_bytes_written report1 = dr_bytes_written report" "dr_blocked report1 = dr_blocked report"
    by (auto simp: Let_def split: if_splits)
  from Cons.IH [OF c(1)] have
    "s' = s\<lparr>os_release_generation := os_release_generation s', os_bypass_generation := os_bypass_generation s'\<rparr>"
    unfolding c(2) by blast
  moreover note Cons.IH [OF c(1)]
  ultimately show ?case using c(3-) by simp
qed

lemma complete_awaiting_spec:
  assumes "complete_awaiting_renders s report = (s', report')"
  shows "s' = s\<lparr>os_awaiting_flush_renders := [], os_awaiting_flush_effects := [],
      os_release_generation := os_release_generation s', os_bypass_generation := os_bypass_generation s'\<rparr>"
    and "dr_completed_renders report' = dr_completed_renders report @
       map (\<lambda>r. \<lparr>cr_predicted = tr_predicted r, cr_geometry = scene_geometry (tr_predicted r),
              cr_accessibility = tr_accessibility r\<rparr>) (os_awaiting_flush_renders s)"
    and "dr_completed_effects report' = dr_completed_effects report @ os_awaiting_flush_effects s"
    and "dr_bytes_written report' = dr_bytes_written report"
proof -
  obtain s1 report1 where c: "complete_renders (os_awaiting_flush_renders s) s report = (s1, report1)"
    by fastforce
  note spec = complete_renders_spec [OF c]
  have s1: "s1 = s\<lparr>os_release_generation := os_release_generation s1, os_bypass_generation := os_bypass_generation s1\<rparr>"
    using spec by blast
  have e: "s' = s1\<lparr>os_awaiting_flush_renders := [], os_awaiting_flush_effects := []\<rparr>"
      "report' = report1\<lparr>dr_completed_effects := dr_completed_effects report1 @ os_awaiting_flush_effects s1\<rparr>"
    using assms c by (auto simp: complete_awaiting_renders_def)
  show "s' = s\<lparr>os_awaiting_flush_renders := [], os_awaiting_flush_effects := [],
      os_release_generation := os_release_generation s', os_bypass_generation := os_bypass_generation s'\<rparr>"
    unfolding e(1) by (subst s1) simp
  have "os_awaiting_flush_effects s1 = os_awaiting_flush_effects s" by (subst s1) simp
  with spec show "dr_completed_renders report' = dr_completed_renders report @
       map (\<lambda>r. \<lparr>cr_predicted = tr_predicted r, cr_geometry = scene_geometry (tr_predicted r),
              cr_accessibility = tr_accessibility r\<rparr>) (os_awaiting_flush_renders s)"
    and "dr_completed_effects report' = dr_completed_effects report @ os_awaiting_flush_effects s"
    and "dr_bytes_written report' = dr_bytes_written report"
    by (simp_all add: e(2))
qed

lemma complete_awaiting_fields:
  assumes "complete_awaiting_renders s report = (s', report')"
  shows "os_flush_required s' = os_flush_required s" "os_active s' = os_active s"
    "os_awaiting_flush_renders s' = []" "os_awaiting_flush_effects s' = []"
    "os_pending_bytes s' = os_pending_bytes s" "os_pending_render s' = os_pending_render s"
    "os_pending_effects s' = os_pending_effects s" "os_pending_bells s' = os_pending_bells s"
    "os_config s' = os_config s" "os_synchronized_output_supported s' = os_synchronized_output_supported s"
    "os_needs_reconciliation s' = os_needs_reconciliation s"
    "os_application_synchronization s' = os_application_synchronization s"
  by (subst complete_awaiting_spec(1) [OF assms], simp)+

lemma complete_awaiting_wire:
  assumes inv: "wire_inv Q s log" and rep: "report_ok Q report log" and fl: "flushed_bytes log = wire_bytes log"
    and c: "complete_awaiting_renders s report = (s', report')"
  shows "wire_inv Q s' log \<and> report_ok Q report' log"
proof
  show "wire_inv Q s' log"
    by (subst complete_awaiting_spec(1) [OF c]) (use inv in \<open>simp add: wire_inv_def\<close>)
  show "report_ok Q report' log"
    using inv rep fl by (auto simp: report_ok_def wire_inv_def complete_awaiting_spec [OF c])
qed

lemma fail_wire: "wire_inv Q (fail s) []"
  by (simp add: wire_inv_def fail_def active_ok_def)

lemma activate_wire:
  assumes inv: "wire_inv Q s log"
  shows "wire_inv Q (activate_pending s) log"
proof (cases "os_active s = []")
  case True
  have src: "render_source Q (rb_predicted (pr_batch r)) (pr_accessibility r) (render_bytes b (pr_batch r))"
    if "os_pending_render s = Some r" for r b
    using inv that by (auto simp: wire_inv_def render_source_def)
  have "active_ok Q (wire_bytes log) (os_active (activate_pending s))"
    by (rule active_ok_unstarted)
      (use True src in \<open>auto simp: activate_pending_def list_all_iff transaction_ok_def split: option.splits\<close>)
  then show ?thesis using inv True by (simp add: wire_inv_def activate_pending_def)
qed (use inv in \<open>simp add: activate_pending_def\<close>)

lemma pop_completed_wire:
  assumes inv: "wire_inv Q s log" and ne: "os_active s \<noteq> []" and fin: "at_remaining (hd (os_active s)) = []"
  shows "wire_inv Q (snd (pop_completed s)) log"
proof -
  obtain t rest where a: "os_active s = t # rest" using ne by (cases "os_active s") auto
  have t: "transaction_ok Q t" "suffix (take (at_offset t) (at_bytes t)) (wire_bytes log)"
    "list_all (transaction_ok Q) rest" "list_all (\<lambda>u. at_offset u = 0) rest"
    using inv a by (auto simp: wire_inv_def active_ok_def)
  have rest: "active_ok Q (wire_bytes log) rest" by (rule active_ok_unstarted [OF t(3,4)])
  have "take (at_offset t) (at_bytes t) = at_bytes t" using fin a by (simp add: at_remaining_def)
  with t(2) have on: "sublist (at_bytes t) (wire_bytes log)" using suffix_imp_sublist by metis
  have r: "render_on_wire Q (wire_bytes log) (tr_predicted r) (tr_accessibility r)"
    if "at_completed_render t = Some r" for r
    using t(1) on that by (auto simp: transaction_ok_def render_on_wire_def)
  have e: "effect_on_wire (wire_bytes log) e" if "e \<in> set (at_completed_effects t)" for e
    using t(1) on that by (simp add: transaction_ok_def effect_on_wire_def)
  show ?thesis
    using inv rest r e
    by (auto simp: pop_completed_def Let_def a wire_inv_def split: option.splits)
qed

lemma suffix_extend: "suffix xs wire \<Longrightarrow> suffix (xs @ ys) (wire @ ys)"
  by (auto simp: suffix_def)

lemma written_wire:
  assumes inv: "wire_inv Q s log" and a: "os_active s = t # rest" and n: "n \<le> length (at_remaining t)"
  shows "wire_inv Q (s\<lparr>os_active := t\<lparr>at_offset := at_offset t + n\<rparr> # rest, os_flush_required := True\<rparr>)
    (log @ [Wrote (take n (at_remaining t))])"
proof -
  define t' where "t' = t\<lparr>at_offset := at_offset t + n\<rparr>"
  define wire where "wire = wire_bytes log @ take n (at_remaining t)"
  have ok: "transaction_ok Q t" "suffix (take (at_offset t) (at_bytes t)) (wire_bytes log)"
    "list_all (transaction_ok Q) rest" "list_all (\<lambda>u. at_offset u = 0) rest"
    using inv a by (simp_all add: wire_inv_def active_ok_def)
  have "take (at_offset t') (at_bytes t') = take (at_offset t) (at_bytes t) @ take n (at_remaining t)"
    by (simp add: t'_def take_add at_remaining_def)
  with suffix_extend [OF ok(2)] have "suffix (take (at_offset t') (at_bytes t')) wire" by (simp add: wire_def)
  moreover have "transaction_ok Q t'" using ok(1) n by (auto simp: transaction_ok_def t'_def at_remaining_def)
  ultimately have "active_ok Q wire (t' # rest)" using ok by (simp add: active_ok_def)
  moreover have "prefix (wire_bytes log) wire" by (simp add: wire_def)
  moreover from this have "prefix (flushed_bytes log) wire"
    using inv by (meson wire_inv_def prefix_order.order_trans)
  ultimately show ?thesis
    using inv render_on_wire_mono effect_on_wire_mono unfolding wire_inv_def t'_def wire_def by (simp, blast)
qed

interpretation wire: drain_invariant "\<lambda>s r log. wire_inv Q s log \<and> report_ok Q r log"
  for Q :: "('s, 'f) render_request set"
proof (unfold_locales, goal_cases)
  case (8 s r log t rest n)
  then show ?case using written_wire [of Q s log t rest n] by (auto simp: report_ok_def)
next
  case (9 s r log s' r')
  then have "wire_inv Q (s\<lparr>os_flush_required := False\<rparr>) (log @ [Flushed])" "report_ok Q r (log @ [Flushed])"
    by (auto simp: wire_inv_def intro: report_ok_mono)
  from complete_awaiting_wire [OF this] 9 show ?case by simp
next
  case (10 s r log s' r')
  then show ?case using complete_awaiting_wire [of Q s log r s' r'] by (simp add: wire_inv_def)
qed (simp_all add: activate_wire pop_completed_wire, auto simp: wire_inv_def report_ok_def)

section \<open>Runs of the scheduler\<close>

datatype ('s, 'f) sched_op =
    OpBytes bytes nat
  | OpRender "'s render_batch" "'f accessibility_bundle" nat
  | OpEffect u64 terminal_event nat
  | OpBell nat nat
  | OpSupported bool
  | OpObserve bool bool bool nat
  | OpBypass bool
  | OpCleanup
  | OpWritable
  | OpRecover
  | OpDrain nat bool "io_response list"

text \<open>
  A run threads the scheduler and the log of the wire. A failed drain leaves the terminal in an
  unknown state, which the scheduler answers by asking for reconciliation; the log then starts
  again.
\<close>

fun sched_step ::
  "('s, 'f) sched_op \<Rightarrow> ('s, 'f) output_scheduler \<times> wire_event list \<Rightarrow>
     ('s, 'f) output_scheduler \<times> wire_event list" where
  "sched_step (OpBytes bs now) (s, log) = (enqueue_bytes ClassControl bs now s, log)"
| "sched_step (OpRender b a now) (s, log) = (snd (enqueue_render_with_accessibility b a now s), log)"
| "sched_step (OpEffect owner e now) (s, log) = (enqueue_terminal_effect owner e now s, log)"
| "sched_step (OpBell n now) (s, log) = (enqueue_bell n now s, log)"
| "sched_step (OpSupported b) (s, log) = (set_synchronized_output_supported b s, log)"
| "sched_step (OpObserve a b c now) (s, log) = (observe_application_synchronization a b c now s, log)"
| "sched_step (OpBypass b) (s, log) = (set_application_synchronization_bypassed b s, log)"
| "sched_step OpCleanup (s, log) = (prepare_for_lifecycle_cleanup s, log)"
| "sched_step OpWritable (s, log) = (notify_writable s, log)"
| "sched_step OpRecover (s, log) = (recover s, log)"
| "sched_step (OpDrain now force script) (s, log) =
     (case drain_ready now force s \<lparr>wr_script = script, wr_log = log\<rparr> of
        (Ok r, s', w) \<Rightarrow> (s', wr_log w)
      | (Err e, s', w) \<Rightarrow> (s', []))"

definition sched_run ::
  "('s, 'f) sched_op list \<Rightarrow> ('s, 'f) output_scheduler \<times> wire_event list \<Rightarrow>
     ('s, 'f) output_scheduler \<times> wire_event list" where
  "sched_run ops st = fold sched_step ops st"

definition requests :: "('s, 'f) sched_op list \<Rightarrow> ('s, 'f) render_request set" where
  "requests ops = {(b, a). \<exists>now. OpRender b a now \<in> set ops}"

lemma flag_wire:
  assumes "wire_inv Q s log"
  shows "wire_inv Q (set_application_synchronization_bypassed b s) log" "wire_inv Q (notify_writable s) log"
    "wire_inv Q (recover s) log"
  using assms
  by (simp_all add: wire_inv_def set_application_synchronization_bypassed_def notify_writable_def recover_def)

lemma sched_step_wire:
  assumes "wire_inv Q s log" and "sched_step a (s, log) = (s', log')" and "requests [a] \<subseteq> Q"
  shows "wire_inv Q s' log'"
proof (cases a)
  case (OpRender b c now)
  then have "insert (b, c) Q = Q" using assms(3) by (auto simp: requests_def)
  then show ?thesis using enqueue_render_wire [OF assms(1), of b c now] OpRender assms(2) by auto
next
  case (OpDrain now force script)
  obtain res s1 w1 where d: "drain_ready now force s \<lparr>wr_script = script, wr_log = log\<rparr> = (res, s1, w1)"
    by (metis prod_cases3)
  have I: "wire_inv Q s (wr_log \<lparr>wr_script = script, wr_log = log\<rparr>) \<and>
      report_ok Q empty_report (wr_log \<lparr>wr_script = script, wr_log = log\<rparr>)"
    using assms(1) by (simp add: report_ok_def empty_report_def)
  show ?thesis
  proof (cases res)
    case (Ok r)
    with wire.drain_Ok [OF I] d OpDrain assms(2) show ?thesis by auto
  next
    case (Err e)
    from wire.drain_Err [OF I d [unfolded Err]] obtain s0 where "s1 = fail s0" by blast
    with Err d OpDrain assms(2) show ?thesis using fail_wire [of Q s0] by simp
  qed
qed (use assms(1,2) in \<open>simp_all, auto intro: enqueue_bytes_wire enqueue_effect_wire enqueue_bell_wire
    set_supported_wire observe_wire cleanup_wire flag_wire\<close>)

lemma scheduler_new_wire: "wire_inv Q (scheduler_new config supported) []"
  by (simp add: wire_inv_def scheduler_new_def active_ok_def)

lemma sched_run_wire:
  "wire_inv Q s log \<Longrightarrow> requests ops \<subseteq> Q \<Longrightarrow> sched_run ops (s, log) = (s', log') \<Longrightarrow> wire_inv Q s' log'"
proof (induction ops arbitrary: s log)
  case (Cons a ops)
  obtain s1 log1 where a: "sched_step a (s, log) = (s1, log1)" by fastforce
  have "requests [a] \<subseteq> Q" "requests ops \<subseteq> Q" using Cons.prems(2) by (auto simp: requests_def)
  with Cons.IH [of s1 log1] Cons.prems a sched_step_wire [OF Cons.prems(1) a] show ?case
    by (simp add: sched_run_def)
qed (simp add: sched_run_def)

text \<open>
  C8: Whatever was enqueued, replaced, dropped, partially written, blocked or failed before, a
  render that a drain reports as completed is one that was enqueued, it is reported with the
  accessibility bundle it was enqueued with and with its own geometry, and all its bytes stand
  contiguously, with no other transaction interleaved, in what was written before the last flush
  of that drain. The same holds for the bytes of each completed terminal effect.
\<close>

theorem completed_render_on_wire:
  assumes "sched_run ops (scheduler_new config supported, []) = (s, log)"
    and "drain_ready now force s \<lparr>wr_script = script, wr_log = log\<rparr> = (Ok report, s', w')"
  shows "(\<forall>c \<in> set (dr_completed_renders report). cr_geometry c = scene_geometry (cr_predicted c) \<and>
      (\<exists>batch t sync pre post. OpRender batch (cr_accessibility c) t \<in> set ops \<and>
         cr_predicted c = rb_predicted batch \<and>
         flushed_bytes (wr_log w') = pre @ render_bytes sync batch @ post)) \<and>
    (\<forall>e \<in> set (dr_completed_effects report). \<exists>pre post.
       flushed_bytes (wr_log w') = pre @ encode_terminal_effect (te_event e) @ post)"
proof -
  have "wire_inv (requests ops) s log" using sched_run_wire [OF scheduler_new_wire _ assms(1)] by blast
  with wire.drain_Ok [OF _ assms(2), of "requests ops"]
  have "report_ok (requests ops) report (wr_log w')" by (simp add: report_ok_def empty_report_def)
  then show ?thesis
    unfolding report_ok_def render_on_wire_def render_source_def effect_on_wire_def sublist_def requests_def
    by blast
qed

section \<open>Failure\<close>

interpretation any: drain_invariant "\<lambda>s r log. True"
  by unfold_locales simp_all

text \<open>
  A drain that returns an error leaves nothing behind that could be written later: every
  queue, the active transaction, the receipts that waited for a flush and the synchronization
  state are cleared, no deadline is pending and reconciliation is requested; until it is
  acknowledged every further drain returns an empty report without touching the writer.
\<close>

theorem drain_failure_resets:
  assumes "drain_ready now force s w = (Err e, s', w')"
  shows "sched_pending_bytes s' = 0 \<and> pending_effect_count s' = 0 \<and> \<not> has_render_work s' \<and>
    \<not> application_synchronization_holds_output s' \<and> next_deadline_ms s' = None \<and>
    os_needs_reconciliation s' \<and> drain_ready t f s' v = (Ok empty_report, s', v)"
proof -
  obtain s0 where "s' = fail s0" using any.drain_Err [OF _ assms] by blast
  then show ?thesis
    by (simp add: fail_def sched_pending_bytes_def pending_effect_count_def has_render_work_def
        application_synchronization_holds_output_def next_deadline_ms_def synchronization_deadline_def
        drain_ready_def saturating_add_usize_def)
qed

definition small_batch :: "unit render_batch" where
  "small_batch = \<lparr>rb_transactions = [\<lparr>ot_resize = None, ot_bytes = ''ab''\<rparr>],
     rb_predicted = \<lparr>scene_geometry = geometry_from_cells 1 1, scene_content = ()\<rparr>\<rparr>"

definition small_sched :: "(unit, unit) output_scheduler" where
  "small_sched = fst (sched_run [OpRender small_batch default_bundle 0]
     (scheduler_new default_scheduler_config False, []))"

lemma small_run:
  "sched_run [OpRender small_batch default_bundle 0] (scheduler_new default_scheduler_config False, []) =
     (small_sched, [])"
  by (simp add: small_sched_def sched_run_def)

lemma small_sched_eq:
  "small_sched = (scheduler_new default_scheduler_config False)
     \<lparr>os_pending_since_ms := Some 0, os_next_render_generation := 2, os_pending_render := Some
        \<lparr>pr_batch = small_batch, pr_byte_len = 2, pr_generation = 1, pr_accessibility = default_bundle\<rparr>\<rparr>"
  by (simp add: small_sched_def sched_run_def enqueue_render_with_accessibility_def scheduler_new_def Let_def
      render_batch_byte_len_def checked_add_fold_def small_batch_def checked_add_usize_def usize_max_def
      unstarted_render_index_def sched_pending_bytes_def saturating_add_usize_def default_scheduler_config_def
      accept_render_def replace_pending_def replace_active_def note_pending_def)

lemma small_drain:
  "\<exists>report s' w'. drain_ready 0 False small_sched \<lparr>wr_script = [], wr_log = []\<rparr> = (Ok report, s', w') \<and>
     dr_completed_renders report = [\<lparr>cr_predicted = rb_predicted small_batch,
       cr_geometry = geometry_from_cells 1 1, cr_accessibility = default_bundle\<rparr>]"
  by (simp add: small_sched_eq scheduler_new_def drain_ready_def Let_def after_flush_def hold_phase_def apply_hold_def
      saturating_add_u128_def default_scheduler_config_def write_phase_def activate_pending_def
      write_loop.simps at_remaining_def small_batch_def render_bytes_def empty_report_def write_once_def
      writer_write_def pop_completed_def tracks_generation_def record_completed.simps flush_writer_def
      complete_awaiting_renders_def finish_drain_def contains_synchronization_marker_def
      SYNCHRONIZED_OUTPUT_START_def SYNCHRONIZED_OUTPUT_END_def starts_with_def)

theorem completed_render_on_wire_witness:
  "\<exists>report s' w' c. drain_ready 0 False small_sched \<lparr>wr_script = [], wr_log = []\<rparr> = (Ok report, s', w') \<and>
     c \<in> set (dr_completed_renders report) \<and>
     (\<exists>sync pre post. flushed_bytes (wr_log w') = pre @ render_bytes sync small_batch @ post)"
proof -
  obtain report s' w' where d:
    "drain_ready 0 False small_sched \<lparr>wr_script = [], wr_log = []\<rparr> = (Ok report, s', w')"
    "dr_completed_renders report = [\<lparr>cr_predicted = rb_predicted small_batch,
       cr_geometry = geometry_from_cells 1 1, cr_accessibility = default_bundle\<rparr>]"
    using small_drain by blast
  from completed_render_on_wire [OF small_run d(1)] show ?thesis
    using d by fastforce
qed

theorem drain_failure_resets_witness:
  "\<exists>s' w'. drain_ready 0 False small_sched \<lparr>wr_script = [Fail (OtherError 5)], wr_log = []\<rparr> =
       (Err (OtherError 5), s', w') \<and> sched_pending_bytes s' = 0 \<and> os_needs_reconciliation s'"
proof -
  obtain s' w' where d: "drain_ready 0 False small_sched \<lparr>wr_script = [Fail (OtherError 5)], wr_log = []\<rparr> =
      (Err (OtherError 5), s', w')"
    by (simp add: small_sched_eq scheduler_new_def drain_ready_def Let_def after_flush_def hold_phase_def
        apply_hold_def saturating_add_u128_def default_scheduler_config_def write_phase_def activate_pending_def
        write_loop.simps at_remaining_def small_batch_def render_bytes_def empty_report_def write_once_def
        writer_write_def contains_synchronization_marker_def SYNCHRONIZED_OUTPUT_START_def
        SYNCHRONIZED_OUTPUT_END_def starts_with_def)
  from drain_failure_resets [OF d] d show ?thesis by blast
qed

end
