(* ===== verification/Scheduler_Bounds.thy ===== *)
theory Scheduler_Bounds
  imports Scheduler_Wire
begin

text \<open>
  How much the output scheduler retains: accounting without saturation, the lengths of what is
  activated, and the bound on pending bytes and on the control backlog over every run.
\<close>

section \<open>Accounting without saturation\<close>

definition active_bytes :: "('s, 'f) active_transaction list \<Rightarrow> nat" where
  "active_bytes ts = sum_list (map (\<lambda>t. length (at_bytes t) - at_offset t) ts)"

definition effect_bytes :: "terminal_effect list \<Rightarrow> nat" where
  "effect_bytes es = sum_list (map (\<lambda>e. event_retained_bytes (te_event e)) es)"

definition queued_bytes :: "pending_bytes_entry list \<Rightarrow> nat" where
  "queued_bytes q = sum_list (map (\<lambda>p. length (pb_bytes p)) q)"

definition render_len :: "('s, 'f) pending_render option \<Rightarrow> nat" where
  "render_len r = (case r of None \<Rightarrow> 0 | Some r \<Rightarrow> pr_byte_len r)"

definition raw_pending :: "('s, 'f) output_scheduler \<Rightarrow> nat" where
  "raw_pending s = active_bytes (os_active s) + queued_bytes (os_pending_bytes s) +
     render_len (os_pending_render s) + effect_bytes (os_pending_effects s) + os_pending_bells s"

definition raw_control :: "('s, 'f) output_scheduler \<Rightarrow> nat" where
  "raw_control s = queued_bytes (os_pending_bytes s) +
     active_bytes (filter (\<lambda>t. at_kind t = KindControl) (os_active s))"

lemma saturating_nested:
  "saturating_add_usize (min a usize_max) b = min (a + b) usize_max"
  by (simp add: saturating_add_usize_def)

lemma sched_pending_raw: "sched_pending_bytes s = min (raw_pending s) usize_max"
proof -
  have "saturating_add_usize a b = min (a + b) usize_max" for a b by (simp add: saturating_add_usize_def)
  then show ?thesis
    unfolding sched_pending_bytes_def Let_def raw_pending_def active_bytes_def queued_bytes_def effect_bytes_def
      render_len_def
    by (simp add: saturating_nested)
qed

lemma control_raw: "control_bytes s = min (raw_control s) usize_max"
  by (simp add: control_bytes_def raw_control_def queued_bytes_def active_bytes_def saturating_add_usize_def)

lemmas bytes_defs = active_bytes_def effect_bytes_def queued_bytes_def render_len_def

lemma sum_subseq: "subseq xs ys \<Longrightarrow> sum_list (map f xs) \<le> sum_list (map (f :: 'a \<Rightarrow> nat) ys)"
  by (induction rule: list_emb.induct) auto

lemma active_subseq: "subseq xs ys \<Longrightarrow> active_bytes xs \<le> active_bytes ys"
  unfolding active_bytes_def by (rule sum_subseq)

lemma active_append [simp]: "active_bytes (xs @ ys) = active_bytes xs + active_bytes ys"
  "active_bytes [] = 0" "active_bytes (t # ts) = length (at_bytes t) - at_offset t + active_bytes ts"
  by (simp_all add: active_bytes_def)

lemma empty_totals [simp]: "queued_bytes [] = 0" "effect_bytes [] = 0" "render_len None = 0"
  by (simp_all add: queued_bytes_def effect_bytes_def render_len_def)

lemma active_filter: "active_bytes (filter P ts) \<le> active_bytes ts"
  by (rule active_subseq) simp

lemma control_subseq:
  "subseq xs ys \<Longrightarrow> active_bytes (filter (\<lambda>t. at_kind t = KindControl) xs) \<le>
     active_bytes (filter (\<lambda>t. at_kind t = KindControl) ys)"
  by (intro active_subseq subseq_filter)

section \<open>Lengths of what is activated\<close>

lemma without_markers_length: "length (without_synchronization_markers bs) \<le> length bs"
proof (induction bs rule: without_synchronization_markers.induct)
  case (1 bs)
  show ?case
  proof (cases bs)
    case (Cons b rest)
    then show ?thesis
      using 1 by (subst without_synchronization_markers.simps) (auto intro: order_trans)
  qed (simp add: without_synchronization_markers.simps)
qed

lemma marker_lengths: "length SYNCHRONIZED_OUTPUT_START = 8" "length SYNCHRONIZED_OUTPUT_END = 8"
  by (simp_all add: SYNCHRONIZED_OUTPUT_START_def SYNCHRONIZED_OUTPUT_END_def)

definition batch_bytes :: "'s render_batch \<Rightarrow> nat" where
  "batch_bytes b = sum_list (map (\<lambda>t. length (ot_bytes t)) (rb_transactions b))"

lemma concat_without_length:
  "length (concat (map (\<lambda>t. without_synchronization_markers (ot_bytes t)) ts)) \<le>
     sum_list (map (\<lambda>t. length (ot_bytes t)) ts)"
  by (induction ts) (simp_all add: without_markers_length add_mono)

lemma render_bytes_length:
  "length (render_bytes supported batch) \<le> batch_bytes batch + (if supported then 16 else 0)"
proof -
  note c = concat_without_length [of "rb_transactions batch"]
  show ?thesis
    by (cases "rb_transactions batch" rule: list.exhaust; cases "tl (rb_transactions batch)"; cases supported)
      (use c without_markers_length in \<open>auto simp: render_bytes_def batch_bytes_def marker_lengths\<close>)
qed

lemma show_nat_small: "n \<le> 999 \<Longrightarrow> length (show_nat n) \<le> 3" "n \<le> 9 \<Longrightarrow> length (show_nat n) \<le> 1"
  using show_nat_length [of n 3] show_nat_length [of n 1] by simp_all

lemma progress_code_le: "progress_code s \<le> 9"
  by (cases s) auto

lemma write_osc_length: "c \<le> 9 \<Longrightarrow> length (write_osc c v) \<le> length v + 6"
proof -
  assume "c \<le> 9"
  then have "length (show_nat c) \<le> 1" by (rule show_nat_small(2))
  moreover have "length (filter (\<lambda>b. 32 \<le> byte_val b \<and> byte_val b \<noteq> 127) v) \<le> length v"
    by (rule length_filter_le)
  ultimately show ?thesis unfolding write_osc_def length_append list.size by linarith
qed

lemma encode_effect_length: "length (encode_terminal_effect e) \<le> event_payload e + 16"
proof (cases e)
  case (ProgressReport st p)
  have "length (show_nat (progress_code st)) \<le> 1" by (rule show_nat_small(2)) (rule progress_code_le)
  moreover have m: "length (show_nat (min (byte_val x) 100)) \<le> 3" for x by (rule show_nat_small(1)) simp
  have "length (case p of None \<Rightarrow> [] | Some p \<Rightarrow> '';'' @ show_nat (min (byte_val p) 100)) \<le> 4"
  proof (cases p)
    case (Some x)
    with m [of x] show ?thesis by simp
  qed simp
  ultimately show ?thesis
    unfolding ProgressReport encode_terminal_effect_def terminal_event.case length_append list.size event_payload.simps
    by linarith
next
  case (TitleChanged v)
  then show ?thesis using write_osc_length [of 2 v] by (simp add: encode_terminal_effect_def)
next
  case (WorkingDirectoryChanged v)
  then show ?thesis using write_osc_length [of 7 v] by (simp add: encode_terminal_effect_def)
qed (simp_all add: encode_terminal_effect_def)

lemma encode_effect_retained:
  "event_retained_bytes e < usize_max \<Longrightarrow> length (encode_terminal_effect e) \<le> event_retained_bytes e"
  using encode_effect_length [of e] by (auto simp: event_retained_bytes_def saturating_add_usize_def)

lemma activated_effects_length:
  "effect_bytes es < usize_max \<Longrightarrow>
     sum_list (map (\<lambda>e. length (encode_terminal_effect (te_event e))) es) \<le> effect_bytes es"
proof (induction es)
  case (Cons e es)
  then show ?case using encode_effect_retained [of "te_event e"] by (simp add: effect_bytes_def)
qed (simp add: effect_bytes_def)

section \<open>The bound\<close>

definition sched_bounded :: "nat \<Rightarrow> ('s, 'f) output_scheduler \<Rightarrow> bool" where
  "sched_bounded slack s \<longleftrightarrow>
     maximum_pending_bytes (os_config s) + 16 < usize_max \<and> slack \<le> 16 \<and>
     raw_pending s \<le> maximum_pending_bytes (os_config s) + slack \<and>
     (\<not> os_synchronized_output_supported s \<and> os_pending_render s \<noteq> None \<longrightarrow>
        raw_pending s \<le> maximum_pending_bytes (os_config s)) \<and>
     (\<forall>r. os_pending_render s = Some r \<longrightarrow>
        pr_byte_len r = batch_bytes (pr_batch r) + (if os_synchronized_output_supported s then 16 else 0)) \<and>
     raw_control s \<le> CONTROL_BACKLOG_LIMIT_BYTES"

text \<open>A step that keeps the render and does not increase the totals keeps the bound.\<close>

lemma sched_bounded_decrease:
  assumes "sched_bounded slack s" and "os_config s' = os_config s"
    and "os_synchronized_output_supported s' = os_synchronized_output_supported s"
    and "os_pending_render s' = os_pending_render s \<or> os_pending_render s' = None"
    and "raw_pending s' \<le> raw_pending s" and "raw_control s' \<le> raw_control s"
  shows "sched_bounded slack s'"
  using assms unfolding sched_bounded_def by auto

lemma sched_bounded_grow:
  assumes "sched_bounded slack s" and "os_config s' = os_config s"
    and "os_synchronized_output_supported s' = os_synchronized_output_supported s"
    and "os_pending_render s' = os_pending_render s"
    and "raw_pending s' \<le> maximum_pending_bytes (os_config s)"
    and "raw_control s' \<le> CONTROL_BACKLOG_LIMIT_BYTES"
  shows "sched_bounded slack s'"
  using assms unfolding sched_bounded_def by auto

lemma sched_bounded_sizes:
  assumes "sched_bounded slack s"
  shows "sched_pending_bytes s = raw_pending s" "raw_pending s < usize_max"
  using assms by (auto simp: sched_bounded_def sched_pending_raw)

subsection \<open>Enqueueing keeps the bound\<close>

lemma note_pending_fields [simp]:
  "os_config (note_pending now s) = os_config s"
  "os_synchronized_output_supported (note_pending now s) = os_synchronized_output_supported s"
  "os_pending_render (note_pending now s) = os_pending_render s"
  "os_pending_bytes (note_pending now s) = os_pending_bytes s"
  "os_pending_effects (note_pending now s) = os_pending_effects s"
  "os_pending_bells (note_pending now s) = os_pending_bells s"
  "os_active (note_pending now s) = os_active s"
  "os_release_generation (note_pending now s) = os_release_generation s"
  "os_bypass_generation (note_pending now s) = os_bypass_generation s"
  by (simp_all add: note_pending_def split: option.splits)

lemma note_pending_totals [simp]:
  "raw_pending (note_pending now s) = raw_pending s" "raw_control (note_pending now s) = raw_control s"
  by (simp_all add: raw_pending_def raw_control_def)

lemma note_pending_bounded [simp]: "sched_bounded slack (note_pending now s) = sched_bounded slack s"
  by (simp add: sched_bounded_def)

lemma push_pending_totals:
  "raw_pending (push_pending_bytes cls bs s) = raw_pending s + length bs"
  "raw_control (push_pending_bytes cls bs s) = raw_control s + length bs"
proof -
  have "queued_bytes (os_pending_bytes (push_pending_bytes cls bs s)) = queued_bytes (os_pending_bytes s) + length bs"
    by (cases "os_pending_bytes s" rule: rev_cases) (auto simp: push_pending_bytes_def Let_def queued_bytes_def)
  then show "raw_pending (push_pending_bytes cls bs s) = raw_pending s + length bs"
    "raw_control (push_pending_bytes cls bs s) = raw_control s + length bs"
    by (auto simp: raw_pending_def raw_control_def push_pending_bytes_def Let_def)
qed

lemma push_pending_fields:
  "os_config (push_pending_bytes cls bs s) = os_config s"
  "os_synchronized_output_supported (push_pending_bytes cls bs s) = os_synchronized_output_supported s"
  "os_pending_render (push_pending_bytes cls bs s) = os_pending_render s"
  by (auto simp: push_pending_bytes_def Let_def)

lemma control_filter_le:
  "active_bytes (filter (\<lambda>t. at_kind t = KindControl) (filter P ts)) \<le>
     active_bytes (filter (\<lambda>t. at_kind t = KindControl) ts)"
  by (rule control_subseq) simp

lemma evict_bounded:
  assumes "sched_bounded slack s"
  shows "sched_bounded slack (evict_unstarted s)" "raw_control (evict_unstarted s) \<le> raw_control s"
proof -
  let ?keep = "\<lambda>t. 0 < at_offset t \<or> at_kind t = KindControl \<or>
      (case at_completed_render t of Some r \<Rightarrow> is_boundary_generation s (tr_generation r) | None \<Rightarrow> False)"
  have a: "active_bytes (filter ?keep (os_active s)) \<le> active_bytes (os_active s)" by (rule active_filter)
  have r: "os_pending_render (evict_unstarted s) = os_pending_render s \<or> os_pending_render (evict_unstarted s) = None"
    by (auto simp: evict_unstarted_def split: option.splits)
  then have l: "render_len (os_pending_render (evict_unstarted s)) \<le> render_len (os_pending_render s)"
    by (auto simp: render_len_def)
  show c: "raw_control (evict_unstarted s) \<le> raw_control s"
    by (simp add: raw_control_def evict_unstarted_def control_filter_le del: filter_filter)
  have p: "raw_pending (evict_unstarted s) \<le> raw_pending s"
    unfolding raw_pending_def using a l by (simp add: evict_unstarted_def)
  show "sched_bounded slack (evict_unstarted s)"
    by (rule sched_bounded_decrease [OF assms _ _ r p c]) (simp_all add: evict_unstarted_def)
qed

lemma push_bounded:
  assumes b: "sched_bounded slack s" and p: "\<not> maximum_pending_bytes (os_config s) < saturating_add_usize (sched_pending_bytes s) (length bs)"
    and c: "\<not> CONTROL_BACKLOG_LIMIT_BYTES < saturating_add_usize (control_bytes s) (length bs)"
  shows "sched_bounded slack (push_pending_bytes cls bs (note_pending now s))"
proof (rule sched_bounded_grow [of slack "note_pending now s"])
  have lim: "maximum_pending_bytes (os_config s) < usize_max" using b by (simp add: sched_bounded_def)
  have "raw_pending s + length bs \<le> maximum_pending_bytes (os_config s)"
    using p lim unfolding sched_pending_raw saturating_nested by simp
  then show "raw_pending (push_pending_bytes cls bs (note_pending now s)) \<le>
      maximum_pending_bytes (os_config (note_pending now s))"
    by (simp add: push_pending_totals)
  have "raw_control s + length bs \<le> CONTROL_BACKLOG_LIMIT_BYTES"
    using c unfolding control_raw saturating_nested by (simp add: CONTROL_BACKLOG_LIMIT_BYTES_def usize_max_def)
  then show "raw_control (push_pending_bytes cls bs (note_pending now s)) \<le> CONTROL_BACKLOG_LIMIT_BYTES"
    by (simp add: push_pending_totals)
qed (use b in \<open>simp_all add: push_pending_fields\<close>)

lemma enqueue_bytes_bounded:
  assumes b: "sched_bounded slack s"
  shows "sched_bounded slack (enqueue_bytes cls bs now s)"
proof -
  note e = evict_bounded [OF b]
  have "\<not> CONTROL_BACKLOG_LIMIT_BYTES < saturating_add_usize (control_bytes (evict_unstarted s)) (length bs)"
    if "\<not> CONTROL_BACKLOG_LIMIT_BYTES < saturating_add_usize (control_bytes s) (length bs)"
    using that e(2) unfolding control_raw saturating_nested by simp
  then show ?thesis
    using b e(1) push_bounded [OF e(1)] push_bounded [OF b] unfolding enqueue_bytes_def Let_def by simp
qed

lemma cleanup_bounded:
  assumes "sched_bounded slack s"
  shows "sched_bounded slack (prepare_for_lifecycle_cleanup s)"
proof (rule sched_bounded_decrease [OF assms])
  show "raw_pending (prepare_for_lifecycle_cleanup s) \<le> raw_pending s"
    using active_filter [of "\<lambda>t. 0 < at_offset t" "os_active s"]
    by (simp add: raw_pending_def prepare_for_lifecycle_cleanup_def Let_def)
  show "raw_control (prepare_for_lifecycle_cleanup s) \<le> raw_control s"
    using control_filter_le [of "\<lambda>t. 0 < at_offset t" "os_active s"]
    by (simp add: raw_control_def prepare_for_lifecycle_cleanup_def Let_def del: filter_filter)
qed (simp_all add: prepare_for_lifecycle_cleanup_def Let_def)

lemma enqueue_bell_bounded:
  assumes b: "sched_bounded slack s"
  shows "sched_bounded slack (enqueue_bell n now s)"
proof (cases "min n (maximum_pending_bytes (os_config s) - raw_pending s) = 0")
  case True
  then show ?thesis using b by (auto simp: enqueue_bell_def Let_def sched_bounded_sizes [OF b])
next
  case False
  let ?k = "min n (maximum_pending_bytes (os_config s) - raw_pending s)"
  have k: "raw_pending s + ?k \<le> maximum_pending_bytes (os_config s)" using False by (auto simp: min_def)
  moreover have "os_pending_bells s + ?k \<le> usize_max"
    using k b by (simp add: sched_bounded_def raw_pending_def)
  ultimately have e: "enqueue_bell n now s =
      (note_pending now s)\<lparr>os_pending_bells := os_pending_bells s + ?k\<rparr>"
    using False by (auto simp: enqueue_bell_def Let_def sched_bounded_sizes [OF b] saturating_add_usize_def)
  show ?thesis
    unfolding e
    by (rule sched_bounded_grow [of slack "note_pending now s"])
      (use b k in \<open>simp_all add: raw_pending_def raw_control_def sched_bounded_def\<close>)
qed

lemma remove_first_subseq: "subseq (remove_first P xs) xs"
proof (cases "position P xs")
  case (Some i)
  then have "i < length xs" by (simp add: position_Some)
  then have "xs = take i xs @ xs ! i # drop (Suc i) xs" by (simp add: id_take_nth_drop)
  then show ?thesis using Some
    by (metis (no_types, lifting) list_emb_append_mono option.simps(5) remove_first_def subseq_Cons' subseq_order.order_refl)
qed (simp add: remove_first_def)

lemma effect_subseq: "subseq xs ys \<Longrightarrow> effect_bytes xs \<le> effect_bytes ys"
  unfolding effect_bytes_def by (rule sum_subseq)

lemma enqueue_effect_bounded:
  assumes b: "sched_bounded slack s"
  shows "sched_bounded slack (enqueue_terminal_effect owner e now s)"
proof -
  let ?M = "maximum_pending_bytes (os_config s)"
  define ev where "ev = bound_terminal_effect e ?M"
  define k where "k = event_kind ev"
  define s1 where "s1 = (if k = KTitle \<or> k = KWorkingDirectory
     then s\<lparr>os_pending_effects := filter (\<lambda>e. \<not> same_state_effect owner k e) (os_pending_effects s),
            os_active := filter (\<lambda>t. at_offset t \<noteq> 0 \<or> at_kind t \<noteq> KindEffect \<or>
                \<not> list_ex (same_state_effect owner k) (at_completed_effects t)) (os_active s)\<rparr>
     else s)"
  define s2 where "s2 = (if ?M < saturating_add_usize (retained_effect_bytes s1) (event_retained_bytes ev)
     then s1\<lparr>os_pending_effects := remove_first (same_state_effect owner k) (os_pending_effects s1)\<rparr> else s1)"
  have f1: "effect_bytes (filter Q xs) \<le> effect_bytes xs" for Q xs by (rule effect_subseq) simp
  have c1: "os_config s1 = os_config s" "os_config s2 = os_config s" by (simp_all add: s1_def s2_def)
  have "active_bytes (os_active s1) \<le> active_bytes (os_active s)"
    by (simp add: s1_def active_filter)
  moreover have "effect_bytes (os_pending_effects s1) \<le> effect_bytes (os_pending_effects s)"
    by (simp add: s1_def f1)
  moreover have "os_pending_bytes s1 = os_pending_bytes s" "os_pending_render s1 = os_pending_render s"
      "os_pending_bells s1 = os_pending_bells s" by (simp_all add: s1_def)
  ultimately have p1: "raw_pending s1 \<le> raw_pending s" unfolding raw_pending_def by simp
  have r1: "raw_control s1 \<le> raw_control s"
    by (simp add: s1_def raw_control_def control_filter_le del: filter_filter)
  have b1: "sched_bounded slack s1" by (rule sched_bounded_decrease [OF b _ _ _ p1 r1]) (simp_all add: s1_def)
  have "raw_pending s2 \<le> raw_pending s1"
    unfolding raw_pending_def using effect_subseq [OF remove_first_subseq] by (simp add: s2_def)
  then have b2: "sched_bounded slack s2"
    by (intro sched_bounded_decrease [OF b1]) (simp_all add: s2_def raw_control_def)
  have t: "enqueue_terminal_effect owner e now s =
      (if ?M < saturating_add_usize (sched_pending_bytes s2) (event_retained_bytes ev) then s2
       else (note_pending now s2)\<lparr>os_pending_effects := os_pending_effects s2 @ [\<lparr>te_owner = owner, te_event = ev\<rparr>]\<rparr>)"
    unfolding enqueue_terminal_effect_def Let_def ev_def [symmetric] k_def [symmetric] s1_def [symmetric]
      s2_def [symmetric] note_pending_fields by (rule refl)
  show ?thesis
  proof (cases "?M < saturating_add_usize (sched_pending_bytes s2) (event_retained_bytes ev)")
    case True
    then show ?thesis using b2 t by simp
  next
    case False
    then have "raw_pending s2 + event_retained_bytes ev \<le> ?M"
      using b unfolding sched_pending_raw saturating_nested by (simp add: sched_bounded_def)
    then have p: "raw_pending s2 + event_retained_bytes ev \<le> maximum_pending_bytes (os_config s2)" by (simp add: c1)
    let ?s' = "(note_pending now s2)\<lparr>os_pending_effects := os_pending_effects s2 @ [\<lparr>te_owner = owner, te_event = ev\<rparr>]\<rparr>"
    have "raw_pending ?s' = raw_pending s2 + event_retained_bytes ev" "raw_control ?s' = raw_control s2"
      by (simp_all add: raw_pending_def raw_control_def effect_bytes_def)
    then have "sched_bounded slack ?s'"
      using p b2 by (intro sched_bounded_grow [OF b2]) (simp_all add: sched_bounded_def)
    then show ?thesis using False t by simp
  qed
qed

lemma reclaim_bells_total:
  "active_bytes ts + b \<le> usize_max \<Longrightarrow> reclaim_bells ts b = (ts', b') \<Longrightarrow>
     active_bytes ts' + b' = active_bytes ts + b \<and> subseq ts' ts"
proof (induction ts b arbitrary: ts' rule: reclaim_bells.induct)
  case (2 t ts b)
  show ?case
  proof (cases "at_kind t = KindBell \<and> at_offset t = 0")
    case True
    then have "reclaim_bells ts (saturating_add_usize b (length (at_bytes t))) = (ts', b')" using 2 by simp
    moreover have "saturating_add_usize b (length (at_bytes t)) = b + length (at_bytes t)"
      using "2.prems" True by (simp add: saturating_add_usize_def)
    ultimately show ?thesis using "2.IH"(1) [OF True, of ts'] "2.prems" True by (auto simp: ac_simps)
  next
    case False
    then obtain ts1 where "reclaim_bells ts b = (ts1, b')" "ts' = t # ts1"
      using "2.prems"(2) by (auto split: prod.splits)
    with "2.IH"(2) [OF False, of ts1] "2.prems"(1) show ?thesis by auto
  qed
qed auto

lemma active_remove_nth:
  assumes "i < length ts"
  shows "active_bytes (take i ts @ drop (Suc i) ts) + (length (at_bytes (ts ! i)) - at_offset (ts ! i)) = active_bytes ts"
proof -
  have "active_bytes ts = active_bytes (take i ts @ ts ! i # drop (Suc i) ts)"
    using assms by (simp flip: id_take_nth_drop)
  then show ?thesis by simp
qed

lemma subseq_remove_nth: "i < length ts \<Longrightarrow> subseq (take i ts @ drop (Suc i) ts) ts"
  by (metis id_take_nth_drop list_emb_append_mono subseq_Cons' subseq_order.order_refl)

definition replaceable_active :: "('s, 'f) output_scheduler \<Rightarrow> nat" where
  "replaceable_active s = (case unstarted_render_index s of None \<Rightarrow> 0 | Some i \<Rightarrow> length (at_bytes (os_active s ! i)))"

lemma replace_active_totals:
  assumes "raw_pending s \<le> usize_max"
  shows "raw_pending (fst (replace_active now s (unstarted_render_index s) acc)) + replaceable_active s = raw_pending s"
    and "raw_control (fst (replace_active now s (unstarted_render_index s) acc)) \<le> raw_control s"
proof -
  have "raw_pending (fst (replace_active now s (unstarted_render_index s) acc)) + replaceable_active s = raw_pending s \<and>
    raw_control (fst (replace_active now s (unstarted_render_index s) acc)) \<le> raw_control s"
  proof (cases "unstarted_render_index s")
    case (Some i)
    then have i: "i < length (os_active s)" "at_offset (os_active s ! i) = 0" using position_offset by blast+
    let ?ts = "take i (os_active s) @ drop (Suc i) (os_active s)"
    obtain ts' b' where rb: "reclaim_bells ?ts (os_pending_bells s) = (ts', b')" by fastforce
    have sum: "active_bytes ?ts + length (at_bytes (os_active s ! i)) = active_bytes (os_active s)"
      using active_remove_nth [OF i(1)] i(2) by simp
    then have "active_bytes ?ts + os_pending_bells s \<le> usize_max" using assms by (simp add: raw_pending_def)
    from reclaim_bells_total [OF this rb] have t: "active_bytes ts' + b' = active_bytes ?ts + os_pending_bells s"
      "subseq ts' (os_active s)" using subseq_remove_nth [OF i(1)] subseq_order.order_trans by blast+
    have "fst (replace_active now s (Some i) acc) = s\<lparr>os_active := ts', os_pending_bells := b',
        os_pending_since_ms := Some (now - latency_budget_ms (os_config s))\<rparr>"
      using rb by (simp add: replace_active_def Let_def)
    then show ?thesis
      unfolding Some raw_pending_def raw_control_def replaceable_active_def
      using t(1) sum control_subseq [OF t(2)] by simp
  qed (simp add: replace_active_def replaceable_active_def)
  then show "raw_pending (fst (replace_active now s (unstarted_render_index s) acc)) + replaceable_active s = raw_pending s"
    and "raw_control (fst (replace_active now s (unstarted_render_index s) acc)) \<le> raw_control s"
    by blast+
qed

lemma replace_active_config:
  "os_config (fst (replace_active now s i acc)) = os_config s"
  "os_synchronized_output_supported (fst (replace_active now s i acc)) = os_synchronized_output_supported s"
  by (auto simp: replace_active_def Let_def case_prod_beta split: option.splits)

lemma accept_render_bounded:
  assumes b: "sched_bounded slack s"
    and len: "len = batch_bytes batch + (if os_synchronized_output_supported s then 16 else 0)"
    and room: "raw_pending s - render_len (os_pending_render s) - replaceable_active s + len \<le>
      maximum_pending_bytes (os_config s)"
  shows "sched_bounded slack (snd (accept_render batch acc now len req s))"
proof -
  define s1 where "s1 = fst (replace_pending s)"
  define s2 where "s2 = fst (replace_active now s1 (unstarted_render_index s) (snd (replace_pending s)))"
  let ?s' = "snd (accept_render batch acc now len req s)"
  have s1: "raw_pending s1 + render_len (os_pending_render s) = raw_pending s" "raw_control s1 = raw_control s"
    "unstarted_render_index s1 = unstarted_render_index s" "replaceable_active s1 = replaceable_active s"
    "os_pending_render s1 = None" "os_config s1 = os_config s"
    "os_synchronized_output_supported s1 = os_synchronized_output_supported s"
    by (auto simp: s1_def replace_pending_def raw_pending_def raw_control_def unstarted_render_index_def
        replaceable_active_def render_len_def split: option.splits)
  have u: "raw_pending s1 \<le> usize_max" using s1(1) b by (simp add: sched_bounded_def)
  have s2: "raw_pending s2 + replaceable_active s = raw_pending s1" "raw_control s2 \<le> raw_control s"
    using replace_active_totals [OF u, of now "snd (replace_pending s)"] s1 by (simp_all add: s2_def)
  have f2: "os_pending_render s2 = None" "os_config s2 = os_config s"
    "os_synchronized_output_supported s2 = os_synchronized_output_supported s"
    using s1 by (simp_all add: s2_def replace_active_fields replace_active_config)
  have e: "raw_pending ?s' = raw_pending s2 + len" "raw_control ?s' = raw_control s2"
    "os_config ?s' = os_config s" "os_synchronized_output_supported ?s' = os_synchronized_output_supported s"
    "map_option (\<lambda>r. (pr_batch r, pr_byte_len r)) (os_pending_render ?s') = Some (batch, len)"
    using f2
    by (simp_all add: accept_render_def Let_def case_prod_beta s1_def [symmetric] s2_def [symmetric]
        raw_pending_def raw_control_def render_len_def)
  have "raw_pending ?s' \<le> maximum_pending_bytes (os_config s)" using e(1) s2(1) s1(1) room by simp
  then show ?thesis
    using b e(2-) s2(2) len unfolding sched_bounded_def by auto
qed

lemma checked_add_fold_Some: "checked_add_fold ns = Some t \<Longrightarrow> t = sum_list ns"
proof -
  have "foldl (\<lambda>acc n. Option.bind acc (\<lambda>total. checked_add_usize total n)) acc ns = Some t \<Longrightarrow>
      \<exists>a. acc = Some a \<and> t = a + sum_list ns" for acc
  proof (induction ns arbitrary: acc)
    case (Cons n ns)
    then show ?case
      by (cases acc) (fastforce simp: checked_add_usize_def split: if_splits)+
  qed simp
  then show "checked_add_fold ns = Some t \<Longrightarrow> t = sum_list ns" unfolding checked_add_fold_def by fastforce
qed

lemma render_batch_byte_len_Some:
  "render_batch_byte_len batch supported = Some len \<Longrightarrow> len = batch_bytes batch + (if supported then 16 else 0)"
  by (auto simp: render_batch_byte_len_def checked_add_usize_def batch_bytes_def marker_lengths
      dest!: checked_add_fold_Some split: if_splits bind_splits)

lemma enqueue_render_bounded:
  assumes b: "sched_bounded slack s"
  shows "sched_bounded slack (snd (enqueue_render_with_accessibility batch acc now s))"
proof -
  define s0 where "s0 = s\<lparr>os_bypass_next_render := False\<rparr>"
  have b0: "sched_bounded slack s0" using b by (simp add: sched_bounded_def raw_pending_def raw_control_def s0_def)
  show ?thesis
  proof (cases "render_batch_byte_len batch (os_synchronized_output_supported s0)")
    case None
    then show ?thesis using b0 by (simp add: enqueue_render_with_accessibility_def Let_def s0_def)
  next
    case (Some len)
    let ?ret = "raw_pending s0 - render_len (os_pending_render s0) - replaceable_active s0"
    let ?M = "maximum_pending_bytes (os_config s0)"
    have eq: "snd (enqueue_render_with_accessibility batch acc now s) =
        (if ?M < len \<or> ?M < saturating_add_usize ?ret len then s0
         else snd (accept_render batch acc now len (os_bypass_next_render s) s0))"
      using Some unfolding enqueue_render_with_accessibility_def Let_def s0_def [symmetric]
      by (simp add: sched_bounded_sizes [OF b0] render_len_def replaceable_active_def)
    have "?ret + len \<le> ?M" if "\<not> ?M < saturating_add_usize ?ret len"
      using that b0 by (auto simp: saturating_add_usize_def sched_bounded_def)
    then show ?thesis
      using eq b0 accept_render_bounded [OF b0 render_batch_byte_len_Some [OF Some]] by simp
  qed
qed

lemma set_supported_bounded:
  assumes b: "sched_bounded 16 s"
  shows "sched_bounded 16 (set_synchronized_output_supported v s)"
proof (cases "os_pending_render s")
  case None
  then show ?thesis
    using b by (auto simp: set_synchronized_output_supported_def Let_def sched_bounded_def raw_pending_def raw_control_def)
next
  case (Some r)
  have len: "pr_byte_len r = batch_bytes (pr_batch r) + (if os_synchronized_output_supported s then 16 else 0)"
    "pr_byte_len r \<le> raw_pending s" using b Some by (auto simp: sched_bounded_def raw_pending_def render_len_def)
  show ?thesis
  proof (cases "v = os_synchronized_output_supported s")
    case True
    then show ?thesis
      using b Some by (simp add: set_synchronized_output_supported_def Let_def sched_bounded_def raw_pending_def raw_control_def)
  next
    case False
    let ?s' = "set_synchronized_output_supported v s"
    define n where "n = batch_bytes (pr_batch r) + (if v then 16 else 0)"
    have "pr_byte_len r + 16 \<le> usize_max" if v
      using that False b Some len by (auto simp: sched_bounded_def)
    then have r': "os_pending_render ?s' = Some (r\<lparr>pr_byte_len := n\<rparr>)"
      using False Some len(1)
      by (auto simp: set_synchronized_output_supported_def Let_def n_def marker_lengths saturating_add_usize_def usize_max_def)
    have "raw_pending ?s' + pr_byte_len r = raw_pending s + n"
      using r' Some by (simp add: raw_pending_def render_len_def set_synchronized_output_supported_def Let_def)
    then have "raw_pending ?s' = (if v then raw_pending s + 16 else raw_pending s - 16)"
      using False len by (auto simp: n_def)
    moreover have "raw_control ?s' = raw_control s" "os_config ?s' = os_config s"
      "os_synchronized_output_supported ?s' = v"
      by (simp_all add: raw_control_def set_synchronized_output_supported_def Let_def)
    ultimately show ?thesis
      using b False Some r' unfolding sched_bounded_def by (auto simp: n_def)
  qed
qed

lemma observe_bounded: "sched_bounded slack s \<Longrightarrow> sched_bounded slack (observe_application_synchronization a b c now s)"
  by (erule sched_bounded_decrease)
    (auto simp: observe_application_synchronization_def raw_pending_def raw_control_def
       split: option.splits application_synchronization.splits)

lemma flag_bounded:
  assumes "sched_bounded slack s"
  shows "sched_bounded slack (set_application_synchronization_bypassed b s)" "sched_bounded slack (notify_writable s)"
    "sched_bounded slack (recover s)"
  using assms
  by (simp_all add: sched_bounded_def set_application_synchronization_bypassed_def notify_writable_def recover_def
      raw_pending_def raw_control_def)

subsection \<open>Draining keeps the bound\<close>

lemma activate_bounded:
  assumes b: "sched_bounded slack s"
  shows "sched_bounded slack (activate_pending s)"
proof (cases "os_active s = []")
  case True
  have e: "effect_bytes (os_pending_effects s) < usize_max"
    using sched_bounded_sizes(2) [OF b] by (simp add: raw_pending_def)
  have eff: "active_bytes (map (\<lambda>e. \<lparr>at_kind = KindEffect, at_bytes = encode_terminal_effect (te_event e), at_offset = 0,
      at_completed_render = None, at_completed_effects = [e]\<rparr>) es) =
      sum_list (map (\<lambda>e. length (encode_terminal_effect (te_event e))) es)" for es
    by (simp add: active_bytes_def comp_def)
  have ctl: "active_bytes (map (\<lambda>p. \<lparr>at_kind = KindControl, at_bytes = pb_bytes p, at_offset = 0,
      at_completed_render = None, at_completed_effects = []\<rparr>) q) = queued_bytes q" for q
    by (simp add: active_bytes_def queued_bytes_def comp_def)
  have no_ctl: "filter (\<lambda>t. at_kind t = KindControl) (map (\<lambda>e. \<lparr>at_kind = KindEffect, at_bytes = f e, at_offset = 0,
      at_completed_render = None, at_completed_effects = [e]\<rparr>) es) = []" for f es
    by (induction es) auto
  have all_ctl: "filter (\<lambda>t. at_kind t = KindControl) (map (\<lambda>p. \<lparr>at_kind = KindControl, at_bytes = pb_bytes p, at_offset = 0,
      at_completed_render = None, at_completed_effects = []\<rparr>) q) = map (\<lambda>p. \<lparr>at_kind = KindControl, at_bytes = pb_bytes p, at_offset = 0,
      at_completed_render = None, at_completed_effects = []\<rparr>) q" for q
    by (induction q) auto
  have ren: "length (render_bytes (os_synchronized_output_supported s) (pr_batch r)) \<le> pr_byte_len r"
    if "os_pending_render s = Some r" for r
    using render_bytes_length [of "os_synchronized_output_supported s" "pr_batch r"] b that
    by (auto simp: sched_bounded_def)
  show ?thesis
  proof (rule sched_bounded_decrease [OF b])
    show "raw_pending (activate_pending s) \<le> raw_pending s"
      using True activated_effects_length [OF e] ren
      by (auto simp: raw_pending_def activate_pending_def eff ctl render_len_def split: option.splits)
    show "raw_control (activate_pending s) \<le> raw_control s"
      using True by (auto simp: raw_control_def activate_pending_def ctl no_ctl all_ctl split: option.splits)
  qed (use True in \<open>simp_all add: activate_pending_def\<close>)
qed (use b in \<open>simp add: activate_pending_def\<close>)

lemma complete_awaiting_bounded:
  "sched_bounded slack s \<Longrightarrow> complete_awaiting_renders s r = (s', r') \<Longrightarrow> sched_bounded slack s'"
  by (simp add: sched_bounded_def raw_pending_def raw_control_def complete_awaiting_fields)

interpretation bounds: drain_invariant "\<lambda>s r log. sched_bounded slack s"
proof (unfold_locales, goal_cases)
  case (4 s)
  then show ?case by (rule activate_bounded)
next
  case (5 s)
  then obtain t rest where "os_active s = t # rest" by (cases "os_active s") auto
  then show ?case
    using 5 by (intro sched_bounded_decrease [OF 5(1)]) (auto simp: pop_completed_def Let_def raw_pending_def raw_control_def)
next
  case (6 s r log t rest n)
  then show ?case
    by (intro sched_bounded_decrease [OF 6(1)]) (auto simp: raw_pending_def raw_control_def)
next
  case (7 s r log s' r')
  then have "sched_bounded slack (s\<lparr>os_flush_required := False\<rparr>)"
    by (simp add: sched_bounded_def raw_pending_def raw_control_def)
  with 7 show ?case using complete_awaiting_bounded by blast
next
  case (8 s r log s' r')
  then show ?case using complete_awaiting_bounded by blast
qed (simp_all add: sched_bounded_def raw_pending_def raw_control_def)

lemma fail_bounded: "sched_bounded slack s \<Longrightarrow> sched_bounded slack (fail s)"
  by (rule sched_bounded_decrease) (simp_all add: fail_def raw_pending_def raw_control_def)

lemma sched_step_bounded:
  assumes b: "sched_bounded slack s" and st: "sched_step a (s, log) = (s', log')"
    and sl: "slack = 16 \<or> (\<forall>v. a \<noteq> OpSupported v)"
  shows "sched_bounded slack s'"
proof (cases a)
  case (OpDrain now force script)
  obtain res s1 w1 where d: "drain_ready now force s \<lparr>wr_script = script, wr_log = log\<rparr> = (res, s1, w1)"
    by (metis prod_cases3)
  show ?thesis
  proof (cases res)
    case (Ok r)
    from bounds.drain_Ok [OF b d [unfolded Ok]] show ?thesis using Ok d OpDrain st by simp
  next
    case (Err e)
    from bounds.drain_Err [OF b d [unfolded Err]] show ?thesis using Err d OpDrain st fail_bounded by auto
  qed
next
  case (OpSupported v)
  then show ?thesis using b st sl set_supported_bounded by auto
qed (use b st in \<open>simp_all, auto intro: enqueue_bytes_bounded enqueue_effect_bounded enqueue_bell_bounded
    enqueue_render_bounded observe_bounded cleanup_bounded flag_bounded\<close>)

lemma sched_run_bounded:
  "sched_bounded slack s \<Longrightarrow> slack = 16 \<or> (\<forall>v. OpSupported v \<notin> set ops) \<Longrightarrow>
   sched_run ops (s, log) = (s', log') \<Longrightarrow> sched_bounded slack s'"
proof (induction ops arbitrary: s log)
  case (Cons a ops)
  obtain s1 log1 where a: "sched_step a (s, log) = (s1, log1)" by fastforce
  have "slack = 16 \<or> (\<forall>v. a \<noteq> OpSupported v)" "slack = 16 \<or> (\<forall>v. OpSupported v \<notin> set ops)"
    using Cons.prems(2) by auto
  with Cons.IH [of s1 log1] Cons.prems sched_step_bounded [OF Cons.prems(1) a] show ?case
    using a by (simp add: sched_run_def)
qed (simp add: sched_run_def)

lemma scheduler_new_bounded:
  "maximum_pending_bytes config + 16 < usize_max \<Longrightarrow> slack \<le> 16 \<Longrightarrow> sched_bounded slack (scheduler_new config supported)"
  by (simp add: sched_bounded_def scheduler_new_def raw_pending_def raw_control_def)

interpretation config: drain_invariant "\<lambda>s r log. os_config s = c" for c
  by unfold_locales (auto simp: activate_pending_def pop_completed_def Let_def complete_awaiting_fields)

lemma accept_render_config: "os_config (snd (accept_render batch acc now len req s)) = os_config s"
  by (auto simp: accept_render_def Let_def case_prod_beta replace_active_config replace_pending_def split: option.splits)

lemma sched_step_config: "sched_step a (s, log) = (s', log') \<Longrightarrow> os_config s' = os_config s"
proof (cases a)
  case (OpDrain now force script)
  assume st: "sched_step a (s, log) = (s', log')"
  obtain res s1 w1 where d: "drain_ready now force s \<lparr>wr_script = script, wr_log = log\<rparr> = (res, s1, w1)"
    by (metis prod_cases3)
  show ?thesis
  proof (cases res)
    case (Ok r)
    from config.drain_Ok [OF refl d [unfolded Ok]] show ?thesis using Ok d OpDrain st by simp
  next
    case (Err e)
    from config.drain_Err [OF refl d [unfolded Err]] show ?thesis using Err d OpDrain st by (auto simp: fail_def)
  qed
next
  case (OpRender b acc now)
  assume "sched_step a (s, log) = (s', log')"
  then show ?thesis using OpRender
    by (auto simp: enqueue_render_with_accessibility_def Let_def accept_render_config split: option.splits)
qed (auto simp: enqueue_bytes_def Let_def push_pending_fields evict_unstarted_def enqueue_terminal_effect_def
    enqueue_bell_def set_synchronized_output_supported_def observe_application_synchronization_def
    set_application_synchronization_bypassed_def prepare_for_lifecycle_cleanup_def notify_writable_def recover_def
    split: option.splits application_synchronization.splits)

lemma sched_run_config: "sched_run ops (s, log) = (s', log') \<Longrightarrow> os_config s' = os_config s"
proof (induction ops arbitrary: s log)
  case (Cons a ops)
  obtain s1 log1 where a: "sched_step a (s, log) = (s1, log1)" by fastforce
  then have "sched_run ops (s1, log1) = (s', log')" using Cons.prems by (simp add: sched_run_def)
  with Cons.IH sched_step_config [OF a] show ?case by simp
qed (simp add: sched_run_def)

text \<open>
  C10: Through any sequence of operations, partial writes, blocking and failures included, the
  bytes the scheduler retains never exceed the configured maximum, and the control backlog never
  exceeds its 64 KiB limit. The one exception to the maximum is a change of the terminal's
  synchronized output capability while a render is pending, and that adds at most the 16 bytes
  of the two markers.
\<close>

theorem scheduler_bounds:
  assumes "maximum_pending_bytes config + 16 < usize_max"
    and "sched_run ops (scheduler_new config supported, []) = (s, log)"
  shows "sched_pending_bytes s \<le> maximum_pending_bytes config + 16 \<and> control_bytes s \<le> 65536 \<and>
    ((\<forall>v. OpSupported v \<notin> set ops) \<longrightarrow> sched_pending_bytes s \<le> maximum_pending_bytes config)"
proof -
  have c: "os_config s = config" using sched_run_config [OF assms(2)] by (simp add: scheduler_new_def)
  have b: "sched_bounded 16 s" using sched_run_bounded [OF scheduler_new_bounded _ assms(2)] assms(1) by simp
  have "raw_pending s \<le> maximum_pending_bytes config" if "\<forall>v. OpSupported v \<notin> set ops"
    using sched_run_bounded [OF scheduler_new_bounded [of config 0] _ assms(2)] assms(1) that c
    by (simp add: sched_bounded_def)
  then show ?thesis
    using b c by (auto simp: sched_bounded_def sched_pending_raw control_raw CONTROL_BACKLOG_LIMIT_BYTES_def)
qed

theorem scheduler_bounds_witness:
  "sched_pending_bytes small_sched \<le> maximum_pending_bytes default_scheduler_config"
proof -
  have "maximum_pending_bytes default_scheduler_config + 16 < usize_max"
    by (simp add: default_scheduler_config_def usize_max_def)
  from scheduler_bounds [OF this small_run] show ?thesis by simp
qed

end
