(* ===== verification/Scheduler_Progress.thy ===== *)
theory Scheduler_Progress
  imports Scheduler_Bounds
begin

text \<open>
  What the output scheduler does with its queues: control bytes are kept in order, synchronization
  markers are removed and added uniformly, an application's hold stops everything but a started
  transaction, and forced drains finish.
\<close>

text \<open>The 16 bytes of the exception are really reachable: the recount ignores the maximum.\<close>

lemma capability_change_exceeds_maximum:
  "\<exists>(config :: output_scheduler_config) (s :: (unit, unit) output_scheduler).
     s = fst (sched_run [OpRender small_batch default_bundle 0, OpSupported True] (scheduler_new config False, [])) \<and>
     maximum_pending_bytes config < sched_pending_bytes s"
  by (rule exI [of _ "default_scheduler_config\<lparr>maximum_pending_bytes := 2\<rparr>"], rule exI, rule conjI [OF refl])
    (simp add: sched_run_def enqueue_render_with_accessibility_def scheduler_new_def Let_def
      render_batch_byte_len_def checked_add_fold_def small_batch_def checked_add_usize_def usize_max_def
      unstarted_render_index_def sched_pending_bytes_def saturating_add_usize_def default_scheduler_config_def
      accept_render_def replace_pending_def replace_active_def note_pending_def
      set_synchronized_output_supported_def marker_lengths)

section \<open>Control bytes\<close>

text \<open>
  The bytes a scheduler still owes the terminal, each with the kind of transaction it belongs to, in
  the order in which they go out: what remains of the active transactions, then the queues.
\<close>

definition tagged :: "('s, 'f) active_transaction \<Rightarrow> (active_transaction_kind \<times> byte) list" where
  "tagged t = map (Pair (at_kind t)) (at_remaining t)"

definition queued ::
  "pending_bytes_entry list \<Rightarrow> terminal_effect list \<Rightarrow> bytes option \<Rightarrow> nat \<Rightarrow>
     (active_transaction_kind \<times> byte) list" where
  "queued controls effects rendered bells =
     map (Pair KindControl) (concat (map pb_bytes controls)) @
     map (Pair KindEffect) (concat (map (\<lambda>e. encode_terminal_effect (te_event e)) effects)) @
     (case rendered of None \<Rightarrow> [] | Some bs \<Rightarrow> map (Pair KindRender) bs) @
     replicate bells (KindBell, CHR 0x07)"

definition backlog :: "('s, 'f) output_scheduler \<Rightarrow> (active_transaction_kind \<times> byte) list" where
  "backlog s =
     concat (map tagged (os_active s)) @
     queued (os_pending_bytes s) (os_pending_effects s)
       (map_option (\<lambda>r. render_bytes (os_synchronized_output_supported s) (pr_batch r)) (os_pending_render s))
       (os_pending_bells s)"

definition control_part :: "(active_transaction_kind \<times> byte) list \<Rightarrow> bytes" where
  "control_part bs = map snd (filter (\<lambda>b. fst b = KindControl) bs)"

definition control_stream :: "('s, 'f) output_scheduler \<Rightarrow> bytes" where
  "control_stream s = control_part (backlog s)"

lemma control_part_append [simp]: "control_part (xs @ ys) = control_part xs @ control_part ys"
  by (simp add: control_part_def)

lemma control_part_tagged:
  "control_part (concat (map tagged ts)) = concat (map at_remaining (filter (\<lambda>t. at_kind t = KindControl) ts))"
proof (induction ts)
  case (Cons t ts)
  have "filter (\<lambda>b. fst b = KindControl) (tagged t) = (if at_kind t = KindControl then tagged t else [])"
    by (simp add: tagged_def filter_map o_def)
  then have "control_part (tagged t) = (if at_kind t = KindControl then at_remaining t else [])"
    by (auto simp: control_part_def tagged_def o_def)
  with Cons.IH show ?case by simp
qed (simp add: control_part_def)

lemma control_part_same: "control_part (map (Pair k) bs) = (if k = KindControl then bs else [])"
  by (auto simp: control_part_def filter_map o_def)

lemma control_stream_queues:
  "control_stream s =
     concat (map at_remaining (filter (\<lambda>t. at_kind t = KindControl) (os_active s))) @
     concat (map pb_bytes (os_pending_bytes s))"
proof -
  have "control_part (replicate n (KindBell, b)) = []" for n b
    by (simp add: control_part_def)
  then show ?thesis
    by (simp add: control_stream_def backlog_def queued_def control_part_tagged control_part_same split: option.split)
      (simp add: control_part_def)
qed

lemma tagged_controls:
  "concat (map tagged (map (\<lambda>p. \<lparr>at_kind = KindControl, at_bytes = pb_bytes p, at_offset = 0,
     at_completed_render = None, at_completed_effects = []\<rparr>) q)) = map (Pair KindControl) (concat (map pb_bytes q))"
  by (induction q) (simp_all add: tagged_def at_remaining_def)

lemma tagged_effects:
  "concat (map tagged (map (\<lambda>e. \<lparr>at_kind = KindEffect, at_bytes = encode_terminal_effect (te_event e),
     at_offset = 0, at_completed_render = None, at_completed_effects = [e]\<rparr>) es)) =
   map (Pair KindEffect) (concat (map (\<lambda>e. encode_terminal_effect (te_event e)) es))"
  by (induction es) (simp_all add: tagged_def at_remaining_def)

lemma backlog_activate: "backlog (activate_pending s) = backlog s"
proof (cases "os_active s = []")
  case True
  then show ?thesis
    by (cases "os_pending_render s")
      (simp_all add: backlog_def activate_pending_def queued_def tagged_controls tagged_effects del: map_map,
        simp_all add: tagged_def at_remaining_def)
qed (simp add: activate_pending_def)

lemma backlog_cong:
  assumes "os_active s' = os_active s" "os_pending_bytes s' = os_pending_bytes s" "os_pending_effects s' = os_pending_effects s"
    "os_pending_render s' = os_pending_render s" "os_pending_bells s' = os_pending_bells s"
    "os_synchronized_output_supported s' = os_synchronized_output_supported s"
  shows "backlog s' = backlog s"
  using assms by (simp add: backlog_def)

definition accounted ::
  "(active_transaction_kind \<times> byte) list \<Rightarrow> bytes \<Rightarrow> ('s, 'f) output_scheduler \<Rightarrow> wire_event list \<Rightarrow> bool" where
  "accounted owed wire s log \<longleftrightarrow> (\<exists>sent. owed = sent @ backlog s \<and> wire_bytes log = wire @ map snd sent)"

lemma accounted_cong: "accounted owed wire s log \<Longrightarrow> backlog s' = backlog s \<Longrightarrow> accounted owed wire s' log"
  by (simp add: accounted_def)

interpretation account: drain_invariant "\<lambda>s r log. accounted owed wire s log" for owed wire
proof (unfold_locales, goal_cases)
  case (4 s)
  then show ?case by (simp add: accounted_def backlog_activate)
next
  case (5 s)
  then obtain t rest where a: "os_active s = t # rest" "at_remaining t = []" by (cases "os_active s") auto
  then have "backlog (snd (pop_completed s)) = backlog s"
    by (simp add: backlog_def pop_completed_def Let_def tagged_def)
  with 5 show ?case by (simp add: accounted_def)
next
  case (6 s r log t rest n)
  let ?w = "take n (at_remaining t)"
  let ?t = "t\<lparr>at_offset := at_offset t + n\<rparr>"
  obtain sent where c: "owed = sent @ backlog s" "wire_bytes log = wire @ map snd sent"
    using 6(1) by (auto simp: accounted_def)
  have "at_remaining t = ?w @ at_remaining ?t" by (simp add: at_remaining_def add.commute flip: drop_drop)
  then have split: "tagged t = map (Pair (at_kind t)) ?w @ tagged ?t" by (simp add: tagged_def flip: map_append)
  have "owed = (sent @ map (Pair (at_kind t)) ?w) @ backlog (s\<lparr>os_active := ?t # rest, os_flush_required := True\<rparr>)"
    using c(1) 6(2) split by (simp add: backlog_def)
  moreover have "wire_bytes (log @ [Wrote ?w]) = wire @ map snd (sent @ map (Pair (at_kind t)) ?w)"
    using c(2) by (simp add: o_def)
  ultimately show ?case unfolding accounted_def by blast
next
  case (7 s r log s' r')
  have "backlog s' = backlog s" by (rule backlog_cong) (simp_all add: complete_awaiting_fields [OF 7(2)])
  with 7(1) show ?case by (simp add: accounted_def)
next
  case (8 s r log s' r')
  have "backlog s' = backlog s" by (rule backlog_cong) (simp_all add: complete_awaiting_fields [OF 8(3)])
  with 8(1) show ?case by (simp add: accounted_def)
qed (simp_all add: accounted_def backlog_def)

lemma control_stream_eq:
  "filter (\<lambda>t. at_kind t = KindControl) (os_active s') = filter (\<lambda>t. at_kind t = KindControl) (os_active s) \<Longrightarrow>
   os_pending_bytes s' = os_pending_bytes s \<Longrightarrow> control_stream s' = control_stream s"
  by (simp add: control_stream_queues)

lemma push_control: "control_stream (push_pending_bytes cls bs s) = control_stream s @ bs"
  by (cases "os_pending_bytes s" rule: rev_cases) (auto simp: control_stream_queues push_pending_bytes_def Let_def)

lemma filter_control_keep:
  "(\<And>t. at_kind t = KindControl \<Longrightarrow> P t) \<Longrightarrow>
     filter (\<lambda>t. at_kind t = KindControl) (filter P ts) = filter (\<lambda>t. at_kind t = KindControl) ts"
  by (simp add: filter_filter) (metis (mono_tags, lifting))

lemma evict_control: "control_stream (evict_unstarted s) = control_stream s"
  by (rule control_stream_eq) (simp_all add: evict_unstarted_def filter_control_keep del: filter_filter)

lemma note_control: "control_stream (note_pending now s) = control_stream s"
  by (simp add: control_stream_queues)

text \<open>
  Bytes are taken when the control backlog has room for them and the scheduler as a whole does,
  once whatever may be evicted has been.
\<close>

definition control_admitted :: "('s, 'f) output_scheduler \<Rightarrow> bytes \<Rightarrow> bool" where
  "control_admitted s bs \<longleftrightarrow>
     length (control_stream s) + length bs \<le> CONTROL_BACKLOG_LIMIT_BYTES \<and>
     (\<exists>t \<in> {s, evict_unstarted s}.
        saturating_add_usize (sched_pending_bytes t) (length bs) \<le> maximum_pending_bytes (os_config s))"

lemma remaining_lengths:
  "sum_list (map (\<lambda>t. length (at_bytes t) - at_offset t) ts) = length (concat (map at_remaining ts))"
  by (induction ts) (simp_all add: at_remaining_def)

lemma queue_lengths: "sum_list (map (\<lambda>p. length (pb_bytes p)) q) = length (concat (map pb_bytes q))"
  by (induction q) simp_all

lemma control_bytes_length: "control_bytes s = min (length (control_stream s)) usize_max"
  unfolding control_bytes_def control_stream_queues saturating_add_usize_def remaining_lengths queue_lengths
  by (simp only: length_append add.commute)

lemma control_room:
  "CONTROL_BACKLOG_LIMIT_BYTES < length bs \<or>
     CONTROL_BACKLOG_LIMIT_BYTES < saturating_add_usize (control_bytes s) (length bs) \<longleftrightarrow>
   CONTROL_BACKLOG_LIMIT_BYTES < length (control_stream s) + length bs"
  by (auto simp: control_bytes_length saturating_add_usize_def CONTROL_BACKLOG_LIMIT_BYTES_def usize_max_def)

lemma enqueue_bytes_control:
  "control_stream (enqueue_bytes cls bs now s) = control_stream s @ (if control_admitted s bs then bs else [])"
proof (cases "bs = []")
  case False
  have "os_config (evict_unstarted s) = os_config s" by (simp add: evict_unstarted_def)
  then show ?thesis
    using False unfolding enqueue_bytes_def Let_def control_room control_admitted_def
    by (auto simp: push_control note_control evict_control not_le)
qed (simp add: enqueue_bytes_def)

lemma enqueue_effect_control: "control_stream (enqueue_terminal_effect owner e now s) = control_stream s"
  by (rule control_stream_eq)
    (simp_all add: enqueue_terminal_effect_def Let_def filter_control_keep del: filter_filter)

lemma replace_active_control:
  "control_stream (fst (replace_active now s (unstarted_render_index s) acc)) = control_stream s"
proof (cases "unstarted_render_index s")
  case (Some i)
  then have i: "i < length (os_active s)" "at_kind (os_active s ! i) = KindRender"
    by (auto simp: unstarted_render_index_def position_Some)
  have "os_active s = take i (os_active s) @ os_active s ! i # drop (Suc i) (os_active s)"
    using i(1) by (simp add: id_take_nth_drop)
  then have "filter (\<lambda>t. at_kind t = KindControl) (take i (os_active s) @ drop (Suc i) (os_active s)) =
      filter (\<lambda>t. at_kind t = KindControl) (os_active s)"
    using i(2) by (metis (mono_tags, lifting) active_transaction_kind.distinct(1) filter.simps(2) filter_append)
  moreover have "filter (\<lambda>t. at_kind t = KindControl) (fst (reclaim_bells ts b)) =
      filter (\<lambda>t. at_kind t = KindControl) ts" for ts :: "('a, 'b) active_transaction list" and b
    unfolding reclaim_bells_filter by (rule filter_control_keep) simp
  ultimately show ?thesis
    by (intro control_stream_eq) (simp_all add: Some replace_active_def Let_def case_prod_beta)
qed (simp add: replace_active_def)

lemma enqueue_render_control:
  "control_stream (snd (enqueue_render_with_accessibility batch acc now s)) = control_stream s"
proof -
  have pend: "control_stream (fst (replace_pending s)) = control_stream s"
    "unstarted_render_index (fst (replace_pending s)) = unstarted_render_index s" for s :: "('a, 'b) output_scheduler"
    by (auto simp: replace_pending_def control_stream_queues unstarted_render_index_def split: option.splits)
  have "control_stream (snd (accept_render batch acc now len req s)) = control_stream s"
    for s :: "('a, 'b) output_scheduler" and len req
  proof -
    define s1 where "s1 = fst (replace_pending s)"
    define s2 where "s2 = fst (replace_active now s1 (unstarted_render_index s) (snd (replace_pending s)))"
    have "control_stream s2 = control_stream s"
      using replace_active_control [of now s1 "snd (replace_pending s)"] pend [of s] by (simp add: s1_def s2_def)
    moreover have "control_stream (snd (accept_render batch acc now len req s)) = control_stream s2"
      by (rule control_stream_eq)
        (simp_all add: accept_render_def Let_def case_prod_beta s1_def [symmetric] s2_def [symmetric])
    ultimately show ?thesis by simp
  qed
  moreover have "control_stream (s\<lparr>os_bypass_next_render := False\<rparr>) = control_stream s" by (simp add: control_stream_queues)
  ultimately show ?thesis
    by (simp add: enqueue_render_with_accessibility_def Let_def split: option.splits)
qed

lemma operation_control:
  assumes "sched_step a (s, log) = (s', log')"
    and "\<And>bs now. a \<noteq> OpBytes bs now" "a \<noteq> OpCleanup" "\<And>now force script. a \<noteq> OpDrain now force script"
  shows "log' = log \<and> control_stream s' = control_stream s"
proof (cases a)
  case (OpRender b acc now)
  then show ?thesis using assms(1) enqueue_render_control [of b acc now s] by auto
next
  case (OpEffect owner e now)
  then show ?thesis using assms(1) enqueue_effect_control [of owner e now s] by auto
qed (use assms in \<open>auto simp: control_stream_queues enqueue_bell_def Let_def set_synchronized_output_supported_def
    observe_application_synchronization_def set_application_synchronization_bypassed_def notify_writable_def recover_def
    split: option.splits application_synchronization.splits\<close>)

lemma drain_account:
  fixes s :: "('s, 'f) output_scheduler"
  assumes "drain_ready now force s \<lparr>wr_script = script, wr_log = log\<rparr> = (res, s', w')"
  shows "\<exists>sent. wire_bytes (wr_log w') = wire_bytes log @ map snd sent \<and>
    (case res of Ok r \<Rightarrow> backlog s = sent @ backlog s'
     | Err e \<Rightarrow> prefix sent (backlog s) \<and> backlog s' = [] \<and> os_needs_reconciliation s')"
proof -
  have start: "accounted (backlog s) (wire_bytes log) s (wr_log \<lparr>wr_script = script, wr_log = log\<rparr>)"
    by (auto simp: accounted_def)
  show ?thesis
  proof (cases res)
    case (Ok r)
    show ?thesis using account.drain_Ok [OF start assms [unfolded Ok]] Ok by (auto simp: accounted_def)
  next
    case (Err e)
    obtain s0 :: "('s, 'f) output_scheduler" and log0 where f: "accounted (backlog s) (wire_bytes log) s0 log0"
        "s' = fail s0" "wr_log w' = log0 \<or> wr_log w' = log0 @ [Wrote []]"
      using account.drain_Err [OF start assms [unfolded Err]] by blast
    have "wire_bytes (wr_log w') = wire_bytes log0" using f(3) by auto
    moreover have "backlog s' = []" "os_needs_reconciliation s'"
      by (simp_all add: f(2) fail_def backlog_def queued_def)
    ultimately show ?thesis using f(1) Err by (auto simp: accounted_def)
  qed
qed

lemma cleanup_backlog:
  "backlog (prepare_for_lifecycle_cleanup s) = concat (map tagged (filter (\<lambda>t. 0 < at_offset t) (os_active s)))"
  by (simp add: backlog_def prepare_for_lifecycle_cleanup_def queued_def Let_def)

text \<open>
  C11: Every control byte is accounted for, in every state and whatever the writer does. Bytes offered
  to the scheduler join the control backlog whole and at its end when there is room for them, and are
  refused whole otherwise. A drain that succeeds writes exactly the head of what the scheduler owes, byte
  for byte, and goes on owing exactly the rest: nothing is lost, sent twice or reordered, however
  short its writes are. A drain that fails has written a head of it and then owes nothing, and asks for
  reconciliation. A lifecycle cleanup keeps exactly what remains of started transactions. No other
  operation writes, or touches the control backlog.
\<close>

theorem control_bytes_preserved:
  assumes "sched_step a (s, log) = (s', log')"
  shows "case a of
      OpBytes bs now \<Rightarrow> log' = log \<and>
        control_stream s' = control_stream s @ (if control_admitted s bs then bs else [])
    | OpCleanup \<Rightarrow> log' = log \<and>
        backlog s' = concat (map tagged (filter (\<lambda>t. 0 < at_offset t) (os_active s)))
    | OpDrain now force script \<Rightarrow>
        (case drain_ready now force s \<lparr>wr_script = script, wr_log = log\<rparr> of (res, s1, w1) \<Rightarrow>
          s' = s1 \<and> (\<exists>sent. wire_bytes (wr_log w1) = wire_bytes log @ map snd sent \<and>
          (case res of
             Ok r \<Rightarrow> log' = wr_log w1 \<and> backlog s = sent @ backlog s' \<and>
               control_stream s = control_part sent @ control_stream s'
           | Err e \<Rightarrow> prefix sent (backlog s) \<and> backlog s' = [] \<and> os_needs_reconciliation s')))
    | _ \<Rightarrow> log' = log \<and> control_stream s' = control_stream s"
proof (cases a)
  case (OpDrain now force script)
  obtain res s1 w1 where d: "drain_ready now force s \<lparr>wr_script = script, wr_log = log\<rparr> = (res, s1, w1)"
    by (metis prod_cases3)
  with assms OpDrain have "s' = s1" "log' = (case res of Ok r \<Rightarrow> wr_log w1 | Err e \<Rightarrow> [])"
    by (auto split: result.splits)
  with drain_account [OF d] OpDrain d show ?thesis by (auto simp: control_stream_def split: result.splits)
next
  case (OpBytes bs now)
  then show ?thesis using assms by (auto simp: enqueue_bytes_control)
qed (use assms operation_control [OF assms] cleanup_backlog in auto)

theorem control_bytes_preserved_witness:
  "control_stream (enqueue_bytes ClassControl ''x'' 0 small_sched) = ''x''"
proof -
  have "sched_step (OpBytes ''x'' 0) (small_sched, []) = (enqueue_bytes ClassControl ''x'' 0 small_sched, [])" by simp
  from control_bytes_preserved [OF this]
  have "control_stream (enqueue_bytes ClassControl ''x'' 0 small_sched) =
      control_stream small_sched @ (if control_admitted small_sched ''x'' then ''x'' else [])" by simp
  moreover have "control_stream small_sched = []" by (simp add: control_stream_queues small_sched_eq scheduler_new_def)
  moreover from this have "control_admitted small_sched ''x''"
    by (simp add: control_admitted_def CONTROL_BACKLOG_LIMIT_BYTES_def small_sched_eq scheduler_new_def
        sched_pending_bytes_def default_scheduler_config_def saturating_add_usize_def usize_max_def)
  ultimately show ?thesis by simp
qed

section \<open>Synchronization markers\<close>

lemma find_sub_None_tl: "find_sub p (x # xs) = None \<Longrightarrow> find_sub p xs = None \<and> \<not> starts_with (x # xs) p"
  by (auto split: if_splits)

lemma without_markers_id: "\<not> contains_synchronization_marker bs \<Longrightarrow> without_synchronization_markers bs = bs"
proof (induction bs)
  case (Cons b bs)
  from Cons.prems have n: "find_sub SYNCHRONIZED_OUTPUT_START (b # bs) = None"
    "find_sub SYNCHRONIZED_OUTPUT_END (b # bs) = None" by (simp_all add: contains_synchronization_marker_def)
  from find_sub_None_tl [OF n(1)] find_sub_None_tl [OF n(2)] Cons.IH show ?case
    by (subst without_synchronization_markers.simps) (simp add: contains_synchronization_marker_def)
qed (simp add: without_synchronization_markers.simps)

text \<open>
  The fast path that moves a single marker-free transaction without copying it yields the
  same render as the general path: for every batch the bytes are the batch's transactions without
  their markers, between one pair of markers when the terminal supports them.
\<close>

theorem render_bytes_uniform:
  "render_bytes supported batch =
     (if supported then SYNCHRONIZED_OUTPUT_START else []) @
     concat (map (\<lambda>t. without_synchronization_markers (ot_bytes t)) (rb_transactions batch)) @
     (if supported then SYNCHRONIZED_OUTPUT_END else [])"
  by (auto simp: render_bytes_def without_markers_id split: list.splits bool.splits)

text \<open>
  The removal is one pass: the two halves of a marker that stand around another marker are joined
  by it.
\<close>

lemma removal_can_form_marker:
  "contains_synchronization_marker (without_synchronization_markers
     (CHR 0x1B # ''[?20'' @ SYNCHRONIZED_OUTPUT_START @ ''26h''))"
  by (simp add: SYNCHRONIZED_OUTPUT_START_def SYNCHRONIZED_OUTPUT_END_def without_synchronization_markers.simps
      starts_with_def contains_synchronization_marker_def)

section \<open>The application's hold\<close>

definition started_remaining :: "('s, 'f) output_scheduler \<Rightarrow> bytes" where
  "started_remaining s =
     (case os_active s of [] \<Rightarrow> [] | t # _ \<Rightarrow> if 0 < at_offset t then at_remaining t else [])"

lemma write_once_log:
  assumes a: "os_active s = t # rest"
  shows "case write_once budget (s, r, w) of
      Inl (p, s', r', w') \<Rightarrow> wire_bytes (wr_log w') = wire_bytes (wr_log w)
    | Inr (s', r', w') \<Rightarrow> \<exists>k. wire_bytes (wr_log w') = wire_bytes (wr_log w) @ take k (at_remaining t) \<and>
        os_active s' = t\<lparr>at_offset := at_offset t + k\<rparr> # rest"
proof -
  define bs where "bs = take (budget - dr_bytes_written r) (at_remaining t)"
  obtain x w' where wr: "writer_write bs w = (x, w')" by fastforce
  show ?thesis
  proof (cases x)
    case (Err e)
    then have "wr_log w' = wr_log w"
      using wr by (auto simp: writer_write_def Let_def split: list.splits io_response.splits)
    then show ?thesis
      using Err wr a by (auto simp: write_once_def bs_def [symmetric] Let_def intro: exI [of _ 0])
  next
    case (Ok n)
    then have n: "n \<le> length bs" "wr_log w' = wr_log w @ [Wrote (take n bs)]"
      using wr by (auto simp: writer_write_def Let_def min_def split: list.splits io_response.splits if_splits)
    then have "take n bs = take n (at_remaining t)" by (simp add: bs_def)
    with n Ok wr a show ?thesis by (auto simp: write_once_def bs_def [symmetric] Let_def)
  qed
qed

lemma write_loop_started:
  "os_active s = t # rest \<Longrightarrow> list_all (\<lambda>u. at_offset u = 0) rest \<Longrightarrow>
   write_loop budget True (s, r, w) = (p, reached, s', r', w') \<Longrightarrow>
   \<exists>n. wire_bytes (wr_log w') = wire_bytes (wr_log w) @ take n (at_remaining t)"
proof (induction budget True "(s, r, w)" arbitrary: s r w t rule: write_loop.induct)
  case (1 budget s r w)
  note eq = write_loop.simps [of budget True s r w]
  have none: "\<exists>n. X = X @ take n Y" for X Y :: bytes by (rule exI [of _ 0]) simp
  show ?case
  proof (cases "\<not> dr_bytes_written r < budget \<or> os_active s = [] \<or> (True \<and> at_offset (hd (os_active s)) = 0)")
    case True
    with "1.prems"(3) have "w' = w" by (simp add: eq)
    then show ?thesis using none by simp
  next
    case go: False
    show ?thesis
    proof (cases "at_remaining (hd (os_active s)) = []")
      case True
      obtain b s1 where b: "pop_completed s = (b, s1)" by fastforce
      then have s1: "os_active s1 = rest" using pop_completed_active [of s] "1.prems"(1) by simp
      have "write_loop budget True (s1, r, w) = (Proceed, False, s1, r, w)"
        using s1 "1.prems"(2) by (cases rest) (simp_all add: write_loop.simps)
      then have "w' = w" using "1.prems"(3) go True b by (auto simp: eq split: if_splits)
      then show ?thesis using none by simp
    next
      case False
      note log = write_once_log [OF "1.prems"(1), where budget = budget and r = r and w = w]
      show ?thesis
      proof (cases "write_once budget (s, r, w)")
        case (Inl q)
        with "1.prems"(3) go False have "q = (p, s', r', w')" by (auto simp: eq split: prod.splits)
        with log Inl show ?thesis using none by simp
      next
        case (Inr st)
        obtain s1 r1 w1 where st: "st = (s1, r1, w1)" by (cases st) auto
        with Inr log obtain k where k: "wire_bytes (wr_log w1) = wire_bytes (wr_log w) @ take k (at_remaining t)"
            "os_active s1 = t\<lparr>at_offset := at_offset t + k\<rparr> # rest" by auto
        have "write_loop budget True (s1, r1, w1) = (p, reached, s', r', w')"
          using "1.prems"(3) go False Inr st by (auto simp: eq)
        from "1.hyps"(2) [OF go False Inr [unfolded st] k(2) "1.prems"(2) this]
        obtain n where "wire_bytes (wr_log w') = wire_bytes (wr_log w1) @
            take n (at_remaining (t\<lparr>at_offset := at_offset t + k\<rparr>))" by blast
        moreover have "at_remaining (t\<lparr>at_offset := at_offset t + k\<rparr>) = drop k (at_remaining t)"
          by (simp add: at_remaining_def add.commute)
        ultimately show ?thesis
          using k(1) by (intro exI [of _ "k + n"]) (simp add: take_add)
      qed
    qed
  qed
qed

lemma flush_writer_log:
  assumes "flush_writer (s, r, w) = (p, s', r', w')"
  shows "wire_bytes (wr_log w') = wire_bytes (wr_log w)"
  using assms by (auto simp: flush_writer_def split: prod.splits result.splits if_splits)

lemma flush_writer_state:
  assumes "flush_writer (s, r, w) = (Proceed, s', r', w')"
  shows "os_active s' = os_active s" "os_application_synchronization s' = os_application_synchronization s"
    "os_config s' = os_config s" "os_bypass_generation s = None \<Longrightarrow> os_bypass_generation s' = None"
proof -
  obtain r1 where c: "complete_awaiting_renders (s\<lparr>os_flush_required := False\<rparr>) r = (s', r1)"
    using assms by (auto simp: flush_writer_def split: prod.splits result.splits if_splits)
  note f = complete_awaiting_fields [OF c]
  show "os_active s' = os_active s" "os_application_synchronization s' = os_application_synchronization s"
    "os_config s' = os_config s" using f by simp_all
  have "complete_renders rs s0 r0 = (s1, r1) \<Longrightarrow> os_bypass_generation s0 = None \<Longrightarrow> os_bypass_generation s1 = None"
    for rs s0 r0 s1 r1
    by (induction rs arbitrary: s0 r0) (auto simp: Let_def split: if_splits)
  from this [of "os_awaiting_flush_renders s" "s\<lparr>os_flush_required := False\<rparr>" r]
  show "os_bypass_generation s = None \<Longrightarrow> os_bypass_generation s' = None"
    using c by (auto simp: complete_awaiting_renders_def split: prod.splits)
qed

lemma finish_drain_log: "finish_drain (s, r, w) = (res, s', w') \<Longrightarrow> w' = w"
  by (auto simp: finish_drain_def Let_def split: prod.splits if_splits)

lemma after_flush_log:
  assumes "after_flush (s, r, w) k = (res, s', w')"
  shows "wire_bytes (wr_log w') = wire_bytes (wr_log w) \<or>
    (\<exists>s1 r1 w1. k (s1, r1, w1) = (res, s', w') \<and> wire_bytes (wr_log w1) = wire_bytes (wr_log w) \<and>
       os_active s1 = os_active s \<and> os_application_synchronization s1 = os_application_synchronization s \<and>
       os_config s1 = os_config s \<and> (os_bypass_generation s = None \<longrightarrow> os_bypass_generation s1 = None))"
proof (cases "os_flush_required s")
  case True
  obtain p s1 r1 w1 where f: "flush_writer (s, r, w) = (p, s1, r1, w1)" by (metis prod_cases4)
  note log = flush_writer_log [OF f]
  show ?thesis
  proof (cases p)
    case Proceed
    then have "k (s1, r1, w1) = (res, s', w')" using assms True f by (simp add: after_flush_def)
    with log flush_writer_state [OF f [unfolded Proceed]] show ?thesis
      by (intro disjI2 exI [of _ s1] exI [of _ r1] exI [of _ w1]) simp
  qed (use assms True f log in \<open>auto simp: after_flush_def\<close>)
qed (use assms in \<open>auto simp: after_flush_def\<close>)

lemma hold_phase_holds:
  assumes sync: "os_application_synchronization s = Some (SyncActive started last_act)"
    and idle: "now < saturating_add_u128 last_act (synchronization_timeout_ms (os_config s))"
    and hard: "now < saturating_add_u128 started (synchronization_hard_timeout_ms (os_config s))"
    and byp: "os_bypass_generation s = None"
    and rest: "list_all (\<lambda>u. at_offset u = 0) (tl (os_active s))"
    and d: "hold_phase now False (s, r, w) = (res, s', w')"
  shows "\<exists>n. wire_bytes (wr_log w') = wire_bytes (wr_log w) @ take n (started_remaining s)"
proof (cases "os_active s \<noteq> [] \<and> 0 < at_offset (hd (os_active s))")
  case False
  then have "apply_hold now False s r = (HoldReturn, s, r)"
    using sync idle hard byp by (simp add: apply_hold_def Let_def)
  then have "w' = w" using d by (simp add: hold_phase_def)
  then show ?thesis by (intro exI [of _ 0]) simp
next
  case True
  then obtain t ts where a: "os_active s = t # ts" "0 < at_offset t" by (cases "os_active s") auto
  have "apply_hold now False s r = (HoldFinishStarted, s, r)"
    using True sync idle hard byp by (simp add: apply_hold_def Let_def)
  then have wp: "write_phase True (s, r, w) = (res, s', w')" using d a by (simp add: hold_phase_def)
  have act: "activate_pending s = s" using a by (simp add: activate_pending_def)
  obtain p reached s1 r1 w1 where
    l: "write_loop (max (write_budget_bytes (os_config s)) 1) True (s, r, w) = (p, reached, s1, r1, w1)"
    by (metis prod_cases5)
  obtain n where n: "wire_bytes (wr_log w1) = wire_bytes (wr_log w) @ take n (at_remaining t)"
    using write_loop_started [OF a(1) _ l] rest a(1) by auto
  have "wire_bytes (wr_log w') = wire_bytes (wr_log w1)"
  proof (cases p)
    case Proceed
    then have "after_flush (record_completed reached s1, r1, w1) finish_drain = (res, s', w')"
      using wp l act by (simp add: write_phase_def Let_def)
    from after_flush_log [OF this] show ?thesis using finish_drain_log by metis
  qed (use wp l act in \<open>simp_all add: write_phase_def Let_def\<close>)
  with n a show ?thesis by (auto simp: started_remaining_def)
qed

text \<open>
  While an application's synchronized update is open, neither timed out nor bypassed, a drain
  that is not forced writes nothing but a part of what remains of the one transaction that was
  already started, whatever is queued and however the writer behaves.
\<close>

theorem hold_writes_started_only:
  assumes "sched_run ops (scheduler_new config supported, []) = (s, log)"
    and "os_application_synchronization s = Some (SyncActive started last_act)"
    and "now < saturating_add_u128 last_act (synchronization_timeout_ms config)"
    and "now < saturating_add_u128 started (synchronization_hard_timeout_ms config)"
    and "os_bypass_generation s = None"
    and "drain_ready now False s \<lparr>wr_script = script, wr_log = log\<rparr> = (res, s', w')"
  shows "\<exists>n. wire_bytes (wr_log w') = wire_bytes log @ take n (started_remaining s)"
proof -
  have c: "os_config s = config" using sched_run_config [OF assms(1)] by (simp add: scheduler_new_def)
  have "wire_inv (requests ops) s log" using sched_run_wire [OF scheduler_new_wire _ assms(1)] by blast
  then have rest: "list_all (\<lambda>u. at_offset u = 0) (tl (os_active s))"
    by (cases "os_active s") (auto simp: wire_inv_def active_ok_def)
  have none: "\<exists>n. X = X @ take n Y" for X Y :: bytes by (rule exI [of _ 0]) simp
  show ?thesis
  proof (cases "os_needs_reconciliation s \<or> os_waiting_for_writable s")
    case True
    then have "wr_log w' = log" using assms(6) by (auto simp: drain_ready_def)
    then show ?thesis using none by simp
  next
    case False
    then have "after_flush (s, empty_report, \<lparr>wr_script = script, wr_log = log\<rparr>) (hold_phase now False) = (res, s', w')"
      using assms(6) by (simp add: drain_ready_def)
    from after_flush_log [OF this] show ?thesis
    proof
      assume "wire_bytes (wr_log w') = wire_bytes (wr_log \<lparr>wr_script = script, wr_log = log\<rparr>)"
      then show ?thesis using none by simp
    next
      assume "\<exists>s1 r1 w1. hold_phase now False (s1, r1, w1) = (res, s', w') \<and>
        wire_bytes (wr_log w1) = wire_bytes (wr_log \<lparr>wr_script = script, wr_log = log\<rparr>) \<and>
        os_active s1 = os_active s \<and> os_application_synchronization s1 = os_application_synchronization s \<and>
        os_config s1 = os_config s \<and> (os_bypass_generation s = None \<longrightarrow> os_bypass_generation s1 = None)"
      then obtain s1 r1 w1 where h: "hold_phase now False (s1, r1, w1) = (res, s', w')"
          "wire_bytes (wr_log w1) = wire_bytes log" "os_active s1 = os_active s"
          "os_application_synchronization s1 = os_application_synchronization s" "os_config s1 = os_config s"
          "os_bypass_generation s1 = None"
        using assms(5) by auto
      have "started_remaining s1 = started_remaining s" using h(3) by (simp add: started_remaining_def)
      with hold_phase_holds [OF _ _ _ h(6) _ h(1), of started last_act] h assms(2-4) c rest show ?thesis by simp
    qed
  qed
qed

definition held_sched :: "(unit, unit) output_scheduler" where
  "held_sched = observe_application_synchronization True True True 5 small_sched"

theorem hold_writes_started_only_witness:
  "wire_bytes (wr_log (snd (snd (drain_ready 6 False held_sched \<lparr>wr_script = [], wr_log = []\<rparr>)))) = []"
proof -
  have run: "sched_run [OpRender small_batch default_bundle 0, OpObserve True True True 5]
      (scheduler_new default_scheduler_config False, []) = (held_sched, [])"
    using small_run by (simp add: sched_run_def held_sched_def)
  have held: "os_application_synchronization held_sched = Some (SyncActive 5 5)" "os_bypass_generation held_sched = None"
    "started_remaining held_sched = []"
    by (simp_all add: held_sched_def observe_application_synchronization_def small_sched_eq scheduler_new_def
        started_remaining_def)
  obtain res s' w' where d: "drain_ready 6 False held_sched \<lparr>wr_script = [], wr_log = []\<rparr> = (res, s', w')"
    by (metis prod_cases3)
  have "\<exists>n. wire_bytes (wr_log w') = wire_bytes [] @ take n (started_remaining held_sched)"
    by (rule hold_writes_started_only [OF run held(1) _ _ held(2) d])
      (simp_all add: saturating_add_u128_def default_scheduler_config_def)
  with d held(3) show ?thesis by simp
qed

section \<open>Progress\<close>

text \<open>
  The work a scheduler still has: every byte that would be written and every item that has to be
  activated or retired.
\<close>

definition item_work :: "('s, 'f) active_transaction \<Rightarrow> nat" where
  "item_work t = length (at_remaining t) + 1"

definition sched_work :: "('s, 'f) output_scheduler \<Rightarrow> nat" where
  "sched_work s =
     sum_list (map item_work (os_active s)) +
     sum_list (map (\<lambda>p. length (pb_bytes p) + 1) (os_pending_bytes s)) +
     sum_list (map (\<lambda>e. length (encode_terminal_effect (te_event e)) + 1) (os_pending_effects s)) +
     (case os_pending_render s of None \<Rightarrow> 0
      | Some r \<Rightarrow> length (render_bytes (os_synchronized_output_supported s) (pr_batch r)) + 1) +
     (if 0 < os_pending_bells s then os_pending_bells s + 1 else 0)"

definition sched_idle :: "('s, 'f) output_scheduler \<Rightarrow> bool" where
  "sched_idle s \<longleftrightarrow> os_active s = [] \<and> os_pending_bytes s = [] \<and> os_pending_render s = None \<and>
     os_pending_effects s = [] \<and> os_pending_bells s = 0"

lemma sched_work_zero: "sched_work s = 0 \<longleftrightarrow> sched_idle s"
  by (auto simp: sched_work_def sched_idle_def item_work_def split: option.splits)

lemma queued_work:
  "sum_list (map item_work (map (\<lambda>p. \<lparr>at_kind = KindControl, at_bytes = pb_bytes p, at_offset = 0,
      at_completed_render = None, at_completed_effects = []\<rparr>) q)) = sum_list (map (\<lambda>p. length (pb_bytes p) + 1) q)"
  by (induction q) (simp_all add: item_work_def at_remaining_def)

lemma effects_work:
  "sum_list (map item_work (map (\<lambda>e. \<lparr>at_kind = KindEffect, at_bytes = encode_terminal_effect (te_event e),
      at_offset = 0, at_completed_render = None, at_completed_effects = [e]\<rparr>) es)) =
      sum_list (map (\<lambda>e. length (encode_terminal_effect (te_event e)) + 1) es)"
  by (induction es) (simp_all add: item_work_def at_remaining_def)

lemma activate_work:
  "sched_work (activate_pending s) = sched_work s"
  "sched_idle s \<or> os_active (activate_pending s) \<noteq> []"
proof -
  show "sched_work (activate_pending s) = sched_work s"
    by (auto simp: activate_pending_def sched_work_def queued_work effects_work simp del: map_map split: option.splits)
      (simp_all add: item_work_def at_remaining_def)
  show "sched_idle s \<or> os_active (activate_pending s) \<noteq> []"
    by (auto simp: activate_pending_def sched_idle_def split: option.splits)
qed

lemma pop_work:
  assumes "os_active s \<noteq> []" and "pop_completed s = (b, s')"
  shows "sched_work s' < sched_work s"
proof -
  obtain t ts where a: "os_active s = t # ts" using assms(1) by (cases "os_active s") auto
  then have s': "os_active s' = ts" "os_pending_bytes s' = os_pending_bytes s"
    "os_pending_effects s' = os_pending_effects s" "os_pending_render s' = os_pending_render s"
    "os_pending_bells s' = os_pending_bells s"
    "os_synchronized_output_supported s' = os_synchronized_output_supported s"
    using assms(2) by (auto simp: pop_completed_def Let_def)
  show ?thesis unfolding sched_work_def s' a by (simp add: item_work_def)
qed

text \<open>With a writer that accepts everything, a write makes progress and never leaves the loop.\<close>

lemma write_once_accepts:
  assumes "os_active s \<noteq> []" and "at_remaining (hd (os_active s)) \<noteq> []" and "dr_bytes_written r < budget"
    and "wr_script w = []"
  shows "\<exists>s' r' w'. write_once budget (s, r, w) = Inr (s', r', w') \<and> sched_work s' < sched_work s \<and> wr_script w' = [] \<and>
    os_config s' = os_config s \<and> os_needs_reconciliation s' = os_needs_reconciliation s"
proof -
  obtain t ts where a: "os_active s = t # ts" using assms(1) by (cases "os_active s") auto
  define bs where "bs = take (budget - dr_bytes_written r) (at_remaining t)"
  have bs: "bs \<noteq> []" "length bs \<le> length (at_remaining t)" using assms a by (auto simp: bs_def)
  let ?t = "t\<lparr>at_offset := at_offset t + length bs\<rparr>"
  have "item_work ?t < item_work t" using bs by (cases bs) (auto simp: item_work_def at_remaining_def)
  then have "sched_work (s\<lparr>os_active := ?t # ts, os_flush_required := True\<rparr>) < sched_work s"
    unfolding sched_work_def by (simp add: a split: option.splits)
  then show ?thesis
    using a bs assms(4) by (simp add: write_once_def bs_def [symmetric] Let_def writer_write_def)
qed

lemma write_loop_accepts:
  "wr_script w = [] \<Longrightarrow>
   \<exists>reached s' r' w'. write_loop budget False (s, r, w) = (Proceed, reached, s', r', w') \<and> wr_script w' = [] \<and>
     os_config s' = os_config s \<and> os_needs_reconciliation s' = os_needs_reconciliation s \<and>
     sched_work s' \<le> sched_work s \<and>
     (os_active s \<noteq> [] \<and> dr_bytes_written r < budget \<longrightarrow> sched_work s' < sched_work s)"
proof (induction budget False "(s, r, w)" arbitrary: s r w rule: write_loop.induct)
  case (1 budget s r w)
  note eq = write_loop.simps [of budget False s r w]
  show ?case
  proof (cases "\<not> dr_bytes_written r < budget \<or> os_active s = [] \<or> (False \<and> at_offset (hd (os_active s)) = 0)")
    case True
    then show ?thesis using "1.prems" by (auto simp: eq)
  next
    case go: False
    show ?thesis
    proof (cases "at_remaining (hd (os_active s)) = []")
      case True
      obtain b s1 where b: "pop_completed s = (b, s1)" by fastforce
      have less: "sched_work s1 < sched_work s" using pop_work [OF _ b] go by simp
      have keep: "os_config s1 = os_config s" "os_needs_reconciliation s1 = os_needs_reconciliation s"
        using b by (auto simp: pop_completed_def Let_def)
      show ?thesis
      proof (cases b)
        case True
        then show ?thesis using go \<open>at_remaining (hd (os_active s)) = []\<close> b less keep "1.prems" by (auto simp: eq)
      next
        case False
        from "1.hyps"(1) [OF go True b [symmetric] refl False "1.prems"]
        obtain reached s' r' w' where "write_loop budget False (s1, r, w) = (Proceed, reached, s', r', w')"
          "wr_script w' = []" "os_config s' = os_config s1" "os_needs_reconciliation s' = os_needs_reconciliation s1"
          "sched_work s' \<le> sched_work s1" by blast
        then show ?thesis using go True b False less keep by (auto simp: eq)
      qed
    next
      case False
      obtain s1 r1 w1 where o: "write_once budget (s, r, w) = Inr (s1, r1, w1)" "sched_work s1 < sched_work s"
          "wr_script w1 = []" "os_config s1 = os_config s" "os_needs_reconciliation s1 = os_needs_reconciliation s"
        using write_once_accepts [OF _ False _ "1.prems"] go by blast
      from "1.hyps"(2) [OF go False o(1) o(3)]
      obtain reached s' r' w' where "write_loop budget False (s1, r1, w1) = (Proceed, reached, s', r', w')"
        "wr_script w' = []" "os_config s' = os_config s1" "os_needs_reconciliation s' = os_needs_reconciliation s1"
        "sched_work s' \<le> sched_work s1" by blast
      then show ?thesis using go False o by (auto simp: eq)
    qed
  qed
qed

lemma record_completed_work:
  "sched_work (record_completed reached s) \<le> sched_work s \<and>
   os_needs_reconciliation (record_completed reached s) = os_needs_reconciliation s \<and>
   os_config (record_completed reached s) = os_config s"
proof (induction reached s rule: record_completed.induct)
  case (1 reached s)
  show ?case
  proof (cases "\<not> reached \<and> os_active s \<noteq> [] \<and> at_remaining (hd (os_active s)) = []")
    case True
    obtain b s1 where b: "pop_completed s = (b, s1)" by fastforce
    have "sched_work s1 < sched_work s" using pop_work [OF _ b] True by simp
    moreover have "os_config s1 = os_config s" "os_needs_reconciliation s1 = os_needs_reconciliation s"
      using b by (auto simp: pop_completed_def Let_def)
    moreover have "record_completed reached s = record_completed b s1"
      using True b by (subst record_completed.simps) simp
    ultimately show ?thesis using 1 [OF True b [symmetric]] by simp
  next
    case False
    then have "record_completed reached s = s" by (subst record_completed.simps) auto
    then show ?thesis by simp
  qed
qed

lemma complete_awaiting_work:
  "complete_awaiting_renders s r = (s', r') \<Longrightarrow> sched_work s' = sched_work s"
  by (simp add: sched_work_def complete_awaiting_fields split: option.splits)

lemma after_flush_accepts:
  assumes "wr_script w = []"
  shows "\<exists>s1 r1 w1. after_flush (s, r, w) k = k (s1, r1, w1) \<and> wr_script w1 = [] \<and> \<not> os_flush_required s1 \<and>
    sched_work s1 = sched_work s \<and> os_config s1 = os_config s \<and>
    os_needs_reconciliation s1 = os_needs_reconciliation s \<and> dr_bytes_written r1 = dr_bytes_written r"
proof (cases "os_flush_required s")
  case True
  obtain s' r' where c: "complete_awaiting_renders (s\<lparr>os_flush_required := False\<rparr>) r = (s', r')" by fastforce
  let ?w = "w\<lparr>wr_script := [], wr_log := wr_log w @ [Flushed]\<rparr>"
  have "after_flush (s, r, w) k = k (s', r', ?w)"
    using True assms c by (auto simp: after_flush_def flush_writer_def)
  moreover have "sched_work (s\<lparr>os_flush_required := False\<rparr>) = sched_work s"
    by (simp add: sched_work_def split: option.splits)
  ultimately show ?thesis
    using complete_awaiting_work [OF c] complete_awaiting_fields [OF c] complete_awaiting_spec(4) [OF c]
    by (intro exI [of _ s'] exI [of _ r'] exI [of _ ?w]) simp
qed (use assms in \<open>auto simp: after_flush_def\<close>)

definition advances :: "('s, 'f) output_scheduler \<Rightarrow> ('s, 'f) drain_result \<Rightarrow> bool" where
  "advances s res \<longleftrightarrow> (\<exists>r s' w'. res = (Ok r, s', w') \<and> \<not> os_needs_reconciliation s' \<and>
     sched_work s' \<le> sched_work s - 1)"

lemma finish_drain_accepts:
  assumes "\<not> os_needs_reconciliation s"
  shows "\<exists>r' s'. finish_drain (s, r, w) = (Ok r', s', w) \<and> \<not> os_needs_reconciliation s' \<and> sched_work s' = sched_work s"
proof -
  obtain s' r' where c: "complete_awaiting_renders s r = (s', r')" by fastforce
  show ?thesis
    using assms c complete_awaiting_work [OF c] complete_awaiting_fields(11) [OF c]
    by (auto simp: finish_drain_def)
qed

lemma write_phase_accepts:
  assumes w: "wr_script w = []" and n: "\<not> os_needs_reconciliation s" and r: "dr_bytes_written r = 0"
  shows "advances s (write_phase False (s, r, w))"
proof -
  define s0 where "s0 = activate_pending s"
  let ?b = "max (write_budget_bytes (os_config s)) 1"
  have s0: "sched_work s0 = sched_work s" "sched_idle s \<or> os_active s0 \<noteq> []"
    "os_needs_reconciliation s0 = os_needs_reconciliation s"
    using activate_work [of s] by (simp_all add: s0_def activate_pending_def)
  obtain reached s1 r1 w1 where l: "write_loop ?b False (s0, r, w) = (Proceed, reached, s1, r1, w1)" "wr_script w1 = []"
      "os_needs_reconciliation s1 = os_needs_reconciliation s0" "sched_work s1 \<le> sched_work s0"
      "os_active s0 \<noteq> [] \<and> dr_bytes_written r < ?b \<longrightarrow> sched_work s1 < sched_work s0"
    using write_loop_accepts [OF w, of ?b s0 r] by blast
  have less: "sched_work s1 \<le> sched_work s - 1"
  proof (cases "sched_idle s")
    case True
    then show ?thesis using l(4) s0(1) sched_work_zero [of s] by simp
  qed (use l(5) s0 r in auto)
  let ?s2 = "record_completed reached s1"
  obtain s3 r3 w3 where f: "after_flush (?s2, r1, w1) finish_drain = finish_drain (s3, r3, w3)"
      "sched_work s3 = sched_work ?s2" "os_needs_reconciliation s3 = os_needs_reconciliation ?s2"
    using after_flush_accepts [OF l(2), of ?s2 r1 finish_drain] by blast
  have "write_phase False (s, r, w) = finish_drain (s3, r3, w3)"
    using l(1) f(1) by (simp add: write_phase_def Let_def s0_def)
  moreover obtain r' s' where "finish_drain (s3, r3, w3) = (Ok r', s', w3)" "\<not> os_needs_reconciliation s'"
      "sched_work s' = sched_work s3"
    using finish_drain_accepts [of s3 r3 w3] f(3) record_completed_work [of reached s1] l(3) s0(3) n by auto
  ultimately show ?thesis
    using less f(2) record_completed_work [of reached s1] by (auto simp: advances_def)
qed

lemma hold_phase_accepts:
  assumes "wr_script w = []" and n: "\<not> os_needs_reconciliation s" and r: "dr_bytes_written r = 0"
  shows "advances s (hold_phase now True (s, r, w))"
proof -
  obtain h s1 r1 where ap: "apply_hold now True s r = (h, s1, r1)" by (metis prod_cases3)
  then have a: "apply_hold now True s r = (HoldPass, s1, r1)" "sched_work s1 = sched_work s"
      "\<not> os_needs_reconciliation s1" "dr_bytes_written r1 = 0"
    using n r by (auto simp: apply_hold_def Let_def sched_work_def
        split: option.splits application_synchronization.splits if_splits)
  have "hold_phase now True (s, r, w) = write_phase False (s1, r1, w)" using a(1) by (simp add: hold_phase_def)
  with write_phase_accepts [OF assms(1) a(3,4)] a(2) show ?thesis by (simp add: advances_def)
qed

lemma forced_drain_advances:
  assumes "\<not> os_needs_reconciliation s"
  shows "advances s (drain_ready now True s \<lparr>wr_script = [], wr_log = log\<rparr>)"
proof -
  let ?s = "s\<lparr>os_waiting_for_writable := False\<rparr>"
  have w: "sched_work ?s = sched_work s" by (simp add: sched_work_def split: option.splits)
  obtain s1 r1 w1 where "after_flush (?s, empty_report, \<lparr>wr_script = [], wr_log = log\<rparr>) (hold_phase now True) =
      hold_phase now True (s1, r1, w1)" "wr_script w1 = []" "sched_work s1 = sched_work ?s"
      "os_needs_reconciliation s1 = os_needs_reconciliation ?s" "dr_bytes_written r1 = 0"
    using after_flush_accepts [of "\<lparr>wr_script = [], wr_log = log\<rparr>" ?s empty_report "hold_phase now True"]
    by (auto simp: empty_report_def)
  with hold_phase_accepts [of w1 s1 r1 now] assms w show ?thesis by (simp add: drain_ready_def Let_def advances_def)
qed

definition forced_drain :: "nat \<Rightarrow> ('s, 'f) output_scheduler \<Rightarrow> ('s, 'f) output_scheduler" where
  "forced_drain now s = fst (snd (drain_ready now True s \<lparr>wr_script = [], wr_log = []\<rparr>))"

lemma forced_drain_work:
  assumes "\<not> os_needs_reconciliation s"
  shows "sched_work (forced_drain now s) \<le> sched_work s - 1 \<and> \<not> os_needs_reconciliation (forced_drain now s)"
  using forced_drain_advances [OF assms, of now "[]"] by (auto simp: forced_drain_def advances_def)

lemma forced_drains_work:
  "\<not> os_needs_reconciliation s \<Longrightarrow> sched_work (fold forced_drain nows s) \<le> sched_work s - length nows"
proof (induction nows arbitrary: s)
  case (Cons now nows)
  from Cons.IH [of "forced_drain now s"] forced_drain_work [OF Cons.prems, of now] show ?case by auto
qed simp

text \<open>
  C9: A scheduler that does not wait for reconciliation empties itself: as soon as the terminal
  accepts what it is given, forced drains, at whatever times, finish every queued and every
  partially written transaction, no matter how small the write budget is, in at most as many
  calls as there are bytes and items left.
\<close>

theorem forced_drains_finish:
  assumes "\<not> os_needs_reconciliation s" and "sched_work s \<le> length nows"
  shows "sched_idle (fold forced_drain nows s)"
  using forced_drains_work [OF assms(1), of nows] assms(2) sched_work_zero [of "fold forced_drain nows s"] by simp

theorem forced_drains_finish_witness:
  "sched_idle (fold forced_drain (replicate 3 9) small_sched)"
proof (rule forced_drains_finish)
  show "\<not> os_needs_reconciliation small_sched" by (simp add: small_sched_eq scheduler_new_def)
  have "length (render_bytes False small_batch) \<le> 2"
    using render_bytes_length [of False small_batch] by (simp add: batch_bytes_def small_batch_def)
  then show "sched_work small_sched \<le> length (replicate 3 (9 :: nat))"
    by (simp add: small_sched_eq scheduler_new_def sched_work_def)
qed

end
