(* ===== verification/Rust_Strings.thy ===== *)
theory Rust_Strings
  imports Utf8
begin

text \<open>
  Functions of Rust's \<^verbatim>\<open>str\<close> that several components call: splitting, trimming of white
  space and of given characters, lines, and the control characters of Unicode. A \<^verbatim>\<open>str\<close> is its
  UTF-8 bytes.
\<close>

text \<open>\<^verbatim>\<open>split_once\<close> at a byte and at a string\<close>

definition split_once_byte :: "byte \<Rightarrow> bytes \<Rightarrow> (bytes \<times> bytes) option" where
  "split_once_byte c s = map_option (\<lambda>i. (take i s, drop (Suc i) s)) (position (\<lambda>b. b = c) s)"

definition split_once_str :: "bytes \<Rightarrow> bytes \<Rightarrow> (bytes \<times> bytes) option" where
  "split_once_str p s = map_option (\<lambda>i. (take i s, drop (i + length p) s)) (find_sub p s)"

text \<open>The characters that \<^verbatim>\<open>str::trim\<close> removes, in UTF-8 (Unicode White_Space)\<close>

definition whitespace_chars :: "bytes list" where
  "whitespace_chars =
     map (\<lambda>n. encode_utf8 n)
       ([9, 10, 11, 12, 13, 32, 0x85, 0xA0, 0x1680, 0x2000, 0x2001, 0x2002, 0x2003, 0x2004, 0x2005, 0x2006,
         0x2007, 0x2008, 0x2009, 0x200A, 0x2028, 0x2029, 0x202F, 0x205F, 0x3000])"

fun trim_with :: "(bytes \<Rightarrow> bytes \<Rightarrow> bytes option) \<Rightarrow> nat \<Rightarrow> bytes \<Rightarrow> bytes" where
  "trim_with strip 0 s = s"
| "trim_with strip (Suc n) s =
     (case List.map_filter (strip s) whitespace_chars of [] \<Rightarrow> s | r # _ \<Rightarrow> trim_with strip n r)"

definition str_trim :: "bytes \<Rightarrow> bytes" where
  "str_trim s = (let t = trim_with strip_prefix (length s) s in trim_with strip_suffix (length t) t)"

text \<open>\<^verbatim>\<open>str::lines\<close>: split at line feeds, without a last empty line and without one trailing
  carriage return per line\<close>

definition str_lines :: "bytes \<Rightarrow> bytes list" where
  "str_lines s =
     (let ls = split_on (CHR 0x0A) s;
          ls = (if last ls = [] then butlast ls else ls)
      in map (\<lambda>l. case strip_suffix l [CHR 0x0D] of Some r \<Rightarrow> r | None \<Rightarrow> l) ls)"

definition trim_end_byte :: "byte \<Rightarrow> bytes \<Rightarrow> bytes" where
  "trim_end_byte c s = rev (dropWhile (\<lambda>b. b = c) (rev s))"

definition to_ascii_lowercase :: "bytes \<Rightarrow> bytes" where
  "to_ascii_lowercase s =
     map (\<lambda>c. if 65 \<le> byte_val c \<and> byte_val c \<le> 90 then char_of (byte_val c + 32) else c) s"

text \<open>\<^verbatim>\<open>chars().any(char::is_control)\<close> on UTF-8: the C0 controls, delete, and the C1 controls,
  which are encoded as \<open>0xC2\<close> followed by \<open>0x80\<close> to \<open>0x9F\<close>\<close>

fun has_control_char :: "bytes \<Rightarrow> bool" where
  "has_control_char [] = False"
| "has_control_char (c # cs) =
     (is_ascii_control c \<or>
      byte_val c = 0xC2 \<and> cs \<noteq> [] \<and> 0x80 \<le> byte_val (hd cs) \<and> byte_val (hd cs) \<le> 0x9F \<or>
      has_control_char cs)"

text \<open>The number of bytes of a character, from its leading byte\<close>

definition utf8_char_len :: "byte \<Rightarrow> nat" where
  "utf8_char_len c =
     (if byte_val c < 0x80 then 1 else if byte_val c < 0xE0 then 2 else if byte_val c < 0xF0 then 3 else 4)"

text \<open>\<^verbatim>\<open>split_ascii_whitespace\<close>: the maximal runs of other bytes\<close>

definition split_ascii_whitespace :: "bytes \<Rightarrow> bytes list" where
  "split_ascii_whitespace s =
     filter (\<lambda>w. w \<noteq> []) (split_on (CHR '' '') (map (\<lambda>c. if is_ascii_whitespace c then CHR '' '' else c) s))"

text \<open>\<^verbatim>\<open>trim_matches\<close> with a set of ASCII characters\<close>

definition trim_matches :: "(byte \<Rightarrow> bool) \<Rightarrow> bytes \<Rightarrow> bytes" where
  "trim_matches P s = rev (dropWhile P (rev (dropWhile P s)))"

text \<open>\<^verbatim>\<open>split\<close> at a nonempty string\<close>

function split_str :: "bytes \<Rightarrow> bytes \<Rightarrow> bytes list" where
  "split_str p s =
     (if p = [] then [s]
      else (case find_sub p s of
              None \<Rightarrow> [s]
            | Some i \<Rightarrow> take i s # split_str p (drop (i + length p) s)))"
  by pat_completeness auto
termination
proof (relation "measure (\<lambda>(p, s). length s)")
  fix p s :: bytes and i
  assume "p \<noteq> []" and "find_sub p s = Some i"
  then have "0 < length p" and "i + length p \<le> length s" using find_sub_Some [of p s i] by simp_all
  then have "length s - (i + length p) < length s" by linarith
  then show "((p, drop (i + length p) s), p, s) \<in> measure (\<lambda>(p, s). length s)" by simp
qed simp

declare split_str.simps [simp del]

lemma whitespace_edges:
  "w \<in> set whitespace_chars \<Longrightarrow>
     w \<noteq> [] \<and> byte_val (hd w) \<notin> {33..126} \<and> byte_val (last w) \<notin> {33..126}"
  unfolding whitespace_chars_def by (auto simp: encode_utf8_def)

lemma trim_with_same:
  assumes "\<And>w. w \<in> set whitespace_chars \<Longrightarrow> strip s w = None"
  shows "trim_with strip n s = s"
proof -
  have "List.map_filter (strip s) whitespace_chars = []"
    using assms by (auto simp: List.map_filter_def filter_empty_conv)
  then show ?thesis by (cases n) simp_all
qed

lemma str_trim_same:
  assumes "s \<noteq> []" and "byte_val (hd s) \<in> {33..126}" and "byte_val (last s) \<in> {33..126}"
  shows "str_trim s = s"
proof -
  have "strip_prefix s w = None" "strip_suffix s w = None" if "w \<in> set whitespace_chars" for w
    using whitespace_edges [OF that] assms
    by (auto simp: strip_prefix_None starts_with_iff strip_suffix_def ends_with_iff hd_append)
  then show ?thesis by (simp add: str_trim_def trim_with_same)
qed

end
