(* ===== verification/Terminal_Protocol.thy ===== *)
theory Terminal_Protocol
  imports Stream_Machine Rust_Strings Terminal_Types Btree_Map
begin

text \<open>
  Probing of the physical terminal and routing of replies (\<^verbatim>\<open>terminal_protocol.rs\<close>): the
  capability profile and its sources, the broker that takes the replies to Lector's own queries
  out of the input stream, the shutdown fence, and the brokers and policies for application
  replies and effects.
\<close>

section \<open>Capabilities\<close>

definition PROBE_INACTIVITY_TIMEOUT_MS :: nat where "PROBE_INACTIVITY_TIMEOUT_MS = 50"
definition MAX_PROBE_REPLY_BYTES :: nat where "MAX_PROBE_REPLY_BYTES = 4096"
definition SHUTDOWN_FENCE_QUERY :: bytes where "SHUTDOWN_FENCE_QUERY = CHR 0x1B # ''[c''"

datatype color_scheme = Light | Dark

record terminfo_capabilities =
  ti_color_count :: "u16 option"
  ti_true_color :: bool
  ti_hyperlinks :: bool
  ti_synchronized_output :: bool
  ti_kitty_keyboard :: bool
  ti_kitty_graphics :: bool

definition default_terminfo :: terminfo_capabilities where
  "default_terminfo = \<lparr>ti_color_count = None, ti_true_color = False, ti_hyperlinks = False,
     ti_synchronized_output = False, ti_kitty_keyboard = False, ti_kitty_graphics = False\<rparr>"

definition infocmp_name :: "bytes \<Rightarrow> bytes" where
  "infocmp_name line =
     (let capability = trim_end_byte (CHR '','') line in
      case position (\<lambda>b. b = CHR ''='' \<or> b = CHR ''#'') capability of
        None \<Rightarrow> capability | Some i \<Rightarrow> take i capability)"

definition infocmp_line :: "bytes \<Rightarrow> terminfo_capabilities \<Rightarrow> terminfo_capabilities" where
  "infocmp_line raw result =
     (let line = str_trim raw;
          result = (case Option.bind (strip_prefix line ''colors#'')
                          (\<lambda>v. Option.bind (strip_suffix v '','') (parse_uint 16)) of
                      Some v \<Rightarrow> result\<lparr>ti_color_count := Some (of_nat v)\<rparr> | None \<Rightarrow> result);
          name = infocmp_name line
      in if name = ''Tc'' \<or> name = ''RGB'' then result\<lparr>ti_true_color := True\<rparr>
         else if name = ''Sync'' then result\<lparr>ti_synchronized_output := True\<rparr>
         else if name = ''Su'' then result\<lparr>ti_kitty_keyboard := True\<rparr>
         else if name = ''Gfx'' then result\<lparr>ti_kitty_graphics := True\<rparr>
         else if name = ''OSC8'' then result\<lparr>ti_hyperlinks := True\<rparr>
         else result)"

definition from_infocmp :: "bytes \<Rightarrow> terminfo_capabilities" where
  "from_infocmp output = fold infocmp_line (str_lines output) default_terminfo"

record probe_report =
  rep_geometry :: "terminal_geometry option"
  rep_color_scheme :: "color_scheme option"
  rep_synchronized_output :: "bool option"
  rep_kitty_keyboard :: "bool option"
  rep_kitty_graphics :: "bool option"
  rep_focus_reporting :: "bool option"
  rep_clipboard_read :: "bool option"

definition default_report :: probe_report where
  "default_report = \<lparr>rep_geometry = None, rep_color_scheme = None, rep_synchronized_output = None,
     rep_kitty_keyboard = None, rep_kitty_graphics = None, rep_focus_reporting = None,
     rep_clipboard_read = None\<rparr>"

record capability_overrides =
  ov_color_count :: "u16 option"
  ov_true_color :: "bool option"
  ov_hyperlinks :: "bool option"
  ov_synchronized_output :: "bool option"
  ov_kitty_keyboard :: "bool option"
  ov_kitty_graphics :: "bool option"
  ov_focus_reporting :: "bool option"
  ov_clipboard_read :: "bool option"

definition default_overrides :: capability_overrides where
  "default_overrides = \<lparr>ov_color_count = None, ov_true_color = None, ov_hyperlinks = None,
     ov_synchronized_output = None, ov_kitty_keyboard = None, ov_kitty_graphics = None,
     ov_focus_reporting = None, ov_clipboard_read = None\<rparr>"

definition parse_explicit_bool :: "bytes \<Rightarrow> bytes \<Rightarrow> (bool, bytes) result" where
  "parse_explicit_bool key v =
     (let t = to_ascii_lowercase (str_trim v) in
      if t \<in> {''1'', ''true'', ''yes'', ''on''} then Ok True
      else if t \<in> {''0'', ''false'', ''no'', ''off''} then Ok False
      else Err (key @ '' must be one of true/false, yes/no, on/off, or 1/0''))"

definition override_pair ::
  "bytes \<Rightarrow> bytes \<Rightarrow> capability_overrides \<Rightarrow> (capability_overrides, bytes) result" where
  "override_pair key v result =
     (if key = ''LECTOR_OUTER_COLORS'' then
        (case parse_uint 16 v of
           Some n \<Rightarrow> Ok (result\<lparr>ov_color_count := Some (of_nat n)\<rparr>)
         | None \<Rightarrow> Err ''LECTOR_OUTER_COLORS must be an integer from 0 through 65535'')
      else bind_result (parse_explicit_bool key v) (\<lambda>parsed.
        if key = ''LECTOR_OUTER_TRUE_COLOR'' then Ok (result\<lparr>ov_true_color := Some parsed\<rparr>)
        else if key = ''LECTOR_OUTER_HYPERLINKS'' then Ok (result\<lparr>ov_hyperlinks := Some parsed\<rparr>)
        else if key = ''LECTOR_OUTER_SYNC'' then Ok (result\<lparr>ov_synchronized_output := Some parsed\<rparr>)
        else if key = ''LECTOR_OUTER_KITTY_KEYBOARD'' then Ok (result\<lparr>ov_kitty_keyboard := Some parsed\<rparr>)
        else if key = ''LECTOR_OUTER_KITTY_GRAPHICS'' then Ok (result\<lparr>ov_kitty_graphics := Some parsed\<rparr>)
        else if key = ''LECTOR_OUTER_FOCUS'' then Ok (result\<lparr>ov_focus_reporting := Some parsed\<rparr>)
        else if key = ''LECTOR_OUTER_CLIPBOARD_READ'' then Ok (result\<lparr>ov_clipboard_read := Some parsed\<rparr>)
        else Err (''unknown capability override '' @ key)))"

fun from_pairs_acc ::
  "(bytes \<times> bytes) list \<Rightarrow> capability_overrides \<Rightarrow> (capability_overrides, bytes) result" where
  "from_pairs_acc [] result = Ok result"
| "from_pairs_acc ((key, v) # pairs) result = bind_result (override_pair key v result) (from_pairs_acc pairs)"

definition from_pairs :: "(bytes \<times> bytes) list \<Rightarrow> (capability_overrides, bytes) result" where
  "from_pairs pairs = from_pairs_acc pairs default_overrides"

definition override_keys :: "bytes list" where
  "override_keys =
     [''LECTOR_OUTER_COLORS'', ''LECTOR_OUTER_TRUE_COLOR'', ''LECTOR_OUTER_HYPERLINKS'', ''LECTOR_OUTER_SYNC'',
      ''LECTOR_OUTER_KITTY_KEYBOARD'', ''LECTOR_OUTER_KITTY_GRAPHICS'', ''LECTOR_OUTER_FOCUS'',
      ''LECTOR_OUTER_CLIPBOARD_READ'']"

text \<open>\<open>env\<close> is the process environment, \<^verbatim>\<open>std::env::var(key).ok()\<close>.\<close>

definition from_environment :: "(bytes \<Rightarrow> bytes option) \<Rightarrow> (capability_overrides, bytes) result" where
  "from_environment env = from_pairs (List.map_filter (\<lambda>key. map_option (Pair key) (env key)) override_keys)"

record physical_profile =
  pp_geometry :: terminal_geometry
  pp_color_count :: u16
  pp_true_color :: bool
  pp_color_scheme :: "color_scheme option"
  pp_hyperlinks :: bool
  pp_synchronized_output :: bool
  pp_kitty_keyboard :: bool
  pp_kitty_graphics :: bool
  pp_focus_reporting :: bool
  pp_clipboard_read :: bool

definition conservative :: "terminal_geometry \<Rightarrow> physical_profile" where
  "conservative g = \<lparr>pp_geometry = g, pp_color_count = 8, pp_true_color = False, pp_color_scheme = None,
     pp_hyperlinks = False, pp_synchronized_output = False, pp_kitty_keyboard = False,
     pp_kitty_graphics = False, pp_focus_reporting = False, pp_clipboard_read = False\<rparr>"

definition apply_option :: "'a \<Rightarrow> 'a option \<Rightarrow> 'a" where
  "apply_option target v = (case v of Some x \<Rightarrow> x | None \<Rightarrow> target)"

definition apply_terminfo :: "terminfo_capabilities \<Rightarrow> physical_profile \<Rightarrow> physical_profile" where
  "apply_terminfo t p = p\<lparr>
     pp_color_count := apply_option (pp_color_count p) (ti_color_count t),
     pp_true_color := (pp_true_color p \<or> ti_true_color t),
     pp_hyperlinks := (pp_hyperlinks p \<or> ti_hyperlinks t),
     pp_synchronized_output := (pp_synchronized_output p \<or> ti_synchronized_output t),
     pp_kitty_keyboard := (pp_kitty_keyboard p \<or> ti_kitty_keyboard t),
     pp_kitty_graphics := (pp_kitty_graphics p \<or> ti_kitty_graphics t)\<rparr>"

definition apply_probe :: "probe_report \<Rightarrow> physical_profile \<Rightarrow> physical_profile" where
  "apply_probe r p = p\<lparr>
     pp_geometry := apply_option (pp_geometry p) (rep_geometry r),
     pp_color_scheme := (case rep_color_scheme r of Some c \<Rightarrow> Some c | None \<Rightarrow> pp_color_scheme p),
     pp_synchronized_output := apply_option (pp_synchronized_output p) (rep_synchronized_output r),
     pp_kitty_keyboard := apply_option (pp_kitty_keyboard p) (rep_kitty_keyboard r),
     pp_kitty_graphics := apply_option (pp_kitty_graphics p) (rep_kitty_graphics r),
     pp_focus_reporting := apply_option (pp_focus_reporting p) (rep_focus_reporting r),
     pp_clipboard_read := apply_option (pp_clipboard_read p) (rep_clipboard_read r)\<rparr>"

definition apply_overrides :: "capability_overrides \<Rightarrow> physical_profile \<Rightarrow> physical_profile" where
  "apply_overrides v p = p\<lparr>
     pp_color_count := apply_option (pp_color_count p) (ov_color_count v),
     pp_true_color := apply_option (pp_true_color p) (ov_true_color v),
     pp_hyperlinks := apply_option (pp_hyperlinks p) (ov_hyperlinks v),
     pp_synchronized_output := apply_option (pp_synchronized_output p) (ov_synchronized_output v),
     pp_kitty_keyboard := apply_option (pp_kitty_keyboard p) (ov_kitty_keyboard v),
     pp_kitty_graphics := apply_option (pp_kitty_graphics p) (ov_kitty_graphics v),
     pp_focus_reporting := apply_option (pp_focus_reporting p) (ov_focus_reporting v),
     pp_clipboard_read := apply_option (pp_clipboard_read p) (ov_clipboard_read v)\<rparr>"

text \<open>
  The profile at startup (\<^verbatim>\<open>main.rs\<close>): \<open>terminfo\<close> is what \<^verbatim>\<open>TerminfoCapabilities::detect\<close> found,
  \<open>colorterm\<close> the variable \<^verbatim>\<open>COLORTERM\<close>.
\<close>

definition startup_profile ::
  "terminal_geometry \<Rightarrow> terminfo_capabilities option \<Rightarrow> bytes option \<Rightarrow> (bytes \<Rightarrow> bytes option) \<Rightarrow>
     (physical_profile, bytes) result" where
  "startup_profile g terminfo colorterm env =
     (let p = conservative g;
          p = (case terminfo of Some t \<Rightarrow> apply_terminfo t p | None \<Rightarrow> p);
          p = (case colorterm of
                 Some v \<Rightarrow> if to_ascii_lowercase v \<in> {''truecolor'', ''24bit''} then p\<lparr>pp_true_color := True\<rparr> else p
               | None \<Rightarrow> p)
      in bind_result (from_environment env) (\<lambda>overrides. Ok (apply_overrides overrides p)))"

section \<open>Recognizing replies\<close>

definition parse_mode_report :: "bytes \<Rightarrow> (nat \<times> nat) option" where
  "parse_mode_report s =
     (if \<not> utf8_valid s then None
      else Option.bind (strip_prefix s (CHR 0x1B # ''[?'')) (\<lambda>r.
           Option.bind (strip_suffix r ''$y'') (\<lambda>body.
           Option.bind (split_once_byte (CHR '';'') body) (\<lambda>(mode, state).
           Option.bind (parse_uint 16 mode) (\<lambda>m.
           map_option (Pair m) (parse_uint 8 state))))))"

definition parse_kitty_keyboard_report :: "bytes \<Rightarrow> nat option" where
  "parse_kitty_keyboard_report s =
     (if \<not> utf8_valid s then None
      else Option.bind (strip_prefix s (CHR 0x1B # ''[?'')) (\<lambda>r.
           Option.bind (strip_suffix r ''u'') (parse_uint 8)))"

definition parse_size_report :: "bytes \<Rightarrow> (nat \<times> nat \<times> nat) option" where
  "parse_size_report s =
     (if \<not> utf8_valid s then None
      else Option.bind (strip_prefix s (CHR 0x1B # ''['')) (\<lambda>r.
           Option.bind (strip_suffix r ''t'') (\<lambda>body.
             case split_on (CHR '';'') body of
               [a, b, c] \<Rightarrow>
                 Option.bind (parse_uint 8 a) (\<lambda>kind.
                 Option.bind (parse_uint 32 b) (\<lambda>x.
                 map_option (\<lambda>y. (kind, x, y)) (parse_uint 32 c)))
             | _ \<Rightarrow> None)))"

definition parse_color_report :: "bytes \<Rightarrow> (nat \<times> nat \<times> nat \<times> nat) option" where
  "parse_color_report s =
     Option.bind (strip_prefix s (CHR 0x1B # '']'')) (\<lambda>body0.
     Option.bind (case strip_suffix body0 [CHR 0x1B, CHR 0x5C] of
                    Some b \<Rightarrow> Some b | None \<Rightarrow> strip_suffix body0 [CHR 0x07]) (\<lambda>body.
       if \<not> utf8_valid body then None
       else Option.bind (split_once_str '';rgb:'' body) (\<lambda>(slot, rgb).
         case split_on (CHR ''/'') rgb of
           [r, g, b] \<Rightarrow>
             Option.bind (parse_hex 16 r) (\<lambda>red.
             Option.bind (parse_hex 16 g) (\<lambda>green.
             Option.bind (parse_hex 16 b) (\<lambda>blue.
             map_option (\<lambda>n. (n, red, green, blue)) (parse_uint 8 slot))))
         | _ \<Rightarrow> None)))"

definition is_primary_device_attributes_reply :: "bytes \<Rightarrow> bool" where
  "is_primary_device_attributes_reply s =
     (case Option.bind
        (case strip_prefix s (CHR 0x1B # ''[?'') of Some b \<Rightarrow> Some b | None \<Rightarrow> strip_prefix s [CHR 0x9B, CHR ''?''])
        (\<lambda>body. strip_suffix body ''c'') of
        None \<Rightarrow> False
      | Some body \<Rightarrow>
          body \<noteq> [] \<and> list_all (\<lambda>p. p \<noteq> [] \<and> list_all is_ascii_digit p) (split_on (CHR '';'') body))"

definition is_other_device_attributes_reply :: "bytes \<Rightarrow> bool" where
  "is_other_device_attributes_reply s \<longleftrightarrow>
     starts_with s (CHR 0x1B # ''[>'') \<and> ends_with s ''c'' \<or>
     starts_with s (CHR 0x1B # ''P!|'') \<and> ends_with s [CHR 0x1B, CHR 0x5C]"

definition is_clipboard_reply :: "bytes \<Rightarrow> bool" where
  "is_clipboard_reply s \<longleftrightarrow>
     starts_with s (CHR 0x1B # '']52;'') \<and> (ends_with s [CHR 0x1B, CHR 0x5C] \<or> ends_with s [CHR 0x07])"

text \<open>Length of the escape sequence at the front, once it is complete\<close>

fun string_end :: "bytes \<Rightarrow> nat \<Rightarrow> nat option" where
  "string_end [] i = None"
| "string_end (b # bs) i =
     (if b = CHR 0x07 then Some (i + 1)
      else if b = CHR 0x1B \<and> bs \<noteq> [] \<and> hd bs = CHR 0x5C then Some (i + 2)
      else string_end bs (i + 1))"

definition is_csi_final :: "byte \<Rightarrow> bool" where
  "is_csi_final b \<longleftrightarrow> 0x40 \<le> byte_val b \<and> byte_val b \<le> 0x7E"

definition is_string_intro :: "byte \<Rightarrow> bool" where
  "is_string_intro b \<longleftrightarrow> b = CHR '']'' \<or> b = CHR ''P'' \<or> b = CHR ''_''"

definition complete_escape_len :: "bytes \<Rightarrow> nat option" where
  "complete_escape_len bs =
     (case bs of
        _ # b # r \<Rightarrow>
          if b = CHR ''['' then map_option (\<lambda>i. i + 3) (position is_csi_final r)
          else if is_string_intro b then string_end r 2
          else Some 2
      | _ \<Rightarrow> None)"

section \<open>The startup probe broker\<close>

datatype oversized_sequence = OversizedCsi | OversizedString bool

definition oversized_from_prefix :: "bytes \<Rightarrow> oversized_sequence option" where
  "oversized_from_prefix bs =
     (case bs of
        _ # b # _ \<Rightarrow>
          if b = CHR ''['' then Some OversizedCsi
          else if is_string_intro b then Some (OversizedString (last bs = CHR 0x1B))
          else None
      | _ \<Rightarrow> None)"

text \<open>Whether the byte ends the sequence, and the state after it\<close>

fun oversized_consume :: "oversized_sequence \<Rightarrow> byte \<Rightarrow> bool \<times> oversized_sequence" where
  "oversized_consume OversizedCsi b = (is_csi_final b, OversizedCsi)"
| "oversized_consume (OversizedString previous_was_escape) b =
     (b = CHR 0x07 \<or> previous_was_escape \<and> b = CHR 0x5C, OversizedString (b = CHR 0x1B))"

record probe_policy =
  policy_clipboard_read :: bool

definition policy_safe :: probe_policy where
  "policy_safe = \<lparr>policy_clipboard_read = False\<rparr>"

record probe_broker =
  bk_profile :: physical_profile
  bk_report :: probe_report
  bk_policy :: probe_policy
  bk_last_activity_at_ms :: nat
  bk_started :: bool
  bk_finished :: bool
  bk_pending :: bytes
  bk_discarding :: "oversized_sequence option"
  bk_malformed_replies :: nat
  bk_pixel_width :: "u32 option"
  bk_pixel_height :: "u32 option"
  bk_foreground_luminance :: "nat option"
  bk_background_luminance :: "nat option"
  bk_primary_received :: bool

definition broker_new :: "physical_profile \<Rightarrow> probe_policy \<Rightarrow> nat \<Rightarrow> probe_broker" where
  "broker_new profile policy started_at_ms =
     \<lparr>bk_profile = profile, bk_report = default_report, bk_policy = policy,
      bk_last_activity_at_ms = started_at_ms, bk_started = False, bk_finished = False, bk_pending = [],
      bk_discarding = None, bk_malformed_replies = 0, bk_pixel_width = None, bk_pixel_height = None,
      bk_foreground_luminance = None, bk_background_luminance = None, bk_primary_received = False\<rparr>"

definition startup_queries :: "probe_broker \<Rightarrow> bytes \<times> probe_broker" where
  "startup_queries b =
     (if bk_started b then ([], b)
      else
        (let e = CHR 0x1B; st = [CHR 0x1B, CHR 0x5C] in
         (e # ''[>c'' @ e # ''[=c'' @ e # ''[14t'' @ e # ''[16t'' @ e # ''[18t'' @ e # ''[?1004$p'' @
          e # ''[?2026$p'' @ e # ''[?u'' @ e # '']10;?'' @ st @ e # '']11;?'' @ st @
          (if policy_clipboard_read (bk_policy b) then e # '']52;c;?'' @ st else []) @ e # ''[c'',
          b\<lparr>bk_started := True\<rparr>)))"

definition apply_report :: "probe_broker \<Rightarrow> probe_broker" where
  "apply_report b = b\<lparr>bk_profile := apply_probe (bk_report b) (bk_profile b)\<rparr>"

definition resolve_color_scheme :: "probe_broker \<Rightarrow> probe_broker" where
  "resolve_color_scheme b =
     (case (bk_foreground_luminance b, bk_background_luminance b) of
        (Some foreground, Some background) \<Rightarrow>
          apply_report (b\<lparr>bk_report := (bk_report b)\<lparr>rep_color_scheme :=
            Some (if background < foreground then Dark else Light)\<rparr>\<rparr>)
      | _ \<Rightarrow> b)"

definition report_foreground :: "nat \<Rightarrow> probe_broker \<Rightarrow> probe_broker" where
  "report_foreground luminance b = resolve_color_scheme (b\<lparr>bk_foreground_luminance := Some luminance\<rparr>)"

definition report_background :: "nat \<Rightarrow> probe_broker \<Rightarrow> probe_broker" where
  "report_background luminance b = resolve_color_scheme (b\<lparr>bk_background_luminance := Some luminance\<rparr>)"

definition u16_try_from_or_max :: "nat \<Rightarrow> u16" where
  "u16_try_from_or_max n = (if n < 2 ^ 16 then of_nat n else - 1)"

definition set_geometry :: "(terminal_geometry \<Rightarrow> terminal_geometry) \<Rightarrow> probe_broker \<Rightarrow> probe_broker" where
  "set_geometry f b = b\<lparr>bk_profile := (bk_profile b)\<lparr>pp_geometry := f (pp_geometry (bk_profile b))\<rparr>\<rparr>"

text \<open>Cell sizes that are still unknown follow from the pixel size of the grid.\<close>

definition derive_cell_size :: "probe_broker \<Rightarrow> probe_broker" where
  "derive_cell_size b =
     set_geometry (\<lambda>g.
       let g = (case bk_pixel_width b of
                  Some width \<Rightarrow>
                    if geom_cell_width_px g = 0 \<and> 0 < geom_cols g
                    then g\<lparr>geom_cell_width_px := width div ucast (geom_cols g)\<rparr> else g
                | None \<Rightarrow> g)
       in (case bk_pixel_height b of
             Some height \<Rightarrow>
               if geom_cell_height_px g = 0 \<and> 0 < geom_rows g
               then g\<lparr>geom_cell_height_px := height div ucast (geom_rows g)\<rparr> else g
           | None \<Rightarrow> g)) b"

definition consume_size :: "nat \<Rightarrow> nat \<Rightarrow> nat \<Rightarrow> probe_broker \<Rightarrow> bool \<times> probe_broker" where
  "consume_size kind x y b =
     (let b' = (if kind = 4 then Some (b\<lparr>bk_pixel_height := Some (of_nat x), bk_pixel_width := Some (of_nat y)\<rparr>)
                else if kind = 6 then Some (set_geometry (\<lambda>g. g\<lparr>geom_cell_height_px := of_nat x, geom_cell_width_px := of_nat y\<rparr>) b)
                else if kind = 8 then Some (set_geometry (\<lambda>g. g\<lparr>geom_rows := u16_try_from_or_max x, geom_cols := u16_try_from_or_max y\<rparr>) b)
                else None)
      in case b' of
           None \<Rightarrow> (False, b)
         | Some b \<Rightarrow>
             (let b = derive_cell_size b in
              (True, b\<lparr>bk_report := (bk_report b)\<lparr>rep_geometry := Some (pp_geometry (bk_profile b))\<rparr>\<rparr>)))"

definition consume_reply :: "bytes \<Rightarrow> probe_broker \<Rightarrow> bool \<times> probe_broker" where
  "consume_reply s b =
     (case parse_mode_report s of
        Some (mode, state) \<Rightarrow>
          if mode = 1004
          then (True, apply_report (b\<lparr>bk_report := (bk_report b)\<lparr>rep_focus_reporting := Some (state = 1 \<or> state = 3)\<rparr>\<rparr>))
          else if mode = 2026
          then (True, apply_report (b\<lparr>bk_report := (bk_report b)\<lparr>rep_synchronized_output := Some (1 \<le> state \<and> state \<le> 4)\<rparr>\<rparr>))
          else (False, b)
      | None \<Rightarrow>
     (case parse_kitty_keyboard_report s of
        Some _ \<Rightarrow> (True, apply_report (b\<lparr>bk_report := (bk_report b)\<lparr>rep_kitty_keyboard := Some True\<rparr>\<rparr>))
      | None \<Rightarrow>
     (case parse_size_report s of
        Some (kind, x, y) \<Rightarrow> consume_size kind x y b
      | None \<Rightarrow>
     (case parse_color_report s of
        Some (slot, red, green, blue) \<Rightarrow>
          (let luminance = red * 299 + green * 587 + blue * 114 in
           if slot = 10 then (True, report_foreground luminance b)
           else if slot = 11 then (True, report_background luminance b)
           else (False, b))
      | None \<Rightarrow>
          if is_primary_device_attributes_reply s
          then (True, b\<lparr>bk_primary_received := True, bk_finished := True\<rparr>)
          else if is_other_device_attributes_reply s then (True, b)
          else if policy_clipboard_read (bk_policy b) \<and> is_clipboard_reply s
          then (True, apply_report (b\<lparr>bk_report := (bk_report b)\<lparr>rep_clipboard_read := Some True\<rparr>\<rparr>))
          else (False, b)))))"

lemma string_end_bounds: "string_end bs i = Some n \<Longrightarrow> i < n \<and> n \<le> i + length bs"
proof (induction bs i rule: string_end.induct)
  case (2 b bs i)
  then show ?case by (cases bs) (auto split: if_splits)
qed simp

lemma complete_escape_len_bounds: "complete_escape_len bs = Some n \<Longrightarrow> 2 \<le> n \<and> n \<le> length bs"
  by (auto simp: complete_escape_len_def position_Some split: list.splits if_splits dest!: string_end_bounds)

text \<open>The inner loop after one byte was pushed: the broker and the ordinary input it releases.\<close>

lemma consume_reply_pending: "bk_pending (snd (consume_reply s b)) = bk_pending b"
  by (auto simp: consume_reply_def apply_report_def report_foreground_def report_background_def
      resolve_color_scheme_def consume_size_def derive_cell_size_def set_geometry_def Let_def
      split: option.splits)

function drain_pending :: "probe_broker \<Rightarrow> bytes \<Rightarrow> probe_broker \<times> bytes" where
  "drain_pending b output =
     (case bk_pending b of
        [] \<Rightarrow> (b, output)
      | c # rest \<Rightarrow>
          if c \<noteq> CHR 0x1B then drain_pending (b\<lparr>bk_pending := rest\<rparr>) (output @ [c])
          else
            (case complete_escape_len (bk_pending b) of
               None \<Rightarrow>
                 if MAX_PROBE_REPLY_BYTES < length (bk_pending b)
                 then (b\<lparr>bk_discarding := oversized_from_prefix (bk_pending b), bk_pending := [],
                         bk_malformed_replies := saturating_add_usize (bk_malformed_replies b) 1\<rparr>, output)
                 else (b, output)
             | Some n \<Rightarrow>
                 (let s = take n (bk_pending b); b = b\<lparr>bk_pending := drop n (bk_pending b)\<rparr> in
                  if MAX_PROBE_REPLY_BYTES < length s
                  then drain_pending (b\<lparr>bk_malformed_replies := saturating_add_usize (bk_malformed_replies b) 1\<rparr>) output
                  else drain_pending (snd (consume_reply s b))
                         (if fst (consume_reply s b) then output else output @ s))))"
  by pat_completeness auto
termination
  by (relation "measure (\<lambda>(b, out). length (bk_pending b))")
    (auto simp: consume_reply_pending dest!: complete_escape_len_bounds)

declare drain_pending.simps [simp del]

definition ingest_byte :: "probe_broker \<Rightarrow> byte \<Rightarrow> probe_broker \<times> bytes" where
  "ingest_byte b c =
     (case bk_discarding b of
        Some d \<Rightarrow>
          (case oversized_consume d c of
             (complete, d') \<Rightarrow> (b\<lparr>bk_discarding := (if complete then None else Some d')\<rparr>, []))
      | None \<Rightarrow> drain_pending (b\<lparr>bk_pending := bk_pending b @ [c]\<rparr>) [])"

fun ingest_bytes :: "probe_broker \<Rightarrow> bytes \<Rightarrow> probe_broker \<times> bytes" where
  "ingest_bytes b [] = (b, [])"
| "ingest_bytes b (c # cs) =
     (case ingest_byte b c of (b', out) \<Rightarrow> case ingest_bytes b' cs of (b'', out') \<Rightarrow> (b'', out @ out'))"

definition ingest :: "bytes \<Rightarrow> nat \<Rightarrow> probe_broker \<Rightarrow> probe_broker \<times> bytes" where
  "ingest input now_ms b =
     ingest_bytes (if input \<noteq> [] then b\<lparr>bk_last_activity_at_ms := now_ms\<rparr> else b) input"

definition finish_if_timed_out :: "nat \<Rightarrow> probe_broker \<Rightarrow> bytes \<times> probe_broker" where
  "finish_if_timed_out now_ms b =
     (if now_ms - bk_last_activity_at_ms b \<le> PROBE_INACTIVITY_TIMEOUT_MS then ([], b)
      else if bk_finished b \<and> bk_pending b = [] \<and> bk_discarding b = None then ([], b)
      else (bk_pending b, b\<lparr>bk_finished := True, bk_discarding := None, bk_pending := []\<rparr>))"

definition broker_next_deadline_ms :: "probe_broker \<Rightarrow> nat option" where
  "broker_next_deadline_ms b =
     (if bk_finished b \<and> bk_pending b = [] \<and> bk_discarding b = None then None
      else Some (min (bk_last_activity_at_ms b + (PROBE_INACTIVITY_TIMEOUT_MS + 1)) (2 ^ 128 - 1)))"

definition buffered_reply_bytes :: "probe_broker \<Rightarrow> nat" where
  "buffered_reply_bytes b = length (bk_pending b)"

definition outstanding_primary_replies :: "probe_broker \<Rightarrow> nat" where
  "outstanding_primary_replies b = (if bk_started b \<and> \<not> bk_primary_received b then 1 else 0)"

section \<open>The shutdown fence\<close>

record shutdown_fence =
  sf_pending :: bytes
  sf_replies_to_ignore :: nat
  sf_observed_replies :: nat
  sf_matched :: bool

definition fence_new :: "nat \<Rightarrow> shutdown_fence" where
  "fence_new n = \<lparr>sf_pending = [], sf_replies_to_ignore = n, sf_observed_replies = 0, sf_matched = False\<rparr>"

definition restart_after_invalid_sequence :: "byte \<Rightarrow> shutdown_fence \<Rightarrow> shutdown_fence" where
  "restart_after_invalid_sequence c f =
     f\<lparr>sf_pending := (if c = CHR 0x1B \<or> c = CHR 0x9B then [c] else [])\<rparr>"

definition fence_ingest_byte :: "byte \<Rightarrow> shutdown_fence \<Rightarrow> bool \<times> shutdown_fence" where
  "fence_ingest_byte c f =
     (if sf_matched f then (True, f)
      else if sf_pending f = [] then
        (False, if c = CHR 0x1B \<or> c = CHR 0x9B then f\<lparr>sf_pending := [c]\<rparr> else f)
      else
        (let p = sf_pending f @ [c]; f = f\<lparr>sf_pending := p\<rparr> in
         if p = [CHR 0x1B] then (False, f)
         else if starts_with p [CHR 0x1B] \<and> \<not> (2 \<le> length p \<and> p ! 1 = CHR ''['')
         then (False, restart_after_invalid_sequence c f)
         else
           (let parameter_start = (if starts_with p (CHR 0x1B # ''['') then 2 else 1) in
            if length p \<le> parameter_start then (False, f)
            else if MAX_PROBE_REPLY_BYTES < length p then (False, restart_after_invalid_sequence c f)
            else if \<not> is_csi_final (last p) then (False, f)
            else
              (let f = (if is_primary_device_attributes_reply p
                        then (let n = saturating_add_usize (sf_observed_replies f) 1 in
                              f\<lparr>sf_observed_replies := n, sf_matched := (sf_matched f \<or> sf_replies_to_ignore f < n)\<rparr>)
                        else f);
                   f = f\<lparr>sf_pending := []\<rparr>
               in (sf_matched f, f)))))"

section \<open>Application replies and effects\<close>

type_synonym 'o reply_broker = "('o, bytes) btree_map"

definition reply_queue :: "'o::linorder \<Rightarrow> bytes \<Rightarrow> 'o reply_broker \<Rightarrow> 'o reply_broker" where
  "reply_queue owner reply b =
     btree_insert owner ((case btree_get b owner of Some bs \<Rightarrow> bs | None \<Rightarrow> []) @ reply) b"

definition reply_take :: "'o::linorder \<Rightarrow> 'o reply_broker \<Rightarrow> bytes \<times> 'o reply_broker" where
  "reply_take owner b = (case btree_get b owner of Some bs \<Rightarrow> bs | None \<Rightarrow> [], btree_remove owner b)"

datatype effect_disposition = DispositionModel | LocalClipboard | Internal | Drop

fun disposition :: "terminal_event \<Rightarrow> effect_disposition" where
  "disposition EventBell = DispositionModel"
| "disposition (TitleChanged _) = DispositionModel"
| "disposition (WorkingDirectoryChanged _) = DispositionModel"
| "disposition (ProgressReport _ _) = DispositionModel"
| "disposition (ClipboardWrite _ _) = LocalClipboard"
| "disposition (EventQuery _) = Internal"
| "disposition (PtyReply _) = Internal"
| "disposition (DesktopNotification _ _) = Drop"
| "disposition (UnknownSequence _ _) = Drop"

record virtual_profile =
  vp_geometry :: terminal_geometry
  vp_color_scheme :: color_scheme
  vp_enquiry :: bytes
  vp_version :: bytes
  vp_da_conformance :: u16
  vp_da_features :: "u16 list"
  vp_da_device_type :: u16
  vp_da_firmware_version :: u16
  vp_da_unit_id :: u32
  vp_clipboard_read :: bool

text \<open>The version string is set by the build: \<^verbatim>\<open>env!("CARGO_PKG_VERSION")\<close>.\<close>

definition virtual_profile_lector :: "bytes \<Rightarrow> terminal_geometry \<Rightarrow> color_scheme \<Rightarrow> virtual_profile" where
  "virtual_profile_lector package_version g c =
     \<lparr>vp_geometry = g, vp_color_scheme = c, vp_enquiry = ''lector'', vp_version = ''Lector '' @ package_version,
      vp_da_conformance = 64, vp_da_features = [22, 28], vp_da_device_type = 41, vp_da_firmware_version = 301,
      vp_da_unit_id = 0, vp_clipboard_read = False\<rparr>"

section \<open>The probe broker as a stream consumer\<close>

interpretation probe: total_stream ingest_byte ingest_bytes
  by unfold_locales simp_all

definition broker_ok :: "probe_broker \<Rightarrow> bool" where
  "broker_ok b \<longleftrightarrow>
     (bk_pending b = [] \<or> bk_discarding b = None \<and> hd (bk_pending b) = CHR 0x1B \<and>
        complete_escape_len (bk_pending b) = None \<and> length (bk_pending b) \<le> MAX_PROBE_REPLY_BYTES)"

lemma consume_reply_fields:
  "bk_discarding (snd (consume_reply s b)) = bk_discarding b"
  "bk_policy (snd (consume_reply s b)) = bk_policy b"
  by (auto simp: consume_reply_def apply_report_def report_foreground_def report_background_def
      resolve_color_scheme_def consume_size_def derive_cell_size_def set_geometry_def Let_def
      split: option.splits)

lemma drain_pending_ok:
  "bk_discarding b = None \<Longrightarrow> broker_ok (fst (drain_pending b out)) \<and> bk_policy (fst (drain_pending b out)) = bk_policy b"
proof (induction b out rule: drain_pending.induct)
  case (1 b out)
  show ?case
  proof (cases "bk_pending b")
    case Nil
    then show ?thesis by (subst (1 2) drain_pending.simps) (simp add: broker_ok_def)
  next
    case (Cons c rest)
    show ?thesis
    proof (cases "c = CHR 0x1B")
      case False
      then show ?thesis
        using "1.IH"(1) [OF Cons False] "1.prems" Cons by (subst (1 2) drain_pending.simps) simp
    next
      case esc: True
      show ?thesis
      proof (cases "complete_escape_len (bk_pending b)")
        case None
        then show ?thesis
          using "1.prems" Cons esc by (subst (1 2) drain_pending.simps) (auto simp: broker_ok_def)
      next
        case (Some n)
        define s where "s = take n (bk_pending b)"
        define b' where "b' = b\<lparr>bk_pending := drop n (bk_pending b)\<rparr>"
        have b': "bk_discarding b' = None" "bk_policy b' = bk_policy b" using "1.prems" by (simp_all add: b'_def)
        show ?thesis
        proof (cases "MAX_PROBE_REPLY_BYTES < length s")
          case True
          have "drain_pending b out = drain_pending (b'\<lparr>bk_malformed_replies :=
              saturating_add_usize (bk_malformed_replies b') 1\<rparr>) out"
            using Some Cons esc True by (subst drain_pending.simps) (simp add: s_def b'_def Let_def)
          with "1.IH"(2) [OF Cons _ Some s_def b'_def True] esc b' show ?thesis by simp
        next
          case False
          have "drain_pending b out = drain_pending (snd (consume_reply s b'))
              (if fst (consume_reply s b') then out else out @ s)"
            using Some Cons esc False by (subst drain_pending.simps) (auto simp: s_def b'_def Let_def)
          with "1.IH"(3) [OF Cons _ Some s_def b'_def False] esc b' show ?thesis
            by (simp add: consume_reply_fields)
        qed
      qed
    qed
  qed
qed

lemma ingest_byte_ok: "broker_ok b \<Longrightarrow> broker_ok (fst (ingest_byte b c))"
  using drain_pending_ok [of "b\<lparr>bk_pending := bk_pending b @ [c]\<rparr>" "[]"]
  by (auto simp: ingest_byte_def broker_ok_def split: option.splits prod.splits)

lemma ingest_ok: "broker_ok b \<Longrightarrow> broker_ok (fst (ingest input now b))"
  using probe.run_invariant [of broker_ok, OF ingest_byte_ok] by (simp add: ingest_def broker_ok_def)

datatype broker_op = BQueries | BIngest bytes nat | BFinish nat

fun broker_step :: "broker_op \<Rightarrow> probe_broker \<Rightarrow> probe_broker" where
  "broker_step BQueries b = snd (startup_queries b)"
| "broker_step (BIngest input now) b = fst (ingest input now b)"
| "broker_step (BFinish now) b = snd (finish_if_timed_out now b)"

lemma broker_step_ok: "broker_ok b \<Longrightarrow> broker_ok (broker_step a b)"
  using ingest_ok [of b] by (cases a) (auto simp: startup_queries_def finish_if_timed_out_def broker_ok_def Let_def)

lemma broker_run_ok: "broker_ok b \<Longrightarrow> broker_ok (fold broker_step ops b)"
  by (induction ops arbitrary: b) (simp_all add: broker_step_ok)

text \<open>
  Whatever bytes the terminal and the user send, in whatever chunks and with whatever
  timeouts in between, the probe broker never holds back more than 4096 bytes, and what it holds
  back is always the beginning of one unfinished escape sequence, so ordinary input is never
  delayed.
\<close>

theorem probe_buffer_bounded:
  "\<exists>b. b = fold broker_step ops (broker_new profile policy t) \<and>
     buffered_reply_bytes b \<le> 4096 \<and>
     (bk_pending b = [] \<or> hd (bk_pending b) = CHR 0x1B \<and> complete_escape_len (bk_pending b) = None)"
proof -
  have "broker_ok (broker_new profile policy t)" by (simp add: broker_ok_def broker_new_def)
  from broker_run_ok [OF this, of ops] show ?thesis
    by (auto simp: broker_ok_def buffered_reply_bytes_def MAX_PROBE_REPLY_BYTES_def)
qed

section \<open>Exactly the replies are taken out\<close>

definition is_probe_reply :: "bool \<Rightarrow> bytes \<Rightarrow> bool" where
  "is_probe_reply clipboard s =
     (case parse_mode_report s of
        Some (mode, _) \<Rightarrow> mode = 1004 \<or> mode = 2026
      | None \<Rightarrow>
          parse_kitty_keyboard_report s \<noteq> None \<or>
          (case parse_size_report s of
             Some (kind, _) \<Rightarrow> kind \<in> {4, 6, 8}
           | None \<Rightarrow>
               (case parse_color_report s of
                  Some (slot, _) \<Rightarrow> slot = 10 \<or> slot = 11
                | None \<Rightarrow> is_primary_device_attributes_reply s \<or> is_other_device_attributes_reply s \<or>
                    clipboard \<and> is_clipboard_reply s)))"

lemma consume_reply_iff: "fst (consume_reply s b) = is_probe_reply (policy_clipboard_read (bk_policy b)) s"
  by (auto simp: consume_reply_def is_probe_reply_def consume_size_def Let_def split: option.splits)

definition escape_sequence :: "bytes \<Rightarrow> bool" where
  "escape_sequence s \<longleftrightarrow>
     s \<noteq> [] \<and> hd s = CHR 0x1B \<and> complete_escape_len s = Some (length s) \<and> length s \<le> 4096 \<and>
     (\<forall>k < length s. complete_escape_len (take k s) = None)"

definition input_token :: "bytes \<Rightarrow> bool" where
  "input_token s \<longleftrightarrow> escape_sequence s \<or> (\<exists>c. s = [c] \<and> c \<noteq> CHR 0x1B)"

definition broker_idle :: "probe_broker \<Rightarrow> bool" where
  "broker_idle b \<longleftrightarrow> bk_pending b = [] \<and> bk_discarding b = None"

lemma ingest_prefix:
  assumes "escape_sequence s" and "k < length s" and "broker_idle b"
  shows "ingest_bytes b (take k s) = (b\<lparr>bk_pending := take k s\<rparr>, [])"
  using assms(2)
proof (induction k)
  case 0
  then show ?case using assms(3) by (simp add: broker_idle_def)
next
  case (Suc k)
  let ?b = "b\<lparr>bk_pending := take k s\<rparr>"
  have t: "take (Suc k) s = take k s @ [s ! k]" using Suc.prems by (simp add: take_Suc_conv_app_nth)
  have p: "take (Suc k) s \<noteq> []" "hd (take (Suc k) s) = CHR 0x1B" "complete_escape_len (take (Suc k) s) = None"
    "length (take (Suc k) s) \<le> 4096"
    using assms(1) Suc.prems by (auto simp: escape_sequence_def)
  then obtain rest where r: "take (Suc k) s = CHR 0x1B # rest" by (cases "take (Suc k) s") auto
  have "ingest_byte ?b (s ! k) = drain_pending (b\<lparr>bk_pending := take (Suc k) s\<rparr>) []"
    using assms(3) by (simp add: ingest_byte_def broker_idle_def t)
  also have "\<dots> = (b\<lparr>bk_pending := take (Suc k) s\<rparr>, [])"
    using p r by (subst drain_pending.simps) (simp add: MAX_PROBE_REPLY_BYTES_def)
  finally have "ingest_byte ?b (s ! k) = (b\<lparr>bk_pending := take (Suc k) s\<rparr>, [])" .
  with Suc show ?case by (simp add: t probe.run_append)
qed

lemma drain_idle: "bk_pending b = [] \<Longrightarrow> drain_pending b out = (b, out)"
  by (subst drain_pending.simps) simp

lemma ingest_sequence:
  assumes s: "escape_sequence s" and b: "broker_idle b"
  shows "ingest_bytes b s =
    (snd (consume_reply s b), if is_probe_reply (policy_clipboard_read (bk_policy b)) s then [] else s)"
proof -
  obtain k where k: "length s = Suc k" using s by (cases s) (auto simp: escape_sequence_def)
  then have split: "s = take k s @ [s ! k]" by (metis lessI take_Suc_conv_app_nth take_all_iff order_refl)
  obtain rest where r: "s = CHR 0x1B # rest" using s by (cases s) (auto simp: escape_sequence_def)
  have fin: "complete_escape_len s = Some (length s)" "length s \<le> MAX_PROBE_REPLY_BYTES"
    using s by (simp_all add: escape_sequence_def MAX_PROBE_REPLY_BYTES_def)
  have bb: "b\<lparr>bk_pending := []\<rparr> = b" using b by (simp add: broker_idle_def)
  have e: "bk_pending (snd (consume_reply s b)) = []" using b by (simp add: consume_reply_pending broker_idle_def)
  have "ingest_byte (b\<lparr>bk_pending := take k s\<rparr>) (s ! k) = drain_pending (b\<lparr>bk_pending := s\<rparr>) []"
    using b split by (simp add: ingest_byte_def broker_idle_def)
  also have "\<dots> = drain_pending (snd (consume_reply s b)) (if fst (consume_reply s b) then [] else s)"
    using fin r bb by (subst drain_pending.simps) (simp add: Let_def)
  finally have "ingest_byte (b\<lparr>bk_pending := take k s\<rparr>) (s ! k) =
      (snd (consume_reply s b), if is_probe_reply (policy_clipboard_read (bk_policy b)) s then [] else s)"
    by (simp add: drain_idle [OF e] consume_reply_iff)
  then have "ingest_bytes b (take k s @ [s ! k]) =
      (snd (consume_reply s b), if is_probe_reply (policy_clipboard_read (bk_policy b)) s then [] else s)"
    using ingest_prefix [OF s _ b, of k] k by (simp add: probe.run_append)
  with split show ?thesis by simp
qed

lemma plain_not_reply: "c \<noteq> CHR 0x1B \<Longrightarrow> \<not> is_probe_reply clip [c]"
  by (auto simp: is_probe_reply_def parse_mode_report_def parse_kitty_keyboard_report_def parse_size_report_def
      parse_color_report_def is_primary_device_attributes_reply_def is_other_device_attributes_reply_def
      is_clipboard_reply_def strip_prefix_def starts_with_def)

text \<open>
  The broker somewhere in a stream of tokens: it holds the beginning \<open>held\<close> of the token that comes
  next, and nothing at the boundary of two tokens.
\<close>

definition holds_prefix :: "bytes \<Rightarrow> bytes list \<Rightarrow> probe_broker \<Rightarrow> bool" where
  "holds_prefix held rest b \<longleftrightarrow>
     bk_pending b = held \<and> bk_discarding b = None \<and> (held = [] \<or> rest \<noteq> [] \<and> strict_prefix held (hd rest))"

definition without_replies :: "bool \<Rightarrow> bytes list \<Rightarrow> bytes" where
  "without_replies clipboard tokens = concat (filter (\<lambda>s. \<not> is_probe_reply clipboard s) tokens)"

lemma without_replies_simps [simp]:
  "without_replies c [] = []" "without_replies c (xs @ ys) = without_replies c xs @ without_replies c ys"
  "without_replies c [s] = (if is_probe_reply c s then [] else s)"
  by (simp_all add: without_replies_def)

lemma drain_token:
  assumes s: "input_token s" and b: "bk_pending b = s" "bk_discarding b = None"
  shows "\<exists>b'. drain_pending b [] = (b', if is_probe_reply (policy_clipboard_read (bk_policy b)) s then [] else s) \<and>
    bk_pending b' = [] \<and> bk_discarding b' = None \<and> bk_policy b' = bk_policy b"
proof (cases "escape_sequence s")
  case True
  let ?b = "b\<lparr>bk_pending := []\<rparr>"
  obtain rest where r: "s = CHR 0x1B # rest" using True by (cases s) (auto simp: escape_sequence_def)
  have fin: "complete_escape_len s = Some (length s)" "length s \<le> MAX_PROBE_REPLY_BYTES"
    using True by (simp_all add: escape_sequence_def MAX_PROBE_REPLY_BYTES_def)
  have e: "bk_pending (snd (consume_reply s ?b)) = []" by (simp add: consume_reply_pending)
  have "drain_pending b [] = drain_pending (snd (consume_reply s ?b)) (if fst (consume_reply s ?b) then [] else s)"
    using fin r b by (subst drain_pending.simps) (simp add: Let_def)
  then have "drain_pending b [] = (snd (consume_reply s ?b), if is_probe_reply (policy_clipboard_read (bk_policy b)) s then [] else s)"
    by (simp add: drain_idle [OF e] consume_reply_iff)
  then show ?thesis using b e by (simp add: consume_reply_fields)
next
  case False
  then obtain c where c: "s = [c]" "c \<noteq> CHR 0x1B" using s by (auto simp: input_token_def)
  have "drain_pending b [] = (b\<lparr>bk_pending := []\<rparr>, [c])"
    using b c by (subst drain_pending.simps) (simp add: drain_idle)
  then show ?thesis using b c plain_not_reply [OF c(2)] by simp
qed

lemma drain_partial:
  assumes s: "input_token s" and b: "bk_pending b = held" and held: "held \<noteq> []" "strict_prefix held s"
  shows "drain_pending b [] = (b, [])"
proof -
  have k: "held = take (length held) s" "length held < length s"
    using held(2) by (auto simp: strict_prefix_def prefix_def intro: le_neq_trans)
  then have "escape_sequence s" using s held(1) by (auto simp: input_token_def)
  then have p: "complete_escape_len held = None" "hd held = CHR 0x1B" "length held \<le> 4096"
    using k held(1) by (auto simp: escape_sequence_def) (metis hd_take length_greater_0_conv)
  then obtain rest where "held = CHR 0x1B # rest" using held(1) by (cases held) auto
  then show ?thesis using p b by (subst drain_pending.simps) (simp add: MAX_PROBE_REPLY_BYTES_def)
qed

lemma read_byte:
  assumes tok: "list_all input_token (s # rest)" and h: "holds_prefix held (s # rest) b" and nxt: "prefix (held @ [c]) s"
  shows "\<exists>past held' rest' b'. s # rest = past @ rest' \<and> held @ [c] = concat past @ held' \<and>
    ingest_byte b c = (b', without_replies (policy_clipboard_read (bk_policy b)) past) \<and>
    holds_prefix held' rest' b' \<and> bk_policy b' = bk_policy b"
proof -
  let ?b = "b\<lparr>bk_pending := held @ [c]\<rparr>"
  have i: "ingest_byte b c = drain_pending ?b []" and d: "bk_discarding ?b = None"
    using h by (simp_all add: holds_prefix_def ingest_byte_def)
  have s: "input_token s" using tok by simp
  show ?thesis
  proof (cases "held @ [c] = s")
    case True
    from drain_token [OF s, of ?b] True d obtain b' where
        "drain_pending ?b [] = (b', if is_probe_reply (policy_clipboard_read (bk_policy b)) s then [] else s)"
        "bk_pending b' = []" "bk_discarding b' = None" "bk_policy b' = bk_policy b" by auto
    then show ?thesis
      using True i by (intro exI [of _ "[s]"] exI [of _ "[]"] exI [of _ rest] exI [of _ b']) (simp add: holds_prefix_def)
  next
    case False
    then have "strict_prefix (held @ [c]) s" using nxt by (simp add: strict_prefix_def)
    with drain_partial [OF s, of ?b] i d show ?thesis
      by (intro exI [of _ "[]"] exI [of _ "held @ [c]"] exI [of _ "s # rest"] exI [of _ ?b]) (simp add: holds_prefix_def)
  qed
qed

lemma token_ne: "input_token s \<Longrightarrow> s \<noteq> []"
  by (auto simp: input_token_def escape_sequence_def)

lemma read_bytes:
  assumes "list_all input_token rest" and "holds_prefix held rest b" and "prefix (held @ bs) (concat rest)"
  shows "\<exists>past held' rest' b'. rest = past @ rest' \<and> held @ bs = concat past @ held' \<and>
    ingest_bytes b bs = (b', without_replies (policy_clipboard_read (bk_policy b)) past) \<and>
    holds_prefix held' rest' b' \<and> bk_policy b' = bk_policy b"
  using assms
proof (induction bs arbitrary: rest held b)
  case Nil
  then show ?case
    by (intro exI [of _ "[]"] exI [of _ held] exI [of _ rest] exI [of _ b]) simp
next
  case (Cons c bs)
  obtain s ts where rest: "rest = s # ts" using Cons.prems(3) by (cases rest) auto
  have "prefix held s" "held \<noteq> s"
    using Cons.prems(2) token_ne [of s] Cons.prems(1) by (auto simp: holds_prefix_def rest strict_prefix_def)
  then obtain d s' where s: "s = held @ d # s'" by (metis prefixE append_Nil2 neq_Nil_conv)
  have "prefix (held @ [c]) s" using Cons.prems(3) by (simp add: rest s)
  from read_byte [OF Cons.prems(1,2) [unfolded rest] this] obtain past held' rest' b' where one:
      "s # ts = past @ rest'" "held @ [c] = concat past @ held'"
      "ingest_byte b c = (b', without_replies (policy_clipboard_read (bk_policy b)) past)"
      "holds_prefix held' rest' b'" "bk_policy b' = bk_policy b" by blast
  have "concat rest = concat past @ concat rest'" using one(1) by (metis concat_append rest)
  moreover have read: "held @ c # bs = concat past @ held' @ bs" using one(2) by (metis append.assoc append_Cons append_Nil)
  ultimately have "prefix (held' @ bs) (concat rest')" using Cons.prems(3) by (simp only: same_prefix_prefix)
  moreover have "list_all input_token rest'" using Cons.prems(1) one(1) rest by (metis list_all_append)
  ultimately obtain past2 held2 rest2 b2 where two: "rest' = past2 @ rest2" "held' @ bs = concat past2 @ held2"
      "ingest_bytes b' bs = (b2, without_replies (policy_clipboard_read (bk_policy b')) past2)"
      "holds_prefix held2 rest2 b2" "bk_policy b2 = bk_policy b'"
    using Cons.IH [OF _ one(4)] by blast
  have "rest = (past @ past2) @ rest2" using one(1) two(1) rest by simp
  moreover have "held @ c # bs = concat (past @ past2) @ held2"
    using read two(2) by simp
  moreover have "ingest_bytes b (c # bs) = (b2, without_replies (policy_clipboard_read (bk_policy b)) (past @ past2))"
    using one(3,5) two(3) by simp
  ultimately show ?case using two(4,5) one(5) by (intro exI conjI) (assumption | simp)+
qed

text \<open>
  A run of the broker: the bytes it reads, what it passes on to the application, and that no timeout
  check of the run releases held bytes. (The queries of \<^verbatim>\<open>startup_queries\<close> go to the terminal.)
\<close>

fun read_by :: "broker_op list \<Rightarrow> bytes" where
  "read_by [] = []"
| "read_by (BIngest bs now # ops) = bs @ read_by ops"
| "read_by (a # ops) = read_by ops"

fun broker_run :: "broker_op list \<Rightarrow> probe_broker \<Rightarrow> probe_broker \<times> bytes" where
  "broker_run [] b = (b, [])"
| "broker_run (BQueries # ops) b = broker_run ops (snd (startup_queries b))"
| "broker_run (BIngest bs now # ops) b =
     (case ingest bs now b of (b', out) \<Rightarrow> case broker_run ops b' of (b'', out') \<Rightarrow> (b'', out @ out'))"
| "broker_run (BFinish now # ops) b =
     (case finish_if_timed_out now b of (out, b') \<Rightarrow> case broker_run ops b' of (b'', out') \<Rightarrow> (b'', out @ out'))"

fun releases_nothing :: "broker_op list \<Rightarrow> probe_broker \<Rightarrow> bool" where
  "releases_nothing [] b \<longleftrightarrow> True"
| "releases_nothing (BFinish now # ops) b \<longleftrightarrow>
     fst (finish_if_timed_out now b) = [] \<and> releases_nothing ops (snd (finish_if_timed_out now b))"
| "releases_nothing (a # ops) b \<longleftrightarrow> releases_nothing ops (broker_step a b)"

lemma ingest_holds:
  assumes "list_all input_token rest" and "holds_prefix held rest b" and "prefix (held @ bs) (concat rest)"
  shows "\<exists>past held' rest' b'. rest = past @ rest' \<and> held @ bs = concat past @ held' \<and>
    ingest bs now b = (b', without_replies (policy_clipboard_read (bk_policy b)) past) \<and>
    holds_prefix held' rest' b' \<and> bk_policy b' = bk_policy b"
  using read_bytes [OF assms(1) _ assms(3), of b] read_bytes [OF assms(1) _ assms(3), of "b\<lparr>bk_last_activity_at_ms := now\<rparr>"] assms(2)
  by (cases "bs = []") (simp_all add: ingest_def holds_prefix_def)

lemma finish_silent:
  assumes "holds_prefix held rest b" and "fst (finish_if_timed_out now b) = []"
  shows "holds_prefix held rest (snd (finish_if_timed_out now b))" "bk_policy (snd (finish_if_timed_out now b)) = bk_policy b"
  using assms by (auto simp: finish_if_timed_out_def holds_prefix_def split: if_splits)

lemma broker_run_holds:
  assumes "list_all input_token rest" and "holds_prefix held rest b" and "prefix (held @ read_by ops) (concat rest)"
    and "releases_nothing ops b"
  shows "\<exists>past held' rest' b'. rest = past @ rest' \<and> held @ read_by ops = concat past @ held' \<and>
    broker_run ops b = (b', without_replies (policy_clipboard_read (bk_policy b)) past) \<and>
    holds_prefix held' rest' b' \<and> bk_policy b' = bk_policy b"
  using assms
proof (induction ops arbitrary: rest held b)
  case Nil
  then show ?case by (intro exI [of _ "[]"] exI [of _ held] exI [of _ rest] exI [of _ b]) simp
next
  case (Cons a ops)
  show ?case
  proof (cases a)
    case BQueries
    let ?b = "snd (startup_queries b)"
    have "holds_prefix held rest ?b" "bk_policy ?b = bk_policy b"
      using Cons.prems(2) by (simp_all add: startup_queries_def holds_prefix_def Let_def)
    with Cons.IH [of rest held ?b] Cons.prems show ?thesis by (simp add: BQueries)
  next
    case (BFinish now)
    note silent = finish_silent [OF Cons.prems(2), of now]
    with Cons.IH [of rest held "snd (finish_if_timed_out now b)"] Cons.prems show ?thesis
      by (simp add: BFinish case_prod_beta)
  next
    case (BIngest bs now)
    have "prefix (held @ bs) (concat rest)" using Cons.prems(3) append_prefixD [of "held @ bs"] by (simp add: BIngest)
    from ingest_holds [OF Cons.prems(1,2) this] obtain past held' rest' b' where one:
        "rest = past @ rest'" "held @ bs = concat past @ held'"
        "ingest bs now b = (b', without_replies (policy_clipboard_read (bk_policy b)) past)"
        "holds_prefix held' rest' b'" "bk_policy b' = bk_policy b" by blast
    have read: "held @ read_by (a # ops) = concat past @ held' @ read_by ops"
      using one(2) by (metis BIngest append.assoc read_by.simps(2))
    then have "prefix (held' @ read_by ops) (concat rest')" using Cons.prems(3) one(1) by simp
    moreover have "releases_nothing ops b'" using Cons.prems(4) one(3) by (simp add: BIngest)
    moreover have "list_all input_token rest'" using Cons.prems(1) one(1) by simp
    ultimately obtain past2 held2 rest2 b2 where two: "rest' = past2 @ rest2" "held' @ read_by ops = concat past2 @ held2"
        "broker_run ops b' = (b2, without_replies (policy_clipboard_read (bk_policy b')) past2)"
        "holds_prefix held2 rest2 b2" "bk_policy b2 = bk_policy b'"
      using Cons.IH [OF _ one(4)] by blast
    have "rest = (past @ past2) @ rest2" using one(1) two(1) by simp
    moreover have "held @ read_by (a # ops) = concat (past @ past2) @ held2" using read two(2) by simp
    moreover have "broker_run (a # ops) b = (b2, without_replies (policy_clipboard_read (bk_policy b)) (past @ past2))"
      using one(3,5) two(3) by (simp add: BIngest)
    ultimately show ?thesis using two(4,5) one(5) by (intro exI conjI) (assumption | simp)+
  qed
qed

lemma finish_holding:
  assumes "holds_prefix held rest b"
  shows "fst (finish_if_timed_out now b) = (if now - bk_last_activity_at_ms b \<le> 50 then [] else held)"
    "now - bk_last_activity_at_ms b \<le> 50 \<or> broker_idle (snd (finish_if_timed_out now b))"
  using assms by (auto simp: finish_if_timed_out_def holds_prefix_def broker_idle_def PROBE_INACTIVITY_TIMEOUT_MS_def)

lemma holding_all:
  assumes "list_all input_token rest" and "holds_prefix held rest b" and "held = concat rest"
  shows "rest = [] \<and> held = []"
  using assms by (cases rest) (auto simp: holds_prefix_def strict_prefix_def dest: token_ne)

text \<open>
  C12: For any part of a stream of ordinary bytes and complete escape sequences, cut into chunks in
  any way and arriving at any times, with timeout checks in between of which none releases held bytes,
  the broker has passed on exactly the tokens it read in full without the replies to Lector's own
  probes, and holds exactly the beginning of the token it is in the middle of: no complete reply leaks
  to the application and no other byte is lost, changed or reordered. A check more than 50 ms after the
  last input hands out what is held, be it the beginning of a reply, and leaves the broker idle, where
  the same holds for what follows.
\<close>

theorem probe_removes_exactly_replies:
  assumes "list_all input_token tokens" and "broker_idle b"
    and "prefix (read_by ops) (concat tokens)" and "releases_nothing ops b"
    and "broker_run ops b = (b', out)"
  shows "\<exists>past held rest. tokens = past @ rest \<and> read_by ops = concat past @ held \<and>
    (held = [] \<or> rest \<noteq> [] \<and> strict_prefix held (hd rest)) \<and>
    (read_by ops = concat tokens \<longrightarrow> past = tokens) \<and>
    out = concat (filter (\<lambda>s. \<not> is_probe_reply (policy_clipboard_read (bk_policy b)) s) past) \<and>
    buffered_reply_bytes b' = length held \<and>
    fst (finish_if_timed_out now b') = (if now - bk_last_activity_at_ms b' \<le> 50 then [] else held) \<and>
    (now - bk_last_activity_at_ms b' \<le> 50 \<or> broker_idle (snd (finish_if_timed_out now b')))"
proof -
  have "holds_prefix [] tokens b" using assms(2) by (simp add: broker_idle_def holds_prefix_def)
  from broker_run_holds [OF assms(1) this _ assms(4)] assms(3,5) obtain past held rest where run:
      "tokens = past @ rest" "read_by ops = concat past @ held" "holds_prefix held rest b'"
      "out = without_replies (policy_clipboard_read (bk_policy b)) past" by auto
  have "past = tokens" if "read_by ops = concat tokens"
    using holding_all [OF _ run(3)] that run(1,2) assms(1) by simp
  then show ?thesis
    using run finish_holding [OF run(3), of now]
    by (intro exI [of _ past] exI [of _ held] exI [of _ rest] conjI)
      (simp_all add: holds_prefix_def without_replies_def buffered_reply_bytes_def)
qed

lemma csi_sequence:
  assumes "list_all (\<lambda>c. \<not> is_csi_final c) body" and "is_csi_final f" and "length body \<le> 4093"
  shows "escape_sequence (CHR 0x1B # CHR ''['' # body @ [f])"
proof -
  have none: "position is_csi_final (take k body) = None" for k
    using assms(1) by (auto simp: position_None list_all_iff dest: in_set_takeD)
  have pre: "complete_escape_len (take k (CHR 0x1B # CHR ''['' # body @ [f])) = None" if "k < length body + 3" for k
  proof (cases "k < 2")
    case True
    then have "k = 0 \<or> k = 1" by arith
    then show ?thesis by (auto simp: complete_escape_len_def)
  next
    case False
    then have k: "k = Suc (Suc (k - 2))" by simp
    have "take (k - 2) (body @ [f]) = take (k - 2) body" using that by simp
    then show ?thesis by (subst k) (simp add: complete_escape_len_def none)
  qed
  have "position is_csi_final (body @ [f]) = Some (length body)"
    using assms(1,2) by (simp add: position_append list_all_iff)
  then have "complete_escape_len (CHR 0x1B # CHR ''['' # body @ [f]) = Some (length body + 3)"
    by (simp add: complete_escape_len_def)
  then show ?thesis unfolding escape_sequence_def using assms(3) by (intro conjI allI impI pre) simp_all
qed

lemma consume_reply_activity: "bk_last_activity_at_ms (snd (consume_reply s b)) = bk_last_activity_at_ms b"
  by (auto simp: consume_reply_def apply_report_def report_foreground_def report_background_def
      resolve_color_scheme_def consume_size_def derive_cell_size_def set_geometry_def Let_def
      split: option.splits)

lemma drain_pending_activity: "bk_last_activity_at_ms (fst (drain_pending b out)) = bk_last_activity_at_ms b"
proof (induction b out rule: drain_pending.induct)
  case (1 b out)
  show ?case
  proof (cases "bk_pending b")
    case Nil
    then show ?thesis by (subst drain_pending.simps) simp
  next
    case (Cons c rest)
    note eq = drain_pending.simps [of b out]
    show ?thesis
    proof (cases "c = CHR 0x1B")
      case False
      then show ?thesis using "1.IH"(1) [OF Cons False] Cons by (simp add: eq)
    next
      case True
      show ?thesis
      proof (cases "complete_escape_len (bk_pending b)")
        case None
        then show ?thesis using Cons True by (simp add: eq)
      next
        case (Some n)
        define s where "s = take n (bk_pending b)"
        define b1 where "b1 = b\<lparr>bk_pending := drop n (bk_pending b)\<rparr>"
        have t: "bk_last_activity_at_ms b1 = bk_last_activity_at_ms b" by (simp add: b1_def)
        show ?thesis
        proof (cases "MAX_PROBE_REPLY_BYTES < length s")
          case big: True
          have "drain_pending b out = drain_pending (b1\<lparr>bk_malformed_replies :=
              saturating_add_usize (bk_malformed_replies b1) 1\<rparr>) out"
            using Some Cons True big by (simp add: eq s_def b1_def Let_def)
          with "1.IH"(2) [OF Cons _ Some s_def b1_def big] True t show ?thesis by simp
        next
          case small: False
          have "drain_pending b out = drain_pending (snd (consume_reply s b1))
              (if fst (consume_reply s b1) then out else out @ s)"
            using Some Cons True small by (auto simp: eq s_def b1_def Let_def)
          with "1.IH"(3) [OF Cons _ Some s_def b1_def small] True t show ?thesis by (simp add: consume_reply_activity)
        qed
      qed
    qed
  qed
qed

lemma ingest_activity: "bk_last_activity_at_ms (fst (ingest bs now b)) = (if bs \<noteq> [] then now else bk_last_activity_at_ms b)"
proof -
  have "bk_last_activity_at_ms (fst (ingest_byte b c)) = bk_last_activity_at_ms b" for b c
    by (simp add: ingest_byte_def drain_pending_activity split: option.split prod.split)
  then have "bk_last_activity_at_ms (fst (ingest_bytes b bs)) = bk_last_activity_at_ms b" for b bs
    by (induction bs arbitrary: b) (simp_all add: case_prod_beta)
  then show ?thesis by (simp add: ingest_def)
qed

text \<open>
  A reply that arrives in two chunks with a check in between, then a key; and the beginning of a
  reply that a late check hands out.
\<close>

definition silent_broker :: probe_broker where
  "silent_broker = broker_new (conservative \<lparr>geom_rows = 24, geom_cols = 80, geom_cell_width_px = 0, geom_cell_height_px = 0\<rparr>)
     policy_safe 0"

definition split_reply :: "broker_op list" where
  "split_reply = [BQueries, BIngest (''a'' @ CHR 0x1B # ''[?2026;'') 10, BFinish 20, BIngest (''1$y'' @ [CHR 0x1B]) 30, BIngest ''[A'' 40]"

theorem probe_removes_exactly_replies_witness:
  "snd (broker_run split_reply silent_broker) = ''a'' @ CHR 0x1B # ''[A'' \<and>
   fst (finish_if_timed_out 70 (fst (broker_run [BIngest (CHR 0x1B # ''[?2026;'') 10] silent_broker))) = CHR 0x1B # ''[?2026;''"
proof -
  let ?sync = "CHR 0x1B # CHR ''['' # ''?2026;1$'' @ [CHR ''y'']"
  let ?up = "CHR 0x1B # CHR ''['' # [] @ [CHR ''A'']"
  have tok: "input_token ?sync" unfolding input_token_def by (rule disjI1, rule csi_sequence) (code_simp, code_simp, simp)
  moreover have "input_token ?up" unfolding input_token_def by (rule disjI1, rule csi_sequence) (code_simp, code_simp, simp)
  moreover have "input_token ''a''" by (simp add: input_token_def)
  ultimately have tokens: "list_all input_token [''a'', ?sync, ?up]" by (simp only: list.pred_inject simp_thms)
  have "parse_mode_report ?sync = Some (2026, 1)"
    by (simp add: parse_mode_report_def strip_prefix_def starts_with_def strip_suffix_def ends_with_def
        split_once_byte_def parse_uint_def is_ascii_digit_def dec_val_def digit_val_def byte_val_def Let_def)
  then have sync: "is_probe_reply False ?sync" by (simp add: is_probe_reply_def)
  have other: "\<not> is_probe_reply False ?up" "\<not> is_probe_reply False ''a''" by code_simp+
  have idle: "broker_idle silent_broker" and policy: "policy_clipboard_read (bk_policy silent_broker) = False"
    by (simp_all add: broker_idle_def broker_new_def policy_safe_def silent_broker_def)
  obtain b1 out where run: "broker_run split_reply silent_broker = (b1, out)" by fastforce
  have quiet: "releases_nothing split_reply silent_broker"
    by (simp add: split_reply_def finish_if_timed_out_def ingest_activity PROBE_INACTIVITY_TIMEOUT_MS_def)
  have "prefix (read_by split_reply) (concat [''a'', ?sync, ?up])" "read_by split_reply = concat [''a'', ?sync, ?up]"
    by (simp_all add: split_reply_def)
  with probe_removes_exactly_replies [OF tokens idle _ quiet run]
  have "out = concat (filter (\<lambda>s. \<not> is_probe_reply False s) [''a'', ?sync, ?up])"
    unfolding policy by blast
  then have "out = ''a'' @ CHR 0x1B # ''[A''" using sync other by simp
  moreover
  obtain b2 out2 where run2: "broker_run [BIngest (CHR 0x1B # ''[?2026;'') 10] silent_broker = (b2, out2)" by fastforce
  have part: "read_by [BIngest (CHR 0x1B # ''[?2026;'') 10] = CHR 0x1B # ''[?2026;''"
    "prefix (read_by [BIngest (CHR 0x1B # ''[?2026;'') 10]) (concat [?sync])"
    "releases_nothing [BIngest (CHR 0x1B # ''[?2026;'') 10] silent_broker" "list_all input_token [?sync]"
    using tok by (simp_all only: list.pred_inject simp_thms) simp_all
  have "bk_last_activity_at_ms b2 = 10"
    using run2 ingest_activity [of "CHR 0x1B # ''[?2026;''" 10 silent_broker] by (auto split: prod.splits)
  moreover obtain past held rest where "[?sync] = past @ rest" "CHR 0x1B # ''[?2026;'' = concat past @ held"
      "fst (finish_if_timed_out 70 b2) = (if 70 - bk_last_activity_at_ms b2 \<le> 50 then [] else held)"
    using probe_removes_exactly_replies [OF part(4) idle part(2,3) run2, of 70] unfolding part(1) by blast
  ultimately show ?thesis using run run2 by (auto simp: Cons_eq_append_conv)
qed

section \<open>The shutdown fence\<close>

definition fence_ingest :: "bytes \<Rightarrow> shutdown_fence \<Rightarrow> shutdown_fence" where
  "fence_ingest bs f = fold (\<lambda>c f. snd (fence_ingest_byte c f)) bs f"

lemma fence_ingest_simps [simp]:
  "fence_ingest [] f = f"
  "fence_ingest (c # bs) f = fence_ingest bs (snd (fence_ingest_byte c f))"
  "fence_ingest (as @ bs) f = fence_ingest bs (fence_ingest as f)"
  by (simp_all add: fence_ingest_def)

definition csi_frame :: "bytes \<Rightarrow> bool" where
  "csi_frame s \<longleftrightarrow>
     (\<exists>i body c. s = i @ body @ [c] \<and> i \<in> {CHR 0x1B # ''['', [CHR 0x9B]} \<and>
        list_all (\<lambda>b. \<not> is_csi_final b) body \<and> is_csi_final c \<and> length s \<le> 4096)"

definition fence_noise :: "bytes \<Rightarrow> bool" where
  "fence_noise s \<longleftrightarrow>
     (\<exists>c. s = [c] \<and> c \<notin> {CHR 0x1B, CHR 0x9B}) \<or>
     (\<exists>c. s = [CHR 0x1B, c] \<and> c \<notin> {CHR ''['', CHR 0x1B, CHR 0x9B})"

lemma fence_matched: "sf_matched f \<Longrightarrow> fence_ingest bs f = f"
  by (induction bs) (simp_all add: fence_ingest_byte_def)

lemma csi_intro_prefix:
  assumes "i \<in> {CHR 0x1B # ''['', [CHR 0x9B]}"
  shows "i @ r \<noteq> [CHR 0x1B]"
    and "\<not> (starts_with (i @ r) [CHR 0x1B] \<and> \<not> (2 \<le> length (i @ r) \<and> (i @ r) ! 1 = CHR ''[''))"
    and "(if starts_with (i @ r) (CHR 0x1B # ''['') then 2 else 1) = length i"
  using assms by (auto simp: starts_with_def)

lemma fence_open_step:
  assumes "\<not> sf_matched f" and p: "sf_pending f = i @ body" and i: "i \<in> {CHR 0x1B # ''['', [CHR 0x9B]}"
    and "length i + length body < 4096"
  shows "snd (fence_ingest_byte c f) =
    (if \<not> is_csi_final c then f\<lparr>sf_pending := i @ body @ [c]\<rparr>
     else if is_primary_device_attributes_reply (i @ body @ [c])
     then f\<lparr>sf_pending := [], sf_observed_replies := saturating_add_usize (sf_observed_replies f) 1,
            sf_matched := sf_replies_to_ignore f < saturating_add_usize (sf_observed_replies f) 1\<rparr>
     else f\<lparr>sf_pending := []\<rparr>)"
proof -
  note pre = csi_intro_prefix [OF i, of "body @ [c]"]
  have "i \<noteq> []" using i by auto
  moreover have "\<not> 4096 < length (i @ body @ [c])" "length i < length (i @ body @ [c])" "last (i @ body @ [c]) = c"
    using assms(4) by simp_all
  ultimately show ?thesis
    using assms(1)
    by (simp only: fence_ingest_byte_def p Let_def append_assoc if_False if_True pre(1-3) append_is_Nil_conv
        MAX_PROBE_REPLY_BYTES_def simp_thms not_le if_not_P) simp
qed

lemma fence_body:
  assumes "\<not> sf_matched f" and "i \<in> {CHR 0x1B # ''['', [CHR 0x9B]}" and "list_all (\<lambda>b. \<not> is_csi_final b) body"
    and "length i + length body \<le> 4096"
  shows "fence_ingest body (f\<lparr>sf_pending := i\<rparr>) = f\<lparr>sf_pending := i @ body\<rparr>"
  using assms(3,4)
proof (induction body rule: rev_induct)
  case (snoc c body)
  then show ?case
    using fence_open_step [of "f\<lparr>sf_pending := i @ body\<rparr>" i body c] assms(1,2) by simp
qed simp

lemma fence_frame:
  assumes s: "csi_frame s" and "\<not> sf_matched f" and "sf_pending f = []"
  shows "fence_ingest s f =
    (if is_primary_device_attributes_reply s
     then f\<lparr>sf_observed_replies := saturating_add_usize (sf_observed_replies f) 1,
            sf_matched := sf_replies_to_ignore f < saturating_add_usize (sf_observed_replies f) 1\<rparr>
     else f)"
proof -
  obtain i body c where d: "s = i @ body @ [c]" "i \<in> {CHR 0x1B # ''['', [CHR 0x9B]}"
      "list_all (\<lambda>b. \<not> is_csi_final b) body" "is_csi_final c" "length s \<le> 4096"
    using s unfolding csi_frame_def by blast
  have "fence_ingest i f = f\<lparr>sf_pending := i\<rparr>"
    using d(2) assms(2,3) by (auto simp: fence_ingest_byte_def Let_def starts_with_def)
  moreover have "fence_ingest body (f\<lparr>sf_pending := i\<rparr>) = f\<lparr>sf_pending := i @ body\<rparr>"
    using fence_body [OF assms(2) d(2,3)] d(1,5) by simp
  ultimately have "fence_ingest s f = snd (fence_ingest_byte c (f\<lparr>sf_pending := i @ body\<rparr>))"
    by (simp add: d(1))
  also have "\<dots> = (if is_primary_device_attributes_reply s
     then f\<lparr>sf_pending := [], sf_observed_replies := saturating_add_usize (sf_observed_replies f) 1,
            sf_matched := sf_replies_to_ignore f < saturating_add_usize (sf_observed_replies f) 1\<rparr>
     else f\<lparr>sf_pending := []\<rparr>)"
    using fence_open_step [of "f\<lparr>sf_pending := i @ body\<rparr>" i body c] assms(2) d by simp
  also have "f\<lparr>sf_pending := []\<rparr> = f" using assms(3) by simp
  finally show ?thesis using assms(3) by simp
qed

lemma fence_noise_ignored:
  assumes "fence_noise s" and "\<not> sf_matched f" and "sf_pending f = []"
  shows "fence_ingest s f = f"
  using assms by (auto simp: fence_noise_def fence_ingest_byte_def restart_after_invalid_sequence_def
      Let_def starts_with_def)

lemma noise_not_primary: "fence_noise s \<Longrightarrow> \<not> is_primary_device_attributes_reply s"
  by (auto simp: fence_noise_def is_primary_device_attributes_reply_def strip_prefix_def starts_with_def)

definition count_primary :: "bytes list \<Rightarrow> nat" where
  "count_primary ts = length (filter is_primary_device_attributes_reply ts)"

lemma fence_tokens:
  assumes "list_all (\<lambda>s. csi_frame s \<or> fence_noise s) ts"
    and "sf_pending f = []" and "\<not> sf_matched f"
    and "sf_observed_replies f \<le> sf_replies_to_ignore f" and "sf_replies_to_ignore f < usize_max"
  shows "sf_matched (fence_ingest (concat ts) f) \<longleftrightarrow>
    sf_replies_to_ignore f < sf_observed_replies f + count_primary ts"
  using assms
proof (induction ts arbitrary: f)
  case Nil
  then show ?case by (simp add: count_primary_def)
next
  case (Cons s ts)
  show ?case
  proof (cases "is_primary_device_attributes_reply s")
    case False
    have "fence_ingest s f = f"
      using Cons.prems False fence_frame [of s f] fence_noise_ignored [of s f] by auto
    then show ?thesis using Cons False by (simp add: count_primary_def)
  next
    case True
    then have "csi_frame s" using Cons.prems(1) noise_not_primary by auto
    moreover have sat: "saturating_add_usize (sf_observed_replies f) 1 = Suc (sf_observed_replies f)"
      using Cons.prems(4,5) by (simp add: saturating_add_usize_def)
    ultimately have e: "fence_ingest s f = f\<lparr>sf_observed_replies := Suc (sf_observed_replies f),
        sf_matched := sf_replies_to_ignore f < Suc (sf_observed_replies f)\<rparr>"
      using fence_frame [of s f] Cons.prems True by simp
    show ?thesis
    proof (cases "sf_replies_to_ignore f < Suc (sf_observed_replies f)")
      case True
      then show ?thesis using e fence_matched \<open>is_primary_device_attributes_reply s\<close> by (simp add: count_primary_def)
    next
      case False
      have "sf_matched (fence_ingest (concat ts) (f\<lparr>sf_observed_replies := Suc (sf_observed_replies f), sf_matched := False\<rparr>))
        \<longleftrightarrow> sf_replies_to_ignore f < Suc (sf_observed_replies f) + count_primary ts"
        using Cons.IH [of "f\<lparr>sf_observed_replies := Suc (sf_observed_replies f), sf_matched := False\<rparr>"]
          Cons.prems False by simp
      then show ?thesis using e False \<open>is_primary_device_attributes_reply s\<close> by (simp add: count_primary_def)
    qed
  qed
qed

text \<open>
  At shutdown the fence is passed exactly when the terminal has answered the final query: of
  a stream of control sequences and other input, precisely the device-attributes replies beyond
  those still owed to earlier probes count, in the 7-bit and the 8-bit form alike, and nothing
  else opens the fence early.
\<close>

theorem shutdown_fence_exact:
  assumes "list_all (\<lambda>s. csi_frame s \<or> fence_noise s) tokens" and "owed < 2 ^ 64 - 1"
  shows "sf_matched (fence_ingest (concat tokens) (fence_new owed)) \<longleftrightarrow> owed < count_primary tokens"
  using fence_tokens [OF assms(1), of "fence_new owed"] assms(2) by (simp add: fence_new_def usize_max_def)

theorem shutdown_fence_exact_witness:
  "sf_matched (fence_ingest (concat [CHR 0x1B # ''[?62;22c'', ''q'', [CHR 0x9B] @ ''?1c'']) (fence_new 1))"
proof -
  have "csi_frame (CHR 0x1B # ''[?62;22c'')" unfolding csi_frame_def
    by (intro exI [of _ "CHR 0x1B # ''[''"] exI [of _ "''?62;22''"] exI [of _ "CHR ''c''"] conjI) (code_simp | simp)+
  moreover have "csi_frame ([CHR 0x9B] @ ''?1c'')" unfolding csi_frame_def
    by (intro exI [of _ "[CHR 0x9B]"] exI [of _ "''?1''"] exI [of _ "CHR ''c''"] conjI) (code_simp | simp)+
  moreover have "fence_noise ''q''" by (simp add: fence_noise_def)
  ultimately have t: "list_all (\<lambda>s. csi_frame s \<or> fence_noise s) [CHR 0x1B # ''[?62;22c'', ''q'', [CHR 0x9B] @ ''?1c'']"
    by (simp only: list.pred_inject simp_thms)
  have "1 < count_primary [CHR 0x1B # ''[?62;22c'', ''q'', [CHR 0x9B] @ ''?1c'']" by code_simp
  with shutdown_fence_exact [OF t, of 1] show ?thesis by simp
qed

section \<open>Replies owed to applications\<close>

text \<open>The contract of the broker: one byte queue per owner, emptied when it is taken.\<close>

datatype 'o reply_op = QueueReply 'o bytes | TakeReply 'o

fun broker_exec :: "'o::linorder reply_op list \<Rightarrow> 'o reply_broker \<Rightarrow> bytes list" where
  "broker_exec [] b = []"
| "broker_exec (QueueReply owner reply # ops) b = broker_exec ops (reply_queue owner reply b)"
| "broker_exec (TakeReply owner # ops) b = (case reply_take owner b of (bs, b') \<Rightarrow> bs # broker_exec ops b')"

fun mailbox_exec :: "'o reply_op list \<Rightarrow> ('o \<Rightarrow> bytes) \<Rightarrow> bytes list" where
  "mailbox_exec [] m = []"
| "mailbox_exec (QueueReply owner reply # ops) m = mailbox_exec ops (m(owner := m owner @ reply))"
| "mailbox_exec (TakeReply owner # ops) m = m owner # mailbox_exec ops (m(owner := []))"

definition mailbox_of :: "'o reply_broker \<Rightarrow> 'o \<Rightarrow> bytes" where
  "mailbox_of b owner = (case btree_get b owner of Some bs \<Rightarrow> bs | None \<Rightarrow> [])"

lemma mailbox_steps:
  assumes "btree_inv b"
  shows "mailbox_of (reply_queue owner reply b) = (mailbox_of b)(owner := mailbox_of b owner @ reply)"
    and "fst (reply_take owner b) = mailbox_of b owner"
    and "mailbox_of (snd (reply_take owner b)) = (mailbox_of b)(owner := [])"
    and "btree_inv (reply_queue owner reply b)" and "btree_inv (snd (reply_take owner b))"
  using assms by (auto simp: mailbox_of_def reply_queue_def reply_take_def fun_eq_iff btree.map_laws btree.invar_laws)

lemma broker_refines: "btree_inv b \<Longrightarrow> broker_exec ops b = mailbox_exec ops (mailbox_of b)"
proof (induction ops b rule: broker_exec.induct)
  case (2 owner reply ops b)
  then show ?case using mailbox_steps(1,4) [of b owner reply] by (simp add: fun_upd_def)
next
  case (3 owner ops b)
  then show ?case using mailbox_steps(2,3,5) [of b owner] by (cases "reply_take owner b") (simp add: fun_upd_def)
qed simp

text \<open>
  C13: The broker for application replies refines one mailbox per owner: each take returns, in
  order and exactly once, the replies queued for that owner since its last take, and never a byte
  that was queued for somebody else.
\<close>

theorem reply_broker_refines_mailboxes:
  "broker_exec ops ([] :: 'o::linorder reply_broker) = mailbox_exec ops (\<lambda>_. [])"
proof -
  have "mailbox_of ([] :: 'o reply_broker) = (\<lambda>_. [])" by (simp add: fun_eq_iff mailbox_of_def btree_get_def)
  with broker_refines [of "[] :: 'o reply_broker" ops] show ?thesis by (simp add: btree_inv_def)
qed

section \<open>Deadlines\<close>

text \<open>
  The deadline that the probe broker announces is exact: before it a timeout check changes
  nothing and releases nothing, from it on the check finishes the probe, releases every byte that
  was held back and leaves no deadline; and without a deadline the check never does anything.
\<close>

theorem probe_deadline_exact:
  assumes "bk_last_activity_at_ms b + 51 < 2 ^ 128"
  shows "case broker_next_deadline_ms b of
      None \<Rightarrow> finish_if_timed_out now b = ([], b)
    | Some d \<Rightarrow>
        (if now < d then finish_if_timed_out now b = ([], b)
         else fst (finish_if_timed_out now b) = bk_pending b \<and>
           broker_next_deadline_ms (snd (finish_if_timed_out now b)) = None)"
  using assms
  by (auto simp: broker_next_deadline_ms_def finish_if_timed_out_def PROBE_INACTIVITY_TIMEOUT_MS_def)

theorem probe_deadline_exact_witness:
  "broker_next_deadline_ms (snd (finish_if_timed_out 151 (broker_new
     (conservative \<lparr>geom_rows = 24, geom_cols = 80, geom_cell_width_px = 0, geom_cell_height_px = 0\<rparr>) policy_safe 100))) = None"
  (is "broker_next_deadline_ms (snd (finish_if_timed_out 151 ?b)) = None")
proof -
  have "broker_next_deadline_ms ?b = Some 151"
    by (simp add: broker_next_deadline_ms_def broker_new_def PROBE_INACTIVITY_TIMEOUT_MS_def)
  then show ?thesis using probe_deadline_exact [of ?b 151] by (simp add: broker_new_def)
qed

section \<open>Size reports\<close>

definition size_reply :: "nat \<Rightarrow> nat \<Rightarrow> nat \<Rightarrow> bytes" where
  "size_reply kind x y = CHR 0x1B # CHR ''['' # (show_nat kind @ CHR '';'' # show_nat x @ CHR '';'' # show_nat y) @ [CHR ''t'']"

lemma show_nat_no_sep: "CHR '';'' \<notin> set (show_nat n)"
  using show_nat_set [of "CHR '';''" n] by (auto simp: is_ascii_digit_def byte_val_def)

lemma show_nat_class: "c \<in> set (show_nat n) \<Longrightarrow> is_ascii c \<and> \<not> is_csi_final c"
  using show_nat_set [of c n] by (auto simp: is_ascii_digit_def is_ascii_def is_csi_final_def)

lemma show_nat_bound: "n < 2 ^ 32 \<Longrightarrow> length (show_nat n) \<le> 10"
  by (rule show_nat_length) simp_all

lemma size_reply_sequence:
  assumes "kind < 2 ^ 32" and "x < 2 ^ 32" and "y < 2 ^ 32"
  shows "escape_sequence (size_reply kind x y)"
  unfolding size_reply_def
proof (rule csi_sequence)
  show "list_all (\<lambda>c. \<not> is_csi_final c) (show_nat kind @ CHR '';'' # show_nat x @ CHR '';'' # show_nat y)"
    by (auto simp: list_all_iff dest: show_nat_class) (simp_all add: is_csi_final_def byte_val_def)
  show "is_csi_final CHR ''t''" by (simp add: is_csi_final_def byte_val_def)
  show "length (show_nat kind @ CHR '';'' # show_nat x @ CHR '';'' # show_nat y) \<le> 4093"
    using show_nat_bound [OF assms(1)] show_nat_bound [OF assms(2)] show_nat_bound [OF assms(3)] by simp
qed

lemma show_nat_hd: "\<exists>c r. show_nat n = c # r \<and> is_ascii_digit c"
  by (cases "show_nat n") (use show_nat_set [of _ n] in auto)

lemma parse_size_reply:
  assumes "kind < 2 ^ 8" and "x < 2 ^ 32" and "y < 2 ^ 32"
  shows "parse_mode_report (size_reply kind x y) = None"
    and "parse_kitty_keyboard_report (size_reply kind x y) = None"
    and "parse_size_report (size_reply kind x y) = Some (kind, x, y)"
proof -
  obtain c r where c: "show_nat kind = c # r" "is_ascii_digit c" using show_nat_hd by blast
  then have "c \<noteq> CHR ''?''" by (auto simp: is_ascii_digit_def byte_val_def)
  then have no: "strip_prefix (size_reply kind x y) (CHR 0x1B # ''[?'') = None"
    by (simp add: size_reply_def c strip_prefix_def starts_with_def)
  then show "parse_mode_report (size_reply kind x y) = None"
    "parse_kitty_keyboard_report (size_reply kind x y) = None"
    by (simp_all add: parse_mode_report_def parse_kitty_keyboard_report_def)
  have "utf8_valid (size_reply kind x y)"
    by (rule utf8_valid_ascii)
      (use show_nat_class in \<open>auto simp: size_reply_def list_all_iff is_ascii_def byte_val_def\<close>)
  moreover have "strip_prefix (size_reply kind x y) (CHR 0x1B # ''['') =
      Some ((show_nat kind @ CHR '';'' # show_nat x @ CHR '';'' # show_nat y) @ ''t'')"
    by (simp add: size_reply_def strip_prefix_Some)
  moreover have "split_on (CHR '';'') (show_nat kind @ CHR '';'' # show_nat x @ CHR '';'' # show_nat y) =
      [show_nat kind, show_nat x, show_nat y]"
    by (simp add: split_on_append_sep split_on_no_sep show_nat_no_sep)
  moreover have "strip_suffix ((show_nat kind @ CHR '';'' # show_nat x @ CHR '';'' # show_nat y) @ ''t'') ''t'' =
      Some (show_nat kind @ CHR '';'' # show_nat x @ CHR '';'' # show_nat y)" by (simp only: strip_suffix_Some)
  ultimately show "parse_size_report (size_reply kind x y) = Some (kind, x, y)"
    using assms by (simp add: parse_size_report_def parse_uint_show_nat)
qed

lemma ingest_size_reply:
  assumes "kind < 2 ^ 8" and "x < 2 ^ 32" and "y < 2 ^ 32" and "broker_idle b" and "kind \<in> {4, 6, 8}"
  shows "ingest_bytes b (size_reply kind x y) = (snd (consume_size kind x y b), [])"
proof -
  have r: "consume_reply (size_reply kind x y) b = consume_size kind x y b"
    using parse_size_reply [OF assms(1-3)] by (simp add: consume_reply_def)
  have "is_probe_reply clip (size_reply kind x y)" for clip
    using parse_size_reply [OF assms(1-3)] assms(5) by (simp add: is_probe_reply_def)
  moreover have "escape_sequence (size_reply kind x y)" using assms(1-3) by (intro size_reply_sequence) simp_all
  ultimately show ?thesis using ingest_sequence [OF _ assms(4)] r by simp
qed

abbreviation broker_geometry :: "probe_broker \<Rightarrow> terminal_geometry" where
  "broker_geometry b \<equiv> pp_geometry (bk_profile b)"

lemma derive_cell_size_keeps:
  "geom_rows (broker_geometry (derive_cell_size b)) = geom_rows (broker_geometry b)"
  "geom_cols (broker_geometry (derive_cell_size b)) = geom_cols (broker_geometry b)"
  "geom_cell_width_px (broker_geometry b) \<noteq> 0 \<Longrightarrow>
     geom_cell_width_px (broker_geometry (derive_cell_size b)) = geom_cell_width_px (broker_geometry b)"
  "geom_cell_height_px (broker_geometry b) \<noteq> 0 \<Longrightarrow>
     geom_cell_height_px (broker_geometry (derive_cell_size b)) = geom_cell_height_px (broker_geometry b)"
  by (auto simp: derive_cell_size_def set_geometry_def Let_def split: option.splits)

lemma consume_size_idle: "broker_idle b \<Longrightarrow> broker_idle (snd (consume_size kind x y b))"
  by (auto simp: broker_idle_def consume_size_def derive_cell_size_def set_geometry_def Let_def)

definition grid_is :: "u16 \<Rightarrow> u16 \<Rightarrow> probe_broker \<Rightarrow> bool" where
  "grid_is r c b \<longleftrightarrow> geom_rows (broker_geometry b) = r \<and> geom_cols (broker_geometry b) = c"

definition cell_is :: "u32 \<Rightarrow> u32 \<Rightarrow> probe_broker \<Rightarrow> bool" where
  "cell_is h w b \<longleftrightarrow> geom_cell_height_px (broker_geometry b) = h \<and> geom_cell_width_px (broker_geometry b) = w"

lemma consume_pixels:
  "grid_is r c b \<Longrightarrow> grid_is r c (snd (consume_size 4 x y b))"
  "cell_is h w b \<Longrightarrow> 0 < h \<Longrightarrow> 0 < w \<Longrightarrow> cell_is h w (snd (consume_size 4 x y b))"
  by (auto simp: grid_is_def cell_is_def consume_size_def Let_def derive_cell_size_keeps)

lemma consume_cells:
  "grid_is r c b \<Longrightarrow> grid_is r c (snd (consume_size 6 x y b))"
  "0 < h \<Longrightarrow> 0 < w \<Longrightarrow> cell_is h w (snd (consume_size 6 (unat h) (unat w) b))"
  by (auto simp: grid_is_def cell_is_def consume_size_def Let_def derive_cell_size_keeps set_geometry_def)

lemma consume_grid:
  "grid_is r c (snd (consume_size 8 (unat r) (unat c) b))"
  "cell_is h w b \<Longrightarrow> 0 < h \<Longrightarrow> 0 < w \<Longrightarrow> cell_is h w (snd (consume_size 8 x y b))"
  using unsigned_less [of r, where ?'a = nat] unsigned_less [of c, where ?'a = nat]
  by (auto simp: grid_is_def cell_is_def consume_size_def Let_def derive_cell_size_keeps set_geometry_def
      u16_try_from_or_max_def)

definition size_answer :: "u16 \<Rightarrow> u16 \<Rightarrow> u32 \<Rightarrow> u32 \<Rightarrow> nat \<times> nat \<times> nat \<Rightarrow> bool" where
  "size_answer r c h w a \<longleftrightarrow>
     (case a of (kind, x, y) \<Rightarrow> kind = 4 \<and> x < 2 ^ 32 \<and> y < 2 ^ 32 \<or>
        a = (6, unat h, unat w) \<or> a = (8, unat r, unat c))"

lemma size_answer_step:
  assumes "size_answer r c h w (kind, x, y)" and "0 < h" and "0 < w" and "broker_idle b"
  shows "\<exists>b'. ingest_bytes b (size_reply kind x y) = (b', []) \<and> broker_idle b' \<and>
    (grid_is r c b \<or> kind = 8 \<longrightarrow> grid_is r c b') \<and> (cell_is h w b \<or> kind = 6 \<longrightarrow> cell_is h w b')"
proof -
  have bounds: "kind < 2 ^ 8" "x < 2 ^ 32" "y < 2 ^ 32" "kind \<in> {4, 6, 8}"
    using assms(1) unsigned_less [of h, where ?'a = nat] unsigned_less [of w, where ?'a = nat]
      unsigned_less [of r, where ?'a = nat] unsigned_less [of c, where ?'a = nat]
    by (auto simp: size_answer_def)
  have "(grid_is r c b \<or> kind = 8 \<longrightarrow> grid_is r c (snd (consume_size kind x y b))) \<and>
    (cell_is h w b \<or> kind = 6 \<longrightarrow> cell_is h w (snd (consume_size kind x y b)))"
    using assms(1-3) by (auto simp: size_answer_def consume_pixels consume_cells consume_grid)
  with ingest_size_reply [OF bounds(1-3) assms(4) bounds(4)] consume_size_idle [OF assms(4)] show ?thesis
    by simp
qed

lemma size_answers:
  assumes "list_all (size_answer r c h w) answers" and "0 < h" and "0 < w" and "broker_idle b"
  shows "\<exists>b'. ingest_bytes b (concat (map (\<lambda>(kind, x, y). size_reply kind x y) answers)) = (b', []) \<and>
    (grid_is r c b \<or> (8, unat r, unat c) \<in> set answers \<longrightarrow> grid_is r c b') \<and>
    (cell_is h w b \<or> (6, unat h, unat w) \<in> set answers \<longrightarrow> cell_is h w b')"
  using assms(1,4)
proof (induction answers arbitrary: b)
  case (Cons a answers)
  obtain kind x y where a: "a = (kind, x, y)" by (cases a) auto
  obtain b' where b': "ingest_bytes b (size_reply kind x y) = (b', [])" "broker_idle b'"
      "grid_is r c b \<or> kind = 8 \<longrightarrow> grid_is r c b'" "cell_is h w b \<or> kind = 6 \<longrightarrow> cell_is h w b'"
    using size_answer_step [of r c h w kind x y b] Cons.prems assms(2,3) by (auto simp: a)
  obtain b'' where b'': "ingest_bytes b' (concat (map (\<lambda>(kind, x, y). size_reply kind x y) answers)) = (b'', [])"
      "grid_is r c b' \<or> (8, unat r, unat c) \<in> set answers \<longrightarrow> grid_is r c b''"
      "cell_is h w b' \<or> (6, unat h, unat w) \<in> set answers \<longrightarrow> cell_is h w b''"
    using Cons.IH [OF _ b'(2)] Cons.prems by auto
  have "ingest_bytes b (concat (map (\<lambda>(kind, x, y). size_reply kind x y) (a # answers))) = (b'', [])"
    by (simp add: a probe.run_append b'(1) b''(1))
  with b'(3,4) b''(2,3) show ?case by (auto simp: a)
qed simp

text \<open>
  The terminal may answer the three size queries in any order and any number of times, in
  any chunks: once it has answered both the grid and the cell query, the profile holds exactly
  the rows, columns and cell size it reported, for every size that fits the fields, and none of
  the answers reaches the application.
\<close>

theorem size_reports_any_order:
  assumes "list_all (size_answer r c h w) answers" and "0 < h" and "0 < w" and "broker_idle b"
    and "(8, unat r, unat c) \<in> set answers" and "(6, unat h, unat w) \<in> set answers"
  shows "\<exists>b'. ingest (concat (map (\<lambda>(kind, x, y). size_reply kind x y) answers)) now b = (b', []) \<and>
    pp_geometry (bk_profile b') =
      \<lparr>geom_rows = r, geom_cols = c, geom_cell_width_px = w, geom_cell_height_px = h\<rparr>"
proof -
  have idle: "broker_idle (b\<lparr>bk_last_activity_at_ms := now\<rparr>)" using assms(4) by (simp add: broker_idle_def)
  have "concat (map (\<lambda>(kind, x, y). size_reply kind x y) answers) \<noteq> []"
    using assms(5) by (force simp: size_reply_def)
  then show ?thesis
    using size_answers [OF assms(1-3) idle] assms(5,6)
    unfolding ingest_def by (auto simp: grid_is_def cell_is_def)
qed

theorem size_reports_any_order_witness:
  "\<exists>b'. ingest (concat (map (\<lambda>(kind, x, y). size_reply kind x y) [(8, 24, 80), (4, 480, 800), (6, 20, 10)])) 5
       (broker_new (conservative (geometry_from_cells 1 1)) policy_safe 0) = (b', []) \<and>
     pp_geometry (bk_profile b') =
       \<lparr>geom_rows = 24, geom_cols = 80, geom_cell_width_px = 10, geom_cell_height_px = 20\<rparr>"
  by (rule size_reports_any_order) (simp_all add: size_answer_def broker_idle_def broker_new_def)

section \<open>Precedence of the capability sources\<close>

text \<open>
  The environment overrides enter the profile before the probes start, so a probe reply replaces
  an explicit override.
\<close>

lemma sync_override:
  "from_environment [''LECTOR_OUTER_SYNC'' \<mapsto> ''no''] = Ok (default_overrides\<lparr>ov_synchronized_output := Some False\<rparr>)"
proof -
  have t: "str_trim ''no'' = ''no''" by (rule str_trim_same) (simp_all add: byte_val_def)
  have "parse_explicit_bool ''LECTOR_OUTER_SYNC'' ''no'' = Ok False"
    unfolding parse_explicit_bool_def t by (simp add: to_ascii_lowercase_def byte_val_def)
  then show ?thesis
    by (simp add: from_environment_def override_keys_def List.map_filter_def from_pairs_def override_pair_def)
qed

lemma sync_report: "parse_mode_report (CHR 0x1B # ''[?2026;1$y'') = Some (2026, 1)"
  by (simp add: parse_mode_report_def strip_prefix_def starts_with_def strip_suffix_def ends_with_def
      split_once_byte_def parse_uint_def is_ascii_digit_def dec_val_def digit_val_def byte_val_def Let_def)

lemma probe_replaces_override:
  "\<exists>p. startup_profile g None None [''LECTOR_OUTER_SYNC'' \<mapsto> ''no''] = Ok p \<and>
     \<not> pp_synchronized_output p \<and>
     pp_synchronized_output (bk_profile (snd (consume_reply (CHR 0x1B # ''[?2026;1$y'') (broker_new p policy_safe 0))))"
  unfolding startup_profile_def sync_override
  by (simp add: result_simps Let_def apply_overrides_def default_overrides_def apply_option_def conservative_def
      consume_reply_def sync_report apply_report_def apply_probe_def broker_new_def default_report_def)

end
