(* ===== verification/Tmux_Model.thy ===== *)
theory Tmux_Model
  imports Rust_Strings Btree_Map "HOL-Library.List_Lexorder" "HOL-Library.Char_ord"
begin

text \<open>
  The topology of a tmux server as Lector mirrors it (\<^verbatim>\<open>tmux_model.rs\<close>): sessions, windows,
  panes, options and key bindings, built from an inventory transaction and kept up to date by
  notifications. Identifiers are 64-bit words; a \<^verbatim>\<open>BTreeMap\<close> keyed by strings is ordered by the
  bytes. A handler returns its result together with the topology it leaves behind, so that error
  branches show what they changed.
\<close>

section \<open>Inventory commands\<close>

definition tab :: byte where "tab = CHR 0x09"

fun join_with :: "byte \<Rightarrow> bytes list \<Rightarrow> bytes" where
  "join_with c [] = []"
| "join_with c [f] = f"
| "join_with c (f # g # fs) = f @ c # join_with c (g # fs)"

definition format_command :: "bytes \<Rightarrow> bytes list \<Rightarrow> bytes" where
  "format_command program fs = program @ '' -F '' @ [CHR 0x27] @ join_with tab fs @ [CHR 0x27, CHR 0x0A]"

definition placeholder :: "bytes \<Rightarrow> bytes" where
  "placeholder name = CHR ''#'' # CHR ''{'' # name @ ''}''"

definition INVENTORY_COMMANDS :: "bytes list" where
  "INVENTORY_COMMANDS =
     [format_command ''list-sessions'' (''S'' # map placeholder [''session_id'', ''session_name'']),
      format_command ''list-windows -a'' (''W'' # map placeholder
        [''session_id'', ''window_id'', ''window_index'', ''window_active'', ''window_layout'',
         ''window_visible_layout'', ''window_flags'', ''window_name'']),
      format_command ''list-panes -a'' (''P'' # map placeholder
        [''window_id'', ''pane_id'', ''pane_index'', ''pane_active'', ''pane_left'', ''pane_top'',
         ''pane_width'', ''pane_height'', ''pane_dead'', ''cursor_x'', ''cursor_y'', ''cursor_flag'',
         ''cursor_shape'', ''alternate_on'', ''pane_in_mode'', ''pane_mode'', ''history_size'', ''pane_title'']),
      format_command ''display-message -p'' (''A'' # map placeholder [''session_id'', ''host'']),
      format_command ''display-message -p'' [''O'', ''base-index'', placeholder ''base-index''],
      format_command ''display-message -p'' [''O'', ''pane-base-index'', placeholder ''pane-base-index''],
      format_command ''display-message -p'' [''C'', ''client_name'', placeholder ''client_name''],
      format_command ''display-message -p'' [''O'', ''prefix'', placeholder ''prefix''],
      format_command ''display-message -p'' [''O'', ''prefix2'', placeholder ''prefix2''],
      format_command ''display-message -p'' [''O'', ''key-table'', placeholder ''key-table''],
      format_command ''display-message -p'' [''O'', ''repeat-time'', placeholder ''repeat-time''],
      ''list-keys -a'' @ [CHR 0x0A]]"

definition INVENTORY_REPLY_COUNT :: nat where
  "INVENTORY_REPLY_COUNT = length INVENTORY_COMMANDS"

definition INVENTORY_COMMAND :: bytes where
  "INVENTORY_COMMAND = concat INVENTORY_COMMANDS"

section \<open>State\<close>

record window_link =
  wl_session_id :: u64
  wl_index :: u32

record session =
  ses_id :: u64
  ses_name :: bytes
  ses_windows :: "(u32, u64) btree_map"
  ses_active_window :: "u64 option"

record window =
  win_id :: u64
  win_name :: bytes
  win_links :: "window_link set"
  win_active_pane :: "u64 option"
  win_layout :: bytes
  win_visible_layout :: bytes
  win_flags :: bytes

record pane =
  pane_ident :: u64
  pane_window_id :: u64
  pane_index :: u32
  pane_title :: bytes
  pane_left :: u32
  pane_top :: u32
  pane_width :: u32
  pane_height :: u32
  pane_dead :: bool
  pane_cursor_x :: u32
  pane_cursor_y :: u32
  pane_cursor_visible :: bool
  pane_cursor_shape :: bytes
  pane_alternate_on :: bool
  pane_in_mode :: u32
  pane_mode :: bytes
  pane_history_size :: u32

record pane_capture_metadata =
  meta_pane_id :: u64
  meta_left :: u32
  meta_top :: u32
  meta_width :: u32
  meta_height :: u32
  meta_dead :: bool
  meta_cursor_x :: u32
  meta_cursor_y :: u32
  meta_cursor_visible :: bool
  meta_cursor_shape :: bytes
  meta_alternate_on :: bool
  meta_pane_in_mode :: u32
  meta_history_size :: u32

definition capture_basis_matches :: "pane_capture_metadata \<Rightarrow> pane_capture_metadata \<Rightarrow> bool" where
  "capture_basis_matches a b \<longleftrightarrow>
     meta_pane_id a = meta_pane_id b \<and> meta_width a = meta_width b \<and> meta_height a = meta_height b \<and>
     meta_alternate_on a = meta_alternate_on b \<and> meta_pane_in_mode a = meta_pane_in_mode b"

record tmux_location =
  loc_session_id :: u64
  loc_session_name :: bytes
  loc_window_id :: u64
  loc_window_index :: u32
  loc_window_name :: bytes
  loc_pane_id :: "u64 option"
  loc_pane_index :: "u32 option"
  loc_pane_count :: nat

definition window_title :: "tmux_location \<Rightarrow> bytes" where
  "window_title l =
     (case loc_pane_index l of
        Some i \<Rightarrow>
          if 1 < loc_pane_count l
          then show_nat (unat (loc_window_index l)) @ ''.'' @ show_nat (unat i) @ '': '' @ loc_window_name l
          else show_nat (unat (loc_window_index l)) @ '': '' @ loc_window_name l
      | None \<Rightarrow> show_nat (unat (loc_window_index l)) @ '': '' @ loc_window_name l)"

definition accessible_title :: "tmux_location \<Rightarrow> bytes" where
  "accessible_title l = ''tmux, '' @ loc_session_name l @ '', '' @ window_title l"

record tmux_binding =
  bind_table :: bytes
  bind_key :: bytes
  bind_repeatable :: bool
  bind_command :: bytes

datatype reconcile_outcome = Applied | Ignored | ResyncRequired

datatype topology_error =
    MalformedInventory
  | InvalidId string
  | InvalidNumber string
  | InvalidUtf8 string
  | ContradictoryInventory string
  | InvalidLabel
  | MalformedNotification

record tmux_topology =
  top_connection_id :: u64
  top_label :: bytes
  top_host :: "bytes option"
  top_sessions :: "(u64, session) btree_map"
  top_windows :: "(u64, window) btree_map"
  top_panes :: "(u64, pane) btree_map"
  top_attached_session :: "u64 option"
  top_options :: "(bytes, bytes) btree_map"
  top_client_info :: "(bytes, bytes) btree_map"
  top_bindings :: "(bytes, tmux_binding) btree_map"
  top_key_tables :: "(bytes, (bytes, tmux_binding) btree_map) btree_map"
  top_needs_resync :: bool

definition topology_new :: "u64 \<Rightarrow> tmux_topology" where
  "topology_new connection_id =
     \<lparr>top_connection_id = connection_id, top_label = ''tmux '' @ show_nat (unat connection_id), top_host = None,
      top_sessions = [], top_windows = [], top_panes = [], top_attached_session = None, top_options = [],
      top_client_info = [], top_bindings = [], top_key_tables = [], top_needs_resync = False\<rparr>"

definition set_label :: "bytes \<Rightarrow> tmux_topology \<Rightarrow> (unit, topology_error) result \<times> tmux_topology" where
  "set_label label t =
     (let label = str_trim label in
      if label = [] \<or> 256 < length label \<or> has_control_char label then (Err InvalidLabel, t)
      else (Ok (), t\<lparr>top_label := label\<rparr>))"

section \<open>Queries\<close>

definition attached_active_pane :: "tmux_topology \<Rightarrow> u64 option" where
  "attached_active_pane t =
     Option.bind (top_attached_session t) (\<lambda>sid.
     Option.bind (btree_get (top_sessions t) sid) (\<lambda>s.
     Option.bind (ses_active_window s) (\<lambda>wid.
     Option.bind (btree_get (top_windows t) wid) win_active_pane)))"

definition attached_location :: "tmux_topology \<Rightarrow> tmux_location option" where
  "attached_location t =
     Option.bind (top_attached_session t) (\<lambda>sid.
     Option.bind (btree_get (top_sessions t) sid) (\<lambda>s.
     Option.bind (ses_active_window s) (\<lambda>wid.
     Option.bind (find (\<lambda>(_, c). c = wid) (ses_windows s)) (\<lambda>(window_index, _).
     map_option (\<lambda>w.
       \<lparr>loc_session_id = ses_id s, loc_session_name = ses_name s, loc_window_id = wid,
        loc_window_index = window_index, loc_window_name = win_name w, loc_pane_id = win_active_pane w,
        loc_pane_index =
          Option.bind (win_active_pane w) (\<lambda>p. map_option pane_index (btree_get (top_panes t) p)),
        loc_pane_count = length (filter (\<lambda>(_, p). pane_window_id p = wid) (top_panes t))\<rparr>)
       (btree_get (top_windows t) wid)))))"

definition binding_in_table :: "bytes \<Rightarrow> bytes \<Rightarrow> tmux_topology \<Rightarrow> tmux_binding option" where
  "binding_in_table table key t =
     (if table = ''prefix'' then btree_get (top_bindings t) key
      else Option.bind (btree_get (top_key_tables t) table) (\<lambda>m. btree_get m key))"

definition has_key_table :: "bytes \<Rightarrow> tmux_topology \<Rightarrow> bool" where
  "has_key_table table t \<longleftrightarrow>
     table = ''prefix'' \<and> top_bindings t \<noteq> [] \<or> btree_get (top_key_tables t) table \<noteq> None"

section \<open>Direct updates\<close>

definition mark_resync_required :: "tmux_topology \<Rightarrow> tmux_topology" where
  "mark_resync_required t = t\<lparr>top_needs_resync := True\<rparr>"

definition clear_native_copy_mode :: "u64 \<Rightarrow> tmux_topology \<Rightarrow> tmux_topology" where
  "clear_native_copy_mode pane_id t =
     (case btree_get (top_panes t) pane_id of
        Some p \<Rightarrow>
          if pane_mode p = ''copy-mode''
          then t\<lparr>top_panes := btree_insert pane_id (p\<lparr>pane_in_mode := 0, pane_mode := []\<rparr>) (top_panes t)\<rparr>
          else t
      | None \<Rightarrow> t)"

definition update_pane_capture_metadata ::
  "pane_capture_metadata \<Rightarrow> tmux_topology \<Rightarrow> (unit, topology_error) result \<times> tmux_topology" where
  "update_pane_capture_metadata m t =
     (case btree_get (top_panes t) (meta_pane_id m) of
        None \<Rightarrow> (Err (ContradictoryInventory ''pane capture metadata references a missing pane''), t)
      | Some p \<Rightarrow>
          (Ok (), t\<lparr>top_panes := btree_insert (meta_pane_id m)
             (p\<lparr>pane_left := meta_left m, pane_top := meta_top m, pane_width := meta_width m,
                pane_height := meta_height m, pane_dead := meta_dead m, pane_cursor_x := meta_cursor_x m,
                pane_cursor_y := meta_cursor_y m, pane_cursor_visible := meta_cursor_visible m,
                pane_cursor_shape := meta_cursor_shape m, pane_alternate_on := meta_alternate_on m,
                pane_in_mode := meta_pane_in_mode m, pane_history_size := meta_history_size m\<rparr>) (top_panes t)\<rparr>))"

section \<open>Field parsers\<close>

definition empty_session :: "u64 \<Rightarrow> session" where
  "empty_session i = \<lparr>ses_id = i, ses_name = [], ses_windows = [], ses_active_window = None\<rparr>"

definition empty_window :: "u64 \<Rightarrow> window" where
  "empty_window i = \<lparr>win_id = i, win_name = [], win_links = {}, win_active_pane = None, win_layout = [],
     win_visible_layout = [], win_flags = []\<rparr>"

definition empty_pane :: "u64 \<Rightarrow> u64 \<Rightarrow> pane" where
  "empty_pane i w = \<lparr>pane_ident = i, pane_window_id = w, pane_index = 0, pane_title = [], pane_left = 0,
     pane_top = 0, pane_width = 0, pane_height = 0, pane_dead = False, pane_cursor_x = 0, pane_cursor_y = 0,
     pane_cursor_visible = True, pane_cursor_shape = ''default'', pane_alternate_on = False,
     pane_in_mode = 0, pane_mode = [], pane_history_size = 0\<rparr>"

definition split_inventory :: "bytes \<Rightarrow> nat \<Rightarrow> (bytes list, topology_error) result" where
  "split_inventory line n =
     (let parts = splitn n tab line in
      if length parts \<noteq> n \<or> length (parts ! 0) \<noteq> 1 then Err MalformedInventory else Ok parts)"

definition split_first :: "bytes \<Rightarrow> (bytes \<times> bytes, topology_error) result" where
  "split_first bs =
     (case position (\<lambda>c. c = CHR '' '') bs of
        None \<Rightarrow> Err MalformedNotification
      | Some i \<Rightarrow>
          if i = 0 \<or> i + 1 = length bs then Err MalformedNotification
          else Ok (take i bs, drop (i + 1) bs))"

definition single_field :: "bytes \<Rightarrow> (bytes, topology_error) result" where
  "single_field bs = (if bs = [] \<or> CHR '' '' \<in> set bs then Err MalformedNotification else Ok bs)"

definition text_field :: "bytes \<Rightarrow> string \<Rightarrow> (bytes, topology_error) result" where
  "text_field bs field = (if utf8_valid bs then Ok bs else Err (InvalidUtf8 field))"

definition number :: "bytes \<Rightarrow> string \<Rightarrow> (u32, topology_error) result" where
  "number bs field =
     bind_result (text_field bs field) (\<lambda>s.
       case parse_uint 32 s of Some n \<Rightarrow> Ok (of_nat n) | None \<Rightarrow> Err (InvalidNumber field))"

definition boolean :: "bytes \<Rightarrow> string \<Rightarrow> (bool, topology_error) result" where
  "boolean bs field =
     (if bs = ''0'' then Ok False else if bs = ''1'' then Ok True else Err (InvalidNumber field))"

definition parse_cursor_shape :: "bytes \<Rightarrow> (bytes, topology_error) result" where
  "parse_cursor_shape bs =
     bind_result (text_field bs ''cursor shape'') (\<lambda>shape. Ok (if shape = [] then ''default'' else shape))"

definition parse_id :: "bytes \<Rightarrow> byte \<Rightarrow> string \<Rightarrow> (u64, topology_error) result" where
  "parse_id bs c kind =
     bind_result (ok_or (strip_prefix bs [c]) (InvalidId kind)) (\<lambda>digits.
       if digits = [] \<or> \<not> list_all is_ascii_digit digits then Err (InvalidId kind)
       else bind_result (text_field digits ''id'') (\<lambda>s.
         case parse_uint 64 s of Some n \<Rightarrow> Ok (of_nat n) | None \<Rightarrow> Err (InvalidId kind)))"

definition parse_session_id :: "bytes \<Rightarrow> (u64, topology_error) result" where
  "parse_session_id bs = parse_id bs (CHR ''$'') ''session''"

definition parse_window_id :: "bytes \<Rightarrow> (u64, topology_error) result" where
  "parse_window_id bs = parse_id bs (CHR ''@'') ''window''"

definition parse_topology_pane_id :: "bytes \<Rightarrow> (u64, topology_error) result" where
  "parse_topology_pane_id bs = parse_id bs (CHR ''%'') ''pane''"

definition pane_capture_metadata_command :: "u64 \<Rightarrow> bytes" where
  "pane_capture_metadata_command pane_id =
     format_command (''display-message -p -t %'' @ show_nat (unat pane_id)) (''R'' # map placeholder
       [''pane_id'', ''pane_left'', ''pane_top'', ''pane_width'', ''pane_height'', ''pane_dead'', ''cursor_x'',
        ''cursor_y'', ''cursor_flag'', ''cursor_shape'', ''alternate_on'', ''pane_in_mode'', ''history_size''])"

definition parse_pane_capture_metadata ::
  "bytes \<Rightarrow> u64 \<Rightarrow> (pane_capture_metadata, topology_error) result" where
  "parse_pane_capture_metadata line expected_pane_id =
     bind_result (split_inventory line 14) (\<lambda>f.
     if f ! 0 \<noteq> ''R'' then Err MalformedInventory else
     bind_result (parse_topology_pane_id (f ! 1)) (\<lambda>pane_id.
     if pane_id \<noteq> expected_pane_id
     then Err (ContradictoryInventory ''pane capture metadata names a different pane'') else
     bind_result (number (f ! 2) ''pane left'') (\<lambda>left.
     bind_result (number (f ! 3) ''pane top'') (\<lambda>top'.
     bind_result (number (f ! 4) ''pane width'') (\<lambda>width.
     bind_result (number (f ! 5) ''pane height'') (\<lambda>height.
     bind_result (boolean (f ! 6) ''pane dead'') (\<lambda>dead.
     bind_result (number (f ! 7) ''cursor x'') (\<lambda>x.
     bind_result (number (f ! 8) ''cursor y'') (\<lambda>y.
     bind_result (boolean (f ! 9) ''cursor visible'') (\<lambda>visible.
     bind_result (parse_cursor_shape (f ! 10)) (\<lambda>shape.
     bind_result (boolean (f ! 11) ''alternate screen'') (\<lambda>alternate.
     bind_result (number (f ! 12) ''pane mode'') (\<lambda>mode.
     bind_result (number (f ! 13) ''history size'') (\<lambda>history.
     Ok \<lparr>meta_pane_id = pane_id, meta_left = left, meta_top = top', meta_width = width, meta_height = height,
         meta_dead = dead, meta_cursor_x = x, meta_cursor_y = y, meta_cursor_visible = visible,
         meta_cursor_shape = shape, meta_alternate_on = alternate, meta_pane_in_mode = mode,
         meta_history_size = history\<rparr>))))))))))))))"

section \<open>Key bindings\<close>

definition validate_binding :: "bytes \<Rightarrow> bytes \<Rightarrow> bytes \<Rightarrow> (unit, topology_error) result" where
  "validate_binding table key command =
     (if table = [] \<or> 128 < length table \<or> key = [] \<or> 128 < length key \<or> command = [] \<or>
         64 * 1024 < length command \<or>
         list_ex (\<lambda>c. byte_val c \<in> {0, 13, 10, 9}) table \<or>
         list_ex (\<lambda>c. byte_val c \<in> {0, 13, 10}) key \<or>
         list_ex (\<lambda>c. byte_val c \<in> {0, 13, 10}) command
      then Err MalformedInventory else Ok ())"

text \<open>The lexer holds the part of the line from its offset on.\<close>

definition lexer_skip_whitespace :: "bytes \<Rightarrow> bytes" where
  "lexer_skip_whitespace input = dropWhile is_ascii_whitespace input"

fun lexer_token :: "byte option \<Rightarrow> bytes \<Rightarrow> bytes \<Rightarrow> (bytes option \<times> bytes, topology_error) result" where
  "lexer_token quote token [] =
     (if quote \<noteq> None \<or> token = [] then Err MalformedInventory else Ok (Some token, []))"
| "lexer_token quote token (c # input) =
     (if quote = None \<and> is_ascii_whitespace c
      then (if token = [] then Err MalformedInventory else Ok (Some token, c # input))
      else if c = CHR 0x5C
      then (case input of
              [] \<Rightarrow> Err MalformedInventory
            | escaped # input' \<Rightarrow> lexer_token quote (token @ [escaped]) input')
      else if c \<in> {CHR 0x27, CHR 0x22} \<and> quote = Some c then lexer_token None token input
      else if c \<in> {CHR 0x27, CHR 0x22} \<and> quote = None then lexer_token (Some c) token input
      else lexer_token quote (token @ [c]) input)"

definition lexer_next :: "bytes \<Rightarrow> (bytes option \<times> bytes, topology_error) result" where
  "lexer_next input0 =
     (let input = lexer_skip_whitespace input0 in
      if input = [] then Ok (None, []) else lexer_token None [] input)"

definition lexer_remainder :: "bytes \<Rightarrow> (bytes, topology_error) result" where
  "lexer_remainder input =
     (let r = lexer_skip_whitespace input in if r = [] then Err MalformedInventory else Ok r)"

definition lexer_required :: "bytes \<Rightarrow> (bytes \<times> bytes, topology_error) result" where
  "lexer_required input =
     bind_result (lexer_next input) (\<lambda>(token, rest).
       bind_result (ok_or token MalformedInventory) (\<lambda>token. Ok (token, rest)))"

definition insert_binding :: "tmux_binding \<Rightarrow> tmux_topology \<Rightarrow> (tmux_topology, topology_error) result" where
  "insert_binding b t =
     (let table = bind_table b; key = bind_key b;
          bindings = (if table = ''prefix'' then top_bindings t
                      else (case btree_get (top_key_tables t) table of Some m \<Rightarrow> m | None \<Rightarrow> []))
      in if btree_get bindings key \<noteq> None then Err (ContradictoryInventory ''duplicate key-table binding'')
         else if table = ''prefix'' then Ok (t\<lparr>top_bindings := btree_insert key b bindings\<rparr>)
         else Ok (t\<lparr>top_key_tables := btree_insert table (btree_insert key b bindings) (top_key_tables t)\<rparr>))"

section \<open>The inventory transaction\<close>

definition inventory_session :: "bytes \<Rightarrow> tmux_topology \<Rightarrow> (tmux_topology, topology_error) result" where
  "inventory_session line t =
     bind_result (split_inventory line 3) (\<lambda>f.
     bind_result (parse_session_id (f ! 1)) (\<lambda>i.
     bind_result (text_field (f ! 2) ''session name'') (\<lambda>name.
       if btree_get (top_sessions t) i \<noteq> None then Err (ContradictoryInventory ''duplicate session id'')
       else Ok (t\<lparr>top_sessions := btree_insert i
         \<lparr>ses_id = i, ses_name = name, ses_windows = [], ses_active_window = None\<rparr> (top_sessions t)\<rparr>))))"

definition inventory_window :: "bytes \<Rightarrow> tmux_topology \<Rightarrow> (tmux_topology, topology_error) result" where
  "inventory_window line t =
     bind_result (split_inventory line 9) (\<lambda>f.
     bind_result (parse_session_id (f ! 1)) (\<lambda>session_id.
     bind_result (parse_window_id (f ! 2)) (\<lambda>window_id.
     bind_result (number (f ! 3) ''window index'') (\<lambda>index.
     bind_result (boolean (f ! 4) ''window active'') (\<lambda>active.
     bind_result (text_field (f ! 5) ''window layout'') (\<lambda>layout.
     bind_result (text_field (f ! 6) ''window visible layout'') (\<lambda>visible_layout.
     bind_result (text_field (f ! 7) ''window flags'') (\<lambda>flags.
     bind_result (text_field (f ! 8) ''window name'') (\<lambda>name.
     bind_result (ok_or (btree_get (top_sessions t) session_id)
                    (ContradictoryInventory ''window references missing session'')) (\<lambda>s.
     if btree_get (ses_windows s) index \<noteq> None then Err (ContradictoryInventory ''duplicate window index'')
     else
       (let s = s\<lparr>ses_windows := btree_insert index window_id (ses_windows s),
                  ses_active_window := (if active then Some window_id else ses_active_window s)\<rparr>;
            w = (case btree_get (top_windows t) window_id of
                   Some w \<Rightarrow> w
                 | None \<Rightarrow> \<lparr>win_id = window_id, win_name = name, win_links = {}, win_active_pane = None,
                            win_layout = layout, win_visible_layout = visible_layout, win_flags = flags\<rparr>)
        in if win_name w \<noteq> name \<or> win_layout w \<noteq> layout \<or> win_visible_layout w \<noteq> visible_layout
           then Err (ContradictoryInventory ''linked window metadata differs'')
           else Ok (t\<lparr>top_sessions := btree_insert session_id s (top_sessions t),
                     top_windows := btree_insert window_id
                       (w\<lparr>win_flags := flags,
                          win_links := insert \<lparr>wl_session_id = session_id, wl_index = index\<rparr> (win_links w)\<rparr>)
                       (top_windows t)\<rparr>))))))))))))"

definition count_tabs :: "bytes \<Rightarrow> nat" where
  "count_tabs line = length (filter (\<lambda>c. c = tab) line)"

definition parse_inventory_pane :: "bool \<Rightarrow> bool \<Rightarrow> bytes list \<Rightarrow> (pane, topology_error) result" where
  "parse_inventory_pane named_mode extended f =
     bind_result (parse_window_id (f ! 1)) (\<lambda>window_id.
     bind_result (parse_topology_pane_id (f ! 2)) (\<lambda>pane_id.
     bind_result (number (f ! 3) ''pane index'') (\<lambda>index.
     bind_result (number (f ! 5) ''pane left'') (\<lambda>left.
     bind_result (number (f ! 6) ''pane top'') (\<lambda>top'.
     bind_result (number (f ! 7) ''pane width'') (\<lambda>width.
     bind_result (number (f ! 8) ''pane height'') (\<lambda>height.
     bind_result (boolean (f ! 9) ''pane dead'') (\<lambda>dead.
     bind_result (if extended then number (f ! 10) ''cursor x'' else Ok 0) (\<lambda>x.
     bind_result (if extended then number (f ! 11) ''cursor y'' else Ok 0) (\<lambda>y.
     bind_result (if extended then boolean (f ! 12) ''cursor visible'' else Ok True) (\<lambda>visible.
     bind_result (if extended then parse_cursor_shape (f ! 13) else Ok ''default'') (\<lambda>shape.
     bind_result (if extended then boolean (f ! 14) ''alternate screen'' else Ok False) (\<lambda>alternate.
     bind_result (if extended then number (f ! 15) ''pane mode'' else Ok 0) (\<lambda>in_mode.
     bind_result (if named_mode then text_field (f ! 16) ''pane mode name'' else Ok []) (\<lambda>mode.
     bind_result (if extended then number (f ! (if named_mode then 17 else 16)) ''history size'' else Ok 0) (\<lambda>history.
     bind_result (text_field (f ! (if named_mode then 18 else if extended then 17 else 10)) ''pane title'') (\<lambda>title.
     Ok \<lparr>pane_ident = pane_id, pane_window_id = window_id, pane_index = index, pane_title = title,
         pane_left = left, pane_top = top', pane_width = width, pane_height = height, pane_dead = dead,
         pane_cursor_x = x, pane_cursor_y = y, pane_cursor_visible = visible, pane_cursor_shape = shape,
         pane_alternate_on = alternate, pane_in_mode = in_mode, pane_mode = mode,
         pane_history_size = history\<rparr>)))))))))))))))))"

definition inventory_pane :: "bytes \<Rightarrow> tmux_topology \<Rightarrow> (tmux_topology, topology_error) result" where
  "inventory_pane line t =
     (let named_mode = 18 \<le> count_tabs line; extended = 17 \<le> count_tabs line in
      bind_result (split_inventory line (if named_mode then 19 else if extended then 18 else 11)) (\<lambda>f.
      bind_result (parse_inventory_pane named_mode extended f) (\<lambda>p.
      bind_result (boolean (f ! 4) ''pane active'') (\<lambda>active.
      bind_result (ok_or (btree_get (top_windows t) (pane_window_id p))
                     (ContradictoryInventory ''pane references missing window'')) (\<lambda>w.
        (let t = (if active
                  then t\<lparr>top_windows := btree_insert (pane_window_id p)
                         (w\<lparr>win_active_pane := Some (pane_ident p)\<rparr>) (top_windows t)\<rparr>
                  else t)
         in case btree_get (top_panes t) (pane_ident p) of
              Some existing \<Rightarrow>
                if existing \<noteq> p then Err (ContradictoryInventory ''linked pane metadata differs'') else Ok t
            | None \<Rightarrow> Ok (t\<lparr>top_panes := btree_insert (pane_ident p) p (top_panes t)\<rparr>)))))))"

definition inventory_attached :: "bytes \<Rightarrow> tmux_topology \<Rightarrow> (tmux_topology, topology_error) result" where
  "inventory_attached line t =
     (let has_host = 2 \<le> count_tabs line in
      bind_result (split_inventory line (if has_host then 3 else 2)) (\<lambda>f.
      bind_result (parse_session_id (f ! 1)) (\<lambda>i.
        if top_attached_session t \<noteq> None then Err (ContradictoryInventory ''multiple attached records'')
        else
          (let t = t\<lparr>top_attached_session := Some i\<rparr> in
           if has_host
           then bind_result (text_field (f ! 2) ''server host'') (\<lambda>host.
                  if 256 < length host \<or> has_control_char host then Err MalformedInventory
                  else Ok (t\<lparr>top_host := (if host = [] then None else Some host)\<rparr>))
           else Ok t))))"

definition inventory_key_value :: "bytes \<Rightarrow> bool \<Rightarrow> tmux_topology \<Rightarrow> (tmux_topology, topology_error) result" where
  "inventory_key_value line is_option t =
     bind_result (split_inventory line 3) (\<lambda>f.
     if f ! 1 = [] then Err MalformedInventory else
     bind_result (text_field (f ! 1) ''metadata key'') (\<lambda>key.
     bind_result (text_field (f ! 2) ''metadata value'') (\<lambda>v.
       (let m = (if is_option then top_options t else top_client_info t) in
        if btree_get m key \<noteq> None then Err (ContradictoryInventory ''duplicate metadata key'')
        else if is_option then Ok (t\<lparr>top_options := btree_insert key v m\<rparr>)
        else Ok (t\<lparr>top_client_info := btree_insert key v m\<rparr>)))))"

definition inventory_binding :: "bytes \<Rightarrow> tmux_topology \<Rightarrow> (tmux_topology, topology_error) result" where
  "inventory_binding line t =
     (let has_table = 4 \<le> count_tabs line in
      bind_result (split_inventory line (if has_table then 5 else 4)) (\<lambda>f.
      bind_result (if has_table then text_field (f ! 1) ''binding table'' else Ok ''prefix'') (\<lambda>table.
      (let key_index = (if has_table then 1 else 0) + 1; repeat_index = key_index + 1;
           command_index = repeat_index + 1
       in bind_result (text_field (f ! key_index) ''binding key'') (\<lambda>key.
          bind_result (text_field (f ! command_index) ''binding command'') (\<lambda>command.
          bind_result (validate_binding table key command) (\<lambda>_.
          bind_result (boolean (f ! repeat_index) ''binding repeatable'') (\<lambda>repeatable.
            insert_binding \<lparr>bind_table = table, bind_key = key, bind_repeatable = repeatable,
                            bind_command = command\<rparr> t))))))))"

definition inventory_legacy_binding :: "bytes \<Rightarrow> tmux_topology \<Rightarrow> (tmux_topology, topology_error) result" where
  "inventory_legacy_binding line t =
     bind_result (lexer_next line) (\<lambda>(word, rest).
     if word \<noteq> Some ''bind-key'' then Err MalformedInventory else
     bind_result (lexer_required rest) (\<lambda>(token, rest).
     (let repeatable = (token = ''-r'') in
      bind_result (if repeatable then lexer_required rest else Ok (token, rest)) (\<lambda>(token, rest).
      bind_result (if token = ''-T'' then lexer_required rest
                   else if token = ''-n'' then Ok (''root'', rest)
                   else Err MalformedInventory) (\<lambda>(table, rest).
      bind_result (lexer_required rest) (\<lambda>(key, rest).
      bind_result (lexer_remainder rest) (\<lambda>command.
      bind_result (text_field table ''binding table'') (\<lambda>table.
      bind_result (text_field key ''binding key'') (\<lambda>key.
      bind_result (text_field command ''binding command'') (\<lambda>command.
      bind_result (validate_binding table key command) (\<lambda>_.
        insert_binding \<lparr>bind_table = table, bind_key = key, bind_repeatable = repeatable,
                        bind_command = command\<rparr> t)))))))))))"

definition apply_inventory_line :: "bytes \<Rightarrow> tmux_topology \<Rightarrow> (tmux_topology, topology_error) result" where
  "apply_inventory_line line t =
     (case line of
        [] \<Rightarrow> Err MalformedInventory
      | c # _ \<Rightarrow>
          if c = CHR ''S'' then inventory_session line t
          else if c = CHR ''W'' then inventory_window line t
          else if c = CHR ''P'' then inventory_pane line t
          else if c = CHR ''A'' then inventory_attached line t
          else if c = CHR ''O'' then inventory_key_value line True t
          else if c = CHR ''C'' then inventory_key_value line False t
          else if c = CHR ''B'' then inventory_binding line t
          else if c = CHR ''b'' then inventory_legacy_binding line t
          else Err MalformedInventory)"

definition validate_inventory :: "tmux_topology \<Rightarrow> (unit, topology_error) result" where
  "validate_inventory t =
     (if (case top_attached_session t of Some a \<Rightarrow> btree_get (top_sessions t) a = None | None \<Rightarrow> False)
      then Err (ContradictoryInventory ''attached session is missing'')
      else if list_ex (\<lambda>(_, p). btree_get (top_windows t) (pane_window_id p) = None) (top_panes t)
      then Err (ContradictoryInventory ''pane window is missing'')
      else Ok ())"

fun apply_inventory_lines :: "bytes list \<Rightarrow> tmux_topology \<Rightarrow> (tmux_topology, topology_error) result" where
  "apply_inventory_lines [] t = Ok t"
| "apply_inventory_lines (line # lines) t =
     bind_result (apply_inventory_line line t) (apply_inventory_lines lines)"

definition replace_inventory ::
  "bytes list \<Rightarrow> tmux_topology \<Rightarrow> (unit, topology_error) result \<times> tmux_topology" where
  "replace_inventory lines t =
     (case bind_result (apply_inventory_lines lines ((topology_new (top_connection_id t))\<lparr>top_label := top_label t\<rparr>))
             (\<lambda>t'. bind_result (validate_inventory t') (\<lambda>_. Ok t')) of
        Ok t' \<Rightarrow> (Ok (), t')
      | Err e \<Rightarrow> (Err e, t))"

section \<open>Notifications\<close>

definition require_resync :: "tmux_topology \<Rightarrow> (reconcile_outcome, topology_error) result \<times> tmux_topology" where
  "require_resync t = (Ok ResyncRequired, t\<lparr>top_needs_resync := True\<rparr>)"

definition resync_or_applied ::
  "bool \<Rightarrow> tmux_topology \<Rightarrow> (reconcile_outcome, topology_error) result \<times> tmux_topology" where
  "resync_or_applied missing t = (if missing then require_resync t else (Ok Applied, t))"

primrec try_field ::
  "('a, topology_error) result \<Rightarrow> tmux_topology \<Rightarrow> ('a \<Rightarrow> ('b, topology_error) result \<times> tmux_topology) \<Rightarrow>
     ('b, topology_error) result \<times> tmux_topology" where
  "try_field (Ok x) t f = f x"
| "try_field (Err e) t f = (Err e, t)"

definition unlink_session_window :: "u64 \<Rightarrow> session \<Rightarrow> session" where
  "unlink_session_window window_id s =
     s\<lparr>ses_windows := btree_retain (\<lambda>_ i. i \<noteq> window_id) (ses_windows s),
       ses_active_window := (if ses_active_window s = Some window_id then None else ses_active_window s)\<rparr>"

definition remove_pane :: "u64 \<Rightarrow> tmux_topology \<Rightarrow> tmux_topology" where
  "remove_pane pane_id t =
     t\<lparr>top_panes := btree_remove pane_id (top_panes t),
       top_windows := btree_map_values
         (\<lambda>w. if win_active_pane w = Some pane_id then w\<lparr>win_active_pane := None\<rparr> else w) (top_windows t)\<rparr>"

definition remove_window :: "u64 \<Rightarrow> tmux_topology \<Rightarrow> tmux_topology" where
  "remove_window window_id t =
     t\<lparr>top_windows := btree_remove window_id (top_windows t),
       top_panes := btree_retain (\<lambda>_ p. pane_window_id p \<noteq> window_id) (top_panes t),
       top_sessions := btree_map_values (unlink_session_window window_id) (top_sessions t)\<rparr>"

definition close_attached_window ::
  "bytes \<Rightarrow> tmux_topology \<Rightarrow> (reconcile_outcome, topology_error) result \<times> tmux_topology" where
  "close_attached_window arguments t =
     try_field (bind_result (single_field arguments) parse_window_id) t (\<lambda>window_id.
       case top_attached_session t of
         None \<Rightarrow> require_resync t
       | Some session_id \<Rightarrow>
           (let t = (case btree_get (top_sessions t) session_id of
                       Some s \<Rightarrow> t\<lparr>top_sessions := btree_insert session_id (unlink_session_window window_id s) (top_sessions t)\<rparr>
                     | None \<Rightarrow> t);
                t = (case btree_get (top_windows t) window_id of
                       Some w \<Rightarrow>
                         (let w = w\<lparr>win_links := {l \<in> win_links w. wl_session_id l \<noteq> session_id}\<rparr>;
                              t = t\<lparr>top_windows := btree_insert window_id w (top_windows t)\<rparr>
                          in if win_links w = {} then remove_window window_id t else t)
                     | None \<Rightarrow> t)
            in (Ok Applied, t)))"

definition apply_layout_change ::
  "bytes \<Rightarrow> tmux_topology \<Rightarrow> (reconcile_outcome, topology_error) result \<times> tmux_topology" where
  "apply_layout_change arguments t =
     (let fs = splitn 4 (CHR '' '') arguments;
          field = (\<lambda>i. if i < length fs then Ok (fs ! i) else Err MalformedNotification)
      in try_field (bind_result (field 0) parse_window_id) t (\<lambda>window_id.
         try_field (bind_result (field 1) (\<lambda>b. text_field b ''window layout'')) t (\<lambda>layout.
         try_field (bind_result (field 2) (\<lambda>b. text_field b ''window visible layout'')) t (\<lambda>visible_layout.
         try_field (bind_result (field 3) (\<lambda>b. text_field b ''window flags'')) t (\<lambda>flags.
           resync_or_applied (btree_get (top_windows t) window_id = None)
             (t\<lparr>top_windows := btree_entry window_id (empty_window window_id)
                 (\<lambda>w. w\<lparr>win_layout := layout, win_visible_layout := visible_layout, win_flags := flags\<rparr>)
                 (top_windows t)\<rparr>))))))"

definition session_changed ::
  "bytes \<Rightarrow> tmux_topology \<Rightarrow> (reconcile_outcome, topology_error) result \<times> tmux_topology" where
  "session_changed arguments t =
     try_field (split_first arguments) t (\<lambda>(i, name).
     try_field (parse_session_id i) t (\<lambda>i.
     try_field (text_field name ''session name'') t (\<lambda>name.
       resync_or_applied (btree_get (top_sessions t) i = None)
         (t\<lparr>top_sessions := btree_entry i (empty_session i) (\<lambda>s. s\<lparr>ses_name := name\<rparr>) (top_sessions t),
            top_attached_session := Some i\<rparr>))))"

definition session_renamed ::
  "bytes \<Rightarrow> tmux_topology \<Rightarrow> (reconcile_outcome, topology_error) result \<times> tmux_topology" where
  "session_renamed arguments t =
     (case top_attached_session t of
        None \<Rightarrow> require_resync t
      | Some i \<Rightarrow>
          try_field (text_field arguments ''session name'') t (\<lambda>name.
            case btree_get (top_sessions t) i of
              None \<Rightarrow> require_resync t
            | Some s \<Rightarrow>
                (Ok Applied, t\<lparr>top_sessions := btree_insert i (s\<lparr>ses_name := name\<rparr>) (top_sessions t)\<rparr>)))"

definition session_window_changed ::
  "bytes \<Rightarrow> tmux_topology \<Rightarrow> (reconcile_outcome, topology_error) result \<times> tmux_topology" where
  "session_window_changed arguments t =
     try_field (split_first arguments) t (\<lambda>(session, window).
     try_field (parse_session_id session) t (\<lambda>session_id.
     try_field (bind_result (single_field window) parse_window_id) t (\<lambda>window_id.
       resync_or_applied (btree_get (top_sessions t) session_id = None \<or> btree_get (top_windows t) window_id = None)
         (t\<lparr>top_sessions := btree_entry session_id (empty_session session_id)
              (\<lambda>s. s\<lparr>ses_active_window := Some window_id\<rparr>) (top_sessions t),
            top_windows := btree_entry window_id (empty_window window_id) (\<lambda>w. w) (top_windows t)\<rparr>))))"

definition window_renamed ::
  "bytes \<Rightarrow> tmux_topology \<Rightarrow> (reconcile_outcome, topology_error) result \<times> tmux_topology" where
  "window_renamed arguments t =
     try_field (split_first arguments) t (\<lambda>(window, name).
     try_field (parse_window_id window) t (\<lambda>window_id.
     try_field (text_field name ''window name'') t (\<lambda>name.
       resync_or_applied (btree_get (top_windows t) window_id = None)
         (t\<lparr>top_windows := btree_entry window_id (empty_window window_id) (\<lambda>w. w\<lparr>win_name := name\<rparr>)
              (top_windows t)\<rparr>))))"

definition window_pane_changed ::
  "bytes \<Rightarrow> tmux_topology \<Rightarrow> (reconcile_outcome, topology_error) result \<times> tmux_topology" where
  "window_pane_changed arguments t =
     try_field (split_first arguments) t (\<lambda>(window, pane).
     try_field (parse_window_id window) t (\<lambda>window_id.
     try_field (bind_result (single_field pane) parse_topology_pane_id) t (\<lambda>pane_id.
       resync_or_applied (btree_get (top_windows t) window_id = None \<or> btree_get (top_panes t) pane_id = None)
         (t\<lparr>top_windows := btree_entry window_id (empty_window window_id)
              (\<lambda>w. w\<lparr>win_active_pane := Some pane_id\<rparr>) (top_windows t),
            top_panes := btree_entry pane_id (empty_pane pane_id window_id) (\<lambda>p. p) (top_panes t)\<rparr>))))"

definition window_add ::
  "bytes \<Rightarrow> tmux_topology \<Rightarrow> (reconcile_outcome, topology_error) result \<times> tmux_topology" where
  "window_add arguments t =
     try_field (bind_result (single_field arguments) parse_window_id) t (\<lambda>window_id.
       require_resync (t\<lparr>top_windows := btree_entry window_id (empty_window window_id) (\<lambda>w. w) (top_windows t)\<rparr>))"

definition unlinked_window_close ::
  "bytes \<Rightarrow> tmux_topology \<Rightarrow> (reconcile_outcome, topology_error) result \<times> tmux_topology" where
  "unlinked_window_close arguments t =
     try_field (bind_result (single_field arguments) parse_window_id) t (\<lambda>window_id.
       if (case btree_get (top_windows t) window_id of Some w \<Rightarrow> win_links w \<noteq> {} | None \<Rightarrow> False)
       then require_resync t
       else (Ok Applied, remove_window window_id t))"

definition layout_change ::
  "bytes \<Rightarrow> tmux_topology \<Rightarrow> (reconcile_outcome, topology_error) result \<times> tmux_topology" where
  "layout_change arguments t =
     (case apply_layout_change arguments t of
        (Err e, t') \<Rightarrow> (Err e, t')
      | (Ok _, t') \<Rightarrow> require_resync t')"

definition pane_exited ::
  "bytes \<Rightarrow> tmux_topology \<Rightarrow> (reconcile_outcome, topology_error) result \<times> tmux_topology" where
  "pane_exited arguments t =
     try_field (bind_result (single_field arguments) parse_topology_pane_id) t (\<lambda>pane_id.
       (Ok Applied, remove_pane pane_id t))"

definition apply_notification ::
  "bytes \<Rightarrow> bytes \<Rightarrow> tmux_topology \<Rightarrow> (reconcile_outcome, topology_error) result \<times> tmux_topology" where
  "apply_notification name arguments t =
     (if name = ''sessions-changed'' then require_resync t
      else if name = ''session-changed'' then session_changed arguments t
      else if name = ''session-renamed'' then session_renamed arguments t
      else if name = ''session-window-changed'' then session_window_changed arguments t
      else if name = ''window-renamed'' \<or> name = ''unlinked-window-renamed'' then window_renamed arguments t
      else if name = ''window-pane-changed'' then window_pane_changed arguments t
      else if name = ''window-add'' \<or> name = ''unlinked-window-add'' then window_add arguments t
      else if name = ''window-close'' then close_attached_window arguments t
      else if name = ''unlinked-window-close'' then unlinked_window_close arguments t
      else if name = ''layout-change'' then layout_change arguments t
      else if name = ''pane-mode-changed'' then require_resync t
      else if name = ''pane-exited'' then pane_exited arguments t
      else (Ok Ignored, t))"

section \<open>Diagnostics\<close>

definition debug_dump_panes :: "tmux_topology \<Rightarrow> window \<Rightarrow> bytes" where
  "debug_dump_panes t w =
     concat (map (\<lambda>(_, p). ''    pane %'' @ show_nat (unat (pane_ident p)) @ '' index '' @
         show_nat (unat (pane_index p)) @ '': '' @ pane_title p @ [CHR 0x0A])
       (filter (\<lambda>(_, p). pane_window_id p = win_id w) (top_panes t)))"

definition debug_dump_session :: "tmux_topology \<Rightarrow> session \<Rightarrow> bytes" where
  "debug_dump_session t s =
     ''session $'' @ show_nat (unat (ses_id s)) @
     (if Some (ses_id s) = top_attached_session t then '' [attached]'' else []) @ '': '' @ ses_name s @ [CHR 0x0A] @
     concat (map (\<lambda>(index, window_id).
         case btree_get (top_windows t) window_id of
           Some w \<Rightarrow> ''  window @'' @ show_nat (unat (win_id w)) @ '' index '' @ show_nat (unat index) @ '': '' @
             win_name w @ [CHR 0x0A] @ debug_dump_panes t w
         | None \<Rightarrow> []) (ses_windows s))"

definition debug_dump :: "tmux_topology \<Rightarrow> bytes" where
  "debug_dump t =
     ''connection '' @ show_nat (unat (top_connection_id t)) @ '': '' @ top_label t @ [CHR 0x0A] @
     concat (map (\<lambda>(_, s). debug_dump_session t s) (top_sessions t))"

end
