(* ===== verification/Tmux_Topology.thy ===== *)
theory Tmux_Topology
  imports Tmux_Model
begin

text \<open>
  What the mirrored topology guarantees. The invariant says that three kinds of references resolve
  (attached session, session to window, pane to window; not window to active pane) and that the window lists of the sessions
  and the links of the windows describe the same relation. It is stated on the lookup functions,
  so that the proofs use only the laws of \<open>ordered_map\<close>; every handler is an update of one of
  those functions.
\<close>

section \<open>The invariant\<close>

text \<open>The references between sessions, windows and panes, on the lookup functions.\<close>

type_synonym sessions_fun = "u64 \<Rightarrow> session option"
type_synonym windows_fun = "u64 \<Rightarrow> window option"
type_synonym panes_fun = "u64 \<Rightarrow> pane option"

definition session_ok :: "windows_fun \<Rightarrow> u64 \<Rightarrow> session \<Rightarrow> bool" where
  "session_ok W i s \<longleftrightarrow>
     ses_id s = i \<and> btree_inv (ses_windows s) \<and> (\<forall>w. ses_active_window s = Some w \<longrightarrow> W w \<noteq> None)"

definition pane_ok :: "windows_fun \<Rightarrow> u64 \<Rightarrow> pane \<Rightarrow> bool" where
  "pane_ok W i p \<longleftrightarrow> pane_ident p = i \<and> W (pane_window_id p) \<noteq> None"

definition shows_window :: "sessions_fun \<Rightarrow> u64 \<Rightarrow> u32 \<Rightarrow> u64 \<Rightarrow> bool" where
  "shows_window S sid idx wid \<longleftrightarrow> (\<exists>s. S sid = Some s \<and> btree_get (ses_windows s) idx = Some wid)"

definition has_link :: "windows_fun \<Rightarrow> u64 \<Rightarrow> u32 \<Rightarrow> u64 \<Rightarrow> bool" where
  "has_link W sid idx wid \<longleftrightarrow>
     (\<exists>w. W wid = Some w \<and> \<lparr>wl_session_id = sid, wl_index = idx\<rparr> \<in> win_links w)"

definition refs_ok :: "sessions_fun \<Rightarrow> windows_fun \<Rightarrow> panes_fun \<Rightarrow> bool" where
  "refs_ok S W P \<longleftrightarrow>
     (\<forall>i s. S i = Some s \<longrightarrow> session_ok W i s) \<and>
     (\<forall>i w. W i = Some w \<longrightarrow> win_id w = i) \<and>
     (\<forall>i p. P i = Some p \<longrightarrow> pane_ok W i p) \<and>
     (\<forall>sid idx wid. shows_window S sid idx wid \<longleftrightarrow> has_link W sid idx wid)"

definition maps_ok :: "tmux_topology \<Rightarrow> bool" where
  "maps_ok t \<longleftrightarrow> btree_inv (top_sessions t) \<and> btree_inv (top_windows t) \<and> btree_inv (top_panes t)"

abbreviation sessions_of :: "tmux_topology \<Rightarrow> sessions_fun" where "sessions_of t \<equiv> btree_get (top_sessions t)"
abbreviation windows_of :: "tmux_topology \<Rightarrow> windows_fun" where "windows_of t \<equiv> btree_get (top_windows t)"
abbreviation panes_of :: "tmux_topology \<Rightarrow> panes_fun" where "panes_of t \<equiv> btree_get (top_panes t)"

definition attached_ok :: "tmux_topology \<Rightarrow> bool" where
  "attached_ok t \<longleftrightarrow> (\<forall>a. top_attached_session t = Some a \<longrightarrow> sessions_of t a \<noteq> None)"

definition consistent :: "tmux_topology \<Rightarrow> bool" where
  "consistent t \<longleftrightarrow> maps_ok t \<and> refs_ok (sessions_of t) (windows_of t) (panes_of t)"

definition topology_ok :: "tmux_topology \<Rightarrow> bool" where
  "topology_ok t \<longleftrightarrow> consistent t \<and> attached_ok t"

subsection \<open>Updates of the lookup functions\<close>

lemma refs_session:
  assumes "refs_ok S W P" and "session_ok W i s"
    and "\<And>idx. btree_get (ses_windows s) idx =
      (case S i of Some s0 \<Rightarrow> btree_get (ses_windows s0) idx | None \<Rightarrow> None)"
  shows "refs_ok (S(i \<mapsto> s)) W P"
proof -
  have "shows_window (S(i \<mapsto> s)) = shows_window S"
    using assms(3) by (auto simp: fun_eq_iff shows_window_def split: option.splits)
  with assms(1,2) show ?thesis by (simp add: refs_ok_def)
qed

lemma windows_grow:
  "session_ok W i s \<Longrightarrow> session_ok (W(k \<mapsto> w)) i s" "pane_ok W j p \<Longrightarrow> pane_ok (W(k \<mapsto> w)) j p"
  by (auto simp: session_ok_def pane_ok_def)

lemma refs_window:
  assumes "refs_ok S W P" and "win_id w = i"
    and "win_links w = (case W i of Some w0 \<Rightarrow> win_links w0 | None \<Rightarrow> {})"
  shows "refs_ok S (W(i \<mapsto> w)) P"
proof -
  have "has_link (W(i \<mapsto> w)) = has_link W"
    using assms(3) by (auto simp: fun_eq_iff has_link_def split: option.splits)
  with assms(1,2) show ?thesis by (auto simp: refs_ok_def intro: windows_grow)
qed

lemma refs_pane: "refs_ok S W P \<Longrightarrow> pane_ok W i p \<Longrightarrow> refs_ok S W (P(i \<mapsto> p))"
  by (auto simp: refs_ok_def)

lemma refs_link:
  assumes ok: "refs_ok S W P" and s: "S sid = Some s" and free: "btree_get (ses_windows s) idx = None"
    and s': "session_ok (W(wid \<mapsto> w)) sid s'"
      "\<And>k. btree_get (ses_windows s') k = (if k = idx then Some wid else btree_get (ses_windows s) k)"
    and w: "win_id w = wid"
      "win_links w = insert \<lparr>wl_session_id = sid, wl_index = idx\<rparr> (case W wid of Some w0 \<Rightarrow> win_links w0 | None \<Rightarrow> {})"
  shows "refs_ok (S(sid \<mapsto> s')) (W(wid \<mapsto> w)) P"
proof -
  have "shows_window (S(sid \<mapsto> s')) x k y = has_link (W(wid \<mapsto> w)) x k y" for x k y
  proof -
    have "shows_window S x k y = has_link W x k y" using ok by (simp add: refs_ok_def)
    then show ?thesis using s s'(2) w(2) free
      by (auto simp: shows_window_def has_link_def split: option.splits if_splits)
  qed
  with ok s' w show ?thesis by (auto simp: refs_ok_def intro: windows_grow)
qed

lemma refs_remove_pane:
  assumes "refs_ok S W P" and "\<And>i. map_option win_links (W' i) = map_option win_links (W i)"
    and "\<And>i. map_option win_id (W' i) = map_option win_id (W i)"
  shows "refs_ok S W' (P(k := None))"
proof -
  have dom: "W' i = None \<longleftrightarrow> W i = None" for i using assms(2) [of i] by (cases "W' i"; cases "W i") auto
  have "has_link W' = has_link W"
  proof (intro ext)
    fix x k y
    show "has_link W' x k y = has_link W x k y"
      using assms(2) [of y] by (cases "W' y"; cases "W y") (auto simp: has_link_def)
  qed
  moreover have "win_id w = i" if "W' i = Some w" for i w
    using assms(1) assms(3) [of i] that by (cases "W i") (auto simp: refs_ok_def)
  moreover have "session_ok W' = session_ok W" "pane_ok W' = pane_ok W"
    by (simp_all add: fun_eq_iff session_ok_def pane_ok_def dom)
  ultimately show ?thesis using assms(1) by (simp add: refs_ok_def)
qed

lemma unlink_get:
  "btree_inv (ses_windows s) \<Longrightarrow>
     btree_get (ses_windows (unlink_session_window wid s)) k =
       (if btree_get (ses_windows s) k = Some wid then None else btree_get (ses_windows s) k)"
  by (auto simp: unlink_session_window_def btree.get_retain split: option.splits)

lemma unlink_ok: "session_ok W i s \<Longrightarrow> session_ok W i (unlink_session_window wid s)"
  "session_ok W i s \<Longrightarrow> session_ok (W(wid := None)) i (unlink_session_window wid s)"
  by (auto simp: session_ok_def unlink_session_window_def btree.invar_laws split: if_splits)

lemma refs_remove_window:
  assumes ok: "refs_ok S W P"
  shows "refs_ok (\<lambda>i. map_option (unlink_session_window wid) (S i)) (W(wid := None))
    (\<lambda>i. case P i of None \<Rightarrow> None | Some p \<Rightarrow> if pane_window_id p \<noteq> wid then Some p else None)"
proof -
  have inv: "btree_inv (ses_windows s)" if "S i = Some s" for i s
    using ok that by (auto simp: refs_ok_def session_ok_def)
  have "shows_window (\<lambda>i. map_option (unlink_session_window wid) (S i)) x k y = has_link (W(wid := None)) x k y" for x k y
  proof -
    have "shows_window S x k y = has_link W x k y" using ok by (simp add: refs_ok_def)
    then show ?thesis by (auto simp: shows_window_def has_link_def unlink_get inv split: if_splits)
  qed
  moreover have "session_ok (W(wid := None)) i s" if "map_option (unlink_session_window wid) (S i) = Some s" for i s
    using ok that by (auto simp: refs_ok_def intro: unlink_ok)
  ultimately show ?thesis
    using ok unfolding refs_ok_def by (auto simp: pane_ok_def split: option.splits if_splits)
qed

lemma refs_close_window:
  assumes ok: "refs_ok S W P" and s: "S sid = Some s" and w: "W wid = Some w"
    and w': "win_id w' = wid" "win_links w' = {l \<in> win_links w. wl_session_id l \<noteq> sid}"
  shows "refs_ok (S(sid \<mapsto> unlink_session_window wid s)) (W(wid \<mapsto> w')) P"
proof -
  have inv: "btree_inv (ses_windows s)" using ok s by (auto simp: refs_ok_def session_ok_def)
  have "shows_window (S(sid \<mapsto> unlink_session_window wid s)) x k y = has_link (W(wid \<mapsto> w')) x k y" for x k y
  proof -
    have "shows_window S x k y = has_link W x k y" using ok by (simp add: refs_ok_def)
    moreover have "shows_window (S(sid \<mapsto> unlink_session_window wid s)) x k y \<longleftrightarrow>
        shows_window S x k y \<and> \<not> (x = sid \<and> y = wid)"
      by (cases "x = sid") (use s in \<open>auto simp: shows_window_def unlink_get inv split: if_splits\<close>)
    moreover have "has_link (W(wid \<mapsto> w')) x k y \<longleftrightarrow> has_link W x k y \<and> \<not> (x = sid \<and> y = wid)"
      by (cases "y = wid") (use w w'(2) in \<open>simp_all add: has_link_def\<close>)
    ultimately show ?thesis by simp
  qed
  moreover have "session_ok (W(wid \<mapsto> w')) sid (unlink_session_window wid s)"
    using ok s by (auto simp: refs_ok_def intro!: windows_grow unlink_ok)
  ultimately show ?thesis using ok w'(1) unfolding refs_ok_def by (auto intro: windows_grow)
qed

section \<open>Notifications keep the invariant\<close>

lemma try_field_snd:
  assumes "Q t" and "\<And>x. r = Ok x \<Longrightarrow> Q (snd (f x))"
  shows "Q (snd (try_field r t f))"
  using assms by (cases r) auto

lemmas try_field_ok = try_field_snd [where Q = topology_ok]

lemma resync_ok [simp]:
  "topology_ok (t\<lparr>top_needs_resync := b\<rparr>) = topology_ok t"
  "topology_ok (snd (require_resync t)) = topology_ok t"
  "topology_ok (snd (resync_or_applied m t)) = topology_ok t"
  by (auto simp: topology_ok_def consistent_def maps_ok_def attached_ok_def require_resync_def resync_or_applied_def)

lemma topology_okI:
  assumes "btree_inv (top_sessions t)" "btree_inv (top_windows t)" "btree_inv (top_panes t)"
    and "refs_ok (sessions_of t) (windows_of t) (panes_of t)"
    and "\<And>a. top_attached_session t = Some a \<Longrightarrow> sessions_of t a \<noteq> None"
  shows "topology_ok t"
  using assms by (simp add: topology_ok_def consistent_def maps_ok_def attached_ok_def)

lemma topology_okD:
  assumes "topology_ok t"
  shows "btree_inv (top_sessions t)" "btree_inv (top_windows t)" "btree_inv (top_panes t)"
    and "refs_ok (sessions_of t) (windows_of t) (panes_of t)"
    and "\<And>a. top_attached_session t = Some a \<Longrightarrow> sessions_of t a \<noteq> None"
  using assms by (auto simp: topology_ok_def consistent_def maps_ok_def attached_ok_def)

lemma refs_okD:
  assumes "refs_ok S W P"
  shows "S i = Some s \<Longrightarrow> session_ok W i s" "W k = Some w \<Longrightarrow> win_id w = k" "P j = Some p \<Longrightarrow> pane_ok W j p"
  using assms by (auto simp: refs_ok_def)

text \<open>Updating or creating one session, window or pane\<close>

lemma ok_entry_window:
  assumes ok: "topology_ok t" and f: "\<And>w. win_id (f w) = win_id w" "\<And>w. win_links (f w) = win_links w"
  shows "topology_ok (t\<lparr>top_windows := btree_entry i (empty_window i) f (top_windows t)\<rparr>)"
proof (rule topology_okI)
  show "refs_ok (sessions_of (t\<lparr>top_windows := btree_entry i (empty_window i) f (top_windows t)\<rparr>))
    (windows_of (t\<lparr>top_windows := btree_entry i (empty_window i) f (top_windows t)\<rparr>))
    (panes_of (t\<lparr>top_windows := btree_entry i (empty_window i) f (top_windows t)\<rparr>))"
    using refs_okD(2) [OF topology_okD(4) [OF ok]] f
    by (auto simp: btree_upd topology_okD(2) [OF ok] empty_window_def intro!: refs_window [OF topology_okD(4) [OF ok]]
        split: option.splits)
qed (use topology_okD [OF ok] in \<open>simp_all add: btree_upd\<close>)

lemma ok_entry_session:
  assumes ok: "topology_ok t" and f: "\<And>s. ses_id (f s) = ses_id s" "\<And>s. ses_windows (f s) = ses_windows s"
    "\<And>s w. ses_active_window (f s) = Some w \<Longrightarrow> ses_active_window s = Some w \<or> windows_of t w \<noteq> None"
  shows "topology_ok (t\<lparr>top_sessions := btree_entry i (empty_session i) f (top_sessions t)\<rparr>)"
proof (rule topology_okI)
  let ?s = "f (case sessions_of t i of Some s \<Rightarrow> s | None \<Rightarrow> empty_session i)"
  have "session_ok (windows_of t) i ?s"
  proof (cases "sessions_of t i")
    case None
    have "btree_inv ([] :: (u32, u64) btree_map)" by (rule btree.invar_empty)
    with None f(1,2) f(3) [of "empty_session i"] show ?thesis by (auto simp: session_ok_def empty_session_def)
  next
    case (Some s)
    from refs_okD(1) [OF topology_okD(4) [OF ok] Some] Some f(1,2) f(3) [of s] show ?thesis
      by (auto simp: session_ok_def)
  qed
  moreover have "btree_get (ses_windows ?s) idx =
      (case sessions_of t i of Some s0 \<Rightarrow> btree_get (ses_windows s0) idx | None \<Rightarrow> None)" for idx
    using f(2) by (auto simp: empty_session_def btree_get_Nil split: option.splits)
  ultimately show "refs_ok (sessions_of (t\<lparr>top_sessions := btree_entry i (empty_session i) f (top_sessions t)\<rparr>))
    (windows_of (t\<lparr>top_sessions := btree_entry i (empty_session i) f (top_sessions t)\<rparr>))
    (panes_of (t\<lparr>top_sessions := btree_entry i (empty_session i) f (top_sessions t)\<rparr>))"
    by (simp add: btree_upd topology_okD(1) [OF ok] refs_session [OF topology_okD(4) [OF ok]])
qed (use topology_okD [OF ok] in \<open>auto simp: btree_upd\<close>)

lemma ok_pane:
  assumes ok: "topology_ok t" and "pane_ok (windows_of t) i p"
  shows "topology_ok (t\<lparr>top_panes := btree_insert i p (top_panes t)\<rparr>)"
  using topology_okD [OF ok] refs_pane [OF topology_okD(4) [OF ok] assms(2)]
  by (intro topology_okI) (auto simp: btree_upd btree.invar_insert)

lemma ok_attach:
  assumes "topology_ok t" and "sessions_of t i \<noteq> None"
  shows "topology_ok (t\<lparr>top_attached_session := Some i\<rparr>)"
  using topology_okD [OF assms(1)] assms(2) by (intro topology_okI) auto

lemma session_changed_ok: "topology_ok t \<Longrightarrow> topology_ok (snd (session_changed args t))"
proof -
  assume ok: "topology_ok t"
  have "topology_ok (t\<lparr>top_sessions := btree_entry i (empty_session i) (\<lambda>s. s\<lparr>ses_name := n\<rparr>) (top_sessions t),
      top_attached_session := Some i\<rparr>)" for i n
    using ok_attach [OF ok_entry_session [OF ok, of "\<lambda>s. s\<lparr>ses_name := n\<rparr>" i], of i] topology_okD(1) [OF ok]
    by (simp add: btree_upd)
  then show ?thesis unfolding session_changed_def by (auto intro!: try_field_ok simp: ok)
qed

lemma session_renamed_ok: "topology_ok t \<Longrightarrow> topology_ok (snd (session_renamed args t))"
proof -
  assume ok: "topology_ok t"
  have "topology_ok (t\<lparr>top_sessions := btree_insert i (s\<lparr>ses_name := n\<rparr>) (top_sessions t)\<rparr>)"
    if "sessions_of t i = Some s" for i s n
    using ok_entry_session [OF ok, of "\<lambda>s. s\<lparr>ses_name := n\<rparr>" i] that by (simp add: btree_entry_def)
  with ok show ?thesis by (auto simp: session_renamed_def intro!: try_field_ok split: option.splits)
qed

lemma session_window_changed_ok: "topology_ok t \<Longrightarrow> topology_ok (snd (session_window_changed args t))"
proof -
  assume ok: "topology_ok t"
  have "topology_ok (t\<lparr>top_sessions := btree_entry i (empty_session i) (\<lambda>s. s\<lparr>ses_active_window := Some w\<rparr>) (top_sessions t),
      top_windows := btree_entry w (empty_window w) (\<lambda>w. w) (top_windows t)\<rparr>)" for i w
  proof -
    let ?t = "t\<lparr>top_windows := btree_entry w (empty_window w) (\<lambda>w. w) (top_windows t)\<rparr>"
    have ok': "topology_ok ?t" by (rule ok_entry_window [OF ok]) simp_all
    have "windows_of ?t w \<noteq> None" using topology_okD(2) [OF ok] by (simp add: btree_upd)
    then have "topology_ok (?t\<lparr>top_sessions := btree_entry i (empty_session i) (\<lambda>s. s\<lparr>ses_active_window := Some w\<rparr>) (top_sessions t)\<rparr>)"
      using ok_entry_session [OF ok', of "\<lambda>s. s\<lparr>ses_active_window := Some w\<rparr>" i] by simp
    also have "?t\<lparr>top_sessions := btree_entry i (empty_session i) (\<lambda>s. s\<lparr>ses_active_window := Some w\<rparr>) (top_sessions t)\<rparr> =
      t\<lparr>top_sessions := btree_entry i (empty_session i) (\<lambda>s. s\<lparr>ses_active_window := Some w\<rparr>) (top_sessions t),
        top_windows := btree_entry w (empty_window w) (\<lambda>w. w) (top_windows t)\<rparr>" by simp
    finally show ?thesis .
  qed
  then show ?thesis unfolding session_window_changed_def by (auto intro!: try_field_ok simp: ok)
qed

lemma window_renamed_ok: "topology_ok t \<Longrightarrow> topology_ok (snd (window_renamed args t))"
  unfolding window_renamed_def by (auto intro!: try_field_ok ok_entry_window)

lemma window_pane_changed_ok: "topology_ok t \<Longrightarrow> topology_ok (snd (window_pane_changed args t))"
proof -
  assume ok: "topology_ok t"
  have "topology_ok (t\<lparr>top_windows := btree_entry w (empty_window w) (\<lambda>w. w\<lparr>win_active_pane := Some p\<rparr>) (top_windows t),
      top_panes := btree_entry p (empty_pane p w) (\<lambda>p. p) (top_panes t)\<rparr>)" for w p
  proof -
    let ?t = "t\<lparr>top_windows := btree_entry w (empty_window w) (\<lambda>w. w\<lparr>win_active_pane := Some p\<rparr>) (top_windows t)\<rparr>"
    let ?p = "case panes_of t p of Some q \<Rightarrow> q | None \<Rightarrow> empty_pane p w"
    have ok': "topology_ok ?t" by (rule ok_entry_window [OF ok]) simp_all
    have "pane_ok (windows_of ?t) p ?p"
      using refs_okD(3) [OF topology_okD(4) [OF ok], of p] topology_okD(2) [OF ok]
      by (auto simp: btree_upd pane_ok_def empty_pane_def split: option.splits)
    from ok_pane [OF ok' this] show ?thesis by (simp add: btree_entry_def)
  qed
  then show ?thesis unfolding window_pane_changed_def by (auto intro!: try_field_ok simp: ok)
qed

lemma window_add_ok: "topology_ok t \<Longrightarrow> topology_ok (snd (window_add args t))"
  unfolding window_add_def by (auto intro!: try_field_ok ok_entry_window)

lemma remove_window_ok: "topology_ok t \<Longrightarrow> topology_ok (remove_window w t)"
proof -
  assume ok: "topology_ok t"
  have "btree_get (btree_retain (\<lambda>_ p. pane_window_id p \<noteq> w) (top_panes t)) =
      (\<lambda>i. case panes_of t i of None \<Rightarrow> None | Some p \<Rightarrow> if pane_window_id p \<noteq> w then Some p else None)"
    by (simp add: fun_eq_iff btree.get_retain topology_okD(3) [OF ok])
  moreover have "btree_get (btree_map_values (unlink_session_window w) (top_sessions t)) =
      (\<lambda>i. map_option (unlink_session_window w) (sessions_of t i))"
    by (simp add: fun_eq_iff btree_map_values_get)
  ultimately show ?thesis
    using refs_remove_window [OF topology_okD(4) [OF ok], of w] topology_okD [OF ok]
    by (intro topology_okI) (auto simp: remove_window_def btree_upd btree.invar_laws btree_map_values_inv)
qed

lemma unlinked_window_close_ok: "topology_ok t \<Longrightarrow> topology_ok (snd (unlinked_window_close args t))"
  unfolding unlinked_window_close_def by (auto intro!: try_field_ok simp: remove_window_ok)

lemma remove_pane_ok: "topology_ok t \<Longrightarrow> topology_ok (remove_pane p t)"
proof -
  assume ok: "topology_ok t"
  let ?f = "\<lambda>w. if win_active_pane w = Some p then w\<lparr>win_active_pane := None\<rparr> else w"
  have f: "win_links (?f w) = win_links w" "win_id (?f w) = win_id w" for w by simp_all
  have "refs_ok (sessions_of t) (btree_get (btree_map_values ?f (top_windows t))) ((panes_of t)(p := None))"
    by (rule refs_remove_pane [OF topology_okD(4) [OF ok]])
      (simp_all add: btree_map_values_get option.map_comp comp_def f)
  then show ?thesis
    using topology_okD [OF ok]
    by (intro topology_okI) (auto simp: remove_pane_def btree_upd btree.invar_laws btree_map_values_inv)
qed

lemma pane_exited_ok: "topology_ok t \<Longrightarrow> topology_ok (snd (pane_exited args t))"
  unfolding pane_exited_def by (auto intro!: try_field_ok simp: remove_pane_ok)

lemma apply_layout_change_ok: "topology_ok t \<Longrightarrow> topology_ok (snd (apply_layout_change args t))"
  unfolding apply_layout_change_def Let_def by (auto intro!: try_field_ok ok_entry_window)

lemma layout_change_ok: "topology_ok t \<Longrightarrow> topology_ok (snd (layout_change args t))"
  using apply_layout_change_ok [of t args] by (auto simp: layout_change_def split: prod.splits result.splits)

lemma unlink_missing:
  assumes "topology_ok t" and "sessions_of t sid = Some s" and "windows_of t wid = None"
  shows "topology_ok (t\<lparr>top_sessions := btree_insert sid (unlink_session_window wid s) (top_sessions t)\<rparr>)"
proof -
  note d = topology_okD [OF assms(1)]
  have s: "session_ok (windows_of t) sid s" using refs_okD(1) [OF d(4) assms(2)] .
  have "\<not> shows_window (sessions_of t) sid idx wid" for idx
    using d(4) assms(3) by (simp add: refs_ok_def has_link_def)
  then have "btree_get (ses_windows (unlink_session_window wid s)) idx = btree_get (ses_windows s) idx" for idx
    using assms(2) s by (auto simp: unlink_get session_ok_def shows_window_def)
  then have "refs_ok ((sessions_of t)(sid \<mapsto> unlink_session_window wid s)) (windows_of t) (panes_of t)"
    using assms(2) unlink_ok(1) [OF s] by (intro refs_session [OF d(4)]) simp_all
  with d show ?thesis by (intro topology_okI) (auto simp: btree_upd btree.invar_insert)
qed

lemma unlink_present:
  assumes "topology_ok t" and "sessions_of t sid = Some s" and "windows_of t wid = Some w"
  shows "topology_ok (t\<lparr>top_sessions := btree_insert sid (unlink_session_window wid s) (top_sessions t),
    top_windows := btree_insert wid (w\<lparr>win_links := {l \<in> win_links w. wl_session_id l \<noteq> sid}\<rparr>) (top_windows t)\<rparr>)"
proof -
  note d = topology_okD [OF assms(1)]
  have "win_id w = wid" using refs_okD(2) [OF d(4) assms(3)] .
  then have "refs_ok ((sessions_of t)(sid \<mapsto> unlink_session_window wid s))
    ((windows_of t)(wid \<mapsto> w\<lparr>win_links := {l \<in> win_links w. wl_session_id l \<noteq> sid}\<rparr>)) (panes_of t)"
    by (intro refs_close_window [OF d(4) assms(2,3)]) simp_all
  with d show ?thesis by (intro topology_okI) (auto simp: btree_upd btree.invar_insert)
qed

lemma close_attached_window_ok: "topology_ok t \<Longrightarrow> topology_ok (snd (close_attached_window args t))"
proof -
  assume ok: "topology_ok t"
  have "topology_ok (snd (case top_attached_session t of
         None \<Rightarrow> require_resync t
       | Some session_id \<Rightarrow>
           (let t = (case btree_get (top_sessions t) session_id of
                       Some s \<Rightarrow> t\<lparr>top_sessions := btree_insert session_id (unlink_session_window window_id s) (top_sessions t)\<rparr>
                     | None \<Rightarrow> t);
                t = (case btree_get (top_windows t) window_id of
                       Some w \<Rightarrow>
                         (let w = w\<lparr>win_links := {l \<in> win_links w. wl_session_id l \<noteq> session_id}\<rparr>;
                              t = t\<lparr>top_windows := btree_insert window_id w (top_windows t)\<rparr>
                          in if win_links w = {} then remove_window window_id t else t)
                     | None \<Rightarrow> t)
            in (Ok Applied, t))))" for window_id
  proof (cases "top_attached_session t")
    case None
    with ok show ?thesis by simp
  next
    case att: (Some sid)
    then obtain s where s: "sessions_of t sid = Some s" using topology_okD(5) [OF ok] by blast
    show ?thesis
    proof (cases "windows_of t window_id")
      case None
      with att s unlink_missing [OF ok s None] show ?thesis by simp
    next
      case (Some w)
      obtain w' where w': "w' = w\<lparr>win_links := {l \<in> win_links w. wl_session_id l \<noteq> sid}\<rparr>" by blast
      note ok' = unlink_present [OF ok s Some, folded w']
      from att s Some ok' remove_window_ok [OF ok'] show ?thesis by (simp add: Let_def w' [symmetric])
    qed
  qed
  then show ?thesis unfolding close_attached_window_def by (intro try_field_ok ok)
qed

lemma apply_notification_ok: "topology_ok t \<Longrightarrow> topology_ok (snd (apply_notification name args t))"
  by (simp add: apply_notification_def session_changed_ok session_renamed_ok session_window_changed_ok
      window_renamed_ok window_pane_changed_ok window_add_ok close_attached_window_ok unlinked_window_close_ok
      layout_change_ok pane_exited_ok)

section \<open>The inventory\<close>

definition active_ok :: "sessions_fun \<Rightarrow> windows_fun \<Rightarrow> panes_fun \<Rightarrow> bool" where
  "active_ok S W P \<longleftrightarrow>
     (\<forall>i s w. S i = Some s \<longrightarrow> ses_active_window s = Some w \<longrightarrow> (\<exists>idx. btree_get (ses_windows s) idx = Some w)) \<and>
     (\<forall>i w p. W i = Some w \<longrightarrow> win_active_pane w = Some p \<longrightarrow> (\<exists>q. P p = Some q \<and> pane_window_id q = i))"

definition inventory_inv :: "tmux_topology \<Rightarrow> bool" where
  "inventory_inv t \<longleftrightarrow> consistent t \<and> active_ok (sessions_of t) (windows_of t) (panes_of t)"

lemma inventory_invI:
  assumes "btree_inv (top_sessions t)" "btree_inv (top_windows t)" "btree_inv (top_panes t)"
    and "refs_ok (sessions_of t) (windows_of t) (panes_of t)"
    and "active_ok (sessions_of t) (windows_of t) (panes_of t)"
  shows "inventory_inv t"
  using assms by (simp add: inventory_inv_def consistent_def maps_ok_def)

lemma inventory_invD:
  assumes "inventory_inv t"
  shows "btree_inv (top_sessions t)" "btree_inv (top_windows t)" "btree_inv (top_panes t)"
    and "refs_ok (sessions_of t) (windows_of t) (panes_of t)"
    and "active_ok (sessions_of t) (windows_of t) (panes_of t)"
  using assms by (simp_all add: inventory_inv_def consistent_def maps_ok_def)

lemma inventory_session_inv:
  assumes "inventory_session line t = Ok t'" and inv: "inventory_inv t"
  shows "inventory_inv t'"
proof -
  note d = inventory_invD [OF inv]
  obtain i n where i: "sessions_of t i = None"
      and t': "t' = t\<lparr>top_sessions := btree_insert i
        \<lparr>ses_id = i, ses_name = n, ses_windows = [], ses_active_window = None\<rparr> (top_sessions t)\<rparr>"
    using assms(1) by (auto simp: inventory_session_def result_simps split: if_splits)
  let ?s = "\<lparr>ses_id = i, ses_name = n, ses_windows = [], ses_active_window = None\<rparr>"
  have "session_ok (windows_of t) i ?s" using btree.invar_empty by (simp add: session_ok_def)
  then have "refs_ok ((sessions_of t)(i \<mapsto> ?s)) (windows_of t) (panes_of t)"
    using i by (intro refs_session [OF d(4)]) (simp_all add: btree_get_Nil)
  moreover have "active_ok ((sessions_of t)(i \<mapsto> ?s)) (windows_of t) (panes_of t)"
    using d(5) by (auto simp: active_ok_def)
  ultimately show ?thesis
    using d by (intro inventory_invI) (simp_all add: t' btree_upd btree.invar_insert)
qed

lemma inventory_window_step:
  assumes "inventory_window line t = Ok t'"
  obtains sid wid idx active s w flags where
    "sessions_of t sid = Some s" "btree_get (ses_windows s) idx = None"
    "t' = t\<lparr>top_sessions := btree_insert sid (s\<lparr>ses_windows := btree_insert idx wid (ses_windows s),
              ses_active_window := (if active then Some wid else ses_active_window s)\<rparr>) (top_sessions t),
            top_windows := btree_insert wid (w\<lparr>win_flags := flags,
              win_links := insert \<lparr>wl_session_id = sid, wl_index = idx\<rparr> (win_links w)\<rparr>) (top_windows t)\<rparr>"
    "windows_of t wid = Some w \<or> windows_of t wid = None \<and> win_id w = wid \<and> win_links w = {} \<and> win_active_pane w = None"
proof -
  obtain sid wid idx active layout visible flags name s where s: "sessions_of t sid = Some s"
    and c: "(if btree_get (ses_windows s) idx \<noteq> None then Err (ContradictoryInventory ''duplicate window index'')
     else
       (let s = s\<lparr>ses_windows := btree_insert idx wid (ses_windows s),
                  ses_active_window := (if active then Some wid else ses_active_window s)\<rparr>;
            w = (case btree_get (top_windows t) wid of
                   Some w \<Rightarrow> w
                 | None \<Rightarrow> \<lparr>win_id = wid, win_name = name, win_links = {}, win_active_pane = None,
                            win_layout = layout, win_visible_layout = visible, win_flags = flags\<rparr>)
        in if win_name w \<noteq> name \<or> win_layout w \<noteq> layout \<or> win_visible_layout w \<noteq> visible
           then Err (ContradictoryInventory ''linked window metadata differs'')
           else Ok (t\<lparr>top_sessions := btree_insert sid s (top_sessions t),
                     top_windows := btree_insert wid
                       (w\<lparr>win_flags := flags,
                          win_links := insert \<lparr>wl_session_id = sid, wl_index = idx\<rparr> (win_links w)\<rparr>)
                       (top_windows t)\<rparr>))) = Ok t'"
    using assms unfolding inventory_window_def bind_result_Ok ok_or_Ok by blast
  define w where "w = (case windows_of t wid of Some w \<Rightarrow> w
    | None \<Rightarrow> \<lparr>win_id = wid, win_name = name, win_links = {}, win_active_pane = None,
               win_layout = layout, win_visible_layout = visible, win_flags = flags\<rparr>)"
  show thesis
  proof (rule that [where sid = sid and s = s and idx = idx and wid = wid and active = active and w = w and flags = flags])
    show "windows_of t wid = Some w \<or> windows_of t wid = None \<and> win_id w = wid \<and> win_links w = {} \<and> win_active_pane w = None"
      by (cases "windows_of t wid") (simp_all add: w_def)
  qed (use s c in \<open>simp_all add: Let_def w_def [symmetric] split: if_splits\<close>)
qed

lemma inventory_window_inv:
  assumes "inventory_window line t = Ok t'" and inv: "inventory_inv t"
  shows "inventory_inv t'"
  using assms(1)
proof (cases rule: inventory_window_step)
  case (1 sid wid idx active s w flags)
  note d = inventory_invD [OF inv]
  let ?s = "s\<lparr>ses_windows := btree_insert idx wid (ses_windows s),
    ses_active_window := (if active then Some wid else ses_active_window s)\<rparr>"
  let ?w = "w\<lparr>win_flags := flags, win_links := insert \<lparr>wl_session_id = sid, wl_index = idx\<rparr> (win_links w)\<rparr>"
  have s: "session_ok (windows_of t) sid s" using refs_okD(1) [OF d(4) 1(1)] .
  then have sw: "btree_get (ses_windows ?s) k = (if k = idx then Some wid else btree_get (ses_windows s) k)" for k
    by (simp add: session_ok_def btree.get_insert)
  have w: "win_id w = wid" using 1(4) refs_okD(2) [OF d(4)] by blast
  have "refs_ok ((sessions_of t)(sid \<mapsto> ?s)) ((windows_of t)(wid \<mapsto> ?w)) (panes_of t)"
  proof (rule refs_link [OF d(4) 1(1,2)])
    show "session_ok ((windows_of t)(wid \<mapsto> ?w)) sid ?s"
      using s by (auto simp: session_ok_def btree.invar_insert split: if_splits)
  qed (use sw w 1(4) in auto)
  moreover have "active_ok ((sessions_of t)(sid \<mapsto> ?s)) ((windows_of t)(wid \<mapsto> ?w)) (panes_of t)"
    unfolding active_ok_def
  proof (intro conjI allI impI)
    fix i s' v
    assume a: "((sessions_of t)(sid \<mapsto> ?s)) i = Some s'" "ses_active_window s' = Some v"
    show "\<exists>idx. btree_get (ses_windows s') idx = Some v"
    proof (cases "i = sid")
      case True
      show ?thesis
      proof (cases active)
        case True
        then show ?thesis using a \<open>i = sid\<close> sw by auto
      next
        case False
        then have "ses_active_window s = Some v" using a True by auto
        then obtain k where "btree_get (ses_windows s) k = Some v" using d(5) 1(1) unfolding active_ok_def by blast
        then show ?thesis using a True sw [of k] 1(2) by (intro exI [of _ k]) auto
      qed
    next
      case False
      then show ?thesis using a d(5) unfolding active_ok_def by auto
    qed
  next
    fix i w' p
    assume a: "((windows_of t)(wid \<mapsto> ?w)) i = Some w'" "win_active_pane w' = Some p"
    then show "\<exists>q. panes_of t p = Some q \<and> pane_window_id q = i"
      using d(5) 1(4) unfolding active_ok_def by (cases "i = wid") auto
  qed
  ultimately show ?thesis
    using d by (intro inventory_invI) (simp_all add: 1(3) btree_upd btree.invar_insert)
qed

lemma inventory_pane_step:
  assumes "inventory_pane line t = Ok t'"
  obtains p active w where "windows_of t (pane_window_id p) = Some w"
    "panes_of t (pane_ident p) = Some p \<or> panes_of t (pane_ident p) = None"
    "t' = t\<lparr>top_windows := (if active then btree_insert (pane_window_id p) (w\<lparr>win_active_pane := Some (pane_ident p)\<rparr>)
              (top_windows t) else top_windows t),
            top_panes := (if panes_of t (pane_ident p) = None then btree_insert (pane_ident p) p (top_panes t) else top_panes t)\<rparr>"
proof -
  let ?named = "18 \<le> count_tabs line" and ?ext = "17 \<le> count_tabs line"
  obtain f p active w where r: "parse_inventory_pane ?named ?ext f = Ok p" "windows_of t (pane_window_id p) = Some w"
    and c: "(let t = (if active then t\<lparr>top_windows := btree_insert (pane_window_id p)
               (w\<lparr>win_active_pane := Some (pane_ident p)\<rparr>) (top_windows t)\<rparr> else t)
         in case btree_get (top_panes t) (pane_ident p) of
              Some existing \<Rightarrow>
                if existing \<noteq> p then Err (ContradictoryInventory ''linked pane metadata differs'') else Ok t
            | None \<Rightarrow> Ok (t\<lparr>top_panes := btree_insert (pane_ident p) p (top_panes t)\<rparr>)) = Ok t'"
    using assms unfolding inventory_pane_def Let_def [where s = ?named] Let_def [where s = ?ext] bind_result_Ok ok_or_Ok
    by blast
  show thesis
    by (rule that [where p = p and w = w and active = active]) (use r c in \<open>cases active; auto simp: Let_def split: option.splits if_splits\<close>)+
qed

lemma inventory_pane_inv:
  assumes "inventory_pane line t = Ok t'" and inv: "inventory_inv t"
  shows "inventory_inv t'"
  using assms(1)
proof (cases rule: inventory_pane_step)
  case (1 p active w)
  note d = inventory_invD [OF inv]
  let ?W = "if active then (windows_of t)(pane_window_id p \<mapsto> w\<lparr>win_active_pane := Some (pane_ident p)\<rparr>) else windows_of t"
  let ?P = "(panes_of t)(pane_ident p \<mapsto> p)"
  have W: "windows_of t' = ?W" using d(2) by (simp add: 1(3) btree_upd)
  have P: "panes_of t' = ?P" using d(3) 1(2) by (auto simp: 1(3) btree_upd)
  have "win_id w = pane_window_id p" using refs_okD(2) [OF d(4) 1(1)] .
  then have "refs_ok (sessions_of t) ?W (panes_of t)" using d(4) 1(1) by (auto intro: refs_window)
  then have "refs_ok (sessions_of t) ?W ?P" by (rule refs_pane) (use 1(1) in \<open>auto simp: pane_ok_def\<close>)
  moreover have "active_ok (sessions_of t) ?W ?P"
    using d(5) 1(1,2) unfolding active_ok_def by (auto split: if_splits) force+
  ultimately show ?thesis
    using d by (intro inventory_invI) (simp_all only: W P, simp_all add: 1(3) btree.invar_insert)
qed

text \<open>The other lines do not touch sessions, windows or panes.\<close>

definition same_grid :: "tmux_topology \<Rightarrow> tmux_topology \<Rightarrow> bool" where
  "same_grid t t' \<longleftrightarrow> top_sessions t' = top_sessions t \<and> top_windows t' = top_windows t \<and> top_panes t' = top_panes t"

lemma same_grid_inv: "same_grid t t' \<Longrightarrow> inventory_inv t \<Longrightarrow> inventory_inv t'"
  by (simp add: same_grid_def inventory_inv_def consistent_def maps_ok_def)

lemma insert_binding_grid: "insert_binding b t = Ok t' \<Longrightarrow> same_grid t t'"
  by (auto simp: insert_binding_def same_grid_def Let_def split: if_splits)

lemma inventory_attached_grid: "inventory_attached line t = Ok t' \<Longrightarrow> same_grid t t'"
  by (auto simp: inventory_attached_def same_grid_def Let_def result_simps split: if_splits)

lemma inventory_key_value_grid: "inventory_key_value line opt t = Ok t' \<Longrightarrow> same_grid t t'"
  by (auto simp: inventory_key_value_def same_grid_def Let_def result_simps split: if_splits)

lemma inventory_binding_step:
  assumes "inventory_binding line t = Ok t'"
  shows "\<exists>b. validate_binding (bind_table b) (bind_key b) (bind_command b) = Ok () \<and> insert_binding b t = Ok t'"
  using assms unfolding inventory_binding_def Let_def bind_result_Ok
  by (elim exE conjE) (rule exI, rule conjI [rotated], assumption, simp)

lemma inventory_legacy_binding_step:
  assumes "inventory_legacy_binding line t = Ok t'"
  shows "\<exists>b. validate_binding (bind_table b) (bind_key b) (bind_command b) = Ok () \<and> insert_binding b t = Ok t'"
proof -
  obtain table key command repeatable where "validate_binding table key command = Ok ()"
      "insert_binding \<lparr>bind_table = table, bind_key = key, bind_repeatable = repeatable, bind_command = command\<rparr> t = Ok t'"
    using assms by (auto simp: inventory_legacy_binding_def Let_def result_simps split: if_splits)
  then show ?thesis by (intro exI conjI) simp_all
qed

lemma apply_inventory_line_cases:
  assumes "apply_inventory_line line t = Ok t'"
  obtains "inventory_session line t = Ok t'" | "inventory_window line t = Ok t'" | "inventory_pane line t = Ok t'"
    | "inventory_attached line t = Ok t'" | is_option where "inventory_key_value line is_option t = Ok t'"
    | b where "validate_binding (bind_table b) (bind_key b) (bind_command b) = Ok ()" "insert_binding b t = Ok t'"
  using assms inventory_binding_step [of line t t'] inventory_legacy_binding_step [of line t t']
  unfolding apply_inventory_line_def by (cases line) (force split: if_splits)+

lemma apply_inventory_line_inv:
  assumes "apply_inventory_line line t = Ok t'" and inv: "inventory_inv t"
  shows "inventory_inv t'"
  using assms(1)
  by (cases rule: apply_inventory_line_cases)
    (use inv in \<open>blast intro: inventory_session_inv inventory_window_inv inventory_pane_inv
      same_grid_inv inventory_attached_grid inventory_key_value_grid insert_binding_grid\<close>)+

lemma apply_inventory_lines_inv:
  "apply_inventory_lines lines t = Ok t' \<Longrightarrow> inventory_inv t \<Longrightarrow> inventory_inv t'"
  by (induction lines arbitrary: t) (auto simp: result_simps dest: apply_inventory_line_inv)

lemma inventory_inv_new: "inventory_inv ((topology_new c)\<lparr>top_label := l\<rparr>)"
  using btree.invar_empty
  by (intro inventory_invI)
    (simp_all add: topology_new_def btree_get_Nil refs_ok_def active_ok_def shows_window_def has_link_def btree_inv_def)

subsection \<open>What the transaction leaves alone\<close>

lemma apply_inventory_line_frame:
  assumes "apply_inventory_line line t = Ok t'"
  shows "top_connection_id t' = top_connection_id t \<and> top_label t' = top_label t \<and>
    top_needs_resync t' = top_needs_resync t"
  using assms
proof (cases rule: apply_inventory_line_cases)
  case 1
  then show ?thesis by (auto simp: inventory_session_def result_simps split: if_splits)
next
  case 2
  then show ?thesis by (cases rule: inventory_window_step) simp
next
  case 3
  then show ?thesis by (cases rule: inventory_pane_step) simp
next
  case 4
  then show ?thesis by (auto simp: inventory_attached_def Let_def result_simps split: if_splits)
next
  case (5 is_option)
  then show ?thesis by (auto simp: inventory_key_value_def Let_def result_simps split: if_splits)
next
  case (6 b)
  then show ?thesis by (auto simp: insert_binding_def Let_def split: if_splits)
qed

lemma apply_inventory_lines_frame:
  "apply_inventory_lines lines t = Ok t' \<Longrightarrow>
     top_connection_id t' = top_connection_id t \<and> top_label t' = top_label t \<and>
     top_needs_resync t' = top_needs_resync t"
  by (induction lines arbitrary: t) (auto simp: result_simps dest!: apply_inventory_line_frame)

lemma validate_inventory_attached: "validate_inventory t = Ok () \<Longrightarrow> attached_ok t"
  by (auto simp: validate_inventory_def attached_ok_def split: if_splits option.splits)

lemma replace_inventory_cases:
  obtains e where "replace_inventory lines t = (Err e, t)"
  | t' where "replace_inventory lines t = (Ok (), t')" "inventory_inv t'" "attached_ok t'"
      "apply_inventory_lines lines ((topology_new (top_connection_id t))\<lparr>top_label := top_label t\<rparr>) = Ok t'"
proof (cases "bind_result (apply_inventory_lines lines ((topology_new (top_connection_id t))\<lparr>top_label := top_label t\<rparr>))
    (\<lambda>t'. bind_result (validate_inventory t') (\<lambda>_. Ok t'))")
  case (Ok t')
  then have a: "apply_inventory_lines lines ((topology_new (top_connection_id t))\<lparr>top_label := top_label t\<rparr>) = Ok t'"
    and v: "validate_inventory t' = Ok ()" by (simp_all add: result_simps)
  from that(2) [of t'] Ok a apply_inventory_lines_inv [OF a inventory_inv_new] validate_inventory_attached [OF v]
  show thesis by (simp add: replace_inventory_def)
next
  case (Err e)
  with that(1) [of e] show thesis by (simp add: replace_inventory_def)
qed

text \<open>
  C15: An inventory transaction is atomic and yields a coherent topology. If any line is
  malformed or contradicts another one, the topology is exactly as before; otherwise it is
  replaced as a whole, keeps its connection and label, needs no resynchronization, every
  reference resolves, the active window of a session is one of its windows, and the active pane
  of a window is one of its panes.
\<close>

theorem replace_inventory_atomic:
  "case replace_inventory lines t of
     (Err e, t') \<Rightarrow> t' = t
   | (Ok u, t') \<Rightarrow>
       topology_ok t' \<and> active_ok (sessions_of t') (windows_of t') (panes_of t') \<and>
       top_connection_id t' = top_connection_id t \<and> top_label t' = top_label t \<and> \<not> top_needs_resync t'"
proof (cases rule: replace_inventory_cases [of lines t])
  case (1 e)
  then show ?thesis by simp
next
  case (2 t')
  with apply_inventory_lines_frame [OF 2(4)] show ?thesis
    by (simp add: topology_ok_def inventory_inv_def topology_new_def)
qed

section \<open>Bindings\<close>

text \<open>A binding that can be sent back to the server as one command line\<close>

definition safe_binding :: "tmux_binding \<Rightarrow> bool" where
  "safe_binding b \<longleftrightarrow>
     bind_command b \<noteq> [] \<and> length (bind_command b) \<le> 64 * 1024 \<and>
     (\<forall>c \<in> set (bind_command b). byte_val c \<notin> {0, 10, 13}) \<and>
     bind_key b \<noteq> [] \<and> length (bind_key b) \<le> 128 \<and> (\<forall>c \<in> set (bind_key b). byte_val c \<notin> {0, 10, 13})"

definition table_ok :: "bytes \<Rightarrow> (bytes, tmux_binding) btree_map \<Rightarrow> bool" where
  "table_ok table m \<longleftrightarrow>
     btree_inv m \<and> (\<forall>k b. btree_get m k = Some b \<longrightarrow> safe_binding b \<and> bind_key b = k \<and> bind_table b = table)"

definition bindings_ok :: "tmux_topology \<Rightarrow> bool" where
  "bindings_ok t \<longleftrightarrow>
     table_ok ''prefix'' (top_bindings t) \<and> btree_inv (top_key_tables t) \<and>
     (\<forall>table m. btree_get (top_key_tables t) table = Some m \<longrightarrow> table_ok table m)"

definition same_bindings :: "tmux_topology \<Rightarrow> tmux_topology \<Rightarrow> bool" where
  "same_bindings t t' \<longleftrightarrow> top_bindings t' = top_bindings t \<and> top_key_tables t' = top_key_tables t"

lemma same_bindings_ok: "same_bindings t t' \<Longrightarrow> bindings_ok t \<Longrightarrow> bindings_ok t'"
  by (simp add: same_bindings_def bindings_ok_def)

lemma table_ok_insert:
  "table_ok table m \<Longrightarrow> safe_binding b \<Longrightarrow> bind_table b = table \<Longrightarrow> table_ok table (btree_insert (bind_key b) b m)"
  by (auto simp: table_ok_def btree.get_insert btree.invar_insert split: if_splits)

lemma validate_safe: "validate_binding (bind_table b) (bind_key b) (bind_command b) = Ok () \<Longrightarrow> safe_binding b"
  by (auto simp: validate_binding_def safe_binding_def list_ex_iff split: if_splits)

lemma insert_binding_ok:
  assumes ok: "bindings_ok t" and "validate_binding (bind_table b) (bind_key b) (bind_command b) = Ok ()"
    and "insert_binding b t = Ok t'"
  shows "bindings_ok t'"
proof -
  note s = validate_safe [OF assms(2)]
  show ?thesis
  proof (cases "bind_table b = ''prefix''")
    case True
    with assms(3) ok table_ok_insert [OF _ s, of "''prefix''" "top_bindings t"] show ?thesis
      by (auto simp: insert_binding_def bindings_ok_def Let_def split: if_splits)
  next
    case False
    let ?m = "case btree_get (top_key_tables t) (bind_table b) of Some m \<Rightarrow> m | None \<Rightarrow> []"
    have "table_ok (bind_table b) ?m"
      using ok by (auto simp: bindings_ok_def table_ok_def btree_get_Nil btree.invar_empty split: option.splits)
    then have "table_ok (bind_table b) (btree_insert (bind_key b) b ?m)" by (rule table_ok_insert [OF _ s refl])
    with False assms(3) ok show ?thesis
      by (auto simp: insert_binding_def bindings_ok_def Let_def btree_upd btree.invar_insert split: if_splits)
  qed
qed

lemma apply_inventory_line_bindings:
  assumes "apply_inventory_line line t = Ok t'" and ok: "bindings_ok t"
  shows "bindings_ok t'"
  using assms(1)
proof (cases rule: apply_inventory_line_cases)
  case 1
  then have "same_bindings t t'" by (auto simp: same_bindings_def inventory_session_def result_simps split: if_splits)
  then show ?thesis using ok by (rule same_bindings_ok)
next
  case 2
  then have "same_bindings t t'" by (cases rule: inventory_window_step) (simp add: same_bindings_def)
  then show ?thesis using ok by (rule same_bindings_ok)
next
  case 3
  then have "same_bindings t t'" by (cases rule: inventory_pane_step) (simp add: same_bindings_def)
  then show ?thesis using ok by (rule same_bindings_ok)
next
  case 4
  then have "same_bindings t t'" by (auto simp: same_bindings_def inventory_attached_def Let_def result_simps split: if_splits)
  then show ?thesis using ok by (rule same_bindings_ok)
next
  case (5 is_option)
  then have "same_bindings t t'" by (auto simp: same_bindings_def inventory_key_value_def Let_def result_simps split: if_splits)
  then show ?thesis using ok by (rule same_bindings_ok)
next
  case (6 b)
  then show ?thesis using insert_binding_ok [OF ok] by blast
qed

lemma apply_inventory_lines_bindings:
  "apply_inventory_lines lines t = Ok t' \<Longrightarrow> bindings_ok t \<Longrightarrow> bindings_ok t'"
  by (induction lines arbitrary: t) (auto simp: result_simps dest: apply_inventory_line_bindings)

lemma bindings_ok_new: "bindings_ok ((topology_new c)\<lparr>top_label := l\<rparr>)"
  by (simp add: bindings_ok_def topology_new_def table_ok_def btree_get_Nil btree.invar_empty)

lemma same_bindings_refl [simp]: "same_bindings t t"
  by (simp add: same_bindings_def)

lemma same_bindings_resync [simp]:
  "same_bindings t (snd (require_resync t')) = same_bindings t t'"
  "same_bindings t (snd (resync_or_applied m t')) = same_bindings t t'"
  by (auto simp: same_bindings_def require_resync_def resync_or_applied_def)

lemmas handler_defs =
  session_changed_def session_renamed_def session_window_changed_def window_renamed_def window_pane_changed_def
  window_add_def unlinked_window_close_def pane_exited_def

lemma apply_notification_bindings: "same_bindings t (snd (apply_notification name args t))"
proof -
  note f = try_field_snd [where Q = "same_bindings t"]
  have upd: "same_bindings t (t\<lparr>top_sessions := a, top_attached_session := b\<rparr>)"
    "same_bindings t (t\<lparr>top_sessions := a\<rparr>)" "same_bindings t (t\<lparr>top_windows := c\<rparr>)"
    "same_bindings t (t\<lparr>top_sessions := a, top_windows := c\<rparr>)" "same_bindings t (t\<lparr>top_windows := c, top_panes := p\<rparr>)"
    "same_bindings t (remove_window w t)" "same_bindings t (remove_pane w t)" for a b c p w
    by (simp_all add: same_bindings_def remove_window_def remove_pane_def)
  have "same_bindings t (snd (session_changed args t))" "same_bindings t (snd (session_renamed args t))"
    "same_bindings t (snd (session_window_changed args t))" "same_bindings t (snd (window_renamed args t))"
    "same_bindings t (snd (window_pane_changed args t))" "same_bindings t (snd (window_add args t))"
    "same_bindings t (snd (unlinked_window_close args t))" "same_bindings t (snd (pane_exited args t))"
    unfolding handler_defs by (auto intro!: f upd split: option.splits)
  moreover have "same_bindings t (snd (apply_layout_change args t))"
    unfolding apply_layout_change_def Let_def by (auto intro!: f upd)
  then have "same_bindings t (snd (layout_change args t))"
    by (auto simp: layout_change_def split: prod.splits result.splits)
  moreover have "same_bindings t (snd (close_attached_window args t))"
    unfolding close_attached_window_def
    by (rule f) (auto simp: Let_def same_bindings_def require_resync_def remove_window_def split: option.splits)
  ultimately show ?thesis by (simp add: apply_notification_def)
qed

section \<open>Discipline of notifications\<close>

definition disciplined :: "tmux_topology \<Rightarrow> (reconcile_outcome, topology_error) result \<times> tmux_topology \<Rightarrow> bool" where
  "disciplined t r =
     (case r of
        (Err e, t') \<Rightarrow> t' = t
      | (Ok Ignored, t') \<Rightarrow> t' = t
      | (Ok ResyncRequired, t') \<Rightarrow> top_needs_resync t'
      | (Ok Applied, t') \<Rightarrow>
          top_needs_resync t' = top_needs_resync t \<and> dom (sessions_of t') \<subseteq> dom (sessions_of t) \<and>
          dom (windows_of t') \<subseteq> dom (windows_of t) \<and> dom (panes_of t') \<subseteq> dom (panes_of t))"

lemma disciplined_try: "(\<And>x. r = Ok x \<Longrightarrow> disciplined t (f x)) \<Longrightarrow> disciplined t (try_field r t f)"
  by (cases r) (simp_all add: disciplined_def)

lemma disciplined_resync [simp]: "disciplined t (require_resync t')"
  by (simp add: disciplined_def require_resync_def)

lemma disciplined_applied:
  "disciplined t (Ok Applied, t') \<longleftrightarrow>
     top_needs_resync t' = top_needs_resync t \<and> dom (sessions_of t') \<subseteq> dom (sessions_of t) \<and>
     dom (windows_of t') \<subseteq> dom (windows_of t) \<and> dom (panes_of t') \<subseteq> dom (panes_of t)"
  by (simp add: disciplined_def)

lemma disciplined_resync_or_applied:
  "(\<not> missing \<Longrightarrow> disciplined t (Ok Applied, t')) \<Longrightarrow> disciplined t (resync_or_applied missing t')"
  by (simp add: resync_or_applied_def)

lemma dom_remove_window:
  assumes "topology_ok t"
  shows "dom (sessions_of (remove_window w t)) = dom (sessions_of t)"
    "dom (windows_of (remove_window w t)) \<subseteq> dom (windows_of t)" "dom (panes_of (remove_window w t)) \<subseteq> dom (panes_of t)"
  using topology_okD(1-3) [OF assms]
  by (auto simp: remove_window_def btree_upd btree_map_values_get btree.get_retain dom_def split: option.splits if_splits)

lemma close_attached_window_disciplined:
  assumes ok: "topology_ok t"
  shows "disciplined t (close_attached_window args t)"
proof -
  note inv = topology_okD(1,2) [OF ok]
  have "disciplined t (case top_attached_session t of
         None \<Rightarrow> require_resync t
       | Some session_id \<Rightarrow>
           (let t = (case btree_get (top_sessions t) session_id of
                       Some s \<Rightarrow> t\<lparr>top_sessions := btree_insert session_id (unlink_session_window window_id s) (top_sessions t)\<rparr>
                     | None \<Rightarrow> t);
                t = (case btree_get (top_windows t) window_id of
                       Some w \<Rightarrow>
                         (let w = w\<lparr>win_links := {l \<in> win_links w. wl_session_id l \<noteq> session_id}\<rparr>;
                              t = t\<lparr>top_windows := btree_insert window_id w (top_windows t)\<rparr>
                          in if win_links w = {} then remove_window window_id t else t)
                     | None \<Rightarrow> t)
            in (Ok Applied, t)))" for window_id
  proof (cases "top_attached_session t")
    case None
    then show ?thesis by simp
  next
    case att: (Some sid)
    then obtain s where s: "sessions_of t sid = Some s" using topology_okD(5) [OF ok] by blast
    show ?thesis
    proof (cases "windows_of t window_id")
      case None
      with att s inv show ?thesis by (auto simp: disciplined_applied btree_upd)
    next
      case (Some w)
      obtain w' where w': "w' = w\<lparr>win_links := {l \<in> win_links w. wl_session_id l \<noteq> sid}\<rparr>" by blast
      let ?t = "t\<lparr>top_sessions := btree_insert sid (unlink_session_window window_id s) (top_sessions t),
        top_windows := btree_insert window_id w' (top_windows t)\<rparr>"
      note ok' = unlink_present [OF ok s Some, folded w']
      have d: "dom (sessions_of ?t) = dom (sessions_of t)" "dom (windows_of ?t) = dom (windows_of t)"
        "panes_of ?t = panes_of t" "top_needs_resync ?t = top_needs_resync t"
        using inv s Some by (auto simp: btree_upd)
      have "top_needs_resync (remove_window window_id ?t) = top_needs_resync t" by (simp add: remove_window_def)
      with d dom_remove_window [OF ok', of window_id]
      have "disciplined t (Ok Applied, if win_links w' = {} then remove_window window_id ?t else ?t)"
        by (auto simp only: disciplined_applied split: if_splits)
      with att s Some show ?thesis by (simp add: Let_def w' [symmetric])
    qed
  qed
  then show ?thesis unfolding close_attached_window_def by (rule disciplined_try)
qed

lemma error_keeps:
  "(\<And>x. r = Ok x \<Longrightarrow> fst (f x) \<noteq> Err e \<or> snd (f x) = t) \<Longrightarrow>
     fst (try_field r t f) \<noteq> Err e \<or> snd (try_field r t f) = t"
  by (cases r) simp_all

lemma layout_change_disciplined: "disciplined t (layout_change args t)"
proof -
  have "fst (apply_layout_change args t) \<noteq> Err e \<or> snd (apply_layout_change args t) = t" for e
    unfolding apply_layout_change_def Let_def
    by (intro error_keeps) (simp add: resync_or_applied_def require_resync_def)
  then show ?thesis
    by (cases "apply_layout_change args t"; cases "fst (apply_layout_change args t)")
      (auto simp: layout_change_def disciplined_def require_resync_def)
qed

text \<open>
  Notifications are applied conservatively. A malformed notification leaves the topology
  untouched; an unknown one is ignored; whenever a notification mentions a session, window or
  pane that the mirror does not know, the mirror asks for a resynchronization. So a notification
  that reports success without one never invents a session, window or pane.
\<close>

theorem notification_discipline:
  assumes "topology_ok t"
  shows "case apply_notification name args t of
     (Err e, t') \<Rightarrow> t' = t
   | (Ok Ignored, t') \<Rightarrow> t' = t
   | (Ok ResyncRequired, t') \<Rightarrow> top_needs_resync t'
   | (Ok Applied, t') \<Rightarrow>
       top_needs_resync t' = top_needs_resync t \<and> dom (sessions_of t') \<subseteq> dom (sessions_of t) \<and>
       dom (windows_of t') \<subseteq> dom (windows_of t) \<and> dom (panes_of t') \<subseteq> dom (panes_of t)"
proof -
  note inv = topology_okD(1-3) [OF assms]
  have "disciplined t (session_changed args t)" "disciplined t (session_renamed args t)"
    "disciplined t (session_window_changed args t)" "disciplined t (window_renamed args t)"
    "disciplined t (window_pane_changed args t)" "disciplined t (window_add args t)"
    unfolding handler_defs
    by (auto intro!: disciplined_try disciplined_resync_or_applied simp: disciplined_applied inv btree_upd
        split: option.splits if_splits)
  moreover have "disciplined t (unlinked_window_close args t)" "disciplined t (pane_exited args t)"
    unfolding handler_defs using dom_remove_window [OF assms]
    by (auto intro!: disciplined_try simp: disciplined_applied remove_pane_def btree_upd inv btree_map_values_get
        split: option.splits) (auto simp: remove_window_def)
  ultimately have "disciplined t (apply_notification name args t)"
    using close_attached_window_disciplined [OF assms] layout_change_disciplined
    by (simp add: apply_notification_def) (simp add: disciplined_def)
  then show ?thesis by (simp only: disciplined_def)
qed

lemma topology_ok_new: "topology_ok (topology_new c)"
  using inventory_inv_new [where c = c and l = "top_label (topology_new c)"]
  by (simp add: topology_ok_def inventory_inv_def attached_ok_def) (simp add: topology_new_def)

theorem notification_discipline_witness:
  "case apply_notification ''window-add'' ''@3'' (topology_new 7) of
     (Err e, t') \<Rightarrow> t' = topology_new 7
   | (Ok Ignored, t') \<Rightarrow> t' = topology_new 7
   | (Ok ResyncRequired, t') \<Rightarrow> top_needs_resync t'
   | (Ok Applied, t') \<Rightarrow>
       top_needs_resync t' = top_needs_resync (topology_new 7) \<and> dom (sessions_of t') \<subseteq> dom (sessions_of (topology_new 7)) \<and>
       dom (windows_of t') \<subseteq> dom (windows_of (topology_new 7)) \<and> dom (panes_of t') \<subseteq> dom (panes_of (topology_new 7))"
  by (rule notification_discipline [OF topology_ok_new])

section \<open>Reachable topologies\<close>

inductive topology_reachable :: "tmux_topology \<Rightarrow> bool" where
  reach_new: "topology_reachable (topology_new c)"
| reach_label: "topology_reachable t \<Longrightarrow> topology_reachable (snd (set_label label t))"
| reach_resync: "topology_reachable t \<Longrightarrow> topology_reachable (mark_resync_required t)"
| reach_copy_mode: "topology_reachable t \<Longrightarrow> topology_reachable (clear_native_copy_mode p t)"
| reach_metadata: "topology_reachable t \<Longrightarrow> topology_reachable (snd (update_pane_capture_metadata m t))"
| reach_inventory: "topology_reachable t \<Longrightarrow> topology_reachable (snd (replace_inventory lines t))"
| reach_notification: "topology_reachable t \<Longrightarrow> topology_reachable (snd (apply_notification name args t))"

lemma topology_ok_scalar: "topology_ok (t\<lparr>top_label := l\<rparr>) = topology_ok t"
  by (simp add: topology_ok_def consistent_def maps_ok_def attached_ok_def)

lemma ok_update_pane:
  assumes "topology_ok t" and "panes_of t i = Some p" and "pane_ident p' = pane_ident p"
    and "pane_window_id p' = pane_window_id p"
  shows "topology_ok (t\<lparr>top_panes := btree_insert i p' (top_panes t)\<rparr>)"
  using refs_okD(3) [OF topology_okD(4) [OF assms(1)] assms(2)] assms(3,4)
  by (intro ok_pane [OF assms(1)]) (simp add: pane_ok_def)

lemma replace_inventory_ok: "topology_ok t \<Longrightarrow> topology_ok (snd (replace_inventory lines t))"
  by (cases rule: replace_inventory_cases [of lines t]) (simp_all add: topology_ok_def inventory_inv_def)

lemma reachable_ok: "topology_reachable t \<Longrightarrow> topology_ok t"
proof (induction rule: topology_reachable.induct)
  case (reach_new c)
  then show ?case by (rule topology_ok_new)
next
  case (reach_label t label)
  then show ?case by (simp add: set_label_def Let_def topology_ok_scalar)
next
  case (reach_resync t)
  then show ?case by (simp add: mark_resync_required_def)
next
  case (reach_copy_mode t p)
  then show ?case by (auto simp: clear_native_copy_mode_def intro!: ok_update_pane split: option.splits)
next
  case (reach_metadata t m)
  then show ?case by (auto simp: update_pane_capture_metadata_def intro!: ok_update_pane split: option.splits)
next
  case (reach_inventory t lines)
  then show ?case by (intro replace_inventory_ok)
next
  case (reach_notification t name args)
  then show ?case by (intro apply_notification_ok)
qed

lemma reachable_bindings: "topology_reachable t \<Longrightarrow> bindings_ok t"
proof (induction rule: topology_reachable.induct)
  case (reach_new c)
  then show ?case using bindings_ok_new [where c = c and l = "top_label (topology_new c)"] by simp
next
  case (reach_inventory t lines)
  show ?case
  proof (cases rule: replace_inventory_cases [of lines t])
    case (2 t')
    with apply_inventory_lines_bindings [OF 2(4) bindings_ok_new] show ?thesis by simp
  qed (use reach_inventory in simp)
next
  case (reach_notification t name args)
  then show ?case using same_bindings_ok [OF apply_notification_bindings] by blast
qed (auto intro: same_bindings_ok simp: same_bindings_def set_label_def mark_resync_required_def
      clear_native_copy_mode_def update_pane_capture_metadata_def Let_def bindings_ok_def split: option.splits)

text \<open>
  The active pane of a window is not among the references that always resolve: when a window is
  closed its panes are forgotten, but another window may go on naming one of them, although
  \<^verbatim>\<open>remove_pane\<close> clears the active pane of every window that names the pane it removes.
\<close>

lemma parse_ids:
  "parse_window_id ''@1'' = Ok 1" "parse_window_id ''@2'' = Ok 2" "parse_topology_pane_id ''%2'' = Ok 2"
  by (simp_all add: parse_window_id_def parse_topology_pane_id_def parse_id_def parse_uint_def is_ascii_digit_def byte_val_def dec_val_def digit_val_def text_field_def utf8_valid.simps byte_val_def strip_prefix_def starts_with_def)
lemma split_ids: "split_first ''@2 %2'' = Ok (''@2'', ''%2'')" "split_first ''@1 %2'' = Ok (''@1'', ''%2'')"
  "single_field ''@2'' = Ok ''@2''" "single_field ''%2'' = Ok ''%2''"
  by code_simp+
lemma closed_window_leaves_active_pane:
  "\<exists>t w. topology_reachable t \<and> windows_of t 1 = Some w \<and> win_active_pane w = Some 2 \<and> panes_of t 2 = None"
proof -
  define t1 where "t1 = snd (apply_notification ''window-pane-changed'' ''@2 %2'' (topology_new 7))"
  define t2 where "t2 = snd (apply_notification ''window-pane-changed'' ''@1 %2'' t1)"
  define t3 where "t3 = snd (apply_notification ''unlinked-window-close'' ''@2'' t2)"
  have "topology_reachable t3"
    unfolding t1_def t2_def t3_def by (intro reach_notification reach_new)
  moreover have "windows_of t3 1 = Some ((empty_window 1)\<lparr>win_active_pane := Some 2\<rparr>) \<and> panes_of t3 2 = None"
    unfolding t3_def t2_def t1_def
    by (simp add: apply_notification_def window_pane_changed_def unlinked_window_close_def split_ids parse_ids topology_new_def
        resync_or_applied_def require_resync_def remove_window_def btree_entry_def btree_get_def btree_remove_def btree_retain_def empty_pane_def empty_window_def)
  ultimately show ?thesis by auto
qed

text \<open>
  C14: In every topology that inventories, notifications, capture metadata and relabelling can
  produce, in any order and with arbitrary bytes, the attached session exists, the active window of
  every session exists, the window of every pane exists, every record is filed under its own
  identifier, and the window lists of the sessions agree in both directions with the links recorded in
  the windows. (The active pane of a window is not covered: it may name a pane that is gone.)
\<close>

theorem topology_references_resolve:
  assumes "topology_reachable t"
  shows "topology_ok t"
  by (rule reachable_ok [OF assms])

theorem topology_references_resolve_witness:
  "topology_ok (snd (apply_notification ''window-close'' ''@1''
     (snd (apply_notification ''session-window-changed'' ''$1 @1'' (topology_new 7)))))"
  by (intro topology_references_resolve reach_notification reach_new)

text \<open>
  C16: A key binding that a lookup finds is filed under exactly the key and table that were asked
  for, and its command is one nonempty command line of at most 64 KiB without a NUL, carriage
  return or line feed, so that sending it back to the server cannot inject a second command.
\<close>

theorem bindings_are_single_commands:
  assumes "topology_reachable t" and "binding_in_table table key t = Some b"
  shows "bind_key b = key \<and> bind_table b = table \<and> bind_command b \<noteq> [] \<and> length (bind_command b) \<le> 65536 \<and>
    (\<forall>c \<in> set (bind_command b). byte_val c \<notin> {0, 10, 13})"
  using reachable_bindings [OF assms(1)] assms(2)
  by (auto simp: bindings_ok_def table_ok_def safe_binding_def binding_in_table_def split: if_splits bind_splits)

section \<open>Printed bindings\<close>

text \<open>The quoting styles of a word in the reloadable syntax\<close>

datatype word_piece = Plain byte | Escaped byte | Quoted byte "(bool \<times> byte) list"

definition escape_if :: "bool \<times> byte \<Rightarrow> bytes" where
  "escape_if p = (if fst p then [CHR 0x5C, snd p] else [snd p])"

fun piece_ok :: "word_piece \<Rightarrow> bool" where
  "piece_ok (Plain c) \<longleftrightarrow> \<not> is_ascii_whitespace c \<and> c \<notin> {CHR 0x5C, CHR 0x27, CHR 0x22}"
| "piece_ok (Escaped c) \<longleftrightarrow> True"
| "piece_ok (Quoted q body) \<longleftrightarrow>
     q \<in> {CHR 0x27, CHR 0x22} \<and> list_all (\<lambda>(escaped, c). escaped \<or> c \<noteq> q \<and> c \<noteq> CHR 0x5C) body"

fun piece_text :: "word_piece \<Rightarrow> bytes" where
  "piece_text (Plain c) = [c]"
| "piece_text (Escaped c) = [CHR 0x5C, c]"
| "piece_text (Quoted q body) = q # concat (map escape_if body) @ [q]"

fun piece_meaning :: "word_piece \<Rightarrow> bytes" where
  "piece_meaning (Plain c) = [c]"
| "piece_meaning (Escaped c) = [c]"
| "piece_meaning (Quoted q body) = map snd body"

definition word_text :: "word_piece list \<Rightarrow> bytes" where "word_text ps = concat (map piece_text ps)"
definition word_meaning :: "word_piece list \<Rightarrow> bytes" where "word_meaning ps = concat (map piece_meaning ps)"

lemma lexer_quoted_body:
  assumes "q \<in> {CHR 0x27, CHR 0x22}" and "list_all (\<lambda>(escaped, c). escaped \<or> c \<noteq> q \<and> c \<noteq> CHR 0x5C) body"
  shows "lexer_token (Some q) acc (concat (map escape_if body) @ q # rest) = lexer_token None (acc @ map snd body) rest"
  using assms(2)
proof (induction body arbitrary: acc)
  case Nil
  then show ?case using assms(1) by auto
next
  case (Cons x body)
  obtain e c where x: "x = (e, c)" by fastforce
  show ?case
  proof (cases e)
    case True
    then show ?thesis using Cons x by (simp add: escape_if_def)
  next
    case False
    then have "c \<noteq> q" "c \<noteq> CHR 0x5C" using Cons.prems x by simp_all
    then show ?thesis using Cons x False by (simp add: escape_if_def)
  qed
qed

lemma lexer_pieces:
  "list_all piece_ok ps \<Longrightarrow> lexer_token None acc (word_text ps @ rest) = lexer_token None (acc @ word_meaning ps) rest"
proof (induction ps arbitrary: acc)
  case Nil
  then show ?case by (simp add: word_text_def word_meaning_def)
next
  case (Cons p ps)
  have IH: "lexer_token None a (concat (map piece_text ps) @ rest) =
      lexer_token None (a @ concat (map piece_meaning ps)) rest" for a
    using Cons by (simp add: word_text_def word_meaning_def)
  show ?case
  proof (cases p)
    case (Plain c)
    then show ?thesis using Cons.prems by (simp add: word_text_def word_meaning_def IH)
  next
    case (Escaped c)
    have "\<not> is_ascii_whitespace (CHR 0x5C)" by (simp add: is_ascii_whitespace_def byte_val_def)
    with Escaped show ?thesis by (simp add: word_text_def word_meaning_def IH)
  next
    case (Quoted q body)
    then have q: "q \<in> {CHR 0x27, CHR 0x22}" using Cons.prems by simp
    then have "\<not> is_ascii_whitespace q" "q \<noteq> CHR 0x5C" by (auto simp: is_ascii_whitespace_def byte_val_def)
    then have "lexer_token None acc (word_text (p # ps) @ rest) =
        lexer_token (Some q) acc (concat (map escape_if body) @ q # (concat (map piece_text ps) @ rest))"
      using Quoted q by (simp add: word_text_def)
    also have "\<dots> = lexer_token None (acc @ map snd body) (concat (map piece_text ps) @ rest)"
      using Quoted Cons.prems by (intro lexer_quoted_body) simp_all
    finally show ?thesis using Quoted by (simp add: IH word_meaning_def)
  qed
qed

lemma word_text_no_space:
  assumes "list_all piece_ok ps" and "word_meaning ps \<noteq> []"
  shows "word_text ps \<noteq> [] \<and> \<not> is_ascii_whitespace (hd (word_text ps))"
proof -
  obtain p ps' where ps: "ps = p # ps'" using assms(2) by (cases ps) (auto simp: word_meaning_def)
  have "\<not> is_ascii_whitespace (CHR 0x5C)" "\<not> is_ascii_whitespace (CHR 0x27)" "\<not> is_ascii_whitespace (CHR 0x22)"
    by (simp_all add: is_ascii_whitespace_def byte_val_def)
  then show ?thesis using assms(1) ps by (cases p) (auto simp: word_text_def)
qed

lemma skip_word:
  assumes "list_all piece_ok ps" and "word_meaning ps \<noteq> []"
  shows "lexer_skip_whitespace (word_text ps @ r) = word_text ps @ r"
    and "lexer_skip_whitespace (CHR '' '' # word_text ps @ r) = word_text ps @ r"
proof -
  obtain c cs where c: "word_text ps = c # cs" "\<not> is_ascii_whitespace c"
    using word_text_no_space [OF assms] by (cases "word_text ps") auto
  have "is_ascii_whitespace (CHR '' '')" by (simp add: is_ascii_whitespace_def byte_val_def)
  with c show "lexer_skip_whitespace (word_text ps @ r) = word_text ps @ r"
    "lexer_skip_whitespace (CHR '' '' # word_text ps @ r) = word_text ps @ r"
    by (simp_all add: lexer_skip_whitespace_def)
qed

lemma lexer_next_word:
  assumes "list_all piece_ok ps" and "word_meaning ps \<noteq> []"
  shows "lexer_next (word_text ps @ CHR '' '' # r) = Ok (Some (word_meaning ps), CHR '' '' # r)"
    and "lexer_required (CHR '' '' # word_text ps @ CHR '' '' # r) = Ok (word_meaning ps, CHR '' '' # r)"
proof -
  have ws: "is_ascii_whitespace (CHR '' '')" by (simp add: is_ascii_whitespace_def byte_val_def)
  have "lexer_token None [] (word_text ps @ CHR '' '' # r) = Ok (Some (word_meaning ps), CHR '' '' # r)"
    using assms by (simp add: lexer_pieces ws)
  then show "lexer_next (word_text ps @ CHR '' '' # r) = Ok (Some (word_meaning ps), CHR '' '' # r)"
    "lexer_required (CHR '' '' # word_text ps @ CHR '' '' # r) = Ok (word_meaning ps, CHR '' '' # r)"
    using skip_word [OF assms, of "CHR '' '' # r"] word_text_no_space [OF assms]
    by (simp_all add: lexer_next_def lexer_required_def Let_def)
qed

lemma plain_word:
  assumes "list_all (\<lambda>c. piece_ok (Plain c)) s"
  shows "list_all piece_ok (map Plain s)" "word_text (map Plain s) = s" "word_meaning (map Plain s) = s"
  using assms by (induction s) (simp_all add: word_text_def word_meaning_def)

lemma lexer_plain:
  assumes "list_all (\<lambda>c. piece_ok (Plain c)) s" and "s \<noteq> []"
  shows "lexer_next (s @ CHR '' '' # r) = Ok (Some s, CHR '' '' # r)"
    and "lexer_required (CHR '' '' # s @ CHR '' '' # r) = Ok (s, CHR '' '' # r)"
  using lexer_next_word [of "map Plain s" r] assms by (simp_all add: plain_word)

definition print_binding :: "bool \<Rightarrow> word_piece list \<Rightarrow> word_piece list \<Rightarrow> bytes \<Rightarrow> bytes" where
  "print_binding repeatable table key command =
     ''bind-key '' @ (if repeatable then ''-r '' else []) @ ''-T '' @ word_text table @ CHR '' '' # word_text key @
     CHR '' '' # command"

text \<open>
  A binding line in the reloadable syntax of tmux is read back exactly, however the table and
  the key are quoted or escaped: the parsed table and key are the words that the quoting denotes,
  and the command is kept byte for byte.
\<close>

theorem printed_binding_parsed:
  assumes "list_all piece_ok table" and "list_all piece_ok key"
    and "utf8_valid (word_meaning table)" and "utf8_valid (word_meaning key)" and "utf8_valid command"
    and "validate_binding (word_meaning table) (word_meaning key) command = Ok ()"
    and "\<not> is_ascii_whitespace (hd command)"
  shows "apply_inventory_line (print_binding repeatable table key command) t =
    insert_binding \<lparr>bind_table = word_meaning table, bind_key = word_meaning key,
      bind_repeatable = repeatable, bind_command = command\<rparr> t"
proof -
  have ne: "word_meaning table \<noteq> []" "word_meaning key \<noteq> []" "command \<noteq> []"
    using assms(6) by (auto simp: validate_binding_def split: if_splits)
  have plain: "list_all (\<lambda>c. piece_ok (Plain c)) ''bind-key''" "list_all (\<lambda>c. piece_ok (Plain c)) ''-r''"
    "list_all (\<lambda>c. piece_ok (Plain c)) ''-T''" by (simp_all add: is_ascii_whitespace_def byte_val_def)
  have command: "lexer_remainder (CHR '' '' # command) = Ok command"
  proof -
    obtain c cs where "command = c # cs" using ne(3) by (cases command) auto
    moreover have "is_ascii_whitespace (CHR '' '')" by (simp add: is_ascii_whitespace_def byte_val_def)
    ultimately show ?thesis using assms(7) by (simp add: lexer_remainder_def lexer_skip_whitespace_def)
  qed
  note table = lexer_next_word(2) [OF assms(1) ne(1)] and key = lexer_next_word(2) [OF assms(2) ne(2)]
  note words = lexer_plain [OF plain(1), simplified] lexer_plain [OF plain(2), simplified] lexer_plain [OF plain(3), simplified]
  have "inventory_legacy_binding (print_binding repeatable table key command) t =
      insert_binding \<lparr>bind_table = word_meaning table, bind_key = word_meaning key,
        bind_repeatable = repeatable, bind_command = command\<rparr> t"
    using assms(3-6) by (cases repeatable)
      (simp_all add: inventory_legacy_binding_def print_binding_def words table key command text_field_def)
  then show ?thesis by (simp add: apply_inventory_line_def print_binding_def)
qed

theorem printed_binding_parsed_witness:
  "apply_inventory_line (print_binding True (map Plain ''prefix'') [Quoted (CHR 0x22) [(False, CHR ''%'')]] ''split-window -h'')
     (topology_new 7) =
   insert_binding \<lparr>bind_table = ''prefix'', bind_key = ''%'', bind_repeatable = True,
     bind_command = ''split-window -h''\<rparr> (topology_new 7)"
proof -
  have m: "word_meaning (map Plain ''prefix'') = ''prefix''" "word_meaning [Quoted (CHR 0x22) [(False, CHR ''%'')]] = ''%''"
    by (simp_all add: word_meaning_def)
  show ?thesis
    by (rule printed_binding_parsed [of "map Plain ''prefix''" "[Quoted (CHR 0x22) [(False, CHR ''%'')]]" "''split-window -h''"
          True "topology_new 7", unfolded m])
      (simp_all add: validate_binding_def is_ascii_whitespace_def byte_val_def)
qed

lemma insert_first_binding:
  "insert_binding \<lparr>bind_table = ''prefix'', bind_key = k, bind_repeatable = r, bind_command = c\<rparr>
     ((topology_new n)\<lparr>top_label := l\<rparr>) =
   Ok ((topology_new n)\<lparr>top_label := l, top_bindings := [(k, \<lparr>bind_table = ''prefix'', bind_key = k, bind_repeatable = r, bind_command = c\<rparr>)]\<rparr>)"
  by (simp add: insert_binding_def topology_new_def btree_get_Nil)

theorem bindings_are_single_commands_witness:
  "\<exists>b. binding_in_table ''prefix'' ''c'' (snd (replace_inventory [''bind-key -T prefix c new-window''] (topology_new 7))) = Some b \<and>
     bind_key b = ''c'' \<and> bind_table b = ''prefix'' \<and> bind_command b \<noteq> [] \<and> length (bind_command b) \<le> 65536 \<and>
     (\<forall>c \<in> set (bind_command b). byte_val c \<notin> {0, 10, 13})"
proof -
  let ?line = "print_binding False (map Plain ''prefix'') (map Plain ''c'') ''new-window''"
  let ?b = "\<lparr>bind_table = ''prefix'', bind_key = ''c'', bind_repeatable = False, bind_command = ''new-window''\<rparr>"
  let ?t0 = "(topology_new 7)\<lparr>top_label := top_label (topology_new 7)\<rparr>"
  let ?t1 = "?t0\<lparr>top_bindings := [(''c'', ?b)]\<rparr>"
  have m: "word_meaning (map Plain ''prefix'') = ''prefix''" "word_meaning (map Plain ''c'') = ''c''"
    by (simp_all add: word_meaning_def)
  have line: "?line = ''bind-key -T prefix c new-window''" by (simp add: print_binding_def word_text_def)
  have "apply_inventory_line ?line ?t0 = insert_binding ?b ?t0"
    by (rule printed_binding_parsed [of "map Plain ''prefix''" "map Plain ''c''" "''new-window''" False ?t0, unfolded m])
      (simp_all add: validate_binding_def is_ascii_whitespace_def byte_val_def)
  then have "apply_inventory_lines [''bind-key -T prefix c new-window''] ?t0 = Ok ?t1"
    by (simp only: line insert_first_binding apply_inventory_lines.simps bind_result.simps)
  moreover have "validate_inventory ?t1 = Ok ()" by (simp add: validate_inventory_def topology_new_def)
  moreover have "top_connection_id (topology_new 7) = 7" by (simp add: topology_new_def)
  ultimately have "replace_inventory [''bind-key -T prefix c new-window''] (topology_new 7) = (Ok (), ?t1)"
    by (simp add: replace_inventory_def)
  then have b: "binding_in_table ''prefix'' ''c'' (snd (replace_inventory [''bind-key -T prefix c new-window''] (topology_new 7))) = Some ?b"
    by (simp add: binding_in_table_def btree_get_def)
  from b bindings_are_single_commands [OF reach_inventory [OF reach_new] b] show ?thesis by blast
qed

section \<open>Capture metadata\<close>

lemma splitn_join:
  "fs \<noteq> [] \<Longrightarrow> \<forall>f \<in> set (butlast fs). c \<notin> set f \<Longrightarrow> splitn (length fs) c (join_with c fs) = fs"
proof (induction c fs rule: join_with.induct)
  case (3 c f g fs)
  have "position (\<lambda>x. x = c) (f @ c # join_with c (g # fs)) = Some (length f)"
    using "3.prems" by (subst position_append) auto
  with 3 show ?case by simp
qed simp_all

lemma utf8_valid_digits: "list_all is_ascii_digit s \<Longrightarrow> utf8_valid s"
  by (rule utf8_valid_ascii) (auto simp: list_all_iff is_ascii_digit_def is_ascii_def)

lemma number_show: "number (show_nat (unat x)) field = Ok x"
  using unsigned_less [of x, where ?'a = nat] show_nat_digits [of "unat x"]
  by (simp add: number_def text_field_def utf8_valid_digits parse_uint_show_nat)

definition show_flag :: "bool \<Rightarrow> bytes" where "show_flag b = (if b then ''1'' else ''0'')"

lemma boolean_show: "boolean (show_flag b) field = Ok b"
  by (simp add: boolean_def show_flag_def)

lemma no_tab:
  "tab \<notin> set (show_nat n)" "tab \<notin> set (show_flag b)" "tab \<notin> set (CHR ''%'' # show_nat n)" "tab \<notin> set ''R''"
  using show_nat_set [of tab n] by (auto simp: tab_def show_flag_def is_ascii_digit_def byte_val_def)

lemma pane_id_show_parsed: "parse_topology_pane_id (CHR ''%'' # show_nat (unat i)) = Ok i"
  using unsigned_less [of i, where ?'a = nat] show_nat_digits [of "unat i"]
  by (simp add: parse_topology_pane_id_def parse_id_def strip_prefix_def starts_with_def text_field_def
      utf8_valid_digits parse_uint_show_nat)

definition print_metadata :: "pane_capture_metadata \<Rightarrow> bytes" where
  "print_metadata m = join_with tab
     [''R'', CHR ''%'' # show_nat (unat (meta_pane_id m)), show_nat (unat (meta_left m)), show_nat (unat (meta_top m)),
      show_nat (unat (meta_width m)), show_nat (unat (meta_height m)), show_flag (meta_dead m),
      show_nat (unat (meta_cursor_x m)), show_nat (unat (meta_cursor_y m)), show_flag (meta_cursor_visible m),
      meta_cursor_shape m, show_flag (meta_alternate_on m), show_nat (unat (meta_pane_in_mode m)),
      show_nat (unat (meta_history_size m))]"

lemma split_metadata:
  assumes "tab \<notin> set (meta_cursor_shape m)"
  shows "split_inventory (print_metadata m) 14 = Ok
     [''R'', CHR ''%'' # show_nat (unat (meta_pane_id m)), show_nat (unat (meta_left m)), show_nat (unat (meta_top m)),
      show_nat (unat (meta_width m)), show_nat (unat (meta_height m)), show_flag (meta_dead m),
      show_nat (unat (meta_cursor_x m)), show_nat (unat (meta_cursor_y m)), show_flag (meta_cursor_visible m),
      meta_cursor_shape m, show_flag (meta_alternate_on m), show_nat (unat (meta_pane_in_mode m)),
      show_nat (unat (meta_history_size m))]" (is "_ = Ok ?fs")
proof -
  have "splitn (length ?fs) tab (join_with tab ?fs) = ?fs"
    by (rule splitn_join) (use no_tab assms in auto)
  moreover have "length ?fs = 14" by simp
  ultimately have "splitn 14 tab (print_metadata m) = ?fs" by (simp only: print_metadata_def)
  then show ?thesis by (simp add: split_inventory_def)
qed

text \<open>
  The answer to Lector's own capture query is read back exactly, for every pane number, size,
  cursor and mode, and an answer that names another pane than the one asked about is refused.
\<close>

theorem capture_metadata_roundtrip:
  assumes "utf8_valid (meta_cursor_shape m)" and "tab \<notin> set (meta_cursor_shape m)" and "meta_cursor_shape m \<noteq> []"
  shows "parse_pane_capture_metadata (print_metadata m) expected =
    (if expected = meta_pane_id m then Ok m
     else Err (ContradictoryInventory ''pane capture metadata names a different pane''))"
proof -
  have "parse_cursor_shape (meta_cursor_shape m) = Ok (meta_cursor_shape m)"
    using assms by (simp add: parse_cursor_shape_def text_field_def)
  then show ?thesis
    by (simp add: parse_pane_capture_metadata_def split_metadata [OF assms(2)] pane_id_show_parsed number_show boolean_show)
qed

theorem capture_metadata_roundtrip_witness:
  "parse_pane_capture_metadata (print_metadata
     \<lparr>meta_pane_id = 3, meta_left = 0, meta_top = 1, meta_width = 80, meta_height = 24, meta_dead = False,
      meta_cursor_x = 5, meta_cursor_y = 6, meta_cursor_visible = True, meta_cursor_shape = ''block'',
      meta_alternate_on = False, meta_pane_in_mode = 0, meta_history_size = 4294967295\<rparr>) 4 =
   Err (ContradictoryInventory ''pane capture metadata names a different pane'')"
  by (subst capture_metadata_roundtrip) (simp_all add: tab_def byte_val_def)

end
