(* ===== verification/Key_Input.thy ===== *)
theory Key_Input
  imports Rust_Strings
begin

text \<open>
  Keys as Lector sees them (\<^verbatim>\<open>terminal_input.rs\<close>). The event types are those of the
  \<^verbatim>\<open>terminput\<close> crate, with the constructors that the sources name and one for all other keys;
  a character is its code point. Two functions of that crate are parameters of the model:
  \<open>normalize_case\<close>, and \<open>encode_xterm\<close>, which gives the legacy encoding of an event if there is one.
\<close>

section \<open>Key events\<close>

datatype key_code =
    KeyChar nat | Backspace | Enter | KeyLeft | KeyRight | KeyUp | KeyDown | Home | End | PageUp | PageDown
  | Tab | Delete | Insert | FKey nat | Esc | KeypadBegin | OtherKey nat

record key_modifiers =
  mod_shift :: bool
  mod_ctrl :: bool
  mod_alt :: bool
  mod_meta :: bool
  mod_super :: bool
  mod_hyper :: bool

datatype key_event_kind = KeyPress | KeyRepeat | KeyRelease

record key_event =
  ev_code :: key_code
  ev_modifiers :: key_modifiers
  ev_kind :: key_event_kind
  ev_keypad :: bool

definition no_modifiers :: key_modifiers where
  "no_modifiers = \<lparr>mod_shift = False, mod_ctrl = False, mod_alt = False, mod_meta = False, mod_super = False,
     mod_hyper = False\<rparr>"

record key_input =
  ki_event :: key_event
  ki_associated_text :: "bytes option"
  ki_alternate_text :: "bytes option"

text \<open>\<^verbatim>\<open>char::is_control\<close> and \<^verbatim>\<open>char::to_ascii_lowercase\<close> on code points\<close>

definition char_is_control :: "nat \<Rightarrow> bool" where
  "char_is_control n \<longleftrightarrow> n < 32 \<or> 127 \<le> n \<and> n < 160"

definition char_to_ascii_lowercase :: "nat \<Rightarrow> nat" where
  "char_to_ascii_lowercase n = (if 65 \<le> n \<and> n \<le> 90 then n + 32 else n)"

section \<open>Text carried by the Kitty protocol\<close>

fun text_of_codepoints :: "bytes list \<Rightarrow> bytes option" where
  "text_of_codepoints [] = Some []"
| "text_of_codepoints (f # fs) =
     (case parse_uint 32 f of
        None \<Rightarrow> None
      | Some n \<Rightarrow>
          if \<not> is_scalar_value n \<or> char_is_control n then None
          else map_option (\<lambda>r. encode_utf8 n @ r) (text_of_codepoints fs))"

definition kitty_modifiers_ok :: "bytes \<Rightarrow> bool" where
  "kitty_modifiers_ok modifiers \<longleftrightarrow>
     modifiers = [] \<or>
     (case split_on (CHR '':'') modifiers of
        [m] \<Rightarrow> parse_uint 16 m \<noteq> None
      | [m, kind] \<Rightarrow> parse_uint 16 m \<noteq> None \<and> parse_uint 8 kind \<noteq> None
      | _ \<Rightarrow> False)"

definition kitty_associated_text :: "bytes \<Rightarrow> bytes option" where
  "kitty_associated_text raw =
     Option.bind (strip_prefix raw (CHR 0x1B # ''['')) (\<lambda>b.
     Option.bind (strip_suffix b ''u'') (\<lambda>body.
       if \<not> utf8_valid body then None
       else (case split_on (CHR '';'') body of
               [key_codes, modifiers, text] \<Rightarrow>
                 if text = [] then None
                 else if \<not> list_all (\<lambda>c. parse_uint 32 c \<noteq> None) (split_on (CHR '':'') key_codes) then None
                 else if length (split_on (CHR '':'') key_codes) \<notin> {1, 2, 3} then None
                 else if \<not> kitty_modifiers_ok modifiers then None
                 else Option.bind (text_of_codepoints (split_on (CHR '':'') text)) (\<lambda>r.
                        if r = [] then None else Some r)
             | _ \<Rightarrow> None)))"

definition kitty_alternate_text :: "key_event \<Rightarrow> bytes \<Rightarrow> bytes option" where
  "kitty_alternate_text event raw =
     (if \<not> mod_shift (ev_modifiers event) then None
      else
        Option.bind (strip_prefix raw (CHR 0x1B # ''['')) (\<lambda>b.
        Option.bind (strip_suffix b ''u'') (\<lambda>body.
          if \<not> utf8_valid body then None
          else (case split_on (CHR '':'') (hd (split_on (CHR '';'') body)) of
                  a # alternate # _ \<Rightarrow>
                    if parse_uint 32 a = None then None
                    else Option.bind (parse_uint 32 alternate) (\<lambda>n.
                           if \<not> is_scalar_value n \<or> char_is_control n then None else Some (encode_utf8 n))
                | _ \<Rightarrow> None))))"

definition key_input_new :: "key_event \<Rightarrow> bytes \<Rightarrow> key_input" where
  "key_input_new event raw =
     \<lparr>ki_event = event, ki_associated_text = kitty_associated_text raw,
      ki_alternate_text = kitty_alternate_text event raw\<rparr>"

section \<open>Meaning of a key\<close>

definition normalized_event :: "(key_event \<Rightarrow> key_event) \<Rightarrow> key_input \<Rightarrow> key_event" where
  "normalized_event normalize_case k = normalize_case (ki_event k)"

definition is_release :: "key_input \<Rightarrow> bool" where
  "is_release k \<longleftrightarrow> ev_kind (ki_event k) = KeyRelease"

definition key_text :: "(key_event \<Rightarrow> key_event) \<Rightarrow> key_input \<Rightarrow> bytes option" where
  "key_text normalize_case k =
     (case ki_associated_text k of
        Some text \<Rightarrow> Some text
      | None \<Rightarrow>
          (let event = normalized_event normalize_case k; m = ev_modifiers event in
           if m = no_modifiers\<lparr>mod_shift := True\<rparr> \<and> ki_alternate_text k \<noteq> None then ki_alternate_text k
           else if mod_ctrl m \<or> mod_alt m \<or> mod_meta m \<or> mod_super m \<or> mod_hyper m then None
           else (case ev_code event of KeyChar ch \<Rightarrow> Some (encode_utf8 ch) | _ \<Rightarrow> None)))"

definition legacy_control_code :: "nat \<Rightarrow> byte option" where
  "legacy_control_code ch =
     (let l = char_to_ascii_lowercase ch in
      if l = 64 \<or> l = 32 \<or> l = 50 then Some (CHR 0x00)
      else if 97 \<le> l \<and> l \<le> 122 then Some (char_of (l - 97 + 1))
      else if l = 91 \<or> l = 51 then Some (CHR 0x1B)
      else if l = 92 \<or> l = 52 then Some (CHR 0x1C)
      else if l = 93 \<or> l = 53 then Some (CHR 0x1D)
      else if l = 94 \<or> l = 54 then Some (CHR 0x1E)
      else if l = 95 \<or> l = 55 \<or> l = 47 then Some (CHR 0x1F)
      else if l = 63 \<or> l = 56 then Some (CHR 0x7F)
      else None)"

definition control_code :: "(key_event \<Rightarrow> key_event) \<Rightarrow> key_input \<Rightarrow> byte option" where
  "control_code normalize_case k =
     (let event = normalized_event normalize_case k; m = ev_modifiers event in
      if \<not> mod_ctrl m \<or> mod_alt m \<or> mod_meta m \<or> mod_super m \<or> mod_hyper m then None
      else (case ev_code event of KeyChar ch \<Rightarrow> legacy_control_code ch | _ \<Rightarrow> None))"

section \<open>Transcoding for legacy applications\<close>

definition is_extended_key_encoding :: "key_event \<Rightarrow> bytes \<Rightarrow> bool" where
  "is_extended_key_encoding event raw \<longleftrightarrow>
     ev_kind event \<noteq> KeyPress \<or>
     (case (case strip_prefix raw (CHR 0x1B # ''['') of Some b \<Rightarrow> Some b | None \<Rightarrow> strip_prefix raw [CHR 0x9B]) of
        Some body \<Rightarrow> ends_with body ''u'' \<or> CHR '':'' \<in> set body
      | None \<Rightarrow> False) \<or>
     (case strip_prefix raw (CHR 0x1B # ''[27;'') of Some body \<Rightarrow> ends_with body ''~'' | None \<Rightarrow> False)"

fun application_cursor_sequence :: "key_code \<Rightarrow> bytes option" where
  "application_cursor_sequence KeyLeft = Some (CHR 0x1B # ''OD'')"
| "application_cursor_sequence KeyRight = Some (CHR 0x1B # ''OC'')"
| "application_cursor_sequence KeyUp = Some (CHR 0x1B # ''OA'')"
| "application_cursor_sequence KeyDown = Some (CHR 0x1B # ''OB'')"
| "application_cursor_sequence Home = Some (CHR 0x1B # ''OH'')"
| "application_cursor_sequence End = Some (CHR 0x1B # ''OF'')"
| "application_cursor_sequence _ = None"

definition keypad_final :: "key_code \<Rightarrow> byte option" where
  "keypad_final code =
     (if code \<in> {KeyChar 48, Insert} then Some (CHR ''p'')
      else if code \<in> {KeyChar 49, End} then Some (CHR ''q'')
      else if code \<in> {KeyChar 50, KeyDown} then Some (CHR ''r'')
      else if code \<in> {KeyChar 51, PageDown} then Some (CHR ''s'')
      else if code \<in> {KeyChar 52, KeyLeft} then Some (CHR ''t'')
      else if code \<in> {KeyChar 53, KeypadBegin} then Some (CHR ''u'')
      else if code \<in> {KeyChar 54, KeyRight} then Some (CHR ''v'')
      else if code \<in> {KeyChar 55, Home} then Some (CHR ''w'')
      else if code \<in> {KeyChar 56, KeyUp} then Some (CHR ''x'')
      else if code \<in> {KeyChar 57, PageUp} then Some (CHR ''y'')
      else if code \<in> {KeyChar 46, Delete} then Some (CHR ''n'')
      else if code = KeyChar 47 then Some (CHR ''o'')
      else if code = KeyChar 42 then Some (CHR ''j'')
      else if code = KeyChar 45 then Some (CHR ''m'')
      else if code = KeyChar 43 then Some (CHR ''k'')
      else if code = Enter then Some (CHR ''M'')
      else if code = KeyChar 61 then Some (CHR ''X'')
      else if code = KeyChar 44 then Some (CHR ''l'')
      else None)"

definition application_keypad_sequence :: "key_code \<Rightarrow> bytes option" where
  "application_keypad_sequence code = map_option (\<lambda>c. [CHR 0x1B, CHR ''O'', c]) (keypad_final code)"

definition legacy_child_bytes ::
  "(key_event \<Rightarrow> key_event) \<Rightarrow> (key_event \<Rightarrow> bytes option) \<Rightarrow> key_input \<Rightarrow> bytes \<Rightarrow> bool \<Rightarrow> bool \<Rightarrow> bytes" where
  "legacy_child_bytes normalize_case encode_xterm k raw application_cursor application_keypad =
     (if \<not> is_extended_key_encoding (ki_event k) raw then raw
      else if is_release k then []
      else
        (let event = (normalized_event normalize_case k)\<lparr>ev_kind := KeyPress\<rparr> in
         if mod_super (ev_modifiers event) \<or> mod_hyper (ev_modifiers event) then []
         else
           (let event = (if mod_meta (ev_modifiers event)
                         then event\<lparr>ev_modifiers := (ev_modifiers event)\<lparr>mod_meta := False, mod_alt := True\<rparr>\<rparr>
                         else event);
                m = ev_modifiers event;
                esc = (if mod_alt m then [CHR 0x1B] else []);
                text = (case ki_associated_text k of Some s \<Rightarrow> Some s | None \<Rightarrow> ki_alternate_text k);
                control = (if mod_ctrl m then (case ev_code event of KeyChar ch \<Rightarrow> legacy_control_code ch | _ \<Rightarrow> None) else None);
                keypad = (if application_keypad \<and> ev_keypad event \<and> m = no_modifiers
                          then application_keypad_sequence (ev_code event) else None);
                cursor = (if application_cursor \<and> \<not> ev_keypad event \<and> m = no_modifiers
                          then application_cursor_sequence (ev_code event) else None)
            in if text \<noteq> None \<and> \<not> mod_ctrl m then esc @ the text
               else if control \<noteq> None then esc @ [the control]
               else if keypad \<noteq> None then the keypad
               else if cursor \<noteq> None then the cursor
               else (case encode_xterm event of Some bs \<Rightarrow> bs | None \<Rightarrow> []))))"

section \<open>Text survives the Kitty encoding\<close>

definition join_colon :: "nat list \<Rightarrow> bytes" where
  "join_colon ns = concat (map (\<lambda>n. CHR '':'' # show_nat n) ns)"

lemma no_separator: "is_ascii_digit c \<Longrightarrow> c \<noteq> CHR '':'' \<and> c \<noteq> CHR '';''"
  by (auto simp: is_ascii_digit_def byte_val_def)

lemma show_nat_no_separator: "CHR '':'' \<notin> set (show_nat n)" "CHR '';'' \<notin> set (show_nat n)"
  using show_nat_set [of "CHR '':''" n] show_nat_set [of "CHR '';''" n] no_separator by blast+

lemma split_colon: "split_on (CHR '':'') (show_nat n @ join_colon ns) = map show_nat (n # ns)"
  by (induction ns arbitrary: n)
    (simp_all add: join_colon_def split_on_no_sep split_on_append_sep show_nat_no_separator)

lemma join_colon_no_semicolon: "CHR '';'' \<notin> set (join_colon ns)"
  using show_nat_no_separator(2) by (auto simp: join_colon_def)

lemma text_of_codepoints_show:
  assumes "list_all (\<lambda>n. is_scalar_value n \<and> \<not> char_is_control n) ns"
  shows "text_of_codepoints (map show_nat ns) = Some (concat (map encode_utf8 ns))"
  using assms
proof (induction ns)
  case (Cons n ns)
  then have "n < 2 ^ 32" by (auto simp: is_scalar_value_def)
  with Cons show ?case by (simp add: parse_uint_show_nat)
qed simp

definition kitty_text_report :: "nat \<Rightarrow> nat \<Rightarrow> nat \<Rightarrow> nat list \<Rightarrow> bytes" where
  "kitty_text_report key modifiers n ns =
     CHR 0x1B # ''['' @ (show_nat key @ CHR '';'' # show_nat modifiers @ CHR '';'' # show_nat n @ join_colon ns) @ ''u''"

lemma encode_utf8_nonempty: "encode_utf8 n \<noteq> []"
  by (simp add: encode_utf8_def)

text \<open>
  Text that the terminal associates with a key is recovered exactly: for every nonempty
  sequence of characters without control characters, any key code and any modifiers, the Kitty
  report decodes to the UTF-8 encoding of that sequence.
\<close>

theorem kitty_text_roundtrip:
  assumes "key < 2 ^ 32" and "modifiers < 2 ^ 16"
    and "list_all (\<lambda>n. is_scalar_value n \<and> \<not> char_is_control n) (n # ns)"
  shows "kitty_associated_text (kitty_text_report key modifiers n ns) = Some (concat (map encode_utf8 (n # ns)))"
proof -
  let ?body = "show_nat key @ CHR '';'' # show_nat modifiers @ CHR '';'' # show_nat n @ join_colon ns"
  have prefix: "strip_prefix (kitty_text_report key modifiers n ns) (CHR 0x1B # ''['') = Some (?body @ ''u'')"
    by (simp add: kitty_text_report_def strip_prefix_def starts_with_def)
  have suffix: "strip_suffix (?body @ ''u'') ''u'' = Some ?body" by (simp only: strip_suffix_Some)
  have "list_all is_ascii ?body"
  proof -
    have d: "c \<in> set (show_nat m) \<Longrightarrow> is_ascii c" for c m
      using show_nat_set [of c m] by (auto simp: is_ascii_digit_def is_ascii_def)
    then show ?thesis by (auto simp: list_all_iff join_colon_def dest: d) (simp_all add: is_ascii_def byte_val_def)
  qed
  then have valid: "utf8_valid ?body" by (rule utf8_valid_ascii)
  have "CHR '';'' \<notin> set (show_nat n @ join_colon ns)"
    using join_colon_no_semicolon show_nat_no_separator(2) by simp
  then have split: "split_on (CHR '';'') ?body = [show_nat key, show_nat modifiers, show_nat n @ join_colon ns]"
    by (simp add: split_on_append_sep split_on_no_sep show_nat_no_separator)
  have "split_on (CHR '':'') (show_nat key) = [show_nat key]" "split_on (CHR '':'') (show_nat modifiers) = [show_nat modifiers]"
    by (simp_all add: split_on_no_sep show_nat_no_separator)
  moreover have "parse_uint 32 (show_nat key) = Some key" "parse_uint 16 (show_nat modifiers) = Some modifiers"
    using assms(1,2) by (simp_all add: parse_uint_show_nat)
  moreover have "text_of_codepoints (split_on (CHR '':'') (show_nat n @ join_colon ns)) = Some (concat (map encode_utf8 (n # ns)))"
    unfolding split_colon by (rule text_of_codepoints_show [OF assms(3)])
  ultimately show ?thesis
    unfolding kitty_associated_text_def prefix suffix Option.bind.bind_lunit split list.case
    using valid by (simp add: kitty_modifiers_ok_def encode_utf8_nonempty)
qed

theorem kitty_text_roundtrip_witness:
  "kitty_associated_text (kitty_text_report 0 1 101 [769]) = Some (concat (map encode_utf8 [101, 769]))"
  by (rule kitty_text_roundtrip) (simp_all add: is_scalar_value_def char_is_control_def)

end
