(* ===== verification/Tmux_Prefix.thy ===== *)
theory Tmux_Prefix
  imports Tmux_Topology Key_Input
begin

text \<open>
  Names of tmux prefix keys and the classification of key bindings into actions that Lector
  performs itself, confirms, or sends to the server (\<^verbatim>\<open>tmux_prefix.rs\<close>).
\<close>

datatype binding_action =
    Execute bytes
  | OpenReview bool
  | Detach
  | Confirm bytes bytes
  | SendPrefix
  | ChooseSession
  | ChooseWindow
  | ChoosePane
  | CommandPrompt
  | SetKeyTable bytes bytes bool

datatype prefix_error = UnsafeCommand

definition valid_key_table :: "bytes \<Rightarrow> bytes option" where
  "valid_key_table table =
     (if table \<noteq> [] \<and> length table \<le> 128 \<and>
         \<not> list_ex (\<lambda>c. is_ascii_control c \<or> c \<in> {CHR 0x5C, CHR '';'', CHR 0x27, CHR 0x22}) table
      then Some table else None)"

definition segment_words :: "bytes \<Rightarrow> bytes list" where
  "segment_words segment =
     filter (\<lambda>w. w \<noteq> [])
       (map (trim_matches (\<lambda>c. c \<in> {CHR 0x27, CHR 0x22})) (split_ascii_whitespace segment))"

text \<open>One word of a \<^verbatim>\<open>switch-client\<close> or \<^verbatim>\<open>set-option\<close> command, with the words that follow it\<close>

definition switch_client_table :: "bytes \<Rightarrow> bytes list \<Rightarrow> bytes option" where
  "switch_client_table word rest =
     Option.bind
       (if word = ''-T'' then (case rest of [] \<Rightarrow> None | w # _ \<Rightarrow> Some w)
        else Option.bind (strip_prefix word ''-T'') (\<lambda>t. if t = [] then None else Some t))
       valid_key_table"

definition set_option_table :: "bytes \<Rightarrow> bytes list \<Rightarrow> bytes option" where
  "set_option_table word rest =
     (if word = ''key-table'' then (case rest of [] \<Rightarrow> None | w # _ \<Rightarrow> valid_key_table w) else None)"

fun scan_words :: "(bytes \<Rightarrow> bytes list \<Rightarrow> bytes option) \<Rightarrow> bool \<Rightarrow> bytes list \<Rightarrow> (bytes \<times> bool) option \<Rightarrow> (bytes \<times> bool) option" where
  "scan_words f persistent [] transition = transition"
| "scan_words f persistent (w # ws) transition =
     scan_words f persistent ws
       (case f w ws of Some table \<Rightarrow> Some (table, persistent) | None \<Rightarrow> transition)"

definition scan_segment :: "bytes \<Rightarrow> (bytes \<times> bool) option \<Rightarrow> (bytes \<times> bool) option" where
  "scan_segment segment transition =
     (case segment_words segment of
        [] \<Rightarrow> transition
      | program # ws \<Rightarrow>
          if program = ''switch-client'' then scan_words switch_client_table False ws transition
          else if program = ''set'' \<or> program = ''set-option'' then scan_words set_option_table True ws transition
          else transition)"

definition configured_key_table :: "bytes \<Rightarrow> (bytes \<times> bool) option" where
  "configured_key_table command =
     fold scan_segment (concat (map (split_on (CHR '';'')) (split_str (CHR 0x5C # '';'') command))) None"

definition classify_binding :: "bytes \<Rightarrow> (binding_action, prefix_error) result" where
  "classify_binding command0 =
     (let command = str_trim command0 in
      if command = [] \<or> list_ex (\<lambda>c. byte_val c \<in> {0, 13, 10}) command then Err UnsafeCommand
      else if command = ''send-prefix'' then Ok SendPrefix
      else if command = ''detach-client'' then Ok Detach
      else if command = ''copy-mode'' then Ok (OpenReview False)
      else if command = ''copy-mode -u'' then Ok (OpenReview True)
      else if starts_with command ''choose-tree '' \<and>
              list_ex (\<lambda>a. CHR ''s'' \<in> set a) (tl (split_ascii_whitespace command)) then Ok ChooseSession
      else if starts_with command ''choose-tree '' \<and>
              list_ex (\<lambda>a. CHR ''w'' \<in> set a) (tl (split_ascii_whitespace command)) then Ok ChooseWindow
      else if command = ''command-prompt'' \<or> starts_with command ''command-prompt '' then Ok CommandPrompt
      else if command = ''display-panes'' \<or> starts_with command ''display-panes '' then Ok ChoosePane
      else if starts_with command ''confirm-before '' \<and> ends_with command ''kill-pane''
      then Ok (Confirm command ''kill-pane'')
      else if starts_with command ''confirm-before '' \<and> ends_with command ''kill-window''
      then Ok (Confirm command ''kill-window'')
      else (case configured_key_table command of
              Some (table, persistent) \<Rightarrow> Ok (SetKeyTable command table persistent)
            | None \<Rightarrow> Ok (Execute command)))"

definition command_may_change_key_configuration :: "bytes \<Rightarrow> bool" where
  "command_may_change_key_configuration command =
     list_ex (\<lambda>w. w \<in> {''source-file'', ''bind'', ''bind-key'', ''unbind'', ''unbind-key'', ''set'', ''set-option''})
       (map (trim_matches (\<lambda>c. c \<in> {CHR 0x27, CHR 0x22, CHR 0x5C, CHR '';''})) (split_ascii_whitespace command))"

datatype select_window_scope = NotApplicable | Resolved bytes | Missing u32

definition scope_select_window_command :: "tmux_topology \<Rightarrow> bytes \<Rightarrow> select_window_scope" where
  "scope_select_window_command topology command =
     (case split_ascii_whitespace command of
        [a, b, raw_target] \<Rightarrow>
          if a \<noteq> ''select-window'' \<or> b \<noteq> ''-t'' then NotApplicable
          else
            (let target = trim_matches (\<lambda>c. c \<in> {CHR 0x27, CHR 0x22}) raw_target;
                 digits = (case strip_prefix target '':='' of Some r \<Rightarrow> r | None \<Rightarrow> target)
             in case parse_uint 32 digits of
                  None \<Rightarrow> NotApplicable
                | Some n \<Rightarrow>
                    (case Option.bind (top_attached_session topology) (btree_get (top_sessions topology)) of
                       None \<Rightarrow> NotApplicable
                     | Some session \<Rightarrow>
                         (case btree_get (ses_windows session) (of_nat n) of
                            Some window_id \<Rightarrow> Resolved (''select-window -t @'' @ show_nat (unat window_id))
                          | None \<Rightarrow> Missing (of_nat n))))
      | _ \<Rightarrow> NotApplicable)"

section \<open>Key names\<close>

definition key_base_name :: "key_code \<Rightarrow> bytes option" where
  "key_base_name code =
     (case code of
        KeyChar ch \<Rightarrow> if ch = 32 then Some ''Space'' else Some (encode_utf8 ch)
      | Backspace \<Rightarrow> Some ''BSpace''
      | Delete \<Rightarrow> Some ''DC''
      | Esc \<Rightarrow> Some ''Escape''
      | Enter \<Rightarrow> Some ''Enter''
      | Tab \<Rightarrow> Some ''Tab''
      | KeyUp \<Rightarrow> Some ''Up''
      | KeyDown \<Rightarrow> Some ''Down''
      | KeyLeft \<Rightarrow> Some ''Left''
      | KeyRight \<Rightarrow> Some ''Right''
      | Home \<Rightarrow> Some ''Home''
      | End \<Rightarrow> Some ''End''
      | PageUp \<Rightarrow> Some ''PPage''
      | PageDown \<Rightarrow> Some ''NPage''
      | Insert \<Rightarrow> Some ''IC''
      | FKey n \<Rightarrow> Some (CHR ''F'' # show_nat n)
      | _ \<Rightarrow> None)"

definition tmux_key_name :: "(key_event \<Rightarrow> key_event) \<Rightarrow> key_event \<Rightarrow> bytes option" where
  "tmux_key_name normalize_case event0 =
     (let event = normalize_case event0; m = ev_modifiers event;
          is_char = (case ev_code event of KeyChar _ \<Rightarrow> True | _ \<Rightarrow> False)
      in map_option (\<lambda>base.
           (if mod_ctrl m then ''C-'' else []) @ (if mod_alt m \<or> mod_meta m then ''M-'' else []) @
           (if mod_super m then ''Super-'' else []) @ (if mod_hyper m then ''Hyper-'' else []) @
           (if \<not> is_char \<and> mod_shift m then ''S-'' else []) @ base)
         (key_base_name (ev_code event)))"

text \<open>The string if it is a single character: a leading byte and as many bytes as it announces\<close>

definition single_char :: "bytes \<Rightarrow> bytes option" where
  "single_char s = (if s \<noteq> [] \<and> length s = utf8_char_len (hd s) then Some s else None)"

definition ctrl_key_byte :: "bytes \<Rightarrow> byte option" where
  "ctrl_key_byte character =
     (case character of
        [c] \<Rightarrow>
          (let l = char_to_ascii_lowercase (byte_val c) in
           if l \<in> {64, 32, 50} then Some (CHR 0x00)
           else if 97 \<le> l \<and> l \<le> 122 then Some (char_of (l - 97 + 1))
           else if l \<in> {91, 51} then Some (CHR 0x1B)
           else if l \<in> {92, 52} then Some (CHR 0x1C)
           else if l \<in> {93, 53} then Some (CHR 0x1D)
           else if l \<in> {94, 54} then Some (CHR 0x1E)
           else if l \<in> {95, 55, 47} then Some (CHR 0x1F)
           else if l \<in> {63, 56} then Some (CHR 0x7F)
           else None)
      | _ \<Rightarrow> None)"

function tmux_key_bytes :: "bytes \<Rightarrow> bytes option" where
  "tmux_key_bytes name =
     (case strip_prefix name ''M-'' of
        Some rest \<Rightarrow> map_option (\<lambda>bs. CHR 0x1B # bs) (tmux_key_bytes rest)
      | None \<Rightarrow>
          (case strip_prefix name ''C-'' of
             Some rest \<Rightarrow>
               map_option (\<lambda>b. [b])
                 (Option.bind (if rest = ''Space'' then Some '' '' else single_char rest) ctrl_key_byte)
           | None \<Rightarrow> if name = ''Space'' then Some '' '' else single_char name))"
  by pat_completeness auto
termination
  by (relation "measure length") (auto simp: strip_prefix_Some)

declare tmux_key_bytes.simps [simp del]

section \<open>Commands that reach the server\<close>

fun sent_command :: "binding_action \<Rightarrow> bytes option" where
  "sent_command (Execute c) = Some c"
| "sent_command (SetKeyTable c _ _) = Some c"
| "sent_command (Confirm _ c) = Some c"
| "sent_command _ = None"

lemma classify_shape:
  assumes "r = (if b0 then Err UnsafeCommand else if b1 then Ok SendPrefix else if b2 then Ok Detach
    else if b3 then Ok (OpenReview False) else if b4 then Ok (OpenReview True) else if b5 then Ok ChooseSession
    else if b6 then Ok ChooseWindow else if b7 then Ok CommandPrompt else if b8 then Ok ChoosePane
    else if s \<and> e1 then Ok (Confirm c k1) else if s \<and> e2 then Ok (Confirm c k2)
    else (case x of Some (t, p) \<Rightarrow> Ok (SetKeyTable c t p) | None \<Rightarrow> Ok (Execute c)))"
  shows "(b0 \<and> r = Err UnsafeCommand) \<or> (\<exists>a. r = Ok a \<and> sent_command a = None) \<or>
    (e1 \<and> r = Ok (Confirm c k1)) \<or> (e2 \<and> r = Ok (Confirm c k2)) \<or>
    (\<not> b0 \<and> \<not> (s \<and> (e1 \<or> e2)) \<and> (\<exists>a. r = Ok a \<and> sent_command a = Some c \<and> (\<forall>x y. a \<noteq> Confirm x y)))"
  using assms by (auto split: if_splits option.splits)

text \<open>
  Classifying a binding is safe for every command string. It is refused exactly when, without
  surrounding white space, it is empty or contains a NUL, carriage return or line feed. A command
  that is sent on is one nonempty line, and it is the trimmed binding itself unless the binding
  asks for confirmation; a confirmed kill of a pane or window is never executed directly.
\<close>

theorem classified_commands_safe:
  "case classify_binding command of
     Err e \<Rightarrow> str_trim command = [] \<or> (\<exists>c \<in> set (str_trim command). byte_val c \<in> {0, 10, 13})
   | Ok action \<Rightarrow>
       (case sent_command action of
          None \<Rightarrow> True
        | Some sent \<Rightarrow>
            sent \<noteq> [] \<and> list_all (\<lambda>c. byte_val c \<notin> {0, 10, 13}) sent \<and>
            (case action of
               Confirm prompt confirmed \<Rightarrow> prompt = str_trim command \<and> ends_with prompt confirmed
             | _ \<Rightarrow> sent = str_trim command \<and>
                 \<not> (starts_with sent ''confirm-before '' \<and> (ends_with sent ''kill-pane'' \<or> ends_with sent ''kill-window''))))"
proof -
  obtain c where c: "c = str_trim command" by blast
  have names: "list_all (\<lambda>c. byte_val c \<notin> {0, 10, 13}) ''kill-pane''" "list_all (\<lambda>c. byte_val c \<notin> {0, 10, 13}) ''kill-window''"
    by (simp_all add: byte_val_def)
  let ?kill = "starts_with c ''confirm-before '' \<and> (ends_with c ''kill-pane'' \<or> ends_with c ''kill-window'')"
  consider "classify_binding command = Err UnsafeCommand" "c = [] \<or> list_ex (\<lambda>c. byte_val c \<in> {0, 13, 10}) c"
    | action where "classify_binding command = Ok action" "sent_command action = None"
    | k where "classify_binding command = Ok (Confirm c k)" "k \<in> {''kill-pane'', ''kill-window''}" "ends_with c k"
    | action where "classify_binding command = Ok action" "sent_command action = Some c" "\<not> ?kill"
        "\<forall>a b. action \<noteq> Confirm a b" "\<not> (c = [] \<or> list_ex (\<lambda>c. byte_val c \<in> {0, 13, 10}) c)"
    using classify_shape [OF classify_binding_def [of command, unfolded Let_def, folded c]] by blast
  then show ?thesis
  proof cases
    case 1
    then show ?thesis by (auto simp: list_ex_iff c)
  next
    case (2 action)
    then show ?thesis by simp
  next
    case (3 k)
    with names show ?thesis by (auto simp: c)
  next
    case (4 action)
    then show ?thesis by (cases action) (auto simp: c list_ex_iff list_all_iff)
  qed
qed

section \<open>Targets stay in the attached session\<close>

lemma select_window_words:
  assumes "list_all (\<lambda>c. \<not> is_ascii_whitespace c) target" and "target \<noteq> []"
  shows "split_ascii_whitespace (''select-window -t '' @ target) = [''select-window'', ''-t'', target]"
proof -
  have same: "map (\<lambda>c. if is_ascii_whitespace c then CHR '' '' else c) s = s" "CHR '' '' \<notin> set s"
    if "list_all (\<lambda>c. \<not> is_ascii_whitespace c) s" for s
    using that by (induction s) (auto simp: is_ascii_whitespace_def byte_val_def)
  have "list_all (\<lambda>c. \<not> is_ascii_whitespace c) ''select-window''" "list_all (\<lambda>c. \<not> is_ascii_whitespace c) ''-t''"
    and sp: "is_ascii_whitespace (CHR '' '')"
    by (simp_all add: is_ascii_whitespace_def byte_val_def)
  note words = same [OF this(1)] same [OF this(2)] same [OF assms(1)]
  have e: "''select-window -t '' @ target = ''select-window'' @ CHR '' '' # ''-t'' @ CHR '' '' # target" by simp
  have m: "map (\<lambda>c. if is_ascii_whitespace c then CHR '' '' else c) (''select-window -t '' @ target) = ''select-window -t '' @ target"
    by (simp add: words(5)) (simp add: is_ascii_whitespace_def byte_val_def)
  show ?thesis
    unfolding split_ascii_whitespace_def m
    using assms(2) unfolding e
    by (simp only: split_on_append_sep [OF words(2)] split_on_append_sep [OF words(4)] split_on_no_sep [OF words(6)]) simp
qed

lemma select_window_scope:
  assumes "p \<in> {[], '':=''}"
  shows "scope_select_window_command t (''select-window -t '' @ p @ show_nat (unat (idx :: u32))) =
    (case Option.bind (top_attached_session t) (btree_get (top_sessions t)) of
       None \<Rightarrow> NotApplicable
     | Some session \<Rightarrow>
         (case btree_get (ses_windows session) idx of
            Some window_id \<Rightarrow> Resolved (''select-window -t @'' @ show_nat (unat window_id))
          | None \<Rightarrow> Missing idx))"
proof -
  let ?d = "show_nat (unat idx)"
  obtain c r where d: "?d = c # r" by (cases ?d) auto
  have digits: "is_ascii_digit x" if "x \<in> set ?d" for x using show_nat_set that by blast
  then have c: "is_ascii_digit c" and l: "is_ascii_digit (last ?d)" using d by auto
  have nq: "x \<notin> {CHR 0x27, CHR 0x22}" "\<not> is_ascii_whitespace x" "x \<noteq> CHR '':''" if "is_ascii_digit x" for x
    using that by (auto simp: is_ascii_digit_def is_ascii_whitespace_def byte_val_def)
  have "list_all (\<lambda>c. \<not> is_ascii_whitespace c) (p @ ?d)" "p @ ?d \<noteq> []"
    using assms digits nq(2) by (auto simp: list_all_iff is_ascii_whitespace_def byte_val_def)
  note words = select_window_words [OF this]
  obtain y ys where y: "rev ?d = y # ys" by (cases "rev ?d") (use d in auto)
  then have "y \<in> set ?d" by (metis list.set_intros(1) set_rev)
  note rd = y digits [OF this]
  have trim: "trim_matches (\<lambda>c. c \<in> {CHR 0x27, CHR 0x22}) (p @ ?d) = p @ ?d"
  proof -
    have "dropWhile (\<lambda>c. c \<in> {CHR 0x27, CHR 0x22}) (p @ ?d) = p @ ?d" using assms d nq(1) [OF c] by auto
    moreover have "dropWhile (\<lambda>c. c \<in> {CHR 0x27, CHR 0x22}) (rev (p @ ?d)) = rev (p @ ?d)" using rd nq(1) [OF rd(2)] by simp
    ultimately show ?thesis by (simp add: trim_matches_def del: rev_append)
  qed
  have strip: "(case strip_prefix (p @ ?d) '':='' of Some r \<Rightarrow> r | None \<Rightarrow> p @ ?d) = ?d"
    using assms d nq(3) [OF c] by (auto simp: strip_prefix_def starts_with_def)
  have "parse_uint 32 ?d = Some (unat idx)"
    using unsigned_less [of idx, where ?'a = nat] by (intro parse_uint_show_nat) simp
  then show ?thesis unfolding scope_select_window_command_def words Let_def list.case trim strip by (simp split: option.splits)
qed

text \<open>
  C29: A numeric \<^verbatim>\<open>select-window\<close> binding is resolved in the attached session of the mirrored
  topology and nowhere else. In every reachable topology: the scoped command names a window that
  exists and that the attached session shows under exactly this index; an index is reported as
  missing exactly when the attached session has no such window; and only without an attached
  session is the binding left alone.
\<close>

theorem select_window_resolved:
  assumes "topology_reachable t" and "p \<in> {[], '':=''}"
  shows "case scope_select_window_command t (''select-window -t '' @ p @ show_nat (unat (idx :: u32))) of
      NotApplicable \<Rightarrow> top_attached_session t = None
    | Missing i \<Rightarrow> i = idx \<and> (\<exists>sid. top_attached_session t = Some sid \<and> (\<forall>wid. \<not> shows_window (sessions_of t) sid idx wid))
    | Resolved scoped \<Rightarrow>
        (\<exists>sid wid w. top_attached_session t = Some sid \<and> shows_window (sessions_of t) sid idx wid \<and>
           windows_of t wid = Some w \<and> \<lparr>wl_session_id = sid, wl_index = idx\<rparr> \<in> win_links w \<and>
           scoped = ''select-window -t @'' @ show_nat (unat (win_id w)))"
proof (cases "top_attached_session t")
  case None
  then show ?thesis unfolding select_window_scope [OF assms(2)] by simp
next
  case (Some sid)
  note ok = topology_okD [OF reachable_ok [OF assms(1)]]
  obtain s where s: "sessions_of t sid = Some s" using ok(5) Some by blast
  show ?thesis
  proof (cases "btree_get (ses_windows s) idx")
    case None
    with Some s show ?thesis unfolding select_window_scope [OF assms(2)] by (simp add: shows_window_def)
  next
    case idx: (Some wid)
    then have sh: "shows_window (sessions_of t) sid idx wid" using s by (simp add: shows_window_def)
    then obtain w where w: "windows_of t wid = Some w" "\<lparr>wl_session_id = sid, wl_index = idx\<rparr> \<in> win_links w"
      using ok(4) by (auto simp: refs_ok_def has_link_def)
    have "win_id w = wid" using refs_okD(2) [OF ok(4) w(1)] .
    with Some s idx sh w show ?thesis unfolding select_window_scope [OF assms(2)] by (auto intro!: exI [of _ wid])
  qed
qed

theorem select_window_resolved_witness:
  "case scope_select_window_command (topology_new 7) (''select-window -t '' @ '':='' @ show_nat (unat (3 :: u32))) of
      NotApplicable \<Rightarrow> top_attached_session (topology_new 7) = None
    | Missing i \<Rightarrow> i = 3 \<and> (\<exists>sid. top_attached_session (topology_new 7) = Some sid \<and>
        (\<forall>wid. \<not> shows_window (sessions_of (topology_new 7)) sid 3 wid))
    | Resolved scoped \<Rightarrow>
        (\<exists>sid wid w. top_attached_session (topology_new 7) = Some sid \<and> shows_window (sessions_of (topology_new 7)) sid 3 wid \<and>
           windows_of (topology_new 7) wid = Some w \<and> \<lparr>wl_session_id = sid, wl_index = 3\<rparr> \<in> win_links w \<and>
           scoped = ''select-window -t @'' @ show_nat (unat (win_id w)))"
  by (rule select_window_resolved [OF reach_new]) simp

section \<open>Control keys\<close>

lemma ctrl_key_byte_eq: "ctrl_key_byte [c] = legacy_control_code (byte_val c)"
  by (simp add: ctrl_key_byte_def legacy_control_code_def Let_def)

lemma single_char_ascii: "is_ascii c \<Longrightarrow> single_char (c # r) = (if r = [] then Some [c] else None)"
  by (auto simp: single_char_def utf8_char_len_def is_ascii_def)

lemma ctrl_name_bytes:
  "tmux_key_bytes (''C-'' @ rest) =
     map_option (\<lambda>b. [b]) (Option.bind (if rest = ''Space'' then Some '' '' else single_char rest) ctrl_key_byte)"
  by (subst tmux_key_bytes.simps) (simp add: strip_prefix_def starts_with_def)

text \<open>
  The two places that turn a control key into a byte agree: naming a Control character key
  the way tmux does and reading the name back gives exactly the control byte that the key itself
  denotes, and nothing when the key has none, for every ASCII character and every combination of
  further modifiers.
\<close>

theorem control_keys_agree:
  assumes "ev_code (normalize_case (ki_event k)) = KeyChar ch" and "ch < 128"
    and "mod_ctrl (ev_modifiers (normalize_case (ki_event k)))"
  shows "Option.bind (tmux_key_name normalize_case (ki_event k)) tmux_key_bytes =
    map_option (\<lambda>b. [b]) (control_code normalize_case k)"
proof -
  define m where "m = ev_modifiers (normalize_case (ki_event k))"
  define base where "base = (if ch = 32 then ''Space'' else [char_of ch])"
  define middle where "middle = (if mod_alt m \<or> mod_meta m then ''M-'' else []) @
      (if mod_super m then ''Super-'' else []) @ (if mod_hyper m then ''Hyper-'' else [])"
  have name: "tmux_key_name normalize_case (ki_event k) = Some (''C-'' @ middle @ base)"
    using assms by (simp add: tmux_key_name_def key_base_name_def base_def middle_def m_def encode_utf8_def Let_def)
  have base: "base \<noteq> []" by (simp add: base_def)
  have c: "is_ascii (char_of ch)" "byte_val (char_of ch) = ch" using assms(2) by (simp_all add: is_ascii_def)
  show ?thesis
  proof (cases "middle = []")
    case True
    then have "control_code normalize_case k = legacy_control_code ch"
      using assms by (auto simp: control_code_def normalized_event_def middle_def m_def Let_def split: if_splits)
    moreover have "Option.bind (if base = ''Space'' then Some '' '' else single_char base) ctrl_key_byte = legacy_control_code ch"
      using c by (cases "ch = 32") (simp_all add: base_def ctrl_key_byte_eq single_char_ascii byte_val_def)
    ultimately show ?thesis using True name by (simp only: Option.bind.bind_lunit ctrl_name_bytes append_Nil)
  next
    case False
    then have "control_code normalize_case k = None"
      using assms by (auto simp: control_code_def normalized_event_def middle_def m_def Let_def split: if_splits)
    moreover have "single_char (middle @ base) = None" "middle @ base \<noteq> ''Space''"
      using False base by (auto simp: middle_def single_char_def utf8_char_len_def byte_val_def)
    ultimately show ?thesis unfolding name Option.bind.bind_lunit ctrl_name_bytes by simp
  qed
qed

theorem control_keys_agree_witness:
  "Option.bind (tmux_key_name (\<lambda>e. e) (ki_event (key_input_new
      \<lparr>ev_code = KeyChar 100, ev_modifiers = no_modifiers\<lparr>mod_ctrl := True\<rparr>, ev_kind = KeyPress, ev_keypad = False\<rparr> [CHR 0x04])))
     tmux_key_bytes = Some [CHR 0x04]"
  by (subst control_keys_agree [where normalize_case = "\<lambda>e. e" and ch = 100 and k = "key_input_new
      \<lparr>ev_code = KeyChar 100, ev_modifiers = no_modifiers\<lparr>mod_ctrl := True\<rparr>, ev_kind = KeyPress, ev_keypad = False\<rparr> [CHR 0x04]"])
    (simp_all add: key_input_new_def control_code_def normalized_event_def no_modifiers_def legacy_control_code_def
      char_to_ascii_lowercase_def Let_def, simp_all add: char_of_def bit_0)

end
