(* ===== verification/Line_Editor.thy ===== *)
theory Line_Editor
  imports Key_Input
begin

text \<open>
  The line editor of Lector's prompts (\<^verbatim>\<open>line_editor.rs\<close>). Two things are parameters of the
  model: \<open>gr\<close>, the grapheme segmentation of the \<^verbatim>\<open>unicode-segmentation\<close> crate, and \<open>alnum\<close>, the
  Unicode table behind \<^verbatim>\<open>char::is_alphanumeric\<close>, on the UTF-8 bytes of a character. The cursor
  counts graphemes.
\<close>

section \<open>State\<close>

datatype input_state = StNormal | StEsc | StCsi | StSs3
datatype editor_action = ActNone | Changed | Submit | Bell

record line_editor =
  ed_input :: bytes
  ed_cursor :: nat
  ed_state :: input_state
  ed_csi_buf :: bytes
  ed_history :: "bytes list"
  ed_history_index :: "nat option"
  ed_history_draft :: bytes

type_synonym segmentation = "bytes \<Rightarrow> bytes list"

definition editor_new :: line_editor where
  "editor_new = \<lparr>ed_input = [], ed_cursor = 0, ed_state = StNormal, ed_csi_buf = [], ed_history = [],
     ed_history_index = None, ed_history_draft = []\<rparr>"

definition editor_clear :: "line_editor \<Rightarrow> line_editor" where
  "editor_clear e = e\<lparr>ed_input := [], ed_cursor := 0, ed_history_index := None, ed_history_draft := []\<rparr>"

definition commit_history_entry :: "bytes \<Rightarrow> line_editor \<Rightarrow> line_editor" where
  "commit_history_entry line e =
     (let ignored = str_trim line = [] \<or> starts_with line '' '' \<or>
                    (ed_history e \<noteq> [] \<and> last (ed_history e) = line)
      in e\<lparr>ed_history := (if ignored then ed_history e else ed_history e @ [line]),
           ed_history_index := None, ed_history_draft := []\<rparr>)"

definition commit_history :: "line_editor \<Rightarrow> line_editor" where
  "commit_history e = commit_history_entry (ed_input e) e"

definition set_history :: "bytes list \<Rightarrow> line_editor \<Rightarrow> line_editor" where
  "set_history history e = e\<lparr>ed_history := history, ed_history_index := None, ed_history_draft := []\<rparr>"

section \<open>Cursor and text\<close>

definition len_graphemes :: "segmentation \<Rightarrow> line_editor \<Rightarrow> nat" where
  "len_graphemes gr e = length (gr (ed_input e))"

text \<open>The byte offset at which a grapheme starts, or the length of the input\<close>

definition byte_index :: "segmentation \<Rightarrow> nat \<Rightarrow> bytes \<Rightarrow> nat" where
  "byte_index gr i s = (if i < length (gr s) then length (concat (take i (gr s))) else length s)"

definition is_word_grapheme :: "(bytes \<Rightarrow> bool) \<Rightarrow> bytes \<Rightarrow> bool" where
  "is_word_grapheme alnum g \<longleftrightarrow>
     g \<noteq> [] \<and> (let ch = take (utf8_char_len (hd g)) g in alnum ch \<or> ch = ''_'')"

definition move_left :: "line_editor \<Rightarrow> line_editor" where
  "move_left e = (if 0 < ed_cursor e then e\<lparr>ed_cursor := ed_cursor e - 1\<rparr> else e)"

definition move_right :: "segmentation \<Rightarrow> line_editor \<Rightarrow> line_editor" where
  "move_right gr e = (if ed_cursor e < len_graphemes gr e then e\<lparr>ed_cursor := ed_cursor e + 1\<rparr> else e)"

text \<open>The cursor after an insertion: count graphemes until one ends at or after the inserted text\<close>

fun cursor_after :: "nat \<Rightarrow> nat \<Rightarrow> nat \<Rightarrow> bytes list \<Rightarrow> nat" where
  "cursor_after inserted_end start cursor [] = cursor"
| "cursor_after inserted_end start cursor (g # gs) =
     (if inserted_end \<le> start + length g then cursor + 1
      else cursor_after inserted_end (start + length g) (cursor + 1) gs)"

definition insert_str :: "segmentation \<Rightarrow> bytes \<Rightarrow> line_editor \<Rightarrow> line_editor" where
  "insert_str gr s e =
     (let i = byte_index gr (ed_cursor e) (ed_input e);
          input = take i (ed_input e) @ s @ drop i (ed_input e)
      in e\<lparr>ed_input := input, ed_cursor := cursor_after (i + length s) 0 0 (gr input)\<rparr>)"

text \<open>\<^verbatim>\<open>replace_range(start..end, "")\<close>\<close>

definition erase_range :: "nat \<Rightarrow> nat \<Rightarrow> bytes \<Rightarrow> bytes" where
  "erase_range i j s = take i s @ drop j s"

definition backspace :: "segmentation \<Rightarrow> line_editor \<Rightarrow> line_editor" where
  "backspace gr e =
     (if ed_cursor e = 0 then e
      else e\<lparr>ed_input := erase_range (byte_index gr (ed_cursor e - 1) (ed_input e))
                           (byte_index gr (ed_cursor e) (ed_input e)) (ed_input e),
             ed_cursor := ed_cursor e - 1\<rparr>)"

definition delete :: "segmentation \<Rightarrow> line_editor \<Rightarrow> bool \<times> line_editor" where
  "delete gr e =
     (if len_graphemes gr e \<le> ed_cursor e then (False, e)
      else (True, e\<lparr>ed_input := erase_range (byte_index gr (ed_cursor e) (ed_input e))
                                  (byte_index gr (ed_cursor e + 1) (ed_input e)) (ed_input e)\<rparr>))"

text \<open>The two loops of the word motions, leftwards and rightwards, over the graphemes\<close>

fun scan_left :: "(bytes \<Rightarrow> bool) \<Rightarrow> bytes list \<Rightarrow> nat \<Rightarrow> nat" where
  "scan_left P gs 0 = 0"
| "scan_left P gs (Suc i) = (if P (gs ! i) then scan_left P gs i else Suc i)"

function scan_right :: "(bytes \<Rightarrow> bool) \<Rightarrow> bytes list \<Rightarrow> nat \<Rightarrow> nat" where
  "scan_right P gs i = (if i < length gs \<and> P (gs ! i) then scan_right P gs (Suc i) else i)"
  by pat_completeness auto
termination
  by (relation "measure (\<lambda>(P, gs, i). length gs - i)") auto

declare scan_right.simps [simp del]

definition move_word_left :: "segmentation \<Rightarrow> (bytes \<Rightarrow> bool) \<Rightarrow> line_editor \<Rightarrow> line_editor" where
  "move_word_left gr alnum e =
     (if ed_cursor e = 0 then e
      else
        (let gs = gr (ed_input e);
             i = scan_left (\<lambda>g. \<not> is_word_grapheme alnum g) gs (min (ed_cursor e) (length gs))
         in e\<lparr>ed_cursor := scan_left (is_word_grapheme alnum) gs i\<rparr>))"

definition move_word_right :: "segmentation \<Rightarrow> (bytes \<Rightarrow> bool) \<Rightarrow> line_editor \<Rightarrow> line_editor" where
  "move_word_right gr alnum e =
     (let gs = gr (ed_input e) in
      if length gs \<le> ed_cursor e then e
      else
        (let i = scan_right (\<lambda>g. \<not> is_word_grapheme alnum g) gs (ed_cursor e)
         in e\<lparr>ed_cursor := scan_right (is_word_grapheme alnum) gs i\<rparr>))"

definition erase_word_left :: "segmentation \<Rightarrow> (bytes \<Rightarrow> bool) \<Rightarrow> line_editor \<Rightarrow> bool \<times> line_editor" where
  "erase_word_left gr alnum e =
     (if ed_cursor e = 0 then (False, e)
      else
        (let moved = move_word_left gr alnum e in
         if ed_cursor moved = ed_cursor e then (False, moved)
         else (True, moved\<lparr>ed_input := erase_range (byte_index gr (ed_cursor moved) (ed_input e))
                             (byte_index gr (ed_cursor e) (ed_input e)) (ed_input e)\<rparr>)))"

section \<open>History\<close>

definition show_history :: "segmentation \<Rightarrow> nat \<Rightarrow> line_editor \<Rightarrow> line_editor" where
  "show_history gr i e =
     e\<lparr>ed_history_index := Some i, ed_input := ed_history e ! i, ed_cursor := length (gr (ed_history e ! i))\<rparr>"

definition history_up :: "segmentation \<Rightarrow> line_editor \<Rightarrow> bool \<times> line_editor" where
  "history_up gr e =
     (if ed_history e = [] then (False, e)
      else (case ed_history_index e of
              Some i \<Rightarrow> (True, show_history gr (i - 1) e)
            | None \<Rightarrow> (True, show_history gr (length (ed_history e) - 1) (e\<lparr>ed_history_draft := ed_input e\<rparr>))))"

definition history_down :: "segmentation \<Rightarrow> line_editor \<Rightarrow> bool \<times> line_editor" where
  "history_down gr e =
     (case ed_history_index e of
        None \<Rightarrow> (False, e)
      | Some i \<Rightarrow>
          if length (ed_history e) \<le> i + 1
          then (True, e\<lparr>ed_history_index := None, ed_input := ed_history_draft e,
                        ed_cursor := length (gr (ed_history_draft e))\<rparr>)
          else (True, show_history gr (i + 1) e))"

definition changed_or_bell :: "bool \<times> line_editor \<Rightarrow> editor_action \<times> line_editor" where
  "changed_or_bell r = (if fst r then Changed else Bell, snd r)"

definition handle_history_up :: "segmentation \<Rightarrow> line_editor \<Rightarrow> editor_action \<times> line_editor" where
  "handle_history_up gr e = changed_or_bell (history_up gr e)"

definition handle_history_down :: "segmentation \<Rightarrow> line_editor \<Rightarrow> editor_action \<times> line_editor" where
  "handle_history_down gr e = changed_or_bell (history_down gr e)"

section \<open>Bytes\<close>

definition handle_backspace :: "segmentation \<Rightarrow> line_editor \<Rightarrow> editor_action \<times> line_editor" where
  "handle_backspace gr e =
     (if ed_cursor e = 0 \<and> ed_input e = [] then (Bell, e)
      else if ed_cursor e = 0 then (ActNone, e)
      else (Changed, backspace gr e))"

definition handle_byte :: "segmentation \<Rightarrow> (bytes \<Rightarrow> bool) \<Rightarrow> byte \<Rightarrow> line_editor \<Rightarrow> editor_action \<times> line_editor" where
  "handle_byte gr alnum b e =
     (if b = CHR 0x1B then (ActNone, e\<lparr>ed_state := StEsc\<rparr>)
      else if b = CHR 0x01 then (Changed, e\<lparr>ed_cursor := 0\<rparr>)
      else if b = CHR 0x05 then (Changed, e\<lparr>ed_cursor := len_graphemes gr e\<rparr>)
      else if b = CHR 0x10 then handle_history_up gr e
      else if b = CHR 0x0E then handle_history_down gr e
      else if b = CHR 0x17 then changed_or_bell (erase_word_left gr alnum e)
      else if b = CHR 0x0D \<or> b = CHR 0x0A then (Submit, e)
      else if b = CHR 0x7F \<or> b = CHR 0x08 then handle_backspace gr e
      else if is_ascii b \<and> \<not> is_ascii_control b then (Changed, insert_str gr [b] e)
      else (ActNone, e))"

definition handle_esc :: "segmentation \<Rightarrow> (bytes \<Rightarrow> bool) \<Rightarrow> byte \<Rightarrow> line_editor \<Rightarrow> editor_action \<times> line_editor" where
  "handle_esc gr alnum b e =
     (if b = CHR ''['' then (ActNone, e\<lparr>ed_state := StCsi, ed_csi_buf := []\<rparr>)
      else if b = CHR ''O'' then (ActNone, e\<lparr>ed_state := StSs3\<rparr>)
      else if b = CHR ''b'' then (Changed, (move_word_left gr alnum e)\<lparr>ed_state := StNormal\<rparr>)
      else if b = CHR ''f'' then (Changed, (move_word_right gr alnum e)\<lparr>ed_state := StNormal\<rparr>)
      else if b = CHR 0x7F \<or> b = CHR 0x08
      then (case changed_or_bell (erase_word_left gr alnum e) of (a, e') \<Rightarrow> (a, e'\<lparr>ed_state := StNormal\<rparr>))
      else (ActNone, e\<lparr>ed_state := StNormal\<rparr>))"

text \<open>\<^verbatim>\<open>u16\<close> arithmetic that saturates\<close>

fun parse_csi_loop :: "bytes \<Rightarrow> nat \<Rightarrow> bool \<Rightarrow> nat \<times> bool" where
  "parse_csi_loop [] v saw = (v, saw)"
| "parse_csi_loop (b # bs) v saw =
     (if is_ascii_digit b
      then parse_csi_loop bs (min (min (v * 10) 65535 + digit_val b) 65535) True
      else if b = CHR '';'' then (v, saw)
      else parse_csi_loop bs v saw)"

definition parse_csi_param :: "line_editor \<Rightarrow> nat option" where
  "parse_csi_param e = (case parse_csi_loop (ed_csi_buf e) 0 False of (v, saw) \<Rightarrow> if saw then Some v else None)"

definition handle_csi_tilde :: "segmentation \<Rightarrow> line_editor \<Rightarrow> bool \<times> line_editor" where
  "handle_csi_tilde gr e =
     (let p = parse_csi_param e in
      if p = Some 1 \<or> p = Some 7 then (True, e\<lparr>ed_cursor := 0\<rparr>)
      else if p = Some 4 \<or> p = Some 8 then (True, e\<lparr>ed_cursor := len_graphemes gr e\<rparr>)
      else if p = Some 3 then delete gr e
      else (False, e))"

text \<open>The cursor keys that the CSI and SS3 forms share\<close>

definition cursor_key :: "segmentation \<Rightarrow> byte \<Rightarrow> line_editor \<Rightarrow> (editor_action \<times> line_editor) option" where
  "cursor_key gr b e =
     (if b = CHR ''D'' then Some (Changed, move_left e)
      else if b = CHR ''C'' then Some (Changed, move_right gr e)
      else if b = CHR ''A'' then Some (handle_history_up gr e)
      else if b = CHR ''B'' then Some (handle_history_down gr e)
      else if b = CHR ''H'' then Some (Changed, e\<lparr>ed_cursor := 0\<rparr>)
      else if b = CHR ''F'' then Some (Changed, e\<lparr>ed_cursor := len_graphemes gr e\<rparr>)
      else None)"

definition handle_csi :: "segmentation \<Rightarrow> byte \<Rightarrow> line_editor \<Rightarrow> editor_action \<times> line_editor" where
  "handle_csi gr b e =
     (let e = e\<lparr>ed_csi_buf := ed_csi_buf e @ [b]\<rparr> in
      if \<not> (0x40 \<le> byte_val b \<and> byte_val b \<le> 0x7E) then (ActNone, e)
      else
        (let e = e\<lparr>ed_state := StNormal\<rparr>;
             r = (case cursor_key gr b e of
                    Some r \<Rightarrow> r
                  | None \<Rightarrow>
                      if b = CHR ''~''
                      then (case handle_csi_tilde gr e of (changed, e') \<Rightarrow> (if changed then Changed else ActNone, e'))
                      else (ActNone, e))
         in (fst r, (snd r)\<lparr>ed_csi_buf := []\<rparr>)))"

definition handle_ss3 :: "segmentation \<Rightarrow> byte \<Rightarrow> line_editor \<Rightarrow> editor_action \<times> line_editor" where
  "handle_ss3 gr b e =
     (let e = e\<lparr>ed_state := StNormal\<rparr> in
      case cursor_key gr b e of Some r \<Rightarrow> r | None \<Rightarrow> (ActNone, e))"

definition editor_step :: "segmentation \<Rightarrow> (bytes \<Rightarrow> bool) \<Rightarrow> byte \<Rightarrow> line_editor \<Rightarrow> editor_action \<times> line_editor" where
  "editor_step gr alnum b e =
     (case ed_state e of
        StNormal \<Rightarrow> handle_byte gr alnum b e
      | StEsc \<Rightarrow> handle_esc gr alnum b e
      | StCsi \<Rightarrow> handle_csi gr b e
      | StSs3 \<Rightarrow> handle_ss3 gr b e)"

fun handle_bytes_from ::
  "segmentation \<Rightarrow> (bytes \<Rightarrow> bool) \<Rightarrow> editor_action \<Rightarrow> bytes \<Rightarrow> line_editor \<Rightarrow> editor_action \<times> line_editor" where
  "handle_bytes_from gr alnum action [] e = (action, e)"
| "handle_bytes_from gr alnum action (b # bs) e =
     (case editor_step gr alnum b e of
        (a, e') \<Rightarrow> if a = Submit then (a, e') else handle_bytes_from gr alnum a bs e')"

definition handle_bytes :: "segmentation \<Rightarrow> (bytes \<Rightarrow> bool) \<Rightarrow> bytes \<Rightarrow> line_editor \<Rightarrow> editor_action \<times> line_editor" where
  "handle_bytes gr alnum bs e = handle_bytes_from gr alnum ActNone bs e"

section \<open>Keys\<close>

definition handle_text :: "segmentation \<Rightarrow> bytes \<Rightarrow> line_editor \<Rightarrow> editor_action \<times> line_editor" where
  "handle_text gr s e = (if s = [] then (ActNone, e) else (Changed, insert_str gr s e))"

definition handle_key_input ::
  "segmentation \<Rightarrow> (bytes \<Rightarrow> bool) \<Rightarrow> (key_event \<Rightarrow> key_event) \<Rightarrow> key_input \<Rightarrow> line_editor \<Rightarrow> editor_action \<times> line_editor" where
  "handle_key_input gr alnum normalize_case k e =
     (if is_release k then (ActNone, e)
      else case key_text normalize_case k of
        Some text \<Rightarrow> handle_text gr text e
      | None \<Rightarrow>
      (case control_code normalize_case k of
        Some control \<Rightarrow> handle_byte gr alnum control e
      | None \<Rightarrow>
          (let event = normalized_event normalize_case k; m = ev_modifiers event;
               word_modifier = (mod_ctrl m \<or> mod_alt m \<or> mod_meta m)
           in case ev_code event of
                Enter \<Rightarrow> (Submit, e)
              | Backspace \<Rightarrow>
                  if word_modifier then changed_or_bell (erase_word_left gr alnum e) else handle_backspace gr e
              | Delete \<Rightarrow> changed_or_bell (delete gr e)
              | KeyLeft \<Rightarrow> (Changed, if word_modifier then move_word_left gr alnum e else move_left e)
              | KeyRight \<Rightarrow> (Changed, if word_modifier then move_word_right gr alnum e else move_right gr e)
              | KeyUp \<Rightarrow> handle_history_up gr e
              | KeyDown \<Rightarrow> handle_history_down gr e
              | Home \<Rightarrow> (Changed, e\<lparr>ed_cursor := 0\<rparr>)
              | End \<Rightarrow> (Changed, e\<lparr>ed_cursor := len_graphemes gr e\<rparr>)
              | KeyChar ch \<Rightarrow>
                  if mod_alt m \<or> mod_meta m
                  then (if char_to_ascii_lowercase ch = 98 then (Changed, move_word_left gr alnum e)
                        else if char_to_ascii_lowercase ch = 102 then (Changed, move_word_right gr alnum e)
                        else (ActNone, e))
                  else (ActNone, e)
              | _ \<Rightarrow> (ActNone, e))))"

section \<open>Editing refines two halves of a line\<close>

definition printable :: "byte \<Rightarrow> bool" where
  "printable c \<longleftrightarrow> is_ascii c \<and> \<not> is_ascii_control c"

text \<open>What the segmentation crate documents for ASCII: each printable character is a grapheme.\<close>

definition segments_ascii :: "segmentation \<Rightarrow> bool" where
  "segments_ascii gr \<longleftrightarrow> (\<forall>s. list_all printable s \<longrightarrow> gr s = map (\<lambda>c. [c]) s)"

datatype edit_op = TypeChar byte | GoLeft | GoRight | GoHome | GoEnd | Rubout | EraseNext | WordLeft | WordRight | EraseWord

fun op_ok :: "edit_op \<Rightarrow> bool" where
  "op_ok (TypeChar c) = printable c"
| "op_ok _ = True"

fun op_bytes :: "edit_op \<Rightarrow> bytes" where
  "op_bytes (TypeChar c) = [c]"
| "op_bytes GoLeft = CHR 0x1B # ''[D''"
| "op_bytes GoRight = CHR 0x1B # ''[C''"
| "op_bytes GoHome = [CHR 0x01]"
| "op_bytes GoEnd = [CHR 0x05]"
| "op_bytes Rubout = [CHR 0x7F]"
| "op_bytes EraseNext = CHR 0x1B # ''[3~''"
| "op_bytes WordLeft = CHR 0x1B # ''b''"
| "op_bytes WordRight = CHR 0x1B # ''f''"
| "op_bytes EraseWord = [CHR 0x17]"

text \<open>The line as the text before and after the cursor\<close>

type_synonym halves = "bytes \<times> bytes"

definition before_word :: "(byte \<Rightarrow> bool) \<Rightarrow> bytes \<Rightarrow> bytes" where
  "before_word w l = rev (dropWhile w (dropWhile (\<lambda>c. \<not> w c) (rev l)))"

definition through_word :: "(byte \<Rightarrow> bool) \<Rightarrow> bytes \<Rightarrow> bytes" where
  "through_word w r = takeWhile (\<lambda>c. \<not> w c) r @ takeWhile w (dropWhile (\<lambda>c. \<not> w c) r)"

fun edit :: "(byte \<Rightarrow> bool) \<Rightarrow> edit_op \<Rightarrow> halves \<Rightarrow> halves" where
  "edit w (TypeChar c) (l, r) = (l @ [c], r)"
| "edit w GoLeft (l, r) = (butlast l, (if l = [] then r else last l # r))"
| "edit w GoRight (l, r) = (case r of [] \<Rightarrow> (l, r) | c # r' \<Rightarrow> (l @ [c], r'))"
| "edit w GoHome (l, r) = ([], l @ r)"
| "edit w GoEnd (l, r) = (l @ r, [])"
| "edit w Rubout (l, r) = (butlast l, r)"
| "edit w EraseNext (l, r) = (l, tl r)"
| "edit w WordLeft (l, r) = (before_word w l, drop (length (before_word w l)) l @ r)"
| "edit w WordRight (l, r) = (l @ through_word w r, drop (length (through_word w r)) r)"
| "edit w EraseWord (l, r) = (before_word w l, r)"

definition editor_shows :: "line_editor \<Rightarrow> halves \<Rightarrow> bool" where
  "editor_shows e h \<longleftrightarrow>
     (case h of (l, r) \<Rightarrow> ed_input e = l @ r \<and> ed_cursor e = length l \<and> ed_state e = StNormal \<and> list_all printable (l @ r))"

subsection \<open>Offsets in ASCII text\<close>

lemma gr_ascii: "segments_ascii gr \<Longrightarrow> list_all printable s \<Longrightarrow> gr s = map (\<lambda>c. [c]) s"
  by (simp add: segments_ascii_def)

lemma concat_singletons: "concat (map (\<lambda>c. [c]) s) = s"
  by (induction s) simp_all

lemma byte_index_ascii:
  assumes "segments_ascii gr" and "list_all printable s" and "i \<le> length s"
  shows "byte_index gr i s = i"
  using assms by (simp add: byte_index_def gr_ascii take_map concat_singletons)

lemma cursor_after_ascii:
  "start < inserted_end \<Longrightarrow> inserted_end \<le> start + length s \<Longrightarrow>
     cursor_after inserted_end start n (map (\<lambda>c. [c]) s) = n + (inserted_end - start)"
  by (induction s arbitrary: start n) auto

lemma scan_left_ascii:
  "i \<le> length s \<Longrightarrow> scan_left P (map (\<lambda>c. [c]) s) i = length (dropWhile (\<lambda>c. P [c]) (rev (take i s)))"
  by (induction i) (simp_all add: take_Suc_conv_app_nth)

lemma scan_right_ascii:
  "i \<le> length s \<Longrightarrow> scan_right P (map (\<lambda>c. [c]) s) i = i + length (takeWhile (\<lambda>c. P [c]) (drop i s))"
proof (induction "length s - i" arbitrary: i)
  case 0
  then show ?case by (subst scan_right.simps) simp
next
  case (Suc n)
  then have i: "i < length s" by simp
  then have d: "drop i s = s ! i # drop (Suc i) s" by (simp add: Cons_nth_drop_Suc)
  from Suc have "n = length s - Suc i" by simp
  from Suc.hyps(1) [OF this] i show ?case by (subst scan_right.simps) (simp add: d)
qed

lemma rev_dropWhile_prefix: "rev (dropWhile P (rev l)) = take (length (dropWhile P (rev l))) l"
proof -
  have "rev l = takeWhile P (rev l) @ dropWhile P (rev l)" by simp
  then have "l = rev (dropWhile P (rev l)) @ rev (takeWhile P (rev l))" by (metis rev_append rev_rev_ident)
  then show ?thesis by (metis append_eq_conv_conj length_rev)
qed

lemma before_word_prefix:
  "before_word w l = take (length (before_word w l)) l" "length (before_word w l) \<le> length l"
proof -
  let ?m = "rev (dropWhile (\<lambda>c. \<not> w c) (rev l))"
  have m: "?m = take (length ?m) l" unfolding length_rev by (rule rev_dropWhile_prefix)
  have b: "before_word w l = take (length (before_word w l)) ?m"
    using rev_dropWhile_prefix [of w ?m] unfolding before_word_def length_rev rev_rev_ident .
  show "length (before_word w l) \<le> length l"
    using length_dropWhile_le [of w "dropWhile (\<lambda>c. \<not> w c) (rev l)"] length_dropWhile_le [of "\<lambda>c. \<not> w c" "rev l"]
    by (simp add: before_word_def)
  have "length (before_word w l) \<le> length ?m" by (subst b) simp
  then have "take (length (before_word w l)) (take (length ?m) l) = take (length (before_word w l)) l" by (simp add: min_def)
  then show "before_word w l = take (length (before_word w l)) l" using b m by simp
qed

lemma through_word_prefix:
  "through_word w r = take (length (through_word w r)) r" "length (through_word w r) \<le> length r"
proof -
  have "r = through_word w r @ dropWhile w (dropWhile (\<lambda>c. \<not> w c) r)" by (simp add: through_word_def)
  then show "through_word w r = take (length (through_word w r)) r" "length (through_word w r) \<le> length r"
    by (metis append_eq_conv_conj, metis le_add1 length_append)
qed

lemma word_left_cursor:
  fixes alnum :: "bytes \<Rightarrow> bool"
  defines "w \<equiv> \<lambda>c. is_word_grapheme alnum [c]"
  assumes "segments_ascii gr" and "editor_shows e (l, r)"
  shows "ed_cursor (move_word_left gr alnum e) = length (before_word w l)"
    and "move_word_left gr alnum e = e\<lparr>ed_cursor := length (before_word w l)\<rparr>"
proof -
  let ?gs = "map (\<lambda>c. [c]) (l @ r)"
  have gs: "gr (ed_input e) = ?gs" and cur: "ed_cursor e = length l"
    using assms(2,3) gr_ascii [of gr "l @ r"] by (simp_all add: editor_shows_def)
  let ?n = "length (dropWhile (\<lambda>c. \<not> w c) (rev l))"
  have n: "scan_left (\<lambda>g. \<not> is_word_grapheme alnum g) ?gs (length l) = ?n"
    by (subst scan_left_ascii) (simp_all add: w_def)
  have le: "?n \<le> length l" using length_dropWhile_le [of "\<lambda>c. \<not> w c" "rev l"] by simp
  then have "take ?n (l @ r) = rev (dropWhile (\<lambda>c. \<not> w c) (rev l))" by (simp add: rev_dropWhile_prefix [symmetric])
  then have "scan_left (is_word_grapheme alnum) ?gs ?n = length (before_word w l)"
    using le by (subst scan_left_ascii) (simp_all add: before_word_def w_def)
  with n gs cur show m: "move_word_left gr alnum e = e\<lparr>ed_cursor := length (before_word w l)\<rparr>"
    by (auto simp: move_word_left_def Let_def before_word_def)
  then show "ed_cursor (move_word_left gr alnum e) = length (before_word w l)" by simp
qed

lemma word_right_cursor:
  fixes alnum :: "bytes \<Rightarrow> bool"
  defines "w \<equiv> \<lambda>c. is_word_grapheme alnum [c]"
  assumes "segments_ascii gr" and "editor_shows e (l, r)"
  shows "move_word_right gr alnum e = e\<lparr>ed_cursor := length (l @ through_word w r)\<rparr>"
proof -
  let ?gs = "map (\<lambda>c. [c]) (l @ r)"
  have gs: "gr (ed_input e) = ?gs" and cur: "ed_cursor e = length l"
    using assms(2,3) gr_ascii [of gr "l @ r"] by (simp_all add: editor_shows_def)
  let ?n = "length l + length (takeWhile (\<lambda>c. \<not> w c) r)"
  have n: "scan_right (\<lambda>g. \<not> is_word_grapheme alnum g) ?gs (length l) = ?n"
    by (subst scan_right_ascii) (simp_all add: w_def)
  have "drop ?n (l @ r) = dropWhile (\<lambda>c. \<not> w c) r" by (simp add: dropWhile_eq_drop)
  then have "scan_right (is_word_grapheme alnum) ?gs ?n = length (l @ through_word w r)"
    using length_takeWhile_le [of "\<lambda>c. \<not> w c" r] by (subst scan_right_ascii) (simp_all add: through_word_def w_def)
  with n gs cur show ?thesis by (auto simp: move_word_right_def Let_def through_word_def)
qed

subsection \<open>One operation\<close>

lemma printable_plain:
  assumes "printable c"
  shows "c \<notin> {CHR 0x1B, CHR 0x01, CHR 0x05, CHR 0x10, CHR 0x0E, CHR 0x17, CHR 0x0D, CHR 0x0A, CHR 0x7F, CHR 0x08}"
  using assms by (auto simp: printable_def is_ascii_control_def byte_val_def)

lemma shows_type:
  assumes "segments_ascii gr" and "editor_shows e (l, r)" and "printable c"
  shows "editor_step gr alnum c e = (Changed, insert_str gr [c] e)" and "editor_shows (insert_str gr [c] e) (l @ [c], r)"
proof -
  have p: "list_all printable (l @ r)" "list_all printable (l @ [c] @ r)" using assms(2,3) by (auto simp: editor_shows_def)
  show "editor_step gr alnum c e = (Changed, insert_str gr [c] e)"
    using assms(2,3) printable_plain [OF assms(3)] by (auto simp: editor_step_def editor_shows_def handle_byte_def printable_def)
  have i: "byte_index gr (length l) (l @ r) = length l" by (rule byte_index_ascii [OF assms(1) p(1)]) simp
  have "cursor_after (length l + 1) 0 0 (gr (l @ [c] @ r)) = length l + 1"
    unfolding gr_ascii [OF assms(1) p(2)] by (subst cursor_after_ascii) simp_all
  then show "editor_shows (insert_str gr [c] e) (l @ [c], r)"
    using assms(2) p(2) i by (simp add: editor_shows_def insert_str_def Let_def)
qed

lemma shows_rubout:
  assumes "segments_ascii gr" and "editor_shows e (l, r)"
  shows "editor_shows (snd (handle_backspace gr e)) (butlast l, r)"
proof (cases "l = []")
  case True
  then show ?thesis using assms(2) by (simp add: handle_backspace_def editor_shows_def)
next
  case False
  have p: "list_all printable (l @ r)" using assms(2) by (simp add: editor_shows_def)
  have "byte_index gr (length l - 1) (l @ r) = length l - 1" "byte_index gr (length l) (l @ r) = length l"
    by (simp_all add: byte_index_ascii [OF assms(1) p])
  then show ?thesis
    using assms(2) False by (auto simp: handle_backspace_def backspace_def erase_range_def editor_shows_def butlast_conv_take
        list_all_iff dest: in_set_takeD)
qed

lemma shows_delete:
  assumes "segments_ascii gr" and "editor_shows e (l, r)"
  shows "editor_shows (snd (delete gr e)) (l, tl r)"
proof (cases r)
  case Nil
  then show ?thesis using assms gr_ascii [OF assms(1), of l] by (simp add: delete_def editor_shows_def len_graphemes_def)
next
  case (Cons c r')
  have p: "list_all printable (l @ r)" using assms(2) by (simp add: editor_shows_def)
  have "byte_index gr (length l) (l @ r) = length l" "byte_index gr (Suc (length l)) (l @ r) = Suc (length l)"
    by (rule byte_index_ascii [OF assms(1) p], simp add: Cons)+
  then show ?thesis
    using assms(2) Cons gr_ascii [OF assms(1) p] by (simp add: delete_def erase_range_def editor_shows_def len_graphemes_def)
qed

lemma shows_erase_word:
  fixes alnum :: "bytes \<Rightarrow> bool"
  defines "w \<equiv> \<lambda>c. is_word_grapheme alnum [c]"
  assumes "segments_ascii gr" and "editor_shows e (l, r)"
  shows "editor_shows (snd (erase_word_left gr alnum e)) (before_word w l, r)"
proof -
  let ?b = "before_word w l"
  have p: "list_all printable (l @ r)" using assms(3) by (simp add: editor_shows_def)
  have idx: "byte_index gr (length ?b) (l @ r) = length ?b" "byte_index gr (length l) (l @ r) = length l"
    using before_word_prefix(2) [of w l] by (simp_all add: byte_index_ascii [OF assms(2) p])
  have b: "take (length ?b) (l @ r) = ?b" using before_word_prefix [of w l] by simp
  have pb: "list_all printable (?b @ r)"
    using p before_word_prefix(1) [of w l] by (metis append_take_drop_id list_all_append)
  show ?thesis
  proof (cases "length ?b = length l")
    case True
    then have "?b = l" using before_word_prefix(1) [of w l] by simp
    then show ?thesis using assms(3) True word_left_cursor(2) [OF assms(2,3), of alnum, folded w_def]
      by (auto simp: erase_word_left_def Let_def editor_shows_def)
  next
    case False
    then have "l \<noteq> []" using before_word_prefix(2) [of w l] by auto
    then show ?thesis using assms(3) False idx b pb word_left_cursor(2) [OF assms(2,3), of alnum, folded w_def]
      by (simp add: erase_word_left_def Let_def editor_shows_def erase_range_def)
  qed
qed

lemma run_step:
  assumes "editor_step gr alnum b e = (a, e')" and "a \<noteq> Submit"
  shows "handle_bytes_from gr alnum a0 (b # bs) e = handle_bytes_from gr alnum a bs e'"
  using assms by simp

lemma run_csi:
  assumes "ed_state e = StNormal"
  shows "handle_bytes_from gr alnum a0 (CHR 0x1B # CHR ''['' # bs) e =
    handle_bytes_from gr alnum ActNone bs (e\<lparr>ed_state := StCsi, ed_csi_buf := []\<rparr>)"
  using assms by (simp add: editor_step_def handle_byte_def handle_esc_def)

lemma shows_frame: "editor_shows (e\<lparr>ed_csi_buf := b\<rparr>) h = editor_shows e h"
  "editor_shows (e\<lparr>ed_state := StNormal, ed_csi_buf := b\<rparr>) h = editor_shows (e\<lparr>ed_state := StNormal\<rparr>) h"
  by (simp_all add: editor_shows_def)

lemma shows_move_left: "editor_shows e (l, r) \<Longrightarrow> editor_shows (move_left e) (edit w GoLeft (l, r))"
  by (cases l rule: rev_cases) (auto simp: editor_shows_def move_left_def)

lemma shows_move_right:
  assumes "segments_ascii gr" and "editor_shows e (l, r)"
  shows "editor_shows (move_right gr e) (edit w GoRight (l, r))"
  using assms gr_ascii [OF assms(1), of "l @ r"] by (cases r) (auto simp: editor_shows_def move_right_def len_graphemes_def)

lemma shows_ends:
  assumes "segments_ascii gr" and "editor_shows e (l, r)"
  shows "editor_shows (e\<lparr>ed_cursor := 0\<rparr>) ([], l @ r)" and "editor_shows (e\<lparr>ed_cursor := len_graphemes gr e\<rparr>) (l @ r, [])"
  using assms gr_ascii [OF assms(1), of "l @ r"] by (simp_all add: editor_shows_def len_graphemes_def)

lemma shows_word:
  fixes alnum :: "bytes \<Rightarrow> bool"
  defines "w \<equiv> \<lambda>c. is_word_grapheme alnum [c]"
  assumes "segments_ascii gr" and "editor_shows e (l, r)"
  shows "editor_shows (move_word_left gr alnum e) (edit w WordLeft (l, r))"
    and "editor_shows (move_word_right gr alnum e) (edit w WordRight (l, r))"
proof -
  have "before_word w l @ drop (length (before_word w l)) l = l" "through_word w r @ drop (length (through_word w r)) r = r"
    using before_word_prefix(1) [of w l] through_word_prefix(1) [of w r] by (metis append_take_drop_id)+
  then show "editor_shows (move_word_left gr alnum e) (edit w WordLeft (l, r))"
    "editor_shows (move_word_right gr alnum e) (edit w WordRight (l, r))"
    using assms(3) word_left_cursor(2) [OF assms(2,3), of alnum, folded w_def]
      word_right_cursor [OF assms(2,3), of alnum, folded w_def]
    by (simp_all add: editor_shows_def flip: append_assoc) (metis append_assoc list_all_append)+
qed

lemma run_op:
  fixes alnum :: "bytes \<Rightarrow> bool"
  defines "w \<equiv> \<lambda>c. is_word_grapheme alnum [c]"
  assumes gr: "segments_ascii gr" and e: "editor_shows e (l, r)" and "op_ok op"
  shows "\<exists>a e'. handle_bytes_from gr alnum a0 (op_bytes op @ bs) e = handle_bytes_from gr alnum a bs e' \<and>
    editor_shows e' (edit w op (l, r))"
proof -
  have st: "ed_state e = StNormal" using e by (simp add: editor_shows_def)
  let ?c = "e\<lparr>ed_state := StCsi, ed_csi_buf := []\<rparr>"
  have csi: "\<exists>a e'. handle_bytes_from gr alnum a0 (CHR 0x1B # CHR ''['' # b # bs) e = handle_bytes_from gr alnum a bs e' \<and>
      editor_shows e' h"
    if "cursor_key gr b (e\<lparr>ed_csi_buf := [b]\<rparr>) = Some (Changed, e1)" "editor_shows e1 h" "0x40 \<le> byte_val b \<and> byte_val b \<le> 0x7E" for b e1 h
  proof -
    have "?c\<lparr>ed_csi_buf := [b], ed_state := StNormal\<rparr> = e\<lparr>ed_csi_buf := [b]\<rparr>" using st by simp
    then have "editor_step gr alnum b ?c = (Changed, e1\<lparr>ed_csi_buf := []\<rparr>)"
      using that(1,3) by (simp add: editor_step_def handle_csi_def Let_def)
    then show ?thesis using that(2) unfolding run_csi [OF st]
      by (intro exI [of _ Changed] exI [of _ "e1\<lparr>ed_csi_buf := []\<rparr>"]) (simp add: shows_frame)
  qed
  have e': "editor_shows (e\<lparr>ed_csi_buf := b\<rparr>) (l, r)" for b using e by (simp add: shows_frame)
  show ?thesis
  proof (cases op)
    case (TypeChar c)
    with shows_type [OF gr e, of c] \<open>op_ok op\<close> show ?thesis by (intro exI conjI) (simp_all add: run_step)
  next
    case GoLeft
    with csi [of "CHR ''D''"] shows_move_left [OF e'] show ?thesis by (auto simp: cursor_key_def byte_val_def)
  next
    case GoRight
    with csi [of "CHR ''C''"] shows_move_right [OF gr e'] show ?thesis by (auto simp: cursor_key_def byte_val_def)
  next
    case GoHome
    with shows_ends(1) [OF gr e] st show ?thesis
      by (intro exI conjI) (auto simp: editor_step_def handle_byte_def)
  next
    case GoEnd
    with shows_ends(2) [OF gr e] st show ?thesis
      by (intro exI conjI) (auto simp: editor_step_def handle_byte_def)
  next
    case Rubout
    have "editor_step gr alnum (CHR 0x7F) e = handle_backspace gr e" using st by (simp add: editor_step_def handle_byte_def)
    moreover have "fst (handle_backspace gr e) \<noteq> Submit" by (simp add: handle_backspace_def)
    ultimately show ?thesis using Rubout shows_rubout [OF gr e]
      by (intro exI [of _ "fst (handle_backspace gr e)"] exI [of _ "snd (handle_backspace gr e)"]) (simp add: case_prod_beta)
  next
    case EraseNext
    let ?d = "e\<lparr>ed_csi_buf := ''3~''\<rparr>"
    have three: "editor_step gr alnum (CHR ''3'') ?c = (ActNone, ?c\<lparr>ed_csi_buf := ''3''\<rparr>)"
      by (simp add: editor_step_def handle_csi_def Let_def byte_val_def)
    have p: "parse_csi_param ?d = Some 3"
      by (simp add: parse_csi_param_def is_ascii_digit_def digit_val_def byte_val_def)
    have "?c\<lparr>ed_csi_buf := ''3~'', ed_state := StNormal\<rparr> = ?d" using st by simp
    then have "editor_step gr alnum (CHR ''~'') (?c\<lparr>ed_csi_buf := ''3''\<rparr>) =
        (if fst (delete gr ?d) then Changed else ActNone, (snd (delete gr ?d))\<lparr>ed_csi_buf := []\<rparr>)"
      using p by (simp add: editor_step_def handle_csi_def handle_csi_tilde_def cursor_key_def Let_def byte_val_def case_prod_beta)
    with three EraseNext shows_delete [OF gr e', of "''3~''"] show ?thesis
      unfolding EraseNext op_bytes.simps append_Cons append_Nil run_csi [OF st]
      by (intro exI [of _ "if fst (delete gr ?d) then Changed else ActNone"] exI [of _ "(snd (delete gr ?d))\<lparr>ed_csi_buf := []\<rparr>"])
        (simp add: shows_frame)
  next
    case WordLeft
    have s: "editor_shows ((move_word_left gr alnum (e\<lparr>ed_state := StEsc\<rparr>))\<lparr>ed_state := StNormal\<rparr>) (edit w WordLeft (l, r))"
    proof -
      have "(move_word_left gr alnum (e\<lparr>ed_state := StEsc\<rparr>))\<lparr>ed_state := StNormal\<rparr> = move_word_left gr alnum e"
        using st by (simp add: move_word_left_def Let_def)
      then show ?thesis using shows_word(1) [OF gr e, of alnum, folded w_def] by simp
    qed
    with WordLeft st show ?thesis
      by (intro exI conjI) (auto simp: editor_step_def handle_byte_def handle_esc_def)
  next
    case WordRight
    have s: "editor_shows ((move_word_right gr alnum (e\<lparr>ed_state := StEsc\<rparr>))\<lparr>ed_state := StNormal\<rparr>) (edit w WordRight (l, r))"
    proof -
      have "(move_word_right gr alnum (e\<lparr>ed_state := StEsc\<rparr>))\<lparr>ed_state := StNormal\<rparr> = move_word_right gr alnum e"
        using st by (simp add: move_word_right_def Let_def)
      then show ?thesis using shows_word(2) [OF gr e, of alnum, folded w_def] by simp
    qed
    with WordRight st show ?thesis
      by (intro exI conjI) (auto simp: editor_step_def handle_byte_def handle_esc_def)
  next
    case EraseWord
    have "editor_step gr alnum (CHR 0x17) e = changed_or_bell (erase_word_left gr alnum e)"
      using st by (simp add: editor_step_def handle_byte_def)
    with EraseWord shows_erase_word [OF gr e, of alnum, folded w_def] show ?thesis
      by (intro exI [of _ "fst (changed_or_bell (erase_word_left gr alnum e))"] exI [of _ "snd (erase_word_left gr alnum e)"])
        (simp add: changed_or_bell_def)
  qed
qed

lemma run_ops:
  fixes alnum :: "bytes \<Rightarrow> bool"
  defines "w \<equiv> \<lambda>c. is_word_grapheme alnum [c]"
  assumes "segments_ascii gr" and "list_all op_ok ops" and "editor_shows e h"
  shows "editor_shows (snd (handle_bytes_from gr alnum a (concat (map op_bytes ops)) e)) (fold (edit w) ops h)"
  using assms(3,4)
proof (induction ops arbitrary: a e h)
  case (Cons op ops)
  obtain l r where h: "h = (l, r)" by fastforce
  obtain a' e' where e': "handle_bytes_from gr alnum a (op_bytes op @ concat (map op_bytes ops)) e =
      handle_bytes_from gr alnum a' (concat (map op_bytes ops)) e'" "editor_shows e' (edit w op h)"
    using run_op [OF assms(2), of e l r op alnum a "concat (map op_bytes ops)"] Cons.prems by (auto simp: h w_def)
  with Cons show ?case by simp
qed simp

text \<open>
  C17: For printable ASCII text the editor is exactly an editor on the text before and after the
  cursor: whatever sequence of characters, cursor keys, deletions and word commands arrives as
  bytes, the line and the cursor are those of that simple editor.
\<close>

theorem editor_refines_halves:
  assumes "segments_ascii gr" and "list_all op_ok ops"
  shows "\<exists>e. snd (handle_bytes gr alnum (concat (map op_bytes ops)) editor_new) = e \<and>
    (case fold (edit (\<lambda>c. is_word_grapheme alnum [c])) ops ([], []) of (l, r) \<Rightarrow>
       ed_input e = l @ r \<and> ed_cursor e = length l)"
  using run_ops [OF assms, of editor_new "([], [])" alnum ActNone]
  by (auto simp: handle_bytes_def editor_shows_def editor_new_def split: prod.splits)

theorem editor_refines_halves_witness:
  "\<exists>e. snd (handle_bytes (\<lambda>s. map (\<lambda>c. [c]) s) (\<lambda>_. True)
      (concat (map op_bytes [TypeChar (CHR ''a''), TypeChar (CHR ''b''), GoLeft, Rubout, TypeChar (CHR ''x'')])) editor_new) = e \<and>
    (case fold (edit (\<lambda>c. is_word_grapheme (\<lambda>_. True) [c]))
        [TypeChar (CHR ''a''), TypeChar (CHR ''b''), GoLeft, Rubout, TypeChar (CHR ''x'')] ([], []) of (l, r) \<Rightarrow>
       ed_input e = l @ r \<and> ed_cursor e = length l)"
  by (rule editor_refines_halves)
    (simp_all add: segments_ascii_def printable_def is_ascii_def is_ascii_control_def byte_val_def)

section \<open>History\<close>

definition up_times :: "segmentation \<Rightarrow> nat \<Rightarrow> line_editor \<Rightarrow> line_editor" where
  "up_times gr n e = ((\<lambda>e. snd (handle_history_up gr e)) ^^ n) e"

definition down_times :: "segmentation \<Rightarrow> nat \<Rightarrow> line_editor \<Rightarrow> line_editor" where
  "down_times gr n e = ((\<lambda>e. snd (handle_history_down gr e)) ^^ n) e"

lemma up_times_shows:
  assumes "ed_history_index e = None" and "0 < n" and "n \<le> length (ed_history e)"
  shows "up_times gr n e = show_history gr (length (ed_history e) - n) (e\<lparr>ed_history_draft := ed_input e\<rparr>)"
  using assms(2,3)
proof (induction n)
  case (Suc n)
  show ?case
  proof (cases "n = 0")
    case True
    then show ?thesis
      using assms(1) Suc.prems by (auto simp: up_times_def handle_history_up_def changed_or_bell_def history_up_def)
  next
    case False
    then have IH: "up_times gr n e = show_history gr (length (ed_history e) - n) (e\<lparr>ed_history_draft := ed_input e\<rparr>)"
      using Suc by simp
    have "up_times gr (Suc n) e = snd (handle_history_up gr (up_times gr n e))" by (simp add: up_times_def)
    also have "\<dots> = show_history gr (length (ed_history e) - n - 1) (e\<lparr>ed_history_draft := ed_input e\<rparr>)"
      unfolding IH using Suc.prems by (auto simp: handle_history_up_def changed_or_bell_def history_up_def show_history_def)
    finally show ?thesis by simp
  qed
qed simp

lemma down_times_shows:
  assumes "i + n < length (ed_history e)"
  shows "down_times gr n (show_history gr i e) = show_history gr (i + n) e"
  using assms
proof (induction n)
  case 0
  then show ?case by (simp add: down_times_def)
next
  case (Suc n)
  have "down_times gr (Suc n) (show_history gr i e) = snd (handle_history_down gr (down_times gr n (show_history gr i e)))"
    by (simp add: down_times_def)
  also have "\<dots> = show_history gr (i + n + 1) e"
    using Suc by (simp add: handle_history_down_def changed_or_bell_def history_down_def show_history_def)
  finally show ?case by simp
qed

text \<open>
  Browsing the history never loses the line being written. Going back n entries shows the
  n-th entry from the end, and going forward as often restores the unfinished line, with the
  cursor at its end and no history position left, for any segmentation of the text.
\<close>

theorem history_browsing_restores:
  assumes "ed_history_index e = None" and "0 < n" and "n \<le> length (ed_history e)"
  shows "ed_input (up_times gr n e) = ed_history e ! (length (ed_history e) - n) \<and>
    down_times gr n (up_times gr n e) = e\<lparr>ed_cursor := length (gr (ed_input e)), ed_history_draft := ed_input e\<rparr>"
proof -
  let ?d = "e\<lparr>ed_history_draft := ed_input e\<rparr>"
  let ?i = "length (ed_history e) - n"
  obtain m where m: "n = Suc m" using assms(2) by (cases n) auto
  have up: "up_times gr n e = show_history gr ?i ?d" by (rule up_times_shows [OF assms])
  have "down_times gr n (up_times gr n e) = snd (handle_history_down gr (down_times gr m (show_history gr ?i ?d)))"
    unfolding up by (simp add: m down_times_def)
  also have "down_times gr m (show_history gr ?i ?d) = show_history gr (?i + m) ?d"
    using assms(3) m by (intro down_times_shows) simp
  also have "?i + m = length (ed_history e) - 1" using assms(3) m by simp
  also have "snd (handle_history_down gr (show_history gr (length (ed_history e) - 1) ?d)) =
      e\<lparr>ed_cursor := length (gr (ed_input e)), ed_history_draft := ed_input e\<rparr>"
    using assms by (simp add: handle_history_down_def changed_or_bell_def history_down_def show_history_def)
  finally show ?thesis using up by (simp add: show_history_def)
qed

theorem history_browsing_restores_witness:
  "ed_input (up_times (\<lambda>s. map (\<lambda>c. [c]) s) 2 (editor_new\<lparr>ed_history := [''one'', ''two''], ed_input := ''draft''\<rparr>)) = ''one'' \<and>
   ed_input (down_times (\<lambda>s. map (\<lambda>c. [c]) s) 2 (up_times (\<lambda>s. map (\<lambda>c. [c]) s) 2
     (editor_new\<lparr>ed_history := [''one'', ''two''], ed_input := ''draft''\<rparr>))) = ''draft''"
  using history_browsing_restores [of "editor_new\<lparr>ed_history := [''one'', ''two''], ed_input := ''draft''\<rparr>" 2 "\<lambda>s. map (\<lambda>c. [c]) s"]
  by (simp add: editor_new_def)

end
