(* ===== verification/Utf8_Text.thy ===== *)
theory Utf8_Text
  imports Rust_Strings
begin

text \<open>
  Text as a sequence of characters: \<^verbatim>\<open>chars\<close> and \<^verbatim>\<open>char::is_whitespace\<close> on UTF-8 bytes, an
  induction rule over the characters of valid text, and what \<^verbatim>\<open>trim\<close> leaves.
\<close>

section \<open>Characters of a string\<close>

text \<open>The characters of a \<^verbatim>\<open>str\<close>, each as its UTF-8 bytes\<close>

function utf8_chars :: "bytes \<Rightarrow> bytes list" where
  "utf8_chars [] = []"
| "utf8_chars (c # cs) = take (utf8_char_len c) (c # cs) # utf8_chars (drop (utf8_char_len c - 1) cs)"
  by pat_completeness auto
termination
  by (relation "measure length") auto

definition char_is_whitespace :: "bytes \<Rightarrow> bool" where
  "char_is_whitespace ch \<longleftrightarrow> ch \<in> set whitespace_chars"

section \<open>Valid text is a sequence of characters\<close>

definition utf8_char :: "bytes \<Rightarrow> bool" where
  "utf8_char ch \<longleftrightarrow> ch \<noteq> [] \<and> length ch = utf8_char_len (hd ch) \<and> utf8_valid ch \<and> list_all (byte_in 0x80 0xBF) (tl ch)"

lemma continuation_range: "byte_in (if P then 0xA0 else 0x80) (if Q then 0x9F else 0xBF) b \<Longrightarrow> byte_in 0x80 0xBF b"
  "byte_in (if P then 0x90 else 0x80) (if Q then 0x8F else 0xBF) b \<Longrightarrow> byte_in 0x80 0xBF b"
  by (auto simp: byte_in_def split: if_splits)

lemma lead_range:
  "byte_in 0xC2 0xDF a \<Longrightarrow> \<not> byte_val a < 0x80 \<and> utf8_char_len a = 2"
  "byte_in 0xE0 0xEF a \<Longrightarrow> \<not> byte_val a < 0x80 \<and> \<not> byte_in 0xC2 0xDF a \<and> utf8_char_len a = 3"
  "byte_in 0xF0 0xF4 a \<Longrightarrow> \<not> byte_val a < 0x80 \<and> \<not> byte_in 0xC2 0xDF a \<and> \<not> byte_in 0xE0 0xEF a \<and> utf8_char_len a = 4"
  by (auto simp: byte_in_def utf8_char_len_def)

definition lead3_ok :: "byte \<Rightarrow> byte \<Rightarrow> bool" where
  "lead3_ok a b \<longleftrightarrow> byte_in (if byte_val a = 0xE0 then 0xA0 else 0x80) (if byte_val a = 0xED then 0x9F else 0xBF) b"

definition lead4_ok :: "byte \<Rightarrow> byte \<Rightarrow> bool" where
  "lead4_ok a b \<longleftrightarrow> byte_in (if byte_val a = 0xF0 then 0x90 else 0x80) (if byte_val a = 0xF4 then 0x8F else 0xBF) b"

lemma utf8_valid_lead:
  "byte_val a < 0x80 \<Longrightarrow> utf8_valid (a # t) = utf8_valid t"
  "byte_in 0xC2 0xDF a \<Longrightarrow> utf8_valid (a # b # t) = (byte_in 0x80 0xBF b \<and> utf8_valid t)"
  "byte_in 0xE0 0xEF a \<Longrightarrow> utf8_valid (a # b # c # t) = (lead3_ok a b \<and> byte_in 0x80 0xBF c \<and> utf8_valid t)"
  "byte_in 0xF0 0xF4 a \<Longrightarrow> utf8_valid (a # b # c # d # t) =
     (lead4_ok a b \<and> byte_in 0x80 0xBF c \<and> byte_in 0x80 0xBF d \<and> utf8_valid t)"
  using lead_range [of a] by (simp_all add: lead3_ok_def lead4_ok_def)

lemma utf8_valid_shape:
  assumes "utf8_valid (a # r)"
  obtains "byte_val a < 0x80"
    | b t where "byte_in 0xC2 0xDF a" and "r = b # t"
    | b c t where "byte_in 0xE0 0xEF a" and "r = b # c # t"
    | b c d t where "byte_in 0xF0 0xF4 a" and "r = b # c # d # t"
proof -
  note valid = assms [unfolded utf8_valid.simps(2) [of a r]]
  consider "byte_val a < 0x80" | "\<not> byte_val a < 0x80" "r \<noteq> []"
    using valid by (cases r) (simp_all split: if_splits)
  then show thesis
  proof cases
    case 2
    then obtain b r1 where r: "r = b # r1" by (cases r) simp_all
    consider "byte_in 0xC2 0xDF a" | "\<not> byte_in 0xC2 0xDF a" "r1 \<noteq> []"
      using valid 2(1) by (cases r1) (simp_all add: r split: if_splits)
    then show ?thesis
    proof cases
      case 2
      then obtain c r2 where r1: "r1 = c # r2" by (cases r1) simp_all
      note rest = valid [unfolded r r1 list.case]
      consider "byte_in 0xE0 0xEF a" | d r3 where "r2 = d # r3" "byte_in 0xF0 0xF4 a"
        using rest 2(1) \<open>\<not> byte_val a < 0x80\<close> by (cases "byte_in 0xE0 0xEF a"; cases r2) simp_all
      then show ?thesis using that r r1 by cases simp_all
    qed (use that r in simp)
  qed (use that in simp)
qed

declare utf8_valid.simps(2) [simp del]

lemma utf8_valid_cases:
  assumes "utf8_valid s" and "s \<noteq> []"
  obtains ch rest where "s = ch @ rest" and "utf8_char ch" and "utf8_valid rest"
proof (cases s)
  case (Cons a r)
  from assms(1) have "utf8_valid (a # r)" by (simp add: Cons)
  then show thesis
  proof (cases rule: utf8_valid_shape)
    case 1
    then show ?thesis using assms(1) Cons
      by (intro that [of "[a]" r]) (simp_all add: utf8_char_def utf8_char_len_def utf8_valid_lead)
  next
    case (2 b t)
    then show ?thesis using assms(1) Cons lead_range(1) [of a]
      by (intro that [of "[a, b]" t]) (simp_all add: utf8_char_def utf8_valid_lead)
  next
    case (3 b c t)
    then show ?thesis using assms(1) Cons lead_range(2) [of a]
      by (intro that [of "[a, b, c]" t]) (auto simp: utf8_char_def utf8_valid_lead lead3_ok_def dest: continuation_range)
  next
    case (4 b c d t)
    then show ?thesis using assms(1) Cons lead_range(3) [of a]
      by (intro that [of "[a, b, c, d]" t]) (auto simp: utf8_char_def utf8_valid_lead lead4_ok_def dest: continuation_range)
  qed
qed (use assms in simp)

lemma utf8_induct [consumes 1, case_names Nil Char]:
  assumes "utf8_valid s" and "P []"
    and "\<And>ch rest. utf8_char ch \<Longrightarrow> utf8_valid rest \<Longrightarrow> P rest \<Longrightarrow> P (ch @ rest)"
  shows "P s"
  using assms(1)
proof (induction "length s" arbitrary: s rule: less_induct)
  case less
  show ?case
  proof (cases "s = []")
    case False
    with less.prems obtain ch rest where s: "s = ch @ rest" "utf8_char ch" "utf8_valid rest"
      by (rule utf8_valid_cases)
    have "length rest < length s" using s by (cases ch) (simp_all add: utf8_char_def)
    then show ?thesis using less.hyps [of rest] assms(3) [of ch rest] s by simp
  qed (use assms(2) in simp)
qed

lemma utf8_valid_append_char:
  assumes "utf8_char ch"
  shows "utf8_valid (ch @ t) = utf8_valid t"
proof -
  obtain a r where ch: "ch = a # r" and valid: "utf8_valid (a # r)" and len: "utf8_char_len a = Suc (length r)"
    using assms by (cases ch) (auto simp: utf8_char_def)
  from valid show ?thesis
    by (cases rule: utf8_valid_shape)
      (use valid len lead_range [of a] in \<open>auto simp: ch utf8_valid_lead utf8_char_len_def split: if_splits\<close>)
qed

lemma utf8_valid_append: "utf8_valid s \<Longrightarrow> utf8_valid (s @ t) = utf8_valid t"
  by (induction rule: utf8_induct) (simp_all add: utf8_valid_append_char)

lemma utf8_chars_char:
  assumes "utf8_char ch" shows "utf8_chars (ch @ t) = ch # utf8_chars t"
proof -
  obtain a r where ch: "ch = a # r" using assms by (cases ch) (auto simp: utf8_char_def)
  then have "utf8_char_len a = Suc (length r)" using assms by (simp add: utf8_char_def)
  then show ?thesis by (simp add: ch)
qed

lemma utf8_chars_append: "utf8_valid s \<Longrightarrow> utf8_chars (s @ t) = utf8_chars s @ utf8_chars t"
  by (induction rule: utf8_induct) (simp_all add: utf8_chars_char)

lemma utf8_chars_valid: "utf8_valid s \<Longrightarrow> list_all utf8_char (utf8_chars s)"
  by (induction rule: utf8_induct) (simp_all add: utf8_chars_char)

lemma concat_utf8_chars: "utf8_valid s \<Longrightarrow> concat (utf8_chars s) = s"
  by (induction rule: utf8_induct) (simp_all add: utf8_chars_char)

text \<open>White space characters are whole characters, so trimming takes off whole characters\<close>

lemma encode_utf8_char:
  assumes "is_scalar_value n"
  shows "utf8_char (encode_utf8 n) \<and> \<not> byte_in 0x80 0xBF (hd (encode_utf8 n))"
proof -
  have tail: "byte_in 0x80 0xBF (char_of (0x80 + m mod 64 :: nat))" for m
    using mod_less_divisor [of 64 m] by (simp add: byte_in_def)
  consider "n < 0x80" | "0x80 \<le> n" "n < 0x800" | "0x800 \<le> n" "n < 0x10000" | "0x10000 \<le> n" "n < 0x110000"
    using assms by (fastforce simp: is_scalar_value_def)
  then show ?thesis
  proof cases
    case 1
    then show ?thesis by (simp add: encode_utf8_def utf8_char_def utf8_char_len_def utf8_valid_lead byte_in_def)
  next
    case 2
    then have "2 \<le> n div 64" "n div 64 \<le> 31" by linarith+
    then have "byte_in 0xC2 0xDF (char_of (0xC0 + n div 64))" by (simp add: byte_in_def)
    moreover have "\<not> byte_in 0x80 0xBF (char_of (0xC0 + n div 64))" using \<open>n div 64 \<le> 31\<close> by (simp add: byte_in_def)
    ultimately show ?thesis using 2 tail [of n] lead_range(1)
      by (simp add: encode_utf8_def utf8_char_def utf8_valid_lead)
  next
    case 3
    then have hi: "n div 4096 \<le> 15" by linarith
    then have lead: "byte_in 0xE0 0xEF (char_of (0xE0 + n div 4096))" "\<not> byte_in 0x80 0xBF (char_of (0xE0 + n div 4096))"
      by (simp_all add: byte_in_def)
    have "n div 4096 = 0 \<Longrightarrow> 32 \<le> n div 64 mod 64" using 3 by (simp add: div_eq_0_iff)
    moreover have "n div 4096 = 13 \<Longrightarrow> n div 64 mod 64 < 32"
    proof -
      assume "n div 4096 = 13"
      then have "n < 0xD800" using assms 3 unfolding is_scalar_value_def by linarith
      then have "n div 64 < 864" by linarith
      moreover have "n div 64 div 64 = 13" using \<open>n div 4096 = 13\<close> by (simp add: div_mult2_eq [symmetric])
      ultimately show ?thesis using mult_div_mod_eq [of 64 "n div 64"] by linarith
    qed
    ultimately have "lead3_ok (char_of (0xE0 + n div 4096)) (char_of (0x80 + n div 64 mod 64))"
      using hi mod_less_divisor [of 64 "n div 64"] by (auto simp: lead3_ok_def byte_in_def)
    then show ?thesis using 3 tail [of n] tail [of "n div 64"] lead lead_range(2) [OF lead(1)]
      by (simp add: encode_utf8_def utf8_char_def utf8_valid_lead)
  next
    case 4
    then have hi: "n div 262144 \<le> 4" by linarith
    then have lead: "byte_in 0xF0 0xF4 (char_of (0xF0 + n div 262144))" "\<not> byte_in 0x80 0xBF (char_of (0xF0 + n div 262144))"
      by (simp_all add: byte_in_def)
    have "n div 262144 = n div 4096 div 64" by (simp add: div_mult2_eq [symmetric])
    moreover have "16 \<le> n div 4096" "n div 4096 < 272" using 4 by linarith+
    ultimately have "n div 262144 = 0 \<Longrightarrow> 16 \<le> n div 4096 mod 64" "n div 262144 = 4 \<Longrightarrow> n div 4096 mod 64 < 16"
      using mult_div_mod_eq [of 64 "n div 4096"] by linarith+
    then have "lead4_ok (char_of (0xF0 + n div 262144)) (char_of (0x80 + n div 4096 mod 64))"
      using hi mod_less_divisor [of 64 "n div 4096"] by (auto simp: lead4_ok_def byte_in_def)
    then show ?thesis using 4 tail [of n] tail [of "n div 64"] tail [of "n div 4096"] lead lead_range(3) [OF lead(1)]
      by (simp add: encode_utf8_def utf8_char_def utf8_valid_lead)
  qed
qed

lemma whitespace_char: "w \<in> set whitespace_chars \<Longrightarrow> utf8_char w \<and> \<not> byte_in 0x80 0xBF (hd w)"
  unfolding whitespace_chars_def set_map
  by (elim imageE) (simp only:, rule encode_utf8_char, auto simp: is_scalar_value_def)

lemma char_prefix_unique:
  assumes "utf8_char ch" and "utf8_char w" and "w @ r = ch @ t"
  shows "w = ch \<and> r = t"
proof -
  have "hd w = hd ch" using assms by (metis hd_append2 utf8_char_def)
  then have "length w = length ch" using assms(1,2) by (simp add: utf8_char_def)
  then show ?thesis using assms(3) by simp
qed

lemma map_filter_single:
  assumes "\<And>x. x \<in> set xs \<Longrightarrow> f x = (if x = a then Some y else None)"
  shows "case List.map_filter f xs of [] \<Rightarrow> a \<notin> set xs | z # _ \<Rightarrow> a \<in> set xs \<and> z = y"
  using assms by (induction xs) (auto simp: List.map_filter_simps split: list.splits)

lemma trim_with_step:
  assumes "\<And>w. w \<in> set whitespace_chars \<Longrightarrow> strip s w = (if w = ch then Some r else None)"
  shows "trim_with strip (Suc n) s = (if char_is_whitespace ch then trim_with strip n r else s)"
  using map_filter_single [of whitespace_chars "strip s" ch r, OF assms]
  by (simp add: char_is_whitespace_def split: list.splits)

lemma trim_start_chars:
  assumes "utf8_valid s" and "length s \<le> n"
  shows "trim_with strip_prefix n s = concat (dropWhile char_is_whitespace (utf8_chars s))"
  using assms
proof (induction arbitrary: n rule: utf8_induct)
  case Nil
  have "strip_prefix [] w = None" if "w \<in> set whitespace_chars" for w
    using whitespace_char [OF that] by (cases w) (auto simp: strip_prefix_None starts_with_iff utf8_char_def)
  then show ?case by (simp add: trim_with_same)
next
  case (Char ch rest)
  obtain m where n: "n = Suc m" "length rest \<le> m"
    using Char.prems Char.hyps(1) by (cases n; cases ch) (auto simp: utf8_char_def)
  have "strip_prefix (ch @ rest) w = (if w = ch then Some rest else None)" if "w \<in> set whitespace_chars" for w
    using char_prefix_unique [OF Char.hyps(1), of w _ rest] whitespace_char [OF that]
    by (auto simp: strip_prefix_append strip_prefix_None starts_with_iff)
  from trim_with_step [of "strip_prefix" "ch @ rest", OF this] show ?case
    using Char.IH [OF n(2)] Char.hyps by (auto simp: n(1) utf8_chars_char concat_utf8_chars)
qed

lemma strip_suffix_keeps_char:
  assumes "utf8_char ch" and "\<not> char_is_whitespace ch" and "w \<in> set whitespace_chars" and "ch @ t = r @ w"
  obtains u where "r = ch @ u"
proof -
  note w = whitespace_char [OF assms(3)]
  consider u where "r = ch @ u" | u where "ch = r @ u" "u \<noteq> []" "w = u @ t"
    using assms(4) by (metis append_Nil2 append_eq_append_conv2)
  then show thesis
  proof cases
    case 2
    show ?thesis
    proof (cases r)
      case Nil
      then have "w = ch" using char_prefix_unique [of ch w "[]" t] assms(1) w 2 by simp
      then show ?thesis using assms(2,3) by (simp add: char_is_whitespace_def)
    next
      case (Cons a r')
      then have "hd w \<in> set (tl ch)" using 2 by (cases u) auto
      then show ?thesis using assms(1) w by (auto simp: utf8_char_def list_all_iff)
    qed
  qed (use that in blast)
qed

lemma map_filter_mem: "y \<in> set (List.map_filter f xs) \<Longrightarrow> \<exists>x \<in> set xs. f x = Some y"
  by (auto simp: List.map_filter_def)

lemma trim_end_keeps_char:
  assumes "utf8_char ch" and "\<not> char_is_whitespace ch"
  shows "trim_with strip_suffix n (ch @ t) \<noteq> []"
proof (induction n arbitrary: t)
  case (Suc n)
  show ?case
  proof (cases "List.map_filter (strip_suffix (ch @ t)) whitespace_chars")
    case (Cons r rs)
    then obtain w where w: "w \<in> set whitespace_chars" "strip_suffix (ch @ t) w = Some r"
      using map_filter_mem [of r "strip_suffix (ch @ t)" whitespace_chars] by auto
    then have "ch @ t = r @ w" by (simp add: strip_suffix_Some)
    then obtain u where "r = ch @ u" using strip_suffix_keeps_char [OF assms w(1)] by blast
    then show ?thesis using Suc.IH Cons by simp
  qed (use assms in \<open>simp add: utf8_char_def\<close>)
qed (use assms in \<open>simp add: utf8_char_def\<close>)

abbreviation blank :: "bytes \<Rightarrow> bool" where
  "blank s \<equiv> list_all char_is_whitespace (utf8_chars s)"

lemma trim_with_Nil: "trim_with strip_suffix n [] = []"
proof -
  have "strip_suffix [] w = None" if "w \<in> set whitespace_chars" for w
    using whitespace_char [OF that] by (auto simp: strip_suffix_def ends_with_iff utf8_char_def)
  then show ?thesis by (rule trim_with_same)
qed

lemma str_trim_empty_iff:
  assumes "utf8_valid s"
  shows "str_trim s = [] \<longleftrightarrow> blank s"
proof (cases "dropWhile char_is_whitespace (utf8_chars s)")
  case Nil
  then have "trim_with strip_prefix (length s) s = []" using trim_start_chars [OF assms order_refl]
    by (simp only: Nil concat.simps)
  moreover have "blank s" using Nil by (simp add: list_all_iff)
  ultimately show ?thesis by (simp add: str_trim_def trim_with_Nil)
next
  case (Cons ch rest)
  then have "ch \<in> set (utf8_chars s)" and ws: "\<not> char_is_whitespace ch"
    by (metis list.set_intros(1) set_dropWhileD, metis dropWhile_eq_Cons_conv)
  then have "utf8_char ch" "\<not> blank s" using utf8_chars_valid [OF assms] by (auto simp: list_all_iff)
  then show ?thesis using trim_start_chars [OF assms order_refl] trim_end_keeps_char [OF _ ws] Cons
    by (simp add: str_trim_def Let_def)
qed

end
