(* ===== verification/Terminal_Snapshot.thy ===== *)
theory Terminal_Snapshot
  imports Terminal_Types Utf8_Text
begin

text \<open>
  The terminal screen that Lector's own logic reads: cells, rows and snapshots
  (\<^verbatim>\<open>crates/lector-ghostty\<close>, \<^verbatim>\<open>terminal.rs\<close>) with the functions that turn them into text.
  Rows and columns are \<^verbatim>\<open>u16\<close> in the source and natural numbers here, with saturation and
  wrap-around written out where the source can reach them.
\<close>

section \<open>Positions\<close>

definition u16_max :: nat where
  "u16_max = 65535"

definition sat_add16 :: "nat \<Rightarrow> nat \<Rightarrow> nat" where
  "sat_add16 a b = min (a + b) u16_max"

definition wrap16 :: "nat \<Rightarrow> nat" where
  "wrap16 n = n mod 65536"

text \<open>\<^verbatim>\<open>try_into().unwrap_or(u16::MAX)\<close>\<close>

definition try_u16 :: "nat \<Rightarrow> nat" where
  "try_u16 n = (if n \<le> u16_max then n else u16_max)"

text \<open>The inclusive range \<^verbatim>\<open>a..=b\<close>\<close>

definition upto_incl :: "nat \<Rightarrow> nat \<Rightarrow> nat list" where
  "upto_incl a b = [a..<Suc b]"

section \<open>Cells and rows\<close>

datatype color = ColorDefault | ColorIndexed "8 word" | ColorRgb "8 word" "8 word" "8 word"

datatype underline_style =
  UnderlineNone | UnderlineSingle | UnderlineDouble | UnderlineCurly | UnderlineDotted | UnderlineDashed

record style =
  st_foreground :: color
  st_background :: color
  st_underline_color :: color
  st_bold :: bool
  st_dim :: bool
  st_italic :: bool
  st_blink :: bool
  st_inverse :: bool
  st_invisible :: bool
  st_strikethrough :: bool
  st_overline :: bool
  st_underline :: underline_style

definition style_default :: style where
  "style_default = \<lparr>st_foreground = ColorDefault, st_background = ColorDefault, st_underline_color = ColorDefault,
     st_bold = False, st_dim = False, st_italic = False, st_blink = False, st_inverse = False,
     st_invisible = False, st_strikethrough = False, st_overline = False, st_underline = UnderlineNone\<rparr>"

record cell =
  cell_grapheme :: bytes
  cell_width :: "8 word"
  cell_continuation :: bool
  cell_style :: style
  cell_hyperlink :: "bytes option"

definition cell_default :: cell where
  "cell_default = \<lparr>cell_grapheme = [], cell_width = 1, cell_continuation = False,
     cell_style = style_default, cell_hyperlink = None\<rparr>"

record row =
  row_cells :: "cell list"
  row_wrapped :: bool

text \<open>\<^verbatim>\<open>append_contents_range_to\<close>: blank cells become spaces only when text follows\<close>

fun append_cells :: "nat \<Rightarrow> bytes \<Rightarrow> cell list \<Rightarrow> bytes" where
  "append_cells pending output [] = output"
| "append_cells pending output (c # cs) =
     (if cell_continuation c then append_cells pending output cs
      else if cell_grapheme c = [] then append_cells (Suc pending) output cs
      else append_cells 0 (output @ replicate pending (CHR '' '') @ cell_grapheme c) cs)"

definition append_contents_range_to :: "row \<Rightarrow> bytes \<Rightarrow> nat \<Rightarrow> nat \<Rightarrow> bytes" where
  "append_contents_range_to r output start width =
     (let end = min (saturating_add_usize start width) (length (row_cells r));
          start = min start end
      in append_cells 0 output (drop start (take end (row_cells r))))"

definition append_contents_to :: "row \<Rightarrow> bytes \<Rightarrow> bytes" where
  "append_contents_to r output = append_contents_range_to r output 0 (length (row_cells r))"

section \<open>Snapshots\<close>

datatype cursor_shape = ShapeBar | ShapeBlock | ShapeUnderline | ShapeBlockHollow

record cursor =
  cur_row :: nat
  cur_col :: nat
  cur_visible :: bool
  cur_shape :: cursor_shape

definition cursor_default :: cursor where
  "cursor_default = \<lparr>cur_row = 0, cur_col = 0, cur_visible = False, cur_shape = ShapeBlock\<rparr>"

datatype screen_identity = PrimaryScreen | AlternateScreen

record terminal_modes =
  md_application_keypad :: bool
  md_application_cursor :: bool
  md_bracketed_paste :: bool
  md_synchronized_output :: bool
  md_focus_reporting :: bool
  md_kitty_keyboard_flags :: "8 word"
  md_mouse_protocol :: mouse_protocol
  md_mouse_encoding :: mouse_encoding

record history_position =
  hp_row :: nat
  hp_col :: nat

datatype semantic_kind = PromptStart | InputStart | CommandStart | CommandFinished "int option"

record semantic_mark =
  sm_kind :: semantic_kind
  sm_position :: history_position
  sm_alternate_screen :: bool

datatype viewport = ViewLive | ViewScrollback nat

record terminal_snapshot =
  ts_rows :: "row list"
  ts_scrollback :: "row list"
  ts_cursor :: cursor
  ts_geometry :: terminal_geometry
  ts_screen :: screen_identity
  ts_modes :: terminal_modes
  ts_title :: "bytes option"
  ts_working_directory :: "bytes option"
  ts_semantic_marks :: "semantic_mark list"
  ts_history_origin :: nat
  ts_scrollback_extent :: nat
  ts_viewport :: viewport

definition snapshot_size :: "terminal_snapshot \<Rightarrow> nat \<times> nat" where
  "snapshot_size s =
     (try_u16 (length (ts_rows s)),
      case ts_rows s of [] \<Rightarrow> 0 | r # _ \<Rightarrow> try_u16 (length (row_cells r)))"

definition snapshot_cell :: "terminal_snapshot \<Rightarrow> nat \<Rightarrow> nat \<Rightarrow> cell option" where
  "snapshot_cell s r c =
     (if r < length (ts_rows s) \<and> c < length (row_cells (ts_rows s ! r))
      then Some (row_cells (ts_rows s ! r) ! c) else None)"

definition snapshot_row_wrapped :: "terminal_snapshot \<Rightarrow> nat \<Rightarrow> bool" where
  "snapshot_row_wrapped s r \<longleftrightarrow> r < length (ts_rows s) \<and> row_wrapped (ts_rows s ! r)"

text \<open>\<^verbatim>\<open>contents\<close>: the rows with a line feed after each unwrapped one, without trailing line
  feeds\<close>

fun contents_loop :: "bool \<Rightarrow> bytes \<Rightarrow> row list \<Rightarrow> bytes" where
  "contents_loop wrapping out [] = out"
| "contents_loop wrapping out (r # rs) =
     (let out1 = append_contents_to r out;
          out2 = (if length out1 = length out \<and> wrapping then out1 @ [CHR 0x0A] else out1);
          out3 = (if \<not> row_wrapped r then out2 @ [CHR 0x0A] else out2)
      in contents_loop (row_wrapped r) out3 rs)"

definition snapshot_contents :: "terminal_snapshot \<Rightarrow> bytes" where
  "snapshot_contents s = trim_end_byte (CHR 0x0A) (contents_loop False [] (ts_rows s))"

definition row_contents :: "row \<Rightarrow> nat \<Rightarrow> nat \<Rightarrow> bytes" where
  "row_contents r start width = append_contents_range_to r [] start width"

text \<open>\<^verbatim>\<open>contents_between\<close>: the loop over the rows of a range, ending early behind the last row\<close>

fun between_loop :: "terminal_snapshot \<Rightarrow> nat \<Rightarrow> nat \<Rightarrow> nat \<Rightarrow> nat \<Rightarrow> bytes \<Rightarrow> nat list \<Rightarrow> bytes" where
  "between_loop s start_row start_col end_row end_col out [] = out"
| "between_loop s start_row start_col end_row end_col out (i # is) =
     (if i < length (ts_rows s) then
        let r = ts_rows s ! i;
            cols = snd (snapshot_size s);
            out = (if i = start_row then append_contents_range_to r out start_col (cols - start_col)
                   else if i = end_row then append_contents_range_to r out 0 end_col
                   else append_contents_range_to r out 0 cols);
            out = (if i \<noteq> end_row \<and> \<not> row_wrapped r then out @ [CHR 0x0A] else out)
        in between_loop s start_row start_col end_row end_col out is
      else out)"

definition contents_between :: "terminal_snapshot \<Rightarrow> nat \<Rightarrow> nat \<Rightarrow> nat \<Rightarrow> nat \<Rightarrow> bytes" where
  "contents_between s start_row start_col end_row end_col =
     (if start_row < end_row then
        between_loop s start_row start_col end_row end_col [] (upto_incl start_row end_row)
      else if start_row = end_row \<and> start_col < end_col then
        (if start_row < length (ts_rows s)
         then append_contents_range_to (ts_rows s ! start_row) [] start_col (end_col - start_col)
         else [])
      else [])"

definition trim_end :: "bytes \<Rightarrow> bytes" where
  "trim_end t = trim_with strip_suffix (length t) t"

definition contents_full :: "terminal_snapshot \<Rightarrow> bytes" where
  "contents_full s =
     concat (map (\<lambda>r. trim_end (append_contents_range_to r [] 0 (snd (snapshot_size s))) @ [CHR 0x0A]) (ts_rows s))"

definition has_visible_non_whitespace_content :: "terminal_snapshot \<Rightarrow> bool" where
  "has_visible_non_whitespace_content s \<longleftrightarrow>
     list_ex (\<lambda>r. list_ex (\<lambda>c. \<not> cell_continuation c \<and>
       list_ex (\<lambda>ch. \<not> char_is_whitespace ch) (utf8_chars (cell_grapheme c))) (row_cells r)) (ts_rows s)"

section \<open>The text of a screen\<close>

text \<open>Graphemes are strings, so they are valid UTF-8; the length of a row is a machine size\<close>

definition row_valid :: "row \<Rightarrow> bool" where
  "row_valid r \<longleftrightarrow> length (row_cells r) \<le> usize_max \<and> list_all (\<lambda>c. utf8_valid (cell_grapheme c)) (row_cells r)"

definition snapshot_valid :: "terminal_snapshot \<Rightarrow> bool" where
  "snapshot_valid s \<longleftrightarrow> list_all row_valid (ts_rows s)"

abbreviation cell_blank :: "cell \<Rightarrow> bool" where
  "cell_blank c \<equiv> cell_continuation c \<or> blank (cell_grapheme c)"

lemma blank_append: "utf8_valid s \<Longrightarrow> blank (s @ t) \<longleftrightarrow> blank s \<and> blank t"
  by (simp add: utf8_chars_append)

lemma ascii_space: "blank [CHR '' '']" "blank [CHR 0x0A]" "utf8_valid [CHR '' '']" "utf8_valid [CHR 0x0A]"
  by (simp_all add: utf8_char_len_def char_is_whitespace_def whitespace_chars_def encode_utf8_def utf8_valid_lead
      byte_val_def char_of_def bit_0)

lemma spaces_blank: "utf8_valid (replicate n (CHR '' ''))" "blank (replicate n (CHR '' ''))"
proof (induction n)
  case (Suc n)
  case 1 then show ?case using Suc utf8_valid_append [OF ascii_space(3), of "replicate n (CHR '' '')"] by simp
  case 2 then show ?case using Suc blank_append [OF ascii_space(3), of "replicate n (CHR '' '')"] ascii_space by simp
qed simp_all

lemma append_cells_text:
  assumes "list_all (\<lambda>c. utf8_valid (cell_grapheme c)) cs" and "utf8_valid out"
  shows "utf8_valid (append_cells p out cs) \<and>
    (blank (append_cells p out cs) \<longleftrightarrow> blank out \<and> list_all cell_blank cs)"
  using assms
proof (induction p out cs rule: append_cells.induct)
  case (2 p out c cs)
  have "utf8_valid (out @ replicate p (CHR '' '') @ cell_grapheme c) \<and>
    (blank (out @ replicate p (CHR '' '') @ cell_grapheme c) \<longleftrightarrow> blank out \<and> blank (cell_grapheme c))"
    using 2(4,5) by (simp add: utf8_valid_append utf8_chars_append spaces_blank)
  then show ?case using 2 by (cases "cell_continuation c"; cases "cell_grapheme c = []") auto
qed simp

lemma append_contents_text:
  assumes "row_valid r" and "utf8_valid out"
  shows "utf8_valid (append_contents_to r out) \<and>
    (blank (append_contents_to r out) \<longleftrightarrow> blank out \<and> list_all cell_blank (row_cells r))"
  using append_cells_text [of "row_cells r" out 0] assms
  by (simp add: append_contents_to_def append_contents_range_to_def saturating_add_usize_def row_valid_def)

lemma contents_loop_text:
  assumes "list_all row_valid rs" and "utf8_valid out"
  shows "utf8_valid (contents_loop w out rs) \<and>
    (blank (contents_loop w out rs) \<longleftrightarrow> blank out \<and> list_all (\<lambda>r. list_all cell_blank (row_cells r)) rs)"
  using assms
proof (induction w out rs rule: contents_loop.induct)
  case (2 w out r rs)
  define out1 where "out1 = append_contents_to r out"
  define out2 where "out2 = (if length out1 = length out \<and> w then out1 @ [CHR 0x0A] else out1)"
  define out3 where "out3 = (if \<not> row_wrapped r then out2 @ [CHR 0x0A] else out2)"
  have out1: "utf8_valid out1 \<and> (blank out1 \<longleftrightarrow> blank out \<and> list_all cell_blank (row_cells r))"
    using append_contents_text [of r out] 2(2,3) by (simp add: out1_def)
  have line: "utf8_valid (t @ [CHR 0x0A]) \<and> (blank (t @ [CHR 0x0A]) \<longleftrightarrow> blank t)" if "utf8_valid t" for t
    using that ascii_space by (simp add: utf8_valid_append utf8_chars_append del: utf8_chars.simps)
  have "utf8_valid out3 \<and> (blank out3 \<longleftrightarrow> blank out1)"
    using out1 line [of out1] line [of out2] by (auto simp: out2_def out3_def)
  moreover have "contents_loop w out (r # rs) = contents_loop (row_wrapped r) out3 rs"
    by (simp add: out1_def out2_def out3_def Let_def)
  ultimately show ?case
    using 2(1) [OF refl refl refl, folded out1_def, folded out2_def, folded out3_def] 2(2) out1 by auto
qed simp

lemma utf8_valid_butlast:
  assumes "utf8_valid s" and "s = t @ [CHR 0x0A]"
  shows "utf8_valid t"
  using assms
proof (induction arbitrary: t rule: utf8_induct)
  case (Char ch rest)
  show ?case
  proof (cases "rest = []")
    case True
    then have "t = [] \<or> CHR 0x0A \<in> set (tl ch)" using Char.prems by (cases t) auto
    moreover have "CHR 0x0A \<notin> set (tl ch)" using Char.hyps(1) by (auto simp: utf8_char_def list_all_iff byte_in_def byte_val_def)
    ultimately show ?thesis by auto
  next
    case False
    then obtain u where "rest = u @ [CHR 0x0A]" "t = ch @ u"
      using Char.prems by (cases rest rule: rev_cases) auto
    then show ?thesis using Char.IH Char.hyps(1) by (simp add: utf8_valid_append_char)
  qed
qed simp

lemma trim_newlines_blank:
  assumes "utf8_valid t"
  shows "utf8_valid (trim_end_byte (CHR 0x0A) t) \<and> (blank (trim_end_byte (CHR 0x0A) t) \<longleftrightarrow> blank t)"
  using assms
proof (induction t rule: rev_induct)
  case (snoc c t)
  show ?case
  proof (cases "c = CHR 0x0A")
    case True
    have "utf8_valid t" using utf8_valid_butlast [OF snoc.prems] True by simp
    then show ?thesis using snoc.IH True ascii_space
      by (simp add: trim_end_byte_def utf8_chars_append del: utf8_chars.simps)
  qed (use snoc.prems in \<open>simp add: trim_end_byte_def\<close>)
qed (simp add: trim_end_byte_def)

text \<open>
  C22: whether a screen shows anything is decided cell by cell, without building its text, and the
  answer is the one the text gives: \<^verbatim>\<open>has_visible_non_whitespace_content\<close> holds exactly when
  \<^verbatim>\<open>contents\<close> is not empty after trimming, for every screen of valid UTF-8 graphemes.
\<close>

theorem visible_content_iff_contents:
  assumes "snapshot_valid s"
  shows "has_visible_non_whitespace_content s \<longleftrightarrow> str_trim (snapshot_contents s) \<noteq> []"
proof -
  have loop: "utf8_valid (contents_loop False [] (ts_rows s)) \<and>
    (blank (contents_loop False [] (ts_rows s)) \<longleftrightarrow> list_all (\<lambda>r. list_all cell_blank (row_cells r)) (ts_rows s))"
    using contents_loop_text [of "ts_rows s" "[]" False] assms by (simp add: snapshot_valid_def)
  then have "str_trim (snapshot_contents s) = [] \<longleftrightarrow> list_all (\<lambda>r. list_all cell_blank (row_cells r)) (ts_rows s)"
    using trim_newlines_blank str_trim_empty_iff by (simp add: snapshot_contents_def)
  then show ?thesis by (auto simp: has_visible_non_whitespace_content_def list_ex_iff list_all_iff)
qed

text \<open>A screen of given rows, for examples\<close>

definition example_snapshot :: "row list \<Rightarrow> terminal_snapshot" where
  "example_snapshot rs =
     \<lparr>ts_rows = rs, ts_scrollback = [], ts_cursor = cursor_default, ts_geometry = geometry_from_cells 1 1,
      ts_screen = PrimaryScreen,
      ts_modes = \<lparr>md_application_keypad = False, md_application_cursor = False, md_bracketed_paste = False,
        md_synchronized_output = False, md_focus_reporting = False, md_kitty_keyboard_flags = 0,
        md_mouse_protocol = ProtocolNone, md_mouse_encoding = EncodingDefault\<rparr>,
      ts_title = None, ts_working_directory = None, ts_semantic_marks = [], ts_history_origin = 0,
      ts_scrollback_extent = 0, ts_viewport = ViewLive\<rparr>"

definition example_row :: "bytes \<Rightarrow> row" where
  "example_row t = \<lparr>row_cells = map (\<lambda>c. cell_default\<lparr>cell_grapheme := (if c = CHR '' '' then [] else [c])\<rparr>) t,
     row_wrapped = False\<rparr>"

theorem visible_content_iff_contents_witness:
  "str_trim (snapshot_contents (example_snapshot [example_row '' x ''])) \<noteq> []"
proof -
  have "snapshot_valid (example_snapshot [example_row '' x ''])"
    by (simp add: snapshot_valid_def row_valid_def example_snapshot_def example_row_def cell_default_def usize_max_def
        utf8_valid_lead byte_val_def)
  moreover have "has_visible_non_whitespace_content (example_snapshot [example_row '' x ''])"
    by (simp add: has_visible_non_whitespace_content_def example_snapshot_def example_row_def cell_default_def
        utf8_char_len_def char_is_whitespace_def whitespace_chars_def encode_utf8_def byte_val_def char_of_def bit_0)
  ultimately show ?thesis using visible_content_iff_contents by blast
qed

end
