(* ===== verification/Terminal_Update.thy ===== *)
theory Terminal_Update
  imports Terminal_Snapshot "HOL-Library.Multiset"
begin

text \<open>
  The summary of what a terminal update changed (\<^verbatim>\<open>terminal.rs\<close>): damage as ranges of rows,
  the printed text for speech, hints about terminal operations, and how the summaries of
  consecutive updates are merged into one. An inclusive range of rows is a pair of its ends.
\<close>

section \<open>Data\<close>

type_synonym row_range = "nat \<times> nat"

datatype terminal_damage = DamageNone | DamageRows "row_range list" | DamageFull

datatype print_boundary = BoundaryContinue | BoundaryLineFeed | BoundaryCarriageReturn

record printed_run =
  run_text :: bytes
  run_boundary :: print_boundary

datatype terminal_operation =
    ScrollUp nat nat nat
  | ScrollDown nat nat nat
  | InsertLines nat nat nat
  | DeleteLines nat nat nat
  | InsertChars nat nat nat
  | DeleteChars nat nat nat
  | EraseChars nat nat nat
  | WriteRun nat nat bytes

record terminal_effects =
  eff_bells :: nat
  eff_title_changed :: bool
  eff_events :: "terminal_event list"

record update_summary =
  us_effects :: terminal_effects
  us_damage :: terminal_damage
  us_pty_replies :: bytes
  us_printed_runs :: "printed_run list"
  us_output_report_structural :: bool
  us_parser_continuation :: bool
  us_operations :: "terminal_operation list"
  us_cursor_operations :: nat
  us_cursor_operations_after_last_line_feed :: nat
  us_line_feed_boundaries :: nat
  us_scroll_operations :: nat
  us_history_changed :: bool
  us_changed_rows :: "row_range list"
  us_cursor_before :: cursor
  us_cursor_after :: cursor
  us_screen_before :: screen_identity
  us_screen_after :: screen_identity
  us_synchronized_output :: bool
  us_synchronized_output_opened :: bool
  us_synchronized_output_closed :: bool
  us_semantic_input_boundary :: bool
  us_cursor_visibility_restored :: bool
  us_batch_count :: nat

definition update_summary_default :: update_summary where
  "update_summary_default =
     \<lparr>us_effects = \<lparr>eff_bells = 0, eff_title_changed = False, eff_events = []\<rparr>, us_damage = DamageNone,
      us_pty_replies = [], us_printed_runs = [], us_output_report_structural = False, us_parser_continuation = False,
      us_operations = [], us_cursor_operations = 0, us_cursor_operations_after_last_line_feed = 0,
      us_line_feed_boundaries = 0, us_scroll_operations = 0, us_history_changed = False, us_changed_rows = [],
      us_cursor_before = cursor_default, us_cursor_after = cursor_default, us_screen_before = PrimaryScreen,
      us_screen_after = PrimaryScreen, us_synchronized_output = False, us_synchronized_output_opened = False,
      us_synchronized_output_closed = False, us_semantic_input_boundary = False,
      us_cursor_visibility_restored = False, us_batch_count = 0\<rparr>"

definition is_dirty :: "terminal_damage \<Rightarrow> bool" where
  "is_dirty d \<longleftrightarrow> d \<noteq> DamageNone"

section \<open>Row ranges\<close>

fun row_ranges_are_normalized :: "row_range list \<Rightarrow> bool" where
  "row_ranges_are_normalized (p # q # rs) \<longleftrightarrow>
     sat_add16 (snd p) 1 < fst q \<and> row_ranges_are_normalized (q # rs)"
| "row_ranges_are_normalized _ \<longleftrightarrow> True"

text \<open>The loop of \<^verbatim>\<open>coalesce_sorted_row_ranges\<close> compacts the vector in place: \<open>write\<close> is
  the number of finished ranges at its front\<close>

fun coalesce_loop :: "row_range list \<Rightarrow> nat \<Rightarrow> nat list \<Rightarrow> row_range list \<times> nat" where
  "coalesce_loop ranges write [] = (ranges, write)"
| "coalesce_loop ranges write (read # reads) =
     (if 0 < write \<and> fst (ranges ! read) \<le> sat_add16 (snd (ranges ! (write - 1))) 1 then
        coalesce_loop
          (ranges[write - 1 := (fst (ranges ! (write - 1)), max (snd (ranges ! (write - 1))) (snd (ranges ! read)))])
          write reads
      else
        coalesce_loop (if write \<noteq> read then ranges[write := ranges ! read] else ranges) (Suc write) reads)"

definition coalesce_sorted_row_ranges :: "row_range list \<Rightarrow> row_range list" where
  "coalesce_sorted_row_ranges ranges =
     (let (ranges, write) = coalesce_loop ranges 0 [0..<length ranges] in take write ranges)"

text \<open>\<^verbatim>\<open>sort_unstable_by_key\<close>: ranges with one start are merged afterwards, so the order among
  them does not matter\<close>

definition normalize_row_ranges :: "row_range list \<Rightarrow> row_range list" where
  "normalize_row_ranges ranges = coalesce_sorted_row_ranges (sort_key fst ranges)"

definition append_sorted_row_range :: "row_range list \<Rightarrow> row_range \<Rightarrow> row_range list" where
  "append_sorted_row_range target rng =
     (if target \<noteq> [] \<and> fst rng \<le> sat_add16 (snd (last target)) 1
      then butlast target @ [(fst (last target), max (snd (last target)) (snd rng))]
      else target @ [rng])"

text \<open>The backwards merge writes into the enlarged target: \<open>left\<close> and \<open>right\<close> are the numbers of
  ranges not yet moved from the target and from the source\<close>

function merge_backwards :: "row_range list \<Rightarrow> row_range list \<Rightarrow> nat \<Rightarrow> nat \<Rightarrow> nat \<Rightarrow> row_range list" where
  "merge_backwards target source left right write =
     (if 0 < left \<or> 0 < right then
        let write = write - 1;
            take_left = (right = 0 \<or> (0 < left \<and> fst (source ! (right - 1)) < fst (target ! (left - 1))))
        in if take_left then
             merge_backwards (if write \<noteq> left - 1 then target[write := target ! (left - 1)] else target)
               source (left - 1) right write
           else merge_backwards (target[write := source ! (right - 1)]) source left (right - 1) write
      else target)"
  by pat_completeness auto
termination
  by (relation "measure (\<lambda>(target, source, left, right, write). left + right)") auto

declare merge_backwards.simps [simp del]

definition merge_row_ranges :: "row_range list \<Rightarrow> row_range list \<Rightarrow> row_range list" where
  "merge_row_ranges target source =
     (let target = (if row_ranges_are_normalized target then target else normalize_row_ranges target);
          source = (if row_ranges_are_normalized source then source else normalize_row_ranges source)
      in if source = [] then target
         else if target = [] then source
         else if fst (last target) \<le> fst (hd source) then foldl append_sorted_row_range target source
         else
           let len = saturating_add_usize (length target) (length source)
           in coalesce_sorted_row_ranges
                (merge_backwards (target @ replicate (len - length target) (0, 0)) source
                   (length target) (length source) len))"

fun merge_damage :: "terminal_damage \<Rightarrow> terminal_damage \<Rightarrow> terminal_damage" where
  "merge_damage DamageFull _ = DamageFull"
| "merge_damage _ DamageFull = DamageFull"
| "merge_damage DamageNone damage = damage"
| "merge_damage damage DamageNone = damage"
| "merge_damage (DamageRows left) (DamageRows right) = DamageRows (merge_row_ranges left right)"

definition full_row_range :: "nat \<Rightarrow> row_range list" where
  "full_row_range rows = (if 0 < rows then [(0, rows - 1)] else [])"

section \<open>Printed text\<close>

definition append_printed_run :: "printed_run list \<Rightarrow> printed_run \<Rightarrow> printed_run list" where
  "append_printed_run target run =
     (if run_boundary run = BoundaryLineFeed \<and> run_text run = [] \<and> target \<noteq> [] \<and>
         run_boundary (last target) = BoundaryCarriageReturn \<and> run_text (last target) = []
      then butlast target @ [(last target)\<lparr>run_boundary := BoundaryLineFeed\<rparr>]
      else if run_boundary run = BoundaryContinue \<and> target \<noteq> []
      then butlast target @ [(last target)\<lparr>run_text := run_text (last target) @ run_text run\<rparr>]
      else target @ [run])"

definition append_printed_runs :: "printed_run list \<Rightarrow> printed_run list \<Rightarrow> printed_run list" where
  "append_printed_runs target source = foldl append_printed_run target source"

text \<open>The text up to and including its last line feed (\<^verbatim>\<open>truncate\<close> at \<^verbatim>\<open>rfind\<close>)\<close>

definition truncate_line :: "bytes \<Rightarrow> bytes" where
  "truncate_line text = rev (dropWhile (\<lambda>c. c \<noteq> CHR 0x0A) (rev text))"

definition printed_step :: "bytes \<Rightarrow> printed_run \<Rightarrow> bytes" where
  "printed_step text run =
     (case run_boundary run of
        BoundaryContinue \<Rightarrow> text
      | BoundaryLineFeed \<Rightarrow> if text \<noteq> [] then text @ [CHR 0x0A] else text
      | BoundaryCarriageReturn \<Rightarrow> truncate_line text) @ run_text run"

definition printed_text :: "update_summary \<Rightarrow> bytes" where
  "printed_text s = foldl printed_step [] (us_printed_runs s)"

definition has_linear_output_report :: "update_summary \<Rightarrow> bool" where
  "has_linear_output_report s \<longleftrightarrow>
     0 < us_batch_count s \<and> \<not> us_output_report_structural s \<and> \<not> us_parser_continuation s \<and>
     us_screen_before s = PrimaryScreen \<and> us_screen_after s = PrimaryScreen"

fun residual_loop :: "bool \<Rightarrow> printed_run list \<Rightarrow> bool" where
  "residual_loop content [] = True"
| "residual_loop content (run # runs) =
     (case run_boundary run of
        BoundaryContinue \<Rightarrow> residual_loop (content \<or> run_text run \<noteq> []) runs
      | BoundaryLineFeed \<Rightarrow> residual_loop (run_text run \<noteq> []) runs
      | BoundaryCarriageReturn \<Rightarrow> \<not> content \<and> residual_loop (run_text run \<noteq> []) runs)"

definition residual_carriage_returns_are_record_prefixes :: "update_summary \<Rightarrow> bool" where
  "residual_carriage_returns_are_record_prefixes s =
     residual_loop (cur_col (us_cursor_before s) \<noteq> 0) (us_printed_runs s)"

definition completes_linear_output_record :: "update_summary \<Rightarrow> bool" where
  "completes_linear_output_record s \<longleftrightarrow>
     has_linear_output_report s \<and> residual_carriage_returns_are_record_prefixes s \<and>
     us_printed_runs s \<noteq> [] \<and> run_boundary (last (us_printed_runs s)) = BoundaryLineFeed \<and>
     run_text (last (us_printed_runs s)) = []"

section \<open>Operation hints\<close>

definition MAX_COALESCED_WRITE_RUN_COLUMNS :: nat where
  "MAX_COALESCED_WRITE_RUN_COLUMNS = 256"

definition MAX_COALESCED_WRITE_RUN_BYTES :: nat where
  "MAX_COALESCED_WRITE_RUN_BYTES = MAX_COALESCED_WRITE_RUN_COLUMNS * 4"

definition write_run_end_col :: "nat \<Rightarrow> bytes \<Rightarrow> nat" where
  "write_run_end_col col text =
     sat_add16 col (try_u16 (if list_all is_ascii text then length text else length (utf8_chars text)))"

definition append_terminal_write_run_chunk :: "terminal_operation list \<Rightarrow> nat \<Rightarrow> nat \<Rightarrow> bytes \<Rightarrow> terminal_operation list" where
  "append_terminal_write_run_chunk target row col text =
     (case (if target = [] then None else Some (last target)) of
        Some (WriteRun previous_row previous_col previous_text) \<Rightarrow>
          if previous_row = row \<and>
             previous_col div MAX_COALESCED_WRITE_RUN_COLUMNS = col div MAX_COALESCED_WRITE_RUN_COLUMNS \<and>
             (case checked_add_usize (length previous_text) (length text) of
                Some len \<Rightarrow> len \<le> MAX_COALESCED_WRITE_RUN_BYTES | None \<Rightarrow> False) \<and>
             write_run_end_col previous_col previous_text = col
          then butlast target @ [WriteRun previous_row previous_col (previous_text @ text)]
          else target @ [WriteRun row col text]
      | _ \<Rightarrow> target @ [WriteRun row col text])"

text \<open>The loop over the characters of a run: \<open>chunk\<close> is the text since \<^verbatim>\<open>chunk_start\<close>\<close>

definition chunk_limit :: "nat \<Rightarrow> nat" where
  "chunk_limit col = MAX_COALESCED_WRITE_RUN_COLUMNS - col mod MAX_COALESCED_WRITE_RUN_COLUMNS"

fun write_run_loop :: "terminal_operation list \<Rightarrow> nat \<Rightarrow> nat \<Rightarrow> bytes \<Rightarrow> nat \<Rightarrow> bytes list \<Rightarrow> terminal_operation list" where
  "write_run_loop target row chunk_col chunk chunk_columns [] =
     append_terminal_write_run_chunk target row chunk_col chunk"
| "write_run_loop target row chunk_col chunk chunk_columns (ch # chs) =
     (if chunk_columns = chunk_limit chunk_col then
        let target = append_terminal_write_run_chunk target row chunk_col chunk;
            chunk_col = sat_add16 chunk_col (try_u16 chunk_columns)
        in if chunk_col = u16_max then append_terminal_write_run_chunk target row chunk_col (concat (ch # chs))
           else write_run_loop target row chunk_col ch 1 chs
      else write_run_loop target row chunk_col (chunk @ ch) (saturating_add_usize chunk_columns 1) chs)"

definition append_terminal_write_run :: "terminal_operation list \<Rightarrow> nat \<Rightarrow> nat \<Rightarrow> bytes \<Rightarrow> terminal_operation list" where
  "append_terminal_write_run target row col text =
     (if text = [] \<or> col = u16_max then append_terminal_write_run_chunk target row col text
      else write_run_loop target row col [] 0 (utf8_chars text))"

definition append_terminal_operation :: "terminal_operation list \<Rightarrow> terminal_operation \<Rightarrow> terminal_operation list" where
  "append_terminal_operation target operation =
     (case operation of
        WriteRun row col text \<Rightarrow> append_terminal_write_run target row col text
      | operation \<Rightarrow> target @ [operation])"

definition append_terminal_operations :: "terminal_operation list \<Rightarrow> terminal_operation list \<Rightarrow> terminal_operation list" where
  "append_terminal_operations target source = foldl append_terminal_operation target source"

section \<open>Merging summaries\<close>

definition summary_merge :: "update_summary \<Rightarrow> update_summary \<Rightarrow> update_summary" where
  "summary_merge self next =
     (if us_batch_count next = 0 then self
      else
        let first = us_batch_count self = 0
        in \<lparr>us_effects =
              \<lparr>eff_bells = saturating_add_usize (eff_bells (us_effects self)) (eff_bells (us_effects next)),
               eff_title_changed = (eff_title_changed (us_effects self) \<or> eff_title_changed (us_effects next)),
               eff_events = eff_events (us_effects self) @ eff_events (us_effects next)\<rparr>,
            us_damage = merge_damage (us_damage self) (us_damage next),
            us_pty_replies = us_pty_replies self @ us_pty_replies next,
            us_printed_runs = append_printed_runs (us_printed_runs self) (us_printed_runs next),
            us_output_report_structural = (us_output_report_structural self \<or> us_output_report_structural next),
            us_parser_continuation = us_parser_continuation next,
            us_operations = append_terminal_operations (us_operations self) (us_operations next),
            us_cursor_operations = saturating_add_usize (us_cursor_operations self) (us_cursor_operations next),
            us_cursor_operations_after_last_line_feed =
              (if 0 < us_line_feed_boundaries next then us_cursor_operations_after_last_line_feed next
               else saturating_add_usize (us_cursor_operations_after_last_line_feed self)
                      (us_cursor_operations_after_last_line_feed next)),
            us_line_feed_boundaries =
              saturating_add_usize (us_line_feed_boundaries self) (us_line_feed_boundaries next),
            us_scroll_operations = saturating_add_usize (us_scroll_operations self) (us_scroll_operations next),
            us_history_changed = (us_history_changed self \<or> us_history_changed next),
            us_changed_rows = merge_row_ranges (us_changed_rows self) (us_changed_rows next),
            us_cursor_before = (if first then us_cursor_before next else us_cursor_before self),
            us_cursor_after = us_cursor_after next,
            us_screen_before = (if first then us_screen_before next else us_screen_before self),
            us_screen_after = us_screen_after next,
            us_synchronized_output = us_synchronized_output next,
            us_synchronized_output_opened = (us_synchronized_output_opened self \<or> us_synchronized_output_opened next),
            us_synchronized_output_closed = us_synchronized_output_closed next,
            us_semantic_input_boundary = us_semantic_input_boundary next,
            us_cursor_visibility_restored = us_cursor_visibility_restored next,
            us_batch_count = saturating_add_usize (us_batch_count self) (us_batch_count next)\<rparr>)"

section \<open>Row ranges are kept in canonical form\<close>

abbreviation valid_range :: "row_range \<Rightarrow> bool" where
  "valid_range r \<equiv> fst r \<le> snd r \<and> snd r \<le> u16_max"

definition rows_of :: "row_range list \<Rightarrow> nat set" where
  "rows_of rs = (\<Union>r \<in> set rs. {fst r..snd r})"

abbreviation canonical :: "row_range list \<Rightarrow> bool" where
  "canonical rs \<equiv> row_ranges_are_normalized rs \<and> list_all valid_range rs"

lemma rows_of_simps [simp]:
  "rows_of [] = {}" "rows_of (r # rs) = {fst r..snd r} \<union> rows_of rs" "rows_of (xs @ ys) = rows_of xs \<union> rows_of ys"
  by (auto simp: rows_of_def)

lemma normalized_snoc:
  "row_ranges_are_normalized (rs @ [r]) \<longleftrightarrow>
     row_ranges_are_normalized rs \<and> (rs \<noteq> [] \<longrightarrow> sat_add16 (snd (last rs)) 1 < fst r)"
  by (induction rs rule: row_ranges_are_normalized.induct) auto

lemma normalized_last: "row_ranges_are_normalized (rs @ [r]) \<Longrightarrow> fst r' = fst r \<Longrightarrow> row_ranges_are_normalized (rs @ [r'])"
  by (simp add: normalized_snoc)

text \<open>Appending one range that does not start before the last one\<close>

lemma append_range_canonical:
  assumes "canonical target" and "valid_range r" and "target \<noteq> [] \<Longrightarrow> fst (last target) \<le> fst r"
  shows "canonical (append_sorted_row_range target r) \<and>
    rows_of (append_sorted_row_range target r) = rows_of target \<union> {fst r..snd r} \<and>
    append_sorted_row_range target r \<noteq> [] \<and> fst (last (append_sorted_row_range target r)) \<le> fst r"
proof (cases target rule: rev_cases)
  case (snoc rs p)
  have norm: "row_ranges_are_normalized (rs @ [p])" and valid: "list_all valid_range rs" "valid_range p"
    and start: "fst p \<le> fst r"
    using assms snoc by simp_all
  show ?thesis
  proof (cases "fst r \<le> sat_add16 (snd p) 1")
    case True
    let ?m = "(fst p, max (snd p) (snd r))"
    have eq: "append_sorted_row_range target r = rs @ [?m]"
      using True snoc by (simp add: append_sorted_row_range_def)
    have rows: "{fst p..snd p} \<union> {fst r..snd r} = {fst p..max (snd p) (snd r)}"
      using True valid(2) assms(2) start by (auto simp: sat_add16_def)
    have "valid_range ?m" using valid(2) assms(2) start by (simp add: le_max_iff_disj)
    moreover have "row_ranges_are_normalized (rs @ [?m])" using norm by (rule normalized_last) simp
    ultimately show ?thesis using valid(1) start rows unfolding eq by (simp add: snoc Un_assoc)
  next
    case False
    have eq: "append_sorted_row_range target r = target @ [r]"
      using False snoc by (simp add: append_sorted_row_range_def)
    have "row_ranges_are_normalized (target @ [r])"
      using False norm normalized_snoc [of "rs @ [p]" r] snoc by (simp del: append_assoc)
    then show ?thesis using assms(1,2) by (simp add: eq)
  qed
qed (use assms in \<open>simp add: append_sorted_row_range_def\<close>)

lemma append_ranges_canonical:
  assumes "canonical target" and "list_all valid_range rs" and "sorted (map fst rs)"
    and "target \<noteq> [] \<Longrightarrow> rs \<noteq> [] \<Longrightarrow> fst (last target) \<le> fst (hd rs)"
  shows "canonical (foldl append_sorted_row_range target rs) \<and>
    rows_of (foldl append_sorted_row_range target rs) = rows_of target \<union> rows_of rs"
  using assms
proof (induction rs arbitrary: target)
  case (Cons r rs)
  note step = append_range_canonical [of target r]
  have "rs \<noteq> [] \<Longrightarrow> fst (last (append_sorted_row_range target r)) \<le> fst (hd rs)"
    using step Cons.prems by (cases rs) fastforce+
  with Cons step show ?case by (simp add: Un_assoc)
qed simp

lemma append_ranges_same:
  "row_ranges_are_normalized rs \<Longrightarrow> foldl append_sorted_row_range [] rs = rs"
proof (induction rs rule: rev_induct)
  case (snoc r rs)
  then show ?case by (auto simp: normalized_snoc append_sorted_row_range_def)
qed simp

text \<open>The compaction in place appends the ranges one by one\<close>

lemma coalesce_loop_append:
  assumes "write \<le> read" and "read \<le> length ranges"
  shows "(let (rs, w) = coalesce_loop ranges write [read..<length ranges] in take w rs) =
    foldl append_sorted_row_range (take write ranges) (drop read ranges)"
  using assms
proof (induction "length ranges - read" arbitrary: ranges "write" read)
  case (Suc n)
  then have read: "read < length ranges" by simp
  then have reads: "[read..<length ranges] = read # [Suc read..<length ranges]"
    and rest: "drop read ranges = ranges ! read # drop (Suc read) ranges"
    by (simp_all add: upt_conv_Cons Cons_nth_drop_Suc)
  have last: "last (take write ranges) = ranges ! (write - 1)" if "0 < write"
    using that Suc.prems read by (cases "write") (simp_all add: take_Suc_conv_app_nth)
  show ?case
  proof (cases "0 < write \<and> fst (ranges ! read) \<le> sat_add16 (snd (ranges ! (write - 1))) 1")
    case True
    let ?r = "(fst (ranges ! (write - 1)), max (snd (ranges ! (write - 1))) (snd (ranges ! read)))"
    let ?ranges = "ranges[write - 1 := ?r]"
    have "take write ?ranges = append_sorted_row_range (take write ranges) (ranges ! read)"
      using True last read Suc.prems
      by (cases "write") (auto simp: append_sorted_row_range_def take_Suc_conv_app_nth butlast_take)
    moreover have "drop (Suc read) ?ranges = drop (Suc read) ranges" using True Suc.prems by simp
    moreover have "n = length ?ranges - Suc read" using Suc.hyps(2) by simp
    ultimately show ?thesis
      using Suc.hyps(1) [of ?ranges "Suc read" "write"] Suc.prems read True by (simp add: reads rest)
  next
    case False
    let ?ranges = "ranges[write := ranges ! read]"
    have step: "coalesce_loop ranges write (read # reads) = coalesce_loop ?ranges (Suc write) reads" for reads
      using False by auto
    have "take (Suc write) ?ranges = take write ranges @ [ranges ! read]"
      using read Suc.prems by (subst take_Suc_conv_app_nth) simp_all
    then have "take (Suc write) ?ranges = append_sorted_row_range (take write ranges) (ranges ! read)"
      using False last by (cases "write = 0") (simp_all add: append_sorted_row_range_def)
    moreover have "drop (Suc read) ?ranges = drop (Suc read) ranges" using Suc.prems by simp
    moreover have "n = length ?ranges - Suc read" using Suc.hyps(2) by simp
    ultimately show ?thesis
      using Suc.hyps(1) [of ?ranges "Suc read" "Suc write"] Suc.prems read step
      by (simp add: reads rest del: coalesce_loop.simps)
  qed
qed simp

lemma coalesce_append: "coalesce_sorted_row_ranges ranges = foldl append_sorted_row_range [] ranges"
  using coalesce_loop_append [of 0 0 ranges] by (simp add: coalesce_sorted_row_ranges_def)

text \<open>The merge from the back is a sorted merge\<close>

lemma sorted_take_last:
  assumes "sorted (map fst (take (Suc k) xs))" and "k < length xs" and "x \<in> set (take k xs)"
  shows "fst x \<le> fst (xs ! k)"
  using assms by (auto simp: take_Suc_conv_app_nth sorted_append)

lemma merge_backwards_sorted:
  assumes "left + right \<le> length target" and "right \<le> length source"
    and "sorted (map fst (take left target))" and "sorted (map fst (take right source))"
  shows "\<exists>m. merge_backwards target source left right (left + right) = m @ drop (left + right) target \<and>
    mset m = mset (take left target) + mset (take right source) \<and> sorted (map fst m)"
  using assms
proof (induction "left + right" arbitrary: target left right)
  case 0
  then show ?case by (simp add: merge_backwards.simps)
next
  case (Suc n)
  let ?take_left = "right = 0 \<or> (0 < left \<and> fst (source ! (right - 1)) < fst (target ! (left - 1)))"
  show ?case
  proof (cases ?take_left)
    case True
    then obtain l where l: "left = Suc l" using Suc.hyps(2) by (cases left) auto
    let ?x = "target ! l"
    let ?target = "target[n := ?x]"
    have n: "n = l + right" using Suc.hyps(2) l by simp
    have same: "take l ?target = take l target" using n by simp
    obtain m where m: "merge_backwards ?target source l right (l + right) = m @ drop (l + right) ?target"
      "mset m = mset (take l target) + mset (take right source)" "sorted (map fst m)"
      using Suc.hyps(1) [OF n, of ?target] Suc.prems l same
      by (auto simp: take_Suc_conv_app_nth sorted_append)
    have tail: "drop (l + right) ?target = ?x # drop (left + right) target"
      using Suc.prems(1) n l by (simp add: Cons_nth_drop_Suc [symmetric])
    have "fst y \<le> fst ?x" if "y \<in> set m" for y
    proof -
      have "y \<in> set (take l target) \<or> y \<in> set (take right source)"
        using that m(2) by (metis set_mset_mset set_mset_union UnE)
      then show ?thesis
      proof
        assume "y \<in> set (take l target)"
        then show ?thesis using sorted_take_last [of l target y] Suc.prems l by simp
      next
        assume y: "y \<in> set (take right source)"
        then obtain r where r: "right = Suc r" by (cases right) auto
        have "fst y \<le> fst (source ! r)"
          using y Suc.prems r by (auto simp: take_Suc_conv_app_nth sorted_append)
        then show ?thesis using True r l by simp
      qed
    qed
    then have "sorted (map fst (m @ [?x]))" using m(3) by (auto simp: sorted_append)
    moreover have "merge_backwards target source left right (left + right) = (m @ [?x]) @ drop (left + right) target"
      using m(1) tail True l n
      by (subst merge_backwards.simps) (cases "n = l"; simp add: list_update_id)
    moreover have "mset (m @ [?x]) = mset (take left target) + mset (take right source)"
      using m(2) Suc.prems l by (simp add: take_Suc_conv_app_nth)
    ultimately show ?thesis by blast
  next
    case False
    then obtain r where r: "right = Suc r" by (cases right) auto
    let ?x = "source ! r"
    let ?target = "target[n := ?x]"
    have n: "n = left + r" using Suc.hyps(2) r by simp
    obtain m where m: "merge_backwards ?target source left r (left + r) = m @ drop (left + r) ?target"
      "mset m = mset (take left target) + mset (take r source)" "sorted (map fst m)"
      using Suc.hyps(1) [OF n, of ?target] Suc.prems r n
      by (auto simp: take_Suc_conv_app_nth sorted_append)
    have tail: "drop (left + r) ?target = ?x # drop (left + right) target"
      using Suc.prems(1) n r by (simp add: Cons_nth_drop_Suc [symmetric])
    have "fst y \<le> fst ?x" if "y \<in> set m" for y
    proof -
      have "y \<in> set (take left target) \<or> y \<in> set (take r source)"
        using that m(2) by (metis set_mset_mset set_mset_union UnE)
      then show ?thesis
      proof
        assume y: "y \<in> set (take left target)"
        then obtain l where l: "left = Suc l" by (cases left) auto
        have "fst y \<le> fst (target ! l)"
          using y Suc.prems l by (auto simp: take_Suc_conv_app_nth sorted_append)
        then show ?thesis using False r l by simp
      next
        assume "y \<in> set (take r source)"
        then show ?thesis using sorted_take_last [of r source y] Suc.prems r by simp
      qed
    qed
    then have "sorted (map fst (m @ [?x]))" using m(3) by (auto simp: sorted_append)
    moreover have "merge_backwards target source left right (left + right) = (m @ [?x]) @ drop (left + right) target"
      using m(1) tail False r n by (subst merge_backwards.simps) (auto simp: Let_def)
    moreover have "mset (m @ [?x]) = mset (take left target) + mset (take right source)"
      using m(2) Suc.prems r by (simp add: take_Suc_conv_app_nth)
    ultimately show ?thesis by blast
  qed
qed

lemma normalized_sorted: "canonical rs \<Longrightarrow> sorted (map fst rs)"
proof (induction rs rule: row_ranges_are_normalized.induct)
  case (1 p q rs)
  then have "fst p \<le> fst q" by (auto simp: sat_add16_def)
  then show ?case using 1 by (auto intro: order_trans)
qed simp_all

text \<open>A canonical list is determined by the rows it covers\<close>

lemma canonical_head:
  assumes "canonical (p # rs)"
  shows "\<forall>x \<in> rows_of rs. Suc (snd p) < x"
  using assms
proof (induction rs arbitrary: p)
  case (Cons q rs)
  then have "Suc (snd p) < fst q" by (auto simp: sat_add16_def min_def split: if_splits)
  moreover have "\<forall>x \<in> rows_of rs. Suc (snd q) < x" "fst q \<le> snd q" using Cons by auto
  ultimately show ?case by fastforce
qed simp

lemma canonical_tl: "canonical (p # rs) \<Longrightarrow> canonical rs"
  by (cases rs) simp_all

lemma canonical_unique:
  assumes "canonical xs" and "canonical ys" and "rows_of xs = rows_of ys"
  shows "xs = ys"
  using assms
proof (induction xs arbitrary: ys)
  case Nil
  then show ?case by (cases ys) auto
next
  case (Cons p xs)
  then obtain q zs where ys: "ys = q # zs" by (cases ys) auto
  note p = canonical_head [OF Cons.prems(1)] and q = canonical_head [OF Cons.prems(2) [unfolded ys]]
  have vp: "fst p \<le> snd p" and vq: "fst q \<le> snd q" using Cons.prems ys by auto
  have rows: "{fst p..snd p} \<union> rows_of xs = {fst q..snd q} \<union> rows_of zs" using Cons.prems(3) ys by simp
  have "fst p \<in> {fst q..snd q} \<union> rows_of zs" "fst q \<in> {fst p..snd p} \<union> rows_of xs"
    using rows vp vq by auto
  then have starts: "fst q \<le> fst p" "fst p \<le> fst q" using p q vp vq by (meson UnE atLeastAtMost_iff le_trans less_imp_le Suc_leD)+
  have ends: "snd p = snd q"
  proof (rule ccontr)
    assume "snd p \<noteq> snd q"
    then consider "snd p < snd q" | "snd q < snd p" by linarith
    then show False
    proof cases
      case 1
      then have "Suc (snd p) \<in> {fst p..snd p} \<union> rows_of xs" using rows starts vp by auto
      then show ?thesis using p by fastforce
    next
      case 2
      then have "Suc (snd q) \<in> {fst p..snd p} \<union> rows_of xs" using starts vq by auto
      then have "Suc (snd q) \<in> {fst q..snd q} \<union> rows_of zs" by (simp only: rows)
      then show ?thesis using q by fastforce
    qed
  qed
  have "rows_of xs = ({fst p..snd p} \<union> rows_of xs) - {..snd p}" using p by auto
  also have "\<dots> = ({fst q..snd q} \<union> rows_of zs) - {..snd p}" by (subst rows) (rule refl)
  also have "\<dots> = rows_of zs" using q by (auto simp: ends)
  finally have "rows_of xs = rows_of zs" .
  moreover have "canonical xs" "canonical zs"
    using canonical_tl [OF Cons.prems(1)] canonical_tl [OF Cons.prems(2) [unfolded ys]] by blast+
  ultimately have "xs = zs" using Cons.IH by blast
  then show ?case using starts ends ys by (simp add: prod_eq_iff)
qed

lemma coalesce_sorted:
  assumes "list_all valid_range rs" and "sorted (map fst rs)"
  shows "canonical (coalesce_sorted_row_ranges rs) \<and> rows_of (coalesce_sorted_row_ranges rs) = rows_of rs"
  using append_ranges_canonical [of "[]" rs] assms by (simp add: coalesce_append)

lemma normalize_canonical:
  assumes "list_all valid_range rs"
  shows "canonical (normalize_row_ranges rs) \<and> rows_of (normalize_row_ranges rs) = rows_of rs"
proof -
  have "rows_of (sort_key fst rs) = rows_of rs" by (simp add: rows_of_def)
  moreover have "list_all valid_range (sort_key fst rs)" using assms by (simp add: list_all_iff)
  ultimately show ?thesis using coalesce_sorted [of "sort_key fst rs"] by (simp add: normalize_row_ranges_def)
qed

lemma canonical_length:
  assumes "canonical rs"
  shows "length rs \<le> 65536"
proof -
  have "distinct (map fst rs) \<and> set (map fst rs) \<subseteq> {..65535}" using assms
  proof (induction rs)
    case (Cons p rs)
    have "canonical rs" by (rule canonical_tl [OF Cons.prems])
    moreover have "fst p \<notin> fst ` set rs"
    proof
      assume "fst p \<in> fst ` set rs"
      then obtain q where "q \<in> set rs" "fst p = fst q" by blast
      then have "fst p \<in> rows_of rs" using Cons.prems by (auto simp: rows_of_def list_all_iff intro!: bexI [of _ q])
      then show False using canonical_head [OF Cons.prems] Cons.prems by fastforce
    qed
    ultimately show ?case using Cons by (auto simp: u16_max_def)
  qed simp
  then have distinct: "distinct (map fst rs)" and "set (map fst rs) \<subseteq> {..65535}" by blast+
  then have "card (set (map fst rs)) \<le> card {..65535::nat}" by (intro card_mono) simp_all
  then show ?thesis using distinct_card [OF distinct] by simp
qed

lemma merge_canonical:
  assumes "canonical target" and "canonical source"
  shows "canonical (merge_row_ranges target source) \<and>
    rows_of (merge_row_ranges target source) = rows_of target \<union> rows_of source"
proof (cases "source = [] \<or> target = [] \<or> fst (last target) \<le> fst (hd source)")
  case True
  then show ?thesis
    using append_ranges_canonical [of target source] assms normalized_sorted [of source]
    by (auto simp: merge_row_ranges_def)
next
  case False
  have len: "saturating_add_usize (length target) (length source) = length target + length source"
    using canonical_length [OF assms(1)] canonical_length [OF assms(2)]
    by (simp add: saturating_add_usize_def usize_max_def)
  let ?target = "target @ replicate (length source) (0, 0)"
  obtain m where m: "merge_backwards ?target source (length target) (length source) (length target + length source) = m"
    "mset m = mset target + mset source" "sorted (map fst m)"
    using merge_backwards_sorted [of "length target" "length source" ?target source]
      normalized_sorted [OF assms(1)] normalized_sorted [OF assms(2)] by auto
  then have set: "set m = set target \<union> set source" by (metis set_mset_mset set_mset_union)
  then have "rows_of m = rows_of target \<union> rows_of source" by (auto simp: rows_of_def)
  moreover have "list_all valid_range m" using set assms by (auto simp: list_all_iff)
  ultimately show ?thesis
    using coalesce_sorted [of m] False assms m by (simp add: merge_row_ranges_def len)
qed

lemma merge_ranges_canonical:
  assumes "list_all valid_range target" and "list_all valid_range source"
  shows "canonical (merge_row_ranges target source) \<and>
    rows_of (merge_row_ranges target source) = rows_of target \<union> rows_of source"
proof -
  let ?n = "\<lambda>rs. if row_ranges_are_normalized rs then rs else normalize_row_ranges rs"
  have n: "canonical (?n rs) \<and> rows_of (?n rs) = rows_of rs" if "list_all valid_range rs" for rs
    using normalize_canonical [OF that] that by simp
  have "merge_row_ranges target source = merge_row_ranges (?n target) (?n source)"
    using n [OF assms(1)] n [OF assms(2)] by (simp add: merge_row_ranges_def)
  then show ?thesis
    using merge_canonical [of "?n target" "?n source"] n [OF assms(1)] n [OF assms(2)] by metis
qed

text \<open>
  C18: damage is merged exactly. For ranges of rows as the terminal reports them, the in-place
  merge of two lists covers the union of their rows and nothing else, its result is the canonical
  list of separated ranges, and it is what sorting and coalescing all ranges from scratch gives.
\<close>

theorem merge_row_ranges_exact:
  assumes "list_all valid_range target" and "list_all valid_range source"
  shows "rows_of (merge_row_ranges target source) = rows_of target \<union> rows_of source \<and>
    canonical (merge_row_ranges target source) \<and>
    merge_row_ranges target source = normalize_row_ranges (target @ source)"
proof -
  note merged = merge_ranges_canonical [OF assms]
  moreover have "merge_row_ranges target source = normalize_row_ranges (target @ source)"
    using merged normalize_canonical [of "target @ source"] assms by (intro canonical_unique) simp_all
  ultimately show ?thesis by blast
qed

theorem merge_row_ranges_exact_witness:
  "merge_row_ranges [(4, 6), (1, 2)] [(0, 0), (9, 9)] = normalize_row_ranges [(4, 6), (1, 2), (0, 0), (9, 9)] \<and>
   rows_of (merge_row_ranges [(4, 6), (1, 2)] [(0, 0), (9, 9)]) = {0, 1, 2, 4, 5, 6, 9}"
proof -
  have "list_all valid_range [(4, 6), (1, 2)]" "list_all valid_range [(0, 0), (9, 9)]" by (simp_all add: u16_max_def)
  note merged = merge_row_ranges_exact [OF this]
  have "rows_of [(4, 6), (1, 2)] \<union> rows_of [(0, 0), (9, 9)] = {0, 1, 2, 4, 5, 6, 9}"
    by (auto simp: rows_of_def)
  then show ?thesis using merged by (metis append_Cons append_Nil)
qed

section \<open>Printed records\<close>

text \<open>The text of the runs when carriage returns are not obeyed\<close>

definition plain_step :: "bytes \<Rightarrow> printed_run \<Rightarrow> bytes" where
  "plain_step text run =
     (if run_boundary run = BoundaryLineFeed \<and> text \<noteq> [] then text @ [CHR 0x0A] else text) @ run_text run"

definition plain_text :: "printed_run list \<Rightarrow> bytes" where
  "plain_text runs = foldl plain_step [] runs"

lemma truncate_line_start: "truncate_line (text @ [CHR 0x0A]) = text @ [CHR 0x0A]"
  by (simp add: truncate_line_def)

definition at_line_start :: "bytes \<Rightarrow> bool" where
  "at_line_start text \<longleftrightarrow> text = [] \<or> last text = CHR 0x0A"

lemma truncate_at_line_start: "at_line_start text \<Longrightarrow> truncate_line text = text"
  by (cases "text" rule: rev_cases) (simp add: truncate_line_def, auto simp: at_line_start_def truncate_line_start)

lemma residual_loop_plain:
  assumes "residual_loop content runs" and "\<not> content \<Longrightarrow> at_line_start text"
  shows "foldl printed_step text runs = foldl plain_step text runs"
  using assms
proof (induction content runs arbitrary: "text" rule: residual_loop.induct)
  case (2 content run runs)
  have "printed_step text run = plain_step text run"
    using 2(4,5) truncate_at_line_start
    by (cases "run_boundary run") (auto simp: printed_step_def plain_step_def)
  moreover have "foldl printed_step (plain_step text run) runs = foldl plain_step (plain_step text run) runs"
  proof (cases "run_boundary run")
    case BoundaryContinue
    then have "plain_step text run = text @ run_text run" by (simp add: plain_step_def)
    then show ?thesis using 2(1) [OF BoundaryContinue, of "plain_step text run"] 2(4,5) BoundaryContinue by auto
  next
    case BoundaryLineFeed
    then have "run_text run = [] \<Longrightarrow> at_line_start (plain_step text run)"
      by (simp add: plain_step_def at_line_start_def)
    then show ?thesis using 2(2) [OF BoundaryLineFeed, of "plain_step text run"] 2(4) BoundaryLineFeed by auto
  next
    case BoundaryCarriageReturn
    then have "plain_step text run = text @ run_text run" by (simp add: plain_step_def)
    then show ?thesis using 2(3) [OF BoundaryCarriageReturn, of "plain_step text run"] 2(4,5) BoundaryCarriageReturn by auto
  qed
  ultimately show ?case by simp
qed simp

text \<open>
  C32: a record that is finalized early is complete. When \<^verbatim>\<open>completes_linear_output_record\<close> lets
  an output record be spoken without waiting for the screen to settle, obeying the carriage
  returns between its runs has dropped no printed text: the text is that of all runs in order
  with a line feed between lines.
\<close>

theorem linear_record_complete:
  assumes "completes_linear_output_record s"
  shows "printed_text s = plain_text (us_printed_runs s)"
  using assms residual_loop_plain [of "cur_col (us_cursor_before s) \<noteq> 0" "us_printed_runs s" "[]"]
  by (simp add: completes_linear_output_record_def residual_carriage_returns_are_record_prefixes_def
      printed_text_def plain_text_def at_line_start_def)

theorem linear_record_complete_witness:
  "printed_text (update_summary_default\<lparr>us_batch_count := 1, us_printed_runs :=
       [\<lparr>run_text = ''ab'', run_boundary = BoundaryContinue\<rparr>, \<lparr>run_text = [], run_boundary = BoundaryLineFeed\<rparr>,
        \<lparr>run_text = ''c'', run_boundary = BoundaryCarriageReturn\<rparr>, \<lparr>run_text = [], run_boundary = BoundaryLineFeed\<rparr>]\<rparr>)
   = ''ab'' @ [CHR 0x0A] @ ''c'' @ [CHR 0x0A]"
  (is "printed_text ?s = _")
proof -
  have "completes_linear_output_record ?s"
    by (simp add: completes_linear_output_record_def has_linear_output_report_def
        residual_carriage_returns_are_record_prefixes_def update_summary_default_def cursor_default_def)
  from linear_record_complete [OF this] show ?thesis
    by (simp add: plain_text_def plain_step_def)
qed

section \<open>Merging a sequence of summaries\<close>

text \<open>Damage as the set of rows to redraw on a screen\<close>

fun damage_rows :: "terminal_damage \<Rightarrow> nat set" where
  "damage_rows DamageNone = {}"
| "damage_rows (DamageRows rs) = rows_of rs"
| "damage_rows DamageFull = UNIV"

definition summary_valid :: "update_summary \<Rightarrow> bool" where
  "summary_valid s \<longleftrightarrow> list_all valid_range (us_changed_rows s) \<and>
     (case us_damage s of DamageRows rs \<Rightarrow> list_all valid_range rs | _ \<Rightarrow> True)"

definition merge_all :: "update_summary list \<Rightarrow> update_summary" where
  "merge_all ss = foldl summary_merge update_summary_default ss"

lemma merge_row_ranges_rows:
  assumes "list_all valid_range target" and "list_all valid_range source"
  shows "rows_of (merge_row_ranges target source) = rows_of target \<union> rows_of source"
    and "list_all valid_range (merge_row_ranges target source)"
  using merge_ranges_canonical [OF assms] by blast+

lemma merge_damage_rows:
  assumes "case d of DamageRows rs \<Rightarrow> list_all valid_range rs | _ \<Rightarrow> True"
    and "case e of DamageRows rs \<Rightarrow> list_all valid_range rs | _ \<Rightarrow> True"
  shows "damage_rows (merge_damage d e) = damage_rows d \<union> damage_rows e"
    and "case merge_damage d e of DamageRows rs \<Rightarrow> list_all valid_range rs | _ \<Rightarrow> True"
  using assms by (cases d; cases e; simp add: merge_row_ranges_rows)+

definition accounts :: "update_summary list \<Rightarrow> update_summary \<Rightarrow> bool" where
  "accounts ss m \<longleftrightarrow>
     damage_rows (us_damage m) = (\<Union>s \<in> set ss. damage_rows (us_damage s)) \<and>
     rows_of (us_changed_rows m) = (\<Union>s \<in> set ss. rows_of (us_changed_rows s)) \<and>
     us_pty_replies m = concat (map us_pty_replies ss) \<and>
     eff_events (us_effects m) = concat (map (\<lambda>s. eff_events (us_effects s)) ss) \<and>
     (us_output_report_structural m \<longleftrightarrow> (\<exists>s \<in> set ss. us_output_report_structural s)) \<and>
     (us_synchronized_output_opened m \<longleftrightarrow> (\<exists>s \<in> set ss. us_synchronized_output_opened s)) \<and>
     (ss \<noteq> [] \<longrightarrow>
        us_cursor_before m = us_cursor_before (hd ss) \<and> us_cursor_after m = us_cursor_after (last ss) \<and>
        us_screen_before m = us_screen_before (hd ss) \<and> us_screen_after m = us_screen_after (last ss) \<and>
        (us_parser_continuation m \<longleftrightarrow> us_parser_continuation (last ss)))"

lemma merge_all_snoc: "merge_all (ss @ [s]) = summary_merge (merge_all ss) s"
  by (simp add: merge_all_def)

lemma merge_all_count: "list_all (\<lambda>s. 0 < us_batch_count s) ss \<Longrightarrow> us_batch_count (merge_all ss) = 0 \<longleftrightarrow> ss = []"
proof (induction ss rule: rev_induct)
  case (snoc s ss)
  then show ?case
    by (auto simp: merge_all_snoc summary_merge_def Let_def saturating_add_usize_def usize_max_def min_def)
qed (simp add: merge_all_def update_summary_default_def)

text \<open>
  batching updates loses nothing. Merging any sequence of summaries one by one, as the
  application does between two renders, accounts for each of them: the damage and the changed
  rows are exactly the union, replies and events are all there in order, the structural and
  synchronized-output marks of any batch survive, and cursor and screen are those before the
  first and after the last batch.
\<close>

theorem merged_summary_accounts:
  assumes "list_all (\<lambda>s. 0 < us_batch_count s \<and> summary_valid s) ss"
  shows "accounts ss (merge_all ss)"
proof -
  have "accounts ss (merge_all ss) \<and> summary_valid (merge_all ss)"
    using assms
  proof (induction ss rule: rev_induct)
    case (snoc s ss)
    then have IH: "accounts ss (merge_all ss)" "summary_valid (merge_all ss)" and s: "0 < us_batch_count s" "summary_valid s"
      by simp_all
    have count: "us_batch_count (merge_all ss) = 0 \<longleftrightarrow> ss = []"
      using snoc.prems by (intro merge_all_count) (auto simp: list_all_iff)
    have merged: "summary_valid (merge_all (ss @ [s]))"
      "damage_rows (us_damage (merge_all (ss @ [s]))) = damage_rows (us_damage (merge_all ss)) \<union> damage_rows (us_damage s)"
      "rows_of (us_changed_rows (merge_all (ss @ [s]))) = rows_of (us_changed_rows (merge_all ss)) \<union> rows_of (us_changed_rows s)"
      using IH(2) s by (simp_all add: merge_all_snoc summary_merge_def Let_def summary_valid_def merge_damage_rows merge_row_ranges_rows)
    have hd: "hd (ss @ [s]) = (if ss = [] then s else hd ss)" by simp
    have "accounts (ss @ [s]) (merge_all (ss @ [s]))"
      using IH(1) s(1) count merged(2,3) unfolding accounts_def hd
      by (auto simp: merge_all_snoc summary_merge_def Let_def)
    with merged(1) show ?case by blast
  qed (simp add: merge_all_def accounts_def summary_valid_def update_summary_default_def)
  then show ?thesis ..
qed

theorem merged_summary_accounts_witness:
  "us_cursor_after (merge_all
     [update_summary_default\<lparr>us_batch_count := 1, us_damage := DamageRows [(3, 4)]\<rparr>,
      update_summary_default\<lparr>us_batch_count := 2, us_damage := DamageRows [(0, 1)],
        us_cursor_after := cursor_default\<lparr>cur_row := 1\<rparr>\<rparr>]) = cursor_default\<lparr>cur_row := 1\<rparr>"
proof -
  have "list_all (\<lambda>s. 0 < us_batch_count s \<and> summary_valid s)
    [update_summary_default\<lparr>us_batch_count := 1, us_damage := DamageRows [(3, 4)]\<rparr>,
     update_summary_default\<lparr>us_batch_count := 2, us_damage := DamageRows [(0, 1)],
       us_cursor_after := cursor_default\<lparr>cur_row := 1\<rparr>\<rparr>]"
    by (simp add: summary_valid_def update_summary_default_def u16_max_def)
  from merged_summary_accounts [OF this] show ?thesis by (simp add: accounts_def)
qed

section \<open>Operation hints describe the same writes\<close>

text \<open>A write run as the characters it puts at columns; every other operation stands for itself\<close>

datatype write_effect = PutChar nat nat bytes | OtherOperation terminal_operation

definition write_cells :: "nat \<Rightarrow> nat \<Rightarrow> bytes list \<Rightarrow> write_effect list" where
  "write_cells row col chs = map (\<lambda>(i, ch). PutChar row (sat_add16 col i) ch) (enumerate 0 chs)"

definition operation_effects :: "terminal_operation \<Rightarrow> write_effect list" where
  "operation_effects op =
     (case op of WriteRun row col text \<Rightarrow> write_cells row col (utf8_chars text) | _ \<Rightarrow> [OtherOperation op])"

definition effects_of :: "terminal_operation list \<Rightarrow> write_effect list" where
  "effects_of ops = concat (map operation_effects ops)"

definition operations_valid :: "terminal_operation list \<Rightarrow> bool" where
  "operations_valid ops = list_all (\<lambda>op. case op of WriteRun row col text \<Rightarrow> utf8_valid text | _ \<Rightarrow> True) ops"

lemma effects_of_simps [simp]:
  "effects_of [] = []" "effects_of (xs @ ys) = effects_of xs @ effects_of ys"
  "effects_of [WriteRun row col text] = write_cells row col (utf8_chars text)"
  by (simp_all add: effects_of_def operation_effects_def)

lemma write_cells_Nil [simp]: "write_cells row col [] = []"
  by (simp add: write_cells_def)

lemma write_cells_sat: "write_cells row (min col u16_max) chs = write_cells row col chs"
  by (auto simp: write_cells_def sat_add16_def min_def)

lemma write_cells_Cons:
  "write_cells row col (ch # chs) = PutChar row (sat_add16 col 0) ch # write_cells row (Suc col) chs"
  by (simp add: write_cells_def enumerate_Suc_eq sat_add16_def split_def)

lemma write_cells_append:
  "write_cells row col (xs @ ys) = write_cells row col xs @ write_cells row (sat_add16 col (length xs)) ys"
  by (induction xs arbitrary: col) (simp_all add: write_cells_Cons sat_add16_def write_cells_sat)

lemma utf8_chars_ascii: "list_all is_ascii s \<Longrightarrow> length (utf8_chars s) = length s"
  by (induction s) (simp_all add: is_ascii_def utf8_char_len_def)

lemma end_col: "utf8_valid t \<Longrightarrow> write_run_end_col col t = sat_add16 col (length (utf8_chars t))"
  by (auto simp: write_run_end_col_def utf8_chars_ascii sat_add16_def try_u16_def)

lemma append_chunk_effects:
  assumes "operations_valid target" and "utf8_valid t"
  shows "operations_valid (append_terminal_write_run_chunk target row col t) \<and>
    effects_of (append_terminal_write_run_chunk target row col t) =
    effects_of target @ write_cells row col (utf8_chars t)"
proof -
  have plain: ?thesis if "append_terminal_write_run_chunk target row col t = target @ [WriteRun row col t]"
    using that assms by (simp add: operations_valid_def)
  show ?thesis
  proof (cases target rule: rev_cases)
    case (snoc ops p)
    show ?thesis
    proof (cases p)
      case (WriteRun r c s)
      then have s: "utf8_valid s" "operations_valid ops" using assms snoc by (auto simp: operations_valid_def)
      show ?thesis
      proof (cases "append_terminal_write_run_chunk target row col t = target @ [WriteRun row col t]")
        case False
        then have "r = row" "write_run_end_col c s = col"
          and merged: "append_terminal_write_run_chunk target row col t = ops @ [WriteRun r c (s @ t)]"
          by (auto simp: append_terminal_write_run_chunk_def snoc WriteRun split: if_splits)
        then have col: "r = row" "sat_add16 c (length (utf8_chars s)) = col" using s by (simp_all add: end_col)
        have "utf8_valid (s @ t)" using s assms(2) by (simp add: utf8_valid_append)
        moreover have "write_cells row c (utf8_chars (s @ t)) =
          write_cells row c (utf8_chars s) @ write_cells row col (utf8_chars t)"
          using s col by (simp add: utf8_chars_append write_cells_append)
        ultimately show ?thesis using s(2) col(1)
          unfolding merged by (simp add: snoc WriteRun operations_valid_def)
      qed (rule plain)
    qed (rule plain, simp add: append_terminal_write_run_chunk_def snoc)+
  qed (rule plain, simp add: append_terminal_write_run_chunk_def)
qed

lemma chars_valid_concat: "list_all utf8_char chs \<Longrightarrow> utf8_valid (concat chs) \<and> utf8_chars (concat chs) = chs"
  by (induction chs) (simp_all add: utf8_valid_append_char utf8_chars_char)

lemma write_run_loop_effects:
  assumes "list_all utf8_char chs" and "utf8_valid chunk" and "operations_valid target"
    and "columns = length (utf8_chars chunk)" and "columns \<le> chunk_limit col"
  shows "operations_valid (write_run_loop target row col chunk columns chs) \<and>
    effects_of (write_run_loop target row col chunk columns chs) =
    effects_of target @ write_cells row col (utf8_chars chunk @ chs)"
  using assms
proof (induction chs arbitrary: target col chunk columns)
  case Nil
  then show ?case using append_chunk_effects [of target chunk row col] by simp
next
  case (Cons ch chs)
  note valid = Cons.prems
  have limit: "0 < chunk_limit c" "chunk_limit c \<le> 256" for c
    by (simp_all add: chunk_limit_def MAX_COALESCED_WRITE_RUN_COLUMNS_def)
  have ch: "utf8_char ch" and chs: "list_all utf8_char chs" using valid(1) by simp_all
  then have ch: "utf8_char ch" "utf8_valid ch" "utf8_chars ch = [ch]"
    using utf8_chars_char [of ch "[]"] by (simp_all add: utf8_char_def)
  show ?case
  proof (cases "columns = chunk_limit col")
    case True
    let ?target = "append_terminal_write_run_chunk target row col chunk"
    let ?col = "sat_add16 col (try_u16 columns)"
    have col: "?col = sat_add16 col (length (utf8_chars chunk))"
      using limit(2) [of col] valid(4,5) by (simp add: try_u16_def u16_max_def)
    note chunk = append_chunk_effects [OF valid(3,2), of row col]
    show ?thesis
    proof (cases "?col = u16_max")
      case max: True
      have rest: "utf8_valid (concat (ch # chs)) \<and> utf8_chars (concat (ch # chs)) = ch # chs"
        using chars_valid_concat valid(1) by blast
      show ?thesis
        using append_chunk_effects [of ?target "concat (ch # chs)" row ?col] chunk rest True max col [symmetric]
        by (simp add: Let_def write_cells_append)
    next
      case False
      have "1 \<le> chunk_limit ?col" using limit(1) [of ?col] by simp
      then show ?thesis
        using Cons.IH [of ch ?target 1 ?col] chunk chs ch True False col [symmetric]
        by (simp add: Let_def write_cells_append [of row col "utf8_chars chunk" "ch # chs"])
    qed
  next
    case False
    have "saturating_add_usize columns 1 = length (utf8_chars (chunk @ ch))"
      "utf8_valid (chunk @ ch)" "utf8_chars (chunk @ ch) = utf8_chars chunk @ [ch]"
      using valid(2,4,5) limit(2) [of col] ch
      by (simp_all add: utf8_chars_append utf8_valid_append saturating_add_usize_def usize_max_def)
    then show ?thesis
      using Cons.IH [of "chunk @ ch" target "saturating_add_usize columns 1" col] False chs valid(3,4,5) by simp
  qed
qed

lemma append_run_effects:
  assumes "operations_valid target" and "utf8_valid t"
  shows "operations_valid (append_terminal_write_run target row col t) \<and>
    effects_of (append_terminal_write_run target row col t) = effects_of target @ write_cells row col (utf8_chars t)"
  using append_chunk_effects [OF assms, of row col]
    write_run_loop_effects [of "utf8_chars t" "[]" target 0 col row] utf8_chars_valid [OF assms(2)] assms(1)
  by (simp add: append_terminal_write_run_def)

lemma append_operation_effects:
  assumes "operations_valid target" and "operations_valid [op]"
  shows "operations_valid (append_terminal_operation target op) \<and>
    effects_of (append_terminal_operation target op) = effects_of target @ operation_effects op"
proof (cases op)
  case (WriteRun row col t)
  then show ?thesis using append_run_effects [OF assms(1)] assms(2)
    by (simp add: append_terminal_operation_def operation_effects_def operations_valid_def)
qed (use assms in \<open>simp_all add: append_terminal_operation_def operations_valid_def effects_of_def\<close>)

text \<open>
  C19: coalescing the hints about terminal operations changes their grouping only. Whatever runs
  are appended to whatever hints, the merged list writes the same characters at the same columns
  in the same order, with every other operation in its place, also where a run crosses a
  256-column block or reaches the last column.
\<close>

theorem operation_hints_preserved:
  assumes "operations_valid target" and "operations_valid source"
  shows "effects_of (append_terminal_operations target source) = effects_of target @ effects_of source"
proof -
  have "operations_valid (foldl append_terminal_operation target source) \<and>
    effects_of (foldl append_terminal_operation target source) = effects_of target @ effects_of source"
    using assms
  proof (induction source arbitrary: target)
    case (Cons op ops)
    then have "operations_valid ops" "operations_valid [op]" by (simp_all add: operations_valid_def)
    then show ?case using Cons append_operation_effects [of target op]
      by (simp add: effects_of_def)
  qed simp
  then show ?thesis by (simp add: append_terminal_operations_def)
qed

theorem operation_hints_preserved_witness:
  "effects_of (append_terminal_operations [WriteRun 2 254 ''a''] [WriteRun 2 255 ''bc'', ScrollUp 0 4 1]) =
   [PutChar 2 254 ''a'', PutChar 2 255 ''b'', PutChar 2 256 ''c'', OtherOperation (ScrollUp 0 4 1)]"
proof -
  have "operations_valid [WriteRun 2 254 ''a'']" "operations_valid [WriteRun 2 255 ''bc'', ScrollUp 0 4 1]"
    by (simp_all add: operations_valid_def utf8_valid_lead byte_val_def)
  from operation_hints_preserved [OF this] show ?thesis
    by (simp add: effects_of_def operation_effects_def write_cells_def utf8_char_len_def byte_val_def sat_add16_def u16_max_def)
qed

end
