(* ===== verification/Table_Model.thy ===== *)
theory Table_Model
  imports Terminal_Snapshot
begin

text \<open>
  Tables on the screen (\<^verbatim>\<open>table.rs\<close>, \<^verbatim>\<open>table/detection.rs\<close>): the table session, the model
  of a table with navigation inside it, and the detection of delimited, fixed-width and manually
  set up tables on a terminal snapshot.

  Rows and columns are \<^verbatim>\<open>u16\<close>. A screen has at most 65535 rows, so the loops that extend a
  table do not overflow; the searches that add an offset to a row the caller gives are written
  with the wrap-around. \<open>alpha\<close> stands for the Unicode table behind \<^verbatim>\<open>char::is_alphabetic\<close>, on
  the UTF-8 bytes of a character.
\<close>

section \<open>Data\<close>

datatype input_mode = ModeNormal | ModeTable | ModeTableSetup

record column =
  col_start :: nat
  col_end :: nat

record table_model =
  tm_top :: nat
  tm_bottom :: nat
  tm_columns :: "column list"
  tm_header_row :: "nat option"
  tm_delimiter :: "byte option"

record table_state =
  tst_model :: table_model
  tst_current_col :: nat

record setup_state =
  su_header_row :: nat
  su_tabstops :: "nat list"

datatype tabstop_change = TabstopAdded | TabstopRemoved

text \<open>\<^verbatim>\<open>binary_search\<close> finds the index of a tab stop or the index to insert it at\<close>

definition toggle_tabstop :: "nat \<Rightarrow> setup_state \<Rightarrow> tabstop_change \<times> setup_state" where
  "toggle_tabstop col u =
     (let stops = su_tabstops u in
      case position (\<lambda>t. t = col) stops of
        Some index \<Rightarrow> (TabstopRemoved, u\<lparr>su_tabstops := take index stops @ drop (Suc index) stops\<rparr>)
      | None \<Rightarrow>
          let index = length (filter (\<lambda>t. t < col) stops)
          in (TabstopAdded, u\<lparr>su_tabstops := take index stops @ col # drop index stops\<rparr>))"

record table_session =
  tse_mode :: input_mode
  tse_navigation :: "table_state option"
  tse_setup :: "setup_state option"

definition session_default :: table_session where
  "session_default = \<lparr>tse_mode = ModeNormal, tse_navigation = None, tse_setup = None\<rparr>"

definition set_navigation :: "table_state option \<Rightarrow> table_session \<Rightarrow> table_session" where
  "set_navigation st s = s\<lparr>tse_navigation := st\<rparr>"

definition enter_setup :: "nat \<Rightarrow> table_session \<Rightarrow> input_mode \<times> table_session" where
  "enter_setup header_row s =
     (tse_mode s, \<lparr>tse_mode = ModeTableSetup, tse_navigation = None,
        tse_setup = Some \<lparr>su_header_row = header_row, su_tabstops = []\<rparr>\<rparr>)"

definition enter_table :: "table_state \<Rightarrow> table_session \<Rightarrow> input_mode \<times> table_session" where
  "enter_table st s = (tse_mode s, \<lparr>tse_mode = ModeTable, tse_navigation = Some st, tse_setup = None\<rparr>)"

definition session_exit :: "table_session \<Rightarrow> input_mode \<times> table_session" where
  "session_exit s = (tse_mode s, \<lparr>tse_mode = ModeNormal, tse_navigation = None, tse_setup = None\<rparr>)"

definition current_column :: "table_state \<Rightarrow> column option" where
  "current_column st =
     (if tst_current_col st < length (tm_columns (tst_model st))
      then Some (tm_columns (tst_model st) ! tst_current_col st) else None)"

section \<open>Lines and cells of the screen\<close>

definition view_line :: "terminal_snapshot \<Rightarrow> nat \<Rightarrow> bytes" where
  "view_line s r = contents_between s r 0 r (snd (snapshot_size s))"

definition cell_has_text :: "terminal_snapshot \<Rightarrow> nat \<Rightarrow> nat \<Rightarrow> bool" where
  "cell_has_text s r c =
     (case snapshot_cell s r c of
        Some cell \<Rightarrow> cell_continuation cell \<or> str_trim (cell_grapheme cell) \<noteq> []
      | None \<Rightarrow> False)"

definition row_range_is_blank :: "terminal_snapshot \<Rightarrow> nat \<Rightarrow> nat \<Rightarrow> nat \<Rightarrow> bool" where
  "row_range_is_blank s r start end = list_all (\<lambda>c. \<not> cell_has_text s r c) (upto_incl start end)"

definition row_is_blank :: "terminal_snapshot \<Rightarrow> nat \<Rightarrow> bool" where
  "row_is_blank s r = list_all (\<lambda>c. \<not> cell_has_text s r c) [0..<snd (snapshot_size s)]"

definition is_separator_char :: "bytes \<Rightarrow> bool" where
  "is_separator_char ch \<longleftrightarrow> ch \<in> {''-'', ''='', ''+'', ''|'', ''_'', '':''} \<or> char_is_whitespace ch"

definition is_separator_row :: "terminal_snapshot \<Rightarrow> nat \<Rightarrow> bool" where
  "is_separator_row s r =
     (let trimmed = str_trim (view_line s r)
      in trimmed \<noteq> [] \<and> list_all is_separator_char (utf8_chars trimmed))"

definition row_has_letters :: "(bytes \<Rightarrow> bool) \<Rightarrow> terminal_snapshot \<Rightarrow> nat \<Rightarrow> bool" where
  "row_has_letters alpha s r = list_ex alpha (utf8_chars (view_line s r))"

text \<open>The columns of a line: words separated by two or more white space characters\<close>

fun fixed_width_loop :: "nat \<Rightarrow> bool \<Rightarrow> nat \<Rightarrow> bytes list \<Rightarrow> nat" where
  "fixed_width_loop columns in_word space_run [] = (if in_word then columns + 1 else columns)"
| "fixed_width_loop columns in_word space_run (ch # chs) =
     (if char_is_whitespace ch then
        (if in_word then
           (if 2 \<le> space_run + 1 then fixed_width_loop (columns + 1) False (space_run + 1) chs
            else fixed_width_loop columns in_word (space_run + 1) chs)
         else fixed_width_loop columns in_word space_run chs)
      else fixed_width_loop columns True 0 chs)"

definition fixed_width_column_count :: "bytes \<Rightarrow> nat" where
  "fixed_width_column_count line = fixed_width_loop 0 False 0 (utf8_chars line)"

definition row_has_fixed_width_columns :: "terminal_snapshot \<Rightarrow> nat \<Rightarrow> bool" where
  "row_has_fixed_width_columns s r \<longleftrightarrow> 2 \<le> fixed_width_column_count (view_line s r)"

definition row_is_fixed_width_continuation :: "terminal_snapshot \<Rightarrow> nat \<Rightarrow> bool" where
  "row_is_fixed_width_continuation s r =
     (if row_is_blank s r \<or> row_has_fixed_width_columns s r then False
      else (0 < r \<and> row_has_fixed_width_columns s (r - 1)) \<or>
           (wrap16 (r + 1) < fst (snapshot_size s) \<and> row_has_fixed_width_columns s (wrap16 (r + 1))))"

definition contains_byte :: "byte \<Rightarrow> bytes \<Rightarrow> bool" where
  "contains_byte c line \<longleftrightarrow> c \<in> set line"

definition row_is_pipe_table_row :: "terminal_snapshot \<Rightarrow> nat \<Rightarrow> bool" where
  "row_is_pipe_table_row s r \<longleftrightarrow>
     \<not> row_is_blank s r \<and> (is_separator_row s r \<or> contains_byte (CHR ''|'') (view_line s r))"

definition row_is_fixed_width_candidate :: "terminal_snapshot \<Rightarrow> nat \<Rightarrow> bool" where
  "row_is_fixed_width_candidate s r =
     (if row_is_blank s r then False
      else is_separator_row s r \<or> row_has_fixed_width_columns s r \<or> row_is_fixed_width_continuation s r)"

definition row_is_manual_table_row :: "terminal_snapshot \<Rightarrow> nat \<Rightarrow> bool" where
  "row_is_manual_table_row s r =
     (if row_is_blank s r then False
      else is_separator_row s r \<or> row_has_fixed_width_columns s r \<or> row_is_fixed_width_continuation s r \<or>
           contains_byte (CHR ''|'') (view_line s r))"

definition column_has_content :: "terminal_snapshot \<Rightarrow> nat \<Rightarrow> nat \<Rightarrow> nat \<Rightarrow> nat \<Rightarrow> bool" where
  "column_has_content s upper lower start end =
     list_ex (\<lambda>r. \<not> is_separator_row s r \<and> list_ex (cell_has_text s r) (upto_incl start end)) (upto_incl upper lower)"

section \<open>Delimited cells\<close>

definition count_byte :: "byte \<Rightarrow> bytes \<Rightarrow> nat" where
  "count_byte c line = length (filter (\<lambda>b. b = c) line)"

definition pipe_cell_layout :: "bytes \<Rightarrow> (nat \<times> nat) option" where
  "pipe_cell_layout line =
     (let delimiters = count_byte (CHR ''|'') line in
      if delimiters = 0 then None
      else
        let leading = (if starts_with line ''|'' then 1 else 0);
            trailing = (if ends_with line ''|'' then 1 else 0);
            cells = delimiters + 1 - leading - trailing
        in if 0 < cells then Some (leading, cells) else None)"

definition pipe_delimited_cell_text :: "bytes \<Rightarrow> nat \<Rightarrow> bytes option" where
  "pipe_delimited_cell_text line col_idx =
     (let trimmed = str_trim line in
      case pipe_cell_layout trimmed of
        None \<Rightarrow> None
      | Some (leading, _) \<Rightarrow>
          let cells = drop leading (split_on (CHR ''|'') trimmed)
          in Some (str_trim (if col_idx < length cells then cells ! col_idx else [])))"

section \<open>Navigation in a table\<close>

definition column_for_col :: "table_model \<Rightarrow> nat \<Rightarrow> nat" where
  "column_for_col m c =
     (case position (\<lambda>column. col_start column \<le> c \<and> c \<le> col_end column) (tm_columns m) of
        Some idx \<Rightarrow> idx | None \<Rightarrow> 0)"

definition clamp_row :: "table_model \<Rightarrow> nat \<Rightarrow> nat" where
  "clamp_row m r = (if r < tm_top m then tm_top m else if tm_bottom m < r then tm_bottom m else r)"

definition cell_text :: "table_model \<Rightarrow> terminal_snapshot \<Rightarrow> nat \<Rightarrow> nat \<Rightarrow> bytes" where
  "cell_text m s r col_idx =
     (case (if tm_delimiter m = Some (CHR ''|'') then pipe_delimited_cell_text (view_line s r) col_idx else None) of
        Some text \<Rightarrow> text
      | None \<Rightarrow>
          if col_idx < length (tm_columns m) then
            let column = tm_columns m ! col_idx;
                end = min (col_end column) (snd (snapshot_size s) - 1)
            in str_trim (contents_between s r (col_start column) r (wrap16 (end + 1)))
          else [])"

definition header_text :: "table_model \<Rightarrow> terminal_snapshot \<Rightarrow> nat \<Rightarrow> bytes option" where
  "header_text m s col_idx =
     (case tm_header_row m of
        None \<Rightarrow> None
      | Some header_row \<Rightarrow> let text = cell_text m s header_row col_idx in if text = [] then None else Some text)"

definition is_banner_row :: "table_model \<Rightarrow> terminal_snapshot \<Rightarrow> nat \<Rightarrow> bool" where
  "is_banner_row m s r =
     (if r < tm_top m \<or> tm_bottom m < r \<or> is_separator_row s r then False
      else if tm_delimiter m = None then \<not> row_has_fixed_width_columns s r
      else
        let trimmed = str_trim (view_line s r)
        in if \<not> (starts_with trimmed ''|'' \<and> ends_with trimmed ''|'') then False
           else length (take 2 (filter
                  (\<lambda>col. case pipe_delimited_cell_text trimmed col of Some text \<Rightarrow> text \<noteq> [] | None \<Rightarrow> False)
                  [0..<length (tm_columns m)])) \<le> 1)"

definition is_skippable_row :: "table_model \<Rightarrow> terminal_snapshot \<Rightarrow> nat \<Rightarrow> bool" where
  "is_skippable_row m s r \<longleftrightarrow> is_separator_row s r \<or> is_banner_row m s r"

text \<open>The loops over the rows above, nearest first, and below\<close>

definition prev_data_row :: "table_model \<Rightarrow> terminal_snapshot \<Rightarrow> nat \<Rightarrow> nat option" where
  "prev_data_row m s r =
     (if r \<le> tm_top m then None else find (\<lambda>c. \<not> is_skippable_row m s c) (rev (upto_incl (tm_top m) (r - 1))))"

definition next_data_row :: "table_model \<Rightarrow> terminal_snapshot \<Rightarrow> nat \<Rightarrow> nat option" where
  "next_data_row m s r =
     (if tm_bottom m \<le> r then None else find (\<lambda>c. \<not> is_skippable_row m s c) (upto_incl (r + 1) (tm_bottom m)))"

text \<open>The search in both directions. Its offset saturates, so the loop is a partial function:
  \<^term>\<open>None\<close> is a loop that does not end, \<^term>\<open>Some r\<close> the returned option\<close>

partial_function (option) nearest_data_loop ::
  "(nat \<Rightarrow> bool) \<Rightarrow> nat \<Rightarrow> nat \<Rightarrow> nat \<Rightarrow> nat \<Rightarrow> nat option option" where
  "nearest_data_loop skip upper lower r offset =
     (let up_open = sat_add16 upper offset \<le> r;
          down = sat_add16 r offset;
          down_open = down \<le> lower
      in if up_open \<and> upper \<le> r - offset \<and> \<not> skip (r - offset) then Some (Some (r - offset))
         else if down_open \<and> \<not> skip down then Some (Some down)
         else if \<not> (up_open \<or> down_open) then Some None
         else nearest_data_loop skip upper lower r (sat_add16 offset 1))"

definition nearest_data_row :: "table_model \<Rightarrow> terminal_snapshot \<Rightarrow> nat \<Rightarrow> nat option option" where
  "nearest_data_row m s r =
     (if tm_top m \<le> r \<and> r \<le> tm_bottom m \<and> \<not> is_skippable_row m s r then Some (Some r)
      else nearest_data_loop (is_skippable_row m s) (tm_top m) (tm_bottom m) r 1)"

fun nearest_column_loop :: "(nat \<Rightarrow> bool) \<Rightarrow> nat \<Rightarrow> nat \<Rightarrow> nat list \<Rightarrow> nat" where
  "nearest_column_loop matches column_count preferred [] = preferred"
| "nearest_column_loop matches column_count preferred (offset # offsets) =
     (if offset \<le> preferred \<and> matches (preferred - offset) then preferred - offset
      else if preferred + offset < column_count \<and> matches (preferred + offset) then preferred + offset
      else nearest_column_loop matches column_count preferred offsets)"

definition nearest_matching_column :: "nat \<Rightarrow> nat \<Rightarrow> (nat \<Rightarrow> bool) \<Rightarrow> nat" where
  "nearest_matching_column column_count preferred matches =
     (if column_count = 0 then 0
      else
        let preferred = min preferred (column_count - 1)
        in if matches preferred then preferred
           else nearest_column_loop matches column_count preferred [1..<column_count])"

definition nearest_non_empty_col :: "table_model \<Rightarrow> terminal_snapshot \<Rightarrow> nat \<Rightarrow> nat \<Rightarrow> nat" where
  "nearest_non_empty_col m s r preferred =
     (if tm_delimiter m = Some (CHR ''|'') then
        nearest_matching_column (length (tm_columns m)) preferred
          (\<lambda>col. case pipe_delimited_cell_text (view_line s r) col of Some text \<Rightarrow> text \<noteq> [] | None \<Rightarrow> False)
      else nearest_matching_column (length (tm_columns m)) preferred (\<lambda>col. cell_text m s r col \<noteq> []))"

end
