(* ===== verification/Table_Detection.thy ===== *)
theory Table_Detection
  imports Table_Model
begin

text \<open>
  Detection of tables (\<^verbatim>\<open>table/detection.rs\<close>): delimited tables, fixed-width tables from the
  gaps of a header or from blank gutters, and tables from manual tab stops. Shown: every detected
  table is well formed.
\<close>

section \<open>Extending a block of rows\<close>

fun extend_up :: "(nat \<Rightarrow> bool) \<Rightarrow> nat \<Rightarrow> nat" where
  "extend_up P 0 = 0"
| "extend_up P (Suc r) = (if P r then extend_up P r else Suc r)"

function extend_down :: "(nat \<Rightarrow> bool) \<Rightarrow> nat \<Rightarrow> nat \<Rightarrow> nat" where
  "extend_down P rows r = (if r + 1 < rows \<and> P (r + 1) then extend_down P rows (r + 1) else r)"
  by pat_completeness auto
termination
  by (relation "measure (\<lambda>(P, rows, r). rows - r)") auto

declare extend_down.simps [simp del]

lemma extend_down_ge: "r \<le> extend_down P rows r"
  by (induction P rows r rule: extend_down.induct) (subst extend_down.simps, auto)

section \<open>Columns\<close>

fun columns_from_positions :: "nat \<Rightarrow> nat \<Rightarrow> nat list \<Rightarrow> column list" where
  "columns_from_positions last_col start [] =
     (if start \<le> last_col then [\<lparr>col_start = start, col_end = last_col\<rparr>] else [])"
| "columns_from_positions last_col start (pos # positions) =
     (if start < pos then [\<lparr>col_start = start, col_end = pos - 1\<rparr>] else []) @
     columns_from_positions last_col (sat_add16 pos 1) positions"

definition columns_from_delimiter_positions :: "terminal_snapshot \<Rightarrow> nat list \<Rightarrow> column list" where
  "columns_from_delimiter_positions s positions =
     columns_from_positions (snd (snapshot_size s) - 1) 0 positions"

fun columns_from_starts_loop :: "nat \<Rightarrow> nat list \<Rightarrow> column list" where
  "columns_from_starts_loop cols [] = []"
| "columns_from_starts_loop cols (start # starts) =
     (if cols \<le> start then columns_from_starts_loop cols starts
      else
        let end = (case starts of next_start # _ \<Rightarrow> next_start - 1 | [] \<Rightarrow> cols - 1)
        in (if start \<le> end then [\<lparr>col_start = start, col_end = end\<rparr>] else []) @
           columns_from_starts_loop cols starts)"

definition columns_from_starts :: "nat \<Rightarrow> nat list \<Rightarrow> column list" where
  "columns_from_starts cols starts = (if cols = 0 \<or> starts = [] then [] else columns_from_starts_loop cols starts)"

definition delimiter_positions :: "terminal_snapshot \<Rightarrow> nat \<Rightarrow> bytes \<Rightarrow> nat list" where
  "delimiter_positions s r needle =
     filter (\<lambda>c. case snapshot_cell s r c of Some cell \<Rightarrow> cell_grapheme cell = needle | None \<Rightarrow> False)
       [0..<snd (snapshot_size s)]"

definition retain_content :: "terminal_snapshot \<Rightarrow> nat \<Rightarrow> nat \<Rightarrow> column list \<Rightarrow> column list" where
  "retain_content s upper lower columns =
     filter (\<lambda>col. column_has_content s upper lower (col_start col) (col_end col)) columns"

section \<open>The header row\<close>

definition header_above :: "table_model \<Rightarrow> terminal_snapshot \<Rightarrow> nat \<Rightarrow> nat option" where
  "header_above m s r = find (\<lambda>c. \<not> is_skippable_row m s c) (rev (upto_incl (tm_top m) (r - 1)))"

fun separator_header :: "table_model \<Rightarrow> terminal_snapshot \<Rightarrow> nat list \<Rightarrow> nat option" where
  "separator_header m s [] = None"
| "separator_header m s (r # rs) =
     (if is_separator_row s r \<and> tm_top m < r then
        (case header_above m s r of Some candidate \<Rightarrow> Some candidate | None \<Rightarrow> separator_header m s rs)
      else separator_header m s rs)"

definition detect_header_row ::
  "(bytes \<Rightarrow> bool) \<Rightarrow> terminal_snapshot \<Rightarrow> nat \<Rightarrow> nat \<Rightarrow> column list \<Rightarrow> byte option \<Rightarrow> nat option" where
  "detect_header_row alpha s upper lower columns delimiter =
     (if lower \<le> upper then None
      else
        let m = \<lparr>tm_top = upper, tm_bottom = lower, tm_columns = columns, tm_header_row = None,
                 tm_delimiter = delimiter\<rparr>
        in case separator_header m s (upto_incl upper lower) of
             Some r \<Rightarrow> Some r
           | None \<Rightarrow> find (\<lambda>r. \<not> is_skippable_row m s r \<and> row_has_letters alpha s r) (upto_incl upper lower))"

section \<open>Delimited tables\<close>

text \<open>The search for an anchor around a row, up before down at each distance\<close>

fun nearest_row_loop :: "(nat \<Rightarrow> bool) \<Rightarrow> nat \<Rightarrow> nat \<Rightarrow> nat list \<Rightarrow> nat option" where
  "nearest_row_loop P rows r [] = None"
| "nearest_row_loop P rows r (offset # offsets) =
     (if offset \<le> r \<and> P (r - offset) then Some (r - offset)
      else if wrap16 (r + offset) < rows \<and> P (wrap16 (r + offset)) then Some (wrap16 (r + offset))
      else nearest_row_loop P rows r offsets)"

definition nearest_pipe_row :: "terminal_snapshot \<Rightarrow> nat \<Rightarrow> nat option" where
  "nearest_pipe_row s r =
     (let rows = fst (snapshot_size s) in
      if rows = 0 then None
      else if row_is_pipe_table_row s r then Some r
      else nearest_row_loop (row_is_pipe_table_row s) rows r (upto_incl 1 6))"

definition row_looks_like_pipe_header :: "terminal_snapshot \<Rightarrow> nat \<Rightarrow> bool" where
  "row_looks_like_pipe_header s r =
     (let trimmed = str_trim (view_line s r) in
      if trimmed = [] \<or> is_separator_row s r then False
      else if count_byte (CHR ''|'') trimmed < 1 then False
      else
        case pipe_cell_layout trimmed of
          None \<Rightarrow> False
        | Some (leading, cell_count) \<Rightarrow>
            2 \<le> length (take 2 (filter (\<lambda>cell. str_trim cell \<noteq> [])
                  (take cell_count (drop leading (split_on (CHR ''|'') trimmed))))))"

definition find_pipe_header_row_in_bounds :: "terminal_snapshot \<Rightarrow> nat \<Rightarrow> nat \<Rightarrow> nat option" where
  "find_pipe_header_row_in_bounds s upper lower = find (row_looks_like_pipe_header s) (upto_incl upper lower)"

definition detect_pipe_columns :: "terminal_snapshot \<Rightarrow> nat \<Rightarrow> nat \<Rightarrow> nat \<Rightarrow> column list option" where
  "detect_pipe_columns s upper lower header_row =
     (let positions = delimiter_positions s header_row ''|'' in
      if positions = [] then None
      else
        let columns = retain_content s upper lower (columns_from_delimiter_positions s positions)
        in if length columns < 2 then None else Some columns)"

definition detect_pipe_table :: "(bytes \<Rightarrow> bool) \<Rightarrow> terminal_snapshot \<Rightarrow> nat \<Rightarrow> table_model option" where
  "detect_pipe_table alpha s r =
     Option.bind (nearest_pipe_row s r) (\<lambda>anchor.
       let upper = extend_up (row_is_pipe_table_row s) anchor;
           lower = extend_down (row_is_pipe_table_row s) (fst (snapshot_size s)) anchor
       in Option.bind (find_pipe_header_row_in_bounds s upper lower) (\<lambda>header_row.
            Option.bind (detect_pipe_columns s upper lower header_row) (\<lambda>columns.
              if length columns < 2 then None
              else
                let header = (case detect_header_row alpha s upper lower columns (Some (CHR ''|'')) of
                                Some h \<Rightarrow> Some h | None \<Rightarrow> Some header_row)
                in Some \<lparr>tm_top = upper, tm_bottom = lower, tm_columns = columns, tm_header_row = header,
                         tm_delimiter = Some (CHR ''|'')\<rparr>)))"

section \<open>Fixed-width tables\<close>

definition nearest_fixed_width_candidate :: "terminal_snapshot \<Rightarrow> nat \<Rightarrow> nat option" where
  "nearest_fixed_width_candidate s r =
     (let rows = fst (snapshot_size s) in
      if rows = 0 then None else nearest_row_loop (row_is_fixed_width_candidate s) rows r (upto_incl 1 2))"

definition blank_count_at_cut :: "terminal_snapshot \<Rightarrow> nat list \<Rightarrow> nat \<Rightarrow> nat" where
  "blank_count_at_cut s structural_rows cut_col = length (filter (\<lambda>r. \<not> cell_has_text s r cut_col) structural_rows)"

definition better_cut :: "terminal_snapshot \<Rightarrow> nat list \<Rightarrow> (nat \<times> nat) option \<Rightarrow> nat \<Rightarrow> (nat \<times> nat) option" where
  "better_cut s structural_rows best cut_col =
     (let blank_rows = blank_count_at_cut s structural_rows cut_col in
      if blank_rows * 3 < length structural_rows * 2 then best
      else
        case best of
          None \<Rightarrow> Some (blank_rows, cut_col)
        | Some (best_blank_rows, best_cut) \<Rightarrow>
            if best_blank_rows < blank_rows \<or> blank_rows = best_blank_rows \<and> best_cut < cut_col
            then Some (blank_rows, cut_col) else best)"

definition supported_cut_in_gap :: "terminal_snapshot \<Rightarrow> nat list \<Rightarrow> nat \<Rightarrow> nat \<Rightarrow> nat option" where
  "supported_cut_in_gap s structural_rows start end =
     map_option snd (foldl (better_cut s structural_rows) None (upto_incl start end))"

fun header_cuts_loop ::
  "terminal_snapshot \<Rightarrow> nat list \<Rightarrow> nat \<Rightarrow> bool \<Rightarrow> nat option \<Rightarrow> nat list \<Rightarrow> nat list" where
  "header_cuts_loop s structural_rows header_row seen_text gap_start [] = []"
| "header_cuts_loop s structural_rows header_row seen_text gap_start (col # cols) =
     (case (gap_start, cell_has_text s header_row col) of
        (Some start, True) \<Rightarrow>
          (case supported_cut_in_gap s structural_rows start (col - 1) of Some cut_col \<Rightarrow> [cut_col] | None \<Rightarrow> []) @
          header_cuts_loop s structural_rows header_row True None cols
      | (None, False) \<Rightarrow>
          header_cuts_loop s structural_rows header_row seen_text (if seen_text then Some col else None) cols
      | (None, True) \<Rightarrow> header_cuts_loop s structural_rows header_row True None cols
      | (Some start, False) \<Rightarrow> header_cuts_loop s structural_rows header_row seen_text gap_start cols)"

definition supported_header_cuts :: "terminal_snapshot \<Rightarrow> nat list \<Rightarrow> nat \<Rightarrow> nat \<Rightarrow> nat list" where
  "supported_header_cuts s structural_rows header_row cols =
     header_cuts_loop s structural_rows header_row False None [0..<cols]"

definition choose_fixed_width_header_row :: "(bytes \<Rightarrow> bool) \<Rightarrow> terminal_snapshot \<Rightarrow> nat list \<Rightarrow> nat option" where
  "choose_fixed_width_header_row alpha s structural_rows =
     find (\<lambda>r. \<not> (is_separator_row s r \<or> \<not> row_has_letters alpha s r) \<and>
               2 \<le> length (supported_header_cuts s structural_rows r (snd (snapshot_size s)))) structural_rows"

definition detect_fixed_width_columns_from_header ::
  "terminal_snapshot \<Rightarrow> nat \<Rightarrow> nat \<Rightarrow> nat \<Rightarrow> nat list \<Rightarrow> nat \<Rightarrow> column list option" where
  "detect_fixed_width_columns_from_header s upper lower cols structural_rows header_row =
     (if cols = 0 then None
      else
        let cuts = supported_header_cuts s structural_rows header_row cols
        in if cuts = [] then None
           else
             let columns = retain_content s upper lower (columns_from_starts cols (remdups_adj (sort (0 # cuts))))
             in if length columns < 2 then None else Some columns)"

text \<open>The scan for blank gutters: \<open>start\<close> is the first column of the table column being read\<close>

function gutter_loop ::
  "(nat \<Rightarrow> bool) \<Rightarrow> (nat \<Rightarrow> nat \<Rightarrow> bool) \<Rightarrow> nat \<Rightarrow> nat \<Rightarrow> nat \<Rightarrow> nat option \<Rightarrow> column list \<Rightarrow> nat option \<times> column list" where
  "gutter_loop mostly_blank header_blank min_gap_run cols col start columns =
     (if col < cols then
        if mostly_blank col then
          let run_end = extend_down mostly_blank cols col;
              run_len = run_end - col + 1
          in if min_gap_run \<le> run_len \<and> header_blank col run_end then
               (case start of
                  Some s0 \<Rightarrow> gutter_loop mostly_blank header_blank min_gap_run cols (run_end + 1) None
                             (columns @ [\<lparr>col_start = s0, col_end = col - 1\<rparr>])
                | None \<Rightarrow> gutter_loop mostly_blank header_blank min_gap_run cols (run_end + 1) None columns)
             else gutter_loop mostly_blank header_blank min_gap_run cols (run_end + 1)
                    (if start = None then Some col else start) columns
        else gutter_loop mostly_blank header_blank min_gap_run cols (col + 1)
               (if start = None then Some col else start) columns
      else (start, columns))"
  by pat_completeness auto
termination
proof (relation "measure (\<lambda>(mostly_blank, header_blank, min_gap_run, cols, col, start, columns). cols - col)", goal_cases)
  case 1
  then show ?case by simp
qed (use extend_down_ge in \<open>auto intro!: diff_less_mono2 simp: less_Suc_eq_le\<close>)

declare gutter_loop.simps [simp del]

definition detect_fixed_width_columns_from_blanks ::
  "terminal_snapshot \<Rightarrow> nat \<Rightarrow> nat \<Rightarrow> nat \<Rightarrow> nat list \<Rightarrow> nat option \<Rightarrow> column list option" where
  "detect_fixed_width_columns_from_blanks s upper lower cols structural_rows header_row =
     (if cols = 0 \<or> structural_rows = [] then None
      else
        let row_count = length structural_rows;
            blank_threshold = (if row_count \<le> 2 then row_count else (row_count * 2 + 2) div 3);
            min_gap_run = (if row_count \<le> 4 then 1 else 2);
            mostly_blank = (\<lambda>col. blank_threshold \<le> blank_count_at_cut s structural_rows col);
            header_blank = (\<lambda>a b. case header_row of Some r \<Rightarrow> row_range_is_blank s r a b | None \<Rightarrow> True);
            (start, columns) = gutter_loop mostly_blank header_blank min_gap_run cols 0 None [];
            columns = (case start of Some s0 \<Rightarrow> columns @ [\<lparr>col_start = s0, col_end = cols - 1\<rparr>] | None \<Rightarrow> columns);
            columns = retain_content s upper lower columns
        in if length columns < 2 then None else Some columns)"

definition detect_fixed_width_columns ::
  "terminal_snapshot \<Rightarrow> nat \<Rightarrow> nat \<Rightarrow> nat \<Rightarrow> nat list \<Rightarrow> nat option \<Rightarrow> column list option" where
  "detect_fixed_width_columns s upper lower cols structural_rows header_row =
     (case Option.bind header_row (detect_fixed_width_columns_from_header s upper lower cols structural_rows) of
        Some columns \<Rightarrow> Some columns
      | None \<Rightarrow> detect_fixed_width_columns_from_blanks s upper lower cols structural_rows header_row)"

definition detect_fixed_width_table :: "(bytes \<Rightarrow> bool) \<Rightarrow> terminal_snapshot \<Rightarrow> nat \<Rightarrow> table_model option" where
  "detect_fixed_width_table alpha s r =
     (let (rows, cols) = snapshot_size s in
      if rows = 0 \<or> cols = 0 then None
      else
        Option.bind (if row_is_fixed_width_candidate s r then Some r else nearest_fixed_width_candidate s r) (\<lambda>anchor.
          let upper = extend_up (row_is_fixed_width_candidate s) anchor;
              lower = extend_down (row_is_fixed_width_candidate s) rows anchor;
              structural_rows = filter (\<lambda>c. \<not> is_separator_row s c \<and> row_has_fixed_width_columns s c) (upto_incl upper lower)
          in if length structural_rows < 2 then None
             else
               let header_hint = (case choose_fixed_width_header_row alpha s structural_rows of
                                    Some h \<Rightarrow> Some h
                                  | None \<Rightarrow> find (\<lambda>c. \<not> is_separator_row s c \<and> row_has_letters alpha s c) (upto_incl upper lower))
               in Option.bind (detect_fixed_width_columns s upper lower cols structural_rows header_hint) (\<lambda>columns.
                    let columns = retain_content s upper lower columns
                    in if length columns < 2 then None
                       else Some \<lparr>tm_top = upper, tm_bottom = lower, tm_columns = columns,
                                  tm_header_row = detect_header_row alpha s upper lower columns None,
                                  tm_delimiter = None\<rparr>)))"

section \<open>Entry points\<close>

definition detect :: "(bytes \<Rightarrow> bool) \<Rightarrow> terminal_snapshot \<Rightarrow> nat \<Rightarrow> table_model option" where
  "detect alpha s r =
     (case detect_pipe_table alpha s r of Some m \<Rightarrow> Some m | None \<Rightarrow> detect_fixed_width_table alpha s r)"

definition detect_manual_from_header :: "terminal_snapshot \<Rightarrow> nat \<Rightarrow> nat list \<Rightarrow> table_model option" where
  "detect_manual_from_header s header_row tabstops =
     (let (rows, cols) = snapshot_size s in
      if rows = 0 \<or> cols = 0 \<or> rows \<le> header_row then None
      else
        let starts = remdups_adj (sort (0 # filter (\<lambda>stop. 0 < stop \<and> stop < cols) tabstops));
            columns = columns_from_starts cols starts
        in if length columns < 2 then None
           else
             let upper = extend_up (row_is_manual_table_row s) header_row;
                 lower = extend_down (row_is_manual_table_row s) rows header_row;
                 columns = retain_content s upper lower columns
             in if length columns < 2 then None
                else Some \<lparr>tm_top = upper, tm_bottom = lower, tm_columns = columns,
                           tm_header_row = Some header_row, tm_delimiter = None\<rparr>)"

section \<open>Detected tables are well formed\<close>

definition columns_ok :: "nat \<Rightarrow> column list \<Rightarrow> bool" where
  "columns_ok cols cs \<longleftrightarrow>
     list_all (\<lambda>c. col_start c \<le> col_end c \<and> col_end c < cols) cs \<and>
     sorted_wrt (\<lambda>a b. col_end a < col_start b) cs"

definition table_ok :: "terminal_snapshot \<Rightarrow> table_model \<Rightarrow> bool" where
  "table_ok s m \<longleftrightarrow>
     tm_top m \<le> tm_bottom m \<and> tm_bottom m < fst (snapshot_size s) \<and>
     2 \<le> length (tm_columns m) \<and> columns_ok (snd (snapshot_size s)) (tm_columns m) \<and>
     list_all (\<lambda>c. column_has_content s (tm_top m) (tm_bottom m) (col_start c) (col_end c)) (tm_columns m) \<and>
     (case tm_header_row m of Some h \<Rightarrow> tm_top m \<le> h \<and> h \<le> tm_bottom m | None \<Rightarrow> True)"

lemma extend_up_le: "extend_up P r \<le> r"
  by (induction P r rule: extend_up.induct) auto

lemma extend_down_less: "r < rows \<Longrightarrow> extend_down P rows r < rows"
  by (induction P rows r rule: extend_down.induct) (subst extend_down.simps, auto)

lemma extended_block:
  assumes "r < rows"
  shows "extend_up P r \<le> r" and "r \<le> extend_down P rows r" and "extend_down P rows r < rows"
    and "extend_up P r \<le> extend_down P rows r"
  using assms extend_up_le [of P r] extend_down_ge [of r P rows] extend_down_less [of r rows P] by auto

lemma find_mem: "find P xs = Some x \<Longrightarrow> x \<in> set xs \<and> P x"
  by (auto simp: find_Some_iff)

lemma upto_incl_set [simp]: "set (upto_incl a b) = {a..b}"
  by (auto simp: upto_incl_def)

text \<open>Columns\<close>

lemma columns_ok_filter: "columns_ok cols cs \<Longrightarrow> columns_ok cols (filter P cs)"
  by (auto simp: columns_ok_def list_all_iff sorted_wrt_filter)

lemma columns_ok_Cons:
  "columns_ok cols (c # cs) \<longleftrightarrow>
     col_start c \<le> col_end c \<and> col_end c < cols \<and> list_all (\<lambda>b. col_end c < col_start b) cs \<and> columns_ok cols cs"
  by (auto simp: columns_ok_def list_all_iff)

lemma positions_columns:
  assumes "sorted_wrt (<) ps" and "\<forall>p \<in> set ps. start \<le> Suc p \<and> p < cols" and "cols \<le> u16_max"
    and "0 < cols"
  shows "columns_ok cols (columns_from_positions (cols - 1) start ps) \<and>
    list_all (\<lambda>c. start \<le> col_start c) (columns_from_positions (cols - 1) start ps)"
  using assms
proof (induction ps arbitrary: start)
  case Nil
  then show ?case by (auto simp: columns_ok_def)
next
  case (Cons p ps)
  have p: "p < cols" "start \<le> Suc p" using Cons.prems(2) by auto
  then have after: "sat_add16 p (Suc 0) = Suc p" using Cons.prems(3) by (simp add: sat_add16_def)
  have IH: "columns_ok cols (columns_from_positions (cols - 1) (Suc p) ps)"
    "list_all (\<lambda>c. Suc p \<le> col_start c) (columns_from_positions (cols - 1) (Suc p) ps)"
    using Cons.IH [of "Suc p"] Cons.prems by (auto simp: less_imp_le)
  have later: "list_all (\<lambda>c. start \<le> col_start c) (columns_from_positions (cols - 1) (Suc p) ps)"
    "list_all (\<lambda>c. p - 1 < col_start c) (columns_from_positions (cols - 1) (Suc p) ps)"
    using IH(2) p by (auto simp: list_all_iff)
  show ?case using IH(1) later p by (auto simp: after columns_ok_Cons)
qed

lemma delimiter_columns:
  assumes "delimiter_positions s r n \<noteq> []"
  shows "columns_ok (snd (snapshot_size s)) (columns_from_delimiter_positions s (delimiter_positions s r n))"
proof -
  let ?cols = "snd (snapshot_size s)"
  have "?cols \<le> u16_max" by (simp add: snapshot_size_def try_u16_def split: list.splits)
  moreover have "sorted_wrt (<) (delimiter_positions s r n)"
    by (simp add: delimiter_positions_def sorted_wrt_filter)
  moreover have "\<forall>p \<in> set (delimiter_positions s r n). p < ?cols" by (auto simp: delimiter_positions_def)
  moreover from this assms have "0 < ?cols" by (cases "delimiter_positions s r n") auto
  ultimately show ?thesis
    using positions_columns [of "delimiter_positions s r n" 0 ?cols] by (simp add: columns_from_delimiter_positions_def)
qed

lemma starts_columns_loop:
  assumes "sorted_wrt (<) starts" and "\<forall>x \<in> set starts. lo \<le> x \<and> x < cols"
  shows "columns_ok cols (columns_from_starts_loop cols starts) \<and>
    list_all (\<lambda>c. lo \<le> col_start c) (columns_from_starts_loop cols starts)"
  using assms
proof (induction starts arbitrary: lo)
  case (Cons st starts)
  let ?rest = "columns_from_starts_loop cols starts"
  show ?case
  proof (cases starts)
    case Nil
    then show ?thesis using Cons.prems by (auto simp: columns_ok_def Let_def)
  next
    case nx: (Cons nx more)
    have "sorted_wrt (<) starts" "\<forall>x \<in> set starts. nx \<le> x \<and> x < cols" using Cons.prems nx by auto
    with Cons.IH [of nx] have rest: "columns_ok cols ?rest" "list_all (\<lambda>c. nx \<le> col_start c) ?rest" by auto
    have st: "st < nx" "lo \<le> st" "nx < cols" using Cons.prems nx by auto
    have "list_all (\<lambda>c. nx - 1 < col_start c) ?rest" "list_all (\<lambda>c. lo \<le> col_start c) ?rest"
      using rest(2) st by (auto simp: list_all_iff)
    moreover have "columns_from_starts_loop cols (st # starts) = \<lparr>col_start = st, col_end = nx - 1\<rparr> # ?rest"
      using st by (subst columns_from_starts_loop.simps(2)) (simp add: nx Let_def)
    moreover have "st \<le> nx - 1" "nx - 1 < cols" using st by simp_all
    ultimately show ?thesis using rest(1) st by (simp add: columns_ok_Cons del: columns_from_starts_loop.simps)
  qed
qed (simp add: columns_ok_def)

lemma remdups_adj_strict: "sorted xs \<Longrightarrow> sorted_wrt (<) (remdups_adj xs :: nat list)"
  by (induction xs rule: remdups_adj.induct) (auto simp: le_less)

lemma starts_columns:
  assumes "\<forall>x \<in> set starts. x < cols"
  shows "columns_ok cols (columns_from_starts cols (remdups_adj (sort starts)))"
proof -
  have "sorted_wrt (<) (remdups_adj (sort starts))"
    by (rule remdups_adj_strict) simp
  then show ?thesis using starts_columns_loop [of "remdups_adj (sort starts)" 0 cols] assms
    by (auto simp: columns_from_starts_def columns_ok_def)
qed

lemma better_cut_bound:
  assumes "\<And>n c. best = Some (n, c) \<Longrightarrow> c \<le> m" and "a \<le> m" and "better_cut s rows best a = Some (n, c)"
  shows "c \<le> m"
  using assms by (auto simp: better_cut_def Let_def split: option.splits if_splits)

lemma cut_in_gap:
  assumes "supported_cut_in_gap s rows start end = Some c"
  shows "c \<le> end"
proof -
  have fold: "c \<le> m" if "\<forall>a \<in> set cs. a \<le> m" and "\<And>n c. best = Some (n, c) \<Longrightarrow> c \<le> m"
    and "foldl (better_cut s rows) best cs = Some (n, c)" for best cs n c and m :: nat
    using that
  proof (induction cs arbitrary: best)
    case (Cons a cs)
    then show ?case using better_cut_bound [of best m a s rows] Cons.IH [of "better_cut s rows best a"] by auto
  qed simp
  from assms obtain n where "foldl (better_cut s rows) None (upto_incl start end) = Some (n, c)"
    by (auto simp: supported_cut_in_gap_def)
  then show ?thesis using fold [of "upto_incl start end" "end" None n c] by simp
qed

lemma header_cuts_bound:
  assumes "\<forall>c \<in> set cs. c < cols"
  shows "\<forall>x \<in> set (header_cuts_loop s rows h seen gap cs). x < cols"
  using assms
proof (induction cs arbitrary: seen gap)
  case (Cons c cs)
  have IH: "\<forall>x \<in> set (header_cuts_loop s rows h seen gap cs). x < cols" for seen gap
    using Cons by simp
  have "x < cols" if "supported_cut_in_gap s rows st (c - 1) = Some x" for st x
    using cut_in_gap [OF that] Cons.prems by auto
  then have "\<forall>x \<in> set (case supported_cut_in_gap s rows st (c - 1) of Some x \<Rightarrow> [x] | None \<Rightarrow> []). x < cols" for st
    by (cases "supported_cut_in_gap s rows st (c - 1)") auto
  then show ?case using IH by (cases gap; cases "cell_has_text s h c") (auto simp del: One_nat_def)
qed simp

text \<open>The columns between the gutters\<close>

lemma extend_down_stays: "col \<le> c \<Longrightarrow> c \<le> extend_down P cols col \<Longrightarrow> col < cols \<Longrightarrow> c < cols"
  using extend_down_less [of col cols P] by linarith

lemma gutter_columns:
  assumes "gutter_loop mb hb g cols col start columns = (start', columns')"
    and "columns_ok cols columns" and "list_all (\<lambda>c. col_end c < col) columns"
    and "\<And>s0. start = Some s0 \<Longrightarrow> s0 < col \<and> list_all (\<lambda>c. col_end c < s0) columns"
    and "col \<le> cols"
  shows "columns_ok cols columns' \<and>
    (\<forall>s0. start' = Some s0 \<longrightarrow> s0 < cols \<and> list_all (\<lambda>c. col_end c < s0) columns')"
  using assms
proof (induction mb hb g cols col start columns rule: gutter_loop.induct)
  case (1 mb hb g cols col start columns)
  show ?case
  proof (cases "col < cols")
    case False
    then show ?thesis using 1(5-) by (auto simp: gutter_loop.simps)
  next
    case col: True
    note unfolded = 1(5) [unfolded gutter_loop.simps [of mb hb g cols col start columns]]
    have unclosed: "s0 < c + 1 \<and> list_all (\<lambda>k. col_end k < s0) columns"
      if "(if start = None then Some col else start) = Some s0" and "col \<le> c" for s0 c
      using that 1(7,8) by (auto split: if_splits)
    show ?thesis
    proof (cases "mb col")
      case False
      have "list_all (\<lambda>k. col_end k < col + 1) columns" using 1(7) by (auto simp: list_all_iff)
      then show ?thesis using 1(4) [OF col False] unfolded col False 1(6) unclosed [of _ col] by (auto simp: Suc_le_eq)
    next
      case True
      define e where "e = extend_down mb cols col"
      have e: "col \<le> e" "e < cols" using extend_down_ge extend_down_less [OF col] by (simp_all add: e_def)
      have wide: "list_all (\<lambda>k. col_end k < e + 1) columns" using 1(7) e by (auto simp: list_all_iff)
      show ?thesis
      proof (cases "g \<le> e - col + 1 \<and> hb col e")
        case gap: True
        show ?thesis
        proof (cases start)
          case None
          then show ?thesis
            using 1(1) [OF col True e_def refl gap None] unfolded col True gap 1(6) wide e
            by (simp add: e_def [symmetric] Let_def)
        next
          case (Some s0)
          let ?columns = "columns @ [\<lparr>col_start = s0, col_end = col - 1\<rparr>]"
          have s0: "s0 < col" "list_all (\<lambda>k. col_end k < s0) columns" using 1(8) Some by auto
          have "columns_ok cols ?columns" using 1(6) s0 col by (auto simp: columns_ok_def sorted_wrt_append list_all_iff)
          moreover have "list_all (\<lambda>k. col_end k < e + 1) ?columns" using wide e by auto
          ultimately show ?thesis
            using 1(2) [OF col True e_def refl gap Some] unfolded col True gap e Some
            by (simp add: e_def [symmetric] Let_def)
        qed
      next
        case gap: False
        then show ?thesis
          using 1(3) [OF col True e_def refl gap] unfolded col True 1(6) wide e unclosed [of _ e]
          by (auto simp: e_def [symmetric] Let_def Suc_le_eq)
      qed
    qed
  qed
qed

lemma retain_ok:
  "columns_ok cols cs \<Longrightarrow> columns_ok cols (retain_content s u l cs)"
  "list_all (\<lambda>c. column_has_content s u l (col_start c) (col_end c)) (retain_content s u l cs)"
  by (simp_all add: retain_content_def columns_ok_filter) (simp add: list_all_iff)

lemma header_columns:
  assumes "detect_fixed_width_columns_from_header s u l cols rows h = Some cs"
  shows "columns_ok cols cs"
proof -
  have "\<forall>x \<in> set (supported_header_cuts s rows h cols). x < cols"
    unfolding supported_header_cuts_def by (rule header_cuts_bound) simp
  then have "columns_ok cols (columns_from_starts cols (remdups_adj (sort (0 # supported_header_cuts s rows h cols))))"
    if "cols \<noteq> 0" by (intro starts_columns) (use that in simp)
  then show ?thesis using assms
    by (auto simp: detect_fixed_width_columns_from_header_def Let_def retain_ok split: if_splits)
qed

lemma blank_columns:
  assumes "detect_fixed_width_columns_from_blanks s u l cols rows h = Some cs"
  shows "columns_ok cols cs"
proof -
  have "columns_ok cols (case start' of Some s0 \<Rightarrow> columns' @ [\<lparr>col_start = s0, col_end = cols - 1\<rparr>] | None \<Rightarrow> columns')"
    if loop: "gutter_loop mb hb g cols 0 None [] = (start', columns')" for mb hb g start' columns'
  proof -
    have "columns_ok cols columns' \<and>
      (\<forall>s0. start' = Some s0 \<longrightarrow> s0 < cols \<and> list_all (\<lambda>c. col_end c < s0) columns')"
      by (rule gutter_columns [OF loop]) (simp_all add: columns_ok_def)
    then show ?thesis
      by (cases start') (auto simp: columns_ok_def sorted_wrt_append list_all_iff)
  qed
  then show ?thesis using assms
    by (auto simp: detect_fixed_width_columns_from_blanks_def Let_def retain_ok split: if_splits prod.splits)
qed

lemma fixed_width_columns:
  "detect_fixed_width_columns s u l cols rows h = Some cs \<Longrightarrow> columns_ok cols cs"
  by (auto simp: detect_fixed_width_columns_def bind_eq_Some_conv split: option.splits dest: header_columns blank_columns)

lemma separator_header_bounds:
  assumes "separator_header m s rs = Some h" and "\<forall>r \<in> set rs. r \<le> l"
  shows "tm_top m \<le> h \<and> h \<le> l"
  using assms
proof (induction rs)
  case (Cons r rs)
  have "tm_top m \<le> h \<and> h \<le> l" if "header_above m s r = Some h" "tm_top m < r"
    using that find_mem [of _ _ h] Cons.prems(2) by (fastforce simp: header_above_def)
  then show ?case using Cons by (auto split: if_splits option.splits)
qed simp

lemma detect_header_bounds:
  assumes "detect_header_row alpha s u l cs d = Some h"
  shows "u \<le> h \<and> h \<le> l"
  using assms separator_header_bounds [of _ s "upto_incl u l" h l]
  by (fastforce simp: detect_header_row_def Let_def split: if_splits option.splits dest: find_mem)

lemma not_blank_row:
  assumes "\<not> row_is_blank s r" and "length (ts_rows s) \<le> u16_max"
  shows "r < fst (snapshot_size s)"
  using assms
  by (auto simp: row_is_blank_def list_all_iff cell_has_text_def snapshot_cell_def snapshot_size_def try_u16_def
      split: option.splits if_splits)

lemma nearest_row_loop_P: "nearest_row_loop P rows r os = Some a \<Longrightarrow> P a"
  by (induction P rows r os rule: nearest_row_loop.induct) (auto split: if_splits)

lemma pipe_table_ok:
  assumes "detect_pipe_table alpha s r = Some m" and "length (ts_rows s) \<le> u16_max"
  shows "table_ok s m"
proof -
  define P where "P = row_is_pipe_table_row s"
  from assms(1) obtain a h cs where anchor: "nearest_pipe_row s r = Some a"
    and header: "find_pipe_header_row_in_bounds s (extend_up P a) (extend_down P (fst (snapshot_size s)) a) = Some h"
    and columns: "detect_pipe_columns s (extend_up P a) (extend_down P (fst (snapshot_size s)) a) h = Some cs" "2 \<le> length cs"
    and m: "m = \<lparr>tm_top = extend_up P a, tm_bottom = extend_down P (fst (snapshot_size s)) a, tm_columns = cs,
      tm_header_row = (case detect_header_row alpha s (extend_up P a) (extend_down P (fst (snapshot_size s)) a) cs (Some (CHR ''|'')) of
         Some h \<Rightarrow> Some h | None \<Rightarrow> Some h), tm_delimiter = Some (CHR ''|'')\<rparr>"
    by (auto simp: detect_pipe_table_def Let_def P_def bind_eq_Some_conv split: if_splits)
  have "P a" using anchor nearest_row_loop_P
    by (auto simp: nearest_pipe_row_def Let_def P_def split: if_splits)
  then have "a < fst (snapshot_size s)" using not_blank_row assms(2) by (simp add: P_def row_is_pipe_table_row_def)
  note block = extended_block [OF this, of P]
  have "columns_ok (snd (snapshot_size s)) cs"
    and "list_all (\<lambda>c. column_has_content s (tm_top m) (tm_bottom m) (col_start c) (col_end c)) cs"
    using columns(1) retain_ok delimiter_columns by (auto simp: detect_pipe_columns_def Let_def m split: if_splits)
  moreover have "extend_up P a \<le> h" "h \<le> extend_down P (fst (snapshot_size s)) a"
    using header find_mem [of _ _ h] by (auto simp: find_pipe_header_row_in_bounds_def dest: find_mem)
  ultimately show ?thesis using block columns(2) detect_header_bounds
    by (auto simp: table_ok_def m split: option.splits)
qed

lemma fixed_width_table_ok:
  assumes "detect_fixed_width_table alpha s r = Some m" and "length (ts_rows s) \<le> u16_max"
  shows "table_ok s m"
proof -
  define P where "P = row_is_fixed_width_candidate s"
  obtain rows cols where size: "snapshot_size s = (rows, cols)" by fastforce
  from assms(1) obtain a rs hint cs where
    anchor: "(if P r then Some r else nearest_fixed_width_candidate s r) = Some a"
    and columns: "detect_fixed_width_columns s (extend_up P a) (extend_down P rows a) cols rs hint = Some cs"
    and m: "2 \<le> length (tm_columns m)" "m = \<lparr>tm_top = extend_up P a, tm_bottom = extend_down P rows a,
      tm_columns = retain_content s (extend_up P a) (extend_down P rows a) cs,
      tm_header_row = detect_header_row alpha s (extend_up P a) (extend_down P rows a)
        (retain_content s (extend_up P a) (extend_down P rows a) cs) None, tm_delimiter = None\<rparr>"
    by (auto simp: detect_fixed_width_table_def Let_def P_def size bind_eq_Some_conv split: if_splits)
  have "P a" using anchor nearest_row_loop_P
    by (auto simp: nearest_fixed_width_candidate_def Let_def P_def split: if_splits)
  then have "a < rows" using not_blank_row [OF _ assms(2), of a]
    by (auto simp: P_def row_is_fixed_width_candidate_def size split: if_splits)
  note block = extended_block [OF this, of P]
  show ?thesis using block m fixed_width_columns [OF columns] retain_ok detect_header_bounds
    by (auto simp: table_ok_def size split: option.splits)
qed

lemma manual_table_ok:
  assumes "detect_manual_from_header s h stops = Some m"
  shows "table_ok s m"
proof -
  define P where "P = row_is_manual_table_row s"
  obtain rows cols where size: "snapshot_size s = (rows, cols)" by fastforce
  define starts where "starts = 0 # filter (\<lambda>stop. 0 < stop \<and> stop < cols) stops"
  from assms have h: "h < rows" "0 < cols" and
    m: "2 \<le> length (tm_columns m)" "m = \<lparr>tm_top = extend_up P h, tm_bottom = extend_down P rows h,
      tm_columns = retain_content s (extend_up P h) (extend_down P rows h) (columns_from_starts cols (remdups_adj (sort starts))),
      tm_header_row = Some h, tm_delimiter = None\<rparr>"
    by (auto simp: detect_manual_from_header_def Let_def P_def starts_def size split: if_splits)
  have "columns_ok cols (columns_from_starts cols (remdups_adj (sort starts)))"
    by (rule starts_columns) (use h in \<open>auto simp: starts_def\<close>)
  then show ?thesis using extended_block [OF h(1), of P] m retain_ok by (simp add: table_ok_def size)
qed

section \<open>Nearest column and nearest row\<close>

definition dist :: "nat \<Rightarrow> nat \<Rightarrow> nat" where
  "dist a b = (if a \<le> b then b - a else a - b)"

text \<open>\<open>c\<close> is the first choice among the candidates: nearest, and the lower one of two at one distance\<close>

definition nearest :: "(nat \<Rightarrow> bool) \<Rightarrow> nat \<Rightarrow> nat \<Rightarrow> bool" where
  "nearest P p c \<longleftrightarrow> P c \<and> (\<forall>d. P d \<longrightarrow> dist p c < dist p d \<or> dist p c = dist p d \<and> c \<le> d)"

lemma nearest_up:
  assumes "P (p - k)" and "k \<le> p" and "\<And>d. P d \<Longrightarrow> k \<le> dist p d"
  shows "nearest P p (p - k)"
  using assms unfolding nearest_def dist_def by (auto simp: le_less) force+

lemma nearest_down:
  assumes "P (p + k)" and "\<And>d. P d \<Longrightarrow> k \<le> dist p d" and "k \<le> p \<Longrightarrow> \<not> P (p - k)" and "0 < k"
  shows "nearest P p (p + k)"
proof -
  have "p + k \<le> d" if "P d" "dist p d = k" for d
    using that assms(3,4) by (cases "p \<le> d") (auto simp: dist_def)
  moreover have "dist p (p + k) = k" by (simp add: dist_def)
  ultimately show ?thesis using assms(1,2) unfolding nearest_def by (metis le_neq_implies_less)
qed

lemma closer:
  assumes "\<And>d. P d \<Longrightarrow> k \<le> dist p d" and "k \<le> p \<Longrightarrow> \<not> P (p - k)" and "\<not> P (p + k)" and "P d"
  shows "Suc k \<le> dist p d"
proof -
  have "dist p d \<noteq> k" using assms(2-4) by (auto simp: dist_def split: if_splits)
  then show ?thesis using assms(1) [OF assms(4)] by simp
qed

lemma nearest_column_loop_exact:
  assumes "\<And>d. d < n \<and> matches d \<Longrightarrow> k \<le> dist p d" and "p < n" and "0 < k"
  shows "if \<exists>d < n. matches d then nearest (\<lambda>d. d < n \<and> matches d) p (nearest_column_loop matches n p [k..<n])
    else nearest_column_loop matches n p [k..<n] = p"
  using assms
proof (induction "n - k" arbitrary: k)
  case 0
  have "\<not> matches d" if "d < n" for d
    using 0(1) 0(2) [of d] that \<open>p < n\<close> by (auto simp: dist_def split: if_splits)
  then show ?case using 0 by auto
next
  case (Suc j)
  let ?P = "\<lambda>d. d < n \<and> matches d"
  have offsets: "[k..<n] = k # [Suc k..<n]" using Suc.hyps(2) by (simp add: upt_conv_Cons)
  consider "k \<le> p" "?P (p - k)" | "\<not> (k \<le> p \<and> ?P (p - k))" "?P (p + k)"
    | "\<not> (k \<le> p \<and> ?P (p - k))" "\<not> ?P (p + k)" by blast
  then show ?case
  proof cases
    case 1
    then show ?thesis using nearest_up [of ?P p k] Suc.prems(1) by (auto simp: offsets)
  next
    case 2
    then show ?thesis using nearest_down [of ?P p k] Suc.prems by (auto simp: offsets)
  next
    case 3
    have "Suc k \<le> dist p d" if "?P d" for d
      using closer [of ?P k p d] Suc.prems(1) 3 that by blast
    then show ?thesis using Suc.hyps(1) [of "Suc k"] Suc.hyps(2) Suc.prems(2) 3
      by (auto simp: offsets)
  qed
qed

lemma nearest_matching_column_exact:
  assumes "0 < n"
  shows "if \<exists>d < n. matches d
    then nearest (\<lambda>d. d < n \<and> matches d) (min preferred (n - 1)) (nearest_matching_column n preferred matches)
    else nearest_matching_column n preferred matches = min preferred (n - 1)"
proof -
  define p where "p = min preferred (n - 1)"
  have p: "p < n" using assms by (auto simp: p_def)
  have eq: "nearest_matching_column n preferred matches = (if matches p then p else nearest_column_loop matches n p [1..<n])"
    using assms by (simp add: nearest_matching_column_def p_def Let_def)
  show ?thesis
  proof (cases "matches p")
    case True
    then have "nearest (\<lambda>d. d < n \<and> matches d) p p" using p by (auto simp: nearest_def dist_def)
    then show ?thesis using True p unfolding eq p_def [symmetric] by auto
  next
    case False
    have "1 \<le> dist p d" if "d < n \<and> matches d" for d
      using that False by (cases "d = p") (auto simp: dist_def)
    then show ?thesis
      using nearest_column_loop_exact [of n matches 1 p] False p unfolding eq p_def [symmetric] by (simp del: One_nat_def)
  qed
qed

lemma nearest_matching_column_less: "0 < n \<Longrightarrow> nearest_matching_column n preferred matches < n"
  using nearest_matching_column_exact [of n matches preferred] by (auto simp: nearest_def split: if_splits)

lemma nearest_data_loop_exact:
  assumes "upper \<le> r" and "r \<le> lower" and "lower < u16_max" and "0 < k" and "k \<le> u16_max"
    and "\<And>d. upper \<le> d \<and> d \<le> lower \<and> \<not> skip d \<Longrightarrow> k \<le> dist r d"
  shows "\<exists>res. nearest_data_loop skip upper lower r k = Some res \<and>
    (case res of Some c \<Rightarrow> nearest (\<lambda>d. upper \<le> d \<and> d \<le> lower \<and> \<not> skip d) r c
     | None \<Rightarrow> \<forall>d. upper \<le> d \<and> d \<le> lower \<longrightarrow> skip d)"
  using assms
proof (induction "u16_max - k" arbitrary: k)
  case 0
  let ?P = "\<lambda>d. upper \<le> d \<and> d \<le> lower \<and> \<not> skip d"
  have "\<not> ?P d" for d
  proof
    assume P: "?P d"
    then have "dist r d \<le> lower" using 0(3) by (auto simp: dist_def)
    then show False using 0(7) [OF P] 0(1,4) by simp
  qed
  then show ?case using 0 by (subst nearest_data_loop.simps) (auto simp: Let_def sat_add16_def)
next
  case (Suc j)
  let ?P = "\<lambda>d. upper \<le> d \<and> d \<le> lower \<and> \<not> skip d"
  have up: "sat_add16 upper k \<le> r \<longleftrightarrow> k \<le> r \<and> upper \<le> r - k" using Suc.prems(1-5) by (auto simp: sat_add16_def)
  have down: "sat_add16 r k \<le> lower \<longleftrightarrow> r + k \<le> lower" "r + k \<le> lower \<Longrightarrow> sat_add16 r k = r + k"
    using Suc.prems(1-5) by (auto simp: sat_add16_def)
  consider "k \<le> r" "?P (r - k)" | "\<not> (k \<le> r \<and> ?P (r - k))" "?P (r + k)"
    | "\<not> (k \<le> r \<and> ?P (r - k))" "\<not> ?P (r + k)" by blast
  then show ?case
  proof cases
    case 1
    then show ?thesis using nearest_up [of ?P r k] Suc.prems(6) up
      by (subst nearest_data_loop.simps) (auto simp: Let_def)
  next
    case 2
    then have "nearest ?P r (r + k)" using nearest_down [of ?P r k] Suc.prems by auto
    then show ?thesis using 2 up down by (subst nearest_data_loop.simps) (auto simp: Let_def)
  next
    case 3
    have skips: "\<not> (sat_add16 upper k \<le> r \<and> upper \<le> r - k \<and> \<not> skip (r - k))"
      "\<not> (sat_add16 r k \<le> lower \<and> \<not> skip (sat_add16 r k))"
      using 3 up down Suc.prems(1,2) by auto
    have far: "Suc k \<le> dist r d" if "?P d" for d
      using closer [of ?P k r d] Suc.prems(6) 3 that by blast
    show ?thesis
    proof (cases "sat_add16 upper k \<le> r \<or> sat_add16 r k \<le> lower")
      case True
      have "sat_add16 k 1 = Suc k" using Suc.hyps(2) by (simp add: sat_add16_def)
      then have "nearest_data_loop skip upper lower r k = nearest_data_loop skip upper lower r (Suc k)"
        using True skips by (subst nearest_data_loop.simps) (simp add: Let_def del: One_nat_def, blast)
      then show ?thesis using Suc.hyps(1) [of "Suc k"] Suc.hyps(2) Suc.prems(1-3) far by simp
    next
      case False
      have "\<not> ?P d" for d using far [of d] False up down Suc.prems(1,2) by (auto simp: dist_def split: if_splits)
      then have "\<forall>d. upper \<le> d \<and> d \<le> lower \<longrightarrow> skip d" by blast
      moreover have "nearest_data_loop skip upper lower r k = Some None"
        using False skips by (subst nearest_data_loop.simps) (simp add: Let_def)
      ultimately show ?thesis by simp
    qed
  qed
qed

text \<open>
  C21: The search for the nearest data row, started inside a table, ends with the right row. Its
  offset saturates at the width of a row number, so that it ends is not obvious; for a start row
  between the first and the last row of a table whose last row is below 65535,
  \<^verbatim>\<open>nearest_data_row\<close> returns, and it returns the nearest row of the table that is neither separator
  nor banner, the upper one of two at the same distance, or nothing when the table has no such row.
  (From a start row outside the table it may return a row outside the table:
  \<open>nearest_data_row_leaves_table\<close> below.)
\<close>

theorem nearest_data_row_returns:
  assumes "tm_top m \<le> r" and "r \<le> tm_bottom m" and "tm_bottom m < u16_max"
  shows "\<exists>res. nearest_data_row m s r = Some res \<and>
    (case res of Some c \<Rightarrow> nearest (\<lambda>d. tm_top m \<le> d \<and> d \<le> tm_bottom m \<and> \<not> is_skippable_row m s d) r c
     | None \<Rightarrow> \<forall>d. tm_top m \<le> d \<and> d \<le> tm_bottom m \<longrightarrow> is_skippable_row m s d)"
proof (cases "is_skippable_row m s r")
  case True
  have "1 \<le> dist r d" if "\<not> is_skippable_row m s d" for d
    using that True by (cases "d = r") (auto simp: dist_def)
  then show ?thesis
    using nearest_data_loop_exact [of "tm_top m" r "tm_bottom m" 1 "is_skippable_row m s"] assms True
    by (simp add: nearest_data_row_def u16_max_def)
qed (use assms in \<open>auto simp: nearest_data_row_def nearest_def dist_def\<close>)

lemma table_has_column: "table_ok s m \<Longrightarrow> nearest_non_empty_col m s r preferred < length (tm_columns m)"
  by (auto simp: table_ok_def nearest_non_empty_col_def intro!: nearest_matching_column_less)

lemma pipe_table_header: "detect_pipe_table alpha s r = Some m \<Longrightarrow> tm_header_row m \<noteq> None"
  by (auto simp: detect_pipe_table_def Let_def bind_eq_Some_conv split: if_splits option.splits)

lemma manual_table_header: "detect_manual_from_header s h stops = Some m \<Longrightarrow> tm_header_row m = Some h"
  by (auto simp: detect_manual_from_header_def Let_def split: if_splits prod.splits)

text \<open>
  C20: On a screen of at most 65535 rows every detected table is well formed, and entering it cannot
  fail. Whether delimiters, blank gutters, a header or manual tab stops gave the table: its rows are
  rows of the screen, it has at least two columns, each inside the screen and to the right of the one
  before, each with text in some row; its header, if it has one, is one of its rows; only a table found
  by its blank gutters may be without one; and the column the cursor is put on, from any row and
  preferred column, exists (the source relies on that with \<^verbatim>\<open>expect\<close>).
\<close>

theorem detected_tables_well_formed:
  assumes "detect alpha s r = Some m \<or> detect_manual_from_header s r stops = Some m"
    and "length (ts_rows s) \<le> u16_max"
  shows "table_ok s m \<and>
    (tm_header_row m = None \<longrightarrow> detect_fixed_width_table alpha s r = Some m) \<and>
    current_column \<lparr>tst_model = m, tst_current_col = nearest_non_empty_col m s entry preferred\<rparr> \<noteq> None"
proof -
  have "table_ok s m" using assms pipe_table_ok fixed_width_table_ok manual_table_ok
    by (auto simp: detect_def split: option.splits)
  moreover have "tm_header_row m = None \<longrightarrow> detect_fixed_width_table alpha s r = Some m"
    using assms(1) by (auto simp: detect_def manual_table_header dest: pipe_table_header split: option.splits)
  ultimately show ?thesis using table_has_column by (simp add: current_column_def)
qed

section \<open>Examples\<close>

lemma whitespace_none:
  "byte_val c \<in> {33..126} \<Longrightarrow> \<not> char_is_whitespace [c]"
  using whitespace_edges [of "[c]"] by (auto simp: char_is_whitespace_def)

lemma str_trim_single: "byte_val c \<in> {33..126} \<Longrightarrow> str_trim [c] = [c]"
  by (rule str_trim_same) simp_all

lemma str_trim_Nil: "str_trim [] = []"
  by (simp add: str_trim_def)

lemma one_row: "extend_down P (Suc 0) 0 = 0"
  by (subst extend_down.simps) simp

definition manual_example :: terminal_snapshot where
  "manual_example = example_snapshot [example_row ''a b'']"

lemma manual_example_cells:
  "length (ts_rows manual_example) = 1" "snapshot_size manual_example = (1, 3)"
  "cell_has_text manual_example 0 0" "cell_has_text manual_example 0 2"
  by (simp_all add: manual_example_def example_snapshot_def example_row_def snapshot_size_def try_u16_def u16_max_def
      cell_has_text_def snapshot_cell_def cell_default_def str_trim_single byte_val_def)

lemma manual_example_line: "view_line manual_example 0 = ''a b''"
  by (simp add: view_line_def contents_between_def manual_example_cells)
    (simp add: manual_example_def example_snapshot_def example_row_def append_contents_range_to_def
      saturating_add_usize_def usize_max_def cell_default_def)

lemma manual_example_content: "\<not> is_separator_row manual_example 0"
  using str_trim_same [of "''a b''"] whitespace_none [of "CHR ''a''"]
  by (simp add: is_separator_row_def manual_example_line Let_def utf8_char_len_def is_separator_char_def byte_val_def)

theorem detected_tables_well_formed_witness:
  "\<exists>m. detect_manual_from_header manual_example 0 [2] = Some m \<and> table_ok manual_example m"
proof -
  have "columns_from_starts 3 (remdups_adj (sort (0 # filter (\<lambda>stop. 0 < stop \<and> stop < 3) [2]))) =
    [\<lparr>col_start = 0, col_end = 1\<rparr>, \<lparr>col_start = 2, col_end = 2\<rparr>]"
    by (simp add: columns_from_starts_def)
  moreover have "retain_content manual_example 0 0 [\<lparr>col_start = 0, col_end = 1\<rparr>, \<lparr>col_start = 2, col_end = 2\<rparr>] =
    [\<lparr>col_start = 0, col_end = 1\<rparr>, \<lparr>col_start = 2, col_end = 2\<rparr>]"
    using manual_example_cells(3,4)
    by (auto simp: retain_content_def column_has_content_def upto_incl_def manual_example_content)
  ultimately obtain m where m: "detect_manual_from_header manual_example 0 [2] = Some m"
    by (auto simp: detect_manual_from_header_def manual_example_cells Let_def one_row)
  then have "table_ok manual_example m"
    using detected_tables_well_formed [where alpha = "\<lambda>_. True" and s = manual_example and r = 0 and m = m and stops = "[2]"] manual_example_cells(1)
    by (simp add: u16_max_def)
  with m show ?thesis by blast
qed

theorem nearest_data_row_returns_witness:
  "nearest_data_row \<lparr>tm_top = 0, tm_bottom = 0, tm_columns = [], tm_header_row = None, tm_delimiter = Some (CHR ''|'')\<rparr>
     manual_example 0 \<noteq> None"
proof -
  let ?m = "\<lparr>tm_top = 0, tm_bottom = 0, tm_columns = [], tm_header_row = None, tm_delimiter = Some (CHR ''|'')\<rparr>"
  have "tm_top ?m \<le> 0" "(0 :: nat) \<le> tm_bottom ?m" "tm_bottom ?m < u16_max" by (simp_all add: u16_max_def)
  from nearest_data_row_returns [OF this, of manual_example] show ?thesis by auto
qed

text \<open>
  The search does not stay in the table when it starts outside of it: from a row below a table,
  the row before it is returned although it is not a row of the table. Entering table mode starts
  the search at the cursor, up to six rows away from the table that was detected.
\<close>

lemma nearest_data_row_leaves_table:
  assumes "tm_bottom m < r - 1" and "tm_top m < r" and "r \<le> u16_max" and "\<not> is_separator_row s (r - 1)"
  shows "nearest_data_row m s r = Some (Some (r - 1))"
proof -
  have "\<not> is_skippable_row m s (r - 1)" using assms by (simp add: is_skippable_row_def is_banner_row_def)
  moreover have "tm_top m \<le> r - Suc 0" "\<not> r \<le> tm_bottom m" using assms by simp_all
  ultimately show ?thesis using assms
    by (simp add: nearest_data_row_def) (subst nearest_data_loop.simps, simp add: Let_def sat_add16_def)
qed

text \<open>
  In a delimited table the index of a column is taken as the index of a cell of the line. A column
  without any text is not among the columns of the model but is still a cell of the line, so the
  columns behind it read the cell before theirs.
\<close>

definition gap_example :: terminal_snapshot where
  "gap_example = example_snapshot [example_row ''|a| |c|'']"

lemma gap_example_size: "snapshot_size gap_example = (1, 7)"
  by (simp add: gap_example_def example_snapshot_def example_row_def snapshot_size_def try_u16_def u16_max_def)

lemma gap_example_line: "view_line gap_example 0 = ''|a| |c|''"
  by (simp add: view_line_def contents_between_def gap_example_size)
    (simp add: gap_example_def example_snapshot_def example_row_def append_contents_range_to_def
      saturating_add_usize_def usize_max_def cell_default_def)

lemma gap_example_trim: "str_trim ''|a| |c|'' = ''|a| |c|''"
  by (rule str_trim_same) (simp_all add: byte_val_def)

lemma gap_example_text:
  "cell_has_text gap_example 0 c \<longleftrightarrow> c \<in> {0, 1, 2, 4, 5, 6}"
  by (auto simp: gap_example_def example_snapshot_def example_row_def cell_has_text_def snapshot_cell_def cell_default_def
      nth_Cons' str_trim_single str_trim_Nil byte_val_def split: if_splits)

lemma gap_example_separator: "\<not> is_separator_row gap_example 0"
  using whitespace_none [of "CHR ''a''"]
  by (simp add: is_separator_row_def gap_example_line gap_example_trim Let_def utf8_char_len_def is_separator_char_def
      byte_val_def)

lemma gap_example_cells: "pipe_cell_layout ''|a| |c|'' = Some (1, 3)"
  by (simp add: pipe_cell_layout_def count_byte_def starts_with_def ends_with_def)

lemma str_trim_space: "str_trim '' '' = []"
  using str_trim_empty_iff [of "'' ''"] ascii_space by simp

lemma gap_example_positions: "delimiter_positions gap_example 0 ''|'' = [0, 2, 4, 6]"
  by (simp add: delimiter_positions_def gap_example_size upt_rec)
    (simp add: gap_example_def example_snapshot_def example_row_def snapshot_cell_def cell_default_def)

theorem pipe_columns_misaligned:
  "\<exists>m. detect (\<lambda>_. False) gap_example 0 = Some m \<and> tm_columns m ! 1 = \<lparr>col_start = 5, col_end = 5\<rparr> \<and>
     contents_between gap_example 0 5 0 6 = ''c'' \<and> cell_text m gap_example 0 1 = []"
proof -
  let ?cs = "[\<lparr>col_start = 1, col_end = 1\<rparr>, \<lparr>col_start = 5, col_end = 5\<rparr>]"
  let ?m = "\<lparr>tm_top = 0, tm_bottom = 0, tm_columns = ?cs, tm_header_row = Some 0, tm_delimiter = Some (CHR ''|'')\<rparr>"
  have row: "row_is_pipe_table_row gap_example 0"
  proof -
    have "0 \<in> {0..<snd (snapshot_size gap_example)}" "cell_has_text gap_example 0 0"
      by (simp_all add: gap_example_size gap_example_text)
    then have "\<not> row_is_blank gap_example 0" unfolding row_is_blank_def list_all_iff by force
    then show ?thesis by (simp add: row_is_pipe_table_row_def gap_example_line contains_byte_def)
  qed
  have header: "row_looks_like_pipe_header gap_example 0"
    by (simp add: row_looks_like_pipe_header_def gap_example_line gap_example_trim gap_example_separator
        gap_example_cells Let_def count_byte_def str_trim_single str_trim_space byte_val_def)
  have columns: "detect_pipe_columns gap_example 0 0 0 = Some ?cs"
    by (simp add: detect_pipe_columns_def gap_example_positions Let_def columns_from_delimiter_positions_def gap_example_size
        sat_add16_def u16_max_def retain_content_def column_has_content_def upto_incl_def gap_example_separator gap_example_text)
  have "detect_pipe_table (\<lambda>_. False) gap_example 0 = Some ?m"
    using row header columns
    by (simp add: detect_pipe_table_def nearest_pipe_row_def gap_example_size Let_def one_row
        find_pipe_header_row_in_bounds_def upto_incl_def detect_header_row_def)
  moreover have "cell_text ?m gap_example 0 1 = []"
    by (simp add: cell_text_def pipe_delimited_cell_text_def gap_example_line gap_example_trim gap_example_cells
        Let_def str_trim_space)
  moreover have "contents_between gap_example 0 5 0 6 = ''c''"
    by (simp add: contents_between_def gap_example_def example_snapshot_def example_row_def append_contents_range_to_def
        saturating_add_usize_def usize_max_def cell_default_def)
  ultimately show ?thesis by (simp add: detect_def)
qed

end
