(* ===== verification/Clipboard.thy ===== *)
theory Clipboard
  imports Rust_Strings "HOL-Library.Word"
begin

text \<open>
  Lector's clipboards (\<^verbatim>\<open>clipboard.rs\<close>): the ring of the ten newest texts with a selected
  entry, and the system clipboard, which is either the native one of the \<^verbatim>\<open>arboard\<close> crate or
  written through the outer terminal with OSC 52. The operations of \<^verbatim>\<open>arboard\<close> are a parameter.
\<close>

unbundle bit_operations_syntax

section \<open>Registers and providers\<close>

datatype clipboard_register = RegInternal | RegSystem

definition register_name :: "clipboard_register \<Rightarrow> bytes" where
  "register_name r = (case r of RegInternal \<Rightarrow> [CHR 0x22] | RegSystem \<Rightarrow> ''+'')"

definition register_from_str :: "bytes \<Rightarrow> (clipboard_register, bytes) result" where
  "register_from_str v =
     (if v = [CHR 0x22] then Ok RegInternal else if v = ''+'' then Ok RegSystem
      else Err (''clipboard register must be '' @ [CHR 0x22] @ '' or +''))"

datatype clipboard_provider = ProviderNative | ProviderOsc52

definition provider_name :: "clipboard_provider \<Rightarrow> bytes" where
  "provider_name p = (case p of ProviderNative \<Rightarrow> ''native'' | ProviderOsc52 \<Rightarrow> ''osc52'')"

definition provider_from_str :: "bytes \<Rightarrow> (clipboard_provider, bytes) result" where
  "provider_from_str v =
     (if v = ''native'' then Ok ProviderNative else if v = ''osc52'' then Ok ProviderOsc52
      else Err ''system clipboard provider must be native or osc52'')"

section \<open>The ring of texts\<close>

definition INTERNAL_CLIPBOARD_CAPACITY :: nat where
  "INTERNAL_CLIPBOARD_CAPACITY = 10"

record clipboard =
  cb_idx :: nat
  cb_clipboards :: "bytes list"

definition clipboard_default :: clipboard where
  "clipboard_default = \<lparr>cb_idx = 0, cb_clipboards = []\<rparr>"

definition clipboard_get :: "clipboard \<Rightarrow> bytes option" where
  "clipboard_get c = (if cb_idx c < length (cb_clipboards c) then Some (cb_clipboards c ! cb_idx c) else None)"

definition clipboard_put :: "bytes \<Rightarrow> clipboard \<Rightarrow> clipboard" where
  "clipboard_put t c =
     (let kept = (if INTERNAL_CLIPBOARD_CAPACITY \<le> length (cb_clipboards c)
                  then tl (cb_clipboards c) else cb_clipboards c)
      in \<lparr>cb_idx = length kept, cb_clipboards = kept @ [t]\<rparr>)"

definition clipboard_prev :: "clipboard \<Rightarrow> bool \<times> clipboard" where
  "clipboard_prev c =
     (if length (cb_clipboards c) \<le> cb_idx c + 1 then (False, c) else (True, c\<lparr>cb_idx := cb_idx c + 1\<rparr>))"

definition clipboard_next :: "clipboard \<Rightarrow> bool \<times> clipboard" where
  "clipboard_next c = (if cb_idx c = 0 then (False, c) else (True, c\<lparr>cb_idx := cb_idx c - 1\<rparr>))"

definition clipboard_entries :: "clipboard \<Rightarrow> bytes list" where
  "clipboard_entries c = rev (cb_clipboards c)"

definition clipboard_selected_index :: "clipboard \<Rightarrow> nat option" where
  "clipboard_selected_index c =
     (if cb_clipboards c \<noteq> [] then Some (length (cb_clipboards c) - cb_idx c) else None)"

definition clipboard_select_index :: "nat \<Rightarrow> clipboard \<Rightarrow> bool \<times> clipboard" where
  "clipboard_select_index index c =
     (if index = 0 \<or> length (cb_clipboards c) < index then (False, c)
      else (True, c\<lparr>cb_idx := length (cb_clipboards c) - index\<rparr>))"

definition clipboard_clear :: "clipboard \<Rightarrow> clipboard" where
  "clipboard_clear c = \<lparr>cb_idx = 0, cb_clipboards = []\<rparr>"

section \<open>OSC 52\<close>

definition OSC52_PREFIX :: bytes where
  "OSC52_PREFIX = CHR 0x1B # '']52;c;''"

definition OSC52_SUFFIX :: bytes where
  "OSC52_SUFFIX = [CHR 0x1B, CHR 0x5C]"

definition base64_table :: bytes where
  "base64_table = ''ABCDEFGHIJKLMNOPQRSTUVWXYZabcdefghijklmnopqrstuvwxyz0123456789+/''"

definition byte_word :: "byte \<Rightarrow> 8 word" where
  "byte_word c = word_of_nat (byte_val c)"

definition table_char :: "8 word \<Rightarrow> byte" where
  "table_char w = base64_table ! unat w"

definition encode_chunk :: "bytes \<Rightarrow> bytes" where
  "encode_chunk chunk =
     (let b1 = byte_word (chunk ! 0);
          b2 = (if 1 < length chunk then byte_word (chunk ! 1) else 0);
          b3 = (if 2 < length chunk then byte_word (chunk ! 2) else 0)
      in [table_char (drop_bit 2 b1),
          table_char ((push_bit 4 (b1 AND 0x03)) OR drop_bit 4 b2),
          (if 1 < length chunk then table_char ((push_bit 2 (b2 AND 0x0F)) OR drop_bit 6 b3) else CHR ''=''),
          (if 2 < length chunk then table_char (b3 AND 0x3F) else CHR ''='')])"

function encode_base64 :: "bytes \<Rightarrow> bytes" where
  "encode_base64 input =
     (if input = [] then [] else encode_chunk (take 3 input) @ encode_base64 (drop 3 input))"
  by pat_completeness auto
termination
  by (relation "measure length") auto

declare encode_base64.simps [simp del]

definition osc52_write :: "bytes \<Rightarrow> bytes" where
  "osc52_write t = OSC52_PREFIX @ encode_base64 t @ OSC52_SUFFIX"

section \<open>The system clipboard\<close>

datatype arboard_error = ContentNotAvailable | ArboardError bytes

record 'n arboard =
  ab_new :: "('n, arboard_error) result"
  ab_get_text :: "'n \<Rightarrow> (bytes, arboard_error) result \<times> 'n"
  ab_set_text :: "bytes \<Rightarrow> 'n \<Rightarrow> (unit, arboard_error) result \<times> 'n"
  ab_clear :: "'n \<Rightarrow> (unit, arboard_error) result \<times> 'n"
  ab_display :: "arboard_error \<Rightarrow> bytes"

record 'n system_clipboard =
  sc_native :: "'n option"
  sc_pending_terminal_writes :: "bytes list"

definition system_clipboard_default :: "'n system_clipboard" where
  "system_clipboard_default = \<lparr>sc_native = None, sc_pending_terminal_writes = []\<rparr>"

definition sc_open_native :: "'n arboard \<Rightarrow> 'n system_clipboard \<Rightarrow> ('n, bytes) result \<times> 'n system_clipboard" where
  "sc_open_native ab sc =
     (case sc_native sc of
        Some n \<Rightarrow> (Ok n, sc)
      | None \<Rightarrow>
          (case ab_new ab of
             Ok n \<Rightarrow> (Ok n, sc\<lparr>sc_native := Some n\<rparr>)
           | Err e \<Rightarrow> (Err (''open native system clipboard: '' @ ab_display ab e), sc)))"

text \<open>An operation on the opened native clipboard, with the message for its errors\<close>

definition with_native ::
  "'n arboard \<Rightarrow> bytes \<Rightarrow> ('n \<Rightarrow> ('a, arboard_error) result \<times> 'n) \<Rightarrow> 'n system_clipboard \<Rightarrow>
   ('a, bytes) result \<times> 'n system_clipboard" where
  "with_native ab message f sc =
     (case sc_open_native ab sc of
        (Err e, sc) \<Rightarrow> (Err e, sc)
      | (Ok n, sc) \<Rightarrow>
          (case f n of
             (Ok v, n) \<Rightarrow> (Ok v, sc\<lparr>sc_native := Some n\<rparr>)
           | (Err e, n) \<Rightarrow> (Err (message @ ab_display ab e), sc\<lparr>sc_native := Some n\<rparr>)))"

definition native_text :: "'n arboard \<Rightarrow> 'n \<Rightarrow> (bytes option, arboard_error) result \<times> 'n" where
  "native_text ab n =
     (case ab_get_text ab n of
        (Ok t, n) \<Rightarrow> (Ok (Some t), n)
      | (Err e, n) \<Rightarrow> if e = ContentNotAvailable then (Ok None, n) else (Err e, n))"

definition sc_read :: "'n arboard \<Rightarrow> clipboard_provider \<Rightarrow> 'n system_clipboard \<Rightarrow>
    (bytes option, bytes) result \<times> 'n system_clipboard" where
  "sc_read ab p sc =
     (case p of
        ProviderNative \<Rightarrow> with_native ab ''read native system clipboard: '' (native_text ab) sc
      | ProviderOsc52 \<Rightarrow> (Err ''system clipboard provider osc52 is write-only'', sc))"

definition sc_write :: "'n arboard \<Rightarrow> clipboard_provider \<Rightarrow> bytes \<Rightarrow> 'n system_clipboard \<Rightarrow>
    (unit, bytes) result \<times> 'n system_clipboard" where
  "sc_write ab p t sc =
     (case p of
        ProviderNative \<Rightarrow> with_native ab ''write native system clipboard: '' (ab_set_text ab t) sc
      | ProviderOsc52 \<Rightarrow>
          (Ok (), sc\<lparr>sc_pending_terminal_writes := sc_pending_terminal_writes sc @ [osc52_write t]\<rparr>))"

definition sc_clear :: "'n arboard \<Rightarrow> clipboard_provider \<Rightarrow> 'n system_clipboard \<Rightarrow>
    (unit, bytes) result \<times> 'n system_clipboard" where
  "sc_clear ab p sc =
     (case p of
        ProviderNative \<Rightarrow> with_native ab ''clear native system clipboard: '' (ab_clear ab) sc
      | ProviderOsc52 \<Rightarrow>
          (Ok (), sc\<lparr>sc_pending_terminal_writes := sc_pending_terminal_writes sc @ [OSC52_PREFIX @ OSC52_SUFFIX]\<rparr>))"

definition take_terminal_writes :: "'n system_clipboard \<Rightarrow> bytes list \<times> 'n system_clipboard" where
  "take_terminal_writes sc = (sc_pending_terminal_writes sc, sc\<lparr>sc_pending_terminal_writes := []\<rparr>)"

section \<open>OSC 52 carries the text\<close>

definition word_byte :: "8 word \<Rightarrow> byte" where
  "word_byte w = char_of (unat w)"

definition table_index :: "byte \<Rightarrow> 8 word option" where
  "table_index c = map_option word_of_nat (position (\<lambda>b. b = c) base64_table)"

text \<open>A decoder of padded Base64 (RFC 4648), as a receiving terminal has one\<close>

definition decode_quad :: "byte \<Rightarrow> byte \<Rightarrow> byte \<Rightarrow> byte \<Rightarrow> bytes option" where
  "decode_quad a b c d =
     (case (table_index a, table_index b) of
        (Some w1, Some w2) \<Rightarrow>
          let x = push_bit 2 w1 OR drop_bit 4 w2 in
          if c = CHR ''='' then Some [word_byte x]
          else (case table_index c of
                  None \<Rightarrow> None
                | Some w3 \<Rightarrow>
                    let y = push_bit 4 w2 OR drop_bit 2 w3 in
                    if d = CHR ''='' then Some [word_byte x, word_byte y]
                    else (case table_index d of
                            None \<Rightarrow> None
                          | Some w4 \<Rightarrow> Some [word_byte x, word_byte y, word_byte (push_bit 6 w3 OR w4)]))
      | _ \<Rightarrow> None)"

fun decode_base64 :: "bytes \<Rightarrow> bytes option" where
  "decode_base64 [] = Some []"
| "decode_base64 (a # b # c # d # r) =
     Option.bind (decode_quad a b c d) (\<lambda>x. map_option (\<lambda>y. x @ y) (decode_base64 r))"
| "decode_base64 _ = None"

lemma word_byte_word [simp]: "word_byte (byte_word c) = c"
  using byte_val_less [of c] by (simp add: word_byte_def byte_word_def unat_of_nat)

lemma position_nth: "distinct xs \<Longrightarrow> i < length xs \<Longrightarrow> position (\<lambda>b. b = xs ! i) xs = Some i"
proof (induction xs arbitrary: i)
  case (Cons x xs)
  then show ?case by (cases i) auto
qed simp

lemma base64_table_props: "length base64_table = 64" "distinct base64_table" "CHR ''='' \<notin> set base64_table"
  by (simp_all add: base64_table_def)

lemma table_char_inverse:
  assumes "unat w < 64"
  shows "table_index (table_char w) = Some w" and "table_char w \<noteq> CHR ''=''" and "table_char w \<in> set base64_table"
proof -
  have "unat w < length base64_table" using assms by (simp add: base64_table_props)
  then show "table_index (table_char w) = Some w" and "table_char w \<in> set base64_table"
    by (simp_all add: table_index_def table_char_def position_nth base64_table_props)
  then show "table_char w \<noteq> CHR ''=''" using base64_table_props(3) by metis
qed

lemma six_bits: "unat (take_bit 6 w) < 64" for w :: "8 word"
  using take_bit_nat_less_exp [of 6 "unat w"] by (simp add: unsigned_take_bit_eq)

lemma masks: "w AND 3 = take_bit 2 w" "w AND 15 = take_bit 4 w" "w AND 63 = take_bit 6 w" for w :: "8 word"
  by (simp_all add: take_bit_eq_mask mask_numeral)

lemma bit_positions: "n < LENGTH(8) \<Longrightarrow> n = 0 \<or> n = 1 \<or> n = 2 \<or> n = 3 \<or> n = 4 \<or> n = 5 \<or> n = 6 \<or> n = (7::nat)"
  by auto

lemma high_bits: "8 \<le> n \<Longrightarrow> \<not> bit w n" for w :: "8 word"
  using bit_imp_le_length [of w n] by auto

lemma six_bit_parts:
  fixes b1 b2 b3 :: "8 word"
  shows "take_bit 6 (drop_bit 2 b1) = drop_bit 2 b1"
    and "take_bit 6 (push_bit 4 (b1 AND 3) OR drop_bit 4 b2) = push_bit 4 (b1 AND 3) OR drop_bit 4 b2"
    and "take_bit 6 (push_bit 2 (b2 AND 15) OR drop_bit 6 b3) = push_bit 2 (b2 AND 15) OR drop_bit 6 b3"
    and "take_bit 6 (b3 AND 63) = b3 AND 63"
    and "push_bit 2 (drop_bit 2 b1) OR drop_bit 4 (push_bit 4 (b1 AND 3) OR drop_bit 4 b2) = b1"
    and "push_bit 4 (push_bit 4 (b1 AND 3) OR drop_bit 4 b2) OR drop_bit 2 (push_bit 2 (b2 AND 15) OR drop_bit 6 b3) = b2"
    and "push_bit 6 (push_bit 2 (b2 AND 15) OR drop_bit 6 b3) OR (b3 AND 63) = b3"
  unfolding masks
  by (rule bit_word_eqI, drule bit_positions, elim disjE; simp add: bit_simps high_bits)+

lemma six_bit_values:
  fixes b1 b2 b3 :: "8 word"
  shows "unat (drop_bit 2 b1) < 64" and "unat (push_bit 4 (b1 AND 3) OR drop_bit 4 b2) < 64"
    and "unat (push_bit 2 (b2 AND 15) OR drop_bit 6 b3) < 64" and "unat (b3 AND 63) < 64"
  using six_bit_parts(1-4) six_bits by metis+

lemma encode_chunk_decodes:
  assumes "chunk \<noteq> []" and "length chunk \<le> 3"
  obtains a b c d where "encode_chunk chunk = [a, b, c, d]" and "decode_quad a b c d = Some chunk"
    and "set [a, b, c, d] \<subseteq> insert (CHR ''='') (set base64_table)"
proof -
  define b1 b2 b3 where b: "b1 = byte_word (chunk ! 0)"
    "b2 = (if 1 < length chunk then byte_word (chunk ! 1) else 0)"
    "b3 = (if 2 < length chunk then byte_word (chunk ! 2) else 0)"
  define w1 w2 w3 w4 where w: "w1 = drop_bit 2 b1" "w2 = push_bit 4 (b1 AND 3) OR drop_bit 4 b2"
    "w3 = push_bit 2 (b2 AND 15) OR drop_bit 6 b3" "w4 = b3 AND 63"
  note table = table_char_inverse [OF six_bit_values(1) [of b1, folded w]]
    table_char_inverse [OF six_bit_values(2) [of b1 b2, folded w]]
    table_char_inverse [OF six_bit_values(3) [of b2 b3, folded w]]
    table_char_inverse [OF six_bit_values(4) [of b3, folded w]]
  note parts = six_bit_parts(5) [of b1 b2, folded w] six_bit_parts(6) [of b1 b2 b3, folded w]
    six_bit_parts(7) [of b2 b3, folded w]
  have enc: "encode_chunk chunk = [table_char w1, table_char w2,
    if 1 < length chunk then table_char w3 else CHR ''='', if 2 < length chunk then table_char w4 else CHR ''='']"
    unfolding encode_chunk_def Let_def w b ..
  consider x where "chunk = [x]" | x y where "chunk = [x, y]" | x y z where "chunk = [x, y, z]"
  proof (cases chunk)
    case c1: (Cons x xs)
    then show ?thesis using that assms(2) by (cases xs; cases "tl xs") auto
  qed (use assms in simp)
  then show thesis
  proof cases
    case 1
    then have "word_byte b1 = x" by (simp add: b)
    moreover have "encode_chunk chunk = [table_char w1, table_char w2, CHR ''='', CHR ''='']" using enc 1 by simp
    ultimately show ?thesis using that 1 by (simp add: decode_quad_def table parts Let_def)
  next
    case 2
    then have "word_byte b1 = x" "word_byte b2 = y" by (simp_all add: b)
    moreover have "encode_chunk chunk = [table_char w1, table_char w2, table_char w3, CHR ''='']" using enc 2 by simp
    ultimately show ?thesis using that 2 by (simp add: decode_quad_def table parts Let_def)
  next
    case 3
    then have "word_byte b1 = x" "word_byte b2 = y" "word_byte b3 = z" by (simp_all add: b)
    moreover have "encode_chunk chunk = [table_char w1, table_char w2, table_char w3, table_char w4]" using enc 3 by simp
    ultimately show ?thesis using that 3 by (simp add: decode_quad_def table parts Let_def)
  qed
qed

lemma encode_base64_decodes:
  "decode_base64 (encode_base64 t) = Some t \<and> set (encode_base64 t) \<subseteq> insert (CHR ''='') (set base64_table)"
proof (induction t rule: encode_base64.induct)
  case (1 t)
  show ?case
  proof (cases "t = []")
    case True
    then show ?thesis by (simp add: encode_base64.simps)
  next
    case False
    then obtain a b c d where "encode_chunk (take 3 t) = [a, b, c, d]" "decode_quad a b c d = Some (take 3 t)"
      "set [a, b, c, d] \<subseteq> insert (CHR ''='') (set base64_table)"
      using encode_chunk_decodes [of "take 3 t"] False
      by (metis length_take min.cobounded2 take_eq_Nil zero_neq_numeral)
    then show ?thesis using 1 [OF False] False
      by (subst (1 2) encode_base64.simps) (simp add: append_take_drop_id)
  qed
qed

text \<open>What a terminal reads from an OSC 52 sequence\<close>

definition read_osc52 :: "bytes \<Rightarrow> bytes option" where
  "read_osc52 s =
     Option.bind (strip_prefix s OSC52_PREFIX) (\<lambda>r.
       Option.bind (strip_suffix r OSC52_SUFFIX) (\<lambda>body. if CHR 0x1B \<in> set body then None else decode_base64 body))"

text \<open>
  C23: a text written to the system clipboard through the outer terminal arrives there unchanged.
  For any bytes the queued OSC 52 sequence is one sequence, its body cannot end it early since
  it has Base64 characters only, and reading and decoding the body gives back exactly the text,
  at any length modulo three. Writes and clears are handed out once, in order.
\<close>

theorem osc52_roundtrip:
  "read_osc52 (osc52_write t) = Some t \<and> read_osc52 (OSC52_PREFIX @ OSC52_SUFFIX) = Some [] \<and>
   take_terminal_writes (snd (sc_write ab ProviderOsc52 t sc)) =
     (fst (take_terminal_writes sc) @ [osc52_write t], snd (take_terminal_writes sc))"
proof -
  have "CHR 0x1B \<notin> insert (CHR ''='') (set base64_table)" by (simp add: base64_table_def)
  then have "CHR 0x1B \<notin> set (encode_base64 t)" using encode_base64_decodes [of t] by blast
  then show ?thesis using encode_base64_decodes [of t]
    by (simp add: read_osc52_def osc52_write_def strip_prefix_append strip_suffix_def ends_with_iff
        take_terminal_writes_def sc_write_def)
qed

section \<open>The ring is the ten newest texts\<close>

datatype ring_op = RingPut bytes | RingPrev | RingNext | RingSelect nat | RingClear

fun ring_step :: "clipboard \<Rightarrow> ring_op \<Rightarrow> bool \<times> clipboard" where
  "ring_step c (RingPut t) = (True, clipboard_put t c)"
| "ring_step c RingPrev = clipboard_prev c"
| "ring_step c RingNext = clipboard_next c"
| "ring_step c (RingSelect i) = clipboard_select_index i c"
| "ring_step c RingClear = (True, clipboard_clear c)"

text \<open>The specification: the texts newest first and the selected position, counted from the newest\<close>

fun spec_step :: "bytes list \<times> nat \<Rightarrow> ring_op \<Rightarrow> bool \<times> (bytes list \<times> nat)" where
  "spec_step (es, p) (RingPut t) = (True, (take 10 (t # es), 0))"
| "spec_step (es, p) RingPrev = (if p = 0 then (False, (es, p)) else (True, (es, p - 1)))"
| "spec_step (es, p) RingNext = (if p + 1 < length es then (True, (es, p + 1)) else (False, (es, p)))"
| "spec_step (es, p) (RingSelect i) = (if 1 \<le> i \<and> i \<le> length es then (True, (es, i - 1)) else (False, (es, p)))"
| "spec_step (es, p) RingClear = (True, ([], 0))"

fun ring_run :: "clipboard \<Rightarrow> ring_op list \<Rightarrow> bool list \<times> clipboard" where
  "ring_run c [] = ([], c)"
| "ring_run c (op # ops) =
     (let (b, c1) = ring_step c op; (bs, c2) = ring_run c1 ops in (b # bs, c2))"

fun spec_run :: "bytes list \<times> nat \<Rightarrow> ring_op list \<Rightarrow> bool list \<times> (bytes list \<times> nat)" where
  "spec_run s [] = ([], s)"
| "spec_run s (op # ops) =
     (let (b, s1) = spec_step s op; (bs, s2) = spec_run s1 ops in (b # bs, s2))"

text \<open>The simulation relation\<close>

definition ring_abs :: "clipboard \<Rightarrow> bytes list \<times> nat \<Rightarrow> bool" where
  "ring_abs c s \<longleftrightarrow>
     fst s = rev (cb_clipboards c) \<and> length (cb_clipboards c) \<le> 10 \<and>
     (if cb_clipboards c = [] then cb_idx c = 0 \<and> snd s = 0
      else cb_idx c < length (cb_clipboards c) \<and> snd s = length (cb_clipboards c) - 1 - cb_idx c)"

lemma ring_step_abs:
  assumes "ring_abs c s"
  shows "fst (ring_step c op) = fst (spec_step s op) \<and> ring_abs (snd (ring_step c op)) (snd (spec_step s op))"
proof (cases s)
  case (Pair es p)
  show ?thesis
  proof (cases op)
    case (RingPut t)
    have "ring_abs (clipboard_put t c) (take 10 (t # es), 0)"
      using assms Pair by (cases "cb_clipboards c") (auto simp: ring_abs_def clipboard_put_def INTERNAL_CLIPBOARD_CAPACITY_def)
    then show ?thesis using RingPut Pair by simp
  next
    case RingPrev
    then show ?thesis using assms Pair by (auto simp: ring_abs_def clipboard_prev_def split: if_splits)
  next
    case RingNext
    then show ?thesis using assms Pair by (auto simp: ring_abs_def clipboard_next_def split: if_splits)
  next
    case (RingSelect i)
    then show ?thesis using assms Pair by (auto simp: ring_abs_def clipboard_select_index_def split: if_splits)
  next
    case RingClear
    then show ?thesis using Pair by (simp add: ring_abs_def clipboard_clear_def)
  qed
qed

lemma ring_run_abs:
  "ring_abs c s \<Longrightarrow> fst (ring_run c ops) = fst (spec_run s ops) \<and> ring_abs (snd (ring_run c ops)) (snd (spec_run s ops))"
proof (induction ops arbitrary: c s)
  case (Cons op ops)
  then show ?case using ring_step_abs [of c s op] by (fastforce simp: Let_def split: prod.splits)
qed simp

text \<open>
  C22: the clipboard ring refines the ten newest texts with a selected one. For every sequence of
  operations each of them answers as the specification does, the entries are the texts newest
  first, the selected text is the one at the selected position, and the public index is that
  position counted from one.
\<close>

theorem clipboard_refines_ring:
  assumes "ring_run clipboard_default ops = (answers, c)" and "spec_run ([], 0) ops = (expected, (es, p))"
  shows "answers = expected \<and> clipboard_entries c = es \<and> length es \<le> 10 \<and>
    clipboard_get c = (if es = [] then None else Some (es ! p)) \<and>
    clipboard_selected_index c = (if es = [] then None else Some (p + 1))"
proof -
  have "ring_abs clipboard_default ([], 0)" by (simp add: ring_abs_def clipboard_default_def)
  then have "answers = expected" and abs: "ring_abs c (es, p)"
    using ring_run_abs [of clipboard_default "([], 0)" ops] assms by simp_all
  moreover have "rev (cb_clipboards c) ! (length (cb_clipboards c) - 1 - cb_idx c) = cb_clipboards c ! cb_idx c"
    if "cb_idx c < length (cb_clipboards c)"
    using that by (simp add: rev_nth)
  ultimately show ?thesis
    by (auto simp: ring_abs_def clipboard_entries_def clipboard_get_def clipboard_selected_index_def split: if_splits)
qed

theorem clipboard_refines_ring_witness:
  "clipboard_get (snd (ring_run clipboard_default [RingPut ''a'', RingPut ''b'', RingNext, RingNext])) = Some ''a''"
  using clipboard_refines_ring [of "[RingPut ''a'', RingPut ''b'', RingNext, RingNext]"]
  by (cases "ring_run clipboard_default [RingPut ''a'', RingPut ''b'', RingNext, RingNext]") fastforce

end
