(* ===== verification/Review_Parser.thy ===== *)
theory Review_Parser
  imports Clipboard
begin

text \<open>
  The key parser of review mode (\<^verbatim>\<open>review/parser.rs\<close>): counts, registers, prefixes, the yank
  operator and visual mode, one key at a time. A \<^verbatim>\<open>char\<close> is its UTF-8 bytes.
\<close>

section \<open>Commands\<close>

type_synonym scalar = bytes

datatype word_style = StyleWord | StyleBigWord
datatype word_move = ForwardStart | BackwardStart | ForwardEnd
datatype search_direction = SearchForward | SearchBackward
datatype find_direction = FindForward | FindBackward

datatype motion =
    MLeft | MDown | MUp | MRight | MLineStart | MFirstNonblank | MLineEnd
  | MWord word_move word_style
  | MDocumentStart | MDocumentEnd | MMatchingBrace
  | MFind find_direction bool scalar
  | MRepeatFind bool
  | MPrompt bool

datatype text_object = ObjWord word_style bool
datatype visual_kind = VisualCharacter | VisualLine
datatype viewport_placement = PlaceTop | PlaceCenter | PlaceBottom

datatype review_command =
    CNone | CBell | CExit
  | CMove motion nat
  | CScrollPage bool nat
  | CRepositionViewport viewport_placement "nat option" bool
  | CYankMotion motion nat "clipboard_register option"
  | CYankLine nat "clipboard_register option"
  | CYankTextObject text_object nat "clipboard_register option"
  | CStartVisual visual_kind
  | CCancelVisual
  | CMoveVisual motion nat
  | CYankVisual "clipboard_register option"
  | CStartSearch search_direction
  | CRepeatSearch bool nat

datatype review_key =
  KChar scalar | KEscape | KEnter | KBackspace | KLeft | KDown | KUp | KRight | KCtrl scalar | KUnknown

datatype key_prefix = PrefixNone | PrefixG | PrefixZ | PrefixBracket bool | PrefixFind find_direction bool

record yank =
  yk_count :: nat
  yk_register :: "clipboard_register option"
  yk_prefix :: key_prefix
  yk_motion_count :: "nat option"
  yk_text_object_around :: "bool option"

record review_parser =
  rp_count :: "nat option"
  rp_prefix :: key_prefix
  rp_operator :: "yank option"
  rp_visual :: "visual_kind option"
  rp_register :: "clipboard_register option"
  rp_awaiting_register :: bool

definition parser_default :: review_parser where
  "parser_default = \<lparr>rp_count = None, rp_prefix = PrefixNone, rp_operator = None, rp_visual = None,
     rp_register = None, rp_awaiting_register = False\<rparr>"

section \<open>Counts and completion\<close>

definition MAX_COUNT :: nat where
  "MAX_COUNT = 10000"

definition push_digit :: "nat option \<Rightarrow> byte \<Rightarrow> nat" where
  "push_digit count digit =
     min (saturating_add_usize (saturating_mul_usize (case count of Some n \<Rightarrow> n | None \<Rightarrow> 0) 10) (digit_val digit))
       MAX_COUNT"

definition add_count :: "byte \<Rightarrow> review_parser \<Rightarrow> review_parser" where
  "add_count digit p = p\<lparr>rp_count := Some (push_digit (rp_count p) digit)\<rparr>"

definition take_count :: "review_parser \<Rightarrow> nat \<times> review_parser" where
  "take_count p = (max (case rp_count p of Some n \<Rightarrow> n | None \<Rightarrow> 1) 1, p\<lparr>rp_count := None\<rparr>)"

definition reset_pending :: "review_parser \<Rightarrow> review_parser" where
  "reset_pending p = p\<lparr>rp_count := None, rp_prefix := PrefixNone, rp_operator := None, rp_register := None,
     rp_awaiting_register := False\<rparr>"

definition finish_command :: "review_command \<Rightarrow> review_parser \<Rightarrow> review_command \<times> review_parser" where
  "finish_command c p = (c, p\<lparr>rp_count := None, rp_prefix := PrefixNone, rp_operator := None, rp_register := None,
     rp_awaiting_register := False\<rparr>)"

definition multiply_counts :: "nat \<Rightarrow> nat \<Rightarrow> nat" where
  "multiply_counts l r = min (saturating_mul_usize l r) MAX_COUNT"

text \<open>The digit of a key that is \<^verbatim>\<open>'0'..='9'\<close>\<close>

definition key_digit :: "review_key \<Rightarrow> byte option" where
  "key_digit key =
     (case key of KChar [c] \<Rightarrow> if is_ascii_digit c then Some c else None | _ \<Rightarrow> None)"

definition motion_for_key :: "review_key \<Rightarrow> motion option" where
  "motion_for_key key =
     (if key = KChar ''h'' \<or> key = KLeft then Some MLeft
      else if key = KChar ''j'' \<or> key = KDown then Some MDown
      else if key = KChar ''k'' \<or> key = KUp then Some MUp
      else if key = KChar ''l'' \<or> key = KRight then Some MRight
      else if key = KChar ''0'' then Some MLineStart
      else if key = KChar ''^'' then Some MFirstNonblank
      else if key = KChar ''$'' then Some MLineEnd
      else if key = KChar ''w'' then Some (MWord ForwardStart StyleWord)
      else if key = KChar ''W'' then Some (MWord ForwardStart StyleBigWord)
      else if key = KChar ''b'' then Some (MWord BackwardStart StyleWord)
      else if key = KChar ''B'' then Some (MWord BackwardStart StyleBigWord)
      else if key = KChar ''e'' then Some (MWord ForwardEnd StyleWord)
      else if key = KChar ''E'' then Some (MWord ForwardEnd StyleBigWord)
      else if key = KChar ''G'' then Some MDocumentEnd
      else if key = KChar ''%'' then Some MMatchingBrace
      else if key = KChar '';'' then Some (MRepeatFind False)
      else if key = KChar '','' then Some (MRepeatFind True)
      else None)"

text \<open>The motion that a key completes after a prefix\<close>

definition prefixed_motion :: "key_prefix \<Rightarrow> review_key \<Rightarrow> motion option" where
  "prefixed_motion pre key =
     (case (pre, key) of
        (PrefixG, KChar ch) \<Rightarrow> if ch = ''g'' then Some MDocumentStart else None
      | (PrefixBracket forward, KChar ch) \<Rightarrow> if ch = ''p'' then Some (MPrompt forward) else None
      | (PrefixFind direction till, KChar target) \<Rightarrow> Some (MFind direction till target)
      | _ \<Rightarrow> None)"

section \<open>Keys by state\<close>

definition escape_key :: "review_parser \<Rightarrow> review_command \<times> review_parser" where
  "escape_key p =
     (if rp_visual p \<noteq> None then (CCancelVisual, reset_pending (p\<lparr>rp_visual := None\<rparr>))
      else if rp_count p \<noteq> None \<or> rp_prefix p \<noteq> PrefixNone \<or> rp_operator p \<noteq> None \<or> rp_register p \<noteq> None \<or>
              rp_awaiting_register p
      then (CNone, reset_pending p)
      else (CBell, p))"

definition feed_register :: "review_key \<Rightarrow> review_parser \<Rightarrow> review_command \<times> review_parser" where
  "feed_register key p =
     (let p = p\<lparr>rp_awaiting_register := False\<rparr> in
      if key = KChar [CHR 0x22] then (CNone, p\<lparr>rp_register := Some RegInternal\<rparr>)
      else if key = KChar ''+'' then (CNone, p\<lparr>rp_register := Some RegSystem\<rparr>)
      else (CBell, reset_pending p))"

definition start_find :: "find_direction \<Rightarrow> bool \<Rightarrow> review_parser \<Rightarrow> review_command \<times> review_parser" where
  "start_find direction till p = (CNone, p\<lparr>rp_prefix := PrefixFind direction till\<rparr>)"

definition page :: "bool \<Rightarrow> review_parser \<Rightarrow> review_command \<times> review_parser" where
  "page forward p = (let (count, p) = take_count p in finish_command (CScrollPage forward count) p)"

text \<open>The keys that open a prefix, the same in the normal and in the visual state\<close>

definition open_prefix :: "review_key \<Rightarrow> key_prefix option" where
  "open_prefix key =
     (if key = KChar ''g'' then Some PrefixG
      else if key = KChar ''z'' then Some PrefixZ
      else if key = KChar ''['' then Some (PrefixBracket False)
      else if key = KChar '']'' then Some (PrefixBracket True)
      else if key = KChar ''f'' then Some (PrefixFind FindForward False)
      else if key = KChar ''F'' then Some (PrefixFind FindBackward False)
      else if key = KChar ''t'' then Some (PrefixFind FindForward True)
      else if key = KChar ''T'' then Some (PrefixFind FindBackward True)
      else None)"

definition feed_normal :: "review_key \<Rightarrow> review_parser \<Rightarrow> review_command \<times> review_parser" where
  "feed_normal key p =
     (case key_digit key of
        Some digit \<Rightarrow>
          if digit \<noteq> CHR ''0'' \<or> rp_count p \<noteq> None then (CNone, add_count digit p)
          else (case motion_for_key key of
                  Some motion \<Rightarrow> let (count, p) = take_count p in finish_command (CMove motion count) p
                | None \<Rightarrow> finish_command CBell p)
      | None \<Rightarrow>
          if key = KChar ''q'' then finish_command CExit p
          else if key = KChar [CHR 0x22] then (CNone, p\<lparr>rp_awaiting_register := True\<rparr>)
          else if key = KChar ''y'' then
            (let (count, p) = take_count p
             in (CNone, p\<lparr>rp_register := None, rp_operator := Some \<lparr>yk_count = count, yk_register = rp_register p,
                  yk_prefix = PrefixNone, yk_motion_count = None, yk_text_object_around = None\<rparr>\<rparr>))
          else if key = KChar ''v'' then finish_command (CStartVisual VisualCharacter) (p\<lparr>rp_visual := Some VisualCharacter\<rparr>)
          else if key = KChar ''V'' then finish_command (CStartVisual VisualLine) (p\<lparr>rp_visual := Some VisualLine\<rparr>)
          else if open_prefix key \<noteq> None then (CNone, p\<lparr>rp_prefix := the (open_prefix key)\<rparr>)
          else if key = KChar ''/'' then finish_command (CStartSearch SearchForward) p
          else if key = KChar ''?'' then finish_command (CStartSearch SearchBackward) p
          else if key = KChar ''n'' then (let (count, p) = take_count p in finish_command (CRepeatSearch False count) p)
          else if key = KChar ''N'' then (let (count, p) = take_count p in finish_command (CRepeatSearch True count) p)
          else if key = KCtrl ''b'' \<or> key = KCtrl ''u'' then page False p
          else if key = KCtrl ''f'' \<or> key = KCtrl ''d'' then page True p
          else (case motion_for_key key of
                  Some motion \<Rightarrow> let (count, p) = take_count p in finish_command (CMove motion count) p
                | None \<Rightarrow> finish_command CBell p))"

definition feed_visual :: "review_key \<Rightarrow> review_parser \<Rightarrow> review_command \<times> review_parser" where
  "feed_visual key p =
     (case key_digit key of
        Some digit \<Rightarrow>
          if digit \<noteq> CHR ''0'' \<or> rp_count p \<noteq> None then (CNone, add_count digit p)
          else (case motion_for_key key of
                  Some motion \<Rightarrow> let (count, p) = take_count p in finish_command (CMoveVisual motion count) p
                | None \<Rightarrow> finish_command CBell p)
      | None \<Rightarrow>
          if key = KChar ''y'' then finish_command (CYankVisual (rp_register p)) (p\<lparr>rp_visual := None\<rparr>)
          else if key = KChar [CHR 0x22] then (CNone, p\<lparr>rp_awaiting_register := True\<rparr>)
          else if key = KChar ''v'' \<or> key = KChar ''V'' then finish_command CCancelVisual (p\<lparr>rp_visual := None\<rparr>)
          else if open_prefix key \<noteq> None then (CNone, p\<lparr>rp_prefix := the (open_prefix key)\<rparr>)
          else (case motion_for_key key of
                  Some motion \<Rightarrow> let (count, p) = take_count p in finish_command (CMoveVisual motion count) p
                | None \<Rightarrow> finish_command CBell p))"

definition placement_for_key :: "review_key \<Rightarrow> (viewport_placement \<times> bool) option" where
  "placement_for_key key =
     (if key = KChar ''t'' then Some (PlaceTop, False)
      else if key = KEnter then Some (PlaceTop, True)
      else if key = KChar ''z'' then Some (PlaceCenter, False)
      else if key = KChar ''.'' then Some (PlaceCenter, True)
      else if key = KChar ''b'' then Some (PlaceBottom, False)
      else if key = KChar ''-'' then Some (PlaceBottom, True)
      else None)"

definition feed_prefix :: "review_key \<Rightarrow> review_parser \<Rightarrow> review_command \<times> review_parser" where
  "feed_prefix key p =
     (let pre = rp_prefix p;
          pending_count = rp_count p;
          p = p\<lparr>rp_prefix := PrefixNone, rp_count := None\<rparr>
      in if pre = PrefixZ then
           (case placement_for_key key of
              None \<Rightarrow> (CBell, reset_pending p)
            | Some (placement, first_nonblank) \<Rightarrow>
                finish_command (CRepositionViewport placement pending_count first_nonblank) p)
         else
           let count = max (case pending_count of Some n \<Rightarrow> n | None \<Rightarrow> 1) 1
           in case prefixed_motion pre key of
                None \<Rightarrow> (CBell, reset_pending p)
              | Some motion \<Rightarrow>
                  if rp_visual p \<noteq> None then finish_command (CMoveVisual motion count) p
                  else finish_command (CMove motion count) p)"

definition feed_operator :: "review_key \<Rightarrow> yank \<Rightarrow> review_parser \<Rightarrow> review_command \<times> review_parser" where
  "feed_operator key y p =
     (let total = multiply_counts (yk_count y) (case yk_motion_count y of Some n \<Rightarrow> n | None \<Rightarrow> 1) in
      case key_digit key of
        Some digit \<Rightarrow>
          if digit \<noteq> CHR ''0'' \<or> yk_motion_count y \<noteq> None then
            (CNone, p\<lparr>rp_operator := Some (y\<lparr>yk_motion_count := Some (push_digit (yk_motion_count y) digit)\<rparr>)\<rparr>)
          else if yk_text_object_around y \<noteq> None then (CBell, reset_pending p)
          else if yk_prefix y \<noteq> PrefixNone then
            (case prefixed_motion (yk_prefix y) key of
               None \<Rightarrow> (CBell, reset_pending p)
             | Some motion \<Rightarrow> finish_command (CYankMotion motion total (yk_register y)) p)
          else (case motion_for_key key of
                  None \<Rightarrow> (CBell, reset_pending p)
                | Some motion \<Rightarrow> finish_command (CYankMotion motion total (yk_register y)) p)
      | None \<Rightarrow>
          (case yk_text_object_around y of
             Some around \<Rightarrow>
               if key = KChar ''w'' then finish_command (CYankTextObject (ObjWord StyleWord around) total (yk_register y)) p
               else if key = KChar ''W'' then finish_command (CYankTextObject (ObjWord StyleBigWord around) total (yk_register y)) p
               else (CBell, reset_pending p)
           | None \<Rightarrow>
               if yk_prefix y \<noteq> PrefixNone then
                 (case prefixed_motion (yk_prefix y) key of
                    None \<Rightarrow> (CBell, reset_pending p)
                  | Some motion \<Rightarrow> finish_command (CYankMotion motion total (yk_register y)) p)
               else if key = KChar ''y'' then finish_command (CYankLine total (yk_register y)) p
               else if key = KChar ''i'' then (CNone, p\<lparr>rp_operator := Some (y\<lparr>yk_text_object_around := Some False\<rparr>)\<rparr>)
               else if key = KChar ''a'' then (CNone, p\<lparr>rp_operator := Some (y\<lparr>yk_text_object_around := Some True\<rparr>)\<rparr>)
               else if open_prefix key \<noteq> None \<and> key \<noteq> KChar ''z'' then
                 (CNone, p\<lparr>rp_operator := Some (y\<lparr>yk_prefix := the (open_prefix key)\<rparr>)\<rparr>)
               else (case motion_for_key key of
                       None \<Rightarrow> (CBell, reset_pending p)
                     | Some motion \<Rightarrow> finish_command (CYankMotion motion total (yk_register y)) p)))"

definition feed :: "review_key \<Rightarrow> review_parser \<Rightarrow> review_command \<times> review_parser" where
  "feed key p =
     (if key = KEscape then escape_key p
      else if rp_awaiting_register p then feed_register key p
      else (case rp_operator p of
              Some y \<Rightarrow> feed_operator key y p
            | None \<Rightarrow>
                if rp_prefix p \<noteq> PrefixNone then feed_prefix key p
                else if rp_visual p \<noteq> None then feed_visual key p
                else feed_normal key p))"

fun feed_all :: "review_parser \<Rightarrow> review_key list \<Rightarrow> review_command list \<times> review_parser" where
  "feed_all p [] = ([], p)"
| "feed_all p (k # ks) = (let (c, p1) = feed k p; (cs, p2) = feed_all p1 ks in (c # cs, p2))"

section \<open>Counts\<close>

lemma push_digit_bounds: "push_digit count c \<le> MAX_COUNT"
  by (simp add: push_digit_def)

lemma digit_val_le: "is_ascii_digit c \<Longrightarrow> digit_val c \<le> 9"
  unfolding is_ascii_digit_def digit_val_def by linarith

lemma push_digit_exact:
  assumes "case count of Some m \<Rightarrow> n = m | None \<Rightarrow> n = 0" "n \<le> MAX_COUNT" "is_ascii_digit c"
  shows "push_digit count c = min (n * 10 + digit_val c) MAX_COUNT"
proof -
  have "digit_val c \<le> 9" by (rule digit_val_le [OF assms(3)])
  then show ?thesis
    using assms(1,2)
    by (auto simp: push_digit_def saturating_mul_usize_def saturating_add_usize_def usize_max_def MAX_COUNT_def
        split: option.splits)
qed

lemma digit_zero_iff: "is_ascii_digit c \<Longrightarrow> digit_val c = 0 \<longleftrightarrow> c = CHR ''0''"
  proof -
  assume d: "is_ascii_digit c"
  then have "digit_val c = 0 \<longleftrightarrow> byte_val c = byte_val (CHR ''0'')"
    by (auto simp: is_ascii_digit_def digit_val_def byte_val_def [of "CHR ''0''"])
  then show ?thesis by simp
qed

definition count_ok :: "nat \<Rightarrow> bool" where
  "count_ok n \<longleftrightarrow> 1 \<le> n \<and> n \<le> MAX_COUNT"

lemma push_digit_ok:
  assumes "pred_option count_ok count" "is_ascii_digit c" "c \<noteq> CHR ''0'' \<or> count \<noteq> None"
  shows "count_ok (push_digit count c)"
proof -
  define n where "n = (case count of Some n \<Rightarrow> n | None \<Rightarrow> 0)"
  have n: "n \<le> MAX_COUNT" "count \<noteq> None \<Longrightarrow> 1 \<le> n"
    using assms(1) by (auto simp: n_def count_ok_def split: option.splits)
  have "push_digit count c = min (n * 10 + digit_val c) MAX_COUNT"
    by (rule push_digit_exact [OF _ n(1) assms(2)]) (simp add: n_def split: option.splits)
  moreover have "1 \<le> n * 10 + digit_val c"
    using assms(3) n(2) digit_zero_iff [OF assms(2)] by (cases "digit_val c") auto
  ultimately show ?thesis by (simp add: count_ok_def MAX_COUNT_def)
qed

lemma count_ok_one [simp]: "count_ok (Suc 0)"
  by (simp add: count_ok_def MAX_COUNT_def)

lemma multiply_counts_ok: "count_ok a \<Longrightarrow> count_ok b \<Longrightarrow> count_ok (multiply_counts a b)"
  by (auto simp: count_ok_def multiply_counts_def saturating_mul_usize_def usize_max_def MAX_COUNT_def)

lemma multiply_counts_one: "count_ok a \<Longrightarrow> multiply_counts a 1 = a"
  by (auto simp: count_ok_def multiply_counts_def saturating_mul_usize_def usize_max_def MAX_COUNT_def)

lemma key_digit_Some: "key_digit key = Some c \<longleftrightarrow> key = KChar [c] \<and> is_ascii_digit c"
  by (auto simp: key_digit_def split: review_key.splits list.splits)

section \<open>The invariant\<close>

definition yank_ok :: "yank \<Rightarrow> bool" where
  "yank_ok y \<longleftrightarrow> count_ok (yk_count y) \<and> pred_option count_ok (yk_motion_count y) \<and> yk_prefix y \<noteq> PrefixZ \<and>
     (yk_text_object_around y \<noteq> None \<longrightarrow> yk_prefix y = PrefixNone)"

definition parser_ok :: "review_parser \<Rightarrow> bool" where
  "parser_ok p \<longleftrightarrow> pred_option count_ok (rp_count p) \<and>
     (rp_awaiting_register p \<longrightarrow> rp_operator p = None \<and> rp_prefix p = PrefixNone) \<and>
     (case rp_operator p of
        None \<Rightarrow> True
      | Some y \<Rightarrow> yank_ok y \<and> rp_count p = None \<and> rp_prefix p = PrefixNone \<and> rp_register p = None \<and> rp_visual p = None)"

definition parser_idle :: "review_parser \<Rightarrow> bool" where
  "parser_idle p \<longleftrightarrow> rp_count p = None \<and> rp_prefix p = PrefixNone \<and> rp_operator p = None \<and> rp_register p = None \<and>
     \<not> rp_awaiting_register p"

text \<open>The counts a command carries\<close>

definition command_counts :: "review_command \<Rightarrow> nat set" where
  "command_counts c =
     (case c of
        CMove m n \<Rightarrow> {n} | CScrollPage forward n \<Rightarrow> {n} | CRepositionViewport place line nonblank \<Rightarrow> set_option line
      | CYankMotion m n r \<Rightarrow> {n} | CYankLine n r \<Rightarrow> {n} | CYankTextObject obj n r \<Rightarrow> {n} | CMoveVisual m n \<Rightarrow> {n}
      | CRepeatSearch reverse n \<Rightarrow> {n} | _ \<Rightarrow> {})"

text \<open>The visual mode as the user of the parser follows it from the commands\<close>

definition visual_after :: "review_command \<Rightarrow> visual_kind option \<Rightarrow> visual_kind option" where
  "visual_after c v =
     (case c of CStartVisual k \<Rightarrow> Some k | CCancelVisual \<Rightarrow> None | CYankVisual r \<Rightarrow> None | _ \<Rightarrow> v)"

definition command_fits :: "visual_kind option \<Rightarrow> review_command \<Rightarrow> bool" where
  "command_fits v c =
     (case c of
        CMoveVisual m n \<Rightarrow> v \<noteq> None | CYankVisual r \<Rightarrow> v \<noteq> None | CCancelVisual \<Rightarrow> v \<noteq> None
      | CMove m n \<Rightarrow> v = None | CYankMotion m n r \<Rightarrow> v = None | CYankLine n r \<Rightarrow> v = None
      | CYankTextObject obj n r \<Rightarrow> v = None | CStartVisual k \<Rightarrow> v = None | CExit \<Rightarrow> v = None
      | CScrollPage forward n \<Rightarrow> v = None | CStartSearch d \<Rightarrow> v = None | CRepeatSearch reverse n \<Rightarrow> v = None
      | _ \<Rightarrow> True)"

definition step_ok :: "review_parser \<Rightarrow> review_command \<Rightarrow> review_parser \<Rightarrow> bool" where
  "step_ok p c q \<longleftrightarrow> parser_ok q \<and> Ball (command_counts c) count_ok \<and> (c \<noteq> CNone \<longrightarrow> parser_idle q) \<and>
     rp_visual q = visual_after c (rp_visual p) \<and> command_fits (rp_visual p) c"

definition outcome_ok :: "review_parser \<Rightarrow> review_command \<times> review_parser \<Rightarrow> bool" where
  "outcome_ok p r \<longleftrightarrow> step_ok p (fst r) (snd r)"

lemmas step_defs = outcome_ok_def step_ok_def parser_ok_def parser_idle_def command_counts_def visual_after_def command_fits_def

lemma step_ok_bell: "rp_visual q = rp_visual p \<Longrightarrow> step_ok p CBell (reset_pending q)"
  by (simp add: step_defs reset_pending_def)

lemma step_ok_finish:
  assumes "Ball (command_counts c) count_ok" "rp_visual q = visual_after c (rp_visual p)" "command_fits (rp_visual p) c"
  shows "outcome_ok p (finish_command c q)"
  using assms by (simp add: outcome_ok_def finish_command_def step_ok_def parser_ok_def parser_idle_def)

lemma take_count_ok: "pred_option count_ok (rp_count p) \<Longrightarrow> count_ok (fst (take_count p))"
  by (cases "rp_count p") (auto simp: take_count_def count_ok_def MAX_COUNT_def)

lemma escape_step:
  assumes "parser_ok p"
  shows "outcome_ok p (escape_key p)"
  using assms by (auto simp: escape_key_def reset_pending_def step_defs)

lemma register_step:
  assumes "parser_ok p" "rp_awaiting_register p"
  shows "outcome_ok p (feed_register key p)"
  using assms by (auto simp: feed_register_def reset_pending_def step_defs Let_def)

lemma prefix_step:
  assumes "parser_ok p" "rp_operator p = None"
  shows "outcome_ok p (feed_prefix key p)"
proof -
  have "count_ok (max (case rp_count p of Some n \<Rightarrow> n | None \<Rightarrow> 1) 1)"
    using assms(1) by (cases "rp_count p") (auto simp: parser_ok_def count_ok_def MAX_COUNT_def)
  then show ?thesis
    using assms
    by (auto simp: feed_prefix_def finish_command_def reset_pending_def step_defs Let_def split: option.splits)
qed

lemma open_prefix_some: "open_prefix key = Some q \<Longrightarrow> q \<noteq> PrefixNone \<and> (key \<noteq> KChar ''z'' \<longrightarrow> q \<noteq> PrefixZ)"
  by (auto simp: open_prefix_def split: if_splits)

lemma add_count_step:
  assumes "parser_ok p" "is_ascii_digit d" "d \<noteq> CHR ''0'' \<or> rp_count p \<noteq> None" "rp_operator p = None"
  shows "step_ok p CNone (add_count d p)"
  using assms push_digit_ok [of "rp_count p" d]
  by (auto simp: add_count_def step_defs)

lemma outcome_if:
  "(b \<Longrightarrow> outcome_ok p r) \<Longrightarrow> (\<not> b \<Longrightarrow> outcome_ok p s) \<Longrightarrow> outcome_ok p (if b then r else s)"
  by simp

lemma outcome_option:
  "(x = None \<Longrightarrow> outcome_ok p r) \<Longrightarrow> (\<And>a. x = Some a \<Longrightarrow> outcome_ok p (f a)) \<Longrightarrow>
   outcome_ok p (case x of None \<Rightarrow> r | Some a \<Rightarrow> f a)"
  by (cases x) simp_all

lemmas outcome_splits = outcome_if outcome_option

lemma operator_step:
  assumes "parser_ok p" "rp_operator p = Some y"
  shows "outcome_ok p (feed_operator key y p)"
proof -
  have y: "yank_ok y" and p: "rp_count p = None" "rp_prefix p = PrefixNone" "rp_register p = None" "rp_visual p = None"
    "\<not> rp_awaiting_register p"
    using assms by (auto simp: parser_ok_def)
  define total where "total = multiply_counts (yk_count y) (case yk_motion_count y of Some n \<Rightarrow> n | None \<Rightarrow> 1)"
  have total: "count_ok total"
    using y by (auto simp: total_def yank_ok_def count_ok_one intro!: multiply_counts_ok
        split: option.splits)
  have bell: "outcome_ok p (CBell, reset_pending p)"
    by (simp add: outcome_ok_def step_ok_bell)
  have motion: "outcome_ok p (finish_command (CYankMotion m total r) p)" for m r
    by (rule step_ok_finish) (use total p in \<open>simp_all add: command_counts_def visual_after_def command_fits_def\<close>)
  have line: "outcome_ok p (finish_command (CYankLine total r) p)" for r
    by (rule step_ok_finish) (use total p in \<open>simp_all add: command_counts_def visual_after_def command_fits_def\<close>)
  have obj: "outcome_ok p (finish_command (CYankTextObject m total r) p)" for m r
    by (rule step_ok_finish) (use total p in \<open>simp_all add: command_counts_def visual_after_def command_fits_def\<close>)
  have keep: "outcome_ok p (CNone, p\<lparr>rp_operator := Some y'\<rparr>)" if "yank_ok y'" for y'
    using that p by (simp add: step_defs)
  have digit: "yank_ok (y\<lparr>yk_motion_count := Some (push_digit (yk_motion_count y) d)\<rparr>)"
    if "is_ascii_digit d" "d \<noteq> CHR ''0'' \<or> yk_motion_count y \<noteq> None" for d
    using y push_digit_ok [OF _ that] by (simp add: yank_ok_def)
  have pre: "yank_ok (y\<lparr>yk_prefix := the (open_prefix key)\<rparr>)"
    if "open_prefix key \<noteq> None" "key \<noteq> KChar ''z''" "yk_text_object_around y = None"
    using y that open_prefix_some by (auto simp: yank_ok_def)
  have around: "yank_ok (y\<lparr>yk_text_object_around := Some a\<rparr>)" if "yk_prefix y = PrefixNone" for a
    using y that by (simp add: yank_ok_def)
  show ?thesis
    unfolding feed_operator_def Let_def total_def [symmetric]
    by (intro outcome_splits; (rule bell motion line obj)?; (rule keep, rule digit pre around)?)
      (auto simp: key_digit_Some)
qed

lemma outcome_take_count:
  assumes "\<And>n q. count_ok n \<Longrightarrow> rp_visual q = rp_visual p \<Longrightarrow> outcome_ok p (f n q)" "parser_ok p"
  shows "outcome_ok p (let (n, q) = take_count p in f n q)"
  using assms take_count_ok [of p] by (simp add: take_count_def parser_ok_def)

lemma outcome_finish:
  assumes "Ball (command_counts c) count_ok" "rp_visual q = visual_after c (rp_visual p)" "command_fits (rp_visual p) c"
  shows "outcome_ok p (finish_command c q)"
  using assms by (rule step_ok_finish)

lemma keep_pending:
  assumes "parser_ok p" "rp_operator p = None"
  shows "rp_prefix p = PrefixNone \<Longrightarrow> outcome_ok p (CNone, p\<lparr>rp_awaiting_register := True\<rparr>)"
    and "\<not> rp_awaiting_register p \<Longrightarrow> outcome_ok p (CNone, p\<lparr>rp_prefix := x\<rparr>)"
  using assms by (auto simp: step_defs)

lemma outcome_digit:
  assumes "parser_ok p" "rp_operator p = None" "key_digit key = Some d" "d \<noteq> CHR ''0'' \<or> rp_count p \<noteq> None"
  shows "outcome_ok p (CNone, add_count d p)"
  using add_count_step [OF assms(1) _ assms(4,2)] assms(3) by (simp add: outcome_ok_def key_digit_Some)

lemma yank_start_step:
  assumes "parser_ok p" "rp_operator p = None" "rp_prefix p = PrefixNone" "rp_visual p = None" "\<not> rp_awaiting_register p"
  shows "outcome_ok p (let (count, q) = take_count p
    in (CNone, q\<lparr>rp_register := None, rp_operator := Some \<lparr>yk_count = count, yk_register = rp_register q,
         yk_prefix = PrefixNone, yk_motion_count = None, yk_text_object_around = None\<rparr>\<rparr>))"
  using assms take_count_ok [of p] by (auto simp: take_count_def step_defs yank_ok_def)

lemma normal_step:
  assumes "parser_ok p" "rp_operator p = None" "rp_prefix p = PrefixNone" "rp_visual p = None" "\<not> rp_awaiting_register p"
  shows "outcome_ok p (feed_normal key p)"
proof -
  have finish: "outcome_ok p (finish_command c q)"
    if "Ball (command_counts c) count_ok" "rp_visual q = visual_after c None" "command_fits None c" for c q
    using outcome_finish [of c q p] that assms(4) by simp
  note finish_simps = finish command_counts_def visual_after_def command_fits_def assms(4)
  have count: "outcome_ok p (let (n, q) = take_count p in finish_command (f n) q)"
    if "\<And>n. count_ok n \<Longrightarrow> Ball (command_counts (f n)) count_ok" "\<And>n. visual_after (f n) None = None"
      "\<And>n. command_fits None (f n)" for f
    by (rule outcome_take_count [OF _ assms(1)]) (use that assms(4) in \<open>simp add: finish\<close>)
  show ?thesis
    unfolding feed_normal_def page_def
    by (intro outcome_splits; (rule count; simp add: finish_simps)?; (rule keep_pending yank_start_step outcome_digit finish)?)
      (use assms in \<open>auto simp: command_counts_def visual_after_def command_fits_def\<close>)
qed

lemma visual_step:
  assumes "parser_ok p" "rp_operator p = None" "rp_prefix p = PrefixNone" "rp_visual p \<noteq> None" "\<not> rp_awaiting_register p"
  shows "outcome_ok p (feed_visual key p)"
proof -
  obtain k where k: "rp_visual p = Some k" using assms(4) by auto
  have finish: "outcome_ok p (finish_command c q)"
    if "Ball (command_counts c) count_ok" "rp_visual q = visual_after c (Some k)" "command_fits (Some k) c" for c q
    using outcome_finish [of c q p] that k by simp
  have count: "outcome_ok p (let (n, q) = take_count p in finish_command (f n) q)"
    if "\<And>n. count_ok n \<Longrightarrow> Ball (command_counts (f n)) count_ok" "\<And>n. visual_after (f n) (Some k) = Some k"
      "\<And>n. command_fits (Some k) (f n)" for f
    by (rule outcome_take_count [OF _ assms(1)]) (use that k in \<open>simp add: finish\<close>)
  show ?thesis
    unfolding feed_visual_def
    by (intro outcome_splits; (rule count; simp add: command_counts_def visual_after_def command_fits_def)?;
        (rule keep_pending outcome_digit finish)?)
      (use assms k in \<open>auto simp: command_counts_def visual_after_def command_fits_def\<close>)
qed

lemma feed_step: "parser_ok p \<Longrightarrow> outcome_ok p (feed key p)"
  unfolding feed_def
  by (intro outcome_splits escape_step register_step operator_step prefix_step visual_step normal_step)
    (auto simp: parser_ok_def)

lemma feed_all_ok:
  assumes "parser_ok p" "feed_all p ks = (cs, q)"
  shows "parser_ok q \<and> (\<forall>c \<in> set cs. Ball (command_counts c) count_ok) \<and>
     rp_visual q = fold visual_after cs (rp_visual p) \<and>
     (\<forall>i < length cs. command_fits (fold visual_after (take i cs) (rp_visual p)) (cs ! i)) \<and>
     (cs \<noteq> [] \<and> last cs \<noteq> CNone \<longrightarrow> parser_idle q)"
  using assms
proof (induction ks arbitrary: p cs)
  case Nil
  then show ?case by simp
next
  case (Cons k ks)
  obtain c p1 where f: "feed k p = (c, p1)" by fastforce
  obtain cs' where r: "feed_all p1 ks = (cs', q)" and cs: "cs = c # cs'"
    using Cons.prems(2) f by (auto split: prod.splits)
  have s: "step_ok p c p1" using feed_step [OF Cons.prems(1), of k] f by (simp add: outcome_ok_def)
  then have "parser_ok p1" by (simp add: step_ok_def)
  note IH = Cons.IH [OF this r]
  have "cs' = [] \<Longrightarrow> q = p1" using r by (cases ks) (auto split: prod.splits)
  moreover have "command_fits (fold visual_after (take i cs) (rp_visual p)) (cs ! i)" if "i < length cs" for i
    using that s IH by (cases i) (simp_all add: cs step_ok_def)
  ultimately show ?case using IH s by (auto simp: cs step_ok_def)
qed

text \<open>
  C24: Whatever keys a user presses, every count that reaches a command lies between 1 and
  \<^verbatim>\<open>MAX_COUNT\<close>, a command that completes leaves nothing pending for the next key, and the
  visual mode the parser keeps is the one its commands announce: visual commands come only in
  visual mode, and normal ones only outside of it.
\<close>

theorem parser_commands_well_formed:
  assumes "feed_all parser_default ks = (cs, p)"
  shows "(\<forall>c \<in> set cs. \<forall>n \<in> command_counts c. 1 \<le> n \<and> n \<le> MAX_COUNT) \<and>
    (\<forall>i < length cs. command_fits (fold visual_after (take i cs) None) (cs ! i)) \<and>
    rp_visual p = fold visual_after cs None \<and>
    (cs \<noteq> [] \<and> last cs \<noteq> CNone \<longrightarrow> parser_idle p) \<and>
    pred_option count_ok (rp_count p)"
proof -
  have "parser_ok parser_default" by (simp add: parser_ok_def parser_default_def)
  note ok = feed_all_ok [OF this assms]
  moreover have "rp_visual parser_default = None" by (simp add: parser_default_def)
  ultimately show ?thesis by (auto simp: parser_ok_def count_ok_def)
qed

definition example_keys :: "review_key list" where
  "example_keys = map (\<lambda>c. KChar [c]) ''99999j3y2wvey''"

lemma example_keys_feed:
  "feed_all parser_default example_keys =
     ([CNone, CNone, CNone, CNone, CNone, CMove MDown 10000, CNone, CNone, CNone,
       CYankMotion (MWord ForwardStart StyleWord) 6 None, CStartVisual VisualCharacter,
       CMoveVisual (MWord ForwardEnd StyleWord) 1, CYankVisual None], parser_default)"
  by (simp add: example_keys_def feed_def feed_normal_def feed_visual_def feed_operator_def key_digit_def byte_class_defs
      add_count_def push_digit_def saturating_mul_usize_def saturating_add_usize_def usize_max_def digit_val_def
      MAX_COUNT_def take_count_def finish_command_def parser_default_def motion_for_key_def open_prefix_def
      multiply_counts_def Let_def)

theorem parser_commands_well_formed_witness:
  "\<exists>cs. feed_all parser_default example_keys = (cs, parser_default) \<and> CMove MDown 10000 \<in> set cs \<and>
     (\<forall>c \<in> set cs. \<forall>n \<in> command_counts c. 1 \<le> n \<and> n \<le> MAX_COUNT)"
  using parser_commands_well_formed [OF example_keys_feed] unfolding example_keys_feed by simp

section \<open>Keys of a command\<close>

definition count_keys :: "nat \<Rightarrow> review_key list" where
  "count_keys n = map (\<lambda>c. KChar [c]) (show_nat n)"

definition register_keys :: "clipboard_register option \<Rightarrow> review_key list" where
  "register_keys r =
     (case r of None \<Rightarrow> [] | Some RegInternal \<Rightarrow> [KChar [CHR 0x22], KChar [CHR 0x22]]
      | Some RegSystem \<Rightarrow> [KChar [CHR 0x22], KChar ''+''])"

definition find_key :: "find_direction \<Rightarrow> bool \<Rightarrow> review_key" where
  "find_key d till =
     (case d of FindForward \<Rightarrow> if till then KChar ''t'' else KChar ''f''
      | FindBackward \<Rightarrow> if till then KChar ''T'' else KChar ''F'')"

definition motion_keys :: "motion \<Rightarrow> review_key list" where
  "motion_keys m =
     (case m of
        MLeft \<Rightarrow> [KChar ''h''] | MDown \<Rightarrow> [KChar ''j''] | MUp \<Rightarrow> [KChar ''k''] | MRight \<Rightarrow> [KChar ''l'']
      | MLineStart \<Rightarrow> [KChar ''0''] | MFirstNonblank \<Rightarrow> [KChar ''^''] | MLineEnd \<Rightarrow> [KChar ''$'']
      | MWord move style \<Rightarrow>
          [case (move, style) of
             (ForwardStart, StyleWord) \<Rightarrow> KChar ''w'' | (ForwardStart, StyleBigWord) \<Rightarrow> KChar ''W''
           | (BackwardStart, StyleWord) \<Rightarrow> KChar ''b'' | (BackwardStart, StyleBigWord) \<Rightarrow> KChar ''B''
           | (ForwardEnd, StyleWord) \<Rightarrow> KChar ''e'' | (ForwardEnd, StyleBigWord) \<Rightarrow> KChar ''E'']
      | MDocumentStart \<Rightarrow> [KChar ''g'', KChar ''g''] | MDocumentEnd \<Rightarrow> [KChar ''G''] | MMatchingBrace \<Rightarrow> [KChar ''%'']
      | MFind d till target \<Rightarrow> [find_key d till, KChar target]
      | MRepeatFind reverse \<Rightarrow> [if reverse then KChar '','' else KChar '';'']
      | MPrompt forward \<Rightarrow> [if forward then KChar '']'' else KChar ''['', KChar ''p''])"

definition placement_key :: "viewport_placement \<Rightarrow> bool \<Rightarrow> review_key" where
  "placement_key place nonblank =
     (case place of
        PlaceTop \<Rightarrow> if nonblank then KEnter else KChar ''t''
      | PlaceCenter \<Rightarrow> if nonblank then KChar ''.'' else KChar ''z''
      | PlaceBottom \<Rightarrow> if nonblank then KChar ''-'' else KChar ''b'')"

definition object_keys :: "text_object \<Rightarrow> review_key list" where
  "object_keys obj =
     (case obj of ObjWord style around \<Rightarrow>
        [if around then KChar ''a'' else KChar ''i'', case style of StyleWord \<Rightarrow> KChar ''w'' | StyleBigWord \<Rightarrow> KChar ''W''])"

definition counted_motion_keys :: "motion \<Rightarrow> nat \<Rightarrow> review_key list" where
  "counted_motion_keys m n = (if m = MLineStart then [] else count_keys n) @ motion_keys m"

definition command_keys :: "review_command \<Rightarrow> review_key list" where
  "command_keys c =
     (case c of
        CNone \<Rightarrow> [] | CBell \<Rightarrow> [] | CExit \<Rightarrow> [KChar ''q'']
      | CMove m n \<Rightarrow> counted_motion_keys m n | CMoveVisual m n \<Rightarrow> counted_motion_keys m n
      | CScrollPage forward n \<Rightarrow> count_keys n @ [KCtrl (if forward then ''f'' else ''b'')]
      | CRepositionViewport place line nonblank \<Rightarrow>
          (case line of None \<Rightarrow> [] | Some n \<Rightarrow> count_keys n) @ [KChar ''z'', placement_key place nonblank]
      | CYankMotion m n r \<Rightarrow> register_keys r @ count_keys n @ KChar ''y'' # motion_keys m
      | CYankLine n r \<Rightarrow> register_keys r @ count_keys n @ [KChar ''y'', KChar ''y'']
      | CYankTextObject obj n r \<Rightarrow> register_keys r @ count_keys n @ KChar ''y'' # object_keys obj
      | CStartVisual k \<Rightarrow> [case k of VisualCharacter \<Rightarrow> KChar ''v'' | VisualLine \<Rightarrow> KChar ''V'']
      | CCancelVisual \<Rightarrow> [KChar ''v'']
      | CYankVisual r \<Rightarrow> register_keys r @ [KChar ''y'']
      | CStartSearch d \<Rightarrow> [case d of SearchForward \<Rightarrow> KChar ''/'' | SearchBackward \<Rightarrow> KChar ''?'']
      | CRepeatSearch reverse n \<Rightarrow> count_keys n @ [if reverse then KChar ''N'' else KChar ''n''])"

text \<open>
  What can be typed: a \<^verbatim>\<open>0\<close> after a count extends the count, and a digit other than \<^verbatim>\<open>0\<close> after a
  yank extends the count even where the target of a find is due.
\<close>

definition typeable :: "review_command \<Rightarrow> bool" where
  "typeable c \<longleftrightarrow> c \<noteq> CNone \<and> c \<noteq> CBell \<and> Ball (command_counts c) count_ok \<and>
     (case c of
        CMove m n \<Rightarrow> m = MLineStart \<longrightarrow> n = 1
      | CMoveVisual m n \<Rightarrow> m = MLineStart \<longrightarrow> n = 1
      | CYankMotion (MFind d till target) n r \<Rightarrow> \<not> (\<exists>t. target = [t] \<and> is_ascii_digit t \<and> t \<noteq> CHR ''0'')
      | _ \<Rightarrow> True)"

lemma feed_all_append:
  "feed_all p (ks @ ls) =
     (let (cs, p1) = feed_all p ks; (ds, p2) = feed_all p1 ls in (cs @ ds, p2))"
  by (induction ks arbitrary: p) (simp_all add: Let_def split: prod.splits)

definition accepts_count :: "review_parser \<Rightarrow> bool" where
  "accepts_count p \<longleftrightarrow> rp_operator p = None \<and> rp_prefix p = PrefixNone \<and> \<not> rp_awaiting_register p"

lemma feed_digit:
  assumes "accepts_count p" "is_ascii_digit c" "c \<noteq> CHR ''0'' \<or> rp_count p \<noteq> None"
  shows "feed (KChar [c]) p = (CNone, add_count c p)"
  using assms by (simp add: feed_def accepts_count_def feed_visual_def feed_normal_def key_digit_def)

lemma feed_count_keys:
  assumes "accepts_count p" "rp_count p = None" "count_ok n"
  shows "feed_all p (count_keys n) = (replicate (length (show_nat n)) CNone, p\<lparr>rp_count := Some n\<rparr>)"
  using assms(3)
proof (induction n rule: show_nat.induct)
  case (1 n)
  have add: "add_count (digit_char d) (p\<lparr>rp_count := m\<rparr>) = p\<lparr>rp_count := Some k\<rparr>"
    if "d < 10" "(case m of Some j \<Rightarrow> j | None \<Rightarrow> 0) * 10 + d = k" "count_ok k" for d m k
  proof -
    have "push_digit m (digit_char d) = min ((case m of Some j \<Rightarrow> j | None \<Rightarrow> 0) * 10 + d) MAX_COUNT"
      by (subst push_digit_exact [where n = "case m of Some j \<Rightarrow> j | None \<Rightarrow> 0"])
        (use that in \<open>auto simp: count_ok_def split: option.splits\<close>)
    then show ?thesis using that by (simp add: add_count_def count_ok_def)
  qed
  have same: "p\<lparr>rp_count := None\<rparr> = p" using assms(2) by (cases p) simp
  show ?case
  proof (cases "n < 10")
    case True
    have "digit_char n \<noteq> CHR ''0''"
      using digit_zero_iff [of "digit_char n"] True 1(2) by (simp add: count_ok_def)
    then have "feed (KChar [digit_char n]) p = (CNone, add_count (digit_char n) p)"
      using feed_digit assms(1) True by simp
    moreover have "add_count (digit_char n) p = p\<lparr>rp_count := Some n\<rparr>"
      using add [of n None n] True 1(2) same by simp
    ultimately show ?thesis
      using True by (simp add: count_keys_def show_nat.simps [of n])
  next
    case False
    have "count_ok (n div 10)" using False 1(2) by (auto simp: count_ok_def)
    note IH = 1(1) [OF False this]
    have "feed (KChar [digit_char (n mod 10)]) (p\<lparr>rp_count := Some (n div 10)\<rparr>) =
        (CNone, add_count (digit_char (n mod 10)) (p\<lparr>rp_count := Some (n div 10)\<rparr>))"
      by (rule feed_digit) (use assms(1) in \<open>simp_all add: accepts_count_def\<close>)
    moreover have "add_count (digit_char (n mod 10)) (p\<lparr>rp_count := Some (n div 10)\<rparr>) = p\<lparr>rp_count := Some n\<rparr>"
      using add [of "n mod 10" "Some (n div 10)" n] 1(2) by simp
    ultimately show ?thesis
      using False IH by (simp add: count_keys_def show_nat.simps [of n] feed_all_append replicate_append_same)
  qed
qed

lemma feed_register_keys:
  assumes "parser_idle p"
  shows "feed_all p (register_keys r) = (replicate (length (register_keys r)) CNone, p\<lparr>rp_register := r\<rparr>)"
  using assms
  by (cases r rule: option.exhaust; cases "the r"; cases "rp_visual p")
    (simp_all add: register_keys_def feed_def feed_normal_def feed_visual_def feed_register_def parser_idle_def
      key_digit_def byte_class_defs Let_def numeral_2_eq_2)

definition pending_state :: "review_parser \<Rightarrow> clipboard_register option \<Rightarrow> nat option \<Rightarrow> review_parser" where
  "pending_state p r n = p\<lparr>rp_register := r, rp_count := n\<rparr>"

lemma feed_register_count_keys:
  assumes "parser_idle p" "count_ok n"
  shows "feed_all p (register_keys r @ count_keys n) =
    (replicate (length (register_keys r @ count_keys n)) CNone, pending_state p r (Some n))"
proof -
  have "accepts_count (p\<lparr>rp_register := r\<rparr>)" "rp_count (p\<lparr>rp_register := r\<rparr>) = None"
    using assms(1) by (simp_all add: accepts_count_def parser_idle_def)
  from feed_count_keys [OF this assms(2)] show ?thesis
    by (simp add: feed_all_append feed_register_keys [OF assms(1)] pending_state_def replicate_add count_keys_def)
qed

definition motion_table :: "(review_key \<times> motion) list" where
  "motion_table =
     [(KChar ''h'', MLeft), (KLeft, MLeft), (KChar ''j'', MDown), (KDown, MDown), (KChar ''k'', MUp), (KUp, MUp),
      (KChar ''l'', MRight), (KRight, MRight), (KChar ''0'', MLineStart), (KChar ''^'', MFirstNonblank),
      (KChar ''$'', MLineEnd), (KChar ''w'', MWord ForwardStart StyleWord), (KChar ''W'', MWord ForwardStart StyleBigWord),
      (KChar ''b'', MWord BackwardStart StyleWord), (KChar ''B'', MWord BackwardStart StyleBigWord),
      (KChar ''e'', MWord ForwardEnd StyleWord), (KChar ''E'', MWord ForwardEnd StyleBigWord), (KChar ''G'', MDocumentEnd),
      (KChar ''%'', MMatchingBrace), (KChar '';'', MRepeatFind False), (KChar '','', MRepeatFind True)]"

lemma motion_for_key_table: "motion_for_key key \<noteq> None \<Longrightarrow> key \<in> fst ` set motion_table"
  by (rule ccontr) (simp add: motion_for_key_def motion_table_def)

definition motion_plain :: "review_key \<Rightarrow> bool" where
  "motion_plain key \<longleftrightarrow> open_prefix key = None \<and> key \<noteq> KEscape \<and>
     (case key_digit key of None \<Rightarrow> True | Some d \<Rightarrow> d = CHR ''0'' \<and> key = KChar ''0'') \<and>
    key \<notin> {KChar ''q'', KChar [CHR 0x22], KChar ''y'', KChar ''v'', KChar ''V'', KChar ''/'', KChar ''?'', KChar ''n'', KChar ''N'',
      KChar ''i'', KChar ''a'', KCtrl ''b'', KCtrl ''f'', KCtrl ''u'', KCtrl ''d''}"

lemma motion_table_plain: "list_all (motion_plain \<circ> fst) motion_table"
  by (simp add: motion_table_def motion_plain_def open_prefix_def key_digit_def byte_class_defs)

lemma motion_key_plain: "motion_for_key key = Some m \<Longrightarrow> motion_plain key"
  using motion_table_plain motion_for_key_table [of key] by (auto simp: list_all_iff)

definition motion_in :: "visual_kind option \<Rightarrow> motion \<Rightarrow> nat \<Rightarrow> review_command" where
  "motion_in v m n = (if v = None then CMove m n else CMoveVisual m n)"

definition at_rest :: "review_parser \<Rightarrow> review_parser" where
  "at_rest p = p\<lparr>rp_count := None, rp_prefix := PrefixNone, rp_operator := None, rp_register := None,
     rp_awaiting_register := False\<rparr>"

definition pending_count :: "review_parser \<Rightarrow> nat" where
  "pending_count p = max (case rp_count p of Some n \<Rightarrow> n | None \<Rightarrow> 1) 1"

lemma finish_at_rest: "finish_command c p = (c, at_rest p)"
  by (simp add: finish_command_def at_rest_def)

lemma at_rest_update [simp]:
  "at_rest (p\<lparr>rp_count := n\<rparr>) = at_rest p" "at_rest (p\<lparr>rp_prefix := x\<rparr>) = at_rest p"
  "at_rest (p\<lparr>rp_operator := o'\<rparr>) = at_rest p" "at_rest (p\<lparr>rp_register := r\<rparr>) = at_rest p"
  "at_rest (p\<lparr>rp_awaiting_register := b\<rparr>) = at_rest p"
  by (simp_all add: at_rest_def)

lemma take_count_eq: "take_count p = (pending_count p, p\<lparr>rp_count := None\<rparr>)"
  by (simp add: take_count_def pending_count_def)

lemma feed_motion_key:
  assumes "accepts_count q" "motion_for_key key = Some m" "key = KChar ''0'' \<longrightarrow> rp_count q = None"
  shows "feed key q = (motion_in (rp_visual q) m (pending_count q), at_rest q)"
  using assms(1,3) motion_key_plain [OF assms(2)]
  by (auto simp: feed_def accepts_count_def feed_normal_def feed_visual_def motion_plain_def assms(2) take_count_eq
      finish_at_rest motion_in_def split: option.splits)

lemma feed_open_prefix:
  assumes "accepts_count q" "open_prefix key = Some x"
  shows "feed key q = (CNone, q\<lparr>rp_prefix := x\<rparr>)"
proof -
  have "key \<in> {KChar ''g'', KChar ''z'', KChar ''['', KChar '']'', KChar ''f'', KChar ''F'', KChar ''t'', KChar ''T''}"
    using assms(2) by (rule contrapos_pp) (simp add: open_prefix_def)
  then show ?thesis
    using assms
    by (elim insertE emptyE)
      (simp_all add: feed_def accepts_count_def feed_normal_def feed_visual_def key_digit_def byte_class_defs)
qed

lemma feed_prefixed:
  assumes "rp_operator q = None" "\<not> rp_awaiting_register q" "rp_prefix q \<noteq> PrefixNone"
    "prefixed_motion (rp_prefix q) key = Some m"
  shows "feed key q = (motion_in (rp_visual q) m (pending_count q), at_rest q)"
proof -
  have "key \<noteq> KEscape" "rp_prefix q \<noteq> PrefixZ"
    using assms(4) by (auto simp: prefixed_motion_def split: key_prefix.splits)
  then show ?thesis
    using assms by (auto simp: feed_def feed_prefix_def Let_def finish_at_rest motion_in_def pending_count_def)
qed

section \<open>Typing a command\<close>

definition completes :: "review_parser \<Rightarrow> review_key list \<Rightarrow> review_command \<Rightarrow> review_parser \<Rightarrow> bool" where
  "completes q ks c p \<longleftrightarrow> feed_all q ks = (replicate (length ks - 1) CNone @ [c], p)"

lemma completes_append:
  assumes "feed_all p ks = (replicate (length ks) CNone, q)" "completes q ls c r" "ls \<noteq> []"
  shows "completes p (ks @ ls) c r"
  using assms by (cases ls) (simp_all add: completes_def feed_all_append replicate_add)

lemma completes_one: "feed k q = (c, p) \<Longrightarrow> completes q [k] c p"
  by (simp add: completes_def)

lemma completes_Cons: "feed k q = (CNone, q') \<Longrightarrow> completes q' ks c p \<Longrightarrow> ks \<noteq> [] \<Longrightarrow> completes q (k # ks) c p"
  using completes_append [of q "[k]" q' ks c p] by simp

lemma find_key_opens: "open_prefix (find_key d till) = Some (PrefixFind d till) \<and> find_key d till \<noteq> KChar ''z''"
  by (cases d; cases till) (simp_all add: find_key_def open_prefix_def)

definition one_key :: "motion \<Rightarrow> bool" where
  "one_key m \<longleftrightarrow> (let k = hd (motion_keys m) in
     motion_keys m = [k] \<and> motion_for_key k = Some m \<and> (k = KChar ''0'' \<longrightarrow> m = MLineStart))"

definition two_keys :: "motion \<Rightarrow> bool" where
  "two_keys m \<longleftrightarrow> (let k = hd (motion_keys m); k' = motion_keys m ! 1; x = the (open_prefix k) in
     motion_keys m = [k, k'] \<and> open_prefix k = Some x \<and> prefixed_motion x k' = Some m \<and> k \<noteq> KChar ''z'')"

lemma one_or_two_keys: "one_key m \<or> two_keys m"
proof (cases m)
  case (MFind d till target)
  then have "two_keys m" by (simp add: two_keys_def motion_keys_def find_key_opens prefixed_motion_def Let_def)
  then show ?thesis ..
next
  case (MWord move style)
  then have "one_key m" by (cases move; cases style) (simp_all add: one_key_def motion_keys_def motion_for_key_def)
  then show ?thesis ..
next
  case (MPrompt forward)
  then have "two_keys m" by (cases forward) (simp_all add: two_keys_def motion_keys_def open_prefix_def prefixed_motion_def)
  then show ?thesis ..
next
  case MDocumentStart
  then have "two_keys m" by (simp add: two_keys_def motion_keys_def open_prefix_def prefixed_motion_def)
  then show ?thesis ..
next
  case (MRepeatFind reverse)
  then have "one_key m" by (cases reverse) (simp_all add: one_key_def motion_keys_def motion_for_key_def)
  then show ?thesis ..
qed (simp_all add: one_key_def motion_keys_def motion_for_key_def)

lemma motion_keys_cases:
  obtains k where "motion_keys m = [k]" "motion_for_key k = Some m" "k = KChar ''0'' \<longrightarrow> m = MLineStart"
  | k x k' where "motion_keys m = [k, k']" "open_prefix k = Some x" "prefixed_motion x k' = Some m" "k \<noteq> KChar ''z''"
  using one_or_two_keys [of m] unfolding one_key_def two_keys_def Let_def by blast

lemma motion_completes:
  assumes "accepts_count q" "m = MLineStart \<longrightarrow> rp_count q = None"
  shows "completes q (motion_keys m) (motion_in (rp_visual q) m (pending_count q)) (at_rest q)"
proof (rule motion_keys_cases [of m])
  fix k assume "motion_keys m = [k]" "motion_for_key k = Some m" "k = KChar ''0'' \<longrightarrow> m = MLineStart"
  then show ?thesis using assms feed_motion_key [OF assms(1), of k m] by (simp add: completes_one)
next
  fix k x k' assume m: "motion_keys m = [k, k']" "open_prefix k = Some x" "prefixed_motion x k' = Some m"
  have "feed k' (q\<lparr>rp_prefix := x\<rparr>) = (motion_in (rp_visual q) m (pending_count q), at_rest q)"
    using feed_prefixed [of "q\<lparr>rp_prefix := x\<rparr>" k' m] assms(1) m open_prefix_some [OF m(2)]
    by (simp add: accepts_count_def pending_count_def)
  then show ?thesis
    using feed_open_prefix [OF assms(1) m(2)] m(1) by (simp add: completes_Cons completes_one)
qed

definition yanking :: "review_parser \<Rightarrow> nat \<Rightarrow> clipboard_register option \<Rightarrow> review_parser" where
  "yanking p n r = p\<lparr>rp_operator := Some \<lparr>yk_count = n, yk_register = r, yk_prefix = PrefixNone,
     yk_motion_count = None, yk_text_object_around = None\<rparr>\<rparr>"

lemma feed_yank:
  assumes "parser_idle p" "rp_visual p = None" "count_ok n"
  shows "feed (KChar ''y'') (pending_state p r (Some n)) = (CNone, yanking p n r)"
proof -
  have "max n (Suc 0) = n" using assms(3) by (simp add: count_ok_def)
  moreover have "pending_state p r (Some n)\<lparr>rp_count := None, rp_register := None\<rparr> = p"
    using assms(1) by (cases p) (simp add: parser_idle_def pending_state_def)
  ultimately show ?thesis
    using assms(1,2) by (simp add: feed_def feed_normal_def key_digit_def byte_class_defs take_count_def yanking_def
        parser_idle_def pending_state_def)
qed

lemma yank_motion_completes:
  assumes "parser_idle p" "count_ok n"
    "\<And>d till t. m = MFind d till [t] \<Longrightarrow> is_ascii_digit t \<Longrightarrow> t = CHR ''0''"
  shows "completes (yanking p n r) (motion_keys m) (CYankMotion m n r) p"
proof (rule motion_keys_cases [of m])
  have rest: "at_rest (yanking p n r) = p"
    using assms(1) by (cases p) (simp add: yanking_def at_rest_def parser_idle_def)
  have idle: "\<not> rp_awaiting_register (yanking p n r)" using assms(1) by (simp add: yanking_def parser_idle_def)
  {
    fix k assume m: "motion_keys m = [k]" "motion_for_key k = Some m"
    have "feed k (yanking p n r) = (CYankMotion m n r, p)"
      using motion_key_plain [OF m(2)] idle rest multiply_counts_one [OF assms(2)] m(2)
      by (auto simp: feed_def feed_operator_def yanking_def motion_plain_def finish_at_rest split: option.splits)
    then show ?thesis by (simp add: m(1) completes_one)
  }
  fix k x k' assume m: "motion_keys m = [k, k']" "open_prefix k = Some x" "prefixed_motion x k' = Some m" "k \<noteq> KChar ''z''"
  define y where "y = yanking p n r\<lparr>rp_operator := Some \<lparr>yk_count = n, yk_register = r, yk_prefix = x,
     yk_motion_count = None, yk_text_object_around = None\<rparr>\<rparr>"
  have d: "key_digit k' = None \<or> key_digit k' = Some (CHR ''0'')"
  proof (cases "key_digit k'")
    case (Some d)
    then have d: "k' = KChar [d]" "is_ascii_digit d" by (simp_all add: key_digit_Some)
    have "d \<noteq> CHR ''g''" "d \<noteq> CHR ''p''" using d(2) by (auto simp: byte_class_defs)
    then have "\<exists>dir till. m = MFind dir till [d]"
      using m(3) d(1) by (cases x) (auto simp: prefixed_motion_def)
    then show ?thesis using assms(3) d(2) Some by blast
  qed simp
  have "k' \<noteq> KEscape" using m(3) by (cases x) (auto simp: prefixed_motion_def)
  then have 2: "feed k' y = (CYankMotion m n r, p)"
    using d m(3) idle rest multiply_counts_one [OF assms(2)] open_prefix_some [OF m(2)]
    by (auto simp: feed_def feed_operator_def y_def yanking_def finish_at_rest)
  have "k \<in> {KChar ''g'', KChar ''['', KChar '']'', KChar ''f'', KChar ''F'', KChar ''t'', KChar ''T''}"
    using m(2,4) by (rule_tac ccontr) (simp add: open_prefix_def)
  then have "feed k (yanking p n r) = (CNone, y)"
    using m(2) idle
    by (elim insertE emptyE) (simp_all add: feed_def feed_operator_def yanking_def y_def key_digit_def byte_class_defs)
  then show ?thesis using 2 m(1) by (simp add: completes_Cons completes_one)
qed

lemma pending_state_simps:
  assumes "parser_idle p" "count_ok n"
  shows "accepts_count (pending_state p r x)" "pending_count (pending_state p r (Some n)) = n"
    "pending_count (pending_state p r None) = 1" "at_rest (pending_state p r x) = p"
    "rp_visual (pending_state p r x) = rp_visual p" "rp_count (pending_state p r x) = x"
    "rp_register (pending_state p r x) = r" "at_rest p = p" "at_rest (yanking p n r) = p"
    "rp_operator (pending_state p r x) = None" "rp_prefix (pending_state p r x) = PrefixNone"
    "\<not> rp_awaiting_register (pending_state p r x)" "at_rest (pending_state p r x\<lparr>rp_count := y\<rparr>) = p"
  using assms
  by (cases p; simp add: accepts_count_def pending_state_def pending_count_def count_ok_def at_rest_def parser_idle_def
      yanking_def)+

lemma counted_completes:
  assumes "parser_idle p" "count_ok n" "completes (pending_state p r (Some n)) ks c q" "ks \<noteq> []"
  shows "completes p (register_keys r @ count_keys n @ ks) c q"
  using completes_append [OF feed_register_count_keys [OF assms(1,2)] assms(3,4)] by simp

lemma pending_none: "parser_idle p \<Longrightarrow> pending_state p None None = p"
  by (cases p) (simp add: parser_idle_def pending_state_def)

lemma counted_motion_completes:
  assumes "parser_idle p" "count_ok n" "m = MLineStart \<longrightarrow> n = 1"
  shows "completes p (counted_motion_keys m n) (motion_in (rp_visual p) m n) p"
proof (cases "m = MLineStart")
  case True
  then show ?thesis
    using motion_completes [of p m] assms pending_state_simps(8) [OF assms(1,2)]
    by (simp add: counted_motion_keys_def accepts_count_def parser_idle_def pending_count_def)
next
  case False
  have "completes p (register_keys None @ count_keys n @ motion_keys m) (motion_in (rp_visual p) m n) p"
    by (rule counted_completes [OF assms(1,2)])
      (use motion_completes [of "pending_state p None (Some n)" m] False in
        \<open>auto simp: pending_state_simps [OF assms(1,2)] motion_keys_def split: motion.splits\<close>)
  then show ?thesis using False by (simp add: counted_motion_keys_def register_keys_def)
qed

lemma reposition_completes:
  assumes "accepts_count q"
  shows "completes q [KChar ''z'', placement_key place nonblank] (CRepositionViewport place (rp_count q) nonblank) (at_rest q)"
proof -
  have k: "placement_for_key (placement_key place nonblank) = Some (place, nonblank)" "placement_key place nonblank \<noteq> KEscape"
    by (cases place; cases nonblank; simp add: placement_for_key_def placement_key_def)+
  have "feed (KChar ''z'') q = (CNone, q\<lparr>rp_prefix := PrefixZ\<rparr>)"
    by (rule feed_open_prefix [OF assms]) (simp add: open_prefix_def)
  moreover have "feed (placement_key place nonblank) (q\<lparr>rp_prefix := PrefixZ\<rparr>) =
      (CRepositionViewport place (rp_count q) nonblank, at_rest q)"
    using k assms by (simp add: feed_def accepts_count_def feed_prefix_def Let_def finish_at_rest)
  ultimately show ?thesis by (simp add: completes_Cons completes_one)
qed

lemma object_completes:
  assumes "parser_idle p" "count_ok n"
  shows "completes (yanking p n r) (object_keys obj) (CYankTextObject obj n r) p"
proof (cases obj)
  case (ObjWord style around)
  let ?k = "if around then KChar ''a'' else KChar ''i''"
  let ?k' = "case style of StyleWord \<Rightarrow> KChar ''w'' | StyleBigWord \<Rightarrow> KChar ''W''"
  define q where "q = p\<lparr>rp_operator := Some \<lparr>yk_count = n, yk_register = r, yk_prefix = PrefixNone, yk_motion_count = None,
     yk_text_object_around = Some around\<rparr>\<rparr>"
  have rest: "at_rest q = p" using pending_state_simps(8) [OF assms] by (simp add: q_def)
  have "feed ?k (yanking p n r) = (CNone, q)"
    using assms(1)
    by (simp add: feed_def parser_idle_def yanking_def q_def feed_operator_def key_digit_def byte_class_defs Let_def)
  moreover have "feed ?k' q = (CYankTextObject obj n r, p)"
    using assms(1) rest multiply_counts_one [OF assms(2)] ObjWord
    by (cases style) (simp_all add: feed_def parser_idle_def q_def feed_operator_def key_digit_def byte_class_defs Let_def finish_at_rest)
  ultimately show ?thesis using ObjWord by (simp add: object_keys_def completes_Cons completes_one)
qed

lemma yank_completes:
  assumes "parser_idle p" "rp_visual p = None" "count_ok n" "completes (yanking p n r) ks c p" "ks \<noteq> []"
  shows "completes p (register_keys r @ count_keys n @ KChar ''y'' # ks) c p"
  by (rule counted_completes [OF assms(1,3) completes_Cons [OF feed_yank [OF assms(1-3)] assms(4,5)]]) simp

lemma yank_line_completes:
  assumes "parser_idle p" "count_ok n"
  shows "completes (yanking p n r) [KChar ''y''] (CYankLine n r) p"
  using assms(1) multiply_counts_one [OF assms(2)] pending_state_simps(9) [OF assms]
  by (intro completes_one)
    (simp add: feed_def parser_idle_def yanking_def feed_operator_def key_digit_def byte_class_defs Let_def finish_at_rest)

lemma one_shot:
  assumes "parser_idle p" "count_ok n" "feed k (pending_state p None (Some n)) = (c, p)"
  shows "completes p (count_keys n @ [k]) c p"
  using counted_completes [OF assms(1,2) completes_one [OF assms(3)]] by (simp add: register_keys_def)

definition typed_state :: "review_command \<Rightarrow> review_parser \<Rightarrow> review_parser" where
  "typed_state c p = p\<lparr>rp_visual := visual_after c (rp_visual p)\<rparr>"

definition is_move_command :: "review_command \<Rightarrow> bool" where
  "is_move_command c \<longleftrightarrow> (case c of CMove m n \<Rightarrow> True | CMoveVisual m n \<Rightarrow> True | _ \<Rightarrow> False)"

definition is_yank_command :: "review_command \<Rightarrow> bool" where
  "is_yank_command c \<longleftrightarrow> (case c of CYankMotion m n r \<Rightarrow> True | CYankLine n r \<Rightarrow> True | CYankTextObject obj n r \<Rightarrow> True | _ \<Rightarrow> False)"

definition is_view_command :: "review_command \<Rightarrow> bool" where
  "is_view_command c \<longleftrightarrow> (case c of CRepositionViewport place line nonblank \<Rightarrow> True | CScrollPage forward n \<Rightarrow> True | CRepeatSearch reverse n \<Rightarrow> True | _ \<Rightarrow> False)"

lemma move_command:
  assumes "parser_idle p" "typeable c" "command_fits (rp_visual p) c" "is_move_command c"
  shows "completes p (command_keys c) c (typed_state c p)"
proof -
  have same: "visual_after c (rp_visual p) = rp_visual p \<Longrightarrow> typed_state c p = p" by (cases p) (simp add: typed_state_def)
  have n: "count_ok n" if "n \<in> command_counts c" for n
    using that assms(2) by (simp add: typeable_def)
  note idle = assms(1) and fits = assms(3)
  show ?thesis
  proof (cases c)
    case (CMove m n)
    then have "typed_state c p = p" "motion_in (rp_visual p) m n = c" using fits same by (auto simp: visual_after_def command_fits_def motion_in_def)
    then show ?thesis
      using counted_motion_completes [OF idle n, of n m] assms(2) CMove by (simp add: command_keys_def typeable_def command_counts_def)
  next
    case (CMoveVisual m n)
    then have "typed_state c p = p" "motion_in (rp_visual p) m n = c" using fits same by (auto simp: visual_after_def command_fits_def motion_in_def)
    then show ?thesis
      using counted_motion_completes [OF idle n, of n m] assms(2) CMoveVisual by (simp add: command_keys_def typeable_def command_counts_def)
  qed (use assms(4) in \<open>simp_all add: is_move_command_def\<close>)
qed

lemma yank_command:
  assumes "parser_idle p" "typeable c" "command_fits (rp_visual p) c" "is_yank_command c"
  shows "completes p (command_keys c) c (typed_state c p)"
proof -
  have same: "visual_after c (rp_visual p) = rp_visual p \<Longrightarrow> typed_state c p = p" by (cases p) (simp add: typed_state_def)
  have n: "count_ok n" if "n \<in> command_counts c" for n
    using that assms(2) by (simp add: typeable_def)
  note idle = assms(1) and fits = assms(3)
  show ?thesis
  proof (cases c)
    case (CYankMotion m n r)
    then have "typed_state c p = p" "rp_visual p = None" using fits same by (auto simp: visual_after_def command_fits_def)
    moreover have "completes (yanking p n r) (motion_keys m) c p"
      using yank_motion_completes [OF idle n, of n m r] assms(2) CYankMotion by (cases m) (auto simp: typeable_def command_counts_def)
    moreover have "motion_keys m \<noteq> []" using motion_keys_cases [of m] by (metis list.distinct(1))
    ultimately show ?thesis
      using yank_completes [OF idle _ n, of n r] CYankMotion by (simp add: command_keys_def command_counts_def)
  next
    case (CYankLine n' r)
    then have n': "count_ok n'" using n by (simp add: command_counts_def)
    from CYankLine have "typed_state c p = p" "rp_visual p = None" using fits same by (auto simp: visual_after_def command_fits_def)
    then show ?thesis
      using yank_completes [OF idle _ n' yank_line_completes [OF idle n']] CYankLine by (simp add: command_keys_def command_counts_def)
  next
    case (CYankTextObject obj n' r)
    then have n': "count_ok n'" using n by (simp add: command_counts_def)
    from CYankTextObject have "typed_state c p = p" "rp_visual p = None" using fits same by (auto simp: visual_after_def command_fits_def)
    moreover have "object_keys obj \<noteq> []" by (simp add: object_keys_def split: text_object.split)
    ultimately show ?thesis
      using yank_completes [OF idle _ n' object_completes [OF idle n']] CYankTextObject
      by (simp add: command_keys_def command_counts_def)
  qed (use assms(4) in \<open>simp_all add: is_yank_command_def\<close>)
qed

lemma view_command:
  assumes "parser_idle p" "typeable c" "command_fits (rp_visual p) c" "is_view_command c"
  shows "completes p (command_keys c) c (typed_state c p)"
proof -
  have same: "visual_after c (rp_visual p) = rp_visual p \<Longrightarrow> typed_state c p = p" by (cases p) (simp add: typed_state_def)
  have n: "count_ok n" if "n \<in> command_counts c" for n
    using that assms(2) by (simp add: typeable_def)
  note idle = assms(1) and fits = assms(3)
  note key_simps = feed_def feed_normal_def key_digit_def byte_class_defs finish_at_rest take_count_eq page_def
  show ?thesis
  proof (cases c)
    case (CRepositionViewport place line nonblank)
    then have q: "typed_state c p = p" using same by (simp add: visual_after_def)
    show ?thesis
    proof (cases line)
      case None
      then show ?thesis
        using reposition_completes [of p place nonblank] idle CRepositionViewport q pending_state_simps(8) [OF idle count_ok_one]
        by (simp add: command_keys_def accepts_count_def parser_idle_def)
    next
      case (Some n')
      have n': "count_ok n'" using n CRepositionViewport Some by (simp add: command_counts_def)
      have "completes p (register_keys None @ count_keys n' @ [KChar ''z'', placement_key place nonblank]) c p"
        by (rule counted_completes [OF idle n'])
          (use reposition_completes [of "pending_state p None (Some n')" place nonblank] CRepositionViewport Some in
            \<open>simp_all add: pending_state_simps [OF idle n']\<close>)
      then show ?thesis using CRepositionViewport Some q by (simp add: command_keys_def register_keys_def)
    qed
  next
    case (CScrollPage forward n')
    have n': "count_ok n'" using n CScrollPage by (simp add: command_counts_def)
    have "rp_visual p = None" "typed_state c p = p" using fits same CScrollPage by (simp_all add: command_fits_def visual_after_def)
    then show ?thesis
      using one_shot [OF idle n', of "KCtrl (if forward then ''f'' else ''b'')" c] CScrollPage
      by (cases forward) (simp_all add: open_prefix_def command_keys_def key_simps pending_state_simps [OF idle n'])
  next
    case (CRepeatSearch reverse n')
    have n': "count_ok n'" using n CRepeatSearch by (simp add: command_counts_def)
    have "rp_visual p = None" "typed_state c p = p" using fits same CRepeatSearch by (simp_all add: command_fits_def visual_after_def)
    then show ?thesis
      using one_shot [OF idle n', of "if reverse then KChar ''N'' else KChar ''n''" c] CRepeatSearch
      by (cases reverse) (simp_all add: open_prefix_def command_keys_def key_simps pending_state_simps [OF idle n'])
  qed (use assms(4) in \<open>simp_all add: is_view_command_def\<close>)
qed

lemma plain_command:
  assumes "parser_idle p" "typeable c" "command_fits (rp_visual p) c" "\<not> is_move_command c" "\<not> is_yank_command c"
    "\<not> is_view_command c"
  shows "completes p (command_keys c) c (typed_state c p)"
proof -
  note key_simps = feed_def feed_normal_def feed_visual_def key_digit_def byte_class_defs finish_at_rest
    visual_after_def typed_state_def
  show ?thesis
  proof (cases c)
    case (CYankVisual r)
    have "rp_visual p \<noteq> None" using assms(3) CYankVisual by (simp add: command_fits_def)
    then have "feed (KChar ''y'') (p\<lparr>rp_register := r\<rparr>) = (c, typed_state c p)"
      using assms(1) CYankVisual by (cases p) (simp add: key_simps parser_idle_def at_rest_def)
    then show ?thesis
      using completes_append [OF feed_register_keys [OF assms(1)] completes_one] CYankVisual by (simp add: command_keys_def)
  qed (use assms in \<open>auto intro!: completes_one simp: open_prefix_def typeable_def command_keys_def key_simps
      parser_idle_def at_rest_def command_fits_def is_move_command_def is_yank_command_def is_view_command_def
      split: visual_kind.split search_direction.split\<close>)
qed

text \<open>
  Every command that can be typed has keys, and typing them on a parser with nothing
  pending gives exactly that command at the last key, no command before it, and a parser with
  nothing pending again, in the visual mode that the command announces.
\<close>

theorem typed_command_returned:
  assumes "parser_idle p" "typeable c" "command_fits (rp_visual p) c"
  shows "feed_all p (command_keys c) =
    (replicate (length (command_keys c) - 1) CNone @ [c], p\<lparr>rp_visual := visual_after c (rp_visual p)\<rparr>)"
  using move_command [OF assms] yank_command [OF assms] view_command [OF assms] plain_command [OF assms]
  unfolding completes_def typed_state_def by blast

theorem typed_command_returned_witness:
  "feed_all parser_default (command_keys (CYankMotion (MFind FindBackward True ''x'') 120 (Some RegSystem))) =
     (replicate 7 CNone @ [CYankMotion (MFind FindBackward True ''x'') 120 (Some RegSystem)], parser_default)"
proof -
  have "show_nat 120 = ''120''" by code_simp
  moreover have "replicate 7 CNone = [CNone, CNone, CNone, CNone, CNone, CNone, CNone]"
    by (simp add: numeral_eq_Suc)
  ultimately show ?thesis
    using typed_command_returned [of parser_default "CYankMotion (MFind FindBackward True ''x'') 120 (Some RegSystem)"]
    by (simp add: parser_idle_def parser_default_def typeable_def command_counts_def count_ok_def MAX_COUNT_def byte_class_defs
        command_fits_def visual_after_def command_keys_def register_keys_def count_keys_def motion_keys_def numeral_2_eq_2
        del: feed_all.simps)
qed

text \<open>
  The exclusion in \<^verbatim>\<open>typeable\<close> is real: after a yank a pending find takes a digit for a count,
  where the same find outside of a yank takes it for its target.
\<close>

lemma yank_find_loses_digit_target:
  "feed_all parser_default (map (\<lambda>c. KChar [c]) ''f3'') = ([CNone, CMove (MFind FindForward False ''3'') 1], parser_default) \<and>
   fst (feed_all parser_default (map (\<lambda>c. KChar [c]) ''yf3x'')) =
     [CNone, CNone, CNone, CYankMotion (MFind FindForward False ''x'') 3 None]"
  by (simp add: feed_def feed_normal_def feed_operator_def feed_prefix_def prefixed_motion_def open_prefix_def key_digit_def
      byte_class_defs parser_default_def finish_command_def take_count_def push_digit_def saturating_mul_usize_def
      saturating_add_usize_def usize_max_def digit_val_def MAX_COUNT_def multiply_counts_def Let_def)

end
