(* ===== verification/Review_Document.thy ===== *)
theory Review_Document
  imports Review_Parser Terminal_Snapshot
begin

text \<open>
  The frozen document of review mode (\<^verbatim>\<open>review/document.rs\<close>): the rows captured from a
  snapshot, the flat text that searches run on, and every cursor movement. The Unicode table
  behind \<^verbatim>\<open>char::is_alphanumeric\<close> is the parameter \<open>alnum\<close>, and the matches of a
  regular expression in a text are the parameter \<open>find_starts\<close>. Functions that index with
  brackets return \<open>None\<close> where the source panics.
\<close>

section \<open>Positions\<close>

text \<open>The derived order of \<^verbatim>\<open>HistoryPosition\<close>: rows first, then columns\<close>

instantiation history_position_ext :: (linorder) linorder
begin

definition less_eq_history_position_ext :: "'a history_position_ext \<Rightarrow> 'a history_position_ext \<Rightarrow> bool" where
  "p \<le> q \<longleftrightarrow> hp_row p < hp_row q \<or> hp_row p = hp_row q \<and>
     (hp_col p < hp_col q \<or> hp_col p = hp_col q \<and> history_position.more p \<le> history_position.more q)"

definition less_history_position_ext :: "'a history_position_ext \<Rightarrow> 'a history_position_ext \<Rightarrow> bool" where
  "p < q \<longleftrightarrow> hp_row p < hp_row q \<or> hp_row p = hp_row q \<and>
     (hp_col p < hp_col q \<or> hp_col p = hp_col q \<and> history_position.more p < history_position.more q)"

instance
  by standard
    (auto simp: less_eq_history_position_ext_def less_history_position_ext_def intro: history_position.equality)

end

abbreviation at_pos :: "nat \<Rightarrow> nat \<Rightarrow> history_position" where
  "at_pos r c \<equiv> \<lparr>hp_row = r, hp_col = c\<rparr>"

lemma at_pos_le: "at_pos r c \<le> at_pos r' c' \<longleftrightarrow> r < r' \<or> r = r' \<and> c \<le> c'"
  by (auto simp: less_eq_history_position_ext_def)

lemma at_pos_less: "at_pos r c < at_pos r' c' \<longleftrightarrow> r < r' \<or> r = r' \<and> c < c'"
  by (auto simp: less_history_position_ext_def)

section \<open>The document\<close>

definition reverse_direction :: "search_direction \<Rightarrow> search_direction" where
  "reverse_direction d = (case d of SearchForward \<Rightarrow> SearchBackward | SearchBackward \<Rightarrow> SearchForward)"

record doc_cell =
  dc_text :: bytes
  dc_continuation :: bool
  dc_style :: style

record doc_row =
  dr_cells :: "doc_cell list"
  dr_wrapped :: bool
  dr_end :: nat

record review_document =
  rd_rows :: "doc_row list"
  rd_marks :: "semantic_mark list"
  rd_capture_cols :: nat
  rd_alternate_screen :: bool
  rd_flat_text :: bytes
  rd_flat_positions :: "history_position list"
  rd_positions :: "history_position list"

section \<open>Capture\<close>

definition capture_cell :: "row \<Rightarrow> nat \<Rightarrow> doc_cell" where
  "capture_cell r col =
     (if col < length (row_cells r)
      then \<lparr>dc_text = cell_grapheme (row_cells r ! col), dc_continuation = cell_continuation (row_cells r ! col),
         dc_style = cell_style (row_cells r ! col)\<rparr>
      else \<lparr>dc_text = [], dc_continuation = False, dc_style = style_default\<rparr>)"

definition capture_row :: "nat \<Rightarrow> row \<Rightarrow> doc_row" where
  "capture_row cols r =
     (let cells = map (capture_cell r) [0..<cols];
          last_used = fold (\<lambda>col e. if dc_text (cells ! col) \<noteq> [] \<or> dc_continuation (cells ! col) then sat_add16 col 1 else e)
            [0..<cols] 0
      in \<lparr>dr_cells = cells, dr_wrapped = row_wrapped r, dr_end = (if row_wrapped r then cols else last_used)\<rparr>)"

text \<open>\<^verbatim>\<open>build_search_text\<close>, for one row\<close>

definition row_positions :: "nat \<Rightarrow> doc_row \<Rightarrow> history_position list" where
  "row_positions i r = map (at_pos i) (filter (\<lambda>col. \<not> dc_continuation (dr_cells r ! col)) [0..<max (dr_end r) 1])"

definition shown_text :: "doc_cell \<Rightarrow> bytes" where
  "shown_text c = (if dc_text c = [] then '' '' else dc_text c)"

definition row_flat :: "nat \<Rightarrow> doc_row \<Rightarrow> (byte \<times> history_position) list" where
  "row_flat i r =
     concat (map (\<lambda>col. if dc_continuation (dr_cells r ! col) then []
                        else map (\<lambda>b. (b, at_pos i col)) (shown_text (dr_cells r ! col))) [0..<dr_end r]) @
     (if dr_wrapped r then [] else [(CHR 0x0A, at_pos i 0)])"

definition build_search_text :: "review_document \<Rightarrow> review_document option" where
  "build_search_text d =
     (if \<exists>r \<in> set (rd_rows d). length (dr_cells r) < max (dr_end r) 1 then None
      else let flat = concat (map (\<lambda>i. row_flat i (rd_rows d ! i)) [0..<length (rd_rows d)]) in
        Some (d\<lparr>rd_flat_text := map fst flat, rd_flat_positions := map snd flat,
          rd_positions := concat (map (\<lambda>i. row_positions i (rd_rows d ! i)) [0..<length (rd_rows d)])\<rparr>))"

definition from_snapshot :: "terminal_snapshot \<Rightarrow> nat \<Rightarrow> review_document option" where
  "from_snapshot s cols =
     build_search_text \<lparr>rd_rows = map (capture_row cols) (ts_scrollback s @ ts_rows s),
       rd_marks = ts_semantic_marks s, rd_capture_cols = cols,
       rd_alternate_screen = (ts_screen s = AlternateScreen),
       rd_flat_text = [], rd_flat_positions = [], rd_positions = []\<rparr>"

section \<open>Rows, columns and clamping\<close>

definition row_count :: "review_document \<Rightarrow> nat" where
  "row_count d = length (rd_rows d)"

definition max_viewport_top :: "review_document \<Rightarrow> nat \<Rightarrow> nat" where
  "max_viewport_top d height = row_count d - max height 1"

definition max_viewport_left :: "review_document \<Rightarrow> nat \<Rightarrow> nat" where
  "max_viewport_left d width = max (fold max (map dr_end (rd_rows d)) 0) 1 - max width 1"

definition doc_cell_at :: "review_document \<Rightarrow> nat \<Rightarrow> nat \<Rightarrow> doc_cell option" where
  "doc_cell_at d r c =
     (if r < length (rd_rows d) \<and> c < length (dr_cells (rd_rows d ! r)) then Some (dr_cells (rd_rows d ! r) ! c) else None)"

definition is_continuation :: "review_document \<Rightarrow> nat \<Rightarrow> nat \<Rightarrow> bool" where
  "is_continuation d r c \<longleftrightarrow> (case doc_cell_at d r c of Some cell \<Rightarrow> dc_continuation cell | None \<Rightarrow> False)"

definition cell_text :: "review_document \<Rightarrow> history_position \<Rightarrow> bytes" where
  "cell_text d p = (case doc_cell_at d (hp_row p) (hp_col p) of Some cell \<Rightarrow> dc_text cell | None \<Rightarrow> [])"

definition line_last_col :: "review_document \<Rightarrow> nat \<Rightarrow> nat" where
  "line_last_col d r = (if r < length (rd_rows d) then dr_end (rd_rows d ! r) - 1 else 0)"

definition line_first_nonblank :: "review_document \<Rightarrow> nat \<Rightarrow> nat" where
  "line_first_nonblank d r =
     (if r < length (rd_rows d) then
        (case position (\<lambda>c. \<not> blank (dc_text c) \<and> dc_text c \<noteq> []) (take (dr_end (rd_rows d ! r)) (dr_cells (rd_rows d ! r))) of
           Some i \<Rightarrow> wrap16 i | None \<Rightarrow> 0)
      else 0)"

text \<open>The scanning loops \<^verbatim>\<open>while i < n && p(i) { i += 1 }\<close> and \<^verbatim>\<open>while i > 0 && p(i) { i -= 1 }\<close>\<close>

function scan_up :: "(nat \<Rightarrow> bool) \<Rightarrow> nat \<Rightarrow> nat \<Rightarrow> nat" where
  "scan_up P n i = (if i < n \<and> P i then scan_up P n (Suc i) else i)"
  by pat_completeness auto
termination
  by (relation "measure (\<lambda>(P, n, i). n - i)") auto

declare scan_up.simps [simp del]

fun scan_down :: "(nat \<Rightarrow> bool) \<Rightarrow> nat \<Rightarrow> nat" where
  "scan_down P 0 = 0"
| "scan_down P (Suc i) = (if P (Suc i) then scan_down P i else Suc i)"

definition clamp_col :: "review_document \<Rightarrow> nat \<Rightarrow> nat \<Rightarrow> nat" where
  "clamp_col d r col = scan_down (is_continuation d r) (min col (line_last_col d r))"

definition clamp :: "review_document \<Rightarrow> history_position \<Rightarrow> history_position" where
  "clamp d p = (let r = min (hp_row p) (row_count d - 1) in at_pos r (clamp_col d r (hp_col p)))"

section \<open>Movements by cell and by line\<close>

fun horizontal_loop :: "review_document \<Rightarrow> bool \<Rightarrow> nat \<Rightarrow> history_position \<Rightarrow> history_position" where
  "horizontal_loop d forward 0 p = p"
| "horizontal_loop d forward (Suc n) p =
     (if forward then
        let last_col = line_last_col d (hp_row p) in
        if last_col \<le> hp_col p then p
        else let next_col = scan_up (is_continuation d (hp_row p)) (Suc last_col) (hp_col p + 1) in
          if last_col < next_col then p else horizontal_loop d forward n (p\<lparr>hp_col := next_col\<rparr>)
      else if hp_col p = 0 then p
      else horizontal_loop d forward n (p\<lparr>hp_col := scan_down (is_continuation d (hp_row p)) (hp_col p - 1)\<rparr>))"

definition moved_from :: "history_position \<Rightarrow> history_position \<Rightarrow> history_position option" where
  "moved_from original p = (if p \<noteq> original then Some p else None)"

definition move_horizontal :: "review_document \<Rightarrow> history_position \<Rightarrow> bool \<Rightarrow> nat \<Rightarrow> history_position option" where
  "move_horizontal d p forward count = moved_from p (horizontal_loop d forward count p)"

definition move_vertical :: "review_document \<Rightarrow> history_position \<Rightarrow> bool \<Rightarrow> nat \<Rightarrow> history_position option" where
  "move_vertical d p down count =
     (let r = (if down then min (saturating_add_usize (hp_row p) count) (row_count d - 1) else hp_row p - count)
      in if r \<noteq> hp_row p then Some (at_pos r (clamp_col d r (hp_col p))) else None)"

section \<open>Movements by word\<close>

definition cell_char :: "review_document \<Rightarrow> history_position \<Rightarrow> scalar option" where
  "cell_char d p = (case utf8_chars (cell_text d p) of [] \<Rightarrow> None | ch # _ \<Rightarrow> Some ch)"

definition word_class :: "(scalar \<Rightarrow> bool) \<Rightarrow> review_document \<Rightarrow> word_style \<Rightarrow> history_position \<Rightarrow> nat" where
  "word_class alnum d style p =
     (case cell_char d p of
        None \<Rightarrow> 0
      | Some ch \<Rightarrow> if char_is_whitespace ch then 0
                   else if style = StyleBigWord \<or> alnum ch \<or> ch = ''_'' then 1 else 2)"

definition same_logical_line :: "review_document \<Rightarrow> history_position \<Rightarrow> history_position \<Rightarrow> bool" where
  "same_logical_line d l r \<longleftrightarrow> hp_row l = hp_row r \<or>
     saturating_add_usize (hp_row l) 1 = hp_row r \<and> hp_row l < length (rd_rows d) \<and> dr_wrapped (rd_rows d ! hp_row l)"

definition same_word :: "(scalar \<Rightarrow> bool) \<Rightarrow> review_document \<Rightarrow> word_style \<Rightarrow> history_position \<Rightarrow> history_position \<Rightarrow> bool" where
  "same_word alnum d style l r \<longleftrightarrow> same_logical_line d l r \<and> word_class alnum d style l = word_class alnum d style r"

definition get_position :: "history_position list \<Rightarrow> nat \<Rightarrow> history_position option" where
  "get_position ps i = (if i < length ps then Some (ps ! i) else None)"

definition next_word_start ::
  "(scalar \<Rightarrow> bool) \<Rightarrow> review_document \<Rightarrow> word_style \<Rightarrow> history_position \<Rightarrow> history_position option" where
  "next_word_start alnum d style p =
     (let cells = rd_positions d in
      case position (\<lambda>v. v = p) cells of
        None \<Rightarrow> None
      | Some index \<Rightarrow>
          let i = scan_up (\<lambda>i. same_word alnum d style (cells ! (i - 1)) (cells ! i)) (length cells) (index + 1);
              i = scan_up (\<lambda>i. word_class alnum d style (cells ! i) = 0) (length cells) i
          in get_position cells i)"

definition previous_word_start ::
  "(scalar \<Rightarrow> bool) \<Rightarrow> review_document \<Rightarrow> word_style \<Rightarrow> history_position \<Rightarrow> history_position option" where
  "previous_word_start alnum d style p =
     (let cells = rd_positions d in
      case position (\<lambda>v. v = p) cells of
        None \<Rightarrow> None
      | Some 0 \<Rightarrow> None
      | Some (Suc index) \<Rightarrow>
          let i = scan_down (\<lambda>i. word_class alnum d style (cells ! i) = 0) index;
              class_here = word_class alnum d style (cells ! i);
              i = scan_down (\<lambda>i. word_class alnum d style (cells ! (i - 1)) = class_here \<and>
                    same_logical_line d (cells ! (i - 1)) (cells ! i)) i
          in Some (cells ! i))"

definition next_word_end ::
  "(scalar \<Rightarrow> bool) \<Rightarrow> review_document \<Rightarrow> word_style \<Rightarrow> history_position \<Rightarrow> history_position option" where
  "next_word_end alnum d style p =
     (let cells = rd_positions d in
      case position (\<lambda>v. v = p) cells of
        None \<Rightarrow> None
      | Some index \<Rightarrow>
          let i = scan_up (\<lambda>i. word_class alnum d style (cells ! i) = 0) (length cells) (index + 1) in
          if length cells \<le> i then None
          else let class_here = word_class alnum d style (cells ! i);
                   i = scan_up (\<lambda>i. word_class alnum d style (cells ! (i + 1)) = class_here \<and>
                         same_logical_line d (cells ! i) (cells ! (i + 1))) (length cells - 1) i
               in get_position cells i)"

definition word_step ::
  "(scalar \<Rightarrow> bool) \<Rightarrow> review_document \<Rightarrow> word_move \<Rightarrow> word_style \<Rightarrow> history_position \<Rightarrow> history_position option" where
  "word_step alnum d movement style p =
     (case movement of
        ForwardStart \<Rightarrow> next_word_start alnum d style p
      | BackwardStart \<Rightarrow> previous_word_start alnum d style p
      | ForwardEnd \<Rightarrow> next_word_end alnum d style p)"

fun word_loop ::
  "(scalar \<Rightarrow> bool) \<Rightarrow> review_document \<Rightarrow> word_move \<Rightarrow> word_style \<Rightarrow> nat \<Rightarrow> history_position \<Rightarrow> history_position option" where
  "word_loop alnum d movement style 0 p = Some p"
| "word_loop alnum d movement style (Suc n) p =
     (case word_step alnum d movement style p of None \<Rightarrow> None | Some q \<Rightarrow> word_loop alnum d movement style n q)"

definition move_word ::
  "(scalar \<Rightarrow> bool) \<Rightarrow> review_document \<Rightarrow> history_position \<Rightarrow> word_move \<Rightarrow> word_style \<Rightarrow> nat \<Rightarrow> history_position option" where
  "move_word alnum d p movement style count =
     Option.bind (word_loop alnum d movement style count p) (moved_from p)"

section \<open>Finding characters and braces\<close>

definition logical_line_range :: "review_document \<Rightarrow> nat \<Rightarrow> nat list" where
  "logical_line_range d r =
     (let start = scan_down (\<lambda>i. dr_wrapped (rd_rows d ! (i - 1))) (min r (row_count d - 1));
          stop = scan_up (\<lambda>i. dr_wrapped (rd_rows d ! (i - 1))) (row_count d) (min (saturating_add_usize r 1) (row_count d))
      in [start..<stop])"

definition adjacent :: "review_document \<Rightarrow> history_position \<Rightarrow> bool \<Rightarrow> history_position option" where
  "adjacent d p forward =
     (case position (\<lambda>v. v = p) (rd_positions d) of
        None \<Rightarrow> None
      | Some index \<Rightarrow>
          if forward then get_position (rd_positions d) (index + 1)
          else case index of 0 \<Rightarrow> None | Suc i \<Rightarrow> get_position (rd_positions d) i)"

definition character_matches :: "review_document \<Rightarrow> history_position \<Rightarrow> scalar \<Rightarrow> bool \<Rightarrow> history_position list" where
  "character_matches d p target forward =
     filter (\<lambda>q. starts_with (cell_text d q) target \<and> (if forward then p < q else q < p))
       (concat (map (\<lambda>r. map (at_pos r) [0..<dr_end (rd_rows d ! r)]) (logical_line_range d (hp_row p))))"

definition find_character ::
  "review_document \<Rightarrow> history_position \<Rightarrow> scalar \<Rightarrow> bool \<Rightarrow> bool \<Rightarrow> nat \<Rightarrow> history_position option" where
  "find_character d p target forward till count =
     (let matches = character_matches d p target forward;
          matches = (if forward then matches else rev matches)
      in case get_position matches (count - 1) of
           None \<Rightarrow> None
         | Some found \<Rightarrow>
             (if till then Option.bind (adjacent d found (\<not> forward)) (moved_from p) else moved_from p found))"

text \<open>The mate of a brace, and whether it lies ahead\<close>

definition brace_mate :: "scalar \<Rightarrow> (scalar \<times> bool) option" where
  "brace_mate ch =
     (if ch = ''('' then Some ('')'', True) else if ch = ''['' then Some ('']'', True)
      else if ch = ''{'' then Some (''}'', True) else if ch = '')'' then Some (''('', False)
      else if ch = '']'' then Some (''['', False) else if ch = ''}'' then Some (''{'', False) else None)"

fun brace_scan :: "review_document \<Rightarrow> scalar \<Rightarrow> scalar \<Rightarrow> nat \<Rightarrow> history_position list \<Rightarrow> history_position option" where
  "brace_scan d ch mate depth [] = None"
| "brace_scan d ch mate depth (q # qs) =
     (if cell_char d q = Some ch then brace_scan d ch mate (depth + 1) qs
      else if cell_char d q = Some mate then (if depth = 0 then Some q else brace_scan d ch mate (depth - 1) qs)
      else brace_scan d ch mate depth qs)"

definition brace_start :: "review_document \<Rightarrow> history_position \<Rightarrow> history_position option" where
  "brace_start d p =
     List.find (\<lambda>q. cell_char d q \<in> {Some ''('', Some '')'', Some ''['', Some '']'', Some ''{'', Some ''}''})
       (concat (map (\<lambda>r. map (at_pos r) [if r = hp_row p then hp_col p else 0..<dr_end (rd_rows d ! r)])
         (logical_line_range d (hp_row p))))"

definition matching_brace :: "review_document \<Rightarrow> history_position \<Rightarrow> history_position option" where
  "matching_brace d p =
     (case brace_start d p of
        None \<Rightarrow> None
      | Some start \<Rightarrow>
          (case cell_char d start of
             None \<Rightarrow> None
           | Some ch \<Rightarrow>
               (case brace_mate ch of
                  None \<Rightarrow> None
                | Some (mate, forward) \<Rightarrow>
                    (case position (\<lambda>v. v = start) (rd_positions d) of
                       None \<Rightarrow> None
                     | Some i \<Rightarrow>
                         if forward then brace_scan d ch mate 0 (drop (i + 1) (rd_positions d))
                         else brace_scan d ch mate 0 (rev (take i (rd_positions d)))))))"

section \<open>Prompts and searches\<close>

definition nth_found :: "history_position list \<Rightarrow> nat \<Rightarrow> history_position option" where
  "nth_found ps count = get_position ps (count - 1)"

definition prompt :: "review_document \<Rightarrow> history_position \<Rightarrow> bool \<Rightarrow> nat \<Rightarrow> history_position option" where
  "prompt d p forward count =
     (let ps = filter (\<lambda>q. if forward then p < q else q < p)
            (map sm_position (filter (\<lambda>m. sm_alternate_screen m = rd_alternate_screen d \<and> sm_kind m = PromptStart) (rd_marks d)));
          ps = (if forward then ps else rev ps)
      in map_option (clamp d) (nth_found ps count))"

definition position_for_offset :: "review_document \<Rightarrow> nat \<Rightarrow> history_position option" where
  "position_for_offset d offset =
     (if offset < length (rd_flat_positions d) then Some (rd_flat_positions d ! offset)
      else if rd_rows d = [] then None else Some (clamp d (at_pos (row_count d - 1) 0)))"

definition search_matches :: "(bytes \<Rightarrow> bytes \<Rightarrow> nat list option) \<Rightarrow> review_document \<Rightarrow> bytes \<Rightarrow> history_position list" where
  "search_matches find_starts d query =
     (case find_starts query (rd_flat_text d) of
        None \<Rightarrow> [] | Some starts \<Rightarrow> List.map_filter (position_for_offset d) starts)"

definition search_order :: "history_position list \<Rightarrow> history_position \<Rightarrow> search_direction \<Rightarrow> history_position list" where
  "search_order matches p direction =
     (case direction of
        SearchForward \<Rightarrow> filter (\<lambda>q. p < q) matches @ filter (\<lambda>q. q \<le> p) matches
      | SearchBackward \<Rightarrow> filter (\<lambda>q. q < p) (rev matches) @ filter (\<lambda>q. p \<le> q) (rev matches))"

definition search ::
  "(bytes \<Rightarrow> bytes \<Rightarrow> nat list option) \<Rightarrow> review_document \<Rightarrow> bytes \<Rightarrow> history_position \<Rightarrow> search_direction \<Rightarrow> nat \<Rightarrow>
   history_position option" where
  "search find_starts d query p direction count =
     (let ordered = search_order (search_matches find_starts d query) p direction in
      if ordered = [] then None else moved_from p (ordered ! ((count - 1) mod length ordered)))"

section \<open>Yanked text and word objects\<close>

definition yank_cols :: "review_document \<Rightarrow> history_position \<Rightarrow> history_position \<Rightarrow> nat \<Rightarrow> nat list" where
  "yank_cols d first_pos last_pos i =
     [if i = hp_row first_pos then hp_col first_pos else 0
      ..<min (if i = hp_row last_pos then sat_add16 (hp_col last_pos) 1 else dr_end (rd_rows d ! i)) (dr_end (rd_rows d ! i))]"

definition yank_step :: "review_document \<Rightarrow> history_position \<Rightarrow> history_position \<Rightarrow> bool \<Rightarrow> nat \<Rightarrow> bytes \<Rightarrow> bytes" where
  "yank_step d first_pos last_pos linewise i t =
     (let r = rd_rows d ! i;
          t = t @ concat (map (\<lambda>col. if dc_continuation (dr_cells r ! col) then [] else shown_text (dr_cells r ! col))
                (yank_cols d first_pos last_pos i));
          t = (if linewise \<or> i \<noteq> hp_row last_pos then trim_end_byte (CHR '' '') t else t)
      in if i \<noteq> hp_row last_pos \<and> \<not> dr_wrapped r then t @ [CHR 0x0A] else t)"

text \<open>The outer \<open>None\<close> is the panic of an index outside the rows or the cells\<close>

definition yank_range ::
  "review_document \<Rightarrow> history_position \<Rightarrow> history_position \<Rightarrow> bool \<Rightarrow> bytes option option" where
  "yank_range d p q linewise =
     (let (first_pos, last_pos) = (if p \<le> q then (p, q) else (q, p));
          first_pos = (if linewise then first_pos\<lparr>hp_col := 0\<rparr> else first_pos);
          last_pos = (if linewise then last_pos\<lparr>hp_col := line_last_col d (hp_row last_pos)\<rparr> else last_pos);
          is = upto_incl (hp_row first_pos) (hp_row last_pos)
      in if list_all (\<lambda>i. i < row_count d \<and>
              list_all (\<lambda>col. col < length (dr_cells (rd_rows d ! i))) (yank_cols d first_pos last_pos i)) is then
           let t = fold (yank_step d first_pos last_pos linewise) is [];
               t = (if linewise then t @ [CHR 0x0A] else t)
           in Some (if t = [] then None else Some t)
         else None)"

text \<open>The loop of \<^verbatim>\<open>inner_word_range\<close> over the words of the count\<close>

fun words_end :: "(scalar \<Rightarrow> bool) \<Rightarrow> review_document \<Rightarrow> word_style \<Rightarrow> nat \<Rightarrow> nat \<Rightarrow> nat \<Rightarrow> nat" where
  "words_end alnum d style class_here 0 e = e"
| "words_end alnum d style class_here (Suc n) e =
     (let ps = rd_positions d;
          e = scan_up (\<lambda>e. word_class alnum d style (ps ! (e + 1)) = class_here \<and>
                same_logical_line d (ps ! e) (ps ! (e + 1))) (length ps - 1) e
      in if n = 0 then e
         else let nx = scan_up (\<lambda>i. word_class alnum d style (ps ! i) = 0) (length ps) (e + 1)
              in if length ps \<le> nx then e else words_end alnum d style class_here n nx)"

definition inner_word_range ::
  "(scalar \<Rightarrow> bool) \<Rightarrow> review_document \<Rightarrow> history_position \<Rightarrow> word_style \<Rightarrow> bool \<Rightarrow> nat \<Rightarrow>
   (history_position \<times> history_position) option" where
  "inner_word_range alnum d p style around count =
     (let ps = rd_positions d; cls = (\<lambda>i. word_class alnum d style (ps ! i)) in
      case position (\<lambda>v. v = p) ps of
        None \<Rightarrow> None
      | Some index \<Rightarrow>
          let index = scan_up (\<lambda>i. cls i = 0) (length ps) index in
          if length ps \<le> index \<or> cls index = 0 then None
          else
            let start = scan_down (\<lambda>i. cls (i - 1) = cls index \<and> same_logical_line d (ps ! (i - 1)) (ps ! i)) index;
                e = words_end alnum d style (cls index) count index
            in if around then
                 let e' = scan_up (\<lambda>i. cls i = 0) (length ps) (e + 1) - 1;
                     start = (if e' = index then scan_down (\<lambda>i. cls (i - 1) = 0) start else start)
                 in Some (ps ! start, ps ! e')
               else Some (ps ! start, ps ! e))"

definition previous_position :: "review_document \<Rightarrow> history_position \<Rightarrow> history_position option" where
  "previous_position d p =
     (case position (\<lambda>v. v = p) (rd_positions d) of
        Some (Suc i) \<Rightarrow> get_position (rd_positions d) i | _ \<Rightarrow> None)"

section \<open>Rows as terminal output\<close>

definition write_color :: "color \<Rightarrow> bool \<Rightarrow> bytes" where
  "write_color c foreground =
     (let layer = (if foreground then ''38'' else ''48'') in
      case c of
        ColorDefault \<Rightarrow> []
      | ColorIndexed i \<Rightarrow> '';'' @ layer @ '';5;'' @ show_nat (unat i)
      | ColorRgb r g b \<Rightarrow> '';'' @ layer @ '';2;'' @ show_nat (unat r) @ '';'' @ show_nat (unat g) @ '';'' @ show_nat (unat b))"

definition write_style :: "style \<Rightarrow> bytes" where
  "write_style s =
     CHR 0x1B # ''[0'' @ (if st_bold s then '';1'' else []) @ (if st_dim s then '';2'' else []) @
     (if st_italic s then '';3'' else []) @ (if st_underline s \<noteq> UnderlineNone then '';4'' else []) @
     (if st_inverse s then '';7'' else []) @ write_color (st_foreground s) True @ write_color (st_background s) False @ ''m''"

fun format_cells :: "nat \<Rightarrow> nat \<Rightarrow> style \<Rightarrow> doc_cell list \<Rightarrow> bytes" where
  "format_cells first_col i current [] = []"
| "format_cells first_col i current (c # cs) =
     (if dc_continuation c then (if i = first_col then '' '' else []) @ format_cells first_col (Suc i) current cs
      else (if dc_style c \<noteq> current then write_style (dc_style c) else []) @ shown_text c @
        format_cells first_col (Suc i) (dc_style c) cs)"

definition formatted_row :: "review_document \<Rightarrow> nat \<Rightarrow> nat \<Rightarrow> nat \<Rightarrow> bytes" where
  "formatted_row d r first_col width =
     (if r < length (rd_rows d) then
        let skipped = min first_col (rd_capture_cols d) in
        format_cells first_col skipped style_default
          (take (min width (rd_capture_cols d - first_col)) (drop skipped (dr_cells (rd_rows d ! r))))
      else [])"

section \<open>Scanning loops\<close>

lemma scan_up_bounds: "i \<le> n \<Longrightarrow> i \<le> scan_up P n i \<and> scan_up P n i \<le> n"
  by (induction P n i rule: scan_up.induct) (subst (1 2) scan_up.simps, auto)

lemma scan_up_le: "i \<le> scan_up P n i"
  by (induction P n i rule: scan_up.induct) (subst scan_up.simps, auto)

lemma scan_up_passed: "i \<le> j \<Longrightarrow> j < scan_up P n i \<Longrightarrow> P j"
proof (induction P n i rule: scan_up.induct)
  case (1 P n i)
  then show ?case
    by (cases "i < n \<and> P i"; cases "j = i") (simp_all add: scan_up.simps [of P n i])
qed

lemma scan_up_stop: "scan_up P n i < n \<Longrightarrow> \<not> P (scan_up P n i)"
  by (induction P n i rule: scan_up.induct) (subst (asm) (1) scan_up.simps, subst scan_up.simps, auto split: if_splits)

lemma scan_down_le: "scan_down P i \<le> i"
  by (induction P i rule: scan_down.induct) auto

lemma scan_down_passed: "scan_down P i < j \<Longrightarrow> j \<le> i \<Longrightarrow> P j"
  by (induction P i rule: scan_down.induct) (auto split: if_splits simp: le_Suc_eq)

lemma scan_down_stop: "0 < scan_down P i \<Longrightarrow> \<not> P (scan_down P i)"
  by (induction P i rule: scan_down.induct) auto

section \<open>Documents\<close>

definition doc_row_ok :: "nat \<Rightarrow> doc_row \<Rightarrow> bool" where
  "doc_row_ok cols r \<longleftrightarrow> length (dr_cells r) = cols \<and> dr_end r \<le> cols \<and> \<not> dc_continuation (dr_cells r ! 0) \<and>
     list_all (\<lambda>c. dc_continuation c \<longrightarrow> dc_text c = []) (dr_cells r) \<and>
     list_all (\<lambda>c. dc_text c = []) (drop (dr_end r) (dr_cells r))"

definition document_ok :: "review_document \<Rightarrow> bool" where
  "document_ok d \<longleftrightarrow> 0 < rd_capture_cols d \<and> rd_capture_cols d \<le> u16_max \<and> length (rd_rows d) \<le> usize_max \<and>
     list_all (doc_row_ok (rd_capture_cols d)) (rd_rows d) \<and> build_search_text d = Some d"

definition addressable :: "review_document \<Rightarrow> history_position \<Rightarrow> bool" where
  "addressable d p \<longleftrightarrow> hp_row p < row_count d \<and> hp_col p < max (dr_end (rd_rows d ! hp_row p)) 1 \<and>
     \<not> is_continuation d (hp_row p) (hp_col p)"

lemma document_row:
  assumes "document_ok d" "i < row_count d"
  shows "doc_row_ok (rd_capture_cols d) (rd_rows d ! i)"
  using assms by (simp add: document_ok_def row_count_def list_all_length)

lemma continuation_cell:
  assumes "document_ok d" "i < row_count d" "c < rd_capture_cols d"
  shows "is_continuation d i c \<longleftrightarrow> dc_continuation (dr_cells (rd_rows d ! i) ! c)"
  using document_row [OF assms(1,2)] assms(2,3)
  by (simp add: is_continuation_def doc_cell_at_def doc_row_ok_def row_count_def)

lemma built_positions:
  assumes "document_ok d"
  shows "rd_positions d = concat (map (\<lambda>i. row_positions i (rd_rows d ! i)) [0..<row_count d])"
    and "rd_flat_text d = concat (map (\<lambda>i. map fst (row_flat i (rd_rows d ! i))) [0..<row_count d])"
    and "rd_flat_positions d = concat (map (\<lambda>i. map snd (row_flat i (rd_rows d ! i))) [0..<row_count d])"
proof -
  have b: "build_search_text d = Some d" using assms by (simp add: document_ok_def)
  show "rd_positions d = concat (map (\<lambda>i. row_positions i (rd_rows d ! i)) [0..<row_count d])"
    using arg_cong [OF b, of "map_option rd_positions"]
    by (simp add: build_search_text_def Let_def row_count_def split: if_splits)
  show "rd_flat_text d = concat (map (\<lambda>i. map fst (row_flat i (rd_rows d ! i))) [0..<row_count d])"
    using arg_cong [OF b, of "map_option rd_flat_text"]
    by (simp add: build_search_text_def Let_def row_count_def map_concat comp_def split: if_splits)
  show "rd_flat_positions d = concat (map (\<lambda>i. map snd (row_flat i (rd_rows d ! i))) [0..<row_count d])"
    using arg_cong [OF b, of "map_option rd_flat_positions"]
    by (simp add: build_search_text_def Let_def row_count_def map_concat comp_def split: if_splits)
qed

lemma addressable_iff: "document_ok d \<Longrightarrow> p \<in> set (rd_positions d) \<longleftrightarrow> addressable d p"
proof -
  assume d: "document_ok d"
  have c: "c < rd_capture_cols d" if "i < row_count d" "c < max (dr_end (rd_rows d ! i)) 1" for i c
    using document_row [OF d that(1)] that(2) d by (auto simp: doc_row_ok_def document_ok_def)
  show ?thesis
    by (cases p) (auto simp: built_positions [OF d] row_positions_def addressable_def continuation_cell [OF d _ c] intro!: bexI image_eqI)
qed

lemma row_positions_sorted: "sorted_wrt (<) (row_positions i r)"
  by (auto simp: row_positions_def sorted_wrt_map at_pos_less intro: sorted_wrt_filter [of "(<)" _ , simplified])

lemma sorted_wrt_concat_upt:
  assumes "\<And>i. i < n \<Longrightarrow> sorted_wrt R (f i)" "\<And>i j x y. i < j \<Longrightarrow> j < n \<Longrightarrow> x \<in> set (f i) \<Longrightarrow> y \<in> set (f j) \<Longrightarrow> R x y"
  shows "sorted_wrt R (concat (map f [0..<n]))"
  using assms by (induction n) (auto simp: sorted_wrt_append)

lemma positions_sorted: "document_ok d \<Longrightarrow> sorted_wrt (<) (rd_positions d)"
  unfolding built_positions(1)
  by (intro sorted_wrt_concat_upt row_positions_sorted) (auto simp: row_positions_def at_pos_less)

lemma positions_distinct: "document_ok d \<Longrightarrow> distinct (rd_positions d)"
  using positions_sorted strict_sorted_iff by blast

lemma position_index:
  assumes "distinct ps" "i < length ps"
  shows "position (\<lambda>v. v = ps ! i) ps = Some i"
  using assms by (auto simp: position_Some nth_eq_iff_index_eq)

lemma index_of_position: "position (\<lambda>v. v = p) ps = Some i \<longleftrightarrow> i < length ps \<and> ps ! i = p \<and> (\<forall>j < i. ps ! j \<noteq> p)"
  by (auto simp: position_Some)

section \<open>Columns\<close>

lemma row_in_range: "addressable d p \<Longrightarrow> hp_row p < row_count d"
  by (simp add: addressable_def)

lemma first_col_plain: "document_ok d \<Longrightarrow> i < row_count d \<Longrightarrow> \<not> is_continuation d i 0"
  using continuation_cell [of d i 0] document_row [of d i] by (simp add: doc_row_ok_def document_ok_def)

lemma scan_down_plain:
  assumes "document_ok d" "i < row_count d"
  shows "\<not> is_continuation d i (scan_down (is_continuation d i) c)"
  using scan_down_stop [of "is_continuation d i" c] first_col_plain [OF assms]
  by (cases "scan_down (is_continuation d i) c") auto

lemma addressable_col:
  assumes "i < row_count d" "c \<le> line_last_col d i" "\<not> is_continuation d i c"
  shows "addressable d (at_pos i c)"
  using assms by (auto simp: addressable_def line_last_col_def row_count_def)

lemma addressable_last: "addressable d p \<Longrightarrow> hp_col p \<le> line_last_col d (hp_row p)"
  by (auto simp: addressable_def line_last_col_def row_count_def)

lemma clamp_col_addressable:
  assumes "document_ok d" "i < row_count d"
  shows "addressable d (at_pos i (clamp_col d i c))"
  using addressable_col [OF assms(2) _ scan_down_plain [OF assms]] scan_down_le [of "is_continuation d i" "min c (line_last_col d i)"]
  by (simp add: clamp_col_def)

lemma clamp_addressable: "document_ok d \<Longrightarrow> rd_rows d \<noteq> [] \<Longrightarrow> addressable d (clamp d p)"
  using clamp_col_addressable [of d "min (hp_row p) (row_count d - 1)" "hp_col p"]
  by (cases "rd_rows d") (simp_all add: clamp_def Let_def row_count_def min_less_iff_disj)

lemma clamp_col_id:
  assumes "\<not> is_continuation d i c" "c \<le> line_last_col d i"
  shows "clamp_col d i c = c"
  using assms by (cases c) (simp_all add: clamp_col_def)

lemma clamp_id: "addressable d p \<Longrightarrow> clamp d p = p"
  using addressable_last [of d p] clamp_col_id [of d "hp_row p" "hp_col p"]
  by (cases p) (auto simp: clamp_def addressable_def Let_def)

section \<open>Every movement ends at an addressable position\<close>

lemma horizontal_loop_addressable:
  assumes "document_ok d"
  shows "addressable d p \<Longrightarrow> addressable d (horizontal_loop d forward n p)"
proof (induction n arbitrary: p)
  case (Suc n)
  show ?case
  proof (cases forward)
    case True
    define l where "l = line_last_col d (hp_row p)"
    define c where "c = scan_up (is_continuation d (hp_row p)) (Suc l) (hp_col p + 1)"
    have "addressable d (p\<lparr>hp_col := c\<rparr>)" if "c \<le> l"
      using addressable_col [of "hp_row p" d c] that row_in_range [OF Suc(2)]
        scan_up_stop [of "is_continuation d (hp_row p)" "Suc l" "hp_col p + 1"]
      by (cases p) (simp add: c_def l_def)
    then have "c \<le> l \<Longrightarrow> addressable d (horizontal_loop d forward n (p\<lparr>hp_col := c\<rparr>))" using Suc(1) by blast
    then show ?thesis using Suc(2) True
      unfolding horizontal_loop.simps l_def [symmetric] c_def [symmetric] Let_def by simp
  next
    case False
    define c where "c = scan_down (is_continuation d (hp_row p)) (hp_col p - 1)"
    have "c \<le> line_last_col d (hp_row p)"
      using scan_down_le [of "is_continuation d (hp_row p)" "hp_col p - 1"] addressable_last [OF Suc(2)] by (simp add: c_def)
    then have "addressable d (p\<lparr>hp_col := c\<rparr>)"
      using addressable_col [OF row_in_range [OF Suc(2)] _ scan_down_plain [OF assms row_in_range [OF Suc(2)]]]
      by (cases p) (simp add: c_def)
    then show ?thesis using Suc False unfolding horizontal_loop.simps c_def [symmetric] by simp
  qed
qed simp

lemma get_position_Some: "get_position ps i = Some q \<longleftrightarrow> i < length ps \<and> q = ps ! i"
  by (auto simp: get_position_def)

lemma moved_from_Some: "moved_from p q = Some r \<longleftrightarrow> r = q \<and> q \<noteq> p"
  by (auto simp: moved_from_def)

lemma nth_addressable: "document_ok d \<Longrightarrow> i < length (rd_positions d) \<Longrightarrow> addressable d (rd_positions d ! i)"
  using addressable_iff nth_mem by blast

lemma get_addressable: "document_ok d \<Longrightarrow> get_position (rd_positions d) i = Some q \<Longrightarrow> addressable d q"
  by (auto simp: get_position_Some nth_addressable)

lemma horizontal_addressable:
  "document_ok d \<Longrightarrow> addressable d p \<Longrightarrow> move_horizontal d p forward n = Some q \<Longrightarrow> addressable d q"
  by (auto simp: move_horizontal_def moved_from_Some horizontal_loop_addressable)

lemma vertical_addressable:
  "document_ok d \<Longrightarrow> addressable d p \<Longrightarrow> move_vertical d p down n = Some q \<Longrightarrow> addressable d q"
  using row_in_range [of d p]
  by (auto simp: move_vertical_def Let_def split: if_splits intro!: clamp_col_addressable)

lemma previous_word_start_index:
  assumes "previous_word_start alnum d style p = Some q"
  obtains i where "i < length (rd_positions d)" "q = rd_positions d ! i"
proof -
  obtain k where k: "position (\<lambda>v. v = p) (rd_positions d) = Some (Suc k)"
    using assms by (auto simp: previous_word_start_def Let_def split: option.splits nat.splits)
  then have len: "Suc k < length (rd_positions d)" by (simp add: index_of_position)
  obtain P Q where q: "q = rd_positions d ! scan_down P (scan_down Q k)"
    using assms k by (auto simp: previous_word_start_def Let_def)
  have "scan_down P (scan_down Q k) \<le> k" by (meson scan_down_le order_trans)
  with len have "scan_down P (scan_down Q k) < length (rd_positions d)" by simp
  then show thesis using that q by blast
qed

lemma word_step_addressable:
  assumes "document_ok d" "word_step alnum d movement style p = Some q"
  shows "addressable d q"
proof (cases movement)
  case BackwardStart
  then have "previous_word_start alnum d style p = Some q" using assms(2) by (simp add: word_step_def)
  then show ?thesis by (rule previous_word_start_index) (simp add: nth_addressable [OF assms(1)])
next
  case ForwardStart
  then show ?thesis using assms get_addressable [OF assms(1)]
    by (auto simp: word_step_def next_word_start_def Let_def split: option.splits)
next
  case ForwardEnd
  then show ?thesis using assms get_addressable [OF assms(1)]
    by (auto simp: word_step_def next_word_end_def Let_def split: option.splits if_splits)
qed

lemma word_addressable:
  assumes "document_ok d" "addressable d p" "move_word alnum d p movement style n = Some q"
  shows "addressable d q"
proof -
  have "addressable d r" if "word_loop alnum d movement style n p = Some r" for r
    using assms(2) that
    by (induction n arbitrary: p) (auto split: option.splits dest: word_step_addressable [OF assms(1)])
  then show ?thesis using assms(3) by (auto simp: move_word_def moved_from_Some bind_eq_Some_conv)
qed

lemma adjacent_addressable: "document_ok d \<Longrightarrow> adjacent d p forward = Some q \<Longrightarrow> addressable d q"
  using get_addressable [of d] by (auto simp: adjacent_def split: option.splits if_splits nat.splits)

lemma previous_addressable: "document_ok d \<Longrightarrow> previous_position d p = Some q \<Longrightarrow> addressable d q"
  using get_addressable [of d] by (auto simp: previous_position_def split: option.splits nat.splits)

lemma text_not_continuation:
  assumes "document_ok d" "i < row_count d" "cell_text d (at_pos i c) \<noteq> []" "c < dr_end (rd_rows d ! i)"
  shows "addressable d (at_pos i c)"
proof -
  have r: "doc_row_ok (rd_capture_cols d) (rd_rows d ! i)" by (rule document_row [OF assms(1,2)])
  then have c: "c < length (dr_cells (rd_rows d ! i))" using assms(4) by (simp add: doc_row_ok_def)
  then have "dc_text (dr_cells (rd_rows d ! i) ! c) \<noteq> []" using assms(2,3) by (simp add: cell_text_def doc_cell_at_def row_count_def)
  then have "\<not> dc_continuation (dr_cells (rd_rows d ! i) ! c)"
    using r c by (auto simp: doc_row_ok_def list_all_length)
  then show ?thesis using assms(2,4) c by (simp add: addressable_def is_continuation_def doc_cell_at_def row_count_def)
qed

lemma logical_line_rows:
  assumes "i \<in> set (logical_line_range d r)"
  shows "i < row_count d"
proof -
  have "scan_up P (row_count d) (min (saturating_add_usize r 1) (row_count d)) \<le> row_count d" for P
    using scan_up_bounds [of "min (saturating_add_usize r 1) (row_count d)" "row_count d" P] by simp
  then show ?thesis using assms by (auto simp: logical_line_range_def Let_def intro: less_le_trans)
qed

lemma character_matches_addressable:
  assumes "document_ok d" "target \<noteq> []" "q \<in> set (character_matches d p target forward)"
  shows "addressable d q"
proof -
  obtain i c where q: "q = at_pos i c" "i < row_count d" "c < dr_end (rd_rows d ! i)" "starts_with (cell_text d q) target"
    using assms(3) logical_line_rows by (auto simp: character_matches_def)
  then have "cell_text d q \<noteq> []" using assms(2) by (auto simp: starts_with_def)
  then show ?thesis using text_not_continuation [OF assms(1) q(2)] q by simp
qed

lemma find_addressable:
  assumes "document_ok d" "target \<noteq> []" "find_character d p target forward till n = Some q"
  shows "addressable d q"
proof -
  let ?ms = "if forward then character_matches d p target forward else rev (character_matches d p target forward)"
  obtain found where f: "get_position ?ms (n - 1) = Some found" "q = found \<or> (till \<and> adjacent d found (\<not> forward) = Some q)"
    using assms(3) by (auto simp: find_character_def Let_def moved_from_Some bind_eq_Some_conv split: option.splits if_splits)
  then have "found \<in> set ?ms" unfolding get_position_Some using nth_mem by blast
  then have "found \<in> set (character_matches d p target forward)" by (simp split: if_splits)
  then show ?thesis
    using f(2) character_matches_addressable [OF assms(1,2)] adjacent_addressable [OF assms(1)] by blast
qed

lemma brace_scan_in: "brace_scan d ch mate k qs = Some q \<Longrightarrow> q \<in> set qs \<and> cell_char d q = Some mate"
  by (induction qs arbitrary: k) (auto split: if_splits)

lemma brace_addressable:
  assumes "document_ok d" "matching_brace d p = Some q"
  shows "addressable d q"
proof -
  have "q \<in> set (rd_positions d)"
    using assms(2)
    by (auto simp: matching_brace_def split: option.splits prod.splits if_splits
        dest!: brace_scan_in dest: in_set_dropD in_set_takeD)
  then show ?thesis using addressable_iff [OF assms(1)] by simp
qed

lemma prompt_addressable:
  assumes "document_ok d" "rd_rows d \<noteq> []" "prompt d p forward n = Some q"
  shows "addressable d q"
  using assms by (auto simp: prompt_def Let_def clamp_addressable)

lemma flat_addressable:
  assumes "document_ok d" "q \<in> set (rd_flat_positions d)"
  shows "addressable d q"
proof -
  obtain i where i: "i < row_count d" "q \<in> snd ` set (row_flat i (rd_rows d ! i))"
    using assms(2) unfolding built_positions(3) [OF assms(1)] by (auto simp: image_iff) (metis snd_conv)
  note r = document_row [OF assms(1) i(1)]
  show ?thesis
  proof (cases "q = at_pos i 0")
    case True
    then show ?thesis using i(1) first_col_plain [OF assms(1) i(1)] by (simp add: addressable_def)
  next
    case False
    then obtain c where "q = at_pos i c" "c < dr_end (rd_rows d ! i)" "\<not> dc_continuation (dr_cells (rd_rows d ! i) ! c)"
      using i(2) by (auto simp: row_flat_def split: if_splits)
    moreover have "c < rd_capture_cols d" using r \<open>c < dr_end _\<close> by (simp add: doc_row_ok_def)
    ultimately show ?thesis using i(1) continuation_cell [OF assms(1) i(1)] by (simp add: addressable_def)
  qed
qed

lemma offset_addressable:
  assumes "document_ok d" "position_for_offset d k = Some q"
  shows "addressable d q"
  using assms flat_addressable [OF assms(1)] clamp_addressable [OF assms(1)]
  by (auto simp: position_for_offset_def split: if_splits)

lemma search_matches_addressable:
  "document_ok d \<Longrightarrow> q \<in> set (search_matches find_starts d query) \<Longrightarrow> addressable d q"
  by (auto simp: search_matches_def List.map_filter_def split: option.splits dest: offset_addressable)

lemma search_order_set: "set (search_order ms p direction) = set ms"
  by (auto simp: search_order_def split: search_direction.split)

lemma search_order_length: "length (search_order ms p direction) = length ms"
proof -
  have "length (filter P xs @ filter Q xs) = length xs" if "\<And>x. Q x \<longleftrightarrow> \<not> P x" for P Q and xs :: "history_position list"
    using sum_length_filter_compl [of P xs] filter_cong [of xs xs Q "\<lambda>x. \<not> P x"] that by simp
  then show ?thesis by (simp add: search_order_def not_less split: search_direction.split del: length_append)
qed

lemma search_addressable:
  assumes "document_ok d" "search find_starts d query p direction n = Some q"
  shows "addressable d q"
proof -
  have "q \<in> set (search_order (search_matches find_starts d query) p direction)"
    using assms(2) by (auto simp: search_def Let_def moved_from_Some split: if_splits)
  then show ?thesis using search_matches_addressable [OF assms(1)] by (simp add: search_order_set)
qed

section \<open>Captured documents are well-formed\<close>

text \<open>What the terminal engine keeps: no row starts inside a wide character, whose second cell is empty\<close>

definition wide_cells_ok :: "row \<Rightarrow> bool" where
  "wide_cells_ok r \<longleftrightarrow> (row_cells r \<noteq> [] \<longrightarrow> \<not> cell_continuation (hd (row_cells r))) \<and>
     list_all (\<lambda>c. cell_continuation c \<longrightarrow> cell_grapheme c = []) (row_cells r)"

definition capturable :: "terminal_snapshot \<Rightarrow> nat \<Rightarrow> bool" where
  "capturable s cols \<longleftrightarrow> 0 < cols \<and> cols \<le> u16_max \<and> list_all wide_cells_ok (ts_scrollback s @ ts_rows s) \<and>
     ts_scrollback s @ ts_rows s \<noteq> [] \<and> length (ts_scrollback s @ ts_rows s) < usize_max"

lemma last_used_bounds:
  assumes "n \<le> u16_max"
  shows "fold (\<lambda>col e. if P col then sat_add16 col (Suc 0) else e) [0..<n] 0 \<le> n \<and>
    (\<forall>i < n. fold (\<lambda>col e. if P col then sat_add16 col (Suc 0) else e) [0..<n] 0 \<le> i \<longrightarrow> \<not> P i)"
  using assms
proof (induction n)
  case (Suc n)
  then have "sat_add16 n (Suc 0) = Suc n" by (simp add: sat_add16_def)
  then show ?case using Suc by (cases "P n") (auto simp: less_Suc_eq)
qed simp

lemma capture_row_ok:
  assumes "wide_cells_ok r" "0 < cols" "cols \<le> u16_max"
  shows "doc_row_ok cols (capture_row cols r)"
proof -
  have c: "dc_continuation (capture_cell r i) \<longrightarrow> dc_text (capture_cell r i) = []" for i
    using assms(1) by (auto simp: capture_cell_def wide_cells_ok_def list_all_length)
  have "\<not> dc_continuation (capture_cell r 0)"
    using assms(1) by (auto simp: capture_cell_def wide_cells_ok_def hd_conv_nth)
  moreover define cells where "cells = map (capture_cell r) [0..<cols]"
  moreover define used where "used = fold (\<lambda>col e. if dc_text (cells ! col) \<noteq> [] \<or> dc_continuation (cells ! col)
      then sat_add16 col (Suc 0) else e) [0..<cols] 0"
  moreover have "used \<le> cols \<and> (\<forall>i < cols. used \<le> i \<longrightarrow> dc_text (cells ! i) = [])"
    using last_used_bounds [OF assms(3), of "\<lambda>col. dc_text (cells ! col) \<noteq> [] \<or> dc_continuation (cells ! col)"]
    unfolding used_def by blast
  moreover have "capture_row cols r = \<lparr>dr_cells = cells, dr_wrapped = row_wrapped r, dr_end = (if row_wrapped r then cols else used)\<rparr>"
    by (simp add: capture_row_def Let_def cells_def used_def)
  ultimately show ?thesis
    using assms(2) c by (simp add: doc_row_ok_def list_all_length)
qed

lemma built_row: "build_search_text d = Some e \<Longrightarrow> build_search_text e = Some e \<and> rd_rows e = rd_rows d \<and>
    rd_capture_cols e = rd_capture_cols d \<and> rd_marks e = rd_marks d \<and> rd_alternate_screen e = rd_alternate_screen d"
  by (auto simp: build_search_text_def Let_def split: if_splits)

lemma from_snapshot_ok:
  assumes "capturable s cols"
  obtains d where "from_snapshot s cols = Some d" "document_ok d" "rd_capture_cols d = cols"
    "rd_rows d = map (capture_row cols) (ts_scrollback s @ ts_rows s)"
proof -
  define raw where "raw = \<lparr>rd_rows = map (capture_row cols) (ts_scrollback s @ ts_rows s),
       rd_marks = ts_semantic_marks s, rd_capture_cols = cols,
       rd_alternate_screen = (ts_screen s = AlternateScreen),
       rd_flat_text = [], rd_flat_positions = [], rd_positions = []\<rparr>"
  have cols: "0 < cols" using assms by (simp add: capturable_def)
  have ok: "list_all (doc_row_ok cols) (rd_rows raw)"
    using assms capture_row_ok [of _ cols] by (auto simp: raw_def capturable_def list_all_iff)
  then have "\<not> (\<exists>r \<in> set (rd_rows raw). length (dr_cells r) < max (dr_end r) 1)"
    using cols by (auto simp: doc_row_ok_def list_all_iff max_def)
  then obtain d where d: "build_search_text raw = Some d" by (auto simp: build_search_text_def Let_def)
  note b = built_row [OF d]
  have "document_ok d"
    using assms ok b by (auto simp: document_ok_def capturable_def) (simp_all add: raw_def)
  moreover have "from_snapshot s cols = Some d" using d by (simp add: from_snapshot_def raw_def)
  ultimately show thesis using that b by (simp add: raw_def)
qed

section \<open>Ranges of text\<close>

lemma yank_range_total:
  assumes "document_ok d" "hp_row p < row_count d" "hp_row q < row_count d"
  shows "yank_range d p q linewise \<noteq> None"
proof -
  define a where "a = (if p \<le> q then p else q)"
  define b where "b = (if p \<le> q then q else p)"
  define a' where "a' = (if linewise then a\<lparr>hp_col := 0\<rparr> else a)"
  define b' where "b' = (if linewise then b\<lparr>hp_col := line_last_col d (hp_row b)\<rparr> else b)"
  have rows: "i < row_count d" if "i \<in> set (upto_incl (hp_row a') (hp_row b'))" for i
    using that assms(2,3) by (auto simp: upto_incl_def a'_def b'_def a_def b_def split: if_splits)
  moreover have "col < length (dr_cells (rd_rows d ! i))"
    if "i \<in> set (upto_incl (hp_row a') (hp_row b'))" "col \<in> set (yank_cols d a' b' i)" for i col
    using document_row [OF assms(1) rows [OF that(1)]] that(2) by (auto simp: yank_cols_def doc_row_ok_def)
  moreover have "(if p \<le> q then (p, q) else (q, p)) = (a, b)" by (simp add: a_def b_def)
  ultimately show ?thesis
    by (simp add: yank_range_def Let_def list_all_iff flip: a'_def b'_def)
qed

lemma scan_up_less: "scan_up P n i \<noteq> i \<Longrightarrow> scan_up P n i \<le> n"
  by (induction P n i rule: scan_up.induct) (metis Suc_leI scan_up.simps)

lemma words_end_less:
  "e < length (rd_positions d) \<Longrightarrow> words_end alnum d style k n e < length (rd_positions d)"
proof (induction n arbitrary: e)
  case (Suc n)
  let ?Q = "\<lambda>e. word_class alnum d style (rd_positions d ! (e + 1)) = k \<and>
      same_logical_line d (rd_positions d ! e) (rd_positions d ! (e + 1))"
  have "scan_up ?Q (length (rd_positions d) - 1) e < length (rd_positions d)"
    using scan_up_bounds [of e "length (rd_positions d) - 1" ?Q] Suc.prems by linarith
  then show ?case using Suc.IH by (simp add: Let_def)
qed simp

lemma inner_word_range_addressable:
  assumes "document_ok d" "inner_word_range alnum d p style around n = Some (a, b)"
  shows "addressable d a \<and> addressable d b"
proof -
  let ?ps = "rd_positions d"
  let ?z = "\<lambda>i. word_class alnum d style (?ps ! i) = 0"
  obtain i0 where i0: "position (\<lambda>v. v = p) ?ps = Some i0"
    using assms(2) by (auto simp: inner_word_range_def Let_def split: option.splits)
  define i where "i = scan_up ?z (length ?ps) i0"
  have i: "i < length ?ps"
    using assms(2) i0 by (auto simp: inner_word_range_def Let_def i_def split: if_splits)
  define start where "start = scan_down (\<lambda>j. word_class alnum d style (?ps ! (j - 1)) = word_class alnum d style (?ps ! i) \<and>
      same_logical_line d (?ps ! (j - 1)) (?ps ! j)) i"
  define e where "e = words_end alnum d style (word_class alnum d style (?ps ! i)) n i"
  have bounds: "start < length ?ps" "e < length ?ps"
    using i scan_down_le [of _ i] words_end_less [OF i] le_less_trans unfolding start_def e_def by blast+
  define e' where "e' = scan_up ?z (length ?ps) (e + 1) - 1"
  define start' where "start' = scan_down (\<lambda>j. ?z (j - 1)) start"
  have "e' < length ?ps"
    using scan_up_bounds [of "e + 1" "length ?ps" ?z] bounds(2) unfolding e'_def by linarith
  moreover have "start' < length ?ps"
    using scan_down_le bounds(1) le_less_trans unfolding start'_def by blast
  moreover have "inner_word_range alnum d p style around n =
      (if length ?ps \<le> i \<or> ?z i then None
       else if around then Some (?ps ! (if e' = i then start' else start), ?ps ! e') else Some (?ps ! start, ?ps ! e))"
    unfolding inner_word_range_def Let_def i0 option.case
    unfolding i_def [symmetric] unfolding start_def [symmetric] e_def [symmetric]
    unfolding e'_def [symmetric] start'_def [symmetric] ..
  ultimately show ?thesis
    using assms(2) nth_addressable [OF assms(1)] bounds by (simp split: if_splits)
qed

lemma first_nonblank_addressable:
  assumes "document_ok d" "i < row_count d"
  shows "addressable d (at_pos i (line_first_nonblank d i))"
proof -
  let ?cs = "take (dr_end (rd_rows d ! i)) (dr_cells (rd_rows d ! i))"
  note r = document_row [OF assms]
  have cols: "rd_capture_cols d \<le> u16_max" using assms(1) by (simp add: document_ok_def)
  show ?thesis
  proof (cases "position (\<lambda>c. \<not> blank (dc_text c) \<and> dc_text c \<noteq> []) ?cs")
    case None
    then have "line_first_nonblank d i = 0" by (simp add: line_first_nonblank_def)
    then show ?thesis using assms(2) first_col_plain [OF assms] by (simp add: addressable_def)
  next
    case (Some k)
    then have k: "k < dr_end (rd_rows d ! i)" "k < length (dr_cells (rd_rows d ! i))" "dc_text (dr_cells (rd_rows d ! i) ! k) \<noteq> []"
      by (auto simp: position_Some)
    then have "line_first_nonblank d i = k"
      using Some assms(2) r cols by (simp add: line_first_nonblank_def row_count_def wrap16_def doc_row_ok_def u16_max_def)
    then show ?thesis
      using text_not_continuation [OF assms, of k] k assms(2) by (simp add: cell_text_def doc_cell_at_def row_count_def)
  qed
qed

section \<open>Matching braces\<close>

text \<open>How deep a scan stands after the characters of a list: opened braces minus closed ones\<close>

definition brace_depth :: "review_document \<Rightarrow> scalar \<Rightarrow> scalar \<Rightarrow> history_position list \<Rightarrow> int" where
  "brace_depth d ch mate qs =
     int (length (filter (\<lambda>q. cell_char d q = Some ch) qs)) - int (length (filter (\<lambda>q. cell_char d q = Some mate) qs))"

lemma brace_depth_simps [simp]:
  "brace_depth d ch mate [] = 0"
  "brace_depth d ch mate (qs @ rs) = brace_depth d ch mate qs + brace_depth d ch mate rs"
  "brace_depth d ch mate (rev qs) = brace_depth d ch mate qs"
  by (simp_all add: brace_depth_def rev_filter [symmetric])

lemma brace_depth_Cons:
  "brace_depth d ch mate (q # qs) =
     (if cell_char d q = Some ch then 1 else 0) - (if cell_char d q = Some mate then 1 else 0) + brace_depth d ch mate qs"
  by (simp add: brace_depth_def)

lemma brace_depth_swap: "brace_depth d mate ch qs = - brace_depth d ch mate qs"
  by (simp add: brace_depth_def)

text \<open>The scan stops at the first mate that is not matched by a brace on the way\<close>

definition closes_first :: "review_document \<Rightarrow> scalar \<Rightarrow> scalar \<Rightarrow> nat \<Rightarrow> history_position list \<Rightarrow> bool" where
  "closes_first d ch mate k us \<longleftrightarrow> int k + brace_depth d ch mate us = 0 \<and>
     (\<forall>xs ys. us = xs @ ys \<longrightarrow> 0 \<le> int k + brace_depth d ch mate xs)"

lemma closes_first_Nil: "closes_first d ch mate k [] \<longleftrightarrow> k = 0"
  by (auto simp: closes_first_def)

lemma closes_first_Cons:
  "closes_first d ch mate k (r # us) \<longleftrightarrow>
     int k + brace_depth d ch mate (r # us) = 0 \<and>
     (\<forall>xs ys. us = xs @ ys \<longrightarrow> 0 \<le> int k + brace_depth d ch mate (r # xs))"
  by (auto simp: closes_first_def Cons_eq_append_conv)

lemma brace_scan_split:
  assumes "ch \<noteq> mate" "brace_scan d ch mate k qs = Some q"
  shows "\<exists>us vs. qs = us @ q # vs \<and> cell_char d q = Some mate \<and> closes_first d ch mate k us"
  using assms(2)
proof (induction qs arbitrary: k)
  case (Cons r qs)
  have add: "\<exists>us vs. r # qs = us @ q # vs \<and> cell_char d q = Some mate \<and> closes_first d ch mate k us"
    if ex: "\<exists>us vs. qs = us @ q # vs \<and> cell_char d q = Some mate \<and> closes_first d ch mate k' us"
      and eq: "int k' = int k + (if cell_char d r = Some ch then 1 else 0) - (if cell_char d r = Some mate then 1 else 0)" for k'
  proof -
    obtain us vs where u: "qs = us @ q # vs" "cell_char d q = Some mate" "closes_first d ch mate k' us"
      using ex by blast
    have "int k + brace_depth d ch mate (r # xs) = int k' + brace_depth d ch mate xs" for xs
      using eq by (simp add: brace_depth_Cons)
    then have "closes_first d ch mate k (r # us)" using u(3) by (simp add: closes_first_Cons) (simp add: closes_first_def)
    then show ?thesis using u by (intro exI [of _ "r # us"] exI [of _ vs]) simp
  qed
  consider "cell_char d r = Some ch" | "cell_char d r = Some mate" "k = 0" | "cell_char d r = Some mate" "0 < k"
    | "cell_char d r \<noteq> Some ch" "cell_char d r \<noteq> Some mate" by fastforce
  then show ?case
  proof cases
    case 1
    then show ?thesis using Cons assms(1) by (intro add [of "k + 1"]) simp_all
  next
    case 2
    then show ?thesis using Cons assms(1) by (intro exI [of _ "[]"] exI [of _ qs]) (simp add: closes_first_Nil)
  next
    case 3
    then show ?thesis using Cons assms(1) by (intro add [of "k - 1"]) (simp_all add: of_nat_diff)
  next
    case 4
    then show ?thesis using Cons by (intro add [of k]) simp_all
  qed
qed simp

lemma brace_scan_found:
  assumes "ch \<noteq> mate" "cell_char d q = Some mate" "closes_first d ch mate k us"
  shows "brace_scan d ch mate k (us @ q # vs) = Some q"
  using assms(3)
proof (induction us arbitrary: k)
  case Nil
  then show ?case using assms(1,2) by (simp add: closes_first_Nil)
next
  case (Cons r us)
  have pos: "0 \<le> int k + brace_depth d ch mate [r]" using Cons.prems by (simp add: closes_first_Cons)
  define k' where "k' = nat (int k + brace_depth d ch mate [r])"
  then have "int k' = int k + brace_depth d ch mate [r]" using pos by simp
  then have "int k + brace_depth d ch mate (r # xs) = int k' + brace_depth d ch mate xs" for xs
    by (simp add: brace_depth_Cons)
  then have "closes_first d ch mate k' us" using Cons.prems by (simp add: closes_first_Cons) (simp add: closes_first_def)
  from Cons.IH [OF this] show ?case
    using assms(1) pos by (auto simp: k'_def brace_depth_Cons nat_add_distrib nat_diff_distrib)
qed

text \<open>Read backwards from the mate, the same text closes first at the brace\<close>

lemma closes_first_rev:
  assumes "closes_first d ch mate 0 us"
  shows "closes_first d mate ch 0 (rev us)"
proof -
  have "0 \<le> brace_depth d mate ch xs" if "rev us = xs @ ys" for xs ys
  proof -
    have "us = rev ys @ rev xs" using that by (metis rev_append rev_rev_ident)
    then have "0 \<le> int 0 + brace_depth d ch mate (rev ys)" "int 0 + brace_depth d ch mate (rev ys @ rev xs) = 0"
      using assms unfolding closes_first_def by blast+
    then have "0 \<le> brace_depth d ch mate ys" "brace_depth d ch mate ys + brace_depth d ch mate xs = 0" by simp_all
    then show ?thesis by (simp add: brace_depth_swap [of d mate])
  qed
  then show ?thesis using assms by (simp add: closes_first_def brace_depth_swap [of d mate])
qed

definition brace_chars :: "scalar set" where
  "brace_chars = {''('', '')'', ''['', '']'', ''{'', ''}''}"

lemma brace_mate_swap: "brace_mate ch = Some (mate, forward) \<Longrightarrow> brace_mate mate = Some (ch, \<not> forward) \<and> ch \<noteq> mate \<and>
    ch \<in> brace_chars \<and> mate \<in> brace_chars"
  by (auto simp: brace_mate_def brace_chars_def split: if_splits)

text \<open>A row that does not continue a soft-wrapped line\<close>

definition starts_line :: "review_document \<Rightarrow> nat \<Rightarrow> bool" where
  "starts_line d r \<longleftrightarrow> r = 0 \<or> \<not> dr_wrapped (rd_rows d ! (r - 1))"

lemma first_of_line:
  assumes "document_ok d" "starts_line d r" "r < row_count d"
  shows "\<exists>rs. logical_line_range d r = r # rs"
proof -
  have "r < usize_max" using assms(1,3) by (simp add: document_ok_def row_count_def)
  then have s: "saturating_add_usize r (Suc 0) = Suc r" by (simp add: saturating_add_usize_def)
  have "scan_down (\<lambda>i. dr_wrapped (rd_rows d ! (i - 1))) r = r"
    using assms(2) by (cases r) (simp_all add: starts_line_def)
  moreover have "min r (row_count d - 1) = r" "min (Suc r) (row_count d) = Suc r" using assms(3) by auto
  moreover have "r < scan_up (\<lambda>i. dr_wrapped (rd_rows d ! (i - 1))) (row_count d) (Suc r)"
    using scan_up_le [of "Suc r"] by (meson Suc_le_lessD)
  ultimately show ?thesis by (simp add: logical_line_range_def Let_def s upt_conv_Cons)
qed

lemma text_before_end:
  assumes "document_ok d" "addressable d q" "cell_text d q \<noteq> []"
  shows "hp_col q < dr_end (rd_rows d ! hp_row q)"
proof (rule ccontr)
  assume n: "\<not> ?thesis"
  let ?r = "rd_rows d ! hp_row q"
  have r: "doc_row_ok (rd_capture_cols d) ?r" using document_row [OF assms(1)] assms(2) by (simp add: addressable_def)
  have c: "hp_col q < length (dr_cells ?r)"
    using assms(2,3) by (auto simp: cell_text_def doc_cell_at_def split: if_splits)
  have "hp_col q - dr_end ?r < length (drop (dr_end ?r) (dr_cells ?r))" using c n by simp
  then have "dc_text (drop (dr_end ?r) (dr_cells ?r) ! (hp_col q - dr_end ?r)) = []"
    using r by (simp only: doc_row_ok_def list_all_length)
  then show False
    using assms(2,3) c n by (simp add: cell_text_def doc_cell_at_def addressable_def row_count_def)
qed

lemma brace_start_self:
  assumes "document_ok d" "starts_line d (hp_row q)" "addressable d q" "cell_char d q = Some ch" "ch \<in> brace_chars"
  shows "brace_start d q = Some q"
proof -
  have "cell_text d q \<noteq> []" using assms(4) by (auto simp: cell_char_def)
  then have c: "hp_col q < dr_end (rd_rows d ! hp_row q)" by (rule text_before_end [OF assms(1,3)])
  obtain rs where "logical_line_range d (hp_row q) = hp_row q # rs"
    using assms(3) first_of_line [OF assms(1,2)] by (auto simp: addressable_def)
  then show ?thesis using c assms(4,5) by (cases q) (simp add: brace_start_def brace_chars_def upt_conv_Cons)
qed

lemma brace_start_at:
  assumes "document_ok d" "brace_start d p = Some s"
  shows "s \<in> set (rd_positions d) \<and> (\<exists>ch \<in> brace_chars. cell_char d s = Some ch)"
proof -
  have f: "cell_char d s \<in> {Some ''('', Some '')'', Some ''['', Some '']'', Some ''{'', Some ''}''}"
    "\<exists>i \<in> set (logical_line_range d (hp_row p)). hp_row s = i \<and> hp_col s < dr_end (rd_rows d ! i)"
    using assms(2) by (auto simp: brace_start_def find_Some_iff dest!: nth_mem)
  then have "cell_text d s \<noteq> []" by (auto simp: cell_char_def)
  moreover have s: "at_pos (hp_row s) (hp_col s) = s" by (cases s) simp
  ultimately have "addressable d s"
    using text_not_continuation [OF assms(1), of "hp_row s" "hp_col s", unfolded s] f(2)
      logical_line_rows [of "hp_row s" d "hp_row p"] by blast
  then show ?thesis using f(1) addressable_iff [OF assms(1)] by (auto simp: brace_chars_def)
qed

text \<open>The positions around a brace and its mate, in document order, with the text between them\<close>

definition brace_pair ::
  "review_document \<Rightarrow> scalar \<Rightarrow> scalar \<Rightarrow> history_position \<Rightarrow> history_position \<Rightarrow> history_position list \<Rightarrow> bool" where
  "brace_pair d lb rb a b us \<longleftrightarrow> brace_mate lb = Some (rb, True) \<and> cell_char d a = Some lb \<and>
     cell_char d b = Some rb \<and> closes_first d lb rb 0 us \<and>
     (\<exists>xs vs. rd_positions d = xs @ a # us @ b # vs)"

lemma brace_pair_found:
  assumes "document_ok d" "brace_pair d lb rb a b us"
  shows "brace_start d p = Some a \<Longrightarrow> matching_brace d p = Some b"
    and "brace_start d p = Some b \<Longrightarrow> matching_brace d p = Some a"
proof -
  obtain xs vs where ps: "rd_positions d = xs @ a # us @ b # vs" using assms(2) by (auto simp: brace_pair_def)
  have m: "brace_mate lb = Some (rb, True)" "brace_mate rb = Some (lb, False)" "lb \<noteq> rb"
    and c: "cell_char d a = Some lb" "cell_char d b = Some rb" "closes_first d lb rb 0 us"
    using assms(2) brace_mate_swap [of lb rb True] by (auto simp: brace_pair_def)
  have "position (\<lambda>v. v = a) (rd_positions d) = Some (length xs)"
    using position_index [OF positions_distinct [OF assms(1)], of "length xs"] by (simp add: ps)
  moreover have "drop (length xs + 1) (rd_positions d) = us @ b # vs" by (simp add: ps)
  ultimately show "matching_brace d p = Some b" if "brace_start d p = Some a"
    using that m c brace_scan_found [OF m(3) c(2,3)] by (simp add: matching_brace_def)
  have "position (\<lambda>v. v = b) (rd_positions d) = Some (length xs + 1 + length us)"
    using position_index [OF positions_distinct [OF assms(1)], of "length xs + 1 + length us"] by (simp add: ps nth_append)
  moreover have "rev (take (length xs + 1 + length us) (rd_positions d)) = rev us @ a # rev xs" by (simp add: ps)
  ultimately show "matching_brace d p = Some a" if "brace_start d p = Some b"
    using that m c brace_scan_found [OF m(3) [symmetric] c(1) closes_first_rev [OF c(3)]] by (simp add: matching_brace_def)
qed

lemma matching_brace_pair:
  assumes "document_ok d" "matching_brace d p = Some q"
  obtains s lb rb us where "brace_start d p = Some s"
    "brace_pair d lb rb s q us \<or> brace_pair d lb rb q s us"
proof -
  obtain s ch mate forward i where s: "brace_start d p = Some s" "cell_char d s = Some ch" "brace_mate ch = Some (mate, forward)"
    "position (\<lambda>v. v = s) (rd_positions d) = Some i"
    "(if forward then brace_scan d ch mate 0 (drop (i + 1) (rd_positions d))
      else brace_scan d ch mate 0 (rev (take i (rd_positions d)))) = Some q"
    using assms(2) by (auto simp: matching_brace_def split: option.splits prod.splits)
  have i: "i < length (rd_positions d)" "rd_positions d ! i = s" using s(4) by (auto simp: index_of_position)
  note m = brace_mate_swap [OF s(3)]
  show thesis
  proof (cases forward)
    case True
    then obtain us vs where "drop (i + 1) (rd_positions d) = us @ q # vs" "cell_char d q = Some mate" "closes_first d ch mate 0 us"
      using s(5) brace_scan_split [of ch mate d 0 "drop (i + 1) (rd_positions d)" q] m by (auto simp del: drop_drop)
    moreover have "rd_positions d = take i (rd_positions d) @ s # drop (i + 1) (rd_positions d)"
      using id_take_nth_drop [OF i(1)] i(2) by simp
    ultimately have "brace_pair d ch mate s q us" using s True unfolding brace_pair_def by metis
    then show thesis using that s(1) by blast
  next
    case False
    then obtain us vs where u: "rev (take i (rd_positions d)) = us @ q # vs" "cell_char d q = Some mate" "closes_first d ch mate 0 us"
      using s(5) brace_scan_split [of ch mate d 0 "rev (take i (rd_positions d))" q] m by auto
    then have "take i (rd_positions d) = rev vs @ q # rev us" by (metis append.assoc append_Cons append_Nil rev.simps(2) rev_append rev_rev_ident)
    then have "rd_positions d = rev vs @ q # rev us @ s # drop (i + 1) (rd_positions d)"
      using id_take_nth_drop [OF i(1)] i(2) by simp
    then have "brace_pair d mate ch q s (rev us)"
      using s u False m closes_first_rev [OF u(3)] unfolding brace_pair_def by auto
    then show thesis using that s(1) by blast
  qed
qed

text \<open>
  C25: In every document captured from a snapshot, soft-wrapped or not, brace matching finds the true
  partner: the brace that the search starts from and the one it returns open and close each other,
  every prefix of the text between them holds at least as many opening as closing braces and the whole
  of it as many. When the partner stands in a row that does not continue a soft-wrapped line, the
  partner of the partner is the brace again; in a continuation row that may fail, because the
  search then starts at the beginning of the line (\<open>brace_start_before_cursor\<close> below).
\<close>

theorem brace_matching_involutive:
  assumes "from_snapshot s cols = Some d" "capturable s cols" "matching_brace d p = Some q"
  shows "\<exists>b us lb rb. brace_start d p = Some b \<and>
    (brace_pair d lb rb b q us \<or> brace_pair d lb rb q b us) \<and>
    (starts_line d (hp_row q) \<longrightarrow> matching_brace d q = Some b)"
proof -
  have d: "document_ok d" using from_snapshot_ok [OF assms(2)] assms(1) by (metis option.inject)
  from matching_brace_pair [OF d assms(3)] obtain b lb rb us where b: "brace_start d p = Some b"
    "brace_pair d lb rb b q us \<or> brace_pair d lb rb q b us" by blast
  then have "cell_char d q = Some lb \<or> cell_char d q = Some rb" "lb \<in> brace_chars" "rb \<in> brace_chars"
    using brace_mate_swap [of lb rb True] by (auto simp: brace_pair_def)
  moreover have "addressable d q" by (rule brace_addressable [OF d assms(3)])
  ultimately have "brace_start d q = Some q" if "starts_line d (hp_row q)" using brace_start_self [OF d that] by blast
  then have "matching_brace d q = Some b" if "starts_line d (hp_row q)" using brace_pair_found [OF d] b(2) that by blast
  then show ?thesis using b by blast
qed

section \<open>Small documents\<close>

definition text_row :: "bool \<Rightarrow> bytes \<Rightarrow> row" where
  "text_row wrapped t = \<lparr>row_cells = map (\<lambda>c. cell_default\<lparr>cell_grapheme := [c]\<rparr>) t, row_wrapped = wrapped\<rparr>"

definition text_doc_row :: "bool \<Rightarrow> bytes \<Rightarrow> doc_row" where
  "text_doc_row wrapped t =
     \<lparr>dr_cells = map (\<lambda>c. \<lparr>dc_text = [c], dc_continuation = False, dc_style = style_default\<rparr>) t, dr_wrapped = wrapped,
      dr_end = length t\<rparr>"

lemma capture_text_row:
  assumes "length t = cols" "cols \<le> u16_max"
  shows "capture_row cols (text_row w t) = text_doc_row w t"
proof -
  have c: "capture_cell (text_row w t) i = \<lparr>dc_text = [t ! i], dc_continuation = False, dc_style = style_default\<rparr>" if "i < cols" for i
    using that assms(1) by (simp add: capture_cell_def text_row_def cell_default_def)
  have cells: "map (capture_cell (text_row w t)) [0..<cols] = dr_cells (text_doc_row w t)"
    using c assms(1) by (auto simp: text_doc_row_def intro: nth_equalityI)
  have "fold (\<lambda>col e. if dc_text (dr_cells (text_doc_row w t) ! col) \<noteq> [] \<or>
      dc_continuation (dr_cells (text_doc_row w t) ! col) then sat_add16 col 1 else e) [0..<n] 0 = n" if "n \<le> cols" for n
    using that assms by (induction n) (simp_all add: text_doc_row_def sat_add16_def)
  note used = this [OF order_refl]
  show ?thesis
    unfolding capture_row_def Let_def cells used by (simp add: text_doc_row_def text_row_def assms)
qed

definition rows_document :: "(bool \<times> bytes) list \<Rightarrow> nat \<Rightarrow> review_document" where
  "rows_document rows cols = the (from_snapshot (example_snapshot (map (\<lambda>(w, t). text_row w t) rows)) cols)"

lemma rows_document_eq:
  assumes "0 < cols" "cols \<le> u16_max" "\<forall>r \<in> set rows. length (snd r) = cols"
  shows "from_snapshot (example_snapshot (map (\<lambda>(w, t). text_row w t) rows)) cols = Some (rows_document rows cols)"
    "rd_rows (rows_document rows cols) = map (\<lambda>(w, t). text_doc_row w t) rows"
    "rd_positions (rows_document rows cols) = concat (map (\<lambda>i. map (at_pos i) [0..<cols]) [0..<length rows])"
proof -
  let ?s = "example_snapshot (map (\<lambda>(w, t). text_row w t) rows)"
  have r: "map (capture_row cols) (ts_scrollback ?s @ ts_rows ?s) = map (\<lambda>(w, t). text_doc_row w t) rows"
    using assms(2,3) by (auto simp: example_snapshot_def capture_text_row)
  have len: "\<not> (\<exists>r \<in> set (map (\<lambda>(w, t). text_doc_row w t) rows). length (dr_cells r) < max (dr_end r) 1)"
    using assms(1,3) by (auto simp: text_doc_row_def max_def)
  have row: "row_positions i (map (\<lambda>(w, t). text_doc_row w t) rows ! i) = map (at_pos i) [0..<cols]" if "i < length rows" for i
  proof -
    have "filter (\<lambda>col. \<not> dc_continuation (map (\<lambda>c. \<lparr>dc_text = [c], dc_continuation = False, dc_style = style_default\<rparr>) t ! col))
        [0..<length t] = [0..<length t]" for t
      by (rule filter_True) simp
    moreover have "length (snd (rows ! i)) = cols" using that assms(3) by simp
    ultimately show ?thesis using that assms(1)
      by (cases "rows ! i") (simp add: row_positions_def max_absorb1 Suc_leI text_doc_row_def)
  qed
  have "\<exists>d. from_snapshot ?s cols = Some d \<and> rd_rows d = map (\<lambda>(w, t). text_doc_row w t) rows \<and>
      rd_positions d = concat (map (\<lambda>i. map (at_pos i) [0..<cols]) [0..<length rows])"
    unfolding from_snapshot_def r build_search_text_def Let_def
    using len row by (simp, intro arg_cong [where f = concat] map_cong) simp_all
  then show "from_snapshot ?s cols = Some (rows_document rows cols)"
    "rd_rows (rows_document rows cols) = map (\<lambda>(w, t). text_doc_row w t) rows"
    "rd_positions (rows_document rows cols) = concat (map (\<lambda>i. map (at_pos i) [0..<cols]) [0..<length rows])"
    by (auto simp: rows_document_def)
qed

lemma upt_small: "[0..<2] = [0, 1::nat]" "[0..<3] = [0, 1, 2::nat]" "[0..<4] = [0, 1, 2, 3::nat]"
  by code_simp+

lemma capturable_rows:
  "0 < cols \<Longrightarrow> cols \<le> u16_max \<Longrightarrow> rows \<noteq> [] \<Longrightarrow> length rows < usize_max \<Longrightarrow>
   capturable (example_snapshot (map (\<lambda>(w, t). text_row w t) rows)) cols"
  by (auto simp: capturable_def example_snapshot_def wide_cells_ok_def text_row_def cell_default_def list_all_iff hd_map)

lemma loop_numeral:
  "scan_down P (numeral k) = (if P (numeral k) then scan_down P (pred_numeral k) else numeral k)"
  "words_end alnum d style cl (numeral k) e = words_end alnum d style cl (Suc (pred_numeral k)) e"
  by (simp_all only: numeral_eq_Suc scan_down.simps)

lemmas document_eval = loop_numeral logical_line_range_def row_count_def Let_def saturating_add_usize_def usize_max_def scan_up.simps
  text_doc_row_def cell_text_def cell_char_def doc_cell_at_def utf8_char_len_def byte_val_def upt_small upto_incl_def
  char_is_whitespace_def whitespace_chars_def encode_utf8_def char_of_def bit_0 word_class_def same_logical_line_def

definition brace_document :: review_document where
  "brace_document = rows_document [(False, ''f(a)'')] 4"

lemma brace_document:
  "from_snapshot (example_snapshot [text_row False ''f(a)'']) 4 = Some brace_document"
  "rd_rows brace_document = [text_doc_row False ''f(a)'']"
  "rd_positions brace_document = [at_pos 0 0, at_pos 0 1, at_pos 0 2, at_pos 0 3]"
  using rows_document_eq [of 4 "[(False, ''f(a)'')]"]
  by (simp_all add: brace_document_def u16_max_def upt_small)

theorem brace_matching_involutive_witness:
  "matching_brace brace_document (at_pos 0 3) = Some (at_pos 0 1)"
proof -
  have m: "brace_start brace_document (at_pos 0 0) = Some (at_pos 0 1)"
    "matching_brace brace_document (at_pos 0 0) = Some (at_pos 0 3)"
    by (simp_all add: document_eval brace_document brace_start_def matching_brace_def brace_mate_def)
  have "capturable (example_snapshot [text_row False ''f(a)'']) 4"
    using capturable_rows [of 4 "[(False, ''f(a)'')]"] by (simp add: u16_max_def usize_max_def)
  moreover have "starts_line brace_document (hp_row (at_pos 0 3))" by (simp add: starts_line_def)
  ultimately show ?thesis
    using brace_matching_involutive [OF brace_document(1) _ m(2)] m(1) by auto
qed

section \<open>Where soft wraps, counts and the column of the cursor go wrong\<close>

text \<open>On a wrapped line the brace that the search starts from can lie before the cursor\<close>

lemma brace_start_before_cursor:
  "brace_start (rows_document [(True, ''(a''), (False, ''b)'')] 2) (at_pos 1 0) = Some (at_pos 0 0)"
  using rows_document_eq [of 2 "[(True, ''(a''), (False, ''b)'')]"]
  by (simp add: u16_max_def document_eval brace_start_def)

text \<open>Yanking across a soft wrap loses the space at the end of the row\<close>

lemma yank_drops_wrapped_space:
  "yank_range (rows_document [(True, ''a ''), (False, ''bc'')] 2) (at_pos 0 0) (at_pos 1 1) False = Some (Some ''abc'')"
  using rows_document_eq [of 2 "[(True, ''a ''), (False, ''bc'')]"]
  by (simp add: u16_max_def document_eval yank_range_def yank_step_def yank_cols_def at_pos_le sat_add16_def shown_text_def
      trim_end_byte_def)

text \<open>A count of two words ends inside the second one when its class differs\<close>

definition words_document :: review_document where
  "words_document = rows_document [(False, ''a ++'')] 4"

lemma word_range_splits_word:
  "inner_word_range (\<lambda>ch. ch \<noteq> ''+'') words_document (at_pos 0 0) StyleWord False 2 = Some (at_pos 0 0, at_pos 0 2)"
proof -
  let ?wc = "word_class (\<lambda>ch. ch \<noteq> ''+'') words_document StyleWord"
  have d: "rd_rows words_document = [text_doc_row False ''a ++'']"
    "rd_positions words_document = [at_pos 0 0, at_pos 0 (Suc 0), at_pos 0 2, at_pos 0 3]"
    using rows_document_eq [of 4 "[(False, ''a ++'')]"] by (simp_all add: words_document_def u16_max_def upt_small)
  have "?wc (at_pos 0 0) = 1" "?wc (at_pos 0 (Suc 0)) = 0" "?wc (at_pos 0 2) = 2" "?wc (at_pos 0 3) = 2"
    by (simp_all add: d document_eval)
  then show ?thesis
    by (simp add: d scan_up.simps loop_numeral same_logical_line_def inner_word_range_def Let_def)
qed

text \<open>Around the same word, the range depends on where in the word the cursor stands\<close>

lemma around_word_depends_on_column:
  fixes d defines "d \<equiv> rows_document [(False, ''a bc'')] 4"
  shows "inner_word_range (\<lambda>ch. True) d (at_pos 0 2) StyleWord True 1 = Some (at_pos 0 2, at_pos 0 3) \<and>
    inner_word_range (\<lambda>ch. True) d (at_pos 0 3) StyleWord True 1 = Some (at_pos 0 1, at_pos 0 3)"
proof -
  let ?wc = "word_class (\<lambda>ch. True) d StyleWord"
  have d: "rd_rows d = [text_doc_row False ''a bc'']"
    "rd_positions d = [at_pos 0 0, at_pos 0 (Suc 0), at_pos 0 2, at_pos 0 3]"
    using rows_document_eq [of 4 "[(False, ''a bc'')]"] by (simp_all add: d_def u16_max_def upt_small)
  have "?wc (at_pos 0 0) = 1" "?wc (at_pos 0 (Suc 0)) = 0" "?wc (at_pos 0 2) = 1" "?wc (at_pos 0 3) = 1"
    by (simp_all add: d document_eval)
  then show ?thesis
    by (simp add: d scan_up.simps loop_numeral same_logical_line_def inner_word_range_def Let_def)
qed

end
