(* ===== verification/Review_View.thy ===== *)
theory Review_View
  imports Review_Document Key_Input
begin

text \<open>
  The review overlay (\<^verbatim>\<open>views/review.rs\<close>): the state machine that runs the parsed commands on
  the frozen document, with the cursor, the viewport, visual mode, finds, searches and yanks.
  What belongs to other crates or to the screen reader is the parameter record \<open>review_env\<close>;
  the calls made on the screen reader are logged in the state.
\<close>

section \<open>State\<close>

record last_find =
  lf_direction :: find_direction
  lf_till :: bool
  lf_target :: scalar
  lf_matched :: history_position

record last_search =
  ls_query :: bytes
  ls_direction :: search_direction

record search_prompt =
  sp_query :: bytes
  sp_direction :: search_direction

datatype reader_call = CallSpeak bytes | CallWriteClipboard clipboard_register bytes

record review_view =
  rv_document :: review_document
  rv_parser :: review_parser
  rv_cursor :: history_position
  rv_viewport_top :: nat
  rv_viewport_left :: nat
  rv_rows :: nat
  rv_cols :: nat
  rv_visual_anchor :: "history_position option"
  rv_visual_kind :: visual_kind
  rv_last_find :: "last_find option"
  rv_last_search :: "last_search option"
  rv_search_prompt :: "search_prompt option"
  rv_rendered :: bytes
  rv_calls :: "reader_call list"

text \<open>The variants of \<^verbatim>\<open>ViewAction\<close> that the overlay returns, and what can go wrong\<close>

datatype review_action = ActNone | ActBell | ActPop | ActRedraw

datatype review_error = ReviewPanic | ReaderError bytes

text \<open>
  Unicode tables and segmentation, the regex engine, and the answers of the screen reader to
  the calls made on it
\<close>

record review_env =
  env_alnum :: "scalar \<Rightarrow> bool"
  env_graphemes :: "bytes \<Rightarrow> bytes list"
  env_find_starts :: "bytes \<Rightarrow> bytes \<Rightarrow> nat list option"
  env_default_register :: clipboard_register
  env_speak :: "bytes \<Rightarrow> (unit, bytes) result"
  env_write_clipboard :: "clipboard_register \<Rightarrow> bytes \<Rightarrow> (unit, bytes) result"

type_synonym review_outcome = "(review_action, review_error) result \<times> review_view"

section \<open>The viewport\<close>

definition document_height :: "review_view \<Rightarrow> nat" where
  "document_height v = rv_rows v - (if rv_search_prompt v \<noteq> None then 1 else 0)"

definition ensure_cursor_visible :: "review_view \<Rightarrow> review_view" where
  "ensure_cursor_visible v =
     (let height = max (document_height v) 1;
          r = hp_row (rv_cursor v); c = hp_col (rv_cursor v);
          top_row = (if r < rv_viewport_top v then r
                 else if saturating_add_usize (rv_viewport_top v) height \<le> r
                 then saturating_add_usize r 1 - height else rv_viewport_top v);
          top_row = min top_row (row_count (rv_document v) - 1);
          width = max (rv_cols v) 1;
          left = (if c < rv_viewport_left v then c
                  else if sat_add16 (rv_viewport_left v) width \<le> c then sat_add16 c 1 - width
                  else rv_viewport_left v);
          left = min left (max_viewport_left (rv_document v) width)
      in v\<lparr>rv_viewport_top := top_row, rv_viewport_left := left\<rparr>)"

definition csi :: "bytes \<Rightarrow> bytes" where
  "csi t = CHR 0x1B # ''['' @ t"

text \<open>The rows that are shown, up to the end of the document\<close>

definition rendered_rows :: "review_view \<Rightarrow> bytes" where
  "rendered_rows v =
     concat (map (\<lambda>i. csi (show_nat (saturating_add_usize i 1) @ '';1H'') @
         formatted_row (rv_document v) (saturating_add_usize (rv_viewport_top v) i) (rv_viewport_left v) (rv_cols v) @ csi ''0m'')
       (takeWhile (\<lambda>i. saturating_add_usize (rv_viewport_top v) i < row_count (rv_document v)) [0..<document_height v]))"

definition rendered_cursor :: "review_env \<Rightarrow> review_view \<Rightarrow> bytes" where
  "rendered_cursor env v =
     (case rv_search_prompt v of
        Some sp \<Rightarrow>
          let r = max (rv_rows v) 1;
              c = min (saturating_add_usize 2 (length (env_graphemes env (sp_query sp)))) (max (rv_cols v) 1)
          in csi (show_nat r @ '';1H'') @ csi ''2K'' @ (case sp_direction sp of SearchForward \<Rightarrow> ''/'' | SearchBackward \<Rightarrow> ''?'') @
             sp_query sp @ csi (show_nat r @ '';'' @ show_nat c @ ''H'') @ csi ''?25h''
      | None \<Rightarrow>
          let r = min (saturating_add_usize (hp_row (rv_cursor v) - rv_viewport_top v) 1) (max (rv_rows v) 1);
              c = min (saturating_add_usize (hp_col (rv_cursor v) - rv_viewport_left v) 1) (max (rv_cols v) 1)
          in csi (show_nat r @ '';'' @ show_nat c @ ''H'') @ csi ''?25h'')"

definition render :: "review_env \<Rightarrow> review_view \<Rightarrow> review_view" where
  "render env v =
     (let v = ensure_cursor_visible v
      in v\<lparr>rv_rendered := csi ''2J'' @ csi ''H'' @ rendered_rows v @ rendered_cursor env v\<rparr>)"

definition move_to :: "review_env \<Rightarrow> history_position \<Rightarrow> review_view \<Rightarrow> review_outcome" where
  "move_to env target v = (Ok ActRedraw, render env (v\<lparr>rv_cursor := clamp (rv_document v) target\<rparr>))"

text \<open>
  \<^verbatim>\<open>new\<close>: capturing the view, with its size, its review cursor, the length of its history and
  how far it is scrolled back
\<close>

definition review_new ::
  "review_env \<Rightarrow> terminal_snapshot \<Rightarrow> nat \<Rightarrow> nat \<Rightarrow> history_position \<Rightarrow> nat \<Rightarrow> nat \<Rightarrow> review_view option" where
  "review_new env s rows cols initial history_len scrollback =
     (case from_snapshot s cols of
        None \<Rightarrow> None
      | Some d \<Rightarrow>
          Some (render env (ensure_cursor_visible
            \<lparr>rv_document = d, rv_parser = parser_default, rv_cursor = clamp d initial,
             rv_viewport_top = min (history_len - scrollback) (max_viewport_top d rows), rv_viewport_left = 0,
             rv_rows = rows, rv_cols = cols, rv_visual_anchor = None, rv_visual_kind = VisualCharacter,
             rv_last_find = None, rv_last_search = None, rv_search_prompt = None, rv_rendered = [], rv_calls = []\<rparr>)))"

section \<open>The search prompt\<close>

definition finish_search :: "review_env \<Rightarrow> review_view \<Rightarrow> review_outcome" where
  "finish_search env v =
     (case rv_search_prompt v of
        None \<Rightarrow> (Err ReviewPanic, v)
      | Some sp \<Rightarrow>
          (case (if sp_query sp = [] then map_option ls_query (rv_last_search v) else Some (sp_query sp)) of
             None \<Rightarrow> (Ok ActBell, v)
           | Some query \<Rightarrow>
               (case search (env_find_starts env) (rv_document v) query (rv_cursor v) (sp_direction sp) 1 of
                  None \<Rightarrow> (Ok ActBell, v)
                | Some target \<Rightarrow>
                    move_to env target (v\<lparr>rv_last_search := Some \<lparr>ls_query = query, ls_direction = sp_direction sp\<rparr>,
                      rv_search_prompt := None\<rparr>))))"

text \<open>\<^verbatim>\<open>char::is_control\<close> on the UTF-8 bytes of a character\<close>

definition scalar_is_control :: "scalar \<Rightarrow> bool" where
  "scalar_is_control ch \<longleftrightarrow>
     (case ch of
        [c] \<Rightarrow> is_ascii_control c
      | [c, d] \<Rightarrow> byte_val c = 0xC2 \<and> byte_in 0x80 0x9F d
      | _ \<Rightarrow> False)"

definition set_query :: "review_env \<Rightarrow> search_prompt \<Rightarrow> bytes \<Rightarrow> review_view \<Rightarrow> review_outcome" where
  "set_query env sp query v = (Ok ActRedraw, render env (v\<lparr>rv_search_prompt := Some (sp\<lparr>sp_query := query\<rparr>)\<rparr>))"

definition handle_search_key :: "review_env \<Rightarrow> review_key \<Rightarrow> review_view \<Rightarrow> review_outcome" where
  "handle_search_key env key v =
     (case rv_search_prompt v of
        None \<Rightarrow> (Err ReviewPanic, v)
      | Some sp \<Rightarrow>
          (case key of
             KEscape \<Rightarrow> (Ok ActRedraw, render env (v\<lparr>rv_search_prompt := None\<rparr>))
           | KBackspace \<Rightarrow>
               if env_graphemes env (sp_query sp) = [] then (Ok ActBell, v)
               else set_query env sp (concat (butlast (env_graphemes env (sp_query sp)))) v
           | KCtrl ch \<Rightarrow>
               if ch = ''u'' then (if sp_query sp = [] then (Ok ActBell, v) else set_query env sp [] v) else (Ok ActBell, v)
           | KEnter \<Rightarrow> finish_search env v
           | KChar ch \<Rightarrow> if \<not> scalar_is_control ch then set_query env sp (sp_query sp @ ch) v else (Ok ActBell, v)
           | _ \<Rightarrow> (Ok ActBell, v)))"

section \<open>Targets of motions\<close>

fun brace_loop :: "review_document \<Rightarrow> nat \<Rightarrow> history_position \<Rightarrow> history_position option" where
  "brace_loop d 0 p = Some p"
| "brace_loop d (Suc n) p = (case matching_brace d p of None \<Rightarrow> None | Some q \<Rightarrow> brace_loop d n q)"

definition find_target :: "review_view \<Rightarrow> find_direction \<Rightarrow> bool \<Rightarrow> scalar \<Rightarrow> nat \<Rightarrow> history_position option \<times> review_view" where
  "find_target v direction till target count =
     (let forward = (direction = FindForward) in
      case find_character (rv_document v) (rv_cursor v) target forward False count of
        None \<Rightarrow> (None, v)
      | Some matched \<Rightarrow>
          (case (if till then adjacent (rv_document v) matched (\<not> forward) else Some matched) of
             None \<Rightarrow> (None, v)
           | Some destination \<Rightarrow>
               if destination = rv_cursor v then (None, v)
               else (Some destination, v\<lparr>rv_last_find :=
                  Some \<lparr>lf_direction = direction, lf_till = till, lf_target = target, lf_matched = matched\<rparr>\<rparr>)))"

definition repeat_find_target :: "review_view \<Rightarrow> bool \<Rightarrow> nat \<Rightarrow> history_position option \<times> review_view" where
  "repeat_find_target v reverse count =
     (case rv_last_find v of
        None \<Rightarrow> (None, v)
      | Some f \<Rightarrow>
          let forward = ((lf_direction f = FindForward) \<noteq> reverse);
              start = (if reverse then rv_cursor v else lf_matched f)
          in case find_character (rv_document v) start (lf_target f) forward False count of
               None \<Rightarrow> (None, v)
             | Some matched \<Rightarrow>
                 (case (if lf_till f then adjacent (rv_document v) matched (\<not> forward) else Some matched) of
                    None \<Rightarrow> (None, v)
                  | Some destination \<Rightarrow>
                      if destination = rv_cursor v then (None, v)
                      else (Some destination, v\<lparr>rv_last_find := Some (f\<lparr>lf_matched := matched\<rparr>)\<rparr>)))"

definition first_nonblank_of :: "review_document \<Rightarrow> nat \<Rightarrow> history_position" where
  "first_nonblank_of d r = at_pos r (line_first_nonblank d r)"

definition motion_target :: "review_env \<Rightarrow> motion \<Rightarrow> nat \<Rightarrow> review_view \<Rightarrow> history_position option \<times> review_view" where
  "motion_target env m count v =
     (let d = rv_document v; p = rv_cursor v in
      case m of
        MLeft \<Rightarrow> (move_horizontal d p False count, v)
      | MRight \<Rightarrow> (move_horizontal d p True count, v)
      | MUp \<Rightarrow> (move_vertical d p False count, v)
      | MDown \<Rightarrow> (move_vertical d p True count, v)
      | MLineStart \<Rightarrow> (moved_from p (p\<lparr>hp_col := 0\<rparr>), v)
      | MFirstNonblank \<Rightarrow> (moved_from p (first_nonblank_of d (hp_row p)), v)
      | MLineEnd \<Rightarrow> (moved_from p (p\<lparr>hp_col := line_last_col d (hp_row p)\<rparr>), v)
      | MWord movement style \<Rightarrow> (move_word (env_alnum env) d p movement style count, v)
      | MDocumentStart \<Rightarrow> (moved_from p (first_nonblank_of d (min (count - 1) (row_count d - 1))), v)
      | MDocumentEnd \<Rightarrow>
          (moved_from p (first_nonblank_of d (if count = 1 then row_count d - 1 else min (count - 1) (row_count d - 1))), v)
      | MMatchingBrace \<Rightarrow> (Option.bind (brace_loop d count p) (moved_from p), v)
      | MFind direction till target \<Rightarrow> find_target v direction till target count
      | MRepeatFind reverse \<Rightarrow> repeat_find_target v reverse count
      | MPrompt forward \<Rightarrow> (prompt d p forward count, v))"

section \<open>Scrolling\<close>

definition scroll_page :: "review_env \<Rightarrow> bool \<Rightarrow> nat \<Rightarrow> review_view \<Rightarrow> review_outcome" where
  "scroll_page env forward count v =
     (let distance = saturating_mul_usize (max (document_height v) 1) count;
          max_top = max_viewport_top (rv_document v) (document_height v);
          target_top = (if forward then min (saturating_add_usize (rv_viewport_top v) distance) max_top
                        else rv_viewport_top v - distance);
          target = move_vertical (rv_document v) (rv_cursor v) forward distance
      in if target_top = rv_viewport_top v \<and> target = None then (Ok ActBell, v)
         else
           let v = v\<lparr>rv_viewport_top := target_top\<rparr>;
               v = (case target of Some p \<Rightarrow> v\<lparr>rv_cursor := clamp (rv_document v) p\<rparr> | None \<Rightarrow> v)
           in (Ok ActRedraw, render env v))"

definition reposition_viewport ::
  "review_env \<Rightarrow> viewport_placement \<Rightarrow> nat option \<Rightarrow> bool \<Rightarrow> review_view \<Rightarrow> review_outcome" where
  "reposition_viewport env placement line first_nonblank v =
     (let d = rv_document v;
          p = (case line of
                 Some n \<Rightarrow> clamp d ((rv_cursor v)\<lparr>hp_row := min (n - 1) (row_count d - 1)\<rparr>) | None \<Rightarrow> rv_cursor v);
          p = (if first_nonblank then p\<lparr>hp_col := line_first_nonblank d (hp_row p)\<rparr> else p);
          height = max (document_height v) 1;
          top_row = (case placement of
                   PlaceTop \<Rightarrow> hp_row p | PlaceCenter \<Rightarrow> hp_row p - height div 2 | PlaceBottom \<Rightarrow> hp_row p - (height - 1))
      in (Ok ActRedraw, render env (v\<lparr>rv_cursor := p, rv_viewport_top := top_row\<rparr>)))"

section \<open>Yanking\<close>

definition linewise_motion :: "motion \<Rightarrow> bool" where
  "linewise_motion m \<longleftrightarrow> m \<in> {MUp, MDown, MDocumentStart, MDocumentEnd}"

definition exclusive_motion :: "motion \<Rightarrow> bool" where
  "exclusive_motion m \<longleftrightarrow>
     (case m of
        MLeft \<Rightarrow> True | MRight \<Rightarrow> True | MLineStart \<Rightarrow> True | MFirstNonblank \<Rightarrow> True
      | MWord movement style \<Rightarrow> movement = ForwardStart \<or> movement = BackwardStart
      | MPrompt forward \<Rightarrow> True | _ \<Rightarrow> False)"

text \<open>As in \<^const>\<open>yank_range\<close>, the outer \<open>None\<close> is a panic\<close>

definition yank_motion_text :: "review_view \<Rightarrow> motion \<Rightarrow> history_position \<Rightarrow> bytes option option" where
  "yank_motion_text v m target =
     (let d = rv_document v; p = rv_cursor v in
      if linewise_motion m then yank_range d p target True
      else if \<not> exclusive_motion m then yank_range d p target False
      else if p < target then
        (case previous_position d target of None \<Rightarrow> Some None | Some q \<Rightarrow> yank_range d p q False)
      else (case previous_position d p of None \<Rightarrow> Some None | Some q \<Rightarrow> yank_range d target q False))"

definition log_call :: "reader_call \<Rightarrow> review_view \<Rightarrow> review_view" where
  "log_call c v = v\<lparr>rv_calls := rv_calls v @ [c]\<rparr>"

text \<open>\<^verbatim>\<open>sr.speak(t, false)?\<close> and then the rest of the function\<close>

definition speak_then :: "review_env \<Rightarrow> bytes \<Rightarrow> (review_view \<Rightarrow> review_outcome) \<Rightarrow> review_view \<Rightarrow> review_outcome" where
  "speak_then env t k v =
     (let v = log_call (CallSpeak t) v in
      case env_speak env t of Err e \<Rightarrow> (Err (ReaderError e), v) | Ok _ \<Rightarrow> k v)"

definition yank_text :: "review_env \<Rightarrow> clipboard_register option \<Rightarrow> bytes \<Rightarrow> review_view \<Rightarrow> review_outcome" where
  "yank_text env register t v =
     (let r = (case register of Some r \<Rightarrow> r | None \<Rightarrow> env_default_register env);
          v = log_call (CallWriteClipboard r t) v
      in case env_write_clipboard env r t of
           Err e \<Rightarrow> speak_then env e (\<lambda>v. (Ok ActBell, v)) v
         | Ok _ \<Rightarrow> speak_then env ''copied'' (\<lambda>v. (Ok ActNone, v\<lparr>rv_visual_anchor := None\<rparr>)) v)"

definition yank_or_bell ::
  "review_env \<Rightarrow> clipboard_register option \<Rightarrow> bytes option option \<Rightarrow> review_view \<Rightarrow> review_outcome" where
  "yank_or_bell env register t v =
     (case t of
        None \<Rightarrow> (Err ReviewPanic, v)
      | Some None \<Rightarrow> (Ok ActBell, v)
      | Some (Some t) \<Rightarrow> yank_text env register t v)"

section \<open>Commands\<close>

definition move_command :: "review_env \<Rightarrow> motion \<Rightarrow> nat \<Rightarrow> review_view \<Rightarrow> review_outcome" where
  "move_command env m count v =
     (let (target, v) = motion_target env m count v in
      case target of None \<Rightarrow> (Ok ActBell, v) | Some p \<Rightarrow> move_to env p v)"

definition handle_command :: "review_env \<Rightarrow> review_command \<Rightarrow> review_view \<Rightarrow> review_outcome" where
  "handle_command env command v =
     (let d = rv_document v; p = rv_cursor v in
      case command of
        CNone \<Rightarrow> (Ok ActNone, v)
      | CBell \<Rightarrow> (Ok ActBell, v)
      | CExit \<Rightarrow> (Ok ActPop, v)
      | CStartVisual kind \<Rightarrow>
          speak_then env (case kind of VisualCharacter \<Rightarrow> ''visual'' | VisualLine \<Rightarrow> ''visual line'')
            (\<lambda>v. (Ok ActNone, v)) (v\<lparr>rv_visual_anchor := Some p, rv_visual_kind := kind\<rparr>)
      | CCancelVisual \<Rightarrow>
          speak_then env ''visual cancelled'' (\<lambda>v. (Ok ActNone, v)) (v\<lparr>rv_visual_anchor := None\<rparr>)
      | CMove m count \<Rightarrow> move_command env m count v
      | CMoveVisual m count \<Rightarrow> move_command env m count v
      | CScrollPage forward count \<Rightarrow> scroll_page env forward count v
      | CRepositionViewport placement line first_nonblank \<Rightarrow> reposition_viewport env placement line first_nonblank v
      | CYankMotion m count register \<Rightarrow>
          let (target, v) = motion_target env m count v in
          (case target of
             None \<Rightarrow> (Ok ActBell, v)
           | Some q \<Rightarrow> yank_or_bell env register (yank_motion_text v m q) v)
      | CYankLine count register \<Rightarrow>
          let last_row = min (saturating_add_usize (hp_row p) (count - 1)) (row_count d - 1)
          in yank_or_bell env register (yank_range d p (at_pos last_row (line_last_col d last_row)) True) v
      | CYankTextObject obj count register \<Rightarrow>
          (case obj of ObjWord style around \<Rightarrow>
             (case inner_word_range (env_alnum env) d p style around count of
                None \<Rightarrow> (Ok ActBell, v)
              | Some (first_pos, last_pos) \<Rightarrow> yank_or_bell env register (yank_range d first_pos last_pos False) v))
      | CYankVisual register \<Rightarrow>
          (case rv_visual_anchor v of
             None \<Rightarrow> (Ok ActBell, v)
           | Some anchor \<Rightarrow>
               yank_or_bell env register (yank_range d anchor p (rv_visual_kind v = VisualLine)) (v\<lparr>rv_visual_anchor := None\<rparr>))
      | CStartSearch direction \<Rightarrow>
          (Ok ActRedraw, render env (v\<lparr>rv_search_prompt := Some \<lparr>sp_query = [], sp_direction = direction\<rparr>\<rparr>))
      | CRepeatSearch reverse count \<Rightarrow>
          (case rv_last_search v of
             None \<Rightarrow> (Ok ActBell, v)
           | Some ls \<Rightarrow>
               (case search (env_find_starts env) d (ls_query ls) p
                       (if reverse then reverse_direction (ls_direction ls) else ls_direction ls) count of
                  None \<Rightarrow> (Ok ActBell, v)
                | Some target \<Rightarrow> move_to env target v)))"

definition handle_review_key :: "review_env \<Rightarrow> review_key \<Rightarrow> review_view \<Rightarrow> review_outcome" where
  "handle_review_key env key v =
     (if rv_search_prompt v \<noteq> None then handle_search_key env key v
      else let (command, parser) = feed key (rv_parser v) in handle_command env command (v\<lparr>rv_parser := parser\<rparr>))"

fun handle_keys :: "review_env \<Rightarrow> review_action \<Rightarrow> review_key list \<Rightarrow> review_view \<Rightarrow> review_outcome" where
  "handle_keys env r [] v = (Ok r, v)"
| "handle_keys env r (k # ks) v =
     (case handle_review_key env k v of
        (Err e, v) \<Rightarrow> (Err e, v)
      | (Ok action, v) \<Rightarrow>
          (case action of
             ActPop \<Rightarrow> (Ok action, v)
           | ActBell \<Rightarrow> (Ok action, v)
           | ActRedraw \<Rightarrow> handle_keys env ActRedraw ks v
           | ActNone \<Rightarrow> handle_keys env r ks v))"

section \<open>Input\<close>

definition raw_key :: "byte \<Rightarrow> review_key" where
  "raw_key b =
     (let n = byte_val b in
      if n = 0x1B then KEscape
      else if n = 0x0D \<or> n = 0x0A then KEnter
      else if n = 0x08 \<or> n = 0x7F then KBackspace
      else if n = 0x02 then KCtrl ''b''
      else if n = 0x04 then KCtrl ''d''
      else if n = 0x06 then KCtrl ''f''
      else if n = 0x15 then KCtrl ''u''
      else if is_ascii b \<and> \<not> is_ascii_control b then KChar [b]
      else KUnknown)"

definition semantic_key :: "(key_event \<Rightarrow> key_event) \<Rightarrow> key_input \<Rightarrow> review_key" where
  "semantic_key normalize_case k =
     (let event = normalized_event normalize_case k; m = ev_modifiers event in
      case control_code normalize_case k of
        Some code \<Rightarrow>
          let n = byte_val code in
          if n = 0x1B then KEscape else if n = 0x02 then KCtrl ''b'' else if n = 0x04 then KCtrl ''d''
          else if n = 0x06 then KCtrl ''f'' else if n = 0x15 then KCtrl ''u'' else KUnknown
      | None \<Rightarrow>
          if mod_ctrl m \<or> mod_alt m \<or> mod_meta m \<or> mod_super m \<or> mod_hyper m then KUnknown
          else (case ev_code event of
                  KeyChar ch \<Rightarrow> KChar (encode_utf8 ch)
                | Esc \<Rightarrow> KEscape | Enter \<Rightarrow> KEnter | Backspace \<Rightarrow> KBackspace
                | KeyLeft \<Rightarrow> KLeft | KeyDown \<Rightarrow> KDown | KeyUp \<Rightarrow> KUp | KeyRight \<Rightarrow> KRight
                | _ \<Rightarrow> KUnknown))"

definition printable_keys :: "bytes \<Rightarrow> review_key list" where
  "printable_keys t = map KChar (filter (\<lambda>ch. \<not> scalar_is_control ch) (utf8_chars t))"

definition review_input :: "review_env \<Rightarrow> bytes \<Rightarrow> review_view \<Rightarrow> review_outcome" where
  "review_input env input v = handle_keys env ActNone (map raw_key input) v"

definition review_key_input ::
  "review_env \<Rightarrow> (key_event \<Rightarrow> key_event) \<Rightarrow> key_input \<Rightarrow> review_view \<Rightarrow> review_outcome" where
  "review_key_input env normalize_case k v =
     (if is_release k then (Ok ActNone, v)
      else if semantic_key normalize_case k \<noteq> KUnknown then handle_review_key env (semantic_key normalize_case k) v
      else (case key_text normalize_case k of
              Some t \<Rightarrow> handle_keys env ActNone (printable_keys t) v
            | None \<Rightarrow> handle_review_key env KUnknown v))"

definition review_paste :: "review_env \<Rightarrow> bytes \<Rightarrow> review_view \<Rightarrow> review_outcome" where
  "review_paste env contents v =
     (if rv_search_prompt v = None then (Ok ActBell, v) else handle_keys env ActNone (printable_keys contents) v)"

text \<open>The row and column are those of the review cursor of the overlay's own view\<close>

definition place_cursor :: "review_env \<Rightarrow> nat \<Rightarrow> nat \<Rightarrow> review_view \<Rightarrow> review_outcome" where
  "place_cursor env r c v =
     move_to env (at_pos (saturating_add_usize (rv_viewport_top v) r) (sat_add16 (rv_viewport_left v) c)) v"

definition review_resize :: "review_env \<Rightarrow> nat \<Rightarrow> nat \<Rightarrow> review_view \<Rightarrow> review_view" where
  "review_resize env rows cols v =
     (let screen_row = hp_row (rv_cursor v) - rv_viewport_top v;
          screen_col = hp_col (rv_cursor v) - rv_viewport_left v;
          v = v\<lparr>rv_rows := rows, rv_cols := cols\<rparr>;
          height = max (document_height v) 1;
          width = max cols 1;
          top_row = min (hp_row (rv_cursor v) - min screen_row (height - 1)) (max_viewport_top (rv_document v) height);
          left = min (hp_col (rv_cursor v) - min screen_col (width - 1)) (max_viewport_left (rv_document v) width)
      in render env (ensure_cursor_visible (v\<lparr>rv_viewport_top := top_row, rv_viewport_left := left\<rparr>)))"

definition review_new_page_up ::
  "review_env \<Rightarrow> terminal_snapshot \<Rightarrow> nat \<Rightarrow> nat \<Rightarrow> history_position \<Rightarrow> nat \<Rightarrow> nat \<Rightarrow> review_view option" where
  "review_new_page_up env s rows cols initial history_len scrollback =
     map_option (\<lambda>v. snd (scroll_page env False 1 v)) (review_new env s rows cols initial history_len scrollback)"

section \<open>The overlay's invariant\<close>

definition key_ok :: "review_key \<Rightarrow> bool" where
  "key_ok k \<longleftrightarrow> (case k of KChar ch \<Rightarrow> ch \<noteq> [] | _ \<Rightarrow> True)"

definition motion_ok :: "motion \<Rightarrow> bool" where
  "motion_ok m \<longleftrightarrow> (case m of MFind direction till target \<Rightarrow> target \<noteq> [] | _ \<Rightarrow> True)"

definition cursor_visible :: "review_view \<Rightarrow> bool" where
  "cursor_visible v \<longleftrightarrow>
     rv_viewport_top v \<le> hp_row (rv_cursor v) \<and> hp_row (rv_cursor v) < rv_viewport_top v + max (document_height v) 1 \<and>
     rv_viewport_left v \<le> hp_col (rv_cursor v) \<and> hp_col (rv_cursor v) < rv_viewport_left v + max (rv_cols v) 1"

definition document_fits :: "review_document \<Rightarrow> bool" where
  "document_fits d \<longleftrightarrow> document_ok d \<and> rd_rows d \<noteq> [] \<and> row_count d < usize_max"

definition overlay_ok :: "review_view \<Rightarrow> bool" where
  "overlay_ok v \<longleftrightarrow> document_fits (rv_document v) \<and> addressable (rv_document v) (rv_cursor v) \<and>
     (\<forall>p. rv_visual_anchor v = Some p \<longrightarrow> addressable (rv_document v) p) \<and>
     (\<forall>f. rv_last_find v = Some f \<longrightarrow> lf_target f \<noteq> [])"

definition visual_in_step :: "review_view \<Rightarrow> bool" where
  "visual_in_step v \<longleftrightarrow> parser_ok (rv_parser v) \<and> (rv_visual_anchor v \<noteq> None \<longleftrightarrow> rp_visual (rv_parser v) \<noteq> None)"

definition review_ok :: "review_view \<Rightarrow> bool" where
  "review_ok v \<longleftrightarrow> overlay_ok v \<and> visual_in_step v \<and> cursor_visible v"

definition no_panic :: "(review_action, review_error) result \<Rightarrow> bool" where
  "no_panic r \<longleftrightarrow> r \<noteq> Err ReviewPanic"

lemma ensure_fields [simp]:
  "rv_document (ensure_cursor_visible v) = rv_document v" "rv_cursor (ensure_cursor_visible v) = rv_cursor v"
  "rv_parser (ensure_cursor_visible v) = rv_parser v" "rv_visual_anchor (ensure_cursor_visible v) = rv_visual_anchor v"
  "rv_last_find (ensure_cursor_visible v) = rv_last_find v" "rv_search_prompt (ensure_cursor_visible v) = rv_search_prompt v"
  "rv_rows (ensure_cursor_visible v) = rv_rows v" "rv_cols (ensure_cursor_visible v) = rv_cols v"
  by (simp_all add: ensure_cursor_visible_def Let_def)

lemma render_fields [simp]:
  "rv_document (render env v) = rv_document v" "rv_cursor (render env v) = rv_cursor v"
  "rv_parser (render env v) = rv_parser v" "rv_visual_anchor (render env v) = rv_visual_anchor v"
  "rv_last_find (render env v) = rv_last_find v" "rv_search_prompt (render env v) = rv_search_prompt v"
  "rv_rows (render env v) = rv_rows v" "rv_cols (render env v) = rv_cols v"
  by (simp_all add: render_def Let_def)

lemma render_overlay [simp]: "overlay_ok (render env v) = overlay_ok v" "visual_in_step (render env v) = visual_in_step v"
  by (simp_all add: overlay_ok_def visual_in_step_def)

lemma col_bound:
  assumes "document_fits d" "addressable d p"
  shows "hp_col p < max (fold max (map dr_end (rd_rows d)) 0) 1" "hp_col p < u16_max"
proof -
  have i: "hp_row p < row_count d" using assms(2) by (rule row_in_range)
  have "dr_end (rd_rows d ! hp_row p) \<in> set (map dr_end (rd_rows d))" using i by (simp add: row_count_def)
  moreover have "x \<le> fold max xs b" if "x \<in> set xs" for x b and xs :: "nat list"
  proof -
    have ge: "b \<le> fold max xs b" for b and xs :: "nat list"
      by (induction xs arbitrary: b) (auto intro: order_trans [OF max.cobounded2])
    show ?thesis using that ge by (induction xs arbitrary: b) (auto intro: order_trans [OF max.cobounded1])
  qed
  ultimately have "dr_end (rd_rows d ! hp_row p) \<le> fold max (map dr_end (rd_rows d)) 0" by blast
  then show "hp_col p < max (fold max (map dr_end (rd_rows d)) 0) 1" using assms(2) by (auto simp: addressable_def)
  have "dr_end (rd_rows d ! hp_row p) \<le> u16_max" "1 < u16_max"
    using assms(1) document_row [OF _ i] by (auto simp: document_fits_def doc_row_ok_def document_ok_def u16_max_def)
  then show "hp_col p < u16_max" using assms(2) by (auto simp: addressable_def)
qed

lemma ensure_visible:
  assumes "overlay_ok v"
  shows "cursor_visible (ensure_cursor_visible v)"
proof -
  let ?d = "rv_document v" and ?r = "hp_row (rv_cursor v)" and ?c = "hp_col (rv_cursor v)"
  have ok: "document_fits ?d" "addressable ?d (rv_cursor v)" using assms by (simp_all add: overlay_ok_def)
  have r: "?r < row_count ?d" "row_count ?d < usize_max" using ok row_in_range by (auto simp: document_fits_def)
  note c = col_bound [OF ok]
  define h where "h = max (document_height v) (Suc 0)"
  define w where "w = max (rv_cols v) (Suc 0)"
  have pos: "0 < h" "0 < w" by (simp_all add: h_def w_def)
  have "rv_viewport_top (ensure_cursor_visible v) \<le> ?r \<and> ?r < rv_viewport_top (ensure_cursor_visible v) + h"
    using r pos by (auto simp: ensure_cursor_visible_def Let_def saturating_add_usize_def min_def simp flip: h_def)
  moreover have "max_viewport_left ?d w = max (fold max (map dr_end (rd_rows ?d)) 0) 1 - w"
    using pos by (simp add: max_viewport_left_def max_absorb1 Suc_leI)
  then have "rv_viewport_left (ensure_cursor_visible v) \<le> ?c \<and> ?c < rv_viewport_left (ensure_cursor_visible v) + w"
    using c pos by (simp add: ensure_cursor_visible_def Let_def sat_add16_def flip: w_def)
      (auto simp: min_def)
  moreover have "document_height (ensure_cursor_visible v) = document_height v" by (simp add: document_height_def)
  ultimately show ?thesis by (simp add: cursor_visible_def h_def w_def)
qed

lemma render_visible: "overlay_ok v \<Longrightarrow> cursor_visible (render env v)"
  using ensure_visible [of v] by (simp add: render_def Let_def cursor_visible_def document_height_def)

section \<open>Targets of motions stay inside the document\<close>

lemma fitting: "document_fits d \<Longrightarrow> document_ok d" "document_fits d \<Longrightarrow> 0 < row_count d"
  by (auto simp: document_fits_def row_count_def)

lemma clamped_ok: "document_fits d \<Longrightarrow> addressable d (clamp d p)"
  by (simp add: document_fits_def clamp_addressable)

lemma brace_loop_row:
  "document_ok d \<Longrightarrow> addressable d p \<Longrightarrow> brace_loop d n p = Some q \<Longrightarrow> addressable d q"
  by (induction n arbitrary: p) (auto split: option.splits dest: brace_addressable)

definition target_ok :: "review_view \<Rightarrow> history_position option \<times> review_view \<Rightarrow> bool" where
  "target_ok v r \<longleftrightarrow> (\<forall>p. fst r = Some p \<longrightarrow> hp_row p < row_count (rv_document v)) \<and> overlay_ok (snd r) \<and>
     (\<exists>f. snd r = v\<lparr>rv_last_find := f\<rparr>)"

lemma same_find: "\<exists>f. v = v\<lparr>rv_last_find := f\<rparr>"
  by (rule exI [of _ "rv_last_find v"]) simp

text \<open>A find either fails without a trace or moves to the match, or next to it, and remembers it\<close>

definition found_or_none :: "review_view \<Rightarrow> scalar \<Rightarrow> history_position option \<times> review_view \<Rightarrow> bool" where
  "found_or_none v target r \<longleftrightarrow> r = (None, v) \<or>
     (\<exists>dest f matched start forward bk n. r = (Some dest, v\<lparr>rv_last_find := Some f\<rparr>) \<and> lf_target f = target \<and>
        find_character (rv_document v) start target forward False n = Some matched \<and>
        (dest = matched \<or> adjacent (rv_document v) matched bk = Some dest))"

lemma find_shape:
  assumes "\<And>x. lf_target (F x) = target"
  shows "found_or_none v target
    (case find_character (rv_document v) start target forward False n of
       None \<Rightarrow> (None, v)
     | Some matched \<Rightarrow>
         (case (if till then adjacent (rv_document v) matched bk else Some matched) of
            None \<Rightarrow> (None, v)
          | Some destination \<Rightarrow>
              if destination = rv_cursor v then (None, v)
              else (Some destination, v\<lparr>rv_last_find := Some (F matched)\<rparr>)))"
proof (cases "find_character (rv_document v) start target forward False n")
  case (Some matched)
  have "found_or_none v target (if dest = rv_cursor v then (None, v) else (Some dest, v\<lparr>rv_last_find := Some (F matched)\<rparr>))"
    if "dest = matched \<or> adjacent (rv_document v) matched bk = Some dest" for dest
    using that Some assms unfolding found_or_none_def by fastforce
  then show ?thesis using Some by (auto simp: found_or_none_def [of v target "(None, v)"] split: option.split)
qed (simp add: found_or_none_def)

lemma find_target_cases: "found_or_none v target (find_target v direction till target n)"
  unfolding find_target_def Let_def by (rule find_shape) simp

lemma repeat_find_cases: "rv_last_find v = Some f \<Longrightarrow> found_or_none v (lf_target f) (repeat_find_target v reverse n)"
  unfolding repeat_find_target_def Let_def by (simp only: option.case) (rule find_shape, simp)

lemma found_target_ok:
  assumes "overlay_ok v" "target \<noteq> []" "found_or_none v target r"
  shows "target_ok v r"
proof (cases "r = (None, v)")
  case True
  then show ?thesis using assms(1) same_find by (simp add: target_ok_def)
next
  case False
  then obtain dest f matched start forward bk n where r: "r = (Some dest, v\<lparr>rv_last_find := Some f\<rparr>)" "lf_target f = target"
    and m: "find_character (rv_document v) start target forward False n = Some matched"
    and dest: "dest = matched \<or> adjacent (rv_document v) matched bk = Some dest"
    using assms(3) unfolding found_or_none_def by blast
  have d: "document_ok (rv_document v)" using assms(1) by (simp add: overlay_ok_def document_fits_def)
  have "addressable (rv_document v) dest"
    using dest find_addressable [OF d assms(2) m] adjacent_addressable [OF d] by blast
  then show ?thesis using assms(1,2) r row_in_range by (auto simp: target_ok_def overlay_ok_def)
qed

lemma motion_target_ok:
  assumes v: "overlay_ok v" and m: "motion_ok m"
  shows "target_ok v (motion_target env m n v)"
proof -
  let ?d = "rv_document v" and ?p = "rv_cursor v"
  have d: "document_ok ?d" and p: "addressable ?d ?p" and rows: "0 < row_count ?d"
    using v fitting by (simp_all add: overlay_ok_def)
  note r = row_in_range [OF p] and range_rules = row_in_range [OF horizontal_addressable [OF d p]]
    row_in_range [OF vertical_addressable [OF d p]] row_in_range [OF word_addressable [OF d p]]
    row_in_range [OF brace_loop_row [OF d p]]
  have "rd_rows ?d \<noteq> []" using rows by (auto simp: row_count_def)
  note pr = row_in_range [OF prompt_addressable [OF d this]]
  have min: "min k (row_count ?d - Suc 0) < row_count ?d" for k using rows by auto
  have plain: "target_ok v (q, v)" if "\<And>p. q = Some p \<Longrightarrow> hp_row p < row_count ?d" for q
    using that v same_find by (simp add: target_ok_def)
  show ?thesis
  proof (cases m)
    case (MFind direction till target)
    then show ?thesis using found_target_ok [OF v _ find_target_cases] m by (simp add: motion_target_def motion_ok_def)
  next
    case (MRepeatFind reverse)
    then show ?thesis
    proof (cases "rv_last_find v")
      case None
      then show ?thesis using plain [of None] MRepeatFind by (simp add: motion_target_def repeat_find_target_def)
    next
      case (Some f)
      then have "lf_target f \<noteq> []" using v by (simp add: overlay_ok_def)
      then show ?thesis using found_target_ok [OF v _ repeat_find_cases [OF Some]] MRepeatFind by (simp add: motion_target_def)
    qed
  qed (use r range_rules pr min rows in \<open>auto simp: motion_target_def Let_def moved_from_Some first_nonblank_of_def
      bind_eq_Some_conv intro!: plain split: if_splits\<close>)
qed

section \<open>Every step keeps the invariant\<close>

definition step_good :: "review_outcome \<Rightarrow> bool" where
  "step_good r \<longleftrightarrow> no_panic (fst r) \<and> review_ok (snd r)"

lemma ok_good: "review_ok v \<Longrightarrow> step_good (Ok a, v)"
  by (simp add: step_good_def no_panic_def)

lemma render_good: "overlay_ok v \<Longrightarrow> visual_in_step v \<Longrightarrow> step_good (Ok a, render env v)"
  by (simp add: ok_good review_ok_def render_visible)

lemma move_to_good:
  assumes "overlay_ok v" "visual_in_step v"
  shows "step_good (move_to env p v)"
proof -
  have "overlay_ok (v\<lparr>rv_cursor := clamp (rv_document v) p\<rparr>)" using assms(1) clamped_ok by (simp add: overlay_ok_def)
  moreover have "visual_in_step (v\<lparr>rv_cursor := clamp (rv_document v) p\<rparr>)" using assms(2) by (simp add: visual_in_step_def)
  ultimately show ?thesis by (simp add: move_to_def render_good)
qed

lemma log_ok [simp]: "review_ok (log_call c v) = review_ok v" "rv_parser (log_call c v) = rv_parser v"
  by (simp_all add: review_ok_def overlay_ok_def visual_in_step_def cursor_visible_def log_call_def document_height_def)

lemma speak_good:
  assumes "review_ok v" "\<And>v'. review_ok v' \<Longrightarrow> rv_parser v' = rv_parser v \<Longrightarrow> step_good (k v')"
  shows "step_good (speak_then env t k v)"
  using assms by (auto simp: speak_then_def Let_def step_good_def no_panic_def split: result.split)

lemma drop_anchor_ok:
  "review_ok v \<Longrightarrow> rp_visual (rv_parser v) = None \<Longrightarrow> review_ok (v\<lparr>rv_visual_anchor := None\<rparr>)"
  by (simp add: review_ok_def overlay_ok_def visual_in_step_def cursor_visible_def document_height_def)

lemma yank_good:
  assumes "review_ok v" "rp_visual (rv_parser v) = None"
  shows "step_good (yank_text env register t v)"
  using assms by (auto simp: yank_text_def Let_def intro!: speak_good ok_good drop_anchor_ok split: result.split)

lemma yank_or_bell_good:
  assumes "review_ok v" "rp_visual (rv_parser v) = None" "t \<noteq> None"
  shows "step_good (yank_or_bell env register t v)"
  using assms by (auto simp: yank_or_bell_def yank_good ok_good split: option.split)

lemma range_total:
  "overlay_ok v \<Longrightarrow> hp_row p < row_count (rv_document v) \<Longrightarrow> hp_row q < row_count (rv_document v) \<Longrightarrow>
   yank_range (rv_document v) p q linewise \<noteq> None"
  using yank_range_total fitting(1) by (simp add: overlay_ok_def)

lemma cursor_row: "overlay_ok v \<Longrightarrow> hp_row (rv_cursor v) < row_count (rv_document v)"
  by (simp add: overlay_ok_def row_in_range)

lemma previous_row:
  "overlay_ok v \<Longrightarrow> previous_position (rv_document v) p = Some q \<Longrightarrow> hp_row q < row_count (rv_document v)"
  using previous_addressable fitting(1) row_in_range by (simp add: overlay_ok_def)

lemma yank_motion_total:
  assumes "overlay_ok v" "hp_row q < row_count (rv_document v)"
  shows "yank_motion_text v m q \<noteq> None"
  using range_total [OF assms(1)] cursor_row [OF assms(1)] assms(2) previous_row [OF assms(1)]
  by (auto simp: yank_motion_text_def Let_def split: option.split)

definition command_motion_ok :: "review_command \<Rightarrow> bool" where
  "command_motion_ok c \<longleftrightarrow>
     (case c of CMove m n \<Rightarrow> motion_ok m | CMoveVisual m n \<Rightarrow> motion_ok m | CYankMotion m n r \<Rightarrow> motion_ok m | _ \<Rightarrow> True)"

text \<open>What holds of the view when the parser has just returned a command\<close>

definition command_given :: "review_view \<Rightarrow> review_command \<Rightarrow> bool" where
  "command_given v c \<longleftrightarrow> overlay_ok v \<and> cursor_visible v \<and> parser_ok (rv_parser v) \<and>
     (\<exists>vis. (rv_visual_anchor v \<noteq> None \<longleftrightarrow> vis \<noteq> None) \<and> rp_visual (rv_parser v) = visual_after c vis \<and> command_fits vis c) \<and>
     command_motion_ok c"

lemma plain_command_ok:
  "command_given v c \<Longrightarrow> (\<And>vis. visual_after c vis = vis) \<Longrightarrow> review_ok v"
  by (auto simp: command_given_def review_ok_def visual_in_step_def)

lemma remembered_ok:
  "review_ok v \<Longrightarrow> overlay_ok (v\<lparr>rv_last_find := f\<rparr>) \<Longrightarrow> review_ok (v\<lparr>rv_last_find := f\<rparr>)"
  by (simp add: review_ok_def visual_in_step_def cursor_visible_def document_height_def)

lemma motion_step:
  assumes "review_ok v" "motion_ok m" "motion_target env m n v = (target, v')"
  shows "review_ok v'" "rv_parser v' = rv_parser v" "target = Some q \<Longrightarrow> hp_row q < row_count (rv_document v')"
  using motion_target_ok [of v m env n] assms remembered_ok
  by (auto simp: target_ok_def review_ok_def)

lemma move_good:
  assumes "review_ok v" "motion_ok m"
  shows "step_good (move_command env m n v)"
proof (cases "motion_target env m n v")
  case (Pair target v')
  then show ?thesis
    using motion_step(1) [OF assms Pair]
    by (auto simp: move_command_def review_ok_def intro!: move_to_good ok_good split: option.split)
qed

lemma scroll_good:
  assumes "review_ok v"
  shows "step_good (scroll_page env forward n v)"
proof -
  have "overlay_ok (v\<lparr>rv_viewport_top := t\<rparr>)" "overlay_ok (v\<lparr>rv_viewport_top := t, rv_cursor := clamp (rv_document v) p\<rparr>)" 
    "visual_in_step (v\<lparr>rv_viewport_top := t\<rparr>)" "visual_in_step (v\<lparr>rv_viewport_top := t, rv_cursor := clamp (rv_document v) p\<rparr>)" for t p
    using assms clamped_ok by (auto simp: review_ok_def overlay_ok_def visual_in_step_def)
  then show ?thesis using assms
    by (simp add: scroll_page_def Let_def ok_good [of v] render_good split: option.split)
qed

lemma reposition_good:
  assumes "review_ok v"
  shows "step_good (reposition_viewport env placement line first_nonblank v)"
proof -
  let ?d = "rv_document v"
  have d: "document_fits ?d" "addressable ?d (rv_cursor v)" using assms by (auto simp: review_ok_def overlay_ok_def)
  define p where "p = (case line of Some n \<Rightarrow> clamp ?d ((rv_cursor v)\<lparr>hp_row := min (n - 1) (row_count ?d - 1)\<rparr>) | None \<Rightarrow> rv_cursor v)"
  define q where "q = (if first_nonblank then p\<lparr>hp_col := line_first_nonblank ?d (hp_row p)\<rparr> else p)"
  have p: "addressable ?d p" using d clamped_ok by (auto simp: p_def split: option.split)
  have "p\<lparr>hp_col := c\<rparr> = at_pos (hp_row p) c" for c by (cases p) simp
  then have "q = (if first_nonblank then at_pos (hp_row p) (line_first_nonblank ?d (hp_row p)) else p)" by (simp only: q_def)
  then have "addressable ?d q"
    using p first_nonblank_addressable [OF fitting(1) [OF d(1)] row_in_range [OF p]] by simp
  then have "overlay_ok (v\<lparr>rv_cursor := q, rv_viewport_top := t\<rparr>)" "visual_in_step (v\<lparr>rv_cursor := q, rv_viewport_top := t\<rparr>)" for t
    using assms by (auto simp: review_ok_def overlay_ok_def visual_in_step_def)
  then show ?thesis
    unfolding reposition_viewport_def Let_def p_def [symmetric] q_def [symmetric] by (simp add: render_good)
qed

lemma search_prompt_ok:
  "review_ok v \<Longrightarrow> overlay_ok (v\<lparr>rv_search_prompt := x\<rparr>) \<and> visual_in_step (v\<lparr>rv_search_prompt := x\<rparr>)"
  by (simp add: review_ok_def overlay_ok_def visual_in_step_def)

lemma handle_command_good:
  assumes "command_given v c"
  shows "step_good (handle_command env c v)"
proof -
  have v: "overlay_ok v" "cursor_visible v" using assms by (simp_all add: command_given_def)
  note plain = plain_command_ok [OF assms]
  have d: "document_ok (rv_document v)" and cur: "addressable (rv_document v) (rv_cursor v)" and rows: "0 < row_count (rv_document v)"
    using v fitting by (simp_all add: overlay_ok_def)
  have novis: "rp_visual (rv_parser v) = None" if "is_yank_command c"
    using assms that by (cases c) (auto simp: command_given_def visual_after_def command_fits_def is_yank_command_def)
  have anchored: "addressable (rv_document v) q" if "rv_visual_anchor v = Some q" for q
    using v that by (simp add: overlay_ok_def)
  have set_anchor: "review_ok (v\<lparr>rv_visual_anchor := x, rv_visual_kind := k\<rparr>)" "review_ok (v\<lparr>rv_visual_anchor := x\<rparr>)"
    if "(x \<noteq> None) = (rp_visual (rv_parser v) \<noteq> None)" "\<And>q. x = Some q \<Longrightarrow> addressable (rv_document v) q" for x k
    using v assms that
    by (auto simp: review_ok_def overlay_ok_def visual_in_step_def cursor_visible_def document_height_def command_given_def)
  show ?thesis
  proof (cases c)
    case CNone
    then show ?thesis using plain by (simp add: handle_command_def visual_after_def ok_good)
  next
    case (CYankVisual r)
    then have vis: "rp_visual (rv_parser v) = None" using assms by (auto simp: command_given_def visual_after_def)
    show ?thesis
    proof (cases "rv_visual_anchor v")
      case None
      then have "v\<lparr>rv_visual_anchor := None\<rparr> = v" by (cases v) simp
      then have "review_ok v" using set_anchor(2) [of None] vis by simp
      then show ?thesis using CYankVisual None by (simp add: handle_command_def ok_good)
    next
      case (Some a)
      then show ?thesis
        using range_total [OF v(1) row_in_range [OF anchored [OF Some]] cursor_row [OF v(1)]] set_anchor(2) [of None] vis CYankVisual
        by (simp add: handle_command_def yank_or_bell_good)
    qed
  next
    case (CStartVisual k)
    then have "rp_visual (rv_parser v) \<noteq> None" using assms by (auto simp: command_given_def visual_after_def)
    then show ?thesis using set_anchor(1) [of "Some (rv_cursor v)"] cur CStartVisual
      by (auto simp: handle_command_def Let_def intro!: speak_good ok_good)
  next
    case (CMove m n)
    then show ?thesis using plain assms by (simp add: handle_command_def visual_after_def move_good command_given_def command_motion_ok_def)
  next
    case (CMoveVisual m n)
    then show ?thesis using plain assms by (simp add: handle_command_def visual_after_def move_good command_given_def command_motion_ok_def)
  next
    case (CScrollPage f n)
    then show ?thesis using plain by (simp add: handle_command_def visual_after_def scroll_good)
  next
    case (CRepositionViewport place line nonblank)
    then show ?thesis using plain by (simp add: handle_command_def visual_after_def reposition_good)
  next
    case (CYankMotion m n r)
    then have ok: "review_ok v" "motion_ok m" using plain assms by (auto simp: visual_after_def command_given_def command_motion_ok_def)
    obtain target v' where t: "motion_target env m n v = (target, v')" by fastforce
    note m = motion_step [OF ok t]
    have "rp_visual (rv_parser v') = None" using m(2) novis CYankMotion by (simp add: is_yank_command_def)
    then show ?thesis
      using m t yank_motion_total [of v'] CYankMotion
      by (auto simp: handle_command_def ok_good review_ok_def intro!: yank_or_bell_good split: option.split)
  next
    case (CYankLine n r)
    then have "review_ok v" using plain by (simp add: visual_after_def)
    moreover have "min k (row_count (rv_document v) - Suc 0) < row_count (rv_document v)" for k using rows by auto
    ultimately show ?thesis
      using range_total [OF v(1) cursor_row [OF v(1)]] novis CYankLine
      by (simp add: handle_command_def Let_def is_yank_command_def yank_or_bell_good)
  next
    case (CYankTextObject obj n r)
    then have "review_ok v" using plain by (simp add: visual_after_def)
    then show ?thesis
      using range_total [OF v(1)] inner_word_range_addressable [OF d] row_in_range novis CYankTextObject
      by (cases obj) (auto simp: handle_command_def Let_def is_yank_command_def intro!: ok_good yank_or_bell_good split: option.split)
  next
    case (CStartSearch dir)
    then show ?thesis using plain search_prompt_ok by (simp add: handle_command_def visual_after_def render_good)
  next
    case (CRepeatSearch reverse n)
    then show ?thesis using plain by (auto simp: handle_command_def visual_after_def Let_def review_ok_def
          intro!: ok_good move_to_good split: option.split)
  next
    case CCancelVisual
    then have "rp_visual (rv_parser v) = None" using assms by (auto simp: command_given_def visual_after_def)
    then show ?thesis using set_anchor(2) [of None] CCancelVisual
      by (auto simp: handle_command_def intro!: speak_good ok_good)
  qed (use plain in \<open>simp_all add: handle_command_def visual_after_def ok_good\<close>)
qed

text \<open>The target of a find is the character of a key\<close>

definition motion_outcome :: "review_command \<times> review_parser \<Rightarrow> bool" where
  "motion_outcome r \<longleftrightarrow> command_motion_ok (fst r)"

lemma motion_outcome_splits:
  "(b \<Longrightarrow> motion_outcome r) \<Longrightarrow> (\<not> b \<Longrightarrow> motion_outcome s) \<Longrightarrow> motion_outcome (if b then r else s)"
  "(x = None \<Longrightarrow> motion_outcome r) \<Longrightarrow> (\<And>a. x = Some a \<Longrightarrow> motion_outcome (f a)) \<Longrightarrow>
   motion_outcome (case x of None \<Rightarrow> r | Some a \<Rightarrow> f a)"
  "(\<And>n q. motion_outcome (g n q)) \<Longrightarrow> motion_outcome (let (n, q) = take_count p in g n q)"
  by (auto simp: take_count_def split: option.split)

lemma motion_outcome_leaf: "motion_outcome (finish_command c p) = command_motion_ok c" "motion_outcome (c, p) = command_motion_ok c"
  by (simp_all add: motion_outcome_def finish_command_def)

lemma feed_motion_ok:
  assumes "key_ok key"
  shows "motion_outcome (feed key p)"
proof -
  have t: "motion_ok m" if "motion_for_key key = Some m" for m
    using that by (auto simp: motion_for_key_def motion_ok_def split: if_splits)
  have t': "motion_ok m" if "prefixed_motion x key = Some m" for m x
    using that assms by (auto simp: prefixed_motion_def motion_ok_def key_ok_def split: key_prefix.splits review_key.splits if_splits)
  have 1: "motion_outcome (escape_key p)" "motion_outcome (feed_register key p)"
    unfolding escape_key_def feed_register_def Let_def
    by (intro motion_outcome_splits; simp add: motion_outcome_leaf command_motion_ok_def)+
  have 2: "motion_outcome (feed_prefix key p)"
    unfolding feed_prefix_def Let_def
    by (intro motion_outcome_splits; simp add: motion_outcome_leaf command_motion_ok_def t' split: prod.split)
  have 3: "motion_outcome (feed_operator key y p)" for y
    unfolding feed_operator_def Let_def
    by (intro motion_outcome_splits; simp add: motion_outcome_leaf command_motion_ok_def t t')
  have 4: "motion_outcome (feed_visual key p)" "motion_outcome (feed_normal key p)"
    unfolding feed_visual_def feed_normal_def page_def
    by (intro motion_outcome_splits; simp add: motion_outcome_leaf command_motion_ok_def t)+
  show ?thesis unfolding feed_def by (intro motion_outcome_splits 1 2 3 4)
qed

lemma search_key_good:
  assumes "review_ok v" "rv_search_prompt v = Some sp"
  shows "step_good (handle_search_key env key v)"
proof -
  have set: "step_good (set_query env sp q v)" for q
    using search_prompt_ok [OF assms(1)] by (simp add: set_query_def render_good)
  have esc: "step_good (Ok ActRedraw, render env (v\<lparr>rv_search_prompt := None\<rparr>))"
    using search_prompt_ok [OF assms(1)] by (simp add: render_good)
  have "overlay_ok (v\<lparr>rv_last_search := x, rv_search_prompt := y\<rparr>)" "visual_in_step (v\<lparr>rv_last_search := x, rv_search_prompt := y\<rparr>)" for x y
    using assms(1) by (simp_all add: review_ok_def overlay_ok_def visual_in_step_def)
  then have fin: "step_good (finish_search env v)"
    using assms(1) by (auto simp: finish_search_def assms(2) intro!: ok_good [of v] move_to_good split: option.split)
  show ?thesis
    using assms set esc fin ok_good [OF assms(1)] by (simp add: handle_search_key_def split: review_key.split)
qed

lemma review_key_good:
  assumes "review_ok v" "key_ok key"
  shows "step_good (handle_review_key env key v)"
proof (cases "rv_search_prompt v")
  case (Some sp)
  then show ?thesis using search_key_good [OF assms(1)] by (simp add: handle_review_key_def)
next
  case None
  obtain c q where f: "feed key (rv_parser v) = (c, q)" by fastforce
  have p: "parser_ok (rv_parser v)" using assms(1) by (simp add: review_ok_def visual_in_step_def)
  have "step_ok (rv_parser v) c q" using feed_step [OF p, of key] f by (simp add: outcome_ok_def)
  moreover have "command_motion_ok c" using feed_motion_ok [OF assms(2), of "rv_parser v"] f by (simp add: motion_outcome_leaf)
  ultimately have "command_given (v\<lparr>rv_parser := q\<rparr>) c"
    using assms(1)
    by (auto simp: command_given_def step_ok_def review_ok_def overlay_ok_def visual_in_step_def cursor_visible_def document_height_def)
  then show ?thesis using handle_command_good None f by (simp add: handle_review_key_def)
qed

lemma handle_keys_good: "review_ok v \<Longrightarrow> list_all key_ok ks \<Longrightarrow> step_good (handle_keys env r ks v)"
proof (induction ks arbitrary: r v)
  case (Cons k ks)
  obtain a v' where h: "handle_review_key env k v = (a, v')" by fastforce
  have g: "step_good (a, v')" using review_key_good [OF Cons.prems(1), of k env] Cons.prems(2) h by simp
  then have "review_ok v'" by (simp add: step_good_def)
  then show ?case using g Cons.IH Cons.prems(2) h
    by (auto simp: step_good_def no_panic_def split: result.split review_action.split)
qed (simp add: ok_good)

section \<open>Reachable overlays\<close>

lemma raw_key_ok: "key_ok (raw_key b)"
  by (simp add: raw_key_def Let_def key_ok_def)

lemma encode_nonempty: "encode_utf8 n \<noteq> []"
  by (simp add: encode_utf8_def)

lemma semantic_key_ok: "key_ok (semantic_key normalize_case k)"
  by (simp add: semantic_key_def Let_def key_ok_def encode_nonempty split: option.split key_code.split)

lemma printable_keys_ok: "list_all key_ok (printable_keys t)"
proof -
  have "ch \<noteq> []" if "ch \<in> set (utf8_chars t)" for ch
    using that by (induction t rule: utf8_chars.induct) (auto simp: utf8_char_len_def split: if_splits)
  then show ?thesis by (auto simp: printable_keys_def list_all_iff key_ok_def)
qed

lemma key_input_good: "review_ok v \<Longrightarrow> step_good (review_key_input env normalize_case k v)"
  using printable_keys_ok semantic_key_ok
  by (auto simp: review_key_input_def key_ok_def [of KUnknown] intro!: ok_good review_key_good handle_keys_good split: option.split)

lemma raw_input_good: "review_ok v \<Longrightarrow> step_good (review_input env input v)"
  by (simp add: review_input_def handle_keys_good list_all_iff raw_key_ok)

lemma paste_good: "review_ok v \<Longrightarrow> step_good (review_paste env t v)"
  by (simp add: review_paste_def handle_keys_good ok_good printable_keys_ok)

lemma place_good: "review_ok v \<Longrightarrow> step_good (place_cursor env r c v)"
  by (simp add: place_cursor_def move_to_good review_ok_def)

lemma resize_good: "review_ok v \<Longrightarrow> review_ok (review_resize env rows cols v)"
  by (auto simp: review_resize_def Let_def review_ok_def overlay_ok_def visual_in_step_def intro!: render_visible)

lemma review_new_good:
  assumes "capturable s cols"
  obtains v where "review_new env s rows cols initial history_len scrollback = Some v" "review_ok v"
    "rv_document v = the (from_snapshot s cols)" "rv_parser v = parser_default" "rv_search_prompt v = None"
proof -
  obtain d where d: "from_snapshot s cols = Some d" "document_ok d" "rd_rows d = map (capture_row cols) (ts_scrollback s @ ts_rows s)"
    using from_snapshot_ok [OF assms] by blast
  have fits: "document_fits d" using d assms by (auto simp: document_fits_def capturable_def row_count_def)
  have "parser_ok parser_default" "rp_visual parser_default = None" by (simp_all add: parser_ok_def parser_default_def)
  then show thesis using that d fits clamped_ok [OF fits]
    by (simp add: review_new_def review_ok_def overlay_ok_def visual_in_step_def render_visible)
qed

inductive review_reachable :: "review_env \<Rightarrow> (key_event \<Rightarrow> key_event) \<Rightarrow> review_view \<Rightarrow> bool" for env normalize_case where
  opened: "capturable s cols \<Longrightarrow> review_new env s rows cols initial history_len scrollback = Some v \<Longrightarrow>
    review_reachable env normalize_case v"
| opened_up: "capturable s cols \<Longrightarrow> review_new_page_up env s rows cols initial history_len scrollback = Some v \<Longrightarrow>
    review_reachable env normalize_case v"
| raw: "review_reachable env normalize_case v \<Longrightarrow> review_input env input v = (r, v') \<Longrightarrow>
    review_reachable env normalize_case v'"
| key: "review_reachable env normalize_case v \<Longrightarrow> review_key_input env normalize_case k v = (r, v') \<Longrightarrow>
    review_reachable env normalize_case v'"
| paste: "review_reachable env normalize_case v \<Longrightarrow> review_paste env t v = (r, v') \<Longrightarrow>
    review_reachable env normalize_case v'"
| placed: "review_reachable env normalize_case v \<Longrightarrow> place_cursor env row col v = (r, v') \<Longrightarrow>
    review_reachable env normalize_case v'"
| resized: "review_reachable env normalize_case v \<Longrightarrow>
    review_reachable env normalize_case (review_resize env rows cols v)"

lemma good_after: "step_good f \<Longrightarrow> f = (r, v') \<Longrightarrow> review_ok v'"
  by (simp add: step_good_def)

lemma review_reachable_ok: "review_reachable env normalize_case v \<Longrightarrow> review_ok v"
proof (induction rule: review_reachable.induct)
  case (opened s cols rows initial history_len scrollback v)
  then show ?case using review_new_good [OF opened(1), of env rows initial history_len scrollback] by auto
next
  case (opened_up s cols rows initial history_len scrollback v)
  obtain u where u: "review_new env s rows cols initial history_len scrollback = Some u" "review_ok u"
    using review_new_good [OF opened_up(1)] by blast
  then have "v = snd (scroll_page env False 1 u)" using opened_up(2) by (simp add: review_new_page_up_def)
  then show ?case using scroll_good [OF u(2)] by (simp add: step_good_def)
next
  case raw
  show ?case by (rule good_after [OF raw_input_good [OF raw.IH] raw.hyps(2)])
next
  case key
  show ?case by (rule good_after [OF key_input_good [OF key.IH] key.hyps(2)])
next
  case paste
  show ?case by (rule good_after [OF paste_good [OF paste.IH] paste.hyps(2)])
next
  case placed
  show ?case by (rule good_after [OF place_good [OF placed.IH] placed.hyps(2)])
qed (rule resize_good)

text \<open>
  C26: However the review overlay is opened, and whatever keys, pastes, cursor placements and
  resizes follow, the cursor stays on a cell of the document that is not the second half of a
  wide character, it stays inside the viewport, a visual selection is open exactly when the key
  parser is in visual mode, and no input makes the overlay index outside of the document.
\<close>

theorem review_overlay_safe:
  assumes "review_reachable env normalize_case v"
  shows "addressable (rv_document v) (rv_cursor v) \<and> cursor_visible v \<and>
    (rv_visual_anchor v \<noteq> None \<longleftrightarrow> rp_visual (rv_parser v) \<noteq> None) \<and>
    (\<forall>input. fst (review_input env input v) \<noteq> Err ReviewPanic) \<and>
    (\<forall>k. fst (review_key_input env normalize_case k v) \<noteq> Err ReviewPanic) \<and>
    (\<forall>t. fst (review_paste env t v) \<noteq> Err ReviewPanic)"
proof -
  have v: "review_ok v" by (rule review_reachable_ok [OF assms])
  then show ?thesis
    using raw_input_good [OF v] key_input_good [OF v] paste_good [OF v]
    by (simp add: review_ok_def overlay_ok_def visual_in_step_def step_good_def no_panic_def)
qed

definition example_env :: review_env where
  "example_env = \<lparr>env_alnum = (\<lambda>ch. ch \<noteq> ''_''), env_graphemes = utf8_chars, env_find_starts = (\<lambda>query t. None),
     env_default_register = RegInternal, env_speak = (\<lambda>t. Ok ()), env_write_clipboard = (\<lambda>r t. Ok ())\<rparr>"

definition example_review :: review_view where
  "example_review = the (review_new example_env (example_snapshot [text_row False ''f(a)'']) 1 4 (at_pos 0 0) 0 0)"

lemma example_review:
  "review_new example_env (example_snapshot [text_row False ''f(a)'']) 1 4 (at_pos 0 0) 0 0 = Some example_review"
  "rv_document example_review = brace_document" "rv_parser example_review = parser_default"
  "rv_search_prompt example_review = None" "review_ok example_review"
  "review_reachable example_env (\<lambda>e. e) example_review"
proof -
  have c: "capturable (example_snapshot [text_row False ''f(a)'']) 4"
    using capturable_rows [of 4 "[(False, ''f(a)'')]"] by (simp add: u16_max_def usize_max_def)
  obtain v where v: "review_new example_env (example_snapshot [text_row False ''f(a)'']) 1 4 (at_pos 0 0) 0 0 = Some v"
    "review_ok v" "rv_document v = brace_document" "rv_parser v = parser_default" "rv_search_prompt v = None"
    using review_new_good [OF c] brace_document(1) by (metis option.sel)
  then have e: "v = example_review" by (simp add: example_review_def)
  show "review_new example_env (example_snapshot [text_row False ''f(a)'']) 1 4 (at_pos 0 0) 0 0 = Some example_review"
    "rv_document example_review = brace_document" "rv_parser example_review = parser_default"
    "rv_search_prompt example_review = None" "review_ok example_review"
    using v unfolding e by simp_all
  then show "review_reachable example_env (\<lambda>e. e) example_review" using c review_reachable.opened by blast
qed

theorem review_overlay_safe_witness:
  "fst (review_input example_env ''v%y'' example_review) \<noteq> Err ReviewPanic \<and>
   addressable brace_document (rv_cursor example_review)"
  using review_overlay_safe [OF example_review(6)] unfolding example_review(2) by simp

text \<open>
  A repeated find starts at the last match and not at the cursor, so that a movement in
  between is undone: after finding an \<^verbatim>\<open>x\<close> in the first row and moving down to the second,
  repeating the find goes back to the first row.
\<close>

lemma repeat_find_ignores_cursor:
  fixes d defines "d \<equiv> rows_document [(False, ''axx''), (False, ''bxx'')] 3"
  assumes "rv_document v = d" "rv_cursor v = at_pos 1 1"
    "rv_last_find v = Some \<lparr>lf_direction = FindForward, lf_till = False, lf_target = ''x'', lf_matched = at_pos 0 1\<rparr>"
  shows "fst (repeat_find_target v False 1) = Some (at_pos 0 2)"
proof -
  have d: "rd_rows d = [text_doc_row False ''axx'', text_doc_row False ''bxx'']"
    using rows_document_eq [of 3 "[(False, ''axx''), (False, ''bxx'')]"] by (simp add: d_def u16_max_def)
  have "logical_line_range d 0 = [0]"
    by (simp add: logical_line_range_def Let_def row_count_def d text_doc_row_def saturating_add_usize_def usize_max_def scan_up.simps)
  then have "find_character d (at_pos 0 1) ''x'' True False 1 = Some (at_pos 0 2)"
    by (simp add: find_character_def character_matches_def d text_doc_row_def cell_text_def doc_cell_at_def upt_small
        starts_with_def at_pos_less get_position_def moved_from_def)
  then show ?thesis using assms by (simp add: repeat_find_target_def)
qed

end
