(* ===== verification/Scene_Types.thy ===== *)
theory Scene_Types
  imports Terminal_Snapshot
begin

text \<open>
  The data of \<^verbatim>\<open>presentation.rs\<close>: the scene that the views compose (surfaces, overlays, image
  uploads and placements), and the presented scene, the shadow of what the physical terminal
  shows. Coordinates are \<^verbatim>\<open>i32\<close>, kept as integers with saturation written out; sizes, identifiers and
  pixel counts are \<^verbatim>\<open>u16\<close> and \<^verbatim>\<open>u32\<close>, kept as natural numbers in the same way.
\<close>

section \<open>Bounded arithmetic\<close>

definition sat_i32 :: "int \<Rightarrow> int" where
  "sat_i32 x = max (- (2 ^ 31)) (min (2 ^ 31 - 1) x)"

definition u32_max :: nat where
  "u32_max = 4294967295"

definition sat_u32 :: "nat \<Rightarrow> nat" where
  "sat_u32 n = min n u32_max"

text \<open>\<^verbatim>\<open>u16::try_from(i).unwrap_or(d)\<close> for an \<^verbatim>\<open>i32\<close>\<close>

definition u16_or :: "nat \<Rightarrow> int \<Rightarrow> nat" where
  "u16_or d i = (if 0 \<le> i \<and> i \<le> int u16_max then nat i else d)"

lemma sat_i32_in [simp]: "in_i32 (sat_i32 x)"
  by (simp add: sat_i32_def in_i32_def)

lemma sat_i32_id: "in_i32 x \<Longrightarrow> sat_i32 x = x"
  by (simp add: sat_i32_def in_i32_def)

section \<open>Rectangles\<close>

record grid_rect =
  gr_origin :: grid_point
  gr_rows :: nat
  gr_cols :: nat

definition grid_point_new :: "int \<Rightarrow> int \<Rightarrow> grid_point" where
  "grid_point_new row col = \<lparr>gp_row = row, gp_col = col\<rparr>"

definition grid_rect_new :: "grid_point \<Rightarrow> nat \<Rightarrow> nat \<Rightarrow> grid_rect" where
  "grid_rect_new origin rows cols = \<lparr>gr_origin = origin, gr_rows = rows, gr_cols = cols\<rparr>"

abbreviation rect_top :: "grid_rect \<Rightarrow> int" where "rect_top r \<equiv> gp_row (gr_origin r)"
abbreviation rect_left :: "grid_rect \<Rightarrow> int" where "rect_left r \<equiv> gp_col (gr_origin r)"
abbreviation rect_bottom :: "grid_rect \<Rightarrow> int" where "rect_bottom r \<equiv> sat_i32 (rect_top r + int (gr_rows r))"
abbreviation rect_right :: "grid_rect \<Rightarrow> int" where "rect_right r \<equiv> sat_i32 (rect_left r + int (gr_cols r))"

lemmas rect_new_defs = grid_point_new_def grid_rect_new_def

text \<open>The cells of a rectangle, as pairs of a row and a column\<close>

definition rect_cells :: "grid_rect \<Rightarrow> (int \<times> int) set" where
  "rect_cells r = {rect_top r..<rect_bottom r} \<times> {rect_left r..<rect_right r}"

definition rect_valid :: "grid_rect \<Rightarrow> bool" where
  "rect_valid r \<longleftrightarrow> in_i32 (rect_top r) \<and> in_i32 (rect_left r) \<and> gr_rows r \<le> u16_max \<and> gr_cols r \<le> u16_max"

section \<open>The scene\<close>

record scene_surface =
  ss_id :: u64
  ss_origin :: grid_point
  ss_snapshot :: terminal_snapshot

record scene_overlay =
  so_surface :: scene_surface
  so_z_index :: int

datatype cursor_owner = OwnerPane u64 | OwnerOverlay u64 | OwnerHidden

datatype pixel_format = FormatRgb | FormatRgba | FormatGrayAlpha | FormatGray

record presented_image =
  pi_image_id :: nat
  pi_placement_id :: nat
  pi_image_number :: nat
  pi_pixel_width :: nat
  pi_pixel_height :: nat
  pi_rendered_pixel_width :: nat
  pi_rendered_pixel_height :: nat
  pi_format :: pixel_format
  pi_data_len :: nat
  pi_data_digest :: u64
  pi_grid_rect :: grid_rect
  pi_x_offset :: nat
  pi_y_offset :: nat
  pi_source_x :: nat
  pi_source_y :: nat
  pi_source_width :: nat
  pi_source_height :: nat
  pi_z_index :: int
  pi_virtual_placement :: bool
  pi_visible :: bool

record scene_image_upload =
  iu_owner :: u64
  iu_image_id :: nat
  iu_image_number :: nat
  iu_pixel_width :: nat
  iu_pixel_height :: nat
  iu_format :: pixel_format
  iu_data :: bytes
  iu_data_digest :: u64

record presented_image_upload =
  pu_image_id :: nat
  pu_pixel_width :: nat
  pu_pixel_height :: nat
  pu_format :: pixel_format
  pu_data_len :: nat
  pu_data_digest :: u64

record scene_image_placement =
  ip_owner :: u64
  ip_image :: presented_image

record terminal_wide_effects =
  we_title :: "bytes option"
  we_working_directory :: "bytes option"
  we_bell_count :: nat

record scene =
  sc_geometry :: terminal_geometry
  sc_panes :: "scene_surface list"
  sc_overlays :: "scene_overlay list"
  sc_cursor_owner :: cursor_owner
  sc_image_uploads :: "scene_image_upload list"
  sc_images :: "scene_image_placement list"
  sc_effects :: terminal_wide_effects

definition scene_new :: "terminal_geometry \<Rightarrow> scene" where
  "scene_new g = \<lparr>sc_geometry = g, sc_panes = [], sc_overlays = [], sc_cursor_owner = OwnerHidden,
     sc_image_uploads = [], sc_images = [],
     sc_effects = \<lparr>we_title = None, we_working_directory = None, we_bell_count = 0\<rparr>\<rparr>"

text \<open>The physical terminal's shadow\<close>

record presented_scene =
  ps_geometry :: terminal_geometry
  ps_rows :: "row list"
  ps_cursor :: cursor
  ps_cursor_owner :: cursor_owner
  ps_screen :: screen_identity
  ps_modes :: terminal_modes
  ps_title :: "bytes option"
  ps_working_directory :: "bytes option"
  ps_image_uploads :: "presented_image_upload list"
  ps_images :: "presented_image list"
  ps_bell_count :: nat

text \<open>Errors of the presentation; those of the engine, of files and of JSON arise in the render
  oracle only.\<close>

datatype presentation_error =
    MediaLimitExceeded bytes nat nat
  | InconsistentMediaUpload nat
  | InconsistentComposedMedia
  | MissingMediaUpload u64 nat

abbreviation grid_rows :: "terminal_geometry \<Rightarrow> nat" where "grid_rows g \<equiv> unat (geom_rows g)"
abbreviation grid_cols :: "terminal_geometry \<Rightarrow> nat" where "grid_cols g \<equiv> unat (geom_cols g)"

lemma geometry_bounds: "grid_rows g \<le> u16_max" "grid_cols g \<le> u16_max"
  using unsigned_less [where 'a = nat and w = "geom_rows g"] unsigned_less [where 'a = nat and w = "geom_cols g"]
  by (simp_all add: u16_max_def)

section \<open>Digests\<close>

unbundle bit_operations_syntax

text \<open>\<^verbatim>\<open>stable_digest\<close>: FNV-1a on 64-bit words\<close>

definition stable_digest :: "bytes \<Rightarrow> u64" where
  "stable_digest bs =
     foldl (\<lambda>digest b. (digest XOR word_of_nat (byte_val b)) * 0x100000001b3) 0xcbf29ce484222325 bs"

end
