(* ===== verification/Scene_Images.thy ===== *)
theory Scene_Images
  imports Scene_Types Btree_Map "HOL-Library.Product_Lexorder" "HOL-Library.Multiset"
begin

text \<open>
  Image placements in the scene (\<^verbatim>\<open>presentation.rs\<close>): clipping a placement to a rectangle,
  cutting the part below an overlay out of it, and mapping the identifiers of the panes, which
  may collide, into the outer terminal's. The lemmas give the cells that the pieces of a
  placement cover and the distinctness of the allocated identifiers.
\<close>

section \<open>Rectangles and clipping\<close>

definition intersect_rect :: "grid_rect \<Rightarrow> grid_rect \<Rightarrow> grid_rect option" where
  "intersect_rect l r =
     (let t = max (rect_top l) (rect_top r);
          left_col = max (rect_left l) (rect_left r);
          bottom = min (rect_bottom l) (rect_bottom r);
          right_col = min (rect_right l) (rect_right r)
      in if bottom > t \<and> right_col > left_col
         then Some (grid_rect_new (grid_point_new t left_col)
                (u16_or u16_max (bottom - t)) (u16_or u16_max (right_col - left_col)))
         else None)"

definition clip_image_placement :: "presented_image \<Rightarrow> grid_rect \<Rightarrow> presented_image option" where
  "clip_image_placement img clip =
     (case intersect_rect (pi_grid_rect img) clip of
        None \<Rightarrow> None
      | Some intersection \<Rightarrow>
          let rect = pi_grid_rect img;
              top_cells = nat (max (sat_i32 (rect_top intersection - rect_top rect)) 0);
              left_cells = nat (max (sat_i32 (rect_left intersection - rect_left rect)) 0);
              original_rows = max (gr_rows rect) 1;
              original_cols = max (gr_cols rect) 1;
              source_width = (if pi_source_width img = 0 then pi_pixel_width img else pi_source_width img);
              source_height = (if pi_source_height img = 0 then pi_pixel_height img else pi_source_height img);
              left_pixels = sat_u32 (source_width * left_cells) div original_cols;
              top_pixels = sat_u32 (source_height * top_cells) div original_rows;
              kept_width = max (sat_u32 (source_width * gr_cols intersection) div original_cols)
                             (of_bool (source_width > 0));
              kept_height = max (sat_u32 (source_height * gr_rows intersection) div original_rows)
                              (of_bool (source_height > 0));
              rendered_width = sat_u32 (pi_rendered_pixel_width img * gr_cols intersection) div original_cols;
              rendered_height = sat_u32 (pi_rendered_pixel_height img * gr_rows intersection) div original_rows
          in Some (img\<lparr>
               pi_grid_rect := intersection,
               pi_source_x := sat_u32 (pi_source_x img + left_pixels),
               pi_source_y := sat_u32 (pi_source_y img + top_pixels),
               pi_source_width := kept_width,
               pi_source_height := kept_height,
               pi_x_offset := (if left_cells > 0 then 0 else pi_x_offset img),
               pi_y_offset := (if top_cells > 0 then 0 else pi_y_offset img),
               pi_rendered_pixel_width :=
                 (if pi_rendered_pixel_width img > 0 then max rendered_width 1 else rendered_width),
               pi_rendered_pixel_height :=
                 (if pi_rendered_pixel_height img > 0 then max rendered_height 1 else rendered_height)\<rparr>))"

text \<open>The four strips around the occluded part: above, below, left and right of it\<close>

definition subtract_candidates :: "grid_rect \<Rightarrow> grid_rect \<Rightarrow> grid_rect list" where
  "subtract_candidates rect intersection =
     (let intersection_bottom = rect_bottom intersection;
          intersection_right = rect_right intersection
      in [grid_rect_new (gr_origin rect) (u16_or 0 (rect_top intersection - rect_top rect)) (gr_cols rect),
          grid_rect_new (grid_point_new intersection_bottom (rect_left rect))
            (u16_or 0 (rect_bottom rect - intersection_bottom)) (gr_cols rect),
          grid_rect_new (grid_point_new (rect_top intersection) (rect_left rect))
            (gr_rows intersection) (u16_or 0 (rect_left intersection - rect_left rect)),
          grid_rect_new (grid_point_new (rect_top intersection) intersection_right)
            (gr_rows intersection) (u16_or 0 (rect_right rect - intersection_right))])"

definition subtract_image_placement :: "presented_image \<Rightarrow> grid_rect \<Rightarrow> presented_image list" where
  "subtract_image_placement img occluder =
     (case intersect_rect (pi_grid_rect img) occluder of
        None \<Rightarrow> [img]
      | Some intersection \<Rightarrow>
          List.map_filter (clip_image_placement img)
            (filter (\<lambda>r. 0 < gr_rows r \<and> 0 < gr_cols r)
               (subtract_candidates (pi_grid_rect img) intersection)))"

section \<open>Outer identifiers\<close>

text \<open>\<^verbatim>\<open>to_le_bytes\<close> of an integer of \<open>k\<close> bytes\<close>

definition le_bytes :: "nat \<Rightarrow> nat \<Rightarrow> bytes" where
  "le_bytes k n = map (\<lambda>i. char_of (n div 256 ^ i)) [0..<k]"

definition le_i32 :: "int \<Rightarrow> bytes" where
  "le_i32 i = le_bytes 4 (nat (i mod 2 ^ 32))"

definition placement_fragment_digest :: "presented_image \<Rightarrow> u64" where
  "placement_fragment_digest img =
     stable_digest
       (le_i32 (rect_top (pi_grid_rect img)) @ le_i32 (rect_left (pi_grid_rect img)) @
        le_bytes 2 (gr_rows (pi_grid_rect img)) @ le_bytes 2 (gr_cols (pi_grid_rect img)) @
        le_bytes 4 (pi_source_x img) @ le_bytes 4 (pi_source_y img) @
        le_bytes 4 (pi_source_width img) @ le_bytes 4 (pi_source_height img) @
        le_bytes 4 (pi_x_offset img) @ le_bytes 4 (pi_y_offset img) @
        le_i32 (pi_z_index img) @ [char_of (of_bool (pi_virtual_placement img) :: nat)])"

definition stable_namespace_seed :: "u64 \<Rightarrow> nat \<Rightarrow> u64 \<Rightarrow> u64 \<Rightarrow> u64" where
  "stable_namespace_seed owner source_id extra tag =
     stable_digest (le_bytes 8 (unat owner) @ le_bytes 4 source_id @ le_bytes 8 (unat extra) @ le_bytes 8 (unat tag))"

text \<open>The search for a free identifier; it need not end, so its result is an option\<close>

definition succ_id :: "nat \<Rightarrow> nat" where
  "succ_id i = max ((i + 1) mod 2 ^ 32) 1"

partial_function (option) allocate_loop :: "nat \<Rightarrow> nat set \<Rightarrow> nat option" where
  "allocate_loop i used = (if i \<in> used then allocate_loop (succ_id i) used else Some i)"

definition allocate_outer_id :: "u64 \<Rightarrow> nat set \<Rightarrow> (nat \<times> nat set) option" where
  "allocate_outer_id seed used =
     map_option (\<lambda>i. (i, insert i used)) (allocate_loop (max (unat seed mod 2 ^ 32) 1) used)"

type_synonym image_key = "u64 \<times> nat \<times> u64"

definition upload_key :: "scene_image_upload \<Rightarrow> image_key" where
  "upload_key u = (iu_owner u, iu_image_id u, iu_data_digest u)"

text \<open>The upload that a placement shows: the first of its owner with its img\<close>

definition placement_upload :: "scene \<Rightarrow> scene_image_placement \<Rightarrow> scene_image_upload option" where
  "placement_upload sc p =
     find (\<lambda>u. iu_owner u = ip_owner p \<and> iu_image_id u = pi_image_id (ip_image p)) (sc_image_uploads sc)"

definition placement_key :: "scene \<Rightarrow> scene_image_placement \<Rightarrow> image_key" where
  "placement_key sc p =
     (ip_owner p, pi_image_id (ip_image p),
      case placement_upload sc p of None \<Rightarrow> pi_data_digest (ip_image p) | Some u \<Rightarrow> iu_data_digest u)"

definition image_keys :: "scene \<Rightarrow> image_key list" where
  "image_keys sc = sort (remdups (map upload_key (sc_image_uploads sc) @ map (placement_key sc) (sc_images sc)))"

fun allocate_images :: "nat set \<Rightarrow> image_key list \<Rightarrow> (image_key, nat) btree_map option" where
  "allocate_images used [] = Some []"
| "allocate_images used ((owner, source_image_id, digest) # keys) =
     Option.bind (allocate_outer_id (stable_namespace_seed owner source_image_id digest 0x494d414745000001) used)
       (\<lambda>(outer, used). map_option (\<lambda>m. ((owner, source_image_id, digest), outer) # m) (allocate_images used keys))"

definition outer_image_ids :: "scene \<Rightarrow> (image_key, nat) btree_map option" where
  "outer_image_ids sc = allocate_images {} (image_keys sc)"

section \<open>Composition\<close>

record composed_image =
  ci_owner :: u64
  ci_source_image_id :: nat
  ci_image :: presented_image

definition overlay_rect :: "scene_overlay \<Rightarrow> grid_rect" where
  "overlay_rect ov =
     (let s = so_surface ov in
      grid_rect_new (ss_origin s) (grid_rows (ts_geometry (ss_snapshot s))) (grid_cols (ts_geometry (ss_snapshot s))))"

text \<open>Overlays in the order they are painted: by height, then as the scene lists them\<close>

definition overlay_layers :: "scene \<Rightarrow> scene_overlay list" where
  "overlay_layers sc = sort_key so_z_index (sc_overlays sc)"

definition scene_bounds :: "scene \<Rightarrow> grid_rect" where
  "scene_bounds sc = grid_rect_new (grid_point_new 0 0) (grid_rows (sc_geometry sc)) (grid_cols (sc_geometry sc))"

fun subtract_layers :: "presented_image list \<Rightarrow> grid_rect list \<Rightarrow> presented_image list" where
  "subtract_layers fragments [] = fragments"
| "subtract_layers fragments (r # rs) =
     (let fragments = concat (map (\<lambda>f. subtract_image_placement f r) fragments) in
      if fragments = [] then [] else subtract_layers fragments rs)"

text \<open>The overlays above a placement: all of them for a pane's img, those above its own for an
  overlay's\<close>

definition occluders :: "scene \<Rightarrow> u64 \<Rightarrow> grid_rect list" where
  "occluders sc owner =
     map overlay_rect
       (case position (\<lambda>ov. ss_id (so_surface ov) = owner) (overlay_layers sc) of
          None \<Rightarrow> overlay_layers sc
        | Some i \<Rightarrow> drop (Suc i) (overlay_layers sc))"

definition placement_fragments :: "scene \<Rightarrow> scene_image_placement \<Rightarrow> presented_image list" where
  "placement_fragments sc p =
     (case clip_image_placement (ip_image p) (scene_bounds sc) of
        None \<Rightarrow> []
      | Some img \<Rightarrow> if \<not> pi_visible img then [] else subtract_layers [img] (occluders sc (ip_owner p)))"

definition finish_fragment :: "scene \<Rightarrow> scene_image_placement \<Rightarrow> nat \<Rightarrow> presented_image \<Rightarrow> presented_image" where
  "finish_fragment sc p outer_image_id f =
     (let f = (case placement_upload sc p of
                 None \<Rightarrow> f
               | Some u \<Rightarrow> f\<lparr>pi_data_len := length (iu_data u), pi_format := iu_format u,
                            pi_pixel_width := iu_pixel_width u, pi_pixel_height := iu_pixel_height u\<rparr>);
          w = unat (geom_cell_width_px (sc_geometry sc));
          h = unat (geom_cell_height_px (sc_geometry sc));
          f = (if pi_rendered_pixel_width f = 0 \<and> w > 0
               then f\<lparr>pi_rendered_pixel_width := sat_u32 (gr_cols (pi_grid_rect f) * w)\<rparr> else f);
          f = (if pi_rendered_pixel_height f = 0 \<and> h > 0
               then f\<lparr>pi_rendered_pixel_height := sat_u32 (gr_rows (pi_grid_rect f) * h)\<rparr> else f)
      in f\<lparr>pi_image_id := outer_image_id\<rparr>)"

fun compose_fragments ::
  "scene \<Rightarrow> scene_image_placement \<Rightarrow> nat \<Rightarrow> nat set \<Rightarrow> presented_image list \<Rightarrow> (composed_image list \<times> nat set) option" where
  "compose_fragments sc p outer used [] = Some ([], used)"
| "compose_fragments sc p outer used (f # fs) =
     (let f = finish_fragment sc p outer f in
      Option.bind
        (allocate_outer_id (stable_namespace_seed (ip_owner p) (pi_placement_id (ip_image p))
           (placement_fragment_digest f) 0x504c414345000001) used)
        (\<lambda>(i, used).
           map_option (\<lambda>(cs, used).
               (\<lparr>ci_owner = ip_owner p, ci_source_image_id = pi_image_id (ip_image p),
                 ci_image = f\<lparr>pi_placement_id := i\<rparr>\<rparr> # cs, used))
             (compose_fragments sc p outer used fs)))"

text \<open>A missing entry of the identifier map would be a panic: None, as for a search that does not
  end. Placements that are clipped away or hidden are skipped before the lookup.\<close>

fun compose_placements ::
  "scene \<Rightarrow> (image_key, nat) btree_map \<Rightarrow> nat set \<Rightarrow> scene_image_placement list \<Rightarrow> composed_image list option" where
  "compose_placements sc image_ids used [] = Some []"
| "compose_placements sc image_ids used (p # ps) =
     (case clip_image_placement (ip_image p) (scene_bounds sc) of
        None \<Rightarrow> compose_placements sc image_ids used ps
      | Some img \<Rightarrow>
          if \<not> pi_visible img then compose_placements sc image_ids used ps
          else Option.bind (btree_get image_ids (placement_key sc p))
            (\<lambda>outer. Option.bind (compose_fragments sc p outer used (placement_fragments sc p))
              (\<lambda>(cs, used). map_option (\<lambda>rest. cs @ rest) (compose_placements sc image_ids used ps))))"

definition record_key :: "composed_image \<Rightarrow> int \<times> nat \<times> nat" where
  "record_key c = (pi_z_index (ci_image c), pi_image_id (ci_image c), pi_placement_id (ci_image c))"

definition compose_image_records :: "scene \<Rightarrow> composed_image list option" where
  "compose_image_records sc =
     Option.bind (outer_image_ids sc)
       (\<lambda>image_ids. map_option (sort_key record_key) (compose_placements sc image_ids {} (sc_images sc)))"

definition compose_images :: "scene \<Rightarrow> presented_image list option" where
  "compose_images sc = map_option (map ci_image) (compose_image_records sc)"

definition presented_upload :: "nat \<Rightarrow> scene_image_upload \<Rightarrow> presented_image_upload" where
  "presented_upload i u =
     \<lparr>pu_image_id = i, pu_pixel_width = iu_pixel_width u, pu_pixel_height = iu_pixel_height u,
      pu_format = iu_format u, pu_data_len = length (iu_data u), pu_data_digest = iu_data_digest u\<rparr>"

definition compose_image_uploads :: "scene \<Rightarrow> presented_image_upload list option" where
  "compose_image_uploads sc =
     map_option
       (\<lambda>image_ids. map snd
          (fold (\<lambda>u m. case btree_get image_ids (upload_key u) of
                         None \<Rightarrow> m
                       | Some i \<Rightarrow> btree_insert i (presented_upload i u) m)
             (sc_image_uploads sc) []))
       (outer_image_ids sc)"

section \<open>Cells of the pieces\<close>

lemma u16_or_id: "0 \<le> i \<Longrightarrow> i \<le> int u16_max \<Longrightarrow> int (u16_or d i) = i"
  by (simp add: u16_or_def)

lemma sat_i32_bounds: "in_i32 a \<Longrightarrow> a \<le> sat_i32 (a + int n)" "in_i32 a \<Longrightarrow> sat_i32 (a + int n) \<le> a + int n"
  by (auto simp: sat_i32_def in_i32_def)

text \<open>The rectangle given by its four edges\<close>

definition edge_cells :: "int \<Rightarrow> int \<Rightarrow> int \<Rightarrow> int \<Rightarrow> (int \<times> int) set" where
  "edge_cells t b l r = {t..<b} \<times> {l..<r}"

lemma rect_cells_edges: "rect_cells r = edge_cells (rect_top r) (rect_bottom r) (rect_left r) (rect_right r)"
  by (simp add: rect_cells_def edge_cells_def)

lemma edge_rect:
  assumes "in_i32 t" "in_i32 l" "in_i32 b" "in_i32 r" "t \<le> b" "l \<le> r" "b - t \<le> int u16_max" "r - l \<le> int u16_max"
    and rows: "int n = b - t" and cols: "int m = r - l"
  shows "rect_cells (grid_rect_new (grid_point_new t l) n m) = edge_cells t b l r"
    and "rect_valid (grid_rect_new (grid_point_new t l) n m)"
    and "rect_bottom (grid_rect_new (grid_point_new t l) n m) = b"
    and "rect_right (grid_rect_new (grid_point_new t l) n m) = r"
  using assms by (simp_all add: rect_cells_edges rect_new_defs sat_i32_id rect_valid_def)

lemma valid_edges:
  assumes "rect_valid r"
  shows "in_i32 (rect_top r)" "in_i32 (rect_left r)" "rect_top r \<le> rect_bottom r" "rect_left r \<le> rect_right r"
    "rect_bottom r - rect_top r \<le> int u16_max" "rect_right r - rect_left r \<le> int u16_max"
  using assms sat_i32_bounds [of "rect_top r" "gr_rows r"] sat_i32_bounds [of "rect_left r" "gr_cols r"]
  by (auto simp: rect_valid_def)

lemma intersect_rect_cells:
  assumes l: "rect_valid l" and r: "rect_valid r"
  shows "case intersect_rect l r of
           None \<Rightarrow> rect_cells l \<inter> rect_cells r = {}
         | Some i \<Rightarrow> rect_valid i \<and> rect_cells i = rect_cells l \<inter> rect_cells r \<and>
             rect_top i = max (rect_top l) (rect_top r) \<and> rect_bottom i = min (rect_bottom l) (rect_bottom r) \<and>
             rect_left i = max (rect_left l) (rect_left r) \<and> rect_right i = min (rect_right l) (rect_right r) \<and>
             rect_top i < rect_bottom i \<and> rect_left i < rect_right i \<and>
             int (gr_rows i) = rect_bottom i - rect_top i \<and> int (gr_cols i) = rect_right i - rect_left i"
proof -
  let ?t = "max (rect_top l) (rect_top r)" and ?b = "min (rect_bottom l) (rect_bottom r)"
  let ?l = "max (rect_left l) (rect_left r)" and ?r = "min (rect_right l) (rect_right r)"
  note e = valid_edges [OF l] valid_edges [OF r]
  have cells: "rect_cells l \<inter> rect_cells r = edge_cells ?t ?b ?l ?r"
    by (auto simp: rect_cells_edges edge_cells_def)
  show ?thesis
  proof (cases "?t < ?b \<and> ?l < ?r")
    case False
    then show ?thesis by (auto simp: intersect_rect_def cells edge_cells_def)
  next
    case True
    define t b lc rc where d: "t = ?t" "b = ?b" "lc = ?l" "rc = ?r"
    have range: "in_i32 t" "in_i32 lc" "in_i32 b" "in_i32 rc" using e by (auto simp: d max_def min_def)
    have lt: "t < b" "lc < rc" using True by (simp_all add: d)
    have len: "b - t \<le> int u16_max" "rc - lc \<le> int u16_max" using e by (auto simp: d)
    have n: "int (u16_or u16_max (b - t)) = b - t" "int (u16_or u16_max (rc - lc)) = rc - lc"
      using lt len by (simp_all add: u16_or_id)
    define i where "i = grid_rect_new (grid_point_new t lc) (u16_or u16_max (b - t)) (u16_or u16_max (rc - lc))"
    note ed = edge_rect [OF range(1,2,3,4) less_imp_le less_imp_le len n, OF lt, folded i_def]
    have parts: "rect_top i = t" "rect_left i = lc" "gr_rows i = u16_or u16_max (b - t)" "gr_cols i = u16_or u16_max (rc - lc)"
      by (simp_all add: i_def rect_new_defs)
    have "intersect_rect l r = Some i"
      using lt unfolding i_def d intersect_rect_def Let_def by (simp only: simp_thms if_True)
    then show ?thesis using ed parts lt n cells by (simp add: d)
  qed
qed

lemma clip_image_rect:
  "map_option pi_grid_rect (clip_image_placement img clip) = intersect_rect (pi_grid_rect img) clip"
  by (simp add: clip_image_placement_def Let_def split: option.split)

text \<open>A strip inside the image's rectangle is cut out whole.\<close>

lemma clip_strip:
  assumes img: "rect_valid (pi_grid_rect img)" and r: "rect_valid r" "rect_cells r \<subseteq> rect_cells (pi_grid_rect img)"
    and ne: "rect_top r < rect_bottom r" "rect_left r < rect_right r"
  obtains c where "clip_image_placement img r = Some c" "rect_cells (pi_grid_rect c) = rect_cells r" "rect_valid (pi_grid_rect c)"
proof -
  have "(rect_top r, rect_left r) \<in> rect_cells r" using ne by (simp add: rect_cells_def)
  then have "rect_cells (pi_grid_rect img) \<inter> rect_cells r \<noteq> {}" using r(2) by blast
  then obtain i where i: "intersect_rect (pi_grid_rect img) r = Some i"
    using intersect_rect_cells [OF img r(1)] by (auto split: option.splits)
  then obtain c where c: "clip_image_placement img r = Some c" "pi_grid_rect c = i"
    using clip_image_rect [of img r] by (auto simp: map_option_eq_Some)
  show thesis
    using that [OF c(1)] c(2) i intersect_rect_cells [OF img r(1)] r(2) by (simp add: Int_absorb1)
qed

definition disjoint_cells :: "presented_image list \<Rightarrow> bool" where
  "disjoint_cells fs \<longleftrightarrow> sorted_wrt (\<lambda>f g. rect_cells (pi_grid_rect f) \<inter> rect_cells (pi_grid_rect g) = {}) fs"

definition image_cells :: "presented_image list \<Rightarrow> (int \<times> int) set" where
  "image_cells fs = (\<Union>f \<in> set fs. rect_cells (pi_grid_rect f))"

lemma image_cells_simps [simp]:
  "image_cells [] = {}" "image_cells (f # fs) = rect_cells (pi_grid_rect f) \<union> image_cells fs"
  "image_cells (fs @ gs) = image_cells fs \<union> image_cells gs"
  by (auto simp: image_cells_def)

lemma disjoint_cells_append:
  "disjoint_cells (fs @ gs) \<longleftrightarrow> disjoint_cells fs \<and> disjoint_cells gs \<and> image_cells fs \<inter> image_cells gs = {}"
  by (auto simp: disjoint_cells_def sorted_wrt_append image_cells_def)

lemma disjoint_cells_simps [simp]:
  "disjoint_cells []" "disjoint_cells (f # fs) \<longleftrightarrow> rect_cells (pi_grid_rect f) \<inter> image_cells fs = {} \<and> disjoint_cells fs"
  by (auto simp: disjoint_cells_def image_cells_def)

abbreviation valid_images :: "presented_image list \<Rightarrow> bool" where
  "valid_images fs \<equiv> list_all (\<lambda>f. rect_valid (pi_grid_rect f)) fs"

text \<open>Cutting a list of strips with pairwise disjoint cells out of an image\<close>

lemma clip_strips:
  assumes img: "rect_valid (pi_grid_rect img)"
    and rs: "list_all (\<lambda>r. rect_valid r \<and> rect_cells r \<subseteq> rect_cells (pi_grid_rect img)) rs"
      "sorted_wrt (\<lambda>r r'. rect_cells r \<inter> rect_cells r' = {}) rs"
  defines "fs \<equiv> List.map_filter (clip_image_placement img) (filter (\<lambda>r. 0 < gr_rows r \<and> 0 < gr_cols r) rs)"
  shows "valid_images fs \<and> disjoint_cells fs \<and> image_cells fs = (\<Union>r \<in> set rs. rect_cells r)"
  using rs unfolding fs_def
proof (induction rs)
  case Nil
  then show ?case by (simp add: map_filter_simps)
next
  case (Cons r rs)
  then have r: "rect_valid r" "rect_cells r \<subseteq> rect_cells (pi_grid_rect img)" by auto
  have tail: "valid_images (List.map_filter (clip_image_placement img) (filter (\<lambda>r. 0 < gr_rows r \<and> 0 < gr_cols r) rs)) \<and>
      disjoint_cells (List.map_filter (clip_image_placement img) (filter (\<lambda>r. 0 < gr_rows r \<and> 0 < gr_cols r) rs)) \<and>
      image_cells (List.map_filter (clip_image_placement img) (filter (\<lambda>r. 0 < gr_rows r \<and> 0 < gr_cols r) rs)) =
        (\<Union>r \<in> set rs. rect_cells r)"
    using Cons by simp
  have "(\<Union>x \<in> set rs. rect_cells r \<inter> rect_cells x) = {}" using Cons.prems by auto
  then have disj: "rect_cells r \<inter> (\<Union>x \<in> set rs. rect_cells x) = {}" by auto
  consider "rect_cells r = {}" "\<not> (0 < gr_rows r \<and> 0 < gr_cols r)"
    | "rect_cells r = {}" "clip_image_placement img r = None"
    | c where "0 < gr_rows r \<and> 0 < gr_cols r" "clip_image_placement img r = Some c"
        "rect_cells (pi_grid_rect c) = rect_cells r" "rect_valid (pi_grid_rect c)"
  proof (cases "rect_cells r = {}")
    case True
    then have "intersect_rect (pi_grid_rect img) r = None"
      using intersect_rect_cells [OF img r(1)] by (auto simp: rect_cells_edges edge_cells_def split: option.splits)
    then have "clip_image_placement img r = None" using clip_image_rect [of img r] by simp
    then show thesis using True that(2) by blast
  next
    case False
    then have ne: "rect_top r < rect_bottom r" "rect_left r < rect_right r" by (auto simp: rect_cells_def)
    have "0 < gr_rows r" "0 < gr_cols r"
      using ne r(1) by (auto simp: rect_valid_def sat_i32_id intro: gr0I)
    moreover obtain c where "clip_image_placement img r = Some c" "rect_cells (pi_grid_rect c) = rect_cells r"
        "rect_valid (pi_grid_rect c)"
      using clip_strip [OF img r ne] by blast
    ultimately show thesis using that(3) by blast
  qed
  then show ?case
  proof cases
    case 1
    show ?thesis using tail by (simp add: 1)
  next
    case 2
    show ?thesis using tail by (simp add: 2 map_filter_simps)
  next
    case (3 c)
    show ?thesis using tail disj by (simp add: 3 map_filter_simps)
  qed
qed

lemma row_strip:
  assumes "rect_valid r" "rect_top r \<le> t" "t \<le> b" "b \<le> rect_bottom r" "in_i32 t" "in_i32 b"
  defines "x \<equiv> grid_rect_new (grid_point_new t (rect_left r)) (u16_or 0 (b - t)) (gr_cols r)"
  shows "rect_valid x \<and> rect_cells x = edge_cells t b (rect_left r) (rect_right r)"
proof -
  have "b - t \<le> int u16_max" using valid_edges(5) [OF assms(1)] assms(2,4) by linarith
  then have "int (u16_or 0 (b - t)) = b - t" using assms(3) by (simp add: u16_or_id)
  moreover have "u16_or 0 (b - t) \<le> u16_max" by (auto simp: u16_or_def)
  ultimately show ?thesis
    using assms(1,5,6) by (simp add: x_def rect_cells_edges rect_new_defs rect_valid_def sat_i32_id)
qed

lemma col_strip:
  assumes "rect_valid r" "rect_valid i" "rect_left r \<le> l" "l \<le> c" "c \<le> rect_right r" "in_i32 l" "in_i32 c"
  defines "x \<equiv> grid_rect_new (grid_point_new (rect_top i) l) (gr_rows i) (u16_or 0 (c - l))"
  shows "rect_valid x \<and> rect_cells x = edge_cells (rect_top i) (rect_bottom i) l c"
proof -
  have "c - l \<le> int u16_max" using valid_edges(6) [OF assms(1)] assms(3,5) by linarith
  then have "int (u16_or 0 (c - l)) = c - l" using assms(4) by (simp add: u16_or_id)
  moreover have "u16_or 0 (c - l) \<le> u16_max" by (auto simp: u16_or_def)
  ultimately show ?thesis
    using assms(2,6,7) by (simp add: x_def rect_cells_edges rect_new_defs rect_valid_def sat_i32_id)
qed

lemma subtract_exact:
  assumes img: "rect_valid (pi_grid_rect img)" and occ: "rect_valid occluder"
  shows "valid_images (subtract_image_placement img occluder) \<and> disjoint_cells (subtract_image_placement img occluder) \<and>
    image_cells (subtract_image_placement img occluder) = rect_cells (pi_grid_rect img) - rect_cells occluder"
proof (cases "intersect_rect (pi_grid_rect img) occluder")
  case None
  then show ?thesis using img intersect_rect_cells [OF img occ] by (auto simp: subtract_image_placement_def)
next
  case (Some i)
  define R where "R = pi_grid_rect img"
  note Some' = Some [folded R_def]
  define t b l r t' b' l' r' where d: "t = rect_top R" "b = rect_bottom R" "l = rect_left R" "r = rect_right R"
    "t' = rect_top i" "b' = rect_bottom i" "l' = rect_left i" "r' = rect_right i"
  have i: "rect_valid i" "rect_cells i = rect_cells R \<inter> rect_cells occluder" "t \<le> t'" "b' \<le> b" "l \<le> l'" "r' \<le> r"
    "t' < b'" "l' < r'"
    using intersect_rect_cells [OF img occ] Some by (auto simp: d R_def)
  have R: "rect_valid R" using img by (simp add: R_def)
  have range: "in_i32 t" "in_i32 b" "in_i32 l" "in_i32 r" "in_i32 t'" "in_i32 b'" "in_i32 l'" "in_i32 r'"
    using R i(1) by (auto simp: d rect_valid_def)
  define s1 where "s1 = grid_rect_new (grid_point_new t l) (u16_or 0 (t' - t)) (gr_cols R)"
  define s2 where "s2 = grid_rect_new (grid_point_new b' l) (u16_or 0 (b - b')) (gr_cols R)"
  define s3 where "s3 = grid_rect_new (grid_point_new t' l) (gr_rows i) (u16_or 0 (l' - l))"
  define s4 where "s4 = grid_rect_new (grid_point_new t' r') (gr_rows i) (u16_or 0 (r - r'))"
  have s1: "rect_valid s1 \<and> rect_cells s1 = edge_cells t t' l r"
    using row_strip [OF R, of t t'] i range by (simp add: d s1_def)
  have s2: "rect_valid s2 \<and> rect_cells s2 = edge_cells b' b l r"
    using row_strip [OF R, of b' b] i range by (simp add: d s2_def)
  have s3: "rect_valid s3 \<and> rect_cells s3 = edge_cells t' b' l l'"
    using col_strip [OF R i(1), of l l'] i range by (simp add: d s3_def)
  have s4: "rect_valid s4 \<and> rect_cells s4 = edge_cells t' b' r' r"
    using col_strip [OF R i(1), of r' r] i range by (simp add: d s4_def)
  have Rc: "rect_cells R = edge_cells t b l r" "rect_cells i = edge_cells t' b' l' r'"
    by (simp_all add: rect_cells_edges d)
  have cand: "subtract_candidates R i = [s1, s2, s3, s4]"
    by (simp add: subtract_candidates_def Let_def s1_def s2_def s3_def s4_def d rect_new_defs)
  have "valid_images (subtract_image_placement img occluder) \<and> disjoint_cells (subtract_image_placement img occluder) \<and>
    image_cells (subtract_image_placement img occluder) = (\<Union>r \<in> set [s1, s2, s3, s4]. rect_cells r)"
    unfolding subtract_image_placement_def R_def [symmetric] Some' option.case cand
  proof (rule clip_strips [of img, folded R_def])
    show "rect_valid R" by (rule R)
    show "list_all (\<lambda>r. rect_valid r \<and> rect_cells r \<subseteq> rect_cells R) [s1, s2, s3, s4]"
      using s1 s2 s3 s4 i Rc by (auto simp: edge_cells_def)
    show "sorted_wrt (\<lambda>r r'. rect_cells r \<inter> rect_cells r' = {}) [s1, s2, s3, s4]"
      using s1 s2 s3 s4 i by (auto simp: edge_cells_def)
  qed
  moreover have "(\<Union>r \<in> set [s1, s2, s3, s4]. rect_cells r) = rect_cells R - rect_cells i"
    using s1 s2 s3 s4 Rc i(3-8) by (auto simp: edge_cells_def)
  ultimately show ?thesis using i(2) by (auto simp: R_def)
qed

lemma image_cells_concat: "image_cells (concat (map h fs)) = (\<Union>f \<in> set fs. image_cells (h f))"
  by (induction fs) auto

lemma subtract_images_exact:
  assumes "valid_images fs" "disjoint_cells fs" "rect_valid r"
  defines "gs \<equiv> concat (map (\<lambda>f. subtract_image_placement f r) fs)"
  shows "valid_images gs \<and> disjoint_cells gs \<and> image_cells gs = image_cells fs - rect_cells r"
  using assms(1,2) unfolding gs_def
proof (induction fs)
  case (Cons f fs)
  have f: "valid_images (subtract_image_placement f r) \<and> disjoint_cells (subtract_image_placement f r) \<and>
      image_cells (subtract_image_placement f r) = rect_cells (pi_grid_rect f) - rect_cells r"
    using Cons.prems by (intro subtract_exact assms(3)) simp
  have tail: "valid_images (concat (map (\<lambda>f. subtract_image_placement f r) fs)) \<and>
      disjoint_cells (concat (map (\<lambda>f. subtract_image_placement f r) fs)) \<and>
      image_cells (concat (map (\<lambda>f. subtract_image_placement f r) fs)) = image_cells fs - rect_cells r"
    using Cons by simp
  show ?case using f tail Cons.prems by (auto simp: disjoint_cells_append)
qed simp

lemma subtract_layers_exact:
  "valid_images fs \<Longrightarrow> disjoint_cells fs \<Longrightarrow> list_all rect_valid rs \<Longrightarrow>
   valid_images (subtract_layers fs rs) \<and> disjoint_cells (subtract_layers fs rs) \<and>
   image_cells (subtract_layers fs rs) = image_cells fs - (\<Union>r \<in> set rs. rect_cells r)"
proof (induction rs arbitrary: fs)
  case (Cons r rs)
  define gs where "gs = concat (map (\<lambda>f. subtract_image_placement f r) fs)"
  have gs: "valid_images gs \<and> disjoint_cells gs \<and> image_cells gs = image_cells fs - rect_cells r"
    unfolding gs_def using Cons.prems by (intro subtract_images_exact) auto
  have step: "subtract_layers fs (r # rs) = (if gs = [] then [] else subtract_layers gs rs)"
    by (simp add: gs_def Let_def)
  show ?case
  proof (cases "gs = []")
    case True
    then have "image_cells fs - rect_cells r = {}" using gs by auto
    then show ?thesis unfolding step by (auto simp: True)
  next
    case False
    then show ?thesis unfolding step using gs Cons by auto
  qed
qed simp

text \<open>What of a placement is to be seen: the part inside the scene that no overlay above it covers\<close>

definition visible_area :: "scene \<Rightarrow> scene_image_placement \<Rightarrow> (int \<times> int) set" where
  "visible_area sc p =
     (if pi_visible (ip_image p)
      then rect_cells (pi_grid_rect (ip_image p)) \<inter> rect_cells (scene_bounds sc)
             - (\<Union>r \<in> set (occluders sc (ip_owner p)). rect_cells r)
      else {})"

definition scene_rects_valid :: "scene \<Rightarrow> bool" where
  "scene_rects_valid sc \<longleftrightarrow>
     list_all (\<lambda>p. rect_valid (pi_grid_rect (ip_image p))) (sc_images sc) \<and>
     list_all (\<lambda>ov. in_i32 (gp_row (ss_origin (so_surface ov))) \<and> in_i32 (gp_col (ss_origin (so_surface ov)))) (sc_overlays sc)"

lemma scene_bounds_valid: "rect_valid (scene_bounds sc)"
  by (simp add: scene_bounds_def rect_valid_def rect_new_defs geometry_bounds in_i32_def)

lemma occluders_valid:
  assumes "scene_rects_valid sc"
  shows "list_all rect_valid (occluders sc owner)"
proof -
  have "list_all (\<lambda>ov. rect_valid (overlay_rect ov)) (overlay_layers sc)"
    using assms
    by (auto simp: list_all_iff overlay_layers_def scene_rects_valid_def rect_valid_def overlay_rect_def rect_new_defs
        geometry_bounds Let_def)
  then show ?thesis
    by (auto simp: occluders_def list_all_iff split: option.splits dest: in_set_dropD)
qed

lemma clip_visible: "clip_image_placement img r = Some c \<Longrightarrow> pi_visible c = pi_visible img"
  by (auto simp: clip_image_placement_def Let_def split: option.splits)

lemma fragments_exact:
  assumes sc: "scene_rects_valid sc" and p: "p \<in> set (sc_images sc)"
  shows "valid_images (placement_fragments sc p) \<and> disjoint_cells (placement_fragments sc p) \<and>
    image_cells (placement_fragments sc p) = visible_area sc p"
proof -
  have img: "rect_valid (pi_grid_rect (ip_image p))"
    using sc p by (simp add: scene_rects_valid_def list_all_iff)
  note clip = clip_image_rect [of "ip_image p" "scene_bounds sc"]
  note cells = intersect_rect_cells [OF img scene_bounds_valid [of sc]]
  show ?thesis
  proof (cases "clip_image_placement (ip_image p) (scene_bounds sc)")
    case None
    then show ?thesis using clip cells by (auto simp: placement_fragments_def visible_area_def)
  next
    case (Some c)
    then have c: "rect_valid (pi_grid_rect c)"
        "rect_cells (pi_grid_rect c) = rect_cells (pi_grid_rect (ip_image p)) \<inter> rect_cells (scene_bounds sc)"
      using clip cells by (auto split: option.splits)
    have "pi_visible c = pi_visible (ip_image p)" using clip_visible [OF Some] .
    then show ?thesis
      using subtract_layers_exact [of "[c]" "occluders sc (ip_owner p)"] occluders_valid [OF sc] c Some
      by (auto simp: placement_fragments_def visible_area_def)
  qed
qed

section \<open>Allocated identifiers\<close>

lemma succ_id_step: "x < u32_max \<Longrightarrow> succ_id (Suc x) = Suc (Suc x mod u32_max)"
  by (cases "Suc x = u32_max") (auto simp: succ_id_def u32_max_def)

lemma succ_id_iterate:
  assumes "1 \<le> i" "i \<le> u32_max"
  shows "(succ_id ^^ k) i = Suc ((i - 1 + k) mod u32_max)"
proof (induction k)
  case 0
  then show ?case using assms by simp
next
  case (Suc k)
  have "0 < u32_max" by (simp add: u32_max_def)
  then show ?case using succ_id_step [of "(i - 1 + k) mod u32_max"] by (simp add: Suc mod_Suc_eq)
qed

lemma allocate_loop_free:
  "(succ_id ^^ k) i \<notin> used \<Longrightarrow> \<exists>j n. allocate_loop i used = Some j \<and> j \<notin> used \<and> j = (succ_id ^^ n) i"
proof (induction k arbitrary: i)
  case 0
  then show ?case by (subst allocate_loop.simps) (auto intro: exI [of _ 0])
next
  case (Suc k)
  show ?case
  proof (cases "i \<in> used")
    case False
    then show ?thesis by (subst allocate_loop.simps) (auto intro: exI [of _ 0])
  next
    case True
    have "(succ_id ^^ k) (succ_id i) \<notin> used" using Suc.prems by (simp add: funpow_swap1)
    from Suc.IH [OF this] obtain j n where "allocate_loop (succ_id i) used = Some j" "j \<notin> used" "j = (succ_id ^^ n) (succ_id i)"
      by blast
    then show ?thesis using True
      by (subst allocate_loop.simps) (auto intro!: exI [of _ "Suc n"] simp: funpow_swap1)
  qed
qed

definition ids_valid :: "nat set \<Rightarrow> bool" where
  "ids_valid used \<longleftrightarrow> used \<subseteq> {1..u32_max}"

lemma ids_valid_finite: "ids_valid used \<Longrightarrow> finite used"
  unfolding ids_valid_def using finite_subset by blast

text \<open>While an identifier is free, the search ends with one.\<close>

lemma allocate_terminates:
  assumes used: "ids_valid used" and free: "card used < u32_max"
  obtains i where "allocate_outer_id seed used = Some (i, insert i used)" "i \<notin> used" "1 \<le> i" "i \<le> u32_max"
proof -
  define s where "s = max (unat seed mod 2 ^ 32) 1"
  have s: "1 \<le> s" "s \<le> u32_max"
    using mod_less_divisor [of "2 ^ 32" "unat seed"] by (simp_all add: s_def u32_max_def)
  have "\<not> {1..u32_max} \<subseteq> used"
  proof
    assume "{1..u32_max} \<subseteq> used"
    then have "used = {1..u32_max}" using used by (auto simp: ids_valid_def)
    then show False using free by simp
  qed
  then have "\<exists>j. 1 \<le> j \<and> j \<le> u32_max \<and> j \<notin> used" by (meson atLeastAtMost_iff subsetI)
  then obtain j where j: "1 \<le> j" "j \<le> u32_max" "j \<notin> used" by blast
  define k where "k = (j + u32_max - s)"
  have "s - 1 + k = u32_max + (j - 1)" using s j by (simp add: k_def)
  moreover have "(u32_max + (j - 1)) mod u32_max = j - 1" using j by (subst mod_add_self1) simp
  ultimately have "(succ_id ^^ k) s = j" using j(1) by (simp only: succ_id_iterate [OF s])
  then obtain i n where i: "allocate_loop s used = Some i" "i \<notin> used" "i = (succ_id ^^ n) s"
    using allocate_loop_free [of k s used] j(3) by blast
  have "(s - 1 + n) mod u32_max < u32_max" by (simp add: u32_max_def)
  then have "1 \<le> i \<and> i \<le> u32_max" by (simp add: i(3) succ_id_iterate [OF s])
  then show thesis using that i by (simp add: allocate_outer_id_def s_def)
qed

lemma allocate_images_total:
  "ids_valid used \<Longrightarrow> card used + length keys < Suc u32_max \<Longrightarrow>
   \<exists>m. allocate_images used keys = Some m \<and> map fst m = keys \<and> distinct (map snd m) \<and>
     set (map snd m) \<inter> used = {} \<and> ids_valid (set (map snd m))"
proof (induction keys arbitrary: used)
  case Nil
  then show ?case by (simp add: ids_valid_def)
next
  case (Cons key keys)
  obtain owner source digest where key: "key = (owner, source, digest)" by (cases key)
  obtain i where i: "allocate_outer_id (stable_namespace_seed owner source digest 0x494d414745000001) used = Some (i, insert i used)"
      "i \<notin> used" "1 \<le> i" "i \<le> u32_max"
    using allocate_terminates [of used] Cons.prems by auto
  have fin: "finite used" using Cons.prems ids_valid_finite by blast
  have "ids_valid (insert i used)" using Cons.prems i by (auto simp: ids_valid_def)
  moreover have "card (insert i used) + length keys < Suc u32_max" using Cons.prems i(2) fin by simp
  ultimately obtain m where m: "allocate_images (insert i used) keys = Some m" "map fst m = keys" "distinct (map snd m)"
      "set (map snd m) \<inter> insert i used = {}" "ids_valid (set (map snd m))"
    using Cons.IH [of "insert i used"] by blast
  then show ?case using i by (auto simp: key ids_valid_def)
qed

abbreviation scene_keys :: "scene \<Rightarrow> image_key set" where
  "scene_keys sc \<equiv> upload_key ` set (sc_image_uploads sc) \<union> placement_key sc ` set (sc_images sc)"

lemma image_keys_props:
  "set (image_keys sc) = scene_keys sc" "sorted_wrt (<) (image_keys sc)"
  "length (image_keys sc) \<le> length (sc_image_uploads sc) + length (sc_images sc)"
proof -
  show "set (image_keys sc) = scene_keys sc" by (simp add: image_keys_def)
  show "sorted_wrt (<) (image_keys sc)" by (simp add: image_keys_def strict_sorted_iff)
  show "length (image_keys sc) \<le> length (sc_image_uploads sc) + length (sc_images sc)"
    unfolding image_keys_def length_sort
    using length_remdups_leq [of "map upload_key (sc_image_uploads sc) @ map (placement_key sc) (sc_images sc)"] by simp
qed

lemma distinct_snd_inj:
  assumes "distinct (map snd m)"
  shows "inj_on (map_of m) (dom (map_of m))"
proof (rule inj_onI)
  fix x y
  assume "x \<in> dom (map_of m)" "map_of m x = map_of m y"
  then obtain v where "map_of m x = Some v" "map_of m y = Some v" by fastforce
  then have "(x, v) \<in> set m" "(y, v) \<in> set m" by (simp_all add: map_of_SomeD)
  moreover have "inj_on snd (set m)" using assms by (simp add: distinct_map)
  ultimately have "(x, v) = (y, v)" by (elim inj_onD) simp_all
  then show "x = y" by simp
qed

lemma outer_ids_total:
  assumes "length (sc_image_uploads sc) + length (sc_images sc) \<le> u32_max"
  shows "\<exists>m. outer_image_ids sc = Some m \<and> btree_inv m \<and> dom (btree_get m) = scene_keys sc \<and>
           inj_on (btree_get m) (scene_keys sc) \<and> (\<forall>k i. btree_get m k = Some i \<longrightarrow> 1 \<le> i \<and> i \<le> u32_max)"
proof -
  obtain m where m: "outer_image_ids sc = Some m" "map fst m = image_keys sc" "distinct (map snd m)"
      "ids_valid (set (map snd m))"
    using allocate_images_total [of "{}" "image_keys sc"] image_keys_props(3) [of sc] assms
    by (auto simp: outer_image_ids_def ids_valid_def)
  have keys: "sorted_wrt (<) (map fst m)" "distinct (map fst m)" "dom (btree_get m) = scene_keys sc"
    using image_keys_props [of sc] m(2) strict_sorted_iff
    by (auto simp: btree_get_def [abs_def] dom_map_of_conv_image_fst simp flip: set_map)
  have "1 \<le> i \<and> i \<le> u32_max" if "btree_get m k = Some i" for k i
    using m(4) map_of_SomeD [of m k i] that by (force simp: btree_get_def ids_valid_def)
  then show ?thesis
    using m(1) keys distinct_snd_inj [OF m(3)]
    by (auto simp: btree_inv_def btree_get_def [abs_def])
qed

text \<open>
  The outer identifiers of a scene's images are always found when the scene has fewer uploads
  and placements than there are identifiers: the search over the 32-bit identifiers ends, every
  upload and placement gets an identifier, none of them is zero, and different images get different
  ones.
\<close>

theorem outer_ids_allocated:
  "length (sc_image_uploads sc) + length (sc_images sc) \<le> u32_max \<Longrightarrow>
   \<exists>m. outer_image_ids sc = Some m \<and> btree_inv m \<and> dom (btree_get m) = scene_keys sc \<and>
     inj_on (btree_get m) (scene_keys sc) \<and> (\<forall>k i. btree_get m k = Some i \<longrightarrow> 1 \<le> i \<and> i \<le> u32_max)"
  by (rule outer_ids_total)

section \<open>Composed images\<close>

abbreviation records_ids :: "composed_image list \<Rightarrow> nat list" where
  "records_ids cs \<equiv> map (\<lambda>c. pi_placement_id (ci_image c)) cs"

lemma finish_fragment_props [simp]:
  "pi_grid_rect (finish_fragment sc p i f) = pi_grid_rect f" "pi_image_id (finish_fragment sc p i f) = i"
  "pi_z_index (finish_fragment sc p i f) = pi_z_index f"
  by (auto simp: finish_fragment_def Let_def split: option.split)

lemma compose_fragments_total:
  "ids_valid used \<Longrightarrow> card used + length fs \<le> u32_max \<Longrightarrow>
   \<exists>cs used'. compose_fragments sc p outer used fs = Some (cs, used') \<and>
     map (\<lambda>c. pi_grid_rect (ci_image c)) cs = map pi_grid_rect fs \<and>
     used' = used \<union> set (records_ids cs) \<and> distinct (records_ids cs) \<and> used \<inter> set (records_ids cs) = {} \<and>
     ids_valid used' \<and>
     list_all (\<lambda>c. ci_owner c = ip_owner p \<and> ci_source_image_id c = pi_image_id (ip_image p) \<and>
                  pi_image_id (ci_image c) = outer) cs"
proof (induction fs arbitrary: used)
  case (Cons f fs)
  define g where "g = finish_fragment sc p outer f"
  obtain i where i: "allocate_outer_id (stable_namespace_seed (ip_owner p) (pi_placement_id (ip_image p))
           (placement_fragment_digest g) 0x504c414345000001) used = Some (i, insert i used)"
      "i \<notin> used" "1 \<le> i" "i \<le> u32_max"
    using allocate_terminates [of used] Cons.prems by auto
  have fin: "finite used" using Cons.prems ids_valid_finite by blast
  have "ids_valid (insert i used)" using Cons.prems i by (auto simp: ids_valid_def)
  moreover have "card (insert i used) + length fs \<le> u32_max" using Cons.prems i(2) fin by simp
  ultimately obtain cs used' where cs: "compose_fragments sc p outer (insert i used) fs = Some (cs, used')"
     "map (\<lambda>c. pi_grid_rect (ci_image c)) cs = map pi_grid_rect fs"
     "used' = insert i used \<union> set (records_ids cs)" "distinct (records_ids cs)" "insert i used \<inter> set (records_ids cs) = {}"
     "ids_valid used'"
     "list_all (\<lambda>c. ci_owner c = ip_owner p \<and> ci_source_image_id c = pi_image_id (ip_image p) \<and>
                  pi_image_id (ci_image c) = outer) cs"
    using Cons.IH [of "insert i used"] by blast
  have grid: "pi_grid_rect g = pi_grid_rect f" "pi_image_id g = outer" by (simp_all add: g_def)
  show ?case
    unfolding compose_fragments.simps Let_def g_def [symmetric] i(1)
    using cs grid i(2) by (auto simp: ids_valid_def)
qed simp

definition group_for :: "scene \<Rightarrow> (image_key, nat) btree_map \<Rightarrow> scene_image_placement \<Rightarrow> composed_image list \<Rightarrow> bool" where
  "group_for sc ids p g \<longleftrightarrow>
     disjoint_cells (map ci_image g) \<and> image_cells (map ci_image g) = visible_area sc p \<and>
     list_all (\<lambda>c. ci_owner c = ip_owner p \<and> ci_source_image_id c = pi_image_id (ip_image p) \<and>
                  btree_get ids (placement_key sc p) = Some (pi_image_id (ci_image c))) g"

lemma disjoint_cells_map:
  "disjoint_cells (map ci_image g) \<longleftrightarrow>
   sorted_wrt (\<lambda>r r'. rect_cells r \<inter> rect_cells r' = {}) (map (\<lambda>c. pi_grid_rect (ci_image c)) g)"
  by (simp add: disjoint_cells_def sorted_wrt_map)

lemma image_cells_map:
  "image_cells (map ci_image g) = (\<Union>r \<in> set (map (\<lambda>c. pi_grid_rect (ci_image c)) g). rect_cells r)"
  by (simp add: image_cells_def)

lemma group_rects:
  assumes "scene_rects_valid sc" "p \<in> set (sc_images sc)"
    and "map (\<lambda>c. pi_grid_rect (ci_image c)) g = map pi_grid_rect (placement_fragments sc p)"
  shows "disjoint_cells (map ci_image g) \<and> image_cells (map ci_image g) = visible_area sc p"
  unfolding disjoint_cells_map image_cells_map assms(3)
  using fragments_exact [OF assms(1,2)] by (simp add: disjoint_cells_def sorted_wrt_map image_cells_def)

abbreviation fragment_count :: "scene \<Rightarrow> scene_image_placement list \<Rightarrow> nat" where
  "fragment_count sc ps \<equiv> sum_list (map (\<lambda>p. length (placement_fragments sc p)) ps)"

lemma compose_placements_total:
  assumes sc: "scene_rects_valid sc" and ids: "\<forall>p \<in> set (sc_images sc). btree_get ids (placement_key sc p) \<noteq> None"
  shows "set ps \<subseteq> set (sc_images sc) \<Longrightarrow> ids_valid used \<Longrightarrow> card used + fragment_count sc ps \<le> u32_max \<Longrightarrow>
     \<exists>groups. compose_placements sc ids used ps = Some (concat groups) \<and> list_all2 (group_for sc ids) ps groups \<and>
       distinct (records_ids (concat groups)) \<and> used \<inter> set (records_ids (concat groups)) = {} \<and>
       ids_valid (set (records_ids (concat groups)))"
proof (induction ps arbitrary: used)
  case Nil
  then show ?case by (auto simp: ids_valid_def)
next
  case (Cons p ps)
  have p: "p \<in> set (sc_images sc)" using Cons.prems by simp
  show ?case
  proof (cases "\<exists>c. clip_image_placement (ip_image p) (scene_bounds sc) = Some c \<and> pi_visible c")
    case False
    then have frags: "placement_fragments sc p = []" and step: "compose_placements sc ids used (p # ps) = compose_placements sc ids used ps"
      by (auto simp: placement_fragments_def split: option.splits)
    have "group_for sc ids p []"
      using group_rects [OF sc p, of "[]"] frags by (simp add: group_for_def)
    moreover obtain groups where "compose_placements sc ids used ps = Some (concat groups)" "list_all2 (group_for sc ids) ps groups"
       "distinct (records_ids (concat groups))" "used \<inter> set (records_ids (concat groups)) = {}"
       "ids_valid (set (records_ids (concat groups)))"
      using Cons.IH [of used] Cons.prems frags by auto
    ultimately show ?thesis unfolding step by (intro exI [of _ "[] # groups"]) simp
  next
    case True
    obtain outer where outer: "btree_get ids (placement_key sc p) = Some outer" using ids p by auto
    obtain cs used' where cs: "compose_fragments sc p outer used (placement_fragments sc p) = Some (cs, used')"
       "map (\<lambda>c. pi_grid_rect (ci_image c)) cs = map pi_grid_rect (placement_fragments sc p)"
       "used' = used \<union> set (records_ids cs)" "distinct (records_ids cs)" "used \<inter> set (records_ids cs) = {}"
       "ids_valid used'"
       "list_all (\<lambda>c. ci_owner c = ip_owner p \<and> ci_source_image_id c = pi_image_id (ip_image p) \<and>
                  pi_image_id (ci_image c) = outer) cs"
      using compose_fragments_total [of used "placement_fragments sc p" sc p outer] Cons.prems by auto
    have group: "group_for sc ids p cs"
      using group_rects [OF sc p cs(2)] cs(7) outer by (auto simp: group_for_def list_all_iff)
    have len: "length cs = length (placement_fragments sc p)" using cs(2) by (metis length_map)
    have "card used' \<le> card used + length cs"
      using card_Un_le [of used "set (records_ids cs)"] card_length [of "records_ids cs"] by (simp add: cs(3))
    then have "card used' + fragment_count sc ps \<le> u32_max" using Cons.prems len by simp
    then obtain groups where g: "compose_placements sc ids used' ps = Some (concat groups)" "list_all2 (group_for sc ids) ps groups"
       "distinct (records_ids (concat groups))" "used' \<inter> set (records_ids (concat groups)) = {}"
       "ids_valid (set (records_ids (concat groups)))"
      using Cons.IH [of used'] Cons.prems cs(6) by auto
    have "compose_placements sc ids used (p # ps) = Some (concat (cs # groups))"
      using True outer cs(1) g(1) by auto
    moreover have "distinct (records_ids (concat (cs # groups)))" using g cs by auto
    moreover have "used \<inter> set (records_ids (concat (cs # groups))) = {}" using g cs by auto
    moreover have "ids_valid (set (records_ids (concat (cs # groups))))" using g(5) cs by (auto simp: ids_valid_def)
    ultimately show ?thesis using group g(2) by blast
  qed
qed

text \<open>
  C28: Composing a scene's images always succeeds: for every placement the composed images cover
  exactly its visible area (the part inside the scene that no overlay above it covers), without
  overlapping, under the placement's owner and under the outer identifier of its image; all their
  placement identifiers are distinct and not zero; and the images come in the order of their height.
\<close>

theorem composed_images_exact:
  assumes sc: "scene_rects_valid sc" and count: "length (sc_image_uploads sc) + length (sc_images sc) \<le> u32_max"
    and frags: "fragment_count sc (sc_images sc) \<le> u32_max"
  shows "\<exists>records ids groups. compose_image_records sc = Some records \<and> outer_image_ids sc = Some ids \<and>
           mset records = mset (concat groups) \<and> list_all2 (group_for sc ids) (sc_images sc) groups \<and>
           distinct (records_ids records) \<and> 0 \<notin> set (records_ids records) \<and>
           sorted (map (\<lambda>c. pi_z_index (ci_image c)) records)"
proof -
  obtain ids where ids: "outer_image_ids sc = Some ids" "dom (btree_get ids) = scene_keys sc"
    using outer_ids_total [OF count] by blast
  have "\<forall>p \<in> set (sc_images sc). btree_get ids (placement_key sc p) \<noteq> None" using ids(2) by blast
  then obtain groups where g: "compose_placements sc ids {} (sc_images sc) = Some (concat groups)"
     "list_all2 (group_for sc ids) (sc_images sc) groups" "distinct (records_ids (concat groups))"
     "ids_valid (set (records_ids (concat groups)))"
    using compose_placements_total [OF sc, of ids "sc_images sc" "{}"] frags by (auto simp: ids_valid_def)
  define records where "records = sort_key record_key (concat groups)"
  have eq: "mset records = mset (concat groups)" by (simp add: records_def)
  then have "mset (records_ids records) = mset (records_ids (concat groups))" by (simp only: mset_map)
  then have "distinct (records_ids records)" "set (records_ids records) = set (records_ids (concat groups))"
    using g(3) by (metis mset_eq_imp_distinct_iff, metis mset_eq_setD)
  moreover have "sorted (map record_key records)" by (simp add: records_def)
  then have "sorted (map (\<lambda>c. pi_z_index (ci_image c)) records)"
    by (auto simp: sorted_wrt_map sorted_iff_nth_mono_less record_key_def less_eq_prod_def elim: sorted_wrt_mono_rel [rotated])
  moreover have "compose_image_records sc = Some records"
    using ids(1) g(1) by (simp add: compose_image_records_def records_def)
  moreover have "0 \<notin> set (records_ids (concat groups))" using g(4) unfolding ids_valid_def by (meson atLeastAtMost_iff not_one_le_zero subsetD)
  ultimately show ?thesis using ids(1) g(2) eq by metis
qed

text \<open>A pane's image of four by six cells below an overlay that covers its middle\<close>

definition example_snapshot_of :: "nat \<Rightarrow> nat \<Rightarrow> terminal_snapshot" where
  "example_snapshot_of rows cols =
     \<lparr>ts_rows = replicate rows \<lparr>row_cells = replicate cols cell_default, row_wrapped = False\<rparr>, ts_scrollback = [],
      ts_cursor = cursor_default, ts_geometry = geometry_from_cells (word_of_nat rows) (word_of_nat cols),
      ts_screen = PrimaryScreen,
      ts_modes = \<lparr>md_application_keypad = False, md_application_cursor = False, md_bracketed_paste = False,
        md_synchronized_output = False, md_focus_reporting = False, md_kitty_keyboard_flags = 0,
        md_mouse_protocol = ProtocolNone, md_mouse_encoding = EncodingDefault\<rparr>,
      ts_title = None, ts_working_directory = None, ts_semantic_marks = [], ts_history_origin = 0,
      ts_scrollback_extent = 0, ts_viewport = ViewLive\<rparr>"

definition example_image :: presented_image where
  "example_image =
     \<lparr>pi_image_id = 7, pi_placement_id = 1, pi_image_number = 0, pi_pixel_width = 60, pi_pixel_height = 40,
      pi_rendered_pixel_width = 0, pi_rendered_pixel_height = 0, pi_format = FormatRgb, pi_data_len = 7200,
      pi_data_digest = 5, pi_grid_rect = grid_rect_new (grid_point_new 1 2) 4 6, pi_x_offset = 0, pi_y_offset = 0,
      pi_source_x = 0, pi_source_y = 0, pi_source_width = 0, pi_source_height = 0, pi_z_index = 0,
      pi_virtual_placement = False, pi_visible = True\<rparr>"

definition example_image_scene :: scene where
  "example_image_scene =
     (scene_new (geometry_from_cells 24 80))
       \<lparr>sc_panes := [\<lparr>ss_id = 1, ss_origin = grid_point_new 0 0, ss_snapshot = example_snapshot_of 24 80\<rparr>],
        sc_overlays := [\<lparr>so_surface = \<lparr>ss_id = 2, ss_origin = grid_point_new 2 3, ss_snapshot = example_snapshot_of 1 2\<rparr>,
                         so_z_index = 10\<rparr>],
        sc_images := [\<lparr>ip_owner = 1, ip_image = example_image\<rparr>]\<rparr>"

lemmas example_scene_defs = example_image_scene_def scene_new_def example_image_def rect_new_defs
  geometry_from_cells_def geometry_new_def

lemma length_map_filter: "length (List.map_filter f xs) \<le> length xs"
  by (induction xs) (auto simp: map_filter_simps split: option.split)

text \<open>An overlay cuts an image into at most four pieces.\<close>

lemma subtract_length: "length (subtract_image_placement img r) \<le> 4"
proof (cases "intersect_rect (pi_grid_rect img) r")
  case (Some i)
  have "length (subtract_image_placement img r) \<le>
      length (filter (\<lambda>r. 0 < gr_rows r \<and> 0 < gr_cols r) (subtract_candidates (pi_grid_rect img) i))"
    unfolding subtract_image_placement_def Some option.case by (rule length_map_filter)
  also have "\<dots> \<le> length (subtract_candidates (pi_grid_rect img) i)" by (rule length_filter_le)
  finally show ?thesis by (simp add: subtract_candidates_def Let_def)
qed (simp add: subtract_image_placement_def)

lemma subtract_images_length:
  "length (concat (map (\<lambda>f. subtract_image_placement f r) fs)) \<le> 4 * length fs"
proof (induction fs)
  case (Cons f fs)
  then show ?case using subtract_length [of f r] by simp
qed simp

lemma subtract_layers_length: "length (subtract_layers fs rs) \<le> 4 ^ length rs * length fs"
proof (induction rs arbitrary: fs)
  case (Cons r rs)
  define gs where "gs = concat (map (\<lambda>f. subtract_image_placement f r) fs)"
  have "length (subtract_layers fs (r # rs)) \<le> length (subtract_layers gs rs)"
    by (simp add: gs_def Let_def)
  also have "\<dots> \<le> 4 ^ length rs * length gs" by (rule Cons.IH)
  also have "\<dots> \<le> 4 ^ length rs * (4 * length fs)" using subtract_images_length [of r fs] by (simp add: gs_def)
  finally show ?case by simp
qed simp

lemma fragments_length: "length (placement_fragments sc p) \<le> 4 ^ length (occluders sc (ip_owner p))"
proof -
  have "length (subtract_layers [c] (occluders sc (ip_owner p))) \<le> 4 ^ length (occluders sc (ip_owner p))" for c
    using subtract_layers_length [of "[c]" "occluders sc (ip_owner p)"] by simp
  then show ?thesis by (simp add: placement_fragments_def split: option.split)
qed

theorem composed_images_exact_witness:
  "\<exists>records ids groups. compose_image_records example_image_scene = Some records \<and> outer_image_ids example_image_scene = Some ids \<and>
     mset records = mset (concat groups) \<and> list_all2 (group_for example_image_scene ids) (sc_images example_image_scene) groups \<and>
     distinct (records_ids records) \<and> 0 \<notin> set (records_ids records) \<and>
     sorted (map (\<lambda>c. pi_z_index (ci_image c)) records)"
proof (rule composed_images_exact)
  show "scene_rects_valid example_image_scene"
    by (simp add: scene_rects_valid_def example_scene_defs rect_valid_def in_i32_def u16_max_def)
  show "length (sc_image_uploads example_image_scene) + length (sc_images example_image_scene) \<le> u32_max"
    by (simp add: example_scene_defs u32_max_def)
  show "fragment_count example_image_scene (sc_images example_image_scene) \<le> u32_max"
    using fragments_length [of example_image_scene "\<lparr>ip_owner = 1, ip_image = example_image\<rparr>"]
    by (simp add: example_image_scene_def scene_new_def occluders_def overlay_layers_def u32_max_def)
qed

theorem outer_ids_allocated_witness:
  "\<exists>m. outer_image_ids example_image_scene = Some m \<and> btree_inv m \<and>
     dom (btree_get m) = scene_keys example_image_scene \<and> inj_on (btree_get m) (scene_keys example_image_scene) \<and>
     (\<forall>k i. btree_get m k = Some i \<longrightarrow> 1 \<le> i \<and> i \<le> u32_max)"
  by (rule outer_ids_allocated) (simp add: example_scene_defs u32_max_def)

section \<open>Source rectangles\<close>

lemma scaled_parts:
  fixes sw :: nat
  assumes "l + c \<le> n" "0 < c"
  shows "sat_u32 (sw * l) div n + max (sat_u32 (sw * c) div n) (of_bool (sw > 0)) \<le> sw"
proof -
  have le: "sat_u32 (sw * l) div n \<le> sw * l div n" "sat_u32 (sw * c) div n \<le> sw * c div n"
    by (simp_all add: sat_u32_def div_le_mono)
  have "sw * l div n + sw * c div n \<le> (sw * l + sw * c) div n" by (subst div_add1_eq [of "sw * l" "sw * c"]) simp
  also have "sw * l + sw * c \<le> sw * n" using mult_le_mono2 [OF assms(1), of sw] by (simp only: distrib_left)
  then have "(sw * l + sw * c) div n \<le> sw * n div n" by (rule div_le_mono)
  also have "sw * n div n = sw" using assms by simp
  finally have "sw * l div n + sw * c div n \<le> sw" .
  moreover have "sw * l div n + of_bool (sw > 0) \<le> sw"
  proof (cases "sw = 0")
    case False
    then have "sw * l < sw * n" using assms by simp
    then have "sw * l div n < sw" by (simp add: less_mult_imp_div_less)
    then show ?thesis using False by simp
  qed simp
  ultimately show ?thesis using le by linarith
qed

definition effective_width :: "presented_image \<Rightarrow> nat" where
  "effective_width img = (if pi_source_width img = 0 then pi_pixel_width img else pi_source_width img)"

definition effective_height :: "presented_image \<Rightarrow> nat" where
  "effective_height img = (if pi_source_height img = 0 then pi_pixel_height img else pi_source_height img)"

lemma clip_offsets:
  assumes img: "rect_valid (pi_grid_rect img)" and r: "rect_valid r" and i: "intersect_rect (pi_grid_rect img) r = Some i"
  shows "nat (max (sat_i32 (rect_top i - rect_top (pi_grid_rect img))) 0) + gr_rows i \<le> gr_rows (pi_grid_rect img)"
    and "nat (max (sat_i32 (rect_left i - rect_left (pi_grid_rect img))) 0) + gr_cols i \<le> gr_cols (pi_grid_rect img)"
    and "0 < gr_rows i" "0 < gr_cols i"
proof -
  let ?R = "pi_grid_rect img"
  note c = intersect_rect_cells [OF img r, unfolded i option.case]
  have edges: "rect_top i = max (rect_top ?R) (rect_top r)" "rect_bottom i = min (rect_bottom ?R) (rect_bottom r)"
    "rect_left i = max (rect_left ?R) (rect_left r)" "rect_right i = min (rect_right ?R) (rect_right r)"
    using c by blast+
  have p: "rect_top ?R \<le> rect_top i" "rect_bottom i \<le> rect_bottom ?R" "rect_left ?R \<le> rect_left i" "rect_right i \<le> rect_right ?R"
    unfolding edges(2,4) unfolding edges(1,3) by (rule max.cobounded1 min.cobounded1)+
  have ne: "rect_top i < rect_bottom i" "rect_left i < rect_right i"
    "int (gr_rows i) = rect_bottom i - rect_top i" "int (gr_cols i) = rect_right i - rect_left i"
    using c by blast+
  have "rect_bottom ?R \<le> rect_top ?R + int (gr_rows ?R)" "rect_right ?R \<le> rect_left ?R + int (gr_cols ?R)"
    using img sat_i32_bounds(2) by (simp_all add: rect_valid_def)
  moreover have off: "int (nat (max (sat_i32 x) 0)) \<le> x" if "0 \<le> x" for x using that by (simp add: sat_i32_def)
  have "int (nat (max (sat_i32 (rect_top i - rect_top ?R)) 0)) \<le> rect_top i - rect_top ?R"
    by (rule off) (use p(1) in simp)
  moreover have "int (nat (max (sat_i32 (rect_left i - rect_left ?R)) 0)) \<le> rect_left i - rect_left ?R"
    by (rule off) (use p(3) in simp)
  ultimately have "int (nat (max (sat_i32 (rect_top i - rect_top ?R)) 0)) + int (gr_rows i) \<le> int (gr_rows ?R)
    \<and> int (nat (max (sat_i32 (rect_left i - rect_left ?R)) 0)) + int (gr_cols i) \<le> int (gr_cols ?R)"
    using p ne by linarith
  then show "nat (max (sat_i32 (rect_top i - rect_top ?R)) 0) + gr_rows i \<le> gr_rows ?R"
    and "nat (max (sat_i32 (rect_left i - rect_left ?R)) 0) + gr_cols i \<le> gr_cols ?R"
    by (simp_all only: of_nat_add [symmetric] of_nat_le_iff)
  show "0 < gr_rows i" "0 < gr_cols i" using ne by linarith+
qed

text \<open>
  Clipping a placement keeps its source rectangle inside the source rectangle it had (the whole
  image where none was given), never leaves it empty where it was not, and gives it the grid
  rectangle of the common cells.
\<close>

theorem clip_stays_in_source:
  assumes img: "rect_valid (pi_grid_rect img)" and r: "rect_valid r"
    and x: "pi_source_x img + effective_width img \<le> u32_max" and y: "pi_source_y img + effective_height img \<le> u32_max"
    and c: "clip_image_placement img r = Some c"
  shows "rect_cells (pi_grid_rect c) = rect_cells (pi_grid_rect img) \<inter> rect_cells r \<and>
    pi_source_x img \<le> pi_source_x c \<and> pi_source_x c + pi_source_width c \<le> pi_source_x img + effective_width img \<and>
    pi_source_y img \<le> pi_source_y c \<and> pi_source_y c + pi_source_height c \<le> pi_source_y img + effective_height img \<and>
    (0 < effective_width img \<longrightarrow> 0 < pi_source_width c) \<and> (0 < effective_height img \<longrightarrow> 0 < pi_source_height c)"
proof -
  let ?R = "pi_grid_rect img"
  obtain i where i: "intersect_rect ?R r = Some i" "pi_grid_rect c = i"
    using clip_image_rect [of img r] c by (metis option.simps(9))
  define l t where d: "l = nat (max (sat_i32 (rect_left i - rect_left ?R)) 0)" "t = nat (max (sat_i32 (rect_top i - rect_top ?R)) 0)"
  note off = clip_offsets [OF img r i(1), folded d]
  have parts: "l + gr_cols i \<le> max (gr_cols ?R) 1" "t + gr_rows i \<le> max (gr_rows ?R) 1" using off by linarith+
  have w: "sat_u32 (effective_width img * l) div max (gr_cols ?R) 1 +
      max (sat_u32 (effective_width img * gr_cols i) div max (gr_cols ?R) 1) (of_bool (effective_width img > 0)) \<le> effective_width img"
    by (rule scaled_parts [OF parts(1) off(4)])
  have h: "sat_u32 (effective_height img * t) div max (gr_rows ?R) 1 +
      max (sat_u32 (effective_height img * gr_rows i) div max (gr_rows ?R) 1) (of_bool (effective_height img > 0)) \<le> effective_height img"
    by (rule scaled_parts [OF parts(2) off(3)])
  note c' = c [unfolded clip_image_placement_def i(1) option.case Let_def option.inject, symmetric]
  have fields:
    "pi_source_x c = sat_u32 (pi_source_x img + sat_u32 (effective_width img * l) div max (gr_cols ?R) 1)"
    "pi_source_y c = sat_u32 (pi_source_y img + sat_u32 (effective_height img * t) div max (gr_rows ?R) 1)"
    "pi_source_width c = max (sat_u32 (effective_width img * gr_cols i) div max (gr_cols ?R) 1) (of_bool (effective_width img > 0))"
    "pi_source_height c = max (sat_u32 (effective_height img * gr_rows i) div max (gr_rows ?R) 1) (of_bool (effective_height img > 0))"
    unfolding c' effective_width_def effective_height_def d by (simp_all split del: if_split)
  have "rect_cells (pi_grid_rect c) = rect_cells ?R \<inter> rect_cells r"
    using intersect_rect_cells [OF img r] i by simp
  moreover have "pi_source_x c = pi_source_x img + sat_u32 (effective_width img * l) div max (gr_cols ?R) 1"
    unfolding fields(1) sat_u32_def [of "pi_source_x img + _"] using w x by linarith
  moreover have "pi_source_y c = pi_source_y img + sat_u32 (effective_height img * t) div max (gr_rows ?R) 1"
    unfolding fields(2) sat_u32_def [of "pi_source_y img + _"] using h y by linarith
  moreover have "0 < effective_width img \<Longrightarrow> 0 < pi_source_width c" "0 < effective_height img \<Longrightarrow> 0 < pi_source_height c"
    unfolding fields(3,4) by (simp_all add: less_max_iff_disj)
  ultimately show ?thesis using w h unfolding fields(3,4) by linarith
qed

theorem clip_stays_in_source_witness:
  "\<exists>c. clip_image_placement example_image (grid_rect_new (grid_point_new 2 3) 1 2) = Some c \<and>
     pi_source_x c + pi_source_width c \<le> 60 \<and> 0 < pi_source_width c \<and> gr_cols (pi_grid_rect c) = 2"
proof -
  have i: "intersect_rect (pi_grid_rect example_image) (grid_rect_new (grid_point_new 2 3) 1 2) =
      Some (grid_rect_new (grid_point_new 2 3) 1 2)"
    by (simp add: intersect_rect_def example_image_def rect_new_defs sat_i32_def u16_or_def u16_max_def)
  obtain c where c: "clip_image_placement example_image (grid_rect_new (grid_point_new 2 3) 1 2) = Some c"
      "pi_grid_rect c = grid_rect_new (grid_point_new 2 3) 1 2"
    using clip_image_rect [of example_image "grid_rect_new (grid_point_new 2 3) 1 2"] i by auto
  have "pi_source_x c + pi_source_width c \<le> pi_source_x example_image + effective_width example_image \<and> 0 < pi_source_width c"
    using clip_stays_in_source [OF _ _ _ _ c(1)]
    by (simp add: rect_valid_def in_i32_def example_image_def effective_width_def effective_height_def rect_new_defs
        u16_max_def u32_max_def)
  then show ?thesis using c by (simp add: example_image_def effective_width_def rect_new_defs)
qed

end
