(* ===== verification/Scene_Media.thy ===== *)
theory Scene_Media
  imports Scene_Images
begin

text \<open>
  The media of a pane (\<^verbatim>\<open>PaneMediaStore\<close> of \<^verbatim>\<open>presentation.rs\<close>): the decoded images that the engine
  reports are converted, deduplicated by image and kept within limits, and copied into the scene.
  The record of a reported placement is that of \<^verbatim>\<open>crates/lector-ghostty\<close>.
\<close>

section \<open>Placements as the engine reports them\<close>

datatype kitty_image_format = KittyRgb | KittyRgba | KittyGrayAlpha | KittyGray

text \<open>An \<^verbatim>\<open>Arc<[u8]>\<close>: the address that \<^verbatim>\<open>Arc::ptr_eq\<close> compares, and the bytes\<close>

record shared_bytes =
  sb_address :: nat
  sb_bytes :: bytes

record kitty_image_placement =
  kp_image_id :: nat
  kp_placement_id :: nat
  kp_image_number :: nat
  kp_pixel_width :: nat
  kp_pixel_height :: nat
  kp_rendered_pixel_width :: nat
  kp_rendered_pixel_height :: nat
  kp_format :: kitty_image_format
  kp_data :: shared_bytes
  kp_data_digest :: u64
  kp_x_offset :: nat
  kp_y_offset :: nat
  kp_viewport_col :: int
  kp_viewport_row :: int
  kp_grid_cols :: nat
  kp_grid_rows :: nat
  kp_source_x :: nat
  kp_source_y :: nat
  kp_source_width :: nat
  kp_source_height :: nat
  kp_z_index :: int
  kp_virtual_placement :: bool
  kp_visible :: bool

record media_limits =
  ml_maximum_image_bytes :: nat
  ml_maximum_pane_bytes :: nat
  ml_maximum_scene_bytes :: nat
  ml_maximum_placements :: nat

definition default_media_limits :: media_limits where
  "default_media_limits =
     \<lparr>ml_maximum_image_bytes = 32 * 1024 * 1024, ml_maximum_pane_bytes = 64 * 1024 * 1024,
      ml_maximum_scene_bytes = 128 * 1024 * 1024, ml_maximum_placements = 4096\<rparr>"

record pane_image_upload =
  pn_image_number :: nat
  pn_pixel_width :: nat
  pn_pixel_height :: nat
  pn_source_format :: kitty_image_format
  pn_source_data_digest :: u64
  pn_source_data :: shared_bytes
  pn_format :: pixel_format
  pn_data :: bytes
  pn_data_digest :: u64

record media_sync_report =
  mr_uploads_added :: nat
  mr_uploads_removed :: nat
  mr_placements_added :: nat
  mr_placements_removed :: nat

record pane_media_store =
  ms_limits :: media_limits
  ms_uploads :: "(nat, pane_image_upload) btree_map"
  ms_placements :: "presented_image list"
  ms_total_bytes :: nat

definition media_store_new :: "media_limits \<Rightarrow> pane_media_store" where
  "media_store_new limits = \<lparr>ms_limits = limits, ms_uploads = [], ms_placements = [], ms_total_bytes = 0\<rparr>"

section \<open>Pixel data\<close>

text \<open>\<^verbatim>\<open>as_chunks::<2>().0\<close>: a last odd byte is dropped\<close>

fun expand_gray_alpha :: "bytes \<Rightarrow> bytes" where
  "expand_gray_alpha (gray # alpha # rest) = gray # gray # gray # alpha # expand_gray_alpha rest"
| "expand_gray_alpha _ = []"

definition expand_gray :: "bytes \<Rightarrow> bytes" where
  "expand_gray bs = concat (map (\<lambda>gray. [gray, gray, gray]) bs)"

definition normalize_pixel_data :: "kitty_image_format \<Rightarrow> bytes \<Rightarrow> u64 \<Rightarrow> pixel_format \<times> bytes \<times> u64" where
  "normalize_pixel_data format data source_digest =
     (case format of
        KittyRgb \<Rightarrow> (FormatRgb, data, source_digest)
      | KittyRgba \<Rightarrow> (FormatRgba, data, source_digest)
      | KittyGrayAlpha \<Rightarrow> let rgba = expand_gray_alpha data in (FormatRgba, rgba, stable_digest rgba)
      | KittyGray \<Rightarrow> let rgb = expand_gray data in (FormatRgb, rgb, stable_digest rgb))"

definition pane_upload_from_ghostty :: "kitty_image_placement \<Rightarrow> pane_image_upload" where
  "pane_upload_from_ghostty p =
     (let (format, data, digest) = normalize_pixel_data (kp_format p) (sb_bytes (kp_data p)) (kp_data_digest p) in
      \<lparr>pn_image_number = kp_image_number p, pn_pixel_width = kp_pixel_width p, pn_pixel_height = kp_pixel_height p,
       pn_source_format = kp_format p, pn_source_data_digest = kp_data_digest p, pn_source_data = kp_data p,
       pn_format = format, pn_data = data, pn_data_digest = digest\<rparr>)"

definition presented_image_from_ghostty :: "kitty_image_placement \<Rightarrow> pixel_format \<Rightarrow> u64 \<Rightarrow> presented_image" where
  "presented_image_from_ghostty p format digest =
     \<lparr>pi_image_id = kp_image_id p, pi_placement_id = kp_placement_id p, pi_image_number = kp_image_number p,
      pi_pixel_width = kp_pixel_width p, pi_pixel_height = kp_pixel_height p,
      pi_rendered_pixel_width = kp_rendered_pixel_width p, pi_rendered_pixel_height = kp_rendered_pixel_height p,
      pi_format = format, pi_data_len = length (sb_bytes (kp_data p)), pi_data_digest = digest,
      pi_grid_rect = grid_rect_new (grid_point_new (kp_viewport_row p) (kp_viewport_col p))
        (try_u16 (kp_grid_rows p)) (try_u16 (kp_grid_cols p)),
      pi_x_offset = kp_x_offset p, pi_y_offset = kp_y_offset p, pi_source_x = kp_source_x p,
      pi_source_y = kp_source_y p, pi_source_width = kp_source_width p, pi_source_height = kp_source_height p,
      pi_z_index = kp_z_index p, pi_virtual_placement = kp_virtual_placement p, pi_visible = kp_visible p\<rparr>"

definition pane_upload_matches :: "pane_image_upload \<Rightarrow> pane_image_upload \<Rightarrow> bool" where
  "pane_upload_matches l r \<longleftrightarrow>
     pn_pixel_width l = pn_pixel_width r \<and> pn_pixel_height l = pn_pixel_height r \<and>
     pn_format l = pn_format r \<and> pn_data_digest l = pn_data_digest r"

definition pane_upload_matches_source :: "pane_image_upload \<Rightarrow> kitty_image_placement \<Rightarrow> bool" where
  "pane_upload_matches_source u p \<longleftrightarrow>
     pn_pixel_width u = kp_pixel_width p \<and> pn_pixel_height u = kp_pixel_height p \<and>
     pn_source_format u = kp_format p \<and> pn_source_data_digest u = kp_data_digest p \<and>
     sb_address (pn_source_data u) = sb_address (kp_data p)"

section \<open>Synchronization\<close>

text \<open>The upload of a placement whose image is new in this batch: the retained one when it has the
  same source, otherwise converted from the placement\<close>

definition placement_source_upload :: "(nat, pane_image_upload) btree_map \<Rightarrow> kitty_image_placement \<Rightarrow> pane_image_upload" where
  "placement_source_upload retained p =
     (case btree_get retained (kp_image_id p) of
        Some e \<Rightarrow>
          if pane_upload_matches_source e p
          then \<lparr>pn_image_number = kp_image_number p, pn_pixel_width = kp_pixel_width p,
                pn_pixel_height = kp_pixel_height p, pn_source_format = kp_format p,
                pn_source_data_digest = kp_data_digest p, pn_source_data = kp_data p,
                pn_format = pn_format e, pn_data = pn_data e, pn_data_digest = pn_data_digest e\<rparr>
          else pane_upload_from_ghostty p
      | None \<Rightarrow> pane_upload_from_ghostty p)"

fun synchronize_loop ::
  "media_limits \<Rightarrow> (nat, pane_image_upload) btree_map \<Rightarrow> (nat, pane_image_upload) btree_map \<Rightarrow> presented_image list \<Rightarrow>
   nat \<Rightarrow> kitty_image_placement list \<Rightarrow>
   ((nat, pane_image_upload) btree_map \<times> presented_image list \<times> nat, presentation_error) result" where
  "synchronize_loop limits retained uploads normalized total_bytes [] = Ok (uploads, normalized, total_bytes)"
| "synchronize_loop limits retained uploads normalized total_bytes (p # ps) =
     (case btree_get uploads (kp_image_id p) of
        None \<Rightarrow>
          let u = placement_source_upload retained p in
          if length (pn_data u) > ml_maximum_image_bytes limits
          then Err (MediaLimitExceeded ''image bytes'' (length (pn_data u)) (ml_maximum_image_bytes limits))
          else synchronize_loop limits retained (btree_insert (kp_image_id p) u uploads)
                 (normalized @ [presented_image_from_ghostty p (pn_format u) (pn_data_digest u)])
                 (saturating_add_usize total_bytes (length (pn_data u))) ps
      | Some e \<Rightarrow>
          if \<not> pane_upload_matches_source e p then Err (InconsistentMediaUpload (kp_image_id p))
          else synchronize_loop limits retained uploads
                 (normalized @ [presented_image_from_ghostty p (pn_format e) (pn_data_digest e)]) total_bytes ps)"

definition media_report ::
  "pane_media_store \<Rightarrow> (nat, pane_image_upload) btree_map \<Rightarrow> presented_image list \<Rightarrow> media_sync_report" where
  "media_report s uploads normalized =
     \<lparr>mr_uploads_added = length (filter (\<lambda>(i, u). case btree_get (ms_uploads s) i of
          None \<Rightarrow> True | Some e \<Rightarrow> \<not> pane_upload_matches e u) uploads),
      mr_uploads_removed = length (filter (\<lambda>(i, u). case btree_get uploads i of
          None \<Rightarrow> True | Some e \<Rightarrow> \<not> pane_upload_matches u e) (ms_uploads s)),
      mr_placements_added = length (filter (\<lambda>p. p \<notin> set (ms_placements s)) normalized),
      mr_placements_removed = length (filter (\<lambda>p. p \<notin> set normalized) (ms_placements s))\<rparr>"

definition synchronize ::
  "pane_media_store \<Rightarrow> kitty_image_placement list \<Rightarrow> pane_media_store \<times> (media_sync_report, presentation_error) result" where
  "synchronize s placements =
     (if length placements > ml_maximum_placements (ms_limits s)
      then (s, Err (MediaLimitExceeded ''placements'' (length placements) (ml_maximum_placements (ms_limits s))))
      else case synchronize_loop (ms_limits s) (ms_uploads s) [] [] 0 placements of
             Err e \<Rightarrow> (s, Err e)
           | Ok (uploads, normalized, total_bytes) \<Rightarrow>
               if total_bytes > ml_maximum_pane_bytes (ms_limits s)
               then (s, Err (MediaLimitExceeded ''pane image bytes'' total_bytes (ml_maximum_pane_bytes (ms_limits s))))
               else (s\<lparr>ms_uploads := uploads, ms_placements := normalized, ms_total_bytes := total_bytes\<rparr>,
                     Ok (media_report s uploads normalized)))"

definition scene_upload :: "u64 \<Rightarrow> nat \<Rightarrow> pane_image_upload \<Rightarrow> scene_image_upload" where
  "scene_upload owner i u =
     \<lparr>iu_owner = owner, iu_image_id = i, iu_image_number = pn_image_number u, iu_pixel_width = pn_pixel_width u,
      iu_pixel_height = pn_pixel_height u, iu_format = pn_format u, iu_data = pn_data u, iu_data_digest = pn_data_digest u\<rparr>"

definition scene_placement :: "u64 \<Rightarrow> grid_point \<Rightarrow> grid_rect \<Rightarrow> presented_image \<Rightarrow> scene_image_placement option" where
  "scene_placement owner origin clip p =
     (let r = pi_grid_rect p;
          moved = p\<lparr>pi_grid_rect := grid_rect_new
            (grid_point_new (sat_i32 (rect_top r + gp_row origin)) (sat_i32 (rect_left r + gp_col origin)))
            (gr_rows r) (gr_cols r)\<rparr>
      in map_option (\<lambda>c. \<lparr>ip_owner = owner, ip_image = c\<rparr>) (clip_image_placement moved clip))"

definition append_to_scene ::
  "pane_media_store \<Rightarrow> u64 \<Rightarrow> grid_point \<Rightarrow> grid_rect \<Rightarrow> scene \<Rightarrow> (scene, presentation_error) result" where
  "append_to_scene s owner origin clip sc =
     (let existing_bytes = sum_list (map (\<lambda>u. length (iu_data u)) (sc_image_uploads sc));
          requested = saturating_add_usize existing_bytes (ms_total_bytes s)
      in if requested > ml_maximum_scene_bytes (ms_limits s)
         then Err (MediaLimitExceeded ''scene image bytes'' requested (ml_maximum_scene_bytes (ms_limits s)))
         else Ok (sc\<lparr>sc_image_uploads := sc_image_uploads sc @ map (\<lambda>(i, u). scene_upload owner i u) (ms_uploads s),
                     sc_images := sc_images sc @ List.map_filter (scene_placement owner origin clip) (ms_placements s)\<rparr>))"

section \<open>The store's invariant\<close>

definition upload_normalized :: "pane_image_upload \<Rightarrow> bool" where
  "upload_normalized u \<longleftrightarrow>
     (pn_format u, pn_data u, pn_data_digest u) =
       normalize_pixel_data (pn_source_format u) (sb_bytes (pn_source_data u)) (pn_source_data_digest u)"

abbreviation upload_bytes :: "(nat, pane_image_upload) btree_map \<Rightarrow> nat" where
  "upload_bytes m \<equiv> sum_list (map (\<lambda>(i, u). length (pn_data u)) m)"

text \<open>Every image of a placement is uploaded once, in the form the placement names.\<close>

definition placement_shown :: "(nat, pane_image_upload) btree_map \<Rightarrow> presented_image \<Rightarrow> bool" where
  "placement_shown uploads p \<longleftrightarrow>
     (\<exists>u. btree_get uploads (pi_image_id p) = Some u \<and> pn_format u = pi_format p \<and> pn_data_digest u = pi_data_digest p)"

definition media_inv :: "pane_media_store \<Rightarrow> bool" where
  "media_inv s \<longleftrightarrow>
     btree_inv (ms_uploads s) \<and>
     list_all (\<lambda>(i, u). upload_normalized u \<and> length (pn_data u) \<le> ml_maximum_image_bytes (ms_limits s)) (ms_uploads s) \<and>
     ms_total_bytes s = upload_bytes (ms_uploads s) \<and> ms_total_bytes s \<le> ml_maximum_pane_bytes (ms_limits s) \<and>
     length (ms_placements s) \<le> ml_maximum_placements (ms_limits s) \<and>
     list_all (placement_shown (ms_uploads s)) (ms_placements s) \<and>
     set (map fst (ms_uploads s)) = set (map pi_image_id (ms_placements s))"

text \<open>The address of a live shared buffer determines its bytes.\<close>

definition arcs_consistent :: "pane_media_store \<Rightarrow> kitty_image_placement list \<Rightarrow> bool" where
  "arcs_consistent s placements \<longleftrightarrow>
     (\<forall>(i, u) \<in> set (ms_uploads s). \<forall>p \<in> set placements.
        sb_address (pn_source_data u) = sb_address (kp_data p) \<longrightarrow> sb_bytes (pn_source_data u) = sb_bytes (kp_data p))"

lemma media_inv_new: "media_inv (media_store_new limits)"
  by (simp add: media_inv_def media_store_new_def btree_inv_def)

lemma from_ghostty_props [simp]:
  "upload_normalized (pane_upload_from_ghostty p)" "pn_image_number (pane_upload_from_ghostty p) = kp_image_number p"
  by (simp_all add: pane_upload_from_ghostty_def upload_normalized_def split: prod.split)

text \<open>A retained upload is what the placement would be converted to.\<close>

lemma retained_upload:
  assumes inv: "media_inv s" and arcs: "arcs_consistent s ps" and p: "p \<in> set ps"
  shows "placement_source_upload (ms_uploads s) p = pane_upload_from_ghostty p"
proof (cases "\<exists>e. btree_get (ms_uploads s) (kp_image_id p) = Some e \<and> pane_upload_matches_source e p")
  case True
  then obtain e where e: "btree_get (ms_uploads s) (kp_image_id p) = Some e" "pane_upload_matches_source e p" by blast
  have mem: "(kp_image_id p, e) \<in> set (ms_uploads s)" using e(1) by (simp add: btree_get_def map_of_SomeD)
  then have norm: "upload_normalized e" using inv by (auto simp: media_inv_def list_all_iff)
  have "sb_bytes (pn_source_data e) = sb_bytes (kp_data p)"
    using arcs p mem e(2) by (fastforce simp: arcs_consistent_def pane_upload_matches_source_def)
  then have "normalize_pixel_data (kp_format p) (sb_bytes (kp_data p)) (kp_data_digest p) = (pn_format e, pn_data e, pn_data_digest e)"
    using norm e(2) by (simp add: upload_normalized_def pane_upload_matches_source_def)
  then show ?thesis using e by (simp add: placement_source_upload_def pane_upload_from_ghostty_def)
qed (auto simp: placement_source_upload_def split: option.split)

lemma fresh_upload: "placement_source_upload [] p = pane_upload_from_ghostty p"
  by (simp add: placement_source_upload_def btree_get_def)

lemma synchronize_loop_fresh:
  "(\<And>p. p \<in> set ps \<Longrightarrow> placement_source_upload retained p = pane_upload_from_ghostty p) \<Longrightarrow>
   synchronize_loop limits retained uploads normalized n ps = synchronize_loop limits [] uploads normalized n ps"
  by (induction ps arbitrary: uploads normalized n) (simp_all add: fresh_upload Let_def split: option.split)

lemma upload_bytes_insert:
  "btree_get m k = None \<Longrightarrow> upload_bytes (btree_insert k u m) = length (pn_data u) + upload_bytes m"
  by (induction m) (auto simp: btree_get_def split: if_splits)

definition loop_inv :: "media_limits \<Rightarrow> (nat, pane_image_upload) btree_map \<Rightarrow> presented_image list \<Rightarrow> nat \<Rightarrow> bool" where
  "loop_inv limits uploads normalized n \<longleftrightarrow>
     btree_inv uploads \<and> n = min (upload_bytes uploads) usize_max \<and>
     list_all (\<lambda>(i, u). upload_normalized u \<and> length (pn_data u) \<le> ml_maximum_image_bytes limits) uploads \<and>
     list_all (placement_shown uploads) normalized \<and> set (map fst uploads) = set (map pi_image_id normalized)"

lemma set_btree_insert: "set (btree_insert k v m) \<subseteq> insert (k, v) (set m)"
  by (induction m) (auto split: if_splits)

lemma presented_from_ghostty_props [simp]:
  "pi_image_id (presented_image_from_ghostty p f d) = kp_image_id p" "pi_format (presented_image_from_ghostty p f d) = f"
  "pi_data_digest (presented_image_from_ghostty p f d) = d"
  by (simp_all add: presented_image_from_ghostty_def)

lemma loop_inv_new:
  assumes inv: "loop_inv limits uploads normalized n" and new: "btree_get uploads (kp_image_id p) = None"
    and u: "upload_normalized u" "length (pn_data u) \<le> ml_maximum_image_bytes limits"
  shows "loop_inv limits (btree_insert (kp_image_id p) u uploads)
           (normalized @ [presented_image_from_ghostty p (pn_format u) (pn_data_digest u)])
           (saturating_add_usize n (length (pn_data u)))"
proof -
  have b: "btree_inv uploads" using inv by (simp add: loop_inv_def)
  note get = btree.get_insert [OF b]
  have "placement_shown (btree_insert (kp_image_id p) u uploads) q" if "placement_shown uploads q" for q
    using that new by (auto simp: placement_shown_def get split: if_splits)
  moreover have "placement_shown (btree_insert (kp_image_id p) u uploads)
      (presented_image_from_ghostty p (pn_format u) (pn_data_digest u))"
    by (simp add: placement_shown_def get)
  moreover have "list_all (\<lambda>(i, u). upload_normalized u \<and> length (pn_data u) \<le> ml_maximum_image_bytes limits)
      (btree_insert (kp_image_id p) u uploads)"
    using inv u set_btree_insert [of "kp_image_id p" u uploads] by (fastforce simp: loop_inv_def list_all_iff)
  ultimately show ?thesis
    using inv btree_insert_inv [OF b, of "kp_image_id p" u] btree_insert_keys [of "kp_image_id p" u uploads]
    by (auto simp: loop_inv_def list_all_iff upload_bytes_insert [OF new] saturating_add_usize_def)
qed

lemma loop_inv_known:
  assumes inv: "loop_inv limits uploads normalized n" and e: "btree_get uploads (kp_image_id p) = Some e"
  shows "loop_inv limits uploads (normalized @ [presented_image_from_ghostty p (pn_format e) (pn_data_digest e)]) n"
proof -
  have "placement_shown uploads (presented_image_from_ghostty p (pn_format e) (pn_data_digest e))"
    using e by (simp add: placement_shown_def)
  moreover have "kp_image_id p \<in> set (map fst uploads)"
    using e by (force simp: btree_get_def dest: map_of_SomeD)
  ultimately show ?thesis using inv by (auto simp: loop_inv_def)
qed

lemma synchronize_loop_inv:
  "loop_inv limits uploads normalized n \<Longrightarrow> synchronize_loop limits [] uploads normalized n ps = Ok (us, ns, t) \<Longrightarrow>
   loop_inv limits us ns t \<and> length ns = length normalized + length ps"
proof (induction ps arbitrary: uploads normalized n)
  case (Cons p ps)
  show ?case
  proof (cases "btree_get uploads (kp_image_id p)")
    case None
    define u where "u = pane_upload_from_ghostty p"
    have "length (pn_data u) \<le> ml_maximum_image_bytes limits"
      using Cons.prems None by (auto simp: fresh_upload Let_def u_def split: if_splits)
    moreover from this have "loop_inv limits (btree_insert (kp_image_id p) u uploads)
           (normalized @ [presented_image_from_ghostty p (pn_format u) (pn_data_digest u)])
           (saturating_add_usize n (length (pn_data u)))"
      by (intro loop_inv_new Cons.prems None) (simp_all add: u_def)
    ultimately show ?thesis
      using Cons.IH Cons.prems(2) None by (fastforce simp: fresh_upload Let_def u_def [symmetric])
  next
    case (Some e)
    then show ?thesis
      using Cons.IH [OF loop_inv_known [OF Cons.prems(1) Some]] Cons.prems(2) by (auto split: if_splits)
  qed
qed simp

text \<open>
  C29: Synchronizing a pane's media with what the engine reports either fails and changes nothing, or
  keeps the invariant of the store: every image is uploaded once and within its limit, the payloads
  together are within the pane's limit and are counted exactly, and every placement shows an
  uploaded image of its format. Reusing the retained payloads is transparent: as long as the address
  of a live buffer determines its bytes, the outcome is that of an empty store.
\<close>

theorem media_sync_transparent:
  assumes inv: "media_inv s" and arcs: "arcs_consistent s ps" and limit: "ml_maximum_pane_bytes (ms_limits s) < usize_max"
  shows "media_inv (fst (synchronize s ps)) \<and>
    (case synchronize (media_store_new (ms_limits s)) ps of
       (_, Err e) \<Rightarrow> synchronize s ps = (s, Err e)
     | (fresh, Ok _) \<Rightarrow> \<exists>report. synchronize s ps = (fresh, Ok report))"
proof -
  define limits where "limits = ms_limits s"
  have same: "synchronize_loop limits (ms_uploads s) [] [] 0 ps = synchronize_loop limits [] [] [] 0 ps"
    by (rule synchronize_loop_fresh) (rule retained_upload [OF inv arcs])
  have new: "ms_limits (media_store_new limits) = limits" "ms_uploads (media_store_new limits) = []"
    by (simp_all add: media_store_new_def)
  consider "length ps > ml_maximum_placements limits"
    | e where "length ps \<le> ml_maximum_placements limits" "synchronize_loop limits [] [] [] 0 ps = Err e"
    | us ns t where "length ps \<le> ml_maximum_placements limits" "synchronize_loop limits [] [] [] 0 ps = Ok (us, ns, t)"
    by (cases "synchronize_loop limits [] [] [] 0 ps") (force simp: not_less)+
  then show ?thesis
  proof cases
    case (3 us ns t)
    have "loop_inv limits us ns t \<and> length ns = length ps"
      using synchronize_loop_inv [OF _ 3(2)] by (simp add: loop_inv_def btree_inv_def)
    then have "t \<le> ml_maximum_pane_bytes limits \<Longrightarrow> media_inv (s\<lparr>ms_uploads := us, ms_placements := ns, ms_total_bytes := t\<rparr>)"
      using limit 3(1) by (auto simp: loop_inv_def media_inv_def limits_def min_def split: if_splits)
    then show ?thesis
      using inv 3 same by (auto simp: synchronize_def limits_def [symmetric] new media_store_new_def)
  qed (use inv same in \<open>auto simp: synchronize_def limits_def [symmetric] new\<close>)
qed

definition example_placement :: "nat \<Rightarrow> nat \<Rightarrow> bytes \<Rightarrow> kitty_image_placement" where
  "example_placement i address data =
     \<lparr>kp_image_id = i, kp_placement_id = 1, kp_image_number = 0, kp_pixel_width = 1, kp_pixel_height = 1,
      kp_rendered_pixel_width = 0, kp_rendered_pixel_height = 0, kp_format = KittyGray,
      kp_data = \<lparr>sb_address = address, sb_bytes = data\<rparr>, kp_data_digest = 9, kp_x_offset = 0, kp_y_offset = 0,
      kp_viewport_col = 0, kp_viewport_row = 0, kp_grid_cols = 1, kp_grid_rows = 1, kp_source_x = 0, kp_source_y = 0,
      kp_source_width = 0, kp_source_height = 0, kp_z_index = 0, kp_virtual_placement = False, kp_visible = True\<rparr>"

lemma default_limits_small: "ml_maximum_pane_bytes default_media_limits < usize_max"
  by (simp add: default_media_limits_def usize_max_def)

text \<open>A second batch that keeps one image and brings another\<close>

theorem media_sync_transparent_witness:
  defines "s1 \<equiv> fst (synchronize (media_store_new default_media_limits) [example_placement 4 100 ''a''])"
  shows "ms_uploads s1 \<noteq> [] \<and> media_inv (fst (synchronize s1 [example_placement 4 100 ''a'', example_placement 5 200 ''b'']))"
proof -
  have inv: "media_inv s1"
    unfolding s1_def
    using media_sync_transparent [OF media_inv_new [of default_media_limits], of "[example_placement 4 100 ''a'']"]
    by (simp add: arcs_consistent_def media_store_new_def default_limits_small)
  have s1: "ms_uploads s1 = [(4, pane_upload_from_ghostty (example_placement 4 100 ''a''))]" "ms_limits s1 = default_media_limits"
    by (simp_all add: s1_def synchronize_def media_store_new_def default_media_limits_def fresh_upload btree_get_def Let_def
        example_placement_def pane_upload_from_ghostty_def normalize_pixel_data_def expand_gray_def saturating_add_usize_def)
  have "arcs_consistent s1 [example_placement 4 100 ''a'', example_placement 5 200 ''b'']"
    by (simp add: arcs_consistent_def s1 pane_upload_from_ghostty_def example_placement_def normalize_pixel_data_def Let_def)
  then show ?thesis
    using media_sync_transparent [OF inv] default_limits_small by (simp add: s1)
qed

section \<open>Media in the scene\<close>

text \<open>Every placement of a scene has the upload that \<^verbatim>\<open>write_kitty_images\<close> looks for.\<close>

definition scene_media_complete :: "scene \<Rightarrow> bool" where
  "scene_media_complete sc \<longleftrightarrow> (\<forall>p \<in> set (sc_images sc). placement_upload sc p \<noteq> None)"

abbreviation scene_media_bytes :: "scene \<Rightarrow> nat" where
  "scene_media_bytes sc \<equiv> sum_list (map (\<lambda>u. length (iu_data u)) (sc_image_uploads sc))"

lemma scene_uploads_bytes:
  "sum_list (map (\<lambda>u. length (iu_data u)) (map (\<lambda>(i, u). scene_upload owner i u) m)) = upload_bytes m"
  by (induction m) (auto simp: scene_upload_def)

lemma clip_keeps_id: "clip_image_placement img r = Some c \<Longrightarrow> pi_image_id c = pi_image_id img"
  by (auto simp: clip_image_placement_def Let_def split: option.splits)

lemma scene_placement_props:
  assumes clip: "rect_valid clip" and rect: "gr_rows (pi_grid_rect p) \<le> u16_max" "gr_cols (pi_grid_rect p) \<le> u16_max"
    and s: "scene_placement owner origin clip p = Some q"
  shows "ip_owner q = owner \<and> pi_image_id (ip_image q) = pi_image_id p \<and>
    rect_valid (pi_grid_rect (ip_image q)) \<and> rect_cells (pi_grid_rect (ip_image q)) \<subseteq> rect_cells clip"
proof -
  define moved where "moved = p\<lparr>pi_grid_rect := grid_rect_new
    (grid_point_new (sat_i32 (rect_top (pi_grid_rect p) + gp_row origin)) (sat_i32 (rect_left (pi_grid_rect p) + gp_col origin)))
    (gr_rows (pi_grid_rect p)) (gr_cols (pi_grid_rect p))\<rparr>"
  obtain c where c: "clip_image_placement moved clip = Some c" "q = \<lparr>ip_owner = owner, ip_image = c\<rparr>"
    using s by (auto simp: scene_placement_def Let_def moved_def)
  have valid: "rect_valid (pi_grid_rect moved)" using rect by (simp add: moved_def rect_valid_def rect_new_defs)
  have "intersect_rect (pi_grid_rect moved) clip = Some (pi_grid_rect c)"
    using clip_image_rect [of moved clip] c by simp
  then have "rect_valid (pi_grid_rect c) \<and> rect_cells (pi_grid_rect c) \<subseteq> rect_cells clip"
    using intersect_rect_cells [OF valid clip] by auto
  moreover have "pi_image_id c = pi_image_id p" using clip_keeps_id [OF c(1)] by (simp add: moved_def)
  ultimately show ?thesis using c(2) by simp
qed

text \<open>
  Adding a pane's media to a scene fails only when the scene's payloads would exceed their limit.
  Otherwise they stay within it, nothing of the scene is lost, every placement added lies inside the
  pane's clip and, as for those before, its payload is in the scene, so that rendering never misses
  one.
\<close>

theorem appended_media_complete:
  assumes inv: "media_inv s" and sc: "scene_media_complete sc" and clip: "rect_valid clip"
    and rects: "list_all (\<lambda>p. gr_rows (pi_grid_rect p) \<le> u16_max \<and> gr_cols (pi_grid_rect p) \<le> u16_max) (ms_placements s)"
    and limit: "ml_maximum_scene_bytes (ms_limits s) < usize_max"
  shows "case append_to_scene s owner origin clip sc of
       Err e \<Rightarrow> scene_media_bytes sc + ms_total_bytes s > ml_maximum_scene_bytes (ms_limits s)
     | Ok sc' \<Rightarrow> scene_media_complete sc' \<and> scene_media_bytes sc' \<le> ml_maximum_scene_bytes (ms_limits s) \<and>
         (\<exists>us ps. sc' = sc\<lparr>sc_image_uploads := sc_image_uploads sc @ us, sc_images := sc_images sc @ ps\<rparr> \<and>
            list_all (\<lambda>p. ip_owner p = owner \<and> rect_valid (pi_grid_rect (ip_image p)) \<and>
                         rect_cells (pi_grid_rect (ip_image p)) \<subseteq> rect_cells clip) ps)"
proof (cases "saturating_add_usize (scene_media_bytes sc) (ms_total_bytes s) > ml_maximum_scene_bytes (ms_limits s)")
  case True
  then show ?thesis using limit by (auto simp: append_to_scene_def Let_def saturating_add_usize_def)
next
  case False
  define us where "us = map (\<lambda>(i, u). scene_upload owner i u) (ms_uploads s)"
  define ps where "ps = List.map_filter (scene_placement owner origin clip) (ms_placements s)"
  define sc' where "sc' = sc\<lparr>sc_image_uploads := sc_image_uploads sc @ us, sc_images := sc_images sc @ ps\<rparr>"
  have result: "append_to_scene s owner origin clip sc = Ok sc'"
    using False by (simp add: append_to_scene_def Let_def us_def ps_def sc'_def)
  have bytes: "scene_media_bytes sc' \<le> ml_maximum_scene_bytes (ms_limits s)"
    using False limit inv scene_uploads_bytes [of owner "ms_uploads s"]
    by (auto simp: sc'_def us_def saturating_add_usize_def media_inv_def)
  have placed: "\<exists>p \<in> set (ms_placements s). scene_placement owner origin clip p = Some q" if "q \<in> set ps" for q
    using that by (force simp: ps_def List.map_filter_def)
  have props: "ip_owner q = owner \<and> rect_valid (pi_grid_rect (ip_image q)) \<and> rect_cells (pi_grid_rect (ip_image q)) \<subseteq> rect_cells clip
      \<and> placement_upload sc' q \<noteq> None" if q: "q \<in> set ps" for q
  proof -
    obtain p where p: "p \<in> set (ms_placements s)" "scene_placement owner origin clip p = Some q" using placed [OF q] by blast
    have "gr_rows (pi_grid_rect p) \<le> u16_max" "gr_cols (pi_grid_rect p) \<le> u16_max" using rects p(1) by (auto simp: list_all_iff)
    note q' = scene_placement_props [OF clip this p(2)]
    have "pi_image_id p \<in> set (map fst (ms_uploads s))" using inv p(1) by (auto simp: media_inv_def)
    then obtain u where "(pi_image_id p, u) \<in> set (ms_uploads s)" by auto
    then have "scene_upload owner (pi_image_id p) u \<in> set (sc_image_uploads sc')" by (force simp: sc'_def us_def)
    moreover have "iu_owner (scene_upload owner (pi_image_id p) u) = owner" "iu_image_id (scene_upload owner (pi_image_id p) u) = pi_image_id p"
      by (simp_all add: scene_upload_def)
    ultimately have "placement_upload sc' q \<noteq> None"
      using q' unfolding placement_upload_def find_None_iff by metis
    then show ?thesis using q' by simp
  qed
  have "placement_upload sc' p \<noteq> None" if "p \<in> set (sc_images sc)" for p
  proof -
    have "placement_upload sc p \<noteq> None" using sc that by (simp add: scene_media_complete_def)
    then have "\<exists>u \<in> set (sc_image_uploads sc). iu_owner u = ip_owner p \<and> iu_image_id u = pi_image_id (ip_image p)"
      unfolding placement_upload_def find_None_iff by blast
    then show ?thesis unfolding placement_upload_def find_None_iff by (auto simp: sc'_def)
  qed
  then have "scene_media_complete sc'" using props by (auto simp: scene_media_complete_def sc'_def)
  moreover have "list_all (\<lambda>p. ip_owner p = owner \<and> rect_valid (pi_grid_rect (ip_image p)) \<and>
                         rect_cells (pi_grid_rect (ip_image p)) \<subseteq> rect_cells clip) ps"
    using props by (simp add: list_all_iff)
  ultimately show ?thesis using bytes unfolding result by (auto simp: sc'_def)
qed

theorem appended_media_complete_witness:
  defines "s \<equiv> fst (synchronize (media_store_new default_media_limits) [example_placement 4 100 ''a''])"
  shows "case append_to_scene s 1 (grid_point_new 0 0) (grid_rect_new (grid_point_new 0 0) 24 80) (scene_new (geometry_from_cells 24 80)) of
      Err e \<Rightarrow> False | Ok sc' \<Rightarrow> scene_media_complete sc' \<and> length (sc_image_uploads sc') = 1"
proof -
  have inv: "media_inv s"
    unfolding s_def
    using media_sync_transparent [OF media_inv_new [of default_media_limits], of "[example_placement 4 100 ''a'']"]
    by (simp add: arcs_consistent_def media_store_new_def default_limits_small)
  have s: "ms_uploads s = [(4, pane_upload_from_ghostty (example_placement 4 100 ''a''))]" "ms_limits s = default_media_limits"
      "ms_total_bytes s = 3" "map pi_grid_rect (ms_placements s) = [grid_rect_new (grid_point_new 0 0) 1 1]"
    by (simp_all add: s_def synchronize_def media_store_new_def default_media_limits_def fresh_upload btree_get_def Let_def
        example_placement_def pane_upload_from_ghostty_def normalize_pixel_data_def expand_gray_def saturating_add_usize_def
        presented_image_from_ghostty_def try_u16_def u16_max_def usize_max_def)
  have "length (sc_image_uploads sc') = 1" if "append_to_scene s owner origin clip (scene_new g) = Ok sc'" for owner origin clip g sc'
    using that by (auto simp: append_to_scene_def scene_new_def s Let_def split: if_splits)
  moreover have "list_all (\<lambda>p. gr_rows (pi_grid_rect p) \<le> u16_max \<and> gr_cols (pi_grid_rect p) \<le> u16_max) (ms_placements s)"
    using s(4) by (auto simp: list_all_iff rect_new_defs u16_max_def map_eq_Cons_conv)
  ultimately show ?thesis
    using appended_media_complete [OF inv, of "scene_new (geometry_from_cells 24 80)" "grid_rect_new (grid_point_new 0 0) 24 80"
        1 "grid_point_new 0 0"]
    by (auto simp: scene_media_complete_def scene_new_def rect_valid_def in_i32_def rect_new_defs u16_max_def s
        default_media_limits_def usize_max_def split: result.splits)
qed

end
