(* ===== verification/Scene_Compose.thy ===== *)
theory Scene_Compose
  imports Scene_Images
begin

text \<open>
  Composition of a scene into what the terminal is to show (\<^verbatim>\<open>PresentedScene::compose\<close> of
  \<^verbatim>\<open>presentation.rs\<close>): surfaces are blitted in order, the cursor and the modes come from the cursor's
  owner, images through \<^verbatim>\<open>Scene_Images\<close>. The lemmas show that every cell is that of the topmost
  surface. The shared rows of a snapshot (\<^verbatim>\<open>Arc\<close>, copied on write) are plain lists.
\<close>

section \<open>Blitting\<close>

definition blank_row :: "nat \<Rightarrow> row" where
  "blank_row cols = \<lparr>row_cells = replicate cols cell_default, row_wrapped = False\<rparr>"

definition blank_rows :: "terminal_geometry \<Rightarrow> row list" where
  "blank_rows g = replicate (grid_rows g) (blank_row (grid_cols g))"

text \<open>An index beyond the target is a panic: None.\<close>

fun blit_cells :: "nat \<Rightarrow> int \<Rightarrow> nat \<Rightarrow> cell list \<Rightarrow> cell list \<Rightarrow> cell list option" where
  "blit_cells cols origin j [] target = Some target"
| "blit_cells cols origin j (c # cs) target =
     (if \<not> in_i32 (int j) then Some target
      else let col = sat_i32 (origin + int j) in
           if col < 0 \<or> col \<ge> int cols then blit_cells cols origin (Suc j) cs target
           else if nat col < length target then blit_cells cols origin (Suc j) cs (target[nat col := c])
           else None)"

definition spans_width :: "terminal_geometry \<Rightarrow> scene_surface \<Rightarrow> bool" where
  "spans_width g s \<longleftrightarrow>
     gp_col (ss_origin s) \<le> 0 \<and>
     sat_i32 (gp_col (ss_origin s) + int (grid_cols (ts_geometry (ss_snapshot s)))) \<ge> int (grid_cols g)"

fun blit_rows :: "terminal_geometry \<Rightarrow> scene_surface \<Rightarrow> nat \<Rightarrow> row list \<Rightarrow> row list \<Rightarrow> row list option" where
  "blit_rows g s i [] target = Some target"
| "blit_rows g s i (source # rows) target =
     (if \<not> in_i32 (int i) then Some target
      else let row = sat_i32 (gp_row (ss_origin s) + int i) in
           if row < 0 \<or> row \<ge> int (grid_rows g) then blit_rows g s (Suc i) rows target
           else if nat row < length target
           then Option.bind (blit_cells (grid_cols g) (gp_col (ss_origin s)) 0 (row_cells source) (row_cells (target ! nat row)))
                  (\<lambda>cells. blit_rows g s (Suc i) rows
                     (target[nat row := \<lparr>row_cells = cells,
                        row_wrapped = (if spans_width g s then row_wrapped source else row_wrapped (target ! nat row))\<rparr>]))
           else None)"

definition blit_surface :: "terminal_geometry \<Rightarrow> row list \<Rightarrow> scene_surface \<Rightarrow> row list option" where
  "blit_surface g target s = blit_rows g s 0 (ts_rows (ss_snapshot s)) target"

fun blit_all :: "terminal_geometry \<Rightarrow> row list \<Rightarrow> scene_surface list \<Rightarrow> row list option" where
  "blit_all g target [] = Some target"
| "blit_all g target (s # ss) = Option.bind (blit_surface g target s) (\<lambda>target. blit_all g target ss)"

section \<open>Composition\<close>

definition cursor_surface :: "scene \<Rightarrow> scene_surface option" where
  "cursor_surface sc =
     (case sc_cursor_owner sc of
        OwnerPane i \<Rightarrow> find (\<lambda>s. ss_id s = i) (sc_panes sc)
      | OwnerOverlay i \<Rightarrow> map_option so_surface (find (\<lambda>ov. ss_id (so_surface ov) = i) (sc_overlays sc))
      | OwnerHidden \<Rightarrow> None)"

definition terminal_modes_default :: terminal_modes where
  "terminal_modes_default =
     \<lparr>md_application_keypad = False, md_application_cursor = False, md_bracketed_paste = False,
      md_synchronized_output = False, md_focus_reporting = False, md_kitty_keyboard_flags = 0,
      md_mouse_protocol = ProtocolNone, md_mouse_encoding = EncodingDefault\<rparr>"

definition presented_with_rows :: "terminal_geometry \<Rightarrow> row list \<Rightarrow> presented_scene" where
  "presented_with_rows g rows =
     \<lparr>ps_geometry = g, ps_rows = rows, ps_cursor = cursor_default\<lparr>cur_visible := False\<rparr>, ps_cursor_owner = OwnerHidden,
      ps_screen = PrimaryScreen, ps_modes = terminal_modes_default, ps_title = None, ps_working_directory = None,
      ps_image_uploads = [], ps_images = [], ps_bell_count = 0\<rparr>"

definition presented_blank :: "terminal_geometry \<Rightarrow> presented_scene" where
  "presented_blank g = presented_with_rows g (blank_rows g)"

definition first_covers_scene :: "scene \<Rightarrow> bool" where
  "first_covers_scene sc =
     (case sc_panes sc of
        [] \<Rightarrow> False
      | s # _ \<Rightarrow> ss_origin s = grid_point_new 0 0 \<and> ts_geometry (ss_snapshot s) = sc_geometry sc \<and>
                length (ts_rows (ss_snapshot s)) = grid_rows (sc_geometry sc))"

text \<open>A first pane that covers the scene is taken over whole; the other surfaces are painted over it.\<close>

definition compose_rows :: "scene \<Rightarrow> row list option" where
  "compose_rows sc =
     (let (rows, panes) = (if first_covers_scene sc
                           then (ts_rows (ss_snapshot (hd (sc_panes sc))), tl (sc_panes sc))
                           else (blank_rows (sc_geometry sc), sc_panes sc))
      in Option.bind (blit_all (sc_geometry sc) rows panes)
           (\<lambda>rows. blit_all (sc_geometry sc) rows (map so_surface (overlay_layers sc))))"

definition compose_cursor :: "scene \<Rightarrow> scene_surface \<Rightarrow> cursor" where
  "compose_cursor sc s =
     (let c = ts_cursor (ss_snapshot s);
          row = sat_i32 (gp_row (ss_origin s) + int (cur_row c));
          col = sat_i32 (gp_col (ss_origin s) + int (cur_col c));
          in_bounds = (row \<ge> 0 \<and> col \<ge> 0 \<and> row < int (grid_rows (sc_geometry sc)) \<and> col < int (grid_cols (sc_geometry sc)))
      in \<lparr>cur_row = u16_or u16_max (max row 0), cur_col = u16_or u16_max (max col 0),
          cur_visible = (cur_visible c \<and> in_bounds), cur_shape = cur_shape c\<rparr>)"

definition compose :: "scene \<Rightarrow> presented_scene option" where
  "compose sc =
     Option.bind (compose_rows sc) (\<lambda>rows.
       let p = (presented_with_rows (sc_geometry sc) rows)\<lparr>ps_cursor_owner := sc_cursor_owner sc\<rparr>;
           p = (case cursor_surface sc of
                  None \<Rightarrow> p
                | Some s \<Rightarrow> p\<lparr>ps_screen := ts_screen (ss_snapshot s), ps_modes := ts_modes (ss_snapshot s),
                              ps_cursor := compose_cursor sc s\<rparr>)
       in Option.bind (compose_image_uploads sc) (\<lambda>uploads. Option.bind (compose_images sc) (\<lambda>images.
            Some (p\<lparr>ps_title := we_title (sc_effects sc), ps_working_directory := we_working_directory (sc_effects sc),
                    ps_image_uploads := uploads, ps_images := images, ps_bell_count := we_bell_count (sc_effects sc)\<rparr>))))"

section \<open>The presented scene\<close>

definition row_text :: "presented_scene \<Rightarrow> nat \<Rightarrow> bytes" where
  "row_text p r = (if r < length (ps_rows p) then append_contents_to (ps_rows p ! r) [] else [])"

definition apply_terminal_effect :: "presented_scene \<Rightarrow> terminal_event \<Rightarrow> presented_scene" where
  "apply_terminal_effect p e =
     (case e of
        TitleChanged title \<Rightarrow> p\<lparr>ps_title := Some title\<rparr>
      | WorkingDirectoryChanged directory \<Rightarrow> p\<lparr>ps_working_directory := Some directory\<rparr>
      | _ \<Rightarrow> p)"

definition into_terminal_snapshot :: "presented_scene \<Rightarrow> terminal_snapshot" where
  "into_terminal_snapshot p =
     \<lparr>ts_rows = ps_rows p, ts_scrollback = [], ts_cursor = ps_cursor p, ts_geometry = ps_geometry p,
      ts_screen = ps_screen p, ts_modes = ps_modes p, ts_title = ps_title p,
      ts_working_directory = ps_working_directory p, ts_semantic_marks = [], ts_history_origin = 0,
      ts_scrollback_extent = 0, ts_viewport = ViewLive\<rparr>"

definition terminal_string_matches :: "bytes option \<Rightarrow> bytes option \<Rightarrow> bool" where
  "terminal_string_matches l r \<longleftrightarrow>
     l = r \<or> (case l of None \<Rightarrow> True | Some s \<Rightarrow> s = []) \<and> (case r of None \<Rightarrow> True | Some s \<Rightarrow> s = [])"

definition cells_physically_match :: "cell \<Rightarrow> cell \<Rightarrow> bool" where
  "cells_physically_match l r \<longleftrightarrow>
     (cell_grapheme l = cell_grapheme r \<or>
      cell_grapheme l \<in> {[], '' ''} \<and> cell_grapheme r \<in> {[], '' ''}) \<and>
     cell_width l = cell_width r \<and> cell_continuation l = cell_continuation r \<and>
     cell_style l = cell_style r \<and> cell_hyperlink l = cell_hyperlink r"

definition rows_physically_match :: "row list \<Rightarrow> row list \<Rightarrow> bool" where
  "rows_physically_match ls rs \<longleftrightarrow>
     list_all2 (\<lambda>l r. row_wrapped l = row_wrapped r \<and> list_all2 cells_physically_match (row_cells l) (row_cells r)) ls rs"

definition physical_fields_match :: "presented_scene \<Rightarrow> presented_scene \<Rightarrow> bool" where
  "physical_fields_match p q \<longleftrightarrow>
     ps_geometry p = ps_geometry q \<and> rows_physically_match (ps_rows p) (ps_rows q) \<and> ps_cursor p = ps_cursor q \<and>
     ps_modes p = ps_modes q \<and> terminal_string_matches (ps_title p) (ps_title q) \<and>
     terminal_string_matches (ps_working_directory p) (ps_working_directory q) \<and>
     ps_images p = ps_images q \<and> ps_bell_count p = ps_bell_count q"

definition physically_matches :: "presented_scene \<Rightarrow> presented_scene \<Rightarrow> bool" where
  "physically_matches p q \<longleftrightarrow> ps_screen p = ps_screen q \<and> physical_fields_match p q"

section \<open>The painter's order\<close>

definition at :: "'a list \<Rightarrow> int \<Rightarrow> 'a option" where
  "at xs k = (if 0 \<le> k \<and> nat k < length xs then Some (xs ! nat k) else None)"

lemma at_simps [simp]:
  "at [] k = None" "at (x # xs) k = (if k = 0 then Some x else at xs (k - 1))"
  by (auto simp: at_def nth_Cons' nat_diff_distrib)

lemma at_later: "int r - (k + int i) \<noteq> 0 \<Longrightarrow> at (x # xs) (int r - (k + int i)) = at xs (int r - (k + int (Suc i)))"
  by (simp add: algebra_simps)

lemma at_here: "int r - (k + int i) = 0 \<Longrightarrow> at xs (int r - (k + int (Suc i))) = None"
  by (simp add: at_def)

text \<open>The cell that a surface puts at a position of the scene, and the wrap mark it puts on a row:
  only the surfaces that span the scene's width do\<close>

definition surface_cell :: "scene_surface \<Rightarrow> nat \<Rightarrow> nat \<Rightarrow> cell option" where
  "surface_cell s r c =
     Option.bind (at (ts_rows (ss_snapshot s)) (int r - gp_row (ss_origin s)))
       (\<lambda>row. at (row_cells row) (int c - gp_col (ss_origin s)))"

definition surface_wrap :: "terminal_geometry \<Rightarrow> scene_surface \<Rightarrow> nat \<Rightarrow> bool option" where
  "surface_wrap g s r =
     (if spans_width g s then map_option row_wrapped (at (ts_rows (ss_snapshot s)) (int r - gp_row (ss_origin s))) else None)"

definition paint_order :: "scene \<Rightarrow> scene_surface list" where
  "paint_order sc = sc_panes sc @ map so_surface (overlay_layers sc)"

abbreviation or_else :: "'a option \<Rightarrow> 'a \<Rightarrow> 'a" where
  "or_else x d \<equiv> (case x of None \<Rightarrow> d | Some y \<Rightarrow> y)"

definition topmost :: "('a \<Rightarrow> 'b option) \<Rightarrow> 'b \<Rightarrow> 'a list \<Rightarrow> 'b" where
  "topmost f d xs = foldl (\<lambda>acc x. or_else (f x) acc) d xs"

lemma topmost_simps [simp]: "topmost f d [] = d" "topmost f d (x # xs) = topmost f (or_else (f x) d) xs"
  by (simp_all add: topmost_def)

lemma topmost_append: "topmost f d (xs @ ys) = topmost f (topmost f d xs) ys"
  by (simp add: topmost_def)

definition surface_fits :: "scene_surface \<Rightarrow> bool" where
  "surface_fits s \<longleftrightarrow>
     in_i32 (gp_row (ss_origin s)) \<and> in_i32 (gp_col (ss_origin s)) \<and> length (ts_rows (ss_snapshot s)) \<le> u16_max \<and>
     list_all (\<lambda>r. length (row_cells r) \<le> u16_max) (ts_rows (ss_snapshot s))"

lemma sat_i32_range:
  assumes "in_i32 a" "n \<le> u16_max"
  shows "sat_i32 (a + int i) < 0 \<longleftrightarrow> a + int i < 0" and "int n \<le> sat_i32 (a + int i) \<longleftrightarrow> int n \<le> a + int i"
    and "0 \<le> a + int i \<Longrightarrow> a + int i < int n \<Longrightarrow> sat_i32 (a + int i) = a + int i"
  using assms by (auto simp: sat_i32_def in_i32_def u16_max_def)

lemma small_in_i32: "i \<le> u16_max \<Longrightarrow> in_i32 (int i)"
  by (simp add: in_i32_def u16_max_def)

lemma blit_cells_spec:
  assumes origin: "in_i32 origin" and cols: "cols \<le> u16_max"
  shows "j + length cs \<le> u16_max \<Longrightarrow> length target = cols \<Longrightarrow>
     \<exists>t. blit_cells cols origin j cs target = Some t \<and> length t = cols \<and>
       (\<forall>c < cols. t ! c = or_else (at cs (int c - (origin + int j))) (target ! c))"
proof (induction cs arbitrary: j target)
  case (Cons x cs)
  note sat = sat_i32_range [OF origin cols, of j]
  have j: "in_i32 (int j)" using Cons.prems by (intro small_in_i32) simp
  have next_j: "origin + int (Suc j) = origin + int j + 1" by simp
  show ?case
  proof (cases "origin + int j < 0 \<or> int cols \<le> origin + int j")
    case True
    obtain t where t: "blit_cells cols origin (Suc j) cs target = Some t" "length t = cols"
      "\<forall>c < cols. t ! c = or_else (at cs (int c - (origin + int (Suc j)))) (target ! c)"
      using Cons.IH [of "Suc j" target] Cons.prems by auto
    have nz: "int c - (origin + int j) \<noteq> 0" if "c < cols" for c using True that by linarith
    have "t ! c = or_else (at (x # cs) (int c - (origin + int j))) (target ! c)" if "c < cols" for c
      using t(3) that unfolding at_later [OF nz [OF that]] by blast
    moreover have "blit_cells cols origin j (x # cs) target = Some t"
      using t(1) True j sat(1,2) by (auto simp: Let_def)
    ultimately show ?thesis using t(2) by blast
  next
    case False
    then have col: "sat_i32 (origin + int j) = origin + int j" using sat(3) by simp
    define p where "p = nat (origin + int j)"
    have p: "p < cols" "int p = origin + int j" using False by (auto simp: p_def)
    obtain t where t: "blit_cells cols origin (Suc j) cs (target[p := x]) = Some t" "length t = cols"
      "\<forall>c < cols. t ! c = or_else (at cs (int c - (origin + int (Suc j)))) (target[p := x] ! c)"
      using Cons.IH [of "Suc j" "target[p := x]"] Cons.prems by auto
    have "blit_cells cols origin j (x # cs) target = Some t"
      using t(1) False j Cons.prems(2) p(1) by (simp add: col p_def Let_def)
    moreover have "t ! c = or_else (at (x # cs) (int c - (origin + int j))) (target ! c)" if c: "c < cols" for c
    proof (cases "c = p")
      case True
      then have here: "int c - (origin + int j) = 0" using p by simp
      show ?thesis using t(3) [rule_format, OF c] at_here [OF here, of cs] Cons.prems(2) True c here by simp
    next
      case False
      then have nz: "int c - (origin + int j) \<noteq> 0" using p by auto
      have "target[p := x] ! c = target ! c" using False by simp
      then show ?thesis using t(3) [rule_format, OF c] unfolding at_later [OF nz] by (simp only:)
    qed
    ultimately show ?thesis using t(2) by blast
  qed
qed auto

definition rows_fit :: "terminal_geometry \<Rightarrow> row list \<Rightarrow> bool" where
  "rows_fit g rows \<longleftrightarrow> length rows = grid_rows g \<and> list_all (\<lambda>r. length (row_cells r) = grid_cols g) rows"

text \<open>What a source row leaves on a target row\<close>

definition painted_row :: "terminal_geometry \<Rightarrow> scene_surface \<Rightarrow> row option \<Rightarrow> row \<Rightarrow> row \<Rightarrow> bool" where
  "painted_row g s source target result \<longleftrightarrow>
     (case source of
        None \<Rightarrow> result = target
      | Some x \<Rightarrow> row_wrapped result = (if spans_width g s then row_wrapped x else row_wrapped target) \<and>
          (\<forall>c < grid_cols g. row_cells result ! c =
             or_else (at (row_cells x) (int c - gp_col (ss_origin s))) (row_cells target ! c)))"

lemma blit_rows_spec:
  assumes s: "in_i32 (gp_row (ss_origin s))" "in_i32 (gp_col (ss_origin s))"
  shows "i + length rows \<le> u16_max \<Longrightarrow> list_all (\<lambda>r. length (row_cells r) \<le> u16_max) rows \<Longrightarrow> rows_fit g target \<Longrightarrow>
     \<exists>t. blit_rows g s i rows target = Some t \<and> rows_fit g t \<and>
       (\<forall>r < grid_rows g. painted_row g s (at rows (int r - (gp_row (ss_origin s) + int i))) (target ! r) (t ! r))"
proof (induction rows arbitrary: i target)
  case Nil
  then show ?case by (auto simp: painted_row_def)
next
  case (Cons x rows)
  let ?o = "gp_row (ss_origin s)"
  note sat = sat_i32_range [OF s(1) geometry_bounds(1) [of g], of i]
  have i: "in_i32 (int i)" using Cons.prems by (intro small_in_i32) simp
  show ?case
  proof (cases "?o + int i < 0 \<or> int (grid_rows g) \<le> ?o + int i")
    case True
    obtain t where t: "blit_rows g s (Suc i) rows target = Some t" "rows_fit g t"
      "\<forall>r < grid_rows g. painted_row g s (at rows (int r - (?o + int (Suc i)))) (target ! r) (t ! r)"
      using Cons.IH [of "Suc i" target] Cons.prems by auto
    have nz: "int r - (?o + int i) \<noteq> 0" if "r < grid_rows g" for r using True that by linarith
    have "painted_row g s (at (x # rows) (int r - (?o + int i))) (target ! r) (t ! r)" if "r < grid_rows g" for r
      using t(3) that unfolding at_later [OF nz [OF that]] by blast
    moreover have "blit_rows g s i (x # rows) target = Some t"
      using t(1) True i sat(1,2) by (auto simp: Let_def)
    ultimately show ?thesis using t(2) by blast
  next
    case False
    then have row: "sat_i32 (?o + int i) = ?o + int i" using sat(3) by simp
    define p where "p = nat (?o + int i)"
    have ip: "int p = ?o + int i" using False by (simp add: p_def)
    then have "int p < int (grid_rows g)" using False by linarith
    note p = this [unfolded of_nat_less_iff] ip
    have len: "length (row_cells (target ! p)) = grid_cols g" "p < length target"
      using Cons.prems(3) p(1) by (auto simp: rows_fit_def list_all_length)
    obtain cells where cells: "blit_cells (grid_cols g) (gp_col (ss_origin s)) 0 (row_cells x) (row_cells (target ! p)) = Some cells"
      "length cells = grid_cols g"
      "\<forall>c < grid_cols g. cells ! c = or_else (at (row_cells x) (int c - gp_col (ss_origin s))) (row_cells (target ! p) ! c)"
      using blit_cells_spec [OF s(2) geometry_bounds(2) [of g], of 0 "row_cells x" "row_cells (target ! p)"] len(1) Cons.prems(2)
      by auto
    define y where "y = \<lparr>row_cells = cells, row_wrapped = (if spans_width g s then row_wrapped x else row_wrapped (target ! p))\<rparr>"
    have "rows_fit g (target[p := y])" using Cons.prems(3) cells(2) len(2)
      by (auto simp: rows_fit_def list_all_length nth_list_update y_def)
    then obtain t where t: "blit_rows g s (Suc i) rows (target[p := y]) = Some t" "rows_fit g t"
      "\<forall>r < grid_rows g. painted_row g s (at rows (int r - (?o + int (Suc i)))) (target[p := y] ! r) (t ! r)"
      using Cons.IH [of "Suc i" "target[p := y]"] Cons.prems by auto
    have "blit_rows g s i (x # rows) target = Some t"
      unfolding blit_rows.simps Let_def row p_def [symmetric]
      using t(1) False i len(2) cells(1) by (simp add: y_def [symmetric])
    moreover have "painted_row g s (at (x # rows) (int r - (?o + int i))) (target ! r) (t ! r)" if r: "r < grid_rows g" for r
    proof (cases "r = p")
      case True
      then have here: "int r - (?o + int i) = 0" using p by simp
      show ?thesis using t(3) [rule_format, OF r] at_here [OF here, of rows] len(2) True cells(3) here
        by (simp add: painted_row_def y_def)
    next
      case False
      then have nz: "int r - (?o + int i) \<noteq> 0" using p by auto
      show ?thesis unfolding at_later [OF nz] using t(3) [rule_format, OF r] False [symmetric] by simp
    qed
    ultimately show ?thesis using t(2) by blast
  qed
qed

text \<open>Rows as the surfaces painted so far leave them\<close>

definition shows_layers :: "terminal_geometry \<Rightarrow> row list \<Rightarrow> row list \<Rightarrow> scene_surface list \<Rightarrow> bool" where
  "shows_layers g base rows layers \<longleftrightarrow>
     rows_fit g rows \<and>
     (\<forall>r < grid_rows g. row_wrapped (rows ! r) = topmost (\<lambda>s. surface_wrap g s r) (row_wrapped (base ! r)) layers \<and>
        (\<forall>c < grid_cols g. row_cells (rows ! r) ! c = topmost (\<lambda>s. surface_cell s r c) (row_cells (base ! r) ! c) layers))"

lemma blit_surface_spec:
  assumes "surface_fits s" "rows_fit g target"
  shows "\<exists>t. blit_surface g target s = Some t \<and> shows_layers g target t [s]"
proof -
  obtain t where t: "blit_surface g target s = Some t" "rows_fit g t"
    "\<forall>r < grid_rows g. painted_row g s (at (ts_rows (ss_snapshot s)) (int r - gp_row (ss_origin s))) (target ! r) (t ! r)"
    using blit_rows_spec [of s 0 "ts_rows (ss_snapshot s)" g target] assms
    by (auto simp: surface_fits_def blit_surface_def)
  show ?thesis
    using t by (fastforce simp: shows_layers_def painted_row_def surface_cell_def surface_wrap_def split: option.splits)
qed

lemma blit_all_spec:
  "list_all surface_fits layers \<Longrightarrow> rows_fit g target \<Longrightarrow>
   \<exists>t. blit_all g target layers = Some t \<and> shows_layers g target t layers"
proof (induction layers arbitrary: target)
  case Nil
  then show ?case by (simp add: shows_layers_def)
next
  case (Cons s layers)
  then obtain t where t: "blit_surface g target s = Some t" "shows_layers g target t [s]"
    using blit_surface_spec [of s g target] by auto
  then have "rows_fit g t" by (simp add: shows_layers_def)
  then obtain t' where "blit_all g t layers = Some t'" "shows_layers g t t' layers"
    using Cons by auto
  then show ?case using t by (simp add: shows_layers_def)
qed

lemma blit_all_append:
  "Option.bind (blit_all g rows xs) (\<lambda>rows. blit_all g rows ys) = blit_all g rows (xs @ ys)"
  by (induction xs arbitrary: rows) auto

lemma blank_rows_fit: "rows_fit g (blank_rows g)"
  by (simp add: rows_fit_def blank_rows_def blank_row_def list_all_iff)

definition scene_fits :: "scene \<Rightarrow> bool" where
  "scene_fits sc \<longleftrightarrow>
     list_all surface_fits (paint_order sc) \<and>
     (first_covers_scene sc \<longrightarrow> rows_fit (sc_geometry sc) (ts_rows (ss_snapshot (hd (sc_panes sc)))))"

text \<open>Taking over the first pane is painting it on blank rows.\<close>

lemma cover_shows:
  assumes "first_covers_scene sc" "scene_fits sc"
  obtains s rest where "sc_panes sc = s # rest"
    "shows_layers (sc_geometry sc) (blank_rows (sc_geometry sc)) (ts_rows (ss_snapshot s)) [s]"
proof -
  obtain s rest where s: "sc_panes sc = s # rest" "ss_origin s = grid_point_new 0 0"
    "ts_geometry (ss_snapshot s) = sc_geometry sc"
    using assms(1) by (auto simp: first_covers_scene_def split: list.splits)
  have fit: "rows_fit (sc_geometry sc) (ts_rows (ss_snapshot s))" using assms s(1) by (simp add: scene_fits_def)
  have "spans_width (sc_geometry sc) s"
    unfolding spans_width_def s grid_point_new_def
    using sat_i32_id [OF small_in_i32 [OF geometry_bounds(2) [of "sc_geometry sc"]]] by simp
  then have "shows_layers (sc_geometry sc) (blank_rows (sc_geometry sc)) (ts_rows (ss_snapshot s)) [s]"
    using fit s(2)
    by (auto simp: shows_layers_def surface_cell_def surface_wrap_def at_def grid_point_new_def rows_fit_def list_all_length)
  then show thesis using that s(1) by blast
qed

lemma compose_rows_spec:
  assumes "scene_fits sc"
  shows "\<exists>rows. compose_rows sc = Some rows \<and> shows_layers (sc_geometry sc) (blank_rows (sc_geometry sc)) rows (paint_order sc)"
proof (cases "first_covers_scene sc")
  case True
  obtain s rest where s: "sc_panes sc = s # rest"
    "shows_layers (sc_geometry sc) (blank_rows (sc_geometry sc)) (ts_rows (ss_snapshot s)) [s]"
    using cover_shows [OF True assms] .
  have "rows_fit (sc_geometry sc) (ts_rows (ss_snapshot s))" using s(2) by (simp add: shows_layers_def)
  moreover have "list_all surface_fits (rest @ map so_surface (overlay_layers sc))"
    using assms s(1) by (simp add: scene_fits_def paint_order_def)
  ultimately obtain t where "blit_all (sc_geometry sc) (ts_rows (ss_snapshot s)) (rest @ map so_surface (overlay_layers sc)) = Some t"
    "shows_layers (sc_geometry sc) (ts_rows (ss_snapshot s)) t (rest @ map so_surface (overlay_layers sc))"
    using blit_all_spec by blast
  then show ?thesis using s True
    by (simp add: compose_rows_def blit_all_append shows_layers_def paint_order_def)
next
  case False
  then show ?thesis
    using blit_all_spec [OF _ blank_rows_fit, of "paint_order sc" "sc_geometry sc"] assms
    by (simp add: compose_rows_def blit_all_append scene_fits_def paint_order_def)
qed

lemma blank_rows_nth:
  "r < grid_rows g \<Longrightarrow> row_wrapped (blank_rows g ! r) = False"
  "r < grid_rows g \<Longrightarrow> c < grid_cols g \<Longrightarrow> row_cells (blank_rows g ! r) ! c = cell_default"
  by (simp_all add: blank_rows_def blank_row_def)

definition media_countable :: "scene \<Rightarrow> bool" where
  "media_countable sc \<longleftrightarrow>
     scene_rects_valid sc \<and> length (sc_image_uploads sc) + length (sc_images sc) \<le> u32_max \<and>
     fragment_count sc (sc_images sc) \<le> u32_max"

lemma compose_media_total:
  assumes "media_countable sc"
  shows "compose_image_uploads sc \<noteq> None" "compose_images sc \<noteq> None"
proof -
  have count: "length (sc_image_uploads sc) + length (sc_images sc) \<le> u32_max"
    using assms by (simp add: media_countable_def)
  obtain ids where ids: "outer_image_ids sc = Some ids" "dom (btree_get ids) = scene_keys sc"
    using outer_ids_total [OF count] by blast
  then show "compose_image_uploads sc \<noteq> None" by (simp add: compose_image_uploads_def)
  have "\<forall>p \<in> set (sc_images sc). btree_get ids (placement_key sc p) \<noteq> None" using ids(2) by blast
  then show "compose_images sc \<noteq> None"
    using compose_placements_total [of sc ids "sc_images sc" "{}"] assms ids(1)
    by (auto simp: media_countable_def compose_images_def compose_image_records_def ids_valid_def)
qed

lemma sat_i32_inner: "0 \<le> sat_i32 x \<Longrightarrow> sat_i32 x < int n \<Longrightarrow> n \<le> u16_max \<Longrightarrow> sat_i32 x = x"
  by (auto simp: sat_i32_def u16_max_def max_def min_def split: if_splits)

definition cursor_shown_in :: "scene \<Rightarrow> cursor \<Rightarrow> bool" where
  "cursor_shown_in sc c \<longleftrightarrow>
     (\<exists>s. cursor_surface sc = Some s \<and> cur_visible (ts_cursor (ss_snapshot s)) \<and>
        int (cur_row c) = gp_row (ss_origin s) + int (cur_row (ts_cursor (ss_snapshot s))) \<and>
        int (cur_col c) = gp_col (ss_origin s) + int (cur_col (ts_cursor (ss_snapshot s))) \<and>
        cur_row c < grid_rows (sc_geometry sc) \<and> cur_col c < grid_cols (sc_geometry sc))"

lemma compose_cursor_shown:
  assumes "cursor_surface sc = Some s" "cur_visible (compose_cursor sc s)"
  shows "cursor_shown_in sc (compose_cursor sc s)"
proof -
  define row where "row = sat_i32 (gp_row (ss_origin s) + int (cur_row (ts_cursor (ss_snapshot s))))"
  define col where "col = sat_i32 (gp_col (ss_origin s) + int (cur_col (ts_cursor (ss_snapshot s))))"
  have vis: "cur_visible (ts_cursor (ss_snapshot s))" "0 \<le> row" "0 \<le> col" "row < int (grid_rows (sc_geometry sc))"
    "col < int (grid_cols (sc_geometry sc))"
    using assms(2) by (simp_all add: compose_cursor_def Let_def row_def col_def)
  have exact: "row = gp_row (ss_origin s) + int (cur_row (ts_cursor (ss_snapshot s)))"
    "col = gp_col (ss_origin s) + int (cur_col (ts_cursor (ss_snapshot s)))"
    unfolding row_def col_def
    using vis(2-5) sat_i32_inner geometry_bounds by (metis row_def, metis col_def)
  have "row \<le> int u16_max" "col \<le> int u16_max"
    using vis(4,5) geometry_bounds [of "sc_geometry sc"] by linarith+
  then have "int (cur_row (compose_cursor sc s)) = row" "int (cur_col (compose_cursor sc s)) = col"
    using vis(2,3) by (simp_all add: compose_cursor_def Let_def row_def [symmetric] col_def [symmetric] u16_or_id)
  then show ?thesis using assms(1) vis exact unfolding cursor_shown_in_def by (metis of_nat_less_iff)
qed

text \<open>
  C27: Composing a scene always succeeds and paints it in order: every cell of the presented scene is
  the one of the topmost surface that covers it, panes first and then the overlays by height (blank
  where there is none), and every wrap mark that of the topmost surface spanning the width. This
  holds also where the first pane's rows are taken over whole. A visible cursor is at its owner's
  cursor position, inside the scene.
\<close>

theorem compose_paints:
  assumes fits: "scene_fits sc" and media: "media_countable sc"
  shows "\<exists>p. compose sc = Some p \<and> ps_geometry p = sc_geometry sc \<and> rows_fit (sc_geometry sc) (ps_rows p) \<and>
    (\<forall>r < grid_rows (sc_geometry sc).
       row_wrapped (ps_rows p ! r) = topmost (\<lambda>s. surface_wrap (sc_geometry sc) s r) False (paint_order sc) \<and>
       (\<forall>c < grid_cols (sc_geometry sc).
          row_cells (ps_rows p ! r) ! c = topmost (\<lambda>s. surface_cell s r c) cell_default (paint_order sc))) \<and>
    (cur_visible (ps_cursor p) \<longrightarrow> cursor_shown_in sc (ps_cursor p))"
proof -
  obtain rows where rows: "compose_rows sc = Some rows"
    "shows_layers (sc_geometry sc) (blank_rows (sc_geometry sc)) rows (paint_order sc)"
    using compose_rows_spec [OF fits] by blast
  obtain uploads images where media: "compose_image_uploads sc = Some uploads" "compose_images sc = Some images"
    using compose_media_total [OF media] by blast
  obtain p where p: "compose sc = Some p" "ps_geometry p = sc_geometry sc" "ps_rows p = rows"
    "ps_cursor p = (case cursor_surface sc of None \<Rightarrow> cursor_default\<lparr>cur_visible := False\<rparr> | Some s \<Rightarrow> compose_cursor sc s)"
    by (simp add: compose_def rows media presented_with_rows_def Let_def split: option.split)
  have "cur_visible (ps_cursor p) \<longrightarrow> cursor_shown_in sc (ps_cursor p)"
    using compose_cursor_shown by (auto simp: p(4) split: option.split)
  then show ?thesis
    using rows(2) p by (auto simp: shows_layers_def blank_rows_nth)
qed

text \<open>A pane that covers the screen with an overlay on it\<close>

theorem compose_paints_witness:
  defines "sc \<equiv> example_image_scene\<lparr>sc_cursor_owner := OwnerPane 1\<rparr>"
  shows "\<exists>p. compose sc = Some p \<and> rows_fit (geometry_from_cells 24 80) (ps_rows p)"
proof -
  have covers: "rows_fit (sc_geometry sc) (ts_rows (ss_snapshot (hd (sc_panes sc))))"
    by (simp add: sc_def example_scene_defs example_snapshot_of_def rows_fit_def list_all_iff)
  have "scene_fits sc"
    using covers
    by (simp add: scene_fits_def paint_order_def overlay_layers_def surface_fits_def sc_def example_scene_defs
        example_snapshot_of_def in_i32_def u16_max_def list_all_iff)
  moreover have "length (placement_fragments sc \<lparr>ip_owner = 1, ip_image = example_image\<rparr>) \<le> 4 ^ 1"
    using fragments_length [of sc "\<lparr>ip_owner = 1, ip_image = example_image\<rparr>"]
    by (simp add: sc_def example_image_scene_def scene_new_def occluders_def overlay_layers_def)
  then have "media_countable sc"
    by (simp add: media_countable_def sc_def scene_rects_valid_def example_scene_defs rect_valid_def in_i32_def u16_max_def
        u32_max_def)
  ultimately show ?thesis
    using compose_paints [of sc] by (auto simp: sc_def example_image_scene_def scene_new_def)
qed

end
