(* ===== verification/Scene_Wire.thy ===== *)
theory Scene_Wire
  imports Scene_Compose Clipboard
begin

text \<open>
  The bytes with which the physical terminal is made to show a scene (\<^verbatim>\<open>presentation.rs\<close>): styles,
  hyperlinks, cursor, modes, rows and Kitty images. What a terminal makes of them is stated with small
  reference readers of the sequences.
\<close>

section \<open>Control sequences\<close>

abbreviation ESC :: byte where "ESC \<equiv> CHR 0x1B"
abbreviation ST :: bytes where "ST \<equiv> [CHR 0x1B, CHR 0x5C]"

definition show_int :: "int \<Rightarrow> bytes" where
  "show_int i = (if i < 0 then CHR ''-'' # show_nat (nat (- i)) else show_nat (nat i))"

text \<open>Bytes that end or abort a control string are left out.\<close>

definition printable_bytes :: "bytes \<Rightarrow> bytes" where
  "printable_bytes s = filter (\<lambda>b. 32 \<le> byte_val b \<and> byte_val b \<noteq> 0x7F) s"

definition write_terminal_string :: "nat \<Rightarrow> bytes option \<Rightarrow> bytes" where
  "write_terminal_string code v =
     ESC # '']'' @ show_nat code @ '';'' @ printable_bytes (case v of None \<Rightarrow> [] | Some s \<Rightarrow> s) @ ST"

definition write_hyperlink :: "bytes option \<Rightarrow> bytes" where
  "write_hyperlink link =
     ESC # '']8;;'' @ (case link of None \<Rightarrow> [] | Some l \<Rightarrow> printable_bytes l) @ ST"

definition write_private_mode :: "nat \<Rightarrow> bool \<Rightarrow> bytes" where
  "write_private_mode mode enabled = ESC # ''[?'' @ show_nat mode @ (if enabled then ''h'' else ''l'')"

definition write_absolute_cursor :: "nat \<Rightarrow> nat \<Rightarrow> bytes" where
  "write_absolute_cursor row col = ESC # ''['' @ show_nat (row + 1) @ '';'' @ show_nat (col + 1) @ ''H''"

definition write_vertical_region :: "nat \<Rightarrow> nat \<Rightarrow> bytes" where
  "write_vertical_region t b = ESC # ''['' @ show_nat (t + 1) @ '';'' @ show_nat b @ ''r''"

definition reset_vertical_region :: bytes where
  "reset_vertical_region = ESC # ''[r''"

section \<open>Styles\<close>

definition write_color :: "color \<Rightarrow> nat \<Rightarrow> bytes" where
  "write_color c selector =
     (case c of
        ColorDefault \<Rightarrow> []
      | ColorIndexed i \<Rightarrow> '';'' @ show_nat selector @ '';5;'' @ show_nat (unat i)
      | ColorRgb r g b \<Rightarrow>
          '';'' @ show_nat selector @ '';2;'' @ show_nat (unat r) @ '';'' @ show_nat (unat g) @ '';'' @ show_nat (unat b))"

definition write_underline :: "underline_style \<Rightarrow> bytes" where
  "write_underline u =
     (case u of UnderlineNone \<Rightarrow> [] | UnderlineSingle \<Rightarrow> '';4:1'' | UnderlineDouble \<Rightarrow> '';4:2''
      | UnderlineCurly \<Rightarrow> '';4:3'' | UnderlineDotted \<Rightarrow> '';4:4'' | UnderlineDashed \<Rightarrow> '';4:5'')"

definition write_style :: "style \<Rightarrow> bytes" where
  "write_style s =
     ESC # ''[0'' @
     concat (map (\<lambda>(enabled, code). if enabled then code else [])
       [(st_bold s, '';1''), (st_dim s, '';2''), (st_italic s, '';3''), (st_blink s, '';5''), (st_inverse s, '';7''),
        (st_invisible s, '';8''), (st_strikethrough s, '';9''), (st_overline s, '';53'')]) @
     write_underline (st_underline s) @
     write_color (st_foreground s) 38 @ write_color (st_background s) 48 @ write_color (st_underline_color s) 58 @ ''m''"

section \<open>The cursor and the modes\<close>

definition write_cursor :: "cursor \<Rightarrow> bytes" where
  "write_cursor c =
     ESC # ''['' @ show_nat (sat_add16 (cur_row c) 1) @ '';'' @ show_nat (sat_add16 (cur_col c) 1) @ ''H'' @
     ESC # ''['' @ show_nat (case cur_shape c of ShapeBlock \<Rightarrow> 2 | ShapeBlockHollow \<Rightarrow> 2 | ShapeUnderline \<Rightarrow> 4 | ShapeBar \<Rightarrow> 6) @
     '' q'' @ ESC # ''[?25'' @ (if cur_visible c then ''h'' else ''l'')"

definition protocol_mode :: "mouse_protocol \<Rightarrow> nat option" where
  "protocol_mode p =
     (case p of ProtocolNone \<Rightarrow> None | Press \<Rightarrow> Some 9 | PressRelease \<Rightarrow> Some 1000 | ButtonMotion \<Rightarrow> Some 1002
      | AnyMotion \<Rightarrow> Some 1003)"

definition write_mouse :: "mouse_protocol \<Rightarrow> mouse_encoding \<Rightarrow> bytes" where
  "write_mouse protocol encoding =
     concat (map (\<lambda>mode. write_private_mode mode False) [9, 1000, 1002, 1003, 1005, 1006]) @
     (case protocol_mode protocol of None \<Rightarrow> [] | Some mode \<Rightarrow> write_private_mode mode True) @
     (case encoding of EncodingDefault \<Rightarrow> [] | EncodingUtf8 \<Rightarrow> write_private_mode 1005 True
      | EncodingSgr \<Rightarrow> write_private_mode 1006 True)"

definition write_kitty_flags :: "8 word \<Rightarrow> bytes" where
  "write_kitty_flags flags = ESC # ''[='' @ show_nat (unat flags) @ ''u''"

definition write_keypad :: "bool \<Rightarrow> bytes" where
  "write_keypad application = (if application then ESC # ''='' else ESC # ''>'')"

definition write_modes :: "terminal_modes \<Rightarrow> bool \<Rightarrow> bytes" where
  "write_modes m synchronized_wrapper =
     write_keypad (md_application_keypad m) @
     write_private_mode 1 (md_application_cursor m) @
     write_private_mode 2004 (md_bracketed_paste m) @
     write_private_mode 1004 (md_focus_reporting m) @
     write_mouse (md_mouse_protocol m) (md_mouse_encoding m) @
     write_kitty_flags (md_kitty_keyboard_flags m) @
     (if md_synchronized_output m then write_private_mode 2026 True
      else if synchronized_wrapper then write_private_mode 2026 False
      else write_private_mode 2026 False)"

definition write_mode_changes :: "terminal_modes \<Rightarrow> terminal_modes \<Rightarrow> bytes" where
  "write_mode_changes previous intended =
     (if md_application_keypad previous \<noteq> md_application_keypad intended
      then write_keypad (md_application_keypad intended) else []) @
     concat (map (\<lambda>(mode, before, after). if before \<noteq> after then write_private_mode mode after else [])
       [(1, md_application_cursor previous, md_application_cursor intended),
        (2004, md_bracketed_paste previous, md_bracketed_paste intended),
        (1004, md_focus_reporting previous, md_focus_reporting intended)]) @
     (if md_mouse_protocol previous \<noteq> md_mouse_protocol intended \<or> md_mouse_encoding previous \<noteq> md_mouse_encoding intended
      then write_mouse (md_mouse_protocol intended) (md_mouse_encoding intended) else []) @
     (if md_kitty_keyboard_flags previous \<noteq> md_kitty_keyboard_flags intended
      then write_kitty_flags (md_kitty_keyboard_flags intended) else []) @
     (if md_synchronized_output previous \<noteq> md_synchronized_output intended
      then write_private_mode 2026 (md_synchronized_output intended) else [])"

section \<open>Rows\<close>

text \<open>The loop over the cells of a row, with the style and the hyperlink that are active; it returns
  the bytes and the hyperlink left open.\<close>

fun write_cells :: "style \<Rightarrow> bytes option \<Rightarrow> cell list \<Rightarrow> bytes \<times> bytes option" where
  "write_cells active_style active_link [] = ([], active_link)"
| "write_cells active_style active_link (c # cs) =
     (if cell_continuation c then write_cells active_style active_link cs
      else let (rest, link) = write_cells (cell_style c) (cell_hyperlink c) cs in
        ((if cell_hyperlink c \<noteq> active_link then write_hyperlink (cell_hyperlink c) else []) @
         (if cell_style c \<noteq> active_style then write_style (cell_style c) else []) @
         (if cell_grapheme c = [] then '' '' else cell_grapheme c) @ rest, link))"

definition write_run_cells :: "cell list \<Rightarrow> bytes" where
  "write_run_cells cs =
     (let (bs, link) = write_cells style_default None cs in bs @ (if link \<noteq> None then write_hyperlink None else []))"

definition write_incremental_run :: "nat \<Rightarrow> nat \<Rightarrow> nat \<Rightarrow> row \<Rightarrow> bytes" where
  "write_incremental_run r start stop cells =
     write_absolute_cursor r start @ ESC # ''[0m'' @ ESC # '']8;;'' @ ST @
     write_run_cells (drop start (take stop (row_cells cells))) @ ESC # ''[0m''"

definition write_row_at :: "nat \<Rightarrow> row \<Rightarrow> bytes" where
  "write_row_at r x =
     ESC # ''['' @ show_nat (r + 1) @ '';1H'' @ (if \<not> row_wrapped x then ESC # ''[2K'' else []) @ ESC # ''[0m'' @
     write_run_cells (row_cells x)"

definition write_full_rows :: "presented_scene \<Rightarrow> bytes" where
  "write_full_rows p =
     (let rows = ps_rows p; n = length rows in
      concat (map (\<lambda>i.
          (if \<not> row_wrapped (rows ! i) then ESC # ''[?7l'' else []) @ write_row_at i (rows ! i) @
          (if \<not> row_wrapped (rows ! i) then ESC # ''[?7h'' else []) @
          (if row_wrapped (rows ! i) \<and> i + 1 < n then '' '' else [])) [0..<n]) @
      (if 2 \<le> n \<and> row_wrapped (last rows)
       then let last_row = n - 1 in
         ESC # ''['' @ show_nat last_row @ '';'' @ show_nat (grid_cols (ps_geometry p)) @ ''H'' @ ESC # ''[0mXX'' @
         [CHR 0x0D, CHR 0x0A] @
         concat (map (\<lambda>i. write_row_at i (rows ! i) @
           (if row_wrapped (rows ! i) \<and> i < last_row then '' '' else [])) [0..<n])
       else []))"

section \<open>Kitty graphics\<close>

definition KITTY_BASE64_CHUNK_BYTES :: nat where
  "KITTY_BASE64_CHUNK_BYTES = 4096"

function chunks :: "nat \<Rightarrow> 'a list \<Rightarrow> 'a list list" where
  "chunks n xs = (if xs = [] \<or> n = 0 then [] else take n xs # chunks n (drop n xs))"
  by pat_completeness auto
termination
  by (relation "measure (\<lambda>(n, xs). length xs)") auto

declare chunks.simps [simp del]

definition kitty_header :: "nat \<Rightarrow> scene_image_upload \<Rightarrow> bytes" where
  "kitty_header image_id u =
     ESC # ''_Ga=t,t=d,f='' @
     show_nat (case iu_format u of FormatRgb \<Rightarrow> 24 | FormatGray \<Rightarrow> 24 | FormatRgba \<Rightarrow> 32 | FormatGrayAlpha \<Rightarrow> 32) @
     '',s='' @ show_nat (iu_pixel_width u) @ '',v='' @ show_nat (iu_pixel_height u) @ '',i='' @ show_nat image_id @ '',q=2,m=''"

text \<open>The pieces of an upload: what opens each, whether more follow, and its payload\<close>

definition kitty_pieces :: "bytes \<Rightarrow> (bool \<times> bytes) list" where
  "kitty_pieces encoded =
     (let cs = (if encoded = [] then [[]] else chunks KITTY_BASE64_CHUNK_BYTES encoded)
      in map (\<lambda>i. (i + 1 < length cs, cs ! i)) [0..<length cs])"

definition write_kitty_upload :: "nat \<Rightarrow> scene_image_upload \<Rightarrow> bytes" where
  "write_kitty_upload image_id u =
     concat (map (\<lambda>(i, more, chunk).
         (if i = 0 then kitty_header image_id u else ESC # ''_Gm='') @
         show_nat (of_bool more) @ '';'' @ chunk @ ST)
       (enumerate 0 (kitty_pieces (encode_base64 (iu_data u)))))"

definition write_kitty_placement :: "presented_image \<Rightarrow> bytes" where
  "write_kitty_placement img =
     ESC # ''['' @ show_int (sat_i32 (rect_top (pi_grid_rect img) + 1)) @ '';'' @
     show_int (sat_i32 (rect_left (pi_grid_rect img) + 1)) @ ''H'' @
     ESC # ''_Ga=p,i='' @ show_nat (pi_image_id img) @ '',p='' @ show_nat (pi_placement_id img) @
     '',x='' @ show_nat (pi_source_x img) @ '',y='' @ show_nat (pi_source_y img) @
     '',w='' @ show_nat (pi_source_width img) @ '',h='' @ show_nat (pi_source_height img) @
     '',X='' @ show_nat (pi_x_offset img) @ '',Y='' @ show_nat (pi_y_offset img) @
     '',c='' @ show_nat (gr_cols (pi_grid_rect img)) @ '',r='' @ show_nat (gr_rows (pi_grid_rect img)) @
     '',C=1,U='' @ show_nat (of_bool (pi_virtual_placement img)) @ '',z='' @ show_int (pi_z_index img) @ '';'' @ ST"

text \<open>The uploads that the terminal does not have yet, one for each outer identifier\<close>

fun write_kitty_uploads ::
  "(image_key, nat) btree_map \<Rightarrow> presented_image_upload list \<Rightarrow> nat set \<Rightarrow> scene_image_upload list \<Rightarrow> bytes option" where
  "write_kitty_uploads ids retained uploaded [] = Some []"
| "write_kitty_uploads ids retained uploaded (u # us) =
     Option.bind (btree_get ids (upload_key u)) (\<lambda>i.
       if i \<in> uploaded then write_kitty_uploads ids retained uploaded us
       else map_option ((@) (if presented_upload i u \<in> set retained then [] else write_kitty_upload i u))
              (write_kitty_uploads ids retained (insert i uploaded) us))"

fun write_kitty_placements :: "scene \<Rightarrow> composed_image list \<Rightarrow> (bytes, presentation_error) result" where
  "write_kitty_placements sc [] = Ok []"
| "write_kitty_placements sc (r # rs) =
     (if \<exists>u \<in> set (sc_image_uploads sc). iu_owner u = ci_owner r \<and> iu_image_id u = ci_source_image_id r
      then bind_result (write_kitty_placements sc rs) (\<lambda>bs. Ok (write_kitty_placement (ci_image r) @ bs))
      else Err (MissingMediaUpload (ci_owner r) (ci_source_image_id r)))"

text \<open>None: a panic, or the composition does not end\<close>

definition write_kitty_images ::
  "scene \<Rightarrow> presented_scene \<Rightarrow> presented_image_upload list \<Rightarrow> (bytes, presentation_error) result option" where
  "write_kitty_images sc intended retained =
     Option.bind (compose_image_records sc) (\<lambda>records.
       if length records \<noteq> length (ps_images intended) \<or> map ci_image records \<noteq> ps_images intended
       then Some (Err InconsistentComposedMedia)
       else Option.bind (outer_image_ids sc) (\<lambda>ids.
         map_option (\<lambda>uploads. bind_result (write_kitty_placements sc records) (\<lambda>bs. Ok (uploads @ bs)))
           (write_kitty_uploads ids retained {} (sc_image_uploads sc))))"

section \<open>A terminal that reads modes\<close>

text \<open>How a terminal takes the private modes: setting a mouse mode selects it, resetting any turns
  tracking off, and likewise for the encodings.\<close>

definition set_private_mode :: "nat \<Rightarrow> bool \<Rightarrow> terminal_modes \<Rightarrow> terminal_modes" where
  "set_private_mode mode enabled m =
     (if mode = 1 then m\<lparr>md_application_cursor := enabled\<rparr>
      else if mode = 2004 then m\<lparr>md_bracketed_paste := enabled\<rparr>
      else if mode = 1004 then m\<lparr>md_focus_reporting := enabled\<rparr>
      else if mode = 2026 then m\<lparr>md_synchronized_output := enabled\<rparr>
      else if mode = 9 then m\<lparr>md_mouse_protocol := if enabled then Press else ProtocolNone\<rparr>
      else if mode = 1000 then m\<lparr>md_mouse_protocol := if enabled then PressRelease else ProtocolNone\<rparr>
      else if mode = 1002 then m\<lparr>md_mouse_protocol := if enabled then ButtonMotion else ProtocolNone\<rparr>
      else if mode = 1003 then m\<lparr>md_mouse_protocol := if enabled then AnyMotion else ProtocolNone\<rparr>
      else if mode = 1005 then m\<lparr>md_mouse_encoding := if enabled then EncodingUtf8 else EncodingDefault\<rparr>
      else if mode = 1006 then m\<lparr>md_mouse_encoding := if enabled then EncodingSgr else EncodingDefault\<rparr>
      else m)"

abbreviation leading_digits :: "bytes \<Rightarrow> bytes" where
  "leading_digits s \<equiv> takeWhile is_ascii_digit s"

lemma dropWhile_less: "dropWhile P xs = d # ys \<Longrightarrow> length ys < length xs"
  by (metis length_Cons length_dropWhile_le less_eq_Suc_le)

function run_modes :: "bytes \<Rightarrow> terminal_modes \<Rightarrow> terminal_modes option" where
  "run_modes s m =
     (case s of
        [] \<Rightarrow> Some m
      | a # b # rest \<Rightarrow>
          if a \<noteq> ESC then None
          else if b = CHR ''='' then run_modes rest (m\<lparr>md_application_keypad := True\<rparr>)
          else if b = CHR ''>'' then run_modes rest (m\<lparr>md_application_keypad := False\<rparr>)
          else if b \<noteq> CHR ''['' then None
          else (case rest of
                  [] \<Rightarrow> None
                | c # rest \<Rightarrow>
                    (case dropWhile is_ascii_digit rest of
                       [] \<Rightarrow> None
                     | d # rest' \<Rightarrow>
                         let n = dec_val (leading_digits rest) in
                         if c = CHR ''?'' \<and> d = CHR ''h'' then run_modes rest' (set_private_mode n True m)
                         else if c = CHR ''?'' \<and> d = CHR ''l'' then run_modes rest' (set_private_mode n False m)
                         else if c = CHR ''='' \<and> d = CHR ''u''
                         then run_modes rest' (m\<lparr>md_kitty_keyboard_flags := word_of_nat n\<rparr>)
                         else None))
      | _ \<Rightarrow> None)"
  by pat_completeness auto

termination
  by (relation "measure (\<lambda>(s, m). length s)") (auto dest: dropWhile_less [OF sym] dropWhile_less)

declare run_modes.simps [simp del]

lemma digits_then:
  assumes "\<not> is_ascii_digit d"
  shows "takeWhile is_ascii_digit (show_nat n @ d # rest) = show_nat n" "dropWhile is_ascii_digit (show_nat n @ d # rest) = d # rest"
  using assms show_nat_set [of _ n] by (simp_all add: takeWhile_append2 dropWhile_append2)

lemma run_modes_Nil [simp]: "run_modes [] m = Some m"
  by (subst run_modes.simps) simp

lemma run_private_mode [simp]:
  "run_modes (write_private_mode mode enabled @ rest) m = run_modes rest (set_private_mode mode enabled m)"
  by (subst run_modes.simps) (simp add: write_private_mode_def digits_then byte_simps)

lemma run_keypad [simp]: "run_modes (write_keypad b @ rest) m = run_modes rest (m\<lparr>md_application_keypad := b\<rparr>)"
  by (subst run_modes.simps) (simp add: write_keypad_def)

lemma run_kitty_flags [simp]:
  "run_modes (write_kitty_flags f @ rest) m = run_modes rest (m\<lparr>md_kitty_keyboard_flags := f\<rparr>)"
  by (subst run_modes.simps) (simp add: write_kitty_flags_def digits_then byte_simps)

lemma run_mouse [simp]:
  "run_modes (write_mouse p e @ rest) m = run_modes rest (m\<lparr>md_mouse_protocol := p, md_mouse_encoding := e\<rparr>)"
  by (cases m; cases p; cases e; simp add: write_mouse_def protocol_mode_def) (simp_all add: set_private_mode_def)

lemma set_modes [simp]:
  "set_private_mode 1 b m = m\<lparr>md_application_cursor := b\<rparr>" "set_private_mode (Suc 0) b m = m\<lparr>md_application_cursor := b\<rparr>"
  "set_private_mode 2004 b m = m\<lparr>md_bracketed_paste := b\<rparr>"
  "set_private_mode 1004 b m = m\<lparr>md_focus_reporting := b\<rparr>" "set_private_mode 2026 b m = m\<lparr>md_synchronized_output := b\<rparr>"
  by (simp_all add: set_private_mode_def)

lemma run_private_mode_end: "run_modes (write_private_mode mode enabled) m = Some (set_private_mode mode enabled m)"
  using run_private_mode [of mode enabled "[]" m] by (simp del: run_private_mode)

text \<open>
  C31: The modes written to the physical terminal take effect: a terminal in any modes that reads the
  full sequence is in the intended ones, and a terminal in the presented modes that reads the
  changes only is in the intended ones as well.
\<close>

theorem written_modes_reached:
  "run_modes (write_modes intended w) m = Some intended \<and>
   run_modes (write_mode_changes previous intended) previous = Some intended"
proof
  show "run_modes (write_modes intended w) m = Some intended"
    by (simp add: write_modes_def run_private_mode_end)
  define p1 where "p1 = previous\<lparr>md_application_keypad := md_application_keypad intended\<rparr>"
  define p2 where "p2 = p1\<lparr>md_application_cursor := md_application_cursor intended,
      md_bracketed_paste := md_bracketed_paste intended, md_focus_reporting := md_focus_reporting intended\<rparr>"
  define p3 where "p3 = p2\<lparr>md_mouse_protocol := md_mouse_protocol intended, md_mouse_encoding := md_mouse_encoding intended\<rparr>"
  define p4 where "p4 = p3\<lparr>md_kitty_keyboard_flags := md_kitty_keyboard_flags intended\<rparr>"
  have 1: "run_modes ((if md_application_keypad previous \<noteq> md_application_keypad intended
      then write_keypad (md_application_keypad intended) else []) @ rest) previous = run_modes rest p1" for rest
    by (cases previous) (simp add: p1_def)
  have step: "run_modes ((if b \<noteq> c then write_private_mode k c else []) @ rest) x =
      run_modes rest (if b \<noteq> c then set_private_mode k c x else x)" for b c k rest x
    by simp
  have 2: "run_modes (concat (map (\<lambda>(mode, before, after). if before \<noteq> after then write_private_mode mode after else [])
       [(1, md_application_cursor previous, md_application_cursor intended),
        (2004, md_bracketed_paste previous, md_bracketed_paste intended),
        (1004, md_focus_reporting previous, md_focus_reporting intended)]) @ rest) p1 = run_modes rest p2" for rest
    by (cases previous) (simp add: step p1_def p2_def)
  have 3: "run_modes ((if md_mouse_protocol previous \<noteq> md_mouse_protocol intended \<or> md_mouse_encoding previous \<noteq> md_mouse_encoding intended
      then write_mouse (md_mouse_protocol intended) (md_mouse_encoding intended) else []) @ rest) p2 = run_modes rest p3" for rest
    by (cases previous) (simp add: p1_def p2_def p3_def)
  have 4: "run_modes ((if md_kitty_keyboard_flags previous \<noteq> md_kitty_keyboard_flags intended
      then write_kitty_flags (md_kitty_keyboard_flags intended) else []) @ rest) p3 = run_modes rest p4" for rest
    by (cases previous) (simp add: p1_def p2_def p3_def p4_def)
  have 5: "run_modes (if md_synchronized_output previous \<noteq> md_synchronized_output intended
      then write_private_mode 2026 (md_synchronized_output intended) else []) p4 = Some intended"
    by (cases previous; cases intended) (simp add: p1_def p2_def p3_def p4_def run_private_mode_end)
  show "run_modes (write_mode_changes previous intended) previous = Some intended"
    unfolding write_mode_changes_def 1 2 3 4 5 by simp
qed

section \<open>A terminal that reads styles\<close>

text \<open>The colour selected by \<open>38\<close>, \<open>48\<close> or \<open>58\<close>\<close>

definition colour_target :: "bytes \<Rightarrow> (color \<Rightarrow> style \<Rightarrow> style) option" where
  "colour_target p =
     (if p = ''38'' then Some (\<lambda>c s. s\<lparr>st_foreground := c\<rparr>)
      else if p = ''48'' then Some (\<lambda>c s. s\<lparr>st_background := c\<rparr>)
      else if p = ''58'' then Some (\<lambda>c s. s\<lparr>st_underline_color := c\<rparr>) else None)"

definition set_attribute :: "bytes \<Rightarrow> style \<Rightarrow> style" where
  "set_attribute p s =
     (if p = ''0'' then style_default
      else if p = ''1'' then s\<lparr>st_bold := True\<rparr> else if p = ''2'' then s\<lparr>st_dim := True\<rparr>
      else if p = ''3'' then s\<lparr>st_italic := True\<rparr> else if p = ''5'' then s\<lparr>st_blink := True\<rparr>
      else if p = ''7'' then s\<lparr>st_inverse := True\<rparr> else if p = ''8'' then s\<lparr>st_invisible := True\<rparr>
      else if p = ''9'' then s\<lparr>st_strikethrough := True\<rparr> else if p = ''53'' then s\<lparr>st_overline := True\<rparr>
      else if p = ''4:1'' then s\<lparr>st_underline := UnderlineSingle\<rparr>
      else if p = ''4:2'' then s\<lparr>st_underline := UnderlineDouble\<rparr>
      else if p = ''4:3'' then s\<lparr>st_underline := UnderlineCurly\<rparr>
      else if p = ''4:4'' then s\<lparr>st_underline := UnderlineDotted\<rparr>
      else if p = ''4:5'' then s\<lparr>st_underline := UnderlineDashed\<rparr> else s)"

abbreviation colour_byte :: "bytes \<Rightarrow> 8 word" where
  "colour_byte s \<equiv> word_of_nat (dec_val s)"

function read_parameters :: "bytes list \<Rightarrow> style \<Rightarrow> style" where
  "read_parameters ps s =
     (case ps of
        [] \<Rightarrow> s
      | p # ps \<Rightarrow>
          (case colour_target p of
             None \<Rightarrow> read_parameters ps (set_attribute p s)
           | Some f \<Rightarrow>
               (case ps of
                  k # i # ps \<Rightarrow>
                    if k = ''5'' then read_parameters ps (f (ColorIndexed (colour_byte i)) s)
                    else (case ps of
                            g # b # ps \<Rightarrow> read_parameters ps (f (ColorRgb (colour_byte i) (colour_byte g) (colour_byte b)) s)
                          | _ \<Rightarrow> s)
                | _ \<Rightarrow> s)))"
  by pat_completeness auto
termination
  by (relation "measure (\<lambda>(ps, s). length ps)") auto

declare read_parameters.simps [simp del]

text \<open>A select-graphic-rendition sequence: the parameters between its introducer and its final
  byte\<close>

definition read_style :: "bytes \<Rightarrow> style \<Rightarrow> style option" where
  "read_style bs s =
     (case bs of
        a # b # rest \<Rightarrow>
          if a = ESC \<and> b = CHR ''['' \<and> rest \<noteq> [] \<and> last rest = CHR ''m''
          then Some (read_parameters (split_on (CHR '';'') (butlast rest)) s) else None
      | _ \<Rightarrow> None)"

definition color_parameters :: "color \<Rightarrow> nat \<Rightarrow> bytes list" where
  "color_parameters c selector =
     (case c of
        ColorDefault \<Rightarrow> []
      | ColorIndexed i \<Rightarrow> [show_nat selector, ''5'', show_nat (unat i)]
      | ColorRgb r g b \<Rightarrow> [show_nat selector, ''2'', show_nat (unat r), show_nat (unat g), show_nat (unat b)])"

definition style_parameters :: "style \<Rightarrow> bytes list" where
  "style_parameters s =
     map snd (filter fst
       [(st_bold s, ''1''), (st_dim s, ''2''), (st_italic s, ''3''), (st_blink s, ''5''), (st_inverse s, ''7''),
        (st_invisible s, ''8''), (st_strikethrough s, ''9''), (st_overline s, ''53'')]) @
     (case st_underline s of UnderlineNone \<Rightarrow> [] | UnderlineSingle \<Rightarrow> [''4:1''] | UnderlineDouble \<Rightarrow> [''4:2'']
      | UnderlineCurly \<Rightarrow> [''4:3''] | UnderlineDotted \<Rightarrow> [''4:4''] | UnderlineDashed \<Rightarrow> [''4:5'']) @
     color_parameters (st_foreground s) 38 @ color_parameters (st_background s) 48 @ color_parameters (st_underline_color s) 58"

abbreviation joined :: "bytes list \<Rightarrow> bytes" where
  "joined ps \<equiv> concat (map (\<lambda>p. CHR '';'' # p) ps)"

lemma color_joined: "write_color c n = joined (color_parameters c n)"
  by (simp add: write_color_def color_parameters_def split: color.split)

lemma write_style_parameters: "write_style s = ESC # ''[0'' @ joined (style_parameters s) @ ''m''"
proof -
  have "concat (map (\<lambda>(enabled, code). if enabled then CHR '';'' # code else []) xs) = joined (map snd (filter fst xs))"
    for xs :: "(bool \<times> bytes) list"
    by (induction xs) auto
  from this [of "[(st_bold s, ''1''), (st_dim s, ''2''), (st_italic s, ''3''), (st_blink s, ''5''), (st_inverse s, ''7''),
        (st_invisible s, ''8''), (st_strikethrough s, ''9''), (st_overline s, ''53'')]"]
  have flags: "concat (map (\<lambda>(enabled, code). if enabled then code else [])
       [(st_bold s, '';1''), (st_dim s, '';2''), (st_italic s, '';3''), (st_blink s, '';5''), (st_inverse s, '';7''),
        (st_invisible s, '';8''), (st_strikethrough s, '';9''), (st_overline s, '';53'')]) =
      joined (map snd (filter fst
       [(st_bold s, ''1''), (st_dim s, ''2''), (st_italic s, ''3''), (st_blink s, ''5''), (st_inverse s, ''7''),
        (st_invisible s, ''8''), (st_strikethrough s, ''9''), (st_overline s, ''53'')]))"
    by simp
  have under: "write_underline (st_underline s) = joined (case st_underline s of UnderlineNone \<Rightarrow> [] | UnderlineSingle \<Rightarrow> [''4:1'']
      | UnderlineDouble \<Rightarrow> [''4:2''] | UnderlineCurly \<Rightarrow> [''4:3''] | UnderlineDotted \<Rightarrow> [''4:4''] | UnderlineDashed \<Rightarrow> [''4:5''])"
    by (simp add: write_underline_def split: underline_style.split)
  show ?thesis
    unfolding write_style_def style_parameters_def flags under color_joined by simp
qed

lemma show_nat_no_semicolon: "CHR '';'' \<notin> set (show_nat n)"
  using show_nat_set [of "CHR '';''" n] by (auto simp: byte_simps)

lemma style_parameters_plain: "list_all (\<lambda>p. CHR '';'' \<notin> set p) (style_parameters s)"
  unfolding style_parameters_def color_parameters_def
  by (simp add: list_all_iff show_nat_no_semicolon split: color.split underline_style.split)

lemma split_joined: "CHR '';'' \<notin> set p \<Longrightarrow> list_all (\<lambda>p. CHR '';'' \<notin> set p) ps \<Longrightarrow> split_on (CHR '';'') (p @ joined ps) = p # ps"
proof (induction ps arbitrary: p)
  case Nil
  then show ?case by (simp add: split_on_no_sep)
next
  case (Cons q ps)
  then show ?case by (simp add: split_on_append_sep)
qed

lemma small_numbers: "show_nat 38 = ''38''" "show_nat 48 = ''48''" "show_nat 58 = ''58''"
  by code_simp+

lemma read_color:
  "colour_target (show_nat n) = Some f \<Longrightarrow>
   read_parameters (color_parameters c n @ ps) s = read_parameters ps (if c = ColorDefault then s else f c s)"
  by (cases c) (simp_all add: color_parameters_def read_parameters.simps [of "_ # _"])

lemma colour_targets:
  "colour_target ''38'' = Some (\<lambda>c s. s\<lparr>st_foreground := c\<rparr>)" "colour_target ''48'' = Some (\<lambda>c s. s\<lparr>st_background := c\<rparr>)"
  "colour_target ''58'' = Some (\<lambda>c s. s\<lparr>st_underline_color := c\<rparr>)"
  by (simp_all add: colour_target_def)

lemma read_attribute: "colour_target p = None \<Longrightarrow> read_parameters (p # ps) s = read_parameters ps (set_attribute p s)"
  by (simp add: read_parameters.simps [of "_ # _"])

lemma read_flag:
  "colour_target p = None \<Longrightarrow>
   read_parameters (map snd (filter fst ((b, p) # xs)) @ ps) s =
   read_parameters (map snd (filter fst xs) @ ps) (if b then set_attribute p s else s)"
  by (simp add: read_attribute)

lemma no_colour [simp]:
  "colour_target ''0'' = None" "colour_target ''1'' = None" "colour_target ''2'' = None" "colour_target ''3'' = None"
  "colour_target ''5'' = None" "colour_target ''7'' = None" "colour_target ''8'' = None" "colour_target ''9'' = None"
  "colour_target ''53'' = None" "colour_target ''4:1'' = None" "colour_target ''4:2'' = None" "colour_target ''4:3'' = None"
  "colour_target ''4:4'' = None" "colour_target ''4:5'' = None"
  by (simp_all add: colour_target_def)

lemma flag_updates:
  "\<not> st_bold x \<Longrightarrow> (if b then set_attribute ''1'' x else x) = x\<lparr>st_bold := b\<rparr>"
  "\<not> st_dim x \<Longrightarrow> (if b then set_attribute ''2'' x else x) = x\<lparr>st_dim := b\<rparr>"
  "\<not> st_italic x \<Longrightarrow> (if b then set_attribute ''3'' x else x) = x\<lparr>st_italic := b\<rparr>"
  "\<not> st_blink x \<Longrightarrow> (if b then set_attribute ''5'' x else x) = x\<lparr>st_blink := b\<rparr>"
  "\<not> st_inverse x \<Longrightarrow> (if b then set_attribute ''7'' x else x) = x\<lparr>st_inverse := b\<rparr>"
  "\<not> st_invisible x \<Longrightarrow> (if b then set_attribute ''8'' x else x) = x\<lparr>st_invisible := b\<rparr>"
  "\<not> st_strikethrough x \<Longrightarrow> (if b then set_attribute ''9'' x else x) = x\<lparr>st_strikethrough := b\<rparr>"
  "\<not> st_overline x \<Longrightarrow> (if b then set_attribute ''53'' x else x) = x\<lparr>st_overline := b\<rparr>"
  by (cases x; simp add: set_attribute_def)+

lemma style_read: "read_style (write_style s) pen = Some s"
proof -
  have "read_style (write_style s) pen = Some (read_parameters (split_on (CHR '';'') (''0'' @ joined (style_parameters s))) pen)"
    by (simp add: read_style_def write_style_parameters butlast_append)
  also have "split_on (CHR '';'') (''0'' @ joined (style_parameters s)) = ''0'' # style_parameters s"
    by (rule split_joined) (simp_all add: style_parameters_plain)
  also have "read_parameters (''0'' # style_parameters s) pen = read_parameters (style_parameters s) style_default"
    by (simp add: read_attribute set_attribute_def)
  also have "\<dots> = s"
  proof -
    define s1 where "s1 = s\<lparr>st_foreground := ColorDefault, st_background := ColorDefault, st_underline_color := ColorDefault,
        st_underline := UnderlineNone\<rparr>"
    define s2 where "s2 = s1\<lparr>st_underline := st_underline s\<rparr>"
    have 1: "read_parameters (map snd (filter fst
       [(st_bold s, ''1''), (st_dim s, ''2''), (st_italic s, ''3''), (st_blink s, ''5''), (st_inverse s, ''7''),
        (st_invisible s, ''8''), (st_strikethrough s, ''9''), (st_overline s, ''53'')]) @ ps) style_default = read_parameters ps s1" for ps
      unfolding read_flag [OF no_colour(2)] read_flag [OF no_colour(3)] read_flag [OF no_colour(4)] read_flag [OF no_colour(5)]
        read_flag [OF no_colour(6)] read_flag [OF no_colour(7)] read_flag [OF no_colour(8)] read_flag [OF no_colour(9)]
      by (cases s) (simp add: flag_updates s1_def style_default_def split del: if_split)
    have 2: "read_parameters ((case st_underline s of UnderlineNone \<Rightarrow> [] | UnderlineSingle \<Rightarrow> [''4:1''] | UnderlineDouble \<Rightarrow> [''4:2'']
      | UnderlineCurly \<Rightarrow> [''4:3''] | UnderlineDotted \<Rightarrow> [''4:4''] | UnderlineDashed \<Rightarrow> [''4:5'']) @ ps) s1 = read_parameters ps s2" for ps
      by (cases "st_underline s") (simp_all add: read_attribute set_attribute_def s2_def s1_def)
    have 3: "read_parameters [] x = x" for x by (simp add: read_parameters.simps)
    have 4: "read_parameters (color_parameters (st_foreground s) 38 @ color_parameters (st_background s) 48 @
        color_parameters (st_underline_color s) 58) s2 = s"
      using read_color [of 58 _ "st_underline_color s" "[]"]
      by (cases s) (simp add: read_color small_numbers colour_targets 3 s2_def s1_def)
    show ?thesis unfolding style_parameters_def append_assoc 1 2 4 ..
  qed
  finally show ?thesis .
qed

text \<open>
  The sequence written for a style is read back as that style by a terminal, whatever style was
  in effect before.
\<close>

theorem write_style_roundtrip: "read_style (write_style s) pen = Some s"
  by (rule style_read)

section \<open>Uploads\<close>

lemma chunks_props:
  "0 < n \<Longrightarrow> concat (chunks n xs) = xs \<and> list_all (\<lambda>c. c \<noteq> [] \<and> length c \<le> n) (chunks n xs) \<and>
     list_all (\<lambda>c. length c = n) (butlast (chunks n xs)) \<and> (chunks n xs = [] \<longleftrightarrow> xs = [])"
proof (induction n xs rule: chunks.induct)
  case (1 n xs)
  show ?case
  proof (cases "xs = []")
    case True
    then show ?thesis by (simp add: chunks.simps)
  next
    case False
    then have step: "chunks n xs = take n xs # chunks n (drop n xs)" using 1 by (subst chunks.simps) simp
    have IH: "concat (chunks n (drop n xs)) = drop n xs" "list_all (\<lambda>c. c \<noteq> [] \<and> length c \<le> n) (chunks n (drop n xs))"
      "list_all (\<lambda>c. length c = n) (butlast (chunks n (drop n xs)))" "chunks n (drop n xs) = [] \<longleftrightarrow> drop n xs = []"
      using 1 False by auto
    have "length xs \<le> n \<or> length (take n xs) = n" by auto
    then show ?thesis using IH False 1(2) by (auto simp: step)
  qed
qed

lemma kitty_pieces_snd:
  "map snd (kitty_pieces e) = (if e = [] then [[]] else chunks KITTY_BASE64_CHUNK_BYTES e)"
  by (rule nth_equalityI) (simp_all add: kitty_pieces_def Let_def)

lemma kitty_pieces_fst: "map fst (kitty_pieces e) = replicate (length (kitty_pieces e) - 1) True @ [False]"
proof -
  have "0 < length (map snd (kitty_pieces e))"
    using chunks_props [of KITTY_BASE64_CHUNK_BYTES e] by (auto simp: kitty_pieces_snd KITTY_BASE64_CHUNK_BYTES_def)
  then have n: "0 < length (kitty_pieces e)" by simp
  show ?thesis
  proof (rule nth_equalityI)
    show "length (map fst (kitty_pieces e)) = length (replicate (length (kitty_pieces e) - 1) True @ [False])" using n by simp
    fix i
    assume "i < length (map fst (kitty_pieces e))"
    then show "map fst (kitty_pieces e) ! i = (replicate (length (kitty_pieces e) - 1) True @ [False]) ! i"
      using n by (auto simp: kitty_pieces_def Let_def nth_append)
  qed
qed

text \<open>
  The pieces in which an image's pixels are sent carry them exactly: all but the last announce
  that more follow, every full piece has 4096 bytes of Base64 (so that none is padded early), no
  piece is longer, and the pieces together decode to the pixel data. An empty image is one empty
  piece.
\<close>

theorem kitty_pieces_decode:
  "decode_base64 (concat (map snd (kitty_pieces (encode_base64 data)))) = Some data \<and>
   map fst (kitty_pieces (encode_base64 data)) = replicate (length (kitty_pieces (encode_base64 data)) - 1) True @ [False] \<and>
   list_all (\<lambda>(_, c). length c \<le> 4096) (kitty_pieces (encode_base64 data)) \<and>
   list_all (\<lambda>(_, c). length c = 4096) (butlast (kitty_pieces (encode_base64 data)))"
proof -
  let ?ps = "kitty_pieces (encode_base64 data)"
  have n: "0 < KITTY_BASE64_CHUNK_BYTES" by (simp add: KITTY_BASE64_CHUNK_BYTES_def)
  note c = chunks_props [OF n, of "encode_base64 data"]
  have "concat (map snd ?ps) = encode_base64 data" using c by (simp add: kitty_pieces_snd)
  moreover have "list_all (\<lambda>c. length c \<le> 4096) (map snd ?ps)" "list_all (\<lambda>c. length c = 4096) (butlast (map snd ?ps))"
    using c by (auto simp: kitty_pieces_snd KITTY_BASE64_CHUNK_BYTES_def list_all_iff)
  ultimately show ?thesis
    using kitty_pieces_fst [of "encode_base64 data"] encode_base64_decodes [of data]
    by (simp add: map_butlast [symmetric] list_all_iff case_prod_beta)
qed

text \<open>
  The strings written between \<^verbatim>\<open>OSC\<close> and its terminator hold no control byte, so that neither a
  title nor a hyperlink can end its string early or start another sequence.
\<close>

lemma printable_bytes_safe: "b \<in> set (printable_bytes s) \<Longrightarrow> b \<noteq> ESC \<and> b \<noteq> CHR 0x07 \<and> 32 \<le> byte_val b"
  by (auto simp: printable_bytes_def byte_val_def)

section \<open>A terminal that reads runs\<close>

text \<open>The hyperlink in effect after OSC 8: an empty address closes it.\<close>

definition link_shown :: "bytes option \<Rightarrow> bytes option" where
  "link_shown l = (case l of None \<Rightarrow> None | Some s \<Rightarrow> if printable_bytes s = [] then None else Some (printable_bytes s))"

type_synonym attributed = "(byte \<times> style \<times> bytes option) list"

lemma dropWhile_drop_less: "dropWhile P (drop 3 xs) = d # e # ys \<Longrightarrow> length ys < Suc (length xs)"
  using length_dropWhile_le [of P "drop 3 xs"] by simp

text \<open>Every byte of text, with the style and the hyperlink in effect\<close>

function read_run :: "bytes \<Rightarrow> style \<Rightarrow> bytes option \<Rightarrow> (attributed \<times> bytes option) option" where
  "read_run s pen link =
     (case s of
        [] \<Rightarrow> Some ([], link)
      | a # rest \<Rightarrow>
          if a \<noteq> ESC then map_option (\<lambda>(xs, l). ((a, pen, link) # xs, l)) (read_run rest pen link)
          else (case rest of
                  [] \<Rightarrow> None
                | b # rest \<Rightarrow>
                    if b = CHR ''['' then
                      (case dropWhile (\<lambda>c. c \<noteq> CHR ''m'') rest of
                         [] \<Rightarrow> None
                       | _ # rest' \<Rightarrow>
                           read_run rest' (read_parameters (split_on (CHR '';'') (takeWhile (\<lambda>c. c \<noteq> CHR ''m'') rest)) pen) link)
                    else if b = CHR '']'' \<and> starts_with rest ''8;;'' then
                      (case dropWhile (\<lambda>c. c \<noteq> ESC) (drop 3 rest) of
                         _ # _ # rest' \<Rightarrow>
                           let payload = takeWhile (\<lambda>c. c \<noteq> ESC) (drop 3 rest) in
                           read_run rest' pen (if payload = [] then None else Some payload)
                       | _ \<Rightarrow> None)
                    else None))"
  by pat_completeness auto

termination
  by (relation "measure (\<lambda>(s, _, _). length s)")
    (auto dest: dropWhile_less [OF sym] dropWhile_less dropWhile_drop_less [OF sym] dropWhile_drop_less)

declare read_run.simps [simp del]

lemma read_run_Nil [simp]: "read_run [] pen link = Some ([], link)"
  by (subst read_run.simps) simp

lemma read_run_text:
  "ESC \<notin> set t \<Longrightarrow>
   read_run (t @ rest) pen link = map_option (\<lambda>(xs, l). (map (\<lambda>b. (b, pen, link)) t @ xs, l)) (read_run rest pen link)"
proof (induction t)
  case Nil
  then show ?case by (cases "read_run rest pen link") auto
next
  case (Cons b t)
  have "read_run ((b # t) @ rest) pen link =
      map_option (\<lambda>(xs, l). ((b, pen, link) # xs, l)) (read_run (t @ rest) pen link)"
    using Cons.prems by (subst read_run.simps) auto
  then show ?case using Cons by (cases "read_run rest pen link") auto
qed

lemma show_nat_no_m: "CHR ''m'' \<notin> set (show_nat n)"
  using show_nat_set [of "CHR ''m''" n] by (auto simp: byte_simps)

lemma style_parameters_no_m: "list_all (\<lambda>p. CHR ''m'' \<notin> set p) (style_parameters s)"
  unfolding style_parameters_def color_parameters_def
  by (simp add: list_all_iff show_nat_no_m split: color.split underline_style.split)

lemma joined_no_m: "c \<in> set (''0'' @ joined (style_parameters s)) \<Longrightarrow> c \<noteq> CHR ''m''"
  using style_parameters_no_m [of s] by (auto simp: list_all_iff split: if_splits)

lemma span_until:
  "(\<And>c. c \<in> set b \<Longrightarrow> P c) \<Longrightarrow> \<not> P d \<Longrightarrow> takeWhile P (b @ d # r) = b \<and> dropWhile P (b @ d # r) = d # r"
  by (simp add: takeWhile_append2 dropWhile_append2)

lemma read_style_parameters: "read_parameters (''0'' # style_parameters s) pen = s"
proof -
  have "split_on (CHR '';'') (''0'' @ joined (style_parameters s)) = ''0'' # style_parameters s"
    by (rule split_joined) (simp_all add: style_parameters_plain)
  then show ?thesis
    using style_read [of s pen] by (simp add: read_style_def write_style_parameters butlast_append)
qed

lemma read_run_sequence:
  assumes "\<And>c. c \<in> set b \<Longrightarrow> c \<noteq> CHR ''m''"
  shows "read_run (ESC # CHR ''['' # b @ CHR ''m'' # rest) pen link = read_run rest (read_parameters (split_on (CHR '';'') b) pen) link"
proof -
  have "takeWhile (\<lambda>c. c \<noteq> CHR ''m'') (b @ CHR ''m'' # rest) = b \<and>
      dropWhile (\<lambda>c. c \<noteq> CHR ''m'') (b @ CHR ''m'' # rest) = CHR ''m'' # rest"
    by (rule span_until) (use assms in blast)+
  then show ?thesis by (subst read_run.simps) simp
qed

lemma read_run_style [simp]: "read_run (write_style s @ rest) pen link = read_run rest s link"
proof -
  define b where "b = ''0'' @ joined (style_parameters s)"
  have "write_style s @ rest = ESC # CHR ''['' # b @ CHR ''m'' # rest" by (simp add: write_style_parameters b_def)
  moreover have "split_on (CHR '';'') b = ''0'' # style_parameters s"
    unfolding b_def by (rule split_joined) (simp_all add: style_parameters_plain)
  moreover have "c \<noteq> CHR ''m''" if "c \<in> set b" for c using that unfolding b_def by (rule joined_no_m)
  note read_run_sequence [of b rest pen link, OF this]
  ultimately show ?thesis by (simp only: read_style_parameters)
qed

lemma read_run_link [simp]: "read_run (write_hyperlink l @ rest) pen link = read_run rest pen (link_shown l)"
proof -
  define payload where "payload = (case l of None \<Rightarrow> [] | Some s \<Rightarrow> printable_bytes s)"
  have "\<forall>c \<in> set payload. c \<noteq> ESC" using printable_bytes_safe by (auto simp: payload_def split: option.splits)
  then have "takeWhile (\<lambda>c. c \<noteq> ESC) (payload @ ESC # CHR 0x5C # rest) = payload"
      "dropWhile (\<lambda>c. c \<noteq> ESC) (payload @ ESC # CHR 0x5C # rest) = ESC # CHR 0x5C # rest"
    by (simp_all add: takeWhile_append2 dropWhile_append2)
  moreover have "write_hyperlink l @ rest = ESC # CHR '']'' # ''8;;'' @ payload @ ESC # CHR 0x5C # rest"
    by (cases l) (simp_all add: write_hyperlink_def payload_def)
  moreover have "(if payload = [] then None else Some payload) = link_shown l"
    by (simp add: payload_def link_shown_def split: option.split)
  ultimately show ?thesis
    by (subst read_run.simps) (simp add: starts_with_def)
qed

definition cell_text :: "cell \<Rightarrow> bytes" where
  "cell_text c = (if cell_grapheme c = [] then '' '' else cell_grapheme c)"

definition attributed_cells :: "cell list \<Rightarrow> attributed" where
  "attributed_cells cs =
     concat (map (\<lambda>c. if cell_continuation c then [] else map (\<lambda>b. (b, cell_style c, link_shown (cell_hyperlink c))) (cell_text c)) cs)"

lemma read_write_cells:
  "list_all (\<lambda>c. ESC \<notin> set (cell_grapheme c)) cs \<Longrightarrow> write_cells pen link cs = (bs, open_link) \<Longrightarrow>
   \<exists>pen'. \<forall>rest. read_run (bs @ rest) pen (link_shown link) =
     map_option (\<lambda>(xs, l). (attributed_cells cs @ xs, l)) (read_run rest pen' (link_shown open_link))"
proof (induction cs arbitrary: pen link bs)
  case Nil
  then show ?case by (auto simp: attributed_cells_def option.map_ident prod.case_eq_if intro!: exI [of _ pen])
next
  case (Cons c cs)
  show ?case
  proof (cases "cell_continuation c")
    case True
    then show ?thesis using Cons by (simp add: attributed_cells_def)
  next
    case False
    obtain bs' where bs': "write_cells (cell_style c) (cell_hyperlink c) cs = (bs', open_link)"
      using Cons.prems(2) False by (auto simp: Let_def split: prod.splits)
    obtain pen' where pen': "\<forall>rest. read_run (bs' @ rest) (cell_style c) (link_shown (cell_hyperlink c)) =
        map_option (\<lambda>(xs, l). (attributed_cells cs @ xs, l)) (read_run rest pen' (link_shown open_link))"
      using Cons.IH [OF _ bs'] Cons.prems(1) by auto
    have bs: "bs = (if cell_hyperlink c \<noteq> link then write_hyperlink (cell_hyperlink c) else []) @
        (if cell_style c \<noteq> pen then write_style (cell_style c) else []) @ cell_text c @ bs'"
      using Cons.prems(2) False bs' by (simp add: Let_def cell_text_def)
    have text_safe: "ESC \<notin> set (cell_text c)" using Cons.prems(1) by (simp add: cell_text_def)
    have "read_run (bs @ rest) pen (link_shown link) =
        map_option (\<lambda>(xs, l). (attributed_cells (c # cs) @ xs, l)) (read_run rest pen' (link_shown open_link))" for rest
    proof -
      have "read_run (bs @ rest) pen (link_shown link) = read_run (cell_text c @ bs' @ rest) (cell_style c) (link_shown (cell_hyperlink c))"
        by (simp add: bs)
      then show ?thesis using False
        by (cases "read_run rest pen' (link_shown open_link)") (auto simp: read_run_text [OF text_safe] pen' attributed_cells_def)
    qed
    then show ?thesis by blast
  qed
qed

text \<open>
  A run of cells is written so that a terminal which starts with the default style and no
  hyperlink shows every byte of every cell with that cell's own style and hyperlink, blank cells as
  spaces, continuation cells not at all, and ends with no hyperlink open. The cells' texts must hold
  no escape byte.
\<close>

theorem written_run_attributes:
  assumes "list_all (\<lambda>c. ESC \<notin> set (cell_grapheme c)) cs"
  shows "read_run (write_run_cells cs) style_default None = Some (attributed_cells cs, None)"
proof -
  obtain bs open_link where bs: "write_cells style_default None cs = (bs, open_link)" by fastforce
  have none: "link_shown None = None" by (simp add: link_shown_def)
  obtain pen' where pen': "\<forall>rest. read_run (bs @ rest) style_default None =
     map_option (\<lambda>(xs, l). (attributed_cells cs @ xs, l)) (read_run rest pen' (link_shown open_link))"
    using read_write_cells [OF assms bs] none by auto
  show ?thesis
  proof (cases "open_link = None")
    case True
    then show ?thesis using pen' [rule_format, of "[]"] bs none by (simp add: write_run_cells_def)
  next
    case False
    then show ?thesis
      using pen' [rule_format, of "write_hyperlink None"] read_run_link [of None "[]" pen' "link_shown open_link"] bs none
      by (simp add: write_run_cells_def del: read_run_link)
  qed
qed

theorem written_run_attributes_witness:
  defines "bold \<equiv> style_default\<lparr>st_bold := True\<rparr>"
  shows "read_run (write_run_cells [cell_default\<lparr>cell_grapheme := ''a''\<rparr>, cell_default\<lparr>cell_grapheme := ''b'', cell_style := bold\<rparr>,
     cell_default\<lparr>cell_hyperlink := Some ''x''\<rparr>]) style_default None =
     Some ([(CHR ''a'', style_default, None), (CHR ''b'', bold, None), (CHR '' '', style_default, Some ''x'')], None)"
  by (subst written_run_attributes)
    (simp_all add: cell_default_def attributed_cells_def cell_text_def link_shown_def printable_bytes_def byte_val_def)

end
