(* ===== verification/Scene_Damage.thy ===== *)
theory Scene_Damage
  imports Scene_Compose Terminal_Update
begin

text \<open>
  Damage in scene coordinates (\<^verbatim>\<open>SceneDamage\<close> of \<^verbatim>\<open>presentation.rs\<close>): the row ranges and the operation
  hints of a pane's update are moved to the pane's place and clipped to the scene.
\<close>

section \<open>Damage of the scene\<close>

datatype scene_operation =
    SceneScrollUp grid_rect nat
  | SceneScrollDown grid_rect nat
  | SceneInsertLines grid_rect nat
  | SceneDeleteLines grid_rect nat
  | SceneInsertChars grid_rect nat
  | SceneDeleteChars grid_rect nat
  | SceneEraseChars grid_rect
  | SceneWriteRun grid_point bytes

datatype scene_damage =
    SceneNone
  | SceneFull
  | SceneCursor
  | SceneResize terminal_geometry terminal_geometry
  | SceneSurfaces "u64 list"
  | SceneRegions "grid_rect list"
  | SceneOperations u64 "grid_rect list" "scene_operation list"
  | SceneEffects

definition scene_regions :: "grid_rect list \<Rightarrow> scene_damage" where
  "scene_regions rs = SceneRegions (filter (\<lambda>r. gr_rows r > 0 \<and> gr_cols r > 0) rs)"

definition clip_grid_rect :: "grid_rect \<Rightarrow> terminal_geometry \<Rightarrow> grid_rect option" where
  "clip_grid_rect r g =
     (let t = min (max (rect_top r) 0) (int (grid_rows g));
          l = min (max (rect_left r) 0) (int (grid_cols g));
          b = min (max (rect_bottom r) 0) (int (grid_rows g));
          e = min (max (rect_right r) 0) (int (grid_cols g))
      in if b > t \<and> e > l then Some (grid_rect_new (grid_point_new t l) (nat (b - t)) (nat (e - l))) else None)"

definition scene_operation_region :: "scene_operation \<Rightarrow> grid_rect" where
  "scene_operation_region op =
     (case op of
        SceneScrollUp r _ \<Rightarrow> r | SceneScrollDown r _ \<Rightarrow> r | SceneInsertLines r _ \<Rightarrow> r | SceneDeleteLines r _ \<Rightarrow> r
      | SceneInsertChars r _ \<Rightarrow> r | SceneDeleteChars r _ \<Rightarrow> r | SceneEraseChars r \<Rightarrow> r
      | SceneWriteRun origin txt \<Rightarrow> grid_rect_new origin 1 (try_u16 (length (utf8_chars txt))))"

text \<open>The region of the rows \<open>start..=end\<close> of a surface; the source's guard \<open>start \<le> end\<close> after clamping
  them to the surface's last row\<close>

definition row_range_region :: "scene_surface \<Rightarrow> terminal_geometry \<Rightarrow> row_range \<Rightarrow> grid_rect option" where
  "row_range_region s g rng =
     (let last_row = grid_rows (ts_geometry (ss_snapshot s)) - 1;
          start = min (fst rng) last_row;
          stop = min (snd rng) last_row
      in if start \<le> stop
         then clip_grid_rect
                (grid_rect_new (grid_point_new (sat_i32 (gp_row (ss_origin s) + int start)) (gp_col (ss_origin s)))
                   (sat_add16 (stop - start) 1) (grid_cols (ts_geometry (ss_snapshot s)))) g
         else None)"

definition from_terminal_damage :: "scene_surface \<Rightarrow> terminal_damage \<Rightarrow> terminal_geometry \<Rightarrow> scene_damage" where
  "from_terminal_damage s damage g =
     (case damage of
        DamageFull \<Rightarrow> SceneFull
      | DamageNone \<Rightarrow> SceneCursor
      | DamageRows ranges \<Rightarrow>
          let result = scene_regions (List.map_filter (row_range_region s g) ranges)
          in if result = SceneRegions [] then SceneCursor else result)"

definition terminal_damage_regions :: "scene_surface \<Rightarrow> terminal_damage \<Rightarrow> terminal_geometry \<Rightarrow> grid_rect list" where
  "terminal_damage_regions s damage g =
     (case damage of
        DamageNone \<Rightarrow> []
      | DamageFull \<Rightarrow>
          (case clip_grid_rect (grid_rect_new (ss_origin s) (grid_rows (ts_geometry (ss_snapshot s)))
                   (grid_cols (ts_geometry (ss_snapshot s)))) g of None \<Rightarrow> [] | Some r \<Rightarrow> [r])
      | DamageRows ranges \<Rightarrow> List.map_filter (row_range_region s g) ranges)"

definition row_region :: "scene_surface \<Rightarrow> nat \<Rightarrow> nat \<Rightarrow> grid_rect" where
  "row_region s t b =
     grid_rect_new (grid_point_new (sat_i32 (gp_row (ss_origin s) + int t)) (gp_col (ss_origin s)))
       (sat_add16 (b - t) 1) (grid_cols (ts_geometry (ss_snapshot s)))"

definition char_region :: "scene_surface \<Rightarrow> nat \<Rightarrow> nat \<Rightarrow> nat option \<Rightarrow> grid_rect" where
  "char_region s r c cnt =
     grid_rect_new
       (grid_point_new (sat_i32 (gp_row (ss_origin s) + int r)) (sat_i32 (gp_col (ss_origin s) + int c))) 1
       (case cnt of None \<Rightarrow> grid_cols (ts_geometry (ss_snapshot s)) - c | Some n \<Rightarrow> n)"

definition map_terminal_operation :: "scene_surface \<Rightarrow> terminal_operation \<Rightarrow> scene_operation" where
  "map_terminal_operation s op =
     (case op of
        ScrollUp t b n \<Rightarrow> SceneScrollUp (row_region s t b) n
      | ScrollDown t b n \<Rightarrow> SceneScrollDown (row_region s t b) n
      | InsertLines r b n \<Rightarrow> SceneInsertLines (row_region s r b) n
      | DeleteLines r b n \<Rightarrow> SceneDeleteLines (row_region s r b) n
      | InsertChars r c n \<Rightarrow> SceneInsertChars (char_region s r c None) n
      | DeleteChars r c n \<Rightarrow> SceneDeleteChars (char_region s r c None) n
      | EraseChars r c n \<Rightarrow> SceneEraseChars (char_region s r c (Some n))
      | WriteRun r c txt \<Rightarrow>
          SceneWriteRun (grid_point_new (sat_i32 (gp_row (ss_origin s) + int r)) (sat_i32 (gp_col (ss_origin s) + int c))) txt)"

text \<open>The source's sort is unstable: regions of one origin may come in any order.\<close>

definition normalize_grid_regions :: "grid_rect list \<Rightarrow> grid_rect list" where
  "normalize_grid_regions rs = remdups_adj (sort_key (\<lambda>r. (rect_top r, rect_left r)) rs)"

definition operation_regions :: "terminal_geometry \<Rightarrow> scene_operation list \<Rightarrow> grid_rect list" where
  "operation_regions g ops = List.map_filter (\<lambda>op. clip_grid_rect (scene_operation_region op) g) ops"

definition from_terminal_update :: "scene_surface \<Rightarrow> update_summary \<Rightarrow> terminal_geometry \<Rightarrow> scene_damage" where
  "from_terminal_update s update g =
     (if us_operations update = [] then from_terminal_damage s (us_damage update) g
      else let operations = map (map_terminal_operation s) (us_operations update)
           in SceneOperations (ss_id s)
                (normalize_grid_regions (terminal_damage_regions s (us_damage update) g @ operation_regions g operations))
                operations)"

definition from_terminal_updates :: "(scene_surface \<times> update_summary) list \<Rightarrow> terminal_geometry \<Rightarrow> scene_damage" where
  "from_terminal_updates updates g =
     (let regions = concat (map (\<lambda>(s, update).
            terminal_damage_regions s (us_damage update) g @
            operation_regions g (map (map_terminal_operation s) (us_operations update))) updates);
          regions = normalize_grid_regions regions
      in if regions = [] then SceneCursor else SceneRegions regions)"

section \<open>Coverage\<close>

lemma geometry_bounds_int:
  fixes g :: terminal_geometry
  shows "uint (geom_rows g) \<le> 65535" "uint (geom_cols g) \<le> 65535"
proof -
  have "int (grid_rows g) \<le> int u16_max" "int (grid_cols g) \<le> int u16_max"
    using geometry_bounds [of g] by (simp_all only: of_nat_le_iff)
  then show "uint (geom_rows g) \<le> 65535" "uint (geom_cols g) \<le> 65535" by (simp_all add: u16_max_def)
qed

definition grid_cells :: "terminal_geometry \<Rightarrow> (int \<times> int) set" where
  "grid_cells g = {0..<int (grid_rows g)} \<times> {0..<int (grid_cols g)}"

lemma clip_grid_cells:
  assumes "in_i32 (rect_top r)" "in_i32 (rect_left r)"
  shows "case clip_grid_rect r g of
      None \<Rightarrow> rect_cells r \<inter> grid_cells g = {}
    | Some i \<Rightarrow> rect_valid i \<and> rect_cells i = rect_cells r \<inter> grid_cells g \<and> clip_grid_rect i g = Some i \<and>
        0 < gr_rows i \<and> 0 < gr_cols i"
proof -
  define t where "t = min (max (rect_top r) 0) (int (grid_rows g))"
  define l where "l = min (max (rect_left r) 0) (int (grid_cols g))"
  define b where "b = min (max (rect_bottom r) 0) (int (grid_rows g))"
  define e where "e = min (max (rect_right r) 0) (int (grid_cols g))"
  have eq: "clip_grid_rect r g =
      (if b > t \<and> e > l then Some (grid_rect_new (grid_point_new t l) (nat (b - t)) (nat (e - l))) else None)"
    by (simp only: clip_grid_rect_def Let_def t_def l_def b_def e_def)
  have rng: "0 \<le> t" "0 \<le> l" "0 \<le> b" "0 \<le> e" "t \<le> int (grid_rows g)" "b \<le> int (grid_rows g)" "l \<le> int (grid_cols g)"
      "e \<le> int (grid_cols g)"
    by (simp_all add: t_def l_def b_def e_def)
  have edges: "rect_top r \<le> rect_bottom r" "rect_left r \<le> rect_right r" using sat_i32_bounds(1) assms by auto
  have cells: "edge_cells t b l e = rect_cells r \<inter> grid_cells g"
    using edges by (auto simp: rect_cells_edges edge_cells_def grid_cells_def t_def l_def b_def e_def)
  have max: "int (grid_rows g) \<le> int u16_max" "int (grid_cols g) \<le> int u16_max"
    using geometry_bounds [of g] by (simp_all only: of_nat_le_iff)
  show ?thesis
  proof (cases "b > t \<and> e > l")
    case False
    then show ?thesis using cells by (auto simp: eq edge_cells_def)
  next
    case True
    define i where "i = grid_rect_new (grid_point_new t l) (nat (b - t)) (nat (e - l))"
    have in32: "in_i32 t" "in_i32 l" "in_i32 b" "in_i32 e"
      using rng max by (auto simp: in_i32_def u16_max_def)
    have props: "rect_cells i = edge_cells t b l e" "rect_valid i" "rect_bottom i = b" "rect_right i = e"
      unfolding i_def using True rng max in32 by (intro edge_rect; simp)+
    have parts: "rect_top i = t" "rect_left i = l" "gr_rows i = nat (b - t)" "gr_cols i = nat (e - l)"
      by (simp_all add: i_def rect_new_defs)
    have "clip_grid_rect i g = Some i"
      unfolding clip_grid_rect_def props unfolding parts Let_def using True rng by (simp add: i_def)
    then show ?thesis using True props cells parts by (simp add: eq i_def [symmetric])
  qed
qed

lemma clip_covers:
  assumes "in_i32 (rect_top r)" "in_i32 (rect_left r)" "x \<in> rect_cells r" "x \<in> grid_cells g"
  obtains i where "clip_grid_rect r g = Some i" "x \<in> rect_cells i"
  using clip_grid_cells [OF assms(1,2), of g] assms(3,4) by (auto split: option.splits)

lemma below_edge: "n < m \<Longrightarrow> a + int n < 2 ^ 31 - 1 \<Longrightarrow> a + int n < sat_i32 (a + int m)"
  unfolding sat_i32_def by (auto simp: max_def min_def)

lemma rect_cells_at:
  "k < rows \<Longrightarrow> j < cols \<Longrightarrow> a + int k < 2 ^ 31 - 1 \<Longrightarrow> b + int j < 2 ^ 31 - 1 \<Longrightarrow>
   (a + int k, b + int j) \<in> rect_cells (grid_rect_new (grid_point_new a b) rows cols)"
  unfolding rect_cells_def rect_new_defs by (simp only: grid_rect.simps grid_point.simps) (auto intro: below_edge)

lemma set_map_filter: "y \<in> set (List.map_filter f xs) \<longleftrightarrow> (\<exists>x \<in> set xs. f x = Some y)"
  by (induction xs) (auto simp: map_filter_simps split: option.splits)

text \<open>The cells of the scene that a damaged row of a surface occupies\<close>

definition damaged_cells :: "scene_surface \<Rightarrow> terminal_damage \<Rightarrow> (int \<times> int) set" where
  "damaged_cells s damage =
     {(y, x). \<exists>k j. y = gp_row (ss_origin s) + int k \<and> x = gp_col (ss_origin s) + int j \<and>
        k < grid_rows (ts_geometry (ss_snapshot s)) \<and> j < grid_cols (ts_geometry (ss_snapshot s)) \<and>
        (case damage of DamageNone \<Rightarrow> False | DamageFull \<Rightarrow> True
         | DamageRows ranges \<Rightarrow> \<exists>(a, b) \<in> set ranges. a \<le> k \<and> k \<le> b)}"

definition damage_covers :: "terminal_geometry \<Rightarrow> scene_damage \<Rightarrow> (int \<times> int) set \<Rightarrow> bool" where
  "damage_covers g d cells \<longleftrightarrow>
     (case d of
        SceneFull \<Rightarrow> True
      | SceneRegions rs \<Rightarrow> cells \<inter> grid_cells g \<subseteq> (\<Union>r \<in> set rs. rect_cells r)
      | SceneOperations _ rs _ \<Rightarrow> cells \<inter> grid_cells g \<subseteq> (\<Union>r \<in> set rs. rect_cells r)
      | _ \<Rightarrow> cells \<inter> grid_cells g = {})"

definition origin_valid :: "scene_surface \<Rightarrow> bool" where
  "origin_valid s \<longleftrightarrow> in_i32 (gp_row (ss_origin s)) \<and> in_i32 (gp_col (ss_origin s))"

lemma set_normalize [simp]: "set (normalize_grid_regions rs) = set rs"
  by (simp add: normalize_grid_regions_def)

lemma row_range_covers:
  assumes s: "origin_valid s" and rng: "a \<le> k" "k \<le> b" "k < grid_rows (ts_geometry (ss_snapshot s))"
    and j: "j < grid_cols (ts_geometry (ss_snapshot s))"
    and g: "(gp_row (ss_origin s) + int k, gp_col (ss_origin s) + int j) \<in> grid_cells g"
  obtains i where "row_range_region s g (a, b) = Some i" "(gp_row (ss_origin s) + int k, gp_col (ss_origin s) + int j) \<in> rect_cells i"
proof -
  define last_row where "last_row = grid_rows (ts_geometry (ss_snapshot s)) - 1"
  define start where "start = min a last_row"
  define stop where "stop = min b last_row"
  have se: "start \<le> k" "k \<le> stop" using rng by (simp_all add: start_def stop_def last_row_def)
  have stop: "stop < u16_max" using geometry_bounds(1) [of "ts_geometry (ss_snapshot s)"] rng(3)
    by (simp add: stop_def last_row_def)
  let ?r = "grid_rect_new (grid_point_new (sat_i32 (gp_row (ss_origin s) + int start)) (gp_col (ss_origin s)))
      (sat_add16 (stop - start) 1) (grid_cols (ts_geometry (ss_snapshot s)))"
  have small: "gp_row (ss_origin s) + int k < 2 ^ 31 - 1" "gp_col (ss_origin s) + int j < 2 ^ 31 - 1"
    "0 \<le> gp_row (ss_origin s) + int k"
    using g geometry_bounds_int [of g] by (auto simp: grid_cells_def)
  have row: "sat_i32 (gp_row (ss_origin s) + int start) = gp_row (ss_origin s) + int start"
    using s se(1) small by (auto simp: sat_i32_def in_i32_def origin_valid_def)
  have "sat_add16 (stop - start) 1 = stop - start + 1" using stop by (simp add: sat_add16_def)
  then have "(gp_row (ss_origin s) + int start + int (k - start), gp_col (ss_origin s) + int j) \<in> rect_cells ?r"
    unfolding row using se small j by (intro rect_cells_at) auto
  then have "(gp_row (ss_origin s) + int k, gp_col (ss_origin s) + int j) \<in> rect_cells ?r"
    using se(1) by (simp add: of_nat_diff)
  then obtain i where "clip_grid_rect ?r g = Some i" "(gp_row (ss_origin s) + int k, gp_col (ss_origin s) + int j) \<in> rect_cells i"
    using clip_covers [of ?r _ g] g s by (auto simp: rect_new_defs origin_valid_def)
  then show thesis
    using that se by (simp add: row_range_region_def start_def stop_def last_row_def Let_def)
qed

lemma damage_regions_cover:
  assumes s: "origin_valid s"
  shows "damaged_cells s damage \<inter> grid_cells g \<subseteq> (\<Union>r \<in> set (terminal_damage_regions s damage g). rect_cells r)"
proof
  fix p
  assume "p \<in> damaged_cells s damage \<inter> grid_cells g"
  then obtain k j where p: "p = (gp_row (ss_origin s) + int k, gp_col (ss_origin s) + int j)" "p \<in> grid_cells g"
    "k < grid_rows (ts_geometry (ss_snapshot s))" "j < grid_cols (ts_geometry (ss_snapshot s))"
    and d: "case damage of DamageNone \<Rightarrow> False | DamageFull \<Rightarrow> True | DamageRows ranges \<Rightarrow> \<exists>(a, b) \<in> set ranges. a \<le> k \<and> k \<le> b"
    by (auto simp: damaged_cells_def)
  show "p \<in> (\<Union>r \<in> set (terminal_damage_regions s damage g). rect_cells r)"
  proof (cases damage)
    case DamageNone
    then show ?thesis using d by simp
  next
    case (DamageRows ranges)
    then obtain a b where ab: "(a, b) \<in> set ranges" "a \<le> k" "k \<le> b" using d by auto
    obtain i where "row_range_region s g (a, b) = Some i" "p \<in> rect_cells i"
      using row_range_covers [OF s ab(2,3) p(3,4), of g] p(1,2) by blast
    then have "i \<in> set (terminal_damage_regions s damage g)"
      using ab(1) DamageRows by (auto simp: terminal_damage_regions_def set_map_filter)
    then show ?thesis using \<open>p \<in> rect_cells i\<close> by blast
  next
    case DamageFull
    let ?r = "grid_rect_new (ss_origin s) (grid_rows (ts_geometry (ss_snapshot s))) (grid_cols (ts_geometry (ss_snapshot s)))"
    have "ss_origin s = grid_point_new (gp_row (ss_origin s)) (gp_col (ss_origin s))" by (simp add: grid_point_new_def)
    moreover have "gp_row (ss_origin s) + int k < 2 ^ 31 - 1" "gp_col (ss_origin s) + int j < 2 ^ 31 - 1"
      using p(1,2) geometry_bounds_int [of g] by (auto simp: grid_cells_def)
    ultimately have "p \<in> rect_cells ?r" using rect_cells_at [OF p(3,4)] p(1) by metis
    then obtain i where "clip_grid_rect ?r g = Some i" "p \<in> rect_cells i"
      using clip_covers [of ?r p g] p(2) s by (auto simp: rect_new_defs origin_valid_def)
    then show ?thesis using DamageFull by (simp add: terminal_damage_regions_def)
  qed
qed

definition operation_cells :: "scene_surface \<Rightarrow> update_summary \<Rightarrow> (int \<times> int) set" where
  "operation_cells s u = (\<Union>op \<in> set (us_operations u). rect_cells (scene_operation_region (map_terminal_operation s op)))"

text \<open>Every region is clipped to the scene.\<close>

definition damage_exact :: "terminal_geometry \<Rightarrow> scene_damage \<Rightarrow> bool" where
  "damage_exact g d \<longleftrightarrow>
     (case d of
        SceneRegions rs \<Rightarrow> list_all (\<lambda>r. clip_grid_rect r g = Some r) rs
      | SceneOperations _ rs _ \<Rightarrow> list_all (\<lambda>r. clip_grid_rect r g = Some r) rs
      | _ \<Rightarrow> True)"

lemma operation_region_origin:
  assumes "origin_valid s"
  shows "in_i32 (rect_top (scene_operation_region (map_terminal_operation s op)))"
    "in_i32 (rect_left (scene_operation_region (map_terminal_operation s op)))"
  using assms
  by (cases op; simp add: map_terminal_operation_def scene_operation_region_def row_region_def char_region_def rect_new_defs
      origin_valid_def)+

lemma clip_exact: "in_i32 (rect_top r) \<Longrightarrow> in_i32 (rect_left r) \<Longrightarrow> clip_grid_rect r g = Some i \<Longrightarrow> clip_grid_rect i g = Some i"
  using clip_grid_cells [of r g] by auto

lemma row_range_exact: "origin_valid s \<Longrightarrow> row_range_region s g rng = Some i \<Longrightarrow> clip_grid_rect i g = Some i"
  unfolding row_range_region_def Let_def
  by (split if_splits) (auto intro!: clip_exact simp: rect_new_defs origin_valid_def)

lemma damage_regions_exact:
  assumes "origin_valid s"
  shows "list_all (\<lambda>r. clip_grid_rect r g = Some r) (terminal_damage_regions s damage g)"
proof (cases damage)
  case (DamageRows ranges)
  then show ?thesis
    using row_range_exact [OF assms] by (auto simp: terminal_damage_regions_def list_all_iff set_map_filter)
next
  case DamageFull
  have "in_i32 (rect_top (grid_rect_new (ss_origin s) m n))" "in_i32 (rect_left (grid_rect_new (ss_origin s) m n))" for m n
    using assms by (simp_all add: rect_new_defs origin_valid_def)
  then show ?thesis using DamageFull clip_exact
    by (fastforce simp: terminal_damage_regions_def split: option.splits)
qed (simp add: terminal_damage_regions_def)

lemma operation_regions_exact:
  "origin_valid s \<Longrightarrow> list_all (\<lambda>r. clip_grid_rect r g = Some r) (operation_regions g (map (map_terminal_operation s) ops))"
  by (auto simp: operation_regions_def list_all_iff set_map_filter intro: clip_exact [OF operation_region_origin])

lemma operation_regions_cover:
  assumes "origin_valid s"
  shows "operation_cells s u \<inter> grid_cells g \<subseteq>
    (\<Union>r \<in> set (operation_regions g (map (map_terminal_operation s) (us_operations u))). rect_cells r)"
proof
  fix p
  assume "p \<in> operation_cells s u \<inter> grid_cells g"
  then obtain op where op: "op \<in> set (us_operations u)"
    "p \<in> rect_cells (scene_operation_region (map_terminal_operation s op))" "p \<in> grid_cells g"
    by (auto simp: operation_cells_def)
  obtain i where i: "clip_grid_rect (scene_operation_region (map_terminal_operation s op)) g = Some i" "p \<in> rect_cells i"
    using clip_covers [OF operation_region_origin [OF assms] op(2,3)] .
  then have "i \<in> set (operation_regions g (map (map_terminal_operation s) (us_operations u)))"
    using op(1) by (auto simp: operation_regions_def set_map_filter)
  then show "p \<in> (\<Union>r \<in> set (operation_regions g (map (map_terminal_operation s) (us_operations u))). rect_cells r)"
    using i(2) by blast
qed

text \<open>The regions of one update\<close>

abbreviation update_regions :: "terminal_geometry \<Rightarrow> scene_surface \<Rightarrow> update_summary \<Rightarrow> grid_rect list" where
  "update_regions g s u \<equiv> terminal_damage_regions s (us_damage u) g @
     operation_regions g (map (map_terminal_operation s) (us_operations u))"

lemma update_regions_cover:
  "origin_valid s \<Longrightarrow>
   (damaged_cells s (us_damage u) \<union> operation_cells s u) \<inter> grid_cells g \<subseteq> (\<Union>r \<in> set (update_regions g s u). rect_cells r)"
  using damage_regions_cover [of s "us_damage u" g] operation_regions_cover [of s u g] by auto

lemma update_regions_exact: "origin_valid s \<Longrightarrow> list_all (\<lambda>r. clip_grid_rect r g = Some r) (update_regions g s u)"
  using damage_regions_exact operation_regions_exact by simp

lemma exact_nonempty:
  assumes "clip_grid_rect r g = Some r" shows "gr_rows r > 0 \<and> gr_cols r > 0"
proof -
  have "0 < gr_rows i \<and> 0 < gr_cols i" if "clip_grid_rect r g = Some i" for i
    using that by (auto simp: clip_grid_rect_def Let_def rect_new_defs split: if_splits)
  then show ?thesis using assms by blast
qed

lemma from_damage_regions:
  assumes "origin_valid s"
  shows "from_terminal_damage s damage g = SceneFull \<and> damage = DamageFull \<or>
    (\<exists>rs. rs = terminal_damage_regions s damage g \<and> damage \<noteq> DamageFull \<and>
       from_terminal_damage s damage g = (if rs = [] then SceneCursor else SceneRegions rs))"
proof (cases damage)
  case (DamageRows ranges)
  have "list_all (\<lambda>r. clip_grid_rect r g = Some r) (List.map_filter (row_range_region s g) ranges)"
    using damage_regions_exact [OF assms, of g damage] DamageRows by (simp add: terminal_damage_regions_def)
  then have "filter (\<lambda>r. gr_rows r > 0 \<and> gr_cols r > 0) (List.map_filter (row_range_region s g) ranges) =
      List.map_filter (row_range_region s g) ranges"
    using exact_nonempty by (auto simp: list_all_iff intro!: filter_True)
  then show ?thesis
    using DamageRows by (simp add: from_terminal_damage_def scene_regions_def terminal_damage_regions_def Let_def)
qed (auto simp: from_terminal_damage_def terminal_damage_regions_def)

text \<open>
  C30: The damage handed to the renderer covers every cell of the scene that the terminal updates
  report as changed: the damaged rows of every surface and the cells its operations touch. Every
  region lies within the scene, so that none is dropped or cut later. This holds for one pane's
  update, with its operations kept, and for the merged updates of several panes.
\<close>

theorem scene_damage_covers:
  assumes "list_all (\<lambda>(s, u). origin_valid s) updates"
  shows "\<forall>(s, u) \<in> set updates.
    damage_covers g (from_terminal_update s u g) (damaged_cells s (us_damage u) \<union> operation_cells s u) \<and>
    damage_exact g (from_terminal_update s u g) \<and>
    damage_covers g (from_terminal_updates updates g) (damaged_cells s (us_damage u) \<union> operation_cells s u) \<and>
    damage_exact g (from_terminal_updates updates g)"
proof (safe)
  fix s u
  assume su: "(s, u) \<in> set updates"
  have s: "origin_valid s" using assms su by (auto simp: list_all_iff)
  note cover = update_regions_cover [OF s, of u g] and exact = update_regions_exact [OF s, of g u]
  have none: "us_operations u = [] \<Longrightarrow> operation_cells s u = {}" by (simp add: operation_cells_def)
  show "damage_covers g (from_terminal_update s u g) (damaged_cells s (us_damage u) \<union> operation_cells s u)"
  proof (cases "us_operations u = []")
    case True
    then show ?thesis
      using from_damage_regions [OF s, of "us_damage u" g] damage_regions_cover [OF s, of "us_damage u" g] none
      by (elim disjE exE conjE;
          cases "terminal_damage_regions s (us_damage u) g"; simp add: from_terminal_update_def damage_covers_def)
  next
    case False
    then show ?thesis using cover by (auto simp: from_terminal_update_def damage_covers_def Let_def)
  qed
  show "damage_exact g (from_terminal_update s u g)"
    using from_damage_regions [OF s, of "us_damage u" g] damage_regions_exact [OF s, of g "us_damage u"] exact
    by (auto simp: from_terminal_update_def damage_exact_def Let_def list_all_iff)
  define all where "all = concat (map (\<lambda>(s, u). update_regions g s u) updates)"
  have all: "from_terminal_updates updates g =
      (if all = [] then SceneCursor else SceneRegions (normalize_grid_regions all))"
  proof -
    have "normalize_grid_regions all = [] \<longleftrightarrow> all = []" using set_normalize [of all] by (metis set_empty)
    then show ?thesis by (simp add: from_terminal_updates_def Let_def all_def)
  qed
  have "set (update_regions g s u) \<subseteq> set all" using su by (force simp: all_def)
  then have "(damaged_cells s (us_damage u) \<union> operation_cells s u) \<inter> grid_cells g \<subseteq> (\<Union>r \<in> set all. rect_cells r)"
    using cover by blast
  then show "damage_covers g (from_terminal_updates updates g) (damaged_cells s (us_damage u) \<union> operation_cells s u)"
    by (auto simp: all damage_covers_def)
  have "list_all (\<lambda>r. clip_grid_rect r g = Some r) all"
    using assms update_regions_exact by (force simp: all_def list_all_iff)
  then show "damage_exact g (from_terminal_updates updates g)"
    by (auto simp: all damage_exact_def list_all_iff)
qed

theorem scene_damage_covers_witness:
  defines "s \<equiv> \<lparr>ss_id = 1, ss_origin = grid_point_new 2 3, ss_snapshot = example_snapshot_of 10 20\<rparr>"
  shows "damage_covers (geometry_from_cells 24 80)
     (from_terminal_updates [(s, update_summary_default\<lparr>us_damage := DamageRows [(1, 2)]\<rparr>)] (geometry_from_cells 24 80))
     (damaged_cells s (DamageRows [(1, 2)]))"
  using scene_damage_covers [of "[(s, update_summary_default\<lparr>us_damage := DamageRows [(1, 2)]\<rparr>)]" "geometry_from_cells 24 80"]
  by (simp add: s_def origin_valid_def grid_point_new_def in_i32_def operation_cells_def update_summary_default_def)

end
