(* ===== verification/Scene_Render.thy ===== *)
theory Scene_Render
  imports Scene_Wire Scene_Damage Output_Scheduler
begin

text \<open>
  The incremental renderer of \<^verbatim>\<open>presentation.rs\<close>: cells are compared within the damaged rows, the ranges
  that changed are widened to whole glyphs and merged, and only they are written. The lemmas show that
  painting the written runs over what the terminal shows yields the intended rows.
\<close>

section \<open>Changed cells\<close>

type_synonym cell_range = "nat \<times> nat"

fun changed_loop :: "row \<Rightarrow> row \<Rightarrow> nat option \<Rightarrow> nat list \<Rightarrow> cell_range list \<times> nat option" where
  "changed_loop previous intended run_start [] = ([], run_start)"
| "changed_loop previous intended run_start (col # cols) =
     (let changed = (\<not> cells_physically_match (row_cells previous ! col) (row_cells intended ! col)) in
      case (run_start, changed) of
        (None, True) \<Rightarrow> changed_loop previous intended (Some col) cols
      | (Some first, False) \<Rightarrow> (let (rs, s) = changed_loop previous intended None cols in ((first, col) # rs, s))
      | _ \<Rightarrow> changed_loop previous intended run_start cols)"

definition changed_cell_ranges :: "row \<Rightarrow> row \<Rightarrow> nat \<Rightarrow> nat \<Rightarrow> cell_range list" where
  "changed_cell_ranges previous intended start stop =
     (let (rs, run_start) = changed_loop previous intended None [start..<stop]
      in rs @ (case run_start of None \<Rightarrow> [] | Some first \<Rightarrow> [(first, stop)]))"

text \<open>The ranges lie within both rows, so that the indexed cells exist.\<close>

abbreviation continues :: "row \<Rightarrow> nat \<Rightarrow> bool" where
  "continues r i \<equiv> cell_continuation (row_cells r ! i)"

fun expand_start :: "row \<Rightarrow> row \<Rightarrow> nat \<Rightarrow> nat" where
  "expand_start previous intended 0 = 0"
| "expand_start previous intended (Suc n) =
     (if continues previous (Suc n) \<or> continues intended (Suc n) then expand_start previous intended n else Suc n)"

function skip_continuations :: "row \<Rightarrow> nat \<Rightarrow> nat \<Rightarrow> nat" where
  "skip_continuations r cols e = (if e < cols \<and> continues r e then skip_continuations r cols (Suc e) else e)"
  by pat_completeness auto
termination
  by (relation "measure (\<lambda>(r, cols, e). cols - e)") auto

declare skip_continuations.simps [simp del]

definition expand_row :: "nat \<Rightarrow> nat \<Rightarrow> row \<Rightarrow> nat \<Rightarrow> nat" where
  "expand_row cols start r e =
     (let e = (if start < length (row_cells r)
               then max e (saturating_add_usize start (unat (max (cell_width (row_cells r ! start)) 1))) else e)
      in skip_continuations r cols e)"

lemma skip_continuations_ge: "e \<le> skip_continuations r cols e"
  by (induction r cols e rule: skip_continuations.induct) (subst skip_continuations.simps, auto)

lemma expand_row_ge: "e \<le> expand_row cols start r e"
proof -
  define e' where "e' = (if start < length (row_cells r)
      then max e (saturating_add_usize start (unat (max (cell_width (row_cells r ! start)) 1))) else e)"
  have "e \<le> e'" by (simp add: e'_def)
  also have "e' \<le> skip_continuations r cols e'" by (rule skip_continuations_ge)
  also have "\<dots> = expand_row cols start r e" by (simp add: expand_row_def e'_def)
  finally show ?thesis .
qed

text \<open>The loop ends: every round but the last moves the end of the range forward, up to the end of the
  row.\<close>

function expand_end :: "row \<Rightarrow> row \<Rightarrow> nat \<Rightarrow> nat \<Rightarrow> nat \<Rightarrow> nat" where
  "expand_end previous intended cols start e =
     (let expanded = min (expand_row cols start intended (expand_row cols start previous e)) cols in
      if expanded = e then e else expand_end previous intended cols start expanded)"
  by pat_completeness auto
termination
proof (relation "measure (\<lambda>(p, i, cols, start, e). if cols < e then Suc cols else cols - e)", goal_cases)
  case (2 p i cols start e x)
  have "e \<le> expand_row cols start i (expand_row cols start p e)"
    by (rule order_trans [OF expand_row_ge expand_row_ge])
  then show ?case using 2 by (auto simp: min_def split: if_splits)
qed simp

declare expand_end.simps [simp del]

definition expand_range :: "row \<Rightarrow> row \<Rightarrow> cell_range \<Rightarrow> cell_range" where
  "expand_range previous intended rng =
     (let cols = min (length (row_cells previous)) (length (row_cells intended));
          start = expand_start previous intended (fst rng)
      in (start, expand_end previous intended cols start (snd rng)))"

fun merge_ranges :: "cell_range list \<Rightarrow> cell_range list" where
  "merge_ranges [] = []"
| "merge_ranges [r] = [r]"
| "merge_ranges (p # r # rs) =
     (if fst r \<le> snd p then merge_ranges ((fst p, max (snd p) (snd r)) # rs) else p # merge_ranges (r # rs))"

text \<open>The source's sort by the start is unstable; ranges of equal start are merged.\<close>

definition expand_and_merge_cell_ranges :: "row \<Rightarrow> row \<Rightarrow> cell_range list \<Rightarrow> cell_range list" where
  "expand_and_merge_cell_ranges previous intended ranges =
     merge_ranges (sort_key fst (map (expand_range previous intended) ranges))"

section \<open>Candidates\<close>

definition widen :: "nat \<Rightarrow> nat \<Rightarrow> cell_range option \<Rightarrow> cell_range option" where
  "widen start stop c = Some (case c of None \<Rightarrow> (start, stop) | Some (s, e) \<Rightarrow> (min s start, max e stop))"

definition widen_rows :: "nat \<Rightarrow> nat \<Rightarrow> nat \<Rightarrow> nat \<Rightarrow> cell_range option list \<Rightarrow> cell_range option list" where
  "widen_rows t b l r cs = map (\<lambda>(i, c). if t \<le> i \<and> i < b then widen l r c else c) (enumerate 0 cs)"

text \<open>None: a region reaches beyond the rows, and the incremental path is given up\<close>

fun row_candidates :: "terminal_geometry \<Rightarrow> cell_range option list \<Rightarrow> grid_rect list \<Rightarrow> cell_range option list option" where
  "row_candidates g cs [] = Some cs"
| "row_candidates g cs (r # rs) =
     (case clip_grid_rect r g of
        None \<Rightarrow> row_candidates g cs rs
      | Some i \<Rightarrow>
          let t = nat (rect_top i); l = nat (rect_left i) in
          if t + gr_rows i \<le> length cs
          then row_candidates g (widen_rows t (t + gr_rows i) l (l + gr_cols i) cs) rs else None)"

definition damage_regions :: "scene_damage \<Rightarrow> grid_rect list" where
  "damage_regions d = (case d of SceneRegions rs \<Rightarrow> rs | SceneOperations _ rs _ \<Rightarrow> rs | _ \<Rightarrow> [])"

record render_stats =
  rs_rows_considered :: nat
  rs_cells_compared :: nat
  rs_cells_emitted :: nat
  rs_bytes_emitted :: nat

definition render_stats_default :: render_stats where
  "render_stats_default = \<lparr>rs_rows_considered = 0, rs_cells_compared = 0, rs_cells_emitted = 0, rs_bytes_emitted = 0\<rparr>"

definition sat1 :: "nat \<Rightarrow> nat \<Rightarrow> nat" where
  "sat1 a b = saturating_add_usize a b"

text \<open>The runs to paint, as the row and its range, and the statistics; None where a damaged row is
  wrapped or missing\<close>

type_synonym run = "nat \<times> nat \<times> nat"

fun incremental_runs ::
  "row list \<Rightarrow> row list \<Rightarrow> (nat \<times> cell_range option) list \<Rightarrow> render_stats \<Rightarrow> (run list \<times> render_stats) option" where
  "incremental_runs presented intended [] stats = Some ([], stats)"
| "incremental_runs presented intended ((i, candidate) # cs) stats =
     (case candidate of
        None \<Rightarrow> incremental_runs presented intended cs stats
      | Some (start, stop) \<Rightarrow>
          if i < length presented \<and> i < length intended then
            let p = presented ! i; q = intended ! i in
            if row_wrapped p \<or> row_wrapped q then None
            else
              let stop = min (min stop (length (row_cells p))) (length (row_cells q));
                  start = min start stop;
                  ranges = expand_and_merge_cell_ranges p q (changed_cell_ranges p q start stop);
                  stats = stats\<lparr>rs_rows_considered := sat1 (rs_rows_considered stats) 1,
                                rs_cells_compared := sat1 (rs_cells_compared stats) (stop - start),
                                rs_cells_emitted := foldl (\<lambda>n (s, e). sat1 n (e - s)) (rs_cells_emitted stats) ranges\<rparr>
              in map_option (\<lambda>(runs, stats). (map (\<lambda>(s, e). (i, s, e)) ranges @ runs, stats))
                   (incremental_runs presented intended cs stats)
          else None)"

definition write_runs :: "row list \<Rightarrow> run list \<Rightarrow> bytes" where
  "write_runs intended runs = concat (map (\<lambda>(i, s, e). write_incremental_run i s e (intended ! i)) runs)"

section \<open>Capabilities and effects\<close>

record render_capabilities =
  rc_synchronized_output :: bool
  rc_hyperlinks :: bool
  rc_kitty_graphics :: bool
  rc_inline_terminal_effects :: bool

definition default_capabilities :: render_capabilities where
  "default_capabilities = \<lparr>rc_synchronized_output = False, rc_hyperlinks = True, rc_kitty_graphics = False,
     rc_inline_terminal_effects = True\<rparr>"

definition has_link :: "row \<Rightarrow> bool" where
  "has_link r \<longleftrightarrow> list_ex (\<lambda>c. cell_hyperlink c \<noteq> None) (row_cells r)"

definition apply_render_capabilities :: "render_capabilities \<Rightarrow> Scene_Types.presented_scene \<Rightarrow> Scene_Types.presented_scene" where
  "apply_render_capabilities caps p =
     (let p = (if \<not> rc_hyperlinks caps \<and> list_ex has_link (ps_rows p)
               then p\<lparr>ps_rows := map (\<lambda>r. if has_link r
                      then r\<lparr>row_cells := map (\<lambda>c. c\<lparr>cell_hyperlink := None\<rparr>) (row_cells r)\<rparr> else r) (ps_rows p)\<rparr>
               else p)
      in if \<not> rc_kitty_graphics caps then p\<lparr>ps_image_uploads := [], ps_images := []\<rparr> else p)"

definition effect_bytes :: "render_capabilities \<Rightarrow> Scene_Types.presented_scene \<Rightarrow> Scene_Types.presented_scene \<Rightarrow> bytes" where
  "effect_bytes caps presented intended =
     (if rc_inline_terminal_effects caps
      then (if \<not> terminal_string_matches (ps_title presented) (ps_title intended)
            then write_terminal_string 2 (ps_title intended) else []) @
           (if \<not> terminal_string_matches (ps_working_directory presented) (ps_working_directory intended)
            then write_terminal_string 7 (ps_working_directory intended) else [])
      else []) @
     (if ps_modes presented \<noteq> ps_modes intended then write_mode_changes (ps_modes presented) (ps_modes intended) else [])"

definition bell_bytes :: "Scene_Types.presented_scene \<Rightarrow> bytes" where
  "bell_bytes p = replicate (ps_bell_count p) (CHR 0x07)"

definition synchronized_frame :: "Scene_Types.presented_scene \<Rightarrow> bytes \<Rightarrow> bytes" where
  "synchronized_frame intended body =
     ESC # ''[?2026h'' @ body @ write_private_mode 2026 (md_synchronized_output (ps_modes intended))"

record scene_batch =
  sb_transactions :: "output_transaction list"
  sb_predicted :: Scene_Types.presented_scene

definition incremental_body ::
  "render_capabilities \<Rightarrow> Scene_Types.presented_scene \<Rightarrow> Scene_Types.presented_scene \<Rightarrow> run list \<Rightarrow> bytes" where
  "incremental_body caps presented intended runs =
     write_runs (ps_rows intended) runs @ effect_bytes caps presented intended @
     (if runs \<noteq> [] \<or> ps_cursor presented \<noteq> ps_cursor intended then write_cursor (ps_cursor intended) else []) @
     bell_bytes intended"

definition incremental_bytes ::
  "render_capabilities \<Rightarrow> Scene_Types.presented_scene \<Rightarrow> Scene_Types.presented_scene \<Rightarrow> run list \<Rightarrow> bytes" where
  "incremental_bytes caps presented intended runs =
     (let body = incremental_body caps presented intended runs
      in if rc_synchronized_output caps \<and> body \<noteq> [] then synchronized_frame intended body else body)"

definition incremental_batch ::
  "render_capabilities \<Rightarrow> scene_damage \<Rightarrow> Scene_Types.presented_scene \<Rightarrow> Scene_Types.presented_scene \<Rightarrow> (scene_batch \<times> render_stats) option" where
  "incremental_batch caps damage presented intended =
     Option.bind (row_candidates (ps_geometry intended) (replicate (length (ps_rows intended)) None) (damage_regions damage))
       (\<lambda>candidates. map_option
          (\<lambda>(runs, stats).
             let bs = incremental_bytes caps presented intended runs
             in (\<lparr>sb_transactions = (if bs \<noteq> [] then [\<lparr>ot_resize = None, ot_bytes = bs\<rparr>] else []), sb_predicted = intended\<rparr>,
                 stats\<lparr>rs_bytes_emitted := length bs\<rparr>))
          (incremental_runs (ps_rows presented) (ps_rows intended) (enumerate 0 candidates) render_stats_default))"

section \<open>The ranges of a row\<close>

lemma physically_match_refl [simp]: "cells_physically_match c c"
  by (simp add: cells_physically_match_def)

lemma physically_match_sym: "cells_physically_match c d \<Longrightarrow> cells_physically_match d c"
  by (auto simp: cells_physically_match_def)

lemma physically_match_trans: "cells_physically_match c d \<Longrightarrow> cells_physically_match d e \<Longrightarrow> cells_physically_match c e"
  by (auto simp: cells_physically_match_def)

abbreviation cell_changed :: "row \<Rightarrow> row \<Rightarrow> nat \<Rightarrow> bool" where
  "cell_changed p q c \<equiv> \<not> cells_physically_match (row_cells p ! c) (row_cells q ! c)"

abbreviation in_ranges :: "nat \<Rightarrow> cell_range list \<Rightarrow> bool" where
  "in_ranges c rs \<equiv> (\<exists>(s, e) \<in> set rs. s \<le> c \<and> c < e)"

definition close_run :: "nat \<Rightarrow> cell_range list \<times> nat option \<Rightarrow> cell_range list" where
  "close_run b x = fst x @ (case snd x of None \<Rightarrow> [] | Some first \<Rightarrow> [(first, b)])"

lemma changed_loop_spec:
  assumes "k \<le> b" "\<And>f. run_start = Some f \<Longrightarrow> a \<le> f \<and> f < k" "a \<le> k"
  shows "(\<forall>(s, e) \<in> set (close_run b (changed_loop p q run_start [k..<b])). a \<le> s \<and> s < e \<and> e \<le> b) \<and>
    (\<forall>c. (k \<le> c \<and> c < b \<and> cell_changed p q c \<or> (\<exists>f. run_start = Some f \<and> f \<le> c \<and> c < k)) \<longrightarrow>
       in_ranges c (close_run b (changed_loop p q run_start [k..<b])))"
  using assms
proof (induction "b - k" arbitrary: k run_start)
  case 0
  then show ?case by (auto simp: close_run_def split: option.splits)
next
  case (Suc n)
  then have k: "k < b" "[k..<b] = k # [Suc k..<b]" by (simp_all add: upt_conv_Cons)
  show ?case
  proof (cases "cell_changed p q k")
    case True
    define f where "f = (case run_start of None \<Rightarrow> k | Some f \<Rightarrow> f)"
    have step: "changed_loop p q run_start [k..<b] = changed_loop p q (Some f) [Suc k..<b]"
      using True by (cases run_start) (simp_all add: k(2) f_def)
    have f: "a \<le> f \<and> f < Suc k" using Suc.prems by (auto simp: f_def split: option.split)
    have IH: "(\<forall>(s, e) \<in> set (close_run b (changed_loop p q (Some f) [Suc k..<b])). a \<le> s \<and> s < e \<and> e \<le> b) \<and>
      (\<forall>c. (Suc k \<le> c \<and> c < b \<and> cell_changed p q c \<or> (\<exists>f'. Some f = Some f' \<and> f' \<le> c \<and> c < Suc k)) \<longrightarrow>
       in_ranges c (close_run b (changed_loop p q (Some f) [Suc k..<b])))"
      by (rule Suc.hyps(1)) (use Suc k f in auto)
    show ?thesis unfolding step
    proof (intro conjI allI impI)
      show "\<forall>(s, e) \<in> set (close_run b (changed_loop p q (Some f) [Suc k..<b])). a \<le> s \<and> s < e \<and> e \<le> b" using IH by blast
    next
      fix c
      assume c: "k \<le> c \<and> c < b \<and> cell_changed p q c \<or> (\<exists>f. run_start = Some f \<and> f \<le> c \<and> c < k)"
      have "Suc k \<le> c \<and> c < b \<and> cell_changed p q c \<or> f \<le> c \<and> c < Suc k"
        using c Suc.prems by (cases run_start) (auto simp: f_def)
      then show "in_ranges c (close_run b (changed_loop p q (Some f) [Suc k..<b]))" using IH by blast
    qed
  next
    case False
    have IH: "(\<forall>(s, e) \<in> set (close_run b (changed_loop p q None [Suc k..<b])). a \<le> s \<and> s < e \<and> e \<le> b) \<and>
      (\<forall>c. (Suc k \<le> c \<and> c < b \<and> cell_changed p q c \<or> (\<exists>f'. None = Some f' \<and> f' \<le> c \<and> c < Suc k)) \<longrightarrow>
       in_ranges c (close_run b (changed_loop p q None [Suc k..<b])))"
      by (rule Suc.hyps(1)) (use Suc k in auto)
    have step: "close_run b (changed_loop p q run_start [k..<b]) =
        (case run_start of None \<Rightarrow> [] | Some f \<Rightarrow> [(f, k)]) @ close_run b (changed_loop p q None [Suc k..<b])"
      using False by (cases run_start) (simp_all add: k(2) close_run_def split: prod.split)
    show ?thesis unfolding step
    proof (intro conjI allI impI)
      show "\<forall>(s, e) \<in> set ((case run_start of None \<Rightarrow> [] | Some f \<Rightarrow> [(f, k)]) @ close_run b (changed_loop p q None [Suc k..<b])).
          a \<le> s \<and> s < e \<and> e \<le> b"
        using IH Suc.prems k(1) by (auto split: option.splits)
    next
      fix c
      assume c: "k \<le> c \<and> c < b \<and> cell_changed p q c \<or> (\<exists>f. run_start = Some f \<and> f \<le> c \<and> c < k)"
      then consider "Suc k \<le> c \<and> c < b \<and> cell_changed p q c" | f where "run_start = Some f" "f \<le> c" "c < k"
        using False by (metis Suc_leI le_eq_less_or_eq)
      then show "in_ranges c ((case run_start of None \<Rightarrow> [] | Some f \<Rightarrow> [(f, k)]) @ close_run b (changed_loop p q None [Suc k..<b]))"
      proof cases
        case 1
        then have "in_ranges c (close_run b (changed_loop p q None [Suc k..<b]))" using IH by blast
        then show ?thesis by auto
      qed auto
    qed
  qed
qed

lemma changed_cell_ranges_spec:
  assumes "a \<le> b"
  shows "\<forall>(s, e) \<in> set (changed_cell_ranges p q a b). a \<le> s \<and> s < e \<and> e \<le> b"
    and "a \<le> c \<Longrightarrow> c < b \<Longrightarrow> cell_changed p q c \<Longrightarrow> in_ranges c (changed_cell_ranges p q a b)"
proof -
  have eq: "changed_cell_ranges p q a b = close_run b (changed_loop p q None [a..<b])"
    by (simp add: changed_cell_ranges_def close_run_def split: prod.split)
  note spec = changed_loop_spec [OF assms, of None a p q, simplified]
  show "\<forall>(s, e) \<in> set (changed_cell_ranges p q a b). a \<le> s \<and> s < e \<and> e \<le> b"
    using spec unfolding eq by blast
  show "a \<le> c \<Longrightarrow> c < b \<Longrightarrow> cell_changed p q c \<Longrightarrow> in_ranges c (changed_cell_ranges p q a b)"
    using spec unfolding eq by blast
qed

text \<open>A column at which neither row has a glyph that began further left\<close>

definition edge :: "row \<Rightarrow> row \<Rightarrow> nat \<Rightarrow> nat \<Rightarrow> bool" where
  "edge p q n k \<longleftrightarrow> k = 0 \<or> k = n \<or> \<not> continues p k \<and> \<not> continues q k"

lemma expand_start_spec: "expand_start p q s \<le> s \<and> edge p q n (expand_start p q s)"
  by (induction s) (auto simp: edge_def)

lemma skip_spec: "e \<le> n \<Longrightarrow> skip_continuations r n e \<le> n"
  by (induction r n e rule: skip_continuations.induct) (subst skip_continuations.simps, auto)

lemma skip_stop: "skip_continuations r n e = n \<or> n < skip_continuations r n e \<or> \<not> continues r (skip_continuations r n e)"
proof (induction r n e rule: skip_continuations.induct)
  case (1 r n e)
  show ?case
  proof (cases "e < n \<and> continues r e")
    case True
    have "skip_continuations r n e = skip_continuations r n (Suc e)" using True by (subst skip_continuations.simps) simp
    then show ?thesis using 1 True by simp
  next
    case False
    have "skip_continuations r n e = e" using False by (subst skip_continuations.simps) auto
    then show ?thesis using False by auto
  qed
qed

lemma expand_row_stop: "expand_row n s r e = n \<or> n < expand_row n s r e \<or> \<not> continues r (expand_row n s r e)"
  unfolding expand_row_def Let_def by (rule skip_stop)

lemma expand_end_spec:
  "e \<le> n \<Longrightarrow> e \<le> expand_end p q n s e \<and> expand_end p q n s e \<le> n \<and> edge p q n (expand_end p q n s e)"
proof (induction p q n s e rule: expand_end.induct)
  case (1 p q n s e)
  define x where "x = expand_row n s p e"
  define y where "y = expand_row n s q x"
  have ge: "e \<le> x" "x \<le> y" using expand_row_ge [of e n s p] expand_row_ge [of x n s q] by (simp_all add: x_def y_def)
  have step: "expand_end p q n s e = (if min y n = e then e else expand_end p q n s (min y n))"
    by (subst expand_end.simps) (simp add: x_def y_def)
  show ?case
  proof (cases "min y n = e")
    case True
    have "edge p q n e"
    proof (cases "e = n")
      case False
      then have "x = e" "y = e" using True ge 1(2) by auto
      then have "expand_row n s p e = e" "expand_row n s q e = e" using x_def y_def by simp_all
      then show ?thesis
        using expand_row_stop [of n s p e] expand_row_stop [of n s q e] False 1(2) by (auto simp: edge_def)
    qed (simp add: edge_def)
    then show ?thesis using True 1(2) by (simp add: step)
  next
    case False
    have IH: "min y n \<le> expand_end p q n s (min y n) \<and> expand_end p q n s (min y n) \<le> n \<and> edge p q n (expand_end p q n s (min y n))"
      using 1(1) [OF refl] False by (simp add: x_def [symmetric] y_def [symmetric])
    have "e \<le> min y n" using ge 1(2) by simp
    then show ?thesis using IH False by (auto simp: step)
  qed
qed

definition good_range :: "row \<Rightarrow> row \<Rightarrow> nat \<Rightarrow> cell_range \<Rightarrow> bool" where
  "good_range p q n r \<longleftrightarrow> fst r < snd r \<and> snd r \<le> n \<and> edge p q n (fst r) \<and> edge p q n (snd r)"

lemma expand_range_spec:
  assumes "length (row_cells p) = n" "length (row_cells q) = n" "s < e" "e \<le> n"
  shows "good_range p q n (expand_range p q (s, e)) \<and> fst (expand_range p q (s, e)) \<le> s \<and> e \<le> snd (expand_range p q (s, e))"
  using assms expand_start_spec [of p q s n] expand_end_spec [of e n p q "expand_start p q s"]
  by (auto simp: expand_range_def good_range_def Let_def)

lemma merge_ranges_spec:
  "sorted (map fst rs) \<Longrightarrow> list_all (good_range p q n) rs \<Longrightarrow>
   list_all (good_range p q n) (merge_ranges rs) \<and> sorted_wrt (\<lambda>x y. snd x < fst y) (merge_ranges rs) \<and>
   (\<forall>c. in_ranges c rs \<longrightarrow> in_ranges c (merge_ranges rs)) \<and>
   (rs \<noteq> [] \<longrightarrow> merge_ranges rs \<noteq> [] \<and> fst (hd (merge_ranges rs)) = fst (hd rs))"
proof (induction rs rule: merge_ranges.induct)
  case (3 x r rs)
  show ?case
  proof (cases "fst r \<le> snd x")
    case True
    define y where "y = (fst x, max (snd x) (snd r))"
    have y: "good_range p q n y" using 3(4) by (auto simp: good_range_def y_def max_def)
    have sorted: "sorted (map fst (y # rs))" using 3(3) by (auto simp: y_def)
    have IH: "list_all (good_range p q n) (merge_ranges (y # rs)) \<and> sorted_wrt (\<lambda>x y. snd x < fst y) (merge_ranges (y # rs)) \<and>
      (\<forall>c. in_ranges c (y # rs) \<longrightarrow> in_ranges c (merge_ranges (y # rs))) \<and>
      (y # rs \<noteq> [] \<longrightarrow> merge_ranges (y # rs) \<noteq> [] \<and> fst (hd (merge_ranges (y # rs))) = fst (hd (y # rs)))"
      using 3(1) [OF True] sorted y 3(4) unfolding y_def [symmetric] by simp
    have "in_ranges c (y # rs)" if "in_ranges c (x # r # rs)" for c
      using that True 3(3) by (fastforce simp: y_def)
    moreover have "merge_ranges (x # r # rs) = merge_ranges (y # rs)" using True by (simp add: y_def)
    ultimately show ?thesis using IH unfolding \<open>merge_ranges (x # r # rs) = merge_ranges (y # rs)\<close>
      by (intro conjI allI impI) (blast, blast, blast, blast, simp add: y_def)
  next
    case False
    have IH: "list_all (good_range p q n) (merge_ranges (r # rs)) \<and> sorted_wrt (\<lambda>x y. snd x < fst y) (merge_ranges (r # rs)) \<and>
      (\<forall>c. in_ranges c (r # rs) \<longrightarrow> in_ranges c (merge_ranges (r # rs))) \<and>
      merge_ranges (r # rs) \<noteq> [] \<and> fst (hd (merge_ranges (r # rs))) = fst r"
      using 3(2) [OF False] 3(3,4) by simp
    obtain h t where ht: "merge_ranges (r # rs) = h # t" "fst h = fst r" using IH by (cases "merge_ranges (r # rs)") auto
    have "snd x < fst z" if "z \<in> set (h # t)" for z
    proof (cases "z = h")
      case True
      then show ?thesis using False ht by simp
    next
      case z: False
      then have "snd h < fst z" "fst h < snd h" using IH that ht by (auto simp: good_range_def)
      then show ?thesis using False ht by simp
    qed
    then have "sorted_wrt (\<lambda>x y. snd x < fst y) (x # h # t)" using IH ht by simp
    moreover have "merge_ranges (x # r # rs) = x # h # t" using False ht by simp
    moreover have "in_ranges c (x # h # t)" if "in_ranges c (x # r # rs)" for c
      using that IH unfolding ht by auto
    ultimately show ?thesis using IH 3(4) by (simp add: ht)
  qed
qed auto

text \<open>The ranges that are painted for a row cover what changed and split no glyph of either row.\<close>

lemma painted_ranges_spec:
  assumes n: "length (row_cells p) = n" "length (row_cells q) = n" and ab: "a \<le> b" "b \<le> n"
  defines "rs \<equiv> expand_and_merge_cell_ranges p q (changed_cell_ranges p q a b)"
  shows "list_all (good_range p q n) rs" and "sorted_wrt (\<lambda>x y. snd x < fst y) rs"
    and "a \<le> c \<Longrightarrow> c < b \<Longrightarrow> cell_changed p q c \<Longrightarrow> in_ranges c rs"
proof -
  define es where "es = sort_key fst (map (expand_range p q) (changed_cell_ranges p q a b))"
  note ch = changed_cell_ranges_spec [OF ab(1), where p = p and q = q]
  have good: "list_all (good_range p q n) es"
    using ch(1) ab(2) expand_range_spec [OF n] by (fastforce simp: es_def list_all_iff)
  have sorted: "sorted (map fst es)" by (simp add: es_def)
  note m = merge_ranges_spec [OF sorted good]
  show "list_all (good_range p q n) rs" "sorted_wrt (\<lambda>x y. snd x < fst y) rs"
    using m by (simp_all add: rs_def expand_and_merge_cell_ranges_def es_def)
  show "in_ranges c rs" if c: "a \<le> c" "c < b" "cell_changed p q c"
  proof -
    obtain s e where se: "(s, e) \<in> set (changed_cell_ranges p q a b)" "s \<le> c" "c < e" using ch(2) [OF c] by blast
    then have "s < e" "e \<le> n" using ch(1) ab(2) by auto
    then have x: "fst (expand_range p q (s, e)) \<le> c \<and> c < snd (expand_range p q (s, e))"
      using expand_range_spec [OF n, of s e] se by auto
    have "expand_range p q (s, e) \<in> set es" using se(1) by (simp add: es_def)
    then have "in_ranges c es" using x by (metis (mono_tags, lifting) case_prod_beta')
    then show ?thesis using m by (simp add: rs_def expand_and_merge_cell_ranges_def es_def)
  qed
qed

section \<open>Painting\<close>

text \<open>What a run does to the terminal's row: its cells become the intended ones\<close>

definition paint_cells :: "nat \<Rightarrow> nat \<Rightarrow> row \<Rightarrow> row \<Rightarrow> row" where
  "paint_cells s e q r = r\<lparr>row_cells := take s (row_cells r) @ drop s (take e (row_cells q)) @ drop e (row_cells r)\<rparr>"

definition paint_run :: "row list \<Rightarrow> run \<Rightarrow> row list \<Rightarrow> row list" where
  "paint_run intended run rows = (case run of (i, s, e) \<Rightarrow> rows[i := paint_cells s e (intended ! i) (rows ! i)])"

definition paint_runs :: "row list \<Rightarrow> run list \<Rightarrow> row list \<Rightarrow> row list" where
  "paint_runs intended runs rows = fold (paint_run intended) runs rows"

lemma paint_cells_props:
  assumes "length (row_cells r) = n" "length (row_cells q) = n" "s \<le> e" "e \<le> n"
  shows "length (row_cells (paint_cells s e q r)) = n" "row_wrapped (paint_cells s e q r) = row_wrapped r"
    "c < n \<Longrightarrow> row_cells (paint_cells s e q r) ! c = (if s \<le> c \<and> c < e then row_cells q ! c else row_cells r ! c)"
  using assms by (auto simp: paint_cells_def nth_append min_def)

text \<open>Painting ranges of one row\<close>

definition paint_ranges :: "row \<Rightarrow> cell_range list \<Rightarrow> row \<Rightarrow> row" where
  "paint_ranges q rs r = fold (\<lambda>(s, e). paint_cells s e q) rs r"

lemma paint_ranges_props:
  "length (row_cells r) = n \<Longrightarrow> length (row_cells q) = n \<Longrightarrow> list_all (\<lambda>(s, e). s \<le> e \<and> e \<le> n) rs \<Longrightarrow>
   length (row_cells (paint_ranges q rs r)) = n \<and> row_wrapped (paint_ranges q rs r) = row_wrapped r \<and>
   (\<forall>c < n. row_cells (paint_ranges q rs r) ! c = (if in_ranges c rs then row_cells q ! c else row_cells r ! c))"
proof (induction rs arbitrary: r)
  case (Cons x rs)
  obtain s e where x: "x = (s, e)" by fastforce
  note p = paint_cells_props [OF Cons.prems(1,2), of s e]
  have se: "s \<le> e" "e \<le> n" using Cons.prems(3) x by auto
  have IH: "length (row_cells (paint_ranges q rs (paint_cells s e q r))) = n \<and>
    row_wrapped (paint_ranges q rs (paint_cells s e q r)) = row_wrapped (paint_cells s e q r) \<and>
    (\<forall>c < n. row_cells (paint_ranges q rs (paint_cells s e q r)) ! c =
       (if in_ranges c rs then row_cells q ! c else row_cells (paint_cells s e q r) ! c))"
    using Cons.IH [OF p(1) [OF se] Cons.prems(2)] Cons.prems(3) by simp
  have step: "paint_ranges q (x # rs) r = paint_ranges q rs (paint_cells s e q r)" by (simp add: paint_ranges_def x)
  show ?case unfolding step using IH p(2,3) [OF se] by (auto simp: x)
qed (simp add: paint_ranges_def)

lemma paint_runs_row:
  "i < length rows \<Longrightarrow> paint_runs q (map (\<lambda>(s, e). (i, s, e)) rs) rows = rows[i := paint_ranges (q ! i) rs (rows ! i)]"
  by (induction rs arbitrary: rows) (auto simp: paint_runs_def paint_ranges_def paint_run_def)

lemma paint_runs_append: "paint_runs q (xs @ ys) rows = paint_runs q ys (paint_runs q xs rows)"
  by (simp add: paint_runs_def)

text \<open>A run that lies within its row and splits no glyph of the presented or the intended row\<close>

definition good_run :: "row list \<Rightarrow> row list \<Rightarrow> nat \<Rightarrow> run \<Rightarrow> bool" where
  "good_run presented intended n run \<longleftrightarrow>
     (case run of (i, r) \<Rightarrow> i < length intended \<and> good_range (presented ! i) (intended ! i) n r)"

abbreviation rows_of_width :: "nat \<Rightarrow> row list \<Rightarrow> bool" where
  "rows_of_width n rows \<equiv> list_all (\<lambda>r. length (row_cells r) = n) rows"

text \<open>A row after painting: what a candidate covers matches, the rest is as it was or matches\<close>

definition row_repaired :: "nat \<Rightarrow> row \<Rightarrow> row \<Rightarrow> cell_range option \<Rightarrow> row \<Rightarrow> bool" where
  "row_repaired n p q candidate r \<longleftrightarrow>
     length (row_cells r) = n \<and> row_wrapped r = row_wrapped p \<and>
     (candidate \<noteq> None \<longrightarrow> \<not> row_wrapped p \<and> \<not> row_wrapped q) \<and>
     (\<forall>c < n. row_cells r ! c = row_cells p ! c \<or> row_cells r ! c = row_cells q ! c) \<and>
     (\<forall>c < n. (case candidate of None \<Rightarrow> False | Some (a, b) \<Rightarrow> a \<le> c \<and> c < b) \<longrightarrow>
        cells_physically_match (row_cells r ! c) (row_cells q ! c))"

lemma row_repaired_ranges:
  fixes start stop :: nat
  assumes n: "length (row_cells p) = n" "length (row_cells q) = n" and w: "\<not> row_wrapped p" "\<not> row_wrapped q"
  defines "stop' \<equiv> min (min stop (length (row_cells p))) (length (row_cells q))"
  defines "start' \<equiv> min start stop'"
  defines "rs \<equiv> expand_and_merge_cell_ranges p q (changed_cell_ranges p q start' stop')"
  shows "row_repaired n p q (Some (start, stop)) (paint_ranges q rs p) \<and> list_all (good_range p q n) rs"
proof -
  have b: "start' \<le> stop'" "stop' \<le> n"
    unfolding start'_def by (rule min.cobounded2) (simp add: stop'_def n)
  note spec = painted_ranges_spec [OF n b, folded rs_def]
  have "list_all (\<lambda>(s, e). s \<le> e \<and> e \<le> n) rs" using spec(1) by (auto simp: list_all_iff good_range_def)
  note paint = paint_ranges_props [OF n this]
  have "cells_physically_match (row_cells (paint_ranges q rs p) ! c) (row_cells q ! c)" if c: "c < n" "start \<le> c" "c < stop" for c
  proof (cases "in_ranges c rs")
    case False
    have "start' \<le> c" "c < stop'" using c n by (simp_all add: start'_def stop'_def)
    then have "cells_physically_match (row_cells p ! c) (row_cells q ! c)" using spec(3) [of c] False by blast
    then show ?thesis using paint c(1) False by simp
  qed (use paint c(1) in simp)
  then show ?thesis using paint w spec(1) by (auto simp: row_repaired_def)
qed

lemma row_repaired_refl:
  "length (row_cells p) = n \<Longrightarrow> row_repaired n p q None p"
  by (simp add: row_repaired_def)

lemma incremental_runs_spec:
  assumes len: "length presented = length intended" and w: "rows_of_width n presented" "rows_of_width n intended"
  shows "list_all (\<lambda>(i, _). i < length intended) cs \<Longrightarrow> distinct (map fst cs) \<Longrightarrow>
    incremental_runs presented intended cs stats = Some (runs, stats') \<Longrightarrow>
    length rows = length intended \<Longrightarrow> (\<forall>(i, _) \<in> set cs. rows ! i = presented ! i) \<Longrightarrow>
    length (paint_runs intended runs rows) = length intended \<and> list_all (good_run presented intended n) runs \<and>
    (\<forall>(i, candidate) \<in> set cs. row_repaired n (presented ! i) (intended ! i) candidate (paint_runs intended runs rows ! i)) \<and>
    (\<forall>i. i \<notin> fst ` set cs \<longrightarrow> paint_runs intended runs rows ! i = rows ! i)"
proof (induction cs arbitrary: stats runs stats' rows)
  case Nil
  then show ?case by (simp add: paint_runs_def)
next
  case (Cons x cs)
  obtain i candidate where x: "x = (i, candidate)" by fastforce
  have i: "i < length intended" using Cons.prems(1) x by simp
  have wi: "length (row_cells (presented ! i)) = n" "length (row_cells (intended ! i)) = n"
    using w i len by (auto simp: list_all_length)
  have fresh: "i \<notin> fst ` set cs" using Cons.prems(2) x by auto
  show ?case
  proof (cases candidate)
    case None
    have eq: "incremental_runs presented intended cs stats = Some (runs, stats')" using Cons.prems(3) x None by simp
    have IH: "length (paint_runs intended runs rows) = length intended \<and> list_all (good_run presented intended n) runs \<and>
      (\<forall>(i, candidate) \<in> set cs. row_repaired n (presented ! i) (intended ! i) candidate (paint_runs intended runs rows ! i)) \<and>
      (\<forall>i. i \<notin> fst ` set cs \<longrightarrow> paint_runs intended runs rows ! i = rows ! i)"
      by (rule Cons.IH [OF _ _ eq]) (use Cons.prems in auto)
    moreover have "rows ! i = presented ! i" using Cons.prems(5) x by auto
    ultimately show ?thesis using fresh row_repaired_refl [OF wi(1)] by (auto simp: x None)
  next
    case (Some ab)
    obtain start stop where ab: "ab = (start, stop)" by fastforce
    define p where "p = presented ! i"
    define q where "q = intended ! i"
    define stop' where "stop' = min (min stop (length (row_cells p))) (length (row_cells q))"
    define start' where "start' = min start stop'"
    define rs where "rs = expand_and_merge_cell_ranges p q (changed_cell_ranges p q start' stop')"
    have unwrapped: "\<not> row_wrapped p" "\<not> row_wrapped q"
      using Cons.prems(3) i len by (auto simp: x Some ab p_def q_def Let_def split: if_splits)
    obtain stats1 runs' where eq: "incremental_runs presented intended cs stats1 = Some (runs', stats')"
      "runs = map (\<lambda>(s, e). (i, s, e)) rs @ runs'"
      using Cons.prems(3) i len unwrapped
      by (simp add: x Some ab p_def [symmetric] q_def [symmetric] stop'_def [symmetric] start'_def [symmetric] rs_def [symmetric] Let_def)
        (auto split: prod.splits)
    define rows' where "rows' = rows[i := paint_ranges q rs (rows ! i)]"
    have rows_i: "rows ! i = p" using Cons.prems(5) x by (auto simp: p_def)
    have repaired: "row_repaired n p q (Some (start, stop)) (paint_ranges q rs p) \<and> list_all (good_range p q n) rs"
      unfolding rs_def start'_def stop'_def
      by (rule row_repaired_ranges) (use wi unwrapped in \<open>simp_all add: p_def q_def\<close>)
    have painted: "paint_runs intended runs rows = paint_runs intended runs' rows'"
      unfolding eq(2) paint_runs_append rows'_def q_def
      using paint_runs_row [of i rows intended rs] i Cons.prems(4) by (simp only:)
    have IH: "length (paint_runs intended runs' rows') = length intended \<and> list_all (good_run presented intended n) runs' \<and>
      (\<forall>(i, candidate) \<in> set cs. row_repaired n (presented ! i) (intended ! i) candidate (paint_runs intended runs' rows' ! i)) \<and>
      (\<forall>i. i \<notin> fst ` set cs \<longrightarrow> paint_runs intended runs' rows' ! i = rows' ! i)"
    proof (rule Cons.IH [OF _ _ eq(1)])
      show "\<forall>(j, _) \<in> set cs. rows' ! j = presented ! j"
      proof safe
        fix j c
        assume jc: "(j, c) \<in> set cs"
        then have "j \<noteq> i" using fresh by force
        then show "rows' ! j = presented ! j" using Cons.prems(5) jc by (auto simp: rows'_def)
      qed
    qed (use Cons.prems in \<open>auto simp: rows'_def\<close>)
    have "paint_runs intended runs' rows' ! i = paint_ranges q rs p"
      using IH fresh i Cons.prems(4) rows_i by (simp add: rows'_def)
    moreover have "list_all (good_run presented intended n) runs"
      using IH repaired i by (auto simp: eq(2) list_all_iff good_run_def p_def q_def)
    moreover have "rows' ! j = rows ! j" if "j \<noteq> i" for j using that by (simp add: rows'_def)
    ultimately show ?thesis
      using IH repaired unfolding painted by (auto simp: x Some ab p_def q_def)
  qed
qed

section \<open>Candidates cover the damage\<close>

lemma widen_rows_nth:
  "i < length cs \<Longrightarrow> widen_rows t b l r cs ! i = (if t \<le> i \<and> i < b then widen l r (cs ! i) else cs ! i)"
  "length (widen_rows t b l r cs) = length cs"
  by (simp_all add: widen_rows_def nth_enumerate_eq)

definition candidate_has :: "cell_range option \<Rightarrow> nat \<Rightarrow> bool" where
  "candidate_has x c \<longleftrightarrow> (case x of None \<Rightarrow> False | Some (a, b) \<Rightarrow> a \<le> c \<and> c < b)"

lemma widen_has: "candidate_has x c \<or> (l \<le> c \<and> c < r) \<Longrightarrow> candidate_has (widen l r x) c"
  by (auto simp: candidate_has_def widen_def split: option.splits)

lemma row_candidates_spec:
  "row_candidates g cs rs = Some out \<Longrightarrow>
   length out = length cs \<and> (\<forall>i < length cs. \<forall>c. candidate_has (cs ! i) c \<longrightarrow> candidate_has (out ! i) c) \<and>
   (\<forall>r \<in> set rs. \<forall>k. clip_grid_rect r g = Some k \<longrightarrow>
      (\<forall>i < length cs. \<forall>c. (int i, int c) \<in> rect_cells k \<longrightarrow> candidate_has (out ! i) c))"
proof (induction rs arbitrary: cs)
  case Nil
  then show ?case by simp
next
  case (Cons r rs)
  show ?case
  proof (cases "clip_grid_rect r g")
    case None
    then show ?thesis using Cons by auto
  next
    case (Some k)
    define t where "t = nat (rect_top k)"
    define l where "l = nat (rect_left k)"
    define cs' where "cs' = widen_rows t (t + gr_rows k) l (l + gr_cols k) cs"
    have rest: "row_candidates g cs' rs = Some out"
      using Cons.prems Some by (simp add: Let_def t_def l_def cs'_def split: if_splits)
    note IH = Cons.IH [OF rest]
    have len: "length cs' = length cs" by (simp add: cs'_def widen_rows_nth)
    have keep: "candidate_has (cs' ! i) c" if "i < length cs" "candidate_has (cs ! i) c" for i c
      using that widen_has by (simp add: cs'_def widen_rows_nth)
    have k: "rect_top k \<ge> 0" "rect_left k \<ge> 0"
      using Some by (auto simp: clip_grid_rect_def Let_def rect_new_defs split: if_splits)
    have new: "candidate_has (cs' ! i) c" if i: "i < length cs" and ic: "(int i, int c) \<in> rect_cells k" for i c
    proof -
      have "rect_top k \<le> int i" "int i < rect_bottom k" "rect_left k \<le> int c" "int c < rect_right k"
        using ic by (auto simp: rect_cells_def)
      moreover have "sat_i32 x \<le> max x 0" for x by (auto simp: sat_i32_def max_def min_def)
      ultimately have "int i < rect_top k + int (gr_rows k)" "int c < rect_left k + int (gr_cols k)"
        using k by (smt (verit, best))+
      then have "t \<le> i \<and> i < t + gr_rows k" "l \<le> c \<and> c < l + gr_cols k"
        using k \<open>rect_top k \<le> int i\<close> \<open>rect_left k \<le> int c\<close> by (auto simp: t_def l_def nat_less_iff)
      then show ?thesis using i by (simp add: cs'_def widen_rows_nth widen_has)
    qed
    show ?thesis using IH keep new Some len by auto
  qed
qed

section \<open>What the incremental renderer repairs\<close>

text \<open>The cells at which what is shown differs from what is meant: all cells of a row whose wrap mark
  differs\<close>

definition stale_cells :: "terminal_geometry \<Rightarrow> row list \<Rightarrow> row list \<Rightarrow> (int \<times> int) set" where
  "stale_cells g ps qs =
     {(int i, int c) |i c. i < grid_rows g \<and> c < grid_cols g \<and>
        (row_wrapped (ps ! i) \<noteq> row_wrapped (qs ! i) \<or>
         \<not> cells_physically_match (row_cells (ps ! i) ! c) (row_cells (qs ! i) ! c))}"

lemma write_incremental_run_nonempty: "write_incremental_run i s e r \<noteq> []"
  by (simp add: write_incremental_run_def write_absolute_cursor_def)

lemma write_runs_empty: "write_runs rows runs = [] \<longleftrightarrow> runs = []"
  by (cases runs) (auto simp: write_runs_def write_incremental_run_nonempty)

lemma write_cursor_nonempty: "write_cursor c \<noteq> []"
  by (simp add: write_cursor_def)

lemma repaired_row_matches:
  assumes r: "row_repaired n p q candidate r" and n: "length (row_cells p) = n" "length (row_cells q) = n" "0 < n"
    and stale: "\<And>c. c < n \<Longrightarrow> row_wrapped p \<noteq> row_wrapped q \<or> \<not> cells_physically_match (row_cells p ! c) (row_cells q ! c) \<Longrightarrow>
      candidate_has candidate c"
  shows "row_wrapped r = row_wrapped q \<and> list_all2 cells_physically_match (row_cells r) (row_cells q)"
proof
  have wraps: "row_wrapped p = row_wrapped q"
  proof (rule ccontr)
    assume *: "row_wrapped p \<noteq> row_wrapped q"
    then have "candidate_has candidate 0" using stale [of 0] n(3) by blast
    then have "candidate \<noteq> None" unfolding candidate_has_def by (cases candidate) simp_all
    then show False using r * by (auto simp: row_repaired_def)
  qed
  then show "row_wrapped r = row_wrapped q" using r by (simp add: row_repaired_def)
  have "cells_physically_match (row_cells r ! c) (row_cells q ! c)" if c: "c < n" for c
  proof (cases "candidate_has candidate c")
    case True
    then show ?thesis using r c by (simp add: row_repaired_def candidate_has_def)
  next
    case False
    then have "cells_physically_match (row_cells p ! c) (row_cells q ! c)" using stale [OF c] wraps by blast
    moreover have "row_cells r ! c = row_cells p ! c \<or> row_cells r ! c = row_cells q ! c"
      using r c by (simp add: row_repaired_def)
    ultimately show ?thesis by (auto simp: cells_physically_match_def)
  qed
  then show "list_all2 cells_physically_match (row_cells r) (row_cells q)"
    using r n by (auto simp: list_all2_conv_all_nth row_repaired_def)
qed

definition repairs_rows :: "terminal_geometry \<Rightarrow> row list \<Rightarrow> row list \<Rightarrow> run list \<Rightarrow> bool" where
  "repairs_rows g ps qs runs \<longleftrightarrow>
     list_all (good_run ps qs (grid_cols g)) runs \<and> rows_physically_match (paint_runs qs runs ps) qs"

lemma incremental_runs_repair:
  assumes fit: "rows_fit g ps" "rows_fit g qs" "0 < grid_cols g"
    and valid: "list_all rect_valid regions"
    and stale: "stale_cells g ps qs \<subseteq> (\<Union>r \<in> set regions. rect_cells r)"
    and cands: "row_candidates g (replicate (length qs) None) regions = Some candidates"
    and runs: "incremental_runs ps qs (enumerate 0 candidates) stats = Some (runs, stats')"
  shows "repairs_rows g ps qs runs"
proof -
  define n where "n = grid_cols g"
  have len: "length ps = length qs" "length qs = grid_rows g" and w: "rows_of_width n ps" "rows_of_width n qs"
    using fit by (auto simp: rows_fit_def n_def)
  note cspec = row_candidates_spec [OF cands]
  have clen: "length candidates = length qs" using cspec by simp
  have spec: "length (paint_runs qs runs ps) = length qs \<and> list_all (good_run ps qs n) runs \<and>
    (\<forall>(i, candidate) \<in> set (enumerate 0 candidates). row_repaired n (ps ! i) (qs ! i) candidate (paint_runs qs runs ps ! i)) \<and>
    (\<forall>i. i \<notin> fst ` set (enumerate 0 candidates) \<longrightarrow> paint_runs qs runs ps ! i = ps ! i)"
  proof (rule incremental_runs_spec [OF len(1) w _ _ runs len(1)])
    show "list_all (\<lambda>(i, _). i < length qs) (enumerate 0 candidates)"
      by (auto simp: list_all_iff in_set_enumerate_eq clen)
  qed (auto simp: distinct_enumerate)
  have "row_wrapped (paint_runs qs runs ps ! i) = row_wrapped (qs ! i) \<and>
      list_all2 cells_physically_match (row_cells (paint_runs qs runs ps ! i)) (row_cells (qs ! i))" if i: "i < length qs" for i
  proof (rule repaired_row_matches)
    have "(i, candidates ! i) \<in> set (enumerate 0 candidates)" using i clen by (simp add: in_set_enumerate_eq)
    then show "row_repaired n (ps ! i) (qs ! i) (candidates ! i) (paint_runs qs runs ps ! i)" using spec by blast
    show "length (row_cells (ps ! i)) = n" "length (row_cells (qs ! i)) = n"
      using w i len by (auto simp: list_all_length)
    show "0 < n" using fit(3) by (simp add: n_def)
    fix c
    assume c: "c < n" "row_wrapped (ps ! i) \<noteq> row_wrapped (qs ! i) \<or>
      \<not> cells_physically_match (row_cells (ps ! i) ! c) (row_cells (qs ! i) ! c)"
    then have "(int i, int c) \<in> stale_cells g ps qs" using i len by (auto simp: stale_cells_def n_def)
    then obtain r where r: "r \<in> set regions" "(int i, int c) \<in> rect_cells r" using stale by blast
    have "(int i, int c) \<in> grid_cells g" proof -
      have "int i < int (grid_rows g)" "int c < int (grid_cols g)" using i len c(1) by (simp_all only: of_nat_less_iff n_def)
      then show ?thesis by (simp add: grid_cells_def)
    qed
    moreover have "in_i32 (rect_top r)" "in_i32 (rect_left r)" using valid r(1) by (auto simp: list_all_iff rect_valid_def)
    ultimately obtain k where "clip_grid_rect r g = Some k" "(int i, int c) \<in> rect_cells k"
      using clip_covers r(2) by blast
    then show "candidate_has (candidates ! i) c" using cspec r(1) i by simp
  qed
  then show ?thesis using spec len by (simp add: repairs_rows_def rows_physically_match_def list_all2_conv_all_nth n_def)
qed

text \<open>What follows the runs: effects and modes, the cursor when something moved it, the bells, and the
  end of a synchronized frame\<close>

definition frame_closing ::
  "render_capabilities \<Rightarrow> Scene_Types.presented_scene \<Rightarrow> Scene_Types.presented_scene \<Rightarrow> bool \<Rightarrow> bytes \<Rightarrow> bool" where
  "frame_closing caps presented intended moved closing \<longleftrightarrow>
     (\<exists>finish \<in> {[], write_private_mode 2026 (md_synchronized_output (ps_modes intended))}.
        closing = effect_bytes caps presented intended @ (if moved then write_cursor (ps_cursor intended) else []) @
          bell_bytes intended @ finish)"

text \<open>The runs that a batch paints are the ones it writes first; a batch without a transaction stands
  for a terminal that already shows the scene.\<close>

lemma incremental_batch_repairs:
  assumes fit: "rows_fit (ps_geometry intended) (ps_rows presented)" "rows_fit (ps_geometry intended) (ps_rows intended)"
    "0 < grid_cols (ps_geometry intended)"
    and valid: "list_all rect_valid (damage_regions damage)"
    and stale: "stale_cells (ps_geometry intended) (ps_rows presented) (ps_rows intended) \<subseteq>
       (\<Union>r \<in> set (damage_regions damage). rect_cells r)"
    and batch: "incremental_batch caps damage presented intended = Some (batch, stats)"
  shows "\<exists>runs opening closing.
     repairs_rows (ps_geometry intended) (ps_rows presented) (ps_rows intended) runs \<and>
     concat (map ot_bytes (sb_transactions batch)) = opening @ write_runs (ps_rows intended) runs @ closing \<and>
     opening \<in> {[], ESC # ''[?2026h''} \<and> sb_predicted batch = intended \<and>
     frame_closing caps presented intended (runs \<noteq> [] \<or> ps_cursor presented \<noteq> ps_cursor intended) closing \<and>
     (sb_transactions batch = [] \<longrightarrow>
        runs = [] \<and> ps_cursor presented = ps_cursor intended \<and> effect_bytes caps presented intended = [] \<and>
        ps_bell_count intended = 0)"
proof -
  obtain candidates where c: "row_candidates (ps_geometry intended) (replicate (length (ps_rows intended)) None) (damage_regions damage) = Some candidates"
    and "map_option (\<lambda>(runs, stats). let bs = incremental_bytes caps presented intended runs
             in (\<lparr>sb_transactions = (if bs \<noteq> [] then [\<lparr>ot_resize = None, ot_bytes = bs\<rparr>] else []), sb_predicted = intended\<rparr>,
                 stats\<lparr>rs_bytes_emitted := length bs\<rparr>))
          (incremental_runs (ps_rows presented) (ps_rows intended) (enumerate 0 candidates) render_stats_default) = Some (batch, stats)"
    using batch unfolding incremental_batch_def Option.bind_eq_Some_conv by blast
  then obtain runs s where r: "incremental_runs (ps_rows presented) (ps_rows intended) (enumerate 0 candidates) render_stats_default = Some (runs, s)"
    and b: "sb_transactions batch = (if incremental_bytes caps presented intended runs \<noteq> []
        then [\<lparr>ot_resize = None, ot_bytes = incremental_bytes caps presented intended runs\<rparr>] else [])" "sb_predicted batch = intended"
    by (auto simp: Let_def)
  define body where "body = incremental_body caps presented intended runs"
  define bs where "bs = incremental_bytes caps presented intended runs"
  have bs: "bs = (if rc_synchronized_output caps \<and> body \<noteq> [] then synchronized_frame intended body else body)"
    by (simp only: bs_def incremental_bytes_def body_def Let_def)
  have bytes: "concat (map ot_bytes (sb_transactions batch)) = bs" using b(1) by (simp add: bs_def)
  have rep: "repairs_rows (ps_geometry intended) (ps_rows presented) (ps_rows intended) runs"
    by (rule incremental_runs_repair [OF fit valid stale c r])
  have silent: "runs = [] \<and> ps_cursor presented = ps_cursor intended \<and> effect_bytes caps presented intended = [] \<and>
      ps_bell_count intended = 0" if "sb_transactions batch = []"
  proof -
    have "bs = []" using that b(1) by (simp add: bs_def split: if_splits)
    then have "body = []" by (simp add: bs synchronized_frame_def split: if_splits)
    then show ?thesis
      by (auto simp: body_def incremental_body_def write_runs_empty write_cursor_nonempty bell_bytes_def split: if_splits)
  qed
  define rest where "rest = effect_bytes caps presented intended @
      (if runs \<noteq> [] \<or> ps_cursor presented \<noteq> ps_cursor intended then write_cursor (ps_cursor intended) else []) @ bell_bytes intended"
  have rest: "body = write_runs (ps_rows intended) runs @ rest"
    unfolding body_def incremental_body_def rest_def by simp
  have closing: "frame_closing caps presented intended (runs \<noteq> [] \<or> ps_cursor presented \<noteq> ps_cursor intended) (rest @ finish)"
    if "finish \<in> {[], write_private_mode 2026 (md_synchronized_output (ps_modes intended))}" for finish
    unfolding frame_closing_def rest_def using that by (intro bexI [of _ finish]) simp_all
  show ?thesis
  proof (cases "rc_synchronized_output caps \<and> body \<noteq> []")
    case True
    then have "bs = (ESC # ''[?2026h'') @ write_runs (ps_rows intended) runs @
        (rest @ write_private_mode 2026 (md_synchronized_output (ps_modes intended)))"
      by (simp add: bs synchronized_frame_def rest)
    then show ?thesis using rep silent b(2) closing unfolding bytes by blast
  next
    case False
    then have "bs = [] @ write_runs (ps_rows intended) runs @ (rest @ [])" by (auto simp: bs rest)
    then show ?thesis using rep silent b(2) closing unfolding bytes by blast
  qed
qed

lemma incremental_runs_unwrapped:
  "list_all (\<lambda>(i, _). i < length ps \<and> i < length qs \<and> \<not> row_wrapped (ps ! i) \<and> \<not> row_wrapped (qs ! i)) cs \<Longrightarrow>
   \<exists>r. incremental_runs ps qs cs stats = Some r"
proof (induction cs arbitrary: stats)
  case (Cons x cs)
  obtain i candidate where x: "x = (i, candidate)" by fastforce
  have rest: "\<exists>r. incremental_runs ps qs cs stats' = Some r" for stats' using Cons by simp
  show ?case
  proof (cases candidate)
    case (Some ab)
    show ?thesis using Cons.prems rest
      by (simp add: x Some Let_def case_prod_unfold del: split_paired_Ex)
  qed (use rest x in simp)
qed simp

text \<open>
  C34: The incremental renderer repairs the screen, provided the damage it is given covers every cell
  at which the presented scene (the shadow of the terminal) differs from the intended one, and both
  scenes have rows of the grid's size. Whenever it then produces a batch, the batch's bytes open (after
  the start of a synchronized frame) with runs that lie within their rows and split no glyph, and
  painting those runs over the presented rows makes every row physically match the intended one; what
  follows the runs are the effects, the cursor if anything moved it, the bells and the end of the
  frame; the predicted shadow is the intended scene; and a batch that writes nothing leaves out no run,
  cursor motion, mode change or bell. (The hypothesis on the damage is the caller's to keep, and it is
  not always kept: \<open>replaced_render_loses_damage\<close> below.)
\<close>
theorem incremental_repairs:
  assumes "rows_fit (ps_geometry intended) (ps_rows presented)" "rows_fit (ps_geometry intended) (ps_rows intended)"
    "0 < grid_cols (ps_geometry intended)"
    and "list_all rect_valid (damage_regions damage)"
    and "stale_cells (ps_geometry intended) (ps_rows presented) (ps_rows intended) \<subseteq>
       (\<Union>r \<in> set (damage_regions damage). rect_cells r)"
    and "incremental_batch caps damage presented intended = Some (batch, stats)"
  shows "\<exists>runs opening closing.
     repairs_rows (ps_geometry intended) (ps_rows presented) (ps_rows intended) runs \<and>
     concat (map ot_bytes (sb_transactions batch)) = opening @ write_runs (ps_rows intended) runs @ closing \<and>
     opening \<in> {[], ESC # ''[?2026h''} \<and> sb_predicted batch = intended \<and>
     frame_closing caps presented intended (runs \<noteq> [] \<or> ps_cursor presented \<noteq> ps_cursor intended) closing \<and>
     (sb_transactions batch = [] \<longrightarrow>
        runs = [] \<and> ps_cursor presented = ps_cursor intended \<and> effect_bytes caps presented intended = [] \<and>
        ps_bell_count intended = 0)"
  by (rule incremental_batch_repairs [OF assms])

theorem incremental_repairs_witness:
  defines "g \<equiv> \<lparr>geom_rows = 1, geom_cols = 2, geom_cell_width_px = 0, geom_cell_height_px = 0\<rparr>"
  defines "p \<equiv> presented_blank g"
  defines "q \<equiv> p\<lparr>ps_rows := [\<lparr>row_cells = [cell_default\<lparr>cell_grapheme := ''a''\<rparr>, cell_default], row_wrapped = False\<rparr>]\<rparr>"
  defines "d \<equiv> SceneRegions [grid_rect_new (grid_point_new 0 0) 1 2]"
  shows "\<exists>batch stats runs opening closing. incremental_batch default_capabilities d p q = Some (batch, stats) \<and>
     repairs_rows g (ps_rows p) (ps_rows q) runs \<and>
     concat (map ot_bytes (sb_transactions batch)) = opening @ write_runs (ps_rows q) runs @ closing"
proof -
  note defs = g_def p_def q_def d_def presented_blank_def presented_with_rows_def blank_rows_def blank_row_def
  have rows: "length (ps_rows p) = 1" "length (ps_rows q) = 1" "\<not> row_wrapped (ps_rows p ! 0)" "\<not> row_wrapped (ps_rows q ! 0)"
    by (simp_all add: defs)
  have "row_candidates (ps_geometry q) [None] (damage_regions d) = Some [Some (0, 2)]"
    by (simp add: defs damage_regions_def clip_grid_rect_def rect_new_defs sat_i32_def widen_rows_def widen_def)
  moreover have "incremental_runs (ps_rows p) (ps_rows q) (enumerate 0 [Some (0, 2)]) render_stats_default \<noteq> None"
    using incremental_runs_unwrapped [of "ps_rows p" "ps_rows q" "enumerate 0 [Some (0, 2)]" render_stats_default] by (simp add: rows)
  ultimately have "incremental_batch default_capabilities d p q \<noteq> None"
    by (simp add: incremental_batch_def rows)
  then obtain batch stats where batch: "incremental_batch default_capabilities d p q = Some (batch, stats)" by auto
  have geo: "ps_geometry q = g" by (simp add: defs)
  have fit: "rows_fit (ps_geometry q) (ps_rows p)" "rows_fit (ps_geometry q) (ps_rows q)" "0 < grid_cols (ps_geometry q)"
    by (simp_all add: defs rows_fit_def)
  have valid: "list_all rect_valid (damage_regions d)"
    by (simp add: defs damage_regions_def rect_new_defs rect_valid_def in_i32_def u16_max_def)
  have stale: "stale_cells (ps_geometry q) (ps_rows p) (ps_rows q) \<subseteq> (\<Union>r \<in> set (damage_regions d). rect_cells r)"
    by (auto simp: defs stale_cells_def damage_regions_def rect_cells_def rect_new_defs sat_i32_def)
  show ?thesis using incremental_repairs [OF fit valid stale batch] batch unfolding geo by blast
qed

section \<open>When a queued render is replaced\<close>

text \<open>
  The scheduler replaces a render that was not started, and nothing makes the next one carry its damage:
  the newer render is given the damage of the newest update only and is computed against the scene that
  was confirmed last. Where the two updates touch different rows, the newer batch leaves the earlier row
  as it was, while the shadow it predicts has it changed.
\<close>

lemma unstarted_render_replaced:
  assumes "render_batch_byte_len b1 supported = Some m" "render_batch_byte_len b2 supported = Some n"
    and "m \<le> maximum_pending_bytes c" "n \<le> maximum_pending_bytes c" "maximum_pending_bytes c \<le> usize_max"
  shows "\<exists>s. enqueue_render b2 u (snd (enqueue_render b1 t (scheduler_new c supported))) = (ReplacedObsoleteRender, s) \<and>
    os_active s = [] \<and> map_option pr_batch (os_pending_render s) = Some b2"
  using assms
  by (simp add: enqueue_render_def enqueue_render_with_accessibility_def scheduler_new_def Let_def
      unstarted_render_index_def sched_pending_bytes_def saturating_add_usize_def
      accept_render_def replace_pending_def replace_active_def note_pending_def)

definition lines_scene :: "bytes \<Rightarrow> bytes \<Rightarrow> Scene_Types.presented_scene" where
  "lines_scene a b = (presented_blank \<lparr>geom_rows = 2, geom_cols = 1, geom_cell_width_px = 0, geom_cell_height_px = 0\<rparr>)
     \<lparr>ps_rows := [\<lparr>row_cells = [cell_default\<lparr>cell_grapheme := a\<rparr>], row_wrapped = False\<rparr>,
                 \<lparr>row_cells = [cell_default\<lparr>cell_grapheme := b\<rparr>], row_wrapped = False\<rparr>]\<rparr>"

definition line_damage :: "int \<Rightarrow> scene_damage" where
  "line_damage i = SceneRegions [grid_rect_new (grid_point_new i 0) 1 1]"

lemma lines_scene_facts:
  "ps_geometry (lines_scene a b) = \<lparr>geom_rows = 2, geom_cols = 1, geom_cell_width_px = 0, geom_cell_height_px = 0\<rparr>"
  "ps_rows (lines_scene a b) =
     [\<lparr>row_cells = [cell_default\<lparr>cell_grapheme := a\<rparr>], row_wrapped = False\<rparr>,
      \<lparr>row_cells = [cell_default\<lparr>cell_grapheme := b\<rparr>], row_wrapped = False\<rparr>]"
  "ps_cursor (lines_scene a b) = ps_cursor (lines_scene c d)"
  by (simp_all add: lines_scene_def presented_blank_def presented_with_rows_def)

lemma line_damage_rects: "(\<Union>r \<in> set (damage_regions (line_damage i)). rect_cells r) = rect_cells (grid_rect_new (grid_point_new i 0) 1 1)"
  by (simp add: line_damage_def damage_regions_def)

lemma stale_lines:
  "stale_cells (ps_geometry (lines_scene [] [])) (ps_rows (lines_scene [] [])) (ps_rows (lines_scene ''a'' [])) \<subseteq>
     rect_cells (grid_rect_new (grid_point_new 0 0) 1 1)"
  "stale_cells (ps_geometry (lines_scene [] [])) (ps_rows (lines_scene ''a'' [])) (ps_rows (lines_scene ''a'' ''b'')) \<subseteq>
     rect_cells (grid_rect_new (grid_point_new 1 0) 1 1)"
  by (auto simp: lines_scene_facts stale_cells_def rect_cells_def rect_new_defs sat_i32_def less_2_cases_iff cells_physically_match_def cell_default_def less_Suc_eq)

lemma lines_candidates:
  "row_candidates (ps_geometry (lines_scene a b)) (replicate (length (ps_rows (lines_scene a b))) None) (damage_regions (line_damage 0)) = Some [Some (0, 1), None]"
  "row_candidates (ps_geometry (lines_scene a b)) (replicate (length (ps_rows (lines_scene a b))) None) (damage_regions (line_damage 1)) = Some [None, Some (0, 1)]"
  by (simp_all add: lines_scene_facts line_damage_def damage_regions_def clip_grid_rect_def rect_new_defs sat_i32_def widen_rows_def widen_def)

lemma incremental_runs_rows:
  "incremental_runs ps qs cs stats = Some (runs, stats') \<Longrightarrow> (i, s, e) \<in> set runs \<Longrightarrow> i \<in> {i. \<exists>x. (i, Some x) \<in> set cs}"
proof (induction cs arbitrary: stats runs stats')
  case (Cons x cs)
  obtain j candidate where x: "x = (j, candidate)" by fastforce
  show ?case
  proof (cases candidate)
    case None
    then show ?thesis using Cons.IH [of stats runs stats'] Cons.prems x by auto
  next
    case (Some ab)
    obtain rs st st' ranges where "incremental_runs ps qs cs st = Some (rs, st')" "runs = map (\<lambda>(s, e). (j, s, e)) ranges @ rs"
      using Cons.prems(1) by (auto simp: x Some Let_def case_prod_unfold split: if_splits)
    then show ?thesis using Cons.IH Cons.prems(2) x Some by (cases ab) (auto, blast)
  qed
qed simp

lemma paint_other_rows: "\<forall>(j, s, e) \<in> set runs. j \<noteq> i \<Longrightarrow> paint_runs qs runs ps ! i = ps ! i"
  unfolding paint_runs_def by (induction runs arbitrary: ps) (auto simp: paint_run_def)

lemma batch_of_candidates:
  assumes "row_candidates (ps_geometry q) (replicate (length (ps_rows q)) None) (damage_regions d) = Some cs"
    and "list_all (\<lambda>(i, _). i < length (ps_rows p) \<and> i < length (ps_rows q) \<and>
       \<not> row_wrapped (ps_rows p ! i) \<and> \<not> row_wrapped (ps_rows q ! i)) (enumerate 0 cs)"
  shows "\<exists>batch stats runs. incremental_batch caps d p q = Some (batch, stats) \<and> sb_predicted batch = q \<and>
    concat (map ot_bytes (sb_transactions batch)) = incremental_bytes caps p q runs \<and>
    (\<forall>(i, _) \<in> set runs. \<exists>x. (i, Some x) \<in> set (enumerate 0 cs))"
proof -
  obtain runs st where r: "incremental_runs (ps_rows p) (ps_rows q) (enumerate 0 cs) render_stats_default = Some (runs, st)"
    using incremental_runs_unwrapped [OF assms(2)] by fastforce
  define bs where "bs = incremental_bytes caps p q runs"
  have "incremental_batch caps d p q = Some (\<lparr>sb_transactions = (if bs \<noteq> [] then [\<lparr>ot_resize = None, ot_bytes = bs\<rparr>] else []),
      sb_predicted = q\<rparr>, st\<lparr>rs_bytes_emitted := length bs\<rparr>)"
    by (simp add: incremental_batch_def assms(1) r Let_def bs_def)
  moreover have "\<forall>(i, _) \<in> set runs. \<exists>x. (i, Some x) \<in> set (enumerate 0 cs)"
    using incremental_runs_rows [OF r] by auto
  ultimately show ?thesis
    by (intro exI [of _ runs] exI conjI) (assumption | simp add: bs_def)+
qed

lemma replaced_render_loses_damage:
  defines "p \<equiv> lines_scene [] []" and "q1 \<equiv> lines_scene ''a'' []" and "q2 \<equiv> lines_scene ''a'' ''b''"
  defines "stale \<equiv> \<lambda>x y. stale_cells (ps_geometry p) (ps_rows x) (ps_rows y)"
    and "damaged \<equiv> \<lambda>d. \<Union>r \<in> set (damage_regions d). rect_cells r"
  shows "\<exists>b1 s1 b2 s2 runs.
     stale p q1 \<subseteq> damaged (line_damage 0) \<and> incremental_batch default_capabilities (line_damage 0) p q1 = Some (b1, s1) \<and>
     stale q1 q2 \<subseteq> damaged (line_damage 1) \<and> incremental_batch default_capabilities (line_damage 1) p q2 = Some (b2, s2) \<and>
     sb_predicted b2 = q2 \<and>
     concat (map ot_bytes (sb_transactions b2)) = incremental_bytes default_capabilities p q2 runs \<and>
     \<not> rows_physically_match (paint_runs (ps_rows q2) runs (ps_rows p)) (ps_rows q2)"
proof -
  obtain b1 s1 where 1: "incremental_batch default_capabilities (line_damage 0) p q1 = Some (b1, s1)"
    using batch_of_candidates [OF lines_candidates(1), of p "''a''" "[]" default_capabilities]
    by (auto simp: q1_def p_def lines_scene_facts)
  obtain b2 s2 runs where 2: "incremental_batch default_capabilities (line_damage 1) p q2 = Some (b2, s2)" "sb_predicted b2 = q2"
      "concat (map ot_bytes (sb_transactions b2)) = incremental_bytes default_capabilities p q2 runs" "\<forall>(i, _) \<in> set runs. i \<noteq> 0"
    using batch_of_candidates [OF lines_candidates(2), of p "''a''" "''b''" default_capabilities]
    by (fastforce simp: q2_def p_def lines_scene_facts)
  have "stale p q1 \<subseteq> damaged (line_damage 0)" "stale q1 q2 \<subseteq> damaged (line_damage 1)"
    unfolding stale_def damaged_def line_damage_rects p_def q1_def q2_def by (rule stale_lines)+
  moreover have "\<not> rows_physically_match (paint_runs (ps_rows q2) runs (ps_rows p)) (ps_rows q2)"
  proof
    assume match: "rows_physically_match (paint_runs (ps_rows q2) runs (ps_rows p)) (ps_rows q2)"
    have "0 < length (ps_rows q2)" by (simp add: q2_def lines_scene_facts)
    then have "list_all2 cells_physically_match (row_cells (paint_runs (ps_rows q2) runs (ps_rows p) ! 0)) (row_cells (ps_rows q2 ! 0))"
      using match list_all2_nthD2 unfolding rows_physically_match_def by fastforce
    moreover have "paint_runs (ps_rows q2) runs (ps_rows p) ! 0 = ps_rows p ! 0"
      by (rule paint_other_rows) (use 2(4) in auto)
    ultimately show False by (simp add: p_def q2_def lines_scene_facts cells_physically_match_def cell_default_def)
  qed
  ultimately show ?thesis using 1 2 by blast
qed
end
