(* ===== verification/Scene_Semantic.thy ===== *)
theory Scene_Semantic
  imports Scene_Render
begin

text \<open>
  The semantic fast path of the renderer (\<^verbatim>\<open>apply_scene_operation\<close> to \<^verbatim>\<open>semantic_batch\<close> of
  \<^verbatim>\<open>presentation.rs\<close>): the operations that the screen reported are replayed on a copy of the
  presented rows while the sequences for them are written, and what is left is repaired cell by cell.
  The lemmas show that no slice is out of range and that a terminal is driven as the copy is.
\<close>

section \<open>Rows and cells moved in place\<close>

definition fallback_i32 :: "nat \<Rightarrow> int" where
  "fallback_i32 n = (if in_i32 (int n) then int n else 2 ^ 31 - 1)"

definition on_slice :: "nat \<Rightarrow> nat \<Rightarrow> ('a list \<Rightarrow> 'a list) \<Rightarrow> 'a list \<Rightarrow> 'a list" where
  "on_slice a b f xs = take a xs @ f (drop a (take b xs)) @ drop b xs"

text \<open>\<^verbatim>\<open>rotate_left\<close> and \<^verbatim>\<open>rotate_right\<close>, with what came around replaced\<close>

definition shift_left :: "nat \<Rightarrow> 'a \<Rightarrow> 'a list \<Rightarrow> 'a list" where
  "shift_left n x xs = (let ys = rotate n xs in take (length ys - n) ys @ replicate n x)"

definition shift_right :: "nat \<Rightarrow> 'a \<Rightarrow> 'a list \<Rightarrow> 'a list" where
  "shift_right n x xs = (let ys = rotate (length xs - n) xs in replicate n x @ drop n ys)"

lemma shift_left_drop: "n \<le> length xs \<Longrightarrow> shift_left n x xs = drop n xs @ replicate n x"
  by (cases "n = length xs") (simp_all add: shift_left_def rotate_drop_take)

lemma shift_right_take: "n \<le> length xs \<Longrightarrow> shift_right n x xs = replicate n x @ take (length xs - n) xs"
  by (cases "n = 0") (simp_all add: shift_right_def rotate_drop_take)

section \<open>Terminal operations replayed on the working copy\<close>

definition exact_region :: "grid_rect \<Rightarrow> terminal_geometry \<Rightarrow> (nat \<times> nat \<times> nat \<times> nat) option" where
  "exact_region r g =
     (if clip_grid_rect r g \<noteq> Some r then None
      else let t = nat (rect_top r); l = nat (rect_left r) in
        Some (t, saturating_add_usize t (gr_rows r), l, saturating_add_usize l (gr_cols r)))"

definition shifted_row :: "nat \<Rightarrow> nat \<Rightarrow> nat \<Rightarrow> bool \<Rightarrow> nat \<Rightarrow> nat option" where
  "shifted_row t b n upward i =
     (if i < t \<or> i \<ge> b then Some i
      else if upward then (if i \<ge> saturating_add_usize t n then Some (i - n) else None)
      else (if i < b - n then Some (i + n) else None))"

definition shift_repair_rows :: "nat \<Rightarrow> nat \<Rightarrow> nat \<Rightarrow> bool \<Rightarrow> grid_rect list \<Rightarrow> grid_rect list" where
  "shift_repair_rows t b n upward repairs =
     concat (map (\<lambda>r. List.map_filter (\<lambda>offset.
         let row = sat_i32 (rect_top r + int offset) in
         if row < 0 then None
         else map_option (\<lambda>i. grid_rect_new (grid_point_new (fallback_i32 i) (rect_left r)) 1 (gr_cols r))
                (shifted_row t b n upward (nat row)))
       [0..<gr_rows r]) repairs)"

definition cell_is_wide :: "cell \<Rightarrow> bool" where
  "cell_is_wide c \<longleftrightarrow> cell_continuation c \<or> 1 < unat (cell_width c)"

definition is_ascii_graphic :: "byte \<Rightarrow> bool" where
  "is_ascii_graphic b \<longleftrightarrow> 0x21 \<le> byte_val b \<and> byte_val b \<le> 0x7E"

text \<open>What an operation leaves: a slice out of range is a panic; a refused operation gives the fast
  path up, whatever it has done.\<close>

datatype 'a attempt = Panicked | Refused | Applied 'a

record semantic_state =
  se_rows :: "row list"
  se_bytes :: bytes
  se_repairs :: "grid_rect list"

definition clear_rows :: "nat list \<Rightarrow> bytes" where
  "clear_rows rs = concat (map (\<lambda>i. write_absolute_cursor i 0 @ ESC # ''[2K'') rs)"

text \<open>Scrolling and deleting lines move rows up; \<open>delete\<close> tells which.\<close>

definition rows_up :: "bool \<Rightarrow> grid_rect \<Rightarrow> nat \<Rightarrow> terminal_geometry \<Rightarrow> semantic_state \<Rightarrow> semantic_state attempt" where
  "rows_up delete region cnt g s =
     (case exact_region region g of
        None \<Rightarrow> Refused
      | Some (t, b, l, e) \<Rightarrow>
          if l \<noteq> 0 \<or> e \<noteq> grid_cols g then Refused
          else let n = min cnt (b - t) in
            if n = 0 then Refused
            else if length (se_rows s) < b then Panicked
            else if delete \<and> list_ex row_wrapped (drop t (take b (se_rows s))) then Refused
            else Applied
              \<lparr>se_rows = on_slice t b (shift_left n (blank_row (grid_cols g))) (se_rows s),
               se_bytes = se_bytes s @ write_vertical_region t b @
                 (if delete then write_absolute_cursor t 0 @ ESC # ''['' @ show_nat n @ ''M'' else ESC # ''['' @ show_nat n @ ''S'') @
                 reset_vertical_region @ (if delete then [] else clear_rows [b - n..<b]),
               se_repairs = shift_repair_rows t b n True (se_repairs s) @
                 [grid_rect_new (grid_point_new (fallback_i32 (b - n)) 0) (try_u16 n) (grid_cols g)]\<rparr>)"

definition rows_down :: "bool \<Rightarrow> grid_rect \<Rightarrow> nat \<Rightarrow> terminal_geometry \<Rightarrow> semantic_state \<Rightarrow> semantic_state attempt" where
  "rows_down ins region cnt g s =
     (case exact_region region g of
        None \<Rightarrow> Refused
      | Some (t, b, l, e) \<Rightarrow>
          if l \<noteq> 0 \<or> e \<noteq> grid_cols g then Refused
          else let n = min cnt (b - t) in
            if n = 0 then Refused
            else if length (se_rows s) < b then Panicked
            else if ins \<and> list_ex row_wrapped (drop t (take b (se_rows s))) then Refused
            else Applied
              \<lparr>se_rows = on_slice t b (shift_right n (blank_row (grid_cols g))) (se_rows s),
               se_bytes = se_bytes s @ write_vertical_region t b @
                 (if ins then write_absolute_cursor t 0 @ ESC # ''['' @ show_nat n @ ''L'' else ESC # ''['' @ show_nat n @ ''T'') @
                 reset_vertical_region @ (if ins then [] else clear_rows [t..<t + n]),
               se_repairs = shift_repair_rows t b n False (se_repairs s) @
                 [grid_rect_new (grid_point_new (fallback_i32 t) 0) (try_u16 n) (grid_cols g)]\<rparr>)"

definition update_cells :: "(cell list \<Rightarrow> cell list) \<Rightarrow> nat \<Rightarrow> row list \<Rightarrow> row list" where
  "update_cells f i rows = rows[i := (rows ! i)\<lparr>row_cells := f (row_cells (rows ! i))\<rparr>]"

definition shift_chars :: "bool \<Rightarrow> grid_rect \<Rightarrow> nat \<Rightarrow> terminal_geometry \<Rightarrow> semantic_state \<Rightarrow> semantic_state attempt" where
  "shift_chars ins region cnt g s =
     (case exact_region region g of
        None \<Rightarrow> Refused
      | Some (t, b, l, e) \<Rightarrow>
          if b \<noteq> t + 1 \<or> e \<noteq> grid_cols g then Refused
          else if length (se_rows s) \<le> t then Panicked
          else let x = se_rows s ! t; n = min cnt (e - l) in
            if row_wrapped x then Refused
            else if length (row_cells x) < e then Panicked
            else if list_ex cell_is_wide (drop l (take e (row_cells x))) then Refused
            else if n = 0 then Refused
            else Applied
              \<lparr>se_rows = update_cells (on_slice l e (if ins then shift_right n cell_default else shift_left n cell_default)) t (se_rows s),
               se_bytes = se_bytes s @ write_absolute_cursor t l @ ESC # ''['' @ show_nat n @ (if ins then ''@'' else ''P''),
               se_repairs = se_repairs s @
                 [grid_rect_new (grid_point_new (fallback_i32 t) (fallback_i32 (if ins then l else e - n))) 1 (try_u16 n)]\<rparr>)"

definition erase_chars :: "grid_rect \<Rightarrow> terminal_geometry \<Rightarrow> semantic_state \<Rightarrow> semantic_state attempt" where
  "erase_chars region g s =
     (case exact_region region g of
        None \<Rightarrow> Refused
      | Some (t, b, l, e) \<Rightarrow>
          if b \<noteq> t + 1 then Refused
          else if length (se_rows s) \<le> t then Panicked
          else if row_wrapped (se_rows s ! t) then Refused
          else if length (row_cells (se_rows s ! t)) < e then Panicked
          else Applied
            \<lparr>se_rows = update_cells (on_slice l e (map (\<lambda>_. cell_default))) t (se_rows s),
             se_bytes = se_bytes s @ write_absolute_cursor t l @ ESC # ''['' @ show_nat (e - l) @ ''X'',
             se_repairs = se_repairs s @ [region]\<rparr>)"

definition char_cell :: "byte \<Rightarrow> cell" where
  "char_cell c = cell_default\<lparr>cell_grapheme := [c]\<rparr>"

text \<open>All bytes of the text are ASCII, so its characters are its bytes.\<close>

definition write_run_at :: "grid_point \<Rightarrow> bytes \<Rightarrow> terminal_geometry \<Rightarrow> semantic_state \<Rightarrow> semantic_state attempt" where
  "write_run_at origin txt g s =
     (if \<not> list_all (\<lambda>b. is_ascii_graphic b \<or> b = CHR '' '') txt \<or> gp_row origin < 0 \<or> gp_col origin < 0 then Refused
      else let region = grid_rect_new origin 1 (try_u16 (length txt)) in
        case exact_region region g of
          None \<Rightarrow> Refused
        | Some (t, b, l, e) \<Rightarrow>
            if length (se_rows s) \<le> t \<or> length (row_cells (se_rows s ! t)) < e then Panicked
            else Applied
              \<lparr>se_rows = update_cells (on_slice l e (\<lambda>cs. map char_cell (take (length cs) txt) @ drop (length txt) cs)) t (se_rows s),
               se_bytes = se_bytes s @ write_absolute_cursor t l @ txt,
               se_repairs = se_repairs s @ [region]\<rparr>)"

definition apply_scene_operation :: "scene_operation \<Rightarrow> terminal_geometry \<Rightarrow> semantic_state \<Rightarrow> semantic_state attempt" where
  "apply_scene_operation op g s =
     (case op of
        SceneScrollUp r n \<Rightarrow> rows_up False r n g s
      | SceneDeleteLines r n \<Rightarrow> rows_up True r n g s
      | SceneScrollDown r n \<Rightarrow> rows_down False r n g s
      | SceneInsertLines r n \<Rightarrow> rows_down True r n g s
      | SceneInsertChars r n \<Rightarrow> shift_chars True r n g s
      | SceneDeleteChars r n \<Rightarrow> shift_chars False r n g s
      | SceneEraseChars r \<Rightarrow> erase_chars r g s
      | SceneWriteRun origin txt \<Rightarrow> write_run_at origin txt g s)"

fun apply_scene_operations :: "scene_operation list \<Rightarrow> terminal_geometry \<Rightarrow> semantic_state \<Rightarrow> semantic_state attempt" where
  "apply_scene_operations [] g s = Applied s"
| "apply_scene_operations (op # ops) g s =
     (case apply_scene_operation op g s of
        Applied s' \<Rightarrow> apply_scene_operations ops g s' | r \<Rightarrow> r)"

section \<open>Repairs\<close>

fun repair_candidates :: "terminal_geometry \<Rightarrow> cell_range option list \<Rightarrow> grid_rect list \<Rightarrow> cell_range option list attempt" where
  "repair_candidates g cs [] = Applied cs"
| "repair_candidates g cs (r # rs) =
     (case exact_region r g of
        None \<Rightarrow> Refused
      | Some (t, b, l, e) \<Rightarrow> if length cs < b then Panicked else repair_candidates g (widen_rows t b l e cs) rs)"

fun repair_rows ::
  "row list \<Rightarrow> row list \<Rightarrow> (nat \<times> cell_range option) list \<Rightarrow> render_stats \<Rightarrow> (run list \<times> row list \<times> render_stats) attempt" where
  "repair_rows rows intended [] stats = Applied ([], rows, stats)"
| "repair_rows rows intended ((i, candidate) # cs) stats =
     (case candidate of
        None \<Rightarrow> repair_rows rows intended cs stats
      | Some (l, e) \<Rightarrow>
          if i \<ge> length rows \<or> i \<ge> length intended then Refused
          else let p = rows ! i; q = intended ! i in
            if row_wrapped p \<noteq> row_wrapped q then Refused
            else if l < e \<and> (length (row_cells p) < e \<or> length (row_cells q) < e) then Panicked
            else
              let ranges = expand_and_merge_cell_ranges p q (changed_cell_ranges p q l e);
                  rows' = rows[i := fold (\<lambda>(s, e). paint_cells s e q) ranges p];
                  stats = stats\<lparr>rs_rows_considered := sat1 (rs_rows_considered stats) 1,
                                rs_cells_compared := sat1 (rs_cells_compared stats) (e - l),
                                rs_cells_emitted := foldl (\<lambda>n (s, e). sat1 n (e - s)) (rs_cells_emitted stats) ranges\<rparr>
              in (case repair_rows rows' intended cs stats of
                    Applied (runs, rows, stats) \<Rightarrow> Applied (map (\<lambda>(s, e). (i, s, e)) ranges @ runs, rows, stats)
                  | Refused \<Rightarrow> Refused | Panicked \<Rightarrow> Panicked))"

definition repair_semantic_regions ::
  "row list \<Rightarrow> Scene_Types.presented_scene \<Rightarrow> grid_rect list \<Rightarrow> (run list \<times> row list \<times> render_stats) attempt" where
  "repair_semantic_regions rows intended regions =
     (case repair_candidates (ps_geometry intended) (replicate (length (ps_rows intended)) None) regions of
        Applied candidates \<Rightarrow> repair_rows rows (ps_rows intended) (enumerate 0 candidates) render_stats_default
      | Refused \<Rightarrow> Refused | Panicked \<Rightarrow> Panicked)"

datatype semantic_attempt = Batch scene_batch render_stats | NotApplicable | Inconsistent | AttemptPanicked

definition semantic_applies :: "scene \<Rightarrow> u64 \<Rightarrow> scene_operation list \<Rightarrow> bool" where
  "semantic_applies sc owner ops \<longleftrightarrow>
     ops \<noteq> [] \<and> sc_overlays sc = [] \<and> sc_images sc = [] \<and>
     (case sc_panes sc of
        [s] \<Rightarrow> ss_id s = owner \<and> ss_origin s = grid_point_new 0 0 \<and> ts_geometry (ss_snapshot s) = sc_geometry sc
      | _ \<Rightarrow> False)"

definition semantic_opening :: bytes where
  "semantic_opening = ESC # ''[?6l'' @ ESC # ''[?69l'' @ ESC # ''[0m'' @ ESC # '']8;;'' @ ST"

definition semantic_bytes ::
  "render_capabilities \<Rightarrow> Scene_Types.presented_scene \<Rightarrow> Scene_Types.presented_scene \<Rightarrow> bytes \<Rightarrow> run list \<Rightarrow> bytes" where
  "semantic_bytes caps presented intended edits runs =
     (let body = edits @ write_runs (ps_rows intended) runs @ effect_bytes caps presented intended @
            write_cursor (ps_cursor intended) @ bell_bytes intended
      in if rc_synchronized_output caps then synchronized_frame intended body else body)"

definition semantic_batch ::
  "render_capabilities \<Rightarrow> scene \<Rightarrow> u64 \<Rightarrow> scene_operation list \<Rightarrow> Scene_Types.presented_scene \<Rightarrow> Scene_Types.presented_scene \<Rightarrow> semantic_attempt" where
  "semantic_batch caps sc owner ops presented intended =
     (if \<not> semantic_applies sc owner ops then NotApplicable
      else case apply_scene_operations ops (ps_geometry intended)
             \<lparr>se_rows = ps_rows presented, se_bytes = semantic_opening, se_repairs = []\<rparr> of
        Panicked \<Rightarrow> AttemptPanicked
      | Refused \<Rightarrow> NotApplicable
      | Applied s \<Rightarrow>
          (case repair_semantic_regions (se_rows s) intended (normalize_grid_regions (se_repairs s)) of
             Panicked \<Rightarrow> AttemptPanicked
           | Refused \<Rightarrow> Inconsistent
           | Applied (runs, rows, stats) \<Rightarrow>
               if \<not> rows_physically_match rows (ps_rows intended) then Inconsistent
               else let bs = semantic_bytes caps presented intended (se_bytes s) runs in
                 Batch \<lparr>sb_transactions = [\<lparr>ot_resize = None, ot_bytes = bs\<rparr>], sb_predicted = intended\<rparr>
                   (stats\<lparr>rs_bytes_emitted := length bs\<rparr>)))"

section \<open>A terminal that reads edits\<close>

text \<open>
  How a terminal takes the sequences with which the operations are written, with its cells taken one
  by one: \<^verbatim>\<open>DECSTBM\<close> sets the scrolling region only when it has at least two rows.
\<close>

record vt =
  vt_rows :: "row list"
  vt_row :: nat
  vt_col :: nat
  vt_top :: nat
  vt_bottom :: nat

definition edit_field :: "bytes list \<Rightarrow> nat \<Rightarrow> nat" where
  "edit_field ps i = (if i < length ps then dec_val (ps ! i) else 0)"

definition vt_edit :: "terminal_geometry \<Rightarrow> byte \<Rightarrow> bytes list \<Rightarrow> vt \<Rightarrow> vt option" where
  "vt_edit g f ps v =
     (let n = edit_field ps 0; row = vt_row v; rows = vt_rows v; inside = (vt_top v \<le> row \<and> row < vt_bottom v) in
      if f = CHR ''H'' then Some (v\<lparr>vt_row := min (n - 1) (grid_rows g - 1), vt_col := min (edit_field ps 1 - 1) (grid_cols g - 1)\<rparr>)
      else if f = CHR ''r'' \<and> length ps = 2 then
        Some (if n < edit_field ps 1 \<and> edit_field ps 1 \<le> grid_rows g
              then v\<lparr>vt_top := n - 1, vt_bottom := edit_field ps 1, vt_row := 0, vt_col := 0\<rparr> else v)
      else if f = CHR ''r'' then Some (v\<lparr>vt_top := 0, vt_bottom := grid_rows g, vt_row := 0, vt_col := 0\<rparr>)
      else if f = CHR ''S'' then Some (v\<lparr>vt_rows := on_slice (vt_top v) (vt_bottom v)
        (\<lambda>rs. shift_left (min n (length rs)) (blank_row (grid_cols g)) rs) rows\<rparr>)
      else if f = CHR ''T'' then Some (v\<lparr>vt_rows := on_slice (vt_top v) (vt_bottom v)
        (\<lambda>rs. shift_right (min n (length rs)) (blank_row (grid_cols g)) rs) rows\<rparr>)
      else if f = CHR ''M'' then Some (if inside then v\<lparr>vt_col := 0, vt_rows := on_slice row (vt_bottom v)
        (\<lambda>rs. shift_left (min n (length rs)) (blank_row (grid_cols g)) rs) rows\<rparr> else v)
      else if f = CHR ''L'' then Some (if inside then v\<lparr>vt_col := 0, vt_rows := on_slice row (vt_bottom v)
        (\<lambda>rs. shift_right (min n (length rs)) (blank_row (grid_cols g)) rs) rows\<rparr> else v)
      else if f = CHR ''@'' then Some (v\<lparr>vt_rows := update_cells (on_slice (vt_col v) (grid_cols g)
        (\<lambda>cs. shift_right (min n (length cs)) cell_default cs)) row rows\<rparr>)
      else if f = CHR ''P'' then Some (v\<lparr>vt_rows := update_cells (on_slice (vt_col v) (grid_cols g)
        (\<lambda>cs. shift_left (min n (length cs)) cell_default cs)) row rows\<rparr>)
      else if f = CHR ''X'' then Some (v\<lparr>vt_rows := update_cells (on_slice (vt_col v) (min (vt_col v + n) (grid_cols g))
        (map (\<lambda>_. cell_default))) row rows\<rparr>)
      else if f = CHR ''K'' \<and> n = 2 then Some (v\<lparr>vt_rows := rows[row := blank_row (grid_cols g)]\<rparr>)
      else None)"

definition vt_print :: "terminal_geometry \<Rightarrow> byte \<Rightarrow> vt \<Rightarrow> vt option" where
  "vt_print g c v =
     (if 32 \<le> byte_val c \<and> byte_val c < 127 \<and> vt_col v < grid_cols g
      then Some (v\<lparr>vt_rows := update_cells (\<lambda>cs. cs[vt_col v := char_cell c]) (vt_row v) (vt_rows v), vt_col := vt_col v + 1\<rparr>)
      else None)"

definition is_parameter :: "byte \<Rightarrow> bool" where
  "is_parameter c \<longleftrightarrow> is_ascii_digit c \<or> c = CHR '';''"

lemma parameter_bytes [simp]:
  "is_parameter (CHR '';'')" "\<not> is_parameter (CHR ''H'')" "\<not> is_parameter (CHR ''r'')" "\<not> is_parameter (CHR ''S'')"
  "\<not> is_parameter (CHR ''T'')" "\<not> is_parameter (CHR ''M'')" "\<not> is_parameter (CHR ''L'')" "\<not> is_parameter (CHR ''@'')"
  "\<not> is_parameter (CHR ''P'')" "\<not> is_parameter (CHR ''X'')" "\<not> is_parameter (CHR ''K'')"
  by (simp_all add: is_parameter_def byte_simps)

function run_edits :: "terminal_geometry \<Rightarrow> bytes \<Rightarrow> vt \<Rightarrow> vt option" where
  "run_edits g s v =
     (case s of
        [] \<Rightarrow> Some v
      | c # rest \<Rightarrow>
          if c \<noteq> ESC then Option.bind (vt_print g c v) (run_edits g rest)
          else if rest = [] \<or> hd rest \<noteq> CHR ''['' then None
          else (case dropWhile is_parameter (tl rest) of
                  [] \<Rightarrow> None
                | f # rest' \<Rightarrow>
                    Option.bind (vt_edit g f (split_on (CHR '';'') (takeWhile is_parameter (tl rest))) v) (run_edits g rest')))"
  by pat_completeness auto

termination
proof (relation "measure (\<lambda>(g, s, v). length s)", goal_cases)
  case (3 g s v c rest f rest')
  have "length rest' < length (tl rest)" by (rule dropWhile_less) (use 3 in simp)
  then show ?case using 3 by simp
qed simp_all

declare run_edits.simps [simp del]

lemma run_edits_Nil [simp]: "run_edits g [] v = Some v"
  by (subst run_edits.simps) simp

lemma run_edits_sequence:
  assumes "list_all is_parameter ps" "\<not> is_parameter f"
  shows "run_edits g (ESC # CHR ''['' # ps @ f # rest) v = Option.bind (vt_edit g f (split_on (CHR '';'') ps) v) (run_edits g rest)"
proof -
  have "takeWhile is_parameter (ps @ f # rest) = ps" "dropWhile is_parameter (ps @ f # rest) = f # rest"
    using span_until [of ps is_parameter f rest] assms by (auto simp: list_all_iff)
  then show ?thesis by (subst run_edits.simps) simp
qed

lemma run_edits_print:
  "c \<noteq> ESC \<Longrightarrow> run_edits g (c # rest) v = Option.bind (vt_print g c v) (run_edits g rest)"
  by (subst run_edits.simps) simp

lemma parameters_nat [simp]: "list_all is_parameter (show_nat n)"
  using show_nat_set [of _ n] by (auto simp: list_all_iff is_parameter_def)

lemma split_nat [simp]:
  "split_on (CHR '';'') (show_nat n) = [show_nat n]" "split_on (CHR '';'') (show_nat m @ CHR '';'' # show_nat n) = [show_nat m, show_nat n]"
  by (simp_all add: split_on_no_sep split_on_append_sep show_nat_no_semicolon)

lemma run_edits_cursor [simp]:
  "run_edits g (write_absolute_cursor r c @ rest) v =
   run_edits g rest (v\<lparr>vt_row := min r (grid_rows g - 1), vt_col := min c (grid_cols g - 1)\<rparr>)"
  using run_edits_sequence [of "show_nat (r + 1) @ CHR '';'' # show_nat (c + 1)" "CHR ''H''" g rest v]
  by (simp add: write_absolute_cursor_def vt_edit_def edit_field_def)

lemma run_edits_region [simp]:
  "run_edits g (write_vertical_region t b @ rest) v =
   run_edits g rest (if t + 1 < b \<and> b \<le> grid_rows g then v\<lparr>vt_top := t, vt_bottom := b, vt_row := 0, vt_col := 0\<rparr> else v)"
  using run_edits_sequence [of "show_nat (t + 1) @ CHR '';'' # show_nat b" "CHR ''r''" g rest v]
  by (simp add: write_vertical_region_def vt_edit_def edit_field_def)

lemma run_edits_reset_region [simp]:
  "run_edits g (reset_vertical_region @ rest) v = run_edits g rest (v\<lparr>vt_top := 0, vt_bottom := grid_rows g, vt_row := 0, vt_col := 0\<rparr>)"
  using run_edits_sequence [of "[]" "CHR ''r''" g rest v]
  by (simp add: reset_vertical_region_def vt_edit_def)

lemma run_edits_count:
  "\<not> is_parameter f \<Longrightarrow>
   run_edits g (ESC # CHR ''['' # show_nat n @ f # rest) v = Option.bind (vt_edit g f [show_nat n] v) (run_edits g rest)"
  using run_edits_sequence [of "show_nat n" f g rest v] by simp


lemma run_edits_erase_line:
  "run_edits g (ESC # ''[2K'' @ rest) v = run_edits g rest (v\<lparr>vt_rows := (vt_rows v)[vt_row v := blank_row (grid_cols g)]\<rparr>)"
proof -
  have "dec_val ''2'' = 2" "is_parameter (CHR ''2'')" by code_simp+
  then show ?thesis
    using run_edits_sequence [of "''2''" "CHR ''K''" g rest v] by (simp add: vt_edit_def edit_field_def)
qed

section \<open>The edits do to a terminal what the replay does to the working copy\<close>

text \<open>The region has two rows at least, where it is scrolled; and no text is longer than any row.\<close>

definition regular_operation :: "scene_operation \<Rightarrow> bool" where
  "regular_operation op \<longleftrightarrow>
     (case op of SceneScrollUp r _ \<Rightarrow> 2 \<le> gr_rows r | SceneScrollDown r _ \<Rightarrow> 2 \<le> gr_rows r
      | SceneInsertLines r _ \<Rightarrow> 2 \<le> gr_rows r | SceneDeleteLines r _ \<Rightarrow> 2 \<le> gr_rows r
      | SceneWriteRun _ txt \<Rightarrow> length txt \<le> u16_max | _ \<Rightarrow> True)"

definition vt_shows :: "terminal_geometry \<Rightarrow> row list \<Rightarrow> vt \<Rightarrow> bool" where
  "vt_shows g rows v \<longleftrightarrow> vt_rows v = rows \<and> vt_top v = 0 \<and> vt_bottom v = grid_rows g"

definition drives :: "terminal_geometry \<Rightarrow> bytes \<Rightarrow> vt \<Rightarrow> vt \<Rightarrow> bool" where
  "drives g edits v v' \<longleftrightarrow> (\<forall>rest. run_edits g (edits @ rest) v = run_edits g rest v')"

lemma drives_append: "drives g a v v' \<Longrightarrow> drives g b v' v'' \<Longrightarrow> drives g (a @ b) v v''"
  by (simp add: drives_def)

lemma drives_run: "drives g a v v' \<Longrightarrow> run_edits g a v = Some v'"
  unfolding drives_def by (metis append_Nil2 run_edits_Nil)

lemma exact_region_spec:
  assumes "exact_region r g = Some (t, b, l, e)"
  shows "t < b" "b \<le> grid_rows g" "l < e" "e \<le> grid_cols g" "b - t = gr_rows r" "e - l = gr_cols r"
    "rect_top r = int t" "rect_left r = int l"
proof -
  have clip: "clip_grid_rect r g = Some r" using assms by (auto simp: exact_region_def split: if_splits)
  define t' where "t' = min (max (rect_top r) 0) (int (grid_rows g))"
  define l' where "l' = min (max (rect_left r) 0) (int (grid_cols g))"
  define b' where "b' = min (max (rect_bottom r) 0) (int (grid_rows g))"
  define e' where "e' = min (max (rect_right r) 0) (int (grid_cols g))"
  have "clip_grid_rect r g =
      (if b' > t' \<and> e' > l' then Some (grid_rect_new (grid_point_new t' l') (nat (b' - t')) (nat (e' - l'))) else None)"
    by (simp only: clip_grid_rect_def Let_def t'_def l'_def b'_def e'_def)
  then have q: "r = grid_rect_new (grid_point_new t' l') (nat (b' - t')) (nat (e' - l'))" "t' < b'" "l' < e'"
    using clip by (simp_all split: if_splits)
  have q': "0 \<le> t'" "0 \<le> l'" "b' \<le> int (grid_rows g)" "e' \<le> int (grid_cols g)"
    by (simp_all only: t'_def l'_def b'_def e'_def)
  note q = q q'
  have parts: "rect_top r = t'" "rect_left r = l'" "gr_rows r = nat (b' - t')" "gr_cols r = nat (e' - l')"
    using arg_cong [OF q(1), of gr_origin] arg_cong [OF q(1), of gr_rows] arg_cong [OF q(1), of gr_cols]
    by (simp_all add: rect_new_defs)
  have bounds: "b' \<le> 65535" "e' \<le> 65535" using q(6,7) geometry_bounds_int [of g] by simp_all
  have out: "t = nat t'" "b = saturating_add_usize t (gr_rows r)" "l = nat l'" "e = saturating_add_usize l (gr_cols r)"
    using assms parts by (auto simp: exact_region_def Let_def split: if_splits)
  have "nat t' + nat (b' - t') = nat b'" "nat l' + nat (e' - l') = nat e'" using q(2-) by simp_all
  moreover have small: "nat b' \<le> usize_max" "nat e' \<le> usize_max" using bounds by (simp_all add: usize_max_def nat_le_iff)
  ultimately have be: "b = nat b'" "e = nat e'"
    using out parts small by (simp_all add: saturating_add_usize_def min.absorb1)
  show "t < b" "b \<le> grid_rows g" "l < e" "e \<le> grid_cols g" "b - t = gr_rows r" "e - l = gr_cols r"
    "rect_top r = int t" "rect_left r = int l"
    using q(2-) be out parts by (auto simp: nat_le_iff nat_diff_distrib)
qed

lemma length_shift [simp]: "n \<le> length xs \<Longrightarrow> length (shift_left n x xs) = length xs"
  "n \<le> length xs \<Longrightarrow> length (shift_right n x xs) = length xs"
  by (simp_all add: shift_left_drop shift_right_take)

lemma set_shift: "n \<le> length xs \<Longrightarrow> set (shift_left n x xs) \<subseteq> insert x (set xs)"
  "n \<le> length xs \<Longrightarrow> set (shift_right n x xs) \<subseteq> insert x (set xs)"
  by (auto simp: shift_left_drop shift_right_take dest: in_set_dropD in_set_takeD)

lemma on_slice_length:
  "a \<le> b \<Longrightarrow> b \<le> length xs \<Longrightarrow> length (f (drop a (take b xs))) = b - a \<Longrightarrow> length (on_slice a b f xs) = length xs"
  by (simp add: on_slice_def)

lemma on_slice_cong: "f (drop a (take b xs)) = f' (drop a (take b xs)) \<Longrightarrow> on_slice a b f xs = on_slice a b f' xs"
  by (simp add: on_slice_def)

lemma on_slice_shift:
  "a \<le> b \<Longrightarrow> b \<le> length xs \<Longrightarrow> n = min cnt (b - a) \<Longrightarrow>
   on_slice a b (\<lambda>ys. shift_left (min n (length ys)) x ys) xs = on_slice a b (shift_left n x) xs"
  "a \<le> b \<Longrightarrow> b \<le> length xs \<Longrightarrow> n = min cnt (b - a) \<Longrightarrow>
   on_slice a b (\<lambda>ys. shift_right (min n (length ys)) x ys) xs = on_slice a b (shift_right n x) xs"
  by (auto intro!: on_slice_cong)

lemma rows_fit_slice:
  assumes fit: "rows_fit g rows" and ab: "a \<le> b" "b \<le> grid_rows g"
    and f: "length (f (drop a (take b rows))) = b - a" "set (f (drop a (take b rows))) \<subseteq> insert (blank_row (grid_cols g)) (set (drop a (take b rows)))"
  shows "rows_fit g (on_slice a b f rows)"
proof -
  have "length (on_slice a b f rows) = grid_rows g" using fit ab f(1) by (simp add: on_slice_length rows_fit_def)
  moreover have "length (row_cells r) = grid_cols g" if "r \<in> set (on_slice a b f rows)" for r
  proof -
    have "r \<in> insert (blank_row (grid_cols g)) (set rows)"
      using that f(2) by (auto simp: on_slice_def dest: in_set_takeD in_set_dropD)
    then show ?thesis using fit by (auto simp: rows_fit_def blank_row_def list_all_iff)
  qed
  ultimately show ?thesis by (simp add: rows_fit_def list_all_iff)
qed

lemma nth_shift:
  "n \<le> b - a \<Longrightarrow> a \<le> b \<Longrightarrow> b \<le> length xs \<Longrightarrow> b - n \<le> i \<Longrightarrow> i < b \<Longrightarrow> on_slice a b (shift_left n x) xs ! i = x"
  "n \<le> b - a \<Longrightarrow> a \<le> b \<Longrightarrow> b \<le> length xs \<Longrightarrow> a \<le> i \<Longrightarrow> i < a + n \<Longrightarrow> on_slice a b (shift_right n x) xs ! i = x"
  by (auto simp: on_slice_def shift_left_drop shift_right_take nth_append)

lemma drives_clear:
  "list_all (\<lambda>i. i < grid_rows g \<and> i < length (vt_rows v) \<and> vt_rows v ! i = blank_row (grid_cols g)) is \<Longrightarrow>
   \<exists>v'. drives g (clear_rows is) v v' \<and> vt_rows v' = vt_rows v \<and> vt_top v' = vt_top v \<and> vt_bottom v' = vt_bottom v"
proof (induction "is" arbitrary: v)
  case Nil
  then show ?case by (auto simp: clear_rows_def drives_def)
next
  case (Cons i "is")
  define v1 where "v1 = v\<lparr>vt_row := i, vt_col := 0\<rparr>"
  have i: "min i (grid_rows g - 1) = i" "(vt_rows v)[i := blank_row (grid_cols g)] = vt_rows v"
    using Cons.prems by (auto simp: list_update_same_conv)
  have one: "drives g (write_absolute_cursor i 0 @ ESC # ''[2K'') v v1"
  proof -
    have "run_edits g (write_absolute_cursor i 0 @ (ESC # ''[2K'' @ rest)) v = run_edits g rest v1" for rest
      unfolding run_edits_cursor run_edits_erase_line using i by (simp add: v1_def)
    then show ?thesis by (simp add: drives_def)
  qed
  obtain v2 where "drives g (clear_rows is) v1 v2" "vt_rows v2 = vt_rows v1" "vt_top v2 = vt_top v1" "vt_bottom v2 = vt_bottom v1"
    using Cons.IH [of v1] Cons.prems by (auto simp: v1_def)
  moreover have "clear_rows (i # is) = (write_absolute_cursor i 0 @ ESC # ''[2K'') @ clear_rows is"
    by (simp add: clear_rows_def)
  ultimately show ?case using drives_append [OF one] by (auto simp: v1_def)
qed

definition simulated :: "terminal_geometry \<Rightarrow> semantic_state \<Rightarrow> semantic_state \<Rightarrow> bool" where
  "simulated g s s' \<longleftrightarrow>
     rows_fit g (se_rows s') \<and>
     (\<exists>edits. se_bytes s' = se_bytes s @ edits \<and>
       (\<forall>v. vt_shows g (se_rows s) v \<longrightarrow> (\<exists>v'. drives g edits v v' \<and> vt_shows g (se_rows s') v')))"

lemma rows_up_simulated:
  assumes fit: "rows_fit g (se_rows s)" and many: "2 \<le> gr_rows r" and op: "rows_up delete r cnt g s = Applied s'"
  shows "simulated g s s'"
proof -
  obtain t b l e where ex: "exact_region r g = Some (t, b, l, e)"
    using op by (auto simp: rows_up_def split: option.splits)
  note R = exact_region_spec [OF ex]
  define n where "n = min cnt (b - t)"
  define new where "new = on_slice t b (shift_left n (blank_row (grid_cols g))) (se_rows s)"
  define edits where "edits = write_vertical_region t b @
     (if delete then write_absolute_cursor t 0 @ ESC # ''['' @ show_nat n @ ''M'' else ESC # ''['' @ show_nat n @ ''S'') @
     reset_vertical_region @ (if delete then [] else clear_rows [b - n..<b])"
  have s': "se_rows s' = new" "se_bytes s' = se_bytes s @ edits"
    using op by (auto simp: rows_up_def ex n_def [symmetric] new_def edits_def Let_def split: if_splits)
  have len: "length (se_rows s) = grid_rows g" using fit by (simp add: rows_fit_def)
  have n: "n \<le> b - t" by (simp add: n_def)
  have new_fit: "rows_fit g new" unfolding new_def
    using fit R(1,2) n len set_shift(1) [of n "drop t (take b (se_rows s))"] by (intro rows_fit_slice) auto
  have new_eq: "on_slice t b (\<lambda>ys. shift_left (min n (length ys)) (blank_row (grid_cols g)) ys) (se_rows s) = new"
    unfolding new_def by (rule on_slice_shift(1) [OF _ _ n_def]) (use R len in auto)
  have "\<exists>v'. drives g edits v v' \<and> vt_shows g new v'" if v: "vt_shows g (se_rows s) v" for v
  proof -
    define v1 where "v1 = v\<lparr>vt_rows := new, vt_top := 0, vt_bottom := grid_rows g, vt_row := 0, vt_col := 0\<rparr>"
    have region: "t + 1 < b \<and> b \<le> grid_rows g" "t \<le> grid_rows g - 1" using R(1,2,5) many by auto
    define head where "head = write_vertical_region t b @
     (if delete then write_absolute_cursor t 0 @ ESC # ''['' @ show_nat n @ ''M'' else ESC # ''['' @ show_nat n @ ''S'') @
     reset_vertical_region"
    have "run_edits g (head @ rest) v = run_edits g rest v1" for rest
      using region v new_eq R(1)
      by (simp add: head_def run_edits_count vt_edit_def edit_field_def v1_def vt_shows_def min.absorb1)
    then have head: "drives g head v v1" by (simp add: drives_def)
    have "list_all (\<lambda>i. i < grid_rows g \<and> i < length (vt_rows v1) \<and> vt_rows v1 ! i = blank_row (grid_cols g)) [b - n..<b]"
      using R(1,2) n len new_fit nth_shift(1) [of n b t "se_rows s"] by (auto simp: list_all_iff v1_def new_def rows_fit_def)
    then obtain v2 where tail: "drives g (clear_rows [b - n..<b]) v1 v2" "vt_rows v2 = new" "vt_top v2 = 0" "vt_bottom v2 = grid_rows g"
      using drives_clear [of g v1] by (auto simp: v1_def)
    show ?thesis
    proof (cases delete)
      case True
      then show ?thesis using head by (auto simp: edits_def head_def vt_shows_def v1_def)
    next
      case False
      have "drives g edits v v2" using drives_append [OF head tail(1)] False by (simp add: edits_def head_def)
      then show ?thesis using tail by (auto simp: vt_shows_def)
    qed
  qed
  then show ?thesis using s' new_fit by (auto simp: simulated_def)
qed

lemma rows_down_simulated:
  assumes fit: "rows_fit g (se_rows s)" and many: "2 \<le> gr_rows r" and op: "rows_down ins r cnt g s = Applied s'"
  shows "simulated g s s'"
proof -
  obtain t b l e where ex: "exact_region r g = Some (t, b, l, e)"
    using op by (auto simp: rows_down_def split: option.splits)
  note R = exact_region_spec [OF ex]
  define n where "n = min cnt (b - t)"
  define new where "new = on_slice t b (shift_right n (blank_row (grid_cols g))) (se_rows s)"
  define edits where "edits = write_vertical_region t b @
     (if ins then write_absolute_cursor t 0 @ ESC # ''['' @ show_nat n @ ''L'' else ESC # ''['' @ show_nat n @ ''T'') @
     reset_vertical_region @ (if ins then [] else clear_rows [t..<t + n])"
  have s': "se_rows s' = new" "se_bytes s' = se_bytes s @ edits"
    using op by (auto simp: rows_down_def ex n_def [symmetric] new_def edits_def Let_def split: if_splits)
  have len: "length (se_rows s) = grid_rows g" using fit by (simp add: rows_fit_def)
  have n: "n \<le> b - t" by (simp add: n_def)
  have new_fit: "rows_fit g new" unfolding new_def
    using fit R(1,2) n len set_shift(2) [of n "drop t (take b (se_rows s))"] by (intro rows_fit_slice) auto
  have new_eq: "on_slice t b (\<lambda>ys. shift_right (min n (length ys)) (blank_row (grid_cols g)) ys) (se_rows s) = new"
    unfolding new_def by (rule on_slice_shift(2) [OF _ _ n_def]) (use R len in auto)
  have "\<exists>v'. drives g edits v v' \<and> vt_shows g new v'" if v: "vt_shows g (se_rows s) v" for v
  proof -
    define v1 where "v1 = v\<lparr>vt_rows := new, vt_top := 0, vt_bottom := grid_rows g, vt_row := 0, vt_col := 0\<rparr>"
    have region: "t + 1 < b \<and> b \<le> grid_rows g" "t \<le> grid_rows g - 1" using R(1,2,5) many by auto
    define head where "head = write_vertical_region t b @
     (if ins then write_absolute_cursor t 0 @ ESC # ''['' @ show_nat n @ ''L'' else ESC # ''['' @ show_nat n @ ''T'') @
     reset_vertical_region"
    have "run_edits g (head @ rest) v = run_edits g rest v1" for rest
      using region v new_eq R(1)
      by (simp add: head_def run_edits_count vt_edit_def edit_field_def v1_def vt_shows_def min.absorb1)
    then have head: "drives g head v v1" by (simp add: drives_def)
    have "list_all (\<lambda>i. i < grid_rows g \<and> i < length (vt_rows v1) \<and> vt_rows v1 ! i = blank_row (grid_cols g)) [t..<t + n]"
      using R(1,2) n len new_fit nth_shift(2) [of n b t "se_rows s"] by (auto simp: list_all_iff v1_def new_def rows_fit_def)
    then obtain v2 where tail: "drives g (clear_rows [t..<t + n]) v1 v2" "vt_rows v2 = new" "vt_top v2 = 0" "vt_bottom v2 = grid_rows g"
      using drives_clear [of g v1] by (auto simp: v1_def)
    show ?thesis
    proof (cases ins)
      case True
      then show ?thesis using head by (auto simp: edits_def head_def vt_shows_def v1_def)
    next
      case False
      have "drives g edits v v2" using drives_append [OF head tail(1)] False by (simp add: edits_def head_def)
      then show ?thesis using tail by (auto simp: vt_shows_def)
    qed
  qed
  then show ?thesis using s' new_fit by (auto simp: simulated_def)
qed

lemma update_cells_cong:
  "f (row_cells (rows ! i)) = f' (row_cells (rows ! i)) \<Longrightarrow> update_cells f i rows = update_cells f' i rows"
  by (simp add: update_cells_def)

lemma update_cells_fit:
  assumes "rows_fit g rows" "i < grid_rows g" "length (f (row_cells (rows ! i))) = grid_cols g"
  shows "rows_fit g (update_cells f i rows)"
  using assms by (auto simp: rows_fit_def update_cells_def list_all_length nth_list_update)

lemma row_length: "rows_fit g rows \<Longrightarrow> i < grid_rows g \<Longrightarrow> length (row_cells (rows ! i)) = grid_cols g"
  by (auto simp: rows_fit_def list_all_length)

text \<open>An operation on the cells of one row, written at the position \<open>(t, l)\<close>\<close>

lemma row_operation_simulated:
  assumes fit: "rows_fit g (se_rows s)" and tl: "t < grid_rows g" "l < grid_cols g"
    and s': "se_rows s' = update_cells f t (se_rows s)" "se_bytes s' = se_bytes s @ write_absolute_cursor t l @ tail"
    and f: "length (f (row_cells (se_rows s ! t))) = grid_cols g"
    and tail: "\<And>v. vt_rows v = se_rows s \<Longrightarrow> vt_row v = t \<Longrightarrow> vt_col v = l \<Longrightarrow>
      \<exists>c. drives g tail v (v\<lparr>vt_rows := update_cells f t (se_rows s), vt_col := c\<rparr>)"
  shows "simulated g s s'"
proof -
  have "\<exists>v'. drives g (write_absolute_cursor t l @ tail) v v' \<and> vt_shows g (se_rows s') v'" if v: "vt_shows g (se_rows s) v" for v
  proof -
    define v1 where "v1 = v\<lparr>vt_row := t, vt_col := l\<rparr>"
    have "min t (grid_rows g - 1) = t" "min l (grid_cols g - 1) = l" using tl by auto
    then have "drives g (write_absolute_cursor t l) v v1" unfolding drives_def run_edits_cursor v1_def by (simp only:) simp
    moreover obtain c where "drives g tail v1 (v1\<lparr>vt_rows := update_cells f t (se_rows s), vt_col := c\<rparr>)"
      using tail [of v1] v by (auto simp: v1_def vt_shows_def)
    ultimately show ?thesis using drives_append v s' by (fastforce simp: vt_shows_def v1_def)
  qed
  then show ?thesis using s' update_cells_fit [where f = f and i = t, OF fit tl(1) f] by (auto simp: simulated_def)
qed

lemma drives_edit:
  "\<not> is_parameter f \<Longrightarrow> vt_edit g f [show_nat n] v = Some v' \<Longrightarrow> drives g (ESC # ''['' @ show_nat n @ [f]) v v'"
  by (simp add: drives_def run_edits_count)

lemma shift_chars_simulated:
  assumes fit: "rows_fit g (se_rows s)" and op: "shift_chars ins r cnt g s = Applied s'"
  shows "simulated g s s'"
proof -
  obtain t b l e where ex: "exact_region r g = Some (t, b, l, e)"
    using op by (auto simp: shift_chars_def split: option.splits)
  note R = exact_region_spec [OF ex]
  define n where "n = min cnt (e - l)"
  define sh where "sh = (if ins then shift_right n cell_default else shift_left n cell_default)"
  have e: "e = grid_cols g" and s': "se_rows s' = update_cells (on_slice l e sh) t (se_rows s)"
      "se_bytes s' = se_bytes s @ write_absolute_cursor t l @ (ESC # ''['' @ show_nat n @ [if ins then CHR ''@'' else CHR ''P''])"
    using op by (auto simp: shift_chars_def ex n_def sh_def Let_def split: if_splits)
  have t: "t < grid_rows g" using R(1,2) by simp
  note len = row_length [OF fit t]
  have n: "n \<le> e - l" by (simp add: n_def)
  have sh_len: "length (sh (drop l (take e (row_cells (se_rows s ! t))))) = e - l"
    using n R(3) len e by (simp add: sh_def)
  show ?thesis
  proof (rule row_operation_simulated [OF fit t _ s'])
    show "l < grid_cols g" using R(3,4) by simp
    show "length (on_slice l e sh (row_cells (se_rows s ! t))) = grid_cols g"
      using on_slice_length [where f = sh, OF _ _ sh_len] len R(3) e by simp
    fix v :: vt
    assume v: "vt_rows v = se_rows s" "vt_row v = t" "vt_col v = l"
    have "update_cells (on_slice l e (\<lambda>cs. shift_right (min n (length cs)) cell_default cs)) t (se_rows s) =
        update_cells (on_slice l e (shift_right n cell_default)) t (se_rows s)"
      "update_cells (on_slice l e (\<lambda>cs. shift_left (min n (length cs)) cell_default cs)) t (se_rows s) =
        update_cells (on_slice l e (shift_left n cell_default)) t (se_rows s)"
      using on_slice_shift [OF _ _ n_def, of "row_cells (se_rows s ! t)"] R(3) len e by (intro update_cells_cong; simp)+
    then have "vt_edit g (if ins then CHR ''@'' else CHR ''P'') [show_nat n] v =
        Some (v\<lparr>vt_rows := update_cells (on_slice l e sh) t (se_rows s)\<rparr>)"
      using v e by (simp add: vt_edit_def edit_field_def sh_def)
    then have "drives g (ESC # ''['' @ show_nat n @ [if ins then CHR ''@'' else CHR ''P'']) v
        (v\<lparr>vt_rows := update_cells (on_slice l e sh) t (se_rows s), vt_col := l\<rparr>)"
      by (intro drives_edit) (use v in simp_all)
    then show "\<exists>c. drives g (ESC # ''['' @ show_nat n @ [if ins then CHR ''@'' else CHR ''P'']) v
        (v\<lparr>vt_rows := update_cells (on_slice l e sh) t (se_rows s), vt_col := c\<rparr>)" by blast
  qed
qed

lemma erase_chars_simulated:
  assumes fit: "rows_fit g (se_rows s)" and op: "erase_chars r g s = Applied s'"
  shows "simulated g s s'"
proof -
  obtain t b l e where ex: "exact_region r g = Some (t, b, l, e)"
    using op by (auto simp: erase_chars_def split: option.splits)
  note R = exact_region_spec [OF ex]
  have s': "se_rows s' = update_cells (on_slice l e (map (\<lambda>_. cell_default))) t (se_rows s)"
      "se_bytes s' = se_bytes s @ write_absolute_cursor t l @ (ESC # ''['' @ show_nat (e - l) @ ''X'')"
    using op by (auto simp: erase_chars_def ex split: if_splits)
  have t: "t < grid_rows g" using R(1,2) by simp
  note len = row_length [OF fit t]
  show ?thesis
  proof (rule row_operation_simulated [OF fit t _ s'])
    show "l < grid_cols g" using R(3,4) by simp
    show "length (on_slice l e (map (\<lambda>_. cell_default)) (row_cells (se_rows s ! t))) = grid_cols g"
      using R(3,4) len by (subst on_slice_length) simp_all
    fix v :: vt
    assume v: "vt_rows v = se_rows s" "vt_row v = t" "vt_col v = l"
    have "min (l + (e - l)) (grid_cols g) = e" using R(3,4) by simp
    then have "vt_edit g (CHR ''X'') [show_nat (e - l)] v =
        Some (v\<lparr>vt_rows := update_cells (on_slice l e (map (\<lambda>_. cell_default))) t (se_rows s), vt_col := l\<rparr>)"
      using v by (simp add: vt_edit_def edit_field_def)
    then show "\<exists>c. drives g (ESC # ''['' @ show_nat (e - l) @ ''X'') v
        (v\<lparr>vt_rows := update_cells (on_slice l e (map (\<lambda>_. cell_default))) t (se_rows s), vt_col := c\<rparr>)"
      by (intro exI drives_edit) simp_all
  qed
qed

definition put_text :: "nat \<Rightarrow> bytes \<Rightarrow> cell list \<Rightarrow> cell list" where
  "put_text c txt cs = take c cs @ map char_cell txt @ drop (c + length txt) cs"

lemma put_text_Cons: "c + length (x # txt) \<le> length cs \<Longrightarrow> put_text c (x # txt) cs = put_text (c + 1) txt (cs[c := char_cell x])"
  by (simp add: put_text_def take_Suc_conv_app_nth take_update_swap list_update_append)

lemma update_cells_twice: "update_cells f i (update_cells f' i rows) = update_cells (\<lambda>cs. f (f' cs)) i rows"
  by (cases "i < length rows") (simp_all add: update_cells_def list_update_beyond)

lemma run_edits_text:
  "list_all (\<lambda>b. is_ascii_graphic b \<or> b = CHR '' '') ws \<Longrightarrow> rows_fit g (vt_rows v) \<Longrightarrow> vt_row v < grid_rows g \<Longrightarrow>
   vt_col v + length ws \<le> grid_cols g \<Longrightarrow>
   run_edits g (ws @ rest) v =
     run_edits g rest (v\<lparr>vt_rows := update_cells (put_text (vt_col v) ws) (vt_row v) (vt_rows v), vt_col := vt_col v + length ws\<rparr>)"
proof (induction ws arbitrary: v)
  case Nil
  then show ?case by (simp add: put_text_def update_cells_def)
next
  case (Cons x ws)
  define v1 where "v1 = v\<lparr>vt_rows := update_cells (\<lambda>cs. cs[vt_col v := char_cell x]) (vt_row v) (vt_rows v), vt_col := vt_col v + 1\<rparr>"
  note len = row_length [OF Cons.prems(2,3)]
  have "32 \<le> byte_val x" "byte_val x < 127" using Cons.prems(1) by (auto simp: is_ascii_graphic_def byte_val_def)
  then have "vt_print g x v = Some v1" "x \<noteq> ESC"
    using Cons.prems(4) by (auto simp: vt_print_def v1_def byte_val_def)
  then have "run_edits g ((x # ws) @ rest) v = run_edits g (ws @ rest) v1" by (simp add: run_edits_print)
  also have "\<dots> = run_edits g rest (v1\<lparr>vt_rows := update_cells (put_text (vt_col v1) ws) (vt_row v1) (vt_rows v1), vt_col := vt_col v1 + length ws\<rparr>)"
    using Cons.prems len by (intro Cons.IH) (auto simp: v1_def intro: update_cells_fit)
  also have "update_cells (put_text (vt_col v1) ws) (vt_row v1) (vt_rows v1) =
      update_cells (put_text (vt_col v) (x # ws)) (vt_row v) (vt_rows v)"
    using put_text_Cons [of "vt_col v" x ws "row_cells (vt_rows v ! vt_row v)"] Cons.prems(4) len
    by (simp add: v1_def update_cells_twice) (rule update_cells_cong, simp)
  finally show ?case by (simp add: v1_def)
qed

lemma write_run_simulated:
  assumes fit: "rows_fit g (se_rows s)" and size: "length txt \<le> u16_max" and op: "write_run_at origin txt g s = Applied s'"
  shows "simulated g s s'"
proof -
  have ascii: "list_all (\<lambda>b. is_ascii_graphic b \<or> b = CHR '' '') txt"
    using op by (auto simp: write_run_at_def split: if_splits)
  define region where "region = grid_rect_new origin 1 (try_u16 (length txt))"
  obtain t b l e where ex: "exact_region region g = Some (t, b, l, e)"
    using op by (auto simp: write_run_at_def region_def Let_def split: option.splits if_splits)
  note R = exact_region_spec [OF ex]
  have el: "e - l = length txt" using R(6) size by (simp add: region_def rect_new_defs try_u16_def)
  define fill where "fill = (\<lambda>cs. map char_cell (take (length cs) txt) @ drop (length txt) cs)"
  have s': "se_rows s' = update_cells (on_slice l e fill) t (se_rows s)" "se_bytes s' = se_bytes s @ write_absolute_cursor t l @ txt"
    using op ex by (auto simp: write_run_at_def fill_def region_def Let_def split: if_splits)
  have t: "t < grid_rows g" using R(1,2) by simp
  note len = row_length [OF fit t]
  have le: "l + length txt = e" using el R(3) by simp
  have fill: "on_slice l e fill (row_cells (se_rows s ! t)) = put_text l txt (row_cells (se_rows s ! t))"
    using le R(3,4) len by (simp add: on_slice_def fill_def put_text_def)
  then have eq: "update_cells (on_slice l e fill) t (se_rows s) = update_cells (put_text l txt) t (se_rows s)"
    by (rule update_cells_cong)
  show ?thesis
  proof (rule row_operation_simulated [OF fit t _ s'])
    show "l < grid_cols g" using R(3,4) by simp
    show "length (on_slice l e fill (row_cells (se_rows s ! t))) = grid_cols g"
      unfolding fill using le R(4) len by (simp add: put_text_def)
    fix v :: vt
    assume v: "vt_rows v = se_rows s" "vt_row v = t" "vt_col v = l"
    have "drives g txt v (v\<lparr>vt_rows := update_cells (put_text l txt) t (se_rows s), vt_col := l + length txt\<rparr>)"
      unfolding drives_def using run_edits_text [OF ascii, of g v] v fit t le R(4) by simp
    then show "\<exists>c. drives g txt v (v\<lparr>vt_rows := update_cells (on_slice l e fill) t (se_rows s), vt_col := c\<rparr>)"
      unfolding eq by blast
  qed
qed

lemma operation_simulated:
  assumes "rows_fit g (se_rows s)" "regular_operation op" "apply_scene_operation op g s = Applied s'"
  shows "simulated g s s'"
  using assms
  by (cases op) (auto simp: apply_scene_operation_def regular_operation_def
      intro: rows_up_simulated rows_down_simulated shift_chars_simulated erase_chars_simulated write_run_simulated)

lemma simulated_refl: "rows_fit g (se_rows s) \<Longrightarrow> simulated g s s"
  unfolding simulated_def drives_def by (intro conjI exI [of _ "[]"]) auto

lemma simulated_trans: "simulated g a b \<Longrightarrow> simulated g b c \<Longrightarrow> simulated g a c"
proof -
  assume ab: "simulated g a b" and bc: "simulated g b c"
  obtain x where x: "se_bytes b = se_bytes a @ x" "\<And>v. vt_shows g (se_rows a) v \<Longrightarrow> \<exists>v'. drives g x v v' \<and> vt_shows g (se_rows b) v'"
    using ab by (auto simp: simulated_def)
  obtain y where y: "se_bytes c = se_bytes b @ y" "\<And>v. vt_shows g (se_rows b) v \<Longrightarrow> \<exists>v'. drives g y v v' \<and> vt_shows g (se_rows c) v'"
    using bc by (auto simp: simulated_def)
  have "\<exists>v'. drives g (x @ y) v v' \<and> vt_shows g (se_rows c) v'" if "vt_shows g (se_rows a) v" for v
    using x(2) [OF that] y(2) drives_append by metis
  then show ?thesis using x(1) y(1) bc by (auto simp: simulated_def)
qed

lemma operations_simulated:
  "rows_fit g (se_rows s) \<Longrightarrow> list_all regular_operation ops \<Longrightarrow> apply_scene_operations ops g s = Applied s' \<Longrightarrow> simulated g s s'"
proof (induction ops arbitrary: s)
  case (Cons op ops)
  obtain s1 where s1: "apply_scene_operation op g s = Applied s1" "apply_scene_operations ops g s1 = Applied s'"
    using Cons.prems(3) by (auto split: attempt.splits)
  have one: "simulated g s s1" using Cons.prems s1(1) by (intro operation_simulated) auto
  then have "simulated g s1 s'" using Cons.IH [OF _ _ s1(2)] Cons.prems(2) by (auto simp: simulated_def)
  then show ?case using one simulated_trans by blast
qed (use simulated_refl in auto)

section \<open>No operation leaves the screen\<close>

definition safe_attempt :: "('a \<Rightarrow> bool) \<Rightarrow> 'a attempt \<Rightarrow> bool" where
  "safe_attempt P r \<longleftrightarrow> (case r of Panicked \<Rightarrow> False | Refused \<Rightarrow> True | Applied x \<Rightarrow> P x)"

lemma safe_attempt_simps [simp]: "\<not> safe_attempt P Panicked" "safe_attempt P Refused" "safe_attempt P (Applied x) = P x"
  by (simp_all add: safe_attempt_def)

lemma not_panicked: "safe_attempt P r \<Longrightarrow> r \<noteq> Panicked"
  by auto

lemma rows_move_safe:
  assumes fit: "rows_fit g (se_rows s)"
  shows "safe_attempt (\<lambda>s. rows_fit g (se_rows s)) (rows_up d r cnt g s)" "safe_attempt (\<lambda>s. rows_fit g (se_rows s)) (rows_down d r cnt g s)"
proof -
  have moved: "b \<le> length (se_rows s)"
    "rows_fit g (on_slice t b (shift_left (min cnt (b - t)) (blank_row (grid_cols g))) (se_rows s))"
    "rows_fit g (on_slice t b (shift_right (min cnt (b - t)) (blank_row (grid_cols g))) (se_rows s))"
    if ex: "exact_region r g = Some (t, b, l, e)" for t b l e
  proof -
    note R = exact_region_spec [OF ex]
    show b: "b \<le> length (se_rows s)" using R fit by (simp add: rows_fit_def)
    have n: "min cnt (b - t) \<le> length (drop t (take b (se_rows s)))" using b by simp
    show "rows_fit g (on_slice t b (shift_left (min cnt (b - t)) (blank_row (grid_cols g))) (se_rows s))"
      using R b set_shift(1) [OF n] by (intro rows_fit_slice [OF fit]) simp_all
    show "rows_fit g (on_slice t b (shift_right (min cnt (b - t)) (blank_row (grid_cols g))) (se_rows s))"
      using R b set_shift(2) [OF n] by (intro rows_fit_slice [OF fit]) simp_all
  qed
  show "safe_attempt (\<lambda>s. rows_fit g (se_rows s)) (rows_up d r cnt g s)" "safe_attempt (\<lambda>s. rows_fit g (se_rows s)) (rows_down d r cnt g s)"
    using moved by (fastforce simp: rows_up_def rows_down_def Let_def split: option.splits)+
qed

lemma cells_move_safe:
  assumes fit: "rows_fit g (se_rows s)" and ex: "exact_region r g = Some (t, b, l, e)"
  shows "t < length (se_rows s)" "e \<le> length (row_cells (se_rows s ! t))"
    and "(\<And>cs. length cs = e - l \<Longrightarrow> length (f cs) = e - l) \<Longrightarrow> rows_fit g (update_cells (on_slice l e f) t (se_rows s))"
proof -
  note R = exact_region_spec [OF ex]
  have t: "t < grid_rows g" using R by simp
  note len = row_length [OF fit t]
  show "t < length (se_rows s)" "e \<le> length (row_cells (se_rows s ! t))" using t R fit len by (simp_all add: rows_fit_def)
  assume "\<And>cs. length cs = e - l \<Longrightarrow> length (f cs) = e - l"
  then have "length (f (drop l (take e (row_cells (se_rows s ! t))))) = e - l" using R len by simp
  then have "length (on_slice l e f (row_cells (se_rows s ! t))) = grid_cols g"
    using on_slice_length [where f = f and a = l and b = e] R len by simp
  then show "rows_fit g (update_cells (on_slice l e f) t (se_rows s))" by (intro update_cells_fit [OF fit t])
qed

lemma operation_safe:
  assumes fit: "rows_fit g (se_rows s)"
  shows "safe_attempt (\<lambda>s. rows_fit g (se_rows s)) (apply_scene_operation op g s)"
proof -
  note safe = cells_move_safe [OF fit]
  have shift: "safe_attempt (\<lambda>s. rows_fit g (se_rows s)) (shift_chars ins r cnt g s)" for ins r cnt
  proof (cases "exact_region r g")
    case (Some q)
    obtain t b l e where q: "q = (t, b, l, e)" by (cases q)
    have "rows_fit g (update_cells (on_slice l e (shift_right (min cnt (e - l)) cell_default)) t (se_rows s))"
      "rows_fit g (update_cells (on_slice l e (shift_left (min cnt (e - l)) cell_default)) t (se_rows s))"
      by (rule safe(3) [OF Some [unfolded q]]; simp)+
    then show ?thesis using safe(1,2) [OF Some [unfolded q]] by (auto simp: shift_chars_def Some q Let_def)
  qed (simp add: shift_chars_def)
  have erase: "safe_attempt (\<lambda>s. rows_fit g (se_rows s)) (erase_chars r g s)" for r
  proof (cases "exact_region r g")
    case (Some q)
    obtain t b l e where q: "q = (t, b, l, e)" by (cases q)
    have "rows_fit g (update_cells (on_slice l e (map (\<lambda>_. cell_default))) t (se_rows s))"
      by (rule safe(3) [OF Some [unfolded q]]) simp
    then show ?thesis using safe(1,2) [OF Some [unfolded q]] by (auto simp: erase_chars_def Some q)
  qed (simp add: erase_chars_def)
  have run: "safe_attempt (\<lambda>s. rows_fit g (se_rows s)) (write_run_at origin ws g s)" for origin ws
  proof (cases "exact_region (grid_rect_new origin 1 (try_u16 (length ws))) g")
    case (Some q)
    obtain t b l e where q: "q = (t, b, l, e)" by (cases q)
    have "rows_fit g (update_cells (on_slice l e (\<lambda>cs. map char_cell (take (length cs) ws) @ drop (length ws) cs)) t (se_rows s))"
      by (rule safe(3) [OF Some [unfolded q]]) simp
    then show ?thesis using safe(1,2) [OF Some [unfolded q]] Some by (auto simp: write_run_at_def q Let_def)
  qed (simp add: write_run_at_def)
  show ?thesis
    by (cases op) (simp_all add: apply_scene_operation_def rows_move_safe [OF fit] shift erase run)
qed

lemma operations_safe:
  "rows_fit g (se_rows s) \<Longrightarrow> safe_attempt (\<lambda>s. rows_fit g (se_rows s)) (apply_scene_operations ops g s)"
proof (induction ops arbitrary: s)
  case (Cons op ops)
  then show ?case using operation_safe [OF Cons.prems, of op] by (auto split: attempt.splits)
qed simp

abbreviation candidate_within :: "nat \<Rightarrow> cell_range option \<Rightarrow> bool" where
  "candidate_within n c \<equiv> (case c of None \<Rightarrow> True | Some (l, e) \<Rightarrow> l \<le> e \<and> e \<le> n)"

lemma widen_within: "candidate_within n c \<Longrightarrow> l \<le> e \<Longrightarrow> e \<le> n \<Longrightarrow> candidate_within n (widen l e c)"
  by (auto simp: widen_def split: option.splits)

lemma repair_candidates_safe:
  "length cs = grid_rows g \<Longrightarrow> list_all (candidate_within (grid_cols g)) cs \<Longrightarrow>
   safe_attempt (\<lambda>cs. length cs = grid_rows g \<and> list_all (candidate_within (grid_cols g)) cs) (repair_candidates g cs rs)"
proof (induction rs arbitrary: cs)
  case (Cons r rs)
  show ?case
  proof (cases "exact_region r g")
    case (Some q)
    obtain t b l e where q: "q = (t, b, l, e)" by (cases q)
    note R = exact_region_spec [OF Some [unfolded q]]
    have "list_all (candidate_within (grid_cols g)) (widen_rows t b l e cs)"
      using Cons.prems(2) R widen_within [where l = l and e = e and n = "grid_cols g"]
      by (simp add: list_all_length widen_rows_nth)
    then have "safe_attempt (\<lambda>cs. length cs = grid_rows g \<and> list_all (candidate_within (grid_cols g)) cs)
        (repair_candidates g (widen_rows t b l e cs) rs)"
      using Cons.prems(1) by (intro Cons.IH) (simp_all add: widen_rows_nth)
    then show ?thesis using R Cons.prems(1) by (simp add: Some q)
  qed simp
qed simp

lemma repair_rows_safe:
  assumes q: "rows_of_width n intended"
  shows "rows_of_width n rows \<Longrightarrow> list_all (\<lambda>(i, c). candidate_within n c) cs \<Longrightarrow> safe_attempt (\<lambda>_. True) (repair_rows rows intended cs stats)"
proof (induction cs arbitrary: rows stats)
  case (Cons x cs)
  obtain i candidate where x: "x = (i, candidate)" by fastforce
  show ?case
  proof (cases "candidate = None \<or> i \<ge> length rows \<or> i \<ge> length intended")
    case True
    then show ?thesis using Cons.IH [OF Cons.prems(1)] Cons.prems(2) by (auto simp: x split: option.splits)
  next
    case False
    then obtain l e where le: "candidate = Some (l, e)" "l \<le> e" "e \<le> n" using Cons.prems(2) by (auto simp: x)
    define ranges where "ranges = expand_and_merge_cell_ranges (rows ! i) (intended ! i) (changed_cell_ranges (rows ! i) (intended ! i) l e)"
    have len: "length (row_cells (rows ! i)) = n" "length (row_cells (intended ! i)) = n"
      using False q Cons.prems(1) by (auto simp: list_all_length)
    have "list_all (\<lambda>(s, e). s \<le> e \<and> e \<le> n) ranges"
      using painted_ranges_spec(1) [OF len le(2,3), folded ranges_def] by (auto simp: list_all_iff good_range_def)
    then have "length (row_cells (paint_ranges (intended ! i) ranges (rows ! i))) = n" using paint_ranges_props [OF len] by blast
    then have "rows_of_width n (rows[i := fold (\<lambda>(s, e). paint_cells s e (intended ! i)) ranges (rows ! i)])"
      using Cons.prems(1) False by (auto simp: list_all_length nth_list_update paint_ranges_def)
    then have "safe_attempt (\<lambda>_. True) (repair_rows (rows[i := fold (\<lambda>(s, e). paint_cells s e (intended ! i)) ranges (rows ! i)]) intended cs stats')" for stats'
      using Cons.prems(2) by (intro Cons.IH) auto
    then have "repair_rows (rows[i := fold (\<lambda>(s, e). paint_cells s e (intended ! i)) ranges (rows ! i)]) intended cs stats' \<noteq> Panicked" for stats'
      by (metis safe_attempt_simps(1))
    then show ?thesis using False len le by (auto simp: x Let_def ranges_def [symmetric] split: attempt.splits)
  qed
qed simp

lemma semantic_batch_safe:
  assumes "rows_fit (ps_geometry intended) (ps_rows presented)" "rows_fit (ps_geometry intended) (ps_rows intended)"
  shows "semantic_batch caps sc owner ops presented intended \<noteq> AttemptPanicked"
proof -
  define g where "g = ps_geometry intended"
  define s0 where "s0 = \<lparr>se_rows = ps_rows presented, se_bytes = semantic_opening, se_repairs = []\<rparr>"
  have ops: "safe_attempt (\<lambda>s. rows_fit g (se_rows s)) (apply_scene_operations ops g s0)"
    using assms(1) by (intro operations_safe) (simp add: s0_def g_def)
  have "repair_semantic_regions rows intended regions \<noteq> Panicked" if fit: "rows_fit g rows" for rows regions
  proof -
    have "safe_attempt (\<lambda>cs. length cs = grid_rows g \<and> list_all (candidate_within (grid_cols g)) cs)
        (repair_candidates g (replicate (length (ps_rows intended)) None) regions)"
      using assms(2) by (intro repair_candidates_safe) (simp_all add: g_def rows_fit_def list_all_iff)
    moreover have "repair_rows rows (ps_rows intended) (enumerate 0 cs) render_stats_default \<noteq> Panicked"
      if "list_all (candidate_within (grid_cols g)) cs" for cs
    proof (rule not_panicked, rule repair_rows_safe)
      show "rows_of_width (grid_cols g) (ps_rows intended)" "rows_of_width (grid_cols g) rows"
        using assms(2) fit by (simp_all add: g_def rows_fit_def)
      show "list_all (\<lambda>(i, c). candidate_within (grid_cols g) c) (enumerate 0 cs)"
        using that by (simp add: list_all_length nth_enumerate_eq)
    qed
    ultimately show ?thesis
      by (auto simp: repair_semantic_regions_def g_def [symmetric] safe_attempt_def split: attempt.splits)
  qed
  then show ?thesis using ops
    by (auto simp: semantic_batch_def g_def [symmetric] s0_def [symmetric] Let_def safe_attempt_def split: attempt.splits)
qed

section \<open>The fast path\<close>

lemma repair_rows_paint:
  "repair_rows rows intended cs stats = Applied (runs, rows', stats') \<Longrightarrow> rows' = paint_runs intended runs rows"
proof (induction cs arbitrary: rows stats runs)
  case Nil
  then show ?case by (simp add: paint_runs_def)
next
  case (Cons x cs)
  obtain i candidate where x: "x = (i, candidate)" by fastforce
  show ?case
  proof (cases candidate)
    case None
    then show ?thesis using Cons by (simp add: x)
  next
    case (Some le)
    obtain l e where le: "le = (l, e)" by fastforce
    define ranges where "ranges = expand_and_merge_cell_ranges (rows ! i) (intended ! i) (changed_cell_ranges (rows ! i) (intended ! i) l e)"
    define rows1 where "rows1 = rows[i := paint_ranges (intended ! i) ranges (rows ! i)]"
    obtain stats1 runs1 where rest: "i < length rows" "repair_rows rows1 intended cs stats1 = Applied (runs1, rows', stats')"
      "runs = map (\<lambda>(s, e). (i, s, e)) ranges @ runs1"
      using Cons.prems
      by (auto simp: x Some le Let_def ranges_def [symmetric] rows1_def paint_ranges_def split: if_splits attempt.splits)
    show ?thesis unfolding rest(3) paint_runs_append
      using Cons.IH [OF rest(2)] paint_runs_row [OF rest(1), of intended ranges] by (simp only: rows1_def)
  qed
qed

lemma semantic_batch_drives:
  assumes fit: "rows_fit (ps_geometry intended) (ps_rows presented)" and ops: "list_all regular_operation ops"
    and batch: "semantic_batch caps sc owner ops presented intended = Batch batch stats"
  shows "\<exists>opening edits runs closing.
     concat (map ot_bytes (sb_transactions batch)) =
       opening @ semantic_opening @ edits @ write_runs (ps_rows intended) runs @ closing \<and>
     opening \<in> {[], ESC # ''[?2026h''} \<and> sb_predicted batch = intended \<and>
           frame_closing caps presented intended True closing \<and>
     (\<forall>v. vt_shows (ps_geometry intended) (ps_rows presented) v \<longrightarrow>
        (\<exists>v'. run_edits (ps_geometry intended) edits v = Some v' \<and>
           rows_physically_match (paint_runs (ps_rows intended) runs (vt_rows v')) (ps_rows intended)))"
proof -
  define g where "g = ps_geometry intended"
  define s0 where "s0 = \<lparr>se_rows = ps_rows presented, se_bytes = semantic_opening, se_repairs = []\<rparr>"
  obtain s runs rows stats1 where s: "apply_scene_operations ops g s0 = Applied s"
    and rep: "repair_semantic_regions (se_rows s) intended (normalize_grid_regions (se_repairs s)) = Applied (runs, rows, stats1)"
    and matching: "rows_physically_match rows (ps_rows intended)"
    and b: "batch = \<lparr>sb_transactions = [\<lparr>ot_resize = None, ot_bytes = semantic_bytes caps presented intended (se_bytes s) runs\<rparr>],
       sb_predicted = intended\<rparr>"
    using batch
    by (auto simp: semantic_batch_def g_def [symmetric] s0_def [symmetric] Let_def split: if_splits attempt.splits prod.splits)
  have "simulated g s0 s" using fit ops s by (intro operations_simulated) (auto simp: s0_def g_def)
  then obtain edits where e: "se_bytes s = semantic_opening @ edits"
    "\<And>v. vt_shows g (ps_rows presented) v \<Longrightarrow> \<exists>v'. drives g edits v v' \<and> vt_shows g (se_rows s) v'"
    by (auto simp: simulated_def s0_def)
  obtain cs where "repair_rows (se_rows s) (ps_rows intended) cs render_stats_default = Applied (runs, rows, stats1)"
    using rep by (auto simp: repair_semantic_regions_def split: attempt.splits)
  then have rows: "rows = paint_runs (ps_rows intended) runs (se_rows s)" by (rule repair_rows_paint)
  have shown: "\<exists>v'. run_edits g edits v = Some v' \<and> rows_physically_match (paint_runs (ps_rows intended) runs (vt_rows v')) (ps_rows intended)"
    if "vt_shows g (ps_rows presented) v" for v
    using e(2) [OF that] matching unfolding rows by (auto simp: vt_shows_def dest: drives_run)
  define rest where "rest = effect_bytes caps presented intended @ write_cursor (ps_cursor intended) @ bell_bytes intended"
  have bytes: "concat (map ot_bytes (sb_transactions batch)) =
      (if rc_synchronized_output caps then ESC # ''[?2026h'' else []) @ semantic_opening @ edits @ write_runs (ps_rows intended) runs @
      (rest @ (if rc_synchronized_output caps then write_private_mode 2026 (md_synchronized_output (ps_modes intended)) else []))"
    by (simp add: b semantic_bytes_def synchronized_frame_def e(1) rest_def Let_def)
  have "frame_closing caps presented intended True
      (rest @ (if rc_synchronized_output caps then write_private_mode 2026 (md_synchronized_output (ps_modes intended)) else []))"
    unfolding frame_closing_def rest_def by (cases "rc_synchronized_output caps") simp_all
  then show ?thesis
    by (intro exI conjI) (rule bytes, simp, simp add: b, assumption, use shown in \<open>simp add: g_def\<close>)
qed


definition letter_row :: "byte \<Rightarrow> row" where
  "letter_row c = \<lparr>row_cells = [char_cell c, cell_default], row_wrapped = False\<rparr>"

definition small_geometry :: "u16 \<Rightarrow> terminal_geometry" where
  "small_geometry rows = \<lparr>geom_rows = rows, geom_cols = 2, geom_cell_width_px = 0, geom_cell_height_px = 0\<rparr>"

lemma exact_region_small:
  "exact_region (grid_rect_new (grid_point_new 0 0) 2 2) (small_geometry 2) = Some (0, 2, 0, 2)"
  "exact_region (grid_rect_new (grid_point_new 1 0) 1 2) (small_geometry 2) = Some (1, 2, 0, 2)"
  "exact_region (grid_rect_new (grid_point_new 1 0) 1 2) (small_geometry 3) = Some (1, 2, 0, 2)"
  by (simp_all add: exact_region_def clip_grid_rect_def rect_new_defs small_geometry_def sat_i32_def saturating_add_usize_def usize_max_def)

lemma changed_loop_same: "changed_loop p p None cols = ([], None)"
  by (induction cols) simp_all


text \<open>
  A line deleted in a region of one row, which \<^verbatim>\<open>DL\<close> on the last row of the scrolling region reports:
  \<^verbatim>\<open>DECSTBM\<close> refuses such a region, so the terminal moves up all lines below.
\<close>
theorem one_row_delete_diverges:
  defines "g \<equiv> small_geometry 3"
  defines "s \<equiv> \<lparr>se_rows = [letter_row (CHR ''a''), letter_row (CHR ''b''), letter_row (CHR ''c'')], se_bytes = [], se_repairs = []\<rparr>"
  defines "v \<equiv> \<lparr>vt_rows = se_rows s, vt_row = 0, vt_col = 0, vt_top = 0, vt_bottom = 3\<rparr>"
  shows "\<exists>s' v'. apply_scene_operation (SceneDeleteLines (grid_rect_new (grid_point_new 1 0) 1 2) 1) g s = Applied s' \<and>
     run_edits g (se_bytes s') v = Some v' \<and>
     se_rows s' = [letter_row (CHR ''a''), blank_row 2, letter_row (CHR ''c'')] \<and>
     vt_rows v' = [letter_row (CHR ''a''), letter_row (CHR ''c''), blank_row 2]"
proof -
  define edits where "edits = write_vertical_region 1 2 @ write_absolute_cursor 1 0 @ ESC # CHR ''['' # show_nat 1 @ CHR ''M'' # reset_vertical_region"
  have g: "grid_rows g = 3" "grid_cols g = 2" by (simp_all add: g_def small_geometry_def)
  have region: "exact_region (grid_rect_new (grid_point_new 1 0) 1 2) g = Some (1, 2, 0, 2)"
    unfolding g_def by (rule exact_region_small)
  have "\<exists>s'. apply_scene_operation (SceneDeleteLines (grid_rect_new (grid_point_new 1 0) 1 2) 1) g s = Applied s' \<and>
      se_bytes s' = edits \<and> se_rows s' = [letter_row (CHR ''a''), blank_row 2, letter_row (CHR ''c'')]"
    unfolding apply_scene_operation_def rows_up_def scene_operation.case region
    by (simp add: s_def g on_slice_def shift_left_drop edits_def) (simp add: letter_row_def)
  moreover have "run_edits g edits v = Some (v\<lparr>vt_rows := [letter_row (CHR ''a''), letter_row (CHR ''c''), blank_row 2],
      vt_row := 0, vt_col := 0\<rparr>)"
  proof -
    have "run_edits g reset_vertical_region w = Some (w\<lparr>vt_top := 0, vt_bottom := grid_rows g, vt_row := 0, vt_col := 0\<rparr>)" for w
      using run_edits_reset_region [of g "[]" w] by (simp del: run_edits_reset_region)
    then show ?thesis
      by (simp add: edits_def run_edits_count vt_edit_def edit_field_def g v_def s_def on_slice_def shift_left_drop)
  qed
  ultimately show ?thesis by auto
qed

end
