(* ===== verification/Scene_Reader.thy ===== *)
theory Scene_Reader
  imports Scene_Semantic
begin

text \<open>
  A terminal that reads everything a full reconstruction sends: text, styles, hyperlinks, cursor
  placements, erasures, modes, titles, and the strings and sequences it ignores. It is written after the
  sequences' meaning and not after the encoder, and so says independently of it what is on the screen
  after the bytes were read. For each row it keeps the text sent to it since the cursor was last
  placed at the first column of the row or the row was erased; it knows no widths and does not wrap.
\<close>

section \<open>The reader\<close>

record page =
  pg_text :: "nat \<Rightarrow> attributed"
  pg_row :: nat
  pg_fresh :: bool
  pg_pen :: style
  pg_link :: "bytes option"
  pg_modes :: terminal_modes
  pg_title :: bytes
  pg_directory :: bytes
  pg_cursor :: "nat \<times> nat"
  pg_visible :: bool
  pg_shape :: nat

text \<open>The first byte after the cursor came to the first column replaces what the row showed.\<close>

definition page_print :: "byte \<Rightarrow> page \<Rightarrow> page" where
  "page_print b pg =
     pg\<lparr>pg_text := (pg_text pg)(pg_row pg :=
          (if pg_fresh pg then [] else pg_text pg (pg_row pg)) @ [(b, pg_pen pg, pg_link pg)]),
        pg_fresh := False\<rparr>"

definition page_mode :: "nat \<Rightarrow> bool \<Rightarrow> page \<Rightarrow> page" where
  "page_mode n enabled pg =
     pg\<lparr>pg_modes := set_private_mode n enabled (pg_modes pg), pg_visible := (if n = 25 then enabled else pg_visible pg)\<rparr>"

definition page_csi :: "bytes \<Rightarrow> byte \<Rightarrow> page \<Rightarrow> page" where
  "page_csi ps f pg =
     (let fields = split_on (CHR '';'') ps in
      if f = CHR ''H'' \<and> list_all is_parameter ps
      then pg\<lparr>pg_row := edit_field fields 0 - 1, pg_fresh := (edit_field fields 1 \<le> 1),
              pg_cursor := (edit_field fields 0 - 1, edit_field fields 1 - 1)\<rparr>
      else if f = CHR ''K'' \<and> ps = ''2'' then pg\<lparr>pg_text := (pg_text pg)(pg_row pg := [])\<rparr>
      else if f = CHR ''J'' \<and> ps = ''2'' then pg\<lparr>pg_text := \<lambda>_. []\<rparr>
      else if f = CHR ''m'' then pg\<lparr>pg_pen := read_parameters fields (pg_pen pg)\<rparr>
      else if f = CHR ''q'' \<and> ps \<noteq> [] \<and> last ps = CHR '' '' then pg\<lparr>pg_shape := dec_val (butlast ps)\<rparr>
      else if f = CHR ''h'' \<and> ps \<noteq> [] \<and> hd ps = CHR ''?'' then page_mode (dec_val (tl ps)) True pg
      else if f = CHR ''l'' \<and> ps \<noteq> [] \<and> hd ps = CHR ''?'' then page_mode (dec_val (tl ps)) False pg
      else if f = CHR ''u'' \<and> ps \<noteq> [] \<and> hd ps = CHR ''=''
      then pg\<lparr>pg_modes := (pg_modes pg)\<lparr>md_kitty_keyboard_flags := word_of_nat (dec_val (tl ps))\<rparr>\<rparr>
      else pg)"

definition page_osc :: "bytes \<Rightarrow> page \<Rightarrow> page" where
  "page_osc s pg =
     (if starts_with s ''8;;'' then pg\<lparr>pg_link := (if drop 3 s = [] then None else Some (drop 3 s))\<rparr>
      else if starts_with s ''2;'' then pg\<lparr>pg_title := drop 2 s\<rparr>
      else if starts_with s ''7;'' then pg\<lparr>pg_directory := drop 2 s\<rparr>
      else pg)"

definition page_control :: "byte \<Rightarrow> page \<Rightarrow> page option" where
  "page_control b pg =
     (if 32 \<le> byte_val b then Some (page_print b pg)
      else if b = CHR 0x0D then Some (pg\<lparr>pg_fresh := True\<rparr>)
      else if b = CHR 0x0A then Some (pg\<lparr>pg_row := pg_row pg + 1\<rparr>)
      else if b = CHR 0x07 then Some pg
      else None)"

definition in_csi :: "byte \<Rightarrow> bool" where
  "in_csi b \<longleftrightarrow> 0x20 \<le> byte_val b \<and> byte_val b < 0x40"

lemma dropWhile_two: "dropWhile P xs = d # e # ys \<Longrightarrow> length ys < length xs"
  using length_dropWhile_le [of P xs] by simp

function read_page :: "bytes \<Rightarrow> page \<Rightarrow> page option" where
  "read_page s pg =
     (case s of
        [] \<Rightarrow> Some pg
      | a # rest \<Rightarrow>
          if a \<noteq> ESC then Option.bind (page_control a pg) (read_page rest)
          else (case rest of
                  [] \<Rightarrow> None
                | b # rest \<Rightarrow>
                    if b = CHR ''='' then read_page rest (pg\<lparr>pg_modes := (pg_modes pg)\<lparr>md_application_keypad := True\<rparr>\<rparr>)
                    else if b = CHR ''>'' then read_page rest (pg\<lparr>pg_modes := (pg_modes pg)\<lparr>md_application_keypad := False\<rparr>\<rparr>)
                    else if b = CHR ''['' then
                      (case dropWhile in_csi rest of
                         [] \<Rightarrow> None
                       | f # rest' \<Rightarrow> read_page rest' (page_csi (takeWhile in_csi rest) f pg))
                    else if b = CHR '']'' \<or> b = CHR ''_'' then
                      (case dropWhile (\<lambda>c. c \<noteq> ESC) rest of
                         _ # _ # rest' \<Rightarrow>
                           read_page rest' (if b = CHR '']'' then page_osc (takeWhile (\<lambda>c. c \<noteq> ESC) rest) pg else pg)
                       | _ \<Rightarrow> None)
                    else None))"
  by pat_completeness auto

termination
  by (relation "measure (\<lambda>(s, _). length s)")
    (auto dest: dropWhile_less [OF sym] dropWhile_less dropWhile_two [OF sym] dropWhile_two)

declare read_page.simps [simp del]

definition takes :: "bytes \<Rightarrow> page \<Rightarrow> page \<Rightarrow> bool" where
  "takes bs pg pg' \<longleftrightarrow> (\<forall>rest. read_page (bs @ rest) pg = read_page rest pg')"

lemma read_page_Nil [simp]: "read_page [] pg = Some pg"
  by (subst read_page.simps) simp

lemma takes_Nil [simp]: "takes [] pg pg"
  by (simp add: takes_def)

lemma takes_append: "takes a pg pg' \<Longrightarrow> takes b pg' pg'' \<Longrightarrow> takes (a @ b) pg pg''"
  by (simp add: takes_def)

lemma takes_reads: "takes bs pg pg' \<Longrightarrow> read_page bs pg = Some pg'"
  unfolding takes_def by (metis append_Nil2 read_page_Nil)

section \<open>Single sequences\<close>

lemma takes_csi:
  assumes "list_all in_csi ps" "\<not> in_csi f"
  shows "takes (ESC # CHR ''['' # ps @ [f]) pg (page_csi ps f pg)"
proof -
  have "takeWhile in_csi (ps @ f # rest) = ps" "dropWhile in_csi (ps @ f # rest) = f # rest" for rest
    using span_until [of ps in_csi f rest] assms by (auto simp: list_all_iff)
  then show ?thesis unfolding takes_def by (subst read_page.simps) simp
qed

lemma takes_osc:
  assumes "ESC \<notin> set s"
  shows "takes (ESC # CHR '']'' # s @ ST) pg (page_osc s pg)"
proof -
  have "takeWhile (\<lambda>c. c \<noteq> ESC) (s @ ESC # CHR 0x5C # rest) = s"
    "dropWhile (\<lambda>c. c \<noteq> ESC) (s @ ESC # CHR 0x5C # rest) = ESC # CHR 0x5C # rest" for rest
    using span_until [of s "\<lambda>c. c \<noteq> ESC" ESC "CHR 0x5C # rest"] assms by blast+
  then show ?thesis unfolding takes_def by (subst read_page.simps) simp
qed

lemma takes_apc:
  assumes "ESC \<notin> set s"
  shows "takes (ESC # CHR ''_'' # s @ ST) pg pg"
proof -
  have "takeWhile (\<lambda>c. c \<noteq> ESC) (s @ ESC # CHR 0x5C # rest) = s"
    "dropWhile (\<lambda>c. c \<noteq> ESC) (s @ ESC # CHR 0x5C # rest) = ESC # CHR 0x5C # rest" for rest
    using span_until [of s "\<lambda>c. c \<noteq> ESC" ESC "CHR 0x5C # rest"] assms by blast+
  then show ?thesis unfolding takes_def by (subst read_page.simps) simp
qed

lemma in_csi_digits [simp]: "list_all in_csi (show_nat n)"
  using show_nat_set [of _ n] unfolding list_all_iff in_csi_def is_ascii_digit_def by fastforce

lemma in_csi_bytes [simp]:
  "in_csi (CHR '';'')" "in_csi (CHR ''?'')" "in_csi (CHR ''='')" "in_csi (CHR '' '')" "in_csi (CHR '':'')" "in_csi (CHR ''-'')"
  "\<not> in_csi (CHR ''H'')" "\<not> in_csi (CHR ''m'')" "\<not> in_csi (CHR ''h'')" "\<not> in_csi (CHR ''l'')" "\<not> in_csi (CHR ''q'')"
  "\<not> in_csi (CHR ''u'')" "\<not> in_csi (CHR ''K'')" "\<not> in_csi (CHR ''J'')" "\<not> in_csi (CHR ''r'')" "\<not> in_csi (CHR ''s'')"
  "in_csi (CHR ''0'')" "in_csi (CHR ''1'')" "in_csi (CHR ''2'')" "in_csi (CHR ''3'')" "in_csi (CHR ''4'')" "in_csi (CHR ''5'')"
  "in_csi (CHR ''6'')" "in_csi (CHR ''7'')" "in_csi (CHR ''8'')" "in_csi (CHR ''9'')"
  by (simp_all add: in_csi_def byte_val_def)

lemma takes_private_mode: "takes (write_private_mode n enabled) pg (page_mode n enabled pg)"
  using takes_csi [of "CHR ''?'' # show_nat n" "if enabled then CHR ''h'' else CHR ''l''" pg]
  by (auto simp: write_private_mode_def page_csi_def Let_def)

lemma takes_keypad: "takes (write_keypad b) pg (pg\<lparr>pg_modes := (pg_modes pg)\<lparr>md_application_keypad := b\<rparr>\<rparr>)"
  unfolding takes_def by (auto simp: write_keypad_def read_page.simps [of "_ # _"])

lemma takes_kitty_flags: "takes (write_kitty_flags f) pg (pg\<lparr>pg_modes := (pg_modes pg)\<lparr>md_kitty_keyboard_flags := f\<rparr>\<rparr>)"
  using takes_csi [of "CHR ''='' # show_nat (unat f)" "CHR ''u''" pg]
  by (simp add: write_kitty_flags_def page_csi_def Let_def)

lemma show_nat_codes: "show_nat 2 = ''2''" "show_nat 7 = ''7''" "show_nat 25 = ''25''" "show_nat 1 = ''1''" "show_nat (Suc 0) = ''1''"
  by code_simp+

lemma takes_title: "takes (write_terminal_string 2 v) pg (pg\<lparr>pg_title := printable_bytes (case v of None \<Rightarrow> [] | Some s \<Rightarrow> s)\<rparr>)"
  and takes_directory: "takes (write_terminal_string 7 v) pg (pg\<lparr>pg_directory := printable_bytes (case v of None \<Rightarrow> [] | Some s \<Rightarrow> s)\<rparr>)"
proof -
  define t where "t = printable_bytes (case v of None \<Rightarrow> [] | Some s \<Rightarrow> s)"
  have "ESC \<notin> set t" using printable_bytes_safe by (auto simp: t_def)
  then show "takes (write_terminal_string 2 v) pg (pg\<lparr>pg_title := t\<rparr>)" "takes (write_terminal_string 7 v) pg (pg\<lparr>pg_directory := t\<rparr>)"
    using takes_osc [of "''2;'' @ t" pg] takes_osc [of "''7;'' @ t" pg]
    by (simp_all add: write_terminal_string_def t_def [symmetric] page_osc_def starts_with_def show_nat_codes)
qed

lemma takes_link: "takes (write_hyperlink l) pg (pg\<lparr>pg_link := link_shown l\<rparr>)"
proof -
  define t where "t = (case l of None \<Rightarrow> [] | Some s \<Rightarrow> printable_bytes s)"
  have "ESC \<notin> set t" using printable_bytes_safe by (auto simp: t_def split: option.splits)
  moreover have "page_osc (''8;;'' @ t) pg = pg\<lparr>pg_link := (if t = [] then None else Some t)\<rparr>"
    by (simp add: page_osc_def starts_with_def)
  moreover have "(if t = [] then None else Some t) = link_shown l" by (simp add: t_def link_shown_def split: option.split)
  moreover have "write_hyperlink l = ESC # CHR '']'' # (''8;;'' @ t) @ ST" by (simp add: write_hyperlink_def t_def)
  ultimately show ?thesis using takes_osc [of "''8;;'' @ t" pg] by simp
qed

lemma in_csi_style: "list_all in_csi (''0'' @ joined (style_parameters s))"
  unfolding style_parameters_def color_parameters_def
  by (auto split: color.split underline_style.split)

lemma takes_style: "takes (write_style s) pg (pg\<lparr>pg_pen := s\<rparr>)"
proof -
  have "split_on (CHR '';'') (''0'' @ joined (style_parameters s)) = ''0'' # style_parameters s"
    by (rule split_joined) (simp_all add: style_parameters_plain)
  then show ?thesis
    using takes_csi [OF in_csi_style, of "CHR ''m''" s pg]
    by (simp add: write_style_parameters page_csi_def Let_def read_style_parameters)
qed

lemma takes_reset: "takes (ESC # ''[0m'') pg (pg\<lparr>pg_pen := style_default\<rparr>)"
proof -
  have "read_parameters [''0''] pen = style_default" for pen
    by (simp add: read_parameters.simps colour_target_def set_attribute_def)
  then show ?thesis
    using takes_csi [of "''0''" "CHR ''m''" pg] by (simp add: page_csi_def Let_def split_on_no_sep)
qed

section \<open>Modes\<close>

lemma read_private_mode [simp]: "read_page (write_private_mode n enabled @ rest) pg = read_page rest (page_mode n enabled pg)"
  using takes_private_mode by (simp add: takes_def)

lemma takes_mouse:
  "takes (write_mouse p e) pg (pg\<lparr>pg_modes := (pg_modes pg)\<lparr>md_mouse_protocol := p, md_mouse_encoding := e\<rparr>\<rparr>)"
proof -
  obtain m where m: "pg = pg\<lparr>pg_modes := m\<rparr>" "pg_modes pg = m" by simp
  show ?thesis unfolding takes_def
    by (cases m; cases p; cases e; simp add: write_mouse_def protocol_mode_def)
      (simp_all add: page_mode_def set_private_mode_def m(2))
qed

lemma takes_modes: "takes (write_modes intended w) pg (pg\<lparr>pg_modes := intended\<rparr>)"
proof -
  have [simp]: "read_page (write_keypad b @ rest) pg = read_page rest (pg\<lparr>pg_modes := (pg_modes pg)\<lparr>md_application_keypad := b\<rparr>\<rparr>)"
    "read_page (write_mouse p e @ rest) pg = read_page rest (pg\<lparr>pg_modes := (pg_modes pg)\<lparr>md_mouse_protocol := p, md_mouse_encoding := e\<rparr>\<rparr>)"
    "read_page (write_kitty_flags f @ rest) pg = read_page rest (pg\<lparr>pg_modes := (pg_modes pg)\<lparr>md_kitty_keyboard_flags := f\<rparr>\<rparr>)"
    for b p e f rest pg
    using takes_keypad takes_mouse takes_kitty_flags by (simp_all add: takes_def)
  show ?thesis unfolding takes_def
    by (cases "pg_modes pg"; cases intended) (simp add: write_modes_def page_mode_def)
qed

section \<open>Sequences that leave the text alone\<close>

definition leaves_text :: "bytes \<Rightarrow> bool" where
  "leaves_text bs \<longleftrightarrow> (\<forall>pg. \<exists>pg'. takes bs pg pg' \<and> pg_text pg' = pg_text pg)"

definition keeps :: "page \<Rightarrow> page \<Rightarrow> bool" where
  "keeps pg pg' \<longleftrightarrow> pg_link pg' = pg_link pg \<and> pg_title pg' = pg_title pg \<and> pg_directory pg' = pg_directory pg"

definition quiet :: "bytes \<Rightarrow> bool" where
  "quiet bs \<longleftrightarrow> (\<forall>pg. \<exists>pg'. takes bs pg pg' \<and> pg_text pg' = pg_text pg \<and> keeps pg pg')"

lemma quiet_leaves: "quiet bs \<Longrightarrow> leaves_text bs"
  by (auto simp: quiet_def leaves_text_def)

lemma leaves_text_append: "leaves_text a \<Longrightarrow> leaves_text b \<Longrightarrow> leaves_text (a @ b)"
  unfolding leaves_text_def by (metis takes_append)

lemma leaves_text_Nil [simp]: "leaves_text []"
  unfolding leaves_text_def using takes_Nil by blast

lemma leaves_text_concat: "list_all leaves_text bss \<Longrightarrow> leaves_text (concat bss)"
  by (induction bss) (simp_all add: leaves_text_append)

lemma quiet_append: "quiet a \<Longrightarrow> quiet b \<Longrightarrow> quiet (a @ b)"
  unfolding quiet_def keeps_def by (metis takes_append)

lemma quiet_Nil [simp]: "quiet []"
  unfolding quiet_def keeps_def using takes_Nil by blast

lemma quiet_concat: "list_all quiet bss \<Longrightarrow> quiet (concat bss)"
  by (induction bss) (simp_all add: quiet_append)

lemma quiet_csi:
  assumes "list_all in_csi ps" "\<not> in_csi f" "f \<noteq> CHR ''K''" "f \<noteq> CHR ''J''"
  shows "quiet (ESC # CHR ''['' # ps @ [f])"
proof -
  have "pg_text (page_csi ps f pg) = pg_text pg \<and> keeps pg (page_csi ps f pg)" for pg
    using assms(3,4) by (simp add: page_csi_def keeps_def page_mode_def Let_def)
  then show ?thesis unfolding quiet_def using takes_csi [OF assms(1,2)] by blast
qed

lemma quiet_apc: "ESC \<notin> set s \<Longrightarrow> quiet (ESC # CHR ''_'' # s @ ST)"
  unfolding quiet_def keeps_def using takes_apc by blast

lemma leaves_textI: "(\<And>pg. takes bs pg (f pg)) \<Longrightarrow> (\<And>pg. pg_text (f pg) = pg_text pg) \<Longrightarrow> leaves_text bs"
  unfolding leaves_text_def by blast

lemma leaves_text_parts:
  "leaves_text (write_private_mode n enabled)" "leaves_text (write_keypad enabled)" "leaves_text (write_kitty_flags flags)"
  "leaves_text (write_mouse p e)" "leaves_text (write_terminal_string 2 v)" "leaves_text (write_terminal_string 7 v)"
  by (rule leaves_textI, rule takes_private_mode, simp add: page_mode_def)
    (rule leaves_textI, rule takes_keypad, simp, rule leaves_textI, rule takes_kitty_flags, simp,
     rule leaves_textI, rule takes_mouse, simp, rule leaves_textI, rule takes_title, simp,
     rule leaves_textI, rule takes_directory, simp)

lemma takes_bells: "takes (replicate n (CHR 0x07)) pg pg"
proof (induction n)
  case (Suc n)
  have "takes [CHR 0x07] pg pg" unfolding takes_def by (subst read_page.simps) (simp add: page_control_def byte_val_def)
  from takes_append [OF this Suc] show ?case by simp
qed simp

lemma quiet_bells: "quiet (bell_bytes p)"
  unfolding quiet_def keeps_def bell_bytes_def using takes_bells by blast

section \<open>The cursor\<close>

definition cursor_code :: "cursor \<Rightarrow> nat" where
  "cursor_code c = (case cur_shape c of ShapeBlock \<Rightarrow> 2 | ShapeBlockHollow \<Rightarrow> 2 | ShapeUnderline \<Rightarrow> 4 | ShapeBar \<Rightarrow> 6)"

definition page_cursor :: "cursor \<Rightarrow> page \<Rightarrow> bool" where
  "page_cursor c pg \<longleftrightarrow>
     pg_cursor pg = (min (cur_row c) 65534, min (cur_col c) 65534) \<and> pg_visible pg = cur_visible c \<and> pg_shape pg = cursor_code c"

lemma takes_position:
  "takes (ESC # ''['' @ show_nat m @ '';'' @ show_nat n @ ''H'') pg
     (pg\<lparr>pg_row := m - 1, pg_fresh := (n \<le> 1), pg_cursor := (m - 1, n - 1)\<rparr>)"
  using takes_csi [of "show_nat m @ CHR '';'' # show_nat n" "CHR ''H''" pg]
  by (simp add: page_csi_def edit_field_def Let_def)

lemma takes_cursor:
  "\<exists>pg'. takes (write_cursor c) pg pg' \<and> page_cursor c pg' \<and> pg_text pg' = pg_text pg \<and> keeps pg pg' \<and> pg_modes pg' = pg_modes pg"
proof -
  let ?m = "sat_add16 (cur_row c) 1" and ?n = "sat_add16 (cur_col c) 1"
  define pg1 where "pg1 = pg\<lparr>pg_row := ?m - 1, pg_fresh := (?n \<le> 1), pg_cursor := (?m - 1, ?n - 1)\<rparr>"
  define pg2 where "pg2 = pg1\<lparr>pg_shape := cursor_code c\<rparr>"
  define pg3 where "pg3 = page_mode 25 (cur_visible c) pg2"
  have 1: "takes (ESC # ''['' @ show_nat ?m @ '';'' @ show_nat ?n @ ''H'') pg pg1"
    unfolding pg1_def by (rule takes_position)
  have 2: "takes (ESC # ''['' @ show_nat (cursor_code c) @ '' q'') pg1 pg2"
    using takes_csi [of "show_nat (cursor_code c) @ '' ''" "CHR ''q''" pg1]
    by (simp add: page_csi_def Let_def pg2_def butlast_append)
  have 3: "takes (write_private_mode 25 (cur_visible c)) pg2 pg3" unfolding pg3_def by (rule takes_private_mode)
  have "write_cursor c = (ESC # ''['' @ show_nat ?m @ '';'' @ show_nat ?n @ ''H'') @
      (ESC # ''['' @ show_nat (cursor_code c) @ '' q'') @ write_private_mode 25 (cur_visible c)"
    by (simp add: write_cursor_def cursor_code_def write_private_mode_def show_nat_codes)
  then have "takes (write_cursor c) pg pg3" using takes_append [OF 1 takes_append [OF 2 3]] by simp
  moreover have "?m - 1 = min (cur_row c) 65534" "?n - 1 = min (cur_col c) 65534" by (simp_all add: sat_add16_def u16_max_def)
  then have "page_cursor c pg3" by (simp add: page_cursor_def pg3_def pg2_def pg1_def page_mode_def)
  moreover have "pg_text pg3 = pg_text pg \<and> keeps pg pg3 \<and> pg_modes pg3 = pg_modes pg"
    by (simp add: pg3_def pg2_def pg1_def page_mode_def keeps_def set_private_mode_def)
  ultimately show ?thesis by blast
qed

lemma quiet_cursor: "quiet (write_cursor c)"
  unfolding quiet_def using takes_cursor by blast

section \<open>Text\<close>

text \<open>\<open>pg'\<close> is \<open>pg\<close> after \<open>xs\<close> was printed.\<close>

definition types :: "attributed \<Rightarrow> page \<Rightarrow> page \<Rightarrow> bool" where
  "types xs pg pg' \<longleftrightarrow>
     pg_title pg' = pg_title pg \<and> pg_directory pg' = pg_directory pg \<and> pg_row pg' = pg_row pg \<and>
     (if xs = [] then pg_text pg' = pg_text pg \<and> pg_fresh pg' = pg_fresh pg
      else pg_text pg' = (pg_text pg)(pg_row pg := (if pg_fresh pg then [] else pg_text pg (pg_row pg)) @ xs) \<and> \<not> pg_fresh pg')"

lemma types_append: "types xs pg pg1 \<Longrightarrow> types ys pg1 pg2 \<Longrightarrow> types (xs @ ys) pg pg2"
  by (cases "xs = []"; cases "ys = []") (simp_all add: types_def)

lemma types_update:
  "types [] pg (pg\<lparr>pg_pen := s\<rparr>)" "types [] pg (pg\<lparr>pg_link := l\<rparr>)"
  by (simp_all add: types_def)

definition plain_text :: "bytes \<Rightarrow> bool" where
  "plain_text t \<longleftrightarrow> (\<forall>b \<in> set t. 32 \<le> byte_val b)"

lemma takes_text:
  "plain_text t \<Longrightarrow> \<exists>pg'. takes t pg pg' \<and> types (map (\<lambda>b. (b, pg_pen pg, pg_link pg)) t) pg pg' \<and>
     pg_pen pg' = pg_pen pg \<and> pg_link pg' = pg_link pg"
proof (induction t arbitrary: pg)
  case Nil
  then show ?case by (intro exI [of _ pg]) (simp add: types_def)
next
  case (Cons b t)
  let ?pg = "page_print b pg"
  have b: "32 \<le> byte_val b" using Cons.prems by (simp add: plain_text_def)
  then have "b \<noteq> ESC" by (auto simp: byte_val_def)
  then have "takes [b] pg ?pg" unfolding takes_def using b by (subst read_page.simps) (simp add: page_control_def)
  moreover have "types [(b, pg_pen pg, pg_link pg)] pg ?pg" by (simp add: types_def page_print_def)
  moreover obtain pg' where "takes t ?pg pg'" "types (map (\<lambda>b. (b, pg_pen ?pg, pg_link ?pg)) t) ?pg pg'"
      "pg_pen pg' = pg_pen ?pg" "pg_link pg' = pg_link ?pg"
    using Cons.IH [of ?pg] Cons.prems by (auto simp: plain_text_def)
  moreover have "pg_pen ?pg = pg_pen pg" "pg_link ?pg = pg_link pg" by (simp_all add: page_print_def)
  ultimately show ?case
    using takes_append [of "[b]" pg ?pg t pg'] types_append [of "[(b, pg_pen pg, pg_link pg)]" pg ?pg] by fastforce
qed

lemma takes_cells:
  "list_all (\<lambda>c. plain_text (cell_grapheme c)) cs \<Longrightarrow> Scene_Wire.write_cells (pg_pen pg) link cs = (bs, open_link) \<Longrightarrow>
   pg_link pg = link_shown link \<Longrightarrow>
   \<exists>pg'. takes bs pg pg' \<and> types (attributed_cells cs) pg pg' \<and> pg_link pg' = link_shown open_link"
proof (induction cs arbitrary: pg link bs)
  case Nil
  then show ?case by (intro exI [of _ pg]) (auto simp: attributed_cells_def types_def)
next
  case (Cons c cs)
  show ?case
  proof (cases "cell_continuation c")
    case True
    then show ?thesis using Cons by (simp add: attributed_cells_def)
  next
    case False
    define pg1 where "pg1 = (if cell_hyperlink c \<noteq> link then pg\<lparr>pg_link := link_shown (cell_hyperlink c)\<rparr> else pg)"
    define pg2 where "pg2 = (if cell_style c \<noteq> pg_pen pg then pg1\<lparr>pg_pen := cell_style c\<rparr> else pg1)"
    have pen: "pg_pen pg1 = pg_pen pg" by (simp add: pg1_def)
    then have 2: "pg_pen pg2 = cell_style c" "pg_link pg2 = link_shown (cell_hyperlink c)"
      using Cons.prems(3) by (auto simp: pg2_def pg1_def)
    obtain bs' where bs': "Scene_Wire.write_cells (cell_style c) (cell_hyperlink c) cs = (bs', open_link)"
      using Cons.prems(2) False by (auto simp: Let_def split: prod.splits)
    have bs: "bs = (if cell_hyperlink c \<noteq> link then write_hyperlink (cell_hyperlink c) else []) @
        (if cell_style c \<noteq> pg_pen pg then write_style (cell_style c) else []) @ cell_text c @ bs'"
      using Cons.prems(2) False bs' by (simp add: Let_def cell_text_def)
    have "plain_text (cell_text c)" using Cons.prems(1) by (auto simp: cell_text_def plain_text_def byte_val_def)
    then obtain pg3 where 3: "takes (cell_text c) pg2 pg3" "types (map (\<lambda>b. (b, cell_style c, link_shown (cell_hyperlink c))) (cell_text c)) pg2 pg3"
        "pg_pen pg3 = cell_style c" "pg_link pg3 = link_shown (cell_hyperlink c)"
      using takes_text [of "cell_text c" pg2] 2 by auto
    obtain pg4 where 4: "takes bs' pg3 pg4" "types (attributed_cells cs) pg3 pg4" "pg_link pg4 = link_shown open_link"
      using Cons.IH [of pg3 "cell_hyperlink c" bs'] Cons.prems(1) bs' 3 by auto
    have t1: "takes (if cell_hyperlink c \<noteq> link then write_hyperlink (cell_hyperlink c) else []) pg pg1"
      unfolding pg1_def using takes_link by simp
    have t2: "takes (if cell_style c \<noteq> pg_pen pg then write_style (cell_style c) else []) pg1 pg2"
      unfolding pg2_def using takes_style by simp
    have "takes bs pg pg4"
      unfolding bs using takes_append [OF t1 takes_append [OF t2 takes_append [OF 3(1) 4(1)]]] .
    moreover have "types [] pg pg1" "types [] pg1 pg2" unfolding pg1_def pg2_def by (simp_all add: types_def)
    then have "types (map (\<lambda>b. (b, cell_style c, link_shown (cell_hyperlink c))) (cell_text c) @ attributed_cells cs) pg pg4"
      using types_append [OF _ types_append [OF _ types_append [OF 3(2) 4(2)]], of "[]" pg pg1 "[]"] by simp
    moreover have "attributed_cells (c # cs) =
        map (\<lambda>b. (b, cell_style c, link_shown (cell_hyperlink c))) (cell_text c) @ attributed_cells cs"
      using False by (simp add: attributed_cells_def)
    ultimately show ?thesis using 4(3) by auto
  qed
qed

lemma takes_run_cells:
  assumes "list_all (\<lambda>c. plain_text (cell_grapheme c)) cs" "pg_pen pg = style_default" "pg_link pg = None"
  shows "\<exists>pg'. takes (write_run_cells cs) pg pg' \<and> types (attributed_cells cs) pg pg' \<and> pg_link pg' = None"
proof -
  obtain bs open_link where bs: "Scene_Wire.write_cells style_default None cs = (bs, open_link)" by fastforce
  have none: "link_shown None = None" by (simp add: link_shown_def)
  obtain pg1 where 1: "takes bs pg pg1" "types (attributed_cells cs) pg pg1" "pg_link pg1 = link_shown open_link"
    using takes_cells [OF assms(1), of pg None bs open_link] bs assms(2,3) none by auto
  show ?thesis
  proof (cases "open_link = None")
    case True
    then show ?thesis using 1 bs none by (auto simp: write_run_cells_def)
  next
    case False
    let ?pg = "pg1\<lparr>pg_link := link_shown None\<rparr>"
    have "takes (write_run_cells cs) pg ?pg"
      using takes_append [OF 1(1) takes_link [of None]] bs False by (simp add: write_run_cells_def)
    moreover have "types (attributed_cells cs) pg ?pg" using types_append [OF 1(2) types_update(2)] by simp
    ultimately show ?thesis using none by (intro exI [of _ ?pg]) simp
  qed
qed

section \<open>Rows\<close>

text \<open>
  What a full reconstruction sends for a row: the text of its cells with their styles and hyperlinks,
  and one blank more when the row is soft-wrapped, which makes the terminal go on in the next row.
\<close>

definition row_sent :: "bool \<Rightarrow> row \<Rightarrow> attributed \<Rightarrow> bool" where
  "row_sent wraps x sent \<longleftrightarrow>
     (\<exists>pen. sent = attributed_cells (row_cells x) @ (if wraps then [(CHR '' '', pen, None)] else []))"

text \<open>Cells hold text, no control bytes; and a soft-wrapped row, which is not erased first, has some.\<close>

definition printable_row :: "row \<Rightarrow> bool" where
  "printable_row x \<longleftrightarrow> list_all (\<lambda>c. plain_text (cell_grapheme c)) (row_cells x) \<and>
     (row_wrapped x \<longrightarrow> attributed_cells (row_cells x) \<noteq> [])"

definition same_titles :: "page \<Rightarrow> page \<Rightarrow> bool" where
  "same_titles pg pg' \<longleftrightarrow> pg_title pg' = pg_title pg \<and> pg_directory pg' = pg_directory pg"

text \<open>Some bytes send a row, whatever the page shows\<close>

definition sends_row :: "nat \<Rightarrow> bool \<Rightarrow> row \<Rightarrow> bytes \<Rightarrow> bool" where
  "sends_row i wraps x bs \<longleftrightarrow>
     (\<forall>pg. pg_link pg = None \<longrightarrow>
        (\<exists>pg' sent. takes bs pg pg' \<and> pg_text pg' = (pg_text pg)(i := sent) \<and> row_sent wraps x sent \<and>
           pg_link pg' = None \<and> same_titles pg pg'))"

lemma takes_row_at:
  assumes x: "printable_row x" and link: "pg_link pg = None"
  shows "\<exists>pg'. takes (write_row_at i x) pg pg' \<and> pg_text pg' = (pg_text pg)(i := attributed_cells (row_cells x)) \<and>
    pg_link pg' = None \<and> same_titles pg pg' \<and> pg_row pg' = i \<and> pg_fresh pg' = (attributed_cells (row_cells x) = [])"
proof -
  define pg1 where "pg1 = pg\<lparr>pg_row := i, pg_fresh := True, pg_cursor := (i, 0)\<rparr>"
  define pg2 where "pg2 = (if \<not> row_wrapped x then pg1\<lparr>pg_text := (pg_text pg1)(i := [])\<rparr> else pg1)"
  define pg3 where "pg3 = pg2\<lparr>pg_pen := style_default\<rparr>"
  have 1: "takes (ESC # ''['' @ show_nat (i + 1) @ '';'' @ ''1H'') pg pg1"
    using takes_position [of "i + 1" 1 pg] by (simp add: pg1_def show_nat_codes)
  have 2: "takes (if \<not> row_wrapped x then ESC # ''[2K'' else []) pg1 pg2"
    using takes_csi [of "''2''" "CHR ''K''" pg1] by (simp add: pg2_def pg1_def page_csi_def Let_def)
  have 3: "takes (ESC # ''[0m'') pg2 pg3" unfolding pg3_def by (rule takes_reset)
  have "list_all (\<lambda>c. plain_text (cell_grapheme c)) (row_cells x)" "pg_pen pg3 = style_default" "pg_link pg3 = None"
    using x link by (simp_all add: printable_row_def pg3_def pg2_def pg1_def)
  then obtain pg4 where 4: "takes (write_run_cells (row_cells x)) pg3 pg4"
      "types (attributed_cells (row_cells x)) pg3 pg4" "pg_link pg4 = None"
    using takes_run_cells by blast
  have "write_row_at i x = (ESC # ''['' @ show_nat (i + 1) @ '';'' @ ''1H'') @
      (if \<not> row_wrapped x then ESC # ''[2K'' else []) @ ESC # ''[0m'' @ write_run_cells (row_cells x)"
    by (simp add: write_row_at_def)
  then have "takes (write_row_at i x) pg pg4"
    using takes_append [OF 1 takes_append [OF 2 takes_append [OF 3 4(1)]]] by simp
  moreover have "pg_text pg4 = (pg_text pg)(i := attributed_cells (row_cells x))"
    using 4(2) x by (auto simp: types_def pg3_def pg2_def pg1_def printable_row_def split: if_splits)
  moreover have "pg_row pg4 = i \<and> pg_fresh pg4 = (attributed_cells (row_cells x) = []) \<and> same_titles pg pg4"
    using 4(2) by (auto simp: types_def pg3_def pg2_def pg1_def same_titles_def split: if_splits)
  ultimately show ?thesis using 4(3) by blast
qed

lemma sends_row_at: "printable_row x \<Longrightarrow> sends_row i False x (write_row_at i x)"
proof (unfold sends_row_def, intro allI impI)
  fix pg :: page
  assume x: "printable_row x" and "pg_link pg = None"
  then obtain pg1 where 1: "takes (write_row_at i x) pg pg1" "pg_text pg1 = (pg_text pg)(i := attributed_cells (row_cells x))"
      "pg_link pg1 = None" "same_titles pg pg1"
    using takes_row_at [OF x] by blast
  have "row_sent False x (attributed_cells (row_cells x))" by (simp add: row_sent_def)
  with 1 show "\<exists>pg' sent. takes (write_row_at i x) pg pg' \<and> pg_text pg' = (pg_text pg)(i := sent) \<and>
      row_sent False x sent \<and> pg_link pg' = None \<and> same_titles pg pg'" by blast
qed

lemma sends_wrapped_row:
  assumes "printable_row x" "row_wrapped x"
  shows "sends_row i True x (write_row_at i x @ '' '')"
proof (unfold sends_row_def, intro allI impI)
  fix pg :: page
  assume "pg_link pg = None"
  then obtain pg1 where 1: "takes (write_row_at i x) pg pg1" "pg_text pg1 = (pg_text pg)(i := attributed_cells (row_cells x))"
      "pg_link pg1 = None" "same_titles pg pg1" "pg_row pg1 = i" "\<not> pg_fresh pg1"
    using takes_row_at [OF assms(1)] assms by (auto simp: printable_row_def)
  obtain pg2 where 2: "takes '' '' pg1 pg2" "types [(CHR '' '', pg_pen pg1, None)] pg1 pg2" "pg_link pg2 = None"
    using takes_text [of "'' ''" pg1] 1(3) by (auto simp: plain_text_def byte_val_def)
  have "takes (write_row_at i x @ '' '') pg pg2" by (rule takes_append [OF 1(1) 2(1)])
  moreover have "pg_text pg2 = (pg_text pg)(i := attributed_cells (row_cells x) @ [(CHR '' '', pg_pen pg1, None)])"
    using 2(2) 1(2,5,6) by (simp add: types_def)
  moreover have "same_titles pg pg2" using 2(2) 1(4) by (simp add: types_def same_titles_def)
  ultimately show "\<exists>pg' sent. takes (write_row_at i x @ '' '') pg pg' \<and> pg_text pg' = (pg_text pg)(i := sent) \<and>
      row_sent True x sent \<and> pg_link pg' = None \<and> same_titles pg pg'"
    using 2(3) unfolding row_sent_def by fastforce
qed

lemma takes_rows:
  assumes "\<And>i. i < n \<Longrightarrow> sends_row i (w i) (rows ! i) (F i)" "pg_link pg = None"
  shows "\<exists>pg'. takes (concat (map F [0..<n])) pg pg' \<and> (\<forall>i < n. row_sent (w i) (rows ! i) (pg_text pg' i)) \<and>
    pg_link pg' = None \<and> same_titles pg pg'"
  using assms(1)
proof (induction n)
  case 0
  then show ?case using assms(2) by (intro exI [of _ pg]) (simp add: same_titles_def)
next
  case (Suc n)
  obtain pg1 where 1: "takes (concat (map F [0..<n])) pg pg1" "\<forall>i < n. row_sent (w i) (rows ! i) (pg_text pg1 i)"
      "pg_link pg1 = None" "same_titles pg pg1"
    using Suc by (meson less_Suc_eq)
  obtain pg2 sent where 2: "takes (F n) pg1 pg2" "pg_text pg2 = (pg_text pg1)(n := sent)" "row_sent (w n) (rows ! n) sent"
      "pg_link pg2 = None" "same_titles pg1 pg2"
    using Suc.prems [of n, unfolded sends_row_def] 1(3) by blast
  have "takes (concat (map F [0..<Suc n])) pg pg2" using takes_append [OF 1(1) 2(1)] by simp
  then show ?case using 1 2 by (intro exI [of _ pg2]) (auto simp: less_Suc_eq same_titles_def)
qed

lemma sends_row_autowrap:
  assumes "sends_row i w x bs" shows "sends_row i w x (ESC # ''[?7l'' @ bs @ ESC # ''[?7h'')"
proof -
  have m: "takes (ESC # ''[?7l'') pg (page_mode 7 False pg)" "takes (ESC # ''[?7h'') pg (page_mode 7 True pg)" for pg
    using takes_private_mode [of 7 False pg] takes_private_mode [of 7 True pg]
    by (simp_all add: write_private_mode_def show_nat_codes)
  have id: "page_mode 7 b pg = pg" for b pg by (simp add: page_mode_def set_private_mode_def)
  have "takes (ESC # ''[?7l'' @ bs @ ESC # ''[?7h'') pg pg'" if "takes bs pg pg'" for pg pg'
    using takes_append [OF m(1) [of pg] takes_append [of bs "page_mode 7 False pg" pg' "ESC # ''[?7h''" pg']] that m(2) [of pg'] by (simp add: id)
  then show ?thesis using assms unfolding sends_row_def by blast
qed

text \<open>Every row is sent, and the last time whole, even where the last row is wrapped and all are sent twice.\<close>

lemma takes_full_rows:
  assumes rows: "list_all printable_row (ps_rows p)" and link: "pg_link pg = None"
  shows "\<exists>pg'. takes (write_full_rows p) pg pg' \<and>
    (\<forall>i < length (ps_rows p). row_sent (row_wrapped (ps_rows p ! i) \<and> i + 1 < length (ps_rows p)) (ps_rows p ! i) (pg_text pg' i)) \<and>
    pg_link pg' = None \<and> same_titles pg pg'"
proof -
  define rows where "rows = ps_rows p"
  define n where "n = length rows"
  define w where "w = (\<lambda>i. row_wrapped (rows ! i) \<and> i + 1 < n)"
  define F where "F = (\<lambda>i. (if \<not> row_wrapped (rows ! i) then ESC # ''[?7l'' else []) @ write_row_at i (rows ! i) @
          (if \<not> row_wrapped (rows ! i) then ESC # ''[?7h'' else []) @ (if row_wrapped (rows ! i) \<and> i + 1 < n then '' '' else []))"
  define G where "G = (\<lambda>i. write_row_at i (rows ! i) @ (if row_wrapped (rows ! i) \<and> i < n - 1 then '' '' else []))"
  have x: "printable_row (rows ! i)" if "i < n" for i using rows that by (simp add: rows_def n_def list_all_length)
  have G: "sends_row i (w i) (rows ! i) (G i)" if "i < n" for i
    using sends_row_at [OF x [OF that], of i] sends_wrapped_row [OF x [OF that], of i] by (auto simp: G_def w_def less_diff_conv)
  have F: "sends_row i (w i) (rows ! i) (F i)" if "i < n" for i
  proof (cases "row_wrapped (rows ! i)")
    case True
    then have "F i = G i" by (auto simp: F_def G_def less_diff_conv)
    then show ?thesis using G [OF that] by simp
  next
    case False
    then show ?thesis using sends_row_autowrap [OF sends_row_at [OF x [OF that], of i]] by (simp add: F_def w_def)
  qed
  obtain pg1 where 1: "takes (concat (map F [0..<n])) pg pg1" "\<forall>i < n. row_sent (w i) (rows ! i) (pg_text pg1 i)"
      "pg_link pg1 = None" "same_titles pg pg1"
    using takes_rows [OF F link] by blast
  show ?thesis
  proof (cases "2 \<le> n \<and> row_wrapped (last rows)")
    case False
    then have "write_full_rows p = concat (map F [0..<n])"
      unfolding write_full_rows_def Let_def F_def n_def rows_def by (simp only: if_False append_Nil2)
    then show ?thesis using 1 unfolding w_def n_def rows_def by (intro exI [of _ pg1]) simp
  next
    case True
    define pg2 where "pg2 = pg1\<lparr>pg_row := n - 1 - 1, pg_fresh := (grid_cols (ps_geometry p) \<le> 1),
      pg_cursor := (n - 1 - 1, grid_cols (ps_geometry p) - 1), pg_pen := style_default\<rparr>"
    have 2: "takes (ESC # ''['' @ show_nat (n - 1) @ '';'' @ show_nat (grid_cols (ps_geometry p)) @ ''H'' @ ESC # ''[0m'') pg1 pg2"
      using takes_append [OF takes_position [of "n - 1" "grid_cols (ps_geometry p)" pg1] takes_reset] by (simp add: pg2_def)
    obtain pg3 where 3: "takes ''XX'' pg2 pg3" "types (map (\<lambda>b. (b, pg_pen pg2, pg_link pg2)) ''XX'') pg2 pg3" "pg_link pg3 = pg_link pg2"
      using takes_text [of "''XX''" pg2] by (auto simp: plain_text_def byte_val_def)
    define pg4 where "pg4 = pg3\<lparr>pg_fresh := True, pg_row := pg_row pg3 + 1\<rparr>"
    have 4: "takes [CHR 0x0D, CHR 0x0A] pg3 pg4"
      unfolding takes_def by (simp add: read_page.simps [of "_ # _"] page_control_def byte_val_def pg4_def)
    have link4: "pg_link pg4 = None" using 3(3) 1(3) by (simp add: pg4_def pg2_def)
    obtain pg5 where 5: "takes (concat (map G [0..<n])) pg4 pg5" "\<forall>i < n. row_sent (w i) (rows ! i) (pg_text pg5 i)"
        "pg_link pg5 = None" "same_titles pg4 pg5"
      using takes_rows [OF G link4] by blast
    have "write_full_rows p = concat (map F [0..<n]) @
        (ESC # ''['' @ show_nat (n - 1) @ '';'' @ show_nat (grid_cols (ps_geometry p)) @ ''H'' @ ESC # ''[0m'') @ ''XX'' @
        [CHR 0x0D, CHR 0x0A] @ concat (map G [0..<n])"
      using True unfolding write_full_rows_def Let_def F_def G_def n_def rows_def by simp
    then have "takes (write_full_rows p) pg pg5"
      using takes_append [OF 1(1) takes_append [OF 2 takes_append [OF 3(1) takes_append [OF 4 5(1)]]]] by simp
    moreover have "same_titles pg pg5"
      using 1(4) 3(2) 5(4) by (simp add: same_titles_def types_def pg4_def pg2_def)
    ultimately show ?thesis using 5 unfolding w_def n_def rows_def by (intro exI [of _ pg5]) simp
  qed
qed

section \<open>Images\<close>

lemma no_escape [simp]: "ESC \<notin> set (show_nat n)" "ESC \<notin> set (show_int i)"
  using show_nat_set [of ESC] by (auto simp: show_int_def is_ascii_digit_def byte_val_def)

lemma in_csi_int [simp]: "list_all in_csi (show_int i)"
  by (simp add: show_int_def)

lemma quiet_delete: "quiet (ESC # ''_Ga=d,d='' @ [c] @ ST)" if "c \<noteq> ESC" for c
  using quiet_apc [of "''Ga=d,d='' @ [c]"] that by simp

lemma base64_no_escape: "ESC \<notin> set (encode_base64 bs)"
proof -
  have "ESC \<notin> insert (CHR ''='') (set base64_table)" by (simp add: base64_table_def)
  then show ?thesis using encode_base64_decodes [of bs] by blast
qed

lemma quiet_kitty_upload: "quiet (write_kitty_upload n u)"
proof -
  define ps where "ps = kitty_pieces (encode_base64 (iu_data u))"
  have "0 < KITTY_BASE64_CHUNK_BYTES" by (simp add: KITTY_BASE64_CHUNK_BYTES_def)
  then have concat: "concat (map snd ps) = encode_base64 (iu_data u)"
    using chunks_props [of KITTY_BASE64_CHUNK_BYTES "encode_base64 (iu_data u)"] by (simp add: ps_def kitty_pieces_snd)
  have chunk: "ESC \<notin> set (snd p)" if "p \<in> set ps" for p
    using that base64_no_escape [of "iu_data u"] by (fastforce simp flip: concat)
  have piece: "quiet ((if i = 0 then kitty_header n u else ESC # ''_Gm='') @ show_nat (of_bool more) @ '';'' @ chunk @ ST)"
    if "ESC \<notin> set chunk" for i :: nat and more chunk
    using that quiet_apc [of "drop 2 (kitty_header n u) @ show_nat (of_bool more) @ '';'' @ chunk"]
      quiet_apc [of "''Gm='' @ show_nat (of_bool more) @ '';'' @ chunk"]
    by (simp add: kitty_header_def)
  have "write_kitty_upload n u = concat (map (\<lambda>(i, more, chunk).
         (if i = 0 then kitty_header n u else ESC # ''_Gm='') @ show_nat (of_bool more) @ '';'' @ chunk @ ST) (enumerate 0 ps))"
    by (simp add: write_kitty_upload_def ps_def)
  moreover have "snd x \<in> set ps" if "x \<in> set (enumerate 0 ps)" for x
    using that by (auto simp: in_set_enumerate_eq dest!: nth_mem [of "fst x" ps])
  then have "ESC \<notin> set (snd (snd x))" if "x \<in> set (enumerate 0 ps)" for x
    using chunk that by blast
  then have "list_all quiet (map (\<lambda>(i, more, chunk).
         (if i = 0 then kitty_header n u else ESC # ''_Gm='') @ show_nat (of_bool more) @ '';'' @ chunk @ ST) (enumerate 0 ps))"
    unfolding list_all_iff set_map ball_simps(9) case_prod_unfold using piece by blast
  ultimately show ?thesis using quiet_concat by simp
qed

lemma quiet_kitty_placement: "quiet (write_kitty_placement img)"
proof -
  define place where "place = show_int (sat_i32 (rect_top (pi_grid_rect img) + 1)) @ '';'' @ show_int (sat_i32 (rect_left (pi_grid_rect img) + 1))"
  define body where "body = ''Ga=p,i='' @ show_nat (pi_image_id img) @ '',p='' @ show_nat (pi_placement_id img) @
     '',x='' @ show_nat (pi_source_x img) @ '',y='' @ show_nat (pi_source_y img) @
     '',w='' @ show_nat (pi_source_width img) @ '',h='' @ show_nat (pi_source_height img) @
     '',X='' @ show_nat (pi_x_offset img) @ '',Y='' @ show_nat (pi_y_offset img) @
     '',c='' @ show_nat (gr_cols (pi_grid_rect img)) @ '',r='' @ show_nat (gr_rows (pi_grid_rect img)) @
     '',C=1,U='' @ show_nat (of_bool (pi_virtual_placement img)) @ '',z='' @ show_int (pi_z_index img) @ '';''"
  have "quiet (ESC # CHR ''['' # place @ [CHR ''H''])" by (rule quiet_csi) (simp_all add: place_def)
  moreover have "quiet (ESC # CHR ''_'' # body @ ST)" by (rule quiet_apc) (simp add: body_def)
  moreover have "write_kitty_placement img = (ESC # CHR ''['' # place @ [CHR ''H'']) @ (ESC # CHR ''_'' # body @ ST)"
    by (simp add: write_kitty_placement_def place_def body_def)
  ultimately show ?thesis using quiet_append [of "ESC # CHR ''['' # place @ [CHR ''H'']" "ESC # CHR ''_'' # body @ ST"] by simp
qed

lemma quiet_kitty_uploads: "write_kitty_uploads ids retained uploaded us = Some bs \<Longrightarrow> quiet bs"
  by (induction us arbitrary: uploaded bs)
    (auto simp: Option.bind_eq_Some_conv intro!: quiet_append quiet_kitty_upload split: if_splits)

lemma quiet_kitty_placements: "write_kitty_placements sc rs = Ok bs \<Longrightarrow> quiet bs"
  by (induction rs arbitrary: bs) (auto simp: result_simps intro!: quiet_append quiet_kitty_placement split: if_splits)

lemma quiet_kitty_images: "write_kitty_images sc q retained = Some (Ok bs) \<Longrightarrow> quiet bs"
  by (auto simp: write_kitty_images_def Option.bind_eq_Some_conv result_simps quiet_kitty_uploads quiet_kitty_placements
      intro!: quiet_append split: if_splits)

section \<open>The end of a frame\<close>

lemma leaves_text_mode_changes: "leaves_text (write_mode_changes before after)"
  unfolding write_mode_changes_def
  by (intro leaves_text_append leaves_text_concat) (simp_all add: leaves_text_parts)

lemma leaves_text_effects: "leaves_text (effect_bytes caps presented intended)"
  unfolding effect_bytes_def
  by (intro leaves_text_append) (simp_all add: leaves_text_parts leaves_text_append leaves_text_mode_changes)

text \<open>What follows the runs of a frame changes nothing of the text on the screen.\<close>

lemma frame_closing_leaves_text: "frame_closing caps presented intended moved closing \<Longrightarrow> leaves_text closing"
  unfolding frame_closing_def
  by (auto intro!: leaves_text_append leaves_text_effects quiet_leaves [OF quiet_cursor] quiet_leaves [OF quiet_bells] simp: leaves_text_parts)

end
