(* ===== verification/Scene_Renderer.thy ===== *)
theory Scene_Renderer
  imports Scene_Reader
begin

text \<open>
  The renderer of \<^verbatim>\<open>presentation.rs\<close>: full reconstruction, the incremental renderer's state (what is
  confirmed, its capabilities) and the choice between its paths. The lemmas show that rendering never
  panics and that each path leaves the terminal with the intended scene.
\<close>

section \<open>Full reconstruction\<close>

definition delete_stale :: "presented_image_upload list \<Rightarrow> presented_image_upload list \<Rightarrow> bytes" where
  "delete_stale retained intended =
     concat (map (\<lambda>u. ESC # ''_Ga=d,d=I,i='' @ show_nat (pu_image_id u) @ ST) (filter (\<lambda>u. u \<notin> set intended) retained))"

definition baseline :: "terminal_geometry \<Rightarrow> bytes" where
  "baseline g =
     ESC # ''[?6l'' @ ESC # ''[?7h'' @ ESC # ''[4l'' @ ESC # ''[r'' @ ESC # ''[?69h'' @
     ESC # ''[1;'' @ show_nat (grid_cols g) @ ''s'' @ ESC # ''[?69l'' @ ESC # ''[0m'' @ ESC # '']8;;'' @ ST"

definition clear_media :: "render_capabilities \<Rightarrow> Scene_Types.presented_scene \<Rightarrow> presented_image_upload list option \<Rightarrow> bytes" where
  "clear_media caps intended retained =
     (if \<not> rc_kitty_graphics caps then []
      else case retained of
        Some uploads \<Rightarrow> ESC # ''_Ga=d,d=a'' @ ST @ delete_stale uploads (ps_image_uploads intended)
      | None \<Rightarrow> ESC # ''_Ga=d,d=A'' @ ST)"

definition encode_scene ::
  "render_capabilities \<Rightarrow> scene \<Rightarrow> Scene_Types.presented_scene \<Rightarrow> presented_image_upload list option \<Rightarrow>
   (bytes, presentation_error) result option" where
  "encode_scene caps sc intended retained =
     map_option (\<lambda>r. bind_result r (\<lambda>kitty. Ok (
         (if rc_synchronized_output caps then ESC # ''[?2026h'' else []) @
         baseline (ps_geometry intended) @ clear_media caps intended retained @
         (if retained \<noteq> None then ESC # ''[H'' else ESC # ''[2J'' @ ESC # ''[H'') @
         (if rc_inline_terminal_effects caps
          then write_terminal_string 2 (ps_title intended) @ write_terminal_string 7 (ps_working_directory intended) else []) @
         write_full_rows intended @ kitty @ ESC # '']8;;'' @ ST @ ESC # ''[0m'' @
         write_cursor (ps_cursor intended) @ write_modes (ps_modes intended) (rc_synchronized_output caps) @ bell_bytes intended)))
       (if rc_kitty_graphics caps
        then write_kitty_images sc intended (case retained of None \<Rightarrow> [] | Some uploads \<Rightarrow> uploads) else Some (Ok []))"

definition render_with_retained_uploads ::
  "render_capabilities \<Rightarrow> scene \<Rightarrow> Scene_Types.presented_scene \<Rightarrow> bool \<Rightarrow> (scene_batch, presentation_error) result option" where
  "render_with_retained_uploads caps sc presented retain =
     Option.bind (compose sc) (\<lambda>p.
       let predicted = apply_render_capabilities caps p;
           retain = (retain \<and> ps_geometry presented = ps_geometry predicted \<and> ps_screen presented = ps_screen predicted)
       in map_option (\<lambda>r. bind_result r (\<lambda>bs. Ok
            \<lparr>sb_transactions = [\<lparr>ot_resize = (if ps_geometry presented \<noteq> sc_geometry sc then Some (sc_geometry sc) else None), ot_bytes = bs\<rparr>],
             sb_predicted = predicted\<rparr>))
          (encode_scene caps sc predicted (if retain then Some (ps_image_uploads presented) else None)))"

section \<open>The renderer\<close>

datatype render_strategy = StrategyNoop | StrategyIncremental | StrategySemanticFastPath | StrategyFullFallback

record renderer =
  rn_capabilities :: render_capabilities
  rn_full :: render_capabilities
  rn_confirmed :: "Scene_Types.presented_scene option"
  rn_last_strategy :: render_strategy
  rn_last_stats :: render_stats

definition renderer_new :: "render_capabilities \<Rightarrow> renderer" where
  "renderer_new caps = \<lparr>rn_capabilities = caps, rn_full = caps, rn_confirmed = None, rn_last_strategy = StrategyNoop,
     rn_last_stats = render_stats_default\<rparr>"

definition renderer_invalidate :: "renderer \<Rightarrow> renderer" where
  "renderer_invalidate r = r\<lparr>rn_confirmed := None\<rparr>"

definition renderer_set_capabilities :: "render_capabilities \<Rightarrow> renderer \<Rightarrow> renderer" where
  "renderer_set_capabilities caps r =
     (let r = (if rn_capabilities r \<noteq> caps then renderer_invalidate r else r)
      in r\<lparr>rn_capabilities := caps, rn_full := caps\<rparr>)"

definition renderer_confirm :: "Scene_Types.presented_scene \<Rightarrow> renderer \<Rightarrow> renderer" where
  "renderer_confirm presented r = r\<lparr>rn_confirmed := Some presented\<rparr>"

definition saturating_product :: "nat \<Rightarrow> nat \<Rightarrow> nat" where
  "saturating_product a b = min (a * b) usize_max"

type_synonym render_result = "((scene_batch, presentation_error) result \<times> renderer) option"

definition full_fallback :: "scene \<Rightarrow> Scene_Types.presented_scene \<Rightarrow> bool \<Rightarrow> renderer \<Rightarrow> render_result" where
  "full_fallback sc presented retain r =
     (let r = r\<lparr>rn_last_strategy := StrategyFullFallback\<rparr>; cells = saturating_product (grid_rows (sc_geometry sc)) (grid_cols (sc_geometry sc)) in
      map_option (\<lambda>res.
          case res of
            Ok batch \<Rightarrow> (Ok batch, r\<lparr>rn_last_stats :=
              \<lparr>rs_rows_considered = grid_rows (sc_geometry sc), rs_cells_compared = cells, rs_cells_emitted = cells,
               rs_bytes_emitted = sum_list (map (\<lambda>t. length (ot_bytes t)) (sb_transactions batch))\<rparr>\<rparr>)
          | Err e \<Rightarrow> (Err e, renderer_invalidate r))
        (render_with_retained_uploads (rn_full r) sc presented retain))"

definition is_full_damage :: "scene_damage \<Rightarrow> bool" where
  "is_full_damage d \<longleftrightarrow> (case d of SceneFull \<Rightarrow> True | SceneResize _ _ \<Rightarrow> True | SceneSurfaces _ \<Rightarrow> True | _ \<Rightarrow> False)"

definition can_increment :: "scene_damage \<Rightarrow> Scene_Types.presented_scene \<Rightarrow> Scene_Types.presented_scene \<Rightarrow> bool \<Rightarrow> bool" where
  "can_increment d presented intended confirmed_matches_presented \<longleftrightarrow>
     confirmed_matches_presented \<and> ps_geometry presented = ps_geometry intended \<and> ps_screen presented = ps_screen intended \<and>
     ps_image_uploads presented = ps_image_uploads intended \<and> ps_images presented = ps_images intended \<and> \<not> is_full_damage d"

text \<open>\<^verbatim>\<open>incremental_batch\<close> as a method: what it records, and the full reconstruction where it gives up\<close>

definition increment_or_fall_back ::
  "scene_damage \<Rightarrow> scene \<Rightarrow> Scene_Types.presented_scene \<Rightarrow> Scene_Types.presented_scene \<Rightarrow> bool \<Rightarrow> renderer \<Rightarrow> render_result" where
  "increment_or_fall_back d sc presented intended confirmed_matches r =
     (case incremental_batch (rn_capabilities r) d presented intended of
        Some (batch, stats) \<Rightarrow> Some (Ok batch, r\<lparr>rn_last_stats := stats,
          rn_last_strategy := (if rs_bytes_emitted stats = 0 then StrategyNoop else StrategyIncremental)\<rparr>)
      | None \<Rightarrow> full_fallback sc presented confirmed_matches r)"

definition is_write_run :: "scene_operation \<Rightarrow> bool" where
  "is_write_run op \<longleftrightarrow> (case op of SceneWriteRun _ _ \<Rightarrow> True | _ \<Rightarrow> False)"

definition is_erase_chars :: "scene_operation \<Rightarrow> bool" where
  "is_erase_chars op \<longleftrightarrow> (case op of SceneEraseChars _ \<Rightarrow> True | _ \<Rightarrow> False)"

definition confirms :: "renderer \<Rightarrow> Scene_Types.presented_scene \<Rightarrow> bool" where
  "confirms r presented \<longleftrightarrow>
     (case rn_confirmed r of
        None \<Rightarrow> False
      | Some confirmed \<Rightarrow> physically_matches confirmed presented \<and> ps_image_uploads confirmed = ps_image_uploads presented)"

definition render_operations ::
  "scene_damage \<Rightarrow> u64 \<Rightarrow> scene_operation list \<Rightarrow> scene \<Rightarrow> Scene_Types.presented_scene \<Rightarrow> Scene_Types.presented_scene \<Rightarrow> bool \<Rightarrow>
   renderer \<Rightarrow> render_result" where
  "render_operations d owner ops sc presented intended confirmed_matches r =
     (let only_writes = list_all is_write_run ops;
          erase_and_write = (list_ex is_write_run ops \<and> list_all (\<lambda>op. is_write_run op \<or> is_erase_chars op) ops)
      in if only_writes \<or> erase_and_write
         then (case incremental_batch (rn_capabilities r) d presented intended of
                 Some (batch, stats) \<Rightarrow> Some (Ok batch, r\<lparr>rn_last_stats := stats,
                   rn_last_strategy := (if rs_bytes_emitted stats = 0 then StrategyNoop else StrategySemanticFastPath)\<rparr>)
               | None \<Rightarrow> full_fallback sc presented confirmed_matches r)
         else (case semantic_batch (rn_capabilities r) sc owner ops presented intended of
                 AttemptPanicked \<Rightarrow> None
               | Batch batch stats \<Rightarrow> Some (Ok batch, r\<lparr>rn_last_stats := stats, rn_last_strategy := StrategySemanticFastPath\<rparr>)
               | NotApplicable \<Rightarrow> increment_or_fall_back d sc presented intended confirmed_matches r
               | Inconsistent \<Rightarrow> full_fallback sc presented confirmed_matches r))"

text \<open>\<^verbatim>\<open>RendererBackend::render\<close>; None is a panic\<close>

definition render :: "scene \<Rightarrow> scene_damage \<Rightarrow> Scene_Types.presented_scene \<Rightarrow> renderer \<Rightarrow> render_result" where
  "render sc d presented r =
     Option.bind (compose sc) (\<lambda>p.
       let intended = apply_render_capabilities (rn_capabilities r) p; confirmed_matches = confirms r presented in
       if confirmed_matches \<and> is_full_damage d \<and> physically_matches presented intended \<and>
          ps_image_uploads presented = ps_image_uploads intended
       then Some (Ok \<lparr>sb_transactions = [], sb_predicted = intended\<rparr>,
              r\<lparr>rn_last_stats := render_stats_default, rn_last_strategy := StrategyNoop\<rparr>)
       else if \<not> can_increment d presented intended confirmed_matches then full_fallback sc presented confirmed_matches r
       else case d of
         SceneOperations owner _ ops \<Rightarrow> render_operations d owner ops sc presented intended confirmed_matches r
       | _ \<Rightarrow> increment_or_fall_back d sc presented intended confirmed_matches r)"

inductive renderer_reachable :: "renderer \<Rightarrow> bool" where
  start: "renderer_reachable (renderer_new caps)"
| set_capabilities: "renderer_reachable r \<Longrightarrow> renderer_reachable (renderer_set_capabilities caps r)"
| confirm: "renderer_reachable r \<Longrightarrow> renderer_reachable (renderer_confirm p r)"
| invalidate: "renderer_reachable r \<Longrightarrow> renderer_reachable (renderer_invalidate r)"
| render: "renderer_reachable r \<Longrightarrow> render sc d p r = Some (res, r') \<Longrightarrow> renderer_reachable r'"

section \<open>What a terminal shows after a reconstruction\<close>

lemma quiet_clear_media: "quiet (clear_media caps q retained)"
proof -
  have stale: "quiet (delete_stale uploads us)" for uploads us
  proof -
    have "quiet (ESC # ''_Ga=d,d=I,i='' @ show_nat n @ ST)" for n
      using quiet_apc [of "''Ga=d,d=I,i='' @ show_nat n"] by simp
    then show ?thesis unfolding delete_stale_def by (intro quiet_concat) (auto simp: list_all_iff)
  qed
  show ?thesis
    using quiet_delete [of "CHR ''a''"] quiet_delete [of "CHR ''A''"] quiet_append [OF quiet_delete [of "CHR ''a''"] stale]
    by (auto simp: clear_media_def split: option.split)
qed

lemma takes_baseline: "\<exists>pg'. takes (baseline g) pg pg' \<and> pg_link pg' = None"
proof -
  define margins where "margins = ESC # CHR ''['' # (''1;'' @ show_nat (grid_cols g)) @ [CHR ''s'']"
  define front where "front = concat [ESC # CHR ''['' # ''?6'' @ [CHR ''l''], ESC # CHR ''['' # ''?7'' @ [CHR ''h''],
      ESC # CHR ''['' # ''4'' @ [CHR ''l''], ESC # CHR ''['' # [] @ [CHR ''r''], ESC # CHR ''['' # ''?69'' @ [CHR ''h''],
      margins, ESC # CHR ''['' # ''?69'' @ [CHR ''l''], ESC # CHR ''['' # ''0'' @ [CHR ''m'']]"
  have "quiet margins" unfolding margins_def by (rule quiet_csi) simp_all
  then have "quiet front"
    unfolding front_def by (intro quiet_concat) (simp add: quiet_csi del: append.simps)
  then obtain pg1 where "takes front pg pg1" unfolding quiet_def by blast
  moreover have "link_shown None = None" by (simp add: link_shown_def)
  moreover have "baseline g = front @ write_hyperlink None" by (simp add: baseline_def front_def margins_def write_hyperlink_def)
  ultimately show ?thesis using takes_append takes_link by fastforce
qed

lemma takes_home: "\<exists>pg'. takes (if known then ESC # ''[H'' else ESC # ''[2J'' @ ESC # ''[H'') pg pg' \<and> keeps pg pg'"
proof -
  have home: "quiet (ESC # ''[H'')" using quiet_csi [of "[]" "CHR ''H''"] by simp
  have clear: "takes (ESC # ''[2J'') pg (pg\<lparr>pg_text := \<lambda>_. []\<rparr>)"
    using takes_csi [of "''2''" "CHR ''J''" pg] by (simp add: page_csi_def Let_def)
  obtain a b where "takes (ESC # ''[H'') pg a" "keeps pg a" "takes (ESC # ''[H'') (pg\<lparr>pg_text := \<lambda>_. []\<rparr>) b" "keeps (pg\<lparr>pg_text := \<lambda>_. []\<rparr>) b"
    using home unfolding quiet_def by blast
  then show ?thesis using takes_append [OF clear] by (cases known) (auto simp: keeps_def)
qed

text \<open>A page shows a scene: each row holds what was to be sent for it, and the cursor, the modes and,
  where the capabilities let them through, the titles are the scene's.\<close>

definition page_shows :: "render_capabilities \<Rightarrow> Scene_Types.presented_scene \<Rightarrow> page \<Rightarrow> bool" where
  "page_shows caps q pg \<longleftrightarrow>
     (\<forall>i < length (ps_rows q). row_sent (row_wrapped (ps_rows q ! i) \<and> i + 1 < length (ps_rows q)) (ps_rows q ! i) (pg_text pg i)) \<and>
     page_cursor (ps_cursor q) pg \<and> pg_modes pg = ps_modes q \<and> pg_link pg = None \<and>
     (rc_inline_terminal_effects caps \<longrightarrow>
        pg_title pg = printable_bytes (case ps_title q of None \<Rightarrow> [] | Some s \<Rightarrow> s) \<and>
        pg_directory pg = printable_bytes (case ps_working_directory q of None \<Rightarrow> [] | Some s \<Rightarrow> s))"

lemma encode_scene_shown:
  assumes enc: "encode_scene caps sc q retained = Some (Ok bs)" and rows: "list_all printable_row (ps_rows q)"
  shows "\<exists>pg'. read_page bs pg = Some pg' \<and> page_shows caps q pg'"
proof -
  obtain kitty where bs: "bs = (if rc_synchronized_output caps then ESC # ''[?2026h'' else []) @
         baseline (ps_geometry q) @ clear_media caps q retained @
         (if retained \<noteq> None then ESC # ''[H'' else ESC # ''[2J'' @ ESC # ''[H'') @
         (if rc_inline_terminal_effects caps
          then write_terminal_string 2 (ps_title q) @ write_terminal_string 7 (ps_working_directory q) else []) @
         write_full_rows q @ kitty @ write_hyperlink None @ ESC # ''[0m'' @
         write_cursor (ps_cursor q) @ write_modes (ps_modes q) (rc_synchronized_output caps) @ bell_bytes q"
    and kitty: "quiet kitty"
    using enc quiet_kitty_images by (fastforce simp: encode_scene_def result_simps write_hyperlink_def split: if_splits)
  have none: "link_shown None = None" by (simp add: link_shown_def)
  have "quiet (if rc_synchronized_output caps then ESC # ''[?2026h'' else [])"
    using quiet_csi [of "''?2026''" "CHR ''h''"] by simp
  then obtain pg1 where 1: "takes (if rc_synchronized_output caps then ESC # ''[?2026h'' else []) pg pg1" unfolding quiet_def by blast
  obtain pg2 where 2: "takes (baseline (ps_geometry q)) pg1 pg2" "pg_link pg2 = None" using takes_baseline by blast
  obtain pg3 where 3: "takes (clear_media caps q retained) pg2 pg3" "keeps pg2 pg3"
    using quiet_clear_media unfolding quiet_def by blast
  obtain pg4 where 4: "takes (if retained \<noteq> None then ESC # ''[H'' else ESC # ''[2J'' @ ESC # ''[H'') pg3 pg4" "keeps pg3 pg4"
    using takes_home by blast
  define pg5 where "pg5 = (if rc_inline_terminal_effects caps
      then pg4\<lparr>pg_title := printable_bytes (case ps_title q of None \<Rightarrow> [] | Some s \<Rightarrow> s),
        pg_directory := printable_bytes (case ps_working_directory q of None \<Rightarrow> [] | Some s \<Rightarrow> s)\<rparr> else pg4)"
  have 5: "takes (if rc_inline_terminal_effects caps
      then write_terminal_string 2 (ps_title q) @ write_terminal_string 7 (ps_working_directory q) else []) pg4 pg5"
    using takes_append [OF takes_title [of "ps_title q" pg4] takes_directory [of "ps_working_directory q"]] by (simp add: pg5_def)
  have "pg_link pg5 = None" using 2(2) 3(2) 4(2) by (simp add: pg5_def keeps_def)
  then obtain pg6 where 6: "takes (write_full_rows q) pg5 pg6"
      "\<forall>i < length (ps_rows q). row_sent (row_wrapped (ps_rows q ! i) \<and> i + 1 < length (ps_rows q)) (ps_rows q ! i) (pg_text pg6 i)"
      "same_titles pg5 pg6"
    using takes_full_rows [OF rows] by blast
  obtain pg7 where 7: "takes kitty pg6 pg7" "pg_text pg7 = pg_text pg6" "keeps pg6 pg7" using kitty unfolding quiet_def by blast
  define pg8 where "pg8 = pg7\<lparr>pg_link := None, pg_pen := style_default\<rparr>"
  have 8: "takes (write_hyperlink None @ ESC # ''[0m'') pg7 pg8"
    using takes_append [OF takes_link [of None pg7] takes_reset] by (simp add: pg8_def none)
  obtain pg9 where 9: "takes (write_cursor (ps_cursor q)) pg8 pg9" "page_cursor (ps_cursor q) pg9" "pg_text pg9 = pg_text pg8" "keeps pg8 pg9"
    using takes_cursor by blast
  define pg10 where "pg10 = pg9\<lparr>pg_modes := ps_modes q\<rparr>"
  have 10: "takes (write_modes (ps_modes q) (rc_synchronized_output caps)) pg9 pg10" unfolding pg10_def by (rule takes_modes)
  have 11: "takes (bell_bytes q) pg10 pg10" unfolding bell_bytes_def by (rule takes_bells)
  have "takes bs pg pg10"
    unfolding bs using takes_append [OF 1 takes_append [OF 2(1) takes_append [OF 3(1) takes_append [OF 4(1) takes_append [OF 5
      takes_append [OF 6(1) takes_append [OF 7(1) takes_append [OF 8 takes_append [OF 9(1) takes_append [OF 10 11]]]]]]]]]]
    by simp
  then have "read_page bs pg = Some pg10" by (rule takes_reads)
  moreover have "page_shows caps q pg10"
    using 6(2,3) 7(2,3) 9(2-4) by (simp add: page_shows_def pg10_def pg8_def pg5_def page_cursor_def keeps_def same_titles_def)
  ultimately show ?thesis by blast
qed

section \<open>What the renderer guarantees\<close>

lemma full_fallbackE:
  assumes "full_fallback sc p retain r = Some (res, r')"
  obtains batch stats where "res = Ok batch" "render_with_retained_uploads (rn_full r) sc p retain = Some (Ok batch)"
      "r' = r\<lparr>rn_last_strategy := StrategyFullFallback, rn_last_stats := stats\<rparr>"
    | e where "res = Err e" "r' = r\<lparr>rn_last_strategy := StrategyFullFallback, rn_confirmed := None\<rparr>"
proof -
  obtain z where z: "render_with_retained_uploads (rn_full r) sc p retain = Some z"
    using assms by (auto simp: full_fallback_def Let_def)
  show thesis
    using assms that by (cases z) (auto simp: full_fallback_def Let_def z renderer_invalidate_def)
qed

lemma full_fallback_keeps:
  assumes "full_fallback sc p retain r = Some (res, r')"
  shows "rn_full r' = rn_full r \<and> rn_capabilities r' = rn_capabilities r \<and>
   (case res of Ok _ \<Rightarrow> rn_confirmed r' = rn_confirmed r | Err _ \<Rightarrow> rn_confirmed r' = None)"
  using assms by (rule full_fallbackE) simp_all

lemma increment_keeps:
  "increment_or_fall_back d sc p q confirmed_matches r = Some (res, r') \<Longrightarrow>
   rn_full r' = rn_full r \<and> rn_capabilities r' = rn_capabilities r \<and>
   (case res of Ok _ \<Rightarrow> rn_confirmed r' = rn_confirmed r | Err _ \<Rightarrow> rn_confirmed r' = None)"
  using full_fallback_keeps by (fastforce simp: increment_or_fall_back_def split: option.splits)

lemma operations_keeps:
  "render_operations d owner ops sc p q confirmed_matches r = Some (res, r') \<Longrightarrow>
   rn_full r' = rn_full r \<and> rn_capabilities r' = rn_capabilities r \<and>
   (case res of Ok _ \<Rightarrow> rn_confirmed r' = rn_confirmed r | Err _ \<Rightarrow> rn_confirmed r' = None)"
  unfolding render_operations_def Let_def
  by (auto dest: full_fallback_keeps increment_keeps split: if_splits option.splits semantic_attempt.splits)

lemma render_keeps:
  assumes "render sc d p r = Some (res, r')"
  shows "rn_full r' = rn_full r \<and> rn_capabilities r' = rn_capabilities r \<and>
   (case res of Ok _ \<Rightarrow> rn_confirmed r' = rn_confirmed r | Err _ \<Rightarrow> rn_confirmed r' = None)"
  using assms unfolding render_def Let_def
  by (auto simp: Option.bind_eq_Some_conv dest: full_fallback_keeps increment_keeps operations_keeps
      split: if_splits scene_damage.splits)

lemma reachable_capabilities: "renderer_reachable r \<Longrightarrow> rn_full r = rn_capabilities r"
proof (induction rule: renderer_reachable.induct)
  case (render r sc d p res r')
  then show ?case using render_keeps by metis
qed (simp_all add: renderer_new_def renderer_set_capabilities_def renderer_confirm_def renderer_invalidate_def Let_def)

lemma capabilities_rows:
  "rows_fit g (ps_rows p) \<Longrightarrow> rows_fit g (ps_rows (apply_render_capabilities caps p))"
  "ps_geometry (apply_render_capabilities caps p) = ps_geometry p"
  by (auto simp: apply_render_capabilities_def rows_fit_def list_all_iff Let_def)

lemma compose_fit:
  assumes "scene_fits sc" "compose sc = Some p"
  shows "ps_geometry p = sc_geometry sc" "rows_fit (sc_geometry sc) (ps_rows p)"
proof -
  obtain rows where rows: "compose_rows sc = Some rows"
    "shows_layers (sc_geometry sc) (blank_rows (sc_geometry sc)) rows (paint_order sc)"
    using compose_rows_spec [OF assms(1)] by blast
  have "ps_geometry p = sc_geometry sc \<and> ps_rows p = rows"
    using assms(2) by (auto simp: compose_def rows(1) presented_with_rows_def Let_def Option.bind_eq_Some_conv split: option.splits)
  then show "ps_geometry p = sc_geometry sc" "rows_fit (sc_geometry sc) (ps_rows p)"
    using rows(2) by (auto simp: shows_layers_def)
qed

text \<open>
  A batch brings a terminal from the presented rows to the intended ones: its edits drive the terminal,
  its runs paint what is left, and what follows leaves the text alone and, after any edit or run, ends
  with the effects, the intended cursor and the bells.
\<close>

definition brings :: "render_capabilities \<Rightarrow> Scene_Types.presented_scene \<Rightarrow> Scene_Types.presented_scene \<Rightarrow> scene_batch \<Rightarrow> bool" where
  "brings caps p q batch \<longleftrightarrow>
     (\<exists>opening edits runs closing.
        concat (map ot_bytes (sb_transactions batch)) = opening @ edits @ write_runs (ps_rows q) runs @ closing \<and>
        opening \<in> {[], ESC # ''[?2026h'', semantic_opening, (ESC # ''[?2026h'') @ semantic_opening} \<and>
        leaves_text closing \<and> (edits \<noteq> [] \<or> runs \<noteq> [] \<longrightarrow> frame_closing caps p q True closing) \<and>
        (\<forall>v. vt_shows (ps_geometry q) (ps_rows p) v \<longrightarrow>
          (\<exists>v'. run_edits (ps_geometry q) edits v = Some v' \<and>
             rows_physically_match (paint_runs (ps_rows q) runs (vt_rows v')) (ps_rows q))))"

definition damage_accounts :: "terminal_geometry \<Rightarrow> scene_damage \<Rightarrow> row list \<Rightarrow> row list \<Rightarrow> bool" where
  "damage_accounts g d ps qs \<longleftrightarrow>
     is_full_damage d \<or>
     list_all rect_valid (damage_regions d) \<and> stale_cells g ps qs \<subseteq> (\<Union>r \<in> set (damage_regions d). rect_cells r) \<and>
     (case d of SceneOperations _ _ ops \<Rightarrow> list_all regular_operation ops | _ \<Rightarrow> True)"

lemma incremental_brings:
  assumes fit: "rows_fit (ps_geometry q) (ps_rows p)" "rows_fit (ps_geometry q) (ps_rows q)" "0 < grid_cols (ps_geometry q)"
    and acc: "damage_accounts (ps_geometry q) d (ps_rows p) (ps_rows q)" "\<not> is_full_damage d"
    and batch: "incremental_batch caps d p q = Some (batch, stats)"
  shows "brings caps p q batch \<and> sb_predicted batch = q"
proof -
  have d: "list_all rect_valid (damage_regions d)"
    "stale_cells (ps_geometry q) (ps_rows p) (ps_rows q) \<subseteq> (\<Union>r \<in> set (damage_regions d). rect_cells r)"
    using acc by (auto simp: damage_accounts_def)
  obtain runs front tail where rep: "repairs_rows (ps_geometry q) (ps_rows p) (ps_rows q) runs"
    and out: "concat (map ot_bytes (sb_transactions batch)) = front @ [] @ write_runs (ps_rows q) runs @ tail"
      "front \<in> {[], ESC # ''[?2026h''}" "sb_predicted batch = q"
    and tail: "frame_closing caps p q (runs \<noteq> [] \<or> ps_cursor p \<noteq> ps_cursor q) tail"
    using incremental_batch_repairs [OF fit d batch] unfolding append_Nil by blast
  have closing: "leaves_text tail" "[] \<noteq> [] \<or> runs \<noteq> [] \<longrightarrow> frame_closing caps p q True tail"
    using tail frame_closing_leaves_text by auto
  have "\<exists>v'. run_edits (ps_geometry q) [] v = Some v' \<and> rows_physically_match (paint_runs (ps_rows q) runs (vt_rows v')) (ps_rows q)"
    if "vt_shows (ps_geometry q) (ps_rows p) v" for v
    using rep that by (simp add: repairs_rows_def vt_shows_def)
  then show ?thesis
    unfolding brings_def
    by (intro conjI exI [of _ front] exI [of _ "[]"] exI [of _ runs] exI [of _ tail]) (use out closing in auto)
qed

lemma semantic_brings:
  assumes fit: "rows_fit (ps_geometry q) (ps_rows p)" and ops: "list_all regular_operation ops"
    and batch: "semantic_batch caps sc owner ops p q = Batch batch stats"
  shows "brings caps p q batch \<and> sb_predicted batch = q"
proof -
  obtain front edits runs tail where out:
    "concat (map ot_bytes (sb_transactions batch)) = front @ semantic_opening @ edits @ write_runs (ps_rows q) runs @ tail"
    "front \<in> {[], ESC # ''[?2026h''}" "sb_predicted batch = q" "frame_closing caps p q True tail"
    "\<forall>v. vt_shows (ps_geometry q) (ps_rows p) v \<longrightarrow> (\<exists>v'. run_edits (ps_geometry q) edits v = Some v' \<and>
        rows_physically_match (paint_runs (ps_rows q) runs (vt_rows v')) (ps_rows q))"
    using semantic_batch_drives [OF fit ops batch] by blast
  have "concat (map ot_bytes (sb_transactions batch)) = (front @ semantic_opening) @ edits @ write_runs (ps_rows q) runs @ tail"
    using out(1) by simp
  moreover have "front @ semantic_opening \<in> {[], ESC # ''[?2026h'', semantic_opening, (ESC # ''[?2026h'') @ semantic_opening}"
    using out(2) by auto
  ultimately show ?thesis using out(3-5) frame_closing_leaves_text [OF out(4)] unfolding brings_def by blast
qed

text \<open>A reconstruction: a terminal that reads it, in whatever state it was, then shows the scene, as
  far as its cells hold text.\<close>

definition reconstructs :: "render_capabilities \<Rightarrow> scene \<Rightarrow> Scene_Types.presented_scene \<Rightarrow> bool \<Rightarrow> scene_batch \<Rightarrow> bool" where
  "reconstructs caps sc presented known batch \<longleftrightarrow>
     (\<exists>bs retained. sb_transactions batch =
        [\<lparr>ot_resize = (if ps_geometry presented \<noteq> sc_geometry sc then Some (sc_geometry sc) else None), ot_bytes = bs\<rparr>] \<and>
      encode_scene caps sc (sb_predicted batch) retained = Some (Ok bs) \<and>
      (list_all printable_row (ps_rows (sb_predicted batch)) \<longrightarrow>
         (\<forall>pg. \<exists>pg'. read_page bs pg = Some pg' \<and> page_shows caps (sb_predicted batch) pg')) \<and>
      (retained = None \<or> known \<and> retained = Some (ps_image_uploads presented)))"

definition render_spec ::
  "scene \<Rightarrow> Scene_Types.presented_scene \<Rightarrow> Scene_Types.presented_scene \<Rightarrow> renderer \<Rightarrow> scene_batch \<Rightarrow> renderer \<Rightarrow> bool" where
  "render_spec sc presented intended r batch r' \<longleftrightarrow>
     sb_predicted batch = intended \<and>
     (if rn_last_strategy r' = StrategyFullFallback
      then reconstructs (rn_capabilities r) sc presented (confirms r presented) batch
      else confirms r presented \<and> ps_geometry presented = ps_geometry intended \<and> ps_screen presented = ps_screen intended \<and>
        ps_image_uploads presented = ps_image_uploads intended \<and> ps_images presented = ps_images intended \<and>
        brings (rn_capabilities r) presented intended batch)"

lemma full_fallback_spec:
  assumes p: "compose sc = Some p" and caps: "rn_full r = rn_capabilities r"
    and res: "full_fallback sc presented (confirms r presented) r = Some (Ok batch, r')"
  shows "render_spec sc presented (apply_render_capabilities (rn_capabilities r) p) r batch r'"
proof -
  define intended where "intended = apply_render_capabilities (rn_capabilities r) p"
  have r': "rn_last_strategy r' = StrategyFullFallback"
    "render_with_retained_uploads (rn_capabilities r) sc presented (confirms r presented) = Some (Ok batch)"
    using res caps by (auto elim: full_fallbackE)
  then show ?thesis
    using encode_scene_shown
    by (auto simp: render_with_retained_uploads_def p Let_def result_simps render_spec_def reconstructs_def split: if_splits)
qed

lemma increment_spec:
  assumes p: "compose sc = Some p" and caps: "rn_full r = rn_capabilities r"
    and q: "q = apply_render_capabilities (rn_capabilities r) p"
    and fit: "rows_fit (ps_geometry q) (ps_rows presented)" "rows_fit (ps_geometry q) (ps_rows q)" "0 < grid_cols (ps_geometry q)"
    and can: "can_increment d presented q (confirms r presented)"
    and acc: "damage_accounts (ps_geometry q) d (ps_rows presented) (ps_rows q)"
    and batch: "incremental_batch (rn_capabilities r) d presented q = Some (batch, stats)"
    and r': "rn_last_strategy r' \<noteq> StrategyFullFallback"
  shows "render_spec sc presented q r batch r'"
proof -
  have full: "\<not> is_full_damage d" using can by (simp add: can_increment_def)
  show ?thesis
    using incremental_brings [OF fit acc full batch] can r' by (simp add: render_spec_def can_increment_def)
qed

lemma increment_or_fall_back_spec:
  assumes p: "compose sc = Some p" and caps: "rn_full r = rn_capabilities r"
    and q: "q = apply_render_capabilities (rn_capabilities r) p"
    and fit: "rows_fit (ps_geometry q) (ps_rows presented)" "rows_fit (ps_geometry q) (ps_rows q)" "0 < grid_cols (ps_geometry q)"
    and can: "can_increment d presented q (confirms r presented)"
    and acc: "damage_accounts (ps_geometry q) d (ps_rows presented) (ps_rows q)"
    and res: "increment_or_fall_back d sc presented q (confirms r presented) r = Some (Ok batch, r')"
  shows "render_spec sc presented q r batch r'"
proof (cases "incremental_batch (rn_capabilities r) d presented q")
  case None
  then show ?thesis using res full_fallback_spec [OF p caps] q by (simp add: increment_or_fall_back_def)
next
  case (Some bs)
  obtain stats where bs: "bs = (batch, stats)" "rn_last_strategy r' \<noteq> StrategyFullFallback"
    using res by (cases bs) (auto simp: increment_or_fall_back_def Some)
  show ?thesis by (rule increment_spec [OF p caps q fit can acc Some [unfolded bs(1)] bs(2)])
qed

lemma render_operations_spec:
  assumes p: "compose sc = Some p" and caps: "rn_full r = rn_capabilities r"
    and q: "q = apply_render_capabilities (rn_capabilities r) p"
    and fit: "rows_fit (ps_geometry q) (ps_rows presented)" "rows_fit (ps_geometry q) (ps_rows q)" "0 < grid_cols (ps_geometry q)"
    and can: "can_increment d presented q (confirms r presented)"
    and acc: "damage_accounts (ps_geometry q) d (ps_rows presented) (ps_rows q)"
    and d: "d = SceneOperations owner regions ops"
    and res: "render_operations d owner ops sc presented q (confirms r presented) r = Some (Ok batch, r')"
  shows "render_spec sc presented q r batch r'"
proof -
  note full = full_fallback_spec [OF p caps, folded q]
  note incr = increment_spec [OF p caps q fit can acc]
  note either = increment_or_fall_back_spec [OF p caps q fit can acc]
  have ops: "list_all regular_operation ops"
    using acc can by (simp add: damage_accounts_def can_increment_def d)
  show ?thesis
  proof (cases "list_all is_write_run ops \<or> list_ex is_write_run ops \<and> list_all (\<lambda>op. is_write_run op \<or> is_erase_chars op) ops")
    case True
    show ?thesis
    proof (cases "incremental_batch (rn_capabilities r) d presented q")
      case None
      then show ?thesis using res True full by (simp add: render_operations_def)
    next
      case (Some bs)
      obtain stats where bs: "bs = (batch, stats)" "rn_last_strategy r' \<noteq> StrategyFullFallback"
        using res True by (cases bs) (auto simp: render_operations_def Some)
      show ?thesis by (rule incr [OF Some [unfolded bs(1)] bs(2)])
    qed
  next
    case False
    note res' = res [unfolded render_operations_def Let_def if_not_P [OF False]]
    show ?thesis
    proof (cases "semantic_batch (rn_capabilities r) sc owner ops presented q")
      case (Batch b stats)
      then have out: "b = batch" "rn_last_strategy r' = StrategySemanticFastPath" using res' by auto
      show ?thesis
        using semantic_brings [OF fit(1) ops Batch] can out by (simp add: render_spec_def can_increment_def)
    next
      case NotApplicable
      then show ?thesis using res' either by simp
    next
      case Inconsistent
      then show ?thesis using res' full by simp
    qed (use res' in simp)
  qed
qed

lemma brings_nothing:
  "rows_physically_match (ps_rows p) (ps_rows q) \<Longrightarrow> brings caps p q \<lparr>sb_transactions = [], sb_predicted = q\<rparr>"
  unfolding brings_def
  by (intro exI [of _ "[]"] conjI) (simp_all add: write_runs_def paint_runs_def vt_shows_def)

lemma render_correct:
  assumes reach: "renderer_reachable r" and sc: "scene_fits sc" "0 < grid_cols (sc_geometry sc)"
    and p: "compose sc = Some p" and q: "q = apply_render_capabilities (rn_capabilities r) p"
    and shown: "rows_fit (ps_geometry presented) (ps_rows presented)"
    and acc: "damage_accounts (sc_geometry sc) d (ps_rows presented) (ps_rows q)"
    and res: "render sc d presented r = Some (Ok batch, r')"
  shows "render_spec sc presented q r batch r'"
proof -
  note caps = reachable_capabilities [OF reach]
  have geo: "ps_geometry q = sc_geometry sc" "rows_fit (ps_geometry q) (ps_rows q)"
    using compose_fit [OF sc(1) p] capabilities_rows by (simp_all add: q)
  have acc': "damage_accounts (ps_geometry q) d (ps_rows presented) (ps_rows q)" "0 < grid_cols (ps_geometry q)"
    using acc sc(2) by (simp_all add: geo(1))
  define known where "known \<longleftrightarrow> confirms r presented \<and> is_full_damage d \<and> physically_matches presented q \<and>
    ps_image_uploads presented = ps_image_uploads q"
  have eq: "render sc d presented r =
      (if known then Some (Ok \<lparr>sb_transactions = [], sb_predicted = q\<rparr>,
         r\<lparr>rn_last_stats := render_stats_default, rn_last_strategy := StrategyNoop\<rparr>)
       else if \<not> can_increment d presented q (confirms r presented) then full_fallback sc presented (confirms r presented) r
       else case d of
         SceneOperations owner _ ops \<Rightarrow> render_operations d owner ops sc presented q (confirms r presented) r
       | _ \<Rightarrow> increment_or_fall_back d sc presented q (confirms r presented) r)"
    unfolding render_def p known_def q by (simp add: Let_def)
  consider (noop) known
    | (full) "\<not> known" "\<not> can_increment d presented q (confirms r presented)"
    | (operations) owner regions ops where "\<not> known" "can_increment d presented q (confirms r presented)" "d = SceneOperations owner regions ops"
    | (incremental) "\<not> known" "can_increment d presented q (confirms r presented)" "\<forall>owner regions ops. d \<noteq> SceneOperations owner regions ops"
    by blast
  then show ?thesis
  proof cases
    case noop
    then have out: "batch = \<lparr>sb_transactions = [], sb_predicted = q\<rparr>" "rn_last_strategy r' = StrategyNoop"
      using res by (auto simp: eq)
    have "confirms r presented" "physically_matches presented q" "ps_image_uploads presented = ps_image_uploads q"
      using noop by (simp_all add: known_def)
    then show ?thesis
      using out brings_nothing by (simp add: render_spec_def physically_matches_def physical_fields_match_def)
  next
    case full
    then have "full_fallback sc presented (confirms r presented) r = Some (Ok batch, r')"
      using res by (simp add: eq)
    then show ?thesis using full_fallback_spec [OF p caps] q by simp
  next
    case operations
    have fit: "rows_fit (ps_geometry q) (ps_rows presented)" using shown operations(2) by (simp add: can_increment_def)
    have "render_operations d owner ops sc presented q (confirms r presented) r = Some (Ok batch, r')"
      using res unfolding eq using operations by simp
    then show ?thesis by (rule render_operations_spec [OF p caps q fit geo(2) acc'(2) operations(2) acc'(1) operations(3)])
  next
    case incremental
    have fit: "rows_fit (ps_geometry q) (ps_rows presented)" using shown incremental(2) by (simp add: can_increment_def)
    have "increment_or_fall_back d sc presented q (confirms r presented) r = Some (Ok batch, r')"
      using res unfolding eq using incremental by (cases d) simp_all
    then show ?thesis by (rule increment_or_fall_back_spec [OF p caps q fit geo(2) acc'(2) incremental(2) acc'(1)])
  qed
qed

section \<open>Rendering never panics\<close>

lemma write_kitty_uploads_total:
  "\<forall>u \<in> set us. btree_get ids (upload_key u) \<noteq> None \<Longrightarrow> write_kitty_uploads ids retained up us \<noteq> None"
  by (induction us arbitrary: up) auto

lemma write_kitty_images_total:
  assumes "media_countable sc" shows "write_kitty_images sc q retained \<noteq> None"
proof -
  obtain ids where ids: "outer_image_ids sc = Some ids" "dom (btree_get ids) = scene_keys sc"
    using assms outer_ids_total [of sc] by (auto simp: media_countable_def)
  have "compose_image_records sc \<noteq> None"
    using compose_media_total(2) [OF assms] by (simp add: compose_images_def)
  moreover have "write_kitty_uploads ids retained {} (sc_image_uploads sc) \<noteq> None"
    using ids(2) by (intro write_kitty_uploads_total) blast
  ultimately show ?thesis by (auto simp: write_kitty_images_def ids(1))
qed

lemma full_fallback_total:
  assumes "media_countable sc" "compose sc = Some p" shows "full_fallback sc presented retain r \<noteq> None"
  using write_kitty_images_total [OF assms(1)]
  by (simp add: full_fallback_def render_with_retained_uploads_def assms(2) encode_scene_def Let_def)

lemma compose_total:
  assumes "scene_fits sc" "media_countable sc" shows "\<exists>p. compose sc = Some p"
  using compose_rows_spec [OF assms(1)] compose_media_total [OF assms(2)] by (auto simp: compose_def Let_def)

lemma render_total:
  assumes sc: "scene_fits sc" "media_countable sc" and p: "compose sc = Some p"
    and shown: "rows_fit (ps_geometry presented) (ps_rows presented)"
  shows "render sc d presented r \<noteq> None"
proof -
  define q where "q = apply_render_capabilities (rn_capabilities r) p"
  note full = full_fallback_total [OF sc(2) p]
  have incr: "increment_or_fall_back d sc presented q known r \<noteq> None" for d known
    using full by (simp add: increment_or_fall_back_def split: option.split)
  have ops: "render_operations d owner ops sc presented q known r \<noteq> None" if "ps_geometry presented = ps_geometry q" for d owner ops known
  proof -
    have "semantic_batch (rn_capabilities r) sc owner ops presented q \<noteq> AttemptPanicked"
      using shown that compose_fit [OF sc(1) p] capabilities_rows by (intro semantic_batch_safe) (simp_all add: q_def)
    then show ?thesis using full incr
      by (auto simp: render_operations_def Let_def split: option.split semantic_attempt.split)
  qed
  show ?thesis
    using full incr ops
    by (cases d) (simp_all add: render_def p q_def [symmetric] Let_def can_increment_def)
qed



end
