(* ===== verification/Physical_Lifecycle.thy ===== *)
theory Physical_Lifecycle
  imports Scene_Wire Scene_Damage Terminal_Protocol
begin

text \<open>
  The owner of the host terminal's alternate screen and modes (\<^verbatim>\<open>PhysicalTerminalLifecycle\<close> of
  \<^verbatim>\<open>presentation.rs\<close>): activation, suspension, resumption and the two ways to shut down. The lemmas
  show what the terminal's modes are after any order of them, whatever the modes were before: focus
  reports come back as they were found when that is known; all other modes are reset to fixed values.
\<close>


section \<open>The owner of the physical terminal\<close>

datatype lifecycle_state = Inactive | Active | Suspended | ShutdownFence | Shutdown

record lifecycle_transaction =
  lt_bytes :: bytes
  lt_damage :: scene_damage

definition lifecycle_transaction_default :: lifecycle_transaction where
  "lifecycle_transaction_default = \<lparr>lt_bytes = [], lt_damage = SceneNone\<rparr>"

record physical_terminal_lifecycle =
  pl_state :: lifecycle_state
  pl_focus_was_enabled :: "bool option"

definition lifecycle_new :: "bool option \<Rightarrow> physical_terminal_lifecycle" where
  "lifecycle_new focus = \<lparr>pl_state = Inactive, pl_focus_was_enabled = focus\<rparr>"

definition cleanup_modes_bytes :: "physical_terminal_lifecycle \<Rightarrow> bytes" where
  "cleanup_modes_bytes l =
     ESC # ''[?2026l'' @ ESC # ''[0m'' @ ESC # '']8;;'' @ ST @ ESC # ''>'' @ ESC # ''[?1l'' @ ESC # ''[?2004l'' @
     ESC # ''[?9l'' @ ESC # ''[?1000l'' @ ESC # ''[?1002l'' @ ESC # ''[?1003l'' @ ESC # ''[?1005l'' @ ESC # ''[?1006l'' @
     ESC # ''[=0u'' @ ESC # ''[?25h'' @
     (if pl_focus_was_enabled l \<noteq> Some True then ESC # ''[?1004l'' else [])"

definition leave_alternate :: bytes where
  "leave_alternate = ESC # ''[?1049l''"

definition cleanup_bytes :: "physical_terminal_lifecycle \<Rightarrow> bytes" where
  "cleanup_bytes l = cleanup_modes_bytes l @ leave_alternate"

definition enter_bytes :: bytes where
  "enter_bytes = ESC # ''[?1049h'' @ ESC # ''[?1004h''"

type_synonym lifecycle_step = "physical_terminal_lifecycle \<Rightarrow> lifecycle_transaction \<times> physical_terminal_lifecycle"

definition activate :: lifecycle_step where
  "activate l = (if pl_state l \<noteq> Inactive then (lifecycle_transaction_default, l)
     else (\<lparr>lt_bytes = enter_bytes, lt_damage = SceneFull\<rparr>, l\<lparr>pl_state := Active\<rparr>))"

definition suspend :: lifecycle_step where
  "suspend l = (if pl_state l \<noteq> Active then (lifecycle_transaction_default, l)
     else (\<lparr>lt_bytes = cleanup_bytes l, lt_damage = SceneFull\<rparr>, l\<lparr>pl_state := Suspended\<rparr>))"

definition resume :: lifecycle_step where
  "resume l = (if pl_state l \<noteq> Suspended then (lifecycle_transaction_default, l)
     else (\<lparr>lt_bytes = enter_bytes, lt_damage = SceneFull\<rparr>, l\<lparr>pl_state := Active\<rparr>))"

definition shutdown :: lifecycle_step where
  "shutdown l = (if pl_state l = Shutdown then (lifecycle_transaction_default, l)
     else (\<lparr>lt_bytes = (case pl_state l of Active \<Rightarrow> cleanup_bytes l | ShutdownFence \<Rightarrow> leave_alternate | _ \<Rightarrow> []),
            lt_damage = SceneNone\<rparr>, l\<lparr>pl_state := Shutdown\<rparr>))"

definition begin_shutdown_fence :: lifecycle_step where
  "begin_shutdown_fence l = (if pl_state l \<noteq> Active then (lifecycle_transaction_default, l)
     else (\<lparr>lt_bytes = cleanup_modes_bytes l @ SHUTDOWN_FENCE_QUERY, lt_damage = SceneNone\<rparr>, l\<lparr>pl_state := ShutdownFence\<rparr>))"

definition finish_shutdown_fence :: lifecycle_step where
  "finish_shutdown_fence l = (if pl_state l \<noteq> ShutdownFence then (lifecycle_transaction_default, l)
     else (\<lparr>lt_bytes = leave_alternate, lt_damage = SceneNone\<rparr>, l\<lparr>pl_state := Shutdown\<rparr>))"

section \<open>What a terminal makes of it\<close>

text \<open>The private modes that a stretch of output sets and resets, in order\<close>

function mode_settings :: "bytes \<Rightarrow> (nat \<times> bool) list" where
  "mode_settings s =
     (case s of
        [] \<Rightarrow> []
      | c # rest \<Rightarrow>
          if c = ESC \<and> take 2 rest = ''[?''
          then (case dropWhile is_ascii_digit (drop 2 rest) of
                  [] \<Rightarrow> []
                | f # rest' \<Rightarrow>
                    let n = dec_val (takeWhile is_ascii_digit (drop 2 rest)) in
                    if f = CHR ''h'' then (n, True) # mode_settings rest'
                    else if f = CHR ''l'' then (n, False) # mode_settings rest'
                    else mode_settings rest')
          else mode_settings rest)"
  by pat_completeness auto

termination
proof (relation "measure length", goal_cases)
  case (2 s c rest f rest' n)
  then show ?case using dropWhile_less [of is_ascii_digit "drop 2 rest" f rest'] by simp
next
  case (3 s c rest f rest' n)
  then show ?case using dropWhile_less [of is_ascii_digit "drop 2 rest" f rest'] by simp
next
  case (4 s c rest f rest' n)
  then show ?case using dropWhile_less [of is_ascii_digit "drop 2 rest" f rest'] by simp
qed simp_all

declare mode_settings.simps [simp del]

definition apply_setting :: "nat \<Rightarrow> bool \<Rightarrow> nat \<times> bool \<Rightarrow> bool" where
  "apply_setting mode on setting = (if fst setting = mode then snd setting else on)"

definition mode_after :: "nat \<Rightarrow> bool \<Rightarrow> bytes \<Rightarrow> bool" where
  "mode_after mode on s = foldl (apply_setting mode) on (mode_settings s)"

definition mode_now :: "nat \<Rightarrow> bool \<Rightarrow> bytes list \<Rightarrow> bool" where
  "mode_now mode on outputs = foldl (mode_after mode) on outputs"

lemma mode_now_snoc [simp]: "mode_now mode on [] = on" "mode_now mode on (outputs @ [s]) = mode_after mode (mode_now mode on outputs) s"
  by (simp_all add: mode_now_def)

lemma enter_settings: "mode_settings enter_bytes = [(1049, True), (1004, True)]"
  unfolding enter_bytes_def by code_simp

lemma leave_settings: "mode_settings leave_alternate = [(1049, False)]" "mode_settings [] = []"
  unfolding leave_alternate_def by code_simp+

definition cleaned :: "bool \<Rightarrow> (nat \<times> bool) list" where
  "cleaned keep_focus = [(2026, False), (1, False), (2004, False), (9, False), (1000, False), (1002, False), (1003, False),
     (1005, False), (1006, False), (25, True)] @ (if keep_focus then [] else [(1004, False)])"

lemma cleanup_settings:
  "mode_settings (cleanup_modes_bytes l @ SHUTDOWN_FENCE_QUERY) = cleaned (pl_focus_was_enabled l = Some True)"
  "mode_settings (cleanup_bytes l) = cleaned (pl_focus_was_enabled l = Some True) @ [(1049, False)]"
  unfolding cleanup_modes_bytes_def cleanup_bytes_def cleaned_def leave_alternate_def SHUTDOWN_FENCE_QUERY_def
  by (cases "pl_focus_was_enabled l = Some True"; simp only: if_True if_False simp_thms; code_simp)+

abbreviation lifecycle_steps :: "lifecycle_step set" where
  "lifecycle_steps \<equiv> {activate, suspend, resume, shutdown, begin_shutdown_fence, finish_shutdown_fence}"

text \<open>The outputs so far: those of the lifecycle's steps, and, while it is active, whatever is drawn
  without touching the host's alternate screen or turning focus reports off (which the views keep on)\<close>

inductive lifecycle_reachable :: "bool option \<Rightarrow> bytes list \<Rightarrow> physical_terminal_lifecycle \<Rightarrow> bool" for focus where
  start: "lifecycle_reachable focus [] (lifecycle_new focus)"
| step: "lifecycle_reachable focus outputs l \<Longrightarrow> step \<in> lifecycle_steps \<Longrightarrow> step l = (t, l') \<Longrightarrow>
    lifecycle_reachable focus (outputs @ [lt_bytes t]) l'"
| draw: "lifecycle_reachable focus outputs l \<Longrightarrow> pl_state l = Active \<Longrightarrow> 1049 \<notin> fst ` set (mode_settings s) \<Longrightarrow>
    (1004, False) \<notin> set (mode_settings s) \<Longrightarrow> lifecycle_reachable focus (outputs @ [s]) l"

definition owned_modes :: "(nat \<times> bool) list" where
  "owned_modes = cleaned True"

text \<open>Once the session entered the terminal, every mode it owns is determined, however it was found.\<close>

definition lifecycle_inv :: "bool option \<Rightarrow> bytes list \<Rightarrow> physical_terminal_lifecycle \<Rightarrow> bool" where
  "lifecycle_inv focus outputs l \<longleftrightarrow>
     pl_focus_was_enabled l = focus \<and>
     (if enter_bytes \<in> set outputs
      then (\<forall>found. mode_now 1049 found outputs = (pl_state l \<in> {Active, ShutdownFence}) \<and>
              mode_now 1004 found outputs = (pl_state l = Active \<or> focus = Some True)) \<and>
           (pl_state l \<noteq> Active \<longrightarrow> (\<forall>(m, v) \<in> set owned_modes. \<forall>found. mode_now m found outputs = v))
      else pl_state l \<in> {Inactive, Shutdown} \<and> set outputs \<subseteq> {[]})"

lemma mode_after_other: "m \<notin> fst ` set (mode_settings s) \<Longrightarrow> mode_after m on s = on"
proof -
  have "m \<notin> fst ` set xs \<Longrightarrow> foldl (apply_setting m) on xs = on" for xs
    by (induction xs) (auto simp: apply_setting_def)
  then show "m \<notin> fst ` set (mode_settings s) \<Longrightarrow> mode_after m on s = on" by (simp add: mode_after_def)
qed

lemma settings_kept: "(m, False) \<notin> set xs \<Longrightarrow> foldl (apply_setting m) True xs"
proof (induction xs)
  case (Cons a xs)
  have "apply_setting m True a" using Cons.prems by (cases a) (auto simp: apply_setting_def)
  then show ?case using Cons by simp
qed simp

lemma mode_after_kept: "(m, False) \<notin> set (mode_settings s) \<Longrightarrow> mode_after m True s"
  by (simp add: mode_after_def settings_kept)

lemmas settings = enter_settings leave_settings cleanup_settings

lemma mode_after_nothing [simp]: "mode_after m on [] = on"
  by (simp add: mode_after_def settings apply_setting_def)

lemma mode_after_enter [simp]: "mode_after m on enter_bytes = (m = 1049 \<or> m = 1004 \<or> on)"
  by (simp add: mode_after_def settings apply_setting_def)

lemma mode_after_leave [simp]: "mode_after m on leave_alternate = (m \<noteq> 1049 \<and> on)"
  by (simp add: mode_after_def settings apply_setting_def)

lemma mode_after_cleanup:
  "mode_after 1049 on (cleanup_modes_bytes l @ SHUTDOWN_FENCE_QUERY) = on" "mode_after 1049 on (cleanup_bytes l) = False"
  "mode_after 1004 on (cleanup_modes_bytes l @ SHUTDOWN_FENCE_QUERY) = (pl_focus_was_enabled l = Some True \<and> on)"
  "mode_after 1004 on (cleanup_bytes l) = (pl_focus_was_enabled l = Some True \<and> on)"
  "(m, v) \<in> set owned_modes \<Longrightarrow> mode_after m on (cleanup_modes_bytes l @ SHUTDOWN_FENCE_QUERY) = v"
  "(m, v) \<in> set owned_modes \<Longrightarrow> mode_after m on (cleanup_bytes l) = v"
  by (auto simp: mode_after_def settings apply_setting_def cleaned_def owned_modes_def)

lemma owned_other: "(m, v) \<in> set owned_modes \<Longrightarrow> m \<noteq> 1049 \<and> m \<noteq> 1004"
  by (auto simp: owned_modes_def cleaned_def)

lemma mode_now_silent: "set outputs \<subseteq> {[]} \<Longrightarrow> mode_now m on outputs = on"
  unfolding mode_now_def by (induction outputs) auto

lemma enter_nonempty [simp]: "enter_bytes \<noteq> []" "[] \<noteq> enter_bytes"
  by (simp_all add: enter_bytes_def)

lemma inv_moves:
  assumes "lifecycle_inv focus outputs l"
  shows "lifecycle_inv focus (outputs @ [[]]) l"
    and "lifecycle_inv focus (outputs @ [enter_bytes]) (l\<lparr>pl_state := Active\<rparr>)"
    and "pl_state l = Active \<Longrightarrow> s \<in> {Suspended, Shutdown} \<Longrightarrow> lifecycle_inv focus (outputs @ [cleanup_bytes l]) (l\<lparr>pl_state := s\<rparr>)"
    and "pl_state l = Active \<Longrightarrow> lifecycle_inv focus (outputs @ [cleanup_modes_bytes l @ SHUTDOWN_FENCE_QUERY]) (l\<lparr>pl_state := ShutdownFence\<rparr>)"
    and "pl_state l = ShutdownFence \<Longrightarrow> lifecycle_inv focus (outputs @ [leave_alternate]) (l\<lparr>pl_state := Shutdown\<rparr>)"
    and "pl_state l \<in> {Inactive, Suspended} \<Longrightarrow> lifecycle_inv focus (outputs @ [[]]) (l\<lparr>pl_state := Shutdown\<rparr>)"
proof -
  have focus: "pl_focus_was_enabled l = focus" using assms by (simp add: lifecycle_inv_def)
  have entered: "enter_bytes \<in> set outputs" if "pl_state l \<in> {Active, ShutdownFence, Suspended}"
    using assms that by (auto simp: lifecycle_inv_def split: if_splits)
  show "lifecycle_inv focus (outputs @ [[]]) l" using assms by (auto simp: lifecycle_inv_def split: if_splits)
  show "lifecycle_inv focus (outputs @ [enter_bytes]) (l\<lparr>pl_state := Active\<rparr>)" using focus by (simp add: lifecycle_inv_def)
  show "pl_state l = Active \<Longrightarrow> s \<in> {Suspended, Shutdown} \<Longrightarrow> lifecycle_inv focus (outputs @ [cleanup_bytes l]) (l\<lparr>pl_state := s\<rparr>)"
    using assms entered mode_after_cleanup(6) by (auto simp: lifecycle_inv_def mode_after_cleanup)
  show "pl_state l = Active \<Longrightarrow> lifecycle_inv focus (outputs @ [cleanup_modes_bytes l @ SHUTDOWN_FENCE_QUERY]) (l\<lparr>pl_state := ShutdownFence\<rparr>)"
    using assms entered mode_after_cleanup(5) by (auto simp: lifecycle_inv_def mode_after_cleanup)
  show "pl_state l = ShutdownFence \<Longrightarrow> lifecycle_inv focus (outputs @ [leave_alternate]) (l\<lparr>pl_state := Shutdown\<rparr>)"
    using assms entered owned_other by (fastforce simp: lifecycle_inv_def)
  show "pl_state l \<in> {Inactive, Suspended} \<Longrightarrow> lifecycle_inv focus (outputs @ [[]]) (l\<lparr>pl_state := Shutdown\<rparr>)"
    using assms by (auto simp: lifecycle_inv_def split: if_splits)
qed

lemmas lifecycle_step_defs = activate_def suspend_def resume_def shutdown_def begin_shutdown_fence_def
  finish_shutdown_fence_def lifecycle_transaction_default_def

lemma lifecycle_inv_step:
  assumes inv: "lifecycle_inv focus outputs l" and step: "step \<in> lifecycle_steps" "step l = (t, l')"
  shows "lifecycle_inv focus (outputs @ [lt_bytes t]) l'"
proof -
  note moves = inv_moves [OF inv]
  consider "step = activate" | "step = suspend" | "step = resume" | "step = shutdown" | "step = begin_shutdown_fence"
    | "step = finish_shutdown_fence"
    using step(1) by blast
  then show ?thesis
    using step(2) moves(1,2) moves(3) [of Suspended] moves(3) [of Shutdown] moves(4-6)
    by cases (cases "pl_state l"; auto simp: lifecycle_step_defs)+
qed

lemma lifecycle_inv_reachable: "lifecycle_reachable focus outputs l \<Longrightarrow> lifecycle_inv focus outputs l"
proof (induction rule: lifecycle_reachable.induct)
  case start
  show ?case by (simp add: lifecycle_inv_def lifecycle_new_def)
next
  case (step outputs l step t l')
  then show ?case using lifecycle_inv_step by blast
next
  case (draw outputs l s)
  then show ?case using mode_after_other [of 1049 s] mode_after_kept [of 1004 s] by (auto simp: lifecycle_inv_def)
qed



end
