(* ===== verification/View_History.thy ===== *)
theory View_History
  imports Terminal_Snapshot
begin

text \<open>
  History receipts of a view (\<^verbatim>\<open>src/view.rs\<close>, and the receipt's types in \<^verbatim>\<open>src/presentation.rs\<close>): how a
  change of the live history becomes a delta that shares its predecessors or is compacted into a full root, what a
  captured frame carries, how a chain of deltas is validated and applied to the committed scrollback, and which
  frames are installed. The engine enters as the generations of its history. The theory shows that an accepted
  receipt always applies, and that in every order of batches, resizes, captures and installations the
  committed scrollback is exactly the history of the presented generation.
\<close>

section \<open>History generations and deltas\<close>

record history_basis =
  hb_screen :: screen_identity
  hb_geometry :: terminal_geometry
  hb_origin :: nat
  hb_extent :: nat

definition basis_end :: "history_basis \<Rightarrow> nat option" where
  "basis_end b = checked_add_usize (hb_origin b) (hb_extent b)"

text \<open>The last two fields, the depth of the chain and the rows that it retains, only steer compaction.\<close>

datatype history_delta = HistoryDelta
  (hd_revision: nat) (hd_base_revision: nat) (hd_basis: history_basis) (hd_replace_from: nat) (hd_rows: "row list")
  (hd_full_replacement: bool) (hd_previous: "history_delta option") (hd_depth: nat) (hd_retained_rows: nat)

record history_state =
  hs_revision :: nat
  hs_basis :: history_basis

definition state_from_delta :: "history_delta \<Rightarrow> history_state" where
  "state_from_delta d = \<lparr>hs_revision = hd_revision d, hs_basis = hd_basis d\<rparr>"

section \<open>Validation\<close>

text \<open>The interval that a delta claims to replace, in its own window\<close>

definition delta_interval_ok :: "history_delta \<Rightarrow> nat \<Rightarrow> bool" where
  "delta_interval_ok d target_end \<longleftrightarrow>
     hb_origin (hd_basis d) \<le> hd_replace_from d \<and> hd_replace_from d \<le> target_end \<and>
     length (hd_rows d) = target_end - hd_replace_from d"

definition extends_base :: "history_delta \<Rightarrow> history_state \<Rightarrow> nat \<Rightarrow> bool" where
  "extends_base d base target_end \<longleftrightarrow>
     (case basis_end (hs_basis base) of
        None \<Rightarrow> False
      | Some base_end \<Rightarrow>
          hs_revision base = hd_base_revision d \<and>
          hb_screen (hs_basis base) = hb_screen (hd_basis d) \<and> hb_geometry (hs_basis base) = hb_geometry (hd_basis d) \<and>
          hb_origin (hs_basis base) \<le> hb_origin (hd_basis d) \<and> hb_origin (hd_basis d) \<le> base_end \<and>
          hd_replace_from d = base_end \<and> base_end \<le> target_end)"

fun validate_from :: "history_delta \<Rightarrow> nat \<Rightarrow> history_state \<Rightarrow> history_state option" where
  "validate_from (HistoryDelta r base_rev basis from rs full prev depth retained) current_revision current =
     (let d = HistoryDelta r base_rev basis from rs full prev depth retained in
      if r \<le> current_revision then Some current
      else if r \<le> base_rev then None
      else case basis_end basis of
        None \<Rightarrow> None
      | Some target_end \<Rightarrow>
          if \<not> delta_interval_ok d target_end then None
          else if full then (if from = hb_origin basis \<and> prev = None then Some (state_from_delta d) else None)
          else Option.bind
                 (if base_rev = current_revision then Some current
                  else case prev of None \<Rightarrow> None | Some p \<Rightarrow> validate_from p current_revision current)
                 (\<lambda>base. if extends_base d base target_end then Some (state_from_delta d) else None))"

definition validate_history_delta_chain :: "history_delta \<Rightarrow> history_state \<Rightarrow> history_state option" where
  "validate_history_delta_chain d presented = validate_from d (hs_revision presented) presented"

section \<open>Application\<close>

text \<open>Wrapped subtractions and a missing base are panics: None.\<close>

definition apply_history_transition ::
  "row list \<Rightarrow> history_state \<Rightarrow> history_state \<Rightarrow> nat \<Rightarrow> bool \<Rightarrow> row list \<Rightarrow> row list option" where
  "apply_history_transition scrollback base target from full rs =
     (if full then Some rs
      else if hb_origin (hs_basis target) < hb_origin (hs_basis base) \<or> from < hb_origin (hs_basis target) then None
      else let evicted = hb_origin (hs_basis target) - hb_origin (hs_basis base)
        in Some (take (from - hb_origin (hs_basis target)) (drop evicted scrollback) @ rs))"

fun apply_history_delta_chain :: "row list \<Rightarrow> history_delta \<Rightarrow> history_state \<Rightarrow> (row list \<times> history_state) option" where
  "apply_history_delta_chain scrollback (HistoryDelta r base_rev basis from rs full prev depth retained) presented =
     (if r \<le> hs_revision presented then Some (scrollback, presented)
      else Option.bind
        (if \<not> full \<and> base_rev \<noteq> hs_revision presented
         then (case prev of None \<Rightarrow> None | Some p \<Rightarrow> apply_history_delta_chain scrollback p presented)
         else Some (scrollback, presented))
        (\<lambda>(scrollback, base).
           let target = \<lparr>hs_revision = r, hs_basis = basis\<rparr> in
           map_option (\<lambda>rows. (rows, target)) (apply_history_transition scrollback base target from full rs)))"

definition compact_history_delta_root ::
  "row list \<Rightarrow> history_state \<Rightarrow> history_delta \<Rightarrow> history_state \<Rightarrow> history_state \<Rightarrow> nat \<Rightarrow> row list \<Rightarrow> row list option option" where
  "compact_history_delta_root committed presented previous base target from rs =
     (if length committed \<noteq> hb_extent (hs_basis presented) then Some None
      else case validate_history_delta_chain previous presented of
        None \<Rightarrow> Some None
      | Some validated \<Rightarrow>
          if validated \<noteq> base then Some None
          else case apply_history_delta_chain committed previous presented of
            None \<Rightarrow> None
          | Some (materialized, applied) \<Rightarrow>
              if applied \<noteq> base then Some None
              else map_option Some (apply_history_transition materialized base target from False rs))"

section \<open>The view's history\<close>

definition SCROLLBACK_LINES :: nat where "SCROLLBACK_LINES = 10000"
definition PRESENTED_HISTORY_MAX_DELTA_DEPTH :: nat where "PRESENTED_HISTORY_MAX_DELTA_DEPTH = 256"
definition PRESENTED_HISTORY_MAX_RETAINED_ROWS :: nat where "PRESENTED_HISTORY_MAX_RETAINED_ROWS = SCROLLBACK_LINES * 2"

text \<open>What the engine shows of its history: the basis of its window and its rows\<close>

record history_generation =
  hg_basis :: history_basis
  hg_rows :: "row list"

record history_view =
  hv_live :: history_generation
  hv_live_view_revision :: nat
  hv_live_revision :: nat
  hv_presented_view_revision :: nat
  hv_presented_revision :: nat
  hv_presented_basis :: history_basis
  hv_committed_basis :: history_basis
  hv_scrollback :: "row list"
  hv_shared :: "history_delta option"

definition append_compatible :: "history_basis \<Rightarrow> history_basis \<Rightarrow> bool" where
  "append_compatible base target \<longleftrightarrow>
     hb_extent target \<noteq> 0 \<and> hb_screen base = hb_screen target \<and> hb_geometry base = hb_geometry target \<and>
     hb_origin base \<le> hb_origin target \<and>
     (case basis_end base of None \<Rightarrow> False | Some base_end \<Rightarrow>
        hb_origin target \<le> base_end \<and> (case basis_end target of None \<Rightarrow> False | Some target_end \<Rightarrow> base_end \<le> target_end))"

text \<open>\<^verbatim>\<open>presentation_history_if_changed\<close>; None is a panic. The engine reads its rows from a logical start
  (\<^verbatim>\<open>normalized_history_rows_from\<close>).\<close>

definition must_compact :: "history_delta option \<Rightarrow> nat \<Rightarrow> bool" where
  "must_compact shared n \<longleftrightarrow>
     (case shared of None \<Rightarrow> False
      | Some h \<Rightarrow> PRESENTED_HISTORY_MAX_DELTA_DEPTH \<le> hd_depth h \<or>
          PRESENTED_HISTORY_MAX_RETAINED_ROWS < saturating_add_usize (hd_retained_rows h) n)"

definition history_delta_onto ::
  "row list \<Rightarrow> history_state \<Rightarrow> history_delta option \<Rightarrow> history_state \<Rightarrow> history_state \<Rightarrow> row list \<Rightarrow> history_delta option" where
  "history_delta_onto committed presented shared base target live_rows =
     (let compatible = append_compatible (hs_basis base) (hs_basis target);
          from = (if compatible then hb_origin (hs_basis base) + hb_extent (hs_basis base) else hb_origin (hs_basis target));
          suffix = drop (from - hb_origin (hs_basis target)) live_rows;
          incremental_rows = (if compatible then hb_origin (hs_basis target) + hb_extent (hs_basis target) - from
                              else hb_extent (hs_basis target))
      in if compatible \<and> must_compact shared incremental_rows
         then Option.bind (case shared of None \<Rightarrow> None | Some h \<Rightarrow> compact_history_delta_root committed presented h base target from suffix)
              (\<lambda>compacted. let rows = (case compacted of Some rs \<Rightarrow> rs | None \<Rightarrow> live_rows) in
                Some (HistoryDelta (hs_revision target) (hs_revision presented) (hs_basis target) (hb_origin (hs_basis target)) rows
                  True None 1 (length rows)))
         else if \<not> compatible
         then Some (HistoryDelta (hs_revision target) (hs_revision presented) (hs_basis target) from suffix True None 1 (length suffix))
         else Some (HistoryDelta (hs_revision target) (hs_revision base) (hs_basis target) from suffix False shared
                (case shared of None \<Rightarrow> 1 | Some h \<Rightarrow> hd_depth h + 1)
                (case shared of None \<Rightarrow> length suffix | Some h \<Rightarrow> hd_retained_rows h + length suffix)))"

definition new_history_delta :: "history_view \<Rightarrow> history_delta option" where
  "new_history_delta v =
     (let presented = \<lparr>hs_revision = hv_presented_revision v, hs_basis = hv_presented_basis v\<rparr> in
      history_delta_onto (hv_scrollback v) presented (hv_shared v)
        (case hv_shared v of None \<Rightarrow> presented | Some h \<Rightarrow> state_from_delta h)
        \<lparr>hs_revision = hv_live_revision v, hs_basis = hg_basis (hv_live v)\<rparr> (hg_rows (hv_live v)))"

definition presentation_history_if_changed :: "history_view \<Rightarrow> (history_delta option \<times> history_view) option" where
  "presentation_history_if_changed v =
     (if hv_live_revision v = hv_presented_revision v then Some (None, v)
      else case hv_shared v of
        Some h \<Rightarrow>
          if hd_revision h = hv_live_revision v then Some (Some h, v)
          else map_option (\<lambda>d. (Some d, v\<lparr>hv_shared := Some d\<rparr>)) (new_history_delta v)
      | None \<Rightarrow> map_option (\<lambda>d. (Some d, v\<lparr>hv_shared := Some d\<rparr>)) (new_history_delta v))"

text \<open>The part of a presented frame that carries history, with the basis of its snapshot\<close>

record history_frame =
  hf_view_revision :: nat
  hf_snapshot_basis :: history_basis
  hf_revision :: nat
  hf_basis :: history_basis
  hf_history :: "history_delta option"

definition capture_live_frame :: "history_view \<Rightarrow> (history_frame \<times> history_view) option" where
  "capture_live_frame v =
     map_option (\<lambda>(h, v'). (\<lparr>hf_view_revision = hv_live_view_revision v, hf_snapshot_basis = hg_basis (hv_live v),
         hf_revision = hv_live_revision v, hf_basis = hg_basis (hv_live v), hf_history = h\<rparr>, v'))
       (presentation_history_if_changed v)"

text \<open>The committed viewport is fitted to the given geometry.\<close>

definition capture_committed_frame :: "terminal_geometry \<Rightarrow> history_view \<Rightarrow> history_frame" where
  "capture_committed_frame g v =
     \<lparr>hf_view_revision = hv_presented_view_revision v, hf_snapshot_basis = (hv_committed_basis v)\<lparr>hb_geometry := g\<rparr>,
      hf_revision = hv_presented_revision v, hf_basis = hv_presented_basis v, hf_history = None\<rparr>"

definition can_apply_presented_frame :: "history_frame \<Rightarrow> history_view \<Rightarrow> bool" where
  "can_apply_presented_frame f v \<longleftrightarrow>
     \<not> (hf_view_revision f > hv_live_view_revision v \<or> hf_view_revision f < hv_presented_view_revision v) \<and>
     hv_presented_revision v \<le> hf_revision f \<and>
     (hf_revision f = hv_presented_revision v \<or>
      (case hf_history f of None \<Rightarrow> False | Some h \<Rightarrow> hd_revision h = hf_revision f))"

definition basis_mismatch :: "history_frame \<Rightarrow> history_view \<Rightarrow> bool" where
  "basis_mismatch f v \<longleftrightarrow>
     hb_screen (hf_snapshot_basis f) \<noteq> hb_screen (hf_basis f) \<or> hb_origin (hf_snapshot_basis f) \<noteq> hb_origin (hf_basis f) \<or>
     hb_extent (hf_snapshot_basis f) \<noteq> hb_extent (hf_basis f) \<or>
     hf_view_revision f \<noteq> hv_presented_view_revision v \<and> hb_geometry (hf_snapshot_basis f) \<noteq> hb_geometry (hf_basis f)"

definition finish_install :: "history_frame \<Rightarrow> history_view \<Rightarrow> history_view" where
  "finish_install f v =
     (let v = v\<lparr>hv_presented_view_revision := hf_view_revision f, hv_committed_basis := hf_snapshot_basis f\<rparr> in
      case hv_shared v of
        None \<Rightarrow> v
      | Some h \<Rightarrow> if hd_revision h \<le> hv_presented_revision v then v\<lparr>hv_shared := None\<rparr> else v)"

text \<open>Whether the frame was applied, and the view; None is a panic\<close>

definition install_presented_frame :: "history_frame \<Rightarrow> history_view \<Rightarrow> (bool \<times> history_view) option" where
  "install_presented_frame f v =
     (if basis_mismatch f v then Some (False, v)
      else if hf_revision f = hv_presented_revision v
      then (if hf_basis f \<noteq> hv_presented_basis v then Some (False, v) else Some (True, finish_install f v))
      else Option.bind (hf_history f) (\<lambda>h.
        let presented = \<lparr>hs_revision = hv_presented_revision v, hs_basis = hv_committed_basis v\<rparr> in
        case validate_history_delta_chain h presented of
          None \<Rightarrow> Some (False, v)
        | Some target \<Rightarrow>
            if hs_revision target \<noteq> hf_revision f \<or> hs_basis target \<noteq> hf_basis f then Some (False, v)
            else map_option (\<lambda>(rows, applied). (True, finish_install f
                (v\<lparr>hv_scrollback := rows, hv_presented_revision := hf_revision f, hv_presented_basis := hs_basis target\<rparr>)))
              (apply_history_delta_chain (hv_scrollback v) h presented)))"

definition apply_presented_frame_ref :: "history_frame \<Rightarrow> history_view \<Rightarrow> (bool \<times> history_view) option" where
  "apply_presented_frame_ref f v = (if \<not> can_apply_presented_frame f v then Some (False, v) else install_presented_frame f v)"

text \<open>What happens to the live model: a parser batch, which may change its history, and a resize, which
  begins a new chain; an exhausted revision is a panic.\<close>

definition advance_live_revision :: "history_view \<Rightarrow> history_view option" where
  "advance_live_revision v =
     (if hv_live_view_revision v < u64_max then Some (v\<lparr>hv_live_view_revision := hv_live_view_revision v + 1\<rparr>) else None)"

definition history_changed :: "history_generation \<Rightarrow> history_view \<Rightarrow> history_view option" where
  "history_changed g v =
     (if hv_live_revision v < u64_max then Some (v\<lparr>hv_live := g, hv_live_revision := hv_live_revision v + 1\<rparr>) else None)"

definition process_batch :: "history_generation option \<Rightarrow> history_view \<Rightarrow> history_view option" where
  "process_batch change v =
     Option.bind (advance_live_revision v) (\<lambda>v. case change of None \<Rightarrow> Some v | Some g \<Rightarrow> history_changed g v)"

definition set_size_with_geometry :: "history_generation \<Rightarrow> history_view \<Rightarrow> history_view option" where
  "set_size_with_geometry g v =
     map_option (\<lambda>v. v\<lparr>hv_shared := None\<rparr>) (Option.bind (advance_live_revision v) (history_changed g))"

definition history_view_new :: "history_generation \<Rightarrow> history_view" where
  "history_view_new g =
     \<lparr>hv_live = g, hv_live_view_revision = 0, hv_live_revision = 0, hv_presented_view_revision = 0, hv_presented_revision = 0,
      hv_presented_basis = hg_basis g, hv_committed_basis = hg_basis g, hv_scrollback = hg_rows g, hv_shared = None\<rparr>"

section \<open>A validated receipt applies\<close>

lemma validated_step:
  assumes v: "validate_from (HistoryDelta r base_rev basis lo rs full prev depth retained) current_revision current = Some target"
    and r: "current_revision < r"
  obtains target_end where "basis_end basis = Some target_end" "hb_origin basis \<le> lo" "lo \<le> target_end"
    "length rs = target_end - lo" "target = \<lparr>hs_revision = r, hs_basis = basis\<rparr>" "base_rev < r"
    "full \<Longrightarrow> lo = hb_origin basis \<and> prev = None"
    "\<not> full \<Longrightarrow> \<exists>base. (if base_rev = current_revision then Some current
        else case prev of None \<Rightarrow> None | Some p \<Rightarrow> validate_from p current_revision current) = Some base \<and>
       extends_base (HistoryDelta r base_rev basis lo rs full prev depth retained) base target_end"
proof -
  have step: "(if r \<le> base_rev then None
      else case basis_end basis of
        None \<Rightarrow> None
      | Some target_end \<Rightarrow>
          if \<not> delta_interval_ok (HistoryDelta r base_rev basis lo rs full prev depth retained) target_end then None
          else if full then (if lo = hb_origin basis \<and> prev = None
             then Some (state_from_delta (HistoryDelta r base_rev basis lo rs full prev depth retained)) else None)
          else Option.bind
                 (if base_rev = current_revision then Some current
                  else case prev of None \<Rightarrow> None | Some p \<Rightarrow> validate_from p current_revision current)
                 (\<lambda>base. if extends_base (HistoryDelta r base_rev basis lo rs full prev depth retained) base target_end
                   then Some (state_from_delta (HistoryDelta r base_rev basis lo rs full prev depth retained)) else None)) = Some target"
    using v r by (simp only: validate_from.simps Let_def) simp
  obtain te where te: "basis_end basis = Some te" "base_rev < r"
      "delta_interval_ok (HistoryDelta r base_rev basis lo rs full prev depth retained) te"
    using step by (auto split: if_splits option.splits)
  show thesis
  proof (rule that [OF te(1)])
    show "hb_origin basis \<le> lo" "lo \<le> te" "length rs = te - lo" using te(3) by (simp_all add: delta_interval_ok_def)
    show "base_rev < r" by (rule te(2))
    show "target = \<lparr>hs_revision = r, hs_basis = basis\<rparr>"
      using step te by (cases full) (auto simp: state_from_delta_def Option.bind_eq_Some_conv split: if_splits)
    show "full \<Longrightarrow> lo = hb_origin basis \<and> prev = None" using step te by (auto split: if_splits)
    show "\<not> full \<Longrightarrow> \<exists>base. (if base_rev = current_revision then Some current
        else case prev of None \<Rightarrow> None | Some p \<Rightarrow> validate_from p current_revision current) = Some base \<and>
       extends_base (HistoryDelta r base_rev basis lo rs full prev depth retained) base te"
      using step te by (auto simp: Option.bind_eq_Some_conv split: if_splits)
  qed
qed

lemma validate_applies:
  "validate_from d (hs_revision s) s = Some target \<Longrightarrow> length sb = hb_extent (hs_basis s) \<Longrightarrow>
   \<exists>rows. apply_history_delta_chain sb d s = Some (rows, target) \<and> length rows = hb_extent (hs_basis target)"
proof (induction sb d s arbitrary: target rule: apply_history_delta_chain.induct)
  case (1 sb r base_rev basis lo rs full prev depth retained s)
  show ?case
  proof (cases "r \<le> hs_revision s")
    case True
    then show ?thesis using "1.prems" by simp
  next
    case False
    then have r: "hs_revision s < r" by simp
    obtain te where te: "basis_end basis = Some te" "hb_origin basis \<le> lo" "lo \<le> te" "length rs = te - lo"
        "target = \<lparr>hs_revision = r, hs_basis = basis\<rparr>" "full \<Longrightarrow> lo = hb_origin basis \<and> prev = None"
        "\<not> full \<Longrightarrow> \<exists>base. (if base_rev = hs_revision s then Some s
          else case prev of None \<Rightarrow> None | Some p \<Rightarrow> validate_from p (hs_revision s) s) = Some base \<and>
         extends_base (HistoryDelta r base_rev basis lo rs full prev depth retained) base te"
      using validated_step [OF "1.prems"(1) r] by metis
    have extent: "te = hb_origin basis + hb_extent basis"
      using te(1) by (auto simp: basis_end_def checked_add_usize_def split: if_splits)
    show ?thesis
    proof (cases full)
      case True
      then show ?thesis using te False extent by (simp add: apply_history_transition_def)
    next
      case nf: False
      obtain base where base: "(if base_rev = hs_revision s then Some s
          else case prev of None \<Rightarrow> None | Some p \<Rightarrow> validate_from p (hs_revision s) s) = Some base"
        "extends_base (HistoryDelta r base_rev basis lo rs full prev depth retained) base te"
        using te(7) nf by blast
      have "\<exists>rows. (if \<not> full \<and> base_rev \<noteq> hs_revision s
            then (case prev of None \<Rightarrow> None | Some p \<Rightarrow> apply_history_delta_chain sb p s) else Some (sb, s)) = Some (rows, base) \<and>
          length rows = hb_extent (hs_basis base)"
      proof (cases "base_rev = hs_revision s")
        case True
        then show ?thesis using base(1) "1.prems"(2) by simp
      next
        case ne: False
        obtain p where p: "prev = Some p" "validate_from p (hs_revision s) s = Some base"
          using base(1) ne by (auto split: option.splits)
        then show ?thesis using "1.IH" [OF False _ p(1) p(2) "1.prems"(2)] ne nf by simp
      qed
      then obtain rows where rows: "(if \<not> full \<and> base_rev \<noteq> hs_revision s
            then (case prev of None \<Rightarrow> None | Some p \<Rightarrow> apply_history_delta_chain sb p s) else Some (sb, s)) = Some (rows, base)"
          "length rows = hb_extent (hs_basis base)" by blast
      obtain be where be: "basis_end (hs_basis base) = Some be" "hb_origin (hs_basis base) \<le> hb_origin basis"
          "hb_origin basis \<le> be" "lo = be" "be \<le> te"
        using base(2) by (auto simp: extends_base_def split: option.splits)
      have "be = hb_origin (hs_basis base) + hb_extent (hs_basis base)"
        using be(1) by (auto simp: basis_end_def checked_add_usize_def split: if_splits)
      then show ?thesis
        using rows be te False nf extent by (simp add: apply_history_transition_def Let_def)
    qed
  qed
qed

section \<open>Chains over true generations\<close>

abbreviation gen_end :: "history_generation \<Rightarrow> nat" where
  "gen_end g \<equiv> hb_origin (hg_basis g) + hb_extent (hg_basis g)"

text \<open>Rows at the same place of a lineage are the same rows.\<close>

definition agree :: "history_generation \<Rightarrow> history_generation \<Rightarrow> bool" where
  "agree g g' \<longleftrightarrow>
     (append_compatible (hg_basis g) (hg_basis g') \<longrightarrow>
      drop (hb_origin (hg_basis g') - hb_origin (hg_basis g)) (hg_rows g) = take (gen_end g - hb_origin (hg_basis g')) (hg_rows g'))"

definition generation_ok :: "history_generation \<Rightarrow> bool" where
  "generation_ok g \<longleftrightarrow> gen_end g \<le> usize_max \<and> length (hg_rows g) = hb_extent (hg_basis g)"

definition generations_ok :: "history_generation list \<Rightarrow> bool" where
  "generations_ok gens \<longleftrightarrow> list_all generation_ok gens \<and> (\<forall>j < length gens. \<forall>i < j. agree (gens ! i) (gens ! j))"

lemma generation_end: "generation_ok g \<Longrightarrow> basis_end (hg_basis g) = Some (gen_end g)"
  by (simp add: generation_ok_def basis_end_def checked_add_usize_def)

definition state_at :: "history_generation list \<Rightarrow> nat \<Rightarrow> history_state" where
  "state_at gens x = \<lparr>hs_revision = x, hs_basis = hg_basis (gens ! x)\<rparr>"

fun chain_ok :: "history_generation list \<Rightarrow> history_delta \<Rightarrow> bool" where
  "chain_ok gens (HistoryDelta r base_rev basis lo rs full prev depth retained) \<longleftrightarrow>
     r < length gens \<and> base_rev < r \<and> basis = hg_basis (gens ! r) \<and> hb_origin basis \<le> lo \<and> lo \<le> gen_end (gens ! r) \<and>
     rs = drop (lo - hb_origin basis) (hg_rows (gens ! r)) \<and>
     (if full then lo = hb_origin basis \<and> prev = None
      else append_compatible (hg_basis (gens ! base_rev)) basis \<and> lo = gen_end (gens ! base_rev) \<and>
        (case prev of None \<Rightarrow> True | Some p \<Rightarrow> hd_revision p = base_rev \<and> chain_ok gens p))"

text \<open>The chain leads back to the generation \<open>x\<close>, or does not need one.\<close>

fun resolves :: "history_delta \<Rightarrow> nat \<Rightarrow> bool" where
  "resolves (HistoryDelta r base_rev basis lo rs full prev depth retained) x \<longleftrightarrow>
     full \<or> base_rev = x \<or> x < base_rev \<and> (case prev of None \<Rightarrow> False | Some p \<Rightarrow> resolves p x)"

lemma transition_rows:
  assumes "agree g g'" "append_compatible (hg_basis g) (hg_basis g')" "hs_basis s = hg_basis g" "hs_basis s' = hg_basis g'"
  shows "apply_history_transition (hg_rows g) s s' (gen_end g) False (drop (gen_end g - hb_origin (hg_basis g')) (hg_rows g')) = Some (hg_rows g')"
proof -
  have "hb_origin (hg_basis g) \<le> hb_origin (hg_basis g')" "hb_origin (hg_basis g') \<le> gen_end g"
    using assms(2) by (auto simp: append_compatible_def basis_end_def checked_add_usize_def split: option.splits if_splits)
  moreover have "drop (hb_origin (hg_basis g') - hb_origin (hg_basis g)) (hg_rows g) = take (gen_end g - hb_origin (hg_basis g')) (hg_rows g')"
    using assms(1,2) by (simp add: agree_def)
  ultimately show ?thesis using assms(3,4) by (simp add: apply_history_transition_def Let_def)
qed

lemma chain_reaches:
  assumes gens: "generations_ok gens"
  shows "chain_ok gens d \<Longrightarrow> resolves d x \<Longrightarrow> x < hd_revision d \<Longrightarrow>
    validate_from d x (state_at gens x) = Some (state_at gens (hd_revision d)) \<and>
    apply_history_delta_chain (hg_rows (gens ! x)) d (state_at gens x) = Some (hg_rows (gens ! hd_revision d), state_at gens (hd_revision d))"
proof (induction "hg_rows (gens ! x)" d "state_at gens x" rule: apply_history_delta_chain.induct)
  case (1 r base_rev basis lo rs full prev depth retained)
  have ok: "generation_ok (gens ! r)" "generation_ok (gens ! base_rev)" "agree (gens ! base_rev) (gens ! r)"
    using gens "1.prems"(1) by (auto simp: generations_ok_def list_all_length)
  have basis: "basis = hg_basis (gens ! r)" "hb_origin basis \<le> lo" "lo \<le> gen_end (gens ! r)"
      "rs = drop (lo - hb_origin basis) (hg_rows (gens ! r))" "base_rev < r" "x < r" "\<not> r \<le> base_rev" "\<not> r \<le> x"
    using "1.prems" by auto
  have len: "length (hg_rows (gens ! r)) = hb_extent basis" "basis_end basis = Some (gen_end (gens ! r))"
    using ok(1) basis(1) generation_end [OF ok(1)] by (simp_all add: generation_ok_def)
  have interval: "delta_interval_ok (HistoryDelta r base_rev basis lo rs full prev depth retained) (gen_end (gens ! r))"
    using basis len by (simp add: delta_interval_ok_def)
  have target: "state_from_delta (HistoryDelta r base_rev basis lo rs full prev depth retained) = state_at gens r"
    "\<lparr>hs_revision = r, hs_basis = basis\<rparr> = state_at gens r"
    using basis(1) by (simp_all add: state_from_delta_def state_at_def)
  show ?case
  proof (cases full)
    case True
    then have "lo = hb_origin basis" "prev = None" using "1.prems"(1) by auto
    then show ?thesis
      using True basis len interval target by (simp add: apply_history_transition_def state_at_def)
  next
    case False
    have inc: "append_compatible (hg_basis (gens ! base_rev)) basis" "lo = gen_end (gens ! base_rev)"
      using "1.prems"(1) False by auto
    have base: "(if base_rev = x then Some (state_at gens x)
          else case prev of None \<Rightarrow> None | Some p \<Rightarrow> validate_from p x (state_at gens x)) = Some (state_at gens base_rev) \<and>
        (if \<not> full \<and> base_rev \<noteq> hs_revision (state_at gens x)
         then (case prev of None \<Rightarrow> None | Some p \<Rightarrow> apply_history_delta_chain (hg_rows (gens ! x)) p (state_at gens x))
         else Some (hg_rows (gens ! x), state_at gens x)) = Some (hg_rows (gens ! base_rev), state_at gens base_rev)"
    proof (cases "base_rev = x")
      case True
      then show ?thesis by (simp add: state_at_def)
    next
      case ne: False
      obtain p where p: "prev = Some p" "hd_revision p = base_rev" "chain_ok gens p" "resolves p x" "x < base_rev"
        using "1.prems" False ne by (auto split: option.splits)
      then show ?thesis using "1.hyps" [of p] basis ne False by (simp add: state_at_def)
    qed
    have ext: "extends_base (HistoryDelta r base_rev basis lo rs full prev depth retained) (state_at gens base_rev) (gen_end (gens ! r))"
      using inc generation_end [OF ok(2)] len(2)
      by (auto simp: extends_base_def append_compatible_def state_at_def basis(1) split: option.splits)
    have "apply_history_transition (hg_rows (gens ! base_rev)) (state_at gens base_rev) (state_at gens r) lo full rs = Some (hg_rows (gens ! r))"
      using transition_rows [OF ok(3), of "state_at gens base_rev" "state_at gens r"] inc basis(1,4) False by (simp add: state_at_def)
    then have apply_step: "apply_history_transition (hg_rows (gens ! base_rev)) (state_at gens base_rev) \<lparr>hs_revision = r, hs_basis = basis\<rparr> lo full rs =
        Some (hg_rows (gens ! r))" by (simp only: target)
    have "validate_from (HistoryDelta r base_rev basis lo rs full prev depth retained) x (state_at gens x) =
        Option.bind (if base_rev = x then Some (state_at gens x)
          else case prev of None \<Rightarrow> None | Some p \<Rightarrow> validate_from p x (state_at gens x))
         (\<lambda>base. if extends_base (HistoryDelta r base_rev basis lo rs full prev depth retained) base (gen_end (gens ! r))
            then Some (state_at gens r) else None)"
      using False basis(7,8) len(2) interval target by (simp only: validate_from.simps Let_def) simp
    then have "validate_from (HistoryDelta r base_rev basis lo rs full prev depth retained) x (state_at gens x) = Some (state_at gens r)"
      using base ext by simp
    moreover have "\<not> r \<le> hs_revision (state_at gens x)" using basis(8) by (simp add: state_at_def)
    then have "apply_history_delta_chain (hg_rows (gens ! x)) (HistoryDelta r base_rev basis lo rs full prev depth retained) (state_at gens x) =
        Some (hg_rows (gens ! r), state_at gens r)"
      unfolding apply_history_delta_chain.simps base [THEN conjunct2]
      by (simp add: apply_step Let_def) (simp add: target)
    ultimately show ?thesis by simp
  qed
qed

section \<open>The view and its pending frames\<close>

text \<open>
  The generations of the live history, where the current lineage of rows began, the frames captured
  so far, and the view. The engine's rows keep their place within a lineage (\<open>generations_ok\<close>), and
  every resize considered here begins a new one, of which no older generation is compatible. A frame of a
  transition between views shows the committed viewport unfitted.
\<close>

abbreviation incompatible_before :: "history_generation list \<Rightarrow> nat \<Rightarrow> history_generation \<Rightarrow> bool" where
  "incompatible_before gens k g \<equiv> \<forall>i < k. \<not> append_compatible (hg_basis (gens ! i)) (hg_basis g)"

inductive history_reachable :: "history_generation list \<Rightarrow> nat \<Rightarrow> history_frame list \<Rightarrow> history_view \<Rightarrow> bool" where
  start: "generation_ok g \<Longrightarrow> history_reachable [g] 0 [] (history_view_new g)"
| batch: "history_reachable gens k fs v \<Longrightarrow> process_batch None v = Some v' \<Longrightarrow> history_reachable gens k fs v'"
| changing_batch: "history_reachable gens k fs v \<Longrightarrow> process_batch (Some g) v = Some v' \<Longrightarrow> generations_ok (gens @ [g]) \<Longrightarrow>
    incompatible_before gens k g \<Longrightarrow> history_reachable (gens @ [g]) k fs v'"
| resize: "history_reachable gens k fs v \<Longrightarrow> set_size_with_geometry g v = Some v' \<Longrightarrow> generations_ok (gens @ [g]) \<Longrightarrow>
    incompatible_before gens (length gens) g \<Longrightarrow> history_reachable (gens @ [g]) (length gens) fs v'"
| capture: "history_reachable gens k fs v \<Longrightarrow> capture_live_frame v = Some (f, v') \<Longrightarrow> history_reachable gens k (f # fs) v'"
| transition: "history_reachable gens k fs v \<Longrightarrow>
    history_reachable gens k (capture_committed_frame (hb_geometry (hv_presented_basis v)) v # fs) v"
| install: "history_reachable gens k fs v \<Longrightarrow> f \<in> set fs \<Longrightarrow> apply_presented_frame_ref f v = Some (applied, v') \<Longrightarrow>
    history_reachable gens k fs v'"

definition resolves_all :: "nat \<Rightarrow> nat set \<Rightarrow> history_delta \<Rightarrow> bool" where
  "resolves_all presented revisions d \<longleftrightarrow> (\<forall>x \<in> insert presented revisions. presented \<le> x \<longrightarrow> x < hd_revision d \<longrightarrow> resolves d x)"

definition frame_ok :: "history_generation list \<Rightarrow> nat \<Rightarrow> nat set \<Rightarrow> history_frame \<Rightarrow> bool" where
  "frame_ok gens presented revisions f \<longleftrightarrow>
     hf_revision f < length gens \<and> hf_basis f = hg_basis (gens ! hf_revision f) \<and> hf_snapshot_basis f = hf_basis f \<and>
     (presented < hf_revision f \<longrightarrow>
        (\<exists>h. hf_history f = Some h \<and> hd_revision h = hf_revision f \<and> chain_ok gens h \<and> resolves_all presented revisions h))"

definition shared_ok :: "history_generation list \<Rightarrow> nat \<Rightarrow> nat \<Rightarrow> nat set \<Rightarrow> history_delta option \<Rightarrow> bool" where
  "shared_ok gens k presented revisions shared \<longleftrightarrow>
     (case shared of
        None \<Rightarrow> (\<forall>x \<in> revisions. x \<le> presented) \<or> presented < k \<and> (\<forall>x \<in> revisions. x < k)
      | Some d \<Rightarrow> chain_ok gens d \<and> presented < hd_revision d \<and> k \<le> hd_revision d \<and> (\<forall>x \<in> revisions. x \<le> hd_revision d) \<and>
          resolves_all presented revisions d)"

definition lineage_ok :: "history_generation list \<Rightarrow> nat \<Rightarrow> bool" where
  "lineage_ok gens k \<longleftrightarrow> k < length gens \<and>
     (\<forall>j < length gens. k \<le> j \<longrightarrow> (\<forall>i < k. \<not> append_compatible (hg_basis (gens ! i)) (hg_basis (gens ! j))))"

definition presented_ok :: "history_generation list \<Rightarrow> history_view \<Rightarrow> bool" where
  "presented_ok gens v \<longleftrightarrow>
     hv_live v = last gens \<and> Suc (hv_live_revision v) = length gens \<and> hv_presented_revision v < length gens \<and>
     hv_scrollback v = hg_rows (gens ! hv_presented_revision v) \<and>
     hv_presented_basis v = hg_basis (gens ! hv_presented_revision v) \<and> hv_committed_basis v = hv_presented_basis v"

definition ordered_ok :: "history_frame list \<Rightarrow> history_view \<Rightarrow> bool" where
  "ordered_ok fs v \<longleftrightarrow>
     hv_presented_view_revision v \<le> hv_live_view_revision v \<and>
     (hv_presented_view_revision v = hv_live_view_revision v \<longrightarrow> hv_presented_revision v = hv_live_revision v) \<and>
     (\<forall>f \<in> set fs. hf_view_revision f \<le> hv_live_view_revision v \<and>
        (hf_view_revision f = hv_live_view_revision v \<longrightarrow> hf_revision f = hv_live_revision v) \<and>
        (hv_presented_view_revision v \<le> hf_view_revision f \<longrightarrow> hv_presented_revision v \<le> hf_revision f) \<and>
        (hf_view_revision f \<le> hv_presented_view_revision v \<longrightarrow> hf_revision f \<le> hv_presented_revision v) \<and>
        (\<forall>f' \<in> set fs. hf_view_revision f \<le> hf_view_revision f' \<longrightarrow> hf_revision f \<le> hf_revision f'))"

definition history_inv :: "history_generation list \<Rightarrow> nat \<Rightarrow> history_frame list \<Rightarrow> history_view \<Rightarrow> bool" where
  "history_inv gens k fs v \<longleftrightarrow>
     generations_ok gens \<and> lineage_ok gens k \<and> presented_ok gens v \<and> ordered_ok fs v \<and>
     (\<forall>f \<in> set fs. frame_ok gens (hv_presented_revision v) (hf_revision ` set fs) f) \<and>
     shared_ok gens k (hv_presented_revision v) (hf_revision ` set fs) (hv_shared v)"

lemma chain_ok_append: "chain_ok gens d \<Longrightarrow> chain_ok (gens @ [g]) d"
proof (induction gens d rule: chain_ok.induct)
  case (1 gens r base_rev basis lo rs full prev depth retained)
  have "chain_ok gens p \<Longrightarrow> chain_ok (gens @ [g]) p" if "\<not> full" "prev = Some p" for p
    using "1.IH" [OF that] by blast
  then show ?case using "1.prems" by (auto simp: nth_append split: option.splits if_splits)
qed

lemma frame_ok_append: "frame_ok gens p rs f \<Longrightarrow> frame_ok (gens @ [g]) p rs f"
  using chain_ok_append by (fastforce simp: frame_ok_def nth_append)

lemma shared_ok_append: "shared_ok gens k p rs s \<Longrightarrow> shared_ok (gens @ [g]) k p rs s"
  using chain_ok_append by (auto simp: shared_ok_def split: option.splits)

lemma lineage_append: "lineage_ok gens k \<Longrightarrow> incompatible_before gens k g \<Longrightarrow> lineage_ok (gens @ [g]) k"
  by (auto simp: lineage_ok_def nth_append less_Suc_eq)

section \<open>A new delta\<close>

lemma state_at_simps: "hs_revision (state_at gens x) = x" "hs_basis (state_at gens x) = hg_basis (gens ! x)"
  by (simp_all add: state_at_def)

lemma delta_state: "chain_ok gens d \<Longrightarrow> state_from_delta d = state_at gens (hd_revision d)"
  by (cases d) (simp add: state_from_delta_def state_at_def)

lemma full_delta_ok:
  assumes "generation_ok (gens ! r)" "r < length gens" "b < r"
  shows "chain_ok gens (HistoryDelta r b (hg_basis (gens ! r)) (hb_origin (hg_basis (gens ! r))) (hg_rows (gens ! r)) True None n m)"
  using assms by simp

lemma new_delta_ok:
  assumes inv: "history_inv gens k fs v" and behind: "hv_presented_revision v < hv_live_revision v"
    and fresh: "\<forall>h. hv_shared v = Some h \<longrightarrow> hd_revision h \<noteq> hv_live_revision v"
  shows "\<exists>d. new_history_delta v = Some d \<and> chain_ok gens d \<and> hd_revision d = hv_live_revision v \<and>
    resolves_all (hv_presented_revision v) (hf_revision ` set fs) d"
proof -
  define r where "r = hv_live_revision v"
  define p where "p = hv_presented_revision v"
  have gens: "generations_ok gens" "lineage_ok gens k" and pres: "presented_ok gens v"
    and sh: "shared_ok gens k p (hf_revision ` set fs) (hv_shared v)"
    using inv by (simp_all add: history_inv_def p_def)
  have r: "r < length gens" "hv_live v = gens ! r" "p < r" "k \<le> r"
    using pres behind gens(2) by (auto simp: presented_ok_def r_def p_def lineage_ok_def last_conv_nth) (metis diff_Suc_1 last_conv_nth list.size(3) nat.distinct(1))
  have ok: "generation_ok (gens ! r)" "\<And>i. i < r \<Longrightarrow> agree (gens ! i) (gens ! r)"
    using gens(1) r(1) by (auto simp: generations_ok_def list_all_length)
  define base where "base = (case hv_shared v of None \<Rightarrow> state_at gens p | Some h \<Rightarrow> state_from_delta h)"
  define b where "b = (case hv_shared v of None \<Rightarrow> p | Some h \<Rightarrow> hd_revision h)"
  have base: "base = state_at gens b" using sh by (auto simp: base_def b_def shared_ok_def delta_state split: option.splits)
  have b: "b < r" "b < length gens"
  proof -
    have "hd_revision h < r" if "hv_shared v = Some h" for h
    proof -
      have "chain_ok gens h" using sh that by (simp add: shared_ok_def)
      then have "hd_revision h < length gens" by (cases h) simp
      then show ?thesis using fresh that pres by (auto simp: r_def presented_ok_def less_Suc_eq)
    qed
    then show "b < r" using r(3) by (auto simp: b_def split: option.splits)
    then show "b < length gens" using r(1) by simp
  qed
  define compatible where "compatible \<longleftrightarrow> append_compatible (hg_basis (gens ! b)) (hg_basis (gens ! r))"
  define lo where "lo = (if compatible then gen_end (gens ! b) else hb_origin (hg_basis (gens ! r)))"
  define suffix where "suffix = drop (lo - hb_origin (hg_basis (gens ! r))) (hg_rows (gens ! r))"
  define n where "n = (if compatible then gen_end (gens ! r) - lo else hb_extent (hg_basis (gens ! r)))"
  have presented: "\<lparr>hs_revision = hv_presented_revision v, hs_basis = hv_presented_basis v\<rparr> = state_at gens p"
    using pres by (simp add: presented_ok_def state_at_def p_def)
  have new: "new_history_delta v =
     (if compatible \<and> must_compact (hv_shared v) n
      then Option.bind (case hv_shared v of None \<Rightarrow> None | Some h \<Rightarrow>
             compact_history_delta_root (hv_scrollback v) (state_at gens p) h base (state_at gens r) lo suffix)
           (\<lambda>compacted. let rows = (case compacted of Some rs \<Rightarrow> rs | None \<Rightarrow> hg_rows (gens ! r)) in
             Some (HistoryDelta r p (hg_basis (gens ! r)) (hb_origin (hg_basis (gens ! r))) rows True None 1 (length rows)))
      else if \<not> compatible then Some (HistoryDelta r p (hg_basis (gens ! r)) lo suffix True None 1 (length suffix))
      else Some (HistoryDelta r b (hg_basis (gens ! r)) lo suffix False (hv_shared v)
             (case hv_shared v of None \<Rightarrow> 1 | Some h \<Rightarrow> hd_depth h + 1)
             (case hv_shared v of None \<Rightarrow> length suffix | Some h \<Rightarrow> hd_retained_rows h + length suffix)))"
  proof -
    have "new_history_delta v = history_delta_onto (hv_scrollback v) (state_at gens p) (hv_shared v) base (state_at gens r) (hg_rows (gens ! r))"
      unfolding new_history_delta_def presented Let_def r(2) base_def by (simp add: state_at_def r_def)
    then show ?thesis
      unfolding history_delta_onto_def base
      by (simp only: Let_def state_at_simps compatible_def lo_def suffix_def n_def)
  qed
  have all: "resolves_all p (hf_revision ` set fs) (HistoryDelta r p' basis lo' rs True None m m')" for p' basis lo' rs m m'
    by (simp add: resolves_all_def)
  consider (compact) "compatible" "must_compact (hv_shared v) n" | (full) "\<not> compatible" | (extend) "compatible" "\<not> must_compact (hv_shared v) n"
    by blast
  then show ?thesis
  proof cases
    case compact
    then obtain h where h: "hv_shared v = Some h" by (auto simp: must_compact_def split: option.splits)
    have hb: "b = hd_revision h" by (simp add: b_def h)
    have "chain_ok gens h" "resolves h p" "p < hd_revision h" using sh h by (auto simp: shared_ok_def resolves_all_def)
    note reach = chain_reaches [OF gens(1) this(1,2,3), folded hb base]
    have "compact_history_delta_root (hg_rows (gens ! p)) (state_at gens p) h base (state_at gens r) lo suffix = Some (Some (hg_rows (gens ! r)))"
    proof -
      have "length (hg_rows (gens ! p)) = hb_extent (hs_basis (state_at gens p))"
        using gens(1) pres by (auto simp: generations_ok_def list_all_length generation_ok_def state_at_def presented_ok_def p_def)
      moreover have "apply_history_transition (hg_rows (gens ! b)) base (state_at gens r) lo False suffix = Some (hg_rows (gens ! r))"
        using transition_rows [OF ok(2) [OF b(1)], of base "state_at gens r"] compact(1)
        by (simp add: base state_at_def compatible_def lo_def suffix_def)
      ultimately show ?thesis
        using reach by (simp add: compact_history_delta_root_def validate_history_delta_chain_def state_at_simps base)
    qed
    moreover have "hv_scrollback v = hg_rows (gens ! p)" using pres by (simp add: presented_ok_def p_def)
    ultimately have "new_history_delta v = Some (HistoryDelta r p (hg_basis (gens ! r)) (hb_origin (hg_basis (gens ! r)))
        (hg_rows (gens ! r)) True None 1 (length (hg_rows (gens ! r))))"
      using compact h by (simp add: new Let_def)
    then show ?thesis using full_delta_ok [OF ok(1) r(1,3)] all by (simp add: r_def p_def)
  next
    case full
    then have "new_history_delta v = Some (HistoryDelta r p (hg_basis (gens ! r)) (hb_origin (hg_basis (gens ! r)))
        (hg_rows (gens ! r)) True None 1 (length (hg_rows (gens ! r))))"
      by (simp add: new lo_def suffix_def)
    then show ?thesis using full_delta_ok [OF ok(1) r(1,3)] all by (simp add: r_def p_def)
  next
    case extend
    define d where "d = HistoryDelta r b (hg_basis (gens ! r)) lo suffix False (hv_shared v)
             (case hv_shared v of None \<Rightarrow> 1 | Some h \<Rightarrow> hd_depth h + 1)
             (case hv_shared v of None \<Rightarrow> length suffix | Some h \<Rightarrow> hd_retained_rows h + length suffix)"
    have new_d: "new_history_delta v = Some d" using extend by (simp add: new d_def)
    have "hb_origin (hg_basis (gens ! r)) \<le> lo" "lo \<le> gen_end (gens ! r)"
      using extend(1) by (auto simp: lo_def compatible_def append_compatible_def basis_end_def checked_add_usize_def split: option.splits if_splits)
    moreover have "case hv_shared v of None \<Rightarrow> True | Some h \<Rightarrow> hd_revision h = b \<and> chain_ok gens h"
      using sh by (auto simp: shared_ok_def b_def split: option.splits)
    ultimately have "chain_ok gens d"
      using extend(1) b(1) r(1) by (simp add: d_def suffix_def) (simp add: compatible_def lo_def)
    moreover have "resolves_all p (hf_revision ` set fs) d"
    proof (cases "hv_shared v")
      case None
      have "\<not> p < k"
        using gens(2) r(1,4) extend(1) None by (auto simp: lineage_ok_def compatible_def b_def)
      then have "\<forall>x \<in> hf_revision ` set fs. x \<le> p" using sh None by (simp add: shared_ok_def)
      then show ?thesis using None by (auto simp: resolves_all_def d_def b_def)
    next
      case (Some h)
      have "\<forall>x \<in> insert p (hf_revision ` set fs). x \<le> hd_revision h" "resolves_all p (hf_revision ` set fs) h"
        using sh Some by (auto simp: shared_ok_def)
      then show ?thesis using Some by (auto simp: resolves_all_def d_def b_def le_less)
    qed
    ultimately show ?thesis using new_d by (simp add: d_def r_def p_def)
  qed
qed

section \<open>The invariant is kept\<close>

lemma resolves_all_more:
  "resolves_all p rs d \<Longrightarrow> p' \<in> insert p rs \<Longrightarrow> p \<le> p' \<Longrightarrow> resolves_all p' rs d"
  by (auto simp: resolves_all_def)

lemma resolves_all_insert:
  "resolves_all p rs d \<Longrightarrow> x = p \<or> hd_revision d \<le> x \<Longrightarrow> resolves_all p (insert x rs) d"
  by (auto simp: resolves_all_def)

lemma inv_start: "generation_ok g \<Longrightarrow> history_inv [g] 0 [] (history_view_new g)"
  by (auto simp: history_inv_def history_view_new_def generations_ok_def lineage_ok_def presented_ok_def ordered_ok_def
      shared_ok_def)

lemma process_batch_Some:
  "process_batch change v = Some v' \<longleftrightarrow>
     hv_live_view_revision v < u64_max \<and>
     (case change of
        None \<Rightarrow> v' = v\<lparr>hv_live_view_revision := hv_live_view_revision v + 1\<rparr>
      | Some g \<Rightarrow> hv_live_revision v < u64_max \<and>
          v' = v\<lparr>hv_live_view_revision := hv_live_view_revision v + 1, hv_live := g, hv_live_revision := hv_live_revision v + 1\<rparr>)"
  by (auto simp: process_batch_def advance_live_revision_def history_changed_def split: option.splits)

lemma set_size_Some:
  "set_size_with_geometry g v = Some v' \<longleftrightarrow> (\<exists>w. process_batch (Some g) v = Some w \<and> v' = w\<lparr>hv_shared := None\<rparr>)"
  by (auto simp: set_size_with_geometry_def process_batch_def)

lemma ordered_ok_batch: "ordered_ok fs v \<Longrightarrow> process_batch change v = Some v' \<Longrightarrow> ordered_ok fs v'"
  by (fastforce simp: ordered_ok_def process_batch_Some split: option.splits)

lemma presented_ok_batch:
  "presented_ok gens v \<Longrightarrow> process_batch (Some g) v = Some v' \<Longrightarrow> presented_ok (gens @ [g]) v'"
  by (auto simp: presented_ok_def process_batch_Some nth_append)

lemma inv_batch: "history_inv gens k fs v \<Longrightarrow> process_batch None v = Some v' \<Longrightarrow> history_inv gens k fs v'"
  using ordered_ok_batch [of fs v None v'] by (auto simp: history_inv_def presented_ok_def process_batch_Some)

lemma presented_ok_shared: "presented_ok gens (v\<lparr>hv_shared := s\<rparr>) \<longleftrightarrow> presented_ok gens v"
  by (simp add: presented_ok_def)

lemma ordered_ok_shared: "ordered_ok fs (v\<lparr>hv_shared := s\<rparr>) \<longleftrightarrow> ordered_ok fs v"
  by (simp add: ordered_ok_def)

lemma frame_rev: "history_inv gens k fs v \<Longrightarrow> f \<in> set fs \<Longrightarrow> hf_revision f < length gens"
  by (simp add: history_inv_def frame_ok_def)

lemma behind_gens:
  assumes "history_inv gens k fs v"
  shows "hv_presented_revision v < length gens \<and> (\<forall>x \<in> hf_revision ` set fs. x < length gens)"
  using frame_rev [OF assms] assms by (auto simp: history_inv_def [of gens k fs v] presented_ok_def)

lemma inv_changing_batch:
  assumes inv: "history_inv gens k fs v" and v': "process_batch (Some g) v = Some v'" and g: "generations_ok (gens @ [g])"
    and k: "incompatible_before gens k g"
  shows "history_inv (gens @ [g]) k fs v'"
proof -
  have "hv_presented_revision v' = hv_presented_revision v" "hv_shared v' = hv_shared v" using v' by (auto simp: process_batch_Some)
  moreover have "ordered_ok fs v'" "presented_ok (gens @ [g]) v'"
    using inv ordered_ok_batch [OF _ v'] presented_ok_batch [OF _ v'] by (simp_all add: history_inv_def)
  moreover have "lineage_ok (gens @ [g]) k" using inv lineage_append [OF _ k] by (simp add: history_inv_def)
  moreover have "\<forall>f \<in> set fs. frame_ok (gens @ [g]) (hv_presented_revision v) (hf_revision ` set fs) f"
    using inv frame_ok_append by (simp add: history_inv_def)
  moreover have "shared_ok (gens @ [g]) k (hv_presented_revision v) (hf_revision ` set fs) (hv_shared v)"
    using inv shared_ok_append by (simp add: history_inv_def)
  ultimately show ?thesis using g by (simp add: history_inv_def)
qed

lemma inv_resize:
  assumes inv: "history_inv gens k fs v" and v': "set_size_with_geometry g v = Some v'" and g: "generations_ok (gens @ [g])"
    and k: "incompatible_before gens (length gens) g"
  shows "history_inv (gens @ [g]) (length gens) fs v'"
proof -
  obtain w where w: "process_batch (Some g) v = Some w" "v' = w\<lparr>hv_shared := None\<rparr>" using v' by (auto simp: set_size_Some)
  have keep: "hv_presented_revision v' = hv_presented_revision v" "hv_shared v' = None" using w by (auto simp: process_batch_Some)
  have "presented_ok (gens @ [g]) w" "ordered_ok fs w"
    using inv presented_ok_batch [OF _ w(1)] ordered_ok_batch [OF _ w(1)] by (simp_all add: history_inv_def)
  then have "presented_ok (gens @ [g]) v'" "ordered_ok fs v'" by (simp_all add: w(2) presented_ok_shared ordered_ok_shared)
  moreover have "lineage_ok (gens @ [g]) (length gens)" using k by (auto simp: lineage_ok_def nth_append less_Suc_eq)
  moreover have "shared_ok (gens @ [g]) (length gens) (hv_presented_revision v) (hf_revision ` set fs) None"
    using behind_gens [OF inv] by (simp add: shared_ok_def)
  moreover have "\<forall>f \<in> set fs. frame_ok (gens @ [g]) (hv_presented_revision v) (hf_revision ` set fs) f"
    using inv frame_ok_append by (simp add: history_inv_def)
  ultimately show ?thesis using g keep by (simp add: history_inv_def)
qed

lemma presented_le: "presented_ok gens v \<Longrightarrow> hv_presented_revision v \<le> hv_live_revision v"
  by (simp add: presented_ok_def)

lemma frames_le: "history_inv gens k fs v \<Longrightarrow> f \<in> set fs \<Longrightarrow> hf_revision f \<le> hv_live_revision v"
  using frame_rev [of gens k fs v f] by (simp add: history_inv_def presented_ok_def)

lemma frame_ok_more:
  assumes "frame_ok gens p rs f" "x = p \<or> hf_revision f \<le> x"
  shows "frame_ok gens p (insert x rs) f"
  using assms resolves_all_insert by (fastforce simp: frame_ok_def)

lemma ordered_ok_capture:
  assumes "ordered_ok fs v" "presented_ok gens v" "\<forall>f \<in> set fs. hf_revision f \<le> hv_live_revision v"
    and "hf_view_revision f = hv_live_view_revision v" "hf_revision f = hv_live_revision v"
  shows "ordered_ok (f # fs) v"
  using assms presented_le [OF assms(2)] by (auto simp: ordered_ok_def)

lemma live_at: "presented_ok gens v \<Longrightarrow> hv_live v = gens ! hv_live_revision v"
  by (cases gens rule: rev_cases) (auto simp: presented_ok_def)

text \<open>Capturing a frame whose delta has been found, with the view that keeps it\<close>

definition live_frame :: "history_view \<Rightarrow> history_delta option \<Rightarrow> history_frame" where
  "live_frame v h = \<lparr>hf_view_revision = hv_live_view_revision v, hf_snapshot_basis = hg_basis (hv_live v),
     hf_revision = hv_live_revision v, hf_basis = hg_basis (hv_live v), hf_history = h\<rparr>"

lemma live_frame_simps [simp]:
  "hf_view_revision (live_frame v h) = hv_live_view_revision v" "hf_snapshot_basis (live_frame v h) = hg_basis (hv_live v)"
  "hf_revision (live_frame v h) = hv_live_revision v" "hf_basis (live_frame v h) = hg_basis (hv_live v)"
  "hf_history (live_frame v h) = h"
  by (simp_all add: live_frame_def)

definition good_delta :: "history_generation list \<Rightarrow> history_frame list \<Rightarrow> history_view \<Rightarrow> history_delta \<Rightarrow> bool" where
  "good_delta gens fs v d \<longleftrightarrow> hv_presented_revision v < hd_revision d \<and> hd_revision d = hv_live_revision v \<and>
     chain_ok gens d \<and> resolves_all (hv_presented_revision v) (hf_revision ` set fs) d"

lemma inv_captured_frames:
  assumes inv: "history_inv gens k fs v"
  shows "\<forall>f \<in> set fs. frame_ok gens (hv_presented_revision v) (insert (hv_live_revision v) (hf_revision ` set fs)) f"
  using inv frames_le [OF inv] frame_ok_more by (simp add: history_inv_def)

lemma live_bounds:
  assumes "history_inv gens k fs v"
  shows "hv_live_revision v < length gens" "hg_basis (hv_live v) = hg_basis (gens ! hv_live_revision v)" "k \<le> hv_live_revision v"
proof -
  have pres: "presented_ok gens v" and "lineage_ok gens k" using assms by (simp_all add: history_inv_def)
  then have len: "Suc (hv_live_revision v) = length gens" "k < length gens" by (simp_all add: presented_ok_def lineage_ok_def)
  then show "hv_live_revision v < length gens" "k \<le> hv_live_revision v" by simp_all
  show "hg_basis (hv_live v) = hg_basis (gens ! hv_live_revision v)" by (simp only: live_at [OF pres])
qed

lemma inv_captured_none:
  assumes inv: "history_inv gens k fs v" and current: "hv_live_revision v = hv_presented_revision v"
  shows "history_inv gens k (live_frame v None # fs) v"
proof -
  have "ordered_ok (live_frame v None # fs) v"
    using inv frames_le [OF inv] by (intro ordered_ok_capture) (auto simp: history_inv_def)
  moreover have "frame_ok gens (hv_presented_revision v) (insert (hv_live_revision v) (hf_revision ` set fs)) (live_frame v None)"
    using live_bounds [OF inv] current by (simp add: frame_ok_def)
  moreover have "shared_ok gens k (hv_presented_revision v) (insert (hv_live_revision v) (hf_revision ` set fs)) (hv_shared v)"
    using inv current resolves_all_insert by (auto simp: history_inv_def shared_ok_def split: option.splits)
  ultimately show ?thesis using inv inv_captured_frames [OF inv] by (simp add: history_inv_def)
qed

lemma inv_captured_some:
  assumes inv: "history_inv gens k fs v" and d: "good_delta gens fs v d"
  shows "history_inv gens k (live_frame v (Some d) # fs) (v\<lparr>hv_shared := Some d\<rparr>)"
proof -
  have d': "hv_presented_revision v < hd_revision d" "hd_revision d = hv_live_revision v" "chain_ok gens d"
      "resolves_all (hv_presented_revision v) (insert (hv_live_revision v) (hf_revision ` set fs)) d"
    using d resolves_all_insert by (simp_all add: good_delta_def)
  have "ordered_ok (live_frame v (Some d) # fs) v"
    using inv frames_le [OF inv] by (intro ordered_ok_capture) (auto simp: history_inv_def)
  moreover have "frame_ok gens (hv_presented_revision v) (insert (hv_live_revision v) (hf_revision ` set fs)) (live_frame v (Some d))"
    using live_bounds [OF inv] d' by (simp add: frame_ok_def)
  moreover have "shared_ok gens k (hv_presented_revision v) (insert (hv_live_revision v) (hf_revision ` set fs)) (Some d)"
    using live_bounds [OF inv] d' frames_le [OF inv] by (simp add: shared_ok_def)
  ultimately show ?thesis
    using inv inv_captured_frames [OF inv] by (simp add: history_inv_def presented_ok_shared ordered_ok_shared)
qed

lemma presentation_history_total:
  assumes inv: "history_inv gens k fs v"
  shows "hv_live_revision v = hv_presented_revision v \<and> presentation_history_if_changed v = Some (None, v) \<or>
    (\<exists>d. good_delta gens fs v d \<and> presentation_history_if_changed v = Some (Some d, v\<lparr>hv_shared := Some d\<rparr>))"
proof (cases "hv_live_revision v = hv_presented_revision v")
  case True
  then show ?thesis by (simp add: presentation_history_if_changed_def)
next
  case False
  then have behind: "hv_presented_revision v < hv_live_revision v"
    using inv presented_le by (fastforce simp: history_inv_def)
  show ?thesis
  proof (cases "\<exists>h. hv_shared v = Some h \<and> hd_revision h = hv_live_revision v")
    case True
    then obtain h where h: "hv_shared v = Some h" "hd_revision h = hv_live_revision v" by blast
    have "v = v\<lparr>hv_shared := Some h\<rparr>" using h(1) by simp
    then have "presentation_history_if_changed v = Some (Some h, v\<lparr>hv_shared := Some h\<rparr>)"
      using h False by (simp add: presentation_history_if_changed_def)
    moreover have "good_delta gens fs v h"
      using inv h behind by (simp add: history_inv_def shared_ok_def good_delta_def)
    ultimately show ?thesis by blast
  next
    case fresh: False
    then obtain d where d: "new_history_delta v = Some d" "good_delta gens fs v d"
      using new_delta_ok [OF inv behind] behind by (auto simp: good_delta_def)
    have "presentation_history_if_changed v = Some (Some d, v\<lparr>hv_shared := Some d\<rparr>)"
      using False fresh d(1) by (auto simp: presentation_history_if_changed_def split: option.splits)
    then show ?thesis using d(2) by blast
  qed
qed

lemma inv_capture:
  assumes inv: "history_inv gens k fs v" and f: "capture_live_frame v = Some (f, v')"
  shows "history_inv gens k (f # fs) v'"
  using presentation_history_total [OF inv]
proof (elim disjE exE conjE)
  assume "hv_live_revision v = hv_presented_revision v" "presentation_history_if_changed v = Some (None, v)"
  then have "f = live_frame v None" "v' = v" using f by (auto simp: capture_live_frame_def live_frame_def)
  then show ?thesis using inv_captured_none [OF inv \<open>hv_live_revision v = _\<close>] by simp
next
  fix d
  assume "good_delta gens fs v d" "presentation_history_if_changed v = Some (Some d, v\<lparr>hv_shared := Some d\<rparr>)"
  then have "f = live_frame v (Some d)" "v' = v\<lparr>hv_shared := Some d\<rparr>" using f by (auto simp: capture_live_frame_def live_frame_def)
  then show ?thesis using inv_captured_some [OF inv \<open>good_delta _ _ _ _\<close>] by simp
qed

lemma inv_transition:
  assumes inv: "history_inv gens k fs v"
  shows "history_inv gens k (capture_committed_frame (hb_geometry (hv_presented_basis v)) v # fs) v"
proof -
  define p where "p = hv_presented_revision v"
  define f where "f = capture_committed_frame (hb_geometry (hv_presented_basis v)) v"
  have pres: "presented_ok gens v" and frames: "\<forall>f \<in> set fs. frame_ok gens p (hf_revision ` set fs) f"
    and sh: "shared_ok gens k p (hf_revision ` set fs) (hv_shared v)" and ord: "ordered_ok fs v"
    using inv by (simp_all add: history_inv_def p_def)
  have f: "hf_revision f = p" "hf_view_revision f = hv_presented_view_revision v" "hf_basis f = hv_presented_basis v"
    "hf_snapshot_basis f = hf_basis f"
    using pres by (simp_all add: f_def capture_committed_frame_def p_def presented_ok_def)
  have "ordered_ok (f # fs) v" using ord f by (auto simp: ordered_ok_def p_def)
  moreover have "frame_ok gens p (insert p (hf_revision ` set fs)) f" using f pres by (auto simp: frame_ok_def p_def presented_ok_def)
  moreover have "\<forall>f \<in> set fs. frame_ok gens p (insert p (hf_revision ` set fs)) f" using frames frame_ok_more by blast
  moreover have "shared_ok gens k p (insert p (hf_revision ` set fs)) (hv_shared v)"
    using sh resolves_all_insert by (auto simp: shared_ok_def split: option.splits)
  ultimately show ?thesis using inv f(1) by (auto simp: history_inv_def p_def f_def [symmetric])
qed

section \<open>Installing a frame\<close>

lemma frame_ok_later:
  assumes "frame_ok gens p rs f" "p' \<in> insert p rs" "p \<le> p'"
  shows "frame_ok gens p' rs f"
  using assms resolves_all_more [of p rs _ p'] by (auto simp: frame_ok_def)

lemma shared_ok_later:
  assumes "shared_ok gens k p rs s" "p' \<in> insert p rs" "p \<le> p'"
  shows "shared_ok gens k p' rs (case s of None \<Rightarrow> None | Some h \<Rightarrow> if hd_revision h \<le> p' then None else Some h)"
proof (cases s)
  case None
  then show ?thesis using assms by (fastforce simp: shared_ok_def)
next
  case (Some h)
  then show ?thesis using assms resolves_all_more [of p rs h p'] by (force simp: shared_ok_def)
qed

definition installed :: "history_generation list \<Rightarrow> history_frame \<Rightarrow> history_view \<Rightarrow> history_view" where
  "installed gens f v = finish_install f (v\<lparr>hv_scrollback := hg_rows (gens ! hf_revision f),
     hv_presented_revision := hf_revision f, hv_presented_basis := hg_basis (gens ! hf_revision f)\<rparr>)"

lemma installed_fields:
  "hv_live (installed gens f v) = hv_live v" "hv_live_view_revision (installed gens f v) = hv_live_view_revision v"
  "hv_live_revision (installed gens f v) = hv_live_revision v"
  "hv_presented_view_revision (installed gens f v) = hf_view_revision f"
  "hv_presented_revision (installed gens f v) = hf_revision f"
  "hv_presented_basis (installed gens f v) = hg_basis (gens ! hf_revision f)"
  "hv_committed_basis (installed gens f v) = hf_snapshot_basis f"
  "hv_scrollback (installed gens f v) = hg_rows (gens ! hf_revision f)"
  "hv_shared (installed gens f v) =
     (case hv_shared v of None \<Rightarrow> None | Some h \<Rightarrow> if hd_revision h \<le> hf_revision f then None else Some h)"
  by (simp_all add: installed_def finish_install_def Let_def split: option.splits)

lemma apply_installs:
  assumes inv: "history_inv gens k fs v" and f: "f \<in> set fs" and can: "can_apply_presented_frame f v"
  shows "apply_presented_frame_ref f v = Some (True, installed gens f v)"
proof -
  define p where "p = hv_presented_revision v"
  have pres: "presented_ok gens v" and frame: "frame_ok gens p (hf_revision ` set fs) f" and gens: "generations_ok gens"
    using inv f by (simp_all add: history_inv_def p_def)
  have b: "hf_basis f = hg_basis (gens ! hf_revision f)" "hf_snapshot_basis f = hf_basis f"
    using frame by (simp_all add: frame_ok_def)
  have nm: "\<not> basis_mismatch f v" using b(2) by (simp add: basis_mismatch_def)
  have v: "hv_scrollback v = hg_rows (gens ! p)" "hv_presented_basis v = hg_basis (gens ! p)"
      "\<lparr>hs_revision = p, hs_basis = hv_committed_basis v\<rparr> = state_at gens p"
    using pres by (simp_all add: presented_ok_def p_def state_at_def)
  have le: "p \<le> hf_revision f" using can by (simp add: can_apply_presented_frame_def p_def)
  show ?thesis
  proof (cases "hf_revision f = p")
    case True
    have "v = v\<lparr>hv_scrollback := hg_rows (gens ! p), hv_presented_revision := p, hv_presented_basis := hg_basis (gens ! p)\<rparr>"
      by (rule history_view.equality) (simp_all add: v(1,2) p_def [symmetric])
    then have "installed gens f v = finish_install f v" by (simp add: installed_def True)
    moreover have "install_presented_frame f v = Some (True, finish_install f v)"
      using nm True b(1) v(2) by (simp add: install_presented_frame_def p_def)
    ultimately show ?thesis using can by (simp add: apply_presented_frame_ref_def)
  next
    case False
    then have less: "p < hf_revision f" using le by simp
    then obtain h where h: "hf_history f = Some h" "hd_revision h = hf_revision f" "chain_ok gens h"
        "resolves_all p (hf_revision ` set fs) h"
      using frame by (auto simp: frame_ok_def)
    have "resolves h p" using h(2,4) less by (simp add: resolves_all_def)
    then have reach: "validate_history_delta_chain h (state_at gens p) = Some (state_at gens (hf_revision f))"
        "apply_history_delta_chain (hg_rows (gens ! p)) h (state_at gens p) =
           Some (hg_rows (gens ! hf_revision f), state_at gens (hf_revision f))"
      using chain_reaches [OF gens h(3), of p] h(2) less by (simp_all add: validate_history_delta_chain_def state_at_simps)
    have "install_presented_frame f v = Some (True, installed gens f v)"
      using nm False h(1) reach v b(1)
      by (simp add: install_presented_frame_def p_def [symmetric] Let_def state_at_simps installed_def)
    then show ?thesis using can by (simp add: apply_presented_frame_ref_def)
  qed
qed

lemma inv_installed:
  assumes inv: "history_inv gens k fs v" and f: "f \<in> set fs" and can: "can_apply_presented_frame f v"
  shows "history_inv gens k fs (installed gens f v)"
proof -
  define p where "p = hv_presented_revision v"
  have pres: "presented_ok gens v" and frames: "\<forall>f \<in> set fs. frame_ok gens p (hf_revision ` set fs) f"
    and sh: "shared_ok gens k p (hf_revision ` set fs) (hv_shared v)" and ord: "ordered_ok fs v"
    and rest: "generations_ok gens" "lineage_ok gens k"
    using inv by (simp_all add: history_inv_def p_def)
  have frame: "frame_ok gens p (hf_revision ` set fs) f" using frames f by blast
  have le: "p \<le> hf_revision f" "hf_revision f \<in> insert p (hf_revision ` set fs)"
    using can f by (simp_all add: can_apply_presented_frame_def p_def)
  have "presented_ok gens (installed gens f v)"
    using pres frame by (simp add: presented_ok_def installed_fields frame_ok_def)
  moreover have "ordered_ok fs (installed gens f v)"
    using ord f by (simp add: ordered_ok_def installed_fields)
  moreover have "\<forall>g \<in> set fs. frame_ok gens (hf_revision f) (hf_revision ` set fs) g"
    using frames frame_ok_later [OF _ le(2,1)] by blast
  moreover have "shared_ok gens k (hf_revision f) (hf_revision ` set fs) (hv_shared (installed gens f v))"
    using shared_ok_later [OF sh le(2,1)] by (simp add: installed_fields)
  ultimately show ?thesis using rest by (simp add: history_inv_def installed_fields)
qed

lemma inv_install:
  assumes inv: "history_inv gens k fs v" and f: "f \<in> set fs" and step: "apply_presented_frame_ref f v = Some (applied, v')"
  shows "history_inv gens k fs v'"
proof (cases "can_apply_presented_frame f v")
  case True
  then show ?thesis using apply_installs [OF inv f True] inv_installed [OF inv f True] step by simp
next
  case False
  then show ?thesis using step inv by (simp add: apply_presented_frame_ref_def)
qed

lemma history_inv_reachable: "history_reachable gens k fs v \<Longrightarrow> history_inv gens k fs v"
proof (induction rule: history_reachable.induct)
  case (start g)
  then show ?case by (rule inv_start)
next
  case (batch gens k fs v v')
  then show ?case by (blast intro: inv_batch)
next
  case (changing_batch gens k fs v g v')
  then show ?case by (blast intro: inv_changing_batch)
next
  case (resize gens k fs v g v')
  then show ?case by (blast intro: inv_resize)
next
  case (capture gens k fs v f v')
  then show ?case by (blast intro: inv_capture)
next
  case (transition gens k fs v)
  show ?case by (rule inv_transition [OF transition.IH])
next
  case (install gens k fs v f applied v')
  then show ?case by (blast intro: inv_install)
qed

lemma capture_total:
  assumes "history_inv gens k fs v"
  shows "\<exists>f v'. capture_live_frame v = Some (f, v') \<and> can_apply_presented_frame f v' \<and> hf_revision f = hv_live_revision v"
  using presentation_history_total [OF assms]
proof (elim disjE exE conjE)
  assume "hv_live_revision v = hv_presented_revision v" "presentation_history_if_changed v = Some (None, v)"
  then show ?thesis using assms by (simp add: capture_live_frame_def can_apply_presented_frame_def history_inv_def ordered_ok_def)
next
  fix d
  assume "good_delta gens fs v d" "presentation_history_if_changed v = Some (Some d, v\<lparr>hv_shared := Some d\<rparr>)"
  then show ?thesis
    using assms by (simp add: capture_live_frame_def can_apply_presented_frame_def history_inv_def ordered_ok_def good_delta_def)
qed

section \<open>A run\<close>

definition sample_generation :: "row list \<Rightarrow> history_generation" where
  "sample_generation rs =
     \<lparr>hg_basis = \<lparr>hb_screen = PrimaryScreen, hb_geometry = geometry_new 2 4 0 0, hb_origin = 0, hb_extent = length rs\<rparr>,
      hg_rows = rs\<rparr>"

abbreviation "sample_one \<equiv> sample_generation [\<lparr>row_cells = [], row_wrapped = True\<rparr>]"
abbreviation "sample_two \<equiv> sample_generation [\<lparr>row_cells = [], row_wrapped = True\<rparr>, \<lparr>row_cells = [], row_wrapped = False\<rparr>]"

definition sample_changed :: history_view where
  "sample_changed = (history_view_new sample_one)\<lparr>hv_live_view_revision := 1, hv_live := sample_two, hv_live_revision := 1\<rparr>"

definition sample_delta :: history_delta where
  "sample_delta = HistoryDelta 1 0 (hg_basis sample_two) 1 [\<lparr>row_cells = [], row_wrapped = False\<rparr>] False None 1 1"

lemma usize_small: "1 \<le> usize_max" "2 \<le> usize_max"
  by (simp_all add: usize_max_def)

lemma sample_batch: "process_batch (Some sample_two) (history_view_new sample_one) = Some sample_changed"
  by (simp add: process_batch_Some sample_changed_def u64_max_def history_view_new_def)

lemma sample_append: "append_compatible (hg_basis sample_one) (hg_basis sample_two)"
  using usize_small by (simp add: append_compatible_def basis_end_def checked_add_usize_def sample_generation_def)

lemma sample_capture:
  "capture_live_frame sample_changed = Some (live_frame sample_changed (Some sample_delta), sample_changed\<lparr>hv_shared := Some sample_delta\<rparr>)"
  using sample_append
  by (simp add: capture_live_frame_def presentation_history_if_changed_def new_history_delta_def history_delta_onto_def sample_changed_def
      history_view_new_def must_compact_def live_frame_def sample_delta_def Let_def) (simp add: sample_generation_def)

lemma sample_reachable:
  "history_reachable [sample_one, sample_two] 0 [live_frame sample_changed (Some sample_delta)] (sample_changed\<lparr>hv_shared := Some sample_delta\<rparr>)"
proof -
  have "generation_ok sample_one" "generation_ok sample_two"
    using usize_small by (simp_all add: generation_ok_def sample_generation_def)
  moreover have "agree sample_one sample_two" by (simp add: agree_def sample_generation_def)
  ultimately have "generations_ok ([sample_one] @ [sample_two])" "generation_ok sample_one"
    by (simp_all add: generations_ok_def less_Suc_eq)
  then show ?thesis
    using history_reachable.capture [OF history_reachable.changing_batch [OF history_reachable.start sample_batch] sample_capture] by simp
qed

text \<open>
  C37: A frame receipt that validation accepts always applies: for every history delta, of any origin,
  and every committed scrollback whose length is the extent of its basis, if
  \<^verbatim>\<open>validate_history_delta_chain\<close> accepts the delta then \<^verbatim>\<open>apply_history_delta_chain\<close> does not panic,
  reaches exactly the state that validation announced, and leaves a scrollback as long as the extent of
  the new basis; so the scrollback's length is right for the next receipt.
\<close>

theorem validated_receipts_apply:
  assumes "validate_history_delta_chain d presented = Some target" and "length scrollback = hb_extent (hs_basis presented)"
  shows "\<exists>rows. apply_history_delta_chain scrollback d presented = Some (rows, target) \<and> length rows = hb_extent (hs_basis target)"
  using assms by (simp only: validate_history_delta_chain_def) (rule validate_applies)

theorem validated_receipts_apply_witness:
  "\<exists>rows. apply_history_delta_chain (hg_rows sample_one) sample_delta \<lparr>hs_revision = 0, hs_basis = hg_basis sample_one\<rparr> =
       Some (rows, state_from_delta sample_delta) \<and> length rows = 2"
proof -
  have "validate_history_delta_chain sample_delta \<lparr>hs_revision = 0, hs_basis = hg_basis sample_one\<rparr> = Some (state_from_delta sample_delta)"
    using usize_small by (simp add: validate_history_delta_chain_def sample_delta_def basis_end_def checked_add_usize_def
        delta_interval_ok_def extends_base_def Let_def) (simp add: sample_generation_def)
  moreover have "length (hg_rows sample_one) = hb_extent (hs_basis \<lparr>hs_revision = 0, hs_basis = hg_basis sample_one\<rparr>)"
    by (simp add: sample_generation_def)
  moreover have "hb_extent (hs_basis (state_from_delta sample_delta)) = 2"
    by (simp add: state_from_delta_def sample_delta_def sample_generation_def)
  ultimately show ?thesis using validated_receipts_apply by metis
qed

text \<open>
  C36: History receipts are exact, as long as the engine keeps rows in place within a history lineage
  and every resize starts a new lineage. In every state
  that a view reaches from its start by parser batches, resizes after which no older basis of the
  engine is compatible with the new one, captures of live frames, frames of a transition (of the
  presented size, not fitted to another one), and the installation of captured frames in any order,
  with any of them dropped or repeated: the committed scrollback holds the rows of the presented
  generation; capturing never panics, and the captured frame could be installed at once; and every
  captured frame that \<^verbatim>\<open>can_apply_presented_frame\<close> admits is installed without a panic, and brings exactly
  the rows of the generation it was captured from, whatever was shared, compacted or presented in
  between. Resizes that leave the lineage alone are excluded: with one, an admitted frame can be rejected
  (\<open>same_size_resize_rejects\<close> below).
\<close>

theorem history_receipts_exact:
  assumes "history_reachable gens k fs v"
  shows "hv_scrollback v = hg_rows (gens ! hv_presented_revision v) \<and>
    (\<exists>f v'. capture_live_frame v = Some (f, v') \<and> can_apply_presented_frame f v' \<and> hf_revision f = hv_live_revision v) \<and>
    (\<forall>f \<in> set fs. can_apply_presented_frame f v \<longrightarrow>
       (\<exists>v'. apply_presented_frame_ref f v = Some (True, v') \<and> hv_presented_revision v' = hf_revision f \<and>
          hv_scrollback v' = hg_rows (gens ! hf_revision f) \<and> hv_presented_basis v' = hf_basis f))"
proof -
  have inv: "history_inv gens k fs v" by (rule history_inv_reachable [OF assms])
  then have "hv_scrollback v = hg_rows (gens ! hv_presented_revision v)" by (simp add: history_inv_def presented_ok_def)
  moreover have "hf_basis f = hg_basis (gens ! hf_revision f)" if "f \<in> set fs" for f
    using inv that by (simp add: history_inv_def frame_ok_def)
  ultimately show ?thesis using capture_total [OF inv] apply_installs [OF inv] by (auto simp: installed_fields)
qed

theorem history_receipts_exact_witness:
  "\<exists>v'. apply_presented_frame_ref (live_frame sample_changed (Some sample_delta)) (sample_changed\<lparr>hv_shared := Some sample_delta\<rparr>) =
     Some (True, v') \<and> hv_scrollback v' = hg_rows sample_two"
proof -
  have "can_apply_presented_frame (live_frame sample_changed (Some sample_delta)) (sample_changed\<lparr>hv_shared := Some sample_delta\<rparr>)"
    by (simp add: can_apply_presented_frame_def sample_changed_def history_view_new_def sample_delta_def)
  with history_receipts_exact [OF sample_reachable] have "\<exists>v'. apply_presented_frame_ref (live_frame sample_changed (Some sample_delta))
      (sample_changed\<lparr>hv_shared := Some sample_delta\<rparr>) = Some (True, v') \<and>
     hv_scrollback v' = hg_rows ([sample_one, sample_two] ! hf_revision (live_frame sample_changed (Some sample_delta)))" by auto
  then show ?thesis by (simp add: sample_changed_def)
qed

section \<open>A resize within a lineage\<close>

text \<open>
  Lemma: a resize that leaves the lineage alone (the same rows and columns) drops the shared delta all the same. A
  frame captured before it and one captured after it then extend the same presented generation, and once the first
  is installed the second, which \<^verbatim>\<open>can_apply_presented_frame\<close> admits, is rejected.
\<close>

definition sample_resized :: history_view where
  "sample_resized = sample_changed\<lparr>hv_live_view_revision := 2, hv_live_revision := 2\<rparr>"

definition sample_redelta :: history_delta where
  "sample_redelta = HistoryDelta 2 0 (hg_basis sample_two) 1 [\<lparr>row_cells = [], row_wrapped = False\<rparr>] False None 1 1"

lemma sample_resize: "set_size_with_geometry sample_two (sample_changed\<lparr>hv_shared := Some sample_delta\<rparr>) = Some sample_resized"
  by (auto simp: set_size_Some process_batch_Some sample_changed_def sample_resized_def u64_max_def history_view_new_def)

lemma sample_recapture:
  "capture_live_frame sample_resized = Some (live_frame sample_resized (Some sample_redelta), sample_resized\<lparr>hv_shared := Some sample_redelta\<rparr>)"
  using sample_append
  by (simp add: capture_live_frame_def presentation_history_if_changed_def new_history_delta_def history_delta_onto_def sample_changed_def
      sample_resized_def history_view_new_def must_compact_def live_frame_def sample_redelta_def Let_def) (simp add: sample_generation_def)

definition sample_presented :: history_view where
  "sample_presented = sample_resized\<lparr>hv_shared := Some sample_redelta, hv_scrollback := hg_rows sample_two, hv_presented_revision := 1,
     hv_presented_basis := hg_basis sample_two, hv_presented_view_revision := 1, hv_committed_basis := hg_basis sample_two\<rparr>"

lemma sample_install:
  "apply_presented_frame_ref (live_frame sample_changed (Some sample_delta)) (sample_resized\<lparr>hv_shared := Some sample_redelta\<rparr>) =
     Some (True, sample_presented)"
proof -
  have start: "hv_presented_view_revision sample_resized = 0" "hv_presented_revision sample_resized = 0" "hv_live_view_revision sample_resized = 2"
    "hv_committed_basis sample_resized = hg_basis sample_one" "hv_scrollback sample_resized = hg_rows sample_one"
    "hv_live_view_revision sample_changed = 1" "hv_live_revision sample_changed = 1" "hv_live sample_changed = sample_two"
    by (simp_all add: sample_resized_def sample_changed_def history_view_new_def)
  have valid: "validate_history_delta_chain sample_delta \<lparr>hs_revision = 0, hs_basis = hg_basis sample_one\<rparr> =
      Some \<lparr>hs_revision = 1, hs_basis = hg_basis sample_two\<rparr>"
    using usize_small by (simp add: validate_history_delta_chain_def sample_delta_def basis_end_def checked_add_usize_def
        delta_interval_ok_def extends_base_def Let_def state_from_delta_def) (simp add: sample_generation_def)
  have applied: "apply_history_delta_chain (hg_rows sample_one) sample_delta \<lparr>hs_revision = 0, hs_basis = hg_basis sample_one\<rparr> =
      Some (hg_rows sample_two, \<lparr>hs_revision = 1, hs_basis = hg_basis sample_two\<rparr>)"
    by (simp add: sample_delta_def apply_history_transition_def Let_def) (simp add: sample_generation_def)
  have "can_apply_presented_frame (live_frame sample_changed (Some sample_delta)) (sample_resized\<lparr>hv_shared := Some sample_redelta\<rparr>)"
    by (simp add: can_apply_presented_frame_def start) (simp add: sample_delta_def)
  then show ?thesis
    by (simp add: apply_presented_frame_ref_def install_presented_frame_def basis_mismatch_def start valid applied)
      (simp add: finish_install_def sample_presented_def sample_redelta_def start Let_def)
qed

lemma same_size_resize_rejects:
  "can_apply_presented_frame (live_frame sample_resized (Some sample_redelta)) sample_presented \<and>
   apply_presented_frame_ref (live_frame sample_resized (Some sample_redelta)) sample_presented = Some (False, sample_presented)"
proof -
  have start: "hv_presented_view_revision sample_presented = 1" "hv_presented_revision sample_presented = 1"
    "hv_live_view_revision sample_presented = 2" "hv_committed_basis sample_presented = hg_basis sample_two"
    "hv_live_view_revision sample_resized = 2" "hv_live_revision sample_resized = 2" "hv_live sample_resized = sample_two"
    by (simp_all add: sample_presented_def sample_resized_def sample_changed_def history_view_new_def)
  have "validate_history_delta_chain sample_redelta \<lparr>hs_revision = 1, hs_basis = hg_basis sample_two\<rparr> = None"
    using usize_small by (simp add: validate_history_delta_chain_def sample_redelta_def basis_end_def checked_add_usize_def Let_def)
  moreover have "can_apply_presented_frame (live_frame sample_resized (Some sample_redelta)) sample_presented"
    by (simp add: can_apply_presented_frame_def start) (simp add: sample_redelta_def)
  ultimately show ?thesis
    by (simp add: apply_presented_frame_ref_def install_presented_frame_def basis_mismatch_def start)
qed

end
