(* ===== verification/View_Evidence.thy ===== *)
theory View_Evidence
  imports Terminal_Update
begin

text \<open>
  Accessibility evidence of a view (\<^verbatim>\<open>src/view.rs\<close>): the bounded journal of parser summaries that wait for
  their frame to reach the physical terminal, the epochs that separate parser contexts, and the publication of what
  a presented frame proves. None is a panic. The sizes of the journal's data in memory are a parameter. The theory
  shows that a published summary is the merge of all evidence in its range, or holds no text.
\<close>

section \<open>State\<close>

definition ACCESSIBILITY_JOURNAL_MAX_ENTRIES :: nat where "ACCESSIBILITY_JOURNAL_MAX_ENTRIES = 1024"
definition ACCESSIBILITY_JOURNAL_MAX_BYTES :: nat where "ACCESSIBILITY_JOURNAL_MAX_BYTES = 1024 * 1024"



record accessibility_epoch =
  ep_generation :: nat
  ep_start_revision :: nat

record journal_entry =
  je_epoch :: accessibility_epoch
  je_revision :: nat
  je_update :: update_summary
  je_requires_snapshot_diff :: bool
  je_retained_bytes :: nat

text \<open>The fields of a view that publish parser evidence\<close>

record evidence_view =
  ev_live_revision :: nat
  ev_presented_revision :: nat
  ev_finalized_revision :: nat
  ev_live_epoch :: accessibility_epoch
  ev_epoch_floor :: nat
  ev_presented_epoch :: accessibility_epoch
  ev_evidence_revision :: nat
  ev_exact :: bool
  ev_requires_snapshot_diff :: bool
  ev_journal :: "journal_entry list"
  ev_journal_bytes :: nat
  ev_gap_start :: "nat option"
  ev_discarded_through :: nat
  ev_presented_update :: update_summary

text \<open>The sizes of an entry, of a printed run and of a row range in memory\<close>

record evidence_sizes =
  sz_entry :: nat
  sz_run :: nat
  sz_range :: nat

section \<open>Evidence\<close>

definition normalized_accessibility_evidence :: "update_summary \<Rightarrow> update_summary" where
  "normalized_accessibility_evidence u = update_summary_default
     \<lparr>us_printed_runs := us_printed_runs u, us_output_report_structural := us_output_report_structural u,
      us_parser_continuation := us_parser_continuation u, us_cursor_operations := us_cursor_operations u,
      us_cursor_operations_after_last_line_feed := us_cursor_operations_after_last_line_feed u,
      us_line_feed_boundaries := us_line_feed_boundaries u, us_scroll_operations := us_scroll_operations u,
      us_changed_rows := us_changed_rows u, us_cursor_before := us_cursor_before u, us_screen_before := us_screen_before u,
      us_screen_after := us_screen_after u, us_semantic_input_boundary := us_semantic_input_boundary u,
      us_batch_count := us_batch_count u\<rparr>"

definition snapshot_diff_provenance :: "update_summary \<Rightarrow> update_summary" where
  "snapshot_diff_provenance u = update_summary_default
     \<lparr>us_output_report_structural := us_output_report_structural u, us_cursor_operations := us_cursor_operations u,
      us_cursor_operations_after_last_line_feed := us_cursor_operations_after_last_line_feed u,
      us_line_feed_boundaries := us_line_feed_boundaries u, us_scroll_operations := us_scroll_operations u,
      us_cursor_before := us_cursor_before u, us_cursor_after := us_cursor_after u, us_screen_before := us_screen_before u,
      us_screen_after := us_screen_after u, us_batch_count := us_batch_count u\<rparr>"

definition accessibility_evidence_retained_bytes :: "evidence_sizes \<Rightarrow> update_summary \<Rightarrow> nat" where
  "accessibility_evidence_retained_bytes sz u =
     saturating_add_usize (saturating_add_usize (saturating_add_usize (sz_entry sz)
         (saturating_mul_usize (length (us_printed_runs u)) (sz_run sz)))
       (sum_list (map (\<lambda>r. length (run_text r)) (us_printed_runs u))))
      (saturating_mul_usize (length (us_changed_rows u)) (sz_range sz))"

section \<open>The journal\<close>

text \<open>An exhausted revision or generation is a panic: None.\<close>

definition advance_revision :: "evidence_view \<Rightarrow> evidence_view option" where
  "advance_revision v =
     (if ev_live_revision v < u64_max then Some (v\<lparr>ev_live_revision := ev_live_revision v + 1\<rparr>) else None)"

definition begin_accessibility_epoch :: "evidence_view \<Rightarrow> evidence_view option" where
  "begin_accessibility_epoch v =
     (if ep_generation (ev_live_epoch v) < u64_max
      then Some (v\<lparr>ev_live_epoch := \<lparr>ep_generation = ep_generation (ev_live_epoch v) + 1, ep_start_revision = ev_live_revision v\<rparr>\<rparr>)
      else None)"

definition note_accessibility_evidence_gap :: "nat \<Rightarrow> evidence_view \<Rightarrow> evidence_view" where
  "note_accessibility_evidence_gap revision v =
     v\<lparr>ev_gap_start := Some (case ev_gap_start v of None \<Rightarrow> revision | Some start \<Rightarrow> min start revision),
       ev_discarded_through := max (ev_discarded_through v) revision\<rparr>"

definition reset_accessibility_journal_for_handoff :: "evidence_view \<Rightarrow> evidence_view option" where
  "reset_accessibility_journal_for_handoff v =
     (let v = (if ev_finalized_revision v < ev_live_revision v
               then (note_accessibility_evidence_gap (min (ev_finalized_revision v + 1) u64_max) v)
                 \<lparr>ev_discarded_through := ev_live_revision v\<rparr>
               else v)
      in map_option (\<lambda>v. v\<lparr>ev_epoch_floor := ep_generation (ev_live_epoch v), ev_presented_epoch := ev_live_epoch v,
             ev_evidence_revision := ev_presented_revision v, ev_exact := True, ev_requires_snapshot_diff := False\<rparr>)
           (begin_accessibility_epoch (v\<lparr>ev_journal := [], ev_journal_bytes := 0\<rparr>)))"

definition journal_full :: "journal_entry list \<Rightarrow> nat \<Rightarrow> bool" where
  "journal_full es bytes \<longleftrightarrow> ACCESSIBILITY_JOURNAL_MAX_ENTRIES < length es \<or> ACCESSIBILITY_JOURNAL_MAX_BYTES < bytes"

fun evict_evidence :: "journal_entry list \<Rightarrow> evidence_view \<Rightarrow> evidence_view" where
  "evict_evidence [] v = v\<lparr>ev_journal := []\<rparr>"
| "evict_evidence (e # es) v =
     (if journal_full (e # es) (ev_journal_bytes v)
      then evict_evidence es (note_accessibility_evidence_gap (je_revision e)
             (v\<lparr>ev_journal_bytes := ev_journal_bytes v - je_retained_bytes e\<rparr>))
      else v\<lparr>ev_journal := e # es\<rparr>)"

definition evidence_entry :: "evidence_sizes \<Rightarrow> update_summary \<Rightarrow> bool \<Rightarrow> evidence_view \<Rightarrow> journal_entry" where
  "evidence_entry sz u requires v =
     \<lparr>je_epoch = ev_live_epoch v, je_revision = ev_live_revision v, je_update = u, je_requires_snapshot_diff = requires,
      je_retained_bytes = accessibility_evidence_retained_bytes sz u\<rparr>"

definition append_accessibility_evidence :: "evidence_sizes \<Rightarrow> update_summary \<Rightarrow> bool \<Rightarrow> evidence_view \<Rightarrow> evidence_view" where
  "append_accessibility_evidence sz u requires v =
     (let retained = accessibility_evidence_retained_bytes sz u in
      if ACCESSIBILITY_JOURNAL_MAX_BYTES < retained then note_accessibility_evidence_gap (ev_live_revision v) v
      else evict_evidence (ev_journal v @ [evidence_entry sz u requires v])
             (v\<lparr>ev_journal_bytes := saturating_add_usize (ev_journal_bytes v) retained\<rparr>))"

section \<open>Publication\<close>

definition publish_entry :: "journal_entry \<Rightarrow> evidence_view \<Rightarrow> evidence_view" where
  "publish_entry e v =
     (let v = v\<lparr>ev_requires_snapshot_diff := (ev_requires_snapshot_diff v \<or> je_requires_snapshot_diff e)\<rparr> in
      if ev_exact v \<and> \<not> ev_requires_snapshot_diff v
      then v\<lparr>ev_presented_update := summary_merge (ev_presented_update v) (je_update e)\<rparr>
      else v\<lparr>ev_presented_update := summary_merge
               (if je_requires_snapshot_diff e then snapshot_diff_provenance (ev_presented_update v) else ev_presented_update v)
               (snapshot_diff_provenance (je_update e))\<rparr>)"

fun publish_entries :: "accessibility_epoch \<Rightarrow> nat \<Rightarrow> nat \<Rightarrow> journal_entry list \<Rightarrow> evidence_view \<Rightarrow> evidence_view" where
  "publish_entries epoch revision required_after [] v = v\<lparr>ev_journal := []\<rparr>"
| "publish_entries epoch revision required_after (e # es) v =
     (if je_revision e \<le> revision
      then let v = v\<lparr>ev_journal_bytes := ev_journal_bytes v - je_retained_bytes e\<rparr> in
        publish_entries epoch revision required_after es
          (if je_epoch e \<noteq> epoch \<or> je_revision e \<le> required_after then v else publish_entry e v)
      else v\<lparr>ev_journal := e # es\<rparr>)"

definition enter_epoch :: "accessibility_epoch \<Rightarrow> evidence_view \<Rightarrow> evidence_view" where
  "enter_epoch epoch v =
     (if ev_presented_epoch v \<noteq> epoch
      then v\<lparr>ev_presented_epoch := epoch, ev_evidence_revision := ep_start_revision epoch, ev_exact := True,
             ev_requires_snapshot_diff := False, ev_presented_update := update_summary_default\<rparr>
      else v)"

definition discarded_in_required_range :: "nat \<Rightarrow> nat \<Rightarrow> evidence_view \<Rightarrow> bool" where
  "discarded_in_required_range revision required_after v \<longleftrightarrow>
     (case ev_gap_start v of None \<Rightarrow> False | Some start \<Rightarrow> start \<le> revision \<and> required_after < ev_discarded_through v)"

definition require_range :: "nat \<Rightarrow> nat \<Rightarrow> evidence_view \<Rightarrow> evidence_view" where
  "require_range revision required_after v =
     (if ev_exact v \<and> \<not> discarded_in_required_range revision required_after v then v
      else v\<lparr>ev_exact := False, ev_presented_update := snapshot_diff_provenance (ev_presented_update v)\<rparr>)"

definition publish_accessibility_evidence :: "accessibility_epoch \<Rightarrow> nat \<Rightarrow> evidence_view \<Rightarrow> evidence_view" where
  "publish_accessibility_evidence epoch revision v =
     (if ep_generation epoch < ev_epoch_floor v then v\<lparr>ev_presented_update := update_summary_default\<rparr>
      else let v = enter_epoch epoch v;
               required_after = max (ev_evidence_revision v) (ep_start_revision epoch)
           in if revision < required_after
              then v\<lparr>ev_presented_update := update_summary_default, ev_evidence_revision := revision\<rparr>
              else let v = require_range revision required_after v in
                (publish_entries epoch revision required_after (ev_journal v) v)\<lparr>ev_evidence_revision := revision\<rparr>)"

fun discard_entries :: "nat \<Rightarrow> journal_entry list \<Rightarrow> evidence_view \<Rightarrow> evidence_view" where
  "discard_entries revision [] v = v\<lparr>ev_journal := []\<rparr>"
| "discard_entries revision (e # es) v =
     (if je_revision e \<le> revision
      then discard_entries revision es (v\<lparr>ev_journal_bytes := ev_journal_bytes v - je_retained_bytes e\<rparr>)
      else v\<lparr>ev_journal := e # es\<rparr>)"

definition discard_accessibility_journal_through :: "nat \<Rightarrow> evidence_view \<Rightarrow> evidence_view" where
  "discard_accessibility_journal_through revision v =
     (let v = discard_entries revision (ev_journal v) v in
      case ev_gap_start v of
        None \<Rightarrow> v
      | Some gap_start \<Rightarrow>
          if gap_start \<le> revision
          then if ev_discarded_through v \<le> revision then v\<lparr>ev_gap_start := None\<rparr>
               else v\<lparr>ev_gap_start := Some (min (revision + 1) u64_max)\<rparr>
          else v)"

section \<open>The view\<close>

definition finalize_changes :: "evidence_view \<Rightarrow> evidence_view" where
  "finalize_changes v =
     (if ev_finalized_revision v = ev_presented_revision v then v
      else discard_accessibility_journal_through (ev_presented_revision v)
        (v\<lparr>ev_presented_update := update_summary_default, ev_finalized_revision := ev_presented_revision v,
           ev_evidence_revision := ev_presented_revision v, ev_exact := True, ev_requires_snapshot_diff := False\<rparr>))"

definition clear_update_summary :: "evidence_view \<Rightarrow> evidence_view option" where
  "clear_update_summary v = reset_accessibility_journal_for_handoff (v\<lparr>ev_presented_update := update_summary_default\<rparr>)"

text \<open>One parser batch: whether it changed the screen, whether its evidence is kept for accessibility, its update,
  and whether a synchronized transaction was active\<close>

definition process_update :: "evidence_sizes \<Rightarrow> bool \<Rightarrow> bool \<Rightarrow> update_summary \<Rightarrow> bool \<Rightarrow> evidence_view \<Rightarrow> evidence_view option" where
  "process_update sz screen_transition retain u synchronized v =
     map_option (\<lambda>v. if retain then append_accessibility_evidence sz (normalized_accessibility_evidence u) synchronized v
         else note_accessibility_evidence_gap (ev_live_revision v) v)
       (Option.bind (if screen_transition then begin_accessibility_epoch v else Some v) advance_revision)"

record evidence_frame =
  ef_revision :: nat
  ef_epoch :: accessibility_epoch

definition capture_live_evidence :: "evidence_view \<Rightarrow> evidence_frame" where
  "capture_live_evidence v = \<lparr>ef_revision = ev_live_revision v, ef_epoch = ev_live_epoch v\<rparr>"

definition capture_committed_evidence :: "evidence_view \<Rightarrow> evidence_frame" where
  "capture_committed_evidence v = \<lparr>ef_revision = ev_presented_revision v, ef_epoch = ev_presented_epoch v\<rparr>"

definition install_frame_evidence :: "evidence_frame \<Rightarrow> evidence_view \<Rightarrow> evidence_view" where
  "install_frame_evidence f v =
     (if ev_live_revision v < ef_revision f \<or> ef_revision f < ev_presented_revision v then v
      else publish_accessibility_evidence (ef_epoch f) (ef_revision f) (v\<lparr>ev_presented_revision := ef_revision f\<rparr>))"

definition evidence_view_new :: evidence_view where
  "evidence_view_new =
     \<lparr>ev_live_revision = 0, ev_presented_revision = 0, ev_finalized_revision = 0,
      ev_live_epoch = \<lparr>ep_generation = 1, ep_start_revision = 0\<rparr>, ev_epoch_floor = 1,
      ev_presented_epoch = \<lparr>ep_generation = 1, ep_start_revision = 0\<rparr>, ev_evidence_revision = 0, ev_exact = True,
      ev_requires_snapshot_diff = False, ev_journal = [], ev_journal_bytes = 0, ev_gap_start = None,
      ev_discarded_through = 0, ev_presented_update = update_summary_default\<rparr>"

text \<open>Tracking starts inside an open synchronized transaction (frozen), or outside.\<close>

definition enable_presentation_tracking :: "evidence_sizes \<Rightarrow> bool \<Rightarrow> evidence_view option" where
  "enable_presentation_tracking sz frozen =
     map_option (\<lambda>v. v\<lparr>ev_presented_revision := 0\<rparr>)
      (Option.bind (reset_accessibility_journal_for_handoff evidence_view_new)
        (\<lambda>v. if frozen then map_option (append_accessibility_evidence sz update_summary_default True) (advance_revision v) else Some v))"

section \<open>What the published update tells\<close>

text \<open>Exact: the merge of all its entries, none of which needs a comparison of snapshots. Otherwise no text remains.\<close>

definition tells :: "journal_entry list \<Rightarrow> evidence_view \<Rightarrow> bool" where
  "tells es v \<longleftrightarrow>
     (if ev_exact v \<and> \<not> ev_requires_snapshot_diff v
      then ev_presented_update v = merge_all (map je_update es) \<and> list_all (\<lambda>e. \<not> je_requires_snapshot_diff e) es
      else us_printed_runs (ev_presented_update v) = [])"

lemma provenance_runs: "us_printed_runs (snapshot_diff_provenance u) = []"
  by (simp add: snapshot_diff_provenance_def update_summary_default_def)

lemma merge_no_runs: "us_printed_runs u = [] \<Longrightarrow> us_printed_runs w = [] \<Longrightarrow> us_printed_runs (summary_merge u w) = []"
  by (simp add: summary_merge_def append_printed_runs_def Let_def)

lemma default_runs: "us_printed_runs update_summary_default = []"
  by (simp add: update_summary_default_def)

lemma publish_entry_fields:
  "publish_entry e v = v\<lparr>ev_requires_snapshot_diff := ev_requires_snapshot_diff v \<or> je_requires_snapshot_diff e,
     ev_presented_update := (if ev_exact v \<and> \<not> (ev_requires_snapshot_diff v \<or> je_requires_snapshot_diff e)
        then summary_merge (ev_presented_update v) (je_update e)
        else summary_merge (if je_requires_snapshot_diff e then snapshot_diff_provenance (ev_presented_update v) else ev_presented_update v)
               (snapshot_diff_provenance (je_update e)))\<rparr>"
  by (simp add: publish_entry_def Let_def)

lemma tells_publish:
  assumes "tells es v"
  shows "tells (es @ [e]) (publish_entry e v)"
proof (cases "ev_exact v \<and> \<not> ev_requires_snapshot_diff v")
  case True
  then have "ev_presented_update v = merge_all (map je_update es)" "list_all (\<lambda>e. \<not> je_requires_snapshot_diff e) es"
    using assms by (simp_all add: tells_def)
  then show ?thesis
    using True by (cases "je_requires_snapshot_diff e")
      (simp_all add: tells_def publish_entry_fields merge_no_runs provenance_runs merge_all_snoc)
next
  case False
  then have "us_printed_runs (ev_presented_update v) = []" using assms by (simp add: tells_def split: if_splits)
  moreover have "\<not> ev_exact v \<or> ev_requires_snapshot_diff v" using False by blast
  ultimately show ?thesis by (elim disjE) (simp_all add: tells_def publish_entry_fields merge_no_runs provenance_runs)
qed

lemma tells_fold: "tells es v \<Longrightarrow> tells (es @ fs) (fold publish_entry fs v)"
proof (induction fs arbitrary: es v)
  case (Cons e fs)
  then show ?case using Cons.IH [OF tells_publish [OF Cons.prems, of e]] by simp
qed simp

lemma fold_publish_fields:
  "\<exists>R U. fold publish_entry es v = v\<lparr>ev_requires_snapshot_diff := R, ev_presented_update := U\<rparr>"
proof (induction es arbitrary: v)
  case Nil
  have "fold publish_entry [] v = v\<lparr>ev_requires_snapshot_diff := ev_requires_snapshot_diff v, ev_presented_update := ev_presented_update v\<rparr>"
    by simp
  then show ?case by blast
next
  case (Cons e es)
  obtain R U where RU: "fold publish_entry es (publish_entry e v) =
      (publish_entry e v)\<lparr>ev_requires_snapshot_diff := R, ev_presented_update := U\<rparr>" using Cons.IH by blast
  have "fold publish_entry (e # es) v = v\<lparr>ev_requires_snapshot_diff := R, ev_presented_update := U\<rparr>"
    using RU by (simp add: publish_entry_fields)
  then show ?case by blast
qed

section \<open>The loops\<close>

abbreviation retained :: "journal_entry list \<Rightarrow> nat" where
  "retained es \<equiv> sum_list (map je_retained_bytes es)"

lemma fold_publish_bytes:
  "fold publish_entry es (v\<lparr>ev_journal_bytes := b\<rparr>) = (fold publish_entry es v)\<lparr>ev_journal_bytes := b\<rparr>"
proof (induction es arbitrary: v)
  case (Cons e es)
  have "publish_entry e (v\<lparr>ev_journal_bytes := b\<rparr>) = (publish_entry e v)\<lparr>ev_journal_bytes := b\<rparr>"
    by (simp add: publish_entry_fields)
  then show ?case using Cons.IH by simp
qed simp

lemma publish_entry_bytes:
  "ev_journal_bytes (publish_entry e v) = ev_journal_bytes v"
  "publish_entry e (v\<lparr>ev_journal_bytes := b\<rparr>) = (publish_entry e v)\<lparr>ev_journal_bytes := b\<rparr>"
  by (simp_all add: publish_entry_fields)

lemma publish_entries_fold:
  "publish_entries epoch r lo js v =
     (fold publish_entry (filter (\<lambda>e. je_epoch e = epoch \<and> lo < je_revision e) (takeWhile (\<lambda>e. je_revision e \<le> r) js)) v)
       \<lparr>ev_journal := dropWhile (\<lambda>e. je_revision e \<le> r) js,
        ev_journal_bytes := ev_journal_bytes v - retained (takeWhile (\<lambda>e. je_revision e \<le> r) js)\<rparr>"
proof (induction js arbitrary: v)
  case Nil
  then show ?case by simp
next
  case (Cons e js)
  show ?case
  proof (cases "je_revision e \<le> r")
    case True
    show ?thesis
    proof (cases "je_epoch e \<noteq> epoch \<or> je_revision e \<le> lo")
      case skip: True
      then have "filter (\<lambda>e. je_epoch e = epoch \<and> lo < je_revision e) (takeWhile (\<lambda>e. je_revision e \<le> r) (e # js)) =
          filter (\<lambda>e. je_epoch e = epoch \<and> lo < je_revision e) (takeWhile (\<lambda>e. je_revision e \<le> r) js)" using True by auto
      then show ?thesis
        using True skip Cons.IH [of "v\<lparr>ev_journal_bytes := ev_journal_bytes v - je_retained_bytes e\<rparr>"]
        by (simp add: Let_def fold_publish_bytes)
    next
      case False
      then show ?thesis
        using True Cons.IH [of "publish_entry e (v\<lparr>ev_journal_bytes := ev_journal_bytes v - je_retained_bytes e\<rparr>)"]
        by (simp add: Let_def fold_publish_bytes publish_entry_bytes not_le)
    qed
  next
    case False
    then show ?thesis by simp
  qed
qed

lemma discard_entries_drop:
  "discard_entries r js v = v\<lparr>ev_journal := dropWhile (\<lambda>e. je_revision e \<le> r) js,
     ev_journal_bytes := ev_journal_bytes v - retained (takeWhile (\<lambda>e. je_revision e \<le> r) js)\<rparr>"
  by (induction js arbitrary: v) simp_all

text \<open>A gap only widens; eviction keeps a suffix and notes what it drops.\<close>

definition in_gap :: "nat \<Rightarrow> evidence_view \<Rightarrow> bool" where
  "in_gap r v \<longleftrightarrow> (\<exists>g. ev_gap_start v = Some g \<and> g \<le> r \<and> r \<le> ev_discarded_through v)"

lemma in_gap_note: "in_gap r (note_accessibility_evidence_gap s v) \<longleftrightarrow> r = s \<or> in_gap r v \<or>
   (\<exists>g. ev_gap_start v = Some g \<and> min g s \<le> r \<and> r \<le> max (ev_discarded_through v) s) \<or> ev_gap_start v = None \<and> s \<le> r \<and> r \<le> ev_discarded_through v"
  by (auto simp: in_gap_def note_accessibility_evidence_gap_def split: option.splits)

lemma note_gap_fields:
  "\<exists>g d. note_accessibility_evidence_gap s v = v\<lparr>ev_gap_start := g, ev_discarded_through := d\<rparr> \<and> d = max (ev_discarded_through v) s"
  by (auto simp: note_accessibility_evidence_gap_def)

lemma evict_suffix:
  "\<exists>dropped kept g d. js = dropped @ kept \<and>
     evict_evidence js v = v\<lparr>ev_journal := kept, ev_journal_bytes := ev_journal_bytes v - retained dropped,
        ev_gap_start := g, ev_discarded_through := d\<rparr> \<and>
     (\<forall>r. r \<in> je_revision ` set dropped \<or> in_gap r v \<longrightarrow> in_gap r (evict_evidence js v)) \<and>
     (kept = [] \<or> \<not> journal_full kept (ev_journal_bytes v - retained dropped)) \<and>
     d = Max (insert (ev_discarded_through v) (je_revision ` set dropped))"
proof (induction js arbitrary: v)
  case Nil
  have "evict_evidence [] v = v\<lparr>ev_journal := [], ev_journal_bytes := ev_journal_bytes v - retained [],
      ev_gap_start := ev_gap_start v, ev_discarded_through := ev_discarded_through v\<rparr>" by simp
  then show ?case
    by (intro exI [of _ "[]"] exI [of _ "ev_gap_start v"] exI [of _ "ev_discarded_through v"]) (simp add: in_gap_def)
next
  case (Cons e js)
  show ?case
  proof (cases "journal_full (e # js) (ev_journal_bytes v)")
    case False
    then show ?thesis
      by (intro exI [of _ "[]"] exI [of _ "e # js"] exI [of _ "ev_gap_start v"] exI [of _ "ev_discarded_through v"])
        (simp add: in_gap_def)
  next
    case True
    define w where "w = note_accessibility_evidence_gap (je_revision e) (v\<lparr>ev_journal_bytes := ev_journal_bytes v - je_retained_bytes e\<rparr>)"
    have w: "w = v\<lparr>ev_journal_bytes := ev_journal_bytes v - je_retained_bytes e, ev_gap_start := ev_gap_start w,
        ev_discarded_through := max (ev_discarded_through v) (je_revision e)\<rparr>"
      by (simp add: w_def note_accessibility_evidence_gap_def)
    have gap: "in_gap r w" if "r = je_revision e \<or> in_gap r v" for r
      using that by (auto simp: w_def in_gap_def note_accessibility_evidence_gap_def split: option.splits)
    have bytes: "ev_journal_bytes w = ev_journal_bytes v - je_retained_bytes e"
      "ev_discarded_through w = max (ev_discarded_through v) (je_revision e)"
      by (simp_all add: w_def note_accessibility_evidence_gap_def)
    obtain dropped kept g d where IH: "js = dropped @ kept"
        "evict_evidence js w = w\<lparr>ev_journal := kept, ev_journal_bytes := ev_journal_bytes w - retained dropped,
          ev_gap_start := g, ev_discarded_through := d\<rparr>"
        "\<forall>r. r \<in> je_revision ` set dropped \<or> in_gap r w \<longrightarrow> in_gap r (evict_evidence js w)"
        "kept = [] \<or> \<not> journal_full kept (ev_journal_bytes w - retained dropped)"
        "d = Max (insert (ev_discarded_through w) (je_revision ` set dropped))"
      using Cons.IH [of w] by blast
    have step: "evict_evidence (e # js) v = evict_evidence js w" using True by (simp add: w_def)
    have "evict_evidence js w = v\<lparr>ev_journal := kept, ev_journal_bytes := ev_journal_bytes v - retained (e # dropped),
          ev_gap_start := g, ev_discarded_through := d\<rparr>"
      unfolding IH(2) by (subst w) (simp add: bytes)
    moreover have "d = Max (insert (ev_discarded_through v) (je_revision ` set (e # dropped)))"
      unfolding IH(5) bytes by (cases "dropped = []") (simp_all add: Max_insert max.assoc)
    moreover have "\<forall>r. r \<in> je_revision ` set (e # dropped) \<or> in_gap r v \<longrightarrow> in_gap r (evict_evidence js w)"
      using IH(3) gap by auto
    moreover have "kept = [] \<or> \<not> journal_full kept (ev_journal_bytes v - retained (e # dropped))"
      using IH(4) by (simp add: bytes)
    ultimately show ?thesis
      unfolding step using IH(1)
      by (intro exI [of _ "e # dropped"] exI [of _ kept] exI [of _ g] exI [of _ d]) simp
  qed
qed

section \<open>Reachable views\<close>

text \<open>The evidence of all updates since tracking began, kept or not, the frames captured so far, and the view\<close>

inductive evidence_reachable :: "evidence_sizes \<Rightarrow> journal_entry list \<Rightarrow> evidence_frame list \<Rightarrow> evidence_view \<Rightarrow> bool" for sz where
  start: "enable_presentation_tracking sz False = Some v \<Longrightarrow> evidence_reachable sz [] [] v"
| start_frozen: "enable_presentation_tracking sz True = Some v \<Longrightarrow>
    evidence_reachable sz [evidence_entry sz update_summary_default True v] [] v"
| update: "evidence_reachable sz log fs v \<Longrightarrow> process_update sz transition retain u synchronized v = Some v' \<Longrightarrow>
    evidence_reachable sz (log @ [evidence_entry sz (normalized_accessibility_evidence u) synchronized v']) fs v'"
| resize: "evidence_reachable sz log fs v \<Longrightarrow> advance_revision v = Some v' \<Longrightarrow> evidence_reachable sz log fs v'"
| capture: "evidence_reachable sz log fs v \<Longrightarrow> evidence_reachable sz log (capture_live_evidence v # fs) v"
| transition: "evidence_reachable sz log fs v \<Longrightarrow> evidence_reachable sz log (capture_committed_evidence v # fs) v"
| install: "evidence_reachable sz log fs v \<Longrightarrow> f \<in> set fs \<Longrightarrow> evidence_reachable sz log fs (install_frame_evidence f v)"
| finalize: "evidence_reachable sz log fs v \<Longrightarrow> evidence_reachable sz log fs (finalize_changes v)"
| clear: "evidence_reachable sz log fs v \<Longrightarrow> clear_update_summary v = Some v' \<Longrightarrow> evidence_reachable sz log fs v'"

section \<open>Revisions and epochs\<close>

type_synonym epoch_point = "nat \<times> accessibility_epoch"

text \<open>A later epoch starts at or after every revision of an earlier one.\<close>

definition points_ok :: "nat \<Rightarrow> nat \<Rightarrow> nat \<Rightarrow> epoch_point set \<Rightarrow> bool" where
  "points_ok live gen floor P \<longleftrightarrow>
     (\<forall>p \<in> P. fst p \<le> live \<and> ep_generation (snd p) \<le> gen \<and> ep_start_revision (snd p) \<le> live \<and>
        (floor < ep_generation (snd p) \<longrightarrow> ep_start_revision (snd p) < fst p)) \<and>
     (\<forall>p \<in> P. \<forall>q \<in> P.
        (ep_generation (snd p) < ep_generation (snd q) \<longrightarrow> fst p \<le> ep_start_revision (snd q)) \<and>
        (ep_generation (snd p) = ep_generation (snd q) \<longrightarrow> snd p = snd q))"

lemma points_subset: "points_ok l g f P \<Longrightarrow> Q \<subseteq> P \<Longrightarrow> points_ok l g f Q"
  unfolding points_ok_def by (meson subsetD)

lemma points_bound: "points_ok l g f P \<Longrightarrow> p \<in> P \<Longrightarrow> fst p \<le> l \<and> ep_generation (snd p) \<le> g \<and> ep_start_revision (snd p) \<le> l \<and>
    (f < ep_generation (snd p) \<longrightarrow> ep_start_revision (snd p) < fst p)"
  by (simp add: points_ok_def)

lemma points_order: "points_ok l g f P \<Longrightarrow> p \<in> P \<Longrightarrow> q \<in> P \<Longrightarrow>
    (ep_generation (snd p) < ep_generation (snd q) \<longrightarrow> fst p \<le> ep_start_revision (snd q)) \<and>
    (ep_generation (snd p) = ep_generation (snd q) \<longrightarrow> snd p = snd q)"
  unfolding points_ok_def by blast

lemma points_grow:
  assumes "points_ok l g f P" "l \<le> l'" "g \<le> g'" "f \<le> f'"
  shows "points_ok l' g' f' P"
proof -
  have "fst p \<le> l' \<and> ep_generation (snd p) \<le> g' \<and> ep_start_revision (snd p) \<le> l' \<and>
      (f' < ep_generation (snd p) \<longrightarrow> ep_start_revision (snd p) < fst p)" if "p \<in> P" for p
    using points_bound [OF assms(1) that] assms(2,3,4) by auto
  then show ?thesis using points_order [OF assms(1)] unfolding points_ok_def by blast
qed

lemma points_insert:
  assumes P: "points_ok l g f P" and new: "r \<le> l" "ep_generation e \<le> g" "ep_start_revision e \<le> l"
    "f < ep_generation e \<longrightarrow> ep_start_revision e < r"
    and before: "\<And>q. q \<in> P \<Longrightarrow> ep_generation e < ep_generation (snd q) \<Longrightarrow> r \<le> ep_start_revision (snd q)"
    and same: "\<And>q. q \<in> P \<Longrightarrow> ep_generation e = ep_generation (snd q) \<Longrightarrow> e = snd q"
    and after: "\<And>q. q \<in> P \<Longrightarrow> ep_generation (snd q) < ep_generation e \<Longrightarrow> fst q \<le> ep_start_revision e"
  shows "points_ok l g f (insert (r, e) P)"
  unfolding points_ok_def
proof (intro conjI ballI)
  fix p assume p: "p \<in> insert (r, e) P"
  have "fst p \<le> l \<and> ep_generation (snd p) \<le> g \<and> ep_start_revision (snd p) \<le> l \<and>
    (f < ep_generation (snd p) \<longrightarrow> ep_start_revision (snd p) < fst p)"
  proof (cases "p = (r, e)")
    case False
    then have "p \<in> P" using p by simp
    then show ?thesis by (rule points_bound [OF P])
  qed (use new in simp)
  then show "fst p \<le> l" "ep_generation (snd p) \<le> g" "ep_start_revision (snd p) \<le> l"
    "f < ep_generation (snd p) \<longrightarrow> ep_start_revision (snd p) < fst p" by blast+
next
  fix p q assume pq: "p \<in> insert (r, e) P" "q \<in> insert (r, e) P"
  then consider "p = (r, e)" "q = (r, e)" | "p = (r, e)" "q \<in> P" | "p \<in> P" "q = (r, e)" | "p \<in> P" "q \<in> P" by blast
  then have "(ep_generation (snd p) < ep_generation (snd q) \<longrightarrow> fst p \<le> ep_start_revision (snd q)) \<and>
    (ep_generation (snd p) = ep_generation (snd q) \<longrightarrow> snd p = snd q)"
  proof cases
    case 2
    then show ?thesis using before same by simp
  next
    case 3
    then show ?thesis using after same [OF 3(1)] by auto
  next
    case 4
    then show ?thesis by (rule points_order [OF P])
  qed simp
  then show "ep_generation (snd p) < ep_generation (snd q) \<longrightarrow> fst p \<le> ep_start_revision (snd q)"
    "ep_generation (snd p) = ep_generation (snd q) \<longrightarrow> snd p = snd q" by blast+
qed

lemma points_advance:
  assumes P: "points_ok l g f P" "(l, e) \<in> P" "ep_generation e = g"
  shows "points_ok (Suc l) g f (insert (Suc l, e) P)"
proof (rule points_insert [OF points_grow [OF P(1)]])
  show "ep_start_revision e \<le> Suc l" "f < ep_generation e \<longrightarrow> ep_start_revision e < Suc l"
    using points_bound [OF P(1,2)] by auto
  show "Suc l \<le> ep_start_revision (snd q)" if "q \<in> P" "ep_generation e < ep_generation (snd q)" for q
    using points_bound [OF P(1) that(1)] that(2) P(3) by simp
  show "e = snd q" if "q \<in> P" "ep_generation e = ep_generation (snd q)" for q
    using points_order [OF P(1,2) that(1)] that(2) by simp
  show "fst q \<le> ep_start_revision e" if "q \<in> P" "ep_generation (snd q) < ep_generation e" for q
    using points_order [OF P(1) that(1) P(2)] that(2) by simp
qed (use P(3) in simp_all)

lemma points_new:
  assumes P: "points_ok l g f P" and e: "ep_generation e = Suc g" "ep_start_revision e = l"
    and r: "r \<le> l'" "l \<le> l'" "f' < Suc g \<longrightarrow> l < r" "f \<le> f'"
  shows "points_ok l' (Suc g) f' (insert (r, e) P)"
proof (rule points_insert [OF points_grow [OF P]])
  show "r \<le> ep_start_revision (snd q)" if "q \<in> P" "ep_generation e < ep_generation (snd q)" for q
    using points_bound [OF P that(1)] that(2) e by simp
  show "e = snd q" if "q \<in> P" "ep_generation e = ep_generation (snd q)" for q
    using points_bound [OF P that(1)] that(2) e by simp
  show "fst q \<le> ep_start_revision e" if "q \<in> P" for q
    using points_bound [OF P that] e by simp
qed (use e r in simp_all)

lemma points_outdated:
  assumes P: "points_ok l g f P" and p: "(p, e) \<in> P" and r: "(r, d) \<in> P" and gen: "ep_generation d < f" "f \<le> ep_generation e" and le: "p \<le> r"
  shows "points_ok l g f (insert (r, e) P)"
proof (rule points_insert [OF P])
  show "r \<le> l" "ep_generation e \<le> g" "ep_start_revision e \<le> l" "f < ep_generation e \<longrightarrow> ep_start_revision e < r"
    using points_bound [OF P p] points_bound [OF P r] le by auto
  show "r \<le> ep_start_revision (snd q)" if "q \<in> P" "ep_generation e < ep_generation (snd q)" for q
    using points_order [OF P r that(1)] that(2) gen by simp
  show "e = snd q" if "q \<in> P" "ep_generation e = ep_generation (snd q)" for q
    using points_order [OF P p that(1)] that(2) by simp
  show "fst q \<le> ep_start_revision e" if "q \<in> P" "ep_generation (snd q) < ep_generation e" for q
    using points_order [OF P that(1) p] that(2) by simp
qed

section \<open>The invariant\<close>

definition epoch_points :: "journal_entry list \<Rightarrow> evidence_frame list \<Rightarrow> evidence_view \<Rightarrow> epoch_point set" where
  "epoch_points log fs v =
     insert (ev_presented_revision v, ev_presented_epoch v) (insert (ev_live_revision v, ev_live_epoch v)
       ((\<lambda>e. (je_revision e, je_epoch e)) ` set log \<union> (\<lambda>f. (ef_revision f, ef_epoch f)) ` set fs))"

definition shape_ok :: "journal_entry list \<Rightarrow> evidence_frame list \<Rightarrow> evidence_view \<Rightarrow> bool" where
  "shape_ok log fs v \<longleftrightarrow>
     points_ok (ev_live_revision v) (ep_generation (ev_live_epoch v)) (ev_epoch_floor v) (epoch_points log fs v) \<and>
     sorted_wrt (<) (map je_revision log) \<and> (\<forall>e \<in> set log. ep_start_revision (je_epoch e) < je_revision e) \<and>
     ev_epoch_floor v \<le> ep_generation (ev_presented_epoch v) \<and> ev_finalized_revision v \<le> ev_presented_revision v \<and>
     ev_evidence_revision v \<le> ev_presented_revision v \<and>
     (ev_evidence_revision v = ev_presented_revision v \<or> ev_presented_revision v \<le> ep_start_revision (ev_presented_epoch v)) \<and>
     ev_live_revision v \<le> u64_max"

definition journal_ok :: "journal_entry list \<Rightarrow> evidence_view \<Rightarrow> bool" where
  "journal_ok log v \<longleftrightarrow>
     (\<exists>K. ev_journal v = filter (\<lambda>e. je_revision e \<in> K) log) \<and>
     (\<forall>e \<in> set log. ev_presented_revision v < je_revision e \<longrightarrow> e \<in> set (ev_journal v) \<or> in_gap (je_revision e) v) \<and>
     ev_journal_bytes v = retained (ev_journal v) \<and> length (ev_journal v) \<le> ACCESSIBILITY_JOURNAL_MAX_ENTRIES \<and>
     ev_journal_bytes v \<le> ACCESSIBILITY_JOURNAL_MAX_BYTES \<and> ev_discarded_through v \<le> ev_live_revision v"

text \<open>The evidence since the last finalization, in the presented epoch\<close>

definition told_range :: "journal_entry list \<Rightarrow> evidence_view \<Rightarrow> journal_entry list" where
  "told_range log v = filter (\<lambda>e. je_epoch e = ev_presented_epoch v \<and> ev_finalized_revision v < je_revision e \<and>
     je_revision e \<le> ev_presented_revision v) log"

definition evidence_inv :: "journal_entry list \<Rightarrow> evidence_frame list \<Rightarrow> evidence_view \<Rightarrow> bool" where
  "evidence_inv log fs v \<longleftrightarrow> shape_ok log fs v \<and> journal_ok log v \<and> tells (told_range log v) v"

lemma log_le_live: "shape_ok log fs v \<Longrightarrow> e \<in> set log \<Longrightarrow> je_revision e \<le> ev_live_revision v"
proof -
  assume "shape_ok log fs v" "e \<in> set log"
  then have "points_ok (ev_live_revision v) (ep_generation (ev_live_epoch v)) (ev_epoch_floor v) (epoch_points log fs v)"
    "(je_revision e, je_epoch e) \<in> epoch_points log fs v" by (auto simp: shape_ok_def epoch_points_def)
  from points_bound [OF this] show ?thesis by simp
qed

lemma presented_le_live: "shape_ok log fs v \<Longrightarrow> ev_presented_revision v \<le> ev_live_revision v"
proof -
  assume "shape_ok log fs v"
  then have "points_ok (ev_live_revision v) (ep_generation (ev_live_epoch v)) (ev_epoch_floor v) (epoch_points log fs v)"
    "(ev_presented_revision v, ev_presented_epoch v) \<in> epoch_points log fs v" by (auto simp: shape_ok_def epoch_points_def)
  from points_bound [OF this] show ?thesis by simp
qed

lemma kept_filter:
  assumes "a @ b = filter (\<lambda>e. je_revision e \<in> K) log" "sorted_wrt (<) (map je_revision log)"
  shows "b = filter (\<lambda>e. je_revision e \<in> je_revision ` set b) log"
proof -
  have "sorted_wrt (<) (map je_revision (a @ b))"
    unfolding assms(1) using assms(2) by (simp add: sorted_wrt_map sorted_wrt_filter)
  then have dis: "\<forall>x \<in> set a. \<forall>y \<in> set b. je_revision x < je_revision y" by (simp add: sorted_wrt_append)
  have "set b \<subseteq> set (filter (\<lambda>e. je_revision e \<in> K) log)" unfolding assms(1) [symmetric] by simp
  then have "filter (\<lambda>e. je_revision e \<in> je_revision ` set b) log = filter (\<lambda>e. je_revision e \<in> je_revision ` set b) (filter (\<lambda>e. je_revision e \<in> K) log)"
    by (auto intro!: filter_cong)
  also have "\<dots> = filter (\<lambda>e. je_revision e \<in> je_revision ` set b) (a @ b)" by (simp only: assms(1))
  also have "\<dots> = b"
  proof -
    have "filter (\<lambda>e. je_revision e \<in> je_revision ` set b) a = []"
      using dis by (fastforce simp: filter_empty_conv)
    moreover have "filter (\<lambda>e. je_revision e \<in> je_revision ` set b) b = b" by (auto intro: filter_True)
    ultimately show ?thesis by simp
  qed
  finally show ?thesis by (rule sym)
qed

section \<open>Appending\<close>

lemma journal_okI:
  assumes "ev_journal v = filter (\<lambda>e. je_revision e \<in> K) log"
    and "\<And>e. e \<in> set log \<Longrightarrow> ev_presented_revision v < je_revision e \<Longrightarrow> e \<in> set (ev_journal v) \<or> in_gap (je_revision e) v"
    and "ev_journal_bytes v = retained (ev_journal v)" "length (ev_journal v) \<le> ACCESSIBILITY_JOURNAL_MAX_ENTRIES"
    and "ev_journal_bytes v \<le> ACCESSIBILITY_JOURNAL_MAX_BYTES" "ev_discarded_through v \<le> ev_live_revision v"
  shows "journal_ok log v"
  using assms unfolding journal_ok_def by blast

lemma in_gap_wider: "in_gap r v \<Longrightarrow> in_gap r (note_accessibility_evidence_gap s v)"
  by (auto simp: in_gap_def note_accessibility_evidence_gap_def)

lemma in_gap_noted: "in_gap s (note_accessibility_evidence_gap s v)"
  by (simp add: in_gap_def note_accessibility_evidence_gap_def split: option.splits)

lemma append_fields:
  "\<exists>j b g d. append_accessibility_evidence sz u q v = v\<lparr>ev_journal := j, ev_journal_bytes := b, ev_gap_start := g, ev_discarded_through := d\<rparr>"
proof (cases "ACCESSIBILITY_JOURNAL_MAX_BYTES < accessibility_evidence_retained_bytes sz u")
  case True
  have "append_accessibility_evidence sz u q v = v\<lparr>ev_journal := ev_journal v, ev_journal_bytes := ev_journal_bytes v,
      ev_gap_start := ev_gap_start (note_accessibility_evidence_gap (ev_live_revision v) v),
      ev_discarded_through := ev_discarded_through (note_accessibility_evidence_gap (ev_live_revision v) v)\<rparr>"
    using True by (simp add: append_accessibility_evidence_def note_accessibility_evidence_gap_def)
  then show ?thesis by blast
next
  case False
  define w where "w = v\<lparr>ev_journal_bytes := saturating_add_usize (ev_journal_bytes v) (accessibility_evidence_retained_bytes sz u)\<rparr>"
  have "append_accessibility_evidence sz u q v = evict_evidence (ev_journal v @ [evidence_entry sz u q v]) w"
    using False by (simp add: append_accessibility_evidence_def w_def)
  moreover obtain k b g d where "evict_evidence (ev_journal v @ [evidence_entry sz u q v]) w =
      w\<lparr>ev_journal := k, ev_journal_bytes := b, ev_gap_start := g, ev_discarded_through := d\<rparr>"
    using evict_suffix [of "ev_journal v @ [evidence_entry sz u q v]" w] by blast
  ultimately have "append_accessibility_evidence sz u q v = v\<lparr>ev_journal := k, ev_journal_bytes := b, ev_gap_start := g, ev_discarded_through := d\<rparr>"
    by (simp add: w_def)
  then show ?thesis by blast
qed

lemma append_evidence_ok:
  fixes sz :: evidence_sizes and u :: update_summary and q :: bool and v :: evidence_view
  assumes j: "journal_ok log v" and sorted: "sorted_wrt (<) (map je_revision log)"
    and less: "\<forall>e \<in> set log. je_revision e < ev_live_revision v"
  defines "e \<equiv> evidence_entry sz u q v"
  shows "\<exists>j b g d. append_accessibility_evidence sz u q v = v\<lparr>ev_journal := j, ev_journal_bytes := b, ev_gap_start := g, ev_discarded_through := d\<rparr>"
    and "journal_ok (log @ [e]) (append_accessibility_evidence sz u q v)"
proof -
  obtain K where K: "ev_journal v = filter (\<lambda>e. je_revision e \<in> K) log" using j by (auto simp: journal_ok_def)
  have lost: "\<forall>e \<in> set log. ev_presented_revision v < je_revision e \<longrightarrow> e \<in> set (ev_journal v) \<or> in_gap (je_revision e) v"
    and bytes: "ev_journal_bytes v = retained (ev_journal v)" "ev_journal_bytes v \<le> ACCESSIBILITY_JOURNAL_MAX_BYTES"
    "length (ev_journal v) \<le> ACCESSIBILITY_JOURNAL_MAX_ENTRIES" "ev_discarded_through v \<le> ev_live_revision v"
    using j by (simp_all add: journal_ok_def)
  have e: "je_revision e = ev_live_revision v" "je_retained_bytes e = accessibility_evidence_retained_bytes sz u"
    by (simp_all add: e_def evidence_entry_def)
  show fields: "\<exists>j b g d. append_accessibility_evidence sz u q v = v\<lparr>ev_journal := j, ev_journal_bytes := b, ev_gap_start := g, ev_discarded_through := d\<rparr>"
    using append_fields by blast
  show "journal_ok (log @ [e]) (append_accessibility_evidence sz u q v)"
  proof (cases "ACCESSIBILITY_JOURNAL_MAX_BYTES < accessibility_evidence_retained_bytes sz u")
    case True
    then have same: "append_accessibility_evidence sz u q v = note_accessibility_evidence_gap (ev_live_revision v) v"
      by (simp add: append_accessibility_evidence_def)
    have "ev_journal v = filter (\<lambda>x. je_revision x \<in> K - {je_revision e}) (log @ [e])"
      using K less e(1) by (auto intro!: filter_cong)
    then have "ev_journal (note_accessibility_evidence_gap (ev_live_revision v) v) = filter (\<lambda>x. je_revision x \<in> K - {je_revision e}) (log @ [e])"
      by (simp add: note_accessibility_evidence_gap_def)
    then show ?thesis unfolding same
    proof (rule journal_okI)
      show "x \<in> set (ev_journal (note_accessibility_evidence_gap (ev_live_revision v) v)) \<or>
          in_gap (je_revision x) (note_accessibility_evidence_gap (ev_live_revision v) v)"
        if "x \<in> set (log @ [e])" "ev_presented_revision (note_accessibility_evidence_gap (ev_live_revision v) v) < je_revision x" for x
      proof (cases "x \<in> set log")
        case True
        have "ev_presented_revision v < je_revision x" using that(2) by (simp add: note_accessibility_evidence_gap_def)
        then have "x \<in> set (ev_journal v) \<or> in_gap (je_revision x) v" using lost True by blast
        then show ?thesis using in_gap_wider by (auto simp: note_accessibility_evidence_gap_def)
      next
        case False
        then show ?thesis using that(1) e(1) by (simp add: in_gap_noted)
      qed
    qed (use bytes in \<open>simp_all add: note_accessibility_evidence_gap_def\<close>)
  next
    case False
    define w where "w = v\<lparr>ev_journal_bytes := saturating_add_usize (ev_journal_bytes v) (je_retained_bytes e)\<rparr>"
    have "saturating_add_usize (ev_journal_bytes v) (je_retained_bytes e) = ev_journal_bytes v + je_retained_bytes e"
      using False bytes(2) e(2) by (simp add: saturating_add_usize_def usize_max_def ACCESSIBILITY_JOURNAL_MAX_BYTES_def)
    then have w: "ev_journal_bytes w = retained (ev_journal v @ [e])" using bytes(1) by (simp add: w_def)
    have same: "append_accessibility_evidence sz u q v = evict_evidence (ev_journal v @ [e]) w"
      using False by (simp add: append_accessibility_evidence_def w_def e(2)) (simp add: e_def)
    obtain dropped kept g d where ev: "ev_journal v @ [e] = dropped @ kept"
        "evict_evidence (ev_journal v @ [e]) w = w\<lparr>ev_journal := kept, ev_journal_bytes := ev_journal_bytes w - retained dropped,
          ev_gap_start := g, ev_discarded_through := d\<rparr>"
        "\<forall>r. r \<in> je_revision ` set dropped \<or> in_gap r w \<longrightarrow> in_gap r (evict_evidence (ev_journal v @ [e]) w)"
        "kept = [] \<or> \<not> journal_full kept (ev_journal_bytes w - retained dropped)"
        "d = Max (insert (ev_discarded_through w) (je_revision ` set dropped))"
      using evict_suffix [of "ev_journal v @ [e]" w] by blast
    have left: "ev_journal_bytes w - retained dropped = retained kept" unfolding w ev(1) by simp
    have fields: "append_accessibility_evidence sz u q v =
        v\<lparr>ev_journal := kept, ev_journal_bytes := retained kept, ev_gap_start := g, ev_discarded_through := d\<rparr>"
      unfolding same ev(2) left by (simp add: w_def)
    have "dropped @ kept = filter (\<lambda>x. je_revision x \<in> insert (je_revision e) K) (log @ [e])"
      unfolding ev(1) [symmetric] using K less e(1) by (auto intro!: filter_cong)
    moreover have "sorted_wrt (<) (map je_revision (log @ [e]))" using sorted less e(1) by (simp add: sorted_wrt_append)
    ultimately have k: "kept = filter (\<lambda>x. je_revision x \<in> je_revision ` set kept) (log @ [e])" by (rule kept_filter)
    have "ev_journal (append_accessibility_evidence sz u q v) = kept" by (simp add: fields)
    from trans [OF this k] show ?thesis
    proof (rule journal_okI)
      show "x \<in> set (ev_journal (append_accessibility_evidence sz u q v)) \<or> in_gap (je_revision x) (append_accessibility_evidence sz u q v)"
        if "x \<in> set (log @ [e])" "ev_presented_revision (append_accessibility_evidence sz u q v) < je_revision x" for x
      proof (cases "x \<in> set (ev_journal v @ [e])")
        case True
        then have "x \<in> set dropped \<or> x \<in> set kept" unfolding ev(1) by simp
        moreover have "set kept = set (ev_journal (append_accessibility_evidence sz u q v))" by (simp add: fields)
        ultimately show ?thesis using ev(3) same by auto
      next
        case False
        then have "in_gap (je_revision x) v" using that lost by (auto simp: fields)
        then have "in_gap (je_revision x) w" by (simp add: w_def in_gap_def)
        then show ?thesis using ev(3) same by simp
      qed
      show "length (ev_journal (append_accessibility_evidence sz u q v)) \<le> ACCESSIBILITY_JOURNAL_MAX_ENTRIES"
        "ev_journal_bytes (append_accessibility_evidence sz u q v) \<le> ACCESSIBILITY_JOURNAL_MAX_BYTES"
        using ev(4) unfolding left by (auto simp: journal_full_def fields)
      have "set dropped \<subseteq> set (ev_journal v @ [e])" unfolding ev(1) by simp
      then have "x \<in> set log \<or> x = e" if "x \<in> set dropped" for x using K that by auto
      then have "\<forall>x \<in> set dropped. je_revision x \<le> ev_live_revision v" using less e(1) less_imp_le by fastforce
      then show "ev_discarded_through (append_accessibility_evidence sz u q v) \<le> ev_live_revision (append_accessibility_evidence sz u q v)"
        using bytes(4) by (simp add: fields) (auto simp: ev(5) w_def)
    qed (simp add: fields)
  qed
qed

section \<open>Updates, resizes and captures\<close>

lemma shape_more_frames:
  assumes "shape_ok log fs v" "(ef_revision f, ef_epoch f) \<in> epoch_points log fs v"
  shows "shape_ok log (f # fs) v"
proof -
  have "epoch_points log (f # fs) v = insert (ef_revision f, ef_epoch f) (epoch_points log fs v)"
    by (auto simp: epoch_points_def)
  then have "epoch_points log (f # fs) v = epoch_points log fs v" using assms(2) by (simp add: insert_absorb)
  then show ?thesis using assms(1) by (simp add: shape_ok_def)
qed

lemma inv_captures:
  assumes "evidence_inv log fs v"
  shows "evidence_inv log (capture_live_evidence v # fs) v" "evidence_inv log (capture_committed_evidence v # fs) v"
proof -
  have "shape_ok log (capture_live_evidence v # fs) v" "shape_ok log (capture_committed_evidence v # fs) v"
    using assms by (auto intro!: shape_more_frames simp: evidence_inv_def epoch_points_def capture_live_evidence_def capture_committed_evidence_def)
  then show "evidence_inv log (capture_live_evidence v # fs) v" "evidence_inv log (capture_committed_evidence v # fs) v"
    using assms by (simp_all add: evidence_inv_def)
qed

text \<open>The live revision has advanced, in the same epoch or in a new one.\<close>

definition advanced :: "evidence_view \<Rightarrow> evidence_view \<Rightarrow> bool" where
  "advanced v w \<longleftrightarrow> ev_live_revision v < u64_max \<and>
     (w = v\<lparr>ev_live_revision := Suc (ev_live_revision v)\<rparr> \<or>
      w = v\<lparr>ev_live_revision := Suc (ev_live_revision v),
            ev_live_epoch := \<lparr>ep_generation = Suc (ep_generation (ev_live_epoch v)), ep_start_revision = ev_live_revision v\<rparr>\<rparr>)"

lemma advanced_fields:
  assumes "advanced v w"
  shows "ev_presented_revision w = ev_presented_revision v" "ev_finalized_revision w = ev_finalized_revision v"
    "ev_epoch_floor w = ev_epoch_floor v" "ev_presented_epoch w = ev_presented_epoch v" "ev_evidence_revision w = ev_evidence_revision v"
    "ev_exact w = ev_exact v" "ev_requires_snapshot_diff w = ev_requires_snapshot_diff v" "ev_journal w = ev_journal v"
    "ev_journal_bytes w = ev_journal_bytes v" "ev_gap_start w = ev_gap_start v" "ev_discarded_through w = ev_discarded_through v"
    "ev_presented_update w = ev_presented_update v" "ev_live_revision w = Suc (ev_live_revision v)" "ev_live_revision v < u64_max"
  using assms by (auto simp: advanced_def)

lemma advanced_points:
  assumes adv: "advanced v w" and P: "points_ok (ev_live_revision v) (ep_generation (ev_live_epoch v)) f P"
    and live: "(ev_live_revision v, ev_live_epoch v) \<in> P"
  shows "points_ok (ev_live_revision w) (ep_generation (ev_live_epoch w)) f (insert (ev_live_revision w, ev_live_epoch w) P) \<and>
    ep_start_revision (ev_live_epoch w) < ev_live_revision w"
proof -
  consider "w = v\<lparr>ev_live_revision := Suc (ev_live_revision v)\<rparr>"
    | "w = v\<lparr>ev_live_revision := Suc (ev_live_revision v),
            ev_live_epoch := \<lparr>ep_generation = Suc (ep_generation (ev_live_epoch v)), ep_start_revision = ev_live_revision v\<rparr>\<rparr>"
    using adv by (auto simp: advanced_def)
  then show ?thesis
  proof cases
    case 1
    then show ?thesis using points_advance [OF P live] points_bound [OF P live] by simp
  next
    case 2
    then show ?thesis by (simp add: points_new [OF P])
  qed
qed

lemma shape_advanced:
  assumes shape: "shape_ok log fs v" and adv: "advanced v w"
  shows "shape_ok log fs w" "ep_start_revision (ev_live_epoch w) < ev_live_revision w"
proof -
  have "points_ok (ev_live_revision v) (ep_generation (ev_live_epoch v)) (ev_epoch_floor v) (epoch_points log fs v)"
    "(ev_live_revision v, ev_live_epoch v) \<in> epoch_points log fs v"
    using shape by (simp_all add: shape_ok_def epoch_points_def)
  from advanced_points [OF adv this] have P: "points_ok (ev_live_revision w) (ep_generation (ev_live_epoch w)) (ev_epoch_floor v)
      (insert (ev_live_revision w, ev_live_epoch w) (epoch_points log fs v))"
    and start: "ep_start_revision (ev_live_epoch w) < ev_live_revision w" by auto
  have "epoch_points log fs w \<subseteq> insert (ev_live_revision w, ev_live_epoch w) (epoch_points log fs v)"
    using advanced_fields [OF adv] by (auto simp: epoch_points_def)
  from points_subset [OF P this] have "points_ok (ev_live_revision w) (ep_generation (ev_live_epoch w)) (ev_epoch_floor w) (epoch_points log fs w)"
    using advanced_fields [OF adv] by simp
  then show "shape_ok log fs w" using shape advanced_fields [OF adv] by (simp add: shape_ok_def)
  show "ep_start_revision (ev_live_epoch w) < ev_live_revision w" by (rule start)
qed

lemma inv_advanced:
  assumes inv: "evidence_inv log fs v" and adv: "advanced v w"
  shows "evidence_inv log fs w"
proof -
  have "journal_ok log w"
    using inv advanced_fields [OF adv] by (simp add: evidence_inv_def journal_ok_def in_gap_def)
  moreover have "told_range log w = told_range log v" using advanced_fields [OF adv] by (simp add: told_range_def)
  then have "tells (told_range log w) w" using inv advanced_fields [OF adv] by (simp add: evidence_inv_def tells_def)
  ultimately show ?thesis using shape_advanced [OF _ adv] inv by (simp add: evidence_inv_def)
qed

lemma advance_advanced: "advance_revision v = Some w \<Longrightarrow> advanced v w"
  by (auto simp: advance_revision_def advanced_def split: if_splits)

lemma process_advanced:
  assumes "process_update sz transition retain u synchronized v = Some v'"
  obtains w where "advanced v w"
    "v' = (if retain then append_accessibility_evidence sz (normalized_accessibility_evidence u) synchronized w
           else note_accessibility_evidence_gap (ev_live_revision w) w)"
proof -
  obtain w where w: "Option.bind (if transition then begin_accessibility_epoch v else Some v) advance_revision = Some w"
    "v' = (if retain then append_accessibility_evidence sz (normalized_accessibility_evidence u) synchronized w
           else note_accessibility_evidence_gap (ev_live_revision w) w)"
    using assms by (auto simp: process_update_def)
  have "advanced v w"
    using w(1) by (auto simp: advanced_def begin_accessibility_epoch_def advance_revision_def split: if_splits)
  then show thesis using that w(2) by blast
qed

text \<open>An update that is kept, and one that leaves a gap\<close>

lemma shape_log:
  assumes shape: "shape_ok log fs v" and start: "ep_start_revision (ev_live_epoch v) < ev_live_revision v"
    and less: "\<forall>e \<in> set log. je_revision e < ev_live_revision v" and e: "je_revision e = ev_live_revision v" "je_epoch e = ev_live_epoch v"
  shows "shape_ok (log @ [e]) fs v"
proof -
  have "epoch_points (log @ [e]) fs v = epoch_points log fs v" using e by (auto simp: epoch_points_def)
  then show ?thesis using shape start less e by (simp add: shape_ok_def sorted_wrt_append)
qed

lemma shape_journal: "shape_ok log fs (v\<lparr>ev_journal := j, ev_journal_bytes := b, ev_gap_start := g, ev_discarded_through := d\<rparr>) \<longleftrightarrow> shape_ok log fs v"
  by (simp add: shape_ok_def epoch_points_def)

lemma told_journal: "told_range log (v\<lparr>ev_journal := j, ev_journal_bytes := b, ev_gap_start := g, ev_discarded_through := d\<rparr>) = told_range log v"
  "tells es (v\<lparr>ev_journal := j, ev_journal_bytes := b, ev_gap_start := g, ev_discarded_through := d\<rparr>) = tells es v"
  by (simp_all add: told_range_def tells_def)

lemma told_future:
  assumes "ev_presented_revision v < je_revision e"
  shows "told_range (log @ [e]) v = told_range log v"
  using assms by (simp add: told_range_def)

lemma gap_journal_ok:
  assumes j: "journal_ok log v" and less: "\<forall>e \<in> set log. je_revision e < ev_live_revision v" and e: "je_revision e = ev_live_revision v"
  shows "journal_ok (log @ [e]) (note_accessibility_evidence_gap (ev_live_revision v) v)"
proof -
  obtain K where K: "ev_journal v = filter (\<lambda>e. je_revision e \<in> K) log" using j by (auto simp: journal_ok_def)
  have same: "ev_journal (note_accessibility_evidence_gap r v) = ev_journal v"
    "ev_presented_revision (note_accessibility_evidence_gap r v) = ev_presented_revision v"
    "ev_journal_bytes (note_accessibility_evidence_gap r v) = ev_journal_bytes v"
    "ev_live_revision (note_accessibility_evidence_gap r v) = ev_live_revision v"
    "ev_discarded_through (note_accessibility_evidence_gap r v) = max (ev_discarded_through v) r" for r
    by (simp_all add: note_accessibility_evidence_gap_def)
  have "ev_journal v = filter (\<lambda>x. je_revision x \<in> K - {je_revision e}) (log @ [e])"
    using K less e by (auto intro!: filter_cong)
  from trans [OF same(1) this] show ?thesis
  proof (rule journal_okI)
    fix x assume x: "x \<in> set (log @ [e])" "ev_presented_revision (note_accessibility_evidence_gap (ev_live_revision v) v) < je_revision x"
    show "x \<in> set (ev_journal (note_accessibility_evidence_gap (ev_live_revision v) v)) \<or>
        in_gap (je_revision x) (note_accessibility_evidence_gap (ev_live_revision v) v)"
    proof (cases "x \<in> set log")
      case True
      then have "x \<in> set (ev_journal v) \<or> in_gap (je_revision x) v" using j x(2) by (simp add: journal_ok_def same)
      then show ?thesis using in_gap_wider by (auto simp: same)
    next
      case False
      then show ?thesis using x(1) e by (simp add: in_gap_noted)
    qed
  qed (use j in \<open>simp_all add: journal_ok_def same\<close>)
qed

lemma inv_update:
  assumes inv: "evidence_inv log fs v" and v': "process_update sz transition retain u synchronized v = Some v'"
  shows "evidence_inv (log @ [evidence_entry sz (normalized_accessibility_evidence u) synchronized v']) fs v'"
proof -
  obtain w where w: "advanced v w"
    "v' = (if retain then append_accessibility_evidence sz (normalized_accessibility_evidence u) synchronized w
           else note_accessibility_evidence_gap (ev_live_revision w) w)"
    using process_advanced [OF v'] by blast
  define e where "e = evidence_entry sz (normalized_accessibility_evidence u) synchronized w"
  have e: "je_revision e = ev_live_revision w" "je_epoch e = ev_live_epoch w" by (simp_all add: e_def evidence_entry_def)
  have inv_w: "evidence_inv log fs w" by (rule inv_advanced [OF inv w(1)])
  have shape: "shape_ok log fs v" using inv by (simp add: evidence_inv_def)
  have less: "\<forall>e \<in> set log. je_revision e < ev_live_revision w"
    using log_le_live [OF shape] advanced_fields [OF w(1)] by (simp add: less_Suc_eq_le)
  have pres: "ev_presented_revision w < je_revision e"
    using presented_le_live [OF shape] advanced_fields [OF w(1)] e(1) by simp
  have sorted: "sorted_wrt (<) (map je_revision log)" using shape by (simp add: shape_ok_def)
  have j: "journal_ok log w" using inv_w by (simp add: evidence_inv_def)
  have "\<exists>j b g d. v' = w\<lparr>ev_journal := j, ev_journal_bytes := b, ev_gap_start := g, ev_discarded_through := d\<rparr>"
  proof (cases retain)
    case True
    then show ?thesis using append_fields w(2) by simp
  next
    case False
    have "note_accessibility_evidence_gap (ev_live_revision w) w = w\<lparr>ev_journal := ev_journal w, ev_journal_bytes := ev_journal_bytes w,
        ev_gap_start := ev_gap_start (note_accessibility_evidence_gap (ev_live_revision w) w),
        ev_discarded_through := ev_discarded_through (note_accessibility_evidence_gap (ev_live_revision w) w)\<rparr>"
      by (simp add: note_accessibility_evidence_gap_def)
    then show ?thesis using w(2) False by (simp only: if_False) blast
  qed
  then obtain j b g d where fields: "v' = w\<lparr>ev_journal := j, ev_journal_bytes := b, ev_gap_start := g, ev_discarded_through := d\<rparr>" by blast
  have entry: "evidence_entry sz (normalized_accessibility_evidence u) synchronized v' = e" by (simp add: fields e_def evidence_entry_def)
  have "journal_ok (log @ [e]) v'"
    using append_evidence_ok(2) [OF j sorted less, of sz "normalized_accessibility_evidence u" synchronized]
      gap_journal_ok [OF j less e(1)] w(2) by (cases retain) (simp_all add: e_def)
  moreover have "shape_ok (log @ [e]) fs v'"
    using shape_log [OF _ shape_advanced(2) [OF shape w(1)] less e] inv_w by (simp add: fields shape_journal evidence_inv_def)
  moreover have "tells (told_range (log @ [e]) v') v'"
    using inv_w told_future [OF pres] by (simp add: fields told_journal evidence_inv_def)
  ultimately show ?thesis by (simp add: entry evidence_inv_def)
qed

section \<open>Publication\<close>

lemma drop_filter: "sorted_wrt (<) (map je_revision js) \<Longrightarrow> dropWhile (\<lambda>e. je_revision e \<le> r) js = filter (\<lambda>e. r < je_revision e) js"
proof (induction js)
  case (Cons e js)
  then have later: "\<forall>x \<in> set js. je_revision e < je_revision x" by simp
  show ?case
  proof (cases "je_revision e \<le> r")
    case False
    then have "\<forall>x \<in> set js. r < je_revision x" using later by auto
    then have "filter (\<lambda>e. r < je_revision e) js = js" by simp
    then show ?thesis using False by simp
  qed (use Cons in simp)
qed simp

lemma take_filter: "sorted_wrt (<) (map je_revision js) \<Longrightarrow> takeWhile (\<lambda>e. je_revision e \<le> r) js = filter (\<lambda>e. je_revision e \<le> r) js"
proof (induction js)
  case (Cons e js)
  then have later: "\<forall>x \<in> set js. je_revision e < je_revision x" by simp
  show ?case
  proof (cases "je_revision e \<le> r")
    case False
    then have "\<forall>x \<in> set js. \<not> je_revision x \<le> r" using later by auto
    then have "filter (\<lambda>e. je_revision e \<le> r) js = []" by (simp add: filter_empty_conv)
    then show ?thesis using False by simp
  qed (use Cons in simp)
qed simp

lemma retained_split: "retained (takeWhile P js) + retained (dropWhile P js) = retained js"
  by (metis map_append sum_list_append takeWhile_dropWhile_id)

text \<open>Entries up to a revision leave the journal.\<close>

lemma journal_pop:
  assumes j: "journal_ok log v" and sorted: "sorted_wrt (<) (map je_revision log)"
    and r: "ev_presented_revision v \<le> r" "ev_presented_revision w = r"
    and w: "ev_journal w = dropWhile (\<lambda>e. je_revision e \<le> r) (ev_journal v)"
      "ev_journal_bytes w = ev_journal_bytes v - retained (takeWhile (\<lambda>e. je_revision e \<le> r) (ev_journal v))"
      "ev_discarded_through w = ev_discarded_through v" "ev_live_revision w = ev_live_revision v"
    and gap: "\<And>s. r < s \<Longrightarrow> in_gap s v \<Longrightarrow> in_gap s w"
  shows "journal_ok log w"
proof -
  obtain K where K: "ev_journal v = filter (\<lambda>e. je_revision e \<in> K) log" using j by (auto simp: journal_ok_def)
  have js: "sorted_wrt (<) (map je_revision (ev_journal v))" unfolding K using sorted by (simp add: sorted_wrt_map sorted_wrt_filter)
  have dw: "ev_journal w = filter (\<lambda>e. r < je_revision e) (ev_journal v)" using w(1) drop_filter [OF js] by simp
  have "ev_journal w = filter (\<lambda>e. je_revision e \<in> K \<inter> {r<..}) log"
    unfolding dw K filter_filter by (rule filter_cong) auto
  then show ?thesis
  proof (rule journal_okI)
    fix e assume "e \<in> set log" "ev_presented_revision w < je_revision e"
    then have "e \<in> set (ev_journal v) \<or> in_gap (je_revision e) v" "r < je_revision e"
      using j r by (auto simp: journal_ok_def)
    then show "e \<in> set (ev_journal w) \<or> in_gap (je_revision e) w" using gap by (auto simp: dw)
  next
    have bytes: "ev_journal_bytes v = retained (ev_journal v)" using j by (simp add: journal_ok_def)
    show "ev_journal_bytes w = retained (ev_journal w)"
      using retained_split [of "\<lambda>e. je_revision e \<le> r" "ev_journal v"] by (simp add: w(1,2) bytes)
    show "length (ev_journal w) \<le> ACCESSIBILITY_JOURNAL_MAX_ENTRIES"
      using j le_trans [OF length_filter_le] by (auto simp: dw journal_ok_def)
    have "ev_journal_bytes v \<le> ACCESSIBILITY_JOURNAL_MAX_BYTES" using j by (simp add: journal_ok_def)
    then show "ev_journal_bytes w \<le> ACCESSIBILITY_JOURNAL_MAX_BYTES" unfolding w(2) by (rule le_trans [OF diff_le_self])
    show "ev_discarded_through w \<le> ev_live_revision w" using j w(3,4) by (simp add: journal_ok_def)
  qed
qed

lemma epoch_after_presented:
  assumes shape: "shape_ok log fs v" and f: "f \<in> set fs" and gen: "ev_epoch_floor v \<le> ep_generation (ef_epoch f)"
    and r: "ev_presented_revision v \<le> ef_revision f" and ne: "ef_epoch f \<noteq> ev_presented_epoch v"
  shows "ev_presented_revision v \<le> ep_start_revision (ef_epoch f)"
proof -
  have P: "points_ok (ev_live_revision v) (ep_generation (ev_live_epoch v)) (ev_epoch_floor v) (epoch_points log fs v)"
    and p: "(ev_presented_revision v, ev_presented_epoch v) \<in> epoch_points log fs v"
    and q: "(ef_revision f, ef_epoch f) \<in> epoch_points log fs v"
    using shape f by (auto simp: shape_ok_def epoch_points_def)
  have "\<not> ep_generation (ef_epoch f) < ep_generation (ev_presented_epoch v)"
  proof
    assume less: "ep_generation (ef_epoch f) < ep_generation (ev_presented_epoch v)"
    then have "ef_revision f \<le> ep_start_revision (ev_presented_epoch v)" using points_order [OF P q p] by simp
    moreover have "ep_start_revision (ev_presented_epoch v) < ev_presented_revision v"
      using points_bound [OF P p] less gen by simp
    ultimately show False using r by simp
  qed
  moreover have "ep_generation (ef_epoch f) \<noteq> ep_generation (ev_presented_epoch v)"
    using points_order [OF P q p] ne by auto
  ultimately have "ep_generation (ev_presented_epoch v) < ep_generation (ef_epoch f)" by simp
  then show ?thesis using points_order [OF P p q] by simp
qed

lemma shape_install:
  assumes shape: "shape_ok log fs v" and f: "f \<in> set fs" and gen: "ev_epoch_floor v \<le> ep_generation (ef_epoch f)"
    and r: "ev_presented_revision v \<le> ef_revision f"
    and w: "ev_presented_revision w = ef_revision f" "ev_presented_epoch w = ef_epoch f" "ev_evidence_revision w = ef_revision f"
      "ev_live_revision w = ev_live_revision v" "ev_live_epoch w = ev_live_epoch v" "ev_epoch_floor w = ev_epoch_floor v"
      "ev_finalized_revision w = ev_finalized_revision v"
  shows "shape_ok log fs w"
proof -
  have "epoch_points log fs w \<subseteq> epoch_points log fs v" using f w by (auto simp: epoch_points_def)
  moreover have "points_ok (ev_live_revision v) (ep_generation (ev_live_epoch v)) (ev_epoch_floor v) (epoch_points log fs v)"
    using shape by (simp add: shape_ok_def)
  ultimately have "points_ok (ev_live_revision v) (ep_generation (ev_live_epoch v)) (ev_epoch_floor v) (epoch_points log fs w)"
    by (meson points_subset)
  then show ?thesis using shape gen r w by (simp add: shape_ok_def)
qed

lemma enter_epoch_fields:
  "ev_presented_epoch (enter_epoch ep v) = ep" "ev_journal (enter_epoch ep v) = ev_journal v"
  "ev_journal_bytes (enter_epoch ep v) = ev_journal_bytes v" "ev_gap_start (enter_epoch ep v) = ev_gap_start v"
  "ev_discarded_through (enter_epoch ep v) = ev_discarded_through v" "ev_live_revision (enter_epoch ep v) = ev_live_revision v"
  "ev_live_epoch (enter_epoch ep v) = ev_live_epoch v" "ev_epoch_floor (enter_epoch ep v) = ev_epoch_floor v"
  "ev_finalized_revision (enter_epoch ep v) = ev_finalized_revision v" "ev_presented_revision (enter_epoch ep v) = ev_presented_revision v"
  "ev_evidence_revision (enter_epoch ep v) = (if ep = ev_presented_epoch v then ev_evidence_revision v else ep_start_revision ep)"
  by (simp_all add: enter_epoch_def)

lemma require_range_fields:
  "ev_presented_epoch (require_range r lo v) = ev_presented_epoch v" "ev_journal (require_range r lo v) = ev_journal v"
  "ev_journal_bytes (require_range r lo v) = ev_journal_bytes v" "ev_gap_start (require_range r lo v) = ev_gap_start v"
  "ev_discarded_through (require_range r lo v) = ev_discarded_through v" "ev_live_revision (require_range r lo v) = ev_live_revision v"
  "ev_live_epoch (require_range r lo v) = ev_live_epoch v" "ev_epoch_floor (require_range r lo v) = ev_epoch_floor v"
  "ev_finalized_revision (require_range r lo v) = ev_finalized_revision v"
  "ev_presented_revision (require_range r lo v) = ev_presented_revision v"
  "ev_evidence_revision (require_range r lo v) = ev_evidence_revision v"
  by (simp_all add: require_range_def)

lemma tells_require: "tells es v \<Longrightarrow> tells es (require_range r lo v)"
  by (simp add: require_range_def tells_def provenance_runs)

text \<open>What a fold over entries keeps\<close>

lemma fold_publish_keeps:
  "ev_presented_epoch (fold publish_entry es v) = ev_presented_epoch v" "ev_journal (fold publish_entry es v) = ev_journal v"
  "ev_gap_start (fold publish_entry es v) = ev_gap_start v" "ev_discarded_through (fold publish_entry es v) = ev_discarded_through v"
  "ev_live_revision (fold publish_entry es v) = ev_live_revision v" "ev_live_epoch (fold publish_entry es v) = ev_live_epoch v"
  "ev_epoch_floor (fold publish_entry es v) = ev_epoch_floor v" "ev_finalized_revision (fold publish_entry es v) = ev_finalized_revision v"
  "ev_presented_revision (fold publish_entry es v) = ev_presented_revision v" "ev_exact (fold publish_entry es v) = ev_exact v"
proof -
  obtain R U where "fold publish_entry es v = v\<lparr>ev_requires_snapshot_diff := R, ev_presented_update := U\<rparr>"
    using fold_publish_fields by blast
  then show "ev_presented_epoch (fold publish_entry es v) = ev_presented_epoch v" "ev_journal (fold publish_entry es v) = ev_journal v"
    "ev_gap_start (fold publish_entry es v) = ev_gap_start v" "ev_discarded_through (fold publish_entry es v) = ev_discarded_through v"
    "ev_live_revision (fold publish_entry es v) = ev_live_revision v" "ev_live_epoch (fold publish_entry es v) = ev_live_epoch v"
    "ev_epoch_floor (fold publish_entry es v) = ev_epoch_floor v" "ev_finalized_revision (fold publish_entry es v) = ev_finalized_revision v"
    "ev_presented_revision (fold publish_entry es v) = ev_presented_revision v" "ev_exact (fold publish_entry es v) = ev_exact v"
    by simp_all
qed

lemma tells_default: "ev_presented_update v = update_summary_default \<Longrightarrow> tells [] v"
  by (simp add: tells_def merge_all_def default_runs)

lemma split_filter:
  assumes "sorted_wrt (<) (map je_revision log)"
  shows "filter (\<lambda>e. A e \<and> je_revision e \<le> p) log @ filter (\<lambda>e. A e \<and> p < je_revision e) log = filter A log"
proof -
  have "log = filter (\<lambda>e. je_revision e \<le> p) log @ filter (\<lambda>e. p < je_revision e) log"
    by (simp add: take_filter [OF assms, symmetric] drop_filter [OF assms, symmetric])
  then have "filter A log = filter A (filter (\<lambda>e. je_revision e \<le> p) log) @ filter A (filter (\<lambda>e. p < je_revision e) log)"
    by (metis filter_append)
  then show ?thesis by (simp add: conj_commute)
qed

lemma journal_ok_later:
  assumes "journal_ok log v" "ev_presented_revision v \<le> ev_presented_revision w"
    and "ev_journal w = ev_journal v" "ev_journal_bytes w = ev_journal_bytes v" "ev_gap_start w = ev_gap_start v"
      "ev_discarded_through w = ev_discarded_through v" "ev_live_revision w = ev_live_revision v"
  shows "journal_ok log w"
  using assms by (simp add: journal_ok_def in_gap_def)

lemma no_told:
  assumes "shape_ok log fs v" "ev_presented_revision w \<le> ep_start_revision (ev_presented_epoch w)"
  shows "told_range log w = []"
proof -
  have "\<forall>e \<in> set log. ep_start_revision (je_epoch e) < je_revision e" using assms(1) by (simp add: shape_ok_def)
  then show ?thesis using assms(2) by (fastforce simp: told_range_def filter_empty_conv)
qed

lemma inv_install_outdated:
  assumes inv: "evidence_inv log fs v" and f: "f \<in> set fs" and gen: "ep_generation (ef_epoch f) < ev_epoch_floor v"
    and r: "ev_presented_revision v \<le> ef_revision f"
  shows "evidence_inv log fs (v\<lparr>ev_presented_revision := ef_revision f, ev_presented_update := update_summary_default\<rparr>)"
proof -
  define w where "w = v\<lparr>ev_presented_revision := ef_revision f, ev_presented_update := update_summary_default\<rparr>"
  have shape: "shape_ok log fs v" using inv by (simp add: evidence_inv_def)
  have P: "points_ok (ev_live_revision v) (ep_generation (ev_live_epoch v)) (ev_epoch_floor v) (epoch_points log fs v)"
    and p: "(ev_presented_revision v, ev_presented_epoch v) \<in> epoch_points log fs v"
    and q: "(ef_revision f, ef_epoch f) \<in> epoch_points log fs v" and fl: "ev_epoch_floor v \<le> ep_generation (ev_presented_epoch v)"
    using shape f by (auto simp: shape_ok_def epoch_points_def)
  have start: "ef_revision f \<le> ep_start_revision (ev_presented_epoch v)" using points_order [OF P q p] gen fl by simp
  have "epoch_points log fs w \<subseteq> insert (ef_revision f, ev_presented_epoch v) (epoch_points log fs v)"
    by (auto simp: epoch_points_def w_def)
  from points_subset [OF points_outdated [OF P p q gen fl r] this] have "shape_ok log fs w"
    using shape r start by (simp add: shape_ok_def w_def)
  moreover have "journal_ok log w" using inv r by (intro journal_ok_later [of log v w]) (simp_all add: w_def evidence_inv_def)
  moreover have "told_range log w = []" using no_told [OF shape, of w] start by (simp add: w_def)
  then have "tells (told_range log w) w" using tells_default [of w] by (simp add: w_def)
  ultimately show ?thesis by (simp add: evidence_inv_def w_def)
qed

lemma inv_install_current:
  assumes inv: "evidence_inv log fs v" and f: "f \<in> set fs" and gen: "ev_epoch_floor v \<le> ep_generation (ef_epoch f)"
    and r: "ev_presented_revision v \<le> ef_revision f"
  shows "evidence_inv log fs (publish_accessibility_evidence (ef_epoch f) (ef_revision f) (v\<lparr>ev_presented_revision := ef_revision f\<rparr>))"
proof -
  define p where "p = ev_presented_revision v"
  define r where "r = ef_revision f"
  define ep where "ep = ef_epoch f"
  define v1 where "v1 = enter_epoch ep (v\<lparr>ev_presented_revision := r\<rparr>)"
  define lo where "lo = max (ev_evidence_revision v1) (ep_start_revision ep)"
  have shape: "shape_ok log fs v" and jv: "journal_ok log v" and told: "tells (told_range log v) v"
    using inv by (simp_all add: evidence_inv_def)
  have started: "ep_start_revision (je_epoch e) < je_revision e" if "e \<in> set log" for e using shape that by (simp add: shape_ok_def)
  have sorted: "sorted_wrt (<) (map je_revision log)" using shape by (simp add: shape_ok_def)
  have pr: "p \<le> r" using assms(4) by (simp add: p_def r_def)
  have new: "p \<le> ep_start_revision ep" if "ep \<noteq> ev_presented_epoch v"
    using epoch_after_presented [OF shape f gen] that assms(4) by (simp add: p_def ep_def)
  have old: "ev_evidence_revision v = p \<or> ev_evidence_revision v < p \<and> p \<le> ep_start_revision (ev_presented_epoch v)"
    using shape by (auto simp: shape_ok_def p_def)
  have v1: "ev_presented_epoch v1 = ep" "ev_journal v1 = ev_journal v" "ev_journal_bytes v1 = ev_journal_bytes v"
    "ev_gap_start v1 = ev_gap_start v" "ev_discarded_through v1 = ev_discarded_through v" "ev_live_revision v1 = ev_live_revision v"
    "ev_live_epoch v1 = ev_live_epoch v" "ev_epoch_floor v1 = ev_epoch_floor v" "ev_finalized_revision v1 = ev_finalized_revision v"
    "ev_presented_revision v1 = r" "ev_evidence_revision v1 = (if ep = ev_presented_epoch v then ev_evidence_revision v else ep_start_revision ep)"
    by (simp_all add: v1_def enter_epoch_fields)
  have key: "lo < je_revision e \<longleftrightarrow> p < je_revision e" if "e \<in> set log" "je_epoch e = ep" for e
    using started [OF that(1)] that(2) new old by (auto simp: lo_def v1)
  have gen': "\<not> ep_generation ep < ev_epoch_floor v" using gen by (simp add: ep_def)
  have pub: "publish_accessibility_evidence ep r (v\<lparr>ev_presented_revision := r\<rparr>) =
      (if r < lo then v1\<lparr>ev_presented_update := update_summary_default, ev_evidence_revision := r\<rparr>
       else (publish_entries ep r lo (ev_journal (require_range r lo v1)) (require_range r lo v1))\<lparr>ev_evidence_revision := r\<rparr>)"
    using gen' by (simp add: publish_accessibility_evidence_def Let_def v1_def lo_def)
  show ?thesis
  proof (cases "r < lo")
    case True
    define w where "w = v1\<lparr>ev_presented_update := update_summary_default, ev_evidence_revision := r\<rparr>"
    have w: "publish_accessibility_evidence ep r (v\<lparr>ev_presented_revision := r\<rparr>) = w"
      using True by (simp add: pub w_def)
    have "r < ep_start_revision ep" using True old pr new by (auto simp: lo_def v1 split: if_splits)
    then have "told_range log w = []" using no_told [OF shape, of w] by (simp add: w_def v1)
    then have "tells (told_range log w) w" using tells_default [of w] by (simp add: w_def)
    moreover have "shape_ok log fs w"
      by (rule shape_install [OF shape f gen]) (use assms(4) in \<open>simp_all add: w_def v1 r_def ep_def\<close>)
    moreover have "journal_ok log w" by (rule journal_ok_later [OF jv]) (use pr in \<open>simp_all add: w_def v1 p_def\<close>)
    ultimately show ?thesis using w by (simp add: evidence_inv_def r_def ep_def)
  next
    case False
    define v2 where "v2 = require_range r lo v1"
    define es where "es = filter (\<lambda>e. je_epoch e = ep \<and> lo < je_revision e) (takeWhile (\<lambda>e. je_revision e \<le> r) (ev_journal v))"
    define w where "w = (publish_entries ep r lo (ev_journal v2) v2)\<lparr>ev_evidence_revision := r\<rparr>"
    have w: "publish_accessibility_evidence ep r (v\<lparr>ev_presented_revision := r\<rparr>) = w"
      using False by (simp add: pub w_def v2_def)
    have w_fold: "w = (fold publish_entry es v2)\<lparr>ev_journal := dropWhile (\<lambda>e. je_revision e \<le> r) (ev_journal v),
        ev_journal_bytes := ev_journal_bytes v - retained (takeWhile (\<lambda>e. je_revision e \<le> r) (ev_journal v)), ev_evidence_revision := r\<rparr>"
      by (simp add: w_def publish_entries_fold es_def v2_def require_range_fields v1)
    have wf: "ev_presented_revision w = r" "ev_presented_epoch w = ep" "ev_evidence_revision w = r" "ev_live_revision w = ev_live_revision v"
      "ev_live_epoch w = ev_live_epoch v" "ev_epoch_floor w = ev_epoch_floor v" "ev_finalized_revision w = ev_finalized_revision v"
      "ev_gap_start w = ev_gap_start v" "ev_discarded_through w = ev_discarded_through v" "ev_exact w = ev_exact v2"
      "ev_journal w = dropWhile (\<lambda>e. je_revision e \<le> r) (ev_journal v)"
      "ev_journal_bytes w = ev_journal_bytes v - retained (takeWhile (\<lambda>e. je_revision e \<le> r) (ev_journal v))"
      by (simp_all add: w_fold fold_publish_keeps v2_def require_range_fields v1)
    have "shape_ok log fs w"
      by (rule shape_install [OF shape f gen]) (use assms(4) in \<open>simp_all add: wf r_def ep_def\<close>)
    moreover have "journal_ok log w"
      by (rule journal_pop [OF jv sorted _ wf(1,11,12)]) (use pr in \<open>simp_all add: wf p_def in_gap_def\<close>)
    moreover have "tells (told_range log w) w"
    proof -
      define before where "before = filter (\<lambda>e. (je_epoch e = ep \<and> ev_finalized_revision v < je_revision e) \<and> je_revision e \<le> p) log"
      have "tells before v1"
      proof (cases "ep = ev_presented_epoch v")
        case True
        then have "told_range log v = before" by (simp add: told_range_def before_def p_def conj_assoc)
        then show ?thesis using told True by (simp add: v1_def enter_epoch_def tells_def)
      next
        case ne: False
        have "before = []" using started new [OF ne] by (fastforce simp: before_def filter_empty_conv)
        then show ?thesis using ne tells_default [of v1] by (simp add: v1_def enter_epoch_def)
      qed
      then have "tells (before @ es) (fold publish_entry es v2)" unfolding v2_def by (intro tells_fold tells_require)
      moreover have "tells xs w = tells xs (fold publish_entry es v2)" for xs unfolding w_fold by (simp add: tells_def)
      ultimately have t: "tells (before @ es) w" by blast
      show ?thesis
      proof (cases "ev_exact w")
        case True
        then have exact: "ev_exact v1 \<and> \<not> discarded_in_required_range r lo v1"
          by (simp add: wf v2_def require_range_def split: if_splits)
        have here: "e \<in> set (ev_journal v)" if "e \<in> set log" "je_epoch e = ep" "lo < je_revision e" "je_revision e \<le> r" for e
        proof (rule ccontr)
          assume "e \<notin> set (ev_journal v)"
          then have "in_gap (je_revision e) v" using jv that key [OF that(1,2)] by (auto simp: journal_ok_def p_def)
          then show False using exact that by (auto simp: discarded_in_required_range_def in_gap_def v1)
        qed
        obtain K where K: "ev_journal v = filter (\<lambda>e. je_revision e \<in> K) log" using jv by (auto simp: journal_ok_def)
        have js: "sorted_wrt (<) (map je_revision (ev_journal v))" unfolding K using sorted by (simp add: sorted_wrt_map sorted_wrt_filter)
        have "es = filter (\<lambda>e. (je_epoch e = ep \<and> lo < je_revision e) \<and> je_revision e \<le> r \<and> je_revision e \<in> K) log"
          unfolding es_def take_filter [OF js] unfolding K filter_filter by (rule filter_cong) auto
        also have "\<dots> = filter (\<lambda>e. (je_epoch e = ep \<and> ev_finalized_revision v < je_revision e \<and> je_revision e \<le> r) \<and> p < je_revision e) log"
        proof (rule filter_cong [OF refl])
          fix e assume e: "e \<in> set log"
          have "ev_finalized_revision v \<le> p" using shape by (simp add: shape_ok_def p_def)
          moreover have "je_revision e \<in> K" if "je_epoch e = ep" "lo < je_revision e" "je_revision e \<le> r"
            using here [OF e that] by (simp add: K)
          ultimately show "((je_epoch e = ep \<and> lo < je_revision e) \<and> je_revision e \<le> r \<and> je_revision e \<in> K) =
             ((je_epoch e = ep \<and> ev_finalized_revision v < je_revision e \<and> je_revision e \<le> r) \<and> p < je_revision e)"
            using key [OF e] by auto
        qed
        finally have es: "es = filter (\<lambda>e. (je_epoch e = ep \<and> ev_finalized_revision v < je_revision e \<and> je_revision e \<le> r) \<and> p < je_revision e) log" .
        have "before = filter (\<lambda>e. (je_epoch e = ep \<and> ev_finalized_revision v < je_revision e \<and> je_revision e \<le> r) \<and> je_revision e \<le> p) log"
          unfolding before_def using pr by (intro filter_cong) auto
        then have "before @ es = filter (\<lambda>e. je_epoch e = ep \<and> ev_finalized_revision v < je_revision e \<and> je_revision e \<le> r) log"
          unfolding es by (simp only: split_filter [OF sorted])
        then show ?thesis using t by (simp add: told_range_def wf)
      next
        case False
        then show ?thesis using t by (simp add: tells_def)
      qed
    qed
    ultimately show ?thesis using w by (simp add: evidence_inv_def r_def ep_def)
  qed
qed

lemma inv_install_evidence:
  assumes inv: "evidence_inv log fs v" and f: "f \<in> set fs"
  shows "evidence_inv log fs (install_frame_evidence f v)"
proof (cases "ev_live_revision v < ef_revision f \<or> ef_revision f < ev_presented_revision v")
  case True
  then show ?thesis using inv by (simp add: install_frame_evidence_def)
next
  case False
  show ?thesis
  proof (cases "ep_generation (ef_epoch f) < ev_epoch_floor v")
    case True
    then have "install_frame_evidence f v = v\<lparr>ev_presented_revision := ef_revision f, ev_presented_update := update_summary_default\<rparr>"
      using False by (simp add: install_frame_evidence_def publish_accessibility_evidence_def)
    then show ?thesis using inv_install_outdated [OF inv f True] False by simp
  next
    case current: False
    have "install_frame_evidence f v = publish_accessibility_evidence (ef_epoch f) (ef_revision f) (v\<lparr>ev_presented_revision := ef_revision f\<rparr>)"
      using False by (simp add: install_frame_evidence_def)
    then show ?thesis using inv_install_current [OF inv f] current False by simp
  qed
qed

section \<open>Finalization, handoff and start\<close>

lemma inv_finalize:
  assumes inv: "evidence_inv log fs v"
  shows "evidence_inv log fs (finalize_changes v)"
proof (cases "ev_finalized_revision v = ev_presented_revision v")
  case True
  then show ?thesis using inv by (simp add: finalize_changes_def)
next
  case False
  define p where "p = ev_presented_revision v"
  define w where "w = finalize_changes v"
  define g where "g = (case ev_gap_start v of None \<Rightarrow> None
    | Some s \<Rightarrow> if s \<le> p then if ev_discarded_through v \<le> p then None else Some (min (p + 1) u64_max) else Some s)"
  have shape: "shape_ok log fs v" and jv: "journal_ok log v" using inv by (simp_all add: evidence_inv_def)
  have w: "w = v\<lparr>ev_presented_update := update_summary_default, ev_finalized_revision := p, ev_evidence_revision := p, ev_exact := True,
      ev_requires_snapshot_diff := False, ev_journal := dropWhile (\<lambda>e. je_revision e \<le> p) (ev_journal v),
      ev_journal_bytes := ev_journal_bytes v - retained (takeWhile (\<lambda>e. je_revision e \<le> p) (ev_journal v)), ev_gap_start := g\<rparr>"
    using False by (simp add: w_def finalize_changes_def discard_accessibility_journal_through_def discard_entries_drop Let_def p_def g_def
        split: option.splits)
  have "shape_ok log fs w" using shape by (simp add: shape_ok_def w epoch_points_def p_def)
  moreover have "journal_ok log w"
  proof (rule journal_pop [OF jv, of p])
    show "sorted_wrt (<) (map je_revision log)" using shape by (simp add: shape_ok_def)
    fix s assume s: "p < s" "in_gap s v"
    show "in_gap s w"
    proof -
      obtain a where a: "ev_gap_start v = Some a" "a \<le> s" "s \<le> ev_discarded_through v" using s(2) by (auto simp: in_gap_def)
      then have "\<exists>b. g = Some b \<and> b \<le> s" using s(1) by (auto simp: g_def)
      then show ?thesis using a by (auto simp: in_gap_def w)
    qed
  qed (simp_all add: w p_def)
  moreover have "told_range log w = []" by (simp add: told_range_def w p_def filter_empty_conv)
  then have "tells (told_range log w) w" using tells_default [of w] by (simp add: w)
  ultimately show ?thesis by (simp add: evidence_inv_def w_def)
qed

lemma handoff_fields:
  assumes "reset_accessibility_journal_for_handoff v = Some w"
  shows "ev_live_revision w = ev_live_revision v" "ev_presented_revision w = ev_presented_revision v"
    "ev_finalized_revision w = ev_finalized_revision v" "ev_presented_epoch w = ev_live_epoch w"
    "ev_live_epoch w = \<lparr>ep_generation = Suc (ep_generation (ev_live_epoch v)), ep_start_revision = ev_live_revision v\<rparr>"
    "ev_epoch_floor w = Suc (ep_generation (ev_live_epoch v))" "ev_evidence_revision w = ev_presented_revision v" "ev_exact w"
    "\<not> ev_requires_snapshot_diff w" "ev_journal w = []" "ev_journal_bytes w = 0" "ev_presented_update w = ev_presented_update v"
    "ev_finalized_revision v < ev_live_revision v \<Longrightarrow> ev_discarded_through w = ev_live_revision v"
    "ev_finalized_revision v < ev_live_revision v \<Longrightarrow> \<exists>g. ev_gap_start w = Some g \<and> g \<le> Suc (ev_finalized_revision v)"
    "\<not> ev_finalized_revision v < ev_live_revision v \<Longrightarrow> ev_discarded_through w = ev_discarded_through v"
  using assms
  by (auto simp: reset_accessibility_journal_for_handoff_def begin_accessibility_epoch_def note_accessibility_evidence_gap_def Let_def
      split: if_splits option.splits)

lemma inv_clear:
  assumes inv: "evidence_inv log fs v" and w: "clear_update_summary v = Some w"
  shows "evidence_inv log fs w"
proof -
  note h = handoff_fields [OF w [unfolded clear_update_summary_def], simplified]
  have shape: "shape_ok log fs v" and jv: "journal_ok log v" using inv by (simp_all add: evidence_inv_def)
  have P: "points_ok (ev_live_revision v) (ep_generation (ev_live_epoch v)) (ev_epoch_floor v) (epoch_points log fs v)"
    and p: "(ev_live_revision v, ev_live_epoch v) \<in> epoch_points log fs v"
    using shape by (auto simp: shape_ok_def epoch_points_def)
  have le: "ev_presented_revision v \<le> ev_live_revision v" by (rule presented_le_live [OF shape])
  have "ev_epoch_floor v \<le> Suc (ep_generation (ev_live_epoch v))"
  proof -
    have "(ev_presented_revision v, ev_presented_epoch v) \<in> epoch_points log fs v" by (simp add: epoch_points_def)
    from points_bound [OF P this] show ?thesis using shape by (simp add: shape_ok_def)
  qed
  then have P1: "points_ok (ev_live_revision v) (Suc (ep_generation (ev_live_epoch v))) (ev_epoch_floor w)
      (insert (ev_live_revision v, ev_live_epoch w) (epoch_points log fs v))"
    by (intro points_new [OF P]) (simp_all add: h)
  have "points_ok (ev_live_revision v) (Suc (ep_generation (ev_live_epoch v))) (ev_epoch_floor w)
      (insert (ev_presented_revision v, ev_live_epoch w) (insert (ev_live_revision v, ev_live_epoch w) (epoch_points log fs v)))"
  proof (rule points_insert [OF P1])
    show "ev_presented_revision v \<le> ep_start_revision (snd q)"
      if "q \<in> insert (ev_live_revision v, ev_live_epoch w) (epoch_points log fs v)" "ep_generation (ev_live_epoch w) < ep_generation (snd q)" for q
      using points_bound [OF P1 that(1)] that(2) by (simp add: h)
    show "ev_live_epoch w = snd q"
      if "q \<in> insert (ev_live_revision v, ev_live_epoch w) (epoch_points log fs v)" "ep_generation (ev_live_epoch w) = ep_generation (snd q)" for q
      using points_order [OF P1 _ that(1), of "(ev_live_revision v, ev_live_epoch w)"] that(2) by simp
    show "fst q \<le> ep_start_revision (ev_live_epoch w)"
      if "q \<in> insert (ev_live_revision v, ev_live_epoch w) (epoch_points log fs v)" for q
      using points_bound [OF P1 that] by (simp add: h)
  qed (use le in \<open>simp_all add: h\<close>)
  moreover have "epoch_points log fs w \<subseteq>
      insert (ev_presented_revision v, ev_live_epoch w) (insert (ev_live_revision v, ev_live_epoch w) (epoch_points log fs v))"
    by (auto simp: epoch_points_def h)
  ultimately have "points_ok (ev_live_revision v) (Suc (ep_generation (ev_live_epoch v))) (ev_epoch_floor w) (epoch_points log fs w)"
    by (rule points_subset)
  then have "points_ok (ev_live_revision w) (ep_generation (ev_live_epoch w)) (ev_epoch_floor w) (epoch_points log fs w)"
    by (simp add: h)
  then have "shape_ok log fs w" using shape le by (simp add: shape_ok_def h)
  moreover have "journal_ok log w"
  proof (rule journal_okI [of _ "{}"])
    fix e assume e: "e \<in> set log" "ev_presented_revision w < je_revision e"
    have fin: "ev_finalized_revision v \<le> ev_presented_revision v" using shape by (simp add: shape_ok_def)
    have live: "je_revision e \<le> ev_live_revision v" by (rule log_le_live [OF shape e(1)])
    then have less: "ev_finalized_revision v < ev_live_revision v" using e(2) fin by (simp add: h)
    obtain g where "ev_gap_start w = Some g" "g \<le> Suc (ev_finalized_revision v)"
      using handoff_fields(14) [OF w [unfolded clear_update_summary_def]] less by auto
    moreover have "ev_discarded_through w = ev_live_revision v" using h(13) less by simp
    moreover have "ev_presented_revision v < je_revision e" using e(2) by (simp add: h(2))
    ultimately show "e \<in> set (ev_journal w) \<or> in_gap (je_revision e) w" using live fin by (simp add: in_gap_def)
  next
    have "ev_discarded_through v \<le> ev_live_revision v" using jv by (simp add: journal_ok_def)
    then show "ev_discarded_through w \<le> ev_live_revision w"
      using h(13,15) by (cases "ev_finalized_revision v < ev_live_revision v") (simp_all add: h(1))
  qed (simp_all add: h)
  moreover have "told_range log w = []"
    using no_told [OF shape, of w] le by (simp add: h)
  then have "tells (told_range log w) w" using tells_default [of w] by (simp add: h)
  ultimately show ?thesis by (simp add: evidence_inv_def)
qed

lemma enabled:
  "enable_presentation_tracking sz False = Some v \<Longrightarrow>
   v = evidence_view_new\<lparr>ev_live_epoch := \<lparr>ep_generation = 2, ep_start_revision = 0\<rparr>, ev_epoch_floor := 2,
     ev_presented_epoch := \<lparr>ep_generation = 2, ep_start_revision = 0\<rparr>\<rparr>"
  by (simp add: enable_presentation_tracking_def reset_accessibility_journal_for_handoff_def begin_accessibility_epoch_def
      evidence_view_new_def u64_max_def Let_def numeral_2_eq_2)

lemma inv_start_evidence:
  assumes "enable_presentation_tracking sz False = Some v"
  shows "evidence_inv [] [] v"
  unfolding enabled [OF assms]
  by (simp add: evidence_inv_def shape_ok_def points_ok_def epoch_points_def evidence_view_new_def journal_ok_def told_range_def tells_def
      merge_all_def u64_max_def)

lemma inv_start_frozen:
  assumes "enable_presentation_tracking sz True = Some v"
  shows "evidence_inv [evidence_entry sz update_summary_default True v] [] v"
proof -
  define v0 where "v0 = evidence_view_new\<lparr>ev_live_epoch := \<lparr>ep_generation = 2, ep_start_revision = 0\<rparr>, ev_epoch_floor := 2,
     ev_presented_epoch := \<lparr>ep_generation = 2, ep_start_revision = 0\<rparr>\<rparr>"
  have start: "enable_presentation_tracking sz False = Some v0"
    by (simp add: enable_presentation_tracking_def reset_accessibility_journal_for_handoff_def begin_accessibility_epoch_def
      evidence_view_new_def u64_max_def Let_def numeral_2_eq_2 v0_def)
  define w where "w = v0\<lparr>ev_live_revision := 1\<rparr>"
  have adv: "advanced v0 w" by (simp add: advanced_def w_def v0_def evidence_view_new_def u64_max_def)
  have inv0: "evidence_inv [] [] v0" by (rule inv_start_evidence [OF start])
  then have inv: "evidence_inv [] [] w" by (rule inv_advanced [OF _ adv])
  have "shape_ok [] [] v0" using inv0 by (simp add: evidence_inv_def)
  from shape_advanced(2) [OF this adv] have shape0: "ep_start_revision (ev_live_epoch w) < ev_live_revision w" .
  obtain j b g d where a: "append_accessibility_evidence sz update_summary_default True w =
      w\<lparr>ev_journal := j, ev_journal_bytes := b, ev_gap_start := g, ev_discarded_through := d\<rparr>"
    using append_fields by blast
  have "v = (append_accessibility_evidence sz update_summary_default True w)\<lparr>ev_presented_revision := 0\<rparr>"
    using assms by (simp add: enable_presentation_tracking_def reset_accessibility_journal_for_handoff_def begin_accessibility_epoch_def
      evidence_view_new_def u64_max_def Let_def numeral_2_eq_2 v0_def w_def advance_revision_def)
  then have v: "v = append_accessibility_evidence sz update_summary_default True w"
    by (simp add: a) (simp add: w_def v0_def evidence_view_new_def)
  have e: "evidence_entry sz update_summary_default True v = evidence_entry sz update_summary_default True w"
    by (simp add: v a evidence_entry_def)
  have "journal_ok ([] @ [evidence_entry sz update_summary_default True w]) v"
    unfolding v using inv by (intro append_evidence_ok(2)) (simp_all add: evidence_inv_def)
  moreover have "shape_ok ([] @ [evidence_entry sz update_summary_default True w]) [] w"
    using inv shape0 by (intro shape_log) (simp_all add: evidence_inv_def evidence_entry_def)
  moreover have "tells (told_range ([] @ [evidence_entry sz update_summary_default True w]) w) w"
    using inv by (subst told_future) (simp_all add: evidence_inv_def evidence_entry_def w_def v0_def evidence_view_new_def)
  ultimately show ?thesis
    unfolding evidence_inv_def e by (simp add: v a shape_journal told_journal)
qed

lemma evidence_inv_reachable: "evidence_reachable sz log fs v \<Longrightarrow> evidence_inv log fs v"
proof (induction rule: evidence_reachable.induct)
  case (start v)
  then show ?case by (rule inv_start_evidence)
next
  case (start_frozen v)
  then show ?case by (rule inv_start_frozen)
next
  case (update log fs v transition retain u synchronized v')
  then show ?case by (blast intro: inv_update)
next
  case (resize log fs v v')
  then show ?case by (blast intro: inv_advanced advance_advanced)
next
  case (capture log fs v)
  then show ?case by (blast intro: inv_captures)
next
  case (transition log fs v)
  then show ?case by (blast intro: inv_captures)
next
  case (install log fs v f)
  then show ?case by (blast intro: inv_install_evidence)
next
  case (finalize log fs v)
  then show ?case by (blast intro: inv_finalize)
next
  case (clear log fs v v')
  then show ?case by (blast intro: inv_clear)
qed

section \<open>Properties\<close>

text \<open>
  C38: Published parser evidence is complete or says nothing. In every state that a view reaches by updates whose
  evidence is kept, dropped or too large, changes of screen, resizes, captures, installations of captured frames in any
  order, finalizations and handoffs: while the published summary counts as exact, it is the merge of the evidence of
  all updates since the last finalization up to the presented revision in the presented epoch, in order and with none
  missing, and none of them belongs to a synchronized transaction; otherwise it holds no printed text at
  all. So no speech is made from a print stream with a hole.
\<close>

theorem published_evidence_complete:
  assumes "evidence_reachable sz log fs v"
  shows "if ev_exact v \<and> \<not> ev_requires_snapshot_diff v
    then ev_presented_update v = merge_all (map je_update (told_range log v)) \<and>
      list_all (\<lambda>e. \<not> je_requires_snapshot_diff e) (told_range log v)
    else us_printed_runs (ev_presented_update v) = []"
  using evidence_inv_reachable [OF assms] unfolding evidence_inv_def tells_def by (elim conjE)

definition sample_update :: update_summary where
  "sample_update = update_summary_default\<lparr>us_printed_runs := [\<lparr>run_text = ''a'', run_boundary = BoundaryContinue\<rparr>], us_batch_count := 1\<rparr>"

definition sample_sizes :: evidence_sizes where
  "sample_sizes = \<lparr>sz_entry = 1, sz_run = 1, sz_range = 1\<rparr>"

definition sample_enabled :: evidence_view where
  "sample_enabled = evidence_view_new\<lparr>ev_live_epoch := \<lparr>ep_generation = 2, ep_start_revision = 0\<rparr>, ev_epoch_floor := 2,
     ev_presented_epoch := \<lparr>ep_generation = 2, ep_start_revision = 0\<rparr>\<rparr>"

definition sample_processed :: evidence_view where
  "sample_processed = sample_enabled\<lparr>ev_live_revision := 1, ev_journal :=
     [evidence_entry sample_sizes (normalized_accessibility_evidence sample_update) False (sample_enabled\<lparr>ev_live_revision := 1\<rparr>)],
     ev_journal_bytes := 3\<rparr>"

lemma sample_evidence:
  "us_printed_runs (normalized_accessibility_evidence sample_update) = [\<lparr>run_text = ''a'', run_boundary = BoundaryContinue\<rparr>]"
  "us_batch_count (normalized_accessibility_evidence sample_update) = 1"
  "accessibility_evidence_retained_bytes sample_sizes (normalized_accessibility_evidence sample_update) = 3"
  by (simp_all add: normalized_accessibility_evidence_def sample_update_def update_summary_default_def accessibility_evidence_retained_bytes_def
      sample_sizes_def saturating_add_usize_def saturating_mul_usize_def usize_max_def)

lemma sample_process: "process_update sample_sizes False True sample_update False sample_enabled = Some sample_processed"
  by (simp add: process_update_def advance_revision_def append_accessibility_evidence_def sample_evidence sample_processed_def
      sample_enabled_def evidence_view_new_def u64_max_def ACCESSIBILITY_JOURNAL_MAX_BYTES_def ACCESSIBILITY_JOURNAL_MAX_ENTRIES_def
      journal_full_def saturating_add_usize_def usize_max_def Let_def)

definition sample_installed :: evidence_view where
  "sample_installed = install_frame_evidence (capture_live_evidence sample_processed) sample_processed"

definition sample_log :: "journal_entry list" where
  "sample_log = [evidence_entry sample_sizes (normalized_accessibility_evidence sample_update) False sample_processed]"

lemma sample_evidence_reachable:
  "evidence_reachable sample_sizes sample_log [capture_live_evidence sample_processed] sample_installed"
proof -
  have "enable_presentation_tracking sample_sizes False = Some sample_enabled"
    by (simp add: enable_presentation_tracking_def reset_accessibility_journal_for_handoff_def begin_accessibility_epoch_def
      evidence_view_new_def sample_enabled_def u64_max_def Let_def numeral_2_eq_2)
  from evidence_reachable.update [OF evidence_reachable.start [OF this] sample_process]
  have "evidence_reachable sample_sizes sample_log [] sample_processed" by (simp add: sample_log_def)
  then have "evidence_reachable sample_sizes sample_log [capture_live_evidence sample_processed] sample_processed"
    by (rule evidence_reachable.capture)
  then show ?thesis unfolding sample_installed_def by (rule evidence_reachable.install) simp
qed

lemma sample_fields:
  "ev_exact sample_installed" "\<not> ev_requires_snapshot_diff sample_installed" "ev_presented_revision sample_installed = 1"
  "ev_finalized_revision sample_installed = 0" "ev_presented_epoch sample_installed = \<lparr>ep_generation = 2, ep_start_revision = 0\<rparr>"
  by (simp_all add: sample_installed_def install_frame_evidence_def capture_live_evidence_def sample_processed_def sample_enabled_def
      evidence_view_new_def publish_accessibility_evidence_def enter_epoch_def require_range_def discarded_in_required_range_def
      publish_entries_fold publish_entry_fields evidence_entry_def Let_def)

theorem published_evidence_complete_witness:
  "ev_presented_update sample_installed = merge_all [normalized_accessibility_evidence sample_update] \<and>
   us_printed_runs (ev_presented_update sample_installed) = [\<lparr>run_text = ''a'', run_boundary = BoundaryContinue\<rparr>]"
proof -
  have "told_range sample_log sample_installed = sample_log"
    by (simp add: told_range_def sample_log_def sample_fields evidence_entry_def) (simp add: sample_processed_def sample_enabled_def)
  then have "ev_presented_update sample_installed = merge_all [normalized_accessibility_evidence sample_update]"
    using published_evidence_complete [OF sample_evidence_reachable] sample_fields(1,2) by (simp add: sample_log_def evidence_entry_def)
  then show ?thesis
    by (simp add: merge_all_def summary_merge_def sample_evidence Let_def append_printed_runs_def append_printed_run_def default_runs)
qed

text \<open>
  The evidence journal is bounded and its account is right: in every reachable state it holds at most 1024 entries of
  at most one MiB together, its byte counter is the sum of its entries, and it holds a part of the evidence in order of revision.
\<close>

theorem evidence_journal_bounded:
  assumes "evidence_reachable sz log fs v"
  shows "length (ev_journal v) \<le> 1024 \<and> ev_journal_bytes v \<le> 1048576 \<and>
    ev_journal_bytes v = sum_list (map je_retained_bytes (ev_journal v)) \<and>
    set (ev_journal v) \<subseteq> set log \<and> sorted_wrt (<) (map je_revision (ev_journal v))"
proof -
  have inv: "shape_ok log fs v" "journal_ok log v" using evidence_inv_reachable [OF assms] by (simp_all add: evidence_inv_def)
  obtain K where K: "ev_journal v = filter (\<lambda>e. je_revision e \<in> K) log" using inv(2) by (auto simp: journal_ok_def)
  have "set (ev_journal v) \<subseteq> set log" "sorted_wrt (<) (map je_revision (ev_journal v))"
    unfolding K using inv(1) by (simp_all add: shape_ok_def sorted_wrt_map sorted_wrt_filter)
  then show ?thesis
    using inv(2) by (simp add: journal_ok_def ACCESSIBILITY_JOURNAL_MAX_ENTRIES_def ACCESSIBILITY_JOURNAL_MAX_BYTES_def)
qed

theorem evidence_journal_bounded_witness:
  "length (ev_journal sample_installed) \<le> 1024 \<and> ev_journal_bytes sample_installed \<le> 1048576"
  using evidence_journal_bounded [OF sample_evidence_reachable] by simp

end
