(* ===== verification/Auto_Read.thy ===== *)
theory Auto_Read
  imports Terminal_Snapshot Utf8_Text "HOL-Library.Sublist"
begin

text \<open>
  The functions behind automatic reading (\<^verbatim>\<open>src/screen_reader/auto_read.rs\<close>) that do not touch a live view: the classification of
  a diff, the fields that a change inserted and the words that a field replaced, the compact change of an
  interface, and the logical line of the cursor. The alphanumeric characters are the parameter \<open>alnum\<close>;
  a slice out of range is None. The theory shows that the spoken fields come from a smallest difference.
\<close>

section \<open>Diff states\<close>

datatype change_tag = TagEqual | TagDelete | TagInsert

datatype diff_state = NoChanges | OneDeletion | SingleChange | MultiChange

fun next_line_diff_state :: "diff_state \<Rightarrow> change_tag \<Rightarrow> diff_state" where
  "next_line_diff_state NoChanges TagDelete = OneDeletion"
| "next_line_diff_state NoChanges TagEqual = NoChanges"
| "next_line_diff_state NoChanges TagInsert = MultiChange"
| "next_line_diff_state OneDeletion TagDelete = MultiChange"
| "next_line_diff_state OneDeletion TagEqual = OneDeletion"
| "next_line_diff_state OneDeletion TagInsert = SingleChange"
| "next_line_diff_state SingleChange tag = (if tag = TagEqual then SingleChange else MultiChange)"
| "next_line_diff_state MultiChange tag = MultiChange"

fun next_grapheme_diff_state :: "diff_state \<Rightarrow> change_tag option \<Rightarrow> change_tag \<Rightarrow> diff_state" where
  "next_grapheme_diff_state NoChanges previous TagDelete = OneDeletion"
| "next_grapheme_diff_state NoChanges previous TagEqual = NoChanges"
| "next_grapheme_diff_state NoChanges previous TagInsert = SingleChange"
| "next_grapheme_diff_state OneDeletion previous TagDelete = (if previous = Some TagDelete then OneDeletion else MultiChange)"
| "next_grapheme_diff_state OneDeletion previous TagEqual = OneDeletion"
| "next_grapheme_diff_state OneDeletion previous TagInsert = (if previous = Some TagDelete then SingleChange else MultiChange)"
| "next_grapheme_diff_state SingleChange previous TagEqual = SingleChange"
| "next_grapheme_diff_state SingleChange previous TagInsert =
     (if previous = Some TagInsert \<or> previous = Some TagDelete then SingleChange else MultiChange)"
| "next_grapheme_diff_state SingleChange previous TagDelete = MultiChange"
| "next_grapheme_diff_state MultiChange previous tag = MultiChange"

text \<open>The loops of \<^verbatim>\<open>auto_read_impl\<close> over all changes\<close>

definition line_diff_state :: "change_tag list \<Rightarrow> diff_state" where
  "line_diff_state tags = foldl next_line_diff_state NoChanges tags"

definition grapheme_diff_state :: "change_tag list \<Rightarrow> diff_state" where
  "grapheme_diff_state tags =
     fst (foldl (\<lambda>(state, previous) tag. (next_grapheme_diff_state state previous tag, Some tag)) (NoChanges, None) tags)"

section \<open>The replacement of a field\<close>

definition is_word_char :: "(bytes \<Rightarrow> bool) \<Rightarrow> bytes \<Rightarrow> bool" where
  "is_word_char alnum ch \<longleftrightarrow> alnum ch \<or> ch = ''_''"

fun common_len :: "'a list \<Rightarrow> 'a list \<Rightarrow> nat" where
  "common_len (x # xs) (y # ys) = (if x \<noteq> y then 0 else Suc (common_len xs ys))"
| "common_len _ _ = 0"

fun widen_start :: "('a \<Rightarrow> bool) \<Rightarrow> 'a list \<Rightarrow> nat \<Rightarrow> nat" where
  "widen_start word chars 0 = 0"
| "widen_start word chars (Suc start) = (if word (chars ! start) then widen_start word chars start else Suc start)"

text \<open>Over the characters from the end on\<close>

fun widen_end :: "('a \<Rightarrow> bool) \<Rightarrow> 'a list \<Rightarrow> nat \<Rightarrow> nat" where
  "widen_end word [] stop = stop"
| "widen_end word (c # cs) stop = (if word c then widen_end word cs (Suc stop) else stop)"

text \<open>Positions are counted in characters; a slice out of range is a panic: None.\<close>

definition slice_chars :: "bytes list \<Rightarrow> nat \<Rightarrow> nat \<Rightarrow> bytes option" where
  "slice_chars chars start stop = (if start \<le> stop \<and> stop \<le> length chars then Some (concat (take (stop - start) (drop start chars))) else None)"

definition field_replacement :: "(bytes \<Rightarrow> bool) \<Rightarrow> bytes \<Rightarrow> bytes \<Rightarrow> bytes option" where
  "field_replacement alnum old_field new_field =
     (let olds = utf8_chars old_field; news = utf8_chars new_field;
          prefix_len = common_len olds news;
          suffix_len = common_len (rev (drop prefix_len olds)) (rev (drop prefix_len news));
          start = widen_start (is_word_char alnum) news prefix_len;
          stop = length news - suffix_len;
          stop = widen_end (is_word_char alnum) (drop stop news) stop
      in slice_chars news start stop)"

section \<open>Inserted fields\<close>

text \<open>\<^verbatim>\<open>str::split_whitespace\<close>\<close>

fun split_whitespace_chars :: "bytes list \<Rightarrow> bytes \<Rightarrow> bytes list" where
  "split_whitespace_chars [] field = (if field = [] then [] else [field])"
| "split_whitespace_chars (c # cs) field =
     (if char_is_whitespace c
      then (if field = [] then split_whitespace_chars cs [] else field # split_whitespace_chars cs [])
      else split_whitespace_chars cs (field @ c))"

definition split_whitespace :: "bytes \<Rightarrow> bytes list" where
  "split_whitespace s = split_whitespace_chars (utf8_chars s) []"

text \<open>The table of the lengths of longest common subsequences, filled from its last row and column\<close>

definition lcs_cell :: "bytes list \<Rightarrow> bytes list \<Rightarrow> nat \<Rightarrow> nat \<Rightarrow> nat list \<Rightarrow> nat list" where
  "lcs_cell olds news i j lcs =
     (let m = length news + 1 in
      lcs[i * m + j := if olds ! i = news ! j then lcs ! ((i + 1) * m + j + 1) + 1
                       else max (lcs ! ((i + 1) * m + j)) (lcs ! (i * m + j + 1))])"

fun lcs_row :: "bytes list \<Rightarrow> bytes list \<Rightarrow> nat \<Rightarrow> nat \<Rightarrow> nat list \<Rightarrow> nat list" where
  "lcs_row olds news i 0 lcs = lcs"
| "lcs_row olds news i (Suc j) lcs = lcs_row olds news i j (lcs_cell olds news i j lcs)"

fun lcs_rows :: "bytes list \<Rightarrow> bytes list \<Rightarrow> nat \<Rightarrow> nat list \<Rightarrow> nat list" where
  "lcs_rows olds news 0 lcs = lcs"
| "lcs_rows olds news (Suc i) lcs = lcs_rows olds news i (lcs_row olds news i (length news) lcs)"

definition lcs_table :: "bytes list \<Rightarrow> bytes list \<Rightarrow> nat list" where
  "lcs_table olds news = lcs_rows olds news (length olds) (replicate ((length olds + 1) * (length news + 1)) 0)"

record hunk_output =
  ho_out :: bytes
  ho_last :: bytes
  ho_spoke :: bool

definition append_inserted_field :: "bytes \<Rightarrow> bytes \<Rightarrow> bytes" where
  "append_inserted_field field out = (if field = [] then out else (if out = [] then out else out @ '' '') @ field)"

fun replacement_hunk :: "(bytes \<Rightarrow> bool) \<Rightarrow> (bytes \<times> bytes) list \<Rightarrow> bytes \<Rightarrow> bytes option" where
  "replacement_hunk alnum [] hunk = Some hunk"
| "replacement_hunk alnum ((old, new) # pairs) hunk =
     Option.bind (field_replacement alnum old new) (\<lambda>r. replacement_hunk alnum pairs (append_inserted_field r hunk))"

definition flush_inserted_field_hunk :: "(bytes \<Rightarrow> bool) \<Rightarrow> bytes list \<Rightarrow> bytes list \<Rightarrow> hunk_output \<Rightarrow> hunk_output option" where
  "flush_inserted_field_hunk alnum deleted inserted ho =
     (if inserted = [] then Some ho
      else map_option (\<lambda>hunk.
          if hunk = [] \<or> hunk = ho_last ho then ho
          else \<lparr>ho_out = (if ho_spoke ho then ho_out ho @ '' '' else ho_out ho) @ hunk, ho_last = hunk, ho_spoke = True\<rparr>)
        (if length deleted = length inserted then replacement_hunk alnum (zip deleted inserted) []
         else Some (foldl (\<lambda>hunk field. append_inserted_field field hunk) [] inserted)))"

text \<open>The walk through the table, over the fields that are left\<close>

fun walk_fields ::
  "(bytes \<Rightarrow> bool) \<Rightarrow> nat list \<Rightarrow> nat \<Rightarrow> nat \<Rightarrow> nat \<Rightarrow> bytes list \<Rightarrow> bytes list \<Rightarrow> bytes list \<Rightarrow> bytes list \<Rightarrow> hunk_output \<Rightarrow> hunk_output option" where
  "walk_fields alnum lcs m i j [] [] deleted inserted ho = flush_inserted_field_hunk alnum deleted inserted ho"
| "walk_fields alnum lcs m i j [] (w # ws) deleted inserted ho =
     walk_fields alnum lcs m i (Suc j) [] ws deleted (inserted @ [w]) ho"
| "walk_fields alnum lcs m i j (v # vs) [] deleted inserted ho =
     walk_fields alnum lcs m (Suc i) j vs [] (deleted @ [v]) inserted ho"
| "walk_fields alnum lcs m i j (v # vs) (w # ws) deleted inserted ho =
     (if v = w
      then Option.bind (flush_inserted_field_hunk alnum deleted inserted ho) (walk_fields alnum lcs m (Suc i) (Suc j) vs ws [] [])
      else if lcs ! ((i + 1) * m + j) \<le> lcs ! (i * m + j + 1)
      then walk_fields alnum lcs m i (Suc j) (v # vs) ws deleted (inserted @ [w]) ho
      else walk_fields alnum lcs m (Suc i) j vs (w # ws) (deleted @ [v]) inserted ho)"

definition collect_inserted_fields :: "(bytes \<Rightarrow> bool) \<Rightarrow> bytes \<Rightarrow> bytes \<Rightarrow> bytes \<Rightarrow> (bool \<times> bytes) option" where
  "collect_inserted_fields alnum old_text new_text out =
     (let olds = split_whitespace old_text; news = split_whitespace new_text in
      if news = [] then Some (False, out)
      else map_option (\<lambda>ho. (ho_spoke ho, ho_out ho))
        (walk_fields alnum (lcs_table olds news) (length news + 1) 0 0 olds news [] [] \<lparr>ho_out = out, ho_last = [], ho_spoke = False\<rparr>))"

section \<open>Compact changes of an interface\<close>

definition MAX_COMPACT_INTERFACE_STATE_CHARS :: nat where "MAX_COMPACT_INTERFACE_STATE_CHARS = 32"

definition split_terminator_lf :: "bytes \<Rightarrow> bytes list" where
  "split_terminator_lf s = (let ls = split_on (CHR 0x0A) s in if last ls = [] then butlast ls else ls)"

fun compact_loop :: "(bytes \<Rightarrow> bool) \<Rightarrow> nat \<Rightarrow> nat \<Rightarrow> nat \<Rightarrow> (bytes \<times> bytes) list \<Rightarrow> bytes \<Rightarrow> bytes option" where
  "compact_loop alnum old_cursor_row new_cursor_row r [] out = Some out"
| "compact_loop alnum old_cursor_row new_cursor_row r ((old_row, new_row) # rows) out =
     (if old_row = new_row \<or> r = old_cursor_row \<or> r = new_cursor_row then compact_loop alnum old_cursor_row new_cursor_row (Suc r) rows out
      else case collect_inserted_fields alnum old_row new_row [] of
        None \<Rightarrow> None
      | Some (found, candidate) \<Rightarrow>
          let compact = str_trim candidate; compact_chars = length (utf8_chars compact) in
          compact_loop alnum old_cursor_row new_cursor_row (Suc r) rows
            (if \<not> found \<or> compact_chars = 0 \<or> MAX_COMPACT_INTERFACE_STATE_CHARS < compact_chars then out
             else if out = [] \<or> compact_chars < length (utf8_chars out) then compact else out))"

definition collect_compact_interface_state_change :: "(bytes \<Rightarrow> bool) \<Rightarrow> bytes \<Rightarrow> bytes \<Rightarrow> nat \<Rightarrow> nat \<Rightarrow> (bool \<times> bytes) option" where
  "collect_compact_interface_state_change alnum old_text new_text old_cursor_row new_cursor_row =
     map_option (\<lambda>out. (out \<noteq> [], out))
       (compact_loop alnum old_cursor_row new_cursor_row 0 (zip (split_terminator_lf old_text) (split_terminator_lf new_text)) [])"

section \<open>The logical line of the cursor\<close>

definition row_at :: "terminal_snapshot \<Rightarrow> nat \<Rightarrow> row" where
  "row_at s i = (if i < length (ts_scrollback s) then ts_scrollback s ! i else ts_rows s ! (i - length (ts_scrollback s)))"

text \<open>None: the line is longer than the report could be.\<close>

fun logical_line_start :: "terminal_snapshot \<Rightarrow> nat \<Rightarrow> nat \<Rightarrow> nat \<Rightarrow> nat option" where
  "logical_line_start s maximum_rows 0 rows = Some 0"
| "logical_line_start s maximum_rows (Suc start) rows =
     (if row_wrapped (row_at s start)
      then if maximum_rows \<le> rows then None else logical_line_start s maximum_rows start (saturating_add_usize rows 1)
      else Some (Suc start))"

definition cursor_logical_line_matches :: "terminal_snapshot \<Rightarrow> bytes \<Rightarrow> bool" where
  "cursor_logical_line_matches s report =
     (let cursor_row = cur_row (ts_cursor s) in
      if length (ts_rows s) \<le> cursor_row then False
      else let cursor_index = length (ts_scrollback s) + cursor_row;
               columns = max (snd (snapshot_size s)) 1;
               maximum_rows = saturating_add_usize ((length report + columns - 1) div columns) 2
           in case logical_line_start s maximum_rows cursor_index 1 of
                None \<Rightarrow> False
              | Some start \<Rightarrow> str_trim (foldl (\<lambda>line i. append_contents_to (row_at s i) line) [] [start..<Suc cursor_index]) = report)"

section \<open>What the diff states say\<close>

lemma line_multi: "foldl next_line_diff_state MultiChange tags = MultiChange"
  by (induction tags) simp_all

lemma line_single: "foldl next_line_diff_state SingleChange tags = (if filter (\<lambda>t. t \<noteq> TagEqual) tags = [] then SingleChange else MultiChange)"
  by (induction tags) (auto simp: line_multi)

lemma line_one: "foldl next_line_diff_state OneDeletion tags = (case filter (\<lambda>t. t \<noteq> TagEqual) tags of
    [] \<Rightarrow> OneDeletion | t # ts \<Rightarrow> if t = TagInsert \<and> ts = [] then SingleChange else MultiChange)"
proof (induction tags)
  case (Cons t tags)
  then show ?case by (cases t) (simp_all add: line_multi line_single)
qed simp

lemma line_none: "foldl next_line_diff_state NoChanges tags = (case filter (\<lambda>t. t \<noteq> TagEqual) tags of
    [] \<Rightarrow> NoChanges | t # ts \<Rightarrow> if t \<noteq> TagDelete then MultiChange else
      (case ts of [] \<Rightarrow> OneDeletion | t # ts \<Rightarrow> if t = TagInsert \<and> ts = [] then SingleChange else MultiChange))"
proof (induction tags)
  case (Cons t tags)
  then show ?case by (cases t) (simp_all add: line_multi line_one)
qed simp

text \<open>A single change is one deleted line and then one inserted line, with any unchanged lines between.\<close>

theorem line_diff_single:
  "line_diff_state tags = SingleChange \<longleftrightarrow> filter (\<lambda>t. t \<noteq> TagEqual) tags = [TagDelete, TagInsert]"
  "line_diff_state tags = NoChanges \<longleftrightarrow> filter (\<lambda>t. t \<noteq> TagEqual) tags = []"
  by (auto simp: line_diff_state_def line_none split: list.splits)

section \<open>The replacement of a field\<close>

lemma common_len_take:
  "common_len xs ys \<le> length xs \<and> common_len xs ys \<le> length ys \<and> take (common_len xs ys) xs = take (common_len xs ys) ys \<and>
   (drop (common_len xs ys) xs = [] \<or> drop (common_len xs ys) ys = [] \<or> hd (drop (common_len xs ys) xs) \<noteq> hd (drop (common_len xs ys) ys))"
  by (induction xs ys rule: common_len.induct) auto

lemma common_prefix:
  obtains p x y where "xs = p @ x" "ys = p @ y" "length p = common_len xs ys" "x = [] \<or> y = [] \<or> hd x \<noteq> hd y"
  using common_len_take [of xs ys] that [of "take (common_len xs ys) xs" "drop (common_len xs ys) xs" "drop (common_len xs ys) ys"]
  by (metis append_take_drop_id length_take min_absorb2)

lemma common_suffix:
  obtains s x y where "xs = x @ s" "ys = y @ s" "length s = common_len (rev xs) (rev ys)" "x = [] \<or> y = [] \<or> last x \<noteq> last y"
proof -
  obtain p x y where p: "rev xs = p @ x" "rev ys = p @ y" "length p = common_len (rev xs) (rev ys)" "x = [] \<or> y = [] \<or> hd x \<noteq> hd y"
    by (rule common_prefix)
  have "xs = rev x @ rev p" "ys = rev y @ rev p" using p(1,2) by (metis rev_append rev_rev_ident)+
  moreover have "rev x = [] \<or> rev y = [] \<or> last (rev x) \<noteq> last (rev y)" using p(4) by (simp add: last_rev)
  ultimately show thesis using that [of "rev x" "rev p" "rev y"] p(3) by simp
qed

lemma widen_start_word:
  "widen_start P (p @ r) (length p) \<le> length p \<and> list_all P (drop (widen_start P (p @ r) (length p)) p) \<and>
   (widen_start P (p @ r) (length p) = 0 \<or> \<not> P (p ! (widen_start P (p @ r) (length p) - 1)))"
proof (induction p arbitrary: r rule: rev_induct)
  case (snoc a p)
  show ?case
  proof (cases "P a")
    case True
    then have w: "widen_start P ((p @ [a]) @ r) (length (p @ [a])) = widen_start P (p @ (a # r)) (length p)"
      by (simp add: nth_append)
    define k where "k = widen_start P (p @ (a # r)) (length p)"
    have k: "k \<le> length p" "list_all P (drop k p)" "k = 0 \<or> \<not> P (p ! (k - 1))"
      using snoc.IH [of "a # r"] by (simp_all add: k_def)
    show ?thesis unfolding w k_def [symmetric] using k True by (auto simp: nth_append)
  qed (simp add: nth_append)
qed simp

lemma widen_start_split:
  obtains q w where "p = q @ w" "length q = widen_start P (p @ r) (length p)" "list_all P w" "q = [] \<or> \<not> P (last q)"
proof -
  define k where "k = widen_start P (p @ r) (length p)"
  have k: "k \<le> length p" "list_all P (drop k p)" "k = 0 \<or> \<not> P (p ! (k - 1))"
    using widen_start_word [of P p r] by (simp_all add: k_def)
  have "take k p = [] \<or> \<not> P (last (take k p))" using k by (cases "k = 0") (auto simp: last_conv_nth)
  then show thesis using that [of "take k p" "drop k p"] k by (simp add: k_def min_absorb2)
qed

lemma widen_end_word:
  "widen_end P cs n = n + length (takeWhile P cs)"
  by (induction P cs n rule: widen_end.induct) simp_all

lemma widen_end_split:
  obtains w q where "s = w @ q" "widen_end P s n = n + length w" "list_all P w" "q = [] \<or> \<not> P (hd q)"
proof
  show "s = takeWhile P s @ dropWhile P s" by simp
  show "widen_end P s n = n + length (takeWhile P s)" by (rule widen_end_word)
  show "list_all P (takeWhile P s)" by (induction s) simp_all
  show "dropWhile P s = [] \<or> \<not> P (hd (dropWhile P s))" using hd_dropWhile by blast
qed

lemma field_replacement_split:
  obtains pre w1 x y w2 post where
    "utf8_chars old = pre @ w1 @ x @ w2 @ post" "utf8_chars new = pre @ w1 @ y @ w2 @ post"
    "field_replacement alnum old new = Some (concat (w1 @ y @ w2))"
    "x = [] \<or> y = [] \<or> hd x \<noteq> hd y \<and> last x \<noteq> last y"
    "list_all (is_word_char alnum) w1" "list_all (is_word_char alnum) w2"
    "pre = [] \<or> \<not> is_word_char alnum (last pre)" "post = [] \<or> \<not> is_word_char alnum (hd post)"
proof -
  define W where "W = is_word_char alnum"
  obtain p x0 y0 where p: "utf8_chars old = p @ x0" "utf8_chars new = p @ y0" "length p = common_len (utf8_chars old) (utf8_chars new)"
      "x0 = [] \<or> y0 = [] \<or> hd x0 \<noteq> hd y0" by (rule common_prefix)
  obtain s x y where s: "x0 = x @ s" "y0 = y @ s" "length s = common_len (rev x0) (rev y0)" "x = [] \<or> y = [] \<or> last x \<noteq> last y"
    by (rule common_suffix)
  obtain pre w1 where w1: "p = pre @ w1" "length pre = widen_start W (p @ y0) (length p)" "list_all W w1" "pre = [] \<or> \<not> W (last pre)"
    by (rule widen_start_split)
  obtain w2 post where w2: "s = w2 @ post" "widen_end W s (length (p @ y)) = length (p @ y) + length w2" "list_all W w2"
      "post = [] \<or> \<not> W (hd post)" by (rule widen_end_split)
  have drops: "drop (length p) (utf8_chars old) = x0" "drop (length p) (utf8_chars new) = y0"
    by (simp_all add: p(1,2))
  have stop: "length (utf8_chars new) - length s = length (p @ y)" by (simp add: p(2) s(2))
  have "drop (length (p @ y)) (utf8_chars new) = s" by (simp add: p(2) s(2))
  then have "field_replacement alnum old new = slice_chars (utf8_chars new) (length pre) (length (p @ y) + length w2)"
    unfolding field_replacement_def Let_def W_def [symmetric] p(3) [symmetric] drops s(3) [symmetric] stop
    using w1(2) w2(2) p(2) by simp
  also have "\<dots> = Some (concat (w1 @ y @ w2))"
    by (simp add: slice_chars_def p(2) s(2) w1(1) w2(1))
  finally have r: "field_replacement alnum old new = Some (concat (w1 @ y @ w2))" .
  have "x = [] \<or> y = [] \<or> hd x \<noteq> hd y \<and> last x \<noteq> last y" using p(4) s(1,2,4) by auto
  then show thesis
    using that [of pre w1 x w2 post y] p(1,2) s(1,2) w1 w2 r by (simp add: W_def)
qed

text \<open>
  C40: The announced part of a replaced field is exactly what changed, widened to whole words: for all
  fields, the computation returns (no slice is out of range or reversed); the two fields agree before and after the announced part,
  and it consists of a changed core, which shares neither its first nor its last character with the replaced
  core, and of word characters next to it up to the boundary of a word.
\<close>

theorem field_replacement_exact:
  "\<exists>pre w1 x y w2 post. utf8_chars old = pre @ w1 @ x @ w2 @ post \<and> utf8_chars new = pre @ w1 @ y @ w2 @ post \<and>
    field_replacement alnum old new = Some (concat (w1 @ y @ w2)) \<and>
    (x \<noteq> [] \<and> y \<noteq> [] \<longrightarrow> hd x \<noteq> hd y \<and> last x \<noteq> last y) \<and>
    list_all (is_word_char alnum) (w1 @ w2) \<and>
    (pre \<noteq> [] \<longrightarrow> \<not> is_word_char alnum (last pre)) \<and> (post \<noteq> [] \<longrightarrow> \<not> is_word_char alnum (hd post))"
proof -
  obtain pre w1 x y w2 post where f:
    "utf8_chars old = pre @ w1 @ x @ w2 @ post" "utf8_chars new = pre @ w1 @ y @ w2 @ post"
    "field_replacement alnum old new = Some (concat (w1 @ y @ w2))"
    "x = [] \<or> y = [] \<or> hd x \<noteq> hd y \<and> last x \<noteq> last y"
    "list_all (is_word_char alnum) w1" "list_all (is_word_char alnum) w2"
    "pre = [] \<or> \<not> is_word_char alnum (last pre)" "post = [] \<or> \<not> is_word_char alnum (hd post)"
    by (rule field_replacement_split)
  have core: "x \<noteq> [] \<and> y \<noteq> [] \<longrightarrow> hd x \<noteq> hd y \<and> last x \<noteq> last y" using f(4) by blast
  have words: "list_all (is_word_char alnum) (w1 @ w2)" using f(5,6) by simp
  have bounds: "pre \<noteq> [] \<longrightarrow> \<not> is_word_char alnum (last pre)" "post \<noteq> [] \<longrightarrow> \<not> is_word_char alnum (hd post)" using f(7,8) by blast+
  show ?thesis by (intro exI conjI) (rule f(1) f(2) f(3) core words bounds)+
qed

section \<open>The table\<close>

fun lcs_len :: "'a list \<Rightarrow> 'a list \<Rightarrow> nat" where
  "lcs_len [] ys = 0"
| "lcs_len xs [] = 0"
| "lcs_len (x # xs) (y # ys) = (if x = y then Suc (lcs_len xs ys) else max (lcs_len xs (y # ys)) (lcs_len (x # xs) ys))"

lemma lcs_len_Nil [simp]: "lcs_len xs [] = 0"
  by (cases xs) simp_all

lemma lcs_len_upper: "subseq zs xs \<Longrightarrow> subseq zs ys \<Longrightarrow> length zs \<le> lcs_len xs ys"
proof (induction xs ys arbitrary: zs rule: lcs_len.induct)
  case (3 x xs y ys)
  show ?case
  proof (cases "x = y")
    case True
    show ?thesis
    proof (cases zs)
      case (Cons z zs')
      have "subseq zs' xs" "subseq zs' ys"
        using "3.prems" Cons subseq_Cons' by (fastforce split: if_splits)+
      then show ?thesis using "3.IH"(1) [OF True] True Cons by simp
    qed simp
  next
    case False
    have "subseq zs xs \<and> subseq zs (y # ys) \<or> subseq zs (x # xs) \<and> subseq zs ys"
    proof (cases zs)
      case (Cons z zs')
      then show ?thesis using "3.prems" False by (cases "z = x") auto
    qed simp
    then show ?thesis using "3.IH"(2,3) [OF False] False by (auto simp: le_max_iff_disj)
  qed
qed (auto dest: list_emb_length)

lemma index_unique:
  assumes "i * Suc m + j = i' * Suc m + j'" "j \<le> m" "j' \<le> m"
  shows "i = i' \<and> j = j'"
proof -
  have "(j + i * Suc m) div Suc m = i" "(j' + i' * Suc m) div Suc m = i'"
    using assms(2,3) by (simp_all only: div_mult_self1) simp_all
  moreover have "j + i * Suc m = j' + i' * Suc m" using assms(1) by (simp only: add.commute)
  ultimately have "i = i'" by metis
  then show ?thesis using assms(1) by simp
qed

text \<open>Correct from row \<open>i\<close> and column \<open>j\<close> on, and in the last column\<close>

definition lcs_correct_from :: "bytes list \<Rightarrow> bytes list \<Rightarrow> nat \<Rightarrow> nat \<Rightarrow> nat list \<Rightarrow> bool" where
  "lcs_correct_from olds news i j lcs \<longleftrightarrow> length lcs = (length olds + 1) * (length news + 1) \<and>
     (\<forall>i' \<le> length olds. \<forall>j' \<le> length news. i < i' \<or> i = i' \<and> j \<le> j' \<or> j' = length news \<longrightarrow>
        lcs ! (i' * (length news + 1) + j') = lcs_len (drop i' olds) (drop j' news))"

lemma lcs_lookup:
  "lcs_correct_from olds news i j lcs \<Longrightarrow> i' \<le> length olds \<Longrightarrow> j' \<le> length news \<Longrightarrow>
   i < i' \<or> i = i' \<and> j \<le> j' \<or> j' = length news \<Longrightarrow>
   lcs ! (i' * (length news + 1) + j') = lcs_len (drop i' olds) (drop j' news)"
  unfolding lcs_correct_from_def by blast

lemma lcs_index: "i \<le> n \<Longrightarrow> j \<le> m \<Longrightarrow> i * (m + 1) + j < (n + 1) * (m + (1::nat))"
proof -
  assume "i \<le> n" "j \<le> m"
  have "i * (m + 1) \<le> n * (m + 1)" by (rule mult_le_mono1 [OF \<open>i \<le> n\<close>])
  moreover have "j < m + 1" using \<open>j \<le> m\<close> by simp
  ultimately have "i * (m + 1) + j < n * (m + 1) + (m + 1)" by (rule add_le_less_mono)
  then show ?thesis by (simp only: add_mult_distrib mult_1)
qed

lemma lcs_cell_correct:
  assumes c: "lcs_correct_from olds news i (Suc j) lcs" and i: "i < length olds" and j: "j < length news"
  shows "lcs_correct_from olds news i j (lcs_cell olds news i j lcs)"
proof -
  define m where "m = length news"
  define new where "new = (if olds ! i = news ! j then lcs ! ((i + 1) * (m + 1) + j + 1) + 1
                       else max (lcs ! ((i + 1) * (m + 1) + j)) (lcs ! (i * (m + 1) + j + 1)))"
  have len: "length lcs = (length olds + 1) * (m + 1)" using c by (simp add: lcs_correct_from_def m_def)
  have cell: "lcs_cell olds news i j lcs = lcs[i * (m + 1) + j := new]"
    unfolding lcs_cell_def Let_def new_def m_def by simp
  have at: "lcs ! ((i + 1) * (m + 1) + (j + 1)) = lcs_len (drop (Suc i) olds) (drop (Suc j) news)"
    "lcs ! ((i + 1) * (m + 1) + j) = lcs_len (drop (Suc i) olds) (drop j news)"
    "lcs ! (i * (m + 1) + (j + 1)) = lcs_len (drop i olds) (drop (Suc j) news)"
    using lcs_lookup [OF c, of "i + 1" "j + 1"] lcs_lookup [OF c, of "i + 1" j] lcs_lookup [OF c, of i "j + 1"] i j
    unfolding m_def by (simp_all only: Suc_eq_plus1) simp_all
  have split: "drop i olds = olds ! i # drop (Suc i) olds" "drop j news = news ! j # drop (Suc j) news"
    using i j by (simp_all only: Cons_nth_drop_Suc)
  have new: "new = lcs_len (drop i olds) (drop j news)"
    unfolding new_def using at unfolding split by (simp add: add.assoc)
  have "(lcs[i * (m + 1) + j := new]) ! (i' * (m + 1) + j') = lcs_len (drop i' olds) (drop j' news)"
    if "i' \<le> length olds" "j' \<le> m" "i < i' \<or> i = i' \<and> j \<le> j' \<or> j' = m" for i' j'
  proof (cases "i' = i \<and> j' = j")
    case True
    then show ?thesis using new lcs_index [OF that(1,2)] len by simp
  next
    case False
    then have "i * (m + 1) + j \<noteq> i' * (m + 1) + j'"
      using index_unique [of i m j i' j'] that(2) j by (auto simp: m_def)
    then have "(lcs[i * (m + 1) + j := new]) ! (i' * (m + 1) + j') = lcs ! (i' * (m + 1) + j')" by (rule nth_list_update_neq)
    also have "\<dots> = lcs_len (drop i' olds) (drop j' news)"
      unfolding m_def by (rule lcs_lookup [OF c]) (use that False in \<open>auto simp: m_def\<close>)
    finally show ?thesis .
  qed
  then show ?thesis using len unfolding lcs_correct_from_def cell by (simp add: m_def)
qed

lemma lcs_row_correct:
  "lcs_correct_from olds news i j lcs \<Longrightarrow> i < length olds \<Longrightarrow> j \<le> length news \<Longrightarrow>
   lcs_correct_from olds news i 0 (lcs_row olds news i j lcs)"
  by (induction j arbitrary: lcs) (simp_all add: lcs_cell_correct)

lemma lcs_rows_correct:
  "lcs_correct_from olds news i 0 lcs \<Longrightarrow> i \<le> length olds \<Longrightarrow> lcs_correct_from olds news 0 0 (lcs_rows olds news i lcs)"
proof (induction i arbitrary: lcs)
  case (Suc i)
  have "lcs_correct_from olds news i (length news) lcs"
  proof -
    have "lcs ! (i' * (length news + 1) + j') = lcs_len (drop i' olds) (drop j' news)"
      if "i' \<le> length olds" "j' \<le> length news" "i < i' \<or> i = i' \<and> length news \<le> j' \<or> j' = length news" for i' j'
      by (rule lcs_lookup [OF Suc.prems(1) that(1,2)]) (use that in auto)
    moreover have "length lcs = (length olds + 1) * (length news + 1)"
      using Suc.prems(1) unfolding lcs_correct_from_def by blast
    ultimately show ?thesis unfolding lcs_correct_from_def by blast
  qed
  then have "lcs_correct_from olds news i 0 (lcs_row olds news i (length news) lcs)"
    using Suc.prems(2) by (intro lcs_row_correct) simp_all
  then show ?case using Suc by simp
qed simp

lemma lcs_table_correct: "lcs_correct_from olds news 0 0 (lcs_table olds news)"
  unfolding lcs_table_def
proof (rule lcs_rows_correct)
  have "replicate ((length olds + 1) * (length news + 1)) 0 ! (i * (length news + 1) + j) = lcs_len (drop i olds) (drop j news)"
    if "i \<le> length olds" "j \<le> length news" "length olds < i \<or> length olds = i \<and> 0 \<le> j \<or> j = length news" for i j
    using lcs_index [OF that(1,2)] that by (subst nth_replicate) auto
  then show "lcs_correct_from olds news (length olds) 0 (replicate ((length olds + 1) * (length news + 1)) 0)"
    unfolding lcs_correct_from_def by simp
qed simp

section \<open>The walk finds a smallest difference\<close>

fun weave :: "'a list list \<Rightarrow> 'a list \<Rightarrow> 'a list" where
  "weave (h # hs) (k # ks) = h @ k # weave hs ks"
| "weave (h # hs) [] = h"
| "weave [] ks = []"

fun flush_hunks :: "(bytes \<Rightarrow> bool) \<Rightarrow> (bytes list \<times> bytes list) list \<Rightarrow> hunk_output \<Rightarrow> hunk_output option" where
  "flush_hunks alnum [] ho = Some ho"
| "flush_hunks alnum ((deleted, inserted) # hs) ho =
     Option.bind (flush_inserted_field_hunk alnum deleted inserted ho) (flush_hunks alnum hs)"

lemma replacement_hunk_total: "replacement_hunk alnum pairs hunk \<noteq> None"
proof (induction alnum pairs hunk rule: replacement_hunk.induct)
  case (2 alnum old new pairs hunk)
  obtain r where "field_replacement alnum old new = Some r" using field_replacement_split by metis
  then show ?case using 2 by simp
qed simp

lemma flush_total: "\<exists>ho'. flush_inserted_field_hunk alnum deleted inserted ho = Some ho'"
  using replacement_hunk_total [of alnum "zip deleted inserted" "[]"] by (auto simp: flush_inserted_field_hunk_def)

lemma flush_hunks_total: "flush_hunks alnum hs ho \<noteq> None"
proof (induction hs arbitrary: ho)
  case (Cons h hs)
  then show ?case using flush_total [of alnum "fst h" "snd h" ho] by (cases h) auto
qed simp

definition hunks_of :: "bytes list \<Rightarrow> bytes list \<Rightarrow> (bytes list \<times> bytes list) list \<Rightarrow> bytes list \<Rightarrow> bool" where
  "hunks_of olds news hs ks \<longleftrightarrow> length hs = Suc (length ks) \<and> weave (map fst hs) ks = olds \<and> weave (map snd hs) ks = news"

lemma hunks_last: "hunks_of deleted inserted [(deleted, inserted)] []"
  by (simp add: hunks_of_def)

lemma hunks_kept: "hunks_of vs ws hs ks \<Longrightarrow> hunks_of (deleted @ k # vs) (inserted @ k # ws) ((deleted, inserted) # hs) (k # ks)"
  by (simp add: hunks_of_def)

lemma drop_step: "x # xs = drop i ys \<Longrightarrow> xs = drop (Suc i) ys \<and> Suc i \<le> length ys"
  by (metis Cons_nth_drop_Suc drop_all list.distinct(1) list.inject not_less_eq_eq not_le)

lemma walk_hunks:
  "lcs_correct_from olds news 0 0 lcs \<Longrightarrow> m = length news + 1 \<Longrightarrow> vs = drop i olds \<Longrightarrow> ws = drop j news \<Longrightarrow>
    i \<le> length olds \<Longrightarrow> j \<le> length news \<Longrightarrow>
    \<exists>hs ks. hunks_of (deleted @ vs) (inserted @ ws) hs ks \<and> length ks = lcs_len vs ws \<and>
      walk_fields alnum lcs m i j vs ws deleted inserted ho = flush_hunks alnum hs ho"
proof (induction alnum lcs m i j vs ws deleted inserted ho rule: walk_fields.induct)
  case (1 alnum lcs m i j deleted inserted ho)
  have "walk_fields alnum lcs m i j [] [] deleted inserted ho = flush_hunks alnum [(deleted, inserted)] ho"
    by (cases "flush_inserted_field_hunk alnum deleted inserted ho") simp_all
  then show ?case using hunks_last [of deleted inserted]
    by (intro exI [of _ "[(deleted, inserted)]"] exI [of _ "[]"]) simp
next
  case (2 alnum lcs m i j w ws deleted inserted ho)
  have "ws = drop (Suc j) news" "Suc j \<le> length news" using drop_step [OF "2.prems"(4)] by blast+
  from "2.IH" [OF "2.prems"(1,2,3) this(1) "2.prems"(5) this(2)] show ?case by simp
next
  case (3 alnum lcs m i j v vs deleted inserted ho)
  have "vs = drop (Suc i) olds" "Suc i \<le> length olds" using drop_step [OF "3.prems"(3)] by blast+
  from "3.IH" [OF "3.prems"(1,2) this(1) "3.prems"(4) this(2) "3.prems"(6)] show ?case by simp
next
  case (4 alnum lcs m i j v vs w ws deleted inserted ho)
  have v: "vs = drop (Suc i) olds" "Suc i \<le> length olds" using drop_step [OF "4.prems"(3)] by blast+
  have w: "ws = drop (Suc j) news" "Suc j \<le> length news" using drop_step [OF "4.prems"(4)] by blast+
  have at: "lcs ! ((i + 1) * m + j) = lcs_len vs (w # ws)" "lcs ! (i * m + j + 1) = lcs_len (v # vs) ws"
  proof -
    have "0 < Suc i \<or> 0 = Suc i \<and> 0 \<le> j \<or> j = length news" "0 < i \<or> 0 = i \<and> 0 \<le> Suc j \<or> Suc j = length news" by auto
    from lcs_lookup [OF "4.prems"(1) v(2) "4.prems"(6) this(1)] lcs_lookup [OF "4.prems"(1) "4.prems"(5) w(2) this(2)]
    show "lcs ! ((i + 1) * m + j) = lcs_len vs (w # ws)" "lcs ! (i * m + j + 1) = lcs_len (v # vs) ws"
      using v(1) w(1) "4.prems"(2,3,4) by simp_all
  qed
  show ?case
  proof (cases "v = w")
    case True
    obtain ho' where ho': "flush_inserted_field_hunk alnum deleted inserted ho = Some ho'" using flush_total by blast
    obtain hs ks where h: "hunks_of ([] @ vs) ([] @ ws) hs ks" "length ks = lcs_len vs ws"
        "walk_fields alnum lcs m (Suc i) (Suc j) vs ws [] [] ho' = flush_hunks alnum hs ho'"
      using "4.IH"(1) [OF True ho' "4.prems"(1,2) v(1) w(1) v(2) w(2)] by blast
    have "hunks_of (deleted @ v # vs) (inserted @ w # ws) ((deleted, inserted) # hs) (v # ks)"
      using hunks_kept h(1) True by simp
    moreover have "walk_fields alnum lcs m i j (v # vs) (w # ws) deleted inserted ho = flush_hunks alnum ((deleted, inserted) # hs) ho"
      using True ho' h(3) by simp
    ultimately show ?thesis using True h(2)
      by (intro exI [of _ "(deleted, inserted) # hs"] exI [of _ "v # ks"]) simp
  next
    case ne: False
    show ?thesis
    proof (cases "lcs ! ((i + 1) * m + j) \<le> lcs ! (i * m + j + 1)")
      case True
      then have "lcs_len (v # vs) (w # ws) = lcs_len (v # vs) ws" using ne at by simp
      then show ?thesis using "4.IH"(2) [OF ne True "4.prems"(1,2,3) w(1) "4.prems"(5) w(2)] ne True by simp
    next
      case False
      then have "lcs_len (v # vs) (w # ws) = lcs_len vs (w # ws)" using ne at by simp
      then show ?thesis using "4.IH"(3) [OF ne False "4.prems"(1,2) v(1) "4.prems"(4) v(2) "4.prems"(6)] ne False by simp
    qed
  qed
qed

lemma inserted_fields_hunks:
  "\<exists>hs ks ho. hunks_of (split_whitespace old) (split_whitespace new) hs ks \<and>
    (\<forall>zs. subseq zs (split_whitespace old) \<and> subseq zs (split_whitespace new) \<longrightarrow> length zs \<le> length ks) \<and>
    flush_hunks alnum hs \<lparr>ho_out = out, ho_last = [], ho_spoke = False\<rparr> = Some ho \<and>
    collect_inserted_fields alnum old new out = Some (ho_spoke ho, ho_out ho)"
proof -
  define olds where "olds = split_whitespace old"
  define news where "news = split_whitespace new"
  define start where "start = \<lparr>ho_out = out, ho_last = [], ho_spoke = False\<rparr>"
  obtain hs ks where h: "hunks_of olds news hs ks" "length ks = lcs_len olds news"
      "walk_fields alnum (lcs_table olds news) (length news + 1) 0 0 olds news [] [] start = flush_hunks alnum hs start"
    using walk_hunks [OF lcs_table_correct [of olds news] refl, where vs = olds and i = 0 and ws = news and j = 0 and deleted = "[]" and inserted = "[]"
        and alnum = alnum and ho = start] by auto
  obtain ho where ho: "flush_hunks alnum hs start = Some ho" using flush_hunks_total [of alnum hs start] by blast
  have "collect_inserted_fields alnum old new out = Some (ho_spoke ho, ho_out ho)"
  proof (cases "news = []")
    case False
    then show ?thesis using h(3) ho
      by (simp add: collect_inserted_fields_def Let_def olds_def [symmetric] news_def [symmetric] start_def [symmetric])
  next
    case True
    have ks: "ks = []" using h(2) True by simp
    then have "hs = [(olds, [])]" using h(1) True by (auto simp: hunks_of_def length_Suc_conv)
    then have "ho = start" using ho by (simp add: flush_inserted_field_hunk_def)
    then show ?thesis using True by (simp add: collect_inserted_fields_def news_def start_def)
  qed
  moreover have "\<forall>zs. subseq zs olds \<and> subseq zs news \<longrightarrow> length zs \<le> length ks" using lcs_len_upper h(2) by metis
  ultimately show ?thesis using h(1) ho unfolding olds_def news_def start_def by blast
qed

lemma inserted_fields_total: "\<exists>r. collect_inserted_fields alnum old new out = Some r"
  using inserted_fields_hunks [of old new alnum out] by blast

text \<open>
  C39: The spoken fields come from a smallest difference. For all texts, the table and the walk through it
  never fail; the fields of the old and of the new text are the same kept fields with a hunk of deleted and inserted fields
  around each; no common subsequence of the fields is longer than the kept ones; and what is announced is the
  announcement of these hunks in order.
\<close>

theorem inserted_fields_minimal:
  "\<exists>hs ks ho. hunks_of (split_whitespace old) (split_whitespace new) hs ks \<and>
    (\<forall>zs. subseq zs (split_whitespace old) \<and> subseq zs (split_whitespace new) \<longrightarrow> length zs \<le> length ks) \<and>
    flush_hunks alnum hs \<lparr>ho_out = out, ho_last = [], ho_spoke = False\<rparr> = Some ho \<and>
    collect_inserted_fields alnum old new out = Some (ho_spoke ho, ho_out ho)"
  by (rule inserted_fields_hunks)

lemma sample_whitespace: "char_is_whitespace '' ''" "\<not> char_is_whitespace ''a''" "\<not> char_is_whitespace ''b''" "\<not> char_is_whitespace ''c''"
  by (simp_all add: char_is_whitespace_def whitespace_chars_def encode_utf8_def char_of_def bit_0)

lemma sample_split: "split_whitespace ''a c'' = [''a'', ''c'']" "split_whitespace ''a b c'' = [''a'', ''b'', ''c'']"
  by (simp_all add: split_whitespace_def utf8_char_len_def byte_val_def sample_whitespace)

theorem inserted_fields_minimal_witness:
  "\<exists>hs ks. hunks_of (split_whitespace ''a c'') (split_whitespace ''a b c'') hs ks \<and> length [''a'', ''c''] \<le> length ks"
proof -
  have "subseq [''a'', ''c''] (split_whitespace ''a c'') \<and> subseq [''a'', ''c''] (split_whitespace ''a b c'')" unfolding sample_split by simp
  then show ?thesis using inserted_fields_minimal [of "''a c''" "''a b c''" "\<lambda>_. False" "[]"] by blast
qed

theorem field_replacement_exact_witness:
  "\<exists>pre w1 x y w2 post. utf8_chars ''a=42'' = pre @ w1 @ x @ w2 @ post \<and> utf8_chars ''a=90'' = pre @ w1 @ y @ w2 @ post \<and>
    field_replacement (\<lambda>c. c \<noteq> ''='') ''a=42'' ''a=90'' = Some (concat (w1 @ y @ w2)) \<and>
    (post \<noteq> [] \<longrightarrow> \<not> is_word_char (\<lambda>c. c \<noteq> ''='') (hd post))"
  using field_replacement_exact [of "''a=42''" "''a=90''" "\<lambda>c. c \<noteq> ''=''"] by blast

section \<open>Compact changes of an interface\<close>

definition compact_from :: "(bytes \<Rightarrow> bool) \<Rightarrow> nat \<Rightarrow> nat \<Rightarrow> nat \<Rightarrow> (bytes \<times> bytes) list \<Rightarrow> bytes \<Rightarrow> bool" where
  "compact_from alnum old_cursor_row new_cursor_row r rows out \<longleftrightarrow>
     (\<exists>i < length rows. r + i \<noteq> old_cursor_row \<and> r + i \<noteq> new_cursor_row \<and> fst (rows ! i) \<noteq> snd (rows ! i) \<and>
        (\<exists>candidate. collect_inserted_fields alnum (fst (rows ! i)) (snd (rows ! i)) [] = Some (True, candidate) \<and> out = str_trim candidate))"

lemma compact_from_Cons:
  "compact_from alnum oc nc (Suc r) rows out \<Longrightarrow> compact_from alnum oc nc r (row # rows) out"
proof -
  assume "compact_from alnum oc nc (Suc r) rows out"
  then obtain i where "i < length rows \<and> Suc r + i \<noteq> oc \<and> Suc r + i \<noteq> nc \<and> fst (rows ! i) \<noteq> snd (rows ! i) \<and>
      (\<exists>candidate. collect_inserted_fields alnum (fst (rows ! i)) (snd (rows ! i)) [] = Some (True, candidate) \<and> out = str_trim candidate)"
    unfolding compact_from_def by blast
  then show ?thesis unfolding compact_from_def by (intro exI [of _ "Suc i"]) simp
qed

lemma compact_loop_total:
  "length (utf8_chars out) \<le> 32 \<Longrightarrow>
   \<exists>out'. compact_loop alnum oc nc r rows out = Some out' \<and> length (utf8_chars out') \<le> 32 \<and>
     (out' = out \<or> compact_from alnum oc nc r rows out')"
proof (induction rows arbitrary: r out)
  case (Cons row rows)
  obtain old new where row: "row = (old, new)" by (cases row)
  show ?case
  proof (cases "old = new \<or> r = oc \<or> r = nc")
    case True
    then have "compact_loop alnum oc nc r (row # rows) out = compact_loop alnum oc nc (Suc r) rows out" by (simp add: row)
    then show ?thesis using Cons.IH [OF Cons.prems, of "Suc r"] compact_from_Cons by metis
  next
    case False
    obtain found candidate where c: "collect_inserted_fields alnum old new [] = Some (found, candidate)"
      using inserted_fields_total [of alnum old new "[]"] by auto
    define next_out where "next_out = (if \<not> found \<or> length (utf8_chars (str_trim candidate)) = 0 \<or> 32 < length (utf8_chars (str_trim candidate))
        then out else if out = [] \<or> length (utf8_chars (str_trim candidate)) < length (utf8_chars out) then str_trim candidate else out)"
    have step: "compact_loop alnum oc nc r (row # rows) out = compact_loop alnum oc nc (Suc r) rows next_out"
      using False by (simp add: row c next_out_def MAX_COMPACT_INTERFACE_STATE_CHARS_def Let_def)
    have n: "length (utf8_chars next_out) \<le> 32" using Cons.prems by (simp add: next_out_def)
    have "next_out = out \<or> compact_from alnum oc nc r (row # rows) next_out"
    proof (cases "next_out = out")
      case False
      then have "found" "next_out = str_trim candidate" by (auto simp: next_out_def split: if_splits)
      then show ?thesis using c \<open>\<not> (old = new \<or> r = oc \<or> r = nc)\<close> unfolding compact_from_def
        by (intro disjI2 exI [of _ 0]) (simp add: row)
    qed simp
    moreover obtain out' where "compact_loop alnum oc nc (Suc r) rows next_out = Some out'" "length (utf8_chars out') \<le> 32"
        "out' = next_out \<or> compact_from alnum oc nc (Suc r) rows out'"
      using Cons.IH [OF n, of "Suc r"] by blast
    ultimately show ?thesis using step compact_from_Cons by metis
  qed
qed simp

text \<open>
  A compact interface state is short and comes from outside the cursor's rows: for all screens the search returns; what
  it returns has at most 32 characters, and unless it is empty it is what was inserted in one changed row that is neither the
  old nor the new row of the cursor.
\<close>

theorem compact_state_exact:
  "\<exists>out. collect_compact_interface_state_change alnum old new oc nc = Some (out \<noteq> [], out) \<and> length (utf8_chars out) \<le> 32 \<and>
    (out = [] \<or> compact_from alnum oc nc 0 (zip (split_terminator_lf old) (split_terminator_lf new)) out)"
proof -
  obtain out where "compact_loop alnum oc nc 0 (zip (split_terminator_lf old) (split_terminator_lf new)) [] = Some out"
    "length (utf8_chars out) \<le> 32" "out = [] \<or> compact_from alnum oc nc 0 (zip (split_terminator_lf old) (split_terminator_lf new)) out"
    using compact_loop_total [of "[]" alnum oc nc 0 "zip (split_terminator_lf old) (split_terminator_lf new)"] by auto
  then show ?thesis by (auto simp: collect_compact_interface_state_change_def)
qed

section \<open>The logical line of the cursor\<close>

lemma logical_line_start_wrapped:
  "logical_line_start s maximum i rows = Some start \<Longrightarrow>
   start \<le> i \<and> (start = 0 \<or> \<not> row_wrapped (row_at s (start - 1))) \<and> (\<forall>k. start \<le> k \<and> k < i \<longrightarrow> row_wrapped (row_at s k))"
proof (induction s maximum i rows rule: logical_line_start.induct)
  case (2 s maximum i rows)
  show ?case
  proof (cases "row_wrapped (row_at s i)")
    case True
    then have "\<not> maximum \<le> rows" "logical_line_start s maximum i (saturating_add_usize rows 1) = Some start"
      using "2.prems" by (simp_all split: if_splits)
    then show ?thesis using "2.IH" [OF True] True by (auto simp: less_Suc_eq)
  next
    case False
    then show ?thesis using "2.prems" by auto
  qed
qed simp

text \<open>
  Where a report matches, it is the trimmed text of the whole logical line of the cursor: the line starts
  behind an unwrapped row, and every row before the cursor's is wrapped into the next.
\<close>

theorem matching_report_is_the_line:
  assumes "cursor_logical_line_matches s report"
  shows "\<exists>start \<le> length (ts_scrollback s) + cur_row (ts_cursor s).
    (start = 0 \<or> \<not> row_wrapped (row_at s (start - 1))) \<and>
    (\<forall>k. start \<le> k \<and> k < length (ts_scrollback s) + cur_row (ts_cursor s) \<longrightarrow> row_wrapped (row_at s k)) \<and>
    report = str_trim (foldl (\<lambda>line i. append_contents_to (row_at s i) line) []
       [start..<Suc (length (ts_scrollback s) + cur_row (ts_cursor s))])"
  using assms logical_line_start_wrapped
  by (fastforce simp: cursor_logical_line_matches_def Let_def simp del: upt_Suc split: if_splits option.splits)

end
