(* ===== verification/Spec2Isabelle.thy ===== *)
theory Spec2Isabelle
  imports Lector_Prelude Tmux_Control Tmux_Gateway Tmux_Lifecycle Tmux_Input Scheduler_Progress Terminal_Protocol Tmux_Prefix
    Line_Editor Terminal_Update Table_Detection Review_View Scene_Media Scene_Renderer Physical_Lifecycle
    View_History View_Evidence Auto_Read
begin

text \<open>
  Lector is a terminal screen reader: a program between a physical terminal and a shell that
  interprets the terminal stream, speaks what changes and composes its own views, and that can
  attach to tmux servers in control mode (\<^verbatim>\<open>tmux -CC\<close>) and present their panes. This
  development models the byte-level protocols and the state machines on which the rest relies:
  what arrives from tmux and from the terminal, what is sent to panes, how the scene of all panes is
  composed and rendered, when bytes reach the physical terminal, and what the review commands of
  the user see of a screen.

  \<^bold>\<open>Parts and theories\<close>

  \<^item> \<open>Lector_Prelude\<close>, \<open>Rust_Strings\<close>, \<open>Utf8_Text\<close>: result values, bytes, the saturating arithmetic of
    \<^verbatim>\<open>usize\<close>; the string functions of the Rust standard library that the sources use (prefixes,
    suffixes, splitting, decimal and hexadecimal numbers); text as its characters. Bytes are
    \<^typ>\<open>char\<close>, sizes are natural numbers with the width written out wherever the source saturates
    or checks, identifiers are words.
  \<^item> \<open>Stream_Machine\<close>: the interface locales \<open>total_stream\<close> and \<open>fallible_stream\<close> of the byte-wise
    stream consumers. Chunking laws and invariants are proved there once and interpreted on the
    control parser, the gateway router and the probe broker.
  \<^item> \<open>Btree_Map\<close>: the interface locale \<open>ordered_map\<close> of \<^verbatim>\<open>BTreeMap\<close>, interpreted on sorted
    association lists; used by the connection hierarchy, the reply broker, the topology mirror and
    the media of a scene.
  \<^item> \<open>Utf8\<close>, \<open>Terminal_Types\<close>: UTF-8 validity and encoding, and the data exchanged between the
    components (\<^verbatim>\<open>terminal.rs\<close>, parts of \<^verbatim>\<open>presentation.rs\<close> and \<^verbatim>\<open>tmux_panes.rs\<close>).
  \<^item> \<open>Tmux_Control\<close> (\<^verbatim>\<open>tmux_control.rs\<close>): the streaming parser of control mode. Shown: command
    blocks deliver exactly their payload, \<^verbatim>\<open>%output\<close> inverts the octal encoding of the peer,
    independence of chunking, bounds of every buffer, framing, poisoning after an error.
  \<^item> \<open>Tmux_Gateway\<close> (\<^verbatim>\<open>tmux_gateway.rs\<close>): the router that finds the control-mode marker in
    ordinary output. Shown: lifecycle of a gateway, detection at any position and chunking, that
    nothing is lost or altered outside a gateway.
  \<^item> \<open>Tmux_Lifecycle\<close> (\<^verbatim>\<open>tmux_lifecycle.rs\<close>): the forest of nested connections. Shown: no
    orphans and no cycles after any operations, exact subtrees on removal, exact errors.
  \<^item> \<open>Tmux_Input\<close> (\<^verbatim>\<open>tmux_input.rs\<close>): keyboard, paste and mouse input for panes. Shown: the
    hexadecimal \<^verbatim>\<open>send-keys\<close> commands round-trip through the parser of the test peer, report
    commands contain no injected command, mouse positions are translated exactly.
  \<^item> \<open>Output_Scheduler\<close>, \<open>Scheduler_Wire\<close>, \<open>Scheduler_Bounds\<close>, \<open>Scheduler_Progress\<close>
    (\<^verbatim>\<open>output_scheduler.rs\<close>): the queue in front of the physical terminal. The terminal is an
    environment with a script of responses (bytes accepted, blocked, failed). The locale
    \<open>drain_invariant\<close> states what a property has to keep across the steps of one drain; it is
    interpreted for each scheduler property. Shown: a render reported as complete is on the
    wire, every control byte is accounted for over every operation (accepted or refused whole, written
    once and in order, dropped only by a failed drain or a cleanup), bounds of every queue, forced drains
    finish, failures reset the scheduler.
  \<^item> \<open>Terminal_Protocol\<close> (\<^verbatim>\<open>terminal_protocol.rs\<close>, the profile construction of
    \<^verbatim>\<open>main.rs\<close>): capability profile, startup probe broker, shutdown fence, reply and effect
    routing. Shown: exactly the replies to Lector's probes leave the input stream as long as no timeout
    releases a sequence half read, what a timeout releases, buffers are bounded, deadlines and the fence are exact, size replies commute, replies to applications
    refine mailboxes.

  \<^item> \<open>Tmux_Model\<close>, \<open>Tmux_Topology\<close> (\<^verbatim>\<open>tmux_model.rs\<close>): the mirror of the sessions, windows
    and panes of a tmux server. Shown: the references between its maps resolve after any notifications, but
    for the active pane of a window, which can outlive the pane (\<open>closed_window_leaves_active_pane\<close>),
    an inventory replaces the mirror entirely or not at all, bindings send one command.
  \<^item> \<open>Key_Input\<close> (\<^verbatim>\<open>terminal_input.rs\<close>), \<open>Tmux_Prefix\<close> (\<^verbatim>\<open>tmux_prefix.rs\<close>), \<open>Line_Editor\<close>
    (\<^verbatim>\<open>line_editor.rs\<close>): keys, prefix bindings and the editor of one line. The parser and the encoder of the
    terminput crate are parameters, as are the segmentation into graphemes (\<open>gr\<close>) and the
    alphanumeric characters (\<open>alnum\<close>) of the editor; its refinement of two halves of text assumes that ASCII
    text has one grapheme per byte (\<open>segments_ascii\<close>).
  \<^item> \<open>Terminal_Snapshot\<close>, \<open>Terminal_Update\<close> (\<^verbatim>\<open>terminal.rs\<close>, types of the binding crate): cells, rows
    and screens, and how updates of successive parser batches merge. Shown: merged row ranges cover exactly the
    rows of both, operation hints stay ordered and within their limits.
  \<^item> \<open>Table_Model\<close>, \<open>Table_Detection\<close> (\<^verbatim>\<open>table.rs\<close>, \<^verbatim>\<open>table/detection.rs\<close>): tables found
    in the text of a screen, with the alphabetic characters as parameter \<open>alpha\<close>. \<^verbatim>\<open>u16\<close> is written out on natural
    numbers (\<open>wrap16\<close>, \<open>sat_add16\<close>); the search for a data row is a \<open>partial_function\<close> and proved to return.
    Shown: every detected table is well formed, with a header row unless it was found by its fixed widths, and
    the search for a data row returns when it starts inside the table.
  \<^item> \<open>Clipboard\<close> (\<^verbatim>\<open>clipboard.rs\<close>): the ring of clipboards and OSC 52, over the system clipboard as
    parameter.
  \<^item> \<open>Review_Parser\<close>, \<open>Review_Document\<close>, \<open>Review_View\<close> (\<^verbatim>\<open>review/\<close>, \<^verbatim>\<open>views/review.rs\<close>): the vi-like review
    overlay, its key parser, its motions over a document, and the view that joins them. None is a panic.
    Parameters are the alphanumeric characters and the search for a needle. Shown: commands are well formed, brace
    matching is an involution where the row of the partner starts a line, and in every reachable state (\<open>review_reachable\<close>) no key panics and the cursor
    stays in the document.
  \<^item> \<open>Scene_Types\<close>, \<open>Scene_Images\<close>, \<open>Scene_Media\<close>, \<open>Scene_Compose\<close>, \<open>Scene_Damage\<close>, \<open>Scene_Wire\<close>
    (\<^verbatim>\<open>presentation.rs\<close>): panes, overlays and images composed into one scene, its damage, and its encodings. Shown: what each
    cell of a scene shows, exact fragments of images, transparency of the media stores, damage that covers every
    change, and the attributes and modes that the terminal reaches. Hypotheses: rows as wide as their pane
    (\<open>rows_fit\<close>, \<open>scene_fits\<close>), fewer than \<open>2 ^ 32\<close> images (\<open>media_countable\<close>), and, for the
    renderer, damage that accounts for the changes of a scene (\<open>damage_accounts\<close>) and scrolling regions of more than
    one row (\<open>regular_operation\<close>).
  \<^item> \<open>Scene_Render\<close>, \<open>Scene_Semantic\<close>, \<open>Scene_Reader\<close>, \<open>Scene_Renderer\<close> (\<^verbatim>\<open>presentation.rs\<close>): the incremental
    renderer, its fast path that replays scrolls, insertions and deletions, and the full reconstruction. Two reference
    terminals read the bytes: \<open>vt\<close> the edits of the fast path, \<open>read_page\<close> everything a reconstruction sends but the
    images. Shown: \<open>render\<close> is total for every state of \<open>renderer_reachable\<close>, and when the damage accounts for the
    changes (\<open>damage_accounts\<close>) it leaves the terminal with the intended scene. That hypothesis can fail
    (\<open>replaced_render_loses_damage\<close>, \<open>one_row_delete_diverges\<close>).
  \<^item> \<open>Physical_Lifecycle\<close> (\<^verbatim>\<open>presentation.rs\<close>): entering and leaving the physical terminal. Shown: whatever
    the order of the operations and the modes found at first, outside the active state the alternate screen is left, focus
    reports are as they were if that was known, and the other modes have fixed reset values. Drawing is assumed to leave
    mode 1049 alone and focus reports on.
  \<^item> \<open>View_History\<close> (\<^verbatim>\<open>view.rs\<close>): history receipts. The engine is a sequence of history generations which agree
    where they share a lineage of rows (\<open>generations_ok\<close>); the states considered come from resizes that begin a new
    lineage and from transition frames of the presented size. Shown: an accepted receipt applies, and every admitted
    frame brings exactly the history it was captured from; after a resize within a lineage one can be rejected
    (\<open>same_size_resize_rejects\<close>).
  \<^item> \<open>View_Evidence\<close> (\<^verbatim>\<open>view.rs\<close>): the bounded journal of parser summaries behind speech. The log of all
    evidence since tracking began is kept beside the state (\<open>evidence_reachable\<close>). Shown: a summary that counts as exact
    is the merge of all evidence in its range, any other holds no text; the journal is bounded. The sizes in
    memory are a parameter.
  \<^item> \<open>Auto_Read\<close> (\<^verbatim>\<open>screen_reader/auto_read.rs\<close>): the pure functions of automatic reading. Shown: spoken
    fields come from a smallest difference of the two lines, a replaced field is announced as its changed part in whole
    words, and no slice is out of range. The decision what to read, over a live view and its hooks, is not modelled.

  \<^bold>\<open>How the parts interact\<close>

  Bytes of the physical terminal go through the probe broker to the key parser and on to a pane or
  to an overlay. Output of a shell goes through the gateway router; inside a gateway it goes to
  the control parser, whose notifications drive the topology mirror and the connection forest. A view
  interprets output, the scene composes the committed views, the renderer turns the difference to the presented scene
  into bytes, and the scheduler writes them. Its completion carries the frames back into the
  views, which is the refinement of \<open>View_History\<close>.

  \<^bold>\<open>Fuel and bounds\<close>

  Loops are structural recursion or functions with a termination proof. Explicit fuel occurs in
  \<open>collect_descendants\<close> (the depth of the call stack; connections nest at most
  \<^verbatim>\<open>MAX_CONNECTION_DEPTH\<close>, 64, deep, and the invariant shows that the fuel given there always suffices) and in the
  trimming of white space (the length of the string). A drain of the scheduler recurses over the responses of the
  terminal.

  \<^bold>\<open>Not modelled\<close>

  \<^item> The event loop and its wiring (\<^verbatim>\<open>app.rs\<close>, \<^verbatim>\<open>app/\<close>, \<^verbatim>\<open>main.rs\<close>): file descriptors, polling,
    timers and calls between the parts above.
  \<^item> Process and device input and output (\<^verbatim>\<open>pty.rs\<close>, \<^verbatim>\<open>host_command.rs\<close>, \<^verbatim>\<open>platform/\<close>), speech servers,
    drivers and backends: system calls, threads and foreign libraries.
  \<^item> The Ghostty terminal engine and its binding crate, the pane store over it (\<^verbatim>\<open>tmux_panes.rs\<close>), the rest of
    \<^verbatim>\<open>view.rs\<close>, the overlays which draw through the engine (\<^verbatim>\<open>views/\<close>) and the render oracle: their behaviour is that of a
    library which is not in the repository.
  \<^item> The Lua scripting layer, the commands and the rest of the screen reader: bindings of an interpreter and heuristics over live
    views, speech and timers.
  \<^item> Test harness, benchmarks, packaging.
\<close>

end
